(* ===== verification/PipeX_Prelude.thy ===== *)
theory PipeX_Prelude
  imports "HOL-Library.Word"
begin

text \<open>
  What every component of the development shares: bytes and Node.js buffers, the big-endian
  reads and writes of \<open>node:buffer\<close>, results that may be an exception, JavaScript's safe
  integers, decimal rendering of the numbers that occur in error messages, and the generic
  lemmas about them.  The collection \<open>buffer_simps\<close> holds the length and slicing facts that the
  component proofs rewrite with.
\<close>

named_theorems buffer_simps "lengths and slices of buffers"
named_theorems result_simps "sequencing of results that may be an exception"

section \<open>Bytes and buffers\<close>

type_synonym byte = "8 word"
type_synonym buffer = "byte list"

text \<open>\<open>Buffer.from(s, 'utf8')\<close> on the ASCII strings that the code passes to it.\<close>

definition utf8 :: "string \<Rightarrow> buffer" where
  "utf8 s = map of_char s"

text \<open>\<open>buffer.subarray(from, to)\<close> for \<open>0 \<le> from \<le> to\<close>; like Node.js it stops at the end.\<close>

definition subarray :: "buffer \<Rightarrow> nat \<Rightarrow> nat \<Rightarrow> buffer" where
  "subarray b from to = take (to - from) (drop from b)"

text \<open>
  \<open>src.copy(dst, pos)\<close>: overwrites \<open>dst\<close> from \<open>pos\<close> with the bytes of \<open>src\<close>, as many as fit.
\<close>

definition buf_copy :: "buffer \<Rightarrow> nat \<Rightarrow> buffer \<Rightarrow> buffer" where
  "buf_copy dst pos src =
     take pos dst @ take (length dst - pos) src @ drop (pos + length src) dst"

text \<open>\<open>buffer.fill(0)\<close>.\<close>

definition zero_fill :: "buffer \<Rightarrow> buffer" where
  "zero_fill b = replicate (length b) 0"

text \<open>\<open>Buffer.concat(list, len)\<close>: truncated to \<open>len\<close> bytes, or padded with zeros up to it.\<close>

definition buf_concat :: "buffer list \<Rightarrow> nat \<Rightarrow> buffer" where
  "buf_concat bs len = take len (concat bs) @ replicate (len - length (concat bs)) 0"

lemma length_utf8 [simp]: "length (utf8 s) = length s"
  by (simp add: utf8_def)

lemma length_subarray [buffer_simps]: "length (subarray b i j) = min (j - i) (length b - i)"
  by (simp add: subarray_def)

lemma subarray_append_exact [simp]:
  "length xs = n \<Longrightarrow> subarray (xs @ ys) 0 n = xs"
  by (simp add: subarray_def)

lemma buf_copy_fits:
  "pos + length src \<le> length dst \<Longrightarrow>
    buf_copy dst pos src = take pos dst @ src @ drop (pos + length src) dst"
  by (simp add: buf_copy_def)

lemma length_buf_copy [buffer_simps]:
  "pos + length src \<le> length dst \<Longrightarrow> length (buf_copy dst pos src) = length dst"
  by (simp add: buf_copy_fits)

lemma take_buf_copy [buffer_simps]:
  "pos + length src \<le> length dst \<Longrightarrow> n = pos + length src \<Longrightarrow>
    take n (buf_copy dst pos src) = take pos dst @ src"
  by (simp add: buf_copy_fits min_absorb2)

lemma drop_buf_copy [buffer_simps]:
  "pos + length src \<le> length dst \<Longrightarrow> n = pos + length src \<Longrightarrow>
    drop n (buf_copy dst pos src) = drop n dst"
  by (simp add: buf_copy_fits min_absorb2)

lemma buf_copy_Nil [simp]: "buf_copy dst pos [] = dst"
  by (simp add: buf_copy_def)

lemma buf_copy_buf_copy:
  assumes "pos + length xs + length ys \<le> length dst"
  shows "buf_copy (buf_copy dst pos xs) (pos + length xs) ys = buf_copy dst pos (xs @ ys)"
  using assms by (simp add: buf_copy_fits min_absorb2 ac_simps)

lemma buf_copy_full:
  "length src = length dst \<Longrightarrow> buf_copy dst 0 src = src"
  by (simp add: buf_copy_def)

text \<open>Fields written one after the other into a buffer of zeros.\<close>

lemma buf_copy_field:
  assumes "length xs = pos" "length src + n = m"
  shows "buf_copy (xs @ replicate m 0) pos src = (xs @ src) @ replicate n 0"
  using assms by (auto simp: buf_copy_def)

lemma length_zero_fill [simp]: "length (zero_fill b) = length b"
  by (simp add: zero_fill_def)

lemma set_zero_fill: "set (zero_fill b) \<subseteq> {0}"
  by (auto simp: zero_fill_def)

lemma zero_fill_idem [simp]: "zero_fill (zero_fill b) = zero_fill b"
  by (simp add: zero_fill_def)

lemma buf_concat_exact: "length (concat bs) = len \<Longrightarrow> buf_concat bs len = concat bs"
  by (simp add: buf_concat_def)

section \<open>Big-endian integers\<close>

text \<open>
  \<open>be_val\<close> is what \<open>readUInt8\<close>, \<open>readUInt16BE\<close>, \<open>readUInt32BE\<close> and \<open>readBigUInt64BE\<close> return
  for the bytes they cover; \<open>be_bytes n v\<close> is what the writers of width \<open>n\<close> store.
\<close>

definition be_val :: "buffer \<Rightarrow> nat" where
  "be_val bs = foldl (\<lambda>v b. v * 256 + unat b) 0 bs"

fun be_bytes :: "nat \<Rightarrow> nat \<Rightarrow> buffer" where
  "be_bytes 0 v = []"
| "be_bytes (Suc n) v = be_bytes n (v div 256) @ [of_nat (v mod 256)]"

lemma length_be_bytes [simp]: "length (be_bytes n v) = n"
  by (induction n arbitrary: v) auto

lemma be_val_Nil [simp]: "be_val [] = 0"
  by (simp add: be_val_def)

lemma be_val_snoc [simp]: "be_val (bs @ [b]) = be_val bs * 256 + unat b"
  by (simp add: be_val_def)

lemma be_val_singleton [simp]: "be_val [b] = unat b"
  by (simp add: be_val_def)

lemma unat_byte_less [simp]: "unat (b :: byte) < 256"
  using unsigned_less[of b] by simp

lemma unat_of_nat_byte [simp]: "unat (of_nat v :: byte) = v mod 256"
  by (simp add: unat_of_nat)

lemma be_val_be_bytes: "be_val (be_bytes n v) = v mod 256 ^ n"
proof (induction n arbitrary: v)
  case 0
  then show ?case by simp
next
  case (Suc n)
  have "v mod 256 ^ Suc n = (v div 256) mod 256 ^ n * 256 + v mod 256"
    by (simp add: mod_mult2_eq mult.commute)
  with Suc show ?case by simp
qed

lemma be_val_be_bytes_exact [simp]: "v < 256 ^ n \<Longrightarrow> be_val (be_bytes n v) = v"
  by (simp add: be_val_be_bytes)

lemma be_val_less: "be_val bs < 256 ^ length bs"
proof (induction bs rule: rev_induct)
  case Nil
  then show ?case by simp
next
  case (snoc b bs)
  have "be_val bs * 256 + unat b < (be_val bs + 1) * 256"
    using unat_byte_less[of b] by simp
  also have "\<dots> \<le> 256 ^ length bs * 256"
    using snoc by (intro mult_le_mono1) simp
  finally show ?case by (simp add: mult.commute)
qed

lemma be_bytes_be_val: "length bs = n \<Longrightarrow> be_bytes n (be_val bs) = bs"
proof (induction bs arbitrary: n rule: rev_induct)
  case Nil
  then show ?case by simp
next
  case (snoc b bs)
  from snoc.prems have n: "n = Suc (length bs)" by simp
  have "(be_val bs * 256 + unat b) div 256 = be_val bs"
    using unat_byte_less[of b] by simp
  moreover have "(be_val bs * 256 + unat b) mod 256 = unat b"
    by simp
  ultimately show ?case
    by (simp add: n snoc.IH)
qed

text \<open>\<open>buffer.readUIntBE(offset)\<close> of width \<open>n\<close>; every call is made after a length check.\<close>

definition read_be :: "nat \<Rightarrow> buffer \<Rightarrow> nat \<Rightarrow> nat" where
  "read_be n b off = be_val (subarray b off (off + n))"

lemma read_be_slice:
  "length xs = off \<Longrightarrow> length ys = n \<Longrightarrow> read_be n (xs @ ys @ zs) off = be_val ys"
  by (simp add: read_be_def subarray_def)

lemma read_be_less: "read_be n b off < 256 ^ n"
proof -
  have "length (subarray b off (off + n)) \<le> n"
    by (simp add: buffer_simps)
  then have "(256::nat) ^ length (subarray b off (off + n)) \<le> 256 ^ n"
    by (intro power_increasing) auto
  then show ?thesis
    unfolding read_be_def using be_val_less order_less_le_trans by blast
qed

section \<open>JavaScript numbers used as integers\<close>

text \<open>\<open>Number.MAX_SAFE_INTEGER\<close> and \<open>Number.isSafeInteger\<close> on an integer.\<close>

definition max_safe_integer :: nat where
  "max_safe_integer = 9007199254740991"

definition is_safe_integer :: "int \<Rightarrow> bool" where
  "is_safe_integer n \<longleftrightarrow> - int max_safe_integer \<le> n \<and> n \<le> int max_safe_integer"

text \<open>\<open>Math.ceil(a / b)\<close> for a positive divisor.\<close>

definition ceil_div :: "nat \<Rightarrow> nat \<Rightarrow> nat" where
  "ceil_div a b = (a + b - 1) div b"

lemma ceil_div_mono: "a \<le> a' \<Longrightarrow> ceil_div a b \<le> ceil_div a' b"
  unfolding ceil_div_def by (intro div_le_mono) simp

lemma ceil_div_0 [simp]: "ceil_div 0 b = 0"
  by (cases b) (auto simp: ceil_div_def)

lemma ceil_div_step:
  assumes "0 < b" "b \<le> a"
  shows "ceil_div a b = Suc (ceil_div (a - b) b)"
proof -
  have "(a + b - 1) div b = (b + (a - 1)) div b"
    using assms by (intro arg_cong[of _ _ "\<lambda>x. x div b"]) simp
  also have "\<dots> = Suc ((a - 1) div b)"
    using assms by (simp only: div_add_self1)
  finally show ?thesis using assms by (simp add: ceil_div_def)
qed

lemma ceil_div_small: "0 < a \<Longrightarrow> a \<le> b \<Longrightarrow> ceil_div a b = 1"
  unfolding ceil_div_def by (rule div_nat_eqI) simp_all

lemma ceil_div_multiple: "0 < b \<Longrightarrow> ceil_div (n * b) b = n"
  by (induction n) (auto simp: ceil_div_step)

section \<open>Numbers in messages\<close>

fun nat_digits :: "nat \<Rightarrow> string" where
  "nat_digits n =
     (if n < 10 then [char_of (48 + n)] else nat_digits (n div 10) @ [char_of (48 + n mod 10)])"

declare nat_digits.simps [simp del]

definition show_int :: "int \<Rightarrow> string" where
  "show_int n = (if n < 0 then ''-'' @ nat_digits (nat (- n)) else nat_digits (nat n))"

section \<open>Results that may be an exception\<close>

text \<open>A call that throws is \<open>Inl\<close>, a call that returns is \<open>Inr\<close>; \<open>rbind\<close> is sequencing.\<close>

definition rbind :: "'e + 'a \<Rightarrow> ('a \<Rightarrow> 'e + 'b) \<Rightarrow> 'e + 'b" where
  "rbind r f = (case r of Inl e \<Rightarrow> Inl e | Inr a \<Rightarrow> f a)"

text \<open>\<open>if (c) throw e;\<close>\<close>

definition throw_if :: "bool \<Rightarrow> 'e \<Rightarrow> 'e + unit" where
  "throw_if c e = (if c then Inl e else Inr ())"

lemma rbind_Inl [simp, result_simps]: "rbind (Inl e) f = Inl e"
  by (simp add: rbind_def)

lemma rbind_Inr [simp, result_simps]: "rbind (Inr a) f = f a"
  by (simp add: rbind_def)

lemma rbind_assoc: "rbind (rbind r f) g = rbind r (\<lambda>a. rbind (f a) g)"
  by (simp add: rbind_def split: sum.splits)

lemma rbind_eq_Inr [result_simps]: "rbind r f = Inr b \<longleftrightarrow> (\<exists>a. r = Inr a \<and> f a = Inr b)"
  by (simp add: rbind_def split: sum.splits)

lemma throw_if_eq_Inr [simp, result_simps]: "throw_if c e = Inr u \<longleftrightarrow> \<not> c"
  by (simp add: throw_if_def)

lemma throw_if_False [simp]: "throw_if False e = Inr ()"
  by (simp add: throw_if_def)

lemma throw_if_True [simp]: "throw_if True e = Inl e"
  by (simp add: throw_if_def)

lemma rbind_throw_if [result_simps]:
  "rbind (throw_if c e) f = (if c then Inl e else f ())"
  by (simp add: throw_if_def)

text \<open>Whether the call returned.\<close>

definition returns :: "'e + 'a \<Rightarrow> bool" where
  "returns r \<longleftrightarrow> (\<exists>a. r = Inr a)"

lemma returns_simps [simp]: "returns (Inr a)" "\<not> returns (Inl e)"
  by (simp_all add: returns_def)

section \<open>Filling a buffer from chunks\<close>

text \<open>
  \<open>copied = Math.min(target.length - filled, input.length - offset); input.copy(target, filled, offset,
  offset + copied); filled += copied; offset += copied\<close>: the buffer, its fill and the rest of the input.
\<close>

definition fill_from :: "buffer \<Rightarrow> nat \<Rightarrow> buffer \<Rightarrow> buffer \<times> nat \<times> buffer" where
  "fill_from target filled rest =
     (let copied = min (length target - filled) (length rest) in
      (buf_copy target filled (take copied rest), filled + copied, drop copied rest))"

lemma fill_from_rest:
  "fill_from target n rest = (target', n', rest') \<Longrightarrow> length rest' \<le> length rest"
  "fill_from target n rest = (target', n', rest') \<Longrightarrow> n < length target \<Longrightarrow> rest \<noteq> [] \<Longrightarrow>
     length rest' < length rest"
  by (auto simp: fill_from_def Let_def)

lemma fill_from_Nil: "n \<le> length target \<Longrightarrow> fill_from target n [] = (target, n, [])"
  by (simp add: fill_from_def)

text \<open>One byte fills the buffer, or leaves it to be filled by what follows.\<close>

lemma fill_from_last:
  "Suc n = length target \<Longrightarrow> fill_from target n (b # bs) = (buf_copy target n [b], Suc n, bs)"
proof -
  assume "Suc n = length target"
  then have "length target - n = Suc 0" by simp
  then show ?thesis by (simp add: fill_from_def Let_def)
qed

lemma fill_from_one:
  "n < length target \<Longrightarrow> fill_from target n [b] = (buf_copy target n [b], Suc n, [])"
  by (simp add: fill_from_def Let_def Suc_le_eq)

lemma fill_from_more:
  assumes "Suc n < length target"
  shows "fill_from target n (b # bs) = fill_from (buf_copy target n [b]) (Suc n) bs"
proof -
  let ?m = "min (length target - Suc n) (length bs)"
  have "buf_copy (buf_copy target n [b]) (n + length [b]) (take ?m bs) = buf_copy target n ([b] @ take ?m bs)"
    using assms by (intro buf_copy_buf_copy) simp
  moreover have "min (length target - n) (Suc (length bs)) = Suc ?m" using assms by simp
  ultimately show ?thesis
    using assms by (simp add: fill_from_def Let_def length_buf_copy)
qed

lemma fill_from_length:
  "n \<le> length target \<Longrightarrow> fill_from target n rest = (target', n', rest') \<Longrightarrow>
     length target' = length target \<and> n' \<le> length target"
  by (auto simp: fill_from_def Let_def length_buf_copy)

lemma fill_from_full:
  "length target \<le> length rest \<Longrightarrow>
     fill_from target 0 rest = (take (length target) rest, length target, drop (length target) rest)"
  by (simp add: fill_from_def Let_def buf_copy_full min_absorb1)

lemma fill_from_short:
  "length rest < length target \<Longrightarrow> \<exists>t. fill_from target 0 rest = (t, length rest, []) \<and> length t = length target"
  by (simp add: fill_from_def Let_def length_buf_copy)

section \<open>Lists cut into pieces\<close>

text \<open>
  \<open>for (offset = 0; offset < xs.length; offset += n) ... xs.subarray(offset, offset + n)\<close>:
  the pieces such a loop visits.  A width of zero would make the loop diverge; no caller passes it.
\<close>

function pieces :: "nat \<Rightarrow> 'a list \<Rightarrow> 'a list list" where
  "pieces n xs = (if xs = [] \<or> n = 0 then [] else take n xs # pieces n (drop n xs))"
  by pat_completeness auto
termination
  by (relation "measure (\<lambda>(n, xs). length xs)") auto

declare pieces.simps [simp del]

lemma pieces_Nil [simp]: "pieces n [] = []"
  by (simp add: pieces.simps)

lemma pieces_step: "xs \<noteq> [] \<Longrightarrow> 0 < n \<Longrightarrow> pieces n xs = take n xs # pieces n (drop n xs)"
  by (simp add: pieces.simps)

lemma concat_pieces: "0 < n \<Longrightarrow> concat (pieces n xs) = xs"
proof (induction n xs rule: pieces.induct)
  case (1 n xs)
  then show ?case
    by (cases "xs = []") (auto simp: pieces_step)
qed

lemma pieces_sizes: "p \<in> set (pieces n xs) \<Longrightarrow> 0 < length p \<and> length p \<le> n"
proof (induction n xs rule: pieces.induct)
  case (1 n xs)
  then show ?case
    by (cases "xs = [] \<or> n = 0") (auto simp: pieces.simps[of n xs])
qed

lemma length_pieces: "0 < n \<Longrightarrow> length (pieces n xs) = ceil_div (length xs) n"
proof (induction n xs rule: pieces.induct)
  case (1 n xs)
  show ?case
  proof (cases "xs = []")
    case False
    with 1 have IH: "length (pieces n (drop n xs)) = ceil_div (length xs - n) n" by simp
    show ?thesis
    proof (cases "n \<le> length xs")
      case True
      then show ?thesis using False 1 IH by (simp add: pieces_step ceil_div_step)
    next
      case short: False
      then show ?thesis using False 1 IH by (simp add: pieces_step ceil_div_small Suc_leI)
    qed
  qed simp
qed

lemma pieces_append_full:
  "0 < n \<Longrightarrow> length xs = n \<Longrightarrow> pieces n (xs @ ys) = xs # pieces n ys"
  by (subst pieces_step) auto

lemma pieces_last: "0 < length xs \<Longrightarrow> length xs \<le> n \<Longrightarrow> pieces n xs = [xs]"
  by (subst pieces_step) (auto intro: Nat.gr0I)

text \<open>Empty chunks add nothing to what a stream carries.\<close>

lemma concat_filter_nonempty: "concat (filter (\<lambda>c. c \<noteq> []) cs) = concat cs"
  by (induction cs) auto

end
