(* ===== verification/PipeX_Errors.thy ===== *)
theory PipeX_Errors
  imports PipeX_Prelude
begin

text \<open>
  The error classes of \<open>src/core/errors.ts\<close> as one datatype, with the machine-readable code, the
  message and the class hierarchy of each.  Plain \<open>Error\<close>, \<open>TypeError\<close> and \<open>RangeError\<close> objects,
  which the code throws with a message of its own, are the three \<open>Js\<close> constructors.
  \<open>ErrorOptions.cause\<close> is not kept: no code of the package reads it back.
\<close>

section \<open>Codes\<close>

datatype pipex_error_code =
    VALIDATION_FAILED
  | COMPRESSION_FAILED
  | HASHING_FAILED
  | UNSUPPORTED_ALGORITHM
  | UNSUPPORTED_REVERSE
  | UNSUPPORTED_STREAMING
  | INVALID_PLUGIN_CAPABILITY
  | ENCRYPTION_ERROR
  | INVALID_ENCRYPTION_KEY
  | ENCRYPTION_AUTHENTICATION_FAILED
  | OPERATION_ABORTED
  | OPERATION_TIMEOUT
  | KMS_PROVIDER_FAILURE
  | KMS_AUTHENTICATION_FAILED
  | KMS_PROVIDER_AUTHENTICATION_FAILED
  | KMS_PROVIDER_UNAVAILABLE
  | UNSUPPORTED_KMS_OPERATION
  | INVALID_KMS_PROVIDER_CAPABILITY
  | WORKER_POOL_CLOSED
  | WORKER_QUEUE_FULL
  | WORKER_POOL_CLOSE_FAILURE
  | WORKER_TASK_FAILURE

section \<open>Error objects\<close>

text \<open>\<open>KmsOperation\<close> of \<open>types.ts\<close>, a parameter of the KMS errors.\<close>

datatype kms_operation = KmsEncrypt | KmsDecrypt | KmsGenerateDataKey

datatype plugin_capability = CapReversible | CapStreaming

datatype capability_issue =
    MUST_BE_BOOLEAN
  | MISSING_IMPLEMENTATION
  | CONFLICTING_IMPLEMENTATION

datatype kms_capability_issue = KMS_MUST_BE_BOOLEAN | KMS_MISSING_IMPLEMENTATION

text \<open>The \<open>transformName\<close> and \<open>stage\<close> options of the domain errors.\<close>

record error_options =
  transform_name :: "string option"
  stage :: "string option"

definition in_transform :: "string \<Rightarrow> error_options" where
  "in_transform t = \<lparr>transform_name = Some t, stage = None\<rparr>"

definition in_stage :: "string \<Rightarrow> string \<Rightarrow> error_options" where
  "in_stage t s = \<lparr>transform_name = Some t, stage = Some s\<rparr>"

definition at_stage :: "string \<Rightarrow> error_options" where
  "at_stage s = \<lparr>transform_name = None, stage = Some s\<rparr>"

datatype px_error =
    JsError string
  | JsTypeError string
  | JsRangeError string
  | ValidationError error_options
  | CompressionError error_options
  | HashingError error_options
  | UnsupportedAlgorithmError error_options
  | PipelineAbortedError error_options
  | UnsupportedReverseError string
  | UnsupportedStreamingError string
  | InvalidPluginCapabilityError string plugin_capability capability_issue
  | OperationAbortedError
  | OperationTimeoutError
  | KmsProviderError kms_operation
  | KmsAuthenticationError
  | KmsProviderAuthenticationError kms_operation
  | KmsProviderUnavailableError kms_operation
  | UnsupportedKmsOperationError kms_operation
  | InvalidKmsProviderCapabilityError kms_operation kms_capability_issue
  | WorkerPoolClosedError
  | WorkerQueueFullError nat
  | WorkerPoolCloseError
  | WorkerTaskError string
  | EncryptionError string
  | InvalidKeyError
  | AuthenticationError

fun error_code :: "px_error \<Rightarrow> pipex_error_code option" where
  "error_code (JsError m) = None"
| "error_code (JsTypeError m) = None"
| "error_code (JsRangeError m) = None"
| "error_code (ValidationError opt) = Some VALIDATION_FAILED"
| "error_code (CompressionError opt) = Some COMPRESSION_FAILED"
| "error_code (HashingError opt) = Some HASHING_FAILED"
| "error_code (UnsupportedAlgorithmError opt) = Some UNSUPPORTED_ALGORITHM"
| "error_code (PipelineAbortedError opt) = Some OPERATION_ABORTED"
| "error_code (UnsupportedReverseError p) = Some UNSUPPORTED_REVERSE"
| "error_code (UnsupportedStreamingError p) = Some UNSUPPORTED_STREAMING"
| "error_code (InvalidPluginCapabilityError p c i) = Some INVALID_PLUGIN_CAPABILITY"
| "error_code OperationAbortedError = Some OPERATION_ABORTED"
| "error_code OperationTimeoutError = Some OPERATION_TIMEOUT"
| "error_code (KmsProviderError op) = Some KMS_PROVIDER_FAILURE"
| "error_code KmsAuthenticationError = Some KMS_AUTHENTICATION_FAILED"
| "error_code (KmsProviderAuthenticationError op) = Some KMS_PROVIDER_AUTHENTICATION_FAILED"
| "error_code (KmsProviderUnavailableError op) = Some KMS_PROVIDER_UNAVAILABLE"
| "error_code (UnsupportedKmsOperationError op) = Some UNSUPPORTED_KMS_OPERATION"
| "error_code (InvalidKmsProviderCapabilityError op i) = Some INVALID_KMS_PROVIDER_CAPABILITY"
| "error_code WorkerPoolClosedError = Some WORKER_POOL_CLOSED"
| "error_code (WorkerQueueFullError n) = Some WORKER_QUEUE_FULL"
| "error_code WorkerPoolCloseError = Some WORKER_POOL_CLOSE_FAILURE"
| "error_code (WorkerTaskError t) = Some WORKER_TASK_FAILURE"
| "error_code (EncryptionError m) = Some ENCRYPTION_ERROR"
| "error_code InvalidKeyError = Some INVALID_ENCRYPTION_KEY"
| "error_code AuthenticationError = Some ENCRYPTION_AUTHENTICATION_FAILED"

section \<open>Messages\<close>

fun kms_operation_name :: "kms_operation \<Rightarrow> string" where
  "kms_operation_name KmsEncrypt = ''encrypt''"
| "kms_operation_name KmsDecrypt = ''decrypt''"
| "kms_operation_name KmsGenerateDataKey = ''generateDataKey''"

fun capability_name :: "plugin_capability \<Rightarrow> string" where
  "capability_name CapReversible = ''reversible''"
| "capability_name CapStreaming = ''streaming''"

fun capability_details :: "capability_issue \<Rightarrow> string" where
  "capability_details MUST_BE_BOOLEAN = ''must be a boolean when declared''"
| "capability_details MISSING_IMPLEMENTATION = ''is declared but its implementation is missing''"
| "capability_details CONFLICTING_IMPLEMENTATION =
     ''is disabled but its implementation is present''"

fun kms_capability_details :: "kms_capability_issue \<Rightarrow> string" where
  "kms_capability_details KMS_MUST_BE_BOOLEAN = ''must be a boolean when declared''"
| "kms_capability_details KMS_MISSING_IMPLEMENTATION =
     ''is declared but its implementation is missing''"

fun error_message :: "px_error \<Rightarrow> string" where
  "error_message (JsError m) = m"
| "error_message (JsTypeError m) = m"
| "error_message (JsRangeError m) = m"
| "error_message (ValidationError opt) = ''[PipeX] Validation failed''"
| "error_message (CompressionError opt) = ''[PipeX] Compression failed''"
| "error_message (HashingError opt) = ''[PipeX] Hashing failed''"
| "error_message (UnsupportedAlgorithmError opt) = ''[PipeX] Unsupported algorithm''"
| "error_message (PipelineAbortedError opt) = ''[PipeX] Operation aborted''"
| "error_message (UnsupportedReverseError p) =
     ''[PipeX] Plugin '' @ p @ '' does not support reverse operations''"
| "error_message (UnsupportedStreamingError p) =
     ''[PipeX] Plugin '' @ p @ '' does not support stream operations''"
| "error_message (InvalidPluginCapabilityError p c i) =
     ''[PipeX] Plugin '' @ p @ '' has an invalid '' @ capability_name c @ '' capability: ''
       @ capability_details i"
| "error_message OperationAbortedError = ''[PipeX] Operation aborted''"
| "error_message OperationTimeoutError = ''[PipeX] Operation timed out''"
| "error_message (KmsProviderError op) = ''[PipeX] KMS '' @ kms_operation_name op @ '' failed''"
| "error_message KmsAuthenticationError = ''[PipeX] KMS envelope authentication failed''"
| "error_message (KmsProviderAuthenticationError op) =
     ''[PipeX] KMS '' @ kms_operation_name op @ '' authentication failed''"
| "error_message (KmsProviderUnavailableError op) =
     ''[PipeX] KMS '' @ kms_operation_name op @ '' provider unavailable''"
| "error_message (UnsupportedKmsOperationError op) =
     ''[PipeX] KMS provider does not support '' @ kms_operation_name op"
| "error_message (InvalidKmsProviderCapabilityError op i) =
     ''[PipeX] Invalid KMS '' @ kms_operation_name op @ '' capability: ''
       @ kms_capability_details i"
| "error_message WorkerPoolClosedError = ''[PipeX] Worker pool is closed''"
| "error_message (WorkerQueueFullError n) =
     ''[PipeX] Worker queue is full (maximum '' @ nat_digits n @ '' waiting tasks)''"
| "error_message WorkerPoolCloseError = ''[PipeX] Worker pool failed to close cleanly''"
| "error_message (WorkerTaskError t) = ''[PipeX] Worker task '' @ t @ '' failed''"
| "error_message (EncryptionError m) = m"
| "error_message InvalidKeyError = ''[PipeX] Encryption key must be a 32-byte Buffer''"
| "error_message AuthenticationError = ''[PipeX] Encrypted data authentication failed''"

section \<open>The class hierarchy\<close>

text \<open>
  \<open>instanceof\<close>, for the three classes that have subclasses: \<open>PipeXError\<close>, \<open>PipelineAbortedError\<close>
  (whose subclass is \<open>OperationAbortedError\<close>) and the rest, which are leaves.
\<close>

definition instanceof_PipeXError :: "px_error \<Rightarrow> bool" where
  "instanceof_PipeXError e \<longleftrightarrow> error_code e \<noteq> None"

fun instanceof_PipelineAbortedError :: "px_error \<Rightarrow> bool" where
  "instanceof_PipelineAbortedError (PipelineAbortedError opt) = True"
| "instanceof_PipelineAbortedError OperationAbortedError = True"
| "instanceof_PipelineAbortedError e = False"

text \<open>\<open>err.message.startsWith('[PipeX]')\<close>, the test by which callers recognise their own errors.\<close>

definition pipex_prefix :: string where
  "pipex_prefix = ''[PipeX]''"

definition is_pipex_message :: "string \<Rightarrow> bool" where
  "is_pipex_message m \<longleftrightarrow> take 7 m = pipex_prefix"

lemma is_pipex_message_append [simp]:
  "is_pipex_message (CHR ''['' # CHR ''P'' # CHR ''i'' # CHR ''p'' # CHR ''e'' # CHR ''X''
     # CHR '']'' # m)"
  by (simp add: is_pipex_message_def pipex_prefix_def)

lemma error_message_is_pipex:
  "instanceof_PipeXError e \<Longrightarrow> (\<And>m. e \<noteq> EncryptionError m) \<Longrightarrow> is_pipex_message (error_message e)"
  by (cases e) (auto simp: instanceof_PipeXError_def)

lemma aborted_iff_code:
  "instanceof_PipelineAbortedError e \<longleftrightarrow> error_code e = Some OPERATION_ABORTED"
  by (cases e) auto

end
