(* ===== verification/Node_Streams.thy ===== *)
theory Node_Streams
  imports PipeX_Errors
begin

text \<open>
  The contract of a \<open>node:stream\<close> \<open>Transform\<close> as the package uses it, and what follows from it.
  A handler (\<open>transform\<close>, \<open>flush\<close>) ends in an outcome: the chunks it pushed before it ended, and
  either the error it passed to its callback (\<open>Inl\<close>) or the new state of its closure variables
  (\<open>Inr\<close>).  A stage whose state after an error matters carries it in its error type.  Node.js calls
  \<open>transform\<close> once per chunk in order, stops at the first error, and calls \<open>flush\<close> after the last
  chunk; what was pushed before an error has left the stage.

  The locale \<open>incremental\<close> is the contract of a consumer that works through its input without
  depending on where the input was cut into chunks.  Its laws are stated for one element at a time;
  the lemmas inside it lift them to any two ways of cutting the same input.  The locale \<open>metered\<close>
  is the contract of a stage that lets its input through until a budget is used up.
\<close>

type_synonym ('s, 'o, 'e) outcome = "'o list \<times> ('e + 's)"

text \<open>Sequencing: the second part runs from the new state only if the first did not fail.\<close>

definition then_do ::
  "('s, 'o, 'e) outcome \<Rightarrow> ('s \<Rightarrow> ('t, 'o, 'e) outcome) \<Rightarrow> ('t, 'o, 'e) outcome" where
  "then_do r f =
     (case r of (out, Inl e) \<Rightarrow> (out, Inl e)
      | (out, Inr s) \<Rightarrow> (case f s of (out', r') \<Rightarrow> (out @ out', r')))"

definition succeeds :: "('s, 'o, 'e) outcome \<Rightarrow> bool" where
  "succeeds r \<longleftrightarrow> returns (snd r)"

definition outputs :: "('s, 'o, 'e) outcome \<Rightarrow> 'o list" where
  "outputs r = fst r"

lemma then_do_Inr [simp]:
  "then_do (out, Inr s) f = (case f s of (out', r') \<Rightarrow> (out @ out', r'))"
  by (simp add: then_do_def)

lemma then_do_Inl [simp]: "then_do (out, Inl e) f = (out, Inl e)"
  by (simp add: then_do_def)

lemma then_do_return [simp]: "then_do ([], Inr s) f = f s"
  by (simp split: prod.splits)

lemma then_do_unit [simp]: "then_do r (\<lambda>s. ([], Inr s)) = r"
  by (cases r) (auto simp: then_do_def split: sum.splits)

lemma then_do_assoc:
  "then_do (then_do r f) g = then_do r (\<lambda>s. then_do (f s) g)"
  by (cases r) (auto simp: then_do_def split: sum.splits prod.splits)

lemma then_do_cong [fundef_cong]:
  assumes "r = r'" and "\<And>s out. r' = (out, Inr s) \<Longrightarrow> f s = g s"
  shows "then_do r f = then_do r' g"
proof -
  obtain out e where r: "r' = (out, e)" by (cases r')
  with assms show ?thesis by (cases e) auto
qed

lemma then_do_eq_Inr:
  "then_do r f = (out', Inr s') \<longleftrightarrow>
     (\<exists>s out out2. r = (out, Inr s) \<and> f s = (out2, Inr s') \<and> out' = out @ out2)"
  by (cases r) (auto simp: then_do_def split: sum.splits prod.splits)

lemma succeeds_simps [simp]: "succeeds (out, Inr s)" "\<not> succeeds (out, Inl e)"
  by (simp_all add: succeeds_def)

lemma outputs_simps [simp]: "outputs (out, e) = out"
  by (simp add: outputs_def)

lemma succeeds_iff: "succeeds r \<longleftrightarrow> (\<exists>out s. r = (out, Inr s))"
  by (cases r) (auto simp: succeeds_def returns_def)

section \<open>Driving a transform\<close>

fun run_chunks :: "('s \<Rightarrow> 'c \<Rightarrow> ('s, 'o, 'e) outcome) \<Rightarrow> 's \<Rightarrow> 'c list \<Rightarrow> ('s, 'o, 'e) outcome" where
  "run_chunks tr s [] = ([], Inr s)"
| "run_chunks tr s (c # cs) = then_do (tr s c) (\<lambda>s'. run_chunks tr s' cs)"

definition run_transform ::
  "('s \<Rightarrow> 'c \<Rightarrow> ('s, 'o, 'e) outcome) \<Rightarrow> ('s \<Rightarrow> ('s, 'o, 'e) outcome) \<Rightarrow> 's \<Rightarrow> 'c list \<Rightarrow> ('s, 'o, 'e) outcome"
where
  "run_transform tr fl s cs = then_do (run_chunks tr s cs) fl"

lemma run_chunks_append:
  "run_chunks tr s (cs @ ds) = then_do (run_chunks tr s cs) (\<lambda>s'. run_chunks tr s' ds)"
  by (induction cs arbitrary: s) (auto simp: then_do_assoc intro!: then_do_cong)

text \<open>An invariant that every successful handler keeps holds after any number of chunks.\<close>

lemma run_chunks_invariant:
  assumes "\<And>s c s' out. I s \<Longrightarrow> tr s c = (out, Inr s') \<Longrightarrow> I s'"
  shows "I s \<Longrightarrow> run_chunks tr s cs = (out, Inr s') \<Longrightarrow> I s'"
proof (induction cs arbitrary: s out)
  case (Cons c cs)
  from Cons.prems(2) obtain s1 o1 o2
    where c: "tr s c = (o1, Inr s1)" and cs: "run_chunks tr s1 cs = (o2, Inr s')"
    by (auto simp: then_do_eq_Inr)
  from Cons.prems(1) c have "I s1" by (rule assms)
  then show ?case using cs by (rule Cons.IH)
qed simp

text \<open>An error of the run is the error of one of the calls.\<close>

lemma then_do_eq_Inl:
  "then_do r f = (out', Inl e) \<longleftrightarrow>
     r = (out', Inl e) \<or> (\<exists>s out out2. r = (out, Inr s) \<and> f s = (out2, Inl e) \<and> out' = out @ out2)"
  by (cases r) (auto simp: then_do_def split: sum.splits prod.splits)

lemma run_chunks_error:
  "run_chunks tr s cs = (out, Inl e) \<Longrightarrow> \<exists>s1 c out1. c \<in> set cs \<and> tr s1 c = (out1, Inl e)"
  by (induction cs arbitrary: s out) (fastforce simp: then_do_eq_Inl)+

section \<open>Consumers that do not depend on the chunking\<close>

locale incremental =
  fixes feed :: "'s \<Rightarrow> 'i list \<Rightarrow> ('s, 'o, 'e) outcome"
    and inv :: "'s \<Rightarrow> bool"
  assumes feed_Nil: "inv s \<Longrightarrow> feed s [] = ([], Inr s)"
    and feed_Cons: "inv s \<Longrightarrow> feed s (b # bs) = then_do (feed s [b]) (\<lambda>s'. feed s' bs)"
    and feed_inv: "inv s \<Longrightarrow> feed s [b] = (out, Inr s') \<Longrightarrow> inv s'"
begin

lemma feed_append:
  "inv s \<Longrightarrow> feed s (xs @ ys) = then_do (feed s xs) (\<lambda>s'. feed s' ys)"
proof (induction xs arbitrary: s)
  case Nil
  then show ?case by (simp add: feed_Nil)
next
  case (Cons b xs)
  have "feed s ((b # xs) @ ys) = then_do (feed s [b]) (\<lambda>s'. feed s' (xs @ ys))"
    using feed_Cons[OF Cons.prems, of b "xs @ ys"] by simp
  also have "\<dots> = then_do (feed s [b]) (\<lambda>s'. then_do (feed s' xs) (\<lambda>s''. feed s'' ys))"
    by (rule then_do_cong) (auto intro: Cons.IH feed_inv[OF Cons.prems])
  also have "\<dots> = then_do (feed s (b # xs)) (\<lambda>s''. feed s'' ys)"
    by (simp only: then_do_assoc feed_Cons[OF Cons.prems, of b xs])
  finally show ?case .
qed

lemma feed_inv_all:
  "inv s \<Longrightarrow> feed s bs = (out, Inr s') \<Longrightarrow> inv s'"
proof (induction bs arbitrary: s out)
  case Nil
  then show ?case by (simp add: feed_Nil)
next
  case (Cons b bs)
  from Cons.prems(2) have "then_do (feed s [b]) (\<lambda>s'. feed s' bs) = (out, Inr s')"
    by (simp only: feed_Cons[OF Cons.prems(1), of b bs])
  then obtain s1 o1 o2 where b: "feed s [b] = (o1, Inr s1)" and bs: "feed s1 bs = (o2, Inr s')"
    by (auto simp: then_do_eq_Inr)
  from Cons.prems(1) b have "inv s1" by (rule feed_inv)
  then show ?case using bs by (rule Cons.IH)
qed

lemma run_chunks_feed:
  "inv s \<Longrightarrow> run_chunks feed s cs = feed s (concat cs)"
proof (induction cs arbitrary: s)
  case Nil
  then show ?case by (simp add: feed_Nil)
next
  case (Cons c cs)
  have "run_chunks feed s (c # cs) = then_do (feed s c) (\<lambda>s'. feed s' (concat cs))"
    unfolding run_chunks.simps by (rule then_do_cong) (auto intro: Cons.IH feed_inv_all[OF Cons.prems])
  then show ?case by (simp add: feed_append Cons.prems)
qed

lemma chunking_irrelevant:
  "inv s \<Longrightarrow> concat cs = concat ds \<Longrightarrow> run_chunks feed s cs = run_chunks feed s ds"
  by (simp add: run_chunks_feed)

end

text \<open>The same consumer with the \<open>flush\<close> handler that ends it.\<close>

locale incremental_stream = incremental feed inv
  for feed :: "'s \<Rightarrow> 'i list \<Rightarrow> ('s, 'o, 'e) outcome" and inv +
  fixes flush :: "'s \<Rightarrow> ('s, 'o, 'e) outcome"
begin

lemma run_transform_feed:
  "inv s \<Longrightarrow> run_transform feed flush s cs = then_do (feed s (concat cs)) flush"
  by (simp add: run_transform_def run_chunks_feed)

lemma stream_chunking_irrelevant:
  "inv s \<Longrightarrow> concat cs = concat ds \<Longrightarrow>
     run_transform feed flush s cs = run_transform feed flush s ds"
  by (simp add: run_transform_feed)

end

section \<open>Stages that meter what passes through them\<close>

text \<open>
  A stage that accepts a chunk exactly when the running total stays within a budget.  The locale
  lifts the law about one chunk to whole runs: what passes, where the run stops, and with which
  error.
\<close>

locale metered =
  fixes tr :: "'s \<Rightarrow> 'c \<Rightarrow> ('s, 'o, 'e) outcome"
    and weight :: "'c \<Rightarrow> nat"
    and used :: "'s \<Rightarrow> nat"
    and budget :: nat
    and absorb :: "'s \<Rightarrow> 'c \<Rightarrow> 's"
    and emit :: "'c \<Rightarrow> 'o list"
    and inv :: "'s \<Rightarrow> bool"
  assumes admit: "inv s \<Longrightarrow> used s + weight c \<le> budget \<Longrightarrow> tr s c = (emit c, Inr (absorb s c))"
    and refuse: "inv s \<Longrightarrow> budget < used s + weight c \<Longrightarrow> \<exists>e. tr s c = ([], Inl e)"
    and used_absorb: "inv s \<Longrightarrow> used s + weight c \<le> budget \<Longrightarrow> used (absorb s c) = used s + weight c"
    and inv_absorb: "inv s \<Longrightarrow> used s + weight c \<le> budget \<Longrightarrow> inv (absorb s c)"
begin

definition total_weight :: "'c list \<Rightarrow> nat" where
  "total_weight cs = sum_list (map weight cs)"

lemma total_weight_simps [simp]:
  "total_weight [] = 0" "total_weight (c # cs) = weight c + total_weight cs"
  by (simp_all add: total_weight_def)

lemma run_admitted:
  "inv s \<Longrightarrow> used s + total_weight cs \<le> budget \<Longrightarrow>
     run_chunks tr s cs = (concat (map emit cs), Inr (foldl absorb s cs))"
proof (induction cs arbitrary: s)
  case (Cons c cs)
  then have c: "used s + weight c \<le> budget" by simp
  have "run_chunks tr (absorb s c) cs = (concat (map emit cs), Inr (foldl absorb (absorb s c) cs))"
    using Cons.prems c by (intro Cons.IH inv_absorb) (simp_all add: used_absorb)
  then show ?case using Cons.prems c by (simp add: admit)
qed simp

lemma absorb_all:
  "inv s \<Longrightarrow> used s + total_weight cs \<le> budget \<Longrightarrow>
     inv (foldl absorb s cs) \<and> used (foldl absorb s cs) = used s + total_weight cs"
proof (induction cs arbitrary: s)
  case (Cons c cs)
  then have c: "used s + weight c \<le> budget" by simp
  have "inv (foldl absorb (absorb s c) cs) \<and>
      used (foldl absorb (absorb s c) cs) = used (absorb s c) + total_weight cs"
    using Cons.prems c by (intro Cons.IH inv_absorb) (simp_all add: used_absorb)
  then show ?case using Cons.prems c by (simp add: used_absorb)
qed simp

lemma run_refused:
  assumes "inv s" "used s \<le> budget" "budget < used s + total_weight cs"
  shows "\<exists>pre c post e. cs = pre @ c # post
    \<and> used s + total_weight pre \<le> budget \<and> budget < used s + total_weight pre + weight c
    \<and> tr (foldl absorb s pre) c = ([], Inl e)
    \<and> run_chunks tr s cs = (concat (map emit pre), Inl e)"
  using assms
proof (induction cs arbitrary: s)
  case (Cons c cs)
  show ?case
  proof (cases "used s + weight c \<le> budget")
    case True
    have "\<exists>pre d post e. cs = pre @ d # post
      \<and> used (absorb s c) + total_weight pre \<le> budget
      \<and> budget < used (absorb s c) + total_weight pre + weight d
      \<and> tr (foldl absorb (absorb s c) pre) d = ([], Inl e)
      \<and> run_chunks tr (absorb s c) cs = (concat (map emit pre), Inl e)"
      using Cons.prems True by (intro Cons.IH inv_absorb) (simp_all add: used_absorb)
    then obtain pre d post e where
      split: "cs = pre @ d # post" "used (absorb s c) + total_weight pre \<le> budget"
        "budget < used (absorb s c) + total_weight pre + weight d"
      and run: "tr (foldl absorb (absorb s c) pre) d = ([], Inl e)"
        "run_chunks tr (absorb s c) cs = (concat (map emit pre), Inl e)"
      by blast
    have "c # cs = (c # pre) @ d # post" using split by simp
    moreover have "run_chunks tr s (c # cs) = (concat (map emit (c # pre)), Inl e)"
      using Cons.prems True run by (simp add: admit)
    moreover have "used s + total_weight (c # pre) \<le> budget"
      "budget < used s + total_weight (c # pre) + weight d"
      using Cons.prems True split by (simp_all add: used_absorb)
    ultimately show ?thesis using run(1) by (metis foldl_Cons)
  next
    case False
    then obtain e where "tr s c = ([], Inl e)" using refuse Cons.prems by (metis not_le)
    then have "run_chunks tr s (c # cs) = (concat (map emit []), Inl e)"
      and "tr (foldl absorb s []) c = ([], Inl e)" by simp_all
    then show ?thesis using False Cons.prems
      by (intro exI[of _ "[]"] exI[of _ c] exI[of _ cs] exI[of _ e]) simp
  qed
qed simp

lemma run_succeeds_iff:
  assumes "inv s" "used s \<le> budget"
  shows "succeeds (run_chunks tr s cs) \<longleftrightarrow> used s + total_weight cs \<le> budget"
  using run_admitted[OF assms(1)] run_refused[OF assms] by (metis not_le succeeds_simps)

lemma run_bounded:
  assumes "inv s" "used s \<le> budget"
  shows "\<exists>pre post. cs = pre @ post \<and> used s + total_weight pre \<le> budget
    \<and> outputs (run_chunks tr s cs) = concat (map emit pre)"
proof (cases "used s + total_weight cs \<le> budget")
  case True
  then show ?thesis using run_admitted[OF assms(1) True] by (intro exI[of _ cs] exI[of _ "[]"]) simp
next
  case False
  then show ?thesis using run_refused[OF assms, of cs] by (metis not_le outputs_simps)
qed

end

end
