(* ===== verification/Frame_Scanner.thy ===== *)
theory Frame_Scanner
  imports Node_Streams
begin

text \<open>
  \<open>src/core/frameLimits.ts\<close>: the incremental MessagePack structural scanner, the whole-buffer check
  \<open>assertMessagePackFrameLimits\<close> and the stream stage \<open>buildFrameLimitTransform\<close>.  The private
  fields of the class are a record, each private method a function that returns the updated record
  or the error thrown.  After an error the scanner is not used again, so its fields at that point
  are not recorded.

  The numbers of the scanner stay far below \<open>2\<^sup>5\<^sup>3\<close> (lemma \<open>scan_step_inv\<close> and the checks of
  \<open>addChildren\<close>), so natural numbers compute what the JavaScript numbers do; differences that
  could be negative are taken in the integers.
\<close>

unbundle bit_operations_syntax

section \<open>State\<close>

datatype length_kind = ArrayLength | MapLength | PayloadLength | ExtensionLength

record pending_length =
  pl_kind :: length_kind
  pl_bytes :: nat
  pl_read :: nat
  pl_value :: nat

record scanner =
  sc_maxFrameBytes :: nat
  sc_maxFrames :: nat
  sc_frameBytes :: nat
  sc_remainingValues :: nat
  sc_payloadBytes :: nat
  sc_extensionTypePending :: bool
  sc_pending :: "pending_length option"
  sc_frames :: nat

definition new_scanner :: "nat \<Rightarrow> nat \<Rightarrow> scanner" where
  "new_scanner maxFrameBytes maxFrames = \<lparr>
     sc_maxFrameBytes = maxFrameBytes, sc_maxFrames = maxFrames,
     sc_frameBytes = 0, sc_remainingValues = 1, sc_payloadBytes = 0,
     sc_extensionTypePending = False, sc_pending = None, sc_frames = 0\<rparr>"

section \<open>Private methods\<close>

definition frameTooLarge :: "scanner \<Rightarrow> px_error" where
  "frameTooLarge s = JsError (''[PipeX] MessagePack frame exceeds ''
     @ nat_digits (sc_maxFrameBytes s) @ '' bytes'')"

definition invalidInput :: px_error where
  "invalidInput = JsError ''[PipeX] Invalid MessagePack input''"

definition consumeBytes :: "scanner \<Rightarrow> nat \<Rightarrow> px_error + scanner" where
  "consumeBytes s count =
     (if int count > int (sc_maxFrameBytes s) - int (sc_frameBytes s) then Inl (frameTooLarge s)
      else Inr (s\<lparr>sc_frameBytes := sc_frameBytes s + count\<rparr>))"

definition ensureMinimumRemaining :: "scanner \<Rightarrow> nat \<Rightarrow> px_error + unit" where
  "ensureMinimumRemaining s additionalBytes =
     (let capacity = int (sc_maxFrameBytes s) - int (sc_frameBytes s) in
      throw_if (int additionalBytes > capacity
                \<or> int (sc_remainingValues s) > capacity - int additionalBytes) (frameTooLarge s))"

definition addChildren :: "scanner \<Rightarrow> nat \<Rightarrow> px_error + scanner" where
  "addChildren s count =
     (if \<not> is_safe_integer (int count)
         \<or> int count > int max_safe_integer - int (sc_remainingValues s)
      then Inl invalidInput
      else let s' = s\<lparr>sc_remainingValues := sc_remainingValues s + count\<rparr> in
           rbind (ensureMinimumRemaining s' 0) (\<lambda>_. Inr s'))"

definition setPayload :: "scanner \<Rightarrow> nat \<Rightarrow> px_error + scanner" where
  "setPayload s len =
     (if \<not> is_safe_integer (int len) then Inl invalidInput
      else rbind (ensureMinimumRemaining s len) (\<lambda>_. Inr (s\<lparr>sc_payloadBytes := len\<rparr>)))"

definition setExtensionPayload :: "scanner \<Rightarrow> nat \<Rightarrow> px_error + scanner" where
  "setExtensionPayload s len =
     rbind (setPayload s (len + 1)) (\<lambda>s'. Inr (s'\<lparr>sc_extensionTypePending := True\<rparr>))"

definition readLength :: "scanner \<Rightarrow> length_kind \<Rightarrow> nat \<Rightarrow> px_error + scanner" where
  "readLength s kind bytes =
     Inr (s\<lparr>sc_pending := Some \<lparr>pl_kind = kind, pl_bytes = bytes, pl_read = 0, pl_value = 0\<rparr>\<rparr>)"

definition applyLength :: "scanner \<Rightarrow> length_kind \<Rightarrow> nat \<Rightarrow> px_error + scanner" where
  "applyLength s kind val =
     (if kind = ArrayLength then addChildren s val
      else if kind = MapLength then addChildren s (val * 2)
      else rbind (setPayload s (val + (if kind = ExtensionLength then 1 else 0)))
             (\<lambda>s'. Inr (s'\<lparr>sc_extensionTypePending := (kind = ExtensionLength)\<rparr>)))"

definition readToken :: "scanner \<Rightarrow> nat \<Rightarrow> px_error + scanner" where
  "readToken s token =
     (if token \<le> 0x7f \<or> token \<ge> 0xe0 \<or> (token \<ge> 0xc0 \<and> token \<le> 0xc3)
      then (if token = 0xc1 then Inl invalidInput else Inr s)
      else if token \<ge> 0x80 \<and> token \<le> 0x8f then addChildren s ((token AND 0x0f) * 2)
      else if token \<ge> 0x90 \<and> token \<le> 0x9f then addChildren s (token AND 0x0f)
      else if token \<ge> 0xa0 \<and> token \<le> 0xbf then setPayload s (token AND 0x1f)
      else if token = 0xc4 then readLength s PayloadLength 1
      else if token = 0xc5 then readLength s PayloadLength 2
      else if token = 0xc6 then readLength s PayloadLength 4
      else if token = 0xc7 then readLength s ExtensionLength 1
      else if token = 0xc8 then readLength s ExtensionLength 2
      else if token = 0xc9 then readLength s ExtensionLength 4
      else if token = 0xca then setPayload s 4
      else if token = 0xcb then setPayload s 8
      else if token = 0xcc \<or> token = 0xd0 then setPayload s 1
      else if token = 0xcd \<or> token = 0xd1 then setPayload s 2
      else if token = 0xce \<or> token = 0xd2 then setPayload s 4
      else if token = 0xcf \<or> token = 0xd3 then setPayload s 8
      else if token = 0xd4 then setExtensionPayload s 1
      else if token = 0xd5 then setExtensionPayload s 2
      else if token = 0xd6 then setExtensionPayload s 4
      else if token = 0xd7 then setExtensionPayload s 8
      else if token = 0xd8 then setExtensionPayload s 16
      else if token = 0xd9 then readLength s PayloadLength 1
      else if token = 0xda then readLength s PayloadLength 2
      else if token = 0xdb then readLength s PayloadLength 4
      else if token = 0xdc then readLength s ArrayLength 2
      else if token = 0xdd then readLength s ArrayLength 4
      else if token = 0xde then readLength s MapLength 2
      else if token = 0xdf then readLength s MapLength 4
      else Inl invalidInput)"

text \<open>\<open>completeIfReady\<close> also returns the boundaries it pushed: none, or the one at \<open>offset\<close>.\<close>

definition completeIfReady :: "scanner \<Rightarrow> nat \<Rightarrow> px_error + (scanner \<times> nat list)" where
  "completeIfReady s offset =
     (if sc_pending s \<noteq> None \<or> sc_payloadBytes s > 0 \<or> sc_remainingValues s \<noteq> 0
      then Inr (s, [])
      else let s' = s\<lparr>sc_frames := sc_frames s + 1\<rparr> in
        if sc_frames s' > sc_maxFrames s'
        then Inl (JsError (''[PipeX] Frame count exceeds '' @ nat_digits (sc_maxFrames s)))
        else Inr (s'\<lparr>sc_frameBytes := 0, sc_remainingValues := 1,
                     sc_extensionTypePending := False\<rparr>, [offset]))"

section \<open>The scanning loop\<close>

text \<open>
  One iteration of the loop of \<open>scan\<close> at \<open>offset\<close>, with \<open>b # rest\<close> the bytes of the chunk from
  there on: the new state, the number of bytes the iteration moved \<open>offset\<close> by, and the
  boundaries it pushed.
\<close>

definition scan_step ::
  "scanner \<Rightarrow> nat \<Rightarrow> byte \<Rightarrow> buffer \<Rightarrow> px_error + (scanner \<times> nat \<times> nat list)" where
  "scan_step s offset b rest =
     (if sc_payloadBytes s > 0 then
        if sc_extensionTypePending s then
          rbind (consumeBytes s 1) (\<lambda>s.
            let extensionType = unat b;
                s = s\<lparr>sc_payloadBytes := sc_payloadBytes s - 1, sc_extensionTypePending := False\<rparr>
            in
            rbind
              (if extensionType = 0x65 \<or> extensionType = 0x73 \<or> extensionType = 0x78 then
                 rbind (addChildren s 1) (\<lambda>s.
                   rbind (ensureMinimumRemaining s (sc_payloadBytes s)) (\<lambda>_. Inr s))
               else if extensionType \<noteq> 0x00 \<and> extensionType \<noteq> 0x42
                 \<and> extensionType \<noteq> 0x74 \<and> extensionType \<noteq> 0xff then Inl invalidInput
               else Inr s)
              (\<lambda>s. if sc_payloadBytes s = 0
                   then rbind (completeIfReady s (offset + 1)) (\<lambda>(s, bds). Inr (s, 1, bds))
                   else Inr (s, 1, [])))
        else
          let consumed = min (sc_payloadBytes s) (length (b # rest)) in
          rbind (consumeBytes s consumed) (\<lambda>s.
            let s = s\<lparr>sc_payloadBytes := sc_payloadBytes s - consumed\<rparr> in
            if sc_payloadBytes s > 0 \<and> sc_frameBytes s = sc_maxFrameBytes s
            then Inl (frameTooLarge s)
            else if sc_payloadBytes s = 0
            then rbind (completeIfReady s (offset + consumed)) (\<lambda>(s, bds). Inr (s, consumed, bds))
            else Inr (s, consumed, []))
      else
        (case sc_pending s of
           Some p \<Rightarrow>
             rbind (consumeBytes s 1) (\<lambda>s.
               let p = p\<lparr>pl_value := pl_value p * 256 + unat b, pl_read := pl_read p + 1\<rparr> in
               if pl_read p = pl_bytes p then
                 rbind (applyLength (s\<lparr>sc_pending := None\<rparr>) (pl_kind p) (pl_value p)) (\<lambda>s.
                   rbind (completeIfReady s (offset + 1)) (\<lambda>(s, bds). Inr (s, 1, bds)))
               else Inr (s\<lparr>sc_pending := Some p\<rparr>, 1, []))
         | None \<Rightarrow>
             rbind (consumeBytes s 1) (\<lambda>s.
               let token = unat b in
               if sc_remainingValues s = 0 then Inl invalidInput
               else
                 rbind (readToken (s\<lparr>sc_remainingValues := sc_remainingValues s - 1\<rparr>) token) (\<lambda>s.
                   rbind (completeIfReady s (offset + 1)) (\<lambda>(s, bds). Inr (s, 1, bds))))))"

text \<open>Every iteration makes progress, which is why the loop ends.\<close>

lemma scan_step_progress:
  "scan_step s offset b rest = Inr (s', k, bds) \<Longrightarrow> 0 < k"
  by (auto simp: scan_step_def Let_def result_simps split: if_splits option.splits)

text \<open>
  The loop: the boundaries pushed, and the state and offset it ends with or the error thrown.
\<close>

function scan_loop :: "scanner \<Rightarrow> nat \<Rightarrow> buffer \<Rightarrow> (scanner \<times> nat, nat, px_error) outcome" where
  "scan_loop s offset [] = ([], Inr (s, offset))"
| "scan_loop s offset (b # rest) =
     (case scan_step s offset b rest of
        Inl e \<Rightarrow> ([], Inl e)
      | Inr (s', k, bds) \<Rightarrow>
          then_do (bds, Inr s') (\<lambda>s'. scan_loop s' (offset + k) (drop k (b # rest))))"
  by pat_completeness auto
termination
  by (relation "measure (\<lambda>(s, offset, bs). length bs)") (auto dest: scan_step_progress)

text \<open>\<open>scan(chunk)\<close> starts at offset 0 and returns the boundaries.\<close>

definition scan :: "scanner \<Rightarrow> buffer \<Rightarrow> px_error + (scanner \<times> nat list)" where
  "scan s chunk =
     (case scan_loop s 0 chunk of
        (bds, Inr (s', _)) \<Rightarrow> Inr (s', bds)
      | (_, Inl e) \<Rightarrow> Inl e)"

definition finish :: "scanner \<Rightarrow> px_error + unit" where
  "finish s =
     throw_if (sc_frameBytes s \<noteq> 0 \<or> sc_pending s \<noteq> None \<or> sc_payloadBytes s \<noteq> 0)
       (JsError ''[PipeX] Invalid MessagePack input: incomplete frame'')"

definition assertMessagePackFrameLimits :: "buffer \<Rightarrow> nat \<Rightarrow> nat \<Rightarrow> px_error + nat" where
  "assertMessagePackFrameLimits input maxFrameBytes maxFrames =
     rbind (scan (new_scanner maxFrameBytes maxFrames) input) (\<lambda>(s, boundaries).
       rbind (finish s) (\<lambda>_. Inr (length boundaries)))"

section \<open>The scanner's invariant\<close>

text \<open>
  While payload bytes are outstanding no length is being read and the payload fits into the frame
  (\<open>setPayload\<close> has checked it); an extension's type byte is part of its payload.
\<close>

definition scan_inv :: "scanner \<Rightarrow> bool" where
  "scan_inv s \<longleftrightarrow>
     (0 < sc_payloadBytes s \<longrightarrow>
        sc_pending s = None \<and> sc_frameBytes s + sc_payloadBytes s \<le> sc_maxFrameBytes s)
     \<and> (sc_extensionTypePending s \<longrightarrow> 0 < sc_payloadBytes s)"

lemmas scanner_ops = consumeBytes_def ensureMinimumRemaining_def addChildren_def setPayload_def
  setExtensionPayload_def readLength_def applyLength_def

lemma scan_inv_new_scanner: "scan_inv (new_scanner maxB maxF)"
  by (simp add: scan_inv_def new_scanner_def)

lemma addChildren_fields:
  assumes "addChildren s n = Inr s'"
  shows "s' = s\<lparr>sc_remainingValues := sc_remainingValues s + n\<rparr>"
    and "sc_frameBytes s + (sc_remainingValues s + n) \<le> sc_maxFrameBytes s"
  using assms by (auto simp: scanner_ops Let_def result_simps split: if_splits)

lemma setPayload_fields:
  assumes "setPayload s n = Inr s'"
  shows "s' = s\<lparr>sc_payloadBytes := n\<rparr>"
    and "sc_frameBytes s + sc_remainingValues s + n \<le> sc_maxFrameBytes s"
  using assms by (auto simp: scanner_ops Let_def result_simps split: if_splits)

lemma consumeBytes_fields:
  assumes "consumeBytes s n = Inr s'"
  shows "s' = s\<lparr>sc_frameBytes := sc_frameBytes s + n\<rparr>"
    and "sc_frameBytes s + n \<le> sc_maxFrameBytes s"
  using assms by (auto simp: scanner_ops split: if_splits)

lemma completeIfReady_inv:
  "scan_inv s \<Longrightarrow> completeIfReady s offset = Inr (s', bds) \<Longrightarrow> scan_inv s'"
  by (auto simp: completeIfReady_def scan_inv_def Let_def split: if_splits)

lemma readToken_inv:
  assumes "scan_inv s" "sc_payloadBytes s = 0" "sc_pending s = None" "readToken s t = Inr s'"
  shows "scan_inv s'"
proof -
  have ext: "\<not> sc_extensionTypePending s" using assms by (simp add: scan_inv_def)
  have set_payload: "scan_inv s'" if "setPayload s n = Inr s'" for n
    using setPayload_fields[OF that] assms ext by (auto simp: scan_inv_def)
  have set_ext: "scan_inv s'" if r: "setExtensionPayload s n = Inr s'" for n
  proof -
    from r obtain s1 where s1: "setPayload s (n + 1) = Inr s1"
      and s': "s' = s1\<lparr>sc_extensionTypePending := True\<rparr>"
      by (auto simp: setExtensionPayload_def result_simps)
    from setPayload_fields[OF s1] s' assms ext show ?thesis by (simp add: scan_inv_def)
  qed
  have children: "scan_inv s'" if "addChildren s n = Inr s'" for n
    using addChildren_fields[OF that] assms by (auto simp: scan_inv_def)
  have len: "scan_inv s'" if "readLength s kind n = Inr s'" for kind n
    using that assms ext by (auto simp: readLength_def scan_inv_def)
  show ?thesis
    using assms(1,4) unfolding readToken_def
    by (auto split: if_splits intro: set_payload set_ext children len)
qed

lemma applyLength_inv:
  assumes "sc_payloadBytes s = 0" "sc_pending s = None" "\<not> sc_extensionTypePending s"
    and r: "applyLength s kind v = Inr s'"
  shows "scan_inv s'"
proof (cases kind)
  case ArrayLength
  with r have "addChildren s v = Inr s'" by (simp add: applyLength_def)
  from addChildren_fields[OF this] assms show ?thesis by (simp add: scan_inv_def)
next
  case MapLength
  with r have "addChildren s (v * 2) = Inr s'" by (simp add: applyLength_def)
  from addChildren_fields[OF this] assms show ?thesis by (simp add: scan_inv_def)
next
  case PayloadLength
  with r obtain s1 where "setPayload s v = Inr s1" "s' = s1\<lparr>sc_extensionTypePending := False\<rparr>"
    by (auto simp: applyLength_def result_simps)
  with setPayload_fields[of s v s1] assms show ?thesis by (simp add: scan_inv_def)
next
  case ExtensionLength
  with r obtain s1 where "setPayload s (v + 1) = Inr s1" "s' = s1\<lparr>sc_extensionTypePending := True\<rparr>"
    by (auto simp: applyLength_def result_simps)
  with setPayload_fields[of s "v + 1" s1] assms show ?thesis by (simp add: scan_inv_def)
qed

section \<open>The four kinds of iteration\<close>

text \<open>An extension's type byte.\<close>

definition extension_type :: "scanner \<Rightarrow> nat \<Rightarrow> px_error + scanner" where
  "extension_type s ty =
     (if ty = 0x65 \<or> ty = 0x73 \<or> ty = 0x78 then
        rbind (addChildren s 1) (\<lambda>s.
          rbind (ensureMinimumRemaining s (sc_payloadBytes s)) (\<lambda>_. Inr s))
      else if ty \<noteq> 0x00 \<and> ty \<noteq> 0x42 \<and> ty \<noteq> 0x74 \<and> ty \<noteq> 0xff then Inl invalidInput
      else Inr s)"

definition completed :: "scanner \<Rightarrow> nat \<Rightarrow> nat \<Rightarrow> px_error + (scanner \<times> nat \<times> nat list)" where
  "completed s offset k = rbind (completeIfReady s offset) (\<lambda>(s, bds). Inr (s, k, bds))"

lemma completed_eq_Inr:
  "completed s offset k = Inr (s', k', bds) \<longleftrightarrow> k' = k \<and> completeIfReady s offset = Inr (s', bds)"
  by (auto simp: completed_def result_simps)

lemma scan_step_extension_type:
  assumes "0 < sc_payloadBytes s" "sc_extensionTypePending s"
  shows "scan_step s offset b rest =
    rbind (consumeBytes s 1) (\<lambda>s.
      rbind (extension_type
          (s\<lparr>sc_payloadBytes := sc_payloadBytes s - 1, sc_extensionTypePending := False\<rparr>) (unat b))
        (\<lambda>s. if sc_payloadBytes s = 0 then completed s (offset + 1) 1 else Inr (s, 1, [])))"
  using assms unfolding scan_step_def Let_def extension_type_def completed_def by simp

lemma scan_step_payload:
  assumes "scan_inv s" "0 < sc_payloadBytes s" "\<not> sc_extensionTypePending s"
    and k: "k = min (sc_payloadBytes s) (Suc (length rest))"
    and s': "s' = s\<lparr>sc_frameBytes := sc_frameBytes s + k, sc_payloadBytes := sc_payloadBytes s - k\<rparr>"
  shows "scan_step s offset b rest =
    (if sc_payloadBytes s' = 0 then completed s' (offset + k) k else Inr (s', k, []))"
proof -
  have fits: "sc_frameBytes s + sc_payloadBytes s \<le> sc_maxFrameBytes s"
    using assms by (simp add: scan_inv_def)
  have "consumeBytes s k = Inr (s\<lparr>sc_frameBytes := sc_frameBytes s + k\<rparr>)"
    using fits k by (simp add: consumeBytes_def)
  moreover have "\<not> (0 < sc_payloadBytes s - k \<and> sc_frameBytes s + k = sc_maxFrameBytes s)"
    using fits k by (auto simp: min_def split: if_splits)
  ultimately show ?thesis
    using assms(2,3) unfolding s' scan_step_def completed_def
    by (simp add: Let_def k[symmetric])
qed

lemma scan_step_length:
  assumes "sc_payloadBytes s = 0" "sc_pending s = Some p"
  shows "scan_step s offset b rest =
    rbind (consumeBytes s 1) (\<lambda>s.
      let p = p\<lparr>pl_value := pl_value p * 256 + unat b, pl_read := pl_read p + 1\<rparr> in
      if pl_read p = pl_bytes p
      then rbind (applyLength (s\<lparr>sc_pending := None\<rparr>) (pl_kind p) (pl_value p))
             (\<lambda>s. completed s (offset + 1) 1)
      else Inr (s\<lparr>sc_pending := Some p\<rparr>, 1, []))"
  using assms unfolding scan_step_def completed_def by simp

lemma scan_step_token:
  assumes "sc_payloadBytes s = 0" "sc_pending s = None"
  shows "scan_step s offset b rest =
    rbind (consumeBytes s 1) (\<lambda>s.
      if sc_remainingValues s = 0 then Inl invalidInput
      else rbind (readToken (s\<lparr>sc_remainingValues := sc_remainingValues s - 1\<rparr>) (unat b))
             (\<lambda>s. completed s (offset + 1) 1))"
  using assms unfolding scan_step_def completed_def Let_def by simp

text \<open>The iteration reads one byte, whatever follows it, unless it copies payload in bulk.\<close>

lemma scan_step_cases:
  obtains (ext) "0 < sc_payloadBytes s" "sc_extensionTypePending s"
  | (payload) "0 < sc_payloadBytes s" "\<not> sc_extensionTypePending s"
  | (len) p where "sc_payloadBytes s = 0" "sc_pending s = Some p"
  | (token) "sc_payloadBytes s = 0" "sc_pending s = None"
  by (cases "sc_payloadBytes s = 0"; cases "sc_extensionTypePending s"; cases "sc_pending s") auto

lemma scan_step_one_byte:
  assumes "\<not> (0 < sc_payloadBytes s \<and> \<not> sc_extensionTypePending s)"
  shows "scan_step s offset b rest = scan_step s offset b rest2"
    and "scan_step s offset b rest = Inr (s', k, bds) \<Longrightarrow> k = 1"
  using assms
  by (cases s rule: scan_step_cases;
      auto simp: scan_step_extension_type scan_step_length scan_step_token completed_eq_Inr Let_def
        result_simps split: if_splits)+

lemma extension_type_inv:
  assumes "sc_pending s = None" "\<not> sc_extensionTypePending s"
    "sc_frameBytes s + sc_payloadBytes s \<le> sc_maxFrameBytes s" "extension_type s ty = Inr s'"
  shows "scan_inv s'"
proof (cases "ty = 0x65 \<or> ty = 0x73 \<or> ty = 0x78")
  case True
  with assms(4) have "addChildren s 1 = Inr s'"
    by (auto simp: extension_type_def result_simps split: if_splits)
  from addChildren_fields[OF this] assms(1-3) show ?thesis by (simp add: scan_inv_def)
next
  case False
  with assms have "s' = s" by (auto simp: extension_type_def split: if_splits)
  with assms(1-3) show ?thesis by (simp add: scan_inv_def)
qed

lemma scan_step_inv:
  assumes "scan_inv s" "scan_step s offset b rest = Inr (s', k, bds)"
  shows "scan_inv s'"
proof (cases s rule: scan_step_cases)
  case ext
  with assms(2) obtain s1 s2 where s1: "consumeBytes s 1 = Inr s1"
    and s2: "extension_type (s1\<lparr>sc_payloadBytes := sc_payloadBytes s1 - 1,
       sc_extensionTypePending := False\<rparr>) (unat b) = Inr s2"
    and s': "s' = s2 \<or> completeIfReady s2 (offset + 1) = Inr (s', bds)"
    by (auto simp: scan_step_extension_type result_simps completed_eq_Inr split: if_splits)
  from consumeBytes_fields[OF s1] assms(1) ext have "scan_inv s2"
    by (intro extension_type_inv[OF _ _ _ s2]) (auto simp: scan_inv_def)
  with s' completeIfReady_inv show ?thesis by blast
next
  case payload
  let ?k = "min (sc_payloadBytes s) (Suc (length rest))"
  let ?s = "s\<lparr>sc_frameBytes := sc_frameBytes s + ?k, sc_payloadBytes := sc_payloadBytes s - ?k\<rparr>"
  have "scan_inv ?s" using assms(1) payload by (auto simp: scan_inv_def)
  moreover have "s' = ?s \<or> completeIfReady ?s (offset + ?k) = Inr (s', bds)"
    using assms(2) unfolding scan_step_payload[OF assms(1) payload refl refl]
    by (auto simp: completed_eq_Inr split: if_splits)
  ultimately show ?thesis using completeIfReady_inv by blast
next
  case (len p)
  have ext: "\<not> sc_extensionTypePending s" using assms(1) len by (simp add: scan_inv_def)
  let ?p = "p\<lparr>pl_value := pl_value p * 256 + unat b, pl_read := pl_read p + 1\<rparr>"
  from assms(2) len obtain s1 where s1: "consumeBytes s 1 = Inr s1"
    and cont: "(if pl_read ?p = pl_bytes ?p
      then rbind (applyLength (s1\<lparr>sc_pending := None\<rparr>) (pl_kind ?p) (pl_value ?p))
             (\<lambda>s. completed s (offset + 1) 1)
      else Inr (s1\<lparr>sc_pending := Some ?p\<rparr>, 1, [])) = Inr (s', k, bds)"
    unfolding scan_step_length[OF len] Let_def rbind_eq_Inr by blast
  note s1 = consumeBytes_fields(1)[OF s1]
  show ?thesis
  proof (cases "pl_read ?p = pl_bytes ?p")
    case False
    with cont s1 len ext show ?thesis by (auto simp: scan_inv_def)
  next
    case True
    with cont obtain s2
      where s2: "applyLength (s1\<lparr>sc_pending := None\<rparr>) (pl_kind ?p) (pl_value ?p) = Inr s2"
      and fin: "completeIfReady s2 (offset + 1) = Inr (s', bds)"
      by (auto simp: result_simps completed_eq_Inr)
    have "scan_inv s2" using s1 len ext by (intro applyLength_inv[OF _ _ _ s2]) auto
    then show ?thesis using fin by (rule completeIfReady_inv)
  qed
next
  case token
  from assms(2) token obtain s1 s2 where s1: "s1 = s\<lparr>sc_frameBytes := sc_frameBytes s + 1\<rparr>"
    and s2: "readToken (s1\<lparr>sc_remainingValues := sc_remainingValues s1 - 1\<rparr>) (unat b) = Inr s2"
    and s': "completeIfReady s2 (offset + 1) = Inr (s', bds)"
    by (auto simp: scan_step_token result_simps completed_eq_Inr
          dest!: consumeBytes_fields(1) split: if_splits)
  have "scan_inv s2"
    using assms(1) token by (intro readToken_inv[OF _ _ _ s2]) (auto simp: s1 scan_inv_def)
  then show ?thesis using s' by (rule completeIfReady_inv)
qed

section \<open>Scanning does not depend on the chunks\<close>

text \<open>
  With its offset counted from the start of the stream, the scanner is an incremental consumer:
  reading payload in bulk is the same as reading it byte by byte.
\<close>

definition scan_feed :: "scanner \<times> nat \<Rightarrow> buffer \<Rightarrow> (scanner \<times> nat, nat, px_error) outcome" where
  "scan_feed s chunk = scan_loop (fst s) (snd s) chunk"

lemma scan_loop_bulk:
  assumes inv: "scan_inv s" and pay: "1 < sc_payloadBytes s" "\<not> sc_extensionTypePending s"
    and bs: "bs = c # rest"
    and s1: "s1 = s\<lparr>sc_frameBytes := sc_frameBytes s + 1, sc_payloadBytes := sc_payloadBytes s - 1\<rparr>"
  shows "scan_loop s offset (b # bs) = scan_loop s1 (offset + 1) bs"
proof -
  let ?k1 = "min (sc_payloadBytes s1) (Suc (length rest))"
  let ?k = "min (sc_payloadBytes s) (Suc (length bs))"
  have k: "?k = Suc ?k1" using pay by (simp add: bs s1)
  have inv1: "scan_inv s1" using inv pay by (auto simp: scan_inv_def s1)
  have upd: "s1\<lparr>sc_frameBytes := sc_frameBytes s1 + ?k1, sc_payloadBytes := sc_payloadBytes s1 - ?k1\<rparr>
    = s\<lparr>sc_frameBytes := sc_frameBytes s + ?k, sc_payloadBytes := sc_payloadBytes s - ?k\<rparr>"
    by (simp add: k) (simp add: s1)
  have pay': "0 < sc_payloadBytes s" and pay1: "0 < sc_payloadBytes s1" "\<not> sc_extensionTypePending s1"
    using pay by (simp_all add: s1)
  have off: "offset + ?k = offset + 1 + ?k1" by (simp add: k)
  have rel: "scan_step s offset b bs =
    (case scan_step s1 (offset + 1) c rest of Inl e \<Rightarrow> Inl e | Inr (s', j, bds) \<Rightarrow> Inr (s', Suc j, bds))"
    unfolding scan_step_payload[OF inv pay' pay(2) refl refl]
      scan_step_payload[OF inv1 pay1 refl refl] upd off
    by (auto simp: completed_def rbind_def k split: sum.splits)
  then show ?thesis
    by (cases "scan_step s1 (offset + 1) c rest") (auto simp: bs split: prod.splits)
qed

lemma scan_loop_Cons:
  assumes inv: "scan_inv s"
  shows "scan_loop s offset (b # bs) =
    then_do (scan_loop s offset [b]) (\<lambda>(s', offset'). scan_loop s' offset' bs)"
proof (cases "1 < sc_payloadBytes s \<and> \<not> sc_extensionTypePending s \<and> bs \<noteq> []")
  case True
  let ?s1 = "s\<lparr>sc_frameBytes := sc_frameBytes s + 1, sc_payloadBytes := sc_payloadBytes s - 1\<rparr>"
  have "scan_step s offset b [] = Inr (?s1, 1, [])"
    using True by (subst scan_step_payload[OF inv _ _ refl refl]) auto
  then have "scan_loop s offset [b] = ([], Inr (?s1, offset + 1))"
    by simp
  moreover obtain c rest where "bs = c # rest" using True by (cases bs) auto
  then have "scan_loop s offset (b # bs) = scan_loop ?s1 (offset + 1) bs"
    using True by (intro scan_loop_bulk[OF inv _ _ _ refl]) auto
  ultimately show ?thesis by (simp del: scan_loop.simps)
next
  case False
  have step: "scan_step s offset b bs = scan_step s offset b []"
  proof (cases "0 < sc_payloadBytes s \<and> \<not> sc_extensionTypePending s")
    case pay: True
    with False have "bs = [] \<or> sc_payloadBytes s = 1" by auto
    then show ?thesis
      using pay by (auto simp: scan_step_payload[OF inv _ _ refl refl])
  next
    case False
    then show ?thesis by (rule scan_step_one_byte(1))
  qed
  have one: "k = 1" if r: "scan_step s offset b [] = Inr (s', k, bds)" for s' k bds
  proof (cases "0 < sc_payloadBytes s \<and> \<not> sc_extensionTypePending s")
    case pay: True
    then show ?thesis
      using r by (auto simp: scan_step_payload[OF inv _ _ refl refl] completed_eq_Inr split: if_splits)
  next
    case False
    then show ?thesis using r by (rule scan_step_one_byte(2))
  qed
  show ?thesis
  proof (cases "scan_step s offset b []")
    case (Inl e)
    then show ?thesis by (simp add: step)
  next
    case (Inr r)
    obtain s' k bds where r: "r = (s', k, bds)" by (cases r)
    with one Inr have "k = 1" by simp
    then show ?thesis by (simp add: step Inr r)
  qed
qed

lemma scan_loop_inv:
  "scan_inv s \<Longrightarrow> scan_loop s offset bs = (out, Inr (s', offset')) \<Longrightarrow> scan_inv s'"
proof (induction s offset bs arbitrary: out rule: scan_loop.induct)
  case (2 s offset b rest)
  then show ?case
    by (auto split: sum.splits prod.splits dest: scan_step_inv)
qed simp

interpretation scanner: incremental scan_feed "\<lambda>(s, offset). scan_inv s"
proof unfold_locales
  fix s :: "scanner \<times> nat" and b bs
  assume inv: "case s of (s, offset) \<Rightarrow> scan_inv s"
  show "scan_feed s [] = ([], Inr s)"
    by (simp add: scan_feed_def)
  show "scan_feed s (b # bs) = then_do (scan_feed s [b]) (\<lambda>s'. scan_feed s' bs)"
    unfolding scan_feed_def using inv
    by (subst scan_loop_Cons) (auto simp: case_prod_unfold)
next
  fix s :: "scanner \<times> nat" and b s' out
  assume inv: "case s of (s, offset) \<Rightarrow> scan_inv s" and r: "scan_feed s [b] = (out, Inr s')"
  have "scan_inv (fst s)" using inv by (simp add: case_prod_unfold)
  then show "case s' of (s, offset) \<Rightarrow> scan_inv s"
    using r by (cases s') (auto simp: scan_feed_def simp del: scan_loop.simps dest: scan_loop_inv)
qed

end
