(* ===== verification/MessagePack_Frames.thy ===== *)
theory MessagePack_Frames
  imports Frame_Scanner
begin

text \<open>
  The abstract specification of the frame scanner: a grammar of complete MessagePack values, with
  the msgpackr extensions that are followed by one more value, written from the format and not
  from the scanner.  The results: the scanner accepts a buffer exactly when it is a sequence of
  complete values within the frame and count limits, and it counts them.  Its early rejections
  (\<open>ensureMinimumRemaining\<close>) never refuse a frame that fits.
\<close>

section \<open>The format\<close>

text \<open>
  What follows the first byte of a value: a number of data bytes; a number of child values; a
  big-endian length of so many bytes, then the data or the children (each entry of a map is two);
  or an extension, whose type byte precedes its data.
\<close>

datatype mp_format =
    MpData nat
  | MpChildren nat
  | MpLenData nat
  | MpLenChildren nat nat
  | MpFixExt nat
  | MpLenExt nat
  | MpReserved

definition mp_format :: "nat \<Rightarrow> mp_format" where
  "mp_format t =
     (if t < 0x80 then MpData 0                       \<comment> \<open>positive fixint\<close>
      else if t < 0x90 then MpChildren (2 * (t - 0x80)) \<comment> \<open>fixmap\<close>
      else if t < 0xa0 then MpChildren (t - 0x90)       \<comment> \<open>fixarray\<close>
      else if t < 0xc0 then MpData (t - 0xa0)           \<comment> \<open>fixstr\<close>
      else if t = 0xc0 then MpData 0                    \<comment> \<open>nil\<close>
      else if t = 0xc1 then MpReserved                  \<comment> \<open>never used\<close>
      else if t \<le> 0xc3 then MpData 0                    \<comment> \<open>false, true\<close>
      else if t = 0xc4 then MpLenData 1                 \<comment> \<open>bin 8\<close>
      else if t = 0xc5 then MpLenData 2
      else if t = 0xc6 then MpLenData 4
      else if t = 0xc7 then MpLenExt 1                  \<comment> \<open>ext 8\<close>
      else if t = 0xc8 then MpLenExt 2
      else if t = 0xc9 then MpLenExt 4
      else if t = 0xca then MpData 4                    \<comment> \<open>float 32\<close>
      else if t = 0xcb then MpData 8
      else if t = 0xcc then MpData 1                    \<comment> \<open>uint 8\<close>
      else if t = 0xcd then MpData 2
      else if t = 0xce then MpData 4
      else if t = 0xcf then MpData 8
      else if t = 0xd0 then MpData 1                    \<comment> \<open>int 8\<close>
      else if t = 0xd1 then MpData 2
      else if t = 0xd2 then MpData 4
      else if t = 0xd3 then MpData 8
      else if t = 0xd4 then MpFixExt 1                  \<comment> \<open>fixext 1\<close>
      else if t = 0xd5 then MpFixExt 2
      else if t = 0xd6 then MpFixExt 4
      else if t = 0xd7 then MpFixExt 8
      else if t = 0xd8 then MpFixExt 16
      else if t = 0xd9 then MpLenData 1                 \<comment> \<open>str 8\<close>
      else if t = 0xda then MpLenData 2
      else if t = 0xdb then MpLenData 4
      else if t = 0xdc then MpLenChildren 2 1           \<comment> \<open>array 16\<close>
      else if t = 0xdd then MpLenChildren 4 1
      else if t = 0xde then MpLenChildren 2 2           \<comment> \<open>map 16\<close>
      else if t = 0xdf then MpLenChildren 4 2
      else MpData 0)                                    \<comment> \<open>negative fixint\<close>"

text \<open>
  Extension types in the supported profile: error, set and regular expression carry one more value;
  undefined, bigint, typed array and timestamp carry none.
\<close>

definition ext_children :: "nat \<Rightarrow> nat option" where
  "ext_children ty =
     (if ty \<in> {0x65, 0x73, 0x78} then Some 1
      else if ty \<in> {0x00, 0x42, 0x74, 0xff} then Some 0 else None)"

text \<open>\<open>mp_head c x\<close>: the bytes \<open>x\<close> are a value without its \<open>c\<close> child values.\<close>

inductive mp_head :: "nat \<Rightarrow> buffer \<Rightarrow> bool" where
  head_data: "mp_format (unat t) = MpData k \<Longrightarrow> length p = k \<Longrightarrow> mp_head 0 (t # p)"
| head_children: "mp_format (unat t) = MpChildren c \<Longrightarrow> mp_head c [t]"
| head_len_data: "mp_format (unat t) = MpLenData k \<Longrightarrow> length l = k \<Longrightarrow> length p = be_val l \<Longrightarrow>
    mp_head 0 (t # l @ p)"
| head_len_children: "mp_format (unat t) = MpLenChildren k m \<Longrightarrow> length l = k \<Longrightarrow>
    mp_head (be_val l * m) (t # l)"
| head_fix_ext: "mp_format (unat t) = MpFixExt k \<Longrightarrow> ext_children (unat ty) = Some c \<Longrightarrow>
    length p = k \<Longrightarrow> mp_head c (t # ty # p)"
| head_len_ext: "mp_format (unat t) = MpLenExt k \<Longrightarrow> length l = k \<Longrightarrow>
    ext_children (unat ty) = Some c \<Longrightarrow> length p = be_val l \<Longrightarrow> mp_head c (t # l @ ty # p)"

text \<open>\<open>mp_values n bs\<close>: \<open>bs\<close> is the concatenation of \<open>n\<close> complete values.\<close>

inductive mp_values :: "nat \<Rightarrow> buffer \<Rightarrow> bool" where
  values_none: "mp_values 0 []"
| values_more: "mp_head c x \<Longrightarrow> mp_values (c + n) rest \<Longrightarrow> mp_values (Suc n) (x @ rest)"

inductive_cases mp_values_SucE: "mp_values (Suc n) bs"
inductive_simps mp_values_0 [simp]: "mp_values 0 bs"

text \<open>A MessagePack frame is one complete value.\<close>

definition mp_frame :: "buffer \<Rightarrow> bool" where
  "mp_frame bs \<longleftrightarrow> mp_values 1 bs"

lemma mp_head_nonempty: "mp_head c x \<Longrightarrow> 0 < length x"
  by (cases rule: mp_head.cases) auto

text \<open>The children of a value are complete values themselves.\<close>

lemma mp_values_append:
  "mp_values m xs \<Longrightarrow> mp_values n ys \<Longrightarrow> mp_values (m + n) (xs @ ys)"
proof (induction m xs rule: mp_values.induct)
  case values_none
  then show ?case by simp
next
  case (values_more c x m rest)
  then have "mp_values (c + (m + n)) (rest @ ys)" by (simp add: add.assoc)
  then show ?case using values_more.hyps(1) mp_values.values_more by force
qed

lemma mp_values_split:
  "mp_values (m + n) bs \<Longrightarrow> \<exists>xs ys. bs = xs @ ys \<and> mp_values m xs \<and> mp_values n ys"
proof (induction "m + n" bs arbitrary: m n rule: mp_values.induct)
  case values_none
  then show ?case by simp
next
  case (values_more c x k rest)
  show ?case
  proof (cases m)
    case 0
    with values_more have "mp_values n (x @ rest)"
      using mp_values.values_more by fastforce
    with 0 show ?thesis by auto
  next
    case (Suc m')
    with values_more.hyps have "c + k = (c + m') + n" by simp
    from values_more.hyps(3)[OF this] obtain xs ys
      where "rest = xs @ ys" "mp_values (c + m') xs" "mp_values n ys" by blast
    moreover from this values_more.hyps(1) have "mp_values m (x @ xs)"
      using Suc mp_values.values_more by simp
    ultimately show ?thesis by (metis append.assoc)
  qed
qed

lemma mp_frame_tree:
  "mp_frame bs \<longleftrightarrow> (\<exists>c x rest. bs = x @ rest \<and> mp_head c x \<and> mp_values c rest)"
  by (auto simp: mp_frame_def intro: values_more[of _ _ 0, simplified] elim!: mp_values_SucE[of 0, simplified])

text \<open>Building frames from their parts.\<close>

lemma mp_frame_data: "mp_format (unat t) = MpData (length p) \<Longrightarrow> mp_frame (t # p)"
  unfolding mp_frame_tree
  by (intro exI[of _ 0] exI[of _ "t # p"] exI[of _ "[]"]) (auto intro: head_data)

lemma mp_values_concat: "\<forall>f \<in> set fs. mp_frame f \<Longrightarrow> mp_values (length fs) (concat fs)"
proof (induction fs)
  case (Cons f fs)
  then show ?case
    using mp_values_append[of 1 f "length fs" "concat fs"] by (simp add: mp_frame_def)
qed simp

lemma mp_frame_children:
  assumes "mp_format (unat t) = MpChildren (length fs)" "\<forall>f \<in> set fs. mp_frame f"
  shows "mp_frame (t # concat fs)"
  unfolding mp_frame_tree using assms mp_values_concat[OF assms(2)]
  by (intro exI[of _ "length fs"] exI[of _ "[t]"] exI[of _ "concat fs"]) (auto intro: head_children)

lemma mp_values_length: "mp_values n bs \<Longrightarrow> n \<le> length bs"
proof (induction n bs rule: mp_values.induct)
  case (values_more c x n rest)
  then have "0 < length x" by (intro mp_head_nonempty)
  then show ?case using values_more.IH unfolding length_append by linarith
qed simp

section \<open>The scanner on the head of a value\<close>

text \<open>The scanner between two values: \<open>r\<close> values of the current frame are outstanding.\<close>

definition idle :: "nat \<Rightarrow> nat \<Rightarrow> nat \<Rightarrow> nat \<Rightarrow> nat \<Rightarrow> scanner" where
  "idle M F fb r fr = \<lparr>
     sc_maxFrameBytes = M, sc_maxFrames = F, sc_frameBytes = fb, sc_remainingValues = r,
     sc_payloadBytes = 0, sc_extensionTypePending = False, sc_pending = None, sc_frames = fr\<rparr>"

lemma new_scanner_idle: "new_scanner M F = idle M F 0 (Suc 0) 0"
  by (simp add: new_scanner_def idle_def)

text \<open>What the loop does when a value has been read: close the frame if it was the last one.\<close>

definition ready :: "scanner \<Rightarrow> nat \<Rightarrow> (scanner \<times> nat, nat, px_error) outcome" where
  "ready s offset =
     (case completeIfReady s offset of
        Inl e \<Rightarrow> ([], Inl e)
      | Inr (s', bds) \<Rightarrow> (bds, Inr (s', offset)))"

lemma ready_idle_more: "0 < r \<Longrightarrow> ready (idle M F fb r fr) off = ([], Inr (idle M F fb r fr, off))"
  by (simp add: ready_def completeIfReady_def idle_def)

lemma ready_idle_0:
  "ready (idle M F fb 0 fr) off =
     (if fr < F then ([off], Inr (idle M F 0 (Suc 0) (Suc fr), off))
      else ([], Inl (JsError (''[PipeX] Frame count exceeds '' @ nat_digits F))))"
  by (auto simp: ready_def completeIfReady_def idle_def Let_def)

lemma ready_busy:
  "sc_pending s \<noteq> None \<or> 0 < sc_payloadBytes s \<Longrightarrow> ready s off = ([], Inr (s, off))"
  by (auto simp: ready_def completeIfReady_def)

lemma scan_inv_idle [simp]: "scan_inv (idle M F fb r fr)"
  by (simp add: scan_inv_def idle_def)

lemma scan_loop_append:
  assumes "scan_inv s"
  shows "scan_loop s off (xs @ ys) =
    then_do (scan_loop s off xs) (\<lambda>(s', off'). scan_loop s' off' ys)"
  using scanner.feed_append[of "(s, off)" xs ys] assms
  by (simp add: scan_feed_def case_prod_unfold)

declare scan_loop.simps(2) [simp del]

subsection \<open>The first byte\<close>

lemma and_15: "(t :: nat) AND 15 = t mod 16"
  using take_bit_eq_mask[of 4 t] by (simp add: take_bit_eq_mod mask_eq_exp_minus_1)

lemma and_31: "(t :: nat) AND 31 = t mod 32"
  using take_bit_eq_mask[of 5 t] by (simp add: take_bit_eq_mod mask_eq_exp_minus_1)

definition format_action :: "scanner \<Rightarrow> mp_format \<Rightarrow> px_error + scanner" where
  "format_action s f =
     (case f of
        MpData k \<Rightarrow> setPayload s k
      | MpChildren c \<Rightarrow> addChildren s c
      | MpLenData k \<Rightarrow> readLength s PayloadLength k
      | MpLenChildren k m \<Rightarrow> readLength s (if m = 2 then MapLength else ArrayLength) k
      | MpFixExt k \<Rightarrow> setExtensionPayload s k
      | MpLenExt k \<Rightarrow> readLength s ExtensionLength k
      | MpReserved \<Rightarrow> Inl invalidInput)"

lemma setPayload_0:
  "sc_payloadBytes s = 0 \<Longrightarrow> sc_frameBytes s + sc_remainingValues s \<le> sc_maxFrameBytes s \<Longrightarrow>
     setPayload s 0 = Inr s"
  by (simp add: setPayload_def ensureMinimumRemaining_def is_safe_integer_def throw_if_def
        max_safe_integer_def Let_def)

lemma readToken_format:
  assumes "t < 256" "sc_payloadBytes s = 0"
    "sc_frameBytes s + sc_remainingValues s \<le> sc_maxFrameBytes s"
  shows "readToken s t = format_action s (mp_format t)"
proof -
  have "t \<le> 0x7f \<or> 0x80 \<le> t \<and> t \<le> 0x8f \<or> 0x90 \<le> t \<and> t \<le> 0x9f \<or> 0xa0 \<le> t \<and> t \<le> 0xbf
    \<or> 0xc0 \<le> t \<and> t < 0xe0 \<or> 0xe0 \<le> t"
    by linarith
  then consider "t \<le> 0x7f" | "0x80 \<le> t" "t \<le> 0x8f" | "0x90 \<le> t" "t \<le> 0x9f"
    | "0xa0 \<le> t" "t \<le> 0xbf" | "t \<in> set [0xc0..<0xe0]" | "0xe0 \<le> t"
    by (simp only: set_upt atLeastLessThan_iff) blast
  then show ?thesis
  proof cases
    case 2
    then have "t mod 16 = t - 128" by (simp add: mod_if le_mod_geq)
    with 2 show ?thesis
      by (simp add: readToken_def mp_format_def format_action_def and_15 mult.commute)
  next
    case 3
    then have "t mod 16 = t - 144" by (simp add: le_mod_geq)
    with 3 show ?thesis by (simp add: readToken_def mp_format_def format_action_def and_15)
  next
    case 4
    then have "t mod 32 = t - 160" by (simp add: le_mod_geq)
    with 4 show ?thesis by (simp add: readToken_def mp_format_def format_action_def and_31)
  next
    case 5
    then show ?thesis
      using setPayload_0[OF assms(2,3)]
      by (auto simp: upt_conv_Cons readToken_def mp_format_def format_action_def)
  qed (use setPayload_0[OF assms(2,3)] in \<open>simp_all add: readToken_def mp_format_def format_action_def\<close>)
qed

subsection \<open>States inside a value\<close>

definition pay_state :: "nat \<Rightarrow> nat \<Rightarrow> nat \<Rightarrow> nat \<Rightarrow> nat \<Rightarrow> nat \<Rightarrow> bool \<Rightarrow> scanner" where
  "pay_state M F fb r fr p e =
     (idle M F fb r fr)\<lparr>sc_payloadBytes := p, sc_extensionTypePending := e\<rparr>"

definition len_state ::
  "nat \<Rightarrow> nat \<Rightarrow> nat \<Rightarrow> nat \<Rightarrow> nat \<Rightarrow> length_kind \<Rightarrow> nat \<Rightarrow> nat \<Rightarrow> nat \<Rightarrow> scanner" where
  "len_state M F fb r fr kind k j v =
     (idle M F fb r fr)\<lparr>sc_pending :=
        Some \<lparr>pl_kind = kind, pl_bytes = k, pl_read = j, pl_value = v\<rparr>\<rparr>"

lemmas scan_states = idle_def pay_state_def len_state_def

lemma pay_state_0 [simp]: "pay_state M F fb r fr 0 False = idle M F fb r fr"
  by (simp add: scan_states)

lemma scan_inv_pay_state: "0 < p \<Longrightarrow> fb + p \<le> M \<Longrightarrow> scan_inv (pay_state M F fb r fr p e)"
  by (simp add: scan_inv_def scan_states)

lemma scan_inv_len_state: "scan_inv (len_state M F fb r fr kind k j v)"
  by (simp add: scan_inv_def scan_states)

lemma ready_pay_state: "0 < p \<Longrightarrow> ready (pay_state M F fb r fr p e) off = ([], Inr (pay_state M F fb r fr p e, off))"
  by (rule ready_busy) (simp add: scan_states)

lemma ready_len_state:
  "ready (len_state M F fb r fr kind k j v) off = ([], Inr (len_state M F fb r fr kind k j v, off))"
  by (rule ready_busy) (simp add: scan_states)

lemma finish_busy:
  "\<not> returns (finish (pay_state M F fb r fr (Suc p) e))"
  "\<not> returns (finish (len_state M F fb r fr kind k j v))"
  by (simp_all add: finish_def scan_states)

lemma setPayload_idle:
  assumes "fb + r + p \<le> M" "M \<le> max_safe_integer"
  shows "setPayload (idle M F fb r fr) p = Inr (pay_state M F fb r fr p False)"
  using assms by (auto simp: setPayload_def ensureMinimumRemaining_def is_safe_integer_def
      scan_states throw_if_def Let_def)

lemma addChildren_idle:
  assumes "fb + (c + r) \<le> M" "M \<le> max_safe_integer"
  shows "addChildren (pay_state M F fb r fr p e) c = Inr (pay_state M F fb (c + r) fr p e)"
  using assms by (auto simp: addChildren_def ensureMinimumRemaining_def is_safe_integer_def
      scan_states throw_if_def Let_def add.commute)

lemma scan_token:
  assumes "fb + Suc r \<le> M"
  shows "scan_loop (idle M F fb (Suc r) fr) off [t] =
    (case format_action (idle M F (Suc fb) r fr) (mp_format (unat t)) of
       Inl e \<Rightarrow> ([], Inl e) | Inr s \<Rightarrow> ready s (Suc off))"
proof -
  have "consumeBytes (idle M F fb (Suc r) fr) 1 = Inr (idle M F (Suc fb) (Suc r) fr)"
    using assms by (simp add: consumeBytes_def idle_def)
  moreover have "readToken (idle M F (Suc fb) r fr) (unat t)
      = format_action (idle M F (Suc fb) r fr) (mp_format (unat t))"
    using assms by (intro readToken_format) (auto simp: idle_def)
  moreover have "(idle M F (Suc fb) (Suc r) fr)\<lparr>sc_remainingValues :=
      sc_remainingValues (idle M F (Suc fb) (Suc r) fr) - 1\<rparr> = idle M F (Suc fb) r fr"
    by (simp add: idle_def)
  moreover have "sc_remainingValues (idle M F (Suc fb) (Suc r) fr) \<noteq> 0"
    by (simp add: idle_def)
  ultimately have "scan_step (idle M F fb (Suc r) fr) off t [] =
     rbind (format_action (idle M F (Suc fb) r fr) (mp_format (unat t)))
       (\<lambda>s. completed s (off + 1) 1)"
    by (subst scan_step_token) (simp_all add: idle_def[of M F fb])
  then show ?thesis
    by (auto simp: scan_loop.simps rbind_def completed_def ready_def split: sum.splits prod.splits)
qed

lemma scan_payload:
  assumes "bs \<noteq> []" "length bs \<le> p" "fb + p \<le> M"
  shows "scan_loop (pay_state M F fb r fr p False) off bs =
    ready (pay_state M F (fb + length bs) r fr (p - length bs) False) (off + length bs)"
proof -
  obtain b rest where bs: "bs = b # rest" using assms(1) by (cases bs) auto
  have k: "length bs = min (sc_payloadBytes (pay_state M F fb r fr p False)) (Suc (length rest))"
    using assms(2) by (simp add: scan_states bs)
  have inv: "scan_inv (pay_state M F fb r fr p False)"
    using assms bs by (intro scan_inv_pay_state) auto
  have "scan_step (pay_state M F fb r fr p False) off b rest =
    (if p - length bs = 0
     then completed (pay_state M F (fb + length bs) r fr (p - length bs) False) (off + length bs) (length bs)
     else Inr (pay_state M F (fb + length bs) r fr (p - length bs) False, length bs, []))"
    using assms bs by (subst scan_step_payload[OF inv _ _ k refl]) (auto simp: scan_states)
  then show ?thesis
    by (auto simp: bs scan_loop.simps completed_def rbind_def ready_pay_state ready_def completeIfReady_def scan_states
          split: sum.splits prod.splits)
qed

lemma scan_extension_type:
  assumes "fb + Suc k + r \<le> M" "M \<le> max_safe_integer"
  shows "scan_loop (pay_state M F fb r fr (Suc k) True) off [ty] =
    (case ext_children (unat ty) of
       None \<Rightarrow> ([], Inl invalidInput)
     | Some c \<Rightarrow>
         if fb + Suc k + (c + r) \<le> M
         then ready (pay_state M F (Suc fb) (c + r) fr k False) (Suc off)
         else ([], Inl (frameTooLarge (idle M F 0 0 0))))"
proof -
  let ?s = "pay_state M F fb r fr (Suc k) True"
  have step: "scan_step ?s off ty [] =
     rbind (extension_type (pay_state M F (Suc fb) r fr k False) (unat ty))
       (\<lambda>s. if sc_payloadBytes s = 0 then completed s (off + 1) 1 else Inr (s, 1, []))"
    using assms by (subst scan_step_extension_type) (auto simp: scan_states consumeBytes_def)
  have ready: "scan_loop ?s off [ty] = ready s (Suc off)"
    if "extension_type (pay_state M F (Suc fb) r fr k False) (unat ty) = Inr s" for s
    using that unfolding scan_loop.simps step
    by (auto simp: completed_def ready_def rbind_def completeIfReady_def split: sum.splits prod.splits)
  have failed: "scan_loop ?s off [ty] = ([], Inl e)"
    if "extension_type (pay_state M F (Suc fb) r fr k False) (unat ty) = Inl e" for e
    using that unfolding scan_loop.simps step by simp
  consider "unat ty \<in> {0x65, 0x73, 0x78}" | "unat ty \<in> {0x00, 0x42, 0x74, 0xff}"
    | "unat ty \<notin> {0x65, 0x73, 0x78} \<union> {0x00, 0x42, 0x74, 0xff}"
    by blast
  then show ?thesis
  proof cases
    case 1
    show ?thesis
    proof (cases "fb + Suc k + (1 + r) \<le> M")
      case True
      then have "addChildren (pay_state M F (Suc fb) r fr k False) 1
          = Inr (pay_state M F (Suc fb) (1 + r) fr k False)"
        using assms by (intro addChildren_idle) auto
      moreover have "ensureMinimumRemaining (pay_state M F (Suc fb) (1 + r) fr k False) k = Inr ()"
        using True by (auto simp: ensureMinimumRemaining_def scan_states throw_if_def Let_def)
      ultimately have "extension_type (pay_state M F (Suc fb) r fr k False) (unat ty)
          = Inr (pay_state M F (Suc fb) (1 + r) fr k False)"
        using 1 by (auto simp: extension_type_def) (auto simp: scan_states)
      with True 1 show ?thesis by (auto simp: ready ext_children_def)
    next
      case False
      then have "extension_type (pay_state M F (Suc fb) r fr k False) (unat ty)
          = Inl (frameTooLarge (idle M F 0 0 0))"
        using 1 assms by (auto simp: extension_type_def addChildren_def ensureMinimumRemaining_def
          is_safe_integer_def frameTooLarge_def scan_states throw_if_def Let_def rbind_def)
      with False 1 show ?thesis by (auto simp: failed ext_children_def)
    qed
  next
    case 2
    then have "extension_type (pay_state M F (Suc fb) r fr k False) (unat ty)
        = Inr (pay_state M F (Suc fb) r fr k False)"
      by (auto simp: extension_type_def)
    with 2 assms show ?thesis by (auto simp: ready ext_children_def)
  next
    case 3
    then have "extension_type (pay_state M F (Suc fb) r fr k False) (unat ty) = Inl invalidInput"
      by (auto simp: extension_type_def)
    with 3 show ?thesis by (simp add: failed ext_children_def)
  qed
qed

text \<open>The bytes of a length; \<open>be_from v l\<close> continues the value \<open>v\<close> read so far.\<close>

definition be_from :: "nat \<Rightarrow> buffer \<Rightarrow> nat" where
  "be_from v l = foldl (\<lambda>v b. v * 256 + unat b) v l"

lemma be_from_0: "be_from 0 l = be_val l"
  by (simp add: be_from_def be_val_def)

lemma be_from_Cons: "be_from v (b # l) = be_from (v * 256 + unat b) l"
  by (simp add: be_from_def)

definition length_action ::
  "scanner \<Rightarrow> length_kind \<Rightarrow> nat \<Rightarrow> nat \<Rightarrow> (scanner \<times> nat, nat, px_error) outcome" where
  "length_action s kind v off =
     (case applyLength s kind v of Inl e \<Rightarrow> ([], Inl e) | Inr s' \<Rightarrow> ready s' off)"

lemma scan_length_byte:
  shows "scan_loop (len_state M F fb r fr kind k j v) off [b] =
    (if M < Suc fb then ([], Inl (frameTooLarge (idle M F 0 0 0)))
     else if Suc j = k then length_action (idle M F (Suc fb) r fr) kind (v * 256 + unat b) (Suc off)
     else ([], Inr (len_state M F (Suc fb) r fr kind k (Suc j) (v * 256 + unat b), Suc off)))"
proof -
  let ?s = "len_state M F fb r fr kind k j v"
  have pend: "sc_payloadBytes ?s = 0"
    "sc_pending ?s = Some \<lparr>pl_kind = kind, pl_bytes = k, pl_read = j, pl_value = v\<rparr>"
    by (simp_all add: scan_states)
  have step: "scan_step ?s off b [] =
     (if M < Suc fb then Inl (frameTooLarge (idle M F 0 0 0))
      else if Suc j = k
      then rbind (applyLength (idle M F (Suc fb) r fr) kind (v * 256 + unat b))
             (\<lambda>s. completed s (off + 1) 1)
      else Inr (len_state M F (Suc fb) r fr kind k (Suc j) (v * 256 + unat b), 1, []))"
    unfolding scan_step_length[OF pend]
    by (auto simp: consumeBytes_def scan_states frameTooLarge_def)
  show ?thesis
    unfolding scan_loop.simps step
    by (auto simp: length_action_def rbind_def completed_def ready_def split: sum.splits prod.splits)
qed

lemma scan_length:
  "l \<noteq> [] \<Longrightarrow> j + length l \<le> k \<Longrightarrow>
   scan_loop (len_state M F fb r fr kind k j v) off l =
    (if M < fb + length l then ([], Inl (frameTooLarge (idle M F 0 0 0)))
     else if j + length l = k
     then length_action (idle M F (fb + length l) r fr) kind (be_from v l) (off + length l)
     else ([], Inr (len_state M F (fb + length l) r fr kind k (j + length l) (be_from v l),
                    off + length l)))"
proof (induction l arbitrary: fb j v off)
  case (Cons b l)
  have split: "scan_loop (len_state M F fb r fr kind k j v) off (b # l) =
    then_do (scan_loop (len_state M F fb r fr kind k j v) off [b])
      (\<lambda>(s', off'). scan_loop s' off' l)"
    using scan_loop_append[OF scan_inv_len_state, of M F fb r fr kind k j v off "[b]" l] by simp
  show ?case
  proof (cases "l = []")
    case True
    then show ?thesis by (simp add: scan_length_byte be_from_def)
  next
    case False
    with Cons.prems have "Suc j \<noteq> k" by (cases l) auto
    with False Cons.prems show ?thesis
      unfolding split scan_length_byte by (auto simp: Cons.IH be_from_Cons)
  qed
qed simp

subsection \<open>A whole head\<close>

lemma mp_format_lengths:
  "mp_format t = MpLenData k \<Longrightarrow> 0 < k"
  "mp_format t = MpLenExt k \<Longrightarrow> 0 < k"
  "mp_format t = MpLenChildren k m \<Longrightarrow> 0 < k \<and> (m = 1 \<or> m = 2)"
  by (auto simp: mp_format_def split: if_splits)

lemma setExtensionPayload_idle:
  assumes "fb + r + Suc k \<le> M" "M \<le> max_safe_integer"
  shows "setExtensionPayload (idle M F fb r fr) k = Inr (pay_state M F fb r fr (Suc k) True)"
  using setPayload_idle[OF assms] by (simp add: setExtensionPayload_def) (simp add: scan_states)

lemma applyLength_children:
  assumes "m = 1 \<or> m = 2"
  shows "applyLength s (if m = 2 then MapLength else ArrayLength) v = addChildren s (v * m)"
  using assms by (auto simp: applyLength_def)

lemma applyLength_payload:
  assumes "fb + r + v \<le> M" "M \<le> max_safe_integer"
  shows "applyLength (idle M F fb r fr) PayloadLength v = Inr (pay_state M F fb r fr v False)"
  using setPayload_idle[OF assms] by (simp add: applyLength_def) (simp add: scan_states)

lemma applyLength_extension:
  assumes "fb + r + Suc v \<le> M" "M \<le> max_safe_integer"
  shows "applyLength (idle M F fb r fr) ExtensionLength v = Inr (pay_state M F fb r fr (Suc v) True)"
  using setPayload_idle[OF assms] by (simp add: applyLength_def) (simp add: scan_states)

lemma addChildren_idle0:
  assumes "fb + (c + r) \<le> M" "M \<le> max_safe_integer"
  shows "addChildren (idle M F fb r fr) c = Inr (idle M F fb (c + r) fr)"
  using addChildren_idle[OF assms, of F fr 0 False] by simp

lemma scan_token_then:
  assumes "fb + Suc r \<le> M"
    and "format_action (idle M F (Suc fb) r fr) (mp_format (unat t)) = Inr s"
  shows "scan_loop (idle M F fb (Suc r) fr) off (t # bs) =
    then_do (ready s (Suc off)) (\<lambda>(s', off'). scan_loop s' off' bs)"
  using scan_loop_append[OF scan_inv_idle, of M F fb "Suc r" fr off "[t]" bs] assms
  by (simp add: scan_token)

text \<open>The data of a value, and the type byte with the data of an extension.\<close>

lemma scan_data:
  assumes "length p = k" "fb + k \<le> M"
  shows "then_do (ready (pay_state M F fb r fr k False) off) (\<lambda>(s', off'). scan_loop s' off' p)
    = ready (idle M F (fb + k) r fr) (off + k)"
proof (cases "k = 0")
  case True
  then show ?thesis using assms by (cases "r = 0") (auto simp: ready_idle_more ready_idle_0)
next
  case False
  then show ?thesis using assms by (simp add: ready_pay_state) (subst scan_payload, auto)
qed

lemma scan_ext:
  assumes "ext_children (unat ty) = Some c" "length p = k" "fb + Suc k + (c + r) \<le> M"
    "M \<le> max_safe_integer"
  shows "scan_loop (pay_state M F fb r fr (Suc k) True) off (ty # p) =
    ready (idle M F (fb + Suc k) (c + r) fr) (off + Suc k)"
proof -
  have "scan_loop (pay_state M F fb r fr (Suc k) True) off [ty]
      = ready (pay_state M F (Suc fb) (c + r) fr k False) (Suc off)"
    using assms by (subst scan_extension_type) auto
  then have "scan_loop (pay_state M F fb r fr (Suc k) True) off (ty # p) =
    then_do (ready (pay_state M F (Suc fb) (c + r) fr k False) (Suc off))
      (\<lambda>(s', off'). scan_loop s' off' p)"
    using scan_loop_append[OF scan_inv_pay_state, of "Suc k" fb M F r fr True off "[ty]" p] assms
    by simp
  then show ?thesis using assms by (simp add: scan_data)
qed

lemma scan_head:
  assumes "mp_head c x" "fb + length x + (c + r) \<le> M" "M \<le> max_safe_integer"
  shows "scan_loop (idle M F fb (Suc r) fr) off x =
    ready (idle M F (fb + length x) (c + r) fr) (off + length x)"
  using assms(1)
proof cases
  case (head_data t k p)
  then have "format_action (idle M F (Suc fb) r fr) (mp_format (unat t))
      = Inr (pay_state M F (Suc fb) r fr k False)"
    using assms by (simp add: format_action_def setPayload_idle)
  with head_data assms show ?thesis by (simp add: scan_token_then scan_data)
next
  case (head_children t)
  then have "format_action (idle M F (Suc fb) r fr) (mp_format (unat t))
      = Inr (idle M F (Suc fb) (c + r) fr)"
    using assms by (simp add: format_action_def addChildren_idle0)
  with head_children assms show ?thesis by (simp add: scan_token)
next
  case (head_len_data t k l p)
  then have act: "format_action (idle M F (Suc fb) r fr) (mp_format (unat t))
      = Inr (len_state M F (Suc fb) r fr PayloadLength k 0 0)"
    by (simp add: format_action_def readLength_def len_state_def)
  have k: "0 < k" "l \<noteq> []" using head_len_data mp_format_lengths by auto
  have "scan_loop (len_state M F (Suc fb) r fr PayloadLength k 0 0) (Suc off) l
      = ready (pay_state M F (Suc fb + k) r fr (be_val l) False) (Suc off + k)"
    using head_len_data k assms
    by (subst scan_length) (auto simp: length_action_def be_from_0 applyLength_payload)
  with act head_len_data assms k show ?thesis
    by (simp add: scan_token_then ready_len_state scan_loop_append scan_inv_len_state scan_data
        add.assoc)
next
  case (head_len_children t k m l)
  then have act: "format_action (idle M F (Suc fb) r fr) (mp_format (unat t))
      = Inr (len_state M F (Suc fb) r fr (if m = 2 then MapLength else ArrayLength) k 0 0)"
    by (simp add: format_action_def readLength_def len_state_def)
  have k: "0 < k" "l \<noteq> []" and m: "m = 1 \<or> m = 2"
    using head_len_children mp_format_lengths(3) by fastforce+
  have "scan_loop (len_state M F (Suc fb) r fr (if m = 2 then MapLength else ArrayLength) k 0 0)
      (Suc off) l = ready (idle M F (Suc fb + k) (c + r) fr) (Suc off + k)"
    using head_len_children k assms
    by (subst scan_length) (auto simp: length_action_def be_from_0 applyLength_children[OF m]
        addChildren_idle0 simp del: if_split)
  with act head_len_children assms show ?thesis
    by (simp add: scan_token_then ready_len_state)
next
  case (head_fix_ext t k ty p)
  then have "format_action (idle M F (Suc fb) r fr) (mp_format (unat t))
      = Inr (pay_state M F (Suc fb) r fr (Suc k) True)"
    using assms by (simp add: format_action_def setExtensionPayload_idle)
  with head_fix_ext assms show ?thesis by (simp add: scan_token_then ready_pay_state scan_ext)
next
  case (head_len_ext t k l ty p)
  then have act: "format_action (idle M F (Suc fb) r fr) (mp_format (unat t))
      = Inr (len_state M F (Suc fb) r fr ExtensionLength k 0 0)"
    by (simp add: format_action_def readLength_def len_state_def)
  have k: "0 < k" "l \<noteq> []" using head_len_ext mp_format_lengths by auto
  have "scan_loop (len_state M F (Suc fb) r fr ExtensionLength k 0 0) (Suc off) l
      = ready (pay_state M F (Suc fb + k) r fr (Suc (be_val l)) True) (Suc off + k)"
    using head_len_ext k assms
    by (subst scan_length) (auto simp: length_action_def be_from_0 applyLength_extension)
  with act head_len_ext assms k show ?thesis
    by (simp add: scan_token_then ready_len_state ready_pay_state scan_loop_append scan_inv_len_state
        scan_ext add.assoc)
qed

subsection \<open>Reading a head off a scan that succeeded\<close>

text \<open>The scan of \<open>bs\<close> ended without an error, in a state in which \<open>finish\<close> accepts.\<close>

definition scan_ok :: "(scanner \<times> nat, nat, px_error) outcome \<Rightarrow> bool" where
  "scan_ok r \<longleftrightarrow> (\<exists>bds s off. r = (bds, Inr (s, off)) \<and> returns (finish s))"

lemma scan_ok_simps [simp]:
  "\<not> scan_ok (out, Inl e)"
  "scan_ok (out, Inr (s, off)) \<longleftrightarrow> returns (finish s)"
  by (auto simp: scan_ok_def)

lemma scan_ok_then_do:
  "scan_ok (then_do r f) \<longleftrightarrow> (\<exists>out s. r = (out, Inr s) \<and> scan_ok (f s))"
  by (cases r) (auto simp: then_do_def scan_ok_def split: sum.splits prod.splits)

lemma finish_pay_state [simp]: "0 < p \<Longrightarrow> \<not> returns (finish (pay_state M F fb r fr p e))"
  by (cases p) (simp_all add: finish_busy)

lemma scan_ok_payload:
  assumes "scan_ok (scan_loop (pay_state M F fb r fr p False) off bs)" "fb + p \<le> M"
  shows "p \<le> length bs"
proof (rule ccontr)
  assume short: "\<not> p \<le> length bs"
  show False
  proof (cases "bs = []")
    case True
    then show False using assms short by simp
  next
    case False
    then show False using assms short by (simp add: scan_payload ready_pay_state)
  qed
qed

lemma scan_ok_extension:
  assumes ok: "scan_ok (scan_loop (pay_state M F fb r fr (Suc k) True) off bs)"
    and "fb + Suc k + r \<le> M" "M \<le> max_safe_integer"
  obtains ty p rest c where "bs = ty # p @ rest" "length p = k" "ext_children (unat ty) = Some c"
    "fb + Suc k + (c + r) \<le> M"
proof (cases bs)
  case Nil
  then show ?thesis using ok by simp
next
  case (Cons ty tl)
  have "scan_loop (pay_state M F fb r fr (Suc k) True) off bs =
    then_do (scan_loop (pay_state M F fb r fr (Suc k) True) off [ty])
      (\<lambda>(s', off'). scan_loop s' off' tl)"
    using scan_loop_append[OF scan_inv_pay_state, of "Suc k" fb M F r fr True off "[ty]" tl] assms Cons
    by simp
  with ok obtain c where c: "ext_children (unat ty) = Some c" "fb + Suc k + (c + r) \<le> M"
    and rest: "scan_ok (then_do (ready (pay_state M F (Suc fb) (c + r) fr k False) (Suc off))
      (\<lambda>(s', off'). scan_loop s' off' tl))"
    using assms(2,3) by (auto simp: scan_extension_type split: option.splits if_splits)
  have "k \<le> length tl"
  proof (cases "k = 0")
    case False
    with rest have "scan_ok (scan_loop (pay_state M F (Suc fb) (c + r) fr k False) (Suc off) tl)"
      by (simp add: ready_pay_state)
    then show ?thesis by (rule scan_ok_payload) (use c in simp)
  qed simp
  with c Cons show ?thesis by (intro that[of ty "take k tl" "drop k tl" c]) auto
qed

lemma scan_ok_length:
  assumes ok: "scan_ok (scan_loop (len_state M F fb r fr kind k 0 0) off bs)" and "0 < k"
  obtains l rest s where "bs = l @ rest" "length l = k"
    "applyLength (idle M F (fb + k) r fr) kind (be_val l) = Inr s"
    "scan_ok (then_do (ready s (off + k)) (\<lambda>(s', off'). scan_loop s' off' rest))"
proof -
  have k: "k \<le> length bs"
  proof (rule ccontr)
    assume short: "\<not> k \<le> length bs"
    show False
    proof (cases "bs = []")
      case False
      then show False using ok short by (simp add: scan_length finish_busy split: if_splits)
    qed (use ok in \<open>simp add: finish_busy\<close>)
  qed
  define l rest where "l = take k bs" and "rest = drop k bs"
  with k have bs: "bs = l @ rest" "length l = k" by auto
  with assms have "l \<noteq> []" by auto
  with ok bs show ?thesis
    by (auto simp: scan_loop_append scan_inv_len_state scan_length length_action_def be_from_0
        split: if_splits sum.splits intro!: that)
qed

text \<open>The values outstanding always fit into the frame: this is checked before it is assumed.\<close>

lemma setPayload_idleD:
  "setPayload (idle M F fb r fr) p = Inr s \<Longrightarrow> s = pay_state M F fb r fr p False \<and> fb + r + p \<le> M"
  using setPayload_fields[of "idle M F fb r fr" p s] by (simp add: scan_states)

lemma addChildren_idleD:
  "addChildren (idle M F fb r fr) c = Inr s \<Longrightarrow> s = idle M F fb (c + r) fr \<and> fb + (c + r) \<le> M"
  using addChildren_fields[of "idle M F fb r fr" c s] by (simp add: scan_states add.commute)

lemma scan_ok_head:
  assumes ok: "scan_ok (scan_loop (idle M F fb (Suc r) fr) off bs)"
    and "bs \<noteq> []" "fb + Suc r \<le> M" "M \<le> max_safe_integer"
  obtains c x rest where "bs = x @ rest" "mp_head c x" "fb + length x + (c + r) \<le> M"
proof -
  obtain t tl where bs: "bs = t # tl" using assms(2) by (cases bs) auto
  have split: "scan_loop (idle M F fb (Suc r) fr) off bs =
    then_do (scan_loop (idle M F fb (Suc r) fr) off [t]) (\<lambda>(s', off'). scan_loop s' off' tl)"
    using scan_loop_append[OF scan_inv_idle, of M F fb "Suc r" fr off "[t]" tl] bs by simp
  with ok obtain s where s: "format_action (idle M F (Suc fb) r fr) (mp_format (unat t)) = Inr s"
    and rest: "scan_ok (then_do (ready s (Suc off)) (\<lambda>(s', off'). scan_loop s' off' tl))"
    using assms(3) by (auto simp: scan_token split: sum.splits)
  show ?thesis
  proof (cases "mp_format (unat t)")
    case (MpData k)
    with s have "s = pay_state M F (Suc fb) r fr k False" and fits: "Suc fb + r + k \<le> M"
      by (auto simp: format_action_def dest!: setPayload_idleD)
    with rest have "k \<le> length tl"
      by (cases "k = 0") (auto simp: ready_pay_state dest!: scan_ok_payload)
    with MpData fits show ?thesis
      by (intro that[of "t # take k tl" "drop k tl" 0]) (auto simp: bs intro: head_data)
  next
    case (MpChildren c)
    with s have "Suc fb + (c + r) \<le> M" by (auto simp: format_action_def dest!: addChildren_idleD)
    with MpChildren show ?thesis
      by (intro that[of "[t]" tl c]) (auto simp: bs intro: head_children)
  next
    case (MpLenData k)
    then have k: "0 < k" by (rule mp_format_lengths)
    from MpLenData s rest have
      "scan_ok (scan_loop (len_state M F (Suc fb) r fr PayloadLength k 0 0) (Suc off) tl)"
      by (simp add: format_action_def readLength_def flip: len_state_def)
        (auto simp: ready_len_state)
    then obtain l p' s' where l: "tl = l @ p'" "length l = k"
      and s': "applyLength (idle M F (Suc fb + k) r fr) PayloadLength (be_val l) = Inr s'"
      and rest: "scan_ok (then_do (ready s' (Suc off + k)) (\<lambda>(s', off'). scan_loop s' off' p'))"
      using k by (rule scan_ok_length)
    from s' have "s' = pay_state M F (Suc fb + k) r fr (be_val l) False"
      and fits: "Suc fb + k + r + be_val l \<le> M"
      by (auto simp: applyLength_def result_simps dest!: setPayload_idleD) (simp add: scan_states)
    with rest have "be_val l \<le> length p'"
      by (cases "be_val l = 0") (auto simp: ready_pay_state dest!: scan_ok_payload)
    then show ?thesis using l fits MpLenData
      by (intro that[of "t # l @ take (be_val l) p'" "drop (be_val l) p'" 0])
        (auto simp: bs intro!: head_len_data)
  next
    case (MpLenChildren k m)
    then have k: "0 < k" and m: "m = 1 \<or> m = 2" using mp_format_lengths(3) by blast+
    let ?kind = "if m = 2 then MapLength else ArrayLength"
    from MpLenChildren s rest have
      "scan_ok (scan_loop (len_state M F (Suc fb) r fr ?kind k 0 0) (Suc off) tl)"
      by (simp add: format_action_def readLength_def flip: len_state_def)
        (auto simp: ready_len_state)
    then obtain l p' s' where l: "tl = l @ p'" "length l = k"
      and s': "applyLength (idle M F (Suc fb + k) r fr) ?kind (be_val l) = Inr s'"
      using k by (rule scan_ok_length)
    from s' have "Suc fb + k + (be_val l * m + r) \<le> M"
      unfolding applyLength_children[OF m] by (auto dest!: addChildren_idleD)
    then show ?thesis using l MpLenChildren
      by (intro that[of "t # l" p' "be_val l * m"]) (auto simp: bs intro!: head_len_children)
  next
    case (MpFixExt k)
    from MpFixExt s have s: "s = pay_state M F (Suc fb) r fr (Suc k) True"
      and fits: "Suc fb + Suc k + r \<le> M"
      by (auto simp: format_action_def setExtensionPayload_def result_simps dest!: setPayload_idleD)
        (simp add: scan_states)
    from rest have "scan_ok (scan_loop (pay_state M F (Suc fb) r fr (Suc k) True) (Suc off) tl)"
      by (simp add: s ready_pay_state)
    then obtain ty p rest' c where "tl = ty # p @ rest'" "length p = k"
      "ext_children (unat ty) = Some c" "Suc fb + Suc k + (c + r) \<le> M"
      using fits assms(4) by (rule scan_ok_extension)
    then show ?thesis using MpFixExt
      by (intro that[of "t # ty # p" rest' c]) (auto simp: bs intro: head_fix_ext)
  next
    case (MpLenExt k)
    then have k: "0 < k" by (rule mp_format_lengths)
    from MpLenExt s rest have
      "scan_ok (scan_loop (len_state M F (Suc fb) r fr ExtensionLength k 0 0) (Suc off) tl)"
      by (simp add: format_action_def readLength_def flip: len_state_def)
        (auto simp: ready_len_state)
    then obtain l p' s' where l: "tl = l @ p'" "length l = k"
      and s': "applyLength (idle M F (Suc fb + k) r fr) ExtensionLength (be_val l) = Inr s'"
      and rest: "scan_ok (then_do (ready s' (Suc off + k)) (\<lambda>(s', off'). scan_loop s' off' p'))"
      using k by (rule scan_ok_length)
    from s' have s': "s' = pay_state M F (Suc fb + k) r fr (Suc (be_val l)) True"
      and fits: "Suc fb + k + Suc (be_val l) + r \<le> M"
      by (auto simp: applyLength_def result_simps dest!: setPayload_idleD) (simp add: scan_states)
    from rest have "scan_ok (scan_loop
        (pay_state M F (Suc fb + k) r fr (Suc (be_val l)) True) (Suc off + k) p')"
      by (simp add: s' ready_pay_state)
    then obtain ty p rest' c where "p' = ty # p @ rest'" "length p = be_val l"
      "ext_children (unat ty) = Some c" "Suc fb + k + Suc (be_val l) + (c + r) \<le> M"
      using fits assms(4) by (rule scan_ok_extension)
    then show ?thesis using MpLenExt l
      by (intro that[of "t # l @ ty # p" rest' c]) (auto simp: bs intro!: head_len_ext)
  next
    case MpReserved
    then show ?thesis using s by (simp add: format_action_def)
  qed
qed

section \<open>Exactness of the scanner\<close>

lemma scan_head_then:
  assumes "mp_head c x" "fb + length x + (c + r) \<le> M" "M \<le> max_safe_integer"
  shows "scan_loop (idle M F fb (Suc r) fr) off (x @ rest) =
    then_do (ready (idle M F (fb + length x) (c + r) fr) (off + length x))
      (\<lambda>(s', off'). scan_loop s' off' rest)"
  by (simp add: scan_loop_append scan_head[OF assms])

lemma ready_idle_scan_Nil:
  "then_do (ready (idle M F fb 0 fr) off) (\<lambda>(s', off'). scan_loop s' off' []) =
     ready (idle M F fb 0 fr) off"
  by (simp add: ready_idle_0)

text \<open>Complete values are scanned to their end.\<close>

lemma scan_values:
  "mp_values n bs \<Longrightarrow> 0 < n \<Longrightarrow> fb + length bs + r \<le> M \<Longrightarrow> M \<le> max_safe_integer \<Longrightarrow>
     scan_loop (idle M F fb (n + r) fr) off bs =
       ready (idle M F (fb + length bs) r fr) (off + length bs)"
proof (induction n bs arbitrary: fb off rule: mp_values.induct)
  case (values_more c x n rest)
  have "c + n \<le> length rest" using values_more.hyps(2) by (rule mp_values_length)
  then have fits: "fb + length x + (c + (n + r)) \<le> M" using values_more.prems by simp
  note head = scan_head_then[OF values_more.hyps(1) fits values_more.prems(3)]
  show ?case
  proof (cases "c + n = 0")
    case True
    then have "rest = []" "c = 0" "n = 0" using values_more.hyps(2) by auto
    then show ?thesis
      using head[of F fr off rest] by (cases "r = 0") (auto simp: ready_idle_more ready_idle_0)
  next
    case False
    have "scan_loop (idle M F (fb + length x) (c + n + r) fr) (off + length x) rest =
      ready (idle M F (fb + length x + length rest) r fr) (off + length x + length rest)"
      using values_more.prems False by (intro values_more.IH) auto
    moreover have "0 < c + (n + r)" using False by auto
    ultimately show ?thesis
      using head[of F fr off rest] by (simp only: ready_idle_more then_do_return prod.case) (simp add: add.assoc)
  qed
qed simp

text \<open>The ends of consecutive frames.\<close>

fun frame_ends :: "nat \<Rightarrow> buffer list \<Rightarrow> nat list" where
  "frame_ends off [] = []"
| "frame_ends off (f # fs) = (off + length f) # frame_ends (off + length f) fs"

lemma length_frame_ends [simp]: "length (frame_ends off fs) = length fs"
  by (induction fs arbitrary: off) auto

lemma frame_ends_append:
  "frame_ends off (fs @ gs) = frame_ends off fs @ frame_ends (off + length (concat fs)) gs"
  by (induction fs arbitrary: off) (auto simp: add.assoc)

lemma frame_ends_inj:
  "frame_ends off fs = frame_ends off gs \<Longrightarrow> concat fs @ xs = concat gs \<Longrightarrow> fs = gs \<and> xs = []"
proof (induction fs arbitrary: off gs)
  case Nil
  then show ?case by (cases gs) auto
next
  case (Cons f fs)
  then obtain g gs' where gs: "gs = g # gs'" by (cases gs) auto
  with Cons.prems have "length f = length g" by simp
  with Cons.prems gs have "f = g" "concat fs @ xs = concat gs'" by auto
  with Cons.prems Cons.IH[of "off + length g" gs'] gs show ?case by simp
qed

definition frames_within :: "nat \<Rightarrow> buffer list \<Rightarrow> bool" where
  "frames_within M fs \<longleftrightarrow> (\<forall>f \<in> set fs. mp_frame f \<and> length f \<le> M)"

lemma scan_frames:
  "frames_within M fs \<Longrightarrow> M \<le> max_safe_integer \<Longrightarrow> fr + length fs \<le> F \<Longrightarrow>
     scan_loop (idle M F 0 (Suc 0) fr) off (concat fs) =
       (frame_ends off fs, Inr (idle M F 0 (Suc 0) (fr + length fs), off + length (concat fs)))"
proof (induction fs arbitrary: fr off)
  case (Cons f fs)
  then have f: "mp_values 1 f" "length f \<le> M" by (auto simp: frames_within_def mp_frame_def)
  have "scan_loop (idle M F 0 (Suc 0) fr) off f = ready (idle M F (length f) 0 fr) (off + length f)"
    using scan_values[OF f(1), of 0 0 M F fr off] f Cons.prems by simp
  then show ?case
    using Cons by (simp add: scan_loop_append ready_idle_0 frames_within_def add.assoc)
qed simp

text \<open>A scan that succeeds has read complete values.\<close>

lemma finish_idle: "returns (finish (idle M F fb r fr)) \<longleftrightarrow> fb = 0"
  by (simp add: finish_def idle_def throw_if_def)

lemma scan_ok_values:
  "scan_ok (scan_loop (idle M F fb r fr) off bs) \<Longrightarrow> 0 < r \<Longrightarrow> fb + r \<le> M \<Longrightarrow>
     0 < fb \<or> bs \<noteq> [] \<Longrightarrow> M \<le> max_safe_integer \<Longrightarrow>
   \<exists>v rest. bs = v @ rest \<and> v \<noteq> [] \<and> mp_values r v \<and> fb + length v \<le> M \<and>
     scan_ok (then_do (ready (idle M F (fb + length v) 0 fr) (off + length v))
       (\<lambda>(s', off'). scan_loop s' off' rest))"
proof (induction "length bs" arbitrary: bs fb r off rule: less_induct)
  case less
  show ?case
  proof (cases "bs = []")
    case True
    then show ?thesis using less.prems by (simp add: finish_idle)
  next
    case False
    obtain r' where r: "r = Suc r'" using less.prems by (cases r) auto
    from less.prems False obtain c x rest
      where x: "bs = x @ rest" "mp_head c x" "fb + length x + (c + r') \<le> M"
      unfolding r by (elim scan_ok_head) auto
    have nonempty: "0 < length x" using x(2) by (rule mp_head_nonempty)
    from less.prems(1) have rest: "scan_ok (then_do
        (ready (idle M F (fb + length x) (c + r') fr) (off + length x))
        (\<lambda>(s', off'). scan_loop s' off' rest))"
      unfolding r x(1) by (simp add: scan_head_then[OF x(2,3) less.prems(5)])
    show ?thesis
    proof (cases "c + r' = 0")
      case True
      with x have "mp_values r x" using values_more[of c x r' "[]"] by (simp add: r)
      with x rest True nonempty show ?thesis by fastforce
    next
      case False
      with rest have ok: "scan_ok (scan_loop (idle M F (fb + length x) (c + r') fr) (off + length x) rest)"
        by (simp add: ready_idle_more)
      have "length rest < length bs" using x nonempty by simp
      from less.hyps[OF this ok] obtain v rest' where
        "rest = v @ rest'" "mp_values (c + r') v" "fb + length x + length v \<le> M"
        "scan_ok (then_do (ready (idle M F (fb + length x + length v) 0 fr) (off + length x + length v))
           (\<lambda>(s', off'). scan_loop s' off' rest'))"
        using False x nonempty less.prems(5) by auto
      with x nonempty show ?thesis
        by (intro exI[of _ "x @ v"] exI[of _ rest'])
          (auto simp: r add.assoc intro: values_more)
    qed
  qed
qed

lemma scan_ok_frames:
  "scan_ok (scan_loop (idle M F 0 (Suc 0) fr) off bs) \<Longrightarrow> fr \<le> F \<Longrightarrow> 0 < M \<Longrightarrow> M \<le> max_safe_integer \<Longrightarrow>
     \<exists>fs. concat fs = bs \<and> fr + length fs \<le> F \<and> frames_within M fs"
proof (induction "length bs" arbitrary: bs fr off rule: less_induct)
  case less
  show ?case
  proof (cases "bs = []")
    case True
    then show ?thesis using less.prems by (intro exI[of _ "[]"]) (simp add: frames_within_def)
  next
    case False
    with scan_ok_values[OF less.prems(1)] less.prems obtain v rest where
      v: "bs = v @ rest" "v \<noteq> []" "mp_values 1 v" "length v \<le> M" and
      "scan_ok (then_do (ready (idle M F (length v) 0 fr) (off + length v))
         (\<lambda>(s', off'). scan_loop s' off' rest))"
      by auto
    then have "fr < F" and ok: "scan_ok (scan_loop (idle M F 0 (Suc 0) (Suc fr)) (off + length v) rest)"
      by (auto simp: ready_idle_0 scan_ok_then_do split: if_splits)
    have "length rest < length bs" using v by simp
    from less.hyps[OF this ok] \<open>fr < F\<close> less.prems obtain fs
      where "concat fs = rest" "Suc fr + length fs \<le> F" "frames_within M fs" by auto
    with v show ?thesis
      by (intro exI[of _ "v # fs"]) (simp add: frames_within_def mp_frame_def)
  qed
qed

lemma scan_ok_whole:
  assumes "M \<le> max_safe_integer"
  shows "scan_ok (scan_loop (new_scanner M F) 0 bs) \<longleftrightarrow>
    (\<exists>fs. concat fs = bs \<and> length fs \<le> F \<and> frames_within M fs)"
proof
  assume ok: "scan_ok (scan_loop (new_scanner M F) 0 bs)"
  show "\<exists>fs. concat fs = bs \<and> length fs \<le> F \<and> frames_within M fs"
  proof (cases "M = 0")
    case True
    have "bs = []"
    proof (rule ccontr)
      assume "bs \<noteq> []"
      then obtain b rest where "bs = b # rest" by (cases bs) auto
      then show False using ok True
        by (simp add: new_scanner_idle scan_loop.simps scan_step_token idle_def consumeBytes_def)
    qed
    then show ?thesis by (intro exI[of _ "[]"]) (simp add: frames_within_def)
  next
    case False
    with ok assms show ?thesis
      using scan_ok_frames[of M F 0 0 bs] by (simp add: new_scanner_idle)
  qed
next
  assume "\<exists>fs. concat fs = bs \<and> length fs \<le> F \<and> frames_within M fs"
  then show "scan_ok (scan_loop (new_scanner M F) 0 bs)"
    using assms by (auto simp: new_scanner_idle scan_frames finish_idle)
qed

text \<open>There is only one way to cut a buffer into frames.\<close>

lemma frames_unique:
  assumes "frames_within M fs" "frames_within M gs" "concat fs = concat gs" "M \<le> max_safe_integer"
  shows "fs = gs"
proof -
  define F where "F = length fs + length gs"
  have "0 + length fs \<le> F" "0 + length gs \<le> F" by (simp_all add: F_def)
  note fs = scan_frames[OF assms(1,4) this(1), of 0] and gs = scan_frames[OF assms(2,4) this(2), of 0]
  have "frame_ends 0 fs = frame_ends 0 gs"
    using fs gs unfolding assms(3) by simp
  then show ?thesis using frame_ends_inj[of 0 fs gs "[]"] assms(3) by simp
qed

lemma assert_returns_frames:
  assumes "M \<le> max_safe_integer"
  shows "assertMessagePackFrameLimits bs M F = Inr n \<longleftrightarrow>
    (\<exists>fs. concat fs = bs \<and> length fs = n \<and> n \<le> F \<and> frames_within M fs)"
proof
  assume "assertMessagePackFrameLimits bs M F = Inr n"
  then obtain s bds where s: "scan (new_scanner M F) bs = Inr (s, bds)"
    and fin: "finish s = Inr ()" and n: "n = length bds"
    by (auto simp: assertMessagePackFrameLimits_def result_simps)
  from s obtain off where loop: "scan_loop (new_scanner M F) 0 bs = (bds, Inr (s, off))"
    by (auto simp: scan_def split: prod.splits sum.splits)
  with fin have "scan_ok (scan_loop (new_scanner M F) 0 bs)" by simp
  then obtain fs where fs: "concat fs = bs" "length fs \<le> F" "frames_within M fs"
    using scan_ok_whole[OF assms] by blast
  with loop assms have "bds = frame_ends 0 fs" by (auto simp: new_scanner_idle scan_frames)
  with fs n show "\<exists>fs. concat fs = bs \<and> length fs = n \<and> n \<le> F \<and> frames_within M fs" by auto
next
  assume "\<exists>fs. concat fs = bs \<and> length fs = n \<and> n \<le> F \<and> frames_within M fs"
  then obtain fs where "concat fs = bs" "length fs = n" "n \<le> F" "frames_within M fs" by blast
  then have loop: "scan_loop (new_scanner M F) 0 bs =
      (frame_ends 0 fs, Inr (idle M F 0 (Suc 0) n, length bs))"
    using scan_frames[of M fs 0 F 0] assms by (auto simp: new_scanner_idle)
  have "finish (idle M F 0 (Suc 0) n) = Inr ()"
    using finish_idle[of M F 0 "Suc 0" n] by (auto simp: returns_def)
  with loop \<open>length fs = n\<close> show "assertMessagePackFrameLimits bs M F = Inr n"
    by (simp add: assertMessagePackFrameLimits_def scan_def)
qed

end
