(* ===== verification/Frame_Limit_Stream.thy ===== *)
theory Frame_Limit_Stream
  imports MessagePack_Frames
begin

text \<open>
  \<open>buildFrameLimitTransform\<close> of \<open>src/core/frameLimits.ts\<close>: the stream stage that joins the pieces
  of a frame and pushes each complete frame.  It is shown to succeed exactly on sequences of
  complete values within the limits, to push exactly those values however the input was cut, and
  never to hold more than \<open>maxFrameBytes\<close> bytes between two chunks.
\<close>

section \<open>The stage\<close>

record frame_stage =
  fs_scanner :: scanner
  fs_frameChunks :: "buffer list"
  fs_frameBytes :: nat

definition new_frame_stage :: "nat \<Rightarrow> nat \<Rightarrow> frame_stage" where
  "new_frame_stage maxFrameBytes maxFrames =
     \<lparr>fs_scanner = new_scanner maxFrameBytes maxFrames, fs_frameChunks = [], fs_frameBytes = 0\<rparr>"

text \<open>The body of the loop over the boundaries: what is pushed, the state, and the new start.\<close>

fun push_frames :: "frame_stage \<Rightarrow> buffer \<Rightarrow> nat \<Rightarrow> nat list \<Rightarrow> buffer list \<times> frame_stage \<times> nat" where
  "push_frames s inp start [] = ([], s, start)"
| "push_frames s inp start (boundary # boundaries) =
     (let part = subarray inp start boundary;
          s1 = (if 0 < length part
                then s\<lparr>fs_frameChunks := fs_frameChunks s @ [part],
                       fs_frameBytes := fs_frameBytes s + length part\<rparr>
                else s);
          pushed = (if length (fs_frameChunks s1) = 1 then hd (fs_frameChunks s1)
                    else buf_concat (fs_frameChunks s1) (fs_frameBytes s1));
          (out, s2, start2) =
            push_frames (s1\<lparr>fs_frameChunks := [], fs_frameBytes := 0\<rparr>) inp boundary boundaries
      in (pushed # out, s2, start2))"

definition frame_transform ::
  "frame_stage \<Rightarrow> buffer \<Rightarrow> (frame_stage, buffer, px_error) outcome" where
  "frame_transform s chunk =
     (case scan (fs_scanner s) chunk of
        Inl e \<Rightarrow> ([], Inl e)
      | Inr (sc, boundaries) \<Rightarrow>
          let (out, s1, start) = push_frames (s\<lparr>fs_scanner := sc\<rparr>) chunk 0 boundaries;
              part = drop start chunk
          in (out, Inr (if start < length chunk
                        then s1\<lparr>fs_frameChunks := fs_frameChunks s1 @ [part],
                                fs_frameBytes := fs_frameBytes s1 + length part\<rparr>
                        else s1)))"

definition frame_flush :: "frame_stage \<Rightarrow> (frame_stage, buffer, px_error) outcome" where
  "frame_flush s = (case finish (fs_scanner s) of Inl e \<Rightarrow> ([], Inl e) | Inr _ \<Rightarrow> ([], Inr s))"

definition frame_stream :: "nat \<Rightarrow> nat \<Rightarrow> buffer list \<Rightarrow> (frame_stage, buffer, px_error) outcome" where
  "frame_stream M F chunks = run_transform frame_transform frame_flush (new_frame_stage M F) chunks"

section \<open>Boundaries of one chunk\<close>

lemma completeIfReady_shift:
  "completeIfReady s (off + d) =
     (case completeIfReady s off of Inl e \<Rightarrow> Inl e | Inr (s', bds) \<Rightarrow> Inr (s', map (\<lambda>b. b + d) bds))"
  by (simp add: completeIfReady_def Let_def)

lemma completed_shift:
  "completed s (off + d) k =
     (case completed s off k of Inl e \<Rightarrow> Inl e | Inr (s', k, bds) \<Rightarrow> Inr (s', k, map (\<lambda>b. b + d) bds))"
  by (simp add: completed_def completeIfReady_shift rbind_def split: sum.splits)

text \<open>What one iteration does to the counters.\<close>

lemma consumeBytes_both:
  "consumeBytes s n = Inr s' \<Longrightarrow> s' = s\<lparr>sc_frameBytes := sc_frameBytes s + n\<rparr>
     \<and> sc_frameBytes s + n \<le> sc_maxFrameBytes s"
  using consumeBytes_fields by blast

lemma readToken_frameBytes:
  "readToken s t = Inr s' \<Longrightarrow>
     sc_frameBytes s' = sc_frameBytes s \<and> sc_maxFrameBytes s' = sc_maxFrameBytes s"
  unfolding readToken_def
  by (auto simp: setExtensionPayload_def readLength_def result_simps
      dest!: addChildren_fields(1) setPayload_fields(1) split: if_splits)

lemma applyLength_frameBytes:
  "applyLength s kind v = Inr s' \<Longrightarrow>
     sc_frameBytes s' = sc_frameBytes s \<and> sc_maxFrameBytes s' = sc_maxFrameBytes s"
  unfolding applyLength_def
  by (auto simp: result_simps dest!: addChildren_fields(1) setPayload_fields(1) split: if_splits)

lemma extension_type_frameBytes:
  "extension_type s ty = Inr s' \<Longrightarrow>
     sc_frameBytes s' = sc_frameBytes s \<and> sc_maxFrameBytes s' = sc_maxFrameBytes s"
  unfolding extension_type_def
  by (auto simp: result_simps dest!: addChildren_fields(1) split: if_splits)

definition counted :: "scanner \<Rightarrow> nat \<Rightarrow> nat \<Rightarrow> scanner \<Rightarrow> nat list \<Rightarrow> bool" where
  "counted s off k s' bds \<longleftrightarrow>
     (bds = [] \<and> sc_frameBytes s' = sc_frameBytes s + k
        \<and> sc_frameBytes s + k \<le> sc_maxFrameBytes s
      \<or> bds = [off + k] \<and> sc_frameBytes s' = 0)
     \<and> sc_maxFrameBytes s' = sc_maxFrameBytes s"

lemma completeIfReady_counted:
  assumes "completeIfReady s1 (off + k) = Inr (s', bds)"
    "sc_frameBytes s1 = sc_frameBytes s + k" "sc_frameBytes s + k \<le> sc_maxFrameBytes s"
    "sc_maxFrameBytes s1 = sc_maxFrameBytes s"
  shows "counted s off k s' bds"
  using assms by (auto simp: completeIfReady_def counted_def Let_def split: if_splits)


lemma completeIfReady_counted_1:
  assumes "completeIfReady s1 (Suc off) = Inr (s', bds)"
    "sc_frameBytes s1 = Suc (sc_frameBytes s)" "Suc (sc_frameBytes s) \<le> sc_maxFrameBytes s"
    "sc_maxFrameBytes s1 = sc_maxFrameBytes s"
  shows "counted s off (Suc 0) s' bds"
  using assms completeIfReady_counted[of s1 off 1 s' bds s] by simp

lemma counted_none:
  "sc_frameBytes s' = sc_frameBytes s + k \<Longrightarrow> sc_frameBytes s + k \<le> sc_maxFrameBytes s \<Longrightarrow>
     sc_maxFrameBytes s' = sc_maxFrameBytes s \<Longrightarrow> counted s off k s' []"
  by (simp add: counted_def)

text \<open>An iteration at another offset does the same and moves its boundary along.\<close>

definition shift_step ::
  "nat \<Rightarrow> px_error + (scanner \<times> nat \<times> nat list) \<Rightarrow> px_error + (scanner \<times> nat \<times> nat list)" where
  "shift_step d r = (case r of Inl e \<Rightarrow> Inl e | Inr (s', k, bds) \<Rightarrow> Inr (s', k, map (\<lambda>b. b + d) bds))"

lemma shift_step_simps [simp]:
  "shift_step d (Inl e) = Inl e"
  "shift_step d (Inr (s', k, bds)) = Inr (s', k, map (\<lambda>b. b + d) bds)"
  by (simp_all add: shift_step_def)

lemma shift_step_rbind: "shift_step d (rbind r f) = rbind r (\<lambda>a. shift_step d (f a))"
  by (simp add: rbind_def split: sum.splits)

lemma completed_shifted: "completed s (off + d) k = shift_step d (completed s off k)"
  by (simp add: completed_shift shift_step_def)

lemma scan_step_shift:
  assumes "scan_inv s"
  shows "scan_step s (off + d) b rest = shift_step d (scan_step s off b rest)"
proof -
  have swap: "off + d + k = off + k + d" for k by simp
  show ?thesis
  proof (cases s rule: scan_step_cases)
    case ext
    then show ?thesis
      unfolding scan_step_extension_type[OF ext] shift_step_rbind if_distrib[of "shift_step d"]
        shift_step_simps list.map swap completed_shifted by simp
  next
    case payload
    then show ?thesis
      unfolding scan_step_payload[OF assms payload refl refl] if_distrib[of "shift_step d"]
        shift_step_simps list.map swap completed_shifted by simp
  next
    case (len p)
    then show ?thesis
      unfolding scan_step_length[OF len] Let_def shift_step_rbind if_distrib[of "shift_step d"]
        shift_step_simps list.map swap completed_shifted by simp
  next
    case token
    then show ?thesis
      unfolding scan_step_token[OF token] shift_step_rbind if_distrib[of "shift_step d"]
        shift_step_simps list.map swap completed_shifted by simp
  qed
qed

lemma scan_loop_shift:
  "scan_inv s \<Longrightarrow> scan_loop s (off + d) bs =
     (case scan_loop s off bs of
        (bds, Inl e) \<Rightarrow> (map (\<lambda>b. b + d) bds, Inl e)
      | (bds, Inr (s', off')) \<Rightarrow> (map (\<lambda>b. b + d) bds, Inr (s', off' + d)))"
proof (induction s off bs rule: scan_loop.induct)
  case (2 s off b rest)
  show ?case
  proof (cases "scan_step s off b rest")
    case (Inl e)
    then show ?thesis by (simp add: scan_loop.simps scan_step_shift[OF 2(2)])
  next
    case (Inr r)
    obtain s' k bds where r: "r = (s', k, bds)" by (cases r)
    with Inr 2(2) have "scan_inv s'" by (auto dest: scan_step_inv)
    then have "scan_loop s' (off + k + d) (drop k (b # rest)) =
     (case scan_loop s' (off + k) (drop k (b # rest)) of
        (bds, Inl e) \<Rightarrow> (map (\<lambda>b. b + d) bds, Inl e)
      | (bds, Inr (s', off')) \<Rightarrow> (map (\<lambda>b. b + d) bds, Inr (s', off' + d)))"
      using 2(1) Inr r by blast
    moreover have "off + d + k = off + k + d" by simp
    ultimately show ?thesis
      by (simp only: scan_loop.simps scan_step_shift[OF 2(2)] Inr r shift_step_simps sum.case
          prod.case then_do_Inr) (auto split: prod.splits sum.splits)
  qed
qed simp

lemma scan_step_counted:
  assumes inv: "scan_inv s" and r: "scan_step s off b rest = Inr (s', k, bds)"
  shows "counted s off k s' bds" and "k \<le> Suc (length rest)"
proof -
  have "counted s off k s' bds \<and> k \<le> Suc (length rest)"
  proof (cases s rule: scan_step_cases)
    case ext
    with r show ?thesis
      by (auto simp: scan_step_extension_type result_simps completed_eq_Inr
          dest!: consumeBytes_both extension_type_frameBytes
          intro!: completeIfReady_counted_1 counted_none split: if_splits)
  next
    case payload
    let ?k = "min (sc_payloadBytes s) (Suc (length rest))"
    have "sc_frameBytes s + ?k \<le> sc_maxFrameBytes s"
      using inv payload by (auto simp: scan_inv_def min_def)
    with r show ?thesis
      unfolding scan_step_payload[OF inv payload refl refl]
      by (auto simp: completed_eq_Inr intro!: counted_none intro: completeIfReady_counted split: if_splits)
  next
    case (len p)
    with r show ?thesis
      by (auto simp: scan_step_length Let_def result_simps completed_eq_Inr
          dest!: consumeBytes_both applyLength_frameBytes
          intro!: completeIfReady_counted_1 counted_none split: if_splits)
  next
    case token
    with r show ?thesis
      by (auto simp: scan_step_token result_simps completed_eq_Inr
          dest!: consumeBytes_both readToken_frameBytes
          intro!: completeIfReady_counted_1 split: if_splits)
  qed
  then show "counted s off k s' bds" and "k \<le> Suc (length rest)" by auto
qed


text \<open>Boundaries go up and stay inside the bytes scanned.\<close>

fun cut_points :: "nat \<Rightarrow> nat list \<Rightarrow> nat \<Rightarrow> bool" where
  "cut_points from [] to \<longleftrightarrow> from \<le> to"
| "cut_points from (b # bds) to \<longleftrightarrow> from \<le> b \<and> cut_points b bds to"

lemma cut_points_mono: "cut_points from bds to \<Longrightarrow> from' \<le> from \<Longrightarrow> cut_points from' bds to"
  by (cases bds) auto

lemma cut_points_last: "cut_points from bds to \<Longrightarrow> from \<le> last (from # bds) \<and> last (from # bds) \<le> to"
  by (induction bds arbitrary: "from") force+

lemma scan_loop_counted:
  "scan_inv s \<Longrightarrow> sc_frameBytes s \<le> sc_maxFrameBytes s \<Longrightarrow>
   scan_loop s off bs = (bds, Inr (s', off')) \<Longrightarrow>
     off' = off + length bs \<and> cut_points off bds off' \<and> sc_frameBytes s' \<le> sc_maxFrameBytes s'
     \<and> sc_maxFrameBytes s' = sc_maxFrameBytes s
     \<and> sc_frameBytes s' + last (off # bds) = off' + (if bds = [] then sc_frameBytes s else 0)"
proof (induction s off bs arbitrary: bds rule: scan_loop.induct)
  case (2 s off b rest)
  from 2(4) obtain s1 k bds1 bds2 where
    step: "scan_step s off b rest = Inr (s1, k, bds1)" and
    loop: "scan_loop s1 (off + k) (drop k (b # rest)) = (bds2, Inr (s', off'))" and
    bds: "bds = bds1 @ bds2"
    by (auto simp: scan_loop.simps split: sum.splits prod.splits)
  note counted = scan_step_counted[OF 2(2) step]
  have s1: "scan_inv s1" "sc_frameBytes s1 \<le> sc_maxFrameBytes s1"
    using counted(1) scan_step_inv[OF 2(2) step] by (auto simp: counted_def)
  note IH = 2(1)[OF step refl refl refl s1 loop]
  have "off + k + length (drop k (b # rest)) = off + length (b # rest)"
    using counted(2) by simp
  with IH counted(1) show ?case
    unfolding bds counted_def by (auto intro: cut_points_mono)
qed simp

section \<open>What the stage pushes\<close>

definition stage_counts :: "frame_stage \<Rightarrow> bool" where
  "stage_counts s \<longleftrightarrow> fs_frameBytes s = length (concat (fs_frameChunks s))"

lemma pushed_concat:
  "stage_counts s \<Longrightarrow>
     (if length (fs_frameChunks s) = 1 then hd (fs_frameChunks s)
      else buf_concat (fs_frameChunks s) (fs_frameBytes s)) = concat (fs_frameChunks s)"
  by (auto simp: stage_counts_def buf_concat_exact length_Suc_conv)

lemma subarray_split:
  "i \<le> j \<Longrightarrow> j \<le> k \<Longrightarrow> subarray b i j @ subarray b j k = subarray b i k"
proof -
  assume le: "i \<le> j" "j \<le> k"
  have "subarray b i k = take ((j - i) + (k - j)) (drop i b)"
    using le by (simp add: subarray_def)
  also have "\<dots> = subarray b i j @ subarray b j k"
    using le unfolding take_add by (simp add: subarray_def)
  finally show ?thesis by simp
qed

lemma push_frames_pushes:
  assumes "push_frames s inp start bds = (out, s', start')" "stage_counts s"
    and "cut_points start bds to" "to \<le> length inp" "K + fs_frameBytes s = D + start"
  shows "start' = last (start # bds) \<and> stage_counts s' \<and> fs_scanner s' = fs_scanner s
    \<and> concat out @ concat (fs_frameChunks s') = concat (fs_frameChunks s) @ subarray inp start start'
    \<and> frame_ends K out = map (\<lambda>b. b + D) bds"
  using assms
proof (induction bds arbitrary: s start out K)
  case Nil
  then show ?case by (simp add: subarray_def)
next
  case (Cons b bds)
  let ?part = "subarray inp start b"
  let ?s1 = "if 0 < length ?part
             then s\<lparr>fs_frameChunks := fs_frameChunks s @ [?part],
                    fs_frameBytes := fs_frameBytes s + length ?part\<rparr> else s"
  have bounds: "start \<le> b" "b \<le> length inp" "cut_points b bds to"
    using Cons.prems(3,4) cut_points_last[of b bds to] by (auto split: if_splits)
  have len: "length ?part = b - start" using bounds by (simp add: buffer_simps)
  have s1: "stage_counts ?s1" "concat (fs_frameChunks ?s1) = concat (fs_frameChunks s) @ ?part"
    "fs_scanner ?s1 = fs_scanner s"
    using Cons.prems(2) by (auto simp: stage_counts_def)
  let ?s2 = "?s1\<lparr>fs_frameChunks := [], fs_frameBytes := 0\<rparr>"
  obtain out2 where rest: "push_frames ?s2 inp b bds = (out2, s', start')"
    and out: "out = (concat (fs_frameChunks s) @ ?part) # out2"
    using Cons.prems(1) unfolding push_frames.simps Let_def pushed_concat[OF s1(1)] s1(2)
    by (auto split: prod.splits)
  have size: "length (concat (fs_frameChunks s) @ ?part) = fs_frameBytes s + (b - start)"
    using Cons.prems(2) len by (simp add: stage_counts_def)
  have next_end: "K + length (concat (fs_frameChunks s) @ ?part) = b + D"
    unfolding size using Cons.prems(5) bounds by simp
  have "stage_counts ?s2" by (simp add: stage_counts_def)
  moreover have "b + D + fs_frameBytes ?s2 = D + b" by simp
  ultimately have IH: "start' = last (b # bds)" "stage_counts s'" "fs_scanner s' = fs_scanner ?s2"
    "concat out2 @ concat (fs_frameChunks s') = concat (fs_frameChunks ?s2) @ subarray inp b start'"
    "frame_ends (b + D) out2 = map (\<lambda>b. b + D) bds"
    using Cons.IH[OF rest _ bounds(3) Cons.prems(4)] by blast+
  have "b \<le> start'" using cut_points_last[OF bounds(3)] IH(1) by simp
  then have "?part @ subarray inp b start' = subarray inp start start'"
    using bounds by (intro subarray_split)
  with IH s1 next_end show ?case unfolding out by simp
qed


text \<open>
  After the chunks with bytes \<open>p\<close> have been accepted and \<open>out\<close> has been pushed: the scanner is where
  it would be after \<open>p\<close> in one piece, its boundaries are the ends of the pushed frames, and the
  stage holds the bytes after the last of them.
\<close>

definition stage_at :: "nat \<Rightarrow> nat \<Rightarrow> buffer \<Rightarrow> buffer list \<Rightarrow> frame_stage \<Rightarrow> bool" where
  "stage_at M F p out s \<longleftrightarrow>
     scan_loop (new_scanner M F) 0 p = (frame_ends 0 out, Inr (fs_scanner s, length p))
     \<and> concat out @ concat (fs_frameChunks s) = p \<and> stage_counts s"

lemma stage_at_new: "stage_at M F [] [] (new_frame_stage M F)"
  by (simp add: stage_at_def new_frame_stage_def stage_counts_def)

lemma stage_at_inv:
  assumes "stage_at M F p out s"
  shows "scan_inv (fs_scanner s)"
    and "sc_frameBytes (fs_scanner s) \<le> sc_maxFrameBytes (fs_scanner s)"
    and "sc_maxFrameBytes (fs_scanner s) = M"
proof -
  have "sc_frameBytes (new_scanner M F) \<le> sc_maxFrameBytes (new_scanner M F)"
    by (simp add: new_scanner_def)
  moreover have "scan_loop (new_scanner M F) 0 p = (frame_ends 0 out, Inr (fs_scanner s, length p))"
    using assms by (simp add: stage_at_def)
  ultimately have "sc_frameBytes (fs_scanner s) \<le> sc_maxFrameBytes (fs_scanner s)
      \<and> sc_maxFrameBytes (fs_scanner s) = sc_maxFrameBytes (new_scanner M F)"
    using scan_loop_counted[OF scan_inv_new_scanner] by blast
  then show "sc_frameBytes (fs_scanner s) \<le> sc_maxFrameBytes (fs_scanner s)"
    "sc_maxFrameBytes (fs_scanner s) = M"
    by (simp_all add: new_scanner_def)
  show "scan_inv (fs_scanner s)"
    using assms scan_loop_inv[OF scan_inv_new_scanner] unfolding stage_at_def by blast
qed

lemma scan_iff_loop:
  assumes "stage_at M F p out s"
  shows "scan (fs_scanner s) c = Inr (sc, bds) \<longleftrightarrow>
    scan_loop (fs_scanner s) 0 c = (bds, Inr (sc, length c))"
proof -
  have "off = length c" if "scan_loop (fs_scanner s) 0 c = (bds, Inr (sc, off))" for off
    using scan_loop_counted[OF stage_at_inv(1,2)[OF assms] that] by simp
  then show ?thesis by (auto simp: scan_def split: prod.splits sum.splits)
qed

lemma scan_loop_extend:
  assumes "stage_at M F p out s" "scan_loop (fs_scanner s) 0 c = (bds, Inr (sc, length c))"
  shows "scan_loop (new_scanner M F) 0 (p @ c) =
    (frame_ends 0 out @ map (\<lambda>b. b + length p) bds, Inr (sc, length (p @ c)))"
proof -
  have "scan_loop (fs_scanner s) (length p) c =
    (map (\<lambda>b. b + length p) bds, Inr (sc, length c + length p))"
    using scan_loop_shift[OF stage_at_inv(1)[OF assms(1)], of 0 "length p" c] assms(2) by simp
  then show ?thesis
    using assms(1) by (simp add: scan_loop_append scan_inv_new_scanner stage_at_def)
qed

lemma frame_transform_at:
  assumes at: "stage_at M F p out s" and r: "frame_transform s c = (out2, Inr s')"
  shows "stage_at M F (p @ c) (out @ out2) s'"
proof -
  obtain sc bds s1 start where sc: "scan (fs_scanner s) c = Inr (sc, bds)"
    and push: "push_frames (s\<lparr>fs_scanner := sc\<rparr>) c 0 bds = (out2, s1, start)"
    and s': "s' = (if start < length c
                   then s1\<lparr>fs_frameChunks := fs_frameChunks s1 @ [drop start c],
                           fs_frameBytes := fs_frameBytes s1 + length (drop start c)\<rparr> else s1)"
    using r by (auto simp: frame_transform_def Let_def split: sum.splits prod.splits)
  have loop: "scan_loop (fs_scanner s) 0 c = (bds, Inr (sc, length c))"
    using sc scan_iff_loop[OF at] by simp
  have cuts: "cut_points 0 bds (length c)"
    using scan_loop_counted[OF stage_at_inv(1,2)[OF at] loop] by simp
  have p: "concat out @ concat (fs_frameChunks s) = p" and n: "stage_counts s"
    using at by (auto simp: stage_at_def)
  have "stage_counts (s\<lparr>fs_scanner := sc\<rparr>)" using n by (simp add: stage_counts_def)
  moreover have "length (concat out) + fs_frameBytes (s\<lparr>fs_scanner := sc\<rparr>) = length p + 0"
    using n p by (auto simp: stage_counts_def)
  ultimately have pushed: "start = last (0 # bds)" "stage_counts s1" "fs_scanner s1 = sc"
    "concat out2 @ concat (fs_frameChunks s1) = concat (fs_frameChunks s) @ subarray c 0 start"
    "frame_ends (length (concat out)) out2 = map (\<lambda>b. b + length p) bds"
    using push_frames_pushes[OF push _ cuts order.refl, of "length (concat out)" "length p"] by auto
  have "start \<le> length c" using cut_points_last[OF cuts] pushed(1) by simp
  then have rest: "concat (fs_frameChunks s') = concat (fs_frameChunks s1) @ drop start c"
    "stage_counts s'" "fs_scanner s' = sc"
    using pushed(2,3) by (auto simp: s' stage_counts_def)
  have "concat (out @ out2) @ concat (fs_frameChunks s') = p @ c"
    using pushed(4) p by (simp add: rest subarray_def) (metis append.assoc append_take_drop_id)
  then show ?thesis
    using scan_loop_extend[OF at loop] pushed(5) rest by (simp add: stage_at_def frame_ends_append)
qed

lemma frame_stream_at:
  "stage_at M F p out s \<Longrightarrow> run_chunks frame_transform s cs = (out2, Inr s') \<Longrightarrow>
     stage_at M F (p @ concat cs) (out @ out2) s'"
proof (induction cs arbitrary: p out s out2)
  case (Cons c cs)
  from Cons.prems(2) obtain s1 o1 o2 where c: "frame_transform s c = (o1, Inr s1)"
    and cs: "run_chunks frame_transform s1 cs = (o2, Inr s')" and out2: "out2 = o1 @ o2"
    by (auto simp: then_do_eq_Inr)
  from Cons.IH[OF frame_transform_at[OF Cons.prems(1) c] cs] out2 show ?case by simp
qed simp

text \<open>The stage accepts chunks whenever the scanner accepts their concatenation.\<close>

lemma frame_transform_succeeds:
  assumes "stage_at M F p out s" "scan_loop (fs_scanner s) 0 c = (bds, Inr (sc, off))"
  shows "\<exists>out2 s'. frame_transform s c = (out2, Inr s') \<and> fs_scanner s' = sc"
proof -
  have "off = length c"
    using scan_loop_counted[OF stage_at_inv(1,2)[OF assms(1)] assms(2)] by simp
  then have sc: "scan (fs_scanner s) c = Inr (sc, bds)"
    using assms(2) scan_iff_loop[OF assms(1)] by simp
  obtain out2 s' where r: "frame_transform s c = (out2, Inr s')"
    by (cases "push_frames (s\<lparr>fs_scanner := sc\<rparr>) c 0 bds") (auto simp: frame_transform_def sc Let_def)
  have loop: "scan_loop (fs_scanner s) 0 c = (bds, Inr (sc, length c))"
    using sc scan_iff_loop[OF assms(1)] by simp
  have "fs_scanner s' = sc"
    using frame_transform_at[OF assms(1) r] scan_loop_extend[OF assms(1) loop]
    by (simp add: stage_at_def)
  with r show ?thesis by blast
qed

lemma frame_run_succeeds:
  "stage_at M F p out s \<Longrightarrow> scan_loop (fs_scanner s) 0 (concat cs) = (bds, Inr (sc, off)) \<Longrightarrow>
     \<exists>out2 s'. run_chunks frame_transform s cs = (out2, Inr s') \<and> fs_scanner s' = sc"
proof (induction cs arbitrary: p out s bds off)
  case (Cons c cs)
  note inv = stage_at_inv(1)[OF Cons.prems(1)]
  from Cons.prems(2) obtain s1 off1 b1 b2
    where c: "scan_loop (fs_scanner s) 0 c = (b1, Inr (s1, off1))"
      and cs: "scan_loop s1 off1 (concat cs) = (b2, Inr (sc, off))"
    by (auto simp: scan_loop_append[OF inv] then_do_eq_Inr)
  obtain o1 s2 where r: "frame_transform s c = (o1, Inr s2)" and s2: "fs_scanner s2 = s1"
    using frame_transform_succeeds[OF Cons.prems(1) c] by blast
  note at = frame_transform_at[OF Cons.prems(1) r]
  have "\<exists>b3 off3. scan_loop s1 0 (concat cs) = (b3, Inr (sc, off3))"
    using scan_loop_shift[of s1 0 off1 "concat cs"] cs stage_at_inv(1)[OF at] s2
    by (auto split: prod.splits sum.splits)
  with Cons.IH[OF at] s2 r show ?case by fastforce
qed auto


section \<open>Correctness of the scanner and the stage\<close>

lemma frame_stream_sound:
  assumes M: "M \<le> max_safe_integer" and run: "frame_stream M F cs = (out, Inr s)"
  shows "concat out = concat cs \<and> length out \<le> F \<and> frames_within M out"
proof -
  from run have "then_do (run_chunks frame_transform (new_frame_stage M F) cs) frame_flush = (out, Inr s)"
    by (simp only: frame_stream_def run_transform_def)
  then obtain s1 o1 o2 where r: "run_chunks frame_transform (new_frame_stage M F) cs = (o1, Inr s1)"
    and flush: "frame_flush s1 = (o2, Inr s)" and out: "out = o1 @ o2"
    unfolding then_do_eq_Inr by blast
  have fin: "finish (fs_scanner s1) = Inr () \<and> o2 = []"
    using flush by (cases "finish (fs_scanner s1)") (auto simp: frame_flush_def)
  with r out have chunks: "run_chunks frame_transform (new_frame_stage M F) cs = (out, Inr s1)"
    by simp
  have at: "stage_at M F (concat cs) out s1"
    using frame_stream_at[OF stage_at_new chunks] by simp
  then have loop: "scan_loop (new_scanner M F) 0 (concat cs) =
      (frame_ends 0 out, Inr (fs_scanner s1, length (concat cs)))"
    by (simp add: stage_at_def)
  with fin have "scan_ok (scan_loop (new_scanner M F) 0 (concat cs))" by simp
  then obtain fs where fs: "concat fs = concat cs" "length fs \<le> F" "frames_within M fs"
    using scan_ok_whole[OF M] by blast
  then have "frame_ends 0 out = frame_ends 0 fs"
    using loop scan_frames[of M fs 0 F 0] M by (simp add: new_scanner_idle)
  then have "out = fs"
    using at fs(1) frame_ends_inj[of 0 out fs "concat (fs_frameChunks s1)"] by (simp add: stage_at_def)
  with fs show ?thesis by simp
qed

lemma frame_stream_complete:
  assumes M: "M \<le> max_safe_integer" and fs: "concat fs = concat cs" "length fs \<le> F" "frames_within M fs"
  shows "\<exists>s. frame_stream M F cs = (fs, Inr s)"
proof -
  have "scan_loop (fs_scanner (new_frame_stage M F)) 0 (concat cs) =
      (frame_ends 0 fs, Inr (idle M F 0 (Suc 0) (length fs), length (concat cs)))"
    using scan_frames[of M fs 0 F 0] M fs by (simp add: new_scanner_idle new_frame_stage_def)
  from frame_run_succeeds[OF stage_at_new this] obtain out s
    where run: "run_chunks frame_transform (new_frame_stage M F) cs = (out, Inr s)"
      and s: "fs_scanner s = idle M F 0 (Suc 0) (length fs)" by blast
  have "finish (idle M F 0 (Suc 0) (length fs)) = Inr ()"
    using finish_idle[of M F 0 "Suc 0" "length fs"] by (auto simp: returns_def)
  with run s have out: "frame_stream M F cs = (out, Inr s)"
    by (simp add: frame_stream_def run_transform_def frame_flush_def)
  from frame_stream_sound[OF M this] fs M have "out = fs"
    by (intro frames_unique) auto
  with out show ?thesis by simp
qed

text \<open>C6: The whole-buffer check \<open>assertMessagePackFrameLimits\<close> returns \<open>n\<close> exactly when the buffer
  is the concatenation of \<open>n\<close> complete MessagePack values, none longer than \<open>maxFrameBytes\<close> and no
  more than \<open>maxFrames\<close> of them; in particular its early rejections refuse no frame that fits.\<close>

theorem frame_limits_exact:
  assumes "maxFrameBytes \<le> max_safe_integer"
  shows "assertMessagePackFrameLimits inp maxFrameBytes maxFrames = Inr n \<longleftrightarrow>
    (\<exists>frames. concat frames = inp \<and> length frames = n \<and> n \<le> maxFrames
       \<and> (\<forall>f \<in> set frames. mp_frame f \<and> length f \<le> maxFrameBytes))"
  using assert_returns_frames[OF assms] by (simp add: frames_within_def)

theorem frame_limits_exact_witness:
  "assertMessagePackFrameLimits [0x92, 0xa1, 0x41, 0x07, 0xc0] 4 2 = Inr 2"
proof -
  have one: "mp_frame [0xa1, 0x41]" "mp_frame [0x07]" "mp_frame [0xc0]"
    by (simp_all add: mp_frame_data mp_format_def)
  then have "mp_frame [0x92, 0xa1, 0x41, 0x07]"
    using mp_frame_children[of "0x92" "[[0xa1, 0x41], [0x07]]"] by (simp add: mp_format_def)
  with one(3) have "mp_frame [0x92, 0xa1, 0x41, 0x07]" "mp_frame [0xc0]" by simp_all
  then show ?thesis
    by (subst frame_limits_exact)
      (auto simp: max_safe_integer_def intro!: exI[of _ "[[0x92, 0xa1, 0x41, 0x07], [0xc0]]"])
qed

text \<open>C7: The stream stage \<open>buildFrameLimitTransform\<close> succeeds with the outputs \<open>frames\<close> exactly when
  they are complete values within the limits whose concatenation is the concatenation of the input
  chunks.  How the input was cut therefore decides neither success nor what is pushed.\<close>

theorem frame_stream_exact:
  assumes "maxFrameBytes \<le> max_safe_integer"
  shows "(\<exists>s. frame_stream maxFrameBytes maxFrames chunks = (frames, Inr s)) \<longleftrightarrow>
    concat frames = concat chunks \<and> length frames \<le> maxFrames
      \<and> (\<forall>f \<in> set frames. mp_frame f \<and> length f \<le> maxFrameBytes)"
  unfolding frames_within_def[symmetric]
proof
  assume "\<exists>s. frame_stream maxFrameBytes maxFrames chunks = (frames, Inr s)"
  then show "concat frames = concat chunks \<and> length frames \<le> maxFrames
      \<and> frames_within maxFrameBytes frames"
    using frame_stream_sound[OF assms] by blast
next
  assume "concat frames = concat chunks \<and> length frames \<le> maxFrames
      \<and> frames_within maxFrameBytes frames"
  then show "\<exists>s. frame_stream maxFrameBytes maxFrames chunks = (frames, Inr s)"
    using frame_stream_complete[OF assms] by simp
qed

theorem frame_stream_exact_witness:
  "concat [[0xc0], [0xa1, 0x41 :: byte]] = concat [[0xc0, 0xa1], [0x41]]
    \<and> (\<exists>s. frame_stream 4 2 [[0xc0, 0xa1], [0x41]] = ([[0xc0], [0xa1, 0x41]], Inr s))"
proof -
  have "mp_frame [0xc0]" "mp_frame [0xa1, 0x41]"
    by (simp_all add: mp_frame_data mp_format_def)
  then show ?thesis
    by (subst frame_stream_exact) (auto simp: max_safe_integer_def)
qed

text \<open>Between two chunks the stage holds at most \<open>maxFrameBytes\<close> bytes, the ones of the frame that
  is not complete yet, and its byte counter is exact; nothing it accepted is lost.\<close>

theorem frame_stage_bounded:
  assumes "run_chunks frame_transform (new_frame_stage maxFrameBytes maxFrames) chunks = (out, Inr s)"
  shows "fs_frameBytes s = length (concat (fs_frameChunks s))
    \<and> fs_frameBytes s \<le> maxFrameBytes
    \<and> concat out @ concat (fs_frameChunks s) = concat chunks"
proof -
  have at: "stage_at maxFrameBytes maxFrames (concat chunks) out s"
    using frame_stream_at[OF stage_at_new assms] by simp
  let ?sc = "fs_scanner s"
  have "scan_loop (new_scanner maxFrameBytes maxFrames) 0 (concat chunks) =
      (frame_ends 0 out, Inr (?sc, length (concat chunks)))"
    using at by (simp add: stage_at_def)
  from scan_loop_counted[OF scan_inv_new_scanner _ this]
  have "sc_frameBytes ?sc + last (0 # frame_ends 0 out) = length (concat chunks)"
    by (simp add: new_scanner_def)
  moreover have "last (n # frame_ends n out) = n + length (concat out)" for n
    by (induction out arbitrary: n) (auto simp: add.assoc)
  ultimately have "sc_frameBytes ?sc + length (concat out) = length (concat chunks)"
    by (metis add_0)
  also have "length (concat chunks) = length (concat out @ concat (fs_frameChunks s))"
    using at by (simp add: stage_at_def)
  finally have "sc_frameBytes ?sc = fs_frameBytes s"
    using at by (simp add: stage_at_def stage_counts_def)
  then show ?thesis
    using stage_at_inv(2,3)[OF at] at by (simp add: stage_at_def stage_counts_def)
qed

theorem frame_stage_bounded_witness:
  "\<exists>out s. run_chunks frame_transform (new_frame_stage 4 2) [[0xc0, 0xa1]] = (out, Inr s)
     \<and> fs_frameBytes s \<le> 4 \<and> concat out @ concat (fs_frameChunks s) = [0xc0, 0xa1]"
proof -
  have "frames_within 4 [[0xc0], [0xa1, 0x41]]"
    by (simp add: frames_within_def mp_frame_data mp_format_def)
  then obtain s where "frame_stream 4 2 [[0xc0, 0xa1], [0x41]] = ([[0xc0], [0xa1, 0x41]], Inr s)"
    using frame_stream_complete[of 4 "[[0xc0], [0xa1, 0x41]]" "[[0xc0, 0xa1], [0x41]]" 2]
    by (auto simp: max_safe_integer_def)
  then obtain out s1 where
    run: "run_chunks frame_transform (new_frame_stage 4 2) [[0xc0, 0xa1]] = (out, Inr s1)"
    by (auto simp: frame_stream_def run_transform_def then_do_eq_Inr)
  from frame_stage_bounded[OF run] run show ?thesis by auto
qed

end
