(* ===== verification/Resource_Limits.thy ===== *)
theory Resource_Limits
  imports PipeX_Errors
begin

text \<open>
  \<open>src/core/resourceLimits.ts\<close>, the type \<open>EngineLimits\<close> of \<open>types.ts\<close> and the validation of limits
  in \<open>DataEngine\<close>.  A limits object that has passed \<open>#validateLimits\<close> holds non-negative safe
  integers, so the record below has fields of type \<open>nat\<close>; what a caller passes may hold
  anything, and is a function from keys to JavaScript values.
\<close>

section \<open>Validated limits\<close>

record engine_limits =
  maxInputBytes :: nat
  maxOutputBytes :: nat
  maxFrameBytes :: nat
  maxFrames :: nat
  maxConcurrentOperations :: nat
  operationTimeoutMs :: nat
  maxRetryAttempts :: nat
  maxRetryDelayMs :: nat
  maxKmsEncryptedKeyBytes :: nat
  maxKmsKeyIdBytes :: nat

definition DEFAULT_LIMITS :: engine_limits where
  "DEFAULT_LIMITS = \<lparr>
     maxInputBytes = 64 * 1024 * 1024,
     maxOutputBytes = 256 * 1024 * 1024,
     maxFrameBytes = 8 * 1024 * 1024,
     maxFrames = 100000,
     maxConcurrentOperations = 32,
     operationTimeoutMs = 5 * 60000,
     maxRetryAttempts = 5,
     maxRetryDelayMs = 30000,
     maxKmsEncryptedKeyBytes = 64 * 1024,
     maxKmsKeyIdBytes = 512\<rparr>"

text \<open>
  The \<open>limits\<close> of a plugin's context: absent when there is no context or it has none.
\<close>

definition context_limits :: "engine_limits option \<Rightarrow> engine_limits" where
  "context_limits ctx = (case ctx of None \<Rightarrow> DEFAULT_LIMITS | Some l \<Rightarrow> l)"

definition pluginInputLimit :: "engine_limits option \<Rightarrow> nat" where
  "pluginInputLimit ctx =
     (let limits = context_limits ctx in max (maxInputBytes limits) (maxOutputBytes limits))"

definition pluginOutputLimit :: "engine_limits option \<Rightarrow> nat" where
  "pluginOutputLimit ctx = maxOutputBytes (context_limits ctx)"

lemma pluginOutputLimit_le_pluginInputLimit:
  "pluginOutputLimit ctx \<le> pluginInputLimit ctx"
  by (simp add: pluginOutputLimit_def pluginInputLimit_def Let_def)

lemma maxInputBytes_le_pluginInputLimit:
  "maxInputBytes (context_limits ctx) \<le> pluginInputLimit ctx"
  by (simp add: pluginInputLimit_def Let_def)

section \<open>Validation of what a caller passes\<close>

datatype limit_key =
    KInput | KOutput | KFrameBytes | KFrames | KConcurrent
  | KTimeout | KAttempts | KDelay | KKmsKeyBytes | KKmsKeyIdBytes

text \<open>A value is an integer or something that is no integer (a fraction, \<open>NaN\<close>, another type).\<close>

datatype js_limit = LInt int | LOther

type_synonym raw_limits = "limit_key \<Rightarrow> js_limit"
type_synonym partial_limits = "limit_key \<Rightarrow> js_limit option"

fun limit_name :: "limit_key \<Rightarrow> string" where
  "limit_name KInput = ''maxInputBytes''"
| "limit_name KOutput = ''maxOutputBytes''"
| "limit_name KFrameBytes = ''maxFrameBytes''"
| "limit_name KFrames = ''maxFrames''"
| "limit_name KConcurrent = ''maxConcurrentOperations''"
| "limit_name KTimeout = ''operationTimeoutMs''"
| "limit_name KAttempts = ''maxRetryAttempts''"
| "limit_name KDelay = ''maxRetryDelayMs''"
| "limit_name KKmsKeyBytes = ''maxKmsEncryptedKeyBytes''"
| "limit_name KKmsKeyIdBytes = ''maxKmsKeyIdBytes''"

text \<open>\<open>Object.entries\<close> visits the keys in the order of \<open>DEFAULT_LIMITS\<close>, spread first.\<close>

definition limit_keys :: "limit_key list" where
  "limit_keys = [KInput, KOutput, KFrameBytes, KFrames, KConcurrent,
     KTimeout, KAttempts, KDelay, KKmsKeyBytes, KKmsKeyIdBytes]"

fun limit_value :: "engine_limits \<Rightarrow> limit_key \<Rightarrow> nat" where
  "limit_value l KInput = maxInputBytes l"
| "limit_value l KOutput = maxOutputBytes l"
| "limit_value l KFrameBytes = maxFrameBytes l"
| "limit_value l KFrames = maxFrames l"
| "limit_value l KConcurrent = maxConcurrentOperations l"
| "limit_value l KTimeout = operationTimeoutMs l"
| "limit_value l KAttempts = maxRetryAttempts l"
| "limit_value l KDelay = maxRetryDelayMs l"
| "limit_value l KKmsKeyBytes = maxKmsEncryptedKeyBytes l"
| "limit_value l KKmsKeyIdBytes = maxKmsKeyIdBytes l"

text \<open>\<open>{ ...base, ...limits }\<close>.\<close>

definition merge_limits :: "engine_limits \<Rightarrow> partial_limits \<Rightarrow> raw_limits" where
  "merge_limits base partial k =
     (case partial k of None \<Rightarrow> LInt (int (limit_value base k)) | Some v \<Rightarrow> v)"

fun valid_limit_entry :: "js_limit \<Rightarrow> bool" where
  "valid_limit_entry (LInt v) \<longleftrightarrow> is_safe_integer v \<and> \<not> v < 0"
| "valid_limit_entry LOther \<longleftrightarrow> False"

fun int_of_limit :: "js_limit \<Rightarrow> int" where
  "int_of_limit (LInt v) = v"
| "int_of_limit LOther = 0"

definition limits_of_raw :: "raw_limits \<Rightarrow> engine_limits" where
  "limits_of_raw r = (let n = (\<lambda>k. nat (int_of_limit (r k))) in \<lparr>
     maxInputBytes = n KInput,
     maxOutputBytes = n KOutput,
     maxFrameBytes = n KFrameBytes,
     maxFrames = n KFrames,
     maxConcurrentOperations = n KConcurrent,
     operationTimeoutMs = n KTimeout,
     maxRetryAttempts = n KAttempts,
     maxRetryDelayMs = n KDelay,
     maxKmsEncryptedKeyBytes = n KKmsKeyBytes,
     maxKmsKeyIdBytes = n KKmsKeyIdBytes\<rparr>)"

definition MAX_TIMER_MS :: nat where
  "MAX_TIMER_MS = 0x7fffffff"

text \<open>\<open>DataEngine.#validateLimits\<close>: the frozen limits, or the error.\<close>

definition validateLimits :: "raw_limits \<Rightarrow> px_error + engine_limits" where
  "validateLimits r =
     (case find (\<lambda>k. \<not> valid_limit_entry (r k)) limit_keys of
        Some k \<Rightarrow> Inl (JsError (''[PipeX] Invalid engine limit '' @ limit_name k))
      | None \<Rightarrow>
          let limits = limits_of_raw r in
          if maxInputBytes limits < 1 \<or> maxOutputBytes limits < 1 \<or> maxFrameBytes limits < 1
             \<or> maxFrames limits < 1 \<or> maxConcurrentOperations limits < 1
             \<or> maxRetryAttempts limits < 1
             \<or> maxKmsEncryptedKeyBytes limits < 1 \<or> maxKmsKeyIdBytes limits < 1
          then Inl (JsError ''[PipeX] Engine limits must be positive'')
          else if MAX_TIMER_MS < operationTimeoutMs limits
             \<or> 0xffffffff < maxKmsEncryptedKeyBytes limits
          then Inl (JsError ''[PipeX] Engine limit exceeds its supported protocol or timer range'')
          else Inr limits)"

text \<open>What the validation promises of every limits object an engine holds.\<close>

definition valid_limits :: "engine_limits \<Rightarrow> bool" where
  "valid_limits l \<longleftrightarrow>
     (\<forall>k \<in> set limit_keys. limit_value l k \<le> max_safe_integer)
     \<and> 0 < maxInputBytes l \<and> 0 < maxOutputBytes l \<and> 0 < maxFrameBytes l
     \<and> 0 < maxFrames l \<and> 0 < maxConcurrentOperations l \<and> 0 < maxRetryAttempts l
     \<and> 0 < maxKmsEncryptedKeyBytes l \<and> 0 < maxKmsKeyIdBytes l
     \<and> operationTimeoutMs l \<le> MAX_TIMER_MS
     \<and> maxKmsEncryptedKeyBytes l < 2 ^ 32"

lemma limit_value_limits_of_raw:
  "limit_value (limits_of_raw r) k = nat (int_of_limit (r k))"
  by (cases k) (simp_all add: limits_of_raw_def Let_def)

lemma valid_limit_entry_bound:
  "valid_limit_entry v \<Longrightarrow> nat (int_of_limit v) \<le> max_safe_integer"
  by (cases v) (auto simp: is_safe_integer_def)

lemma validateLimits_valid:
  assumes "validateLimits r = Inr l"
  shows "valid_limits l"
proof -
  have found: "find (\<lambda>k. \<not> valid_limit_entry (r k)) limit_keys = None" and l: "l = limits_of_raw r"
    using assms by (auto simp: validateLimits_def Let_def split: option.splits if_splits)
  have "limit_value l k \<le> max_safe_integer" if "k \<in> set limit_keys" for k
    using found that valid_limit_entry_bound by (auto simp: l limit_value_limits_of_raw find_None_iff)
  then show ?thesis
    using assms by (auto simp: validateLimits_def valid_limits_def Let_def
      split: option.splits if_splits)
qed

lemma valid_DEFAULT_LIMITS: "valid_limits DEFAULT_LIMITS"
  by (simp add: valid_limits_def DEFAULT_LIMITS_def limit_keys_def max_safe_integer_def
    MAX_TIMER_MS_def)

text \<open>Limits that are valid already pass unchanged, so \<open>setLimits({})\<close> keeps them.\<close>

lemma limits_of_raw_merge_empty: "limits_of_raw (merge_limits l Map.empty) = l"
  by (simp add: limits_of_raw_def merge_limits_def Let_def)

lemma limit_keys_complete: "k \<in> set limit_keys"
  by (cases k) (simp_all add: limit_keys_def)

lemma validateLimits_id:
  assumes "valid_limits l"
  shows "validateLimits (merge_limits l Map.empty) = Inr l"
proof -
  have "valid_limit_entry (merge_limits l Map.empty k)" for k
    using assms limit_keys_complete[of k]
    by (auto simp: valid_limits_def merge_limits_def is_safe_integer_def)
  then have "find (\<lambda>k. \<not> valid_limit_entry (merge_limits l Map.empty k)) limit_keys = None"
    by (simp add: find_None_iff)
  then show ?thesis
    using assms by (auto simp: validateLimits_def limits_of_raw_merge_empty valid_limits_def Let_def)
qed

end
