(* ===== verification/Encryption_Format.thy ===== *)
theory Encryption_Format
  imports Resource_Limits Node_Streams
begin

text \<open>
  The PXAE format of \<open>src/plugin/encryptionFormat.ts\<close>: constants, options and limits, the global
  header, the frame header and the encryption of one frame.  \<open>node:crypto\<close> is a parameter: the two
  AEAD operations and HKDF are the fields of the record \<open>node_crypto\<close>, and what its documentation
  promises about them are the predicates \<open>aead_lengths\<close>, \<open>aead_inverse\<close> and \<open>aead_tagged\<close>.  The
  16 random bytes of a salt are an argument as well.

  Filling a buffer with zeros is modelled where the buffer belongs to the state of a stream; the
  buffers that live only inside one call (the nonce, the derived key of the whole-buffer functions)
  are values and their wiping has no effect that the model can show.
\<close>

section \<open>The cryptographic primitives\<close>

datatype encryption_algorithm = Aes256Gcm | ChaCha20Poly1305

fun algorithm_name :: "encryption_algorithm \<Rightarrow> string" where
  "algorithm_name Aes256Gcm = ''aes-256-gcm''"
| "algorithm_name ChaCha20Poly1305 = ''chacha20-poly1305''"

text \<open>
  \<open>createCipheriv\<close>, \<open>setAAD\<close>, \<open>update\<close>, \<open>final\<close> and \<open>getAuthTag\<close> together: algorithm, key, nonce, AAD
  and plaintext to ciphertext and tag.  The decipher returns nothing when \<open>final\<close> throws.
\<close>

record node_crypto =
  aead_seal :: "encryption_algorithm \<Rightarrow> buffer \<Rightarrow> buffer \<Rightarrow> buffer \<Rightarrow> buffer \<Rightarrow> buffer \<times> buffer"
  aead_open :: "encryption_algorithm \<Rightarrow> buffer \<Rightarrow> buffer \<Rightarrow> buffer \<Rightarrow> buffer \<Rightarrow> buffer \<Rightarrow> buffer option"
  hkdf_sha256 :: "buffer \<Rightarrow> buffer \<Rightarrow> buffer \<Rightarrow> buffer"

definition TAG_LENGTH :: nat where
  "TAG_LENGTH = 16"

text \<open>Ciphertexts have the length of the plaintext, tags have \<open>authTagLength\<close> bytes.\<close>

definition aead_lengths :: "node_crypto \<Rightarrow> bool" where
  "aead_lengths c \<longleftrightarrow>
     (\<forall>alg k n a p. length (fst (aead_seal c alg k n a p)) = length p
        \<and> length (snd (aead_seal c alg k n a p)) = TAG_LENGTH)
     \<and> (\<forall>alg k n a x t p. aead_open c alg k n a x t = Some p \<longrightarrow> length p = length x)"

text \<open>Opening what was sealed with the same key, nonce and AAD gives the plaintext.\<close>

definition aead_inverse :: "node_crypto \<Rightarrow> bool" where
  "aead_inverse c \<longleftrightarrow>
     (\<forall>alg k n a p x t. aead_seal c alg k n a p = (x, t) \<longrightarrow> aead_open c alg k n a x t = Some p)"

text \<open>
  Both algorithms recompute the tag from the ciphertext and compare: what opens is what sealing
  the result gives.
\<close>

definition aead_tagged :: "node_crypto \<Rightarrow> bool" where
  "aead_tagged c \<longleftrightarrow>
     (\<forall>alg k n a x t p. aead_open c alg k n a x t = Some p \<longrightarrow> aead_seal c alg k n a p = (x, t))"

section \<open>Constants, options and limits\<close>

definition MAGIC :: buffer where
  "MAGIC = utf8 ''PXAE''"

definition VERSION :: nat where "VERSION = 1"
definition GLOBAL_HEADER_LENGTH :: nat where "GLOBAL_HEADER_LENGTH = 28"
definition FRAME_HEADER_LENGTH :: nat where "FRAME_HEADER_LENGTH = 13"
definition FRAME_OVERHEAD :: nat where "FRAME_OVERHEAD = FRAME_HEADER_LENGTH + TAG_LENGTH"
definition DEFAULT_PLAINTEXT_FRAME_BYTES :: nat where "DEFAULT_PLAINTEXT_FRAME_BYTES = 64 * 1024"
definition DATA_FRAME :: nat where "DATA_FRAME = 1"
definition FINAL_FRAME :: nat where "FINAL_FRAME = 2"
definition LEGACY_HEADER_LENGTH :: nat where "LEGACY_HEADER_LENGTH = 1 + 12 + TAG_LENGTH"

lemmas format_constants = VERSION_def GLOBAL_HEADER_LENGTH_def FRAME_HEADER_LENGTH_def
  FRAME_OVERHEAD_def TAG_LENGTH_def DATA_FRAME_def FINAL_FRAME_def LEGACY_HEADER_LENGTH_def

fun ALGORITHM_IDS :: "encryption_algorithm \<Rightarrow> nat" where
  "ALGORITHM_IDS Aes256Gcm = 1"
| "ALGORITHM_IDS ChaCha20Poly1305 = 2"

definition ID_TO_ALGORITHM :: "nat \<Rightarrow> encryption_algorithm option" where
  "ID_TO_ALGORITHM i =
     (if i = 1 then Some Aes256Gcm else if i = 2 then Some ChaCha20Poly1305 else None)"

lemma ID_TO_ALGORITHM_IDS [simp]: "ID_TO_ALGORITHM (ALGORITHM_IDS alg) = Some alg"
  by (cases alg) (simp_all add: ID_TO_ALGORITHM_def)

lemma ALGORITHM_IDS_less: "ALGORITHM_IDS alg < 256"
  by (cases alg) simp_all

text \<open>\<open>frameSizeBytes\<close> and \<open>allowLegacyDecrypt\<close> may be absent.\<close>

record encryption_options =
  opt_algorithm :: encryption_algorithm
  opt_key :: buffer
  opt_frameSizeBytes :: "js_limit option"
  opt_allowLegacyDecrypt :: "bool option"

definition assertEncryptionKey :: "buffer \<Rightarrow> px_error + unit" where
  "assertEncryptionKey key = throw_if (length key \<noteq> 32) InvalidKeyError"

record format_limits =
  fmt_maxInputBytes :: nat
  fmt_maxOutputBytes :: nat
  fmt_maxFrameBytes :: nat
  fmt_maxFrames :: nat

definition limitsFor :: "engine_limits option \<Rightarrow> format_limits" where
  "limitsFor ctx = \<lparr>
     fmt_maxInputBytes = pluginInputLimit ctx,
     fmt_maxOutputBytes = pluginOutputLimit ctx,
     fmt_maxFrameBytes = maxFrameBytes (context_limits ctx),
     fmt_maxFrames = maxFrames (context_limits ctx)\<rparr>"

text \<open>The plaintext bytes that fit into one frame; negative when the limit is below the overhead.\<close>

definition frame_capacity :: "format_limits \<Rightarrow> int" where
  "frame_capacity limits = int (fmt_maxFrameBytes limits) - int FRAME_OVERHEAD"

definition frame_size_invalid :: px_error where
  "frame_size_invalid =
     JsError ''[PipeX] Encryption frameSizeBytes must be a positive 32-bit integer''"

definition resolveFrameSize :: "encryption_options \<Rightarrow> format_limits \<Rightarrow> px_error + nat" where
  "resolveFrameSize options limits =
     (let capacity = frame_capacity limits in
      if capacity < 1 \<or> fmt_maxFrameBytes limits < GLOBAL_HEADER_LENGTH
      then Inl (JsError (''[PipeX] Encryption frame limit '' @ nat_digits (fmt_maxFrameBytes limits)
                         @ '' bytes is too small''))
      else
        case (case opt_frameSizeBytes options of
                None \<Rightarrow> LInt (min (int DEFAULT_PLAINTEXT_FRAME_BYTES) capacity)
              | Some v \<Rightarrow> v) of
          LOther \<Rightarrow> Inl frame_size_invalid
        | LInt requested \<Rightarrow>
            if \<not> is_safe_integer requested \<or> requested < 1 \<or> requested > 0xffffffff
            then Inl frame_size_invalid
            else if requested > capacity
            then Inl (JsError (''[PipeX] Encryption frameSizeBytes exceeds the ''
                               @ nat_digits (fmt_maxFrameBytes limits) @ ''-byte frame limit''))
            else Inr (nat requested))"

text \<open>
  The buffers are shorter than \<open>2\<^sup>5\<^sup>3\<close> bytes, so \<open>Math.ceil\<close> of the floating-point quotient is the
  exact ceiling.
\<close>

definition encodedLength :: "nat \<Rightarrow> nat \<Rightarrow> nat" where
  "encodedLength plaintextBytes frameSizeBytes =
     (let dataFrames = (if plaintextBytes = 0 then 0 else ceil_div plaintextBytes frameSizeBytes) in
      GLOBAL_HEADER_LENGTH + plaintextBytes + (dataFrames + 1) * FRAME_OVERHEAD)"

definition dataFrameCount :: "nat \<Rightarrow> nat \<Rightarrow> nat" where
  "dataFrameCount plaintextBytes frameSizeBytes =
     (if plaintextBytes = 0 then 0 else ceil_div plaintextBytes frameSizeBytes)"

lemma dataFrameCount_pieces:
  "0 < fs \<Longrightarrow> dataFrameCount (length xs) fs = length (pieces fs xs)"
  by (simp add: dataFrameCount_def length_pieces)

lemma encodedLength_dataFrameCount:
  "encodedLength n fs = GLOBAL_HEADER_LENGTH + n + (dataFrameCount n fs + 1) * FRAME_OVERHEAD"
  by (simp add: encodedLength_def dataFrameCount_def Let_def)

lemma resolveFrameSize_bounds:
  assumes "resolveFrameSize options limits = Inr fs"
  shows "0 < fs" "fs < 2 ^ 32" "int fs \<le> frame_capacity limits"
    "GLOBAL_HEADER_LENGTH \<le> fmt_maxFrameBytes limits"
  using assms unfolding resolveFrameSize_def Let_def
  by (auto split: if_splits js_limit.splits option.splits)

section \<open>The global header\<close>

definition buildHeader :: "encryption_algorithm \<Rightarrow> nat \<Rightarrow> buffer \<Rightarrow> buffer" where
  "buildHeader alg frameSizeBytes salt =
     (let header = replicate GLOBAL_HEADER_LENGTH 0;
          header = buf_copy header 0 MAGIC;
          header = buf_copy header 4 (be_bytes 1 VERSION);
          header = buf_copy header 5 (be_bytes 1 (ALGORITHM_IDS alg));
          header = buf_copy header 6 (be_bytes 2 0);
          header = buf_copy header 8 (be_bytes 4 frameSizeBytes)
      in buf_copy header 12 salt)"

record parsed_header =
  hd_bytes :: buffer
  hd_algorithm :: encryption_algorithm
  hd_frameSizeBytes :: nat
  hd_salt :: buffer

definition parseHeader :: "buffer \<Rightarrow> format_limits \<Rightarrow> px_error + parsed_header" where
  "parseHeader header limits =
     (if length header \<noteq> GLOBAL_HEADER_LENGTH \<or> subarray header 0 4 \<noteq> MAGIC
      then Inl (JsError ''[PipeX] Decryption failed: invalid framed header'')
      else if read_be 1 header 4 \<noteq> VERSION
      then Inl (JsError ''[PipeX] Decryption failed: unsupported format version'')
      else
        case ID_TO_ALGORITHM (read_be 1 header 5) of
          None \<Rightarrow> Inl (JsError ''[PipeX] Decryption failed: invalid framed header'')
        | Some alg \<Rightarrow>
            if read_be 2 header 6 \<noteq> 0
            then Inl (JsError ''[PipeX] Decryption failed: invalid framed header'')
            else
              let frameSizeBytes = read_be 4 header 8 in
              if frameSizeBytes < 1 \<or> int frameSizeBytes > frame_capacity limits
              then Inl (JsError ''[PipeX] Decryption failed: invalid frame size'')
              else Inr \<lparr>hd_bytes = header, hd_algorithm = alg, hd_frameSizeBytes = frameSizeBytes,
                        hd_salt = subarray header 12 28\<rparr>)"

definition deriveKey :: "node_crypto \<Rightarrow> buffer \<Rightarrow> parsed_header \<Rightarrow> buffer" where
  "deriveKey c key header =
     hkdf_sha256 c key (hd_salt header)
       (utf8 (''PipeX AEAD framed v'' @ nat_digits VERSION @ '':''
              @ algorithm_name (hd_algorithm header)))"

lemma buildHeader_layout:
  assumes "length salt = 16"
  shows "buildHeader alg fs salt =
    MAGIC @ [1] @ [of_nat (ALGORITHM_IDS alg)] @ [0, 0] @ be_bytes 4 fs @ salt"
proof -
  have magic: "length MAGIC = 4" by (simp add: MAGIC_def)
  have "buf_copy ([] @ replicate 28 0) 0 MAGIC = ([] @ MAGIC) @ replicate 24 0"
    by (rule buf_copy_field) (simp_all add: magic)
  moreover have "buf_copy (MAGIC @ replicate 24 0) 4 [1] = (MAGIC @ [1]) @ replicate 23 0"
    by (rule buf_copy_field) (simp_all add: magic)
  moreover have "buf_copy ((MAGIC @ [1]) @ replicate 23 0) 5 [a] = ((MAGIC @ [1]) @ [a]) @ replicate 22 0" for a
    by (rule buf_copy_field) (simp_all add: magic)
  moreover have "buf_copy (((MAGIC @ [1]) @ [a]) @ replicate 22 0) 6 [0, 0] =
      (((MAGIC @ [1]) @ [a]) @ [0, 0]) @ replicate 20 0" for a
    by (rule buf_copy_field) (simp_all add: magic)
  moreover have "buf_copy ((((MAGIC @ [1]) @ [a]) @ [0, 0]) @ replicate 20 0) 8 (be_bytes 4 fs) =
      ((((MAGIC @ [1]) @ [a]) @ [0, 0]) @ be_bytes 4 fs) @ replicate 16 0" for a
    by (rule buf_copy_field) (simp_all add: magic)
  moreover have "buf_copy (((((MAGIC @ [1]) @ [a]) @ [0, 0]) @ be_bytes 4 fs) @ replicate 16 0) 12 salt =
      (((((MAGIC @ [1]) @ [a]) @ [0, 0]) @ be_bytes 4 fs) @ salt) @ replicate 0 0" for a
    by (rule buf_copy_field) (simp_all add: magic assms)
  moreover have "be_bytes 1 VERSION = [1]" "be_bytes 2 0 = [0, 0]"
    "be_bytes 1 (ALGORITHM_IDS alg) = [of_nat (ALGORITHM_IDS alg)]"
    using ALGORITHM_IDS_less[of alg] by (simp_all add: VERSION_def numeral_2_eq_2)
  ultimately show ?thesis
    by (simp add: buildHeader_def Let_def GLOBAL_HEADER_LENGTH_def)
qed

lemma length_buildHeader [simp]:
  "length salt = 16 \<Longrightarrow> length (buildHeader alg fs salt) = GLOBAL_HEADER_LENGTH"
  by (simp add: buildHeader_layout MAGIC_def format_constants)

definition built_header :: "encryption_algorithm \<Rightarrow> nat \<Rightarrow> buffer \<Rightarrow> parsed_header" where
  "built_header alg fs salt = \<lparr>hd_bytes = buildHeader alg fs salt, hd_algorithm = alg,
     hd_frameSizeBytes = fs, hd_salt = salt\<rparr>"

lemma parse_buildHeader:
  assumes "length salt = 16" "0 < fs" "fs < 2 ^ 32" "int fs \<le> frame_capacity limits"
  shows "parseHeader (buildHeader alg fs salt) limits = Inr (built_header alg fs salt)"
proof -
  let ?h = "buildHeader alg fs salt"
  note lay = buildHeader_layout[OF assms(1), of alg fs]
  have magic: "length MAGIC = 4" by (simp add: MAGIC_def)
  have "subarray ?h 0 4 = MAGIC" by (simp add: lay subarray_def magic)
  moreover have "read_be 1 ?h 4 = VERSION"
    unfolding lay by (subst read_be_slice) (simp_all add: magic VERSION_def)
  moreover have "read_be 1 ?h 5 = ALGORITHM_IDS alg"
    unfolding lay using read_be_slice[of "MAGIC @ [1]" 5 "[of_nat (ALGORITHM_IDS alg)]" 1]
      ALGORITHM_IDS_less[of alg] by (simp add: magic)
  moreover have "read_be 2 ?h 6 = 0"
    unfolding lay using read_be_slice[of "MAGIC @ [1] @ [of_nat (ALGORITHM_IDS alg)]" 6 "[0, 0]" 2]
    by (simp add: magic be_val_def)
  moreover have "read_be 4 ?h 8 = fs"
    unfolding lay
    using read_be_slice[of "MAGIC @ [1] @ [of_nat (ALGORITHM_IDS alg)] @ [0, 0]" 8 "be_bytes 4 fs" 4]
      assms(3) by (simp add: magic)
  moreover have "subarray ?h 12 28 = salt"
    unfolding lay by (simp add: subarray_def magic assms(1))
  ultimately show ?thesis
    using assms unfolding parseHeader_def built_header_def by simp
qed

section \<open>Frames\<close>

text \<open>What the big-endian writers of \<open>node:buffer\<close> throw.\<close>

definition out_of_range :: px_error where
  "out_of_range = JsRangeError ''The value of \"value\" is out of range.''"

definition nonceFor :: "nat \<Rightarrow> px_error + buffer" where
  "nonceFor sequence =
     (if sequence > 0xffffffffffffffff
      then Inl (JsError ''[PipeX] Encryption frame sequence exhausted'')
      else Inr (buf_copy (replicate 12 0) 4 (be_bytes 8 sequence)))"

definition buildFrameHeader :: "nat \<Rightarrow> nat \<Rightarrow> nat \<Rightarrow> px_error + buffer" where
  "buildFrameHeader ty sequence ciphertextBytes =
     (if sequence > 0xffffffffffffffff \<or> ciphertextBytes > 0xffffffff then Inl out_of_range
      else Inr (buf_copy (buf_copy (buf_copy (replicate FRAME_HEADER_LENGTH 0)
                  0 (be_bytes 1 ty)) 1 (be_bytes 8 sequence)) 9 (be_bytes 4 ciphertextBytes)))"

definition encryptFrame ::
  "node_crypto \<Rightarrow> buffer \<Rightarrow> nat \<Rightarrow> nat \<Rightarrow> encryption_algorithm \<Rightarrow> buffer \<Rightarrow> buffer \<Rightarrow> px_error + buffer" where
  "encryptFrame c plaintext ty sequence alg key globalHeader =
     rbind (buildFrameHeader ty sequence (length plaintext)) (\<lambda>frameHeader.
       rbind (nonceFor sequence) (\<lambda>nonce.
         let (ciphertext, tag) = aead_seal c alg key nonce (globalHeader @ frameHeader) plaintext in
         Inr (buf_concat [frameHeader, ciphertext, tag] (FRAME_OVERHEAD + length ciphertext))))"

definition decryptFrame ::
  "node_crypto \<Rightarrow> buffer \<Rightarrow> buffer \<Rightarrow> buffer \<Rightarrow> nat \<Rightarrow> encryption_algorithm \<Rightarrow> buffer \<Rightarrow> buffer
     \<Rightarrow> px_error + buffer" where
  "decryptFrame c ciphertext tag frameHeader sequence alg key globalHeader =
     rbind (nonceFor sequence) (\<lambda>nonce.
       if length tag \<noteq> TAG_LENGTH then Inl AuthenticationError
       else
         case aead_open c alg key nonce (globalHeader @ frameHeader) ciphertext tag of
           Some plaintext \<Rightarrow> Inr plaintext
         | None \<Rightarrow> Inl AuthenticationError)"

definition decryptLegacy :: "node_crypto \<Rightarrow> buffer \<Rightarrow> buffer \<Rightarrow> format_limits \<Rightarrow> px_error + buffer" where
  "decryptLegacy c data key limits =
     (if length data < LEGACY_HEADER_LENGTH
      then Inl (JsError ''[PipeX] Decryption failed: packet too short'')
      else if length data - LEGACY_HEADER_LENGTH > fmt_maxOutputBytes limits
      then Inl (JsError (''[PipeX] Decryption output exceeds ''
                         @ nat_digits (fmt_maxOutputBytes limits) @ '' bytes''))
      else
        case ID_TO_ALGORITHM (read_be 1 data 0) of
          None \<Rightarrow> Inl (JsError ''[PipeX] Decryption failed: unknown legacy algorithm'')
        | Some alg \<Rightarrow>
            case aead_open c alg key (subarray data 1 13) []
                   (drop LEGACY_HEADER_LENGTH data) (subarray data 13 LEGACY_HEADER_LENGTH) of
              Some plaintext \<Rightarrow> Inr plaintext
            | None \<Rightarrow> Inl (JsError ''[PipeX] Decryption failed: authentication failed''))"

definition isFramedEncryption :: "buffer \<Rightarrow> bool" where
  "isFramedEncryption data \<longleftrightarrow> length MAGIC \<le> length data \<and> subarray data 0 (length MAGIC) = MAGIC"

section \<open>Sealed frames and messages\<close>

text \<open>
  The format as a specification: the bytes of a frame header, a sealed frame, and the message that
  carries the plaintext pieces \<open>ps\<close>, numbered from 0 and closed by an empty final frame.
\<close>

definition frame_header :: "nat \<Rightarrow> nat \<Rightarrow> nat \<Rightarrow> buffer" where
  "frame_header ty sequence n = be_bytes 1 ty @ be_bytes 8 sequence @ be_bytes 4 n"

definition frame_nonce :: "nat \<Rightarrow> buffer" where
  "frame_nonce sequence = replicate 4 0 @ be_bytes 8 sequence"

definition sealed_frame ::
  "node_crypto \<Rightarrow> encryption_algorithm \<Rightarrow> buffer \<Rightarrow> buffer \<Rightarrow> nat \<Rightarrow> nat \<Rightarrow> buffer \<Rightarrow> buffer" where
  "sealed_frame c alg dk gh ty sequence p =
     (let fh = frame_header ty sequence (length p);
          (x, t) = aead_seal c alg dk (frame_nonce sequence) (gh @ fh) p
      in fh @ x @ t)"

fun sealed_tail ::
  "node_crypto \<Rightarrow> encryption_algorithm \<Rightarrow> buffer \<Rightarrow> buffer \<Rightarrow> nat \<Rightarrow> buffer list \<Rightarrow> buffer" where
  "sealed_tail c alg dk gh sequence [] = sealed_frame c alg dk gh FINAL_FRAME sequence []"
| "sealed_tail c alg dk gh sequence (p # ps) =
     sealed_frame c alg dk gh DATA_FRAME sequence p @ sealed_tail c alg dk gh (Suc sequence) ps"

definition sealed_message ::
  "node_crypto \<Rightarrow> buffer \<Rightarrow> encryption_algorithm \<Rightarrow> nat \<Rightarrow> buffer \<Rightarrow> buffer list \<Rightarrow> buffer" where
  "sealed_message c key alg fs salt ps =
     (let header = built_header alg fs salt in
      hd_bytes header @ sealed_tail c alg (deriveKey c key header) (hd_bytes header) 0 ps)"

lemma length_frame_header [simp]: "length (frame_header ty q n) = FRAME_HEADER_LENGTH"
  by (simp add: frame_header_def format_constants)

lemma buildFrameHeader_range:
  assumes "q < 2 ^ 64" "n < 2 ^ 32"
  shows "buildFrameHeader ty q n = Inr (frame_header ty q n)"
proof -
  have "buf_copy ([] @ replicate 13 0) 0 (be_bytes 1 ty) = ([] @ be_bytes 1 ty) @ replicate 12 0"
    by (rule buf_copy_field) simp_all
  moreover have "buf_copy (be_bytes 1 ty @ replicate 12 0) 1 (be_bytes 8 q) =
      (be_bytes 1 ty @ be_bytes 8 q) @ replicate 4 0"
    by (rule buf_copy_field) simp_all
  moreover have "buf_copy ((be_bytes 1 ty @ be_bytes 8 q) @ replicate 4 0) 9 (be_bytes 4 n) =
      ((be_bytes 1 ty @ be_bytes 8 q) @ be_bytes 4 n) @ replicate 0 0"
    by (rule buf_copy_field) simp_all
  ultimately show ?thesis
    using assms by (simp del: be_bytes.simps add: buildFrameHeader_def frame_header_def FRAME_HEADER_LENGTH_def)
qed

lemma nonceFor_range:
  assumes "q < 2 ^ 64"
  shows "nonceFor q = Inr (frame_nonce q)"
proof -
  have "buf_copy (replicate 4 0 @ replicate 8 0) 4 (be_bytes 8 q) =
      (replicate 4 0 @ be_bytes 8 q) @ replicate 0 0"
    by (rule buf_copy_field) simp_all
  moreover have "replicate 12 0 = replicate 4 (0 :: byte) @ replicate 8 0"
    by (simp flip: replicate_add)
  ultimately show ?thesis using assms by (simp add: nonceFor_def frame_nonce_def)
qed

lemma encryptFrame_sealed:
  assumes "aead_lengths c" "q < 2 ^ 64" "length p < 2 ^ 32"
  shows "encryptFrame c p ty q alg dk gh = Inr (sealed_frame c alg dk gh ty q p)"
proof -
  obtain x t where xt: "aead_seal c alg dk (frame_nonce q) (gh @ frame_header ty q (length p)) p = (x, t)"
    by fastforce
  then have "length t = TAG_LENGTH"
    using assms(1) unfolding aead_lengths_def by (metis snd_conv)
  then have "buf_concat [frame_header ty q (length p), x, t] (FRAME_OVERHEAD + length x) =
      concat [frame_header ty q (length p), x, t]"
    by (intro buf_concat_exact) (simp add: FRAME_OVERHEAD_def)
  then show ?thesis
    using assms(2,3) xt
    by (simp add: encryptFrame_def sealed_frame_def buildFrameHeader_range nonceFor_range)
qed

lemma length_sealed_frame:
  "aead_lengths c \<Longrightarrow> length (sealed_frame c alg dk gh ty q p) = length p + FRAME_OVERHEAD"
  by (simp add: sealed_frame_def aead_lengths_def FRAME_OVERHEAD_def Let_def split: prod.splits)
     (metis fst_conv snd_conv)

lemma length_sealed_tail:
  "aead_lengths c \<Longrightarrow>
     length (sealed_tail c alg dk gh q ps) = length (concat ps) + (length ps + 1) * FRAME_OVERHEAD"
  by (induction ps arbitrary: q) (auto simp: length_sealed_frame)

lemma length_sealed_message:
  "aead_lengths c \<Longrightarrow> length salt = 16 \<Longrightarrow> length (sealed_message c key alg fs salt ps) =
     GLOBAL_HEADER_LENGTH + length (concat ps) + (length ps + 1) * FRAME_OVERHEAD"
  by (simp add: sealed_message_def Let_def built_header_def length_sealed_tail)

text \<open>A buffer that parses as a header is the header that \<open>buildHeader\<close> writes.\<close>

lemma subarray_split_at:
  "i \<le> j \<Longrightarrow> subarray b i j @ drop j b = drop i b"
  unfolding subarray_def
  by (metis append_take_drop_id drop_drop le_add_diff_inverse2)

lemma parseHeader_built:
  assumes "parseHeader h limits = Inr ph"
  obtains alg fs salt where "length salt = 16" "0 < fs" "fs < 2 ^ 32" "int fs \<le> frame_capacity limits"
    "h = buildHeader alg fs salt" "ph = built_header alg fs salt"
proof -
  from assms obtain alg where len: "length h = 28" and magic: "subarray h 0 4 = MAGIC"
    and version: "read_be 1 h 4 = 1" and alg: "ID_TO_ALGORITHM (read_be 1 h 5) = Some alg"
    and zero: "read_be 2 h 6 = 0"
    and fs: "\<not> read_be 4 h 8 < 1" "\<not> int (read_be 4 h 8) > frame_capacity limits"
    and ph: "ph = \<lparr>hd_bytes = h, hd_algorithm = alg, hd_frameSizeBytes = read_be 4 h 8,
      hd_salt = subarray h 12 28\<rparr>"
    unfolding parseHeader_def Let_def
    by (auto simp: format_constants split: if_splits option.splits)
  let ?fs = "read_be 4 h 8" and ?salt = "subarray h 12 28"
  have slice: "be_bytes n (read_be n h i) = subarray h i (i + n)" if "i + n \<le> 28" for i n
    unfolding read_be_def using that len by (intro be_bytes_be_val) (simp add: buffer_simps)
  have "read_be 1 h 5 = ALGORITHM_IDS alg"
    using alg by (auto simp: ID_TO_ALGORITHM_def split: if_splits)
  then have parts: "subarray h 4 5 = [1]" "subarray h 5 6 = [of_nat (ALGORITHM_IDS alg)]"
    "subarray h 6 8 = [0, 0]" "subarray h 8 12 = be_bytes 4 ?fs"
    using slice[of 4 1] slice[of 5 1] slice[of 6 2] slice[of 8 4] version zero ALGORITHM_IDS_less[of alg]
    by (simp_all add: numeral_2_eq_2)
  have salt: "length ?salt = 16" using len by (simp add: buffer_simps)
  have "h = subarray h 0 4 @ subarray h 4 5 @ subarray h 5 6 @ subarray h 6 8 @ subarray h 8 12
      @ subarray h 12 28 @ drop 28 h"
    by (simp add: subarray_split_at)
  then have h: "h = buildHeader alg ?fs ?salt"
    unfolding buildHeader_layout[OF salt] using magic parts len by simp
  have "ph = built_header alg ?fs ?salt"
    unfolding ph built_header_def using h by simp
  then show thesis
    using that[OF salt _ _ _ h] fs read_be_less[of 4 h 8] by simp
qed

section \<open>An instance of the assumptions\<close>

text \<open>
  A toy cipher that satisfies every assumption: it inverts the bits of the plaintext, and its tag is
  a checksum of key, nonce, AAD and plaintext.  It serves only to show that the assumptions can
  hold together.
\<close>

definition toy_tag :: "buffer \<Rightarrow> buffer \<Rightarrow> buffer \<Rightarrow> buffer \<Rightarrow> buffer" where
  "toy_tag k n a p = be_bytes 16 (be_val (k @ n @ a @ p))"

definition toy_crypto :: node_crypto where
  "toy_crypto = \<lparr>
     aead_seal = (\<lambda>alg k n a p. (map not p, toy_tag k n a p)),
     aead_open = (\<lambda>alg k n a x t. if toy_tag k n a (map not x) = t then Some (map not x) else None),
     hkdf_sha256 = (\<lambda>k s i. be_bytes 32 (be_val (k @ s @ i)))\<rparr>"

lemma toy_crypto_ok: "aead_lengths toy_crypto" "aead_inverse toy_crypto" "aead_tagged toy_crypto"
  by (auto simp: aead_lengths_def aead_inverse_def aead_tagged_def toy_crypto_def toy_tag_def
      TAG_LENGTH_def comp_def split: if_splits)

definition example_options :: encryption_options where
  "example_options = \<lparr>opt_algorithm = Aes256Gcm, opt_key = replicate 32 7,
     opt_frameSizeBytes = Some (LInt 4), opt_allowLegacyDecrypt = None\<rparr>"

end
