(* ===== verification/Encryption_Buffer.thy ===== *)
theory Encryption_Buffer
  imports Encryption_Format
begin

text \<open>
  \<open>encryptBuffer\<close> and \<open>decryptBuffer\<close> of \<open>src/plugin/encryptionFormat.ts\<close>.  The main result,
  \<open>decryptBuffer_exact\<close>, is that the decryptor accepts a framed buffer exactly when it is a sealed
  message within the limits; round trip, rejection of truncated and extended messages, and the
  bounds on the output follow from it.
\<close>

section \<open>Encryption\<close>

definition encryption_input_exceeds :: "nat \<Rightarrow> px_error" where
  "encryption_input_exceeds n =
     JsError (''[PipeX] Encryption input exceeds '' @ nat_digits n @ '' bytes'')"

definition encryption_output_exceeds :: "nat \<Rightarrow> px_error" where
  "encryption_output_exceeds n =
     JsError (''[PipeX] Encryption output exceeds '' @ nat_digits n @ '' bytes'')"

definition frame_count_exceeds :: "nat \<Rightarrow> px_error" where
  "frame_count_exceeds n = JsError (''[PipeX] Encryption frame count exceeds '' @ nat_digits n)"

text \<open>The loop over the pieces of \<open>frameSizeBytes\<close>: the frames pushed and the next sequence.\<close>

fun encrypt_pieces ::
  "node_crypto \<Rightarrow> encryption_algorithm \<Rightarrow> buffer \<Rightarrow> buffer \<Rightarrow> nat \<Rightarrow> buffer list
     \<Rightarrow> px_error + (buffer list \<times> nat)" where
  "encrypt_pieces c alg dk header sequence [] = Inr ([], sequence)"
| "encrypt_pieces c alg dk header sequence (p # ps) =
     rbind (encryptFrame c p DATA_FRAME sequence alg dk header) (\<lambda>frame.
       rbind (encrypt_pieces c alg dk header (sequence + 1) ps) (\<lambda>(frames, sequence').
         Inr (frame # frames, sequence')))"

definition encryptBuffer ::
  "node_crypto \<Rightarrow> buffer \<Rightarrow> buffer \<Rightarrow> encryption_options \<Rightarrow> engine_limits option \<Rightarrow> px_error + buffer" where
  "encryptBuffer c salt data options ctx =
     rbind (assertEncryptionKey (opt_key options)) (\<lambda>_.
       let limits = limitsFor ctx in
       if length data > fmt_maxInputBytes limits
       then Inl (encryption_input_exceeds (fmt_maxInputBytes limits))
       else rbind (resolveFrameSize options limits) (\<lambda>frameSizeBytes.
         if dataFrameCount (length data) frameSizeBytes > fmt_maxFrames limits
         then Inl (frame_count_exceeds (fmt_maxFrames limits))
         else
           let outputLength = encodedLength (length data) frameSizeBytes in
           if outputLength > fmt_maxOutputBytes limits
           then Inl (encryption_output_exceeds (fmt_maxOutputBytes limits))
           else
             let header = buildHeader (opt_algorithm options) frameSizeBytes salt in
             rbind (parseHeader header limits) (\<lambda>parsed.
               let derivedKey = deriveKey c (opt_key options) parsed in
               rbind (encrypt_pieces c (opt_algorithm options) derivedKey header 0
                        (pieces frameSizeBytes data)) (\<lambda>(frames, sequence).
                 rbind (encryptFrame c [] FINAL_FRAME sequence (opt_algorithm options) derivedKey header)
                   (\<lambda>final. Inr (buf_concat (header # frames @ [final]) outputLength))))))"

section \<open>Decryption\<close>

definition decryption_input_exceeds :: "nat \<Rightarrow> px_error" where
  "decryption_input_exceeds n =
     JsError (''[PipeX] Decryption input exceeds '' @ nat_digits n @ '' bytes'')"

definition decryption_output_exceeds :: "nat \<Rightarrow> px_error" where
  "decryption_output_exceeds n =
     JsError (''[PipeX] Decryption output exceeds '' @ nat_digits n @ '' bytes'')"

definition decryption_failed :: "string \<Rightarrow> px_error" where
  "decryption_failed reason = JsError (''[PipeX] Decryption failed: '' @ reason)"

text \<open>
  The checks on a complete frame header, which the whole-buffer and the stream decryptor make in the
  same order: sequence, type, final frame, frame length, frame count, output bytes.
\<close>

definition check_frame_header ::
  "format_limits \<Rightarrow> nat \<Rightarrow> nat \<Rightarrow> nat \<Rightarrow> nat \<Rightarrow> buffer \<Rightarrow> px_error + unit" where
  "check_frame_header limits frameSizeBytes expectedSequence dataFrames outputBytes frameHeader =
     (let ty = read_be 1 frameHeader 0;
          sequence = read_be 8 frameHeader 1;
          ciphertextBytes = read_be 4 frameHeader 9 in
      if sequence \<noteq> expectedSequence then Inl (decryption_failed ''invalid frame sequence'')
      else if ty \<noteq> DATA_FRAME \<and> ty \<noteq> FINAL_FRAME then Inl (decryption_failed ''invalid frame type'')
      else if ty = FINAL_FRAME \<and> ciphertextBytes \<noteq> 0
      then Inl (decryption_failed ''invalid final frame'')
      else if ciphertextBytes > frameSizeBytes \<or> int ciphertextBytes > frame_capacity limits
      then Inl (decryption_failed ''frame length exceeds configured limit'')
      else if ty = DATA_FRAME \<and> dataFrames \<ge> fmt_maxFrames limits
      then Inl (frame_count_exceeds (fmt_maxFrames limits))
      else if ty = DATA_FRAME
        \<and> int ciphertextBytes > int (fmt_maxOutputBytes limits) - int outputBytes
      then Inl (decryption_output_exceeds (fmt_maxOutputBytes limits))
      else Inr ())"

text \<open>
  The variables of the loop; \<open>rest\<close> below is \<open>data\<close> from \<open>position\<close> on, so that
  \<open>data.length - position\<close> is its length.
\<close>

record decrypt_vars =
  dv_plaintext :: "buffer list"
  dv_plaintextBytes :: nat
  dv_expectedSequence :: nat
  dv_dataFrames :: nat
  dv_finalSeen :: bool

definition decrypt_vars_init :: decrypt_vars where
  "decrypt_vars_init = \<lparr>dv_plaintext = [], dv_plaintextBytes = 0, dv_expectedSequence = 0,
     dv_dataFrames = 0, dv_finalSeen = False\<rparr>"

text \<open>One iteration: the new variables and what is left of the buffer.\<close>

definition decrypt_step ::
  "node_crypto \<Rightarrow> format_limits \<Rightarrow> parsed_header \<Rightarrow> buffer \<Rightarrow> decrypt_vars \<Rightarrow> buffer
     \<Rightarrow> px_error + (decrypt_vars \<times> buffer)" where
  "decrypt_step c limits header dk v rest =
     (if dv_finalSeen v \<or> length rest < FRAME_HEADER_LENGTH
      then Inl (decryption_failed ''incomplete or trailing frame'')
      else
        let frameHeader = take FRAME_HEADER_LENGTH rest;
            rest = drop FRAME_HEADER_LENGTH rest;
            ty = read_be 1 frameHeader 0;
            sequence = read_be 8 frameHeader 1;
            ciphertextBytes = read_be 4 frameHeader 9 in
        rbind (check_frame_header limits (hd_frameSizeBytes header) (dv_expectedSequence v)
                 (dv_dataFrames v) (dv_plaintextBytes v) frameHeader) (\<lambda>_.
          if length rest < ciphertextBytes + TAG_LENGTH
          then Inl (decryption_failed ''incomplete frame'')
          else
            let ciphertext = take ciphertextBytes rest;
                rest = drop ciphertextBytes rest;
                tag = take TAG_LENGTH rest;
                rest = drop TAG_LENGTH rest in
            rbind (decryptFrame c ciphertext tag frameHeader sequence (hd_algorithm header) dk
                     (hd_bytes header)) (\<lambda>restored.
              let v = (if ty = FINAL_FRAME then v\<lparr>dv_finalSeen := True\<rparr>
                       else v\<lparr>dv_dataFrames := dv_dataFrames v + 1,
                              dv_plaintextBytes := dv_plaintextBytes v + length restored,
                              dv_plaintext := dv_plaintext v @ [restored]\<rparr>)
              in Inr (v\<lparr>dv_expectedSequence := dv_expectedSequence v + 1\<rparr>, rest))))"

lemma decrypt_step_progress:
  "decrypt_step c limits header dk v rest = Inr (v', rest') \<Longrightarrow> length rest' < length rest"
  by (auto simp: decrypt_step_def Let_def result_simps format_constants split: if_splits)

function decrypt_loop ::
  "node_crypto \<Rightarrow> format_limits \<Rightarrow> parsed_header \<Rightarrow> buffer \<Rightarrow> decrypt_vars \<Rightarrow> buffer
     \<Rightarrow> px_error + decrypt_vars" where
  "decrypt_loop c limits header dk v rest =
     (if rest = [] then Inr v
      else case decrypt_step c limits header dk v rest of
             Inl e \<Rightarrow> Inl e
           | Inr (v', rest') \<Rightarrow> decrypt_loop c limits header dk v' rest')"
  by pat_completeness auto
termination
  by (relation "measure (\<lambda>(c, limits, header, dk, v, rest). length rest)")
    (auto dest: decrypt_step_progress)

declare decrypt_loop.simps [simp del]

definition decrypt_framed ::
  "node_crypto \<Rightarrow> buffer \<Rightarrow> encryption_options \<Rightarrow> format_limits \<Rightarrow> px_error + buffer" where
  "decrypt_framed c data options limits =
     (if length data < GLOBAL_HEADER_LENGTH
      then Inl (decryption_failed ''incomplete framed header'')
      else
        rbind (parseHeader (take GLOBAL_HEADER_LENGTH data) limits) (\<lambda>header.
          let derivedKey = deriveKey c (opt_key options) header in
          rbind (decrypt_loop c limits header derivedKey decrypt_vars_init
                   (drop GLOBAL_HEADER_LENGTH data)) (\<lambda>v.
            if \<not> dv_finalSeen v
            then Inl (decryption_failed ''missing authenticated final frame'')
            else Inr (buf_concat (dv_plaintext v) (dv_plaintextBytes v)))))"

definition decryptBuffer ::
  "node_crypto \<Rightarrow> buffer \<Rightarrow> encryption_options \<Rightarrow> engine_limits option \<Rightarrow> px_error + buffer" where
  "decryptBuffer c data options ctx =
     rbind (assertEncryptionKey (opt_key options)) (\<lambda>_.
       let limits = limitsFor ctx in
       if length data > fmt_maxInputBytes limits
       then Inl (decryption_input_exceeds (fmt_maxInputBytes limits))
       else if length data = 0
         \<or> (\<not> isFramedEncryption data \<and> read_be 1 data 0 \<noteq> read_be 1 MAGIC 0)
       then (if opt_allowLegacyDecrypt options \<noteq> Some True
             then Inl (decryption_failed ''legacy format disabled'')
             else decryptLegacy c data (opt_key options) limits)
       else decrypt_framed c data options limits)"

section \<open>What encryption writes\<close>

lemma encrypt_pieces_sealed:
  assumes "aead_lengths c" "\<forall>p \<in> set ps. length p < 2 ^ 32" "q + length ps < 2 ^ 64"
  shows "\<exists>frames. encrypt_pieces c alg dk gh q ps = Inr (frames, q + length ps)
    \<and> concat frames @ sealed_frame c alg dk gh FINAL_FRAME (q + length ps) [] = sealed_tail c alg dk gh q ps"
  using assms(2,3)
proof (induction ps arbitrary: q)
  case (Cons p ps)
  then obtain frames where "encrypt_pieces c alg dk gh (q + 1) ps = Inr (frames, q + 1 + length ps)"
    and "concat frames @ sealed_frame c alg dk gh FINAL_FRAME (q + 1 + length ps) [] =
      sealed_tail c alg dk gh (q + 1) ps"
    using Cons.IH[of "q + 1"] by auto
  then show ?case
    using Cons.prems by (simp add: encryptFrame_sealed[OF assms(1)])
qed simp

text \<open>A run that returns a buffer had its sequence numbers in range.\<close>

lemma encrypt_pieces_range:
  "encrypt_pieces c alg dk gh q ps = Inr (frames, q') \<Longrightarrow>
     q' = q + length ps"
proof (induction ps arbitrary: q frames)
  case (Cons p ps)
  then show ?case by (fastforce simp: result_simps)
qed simp

lemma encryptFrame_range:
  "encryptFrame c p ty q alg dk gh = Inr f \<Longrightarrow> q < 2 ^ 64"
  by (auto simp: encryptFrame_def buildFrameHeader_def result_simps split: if_splits)

definition within_encryption_limits :: "nat \<Rightarrow> nat \<Rightarrow> format_limits \<Rightarrow> bool" where
  "within_encryption_limits n fs limits \<longleftrightarrow>
     n \<le> fmt_maxInputBytes limits \<and> dataFrameCount n fs \<le> fmt_maxFrames limits
     \<and> encodedLength n fs \<le> fmt_maxOutputBytes limits"

lemma encryptBuffer_seals:
  assumes "aead_lengths c" "length salt = 16" "length (opt_key options) = 32"
    and fs: "resolveFrameSize options (limitsFor ctx) = Inr fs"
    and "within_encryption_limits (length data) fs (limitsFor ctx)" "dataFrameCount (length data) fs < 2 ^ 64"
  shows "encryptBuffer c salt data options ctx =
    Inr (sealed_message c (opt_key options) (opt_algorithm options) fs salt (pieces fs data))"
proof -
  let ?alg = "opt_algorithm options" and ?h = "built_header (opt_algorithm options) fs salt"
  let ?dk = "deriveKey c (opt_key options) ?h" and ?ps = "pieces fs data"
  note bounds = resolveFrameSize_bounds[OF fs]
  have n: "length ?ps = dataFrameCount (length data) fs"
    using bounds(1) by (simp add: dataFrameCount_pieces)
  have "\<forall>p \<in> set ?ps. length p < 2 ^ 32"
    using pieces_sizes[of _ fs data] bounds(2) by (meson le_less_trans)
  then obtain frames where frames: "encrypt_pieces c ?alg ?dk (hd_bytes ?h) 0 ?ps = Inr (frames, length ?ps)"
    and tail: "concat frames @ sealed_frame c ?alg ?dk (hd_bytes ?h) FINAL_FRAME (length ?ps) [] =
      sealed_tail c ?alg ?dk (hd_bytes ?h) 0 ?ps"
    using encrypt_pieces_sealed[OF assms(1), of ?ps 0] assms(6) n by fastforce
  have final: "encryptFrame c [] FINAL_FRAME (length ?ps) ?alg ?dk (hd_bytes ?h) =
      Inr (sealed_frame c ?alg ?dk (hd_bytes ?h) FINAL_FRAME (length ?ps) [])"
    using assms(1,6) n by (intro encryptFrame_sealed) simp_all
  have msg: "concat (hd_bytes ?h # frames @ [sealed_frame c ?alg ?dk (hd_bytes ?h) FINAL_FRAME (length ?ps) []])
      = sealed_message c (opt_key options) ?alg fs salt ?ps"
    using tail by (simp add: sealed_message_def Let_def)
  have len: "length (sealed_message c (opt_key options) ?alg fs salt ?ps) = encodedLength (length data) fs"
    using assms(1,2) bounds(1) n
    by (simp add: length_sealed_message concat_pieces encodedLength_dataFrameCount)
  have out: "buf_concat (hd_bytes ?h # frames @ [sealed_frame c ?alg ?dk (hd_bytes ?h) FINAL_FRAME (length ?ps) []])
      (encodedLength (length data) fs) = sealed_message c (opt_key options) ?alg fs salt ?ps"
    using msg len by (metis buf_concat_exact)
  have h: "hd_bytes ?h = buildHeader ?alg fs salt" by (simp add: built_header_def)
  show ?thesis
    unfolding encryptBuffer_def assertEncryptionKey_def Let_def
    using assms(3,5) frames final out
    unfolding h
    by (simp add: fs parse_buildHeader[OF assms(2) bounds(1,2,3)] within_encryption_limits_def)
qed

section \<open>What decryption accepts\<close>

text \<open>The assumptions on \<open>node:crypto\<close> together.\<close>

definition aead_ok :: "node_crypto \<Rightarrow> bool" where
  "aead_ok c \<longleftrightarrow> aead_lengths c \<and> aead_inverse c \<and> aead_tagged c"

lemma aead_open_iff:
  assumes "aead_ok c"
  shows "aead_open c alg k n a x t = Some p \<longleftrightarrow> aead_seal c alg k n a p = (x, t)"
  using assms unfolding aead_ok_def aead_inverse_def aead_tagged_def by blast

lemma aead_seal_lengths:
  "aead_ok c \<Longrightarrow> aead_seal c alg k n a p = (x, t) \<Longrightarrow> length x = length p \<and> length t = TAG_LENGTH"
  unfolding aead_ok_def aead_lengths_def by (metis fst_conv snd_conv)

text \<open>A frame that passes the checks, and the variables after it.\<close>

definition acceptable :: "format_limits \<Rightarrow> nat \<Rightarrow> decrypt_vars \<Rightarrow> nat \<Rightarrow> buffer \<Rightarrow> bool" where
  "acceptable limits fs v ty p \<longleftrightarrow>
     \<not> dv_finalSeen v \<and> dv_expectedSequence v < 2 ^ 64 \<and> length p < 2 ^ 32
     \<and> length p \<le> fs \<and> int (length p) \<le> frame_capacity limits
     \<and> (ty = FINAL_FRAME \<and> p = []
        \<or> ty = DATA_FRAME \<and> dv_dataFrames v < fmt_maxFrames limits
          \<and> int (length p) \<le> int (fmt_maxOutputBytes limits) - int (dv_plaintextBytes v))"

definition after_frame :: "decrypt_vars \<Rightarrow> nat \<Rightarrow> buffer \<Rightarrow> decrypt_vars" where
  "after_frame v ty p =
     (let v = (if ty = FINAL_FRAME then v\<lparr>dv_finalSeen := True\<rparr>
               else v\<lparr>dv_dataFrames := dv_dataFrames v + 1,
                      dv_plaintextBytes := dv_plaintextBytes v + length p,
                      dv_plaintext := dv_plaintext v @ [p]\<rparr>)
      in v\<lparr>dv_expectedSequence := dv_expectedSequence v + 1\<rparr>)"

lemma read_frame_header:
  assumes "ty < 256" "q < 2 ^ 64" "n < 2 ^ 32"
  shows "read_be 1 (frame_header ty q n) 0 = ty" "read_be 8 (frame_header ty q n) 1 = q"
    "read_be 4 (frame_header ty q n) 9 = n"
proof -
  show "read_be 1 (frame_header ty q n) 0 = ty"
    unfolding frame_header_def
    using read_be_slice[of "[]" 0 "be_bytes 1 ty" 1 "be_bytes 8 q @ be_bytes 4 n"] assms(1)
    by (simp del: be_bytes.simps)
  show "read_be 8 (frame_header ty q n) 1 = q"
    unfolding frame_header_def
    using read_be_slice[of "be_bytes 1 ty" 1 "be_bytes 8 q" 8 "be_bytes 4 n"] assms(2)
    by (simp del: be_bytes.simps)
  show "read_be 4 (frame_header ty q n) 9 = n"
    unfolding frame_header_def
    using read_be_slice[of "be_bytes 1 ty @ be_bytes 8 q" 9 "be_bytes 4 n" 4 "[]"] assms(3)
    by (simp del: be_bytes.simps)
qed

lemmas read_frame_fields = read_frame_header read_frame_header[unfolded One_nat_def]

lemma frame_header_read:
  assumes "length fh = FRAME_HEADER_LENGTH"
  shows "fh = frame_header (read_be 1 fh 0) (read_be 8 fh 1) (read_be 4 fh 9)"
proof -
  have len: "length fh = 13" using assms by (simp add: format_constants)
  have slice: "be_bytes n (read_be n fh i) = subarray fh i (i + n)" if "i + n \<le> 13" for i n
    unfolding read_be_def using that len by (intro be_bytes_be_val) (simp add: buffer_simps)
  have "fh = subarray fh 0 1 @ subarray fh 1 9 @ subarray fh 9 13 @ drop 13 fh"
    by (simp add: subarray_split_at)
  then show ?thesis
    using slice[of 0 1] slice[of 1 8] slice[of 9 4] len by (simp add: frame_header_def del: be_bytes.simps)
qed

lemma check_frame_header_ok:
  assumes "acceptable limits fs v ty p"
  shows "check_frame_header limits fs (dv_expectedSequence v) (dv_dataFrames v) (dv_plaintextBytes v)
    (frame_header ty (dv_expectedSequence v) (length p)) = Inr ()"
proof -
  have "ty < 256" using assms by (auto simp: acceptable_def format_constants)
  then show ?thesis
    using assms by (auto simp: check_frame_header_def read_frame_fields acceptable_def format_constants)
qed

lemma decrypt_step_accepts:
  assumes c: "aead_ok c" and ok: "acceptable limits (hd_frameSizeBytes h) v ty p"
  shows "decrypt_step c limits h dk v
      (sealed_frame c (hd_algorithm h) dk (hd_bytes h) ty (dv_expectedSequence v) p @ rest) =
    Inr (after_frame v ty p, rest)"
proof -
  let ?q = "dv_expectedSequence v" and ?fh = "frame_header ty (dv_expectedSequence v) (length p)"
  obtain x t where xt: "aead_seal c (hd_algorithm h) dk (frame_nonce ?q) (hd_bytes h @ ?fh) p = (x, t)"
    by fastforce
  note len = aead_seal_lengths[OF c xt]
  have sf: "sealed_frame c (hd_algorithm h) dk (hd_bytes h) ty ?q p @ rest = ?fh @ x @ t @ rest"
    by (simp add: sealed_frame_def xt)
  have q: "?q < 2 ^ 64" "ty < 256" "length p < 2 ^ 32"
    using ok by (auto simp: acceptable_def format_constants)
  have "aead_open c (hd_algorithm h) dk (frame_nonce ?q) (hd_bytes h @ ?fh) x t = Some p"
    using xt by (simp add: aead_open_iff[OF c])
  then have "decryptFrame c x t ?fh ?q (hd_algorithm h) dk (hd_bytes h) = Inr p"
    using len q by (simp add: decryptFrame_def nonceFor_range)
  moreover have "\<not> dv_finalSeen v" using ok by (simp add: acceptable_def)
  ultimately show ?thesis
    unfolding sf decrypt_step_def after_frame_def
    using len q by (simp add: read_frame_fields check_frame_header_ok[OF ok] Let_def)
qed

lemma decrypt_step_only:
  assumes c: "aead_ok c" and r: "decrypt_step c limits h dk v rest = Inr (v', rest')"
  obtains ty p where "acceptable limits (hd_frameSizeBytes h) v ty p" "v' = after_frame v ty p"
    "rest = sealed_frame c (hd_algorithm h) dk (hd_bytes h) ty (dv_expectedSequence v) p @ rest'"
proof -
  let ?fh = "take FRAME_HEADER_LENGTH rest" and ?body = "drop FRAME_HEADER_LENGTH rest"
  let ?ty = "read_be 1 ?fh 0" and ?q = "read_be 8 ?fh 1" and ?n = "read_be 4 ?fh 9"
  let ?x = "take ?n ?body" and ?t = "take TAG_LENGTH (drop ?n ?body)"
  from r obtain p where fin: "\<not> dv_finalSeen v" and len: "FRAME_HEADER_LENGTH \<le> length rest"
    and check: "check_frame_header limits (hd_frameSizeBytes h) (dv_expectedSequence v)
      (dv_dataFrames v) (dv_plaintextBytes v) ?fh = Inr ()"
    and body: "?n + TAG_LENGTH \<le> length ?body"
    and p: "decryptFrame c ?x ?t ?fh ?q (hd_algorithm h) dk (hd_bytes h) = Inr p"
    and v': "v' = after_frame v ?ty p"
    and rest': "rest' = drop TAG_LENGTH (drop ?n ?body)"
    unfolding decrypt_step_def Let_def after_frame_def
    by (auto simp: result_simps not_less split: if_splits)
  have q: "?q = dv_expectedSequence v" "?q < 2 ^ 64" "?n < 2 ^ 32"
    using check read_be_less[of 8 ?fh 1] read_be_less[of 4 ?fh 9]
    by (auto simp: check_frame_header_def Let_def split: if_splits)
  have "aead_seal c (hd_algorithm h) dk (frame_nonce ?q) (hd_bytes h @ ?fh) p = (?x, ?t)"
    using p q(2) aead_open_iff[OF c]
    by (auto simp: decryptFrame_def nonceFor_range split: if_splits option.splits)
  moreover from aead_seal_lengths[OF c this] have n: "?n = length p" using body by simp
  moreover have fh: "?fh = frame_header ?ty ?q ?n"
    by (rule frame_header_read) (use len in simp)
  ultimately have "sealed_frame c (hd_algorithm h) dk (hd_bytes h) ?ty ?q p = ?fh @ ?x @ ?t"
    by (simp add: sealed_frame_def)
  then have "rest = sealed_frame c (hd_algorithm h) dk (hd_bytes h) ?ty (dv_expectedSequence v) p @ rest'"
    using q(1) rest' by (simp only: append_assoc append_take_drop_id)
  moreover have "acceptable limits (hd_frameSizeBytes h) v ?ty p"
    using check q n fin unfolding acceptable_def check_frame_header_def Let_def
    by (auto simp: format_constants split: if_splits)
  ultimately show thesis using that v' by blast
qed

text \<open>The pieces of a message that the limits admit from the variables \<open>v\<close> on.\<close>

definition admissible :: "format_limits \<Rightarrow> nat \<Rightarrow> decrypt_vars \<Rightarrow> buffer list \<Rightarrow> bool" where
  "admissible limits fs v ps \<longleftrightarrow>
     (\<forall>p \<in> set ps. length p \<le> fs)
     \<and> dv_dataFrames v + length ps \<le> fmt_maxFrames limits
     \<and> dv_plaintextBytes v + length (concat ps) \<le> fmt_maxOutputBytes limits
     \<and> dv_expectedSequence v + length ps < 2 ^ 64"

definition after_message :: "decrypt_vars \<Rightarrow> buffer list \<Rightarrow> decrypt_vars" where
  "after_message v ps = v\<lparr>dv_plaintext := dv_plaintext v @ ps,
     dv_plaintextBytes := dv_plaintextBytes v + length (concat ps),
     dv_expectedSequence := dv_expectedSequence v + length ps + 1,
     dv_dataFrames := dv_dataFrames v + length ps, dv_finalSeen := True\<rparr>"

definition frame_size_fits :: "format_limits \<Rightarrow> nat \<Rightarrow> bool" where
  "frame_size_fits limits fs \<longleftrightarrow> fs < 2 ^ 32 \<and> int fs \<le> frame_capacity limits"

lemma acceptable_data:
  assumes "frame_size_fits limits fs"
  shows "acceptable limits fs v DATA_FRAME p \<longleftrightarrow>
    \<not> dv_finalSeen v \<and> dv_expectedSequence v < 2 ^ 64 \<and> length p \<le> fs
    \<and> dv_dataFrames v < fmt_maxFrames limits
    \<and> dv_plaintextBytes v + length p \<le> fmt_maxOutputBytes limits"
  using assms by (auto simp: acceptable_def frame_size_fits_def format_constants)

lemma acceptable_final:
  assumes "frame_size_fits limits fs"
  shows "acceptable limits fs v FINAL_FRAME p \<longleftrightarrow>
    \<not> dv_finalSeen v \<and> dv_expectedSequence v < 2 ^ 64 \<and> p = []"
  using assms by (auto simp: acceptable_def frame_size_fits_def format_constants)

lemma acceptable_type:
  "acceptable limits fs v ty p \<Longrightarrow> ty = DATA_FRAME \<or> ty = FINAL_FRAME"
  by (auto simp: acceptable_def)

lemma after_frame_simps:
  "after_frame v FINAL_FRAME p =
     v\<lparr>dv_finalSeen := True, dv_expectedSequence := dv_expectedSequence v + 1\<rparr>"
  "after_frame v DATA_FRAME p =
     v\<lparr>dv_dataFrames := dv_dataFrames v + 1, dv_plaintextBytes := dv_plaintextBytes v + length p,
       dv_plaintext := dv_plaintext v @ [p], dv_expectedSequence := dv_expectedSequence v + 1\<rparr>"
  by (simp_all add: after_frame_def format_constants)

lemma decrypt_loop_Nil [simp]: "decrypt_loop c limits h dk v [] = Inr v"
  by (simp add: decrypt_loop.simps)

lemma decrypt_loop_step:
  "decrypt_step c limits h dk v rest = Inr (v', rest') \<Longrightarrow> rest \<noteq> [] \<Longrightarrow>
     decrypt_loop c limits h dk v rest = decrypt_loop c limits h dk v' rest'"
  by (subst decrypt_loop.simps) simp

lemma decrypt_loop_final_seen:
  "dv_finalSeen v \<Longrightarrow> decrypt_loop c limits h dk v rest = Inr v' \<longleftrightarrow> rest = [] \<and> v' = v"
  by (cases "rest = []") (auto simp: decrypt_loop.simps decrypt_step_def)

lemma sealed_frame_nonempty: "sealed_frame c alg dk gh ty q p \<noteq> []"
proof -
  have "frame_header ty q (length p) \<noteq> []"
    using length_frame_header[of ty q "length p"]
    by (metis FRAME_HEADER_LENGTH_def list.size(3) zero_neq_numeral)
  then show ?thesis by (auto simp: sealed_frame_def Let_def split: prod.splits)
qed

lemma decrypt_loop_sealed_tail:
  assumes "aead_ok c" "frame_size_fits limits (hd_frameSizeBytes h)"
  shows "admissible limits (hd_frameSizeBytes h) v ps \<Longrightarrow> \<not> dv_finalSeen v \<Longrightarrow>
    decrypt_loop c limits h dk v
      (sealed_tail c (hd_algorithm h) dk (hd_bytes h) (dv_expectedSequence v) ps) =
    Inr (after_message v ps)"
proof (induction ps arbitrary: v)
  case Nil
  then have ok: "acceptable limits (hd_frameSizeBytes h) v FINAL_FRAME []"
    by (simp add: acceptable_final[OF assms(2)] admissible_def)
  show ?case
    using decrypt_step_accepts[OF assms(1) ok, of dk "[]"]
    by (simp add: decrypt_loop_step[OF _ sealed_frame_nonempty] after_frame_simps after_message_def)
next
  case (Cons p ps)
  then have ok: "acceptable limits (hd_frameSizeBytes h) v DATA_FRAME p"
    by (simp add: acceptable_data[OF assms(2)] admissible_def)
  let ?v = "after_frame v DATA_FRAME p"
  have "admissible limits (hd_frameSizeBytes h) ?v ps" "\<not> dv_finalSeen ?v"
    "dv_expectedSequence ?v = Suc (dv_expectedSequence v)"
    using Cons.prems by (simp_all add: admissible_def after_frame_simps)
  from Cons.IH[OF this(1,2)] this(3)
  have IH: "decrypt_loop c limits h dk ?v (sealed_tail c (hd_algorithm h) dk (hd_bytes h)
      (Suc (dv_expectedSequence v)) ps) = Inr (after_message ?v ps)" by simp
  have "after_message ?v ps = after_message v (p # ps)"
    by (simp add: after_message_def after_frame_simps)
  then show ?case
    using IH decrypt_loop_step[OF decrypt_step_accepts[OF assms(1) ok]]
    by (simp add: sealed_frame_nonempty)
qed

lemma decrypt_loop_only:
  assumes "aead_ok c" "frame_size_fits limits (hd_frameSizeBytes h)"
  shows "decrypt_loop c limits h dk v rest = Inr v' \<Longrightarrow> dv_finalSeen v' \<Longrightarrow> \<not> dv_finalSeen v \<Longrightarrow>
    dv_dataFrames v \<le> fmt_maxFrames limits \<Longrightarrow> dv_plaintextBytes v \<le> fmt_maxOutputBytes limits \<Longrightarrow>
    \<exists>ps. rest = sealed_tail c (hd_algorithm h) dk (hd_bytes h) (dv_expectedSequence v) ps
       \<and> admissible limits (hd_frameSizeBytes h) v ps \<and> v' = after_message v ps"
proof (induction "length rest" arbitrary: rest v rule: less_induct)
  case less
  from less.prems(1,2,3) have "rest \<noteq> []" by auto
  with less.prems(1) obtain v1 rest1 where step: "decrypt_step c limits h dk v rest = Inr (v1, rest1)"
    and loop: "decrypt_loop c limits h dk v1 rest1 = Inr v'"
    by (subst (asm) decrypt_loop.simps) (auto split: sum.splits)
  from decrypt_step_only[OF assms(1) step] obtain ty p
    where ok: "acceptable limits (hd_frameSizeBytes h) v ty p" and v1: "v1 = after_frame v ty p"
      and rest: "rest = sealed_frame c (hd_algorithm h) dk (hd_bytes h) ty (dv_expectedSequence v) p @ rest1" .
  show ?case
  proof (cases "ty = FINAL_FRAME")
    case True
    with ok v1 loop have "rest1 = []" "p = []" "v' = v1"
      by (auto simp: after_frame_simps decrypt_loop_final_seen acceptable_final[OF assms(2)])
    with ok v1 rest True less.prems show ?thesis
      by (intro exI[of _ "[]"])
        (simp add: after_frame_simps after_message_def admissible_def acceptable_final[OF assms(2)])
  next
    case False
    with acceptable_type[OF ok] have ty: "ty = DATA_FRAME" by simp
    note okD = ok[unfolded ty acceptable_data[OF assms(2)]]
    have v1_simps: "dv_expectedSequence v1 = Suc (dv_expectedSequence v)" "\<not> dv_finalSeen v1"
      "dv_dataFrames v1 = Suc (dv_dataFrames v)"
      "dv_plaintextBytes v1 = dv_plaintextBytes v + length p"
      using okD by (simp_all add: v1 ty after_frame_simps)
    have "length rest1 < length rest" using decrypt_step_progress[OF step] .
    from less.hyps[OF this loop less.prems(2) v1_simps(2)] okD obtain ps where
      "rest1 = sealed_tail c (hd_algorithm h) dk (hd_bytes h) (Suc (dv_expectedSequence v)) ps"
      "admissible limits (hd_frameSizeBytes h) v1 ps" "v' = after_message v1 ps"
      by (auto simp: v1_simps)
    with rest ty okD v1 show ?thesis
      by (intro exI[of _ "p # ps"]) (simp add: after_frame_simps after_message_def admissible_def)
  qed
qed

section \<open>Exactness of the framed decryptor\<close>

definition message_fits :: "format_limits \<Rightarrow> nat \<Rightarrow> buffer list \<Rightarrow> bool" where
  "message_fits limits fs ps \<longleftrightarrow>
     0 < fs \<and> frame_size_fits limits fs \<and> (\<forall>p \<in> set ps. length p \<le> fs)
     \<and> length ps \<le> fmt_maxFrames limits \<and> length (concat ps) \<le> fmt_maxOutputBytes limits
     \<and> length ps < 2 ^ 64"

lemma admissible_init:
  "frame_size_fits limits fs \<and> 0 < fs \<and> admissible limits fs decrypt_vars_init ps
     \<longleftrightarrow> message_fits limits fs ps"
  by (auto simp: admissible_def message_fits_def decrypt_vars_init_def)

lemma sealed_message_split:
  assumes "length salt = 16"
  shows "take GLOBAL_HEADER_LENGTH (sealed_message c key alg fs salt ps) = buildHeader alg fs salt"
    and "drop GLOBAL_HEADER_LENGTH (sealed_message c key alg fs salt ps) =
      sealed_tail c alg (deriveKey c key (built_header alg fs salt)) (buildHeader alg fs salt) 0 ps"
    and "GLOBAL_HEADER_LENGTH \<le> length (sealed_message c key alg fs salt ps)"
  using assms by (simp_all add: sealed_message_def Let_def built_header_def)

lemma built_header_simps [simp]:
  "hd_bytes (built_header alg fs salt) = buildHeader alg fs salt"
  "hd_algorithm (built_header alg fs salt) = alg"
  "hd_frameSizeBytes (built_header alg fs salt) = fs"
  "hd_salt (built_header alg fs salt) = salt"
  by (simp_all add: built_header_def)

lemma decrypt_framed_sealed:
  assumes c: "aead_ok c" and salt: "length salt = 16" and fits: "message_fits limits fs ps"
  shows "decrypt_framed c (sealed_message c (opt_key options) alg fs salt ps) options limits =
    Inr (concat ps)"
proof -
  let ?h = "built_header alg fs salt"
  have adm: "frame_size_fits limits fs" "0 < fs" "admissible limits fs decrypt_vars_init ps"
    using fits by (simp_all flip: admissible_init)
  have "parseHeader (buildHeader alg fs salt) limits = Inr ?h"
    using salt adm(1,2) by (intro parse_buildHeader) (auto simp: frame_size_fits_def)
  moreover have "decrypt_loop c limits ?h (deriveKey c (opt_key options) ?h) decrypt_vars_init
      (sealed_tail c alg (deriveKey c (opt_key options) ?h) (buildHeader alg fs salt) 0 ps) =
    Inr (after_message decrypt_vars_init ps)"
    using decrypt_loop_sealed_tail[of c limits ?h decrypt_vars_init ps] c adm
    by (simp add: decrypt_vars_init_def)
  ultimately show ?thesis
    by (simp add: decrypt_framed_def sealed_message_split[OF salt] Let_def not_less after_message_def
        decrypt_vars_init_def buf_concat_exact)
qed

lemma decrypt_framed_only:
  assumes c: "aead_ok c" and r: "decrypt_framed c data options limits = Inr p"
  shows "\<exists>alg fs salt ps. length salt = 16 \<and> message_fits limits fs ps
    \<and> data = sealed_message c (opt_key options) alg fs salt ps \<and> p = concat ps"
proof -
  from r obtain h v where len: "GLOBAL_HEADER_LENGTH \<le> length data"
    and h: "parseHeader (take GLOBAL_HEADER_LENGTH data) limits = Inr h"
    and v: "decrypt_loop c limits h (deriveKey c (opt_key options) h) decrypt_vars_init
      (drop GLOBAL_HEADER_LENGTH data) = Inr v" "dv_finalSeen v"
    and p: "p = buf_concat (dv_plaintext v) (dv_plaintextBytes v)"
    unfolding decrypt_framed_def Let_def by (auto simp: result_simps not_less split: if_splits)
  obtain alg fs salt where salt: "length salt = 16"
    and "0 < fs" "fs < 2 ^ 32" "int fs \<le> frame_capacity limits"
    and bytes: "take GLOBAL_HEADER_LENGTH data = buildHeader alg fs salt"
    and hd: "h = built_header alg fs salt" using parseHeader_built[OF h] by blast
  then have fs: "0 < fs" "frame_size_fits limits fs" by (simp_all add: frame_size_fits_def)
  have "\<exists>ps. drop GLOBAL_HEADER_LENGTH data =
        sealed_tail c (hd_algorithm h) (deriveKey c (opt_key options) h) (hd_bytes h)
          (dv_expectedSequence decrypt_vars_init) ps
      \<and> admissible limits (hd_frameSizeBytes h) decrypt_vars_init ps \<and> v = after_message decrypt_vars_init ps"
    by (rule decrypt_loop_only[OF c _ v]) (simp_all add: hd fs(2) decrypt_vars_init_def)
  then obtain ps where tail: "drop GLOBAL_HEADER_LENGTH data =
      sealed_tail c alg (deriveKey c (opt_key options) h) (buildHeader alg fs salt) 0 ps"
    and adm: "admissible limits fs decrypt_vars_init ps" and after: "v = after_message decrypt_vars_init ps"
    by (auto simp: hd decrypt_vars_init_def)
  have "data = take GLOBAL_HEADER_LENGTH data @ drop GLOBAL_HEADER_LENGTH data" by simp
  also have "\<dots> = sealed_message c (opt_key options) alg fs salt ps"
    unfolding bytes tail by (simp add: sealed_message_def Let_def hd)
  finally have "data = sealed_message c (opt_key options) alg fs salt ps" .
  moreover have "p = concat ps"
    by (simp add: p after after_message_def decrypt_vars_init_def buf_concat_exact)
  ultimately show ?thesis using salt fs adm by (auto simp flip: admissible_init)
qed

lemma length_MAGIC [simp]: "length MAGIC = 4"
  by (simp add: MAGIC_def)

lemma sealed_message_framed:
  assumes "length salt = 16"
  shows "isFramedEncryption (sealed_message c key alg fs salt ps)"
  using assms by (simp add: sealed_message_def Let_def buildHeader_layout isFramedEncryption_def)

text \<open>What takes the framed path: any buffer that starts with the first byte of the magic.\<close>

definition takes_framed_path :: "buffer \<Rightarrow> bool" where
  "takes_framed_path data \<longleftrightarrow>
     data \<noteq> [] \<and> (isFramedEncryption data \<or> read_be 1 data 0 = read_be 1 MAGIC 0)"

lemma decryptBuffer_paths:
  assumes "length (opt_key options) = 32" "length data \<le> fmt_maxInputBytes (limitsFor ctx)"
  shows "decryptBuffer c data options ctx =
    (if takes_framed_path data then decrypt_framed c data options (limitsFor ctx)
     else if opt_allowLegacyDecrypt options = Some True
     then decryptLegacy c data (opt_key options) (limitsFor ctx)
     else Inl (decryption_failed ''legacy format disabled''))"
  using assms by (auto simp: decryptBuffer_def assertEncryptionKey_def takes_framed_path_def Let_def)

lemma decryptBuffer_guards:
  assumes "decryptBuffer c data options ctx = Inr p"
  shows "length (opt_key options) = 32" "length data \<le> fmt_maxInputBytes (limitsFor ctx)"
  using assms by (auto simp: decryptBuffer_def assertEncryptionKey_def result_simps Let_def split: if_splits)

lemma sealed_message_path:
  "length salt = 16 \<Longrightarrow> takes_framed_path (sealed_message c key alg fs salt ps)"
  using sealed_message_framed sealed_message_split(3)[of salt c key alg fs ps]
  by (auto simp: takes_framed_path_def format_constants)

text \<open>C1: With the legacy format not enabled, \<open>decryptBuffer\<close> accepts a buffer and returns \<open>p\<close> exactly
  when the key has 32 bytes, the buffer is within the input limit and is a sealed message, under this
  key, of pieces that concatenate to \<open>p\<close> and fit the frame size, frame count and output limits:
  consecutive sequence numbers from 0, every frame authenticated under the derived key with the
  global header and its own header, and one final frame at the very end.\<close>

theorem decryptBuffer_exact:
  assumes "aead_ok c" "opt_allowLegacyDecrypt options \<noteq> Some True"
  shows "decryptBuffer c data options ctx = Inr p \<longleftrightarrow>
    length (opt_key options) = 32 \<and> length data \<le> fmt_maxInputBytes (limitsFor ctx)
    \<and> (\<exists>alg fs salt ps. length salt = 16 \<and> message_fits (limitsFor ctx) fs ps
         \<and> data = sealed_message c (opt_key options) alg fs salt ps \<and> p = concat ps)"
proof
  assume r: "decryptBuffer c data options ctx = Inr p"
  note guards = decryptBuffer_guards[OF r]
  with r assms(2) have "decrypt_framed c data options (limitsFor ctx) = Inr p"
    by (auto simp: decryptBuffer_paths split: if_splits)
  with decrypt_framed_only[OF assms(1)] guards show
    "length (opt_key options) = 32 \<and> length data \<le> fmt_maxInputBytes (limitsFor ctx)
    \<and> (\<exists>alg fs salt ps. length salt = 16 \<and> message_fits (limitsFor ctx) fs ps
         \<and> data = sealed_message c (opt_key options) alg fs salt ps \<and> p = concat ps)" by blast
next
  assume "length (opt_key options) = 32 \<and> length data \<le> fmt_maxInputBytes (limitsFor ctx)
    \<and> (\<exists>alg fs salt ps. length salt = 16 \<and> message_fits (limitsFor ctx) fs ps
         \<and> data = sealed_message c (opt_key options) alg fs salt ps \<and> p = concat ps)"
  then show "decryptBuffer c data options ctx = Inr p"
    using decrypt_framed_sealed[OF assms(1)] sealed_message_path
    by (auto simp: decryptBuffer_paths)
qed

lemma aead_ok_toy: "aead_ok toy_crypto"
  by (simp add: aead_ok_def toy_crypto_ok)

lemma limitsFor_default:
  "fmt_maxInputBytes (limitsFor None) = 268435456" "fmt_maxOutputBytes (limitsFor None) = 268435456"
  "fmt_maxFrameBytes (limitsFor None) = 8388608" "fmt_maxFrames (limitsFor None) = 100000"
  by (simp_all add: limitsFor_def pluginInputLimit_def pluginOutputLimit_def context_limits_def
      DEFAULT_LIMITS_def)

lemma frame_capacity_default: "frame_capacity (limitsFor None) = 8388579"
  by (simp add: frame_capacity_def limitsFor_default format_constants)

lemma example_frame_size: "resolveFrameSize example_options (limitsFor None) = Inr 4"
  unfolding resolveFrameSize_def Let_def
  by (simp add: example_options_def frame_capacity_default limitsFor_default is_safe_integer_def
      max_safe_integer_def format_constants)

lemma example_fits: "message_fits (limitsFor None) 4 [[1, 2, 3, 4], [5 :: byte]]"
  by (simp add: message_fits_def frame_size_fits_def frame_capacity_default limitsFor_default)

theorem decryptBuffer_exact_witness:
  "decryptBuffer toy_crypto
     (sealed_message toy_crypto (replicate 32 7) ChaCha20Poly1305 4 (replicate 16 9) [[1, 2, 3, 4], [5]])
     example_options None = Inr [1, 2, 3, 4, 5]"
proof -
  have "length (sealed_message toy_crypto (replicate 32 7) ChaCha20Poly1305 4 (replicate 16 9)
      [[1, 2, 3, 4], [5]]) \<le> fmt_maxInputBytes (limitsFor None)"
    by (simp add: length_sealed_message toy_crypto_ok limitsFor_default format_constants)
  with example_fits show ?thesis
    by (subst decryptBuffer_exact[OF aead_ok_toy])
      (force simp: example_options_def intro!: exI[of _ ChaCha20Poly1305] exI[of _ 4]
        exI[of _ "replicate 16 9"] exI[of _ "[[1, 2, 3, 4], [5]]"])+
qed

section \<open>Round trip and sizes\<close>

lemma encryptBuffer_only:
  assumes "aead_lengths c" "length salt = 16" and r: "encryptBuffer c salt data options ctx = Inr e"
  obtains fs where "length (opt_key options) = 32" "resolveFrameSize options (limitsFor ctx) = Inr fs"
    "within_encryption_limits (length data) fs (limitsFor ctx)" "dataFrameCount (length data) fs < 2 ^ 64"
    "e = sealed_message c (opt_key options) (opt_algorithm options) fs salt (pieces fs data)"
proof -
  from r obtain fs ph frames q final where key: "length (opt_key options) = 32"
    and fs: "resolveFrameSize options (limitsFor ctx) = Inr fs"
    and lim: "within_encryption_limits (length data) fs (limitsFor ctx)"
    and frames: "encrypt_pieces c (opt_algorithm options) (deriveKey c (opt_key options) ph)
      (buildHeader (opt_algorithm options) fs salt) 0 (pieces fs data) = Inr (frames, q)"
    and final: "encryptFrame c [] FINAL_FRAME q (opt_algorithm options) (deriveKey c (opt_key options) ph)
      (buildHeader (opt_algorithm options) fs salt) = Inr final"
    unfolding encryptBuffer_def assertEncryptionKey_def Let_def within_encryption_limits_def
    by (auto simp: result_simps not_less split: if_splits)
  have "q = length (pieces fs data)" using encrypt_pieces_range[OF frames] by simp
  then have count: "dataFrameCount (length data) fs < 2 ^ 64"
    using encryptFrame_range[OF final] resolveFrameSize_bounds(1)[OF fs]
    by (simp add: dataFrameCount_pieces)
  from encryptBuffer_seals[OF assms(1,2) key fs lim count] r show thesis
    using that[OF key fs lim count] by simp
qed

lemma pieces_fit:
  assumes "resolveFrameSize options limits = Inr fs"
    "within_encryption_limits (length data) fs limits" "dataFrameCount (length data) fs < 2 ^ 64"
  shows "message_fits limits fs (pieces fs data)"
proof -
  note b = resolveFrameSize_bounds[OF assms(1)]
  have "length data \<le> encodedLength (length data) fs"
    by (simp add: encodedLength_dataFrameCount)
  then show ?thesis
    using assms(2,3) b pieces_sizes[of _ fs data]
    by (auto simp: message_fits_def frame_size_fits_def concat_pieces dataFrameCount_pieces
        within_encryption_limits_def)
qed

lemma decrypt_encrypted:
  assumes "aead_ok c" "length salt = 16" "encryptBuffer c salt data options ctx = Inr e"
    and "opt_key options' = opt_key options"
  shows "decryptBuffer c e options' ctx = Inr data"
proof -
  have "aead_lengths c" using assms(1) by (simp add: aead_ok_def)
  from encryptBuffer_only[OF this assms(2,3)] obtain fs where
    key: "length (opt_key options) = 32" and fs: "resolveFrameSize options (limitsFor ctx) = Inr fs"
    and lim: "within_encryption_limits (length data) fs (limitsFor ctx)"
      "dataFrameCount (length data) fs < 2 ^ 64"
    and e: "e = sealed_message c (opt_key options) (opt_algorithm options) fs salt (pieces fs data)" .
  have "length e = encodedLength (length data) fs"
    using assms(2) resolveFrameSize_bounds(1)[OF fs] \<open>aead_lengths c\<close>
    by (simp add: e length_sealed_message concat_pieces encodedLength_dataFrameCount dataFrameCount_pieces)
  then have "length e \<le> fmt_maxInputBytes (limitsFor ctx)"
    using lim(1) pluginOutputLimit_le_pluginInputLimit[of ctx]
    by (simp add: within_encryption_limits_def limitsFor_def)
  moreover have "decrypt_framed c e options' (limitsFor ctx) = Inr data"
    using decrypt_framed_sealed[OF assms(1,2) pieces_fit[OF fs lim], of options'] assms(4)
      resolveFrameSize_bounds(1)[OF fs] by (simp add: e concat_pieces)
  ultimately show ?thesis
    using key assms(4) sealed_message_path[OF assms(2)] by (simp add: decryptBuffer_paths e)
qed

text \<open>C2: Decrypting what \<open>encryptBuffer\<close> returned, with the same key and in the same context, returns
  the plaintext, whatever the algorithm, the frame size and the other options of the decryptor.\<close>

theorem encrypt_decrypt_roundtrip:
  assumes "aead_ok c" "length salt = 16" "encryptBuffer c salt data options ctx = Inr e"
    and "opt_key options' = opt_key options"
  shows "decryptBuffer c e options' ctx = Inr data"
  using assms by (rule decrypt_encrypted)

lemma example_count: "dataFrameCount (Suc (Suc (Suc (Suc (Suc 0))))) 4 = 2"
  by (simp add: dataFrameCount_def ceil_div_def)

lemma example_options_simps:
  "opt_key example_options = replicate 32 7" "opt_algorithm example_options = Aes256Gcm"
  by (simp_all add: example_options_def)

lemma example_encrypts:
  "encryptBuffer toy_crypto (replicate 16 9) [1, 2, 3, 4, 5] example_options None =
     Inr (sealed_message toy_crypto (replicate 32 7) Aes256Gcm 4 (replicate 16 9) (pieces 4 [1, 2, 3, 4, 5]))"
proof -
  have "within_encryption_limits (length [1, 2, 3, 4, 5 :: byte]) 4 (limitsFor None)"
    by (simp add: within_encryption_limits_def limitsFor_default encodedLength_dataFrameCount
        format_constants example_count)
  from encryptBuffer_seals[OF toy_crypto_ok(1) _ _ example_frame_size this, of "replicate 16 9"] show ?thesis
    by (simp add: example_options_simps example_count)
qed

theorem encrypt_decrypt_roundtrip_witness:
  "\<exists>e. encryptBuffer toy_crypto (replicate 16 9) [1, 2, 3, 4, 5] example_options None = Inr e
     \<and> decryptBuffer toy_crypto e (example_options\<lparr>opt_algorithm := ChaCha20Poly1305\<rparr>) None
       = Inr [1, 2, 3, 4, 5]"
  using encrypt_decrypt_roundtrip[OF aead_ok_toy _ example_encrypts] example_encrypts by simp

text \<open>\<open>encryptBuffer\<close> returns a buffer exactly when the key has 32 bytes, the frame size resolves,
  and input bytes, frame count and encoded length are within the limits; the buffer then has the
  announced length: 28 bytes of header, the plaintext, and 29 bytes for each data frame and for the
  final frame.\<close>

theorem encryptBuffer_succeeds_iff:
  assumes "aead_lengths c" "length salt = 16" "fmt_maxFrames (limitsFor ctx) < 2 ^ 64"
  shows "(\<exists>e. encryptBuffer c salt data options ctx = Inr e \<and> length e = n) \<longleftrightarrow>
    length (opt_key options) = 32 \<and> length data \<le> pluginInputLimit ctx
    \<and> (\<exists>fs. resolveFrameSize options (limitsFor ctx) = Inr fs
         \<and> n = 28 + length data + (dataFrameCount (length data) fs + 1) * 29
         \<and> dataFrameCount (length data) fs \<le> maxFrames (context_limits ctx)
         \<and> n \<le> pluginOutputLimit ctx)"
    (is "?returns \<longleftrightarrow> ?within")
proof
  assume ?returns
  then obtain e where "encryptBuffer c salt data options ctx = Inr e" and n: "length e = n" by blast
  from encryptBuffer_only[OF assms(1,2) this(1)] obtain fs where
    "length (opt_key options) = 32" and fs: "resolveFrameSize options (limitsFor ctx) = Inr fs"
    and "within_encryption_limits (length data) fs (limitsFor ctx)"
    and e: "e = sealed_message c (opt_key options) (opt_algorithm options) fs salt (pieces fs data)" .
  then show ?within
    using assms(1,2) resolveFrameSize_bounds(1)[OF fs] n
    by (auto simp: within_encryption_limits_def limitsFor_def length_sealed_message concat_pieces
        encodedLength_dataFrameCount dataFrameCount_pieces format_constants)
next
  assume ?within
  then obtain fs where fs: "resolveFrameSize options (limitsFor ctx) = Inr fs"
    and n: "n = encodedLength (length data) fs" and key: "length (opt_key options) = 32"
    and lim: "within_encryption_limits (length data) fs (limitsFor ctx)"
    by (auto simp: within_encryption_limits_def limitsFor_def encodedLength_dataFrameCount
        format_constants)
  have "dataFrameCount (length data) fs < 2 ^ 64"
    using lim assms(3) by (simp add: within_encryption_limits_def)
  from encryptBuffer_seals[OF assms(1,2) key fs lim this] show ?returns
    using assms(1,2) resolveFrameSize_bounds(1)[OF fs]
    by (simp add: n length_sealed_message concat_pieces encodedLength_dataFrameCount dataFrameCount_pieces)
qed

theorem encryptBuffer_succeeds_iff_witness:
  "\<exists>e. encryptBuffer toy_crypto (replicate 16 9) [1, 2, 3, 4, 5] example_options None = Inr e
     \<and> length e = 120"
  by (subst encryptBuffer_succeeds_iff[OF toy_crypto_ok(1)])
    (auto simp: limitsFor_default pluginInputLimit_def pluginOutputLimit_def context_limits_def
      DEFAULT_LIMITS_def example_count example_options_simps example_frame_size intro!: exI[of _ 4])

section \<open>Truncation and extension\<close>

lemma be_bytes_inj:
  "be_bytes n v = be_bytes n w \<Longrightarrow> v < 256 ^ n \<Longrightarrow> w < 256 ^ n \<Longrightarrow> v = w"
  by (metis be_val_be_bytes_exact)

lemma frame_header_inj:
  assumes "frame_header ty q n = frame_header ty' q n'"
    "ty < 256" "ty' < 256" "n < 2 ^ 32" "n' < 2 ^ 32"
  shows "ty = ty' \<and> n = n'"
  using assms be_bytes_inj[of 1 ty ty'] be_bytes_inj[of 4 n n']
  by (simp add: frame_header_def del: be_bytes.simps)

lemma sealed_frame_shape:
  assumes "aead_lengths c"
  obtains body where "sealed_frame c alg dk gh ty q p = frame_header ty q (length p) @ body"
    "length body = length p + TAG_LENGTH"
proof -
  obtain x t where xt: "aead_seal c alg dk (frame_nonce q) (gh @ frame_header ty q (length p)) p = (x, t)"
    by fastforce
  then have "length x = length p \<and> length t = TAG_LENGTH"
    using assms unfolding aead_lengths_def by (metis fst_conv snd_conv)
  then show thesis
    using that[of "x @ t"] by (simp add: sealed_frame_def xt)
qed

text \<open>Two frames with the same number at the start of a buffer have the same type and extent.\<close>

lemma sealed_frame_prefix:
  assumes c: "aead_lengths c"
    and eq: "sealed_frame c alg dk gh ty q p @ xs = sealed_frame c alg' dk' gh' ty' q p' @ ys"
    and "ty < 256" "ty' < 256" "length p < 2 ^ 32" "length p' < 2 ^ 32"
  shows "ty = ty' \<and> xs = ys"
proof -
  obtain b where b: "sealed_frame c alg dk gh ty q p = frame_header ty q (length p) @ b"
    "length b = length p + TAG_LENGTH" using sealed_frame_shape[OF c] .
  obtain b' where b': "sealed_frame c alg' dk' gh' ty' q p' = frame_header ty' q (length p') @ b'"
    "length b' = length p' + TAG_LENGTH" using sealed_frame_shape[OF c] .
  from eq have "frame_header ty q (length p) = frame_header ty' q (length p') \<and> b @ xs = b' @ ys"
    unfolding b(1) b'(1) by simp
  with frame_header_inj assms(3-6) have "ty = ty'" "length p = length p'" "b @ xs = b' @ ys" by blast+
  with b(2) b'(2) show ?thesis by simp
qed

lemma sealed_tail_prefix:
  assumes "aead_lengths c"
  shows "\<forall>p \<in> set ps. length p < 2 ^ 32 \<Longrightarrow> \<forall>p \<in> set ps'. length p < 2 ^ 32 \<Longrightarrow>
    sealed_tail c alg dk gh q ps @ xs = sealed_tail c alg' dk' gh' q ps' @ ys \<Longrightarrow> xs = ys"
proof (induction ps arbitrary: q ps')
  case Nil
  then show ?case
    using sealed_frame_prefix[OF assms, of alg dk gh FINAL_FRAME q "[]" xs alg' dk' gh']
    by (cases ps') (fastforce simp: format_constants)+
next
  case (Cons p ps)
  show ?case
  proof (cases ps')
    case Nil
    then show ?thesis
      using Cons.prems sealed_frame_prefix[OF assms, of alg dk gh DATA_FRAME q p
          "sealed_tail c alg dk gh (Suc q) ps @ xs" alg' dk' gh' FINAL_FRAME "[]" ys]
      by (simp add: format_constants)
  next
    case (Cons p' qs)
    then have "sealed_tail c alg dk gh (Suc q) ps @ xs = sealed_tail c alg' dk' gh' (Suc q) qs @ ys"
      using Cons.prems sealed_frame_prefix[OF assms, of alg dk gh DATA_FRAME q p
          "sealed_tail c alg dk gh (Suc q) ps @ xs" alg' dk' gh' DATA_FRAME p'
          "sealed_tail c alg' dk' gh' (Suc q) qs @ ys"]
      by (simp add: format_constants)
    then show ?thesis using Cons.IH[of qs "Suc q"] Cons.prems Cons by simp
  qed
qed

lemma sealed_message_prefix:
  assumes "aead_lengths c" "length salt = 16" "length salt' = 16"
    and fits: "message_fits limits fs ps" "message_fits limits' fs' ps'"
    and eq: "sealed_message c key alg fs salt ps @ ys = sealed_message c key' alg' fs' salt' ps'"
  shows "ys = []"
proof -
  note s = sealed_message_split[OF assms(2), of c key alg fs ps]
  note s' = sealed_message_split[OF assms(3), of c key' alg' fs' ps']
  have "drop GLOBAL_HEADER_LENGTH (sealed_message c key alg fs salt ps @ ys) =
    drop GLOBAL_HEADER_LENGTH (sealed_message c key alg fs salt ps) @ ys"
    using s(3) by simp
  then have "sealed_tail c alg (deriveKey c key (built_header alg fs salt)) (buildHeader alg fs salt) 0 ps @ ys
    = sealed_tail c alg' (deriveKey c key' (built_header alg' fs' salt')) (buildHeader alg' fs' salt') 0 ps' @ []"
    unfolding eq s(2) s'(2) by simp
  moreover have "\<forall>p \<in> set ps. length p < 2 ^ 32" "\<forall>p \<in> set ps'. length p < 2 ^ 32"
    using fits unfolding message_fits_def frame_size_fits_def by (meson le_less_trans)+
  ultimately show ?thesis using sealed_tail_prefix[OF assms(1)] by blast
qed

text \<open>No accepted buffer is a proper prefix of another accepted one, whatever keys and limits the
  two decryptors use: a message cut short anywhere, also between two frames, and a message followed
  by anything are both rejected.\<close>

theorem truncation_and_extension_rejected:
  assumes "aead_ok c"
    and "opt_allowLegacyDecrypt options \<noteq> Some True" "opt_allowLegacyDecrypt options' \<noteq> Some True"
    and "decryptBuffer c data options ctx = Inr p" "extra \<noteq> []"
  shows "\<not> returns (decryptBuffer c (data @ extra) options' ctx')
    \<and> (\<forall>prefix. data = prefix @ extra \<longrightarrow> \<not> returns (decryptBuffer c prefix options' ctx'))"
proof -
  have c: "aead_lengths c" using assms(1) by (simp add: aead_ok_def)
  have free: "zs = []" if r: "decryptBuffer c xs o1 c1 = Inr p1" "decryptBuffer c (xs @ zs) o2 c2 = Inr p2"
    and o: "opt_allowLegacyDecrypt o1 \<noteq> Some True" "opt_allowLegacyDecrypt o2 \<noteq> Some True"
    for xs zs o1 o2 c1 c2 p1 p2
  proof -
    have "decrypt_framed c xs o1 (limitsFor c1) = Inr p1"
      using r(1) o(1) decryptBuffer_guards[OF r(1)] by (simp add: decryptBuffer_paths split: if_splits)
    from decrypt_framed_only[OF assms(1) this] obtain alg fs salt ps where
      "length salt = 16" "message_fits (limitsFor c1) fs ps" "xs = sealed_message c (opt_key o1) alg fs salt ps"
      by blast
    moreover have "decrypt_framed c (xs @ zs) o2 (limitsFor c2) = Inr p2"
      using r(2) o(2) decryptBuffer_guards[OF r(2)] by (simp add: decryptBuffer_paths split: if_splits)
    from decrypt_framed_only[OF assms(1) this] obtain alg' fs' salt' ps' where
      "length salt' = 16" "message_fits (limitsFor c2) fs' ps'"
      "xs @ zs = sealed_message c (opt_key o2) alg' fs' salt' ps'"
      by blast
    ultimately show ?thesis using sealed_message_prefix[OF c] by blast
  qed
  have "\<not> returns (decryptBuffer c (data @ extra) options' ctx')"
    using free[OF assms(4) _ assms(2,3)] assms(5) by (auto simp: returns_def)
  moreover have "\<not> returns (decryptBuffer c prefix options' ctx')" if "data = prefix @ extra" for "prefix"
    using free[OF _ assms(4)[unfolded that] assms(3,2)] assms(5) by (auto simp: returns_def)
  ultimately show ?thesis by blast
qed

lemma example_decrypts_with:
  assumes "opt_key o1 = replicate 32 7"
  shows "decryptBuffer toy_crypto
     (sealed_message toy_crypto (replicate 32 7) Aes256Gcm 4 (replicate 16 9) (pieces 4 [1, 2, 3, 4, 5]))
     o1 None = Inr [1, 2, 3, 4, 5]"
  using decrypt_framed_sealed[OF aead_ok_toy _ example_fits, of "replicate 16 9" o1 Aes256Gcm] assms
  by (subst decryptBuffer_paths)
    (simp_all add: sealed_message_path length_sealed_message toy_crypto_ok
      concat_pieces limitsFor_default format_constants pieces.simps)

lemmas example_decrypts = example_decrypts_with[OF example_options_simps(1)]

theorem truncation_and_extension_rejected_witness:
  "\<not> returns (decryptBuffer toy_crypto
     (sealed_message toy_crypto (replicate 32 7) Aes256Gcm 4 (replicate 16 9) (pieces 4 [1, 2, 3, 4, 5]) @ [0])
     example_options None)"
  using truncation_and_extension_rejected[OF aead_ok_toy _ _ example_decrypts, of example_options "[0]" None]
  by (simp add: example_options_def)

section \<open>The other ways a call can end\<close>



text \<open>The legacy format: a buffer whose first byte is not the magic's is refused unless
  \<open>allowLegacyDecrypt\<close> is \<open>true\<close>; then it is accepted exactly when it is an algorithm id, a nonce, a tag
  and a ciphertext within the output limit that opens under the key itself with no AAD.\<close>

theorem decryptBuffer_legacy:
  assumes "length (opt_key options) = 32" "length data \<le> pluginInputLimit ctx"
    and "\<not> takes_framed_path data"
  shows "decryptBuffer c data options ctx = Inr p \<longleftrightarrow>
    opt_allowLegacyDecrypt options = Some True
    \<and> (\<exists>alg nonce tag x. data = of_nat (ALGORITHM_IDS alg) # nonce @ tag @ x
         \<and> length nonce = 12 \<and> length tag = 16 \<and> length x \<le> pluginOutputLimit ctx
         \<and> aead_open c alg (opt_key options) nonce [] x tag = Some p)"
proof -
  let ?packet = "\<lambda>alg nonce tag x. data = of_nat (ALGORITHM_IDS alg) # nonce @ tag @ x
    \<and> length nonce = 12 \<and> length tag = 16 \<and> length x \<le> pluginOutputLimit ctx
    \<and> aead_open c alg (opt_key options) nonce [] x tag = Some p"
  have "decryptLegacy c data (opt_key options) (limitsFor ctx) = Inr p \<longleftrightarrow>
      (\<exists>alg nonce tag x. ?packet alg nonce tag x)" (is "?legacy \<longleftrightarrow> ?shape")
  proof
    assume ?legacy
    then obtain alg where len: "29 \<le> length data" "length data - 29 \<le> pluginOutputLimit ctx"
      and alg: "ID_TO_ALGORITHM (read_be 1 data 0) = Some alg"
      and opens: "aead_open c alg (opt_key options) (subarray data 1 13) [] (drop 29 data)
        (subarray data 13 29) = Some p"
      by (auto simp: decryptLegacy_def limitsFor_def format_constants split: if_splits option.splits)
    have "be_bytes 1 (read_be 1 data 0) = subarray data 0 1"
      using be_bytes_be_val[of "subarray data 0 1" 1] len by (simp add: read_be_def buffer_simps)
    moreover have "read_be 1 data 0 = ALGORITHM_IDS alg"
      using alg by (auto simp: ID_TO_ALGORITHM_def split: if_splits)
    ultimately have first: "subarray data 0 1 = [of_nat (ALGORITHM_IDS alg)]"
      using ALGORITHM_IDS_less[of alg] by simp
    have "data = subarray data 0 1 @ subarray data 1 13 @ subarray data 13 29 @ drop 29 data"
      by (simp add: subarray_split_at)
    then have "?packet alg (subarray data 1 13) (subarray data 13 29) (drop 29 data)"
      using len opens by (simp add: first[unfolded One_nat_def] buffer_simps)
    then show ?shape by blast
  next
    assume ?shape
    then obtain alg nonce tag x where d: "data = [of_nat (ALGORITHM_IDS alg)] @ nonce @ tag @ x"
      and len: "length nonce = 12" "length tag = 16" "length x \<le> pluginOutputLimit ctx"
      and opens: "aead_open c alg (opt_key options) nonce [] x tag = Some p" by auto
    have "read_be 1 data 0 = ALGORITHM_IDS alg"
      using read_be_slice[of "[]" 0 "[of_nat (ALGORITHM_IDS alg)]" 1 "nonce @ tag @ x"]
        ALGORITHM_IDS_less[of alg] by (simp add: d)
    moreover have "subarray data 1 13 = nonce" "subarray data 13 29 = tag" "drop 29 data = x"
      using len by (simp_all add: d subarray_def)
    ultimately show ?legacy
      using opens len by (simp add: decryptLegacy_def limitsFor_def format_constants) (simp add: d)
  qed
  then show ?thesis
    using assms by (auto simp: decryptBuffer_paths limitsFor_def)
qed

theorem decryptBuffer_legacy_witness:
  "decryptBuffer toy_crypto (1 # replicate 12 3 @ toy_tag (replicate 32 7) (replicate 12 3) [] [0] @ [- 1])
     (example_options\<lparr>opt_allowLegacyDecrypt := Some True\<rparr>) None = Inr [0]"
proof -
  have "aead_open toy_crypto Aes256Gcm (replicate 32 7) (replicate 12 3) [] [- 1]
      (toy_tag (replicate 32 7) (replicate 12 3) [] [0]) = Some [0]"
    by (simp add: toy_crypto_def)
  moreover have "\<not> takes_framed_path (1 # replicate 12 3
      @ toy_tag (replicate 32 7) (replicate 12 3) [] [0] @ [- 1])"
    by (simp add: takes_framed_path_def isFramedEncryption_def read_be_def subarray_def MAGIC_def utf8_def)
  moreover have "length (toy_tag k n a p) = 16" for k n a p by (simp add: toy_tag_def)
  ultimately show ?thesis
    apply (subst decryptBuffer_legacy)
       apply (simp_all add: example_options_simps pluginInputLimit_def pluginOutputLimit_def
        context_limits_def DEFAULT_LIMITS_def)
    apply (rule exI[of _ Aes256Gcm], simp, rule exI[of _ "replicate 12 3"],
        rule exI[of _ "toy_tag (replicate 32 7) (replicate 12 3) [] [0]"], rule exI[of _ "[- 1]"])
    apply simp
    done
qed

end
