(* ===== verification/Encryption_Stream.thy ===== *)
theory Encryption_Stream
  imports Encryption_Buffer
begin

text \<open>
  \<open>createEncryptionStream\<close> of \<open>src/plugin/encryptionFormat.ts\<close>.  The closure variables are the record
  \<open>enc_stream\<close>, the constants of the closure the record \<open>enc_setup\<close>.  A handler that fails returns
  the state it leaves behind together with the error, so that the wiping of key and plaintext can
  be stated.  The stage is shown to produce, for every way of cutting the plaintext into chunks,
  the bytes that \<open>encryptBuffer\<close> returns.
\<close>

section \<open>The stage\<close>

record enc_setup =
  ek_algorithm :: encryption_algorithm
  ek_limits :: format_limits
  ek_frameSizeBytes :: nat
  ek_header :: buffer

record enc_stream =
  es_pending :: buffer
  es_pendingBytes :: nat
  es_inputBytes :: nat
  es_dataFrames :: nat
  es_sequence :: nat
  es_headerSent :: bool
  es_derivedKey :: buffer

type_synonym enc_outcome = "(enc_stream, buffer, px_error \<times> enc_stream) outcome"

definition createEncryptionStream ::
  "node_crypto \<Rightarrow> buffer \<Rightarrow> encryption_options \<Rightarrow> engine_limits option \<Rightarrow> px_error + (enc_setup \<times> enc_stream)"
where
  "createEncryptionStream c salt options ctx =
     rbind (assertEncryptionKey (opt_key options)) (\<lambda>_.
       let limits = limitsFor ctx in
       rbind (resolveFrameSize options limits) (\<lambda>frameSizeBytes.
         if encodedLength 0 frameSizeBytes > fmt_maxOutputBytes limits
         then Inl (encryption_output_exceeds (fmt_maxOutputBytes limits))
         else
           let header = buildHeader (opt_algorithm options) frameSizeBytes salt in
           rbind (parseHeader header limits) (\<lambda>parsed.
             Inr (\<lparr>ek_algorithm = opt_algorithm options, ek_limits = limits,
                   ek_frameSizeBytes = frameSizeBytes, ek_header = header\<rparr>,
                  \<lparr>es_pending = replicate frameSizeBytes 0, es_pendingBytes = 0, es_inputBytes = 0,
                   es_dataFrames = 0, es_sequence = 0, es_headerSent = False,
                   es_derivedKey = deriveKey c (opt_key options) parsed\<rparr>))))"

definition enc_cleanup :: "enc_stream \<Rightarrow> enc_stream" where
  "enc_cleanup s =
     s\<lparr>es_pending := zero_fill (es_pending s), es_derivedKey := zero_fill (es_derivedKey s)\<rparr>"

text \<open>\<open>if (++dataFrames > limits.maxFrames) throw ...; this.push(encryptFrame(part, DATA_FRAME, ...))\<close>.\<close>

definition enc_push_data :: "node_crypto \<Rightarrow> enc_setup \<Rightarrow> enc_stream \<Rightarrow> buffer \<Rightarrow> enc_outcome" where
  "enc_push_data c k s part =
     (let s = s\<lparr>es_dataFrames := es_dataFrames s + 1\<rparr> in
      if es_dataFrames s > fmt_maxFrames (ek_limits k)
      then ([], Inl (frame_count_exceeds (fmt_maxFrames (ek_limits k)), s))
      else
        let sequence = es_sequence s; s = s\<lparr>es_sequence := es_sequence s + 1\<rparr> in
        case encryptFrame c part DATA_FRAME sequence (ek_algorithm k) (es_derivedKey s) (ek_header k) of
          Inl e \<Rightarrow> ([], Inl (e, s))
        | Inr frame \<Rightarrow> ([frame], Inr s))"

text \<open>One iteration of the copying loop, on the rest of the input from \<open>offset\<close> on.\<close>

definition enc_copied :: "enc_setup \<Rightarrow> enc_stream \<Rightarrow> buffer \<Rightarrow> nat" where
  "enc_copied k s rest = min (ek_frameSizeBytes k - es_pendingBytes s) (length rest)"

definition enc_step :: "node_crypto \<Rightarrow> enc_setup \<Rightarrow> enc_stream \<Rightarrow> buffer \<Rightarrow> enc_outcome" where
  "enc_step c k s rest =
     (let copied = enc_copied k s rest;
          s = s\<lparr>es_pending := buf_copy (es_pending s) (es_pendingBytes s) (take copied rest),
                es_pendingBytes := es_pendingBytes s + copied\<rparr>
      in if es_pendingBytes s = ek_frameSizeBytes k
         then then_do (enc_push_data c k s (es_pending s)) (\<lambda>s.
           ([], Inr (s\<lparr>es_pending := zero_fill (es_pending s), es_pendingBytes := 0\<rparr>)))
         else ([], Inr s))"

text \<open>
  The loop.  It keeps \<open>pendingBytes < frameSizeBytes\<close> (lemma \<open>enc_fill_inv\<close>), so \<open>copied\<close> is positive;
  the second test below only makes the recursion total and never succeeds.
\<close>

function enc_fill :: "node_crypto \<Rightarrow> enc_setup \<Rightarrow> enc_stream \<Rightarrow> buffer \<Rightarrow> enc_outcome" where
  "enc_fill c k s rest =
     (if rest = [] \<or> ek_frameSizeBytes k \<le> es_pendingBytes s then ([], Inr s)
      else then_do (enc_step c k s rest) (\<lambda>s'. enc_fill c k s' (drop (enc_copied k s rest) rest)))"
  by pat_completeness auto
termination
  by (relation "measure (\<lambda>(c, k, s, rest). length rest)") (auto simp: enc_copied_def)

declare enc_fill.simps [simp del]

definition enc_send_header :: "enc_setup \<Rightarrow> enc_stream \<Rightarrow> enc_outcome" where
  "enc_send_header k s =
     (if es_headerSent s then ([], Inr s) else ([ek_header k], Inr (s\<lparr>es_headerSent := True\<rparr>)))"

text \<open>The \<open>catch\<close> clause of both handlers: wipe, then report.\<close>

definition enc_catch :: "enc_outcome \<Rightarrow> enc_outcome" where
  "enc_catch r = (case r of (out, Inl (e, s)) \<Rightarrow> (out, Inl (e, enc_cleanup s)) | (out, Inr s) \<Rightarrow> (out, Inr s))"

definition enc_transform :: "node_crypto \<Rightarrow> enc_setup \<Rightarrow> enc_stream \<Rightarrow> buffer \<Rightarrow> enc_outcome" where
  "enc_transform c k s inp = enc_catch
     (let limits = ek_limits k in
      if int (length inp) > int (fmt_maxInputBytes limits) - int (es_inputBytes s)
      then ([], Inl (encryption_input_exceeds (fmt_maxInputBytes limits), s))
      else
        let prospectiveInput = es_inputBytes s + length inp in
        if dataFrameCount prospectiveInput (ek_frameSizeBytes k) > fmt_maxFrames limits
        then ([], Inl (frame_count_exceeds (fmt_maxFrames limits), s))
        else if encodedLength prospectiveInput (ek_frameSizeBytes k) > fmt_maxOutputBytes limits
        then ([], Inl (encryption_output_exceeds (fmt_maxOutputBytes limits), s))
        else then_do (enc_send_header k (s\<lparr>es_inputBytes := prospectiveInput\<rparr>)) (\<lambda>s.
          enc_fill c k s inp))"

definition enc_flush :: "node_crypto \<Rightarrow> enc_setup \<Rightarrow> enc_stream \<Rightarrow> enc_outcome" where
  "enc_flush c k s = enc_catch
     (then_do (enc_send_header k s) (\<lambda>s.
        then_do (if es_pendingBytes s > 0
                 then enc_push_data c k s (subarray (es_pending s) 0 (es_pendingBytes s))
                 else ([], Inr s)) (\<lambda>s.
          case encryptFrame c [] FINAL_FRAME (es_sequence s) (ek_algorithm k) (es_derivedKey s)
                 (ek_header k) of
            Inl e \<Rightarrow> ([], Inl (e, s))
          | Inr frame \<Rightarrow> ([frame], Inr (enc_cleanup s)))))"

text \<open>The stage driven to its end: what it pushed, and the error or the final state.\<close>

definition encryption_stream ::
  "node_crypto \<Rightarrow> buffer \<Rightarrow> encryption_options \<Rightarrow> engine_limits option \<Rightarrow> buffer list
     \<Rightarrow> px_error + (buffer list \<times> ((px_error \<times> enc_stream) + enc_stream))" where
  "encryption_stream c salt options ctx chunks =
     rbind (createEncryptionStream c salt options ctx) (\<lambda>(k, s).
       Inr (run_transform (enc_transform c k) (enc_flush c k) s chunks))"

section \<open>The copying loop does not depend on the chunks\<close>

definition enc_inv :: "enc_setup \<Rightarrow> enc_stream \<Rightarrow> bool" where
  "enc_inv k s \<longleftrightarrow> es_pendingBytes s < ek_frameSizeBytes k \<and> length (es_pending s) = ek_frameSizeBytes k"

lemma enc_fill_Nil [simp]: "enc_fill c k s [] = ([], Inr s)"
  by (simp add: enc_fill.simps)

lemma enc_fill_step:
  assumes "enc_inv k s" "rest \<noteq> []"
  shows "enc_fill c k s rest =
    then_do (enc_step c k s rest) (\<lambda>s'. enc_fill c k s' (drop (enc_copied k s rest) rest))"
  using assms by (subst enc_fill.simps) (auto simp: enc_inv_def)

lemma enc_push_data_pending:
  "enc_push_data c k s part = (out, Inr s') \<Longrightarrow>
     es_pending s' = es_pending s \<and> es_pendingBytes s' = es_pendingBytes s"
  by (auto simp: enc_push_data_def Let_def split: if_splits sum.splits)

lemma enc_step_inv:
  assumes "enc_inv k s" "enc_step c k s rest = (out, Inr s')"
  shows "enc_inv k s'"
proof -
  let ?copied = "enc_copied k s rest"
  let ?s = "s\<lparr>es_pending := buf_copy (es_pending s) (es_pendingBytes s) (take ?copied rest),
    es_pendingBytes := es_pendingBytes s + ?copied\<rparr>"
  have len: "length (es_pending ?s) = ek_frameSizeBytes k" "es_pendingBytes ?s \<le> ek_frameSizeBytes k"
    using assms(1) by (auto simp: enc_inv_def enc_copied_def buffer_simps)
  show ?thesis
  proof (cases "es_pendingBytes ?s = ek_frameSizeBytes k")
    case True
    with assms(2) obtain s1 o1 where "enc_push_data c k ?s (es_pending ?s) = (o1, Inr s1)"
      "s' = s1\<lparr>es_pending := zero_fill (es_pending s1), es_pendingBytes := 0\<rparr>"
      by (auto simp: enc_step_def Let_def then_do_eq_Inr)
    with enc_push_data_pending len(1) assms(1) show ?thesis
      by (fastforce simp: enc_inv_def)
  next
    case False
    with assms(2) have "s' = ?s" by (simp add: enc_step_def Let_def)
    with False len show ?thesis by (simp add: enc_inv_def)
  qed
qed

lemma enc_fill_bulk:
  assumes inv: "enc_inv k s" and room: "Suc (es_pendingBytes s) < ek_frameSizeBytes k" and bs: "bs \<noteq> []"
  shows "enc_fill c k s (b # bs) = then_do (enc_fill c k s [b]) (\<lambda>s'. enc_fill c k s' bs)"
proof -
  let ?s1 = "s\<lparr>es_pending := buf_copy (es_pending s) (es_pendingBytes s) [b],
    es_pendingBytes := Suc (es_pendingBytes s)\<rparr>"
  have one: "enc_copied k s [b] = 1" using room by (simp add: enc_copied_def)
  have first: "enc_fill c k s [b] = ([], Inr ?s1)"
    using room by (simp add: enc_fill_step[OF inv] enc_step_def one)
  have inv1: "enc_inv k ?s1" using inv room by (simp add: enc_inv_def buffer_simps)
  let ?m = "enc_copied k ?s1 bs"
  have m: "enc_copied k s (b # bs) = Suc ?m" using room by (simp add: enc_copied_def)
  have fits: "es_pendingBytes s + Suc ?m \<le> length (es_pending s)"
    using inv room by (simp add: enc_copied_def enc_inv_def)
  have len: "length (take ?m bs) = ?m" by (simp add: enc_copied_def)
  have "enc_step c k s (b # bs) = enc_step c k ?s1 bs"
    using fits len by (simp add: enc_step_def m buf_copy_buf_copy[of _ "[b]", simplified] Let_def)
  then show ?thesis
    unfolding first then_do_return enc_fill_step[OF inv1 bs]
    using enc_fill_step[OF inv, of "b # bs" c] by (simp add: m)
qed

lemma enc_fill_Cons:
  assumes inv: "enc_inv k s"
  shows "enc_fill c k s (b # bs) = then_do (enc_fill c k s [b]) (\<lambda>s'. enc_fill c k s' bs)"
proof (cases "Suc (es_pendingBytes s) < ek_frameSizeBytes k \<and> bs \<noteq> []")
  case True
  then show ?thesis using enc_fill_bulk[OF inv] by blast
next
  case False
  then have one: "enc_copied k s (b # bs) = 1" "enc_copied k s [b] = 1"
    using inv by (auto simp: enc_copied_def enc_inv_def)
  then have "enc_step c k s (b # bs) = enc_step c k s [b]"
    by (simp add: enc_step_def)
  then show ?thesis
    by (simp add: enc_fill_step[OF inv] one then_do_assoc)
qed

lemma enc_fill_inv: "enc_inv k s \<Longrightarrow> enc_fill c k s [b] = (out, Inr s') \<Longrightarrow> enc_inv k s'"
proof -
  assume inv: "enc_inv k s" and r: "enc_fill c k s [b] = (out, Inr s')"
  have "drop (enc_copied k s [b]) [b] = []" using inv by (simp add: enc_copied_def enc_inv_def Suc_le_eq)
  with r have "enc_step c k s [b] = (out, Inr s')" by (simp add: enc_fill_step[OF inv])
  with inv show ?thesis by (rule enc_step_inv)
qed

interpretation encryptor: incremental_stream "enc_fill c k" "enc_inv k" "enc_flush c k" for c k
  by unfold_locales (auto intro: enc_fill_Cons enc_fill_inv)

section \<open>What the stage has pushed\<close>

fun sealed_data ::
  "node_crypto \<Rightarrow> encryption_algorithm \<Rightarrow> buffer \<Rightarrow> buffer \<Rightarrow> nat \<Rightarrow> buffer list \<Rightarrow> buffer list" where
  "sealed_data c alg dk gh sequence [] = []"
| "sealed_data c alg dk gh sequence (p # ps) =
     sealed_frame c alg dk gh DATA_FRAME sequence p # sealed_data c alg dk gh (Suc sequence) ps"

lemma sealed_data_append:
  "sealed_data c alg dk gh q (ps @ qs) =
     sealed_data c alg dk gh q ps @ sealed_data c alg dk gh (q + length ps) qs"
  by (induction ps arbitrary: q) auto

lemma sealed_tail_data:
  "sealed_tail c alg dk gh q ps =
     concat (sealed_data c alg dk gh q ps) @ sealed_frame c alg dk gh FINAL_FRAME (q + length ps) []"
  by (induction ps arbitrary: q) auto

text \<open>
  \<open>ps\<close> are the full pieces that have been sealed and \<open>r\<close> the bytes that wait for a full piece.
\<close>

definition enc_at :: "enc_setup \<Rightarrow> buffer \<Rightarrow> buffer list \<Rightarrow> buffer \<Rightarrow> enc_stream \<Rightarrow> bool" where
  "enc_at k dk ps r s \<longleftrightarrow>
     (\<forall>p \<in> set ps. length p = ek_frameSizeBytes k) \<and> length r < ek_frameSizeBytes k
     \<and> es_sequence s = length ps \<and> es_dataFrames s = length ps \<and> es_derivedKey s = dk
     \<and> length (es_pending s) = ek_frameSizeBytes k
     \<and> es_pendingBytes s = length r \<and> take (length r) (es_pending s) = r"

lemma enc_at_inv: "enc_at k dk ps r s \<Longrightarrow> enc_inv k s"
  by (simp add: enc_at_def enc_inv_def)

lemma enc_at_pieces:
  assumes "enc_at k dk ps r s"
  shows "pieces (ek_frameSizeBytes k) (concat ps @ r) = ps @ (if r = [] then [] else [r])"
proof -
  let ?fs = "ek_frameSizeBytes k"
  have fs: "0 < ?fs" and r: "length r < ?fs" using assms by (auto simp: enc_at_def)
  have "\<forall>p \<in> set ps. length p = ?fs \<Longrightarrow> pieces ?fs (concat ps @ r) = ps @ (if r = [] then [] else [r])"
    using fs r by (induction ps) (auto simp: pieces_append_full pieces_last)
  with assms show ?thesis by (simp add: enc_at_def)
qed

text \<open>One byte.\<close>

lemma enc_fill_byte_room:
  assumes "enc_at k dk ps r s" "Suc (length r) < ek_frameSizeBytes k"
  shows "\<exists>s'. enc_fill c k s [b] = ([], Inr s') \<and> enc_at k dk ps (r @ [b]) s'
    \<and> es_headerSent s' = es_headerSent s \<and> es_inputBytes s' = es_inputBytes s"
proof -
  let ?s = "s\<lparr>es_pending := buf_copy (es_pending s) (es_pendingBytes s) [b],
    es_pendingBytes := Suc (es_pendingBytes s)\<rparr>"
  have "enc_copied k s [b] = 1" using assms by (simp add: enc_copied_def enc_at_def)
  then have "enc_fill c k s [b] = ([], Inr ?s)"
    using assms by (simp add: enc_fill_step[OF enc_at_inv[OF assms(1)]] enc_step_def Let_def enc_at_def)
  moreover have "enc_at k dk ps (r @ [b]) ?s"
    using assms by (simp add: enc_at_def buffer_simps)
  ultimately show ?thesis by auto
qed

lemma enc_fill_byte_full:
  assumes at: "enc_at k dk ps r s" and full: "Suc (length r) = ek_frameSizeBytes k"
    and c: "aead_lengths c" and "length ps < fmt_maxFrames (ek_limits k)"
    "length ps < 2 ^ 64" "ek_frameSizeBytes k < 2 ^ 32"
  shows "\<exists>s'. enc_fill c k s [b] =
      ([sealed_frame c (ek_algorithm k) dk (ek_header k) DATA_FRAME (length ps) (r @ [b])], Inr s')
    \<and> enc_at k dk (ps @ [r @ [b]]) [] s'
    \<and> es_headerSent s' = es_headerSent s \<and> es_inputBytes s' = es_inputBytes s"
proof -
  have len: "length (es_pending s) = Suc (length r)" "es_pendingBytes s = length r"
    "take (length r) (es_pending s) = r" and dk: "es_derivedKey s = dk"
    and q: "es_sequence s = length ps" "es_dataFrames s = length ps"
    using at full by (simp_all add: enc_at_def)
  have buf: "buf_copy (es_pending s) (length r) [b] = r @ [b]"
    using len by (simp add: buf_copy_fits)
  have "enc_copied k s [b] = 1" using full len by (simp add: enc_copied_def)
  moreover have "encryptFrame c (r @ [b]) DATA_FRAME (length ps) (ek_algorithm k) dk (ek_header k) =
      Inr (sealed_frame c (ek_algorithm k) dk (ek_header k) DATA_FRAME (length ps) (r @ [b]))"
    using assms(5,6) full by (intro encryptFrame_sealed[OF c]) simp_all
  ultimately show ?thesis
    using at full assms(4)
    by (simp add: enc_fill_step[OF enc_at_inv[OF at]] enc_step_def Let_def len buf enc_push_data_def q dk)
      (simp add: enc_at_def)
qed

text \<open>Any number of bytes: the pieces completed on the way are sealed in order.\<close>

lemma full_pieces_count:
  assumes "\<forall>p \<in> set ps. length p = fs" "0 < fs" "concat ps @ r = d"
  shows "length ps \<le> dataFrameCount (length d) fs"
proof -
  have "length (concat ps) = length ps * fs" using assms(1) by (induction ps) auto
  then have "length ps * fs \<le> length d" using assms(3) by auto
  then have "ceil_div (length ps * fs) fs \<le> ceil_div (length d) fs" by (rule ceil_div_mono)
  then show ?thesis using ceil_div_multiple[OF assms(2)] by (auto simp: dataFrameCount_def)
qed

lemma enc_fill_at:
  assumes c: "aead_lengths c" and fs: "ek_frameSizeBytes k < 2 ^ 32"
  shows "enc_at k dk ps r s \<Longrightarrow>
    dataFrameCount (length (concat ps @ r @ bs)) (ek_frameSizeBytes k) \<le> fmt_maxFrames (ek_limits k) \<Longrightarrow>
    dataFrameCount (length (concat ps @ r @ bs)) (ek_frameSizeBytes k) < 2 ^ 64 \<Longrightarrow>
    \<exists>qs r' s'. enc_fill c k s bs =
        (sealed_data c (ek_algorithm k) dk (ek_header k) (length ps) qs, Inr s')
      \<and> enc_at k dk (ps @ qs) r' s' \<and> concat qs @ r' = r @ bs
      \<and> es_headerSent s' = es_headerSent s \<and> es_inputBytes s' = es_inputBytes s"
proof (induction bs arbitrary: ps r s)
  case Nil
  then show ?case by (intro exI[of _ "[]"] exI[of _ r]) simp
next
  case (Cons b bs)
  note cons = enc_fill_Cons[OF enc_at_inv[OF Cons.prems(1)], of c b bs]
  show ?case
  proof (cases "Suc (length r) < ek_frameSizeBytes k")
    case True
    from enc_fill_byte_room[OF Cons.prems(1) True, of c b] obtain s1
      where s1: "enc_fill c k s [b] = ([], Inr s1)" "enc_at k dk ps (r @ [b]) s1"
        "es_headerSent s1 = es_headerSent s" "es_inputBytes s1 = es_inputBytes s" by auto
    from Cons.IH[OF s1(2)] Cons.prems(2,3) s1 show ?thesis by (auto simp: cons)
  next
    case False
    then have full: "Suc (length r) = ek_frameSizeBytes k"
      using Cons.prems(1) by (simp add: enc_at_def)
    have "length (ps @ [r @ [b]]) \<le> dataFrameCount (length (concat ps @ r @ b # bs)) (ek_frameSizeBytes k)"
      using Cons.prems(1) full by (intro full_pieces_count[of _ _ bs]) (auto simp: enc_at_def)
    then have count: "length ps < fmt_maxFrames (ek_limits k)" "length ps < 2 ^ 64"
      using Cons.prems(2,3) by simp_all
    from enc_fill_byte_full[OF Cons.prems(1) full c count fs, of b] obtain s1
      where s1: "enc_fill c k s [b] = ([sealed_frame c (ek_algorithm k) dk (ek_header k) DATA_FRAME (length ps) (r @ [b])], Inr s1)"
        "enc_at k dk (ps @ [r @ [b]]) [] s1"
        "es_headerSent s1 = es_headerSent s" "es_inputBytes s1 = es_inputBytes s" by blast
    from Cons.IH[OF s1(2)] Cons.prems(2,3) obtain qs r' s' where
      "enc_fill c k s1 bs = (sealed_data c (ek_algorithm k) dk (ek_header k) (Suc (length ps)) qs, Inr s')"
      "enc_at k dk (ps @ (r @ [b]) # qs) r' s'" "concat qs @ r' = bs"
      "es_headerSent s' = es_headerSent s1" "es_inputBytes s' = es_inputBytes s1" by auto
    then show ?thesis
      using s1 by (intro exI[of _ "(r @ [b]) # qs"] exI[of _ r'] exI[of _ s']) (simp add: cons)
  qed
qed

section \<open>The handlers\<close>

lemma enc_catch_Inr [simp]: "enc_catch r = (out, Inr s) \<longleftrightarrow> r = (out, Inr s)"
  by (cases r) (auto simp: enc_catch_def split: sum.splits)

lemma dataFrameCount_mono: "m \<le> n \<Longrightarrow> dataFrameCount m fs \<le> dataFrameCount n fs"
  using ceil_div_mono[of m n fs] by (auto simp: dataFrameCount_def)

lemma within_encryption_limits_mono:
  assumes "m \<le> n" "within_encryption_limits n fs limits"
  shows "within_encryption_limits m fs limits"
proof -
  have "dataFrameCount m fs \<le> dataFrameCount n fs" using assms(1) by (rule dataFrameCount_mono)
  then have "encodedLength m fs \<le> encodedLength n fs"
    using assms(1) by (simp add: encodedLength_dataFrameCount add_mono)
  with \<open>dataFrameCount m fs \<le> dataFrameCount n fs\<close> assms show ?thesis
    by (auto simp: within_encryption_limits_def)
qed

definition header_once :: "enc_setup \<Rightarrow> enc_stream \<Rightarrow> buffer list" where
  "header_once k s = (if es_headerSent s then [] else [ek_header k])"

lemma enc_send_header_eq: "enc_send_header k s = (header_once k s, Inr (s\<lparr>es_headerSent := True\<rparr>))"
  by (cases s) (simp add: enc_send_header_def header_once_def)

text \<open>The stage after the plaintext \<open>concat ps @ r\<close>.\<close>

definition enc_run_at :: "enc_setup \<Rightarrow> buffer \<Rightarrow> buffer list \<Rightarrow> buffer \<Rightarrow> enc_stream \<Rightarrow> bool" where
  "enc_run_at k dk ps r s \<longleftrightarrow> enc_at k dk ps r s \<and> es_inputBytes s = length (concat ps @ r)"

definition enc_setup_ok :: "enc_setup \<Rightarrow> nat \<Rightarrow> bool" where
  "enc_setup_ok k n \<longleftrightarrow> ek_frameSizeBytes k < 2 ^ 32
     \<and> within_encryption_limits n (ek_frameSizeBytes k) (ek_limits k)
     \<and> dataFrameCount n (ek_frameSizeBytes k) < 2 ^ 64"

lemma enc_setup_ok_mono: "m \<le> n \<Longrightarrow> enc_setup_ok k n \<Longrightarrow> enc_setup_ok k m"
  using within_encryption_limits_mono dataFrameCount_mono unfolding enc_setup_ok_def
  by (meson le_less_trans)

lemma enc_transform_at:
  assumes c: "aead_lengths c" and at: "enc_run_at k dk ps r s"
    and ok: "enc_setup_ok k (length (concat ps @ r @ inp))"
  shows "\<exists>qs r' s'. enc_transform c k s inp =
      (header_once k s @ sealed_data c (ek_algorithm k) dk (ek_header k) (length ps) qs, Inr s')
    \<and> enc_run_at k dk (ps @ qs) r' s' \<and> concat qs @ r' = r @ inp \<and> es_headerSent s'"
proof -
  let ?n = "length (concat ps @ r @ inp)"
  let ?s = "s\<lparr>es_inputBytes := ?n, es_headerSent := True\<rparr>"
  have n: "es_inputBytes s + length inp = ?n" using at by (simp add: enc_run_at_def)
  have "enc_at k dk ps r ?s" using at by (simp add: enc_run_at_def enc_at_def)
  from enc_fill_at[OF c _ this, of inp] ok obtain qs r' s' where
    fill: "enc_fill c k ?s inp = (sealed_data c (ek_algorithm k) dk (ek_header k) (length ps) qs, Inr s')"
    and s': "enc_at k dk (ps @ qs) r' s'" "concat qs @ r' = r @ inp"
      "es_headerSent s'" "es_inputBytes s' = ?n"
    by (auto simp: enc_setup_ok_def within_encryption_limits_def)
  have at': "enc_run_at k dk (ps @ qs) r' s'"
    using s' by (simp add: enc_run_at_def)
  have "then_do (enc_send_header k (s\<lparr>es_inputBytes := ?n\<rparr>)) (\<lambda>s. enc_fill c k s inp) =
      (header_once k s @ sealed_data c (ek_algorithm k) dk (ek_header k) (length ps) qs, Inr s')"
    using fill by (simp add: enc_send_header_eq header_once_def)
  moreover have "\<not> int (length inp) > int (fmt_maxInputBytes (ek_limits k)) - int (es_inputBytes s)"
    using ok n by (simp add: enc_setup_ok_def within_encryption_limits_def)
  ultimately have "enc_transform c k s inp =
      (header_once k s @ sealed_data c (ek_algorithm k) dk (ek_header k) (length ps) qs, Inr s')"
    using ok unfolding enc_transform_def Let_def n
    by (simp add: enc_setup_ok_def within_encryption_limits_def not_less)
  with at' s' show ?thesis by blast
qed

lemma enc_chunks_at:
  assumes c: "aead_lengths c"
  shows "enc_run_at k dk ps r s \<Longrightarrow> enc_setup_ok k (length (concat ps @ r @ concat cs)) \<Longrightarrow>
    \<exists>qs r' s'. run_chunks (enc_transform c k) s cs =
        ((if cs = [] then [] else header_once k s)
           @ sealed_data c (ek_algorithm k) dk (ek_header k) (length ps) qs, Inr s')
      \<and> enc_run_at k dk (ps @ qs) r' s' \<and> concat qs @ r' = r @ concat cs
      \<and> es_headerSent s' = (es_headerSent s \<or> cs \<noteq> [])"
proof (induction cs arbitrary: ps r s)
  case Nil
  then show ?case by (intro exI[of _ "[]"] exI[of _ r]) simp
next
  case (Cons i cs)
  have "enc_setup_ok k (length (concat ps @ r @ i))"
    using Cons.prems(2) by (rule enc_setup_ok_mono[rotated]) simp
  from enc_transform_at[OF c Cons.prems(1) this] obtain qs r1 s1 where
    t: "enc_transform c k s i =
      (header_once k s @ sealed_data c (ek_algorithm k) dk (ek_header k) (length ps) qs, Inr s1)"
    and s1: "enc_run_at k dk (ps @ qs) r1 s1" "concat qs @ r1 = r @ i" "es_headerSent s1" by blast
  have "concat (ps @ qs) @ r1 @ concat cs = concat ps @ (concat qs @ r1) @ concat cs"
    by simp
  also have "\<dots> = concat ps @ r @ concat (i # cs)"
    unfolding s1(2) by simp
  finally have "enc_setup_ok k (length (concat (ps @ qs) @ r1 @ concat cs))"
    using Cons.prems(2) by (simp only:)
  from Cons.IH[OF s1(1) this] s1(3) obtain qs2 r2 s2 where
    "run_chunks (enc_transform c k) s1 cs =
      (sealed_data c (ek_algorithm k) dk (ek_header k) (length (ps @ qs)) qs2, Inr s2)"
    "enc_run_at k dk ((ps @ qs) @ qs2) r2 s2" and qs2: "concat qs2 @ r2 = r1 @ concat cs" and "es_headerSent s2"
    by (auto simp: header_once_def split: if_splits)
  moreover have "concat qs @ concat qs2 @ r2 = r @ i @ concat cs"
    using s1(2) unfolding qs2 by (metis append.assoc)
  ultimately show ?case
    using t by (intro exI[of _ "qs @ qs2"] exI[of _ r2] exI[of _ s2]) (simp add: sealed_data_append)
qed

lemma enc_flush_at:
  assumes c: "aead_lengths c" and at: "enc_run_at k dk ps r s" and ok: "enc_setup_ok k (length (concat ps @ r))"
  shows "\<exists>out s'. enc_flush c k s = (out, Inr s') \<and> concat out = concat (header_once k s)
    @ sealed_tail c (ek_algorithm k) dk (ek_header k) (length ps) (if r = [] then [] else [r])"
proof -
  let ?h = "s\<lparr>es_headerSent := True\<rparr>"
  have st: "es_sequence s = length ps" "es_dataFrames s = length ps" "es_derivedKey s = dk"
    "es_pendingBytes s = length r" and r: "subarray (es_pending s) 0 (length r) = r"
    "length r < ek_frameSizeBytes k"
    using at by (auto simp: enc_run_at_def enc_at_def subarray_def)
  have "length (ps @ (if r = [] then [] else [r])) = dataFrameCount (length (concat ps @ r)) (ek_frameSizeBytes k)"
    using dataFrameCount_pieces[of "ek_frameSizeBytes k" "concat ps @ r"] r(2)
      enc_at_pieces[of k dk ps r s] at by (simp add: enc_run_at_def)
  then have n: "length ps + (if r = [] then 0 else 1) < 2 ^ 64"
    "length ps + (if r = [] then 0 else 1) \<le> fmt_maxFrames (ek_limits k)"
    using ok by (auto simp: enc_setup_ok_def within_encryption_limits_def split: if_splits)
  have frame: "encryptFrame c p ty q (ek_algorithm k) dk (ek_header k) =
      Inr (sealed_frame c (ek_algorithm k) dk (ek_header k) ty q p)"
    if "length p \<le> length r" "q \<le> length ps + (if r = [] then 0 else 1)" for p ty q
  proof (rule encryptFrame_sealed[OF c])
    show "q < 2 ^ 64" using that n by simp
    show "length p < 2 ^ 32" using that r(2) ok by (simp add: enc_setup_ok_def)
  qed
  show ?thesis
    using n frame[of r "length ps" DATA_FRAME] frame[of "[]" _ FINAL_FRAME]
    by (cases "r = []") (auto simp: enc_flush_def enc_push_data_def enc_send_header_eq st r Let_def)
qed

section \<open>Stream and buffer agree\<close>

lemma createEncryptionStream_ok:
  assumes "length salt = 16" "length (opt_key options) = 32"
    and fs: "resolveFrameSize options (limitsFor ctx) = Inr fs"
    and "encodedLength 0 fs \<le> fmt_maxOutputBytes (limitsFor ctx)"
  shows "createEncryptionStream c salt options ctx =
    Inr (\<lparr>ek_algorithm = opt_algorithm options, ek_limits = limitsFor ctx, ek_frameSizeBytes = fs,
          ek_header = buildHeader (opt_algorithm options) fs salt\<rparr>,
         \<lparr>es_pending = replicate fs 0, es_pendingBytes = 0, es_inputBytes = 0, es_dataFrames = 0,
          es_sequence = 0, es_headerSent = False,
          es_derivedKey = deriveKey c (opt_key options) (built_header (opt_algorithm options) fs salt)\<rparr>)"
  using assms resolveFrameSize_bounds[OF fs]
  by (simp add: createEncryptionStream_def assertEncryptionKey_def parse_buildHeader[OF assms(1)] Let_def)

lemma createEncryptionStream_only:
  assumes "length salt = 16" "createEncryptionStream c salt options ctx = Inr (k, s)"
  obtains fs where "length (opt_key options) = 32" "resolveFrameSize options (limitsFor ctx) = Inr fs"
    "encodedLength 0 fs \<le> fmt_maxOutputBytes (limitsFor ctx)" "ek_frameSizeBytes k = fs"
    "ek_limits k = limitsFor ctx" "es_inputBytes s = 0"
  using assms(2) unfolding createEncryptionStream_def assertEncryptionKey_def Let_def
  by (auto simp: result_simps not_less split: if_splits)

lemma enc_setup_start: "0 < fs \<Longrightarrow> enc_at \<lparr>ek_algorithm = alg, ek_limits = l, ek_frameSizeBytes = fs, ek_header = h\<rparr>
    dk [] [] \<lparr>es_pending = replicate fs 0, es_pendingBytes = 0, es_inputBytes = 0, es_dataFrames = 0,
      es_sequence = 0, es_headerSent = False, es_derivedKey = dk\<rparr>"
  by (simp add: enc_at_def)

lemma encryption_stream_sealed:
  assumes c: "aead_lengths c" and salt: "length salt = 16" and key: "length (opt_key options) = 32"
    and fs: "resolveFrameSize options (limitsFor ctx) = Inr fs"
    and lim: "within_encryption_limits (length (concat chunks)) fs (limitsFor ctx)"
      "dataFrameCount (length (concat chunks)) fs < 2 ^ 64"
  shows "\<exists>out s. encryption_stream c salt options ctx chunks = Inr (out, Inr s) \<and>
    concat out = sealed_message c (opt_key options) (opt_algorithm options) fs salt (pieces fs (concat chunks))"
proof -
  let ?alg = "opt_algorithm options" and ?h = "buildHeader (opt_algorithm options) fs salt"
  let ?dk = "deriveKey c (opt_key options) (built_header ?alg fs salt)"
  let ?k = "\<lparr>ek_algorithm = ?alg, ek_limits = limitsFor ctx, ek_frameSizeBytes = fs, ek_header = ?h\<rparr>"
  let ?s = "\<lparr>es_pending = replicate fs 0, es_pendingBytes = 0, es_inputBytes = 0, es_dataFrames = 0,
    es_sequence = 0, es_headerSent = False, es_derivedKey = ?dk\<rparr>"
  note b = resolveFrameSize_bounds[OF fs]
  have ok: "enc_setup_ok ?k (length (concat chunks))" using lim b by (simp add: enc_setup_ok_def)
  have "enc_run_at ?k ?dk [] [] ?s" using enc_setup_start[OF b(1)] by (simp add: enc_run_at_def)
  from enc_chunks_at[OF c this, of chunks] ok obtain qs r s1 where
    run: "run_chunks (enc_transform c ?k) ?s chunks =
      ((if chunks = [] then [] else [?h]) @ sealed_data c ?alg ?dk ?h 0 qs, Inr s1)"
    and at: "enc_run_at ?k ?dk qs r s1" and d: "concat qs @ r = concat chunks"
    and sent: "es_headerSent s1 = (chunks \<noteq> [])" by (auto simp: header_once_def)
  from enc_flush_at[OF c at] ok d obtain out s2 where flush: "enc_flush c ?k s1 = (out, Inr s2)"
    and out: "concat out = concat (header_once ?k s1)
      @ sealed_tail c ?alg ?dk ?h (length qs) (if r = [] then [] else [r])" by auto
  have "pieces fs (concat chunks) = qs @ (if r = [] then [] else [r])"
    using enc_at_pieces[of ?k ?dk qs r s1] at d by (simp add: enc_run_at_def)
  then have "concat (((if chunks = [] then [] else [?h]) @ sealed_data c ?alg ?dk ?h 0 qs) @ out) =
      sealed_message c (opt_key options) ?alg fs salt (pieces fs (concat chunks))"
    using sent run
    by (auto simp: out header_once_def sealed_message_def Let_def sealed_tail_data sealed_data_append)
  moreover have "encodedLength 0 fs \<le> fmt_maxOutputBytes (limitsFor ctx)"
    using within_encryption_limits_mono[OF _ lim(1), of 0] by (simp add: within_encryption_limits_def)
  ultimately show ?thesis
    using run flush
    by (auto simp: encryption_stream_def createEncryptionStream_ok[OF salt key fs] run_transform_def)
qed

text \<open>A run that is not stopped has passed the checks on everything it was given.\<close>

lemma enc_push_data_input: "enc_push_data c k s p = (out, Inr s') \<Longrightarrow> es_inputBytes s' = es_inputBytes s"
  by (auto simp: enc_push_data_def Let_def split: if_splits sum.splits)

lemma enc_step_input: "enc_step c k s rest = (out, Inr s') \<Longrightarrow> es_inputBytes s' = es_inputBytes s"
  by (auto simp: enc_step_def Let_def then_do_eq_Inr dest!: enc_push_data_input split: if_splits)

lemma enc_fill_input: "enc_fill c k s rest = (out, Inr s') \<Longrightarrow> es_inputBytes s' = es_inputBytes s"
proof (induction c k s rest arbitrary: out rule: enc_fill.induct)
  case (1 c k s rest)
  show ?case
  proof (cases "rest = [] \<or> ek_frameSizeBytes k \<le> es_pendingBytes s")
    case True
    with 1 show ?thesis by (simp add: enc_fill.simps[of c k s rest])
  next
    case False
    with 1(2) obtain s1 o1 o2 where "enc_step c k s rest = (o1, Inr s1)"
      "enc_fill c k s1 (drop (enc_copied k s rest) rest) = (o2, Inr s')"
      by (auto simp: enc_fill.simps[of c k s rest] then_do_eq_Inr)
    with 1(1)[OF False] enc_step_input show ?thesis by metis
  qed
qed

lemma enc_transform_checks:
  assumes "enc_transform c k s inp = (out, Inr s')"
  shows "es_inputBytes s' = es_inputBytes s + length inp
    \<and> within_encryption_limits (es_inputBytes s + length inp) (ek_frameSizeBytes k) (ek_limits k)"
  using assms
  by (auto simp: enc_transform_def Let_def enc_send_header_eq within_encryption_limits_def
      dest!: enc_fill_input split: if_splits prod.splits)

lemma enc_chunks_checks:
  "run_chunks (enc_transform c k) s cs = (out, Inr s') \<Longrightarrow>
   within_encryption_limits (es_inputBytes s) (ek_frameSizeBytes k) (ek_limits k) \<Longrightarrow>
     within_encryption_limits (es_inputBytes s + length (concat cs)) (ek_frameSizeBytes k) (ek_limits k)"
proof (induction cs arbitrary: s out)
  case (Cons i cs)
  from Cons.prems(1) obtain s1 o1 o2 where t: "enc_transform c k s i = (o1, Inr s1)"
    and "run_chunks (enc_transform c k) s1 cs = (o2, Inr s')" by (auto simp: then_do_eq_Inr)
  from Cons.IH[OF this(2)] enc_transform_checks[OF t] show ?case by (simp add: add.assoc)
qed simp

lemma encryption_stream_encrypts:
  assumes "aead_lengths c" "length salt = 16" "maxFrames (context_limits ctx) < 2 ^ 64"
  shows "(\<exists>out s. encryption_stream c salt options ctx chunks = Inr (out, Inr s) \<and> concat out = e) \<longleftrightarrow>
    encryptBuffer c salt (concat chunks) options ctx = Inr e"
proof
  assume "encryptBuffer c salt (concat chunks) options ctx = Inr e"
  from encryptBuffer_only[OF assms(1,2) this] obtain fs where "length (opt_key options) = 32"
    "resolveFrameSize options (limitsFor ctx) = Inr fs"
    "within_encryption_limits (length (concat chunks)) fs (limitsFor ctx)"
    "dataFrameCount (length (concat chunks)) fs < 2 ^ 64"
    "e = sealed_message c (opt_key options) (opt_algorithm options) fs salt (pieces fs (concat chunks))" .
  with encryption_stream_sealed[OF assms(1,2)] show
    "\<exists>out s. encryption_stream c salt options ctx chunks = Inr (out, Inr s) \<and> concat out = e" by simp
next
  assume "\<exists>out s. encryption_stream c salt options ctx chunks = Inr (out, Inr s) \<and> concat out = e"
  then obtain out s where r: "encryption_stream c salt options ctx chunks = Inr (out, Inr s)"
    and e: "concat out = e" by blast
  from r obtain k s0 where start: "createEncryptionStream c salt options ctx = Inr (k, s0)"
    and run: "run_transform (enc_transform c k) (enc_flush c k) s0 chunks = (out, Inr s)"
    by (auto simp: encryption_stream_def result_simps)
  from createEncryptionStream_only[OF assms(2) start] obtain fs where key: "length (opt_key options) = 32"
    and fs: "resolveFrameSize options (limitsFor ctx) = Inr fs"
    and k: "ek_frameSizeBytes k = fs" "ek_limits k = limitsFor ctx" "es_inputBytes s0 = 0"
    and "encodedLength 0 fs \<le> fmt_maxOutputBytes (limitsFor ctx)" .
  then have "within_encryption_limits (es_inputBytes s0) (ek_frameSizeBytes k) (ek_limits k)"
    by (simp add: within_encryption_limits_def dataFrameCount_def)
  with enc_chunks_checks run k have lim: "within_encryption_limits (length (concat chunks)) fs (limitsFor ctx)"
    by (fastforce simp: run_transform_def then_do_eq_Inr)
  then have count: "dataFrameCount (length (concat chunks)) fs < 2 ^ 64"
    using assms(3) by (simp add: within_encryption_limits_def limitsFor_def)
  from encryption_stream_sealed[OF assms(1,2) key fs lim count]
    encryptBuffer_seals[OF assms(1,2) key fs lim count] r e
  show "encryptBuffer c salt (concat chunks) options ctx = Inr e" by auto
qed

text \<open>C4: The encryption stream ends without an error, having pushed the bytes \<open>e\<close>, exactly when
  \<open>encryptBuffer\<close> returns \<open>e\<close> for the concatenation of the chunks (and the same salt): the cut into
  chunks decides neither success nor the bytes.\<close>

theorem encryption_stream_is_encryptBuffer:
  assumes "aead_lengths c" "length salt = 16" "maxFrames (context_limits ctx) < 2 ^ 64"
  shows "(\<exists>out s. encryption_stream c salt options ctx chunks = Inr (out, Inr s) \<and> concat out = e) \<longleftrightarrow>
    encryptBuffer c salt (concat chunks) options ctx = Inr e"
  by (rule encryption_stream_encrypts[OF assms])

theorem encryption_stream_is_encryptBuffer_witness:
  "\<exists>out s. encryption_stream toy_crypto (replicate 16 9) example_options None [[1], [], [2, 3, 4, 5]]
       = Inr (out, Inr s)
     \<and> encryptBuffer toy_crypto (replicate 16 9) [1, 2, 3, 4, 5] example_options None = Inr (concat out)"
proof -
  have e: "encryptBuffer toy_crypto (replicate 16 9) (concat [[1], [], [2, 3, 4, 5]]) example_options None =
      Inr (sealed_message toy_crypto (replicate 32 7) Aes256Gcm 4 (replicate 16 9) (pieces 4 [1, 2, 3, 4, 5]))"
    using example_encrypts by simp
  have m: "maxFrames (context_limits None) < 2 ^ 64" "length (replicate 16 9) = 16"
    by (simp_all add: context_limits_def DEFAULT_LIMITS_def)
  from iffD2[OF encryption_stream_is_encryptBuffer[OF toy_crypto_ok(1) m(2,1)] e] show ?thesis
    unfolding example_encrypts by (metis (no_types))
qed

section \<open>Secrets are wiped\<close>

definition enc_wiped :: "enc_stream \<Rightarrow> bool" where
  "enc_wiped s \<longleftrightarrow> set (es_pending s) \<subseteq> {0} \<and> set (es_derivedKey s) \<subseteq> {0}"

lemma enc_wiped_cleanup: "enc_wiped (enc_cleanup s)"
  using set_zero_fill by (simp add: enc_wiped_def enc_cleanup_def)

lemma enc_catch_wiped: "enc_catch r = (out, Inl (e, s)) \<Longrightarrow> enc_wiped s"
  by (cases r) (auto simp: enc_catch_def enc_wiped_cleanup split: sum.splits prod.splits)

text \<open>However the encryption stream ends, by an error in any handler or by the final frame, the
  buffer of pending plaintext and the derived key it leaves behind hold zeros only.\<close>

theorem encryption_stream_wipes:
  assumes "encryption_stream c salt options ctx chunks = Inr (out, r)"
  shows "enc_wiped (case r of Inl (e, s) \<Rightarrow> s | Inr s \<Rightarrow> s)"
proof -
  from assms obtain k s0 where run:
    "then_do (run_chunks (enc_transform c k) s0 chunks) (enc_flush c k) = (out, r)"
    by (auto simp: encryption_stream_def run_transform_def result_simps)
  show ?thesis
  proof (cases r)
    case (Inl a)
    obtain e s where a: "a = (e, s)" by (cases a)
    from run Inl a consider out1 s1 i where "enc_transform c k s1 i = (out1, Inl (e, s))"
      | out1 s1 where "enc_flush c k s1 = (out1, Inl (e, s))"
      by (auto simp: then_do_eq_Inl dest: run_chunks_error)
    then have "enc_wiped s"
      by cases (auto simp: enc_transform_def enc_flush_def dest: enc_catch_wiped)
    with Inl a show ?thesis by simp
  next
    case (Inr s)
    with run obtain out1 s1 where "enc_flush c k s1 = (out1, Inr s)" by (auto simp: then_do_eq_Inr)
    then obtain s2 o2 where "(case encryptFrame c [] FINAL_FRAME (es_sequence s2) (ek_algorithm k)
          (es_derivedKey s2) (ek_header k) of
        Inl e \<Rightarrow> ([], Inl (e, s2)) | Inr frame \<Rightarrow> ([frame], Inr (enc_cleanup s2))) = (o2, Inr s)"
      unfolding enc_flush_def enc_catch_Inr then_do_eq_Inr by blast
    then have "\<exists>s2. s = enc_cleanup s2"
      by (auto split: sum.split_asm)
    with Inr show ?thesis by (auto simp: enc_wiped_cleanup)
  qed
qed

theorem encryption_stream_wipes_witness:
  "\<exists>out s. encryption_stream toy_crypto (replicate 16 9) example_options None [[1, 2, 3, 4, 5]]
     = Inr (out, Inr s) \<and> enc_wiped s"
proof -
  obtain out s where
    r: "encryption_stream toy_crypto (replicate 16 9) example_options None [[1, 2, 3, 4, 5]] = Inr (out, Inr s)"
    using encryption_stream_sealed[OF toy_crypto_ok(1) _ _ example_frame_size, of "replicate 16 9" "[[1, 2, 3, 4, 5]]"]
    by (auto simp: within_encryption_limits_def limitsFor_default encodedLength_dataFrameCount
        format_constants example_count example_options_simps)
  from encryption_stream_wipes[OF r] r show ?thesis by auto
qed

end
