(* ===== verification/Decryption_Stream.thy ===== *)
theory Decryption_Stream
  imports Encryption_Stream
begin

text \<open>
  \<open>createDecryptionStream\<close> of \<open>src/plugin/encryptionFormat.ts\<close>: the closure variables as the record
  \<open>dec_stream\<close>, the iteration of \<open>consumeFramed\<close> with its three copying phases, the two handlers and
  \<open>cleanup\<close>.  \<open>parsedHeader.bytes\<close> and its salt are views of \<open>globalHeader\<close>; nothing writes that buffer
  between parsing and \<open>cleanup\<close>, and nothing reads the views after it, so the parsed header is a value
  here.
\<close>

section \<open>The stage\<close>

datatype stream_format = FormatUnknown | FormatFramed | FormatLegacy

record dec_stream =
  ds_format :: stream_format
  ds_totalInput :: nat
  ds_totalOutput :: nat
  ds_globalHeader :: buffer
  ds_globalHeaderBytes :: nat
  ds_parsedHeader :: "parsed_header option"
  ds_derivedKey :: "buffer option"
  ds_frameHeader :: buffer
  ds_frameHeaderBytes :: nat
  ds_frameBody :: "buffer option"
  ds_frameBodyBytes :: nat
  ds_expectedSequence :: nat
  ds_dataFrames :: nat
  ds_finalSeen :: bool
  ds_legacyChunks :: "buffer list"

definition new_dec_stream :: dec_stream where
  "new_dec_stream = \<lparr>ds_format = FormatUnknown, ds_totalInput = 0, ds_totalOutput = 0,
     ds_globalHeader = replicate GLOBAL_HEADER_LENGTH 0, ds_globalHeaderBytes = 0,
     ds_parsedHeader = None, ds_derivedKey = None,
     ds_frameHeader = replicate FRAME_HEADER_LENGTH 0, ds_frameHeaderBytes = 0,
     ds_frameBody = None, ds_frameBodyBytes = 0,
     ds_expectedSequence = 0, ds_dataFrames = 0, ds_finalSeen = False, ds_legacyChunks = []\<rparr>"

text \<open>A handler's outcome carries the state also with an error; an iteration carries the rest of the
  input as well.\<close>

type_synonym dec_outcome = "(dec_stream, buffer, px_error \<times> dec_stream) outcome"
type_synonym dec_phase = "(dec_stream \<times> buffer, buffer, px_error \<times> dec_stream) outcome"

definition dec_cleanup :: "dec_stream \<Rightarrow> dec_stream" where
  "dec_cleanup s = s\<lparr>
     ds_derivedKey := map_option zero_fill (ds_derivedKey s),
     ds_frameBody := map_option zero_fill (ds_frameBody s),
     ds_globalHeader := zero_fill (ds_globalHeader s),
     ds_frameHeader := zero_fill (ds_frameHeader s),
     ds_legacyChunks := []\<rparr>"

definition dec_global ::
  "node_crypto \<Rightarrow> encryption_options \<Rightarrow> format_limits \<Rightarrow> dec_stream \<Rightarrow> buffer \<Rightarrow> dec_phase" where
  "dec_global c options limits s rest =
     (let (header, n, rest) = fill_from (ds_globalHeader s) (ds_globalHeaderBytes s) rest;
          s = s\<lparr>ds_globalHeader := header, ds_globalHeaderBytes := n\<rparr>
      in if n = GLOBAL_HEADER_LENGTH
         then case parseHeader header limits of
                Inl e \<Rightarrow> ([], Inl (e, s))
              | Inr parsed \<Rightarrow> ([], Inr (s\<lparr>ds_parsedHeader := Some parsed,
                  ds_derivedKey := Some (deriveKey c (opt_key options) parsed)\<rparr>, rest))
         else ([], Inr (s, rest)))"

definition dec_header :: "format_limits \<Rightarrow> parsed_header \<Rightarrow> dec_stream \<Rightarrow> buffer \<Rightarrow> dec_phase" where
  "dec_header limits parsed s rest =
     (let (header, n, rest) = fill_from (ds_frameHeader s) (ds_frameHeaderBytes s) rest;
          s = s\<lparr>ds_frameHeader := header, ds_frameHeaderBytes := n\<rparr>
      in if n < FRAME_HEADER_LENGTH then ([], Inr (s, rest))
         else case check_frame_header limits (hd_frameSizeBytes parsed) (ds_expectedSequence s)
                     (ds_dataFrames s) (ds_totalOutput s) header of
                Inl e \<Rightarrow> ([], Inl (e, s))
              | Inr _ \<Rightarrow> ([], Inr (s\<lparr>
                  ds_frameBody := Some (replicate (read_be 4 header 9 + TAG_LENGTH) 0),
                  ds_frameBodyBytes := 0\<rparr>, rest)))"

definition type_error_undefined :: px_error where
  "type_error_undefined = JsTypeError ''Cannot read properties of undefined''"

definition dec_body :: "node_crypto \<Rightarrow> parsed_header \<Rightarrow> dec_stream \<Rightarrow> buffer \<Rightarrow> dec_phase" where
  "dec_body c parsed s rest =
     (case (ds_frameBody s, ds_derivedKey s) of
        (Some body, Some derivedKey) \<Rightarrow>
          (let (body, n, rest) = fill_from body (ds_frameBodyBytes s) rest;
               s = s\<lparr>ds_frameBody := Some body, ds_frameBodyBytes := n\<rparr>
           in if n < length body then ([], Inr (s, rest))
              else
                let ty = read_be 1 (ds_frameHeader s) 0;
                    sequence = read_be 8 (ds_frameHeader s) 1;
                    ciphertextBytes = read_be 4 (ds_frameHeader s) 9 in
                case decryptFrame c (take ciphertextBytes body) (drop ciphertextBytes body)
                       (ds_frameHeader s) sequence (hd_algorithm parsed) derivedKey (hd_bytes parsed) of
                  Inl e \<Rightarrow> ([], Inl (e, s))
                | Inr restored \<Rightarrow>
                    let s1 = (if ty = FINAL_FRAME then s\<lparr>ds_finalSeen := True\<rparr>
                              else s\<lparr>ds_dataFrames := ds_dataFrames s + 1,
                                     ds_totalOutput := ds_totalOutput s + length restored\<rparr>)
                    in (if ty = FINAL_FRAME then [] else [restored],
                        Inr (s1\<lparr>ds_expectedSequence := ds_expectedSequence s + 1,
                                ds_frameBody := None, ds_frameBodyBytes := 0,
                                ds_frameHeader := zero_fill (ds_frameHeader s),
                                ds_frameHeaderBytes := 0\<rparr>, rest)))
      | _ \<Rightarrow> ([], Inl (type_error_undefined, s)))"

text \<open>One iteration of the loop of \<open>consumeFramed\<close>.\<close>

definition dec_step ::
  "node_crypto \<Rightarrow> encryption_options \<Rightarrow> format_limits \<Rightarrow> dec_stream \<Rightarrow> buffer \<Rightarrow> dec_phase" where
  "dec_step c options limits s rest =
     (if ds_finalSeen s
      then ([], Inl (decryption_failed ''trailing data after final frame'', s))
      else
        case ds_parsedHeader s of
          None \<Rightarrow> dec_global c options limits s rest
        | Some parsed \<Rightarrow>
            then_do (if ds_frameHeaderBytes s < FRAME_HEADER_LENGTH
                     then dec_header limits parsed s rest else ([], Inr (s, rest)))
              (\<lambda>(s, rest). if ds_frameHeaderBytes s < FRAME_HEADER_LENGTH then ([], Inr (s, rest))
                           else dec_body c parsed s rest))"

text \<open>
  A buffer that is being filled has room.  The loop keeps this (lemma \<open>dec_loop_inv\<close>), so every
  iteration consumes input; testing it below only makes the recursion total.
\<close>

definition dec_room :: "dec_stream \<Rightarrow> bool" where
  "dec_room s \<longleftrightarrow>
     (ds_parsedHeader s = None \<longrightarrow> ds_globalHeaderBytes s < length (ds_globalHeader s))
     \<and> (ds_frameHeaderBytes s < FRAME_HEADER_LENGTH \<longrightarrow> length (ds_frameHeader s) = FRAME_HEADER_LENGTH)
     \<and> (\<forall>body. ds_frameBody s = Some body \<longrightarrow> ds_frameBodyBytes s < length body)"

lemma dec_body_rest:
  "dec_body c parsed s rest = (out, Inr (s', rest')) \<Longrightarrow> length rest' \<le> length rest"
  "dec_body c parsed s rest = (out, Inr (s', rest')) \<Longrightarrow> dec_room s \<Longrightarrow> rest \<noteq> [] \<Longrightarrow>
     length rest' < length rest"
  by (auto simp: dec_body_def dec_room_def Let_def split: option.splits prod.splits sum.splits if_splits
      dest: fill_from_rest)

lemma dec_header_rest:
  "dec_header limits parsed s rest = (out, Inr (s', rest')) \<Longrightarrow> dec_room s \<Longrightarrow>
     ds_frameHeaderBytes s < FRAME_HEADER_LENGTH \<Longrightarrow> rest \<noteq> [] \<Longrightarrow> length rest' < length rest"
  by (auto simp: dec_header_def dec_room_def Let_def split: prod.splits sum.splits if_splits
      dest: fill_from_rest)

lemma dec_step_progress:
  assumes "dec_step c options limits s rest = (out, Inr (s', rest'))" "dec_room s" "rest \<noteq> []"
  shows "length rest' < length rest"
proof (cases "ds_parsedHeader s")
  case None
  with assms show ?thesis
    by (auto simp: dec_step_def dec_global_def dec_room_def Let_def
        split: prod.splits sum.splits if_splits dest: fill_from_rest)
next
  case (Some parsed)
  with assms show ?thesis
    by (fastforce simp: dec_step_def then_do_eq_Inr split: if_splits
        dest: dec_header_rest dec_body_rest)
qed

function dec_loop ::
  "node_crypto \<Rightarrow> encryption_options \<Rightarrow> format_limits \<Rightarrow> dec_stream \<Rightarrow> buffer \<Rightarrow> dec_outcome" where
  "dec_loop c options limits s rest =
     (if rest = [] \<or> \<not> dec_room s then ([], Inr s)
      else then_do (dec_step c options limits s rest) (\<lambda>sr. dec_loop c options limits (fst sr) (snd sr)))"
  by pat_completeness auto
termination
  by (relation "measure (\<lambda>(c, options, limits, s, rest). length rest)") (auto dest: dec_step_progress)

declare dec_loop.simps [simp del]

text \<open>The \<open>catch\<close> clause of both handlers.\<close>

definition dec_catch :: "dec_outcome \<Rightarrow> dec_outcome" where
  "dec_catch r = (case r of (out, Inl (e, s)) \<Rightarrow> (out, Inl (e, dec_cleanup s)) | (out, Inr s) \<Rightarrow> (out, Inr s))"

definition dec_transform ::
  "node_crypto \<Rightarrow> encryption_options \<Rightarrow> format_limits \<Rightarrow> dec_stream \<Rightarrow> buffer \<Rightarrow> dec_outcome" where
  "dec_transform c options limits s inp = dec_catch
     (if int (length inp) > int (fmt_maxInputBytes limits) - int (ds_totalInput s)
      then ([], Inl (decryption_input_exceeds (fmt_maxInputBytes limits), s))
      else
        let s = s\<lparr>ds_totalInput := ds_totalInput s + length inp\<rparr> in
        if length inp = 0 then ([], Inr s)
        else
          let unknown = (ds_format s = FormatUnknown);
              s = (if unknown
                   then s\<lparr>ds_format := (if read_be 1 inp 0 = read_be 1 MAGIC 0
                                        then FormatFramed else FormatLegacy)\<rparr>
                   else s) in
          if unknown \<and> ds_format s = FormatLegacy \<and> opt_allowLegacyDecrypt options = Some False
          then ([], Inl (decryption_failed ''legacy format disabled'', s))
          else if ds_format s = FormatLegacy
          then ([], Inr (s\<lparr>ds_legacyChunks := ds_legacyChunks s @ [inp]\<rparr>))
          else dec_loop c options limits s inp)"

definition dec_flush ::
  "node_crypto \<Rightarrow> encryption_options \<Rightarrow> format_limits \<Rightarrow> dec_stream \<Rightarrow> dec_outcome" where
  "dec_flush c options limits s = dec_catch
     (if ds_format s = FormatLegacy
      then case decryptLegacy c (buf_concat (ds_legacyChunks s) (ds_totalInput s)) (opt_key options) limits of
             Inl e \<Rightarrow> ([], Inl (e, s))
           | Inr restored \<Rightarrow> ([restored], Inr (dec_cleanup s))
      else if ds_format s \<noteq> FormatFramed \<or> ds_parsedHeader s = None \<or> ds_frameHeaderBytes s \<noteq> 0
        \<or> ds_frameBody s \<noteq> None
      then ([], Inl (decryption_failed ''incomplete encrypted stream'', s))
      else if \<not> ds_finalSeen s
      then ([], Inl (decryption_failed ''missing authenticated final frame'', s))
      else ([], Inr (dec_cleanup s)))"

definition createDecryptionStream ::
  "encryption_options \<Rightarrow> engine_limits option \<Rightarrow> px_error + (format_limits \<times> dec_stream)" where
  "createDecryptionStream options ctx =
     rbind (assertEncryptionKey (opt_key options)) (\<lambda>_. Inr (limitsFor ctx, new_dec_stream))"

definition decryption_stream ::
  "node_crypto \<Rightarrow> encryption_options \<Rightarrow> engine_limits option \<Rightarrow> buffer list
     \<Rightarrow> px_error + (buffer list \<times> ((px_error \<times> dec_stream) + dec_stream))" where
  "decryption_stream c options ctx chunks =
     rbind (createDecryptionStream options ctx) (\<lambda>(limits, s).
       Inr (run_transform (dec_transform c options limits) (dec_flush c options limits) s chunks))"

section \<open>The loop does not depend on the chunks\<close>

definition dec_inv :: "dec_stream \<Rightarrow> bool" where
  "dec_inv s \<longleftrightarrow>
     length (ds_globalHeader s) = GLOBAL_HEADER_LENGTH
     \<and> length (ds_frameHeader s) = FRAME_HEADER_LENGTH
     \<and> ds_frameHeaderBytes s \<le> FRAME_HEADER_LENGTH
     \<and> (ds_parsedHeader s = None \<longrightarrow>
          ds_globalHeaderBytes s < GLOBAL_HEADER_LENGTH \<and> ds_frameHeaderBytes s = 0)
     \<and> (ds_parsedHeader s \<noteq> None \<longrightarrow> ds_derivedKey s \<noteq> None)
     \<and> (ds_frameHeaderBytes s < FRAME_HEADER_LENGTH \<longrightarrow> ds_frameBody s = None)
     \<and> (ds_frameHeaderBytes s = FRAME_HEADER_LENGTH \<longrightarrow>
          (\<exists>body. ds_frameBody s = Some body \<and> ds_frameBodyBytes s < length body))"

lemma dec_inv_room: "dec_inv s \<Longrightarrow> dec_room s"
  unfolding dec_inv_def dec_room_def by (cases "ds_frameHeaderBytes s < FRAME_HEADER_LENGTH") auto

lemma dec_inv_new: "dec_inv new_dec_stream"
  by (simp add: dec_inv_def new_dec_stream_def format_constants)

text \<open>The phase of the next iteration is the same.\<close>

definition same_phase :: "dec_stream \<Rightarrow> dec_stream \<Rightarrow> bool" where
  "same_phase s s1 \<longleftrightarrow> ds_parsedHeader s1 = ds_parsedHeader s \<and> ds_finalSeen s1 = ds_finalSeen s
     \<and> (ds_frameHeaderBytes s1 < FRAME_HEADER_LENGTH \<longleftrightarrow> ds_frameHeaderBytes s < FRAME_HEADER_LENGTH)"

text \<open>A phase that is given its input byte by byte.\<close>

definition bytewise :: "(dec_stream \<Rightarrow> buffer \<Rightarrow> dec_phase) \<Rightarrow> dec_stream \<Rightarrow> byte \<Rightarrow> buffer \<Rightarrow> bool" where
  "bytewise ph s b bs \<longleftrightarrow>
     ph s (b # bs) = then_do (ph s [b]) (\<lambda>(s', rest'). ([], Inr (s', bs)))
     \<or> (\<exists>s1. same_phase s s1 \<and> ph s [b] = ([], Inr (s1, [])) \<and> ph s (b # bs) = ph s1 bs \<and> ph s1 [] = ([], Inr (s1, [])))"

lemma dec_global_bytewise:
  assumes "dec_inv s" "ds_parsedHeader s = None"
  shows "bytewise (dec_global c options limits) s b bs"
proof (cases "Suc (ds_globalHeaderBytes s) = GLOBAL_HEADER_LENGTH")
  case True
  then have "Suc (ds_globalHeaderBytes s) = length (ds_globalHeader s)"
    using assms by (simp add: dec_inv_def)
  from fill_from_last[OF this] show ?thesis
    unfolding bytewise_def dec_global_def by (auto simp: Let_def split: sum.split)
next
  case False
  then have room: "Suc (ds_globalHeaderBytes s) < length (ds_globalHeader s)"
    using assms by (simp add: dec_inv_def)
  let ?s1 = "s\<lparr>ds_globalHeader := buf_copy (ds_globalHeader s) (ds_globalHeaderBytes s) [b],
    ds_globalHeaderBytes := Suc (ds_globalHeaderBytes s)\<rparr>"
  have "dec_global c options limits s [b] = ([], Inr (?s1, []))"
    using room False by (simp add: dec_global_def fill_from_one Let_def)
  moreover have "dec_global c options limits s (b # bs) = dec_global c options limits ?s1 bs"
    using room by (simp add: dec_global_def fill_from_more)
  moreover have "dec_global c options limits ?s1 [] = ([], Inr (?s1, []))"
    using room False by (simp add: dec_global_def fill_from_Nil length_buf_copy Let_def)
  moreover have "same_phase s ?s1"
    by (simp add: same_phase_def)
  ultimately show ?thesis unfolding bytewise_def by blast
qed

lemma dec_header_bytewise:
  assumes "dec_inv s" "ds_frameHeaderBytes s < FRAME_HEADER_LENGTH"
  shows "bytewise (dec_header limits parsed) s b bs"
proof (cases "Suc (ds_frameHeaderBytes s) = FRAME_HEADER_LENGTH")
  case True
  then have "Suc (ds_frameHeaderBytes s) = length (ds_frameHeader s)"
    using assms by (simp add: dec_inv_def)
  from fill_from_last[OF this] show ?thesis
    unfolding bytewise_def dec_header_def by (auto simp: Let_def split: sum.split)
next
  case False
  then have room: "Suc (ds_frameHeaderBytes s) < length (ds_frameHeader s)"
    and len: "length (ds_frameHeader s) = FRAME_HEADER_LENGTH"
    using assms by (simp_all add: dec_inv_def)
  let ?s1 = "s\<lparr>ds_frameHeader := buf_copy (ds_frameHeader s) (ds_frameHeaderBytes s) [b],
    ds_frameHeaderBytes := Suc (ds_frameHeaderBytes s)\<rparr>"
  have "dec_header limits parsed s [b] = ([], Inr (?s1, []))"
    using room len by (simp add: dec_header_def fill_from_one Let_def)
  moreover have "dec_header limits parsed s (b # bs) = dec_header limits parsed ?s1 bs"
    using room by (simp add: dec_header_def fill_from_more)
  moreover have "dec_header limits parsed ?s1 [] = ([], Inr (?s1, []))"
    using room len by (simp add: dec_header_def fill_from_Nil length_buf_copy Let_def)
  moreover have "same_phase s ?s1"
    using room len by (simp add: same_phase_def)
  ultimately show ?thesis unfolding bytewise_def by blast
qed

lemma dec_body_bytewise:
  assumes "ds_frameBody s = Some body" "ds_frameBodyBytes s < length body" "ds_derivedKey s = Some dk"
  shows "bytewise (dec_body c parsed) s b bs"
proof (cases "Suc (ds_frameBodyBytes s) = length body")
  case True
  then show ?thesis
    using assms unfolding bytewise_def dec_body_def
    by (auto simp: Let_def fill_from_last[OF True] length_buf_copy split: sum.split)
next
  case False
  with assms have room: "Suc (ds_frameBodyBytes s) < length body" by simp
  let ?s1 = "s\<lparr>ds_frameBody := Some (buf_copy body (ds_frameBodyBytes s) [b]),
    ds_frameBodyBytes := Suc (ds_frameBodyBytes s)\<rparr>"
  have "dec_body c parsed s [b] = ([], Inr (?s1, []))"
    using assms room by (simp add: dec_body_def fill_from_one Let_def length_buf_copy)
  moreover have "dec_body c parsed s (b # bs) = dec_body c parsed ?s1 bs"
    using assms room by (simp add: dec_body_def fill_from_more)
  moreover have "dec_body c parsed ?s1 [] = ([], Inr (?s1, []))"
    using assms room by (simp add: dec_body_def fill_from_Nil length_buf_copy Let_def)
  moreover have "same_phase s ?s1"
    by (simp add: same_phase_def)
  ultimately show ?thesis unfolding bytewise_def by blast
qed

text \<open>The phase that an iteration starts with.\<close>

definition phase_at ::
  "node_crypto \<Rightarrow> encryption_options \<Rightarrow> format_limits \<Rightarrow> dec_stream \<Rightarrow> dec_stream \<Rightarrow> buffer \<Rightarrow> dec_phase" where
  "phase_at c options limits s =
     (case ds_parsedHeader s of
        None \<Rightarrow> dec_global c options limits
      | Some parsed \<Rightarrow>
          if ds_frameHeaderBytes s < FRAME_HEADER_LENGTH then dec_header limits parsed
          else dec_body c parsed)"

lemma dec_global_inv:
  assumes "dec_inv s" "ds_parsedHeader s = None" "dec_global c options limits s rest = (out, Inr (s', rest'))"
  shows "dec_inv s' \<and> ds_finalSeen s' = ds_finalSeen s"
proof -
  obtain h n r where f: "fill_from (ds_globalHeader s) (ds_globalHeaderBytes s) rest = (h, n, r)"
    by (metis prod_cases3)
  with assms(1,2) have "length h = GLOBAL_HEADER_LENGTH" "n \<le> GLOBAL_HEADER_LENGTH"
    using fill_from_length[OF _ f] by (auto simp: dec_inv_def)
  with assms show ?thesis
    by (auto simp: dec_global_def f Let_def dec_inv_def format_constants split: if_splits sum.splits)
qed

lemma dec_header_inv:
  assumes "dec_inv s" "ds_frameHeaderBytes s < FRAME_HEADER_LENGTH" "ds_parsedHeader s \<noteq> None"
    "dec_header limits parsed s rest = (out, Inr (s', rest'))"
  shows "dec_inv s' \<and> ds_parsedHeader s' = ds_parsedHeader s \<and> ds_finalSeen s' = ds_finalSeen s"
proof -
  obtain h n r where f: "fill_from (ds_frameHeader s) (ds_frameHeaderBytes s) rest = (h, n, r)"
    by (metis prod_cases3)
  with assms(1,2) have "length h = FRAME_HEADER_LENGTH" "n \<le> FRAME_HEADER_LENGTH"
    using fill_from_length[OF _ f] by (auto simp: dec_inv_def)
  with assms show ?thesis
    by (auto simp: dec_header_def f Let_def dec_inv_def format_constants split: if_splits sum.splits)
qed

lemma dec_body_inv:
  assumes "dec_inv s" "ds_frameHeaderBytes s = FRAME_HEADER_LENGTH"
    "dec_body c parsed s rest = (out, Inr (s', rest'))"
  shows "dec_inv s'"
proof -
  obtain body dk where b: "ds_frameBody s = Some body" "ds_frameBodyBytes s < length body"
    and dk: "ds_derivedKey s = Some dk"
    using assms by (auto simp: dec_inv_def format_constants)
  obtain h n r where f: "fill_from body (ds_frameBodyBytes s) rest = (h, n, r)"
    by (metis prod_cases3)
  then have "length h = length body" using fill_from_length[OF _ f] b by auto
  with assms b dk f show ?thesis
    by (auto simp: dec_body_def Let_def dec_inv_def format_constants split: if_splits sum.splits)
qed

lemma phase_at_inv:
  assumes "dec_inv s" "phase_at c options limits s s rest = (out, Inr (s', rest'))"
  shows "dec_inv s'"
proof (cases "ds_parsedHeader s")
  case None
  with assms show ?thesis using dec_global_inv by (auto simp: phase_at_def)
next
  case (Some parsed)
  show ?thesis
  proof (cases "ds_frameHeaderBytes s < FRAME_HEADER_LENGTH")
    case True
    with assms Some show ?thesis
      using dec_header_inv[OF assms(1) True, of limits parsed] by (simp add: phase_at_def)
  next
    case False
    with assms(1) have "ds_frameHeaderBytes s = FRAME_HEADER_LENGTH" by (simp add: dec_inv_def)
    with assms Some False show ?thesis
      using dec_body_inv[OF assms(1)] by (simp add: phase_at_def)
  qed
qed

lemma dec_loop_Nil [simp]: "dec_loop c options limits s [] = ([], Inr s)"
  by (simp add: dec_loop.simps)

lemma dec_loop_step:
  assumes "dec_inv s" "rest \<noteq> []"
  shows "dec_loop c options limits s rest =
    then_do (dec_step c options limits s rest) (\<lambda>sr. dec_loop c options limits (fst sr) (snd sr))"
  using assms by (subst dec_loop.simps) (simp add: dec_inv_room)

lemma dec_body_Nil:
  assumes "dec_inv s" "ds_frameHeaderBytes s = FRAME_HEADER_LENGTH" "ds_parsedHeader s = Some parsed"
  shows "dec_body c parsed s [] = ([], Inr (s, []))"
proof -
  obtain body dk where "ds_frameBody s = Some body" "ds_frameBodyBytes s < length body"
    "ds_derivedKey s = Some dk"
    using assms by (auto simp: dec_inv_def format_constants)
  then show ?thesis by (simp add: dec_body_def fill_from_Nil Let_def)
qed

lemma dec_loop_phase:
  assumes inv: "dec_inv s" and live: "\<not> ds_finalSeen s" and rest: "rest \<noteq> []"
  shows "dec_loop c options limits s rest =
    then_do (phase_at c options limits s s rest) (\<lambda>sr. dec_loop c options limits (fst sr) (snd sr))"
proof (cases "ds_parsedHeader s")
  case None
  then show ?thesis
    using live by (simp add: dec_loop_step[OF inv rest] dec_step_def phase_at_def)
next
  case (Some parsed)
  have body: "dec_loop c options limits s1 r1 =
      then_do (dec_body c parsed s1 r1) (\<lambda>sr. dec_loop c options limits (fst sr) (snd sr))"
    if "dec_inv s1" "\<not> ds_finalSeen s1" "ds_parsedHeader s1 = Some parsed"
      "ds_frameHeaderBytes s1 = FRAME_HEADER_LENGTH" for s1 r1
    using that by (cases "r1 = []") (simp_all add: dec_loop_step dec_step_def dec_body_Nil)
  show ?thesis
  proof (cases "ds_frameHeaderBytes s < FRAME_HEADER_LENGTH")
    case False
    with inv have "ds_frameHeaderBytes s = FRAME_HEADER_LENGTH" by (simp add: dec_inv_def)
    with body[OF inv live Some this] Some show ?thesis by (simp add: phase_at_def)
  next
    case True
    have "then_do (case sr of (s, rest) \<Rightarrow> if ds_frameHeaderBytes s < FRAME_HEADER_LENGTH then ([], Inr (s, rest))
          else dec_body c parsed s rest) (\<lambda>sr. dec_loop c options limits (fst sr) (snd sr))
        = dec_loop c options limits (fst sr) (snd sr)"
      if r: "dec_header limits parsed s rest = (out, Inr sr)" for sr out
    proof -
      obtain s1 r1 where sr: "sr = (s1, r1)" by (cases sr)
      have s1: "dec_inv s1" "ds_parsedHeader s1 = Some parsed" "\<not> ds_finalSeen s1"
        using dec_header_inv[OF inv True _ r[unfolded sr]] Some live by auto
      show ?thesis
      proof (cases "ds_frameHeaderBytes s1 < FRAME_HEADER_LENGTH")
        case False
        with s1(1) have "ds_frameHeaderBytes s1 = FRAME_HEADER_LENGTH" by (simp add: dec_inv_def)
        with body[OF s1(1,3,2) this] show ?thesis by (simp add: sr)
      qed (simp add: sr)
    qed
    then show ?thesis
      using live True Some
      by (simp add: dec_loop_step[OF inv rest] dec_step_def phase_at_def then_do_assoc cong: then_do_cong)
  qed
qed

lemma dec_loop_final:
  assumes "dec_inv s" "ds_finalSeen s" "rest \<noteq> []"
  shows "dec_loop c options limits s rest =
    ([], Inl (decryption_failed ''trailing data after final frame'', s))"
  using assms by (simp add: dec_loop_step dec_step_def)

lemma phase_at_bytewise:
  assumes "dec_inv s"
  shows "bytewise (phase_at c options limits s) s b bs"
proof (cases "ds_parsedHeader s")
  case None
  then show ?thesis using dec_global_bytewise[OF assms] by (simp add: phase_at_def)
next
  case (Some parsed)
  show ?thesis
  proof (cases "ds_frameHeaderBytes s < FRAME_HEADER_LENGTH")
    case True
    then show ?thesis using dec_header_bytewise[OF assms True] Some by (simp add: phase_at_def)
  next
    case False
    with assms have "ds_frameHeaderBytes s = FRAME_HEADER_LENGTH" by (simp add: dec_inv_def)
    with assms Some obtain body dk where "ds_frameBody s = Some body" "ds_frameBodyBytes s < length body"
      "ds_derivedKey s = Some dk" by (auto simp: dec_inv_def)
    from dec_body_bytewise[OF this] False Some show ?thesis by (simp add: phase_at_def)
  qed
qed

lemma same_phase_at: "same_phase s s1 \<Longrightarrow> phase_at c options limits s1 = phase_at c options limits s"
  by (auto simp: same_phase_def phase_at_def split: option.splits)

lemma phase_at_rest:
  assumes "dec_inv s" "\<not> ds_finalSeen s" "phase_at c options limits s s [b] = (out, Inr (s', rest'))"
  shows "rest' = []"
proof -
  have "length rest' < length [b]"
  proof (cases "ds_parsedHeader s")
    case None
    with assms show ?thesis
      using dec_step_progress[of c options limits s "[b]" out s' rest']
      by (simp add: dec_step_def phase_at_def dec_inv_room)
  next
    case (Some parsed)
    with assms show ?thesis
      using dec_body_rest(2)[OF _ dec_inv_room[OF assms(1)], of c parsed "[b]" out s' rest']
        dec_header_rest[OF _ dec_inv_room[OF assms(1)], of limits parsed "[b]" out s' rest']
      by (simp add: phase_at_def split: if_splits)
  qed
  then show ?thesis by simp
qed

lemma dec_loop_Cons:
  assumes inv: "dec_inv s"
  shows "dec_loop c options limits s (b # bs) =
    then_do (dec_loop c options limits s [b]) (\<lambda>s'. dec_loop c options limits s' bs)"
proof (cases "ds_finalSeen s")
  case True
  then show ?thesis by (simp add: dec_loop_final[OF inv])
next
  case live: False
  let ?ph = "phase_at c options limits s" and ?loop = "\<lambda>sr. dec_loop c options limits (fst sr) (snd sr)"
  note unroll = dec_loop_phase[OF inv live, of _ c options limits]
  from phase_at_bytewise[OF inv, of c options limits b bs] consider
    (last) "?ph s (b # bs) = then_do (?ph s [b]) (\<lambda>(s', rest'). ([], Inr (s', bs)))"
    | (more) s1 where "same_phase s s1" "?ph s [b] = ([], Inr (s1, []))" "?ph s (b # bs) = ?ph s1 bs"
        "?ph s1 [] = ([], Inr (s1, []))"
    by (auto simp: bytewise_def)
  then show ?thesis
  proof cases
    case last
    have "then_do (case sr of (s', rest') \<Rightarrow> ([], Inr (s', bs))) ?loop =
        then_do (?loop sr) (\<lambda>s'. dec_loop c options limits s' bs)"
      if "?ph s [b] = (out, Inr sr)" for out sr
      using phase_at_rest[OF inv live, of c options limits b out "fst sr" "snd sr"] that
      by (cases sr) simp
    then show ?thesis
      by (simp add: unroll last then_do_assoc cong: then_do_cong)
  next
    case more
    have inv1: "dec_inv s1" using phase_at_inv[OF inv more(2)] .
    have live1: "\<not> ds_finalSeen s1" using more(1) live by (simp add: same_phase_def)
    have "dec_loop c options limits s1 bs = then_do (?ph s1 bs) ?loop"
      using dec_loop_phase[OF inv1 live1, of bs c options limits] more(4)
      by (cases "bs = []") (simp_all add: same_phase_at[OF more(1)])
    then show ?thesis by (simp add: unroll more(2,3))
  qed
qed

lemma dec_loop_inv:
  assumes "dec_inv s" "dec_loop c options limits s [b] = (out, Inr s')"
  shows "dec_inv s'"
proof (cases "ds_finalSeen s")
  case True
  with assms show ?thesis by (simp add: dec_loop_final)
next
  case False
  with assms(2) obtain o1 s1 r1 where ph: "phase_at c options limits s s [b] = (o1, Inr (s1, r1))"
    and "\<exists>o2. dec_loop c options limits s1 r1 = (o2, Inr s')"
    by (auto simp: dec_loop_phase[OF assms(1) False] then_do_eq_Inr)
  with phase_at_rest[OF assms(1) False ph] have "s' = s1" by auto
  with phase_at_inv[OF assms(1) ph] show ?thesis by simp
qed

interpretation decryptor: incremental "dec_loop c options limits" dec_inv for c options limits
  by unfold_locales (auto intro: dec_loop_Cons dec_loop_inv)

section \<open>The loop on a whole message\<close>

text \<open>Between two frames the stage has the variables of the whole-buffer loop.\<close>

definition at_frame :: "parsed_header \<Rightarrow> buffer \<Rightarrow> dec_stream \<Rightarrow> decrypt_vars \<Rightarrow> bool" where
  "at_frame h dk s v \<longleftrightarrow>
     dec_inv s \<and> ds_parsedHeader s = Some h \<and> ds_derivedKey s = Some dk \<and> ds_frameHeaderBytes s = 0
     \<and> ds_totalOutput s = dv_plaintextBytes v \<and> ds_expectedSequence s = dv_expectedSequence v
     \<and> ds_dataFrames s = dv_dataFrames v \<and> ds_finalSeen s = dv_finalSeen v
     \<and> dv_plaintextBytes v = length (concat (dv_plaintext v))"

lemma dec_step_complete:
  assumes at: "at_frame h dk s v" and fin: "\<not> dv_finalSeen v" and len: "FRAME_HEADER_LENGTH \<le> length rest"
    and check: "check_frame_header limits (hd_frameSizeBytes h) (dv_expectedSequence v) (dv_dataFrames v)
      (dv_plaintextBytes v) (take FRAME_HEADER_LENGTH rest) = Inr ()"
    and fh: "fh = take FRAME_HEADER_LENGTH rest" and n: "n = read_be 4 fh 9"
    and r: "r = drop FRAME_HEADER_LENGTH rest"
  shows "dec_step c options limits s rest = dec_body c h
    (s\<lparr>ds_frameHeader := fh, ds_frameHeaderBytes := FRAME_HEADER_LENGTH,
       ds_frameBody := Some (replicate (n + TAG_LENGTH) 0), ds_frameBodyBytes := 0\<rparr>) r"
proof -
  have "length (ds_frameHeader s) = FRAME_HEADER_LENGTH" using at by (simp add: at_frame_def dec_inv_def)
  then have "fill_from (ds_frameHeader s) 0 rest = (fh, FRAME_HEADER_LENGTH, r)"
    using fill_from_full[of "ds_frameHeader s" rest] len by (simp add: fh r)
  then show ?thesis
    using at fin check unfolding at_frame_def
    by (simp add: dec_step_def dec_header_def Let_def fh n format_constants)
qed

lemma dec_step_accepts:
  assumes at: "at_frame h dk s v" and step: "decrypt_step c limits h dk v rest = Inr (v', rest')"
  shows "\<exists>out s'. dec_step c options limits s rest = (out, Inr (s', rest'))
    \<and> at_frame h dk s' v' \<and> dv_plaintext v' = dv_plaintext v @ out"
proof -
  let ?fh = "take FRAME_HEADER_LENGTH rest" and ?r = "drop FRAME_HEADER_LENGTH rest"
  let ?ty = "read_be 1 ?fh 0" and ?q = "read_be 8 ?fh 1" and ?n = "read_be 4 ?fh 9"
  from step obtain p where fin: "\<not> dv_finalSeen v" and len: "FRAME_HEADER_LENGTH \<le> length rest"
    and check: "check_frame_header limits (hd_frameSizeBytes h) (dv_expectedSequence v)
      (dv_dataFrames v) (dv_plaintextBytes v) ?fh = Inr ()"
    and body: "?n + TAG_LENGTH \<le> length ?r"
    and p: "decryptFrame c (take ?n ?r) (take TAG_LENGTH (drop ?n ?r)) ?fh ?q (hd_algorithm h) dk (hd_bytes h) = Inr p"
    and v': "v' = after_frame v ?ty p" and rest': "rest' = drop TAG_LENGTH (drop ?n ?r)"
    unfolding decrypt_step_def Let_def after_frame_def
    by (auto simp: result_simps not_less split: if_splits)
  let ?s = "s\<lparr>ds_frameHeader := ?fh, ds_frameHeaderBytes := FRAME_HEADER_LENGTH,
    ds_frameBody := Some (replicate (?n + TAG_LENGTH) 0), ds_frameBodyBytes := 0\<rparr>"
  have fill: "fill_from (replicate (?n + TAG_LENGTH) 0) 0 ?r = (take (?n + TAG_LENGTH) ?r, ?n + TAG_LENGTH, rest')"
    using fill_from_full[of "replicate (?n + TAG_LENGTH) 0" ?r] body rest' by (simp add: ac_simps)
  have body_parts: "take ?n (take (?n + TAG_LENGTH) ?r) = take ?n ?r"
    "drop ?n (take (?n + TAG_LENGTH) ?r) = take TAG_LENGTH (drop ?n ?r)"
    by (simp_all add: min_absorb1 drop_take)
  have dk: "ds_derivedKey s = Some dk" using at by (simp add: at_frame_def)
  have lens: "length ?fh = FRAME_HEADER_LENGTH" "length (take (?n + TAG_LENGTH) ?r) = ?n + TAG_LENGTH"
    using len body by simp_all
  have "\<exists>out s'. dec_body c h ?s ?r = (out, Inr (s', rest')) \<and> at_frame h dk s' v'
      \<and> dv_plaintext v' = dv_plaintext v @ out"
    using at p fin unfolding dec_body_def
    by (simp add: fill body_parts dk lens Let_def)
      (auto simp: at_frame_def dec_inv_def v' after_frame_def format_constants
        min_absorb2[OF len[unfolded FRAME_HEADER_LENGTH_def]])
  then show ?thesis
    using dec_step_complete[OF at fin len check refl refl refl, of c options] by simp
qed

lemma dec_step_rejects:
  assumes at: "at_frame h dk s v" and step: "decrypt_step c limits h dk v rest = Inl e" and "rest \<noteq> []"
  shows "(\<exists>err. dec_step c options limits s rest = ([], Inl err))
    \<or> (\<exists>s'. dec_step c options limits s rest = ([], Inr (s', [])) \<and> ds_frameHeaderBytes s' \<noteq> 0)"
proof (cases "dv_finalSeen v")
  case True
  then show ?thesis using at by (simp add: at_frame_def dec_step_def)
next
  case fin: False
  let ?fh = "take FRAME_HEADER_LENGTH rest" and ?r = "drop FRAME_HEADER_LENGTH rest"
  let ?q = "read_be 8 ?fh 1" and ?n = "read_be 4 ?fh 9"
  have s: "length (ds_frameHeader s) = FRAME_HEADER_LENGTH" "ds_frameHeaderBytes s = 0"
    "ds_parsedHeader s = Some h" "\<not> ds_finalSeen s" "ds_derivedKey s = Some dk"
    using at fin by (auto simp: at_frame_def dec_inv_def)
  show ?thesis
  proof (cases "length rest < FRAME_HEADER_LENGTH")
    case True
    with fill_from_short[of rest "ds_frameHeader s"] s obtain t
      where "fill_from (ds_frameHeader s) 0 rest = (t, length rest, [])" by auto
    with True s assms(3) show ?thesis by (simp add: dec_step_def dec_header_def Let_def)
  next
    case False
    then have len: "FRAME_HEADER_LENGTH \<le> length rest" by simp
    show ?thesis
    proof (cases "check_frame_header limits (hd_frameSizeBytes h) (dv_expectedSequence v)
        (dv_dataFrames v) (dv_plaintextBytes v) ?fh")
      case (Inl err)
      have "fill_from (ds_frameHeader s) 0 rest = (?fh, FRAME_HEADER_LENGTH, ?r)"
        using fill_from_full[of "ds_frameHeader s" rest] s len by simp
      with Inl s at show ?thesis by (simp add: dec_step_def dec_header_def Let_def at_frame_def format_constants)
    next
      case (Inr u)
      then have check: "check_frame_header limits (hd_frameSizeBytes h) (dv_expectedSequence v)
        (dv_dataFrames v) (dv_plaintextBytes v) ?fh = Inr ()" by simp
      let ?s = "s\<lparr>ds_frameHeader := ?fh, ds_frameHeaderBytes := FRAME_HEADER_LENGTH,
        ds_frameBody := Some (replicate (?n + TAG_LENGTH) 0), ds_frameBodyBytes := 0\<rparr>"
      note complete = dec_step_complete[OF at fin len check refl refl refl, of c options]
      show ?thesis
      proof (cases "length ?r < ?n + TAG_LENGTH")
        case True
        with fill_from_short[of ?r "replicate (?n + TAG_LENGTH) 0"] obtain t where
          "fill_from (replicate (?n + TAG_LENGTH) 0) 0 ?r = (t, length ?r, [])" "length t = ?n + TAG_LENGTH"
          by auto
        with True s show ?thesis unfolding complete by (simp add: dec_body_def Let_def format_constants)
      next
        case False
        have parts: "take ?n (take (?n + TAG_LENGTH) ?r) = take ?n ?r"
          "drop ?n (take (?n + TAG_LENGTH) ?r) = take TAG_LENGTH (drop ?n ?r)"
          by (simp_all add: min_absorb1 drop_take)
        have "\<exists>e. decryptFrame c (take ?n ?r) (take TAG_LENGTH (drop ?n ?r)) ?fh ?q
            (hd_algorithm h) dk (hd_bytes h) = Inl e"
          using step fin len check False
          by (cases "decryptFrame c (take ?n ?r) (take TAG_LENGTH (drop ?n ?r)) ?fh ?q
            (hd_algorithm h) dk (hd_bytes h)") (auto simp: decrypt_step_def Let_def)
        then show ?thesis
          unfolding complete using False s
          by (auto simp: dec_body_def fill_from_full parts Let_def)
      qed
    qed
  qed
qed

lemma dec_loop_accepts:
  "at_frame h dk s v \<Longrightarrow> decrypt_loop c limits h dk v rest = Inr v' \<Longrightarrow>
     \<exists>out s'. dec_loop c options limits s rest = (out, Inr s') \<and> at_frame h dk s' v'
       \<and> dv_plaintext v' = dv_plaintext v @ out"
proof (induction "length rest" arbitrary: rest s v rule: less_induct)
  case less
  note inv = less.prems(1)[unfolded at_frame_def, THEN conjunct1]
  show ?case
  proof (cases "rest = []")
    case True
    with less.prems show ?thesis by simp
  next
    case False
    with less.prems(2) obtain v1 r1 where step: "decrypt_step c limits h dk v rest = Inr (v1, r1)"
      and loop: "decrypt_loop c limits h dk v1 r1 = Inr v'"
      by (subst (asm) decrypt_loop.simps) (auto split: sum.splits)
    obtain o1 s1 where s1: "dec_step c options limits s rest = (o1, Inr (s1, r1))" "at_frame h dk s1 v1"
      "dv_plaintext v1 = dv_plaintext v @ o1"
      using dec_step_accepts[OF less.prems(1) step] by blast
    obtain o2 s2 where "dec_loop c options limits s1 r1 = (o2, Inr s2)" "at_frame h dk s2 v'"
      "dv_plaintext v' = dv_plaintext v1 @ o2"
      using less.hyps[OF decrypt_step_progress[OF step] s1(2) loop] by blast
    with s1 show ?thesis by (simp add: dec_loop_step[OF inv False])
  qed
qed

lemma dec_loop_rejects:
  "at_frame h dk s v \<Longrightarrow> decrypt_loop c limits h dk v rest = Inl e \<Longrightarrow>
     dec_loop c options limits s rest = (out, Inr s') \<Longrightarrow> ds_frameHeaderBytes s' \<noteq> 0"
proof (induction "length rest" arbitrary: rest s v out rule: less_induct)
  case less
  note inv = less.prems(1)[unfolded at_frame_def, THEN conjunct1]
  have ne: "rest \<noteq> []" using less.prems(2) by auto
  show ?case
  proof (cases "decrypt_step c limits h dk v rest")
    case (Inl err)
    from dec_step_rejects[OF less.prems(1) this ne, of options] less.prems(3)
    show ?thesis by (auto simp: dec_loop_step[OF inv ne])
  next
    case (Inr vr)
    obtain v1 r1 where step: "decrypt_step c limits h dk v rest = Inr (v1, r1)" using Inr by (cases vr) auto
    with less.prems(2) ne have loop: "decrypt_loop c limits h dk v1 r1 = Inl e"
      by (simp add: decrypt_loop_step)
    obtain o1 s1 where "dec_step c options limits s rest = (o1, Inr (s1, r1))" and s1: "at_frame h dk s1 v1"
      using dec_step_accepts[OF less.prems(1) step] by blast
    with less.prems(3) obtain o2 where "dec_loop c options limits s1 r1 = (o2, Inr s')"
      by (auto simp: dec_loop_step[OF inv ne] split: prod.splits)
    with less.hyps[OF decrypt_step_progress[OF step] s1 loop] show ?thesis by blast
  qed
qed

text \<open>A stage that has not consumed anything yet.\<close>

definition dec_fresh :: "dec_stream \<Rightarrow> bool" where
  "dec_fresh s \<longleftrightarrow> dec_inv s \<and> ds_parsedHeader s = None \<and> ds_globalHeaderBytes s = 0
     \<and> ds_totalOutput s = 0 \<and> ds_expectedSequence s = 0 \<and> ds_dataFrames s = 0 \<and> \<not> ds_finalSeen s"

definition framed_end :: "dec_stream \<Rightarrow> bool" where
  "framed_end s \<longleftrightarrow> ds_parsedHeader s \<noteq> None \<and> ds_frameHeaderBytes s = 0 \<and> ds_frameBody s = None
     \<and> ds_finalSeen s"

lemma dec_loop_header:
  assumes fresh: "dec_fresh s" and d: "d \<noteq> []"
  shows "GLOBAL_HEADER_LENGTH \<le> length d \<Longrightarrow>
      parseHeader (take GLOBAL_HEADER_LENGTH d) limits = Inr h \<Longrightarrow>
      \<exists>s1. at_frame h (deriveKey c (opt_key options) h) s1 decrypt_vars_init \<and>
        dec_loop c options limits s d = dec_loop c options limits s1 (drop GLOBAL_HEADER_LENGTH d)"
    and "GLOBAL_HEADER_LENGTH \<le> length d \<Longrightarrow>
      parseHeader (take GLOBAL_HEADER_LENGTH d) limits = Inl e \<Longrightarrow>
      \<exists>err. dec_loop c options limits s d = ([], Inl err)"
    and "length d < GLOBAL_HEADER_LENGTH \<Longrightarrow>
      \<exists>s1. ds_parsedHeader s1 = None \<and> dec_loop c options limits s d = ([], Inr s1)"
proof -
  have s: "dec_inv s" "ds_parsedHeader s = None" "ds_globalHeaderBytes s = 0" "\<not> ds_finalSeen s"
    "length (ds_globalHeader s) = GLOBAL_HEADER_LENGTH" "ds_frameHeaderBytes s = 0"
    using fresh by (auto simp: dec_fresh_def dec_inv_def)
  note unroll = dec_loop_phase[OF s(1,4) d, of c options limits]
  have full: "fill_from (ds_globalHeader s) 0 d =
      (take GLOBAL_HEADER_LENGTH d, GLOBAL_HEADER_LENGTH, drop GLOBAL_HEADER_LENGTH d)"
    if "GLOBAL_HEADER_LENGTH \<le> length d"
    using fill_from_full[of "ds_globalHeader s" d] s(5) that by simp
  show "\<exists>s1. at_frame h (deriveKey c (opt_key options) h) s1 decrypt_vars_init \<and>
        dec_loop c options limits s d = dec_loop c options limits s1 (drop GLOBAL_HEADER_LENGTH d)"
    if len: "GLOBAL_HEADER_LENGTH \<le> length d" and h: "parseHeader (take GLOBAL_HEADER_LENGTH d) limits = Inr h"
  proof -
    let ?s1 = "s\<lparr>ds_globalHeader := take GLOBAL_HEADER_LENGTH d, ds_globalHeaderBytes := GLOBAL_HEADER_LENGTH,
      ds_parsedHeader := Some h, ds_derivedKey := Some (deriveKey c (opt_key options) h)\<rparr>"
    have "dec_loop c options limits s d = dec_loop c options limits ?s1 (drop GLOBAL_HEADER_LENGTH d)"
      using s(2,3) h by (simp add: unroll phase_at_def dec_global_def full[OF len] Let_def)
    moreover have "at_frame h (deriveKey c (opt_key options) h) ?s1 decrypt_vars_init"
      using fresh len by (auto simp: at_frame_def dec_fresh_def dec_inv_def decrypt_vars_init_def)
    ultimately show ?thesis by blast
  qed
  show "\<exists>err. dec_loop c options limits s d = ([], Inl err)"
    if len: "GLOBAL_HEADER_LENGTH \<le> length d" and h: "parseHeader (take GLOBAL_HEADER_LENGTH d) limits = Inl e"
    using s(2,3) h by (simp add: unroll phase_at_def dec_global_def full[OF len] Let_def)
  show "\<exists>s1. ds_parsedHeader s1 = None \<and> dec_loop c options limits s d = ([], Inr s1)"
    if len: "length d < GLOBAL_HEADER_LENGTH"
  proof -
    from fill_from_short[of d "ds_globalHeader s"] s(5) len obtain t
      where "fill_from (ds_globalHeader s) 0 d = (t, length d, [])" by auto
    then show ?thesis using s(2,3) len by (simp add: unroll phase_at_def dec_global_def Let_def)
  qed
qed

lemma dec_loop_framed:
  assumes fresh: "dec_fresh s" and d: "d \<noteq> []"
  shows "(\<exists>out s'. dec_loop c options limits s d = (out, Inr s') \<and> framed_end s' \<and> concat out = p)
    \<longleftrightarrow> decrypt_framed c d options limits = Inr p"
proof (cases "length d < GLOBAL_HEADER_LENGTH")
  case True
  then obtain s1 where "ds_parsedHeader s1 = None" "dec_loop c options limits s d = ([], Inr s1)"
    using dec_loop_header(3)[OF assms] by blast
  with True show ?thesis by (auto simp: framed_end_def decrypt_framed_def)
next
  case False
  then have len: "GLOBAL_HEADER_LENGTH \<le> length d" by simp
  show ?thesis
  proof (cases "parseHeader (take GLOBAL_HEADER_LENGTH d) limits")
    case (Inl e)
    then obtain err where "dec_loop c options limits s d = ([], Inl err)"
      using dec_loop_header(2)[OF assms len] by blast
    with Inl len show ?thesis by (auto simp: decrypt_framed_def)
  next
    case (Inr h)
    let ?dk = "deriveKey c (opt_key options) h" and ?rest = "drop GLOBAL_HEADER_LENGTH d"
    from dec_loop_header(1)[OF assms len Inr] obtain s1 where
      at: "at_frame h ?dk s1 decrypt_vars_init" and
      loop: "dec_loop c options limits s d = dec_loop c options limits s1 ?rest" by blast
    show ?thesis
    proof (cases "decrypt_loop c limits h ?dk decrypt_vars_init ?rest")
      case (Inl e)
      have "\<not> framed_end s'" if "dec_loop c options limits s1 ?rest = (out, Inr s')" for out s'
        using dec_loop_rejects[OF at Inl that] by (simp add: framed_end_def)
      with Inl Inr len show ?thesis unfolding loop by (auto simp: decrypt_framed_def Let_def)
    next
      case r: (Inr v)
      from dec_loop_accepts[OF at r, of options] obtain out s' where
        out: "dec_loop c options limits s1 ?rest = (out, Inr s')" "at_frame h ?dk s' v"
          "dv_plaintext v = dv_plaintext decrypt_vars_init @ out" by blast
      have "framed_end s' \<longleftrightarrow> dv_finalSeen v"
        using out(2) by (auto simp: framed_end_def at_frame_def dec_inv_def format_constants)
      moreover have "buf_concat (dv_plaintext v) (dv_plaintextBytes v) = concat out"
        using out(2,3) by (simp add: at_frame_def buf_concat_exact decrypt_vars_init_def)
      ultimately show ?thesis
        using out(1) r Inr len unfolding loop by (auto simp: decrypt_framed_def Let_def)
    qed
  qed
qed

section \<open>The handlers\<close>

text \<open>The loop neither reads nor writes the input counter and the format.\<close>

definition stamp :: "nat \<Rightarrow> stream_format \<Rightarrow> dec_stream \<Rightarrow> dec_stream" where
  "stamp n fmt s = s\<lparr>ds_totalInput := n, ds_format := fmt\<rparr>"

definition map_outcome ::
  "(dec_stream \<Rightarrow> dec_stream) \<Rightarrow> dec_outcome \<Rightarrow> dec_outcome" where
  "map_outcome f r = (case r of (out, Inl (e, s)) \<Rightarrow> (out, Inl (e, f s)) | (out, Inr s) \<Rightarrow> (out, Inr (f s)))"

definition map_phase :: "(dec_stream \<Rightarrow> dec_stream) \<Rightarrow> dec_phase \<Rightarrow> dec_phase" where
  "map_phase f r =
     (case r of (out, Inl (e, s)) \<Rightarrow> (out, Inl (e, f s)) | (out, Inr (s, rest)) \<Rightarrow> (out, Inr (f s, rest)))"

lemma map_phase_simps [simp]:
  "map_phase f (out, Inl (e, s)) = (out, Inl (e, f s))"
  "map_phase f (out, Inr (s, rest)) = (out, Inr (f s, rest))"
  by (simp_all add: map_phase_def)

lemma map_outcome_simps [simp]:
  "map_outcome f (out, Inl (e, s)) = (out, Inl (e, f s))"
  "map_outcome f (out, Inr s) = (out, Inr (f s))"
  by (simp_all add: map_outcome_def)

lemma stamp_fields [simp]:
  "ds_parsedHeader (stamp n fmt s) = ds_parsedHeader s"
  "ds_finalSeen (stamp n fmt s) = ds_finalSeen s"
  "ds_frameHeaderBytes (stamp n fmt s) = ds_frameHeaderBytes s"
  "ds_frameBody (stamp n fmt s) = ds_frameBody s"
  "dec_room (stamp n fmt s) = dec_room s" "dec_inv (stamp n fmt s) = dec_inv s"
  "dec_fresh (stamp n fmt s) = dec_fresh s" "framed_end (stamp n fmt s) = framed_end s"
  "ds_totalInput (stamp n fmt s) = n" "ds_format (stamp n fmt s) = fmt"
  "stamp n fmt (stamp n' fmt' s) = stamp n fmt s"
  by (simp_all add: stamp_def dec_room_def dec_inv_def dec_fresh_def framed_end_def)

lemma stamp_self: "stamp (ds_totalInput s) (ds_format s) s = s"
  by (simp add: stamp_def)

lemma dec_global_stamp:
  "dec_global c options limits (stamp n fmt s) rest = map_phase (stamp n fmt) (dec_global c options limits s rest)"
  by (simp add: dec_global_def stamp_def Let_def split: prod.splits sum.splits)

lemma dec_header_stamp:
  "dec_header limits h (stamp n fmt s) rest = map_phase (stamp n fmt) (dec_header limits h s rest)"
  by (simp add: dec_header_def stamp_def Let_def split: prod.splits sum.splits)

lemma dec_body_stamp:
  "dec_body c h (stamp n fmt s) rest = map_phase (stamp n fmt) (dec_body c h s rest)"
  by (simp add: dec_body_def stamp_def Let_def split: prod.splits sum.splits option.splits)

lemma dec_step_stamp:
  "dec_step c options limits (stamp n fmt s) rest = map_phase (stamp n fmt) (dec_step c options limits s rest)"
proof (cases "ds_parsedHeader s")
  case None
  then show ?thesis by (simp add: dec_step_def dec_global_stamp)
next
  case (Some h)
  have after: "then_do (map_phase (stamp n fmt) r)
      (\<lambda>(s, rest). if ds_frameHeaderBytes s < FRAME_HEADER_LENGTH then ([], Inr (s, rest)) else dec_body c h s rest)
    = map_phase (stamp n fmt) (then_do r
      (\<lambda>(s, rest). if ds_frameHeaderBytes s < FRAME_HEADER_LENGTH then ([], Inr (s, rest)) else dec_body c h s rest))"
    for r :: dec_phase
  proof -
    obtain out x where r: "r = (out, x)" by (cases r)
    show ?thesis
    proof (cases x)
      case (Inl es)
      then show ?thesis by (cases es) (simp add: r)
    next
      case (Inr sr)
      obtain s1 r1 where sr: "sr = (s1, r1)" by (cases sr)
      obtain out2 y where b: "dec_body c h s1 r1 = (out2, y)" by fastforce
      show ?thesis by (cases y) (auto simp: r Inr sr dec_body_stamp b)
    qed
  qed
  show ?thesis
  proof (cases "ds_frameHeaderBytes s < FRAME_HEADER_LENGTH")
    case True
    then show ?thesis using after by (simp add: dec_step_def Some dec_header_stamp)
  next
    case False
    then show ?thesis by (simp add: dec_step_def Some dec_body_stamp)
  qed
qed

lemma dec_loop_stamp:
  "dec_loop c options limits (stamp n fmt s) rest = map_outcome (stamp n fmt) (dec_loop c options limits s rest)"
proof (induction c options limits s rest rule: dec_loop.induct)
  case (1 c options limits s rest)
  show ?case
  proof (cases "rest = [] \<or> \<not> dec_room s")
    case True
    then show ?thesis
      by (simp add: dec_loop.simps[of c options limits s rest]
          dec_loop.simps[of c options limits "stamp n fmt s" rest])
  next
    case False
    note unroll = dec_loop.simps[of c options limits s rest]
      dec_loop.simps[of c options limits "stamp n fmt s" rest]
    obtain out x where step: "dec_step c options limits s rest = (out, x)" by fastforce
    show ?thesis
    proof (cases x)
      case (Inl es)
      then show ?thesis using False by (cases es) (simp add: unroll dec_step_stamp step)
    next
      case (Inr sr)
      obtain s1 r1 where sr: "sr = (s1, r1)" by (cases sr)
      have IH: "dec_loop c options limits (stamp n fmt s1) r1 =
          map_outcome (stamp n fmt) (dec_loop c options limits s1 r1)"
        using 1[OF False step[unfolded Inr sr]] by simp
      obtain o2 y where "dec_loop c options limits s1 r1 = (o2, y)" by fastforce
      then show ?thesis
        using False IH by (cases y) (auto simp: unroll dec_step_stamp step Inr sr)
    qed
  qed
qed

lemma dec_loop_keeps:
  assumes "dec_loop c options limits s rest = (out, Inr s')"
  shows "ds_totalInput s' = ds_totalInput s" "ds_format s' = ds_format s"
proof -
  have "stamp (ds_totalInput s) (ds_format s) s' = s'"
    using dec_loop_stamp[of c options limits "ds_totalInput s" "ds_format s" s rest] assms
    by (simp add: stamp_self)
  then show "ds_totalInput s' = ds_totalInput s" "ds_format s' = ds_format s"
    by (metis stamp_fields(9), metis stamp_fields(10))
qed

lemma dec_catch_Inr [simp]: "dec_catch r = (out, Inr s) \<longleftrightarrow> r = (out, Inr s)"
  by (cases r) (auto simp: dec_catch_def split: sum.splits)

lemma dec_transform_framed:
  assumes "ds_format s = FormatFramed" "dec_inv s" "ds_totalInput s \<le> fmt_maxInputBytes limits"
  shows "dec_transform c options limits s i = (out, Inr s') \<longleftrightarrow>
    ds_totalInput s + length i \<le> fmt_maxInputBytes limits
    \<and> dec_loop c options limits (stamp (ds_totalInput s + length i) FormatFramed s) i = (out, Inr s')"
proof -
  have "stamp (ds_totalInput s + length i) FormatFramed s = s\<lparr>ds_totalInput := ds_totalInput s + length i\<rparr>"
    using assms(1) by (simp add: stamp_def flip: assms(1))
  then show ?thesis
    using assms by (cases i) (auto simp: dec_transform_def Let_def)
qed

lemma run_framed:
  "ds_format s = FormatFramed \<Longrightarrow> dec_inv s \<Longrightarrow> ds_totalInput s \<le> fmt_maxInputBytes limits \<Longrightarrow>
   run_chunks (dec_transform c options limits) s cs = (out, Inr s') \<longleftrightarrow>
     ds_totalInput s + length (concat cs) \<le> fmt_maxInputBytes limits
     \<and> dec_loop c options limits (stamp (ds_totalInput s + length (concat cs)) FormatFramed s) (concat cs)
       = (out, Inr s')"
proof (induction cs arbitrary: s out)
  case Nil
  then show ?case using stamp_self[of s] by simp
next
  case (Cons i cs)
  let ?m = "ds_totalInput s + length i" and ?n = "ds_totalInput s + length (concat (i # cs))"
  let ?loop = "dec_loop c options limits"
  have inv: "dec_inv (stamp ?n FormatFramed s)" using Cons.prems(2) by simp
  have shift: "?loop (stamp ?n FormatFramed s) i = map_outcome (stamp ?n FormatFramed) (?loop (stamp ?m FormatFramed s) i)"
    using dec_loop_stamp[of c options limits ?n FormatFramed "stamp ?m FormatFramed s" i] by simp
  note split = decryptor.feed_append[OF inv, of c options limits i "concat cs"]
  note head = dec_transform_framed[OF Cons.prems, of c options i]
  have next_state: "ds_format s1 = FormatFramed \<and> dec_inv s1 \<and> ds_totalInput s1 = ?m"
    if "?loop (stamp ?m FormatFramed s) i = (o1, Inr s1)" for o1 s1
    using dec_loop_keeps[OF that] decryptor.feed_inv_all[OF _ that] Cons.prems(2) by simp
  show ?case
  proof (cases "?loop (stamp ?m FormatFramed s) i")
    case (Pair o1 x)
    show ?thesis
    proof (cases x)
      case (Inl es)
      then show ?thesis
        using head shift split Pair by (cases es) (auto simp: then_do_eq_Inr)
    next
      case (Inr s1)
      note s1 = next_state[OF Pair[unfolded Inr]]
      have tail: "run_chunks (dec_transform c options limits) s1 cs = (o2, Inr s') \<longleftrightarrow>
          ?n \<le> fmt_maxInputBytes limits \<and> ?loop (stamp ?n FormatFramed s1) (concat cs) = (o2, Inr s')"
        if "?m \<le> fmt_maxInputBytes limits" for o2
        using Cons.IH[of s1 o2] s1 that by (simp add: add.assoc)
      obtain o3 y where rest: "?loop (stamp ?n FormatFramed s1) (concat cs) = (o3, y)" by fastforce
      have whole: "?loop (stamp ?n FormatFramed s) (concat (i # cs)) = (o1 @ o3, y)"
        using shift split Pair Inr rest by simp
      have "run_chunks (dec_transform c options limits) s (i # cs) = (out, Inr s') \<longleftrightarrow>
          ?m \<le> fmt_maxInputBytes limits
          \<and> (\<exists>o2. run_chunks (dec_transform c options limits) s1 cs = (o2, Inr s') \<and> out = o1 @ o2)"
        using head Pair Inr by (auto simp: then_do_eq_Inr)
      also have "\<dots> \<longleftrightarrow> ?n \<le> fmt_maxInputBytes limits \<and> y = Inr s' \<and> out = o1 @ o3"
      proof (cases "?m \<le> fmt_maxInputBytes limits")
        case True
        then show ?thesis unfolding tail[OF True] rest by blast
      qed simp
      also have "\<dots> \<longleftrightarrow> ?n \<le> fmt_maxInputBytes limits \<and> (o1 @ o3, y) = (out, Inr s')"
        by blast
      finally show ?thesis unfolding whole .
    qed
  qed
qed

lemma run_legacy:
  "ds_format s = FormatLegacy \<Longrightarrow> ds_totalInput s \<le> fmt_maxInputBytes limits \<Longrightarrow>
   run_chunks (dec_transform c options limits) s cs = (out, Inr s') \<longleftrightarrow>
     ds_totalInput s + length (concat cs) \<le> fmt_maxInputBytes limits \<and> out = []
     \<and> s' = s\<lparr>ds_totalInput := ds_totalInput s + length (concat cs),
             ds_legacyChunks := ds_legacyChunks s @ filter (\<lambda>i. i \<noteq> []) cs\<rparr>"
proof (induction cs arbitrary: s out)
  case Nil
  then show ?case by auto
next
  case (Cons i cs)
  let ?s = "s\<lparr>ds_totalInput := ds_totalInput s + length i,
    ds_legacyChunks := ds_legacyChunks s @ (if i = [] then [] else [i])\<rparr>"
  have head: "dec_transform c options limits s i = (o1, Inr s1) \<longleftrightarrow>
      ds_totalInput s + length i \<le> fmt_maxInputBytes limits \<and> o1 = [] \<and> s1 = ?s" for o1 s1
    using Cons.prems by (cases i) (auto simp: dec_transform_def Let_def)
  have "ds_format ?s = FormatLegacy" using Cons.prems by simp
  note IH = Cons.IH[OF this]
  have "run_chunks (dec_transform c options limits) s (i # cs) = (out, Inr s') \<longleftrightarrow>
      ds_totalInput s + length i \<le> fmt_maxInputBytes limits
      \<and> run_chunks (dec_transform c options limits) ?s cs = (out, Inr s')"
    by (simp add: then_do_eq_Inr head)
  also have "\<dots> \<longleftrightarrow> ds_totalInput s + length (concat (i # cs)) \<le> fmt_maxInputBytes limits \<and> out = []
     \<and> s' = s\<lparr>ds_totalInput := ds_totalInput s + length (concat (i # cs)),
             ds_legacyChunks := ds_legacyChunks s @ filter (\<lambda>i. i \<noteq> []) (i # cs)\<rparr>"
  proof (cases "ds_totalInput s + length i \<le> fmt_maxInputBytes limits")
    case True
    then have "ds_totalInput ?s \<le> fmt_maxInputBytes limits" by simp
    from IH[OF this] True show ?thesis by (cases i) (simp_all add: add.assoc)
  qed simp
  finally show ?case .
qed

lemma read_first: "read_be 1 (b # bs) 0 = unat b"
  by (simp add: read_be_def subarray_def)

lemmas read_first_simps = read_first read_first[unfolded One_nat_def]

lemma takes_framed_path_first:
  "takes_framed_path d \<longleftrightarrow> d \<noteq> [] \<and> read_be 1 d 0 = read_be 1 MAGIC 0"
proof (cases d)
  case (Cons b bs)
  have "isFramedEncryption d \<Longrightarrow> read_be 1 d 0 = read_be 1 MAGIC 0"
    by (auto simp: isFramedEncryption_def subarray_def Cons MAGIC_def utf8_def read_be_def)
  then show ?thesis by (auto simp: takes_framed_path_def)
qed (simp add: takes_framed_path_def)

text \<open>The first byte of the stream decides the format.\<close>

definition format_of :: "buffer \<Rightarrow> stream_format" where
  "format_of d = (if read_be 1 d 0 = read_be 1 MAGIC 0 then FormatFramed else FormatLegacy)"

lemma run_unknown:
  assumes "ds_format s = FormatUnknown" "ds_totalInput s = 0" "dec_inv s"
  shows "concat cs \<noteq> [] \<Longrightarrow>
    run_chunks (dec_transform c options limits) s cs = (out, Inr s') \<longleftrightarrow>
      \<not> (format_of (concat cs) = FormatLegacy \<and> opt_allowLegacyDecrypt options = Some False)
      \<and> run_chunks (dec_transform c options limits) (stamp 0 (format_of (concat cs)) s) cs = (out, Inr s')"
proof (induction cs)
  case (Cons i cs)
  let ?fmt = "format_of (concat (i # cs))"
  show ?case
  proof (cases i)
    case Nil
    have "dec_transform c options limits s [] = ([], Inr s)"
      using assms by (simp add: dec_transform_def stamp_def)
    moreover have "dec_transform c options limits (stamp 0 fmt s) [] = ([], Inr (stamp 0 fmt s))" for fmt
      by (simp add: dec_transform_def stamp_def)
    ultimately show ?thesis using Cons Nil by simp
  next
    case (Cons b bs)
    have fmt: "?fmt = format_of i" by (simp add: format_of_def Cons read_first_simps)
    have "dec_transform c options limits s i = (o1, Inr s1) \<longleftrightarrow>
        \<not> (?fmt = FormatLegacy \<and> opt_allowLegacyDecrypt options = Some False)
        \<and> dec_transform c options limits (stamp 0 ?fmt s) i = (o1, Inr s1)" for o1 s1
    proof -
      have swap: "s\<lparr>ds_format := f, ds_totalInput := n\<rparr> = s\<lparr>ds_totalInput := n, ds_format := f\<rparr>" for f n
        by simp
      show ?thesis
        unfolding fmt using assms(1,2)
        by (auto simp: dec_transform_def Let_def stamp_def format_of_def Cons swap)
    qed
    then show ?thesis by (auto simp: then_do_eq_Inr)
  qed
qed simp

section \<open>Stream and buffer agree\<close>

lemma dec_flush_framed:
  assumes "ds_format s1 = FormatFramed"
  shows "dec_flush c options limits s1 = (out, Inr s) \<longleftrightarrow> framed_end s1 \<and> out = [] \<and> s = dec_cleanup s1"
  using assms by (auto simp: dec_flush_def framed_end_def)

lemma dec_flush_legacy:
  assumes "ds_format s1 = FormatLegacy" "length (concat (ds_legacyChunks s1)) = ds_totalInput s1"
  shows "dec_flush c options limits s1 = (out, Inr s) \<longleftrightarrow>
    (\<exists>p. decryptLegacy c (concat (ds_legacyChunks s1)) (opt_key options) limits = Inr p
      \<and> out = [p] \<and> s = dec_cleanup s1)"
  using assms
  by (cases "decryptLegacy c (concat (ds_legacyChunks s1)) (opt_key options) limits")
    (auto simp: dec_flush_def buf_concat_exact)

lemma new_dec_stream_simps:
  "ds_format new_dec_stream = FormatUnknown" "ds_totalInput new_dec_stream = 0"
  "dec_fresh new_dec_stream" "ds_legacyChunks new_dec_stream = []"
  using dec_inv_new by (simp_all add: new_dec_stream_def dec_fresh_def)

lemma run_empty:
  "concat cs = [] \<Longrightarrow> run_chunks (dec_transform c options limits) new_dec_stream cs = ([], Inr new_dec_stream)"
proof (induction cs)
  case (Cons i cs)
  have "dec_transform c options limits new_dec_stream [] = ([], Inr new_dec_stream)"
    by (simp add: dec_transform_def new_dec_stream_def)
  then show ?case using Cons by simp
qed simp

lemma decryptLegacy_Nil: "\<not> returns (decryptLegacy c [] key limits)"
  by (simp add: decryptLegacy_def format_constants)

lemma dec_run_result:
  fixes c :: node_crypto and options :: encryption_options and limits :: format_limits
  defines "run \<equiv> \<lambda>cs. run_transform (dec_transform c options limits) (dec_flush c options limits) new_dec_stream cs"
  shows "(\<exists>out s. run cs = (out, Inr s) \<and> concat out = p) \<longleftrightarrow>
    length (concat cs) \<le> fmt_maxInputBytes limits
    \<and> (if takes_framed_path (concat cs) then decrypt_framed c (concat cs) options limits = Inr p
       else opt_allowLegacyDecrypt options \<noteq> Some False
         \<and> decryptLegacy c (concat cs) (opt_key options) limits = Inr p)"
proof -
  let ?d = "concat cs" and ?T = "dec_transform c options limits" and ?s = new_dec_stream
  have split: "run cs = (out, Inr s) \<longleftrightarrow> (\<exists>s1 o1 o2. run_chunks ?T ?s cs = (o1, Inr s1)
      \<and> dec_flush c options limits s1 = (o2, Inr s) \<and> out = o1 @ o2)" for out s
    unfolding run_def run_transform_def then_do_eq_Inr by blast
  note start = new_dec_stream_simps dec_inv_new
  show ?thesis
  proof (cases "?d = []")
    case True
    have "dec_flush c options limits ?s \<noteq> (o2, Inr s)" for o2 s
      by (simp add: dec_flush_def start)
    then show ?thesis
      using run_empty[OF True, of c options limits] decryptLegacy_Nil[of c "opt_key options" limits]
      unfolding split True by (auto simp: returns_def takes_framed_path_first)
  next
    case False
    note unknown = run_unknown[OF start(1,2,5) False, of c options limits]
    show ?thesis
    proof (cases "takes_framed_path ?d")
      case True
      then have fmt: "format_of ?d = FormatFramed" by (simp add: takes_framed_path_first format_of_def)
      let ?s1 = "stamp (length ?d) FormatFramed ?s"
      have run: "run_chunks ?T ?s cs = (o1, Inr s1) \<longleftrightarrow>
          length ?d \<le> fmt_maxInputBytes limits \<and> dec_loop c options limits ?s1 ?d = (o1, Inr s1)" for o1 s1
        using unknown[of o1 s1] run_framed[of "stamp 0 FormatFramed ?s" limits c options cs o1 s1]
        by (simp add: fmt start)
      have "(\<exists>out s. run cs = (out, Inr s) \<and> concat out = p) \<longleftrightarrow>
          length ?d \<le> fmt_maxInputBytes limits
          \<and> (\<exists>o1 s1. dec_loop c options limits ?s1 ?d = (o1, Inr s1) \<and> framed_end s1 \<and> concat o1 = p)"
      proof -
        have flush: "dec_flush c options limits s1 = (o2, Inr s) \<longleftrightarrow> framed_end s1 \<and> o2 = [] \<and> s = dec_cleanup s1"
          if "dec_loop c options limits ?s1 ?d = (o1, Inr s1)" for o1 s1 o2 s
          using dec_loop_keeps(2)[OF that] by (intro dec_flush_framed) simp
        have "run cs = (out, Inr s) \<longleftrightarrow> length ?d \<le> fmt_maxInputBytes limits
            \<and> (\<exists>s1. dec_loop c options limits ?s1 ?d = (out, Inr s1) \<and> framed_end s1 \<and> s = dec_cleanup s1)"
          for out s
        proof
          assume "run cs = (out, Inr s)"
          then obtain s1 o1 o2 where "length ?d \<le> fmt_maxInputBytes limits"
            and l: "dec_loop c options limits ?s1 ?d = (o1, Inr s1)"
            and fl: "dec_flush c options limits s1 = (o2, Inr s)" and "out = o1 @ o2"
            unfolding split run by blast
          with iffD1[OF flush[OF l] fl] show "length ?d \<le> fmt_maxInputBytes limits
            \<and> (\<exists>s1. dec_loop c options limits ?s1 ?d = (out, Inr s1) \<and> framed_end s1 \<and> s = dec_cleanup s1)"
            by simp
        next
          assume "length ?d \<le> fmt_maxInputBytes limits
            \<and> (\<exists>s1. dec_loop c options limits ?s1 ?d = (out, Inr s1) \<and> framed_end s1 \<and> s = dec_cleanup s1)"
          then show "run cs = (out, Inr s)" unfolding split run using flush by fastforce
        qed
        then show ?thesis by blast
      qed
      also have "\<dots> \<longleftrightarrow> length ?d \<le> fmt_maxInputBytes limits \<and> decrypt_framed c ?d options limits = Inr p"
        using dec_loop_framed[of ?s1 ?d c options limits p] False start by simp
      finally show ?thesis using True by simp
    next
      case legacy: False
      then have fmt: "format_of ?d = FormatLegacy" using False by (auto simp: takes_framed_path_first format_of_def)
      let ?s1 = "(stamp 0 FormatLegacy ?s)\<lparr>ds_totalInput := length ?d, ds_legacyChunks := filter (\<lambda>i. i \<noteq> []) cs\<rparr>"
      have chunks: "ds_legacyChunks (stamp 0 FormatLegacy ?s) = []" by (simp add: stamp_def start)
      have run: "run_chunks ?T ?s cs = (o1, Inr s1) \<longleftrightarrow> opt_allowLegacyDecrypt options \<noteq> Some False
          \<and> length ?d \<le> fmt_maxInputBytes limits \<and> o1 = [] \<and> s1 = ?s1" for o1 s1
        using unknown[of o1 s1] run_legacy[of "stamp 0 FormatLegacy ?s" limits c options cs o1 s1]
        by (simp add: fmt chunks)
      have "dec_flush c options limits ?s1 = (o2, Inr s) \<longleftrightarrow>
          (\<exists>p. decryptLegacy c ?d (opt_key options) limits = Inr p \<and> o2 = [p] \<and> s = dec_cleanup ?s1)" for o2 s
        using dec_flush_legacy[of ?s1 c options limits o2 s]
        by (simp add: concat_filter_nonempty stamp_def)
      then show ?thesis unfolding split run using legacy by auto
    qed
  qed
qed

lemma decryption_stream_unfold:
  "decryption_stream c options ctx chunks =
    (if length (opt_key options) \<noteq> 32 then Inl InvalidKeyError
     else Inr (run_transform (dec_transform c options (limitsFor ctx))
       (dec_flush c options (limitsFor ctx)) new_dec_stream chunks))"
  by (simp add: decryption_stream_def createDecryptionStream_def assertEncryptionKey_def)

lemma decryption_stream_decrypts:
  assumes "opt_allowLegacyDecrypt options \<noteq> None"
  shows "(\<exists>out s. decryption_stream c options ctx chunks = Inr (out, Inr s) \<and> concat out = p) \<longleftrightarrow>
    decryptBuffer c (concat chunks) options ctx = Inr p"
proof (cases "length (opt_key options) = 32 \<and> length (concat chunks) \<le> fmt_maxInputBytes (limitsFor ctx)")
  case True
  then show ?thesis
    using assms dec_run_result[of c options "limitsFor ctx" chunks p]
    by (auto simp: decryption_stream_unfold decryptBuffer_paths)
next
  case False
  then have "\<not> (\<exists>p. decryptBuffer c (concat chunks) options ctx = Inr p)"
    using decryptBuffer_guards by blast
  then show ?thesis
    using False dec_run_result[of c options "limitsFor ctx" chunks p]
    by (auto simp: decryption_stream_unfold split: if_splits)
qed

text \<open>C3: When \<open>allowLegacyDecrypt\<close> is given, the decryption stream ends without an error, having pushed
  the bytes \<open>p\<close>, exactly when \<open>decryptBuffer\<close> returns \<open>p\<close> for the concatenation of the chunks; no
  assumption on the ciphers is needed, and chunk boundaries (inside the header, a frame header, a
  body, or empty chunks) decide nothing.\<close>

theorem decryption_stream_is_decryptBuffer:
  assumes "opt_allowLegacyDecrypt options \<noteq> None"
  shows "(\<exists>out s. decryption_stream c options ctx chunks = Inr (out, Inr s) \<and> concat out = p) \<longleftrightarrow>
    decryptBuffer c (concat chunks) options ctx = Inr p"
  by (rule decryption_stream_decrypts[OF assms])

theorem decryption_stream_is_decryptBuffer_witness:
  "\<exists>out s. decryption_stream toy_crypto (example_options\<lparr>opt_allowLegacyDecrypt := Some False\<rparr>) None
       (map (\<lambda>b. [b]) (sealed_message toy_crypto (replicate 32 7) Aes256Gcm 4 (replicate 16 9)
         (pieces 4 [1, 2, 3, 4, 5])))
     = Inr (out, Inr s) \<and> concat out = [1, 2, 3, 4, 5]"
proof -
  let ?o = "example_options\<lparr>opt_allowLegacyDecrypt := Some False\<rparr>"
  have "opt_key ?o = replicate 32 7" by (simp add: example_options_def)
  from example_decrypts_with[OF this] show ?thesis
    by (subst decryption_stream_is_decryptBuffer) simp_all
qed

text \<open>When \<open>allowLegacyDecrypt\<close> is omitted the two disagree: \<open>decryptBuffer\<close> refuses a legacy packet,
  and the stream decrypts it.\<close>

theorem legacy_default_differs:
  assumes "opt_allowLegacyDecrypt options = None" "length (opt_key options) = 32"
    and "length (concat chunks) \<le> pluginInputLimit ctx" "\<not> takes_framed_path (concat chunks)"
    and "decryptLegacy c (concat chunks) (opt_key options) (limitsFor ctx) = Inr p"
  shows "(\<exists>out s. decryption_stream c options ctx chunks = Inr (out, Inr s) \<and> concat out = p)
    \<and> decryptBuffer c (concat chunks) options ctx = Inl (decryption_failed ''legacy format disabled'')"
proof
  show "\<exists>out s. decryption_stream c options ctx chunks = Inr (out, Inr s) \<and> concat out = p"
    using assms dec_run_result[of c options "limitsFor ctx" chunks p]
    by (auto simp: decryption_stream_unfold limitsFor_def)
  show "decryptBuffer c (concat chunks) options ctx = Inl (decryption_failed ''legacy format disabled'')"
    using assms by (simp add: decryptBuffer_paths limitsFor_def)
qed

theorem legacy_default_differs_witness:
  "\<exists>out s. decryption_stream toy_crypto example_options None
      [1 # replicate 12 3, toy_tag (replicate 32 7) (replicate 12 3) [] [0], [- 1]] = Inr (out, Inr s)
    \<and> concat out = [0]"
proof -
  let ?d = "concat [1 # replicate 12 3, toy_tag (replicate 32 7) (replicate 12 3) [] [0], [- 1]]"
  have t: "length (toy_tag k n a p) = 16" for k n a p by (simp add: toy_tag_def)
  have parts: "subarray ?d 1 13 = replicate 12 3" "drop 29 ?d = [- 1]"
    "subarray ?d 13 29 = toy_tag (replicate 32 7) (replicate 12 3) [] [0]" "length ?d = 30"
    "ID_TO_ALGORITHM (read_be 1 ?d 0) = Some Aes256Gcm"
    by (simp_all add: subarray_def t read_first_simps ID_TO_ALGORITHM_def)
  have "decryptLegacy toy_crypto ?d (opt_key example_options) (limitsFor None) = Inr [0]"
    using parts unfolding decryptLegacy_def format_constants
    by (simp add: limitsFor_default del: concat.simps)
      (simp add: toy_crypto_def example_options_def)
  moreover have "length ?d \<le> pluginInputLimit None"
    by (simp add: t pluginInputLimit_def context_limits_def DEFAULT_LIMITS_def)
  moreover have "\<not> takes_framed_path ?d"
    by (simp add: takes_framed_path_first read_first_simps MAGIC_def utf8_def)
  ultimately show ?thesis
    using legacy_default_differs[of example_options "[1 # replicate 12 3,
        toy_tag (replicate 32 7) (replicate 12 3) [] [0], [- 1]]" None toy_crypto "[0]"]
    by (simp only: example_options_def) simp
qed

section \<open>What leaves the stage early\<close>

text \<open>
  The stage pushes plaintext before it has seen the final frame.  What it has pushed, also when it
  fails later, is what the frames at the start of its input open to, in order and complete.
\<close>

lemma dec_loop_pushed:
  assumes c: "aead_ok c"
  shows "at_frame h dk s v \<Longrightarrow> dec_loop c options limits s rest = (out, x) \<Longrightarrow>
    \<exists>rest'. rest = concat (sealed_data c (hd_algorithm h) dk (hd_bytes h) (dv_expectedSequence v) out) @ rest'"
proof (induction "length rest" arbitrary: rest s v out x rule: less_induct)
  case less
  note inv = less.prems(1)[unfolded at_frame_def, THEN conjunct1]
  show ?case
  proof (cases "decrypt_step c limits h dk v rest")
    case (Inl e)
    have "out = []"
    proof (cases "rest = []")
      case False
      from dec_step_rejects[OF less.prems(1) Inl False, of options] less.prems(2)
      show ?thesis by (auto simp: dec_loop_step[OF inv False])
    qed (use less.prems(2) in simp)
    then show ?thesis by simp
  next
    case (Inr vr)
    obtain v1 r1 where step: "decrypt_step c limits h dk v rest = Inr (v1, r1)" using Inr by (cases vr) auto
    have ne: "rest \<noteq> []" using step by (auto simp: decrypt_step_def format_constants)
    obtain o1 s1 where s1: "dec_step c options limits s rest = (o1, Inr (s1, r1))" "at_frame h dk s1 v1"
      "dv_plaintext v1 = dv_plaintext v @ o1"
      using dec_step_accepts[OF less.prems(1) step] by blast
    obtain o2 where o2: "dec_loop c options limits s1 r1 = (o2, x)" "out = o1 @ o2"
      using less.prems(2) s1(1) by (auto simp: dec_loop_step[OF inv ne] split: prod.splits)
    obtain ty p where ok: "acceptable limits (hd_frameSizeBytes h) v ty p" and v1: "v1 = after_frame v ty p"
      and rest: "rest = sealed_frame c (hd_algorithm h) dk (hd_bytes h) ty (dv_expectedSequence v) p @ r1"
      using decrypt_step_only[OF c step] .
    show ?thesis
    proof (cases "ty = FINAL_FRAME")
      case True
      then have "ds_finalSeen s1" "o1 = []"
        using s1(2,3) v1 by (auto simp: at_frame_def after_frame_simps)
      then have "o2 = []"
        using o2(1) s1(2) by (cases "r1 = []") (auto simp: at_frame_def dec_loop_final)
      with o2 \<open>o1 = []\<close> show ?thesis by simp
    next
      case False
      with acceptable_type[OF ok] have ty: "ty = DATA_FRAME" by simp
      then have o1: "o1 = [p]" "dv_expectedSequence v1 = Suc (dv_expectedSequence v)"
        using s1(3) v1 by (auto simp: after_frame_simps)
      from less.hyps[OF decrypt_step_progress[OF step] s1(2) o2(1)] rest show ?thesis
        by (auto simp: o1 o2 ty)
    qed
  qed
qed

definition opens_as :: "node_crypto \<Rightarrow> buffer \<Rightarrow> buffer \<Rightarrow> buffer list \<Rightarrow> bool" where
  "opens_as c key d out \<longleftrightarrow>
     out = [] \<or> (\<exists>alg fs salt rest. length salt = 16 \<and>
       d = buildHeader alg fs salt @ concat (sealed_data c alg (deriveKey c key (built_header alg fs salt))
             (buildHeader alg fs salt) 0 out) @ rest)"

lemma opens_as_append: "opens_as c key d out \<Longrightarrow> opens_as c key (d @ d') out"
  unfolding opens_as_def by fastforce

lemma dec_loop_opens:
  assumes c: "aead_ok c" and fresh: "dec_fresh s" and r: "dec_loop c options limits s d = (out, x)"
  shows "opens_as c (opt_key options) d out"
proof (cases "d = [] \<or> out = []")
  case True
  then show ?thesis using r by (auto simp: opens_as_def)
next
  case False
  then have d: "d \<noteq> []" by simp
  have len: "GLOBAL_HEADER_LENGTH \<le> length d"
  proof (rule ccontr)
    assume "\<not> GLOBAL_HEADER_LENGTH \<le> length d"
    then obtain s1 where "dec_loop c options limits s d = ([], Inr s1)"
      using dec_loop_header(3)[OF fresh d] by (meson not_less)
    with r False show False by simp
  qed
  obtain h where h: "parseHeader (take GLOBAL_HEADER_LENGTH d) limits = Inr h"
  proof (cases "parseHeader (take GLOBAL_HEADER_LENGTH d) limits")
    case (Inl e)
    then obtain err where "dec_loop c options limits s d = ([], Inl err)"
      using dec_loop_header(2)[OF fresh d len] by blast
    with r False show ?thesis by simp
  qed (use that in blast)
  obtain s1 where at: "at_frame h (deriveKey c (opt_key options) h) s1 decrypt_vars_init"
    and "dec_loop c options limits s d = dec_loop c options limits s1 (drop GLOBAL_HEADER_LENGTH d)"
    using dec_loop_header(1)[OF fresh d len h] by blast
  with dec_loop_pushed[OF c at, of options limits "drop GLOBAL_HEADER_LENGTH d" out x] r obtain rest where
    rest: "drop GLOBAL_HEADER_LENGTH d = concat (sealed_data c (hd_algorithm h)
      (deriveKey c (opt_key options) h) (hd_bytes h) 0 out) @ rest"
    by (auto simp: decrypt_vars_init_def)
  obtain alg fs salt where salt: "length salt = 16" "take GLOBAL_HEADER_LENGTH d = buildHeader alg fs salt"
    "h = built_header alg fs salt" using parseHeader_built[OF h] by blast
  have "d = take GLOBAL_HEADER_LENGTH d @ drop GLOBAL_HEADER_LENGTH d" by simp
  also have "\<dots> = buildHeader alg fs salt @ concat (sealed_data c alg
      (deriveKey c (opt_key options) (built_header alg fs salt)) (buildHeader alg fs salt) 0 out) @ rest"
    unfolding rest salt(2) by (simp add: salt(3))
  finally show ?thesis unfolding opens_as_def using salt(1) by blast
qed

lemma dec_loop_stamp_pushed: "fst (dec_loop c options limits (stamp n fmt s) d) = fst (dec_loop c options limits s d)"
  by (simp add: dec_loop_stamp map_outcome_def split: prod.splits sum.splits)

lemma dec_catch_pushed: "fst (dec_catch r) = fst r"
  by (simp add: dec_catch_def split: prod.splits sum.splits)

lemma run_framed_pushed:
  "ds_format s = FormatFramed \<Longrightarrow> dec_inv s \<Longrightarrow> run_chunks (dec_transform c options limits) s cs = (out, x) \<Longrightarrow>
     \<exists>d d'. concat cs = d @ d' \<and> fst (dec_loop c options limits s d) = out"
proof (induction cs arbitrary: s out)
  case (Cons i cs)
  let ?s = "stamp (ds_totalInput s + length i) FormatFramed s"
  have s: "stamp n FormatFramed s = s\<lparr>ds_totalInput := n\<rparr>" for n
    using Cons.prems(1) by (simp add: stamp_def flip: Cons.prems(1))
  show ?case
  proof (cases "int (length i) > int (fmt_maxInputBytes limits) - int (ds_totalInput s)")
    case True
    with Cons.prems(3) have "out = []" by (auto simp: dec_transform_def dec_catch_def)
    then show ?thesis by (intro exI[of _ "[]"] exI[of _ "concat (i # cs)"]) simp
  next
    case False
    then have t: "dec_transform c options limits s i = dec_catch (dec_loop c options limits ?s i)"
      using Cons.prems(1) by (cases i) (auto simp: dec_transform_def Let_def s)
    obtain o1 y where r: "dec_loop c options limits ?s i = (o1, y)" by fastforce
    show ?thesis
    proof (cases y)
      case (Inl es)
      with t r Cons.prems(3) have "out = o1" by (cases es) (auto simp: dec_catch_def)
      with r have "fst (dec_loop c options limits s i) = out"
        using dec_loop_stamp_pushed by (metis fst_conv)
      then show ?thesis by (intro exI[of _ i] exI[of _ "concat cs"]) simp
    next
      case (Inr s1)
      have s1: "ds_format s1 = FormatFramed" "dec_inv s1"
        using dec_loop_keeps(2)[OF r[unfolded Inr]] decryptor.feed_inv_all[OF _ r[unfolded Inr]] Cons.prems(2)
        by simp_all
      have "dec_transform c options limits s i = (o1, Inr s1)" using t r Inr by simp
      with Cons.prems(3) obtain o2 where
        "run_chunks (dec_transform c options limits) s1 cs = (o2, x)" "out = o1 @ o2"
        by (auto split: prod.splits)
      with Cons.IH[OF s1] obtain d d' where d: "concat cs = d @ d'" "fst (dec_loop c options limits s1 d) = o2"
        by blast
      have "dec_loop c options limits ?s (i @ d) =
          then_do (dec_loop c options limits ?s i) (\<lambda>s'. dec_loop c options limits s' d)"
        by (rule decryptor.feed_append) (simp add: Cons.prems(2))
      then have "fst (dec_loop c options limits ?s (i @ d)) = out"
        using r Inr d \<open>out = o1 @ o2\<close> by (simp split: prod.splits)
      then have "fst (dec_loop c options limits s (i @ d)) = out"
        by (simp only: dec_loop_stamp_pushed)
      with d(1) show ?thesis by (intro exI[of _ "i @ d"] exI[of _ d']) simp
    qed
  qed
qed auto

lemma run_unknown_pushed:
  assumes "ds_format s = FormatUnknown" "ds_totalInput s = 0"
  shows "concat cs \<noteq> [] \<Longrightarrow> format_of (concat cs) = FormatFramed \<Longrightarrow>
    fst (run_chunks (dec_transform c options limits) s cs) =
    fst (run_chunks (dec_transform c options limits) (stamp 0 FormatFramed s) cs)"
proof (induction cs)
  case (Cons i cs)
  show ?case
  proof (cases i)
    case Nil
    have "dec_transform c options limits s [] = ([], Inr s)"
      using assms by (simp add: dec_transform_def stamp_def)
    moreover have "dec_transform c options limits (stamp 0 FormatFramed s) [] = ([], Inr (stamp 0 FormatFramed s))"
      by (simp add: dec_transform_def stamp_def)
    ultimately show ?thesis using Cons Nil by (simp split: prod.splits)
  next
    case (Cons b bs)
    have fmt: "read_be 1 i 0 = read_be 1 MAGIC 0"
      using \<open>format_of (concat (i # cs)) = FormatFramed\<close>
      by (simp add: format_of_def Cons read_first_simps split: if_splits)
    have swap: "s\<lparr>ds_format := f, ds_totalInput := n\<rparr> = s\<lparr>ds_totalInput := n, ds_format := f\<rparr>" for f n
      by simp
    show ?thesis
    proof (cases "length i > fmt_maxInputBytes limits")
      case True
      then show ?thesis using assms by (simp add: dec_transform_def stamp_def dec_catch_def)
    next
      case False
      then have "dec_transform c options limits s i = dec_transform c options limits (stamp 0 FormatFramed s) i"
        using assms fmt by (simp add: dec_transform_def Let_def stamp_def swap Cons)
      then show ?thesis by simp
    qed
  qed
qed simp

text \<open>C5: On framed input, whatever the decryption stream has pushed when it ends, also if it ends with
  an error because the input was cut or altered later, is exactly what the sealed data frames at the
  start of the input open to, from number 0 on, complete and in order: nothing unauthenticated,
  reordered or repeated leaves the stage.\<close>

theorem decryption_stream_pushes_authenticated:
  assumes "aead_ok c" "takes_framed_path (concat chunks)"
    and "decryption_stream c options ctx chunks = Inr (out, r)"
  shows "opens_as c (opt_key options) (concat chunks) out"
proof -
  let ?T = "dec_transform c options (limitsFor ctx)" and ?s = "stamp 0 FormatFramed new_dec_stream"
  have ne: "concat chunks \<noteq> []" and fmt: "format_of (concat chunks) = FormatFramed"
    using assms(2) by (auto simp: takes_framed_path_first format_of_def)
  note new = new_dec_stream_simps dec_inv_new
  from assms(3) have run: "then_do (run_chunks ?T new_dec_stream chunks) (dec_flush c options (limitsFor ctx)) = (out, r)"
    by (auto simp: decryption_stream_unfold run_transform_def split: if_splits)
  have out: "out = fst (run_chunks ?T new_dec_stream chunks)"
  proof (cases "run_chunks ?T new_dec_stream chunks")
    case (Pair o1 x)
    show ?thesis
    proof (cases x)
      case (Inr s1)
      have "run_chunks ?T ?s chunks = (o1, Inr s1)"
        using run_unknown[OF new(1,2,5) ne, of c options "limitsFor ctx" o1 s1] Pair Inr fmt by simp
      then have "\<exists>n. dec_loop c options (limitsFor ctx) (stamp n FormatFramed new_dec_stream) (concat chunks) = (o1, Inr s1)"
        using run_framed[of ?s "limitsFor ctx" c options chunks o1 s1] new(5) by auto
      then have "ds_format s1 = FormatFramed" using dec_loop_keeps(2) by fastforce
      then have "fst (dec_flush c options (limitsFor ctx) s1) = []"
        by (simp add: dec_flush_def dec_catch_def)
      then show ?thesis using run Pair Inr by (auto split: prod.splits)
    qed (use run Pair in auto)
  qed
  have "\<exists>x. run_chunks ?T ?s chunks = (out, x)"
    using out run_unknown_pushed[OF new(1,2) ne fmt, of c options "limitsFor ctx"] by (metis prod.collapse)
  then obtain d d' where d: "concat chunks = d @ d'" "fst (dec_loop c options (limitsFor ctx) ?s d) = out"
    using run_framed_pushed[of ?s c options "limitsFor ctx" chunks out] new(5) by auto
  obtain y where "dec_loop c options (limitsFor ctx) ?s d = (out, y)" using d(2) by (metis prod.collapse)
  from dec_loop_opens[OF assms(1) _ this] have "opens_as c (opt_key options) d out" by (simp add: new)
  then show ?thesis unfolding d(1) by (rule opens_as_append)
qed

theorem decryption_stream_pushes_authenticated_witness:
  "\<exists>out r. decryption_stream toy_crypto example_options None [sealed_message toy_crypto (replicate 32 7)
      Aes256Gcm 4 (replicate 16 9) [[1, 2, 3, 4], [5]]] = Inr (out, r) \<and> concat out = [1, 2, 3, 4, 5]
    \<and> opens_as toy_crypto (replicate 32 7) (sealed_message toy_crypto (replicate 32 7) Aes256Gcm 4
      (replicate 16 9) [[1, 2, 3, 4], [5]]) out"
proof -
  let ?m = "sealed_message toy_crypto (replicate 32 7) Aes256Gcm 4 (replicate 16 9) [[1, 2, 3, 4], [5]]"
  have path: "takes_framed_path (concat [?m])" by (simp add: sealed_message_path)
  have "decrypt_framed toy_crypto ?m example_options (limitsFor None) = Inr [1, 2, 3, 4, 5]"
    using decrypt_framed_sealed[OF aead_ok_toy _ example_fits, of "replicate 16 9" example_options Aes256Gcm]
    by (simp add: example_options_simps)
  moreover have "length ?m \<le> fmt_maxInputBytes (limitsFor None)"
    by (simp add: length_sealed_message toy_crypto_ok limitsFor_default format_constants)
  ultimately obtain out s where "run_transform (dec_transform toy_crypto example_options (limitsFor None))
      (dec_flush toy_crypto example_options (limitsFor None)) new_dec_stream [?m] = (out, Inr s)"
    "concat out = [1, 2, 3, 4, 5]"
    using dec_run_result[of toy_crypto example_options "limitsFor None" "[?m]" "[1, 2, 3, 4, 5]"] path by auto
  then have r: "decryption_stream toy_crypto example_options None [?m] = Inr (out, Inr s)"
    and out: "concat out = [1, 2, 3, 4, 5]"
    by (simp_all add: decryption_stream_unfold example_options_simps)
  from decryption_stream_pushes_authenticated[OF aead_ok_toy path r] r out show ?thesis
    by (auto simp: example_options_simps)
qed

section \<open>Secrets are wiped\<close>

definition dec_wiped :: "dec_stream \<Rightarrow> bool" where
  "dec_wiped s \<longleftrightarrow>
     (\<forall>dk. ds_derivedKey s = Some dk \<longrightarrow> set dk \<subseteq> {0})
     \<and> (\<forall>body. ds_frameBody s = Some body \<longrightarrow> set body \<subseteq> {0})
     \<and> set (ds_globalHeader s) \<subseteq> {0} \<and> set (ds_frameHeader s) \<subseteq> {0} \<and> ds_legacyChunks s = []"

lemma dec_wiped_cleanup: "dec_wiped (dec_cleanup s)"
  using set_zero_fill by (auto simp: dec_wiped_def dec_cleanup_def)

lemma dec_catch_wiped: "dec_catch r = (out, Inl (e, s)) \<Longrightarrow> dec_wiped s"
  by (cases r) (auto simp: dec_catch_def dec_wiped_cleanup split: sum.splits prod.splits)

lemma dec_flush_cleanup: "dec_flush c options limits s1 = (out, Inr s) \<Longrightarrow> \<exists>s2. s = dec_cleanup s2"
  by (auto simp: dec_flush_def split: if_splits sum.split_asm)

text \<open>C37: However the decryption stream ends, the derived key, the body of an unfinished frame and both
  header buffers it leaves behind hold zeros only, and no legacy chunk is retained.\<close>

theorem decryption_stream_wipes:
  assumes "decryption_stream c options ctx chunks = Inr (out, r)"
  shows "dec_wiped (case r of Inl (e, s) \<Rightarrow> s | Inr s \<Rightarrow> s)"
proof -
  let ?T = "dec_transform c options (limitsFor ctx)" and ?F = "dec_flush c options (limitsFor ctx)"
  from assms have run: "then_do (run_chunks ?T new_dec_stream chunks) ?F = (out, r)"
    by (auto simp: decryption_stream_unfold run_transform_def split: if_splits)
  show ?thesis
  proof (cases r)
    case (Inl a)
    obtain e s where a: "a = (e, s)" by (cases a)
    from run Inl a consider out1 s1 i where "?T s1 i = (out1, Inl (e, s))"
      | out1 s1 where "?F s1 = (out1, Inl (e, s))"
      by (auto simp: then_do_eq_Inl dest: run_chunks_error)
    then have "dec_wiped s"
      by cases (auto simp: dec_transform_def dec_flush_def dest: dec_catch_wiped)
    with Inl a show ?thesis by simp
  next
    case (Inr s)
    with run obtain out1 s1 where "?F s1 = (out1, Inr s)" by (auto simp: then_do_eq_Inr)
    with Inr show ?thesis using dec_flush_cleanup dec_wiped_cleanup by fastforce
  qed
qed

theorem decryption_stream_wipes_witness:
  "\<exists>out r. decryption_stream toy_crypto example_options None [utf8 ''PXAE'', [1, 1]] = Inr (out, r)
     \<and> dec_wiped (case r of Inl (e, s) \<Rightarrow> s | Inr s \<Rightarrow> s)"
proof -
  obtain out r where r: "decryption_stream toy_crypto example_options None [utf8 ''PXAE'', [1, 1]] = Inr (out, r)"
    by (simp add: decryption_stream_unfold example_options_simps) (metis prod.collapse)
  from decryption_stream_wipes[OF r] r show ?thesis by blast
qed

end
