(* ===== verification/Operations.thy ===== *)
theory Operations
  imports Resource_Limits
begin

text \<open>
  \<open>src/core/operations.ts\<close> and \<open>DataEngine.createOperationSignal\<close>: how long the package waits for
  code it does not control.  Time is the value of \<open>Date.now()\<close>, a natural number.  A promise is
  known by when and how it settles, or that it never does.  A signal is known by the instant at which
  its \<open>abort\<close> event is delivered, with its reason, and by the deadline that \<open>registerDeadline\<close>
  keeps for it.  Events of the signal that fall on the very instant of a settlement come first.
\<close>

type_synonym time = nat

datatype 'a settlement = Pending | Settles time "px_error + 'a"

text \<open>
  The reason of an abort: one of the package's errors, another \<open>Error\<close> with its \<open>name\<close> and message
  (\<open>AbortSignal.timeout\<close> gives a \<open>TimeoutError\<close>), or \<open>null\<close>.  Any other value that a caller passes
  to \<open>abort\<close> is an error without a special name here.
\<close>

datatype abort_reason = PxReason px_error | ErrorReason string string | NullReason

record abort_signal =
  sig_abort :: "(time \<times> abort_reason) option"
  sig_deadline :: "time option"

fun abortError :: "abort_reason \<Rightarrow> px_error" where
  "abortError (PxReason OperationTimeoutError) = OperationTimeoutError"
| "abortError (PxReason OperationAbortedError) = OperationAbortedError"
| "abortError (PxReason e) = OperationAbortedError"
| "abortError (ErrorReason name message) =
     (if name = ''TimeoutError'' then OperationTimeoutError else OperationAbortedError)"
| "abortError NullReason = OperationAbortedError"

text \<open>\<open>signal.aborted\<close> and \<open>signal.reason\<close> as they are at \<open>now\<close>.\<close>

definition aborted_by :: "abort_signal \<Rightarrow> time \<Rightarrow> abort_reason option" where
  "aborted_by sig now =
     (case sig_abort sig of Some (t, reason) \<Rightarrow> if t \<le> now then Some reason else None | None \<Rightarrow> None)"

definition throwIfAborted :: "abort_signal option \<Rightarrow> time \<Rightarrow> px_error + unit" where
  "throwIfAborted signal now =
     (case signal of None \<Rightarrow> Inr ()
      | Some sig \<Rightarrow>
          (case aborted_by sig now of Some reason \<Rightarrow> Inl (abortError reason)
           | None \<Rightarrow>
               (case sig_deadline sig of
                  Some deadline \<Rightarrow> throw_if (deadline \<le> now) OperationTimeoutError
                | None \<Rightarrow> Inr ())))"

text \<open>
  \<open>awaitOperation(value, signal)\<close> called at \<open>now\<close>: when and how the promise it returns settles.
  Three events compete: the \<open>abort\<close> event, the timer of the deadline and the settlement itself.
\<close>

definition first_failure :: "abort_signal \<Rightarrow> (time \<times> px_error) option" where
  "first_failure sig =
     (case (sig_abort sig, sig_deadline sig) of
        (Some (t, reason), Some d) \<Rightarrow>
          Some (if t \<le> d then (t, abortError reason) else (d, OperationTimeoutError))
      | (Some (t, reason), None) \<Rightarrow> Some (t, abortError reason)
      | (None, Some d) \<Rightarrow> Some (d, OperationTimeoutError)
      | (None, None) \<Rightarrow> None)"

definition awaitOperation ::
  "'a settlement \<Rightarrow> abort_signal option \<Rightarrow> time \<Rightarrow> 'a settlement" where
  "awaitOperation promise signal now =
     (case signal of None \<Rightarrow> promise
      | Some sig \<Rightarrow>
          (case throwIfAborted signal now of Inl e \<Rightarrow> Settles now (Inl e)
           | Inr _ \<Rightarrow>
               (case first_failure sig of None \<Rightarrow> promise
                | Some (t, e) \<Rightarrow>
                    (case promise of
                       Settles ts r \<Rightarrow> if ts < t then Settles ts r else Settles t (Inl e)
                     | Pending \<Rightarrow> Settles t (Inl e)))))"

text \<open>
  \<open>createOperationSignal\<close>: the signal of an operation that starts at \<open>now\<close>.  \<open>AbortSignal.any\<close>
  follows whichever of its signals aborts first, the caller's one when both do.
\<close>

definition abort_any ::
  "(time \<times> abort_reason) option \<Rightarrow> (time \<times> abort_reason) option \<Rightarrow> (time \<times> abort_reason) option" where
  "abort_any a b =
     (case a of None \<Rightarrow> b
      | Some (t, r) \<Rightarrow> (case b of None \<Rightarrow> a | Some (t', r') \<Rightarrow> if t \<le> t' then a else b))"

definition timeout_reason :: abort_reason where
  "timeout_reason = ErrorReason ''TimeoutError'' ''The operation was aborted due to timeout''"

record operation_options =
  op_signal :: "(time \<times> abort_reason) option"
  op_timeoutMs :: "js_limit option"

definition createOperationSignal ::
  "engine_limits \<Rightarrow> operation_options \<Rightarrow> time \<Rightarrow> px_error + abort_signal" where
  "createOperationSignal limits options now =
     (let timeoutMs = (case op_timeoutMs options of
            Some v \<Rightarrow> v | None \<Rightarrow> LInt (int (operationTimeoutMs limits)))
      in case timeoutMs of
           LOther \<Rightarrow> Inl (JsError ''[PipeX] Invalid operation timeout'')
         | LInt ms \<Rightarrow>
             if \<not> is_safe_integer ms \<or> ms < 0 \<or> ms > int MAX_TIMER_MS
             then Inl (JsError ''[PipeX] Invalid operation timeout'')
             else Inr \<lparr>sig_abort = abort_any (op_signal options)
                          (if ms > 0 then Some (now + nat ms, timeout_reason) else None),
                       sig_deadline = (if ms > 0 then Some (now + nat ms) else None)\<rparr>)"

text \<open>A signal that no deadline is registered for, as plugins make them, and \<open>signal.reason\<close> at \<open>now\<close>.\<close>

type_synonym plain_signal = "(time \<times> abort_reason) option"

definition signal_aborted :: "plain_signal \<Rightarrow> time \<Rightarrow> abort_reason option" where
  "signal_aborted signal now =
     (case signal of Some (t, reason) \<Rightarrow> if t \<le> now then Some reason else None | None \<Rightarrow> None)"

section \<open>What waiting guarantees\<close>

text \<open>The instant from which on nothing succeeds any more under this signal.\<close>

definition cut_off :: "abort_signal \<Rightarrow> time option" where
  "cut_off sig = map_option fst (first_failure sig)"

lemma throwIfAborted_None [simp]: "throwIfAborted None now = Inr ()"
  by (simp add: throwIfAborted_def)

lemma throwIfAborted_iff:
  "returns (throwIfAborted (Some sig) now) \<longleftrightarrow> (\<forall>t. cut_off sig = Some t \<longrightarrow> now < t)"
  by (auto simp: throwIfAborted_def cut_off_def first_failure_def aborted_by_def throw_if_def
      split: option.splits)

lemma throwIfAborted_before:
  "cut_off sig = Some t \<Longrightarrow> now < t \<Longrightarrow> throwIfAborted (Some sig) now = Inr ()"
  using throwIfAborted_iff[of sig now] by (cases "throwIfAborted (Some sig) now") auto

lemma throwIfAborted_after:
  "cut_off sig = Some t \<Longrightarrow> t \<le> now \<Longrightarrow> \<exists>e. throwIfAborted (Some sig) now = Inl e"
  using throwIfAborted_iff[of sig now] by (cases "throwIfAborted (Some sig) now") auto

lemma abortError_cases: "abortError r = OperationTimeoutError \<or> abortError r = OperationAbortedError"
  by (cases r rule: abortError.cases) auto

lemma throwIfAborted_error:
  "throwIfAborted signal now = Inl e \<Longrightarrow> e = OperationTimeoutError \<or> e = OperationAbortedError"
  by (auto simp: throwIfAborted_def throw_if_def split: option.splits if_splits)
    (use abortError_cases in blast)+

lemma first_failure_error:
  "first_failure sig = Some (t, e) \<Longrightarrow> e = OperationTimeoutError \<or> e = OperationAbortedError"
  by (auto simp: first_failure_def split: option.splits if_splits)
    (use abortError_cases in blast)+

lemma cut_off_Some: "cut_off sig = Some t \<longleftrightarrow> (\<exists>e. first_failure sig = Some (t, e))"
  by (auto simp: cut_off_def)

lemma awaitOperation_None [simp]: "awaitOperation p None now = p"
  by (simp add: awaitOperation_def)

text \<open>A late result is discarded, never forwarded.\<close>

lemma awaitOperation_success_before:
  assumes "awaitOperation p (Some sig) now = Settles t (Inr a)" "cut_off sig = Some c"
  shows "t < c"
  using assms unfolding awaitOperation_def cut_off_Some
  by (auto split: sum.splits settlement.splits if_splits)

text \<open>With a cut-off the wait ends by it, whatever the promise does.\<close>

lemma awaitOperation_settles:
  assumes "cut_off sig = Some c"
  shows "\<exists>t r. awaitOperation p (Some sig) now = Settles t r \<and> t \<le> max now c"
proof -
  from assms obtain e where f: "first_failure sig = Some (c, e)"
    by (auto simp: cut_off_Some)
  show ?thesis
  proof (cases "throwIfAborted (Some sig) now")
    case (Inl e')
    then show ?thesis by (simp add: awaitOperation_def)
  next
    case (Inr u)
    then show ?thesis
      by (cases p) (auto simp: awaitOperation_def f)
  qed
qed

lemma awaitOperation_early:
  assumes "throwIfAborted (Some sig) now = Inr ()" "\<And>c. cut_off sig = Some c \<Longrightarrow> ts < c"
  shows "awaitOperation (Settles ts r) (Some sig) now = Settles ts r"
  using assms by (auto simp: awaitOperation_def cut_off_Some split: option.splits)

lemma awaitOperation_not_before:
  assumes "\<And>ts r. p = Settles ts r \<Longrightarrow> now \<le> ts"
    and "awaitOperation p (Some sig) now = Settles t r"
  shows "now \<le> t"
proof (cases "throwIfAborted (Some sig) now")
  case (Inl e)
  then show ?thesis using assms by (simp add: awaitOperation_def)
next
  case (Inr u)
  have cut: "now < c" if "cut_off sig = Some c" for c
    using that throwIfAborted_iff[of sig now] Inr by simp
  show ?thesis
  proof (cases "first_failure sig")
    case None
    then show ?thesis using assms Inr by (auto simp: awaitOperation_def)
  next
    case (Some f)
    obtain c e where "f = (c, e)" by (cases f)
    with Some have "first_failure sig = Some (c, e)" by simp
    then show ?thesis using assms Inr cut[of c]
      by (cases p) (auto simp: awaitOperation_def cut_off_Some split: if_splits)
  qed
qed

text \<open>The signal of an operation with a time limit cuts off at that limit or earlier.\<close>

lemma createOperationSignal_cut_off:
  assumes "createOperationSignal limits options now = Inr sig" "sig_deadline sig = Some d"
  shows "\<exists>c. cut_off sig = Some c \<and> c \<le> d \<and> d \<le> now + MAX_TIMER_MS"
  using assms
  by (auto simp: createOperationSignal_def Let_def cut_off_def first_failure_def abort_any_def
      split: option.splits js_limit.splits if_splits)

text \<open>
  With the engine's own limit valid, a signal is refused only for the timeout the caller asked for.
\<close>

lemma createOperationSignal_default:
  assumes "valid_limits limits" "op_timeoutMs options = None"
  shows "\<exists>sig. createOperationSignal limits options now = Inr sig"
  using assms
  by (auto simp: createOperationSignal_def Let_def valid_limits_def is_safe_integer_def
      max_safe_integer_def MAX_TIMER_MS_def)

end
