(* ===== verification/Retry.thy ===== *)
theory Retry
  imports Operations
begin

text \<open>
  \<open>withRetry\<close> of \<open>src/core/core.ts\<close>: attempts, backoff and cancellation.  The function under retry is
  code the package does not control; it is a function from the number of the attempt and the time of
  the call to the settlement of the promise it returns.  A function that throws synchronously is one
  whose promise is rejected at the time of the call.
\<close>

datatype backoff = Exponential | Fixed

record retry_options =
  attempts :: "js_limit option"
  backoff :: "backoff option"
  delayMs :: "js_limit option"

type_synonym 'a attempt = "nat \<Rightarrow> time \<Rightarrow> 'a settlement"

text \<open>
  \<open>setTimeout\<close> of Node.js: a delay outside \<open>1 .. 2 ^ 31 - 1\<close> is replaced by one millisecond.
\<close>

definition timer_ms :: "nat \<Rightarrow> nat" where
  "timer_ms d = (if 1 \<le> d \<and> d \<le> MAX_TIMER_MS then d else 1)"

text \<open>The value an aborted wait rejects with: the reason itself, not \<open>abortError\<close> of it.\<close>

fun raw_reason :: "abort_reason \<Rightarrow> px_error" where
  "raw_reason (PxReason e) = e"
| "raw_reason (ErrorReason name message) = JsError message"
| "raw_reason NullReason = JsError ''[PipeX] Operation aborted''"

definition backoff_wait ::
  "abort_signal option \<Rightarrow> time \<Rightarrow> nat \<Rightarrow> (time \<times> px_error) + time" where
  "backoff_wait signal now d =
     (let wake = now + timer_ms d in
      case signal of None \<Rightarrow> Inr wake
      | Some sig \<Rightarrow>
          (case sig_abort sig of None \<Rightarrow> Inr wake
           | Some (t, reason) \<Rightarrow> if t \<le> wake then Inl (max now t, raw_reason reason) else Inr wake))"

definition next_delay :: "backoff \<Rightarrow> nat \<Rightarrow> nat \<Rightarrow> nat" where
  "next_delay b d i = (case b of Exponential \<Rightarrow> d * 2 ^ i | Fixed \<Rightarrow> d)"

text \<open>
  The loop from attempt \<open>i\<close> on.  The products of \<open>next_delay\<close> are JavaScript numbers; those that
  leave the range where they are exact exceed every limit, and \<open>Math.min\<close> replaces them.
\<close>

function retry_from ::
  "'a attempt \<Rightarrow> nat \<Rightarrow> backoff \<Rightarrow> nat \<Rightarrow> nat \<Rightarrow> abort_signal option \<Rightarrow> nat \<Rightarrow> time \<Rightarrow> px_error
     \<Rightarrow> 'a settlement" where
  "retry_from fn n b d maxDelay signal i now lastError =
     (if \<not> i < n then Settles now (Inl lastError)
      else case throwIfAborted signal now of Inl e \<Rightarrow> Settles now (Inl e)
      | Inr _ \<Rightarrow>
          (case awaitOperation (fn i now) signal now of
             Pending \<Rightarrow> Pending
           | Settles t (Inr a) \<Rightarrow> Settles t (Inr a)
           | Settles t (Inl err) \<Rightarrow>
               (case throwIfAborted signal t of Inl e \<Rightarrow> Settles t (Inl e)
                | Inr _ \<Rightarrow>
                    if i < n - 1 \<and> next_delay b d i > 0
                    then (case backoff_wait signal t (min (next_delay b d i) maxDelay) of
                            Inl (t', e) \<Rightarrow> Settles t' (Inl e)
                          | Inr t' \<Rightarrow> retry_from fn n b d maxDelay signal (i + 1) t' err)
                    else retry_from fn n b d maxDelay signal (i + 1) t err)))"
  by pat_completeness auto
termination
  by (relation "measure (\<lambda>(fn, n, b, d, maxDelay, signal, i, now, lastError). n - i)") auto

declare retry_from.simps [simp del]

fun js_text :: "js_limit \<Rightarrow> string" where
  "js_text (LInt v) = show_int v"
| "js_text LOther = ''NaN''"

definition in_range :: "js_limit \<Rightarrow> int \<Rightarrow> nat \<Rightarrow> bool" where
  "in_range v low high \<longleftrightarrow>
     (case v of LOther \<Rightarrow> False
      | LInt n \<Rightarrow> is_safe_integer n \<and> \<not> n < low \<and> \<not> n > int high)"

definition or_default :: "'a option \<Rightarrow> 'a \<Rightarrow> 'a" where
  "or_default v d = (case v of Some x \<Rightarrow> x | None \<Rightarrow> d)"

text \<open>
  \<open>limits\<close> is \<open>control?.limits\<close>.  The message names a value that is no number \<open>NaN\<close>.
\<close>

definition withRetry ::
  "'a attempt \<Rightarrow> retry_options option \<Rightarrow> engine_limits option \<Rightarrow> abort_signal option \<Rightarrow> time
     \<Rightarrow> 'a settlement" where
  "withRetry fn options limits signal now =
     (let opts = or_default options \<lparr>attempts = None, backoff = None, delayMs = None\<rparr>;
          n = or_default (attempts opts) (LInt 1);
          b = or_default (backoff opts) Fixed;
          d = or_default (delayMs opts) (LInt 0);
          maxAttempts = (case limits of Some l \<Rightarrow> maxRetryAttempts l | None \<Rightarrow> 5);
          maxDelay = (case limits of Some l \<Rightarrow> maxRetryDelayMs l | None \<Rightarrow> 30000)
      in if \<not> in_range n 1 maxAttempts
         then Settles now (Inl (JsError (''[PipeX] Invalid retry attempts: '' @ js_text n)))
         else if \<not> in_range d 0 maxDelay
         then Settles now (Inl (JsError (''[PipeX] Invalid retry delay: '' @ js_text d)))
         else retry_from fn (nat (int_of_limit n)) b (nat (int_of_limit d)) maxDelay signal 0 now
                (JsError ''undefined''))"

section \<open>Options that are accepted\<close>

definition retry_plan :: "retry_options option \<Rightarrow> engine_limits option \<Rightarrow> (nat \<times> backoff \<times> nat \<times> nat) option"
where
  "retry_plan options limits =
     (let opts = or_default options \<lparr>attempts = None, backoff = None, delayMs = None\<rparr>;
          n = or_default (attempts opts) (LInt 1);
          d = or_default (delayMs opts) (LInt 0);
          maxDelay = (case limits of Some l \<Rightarrow> maxRetryDelayMs l | None \<Rightarrow> 30000)
      in if in_range n 1 (case limits of Some l \<Rightarrow> maxRetryAttempts l | None \<Rightarrow> 5)
            \<and> in_range d 0 maxDelay
         then Some (nat (int_of_limit n), or_default (backoff opts) Fixed, nat (int_of_limit d), maxDelay)
         else None)"

lemma withRetry_planned:
  "retry_plan options limits = Some (n, b, d, maxDelay) \<Longrightarrow>
     withRetry fn options limits signal now =
       retry_from fn n b d maxDelay signal 0 now (JsError ''undefined'')"
  by (auto simp: retry_plan_def withRetry_def Let_def split: if_splits)

lemma withRetry_unplanned:
  "retry_plan options limits = None \<Longrightarrow>
     \<exists>m. withRetry fn options limits signal now = Settles now (Inl (JsError m))"
  by (auto simp: retry_plan_def withRetry_def Let_def split: if_splits)

lemma retry_plan_bounds:
  assumes "retry_plan options limits = Some (n, b, d, maxDelay)"
  shows "1 \<le> n" "n \<le> (case limits of Some l \<Rightarrow> maxRetryAttempts l | None \<Rightarrow> 5)" "d \<le> maxDelay"
  using assms by (auto simp: retry_plan_def Let_def in_range_def split: if_splits js_limit.splits)

lemma retry_plan_None: "retry_plan None limits = (if (case limits of Some l \<Rightarrow> 1 \<le> maxRetryAttempts l | None \<Rightarrow> True)
   then Some (1, Fixed, 0, (case limits of Some l \<Rightarrow> maxRetryDelayMs l | None \<Rightarrow> 30000)) else None)"
  by (auto simp: retry_plan_def or_default_def in_range_def is_safe_integer_def max_safe_integer_def
      split: option.splits)

section \<open>Which attempt decides\<close>

text \<open>Without a signal, when every attempt settles: attempt \<open>i\<close> with the result \<open>outcome i\<close>.\<close>

definition attempts_end :: "'a attempt \<Rightarrow> nat \<Rightarrow> (nat \<Rightarrow> px_error + 'a) \<Rightarrow> bool" where
  "attempts_end fn n outcome \<longleftrightarrow> (\<forall>i<n. \<forall>now. \<exists>t\<ge>now. fn i now = Settles t (outcome i))"

definition decisive :: "nat \<Rightarrow> (nat \<Rightarrow> px_error + 'a) \<Rightarrow> px_error + 'a" where
  "decisive n outcome =
     (case find (\<lambda>i. returns (outcome i)) [0..<n] of Some i \<Rightarrow> outcome i | None \<Rightarrow> outcome (n - 1))"

definition decisive_from :: "nat \<Rightarrow> nat \<Rightarrow> px_error \<Rightarrow> (nat \<Rightarrow> px_error + 'a) \<Rightarrow> px_error + 'a" where
  "decisive_from i n final outcome =
     (case find (\<lambda>j. returns (outcome j)) [i..<n] of Some j \<Rightarrow> outcome j
      | None \<Rightarrow> if i < n then outcome (n - 1) else Inl final)"

lemma backoff_wait_None [simp]: "backoff_wait None now d = Inr (now + timer_ms d)"
  by (simp add: backoff_wait_def)

lemma decisive_from_step:
  assumes "i < n"
  shows "decisive_from i n final outcome =
    (case outcome i of Inr a \<Rightarrow> Inr a | Inl e \<Rightarrow> decisive_from (i + 1) n e outcome)"
proof -
  have "[i..<n] = i # [i + 1..<n]" using assms by (simp add: upt_conv_Cons)
  moreover have "n - 1 = i" if "\<not> i + 1 < n" using that assms by simp
  ultimately show ?thesis using assms
    by (auto simp: decisive_from_def split: sum.splits option.splits)
qed

lemma retry_from_decides:
  assumes "attempts_end fn n outcome"
  shows "\<exists>t\<ge>now. retry_from fn n b d maxDelay None i now final
    = Settles t (decisive_from i n final outcome)"
proof (induction "n - i" arbitrary: i now final)
  case 0
  then show ?case
    by (auto simp: retry_from.simps[of _ _ _ _ _ _ i] decisive_from_def)
next
  case (Suc k)
  then have i: "i < n" "k = n - (i + 1)" by simp_all
  from assms i obtain t where t: "t \<ge> now" "fn i now = Settles t (outcome i)"
    by (auto simp: attempts_end_def)
  show ?case
  proof (cases "outcome i")
    case (Inr a)
    then show ?thesis using t i
      by (intro exI[of _ t]) (subst retry_from.simps, simp add: decisive_from_step)
  next
    case (Inl e)
    define t' where "t' = (if i < n - 1 \<and> next_delay b d i > 0
      then t + timer_ms (min (next_delay b d i) maxDelay) else t)"
    have "retry_from fn n b d maxDelay None i now final = retry_from fn n b d maxDelay None (i + 1) t' e"
      using t i Inl unfolding t'_def
      by (subst retry_from.simps) auto
    moreover obtain u where "u \<ge> t'"
      "retry_from fn n b d maxDelay None (i + 1) t' e = Settles u (decisive_from (i + 1) n e outcome)"
      using Suc(1)[OF i(2), of t' e] by blast
    moreover have "now \<le> t'" using t by (simp add: t'_def)
    ultimately show ?thesis using i Inl by (intro exI[of _ u]) (simp add: decisive_from_step)
  qed
qed

lemma decisive_from_0: "1 \<le> n \<Longrightarrow> decisive_from 0 n final outcome = decisive n outcome"
  by (simp add: decisive_from_def decisive_def)

section \<open>Cancellation\<close>

lemma retry_from_success_before:
  assumes "cut_off sig = Some c"
    and "retry_from fn n b d maxDelay (Some sig) i now final = Settles t (Inr a)"
  shows "t < c"
  using assms(2)
proof (induction "n - i" arbitrary: i now final)
  case 0
  then show ?case by (simp add: retry_from.simps[of _ _ _ _ _ _ i])
next
  case (Suc k)
  then have i: "i < n" "k = n - (i + 1)" by simp_all
  note IH = Suc(1)[OF i(2)]
  from Suc.prems i awaitOperation_success_before[OF _ assms(1)] IH show ?case
    by (subst (asm) retry_from.simps)
      (auto split: sum.split_asm settlement.split_asm if_split_asm prod.split_asm)
qed

lemma backoff_wait_abort:
  assumes "sig_abort sig = Some (ta, reason)"
  shows "backoff_wait (Some sig) now d = Inl (t, e) \<Longrightarrow> t \<le> max now ta"
    and "backoff_wait (Some sig) now d = Inr t \<Longrightarrow> t < ta"
  using assms by (auto simp: backoff_wait_def Let_def split: if_splits)

lemma cut_off_le_abort:
  "sig_abort sig = Some (ta, reason) \<Longrightarrow> \<exists>c\<le>ta. cut_off sig = Some c"
  by (auto simp: cut_off_def first_failure_def split: option.splits)

lemma retry_from_settles:
  assumes "sig_abort sig = Some (ta, reason)"
  shows "\<exists>t r. retry_from fn n b d maxDelay (Some sig) i now final = Settles t r \<and> t \<le> max now ta"
proof (induction "n - i" arbitrary: i now final)
  case 0
  then show ?case by (simp add: retry_from.simps[of _ _ _ _ _ _ i])
next
  case (Suc k)
  then have i: "i < n" "k = n - (i + 1)" by simp_all
  note IH = Suc(1)[OF i(2)]
  obtain c where c: "cut_off sig = Some c" "c \<le> ta"
    using cut_off_le_abort[OF assms] by blast
  show ?case
  proof (cases "throwIfAborted (Some sig) now")
    case (Inl e)
    then show ?thesis using i by (subst retry_from.simps) simp
  next
    case start: (Inr u)
    obtain t r where t: "awaitOperation (fn i now) (Some sig) now = Settles t r" "t \<le> max now ta"
      using awaitOperation_settles[OF c(1)] c(2) by (metis max.coboundedI2 max.mono order_refl order_trans)
    show ?thesis
    proof (cases r)
      case (Inr a)
      then show ?thesis using i start t by (subst retry_from.simps) simp
    next
      case err: (Inl e)
      show ?thesis
      proof (cases "throwIfAborted (Some sig) t")
        case (Inl e')
        then show ?thesis using i start t err by (subst retry_from.simps) simp
      next
        case (Inr u')
        show ?thesis
        proof (cases "i < n - 1 \<and> next_delay b d i > 0")
          case True
          then show ?thesis
          proof (cases "backoff_wait (Some sig) t (min (next_delay b d i) maxDelay)")
            case wait: (Inl te)
            obtain t' e' where "te = (t', e')" by (cases te)
            with wait have "t' \<le> max t ta" using backoff_wait_abort(1)[OF assms] by simp
            with t have "t' \<le> max now ta" by linarith
            then show ?thesis using i start t err Inr True wait \<open>te = (t', e')\<close>
              by (subst retry_from.simps) simp
          next
            case wait: (Inr t')
            then have "t' < ta" using backoff_wait_abort(2)[OF assms, of t] by simp
            moreover obtain t2 r2 where
              "retry_from fn n b d maxDelay (Some sig) (i + 1) t' e = Settles t2 r2" "t2 \<le> max t' ta"
              using IH[of t' e] by blast
            ultimately show ?thesis using i start t err Inr True wait
              by (subst retry_from.simps) simp
          qed
        next
          case False
          obtain t2 r2 where
            "retry_from fn n b d maxDelay (Some sig) (i + 1) t e = Settles t2 r2" "t2 \<le> max t ta"
            using IH[of t e] by blast
          then show ?thesis using i start t err Inr False
            by (subst retry_from.simps) auto
        qed
      qed
    qed
  qed
qed

section \<open>The backoff schedule\<close>

text \<open>The wait between attempt \<open>j\<close> and the next one that the options ask for.\<close>

definition planned_wait :: "backoff \<Rightarrow> nat \<Rightarrow> nat \<Rightarrow> nat \<Rightarrow> nat" where
  "planned_wait b d maxDelay j = min (next_delay b d j) maxDelay"

definition always_failing :: "'a attempt \<Rightarrow> nat \<Rightarrow> (nat \<Rightarrow> nat) \<Rightarrow> (nat \<Rightarrow> px_error) \<Rightarrow> bool" where
  "always_failing fn n dur err \<longleftrightarrow> (\<forall>i<n. \<forall>now. fn i now = Settles (now + dur i) (Inl (err i)))"

lemma wait_of_plan:
  assumes "d \<le> maxDelay" "maxDelay \<le> MAX_TIMER_MS"
  shows "(if 0 < next_delay b d i then t + timer_ms (min (next_delay b d i) maxDelay) else t)
    = t + planned_wait b d maxDelay i"
proof (cases "0 < next_delay b d i")
  case True
  then have "0 < maxDelay" using assms by (cases b) (auto simp: next_delay_def)
  then show ?thesis using True assms by (auto simp: planned_wait_def timer_ms_def min_def)
qed (simp add: planned_wait_def)

lemma retry_from_schedule:
  assumes "always_failing fn n dur err" "d \<le> maxDelay" "maxDelay \<le> MAX_TIMER_MS" "i < n"
  shows "retry_from fn n b d maxDelay None i now e0 =
    Settles (now + (\<Sum>j\<in>{i..<n}. dur j) + (\<Sum>j\<in>{i..<n - 1}. planned_wait b d maxDelay j))
      (Inl (err (n - 1)))"
  using assms(4)
proof (induction "n - i" arbitrary: i now e0)
  case (Suc k)
  have fn: "fn i now = Settles (now + dur i) (Inl (err i))"
    using assms(1) Suc.prems by (simp add: always_failing_def)
  show ?case
  proof (cases "i + 1 < n")
    case True
    have "retry_from fn n b d maxDelay None i now e0 =
      retry_from fn n b d maxDelay None (i + 1) (now + dur i + planned_wait b d maxDelay i) (err i)"
      using Suc.prems True fn wait_of_plan[OF assms(2,3), of b i "now + dur i"]
      by (subst retry_from.simps) (auto split: if_split_asm)
    also have "\<dots> = Settles (now + dur i + planned_wait b d maxDelay i
        + (\<Sum>j\<in>{i + 1..<n}. dur j) + (\<Sum>j\<in>{i + 1..<n - 1}. planned_wait b d maxDelay j))
        (Inl (err (n - 1)))"
      using Suc.hyps(2) True by (intro Suc.hyps(1)) simp_all
    finally show ?thesis
      using Suc.prems True by (simp add: sum.atLeast_Suc_lessThan[of i] ac_simps)
  next
    case False
    then have n: "n = i + 1" using Suc.prems by simp
    show ?thesis using fn unfolding n
      by (subst retry_from.simps) (simp add: retry_from.simps[of _ _ _ _ _ _ "Suc i"])
  qed
qed simp

text \<open>
  A wait beyond the range of \<open>setTimeout\<close>, which \<open>#validateLimits\<close> lets \<open>maxRetryDelayMs\<close> allow,
  lasts one millisecond.
\<close>

lemma oversized_wait:
  "MAX_TIMER_MS < d \<Longrightarrow> backoff_wait None now d = Inr (now + 1)"
  by (simp add: timer_ms_def)

lemma withRetry_settles:
  assumes "sig_abort sig = Some (ta, reason)"
  shows "\<exists>t r. withRetry fn options limits (Some sig) now = Settles t r \<and> t \<le> max now ta"
proof (cases "retry_plan options limits")
  case None
  then obtain m where "withRetry fn options limits (Some sig) now = Settles now (Inl (JsError m))"
    using withRetry_unplanned by blast
  then show ?thesis by simp
next
  case (Some plan)
  obtain n b d maxDelay where "plan = (n, b, d, maxDelay)" by (cases plan)
  with Some have "retry_plan options limits = Some (n, b, d, maxDelay)" by simp
  then show ?thesis using retry_from_settles[OF assms] by (simp add: withRetry_planned)
qed

lemma withRetry_success_before:
  assumes "cut_off sig = Some c" "withRetry fn options limits (Some sig) now = Settles t (Inr a)"
  shows "t < c"
proof (cases "retry_plan options limits")
  case None
  then show ?thesis using withRetry_unplanned[OF None, of fn "Some sig" now] assms(2) by auto
next
  case (Some plan)
  obtain n b d maxDelay where "plan = (n, b, d, maxDelay)" by (cases plan)
  with Some have "retry_plan options limits = Some (n, b, d, maxDelay)" by simp
  then have "retry_from fn n b d maxDelay (Some sig) 0 now (JsError ''undefined'') = Settles t (Inr a)"
    using assms(2) by (simp add: withRetry_planned)
  then show ?thesis by (rule retry_from_success_before[OF assms(1)])
qed

section \<open>Properties\<close>

text \<open>With accepted options and no signal, \<open>withRetry\<close> returns what the first successful attempt
  returns, and rejects with the error of the last permitted attempt when all of them fail; it never
  hangs when the attempts do not.\<close>

theorem retry_first_success:
  assumes "retry_plan options limits = Some (n, b, d, maxDelay)" "attempts_end fn n outcome"
  shows "\<exists>t\<ge>now. withRetry fn options limits None now = Settles t (decisive n outcome)"
proof -
  have "decisive_from 0 n e outcome = decisive n outcome" for e
    using retry_plan_bounds(1)[OF assms(1)] by (rule decisive_from_0)
  then show ?thesis
    using retry_from_decides[OF assms(2), of now b d maxDelay 0 "JsError ''undefined''"]
    by (simp add: withRetry_planned[OF assms(1)])
qed

definition flaky :: "nat \<Rightarrow> string attempt" where
  "flaky k i now = Settles (now + 5) (if i < k then Inl (JsError ''flaky'') else Inr ''ok'')"

definition three_attempts :: retry_options where
  "three_attempts = \<lparr>attempts = Some (LInt 3), backoff = Some Exponential, delayMs = Some (LInt 10)\<rparr>"

lemma three_attempts_plan: "retry_plan (Some three_attempts) None = Some (3, Exponential, 10, 30000)"
  by (simp add: retry_plan_def three_attempts_def or_default_def in_range_def is_safe_integer_def
      max_safe_integer_def)

lemma flaky_ends: "attempts_end (flaky k) n (\<lambda>i. if i < k then Inl (JsError ''flaky'') else Inr ''ok'')"
  by (auto simp: attempts_end_def flaky_def)

theorem retry_first_success_witness:
  "\<exists>t\<ge>100. withRetry (flaky 2) (Some three_attempts) None None 100 = Settles t (Inr ''ok'')"
  using retry_first_success[OF three_attempts_plan flaky_ends[of 2], of 100]
  by (simp add: decisive_def upt_rec[of 0] upt_rec[of 1] upt_rec[of 2] numeral_2_eq_2 numeral_3_eq_3)

text \<open>When every attempt fails, the attempts are spaced by the backoff the options ask for,
  doubled after each attempt if it is exponential and capped at \<open>maxRetryDelayMs\<close>, and
  \<open>withRetry\<close> rejects with the last error at exactly the sum of the attempts and the waits.\<close>

theorem retry_backoff_schedule:
  assumes "retry_plan options limits = Some (n, b, d, maxDelay)" "maxDelay \<le> MAX_TIMER_MS"
    and "always_failing fn n dur err"
  shows "withRetry fn options limits None now =
    Settles (now + (\<Sum>j<n. dur j) + (\<Sum>j<n - 1. min (next_delay b d j) maxDelay)) (Inl (err (n - 1)))"
proof -
  have "0 < n" "d \<le> maxDelay" using retry_plan_bounds[OF assms(1)] by simp_all
  then show ?thesis
    using retry_from_schedule[OF assms(3) _ assms(2), of d 0 b now "JsError ''undefined''"]
    by (simp add: withRetry_planned[OF assms(1)] planned_wait_def atLeast0LessThan)
qed

theorem retry_backoff_schedule_witness:
  "withRetry (flaky 9) (Some three_attempts) None None 100 = Settles 145 (Inl (JsError ''flaky''))"
  using retry_backoff_schedule[OF three_attempts_plan, of "flaky 9" "\<lambda>_. 5" "\<lambda>_. JsError ''flaky''" 100]
  by (simp add: always_failing_def flaky_def MAX_TIMER_MS_def next_delay_def numeral_3_eq_3
      numeral_2_eq_2)

text \<open>C40: Whatever the function under retry does, even when its promise never settles, an operation
  whose signal aborts at some instant has settled by that instant.\<close>

theorem retry_settles_by_abort:
  assumes "sig_abort sig = Some (ta, reason)"
  shows "\<exists>t r. withRetry fn options limits (Some sig) now = Settles t r \<and> t \<le> max now ta"
  using assms by (rule withRetry_settles)

theorem retry_settles_by_abort_witness:
  "\<exists>t r. withRetry (\<lambda>_ _. Pending :: string settlement) None None
     (Some \<lparr>sig_abort = Some (50, timeout_reason), sig_deadline = Some 50\<rparr>) 20 = Settles t r \<and> t \<le> 50"
  using retry_settles_by_abort[of "\<lparr>sig_abort = Some (50, timeout_reason), sig_deadline = Some 50\<rparr>"
      50 timeout_reason "\<lambda>_ _. Pending :: string settlement" None None 20] by simp

text \<open>No attempt that ends at or after the abort or the deadline of the operation, whichever is
  first, is ever reported as a success.\<close>

theorem retry_no_late_success:
  assumes "cut_off sig = Some c" "withRetry fn options limits (Some sig) now = Settles t (Inr a)"
  shows "t < c"
  using assms by (rule withRetry_success_before)

lemma flaky_attempt_in_time:
  "withRetry (flaky 0) None None (Some \<lparr>sig_abort = None, sig_deadline = Some 50\<rparr>) 20 = Settles 25 (Inr ''ok'')"
  by (simp add: withRetry_planned retry_plan_None retry_from.simps throwIfAborted_def aborted_by_def
      awaitOperation_def first_failure_def flaky_def)

theorem retry_no_late_success_witness: "(25::time) < 50"
  by (rule retry_no_late_success[OF _ flaky_attempt_in_time]) (simp add: cut_off_def first_failure_def)

text \<open>An abort that arrives while \<open>withRetry\<close> waits between two attempts rejects with the raw
  reason of the signal, not with the package's abort or timeout error that every other point of the
  operation reports.\<close>

theorem retry_abort_in_backoff_is_raw:
  assumes "retry_plan options limits = Some (n, b, d, maxDelay)" "1 < n" "0 < d"
    and "fn 0 now = Settles t (Inl err)"
    and "sig_abort sig = Some (ta, reason)" "cut_off sig = Some ta" "now < ta" "t < ta"
    and "ta \<le> t + timer_ms (min d maxDelay)"
  shows "withRetry fn options limits (Some sig) now = Settles ta (Inl (raw_reason reason))"
proof -
  have m: "next_delay b d 0 = d" by (cases b) (simp_all add: next_delay_def)
  have wait: "backoff_wait (Some sig) t (min d maxDelay) = Inl (ta, raw_reason reason)"
    using assms(5,8,9) by (simp add: backoff_wait_def)
  have now: "throwIfAborted (Some sig) now = Inr ()" "throwIfAborted (Some sig) t = Inr ()"
    using assms(6-8) throwIfAborted_before by blast+
  have "awaitOperation (fn 0 now) (Some sig) now = Settles t (Inl err)"
    unfolding assms(4) using assms(6,8) now(1) by (intro awaitOperation_early) auto
  then show ?thesis
    using assms(2,3) wait now unfolding withRetry_planned[OF assms(1)]
    by (subst retry_from.simps) (simp add: m)
qed

definition timeout_50 :: abort_signal where
  "timeout_50 = \<lparr>sig_abort = Some (50, timeout_reason), sig_deadline = Some 50\<rparr>"

definition slow_retry :: retry_options where
  "slow_retry = \<lparr>attempts = Some (LInt 2), backoff = None, delayMs = Some (LInt 1000)\<rparr>"

theorem retry_abort_in_backoff_is_raw_witness:
  "withRetry (flaky 2) (Some slow_retry) None (Some timeout_50) 20
     = Settles 50 (Inl (JsError ''The operation was aborted due to timeout''))"
proof -
  have plan: "retry_plan (Some slow_retry) None = Some (2, Fixed, 1000, 30000)"
    by (simp add: retry_plan_def slow_retry_def or_default_def in_range_def is_safe_integer_def
        max_safe_integer_def)
  have "withRetry (flaky 2) (Some slow_retry) None (Some timeout_50) 20
     = Settles 50 (Inl (raw_reason timeout_reason))"
    by (rule retry_abort_in_backoff_is_raw[OF plan, where t = 25 and err = "JsError ''flaky''"])
      (simp_all add: flaky_def timeout_50_def cut_off_def first_failure_def
        timer_ms_def MAX_TIMER_MS_def)
  then show ?thesis by (simp add: timeout_reason_def)
qed

end
