(* ===== verification/Plugins.thy ===== *)
theory Plugins
  imports Retry
begin

text \<open>
  Plugins as the engine sees them: \<open>ProcessorPlugin\<close> and \<open>ProcessorContext\<close> of \<open>types.ts\<close>, the
  defaults of \<open>BasePlugin\<close> (\<open>plugin.ts\<close>), the capability checks of \<open>core.ts\<close> and, on the same
  pattern, those of a KMS provider (\<open>kmsCapabilities.ts\<close>).  A plugin is code the package does not
  control, so its operations are arbitrary attempts in the sense of \<open>withRetry\<close>.
\<close>

section \<open>Data\<close>

text \<open>A Node.js buffer with its identity, by which a \<open>WeakMap\<close> finds it.\<close>

type_synonym js_buffer = "nat \<times> buffer"

abbreviation bytes_of :: "js_buffer \<Rightarrow> buffer" where
  "bytes_of b \<equiv> snd b"

abbreviation buffer_id :: "js_buffer \<Rightarrow> nat" where
  "buffer_id b \<equiv> fst b"

record processor_context =
  ctx_requestId :: string
  ctx_timestamp :: time
  ctx_signal :: "abort_signal option"
  ctx_limits :: "engine_limits option"
  ctx_metadata :: "(string \<rightharpoonup> string) option"

text \<open>\<open>makeContext\<close>, less the logger and the span.\<close>

definition makeContext ::
  "string \<Rightarrow> (string \<rightharpoonup> string) \<Rightarrow> abort_signal option \<Rightarrow> engine_limits option \<Rightarrow> time \<Rightarrow> processor_context"
where
  "makeContext requestId extra signal limits now =
     \<lparr>ctx_requestId = requestId, ctx_timestamp = now, ctx_signal = signal, ctx_limits = limits,
      ctx_metadata = Some extra\<rparr>"

text \<open>\<open>context.metadata ??= {}; context.metadata[key] = value\<close>.\<close>

definition set_metadata :: "string \<Rightarrow> string \<Rightarrow> processor_context \<Rightarrow> processor_context" where
  "set_metadata key value ctx =
     ctx\<lparr>ctx_metadata := Some ((case ctx_metadata ctx of None \<Rightarrow> Map.empty | Some m \<Rightarrow> m)(key \<mapsto> value))\<rparr>"

text \<open>An optional boolean property, which JavaScript code may have given any value.\<close>

datatype js_flag = FUndefined | FBool bool | FOther

text \<open>
  One call of \<open>process\<close> or \<open>reverse\<close>: the promise it returns is settled with a buffer, or with a
  value that is no buffer (\<open>None\<close>).
\<close>

type_synonym plugin_call = "processor_context \<Rightarrow> js_buffer \<Rightarrow> js_buffer option attempt"

text \<open>The property \<open>reverse\<close>: no function, the one inherited from \<open>BasePlugin\<close>, or another one.\<close>

datatype reverse_method = NoReverse | BaseReverse | OwnReverse plugin_call

record plugin =
  plugin_name :: string
  plugin_version :: string
  plugin_reversible :: js_flag
  plugin_streaming :: js_flag
  plugin_process :: plugin_call
  plugin_reverse :: reverse_method
  plugin_createStream :: bool
  plugin_retryOptions :: "retry_options option"

definition plugin_id :: "plugin \<Rightarrow> string" where
  "plugin_id p = plugin_name p @ ''@'' @ plugin_version p"

text \<open>\<open>BasePlugin\<close>: the getter \<open>reversible\<close> and the method \<open>reverse\<close>.\<close>

definition base_reversible :: "reverse_method \<Rightarrow> js_flag" where
  "base_reversible m = FBool (case m of BaseReverse \<Rightarrow> False | _ \<Rightarrow> True)"

definition base_reverse :: "plugin \<Rightarrow> plugin_call" where
  "base_reverse p ctx data i now = Settles now (Inl (UnsupportedReverseError (plugin_id p)))"

text \<open>\<open>plugin.reverse!(data, ctx)\<close>.\<close>

definition call_reverse :: "plugin \<Rightarrow> plugin_call" where
  "call_reverse p ctx data i now =
     (case plugin_reverse p of
        NoReverse \<Rightarrow> Settles now (Inl (JsTypeError ''plugin.reverse is not a function''))
      | BaseReverse \<Rightarrow> base_reverse p ctx data i now
      | OwnReverse f \<Rightarrow> f ctx data i now)"

section \<open>Capabilities of a plugin\<close>

datatype stream_mode = Native | Fallback | NoStream

record plugin_capabilities =
  cap_reverse :: bool
  cap_streaming :: bool
  cap_streamMode :: stream_mode

definition has_own_reverse :: "plugin \<Rightarrow> bool" where
  "has_own_reverse p = (case plugin_reverse p of OwnReverse f \<Rightarrow> True | _ \<Rightarrow> False)"

fun is_flag :: "js_flag \<Rightarrow> bool" where
  "is_flag FUndefined = True"
| "is_flag (FBool b) = True"
| "is_flag FOther = False"

definition hasStreamSupport :: "plugin \<Rightarrow> bool" where
  "hasStreamSupport p = plugin_createStream p"

definition getPluginCapabilities :: "plugin \<Rightarrow> px_error + plugin_capabilities" where
  "getPluginCapabilities p =
     (let pluginId = plugin_id p;
          reversible = plugin_reversible p;
          streaming = plugin_streaming p
      in if \<not> is_flag reversible
         then Inl (InvalidPluginCapabilityError pluginId CapReversible MUST_BE_BOOLEAN)
         else if \<not> is_flag streaming
         then Inl (InvalidPluginCapabilityError pluginId CapStreaming MUST_BE_BOOLEAN)
         else if reversible = FBool True \<and> \<not> has_own_reverse p
         then Inl (InvalidPluginCapabilityError pluginId CapReversible MISSING_IMPLEMENTATION)
         else if streaming = FBool False \<and> plugin_createStream p
         then Inl (InvalidPluginCapabilityError pluginId CapStreaming CONFLICTING_IMPLEMENTATION)
         else
           let canStream = streaming \<noteq> FBool False in
           Inr \<lparr>cap_reverse = (reversible \<noteq> FBool False \<and> has_own_reverse p),
                cap_streaming = canStream,
                cap_streamMode =
                  (if canStream then (if plugin_createStream p then Native else Fallback)
                   else NoStream)\<rparr>)"

datatype plugin_operation = OpProcess | OpReverse | OpStream | OpUnknown

definition supportsOperation :: "plugin \<Rightarrow> plugin_operation \<Rightarrow> px_error + bool" where
  "supportsOperation p operation =
     rbind (getPluginCapabilities p) (\<lambda>capabilities.
       case operation of
         OpProcess \<Rightarrow> Inr True
       | OpReverse \<Rightarrow> Inr (cap_reverse capabilities)
       | OpStream \<Rightarrow> Inr (cap_streaming capabilities)
       | OpUnknown \<Rightarrow> Inl (JsTypeError ''[PipeX] Unknown plugin operation''))"

definition supportsReverse :: "plugin \<Rightarrow> px_error + bool" where
  "supportsReverse p = supportsOperation p OpReverse"

text \<open>\<open>plugins.find(plugin => !supports(plugin))\<close>, where the test itself may throw.\<close>

fun find_unsupported :: "(plugin \<Rightarrow> px_error + bool) \<Rightarrow> plugin list \<Rightarrow> px_error + plugin option" where
  "find_unsupported supports [] = Inr None"
| "find_unsupported supports (p # ps) =
     rbind (supports p) (\<lambda>ok. if ok then find_unsupported supports ps else Inr (Some p))"

definition assertReversiblePipeline :: "plugin list \<Rightarrow> px_error + unit" where
  "assertReversiblePipeline ps =
     rbind (find_unsupported supportsReverse ps) (\<lambda>unsupported.
       case unsupported of None \<Rightarrow> Inr () | Some p \<Rightarrow> Inl (UnsupportedReverseError (plugin_id p)))"

definition assertStreamingPipeline :: "plugin list \<Rightarrow> px_error + unit" where
  "assertStreamingPipeline ps =
     rbind (find_unsupported (\<lambda>p. supportsOperation p OpStream) ps) (\<lambda>unsupported.
       case unsupported of None \<Rightarrow> Inr () | Some p \<Rightarrow> Inl (UnsupportedStreamingError (plugin_id p)))"

section \<open>Capabilities of a KMS provider\<close>

text \<open>
  What the checks read of a provider: what each operation declares, if there is a declaration at
  all, and which methods are functions.
\<close>

datatype kms_declarations = NoDeclarations | Declarations "kms_operation \<Rightarrow> js_flag" | BadDeclarations

record kms_provider =
  kms_declared :: kms_declarations
  kms_implemented :: "kms_operation \<Rightarrow> bool"

definition kms_operations :: "kms_operation list" where
  "kms_operations = [KmsEncrypt, KmsDecrypt, KmsGenerateDataKey]"

definition kms_declaration :: "kms_provider \<Rightarrow> kms_operation \<Rightarrow> js_flag" where
  "kms_declaration provider op =
     (case kms_declared provider of Declarations f \<Rightarrow> f op | _ \<Rightarrow> FUndefined)"

definition kms_capability :: "kms_provider \<Rightarrow> kms_operation \<Rightarrow> px_error + bool" where
  "kms_capability provider op =
     (let declared = kms_declaration provider op; implemented = kms_implemented provider op in
      if \<not> is_flag declared then Inl (InvalidKmsProviderCapabilityError op KMS_MUST_BE_BOOLEAN)
      else if declared = FBool True \<and> \<not> implemented
      then Inl (InvalidKmsProviderCapabilityError op KMS_MISSING_IMPLEMENTATION)
      else Inr (case declared of FBool b \<Rightarrow> b | _ \<Rightarrow> implemented))"

fun kms_capabilities_of ::
  "kms_provider \<Rightarrow> kms_operation list \<Rightarrow> px_error + (kms_operation \<times> bool) list" where
  "kms_capabilities_of provider [] = Inr []"
| "kms_capabilities_of provider (op # ops) =
     rbind (kms_capability provider op) (\<lambda>b.
       rbind (kms_capabilities_of provider ops) (\<lambda>cs. Inr ((op, b) # cs)))"

text \<open>A provider that is no object is \<open>None\<close>.\<close>

definition getKmsProviderCapabilities ::
  "kms_provider option \<Rightarrow> px_error + (kms_operation \<times> bool) list" where
  "getKmsProviderCapabilities provider =
     (case provider of
        None \<Rightarrow> Inl (JsTypeError ''[PipeX] Invalid KMS provider'')
      | Some p \<Rightarrow>
          if kms_declared p = BadDeclarations
          then Inl (JsTypeError ''[PipeX] Invalid KMS provider capabilities'')
          else kms_capabilities_of p kms_operations)"

text \<open>\<open>operation\<close> is \<open>None\<close> when it is none of the three.\<close>

definition supportsKmsOperation :: "kms_provider option \<Rightarrow> kms_operation option \<Rightarrow> px_error + bool" where
  "supportsKmsOperation provider operation =
     (case operation of
        None \<Rightarrow> Inl (JsTypeError ''[PipeX] Unknown KMS operation'')
      | Some op \<Rightarrow>
          rbind (getKmsProviderCapabilities provider) (\<lambda>cs. Inr (map_of cs op = Some True)))"

definition assertKmsOperation :: "kms_provider option \<Rightarrow> kms_operation \<Rightarrow> px_error + unit" where
  "assertKmsOperation provider op =
     rbind (supportsKmsOperation provider (Some op)) (\<lambda>ok.
       throw_if (\<not> ok) (UnsupportedKmsOperationError op))"

section \<open>What the checks promise\<close>

lemma getPluginCapabilities_ok:
  assumes "getPluginCapabilities p = Inr c"
  shows "cap_reverse c \<longleftrightarrow> plugin_reversible p \<noteq> FBool False \<and> has_own_reverse p"
    and "cap_streaming c \<longleftrightarrow> plugin_streaming p \<noteq> FBool False"
    and "cap_streamMode c = Native \<longleftrightarrow> plugin_createStream p"
    and "cap_streamMode c = NoStream \<longleftrightarrow> \<not> cap_streaming c"
  using assms by (auto simp: getPluginCapabilities_def Let_def split: if_splits)

text \<open>A subclass of \<open>BasePlugin\<close> that declares nothing is always accepted.\<close>

lemma base_plugin_accepted:
  assumes "plugin_reversible p = base_reversible (plugin_reverse p)"
    and "plugin_reverse p \<noteq> NoReverse" "plugin_streaming p = FUndefined"
  shows "returns (getPluginCapabilities p)"
  using assms
  by (auto simp: getPluginCapabilities_def Let_def base_reversible_def has_own_reverse_def
      split: reverse_method.splits)

lemma call_reverse_own:
  "has_own_reverse p \<Longrightarrow> \<exists>f. plugin_reverse p = OwnReverse f \<and> call_reverse p = f"
  by (auto simp: has_own_reverse_def call_reverse_def fun_eq_iff split: reverse_method.splits)

lemma find_unsupported_ok:
  assumes "\<And>p. p \<in> set ps \<Longrightarrow> supports p = Inr (good p)"
  shows "find_unsupported supports ps = Inr (find (\<lambda>p. \<not> good p) ps)"
  using assms by (induction ps) auto

lemma find_unsupported_None:
  "find_unsupported supports ps = Inr None \<longleftrightarrow> (\<forall>p\<in>set ps. supports p = Inr True)"
  by (induction ps) (auto simp: rbind_eq_Inr split: if_splits)

lemma assertReversiblePipeline_iff:
  "assertReversiblePipeline ps = Inr u \<longleftrightarrow> (\<forall>p\<in>set ps. supportsReverse p = Inr True)"
  unfolding find_unsupported_None[symmetric] assertReversiblePipeline_def
  by (auto simp: rbind_eq_Inr split: option.splits)

lemma supportsReverse_own:
  "supportsReverse p = Inr True \<Longrightarrow> has_own_reverse p"
  by (auto simp: supportsReverse_def supportsOperation_def rbind_eq_Inr
      dest: getPluginCapabilities_ok(1))

lemma kms_capability_True:
  "kms_capability provider op = Inr True \<longleftrightarrow>
     kms_implemented provider op \<and> kms_declaration provider op \<in> {FUndefined, FBool True}"
  by (cases "kms_declaration provider op") (auto simp: kms_capability_def Let_def)

lemma kms_capabilities_of_sound:
  "kms_capabilities_of provider ops = Inr cs \<Longrightarrow> (op, b) \<in> set cs \<Longrightarrow> kms_capability provider op = Inr b"
  by (induction ops arbitrary: cs) (auto simp: rbind_eq_Inr)

text \<open>A pipeline that passes the check for reversibility consists of plugins that have a reverse
  operation of their own, so undoing it never calls a missing method or the one inherited from
  \<open>BasePlugin\<close>, whose only behaviour is to throw.\<close>

theorem reversible_pipeline_implemented:
  assumes "assertReversiblePipeline ps = Inr ()" "p \<in> set ps"
  shows "\<exists>f. plugin_reverse p = OwnReverse f \<and> call_reverse p = f"
  using assms call_reverse_own supportsReverse_own unfolding assertReversiblePipeline_iff by blast

definition echo_plugin :: plugin where
  "echo_plugin = \<lparr>plugin_name = ''echo'', plugin_version = ''1'', plugin_reversible = FUndefined,
     plugin_streaming = FUndefined, plugin_process = (\<lambda>ctx data i now. Settles now (Inr (Some data))),
     plugin_reverse = OwnReverse (\<lambda>ctx data i now. Settles now (Inr (Some data))),
     plugin_createStream = False, plugin_retryOptions = None\<rparr>"

lemma echo_reversible: "assertReversiblePipeline [echo_plugin] = Inr ()"
  by (simp add: assertReversiblePipeline_def supportsReverse_def supportsOperation_def
      getPluginCapabilities_def echo_plugin_def has_own_reverse_def)

theorem reversible_pipeline_implemented_witness:
  "\<exists>f. plugin_reverse echo_plugin = OwnReverse f \<and> call_reverse echo_plugin = f"
  by (rule reversible_pipeline_implemented[OF echo_reversible]) simp

text \<open>A KMS operation that passes \<open>assertKmsOperation\<close> is implemented by the provider, and an
  operation declared \<open>false\<close> never passes, even when a stub for it exists.\<close>

theorem kms_operation_sound:
  assumes "assertKmsOperation (Some provider) op = Inr ()"
  shows "kms_implemented provider op \<and> kms_declaration provider op \<noteq> FBool False"
proof -
  from assms obtain cs where cs: "getKmsProviderCapabilities (Some provider) = Inr cs"
    and "map_of cs op = Some True"
    by (auto simp: assertKmsOperation_def supportsKmsOperation_def rbind_eq_Inr)
  then have "(op, True) \<in> set cs" by (simp add: map_of_SomeD)
  with cs have "kms_capability provider op = Inr True"
    by (auto simp: getKmsProviderCapabilities_def split: if_splits dest: kms_capabilities_of_sound)
  then show ?thesis by (auto simp: kms_capability_True)
qed

definition decrypt_only :: kms_provider where
  "decrypt_only = \<lparr>kms_declared = NoDeclarations, kms_implemented = (\<lambda>op. op = KmsDecrypt)\<rparr>"

lemma decrypt_only_decrypts: "assertKmsOperation (Some decrypt_only) KmsDecrypt = Inr ()"
proof -
  have "kms_capability decrypt_only op = Inr (op = KmsDecrypt)" for op
    by (simp add: kms_capability_def kms_declaration_def decrypt_only_def Let_def)
  moreover have "kms_declared decrypt_only \<noteq> BadDeclarations" by (simp add: decrypt_only_def)
  ultimately show ?thesis
    by (simp add: assertKmsOperation_def supportsKmsOperation_def getKmsProviderCapabilities_def
        kms_operations_def)
qed

theorem kms_operation_sound_witness:
  "kms_implemented decrypt_only KmsDecrypt \<and> kms_declaration decrypt_only KmsDecrypt \<noteq> FBool False"
  by (rule kms_operation_sound[OF decrypt_only_decrypts])

end
