(* ===== verification/Stream_Stages.thy ===== *)
theory Stream_Stages
  imports Plugins Node_Streams
begin

text \<open>
  The small stages that \<open>src/core/core.ts\<close> puts between the large ones: limits on bytes and on
  objects, the guard in front of the MessagePack decoder, and the two that write and read the
  manifest at the head of a stream.  \<open>msgpackr\<close>'s own \<open>_transform\<close> is a parameter.
\<close>

section \<open>Byte and object limits\<close>

definition exceeds_bytes :: "string \<Rightarrow> nat \<Rightarrow> px_error" where
  "exceeds_bytes label limit = JsError (''[PipeX] '' @ label @ '' exceeds '' @ nat_digits limit @ '' bytes'')"

type_synonym limit_outcome = "(nat, buffer, px_error) outcome"

text \<open>\<open>buildByteLimitTransform\<close>; its state is \<open>total\<close>.\<close>

definition byte_limit :: "nat \<Rightarrow> string \<Rightarrow> nat \<Rightarrow> buffer \<Rightarrow> limit_outcome" where
  "byte_limit maxBytes label bytes chunk =
     (if int (length chunk) > int maxBytes - int bytes then ([], Inl (exceeds_bytes label maxBytes))
      else ([chunk], Inr (bytes + length chunk)))"

definition no_flush :: "'s \<Rightarrow> ('s, 'o, 'e) outcome" where
  "no_flush s = ([], Inr s)"

definition byte_limit_stream :: "nat \<Rightarrow> string \<Rightarrow> buffer list \<Rightarrow> limit_outcome" where
  "byte_limit_stream maxBytes label chunks = run_transform (byte_limit maxBytes label) no_flush 0 chunks"

text \<open>\<open>buildObjectLimitTransform\<close>; its state is \<open>count\<close>.\<close>

definition object_limit :: "nat \<Rightarrow> nat \<Rightarrow> 'v \<Rightarrow> (nat, 'v, px_error) outcome" where
  "object_limit maxObjects count v =
     (if count \<ge> maxObjects
      then ([], Inl (JsError (''[PipeX] Application frame count exceeds '' @ nat_digits maxObjects)))
      else ([v], Inr (count + 1)))"

definition object_limit_stream :: "nat \<Rightarrow> 'v list \<Rightarrow> (nat, 'v, px_error) outcome" where
  "object_limit_stream maxObjects vs = run_transform (object_limit maxObjects) no_flush 0 vs"

interpretation byte_meter: metered "byte_limit maxBytes label" length id maxBytes
    "\<lambda>bytes c. bytes + length c" "\<lambda>c. [c]" "\<lambda>_. True" for maxBytes label
  by unfold_locales (auto simp: byte_limit_def)

interpretation object_meter: metered "object_limit maxObjects" "\<lambda>_. Suc 0" id maxObjects
    "\<lambda>count _. Suc count" "\<lambda>v. [v]" "\<lambda>_. True" for maxObjects
  by unfold_locales (auto simp: object_limit_def)

lemma run_no_flush [simp]: "run_transform tr no_flush s cs = run_chunks tr s cs"
  by (cases "run_chunks tr s cs")
    (auto simp: run_transform_def then_do_def no_flush_def split: sum.splits)

lemma concat_singletons [simp]: "concat (map (\<lambda>x. [x]) xs) = xs"
  by (induction xs) simp_all

lemma byte_weight: "byte_meter.total_weight cs = length (concat cs)"
  by (simp add: byte_meter.total_weight_def length_concat)

lemma object_weight: "object_meter.total_weight vs = length vs"
  by (induction vs) simp_all

lemma byte_limit_iff:
  "succeeds (byte_limit_stream maxBytes label cs) \<longleftrightarrow> length (concat cs) \<le> maxBytes"
  unfolding byte_limit_stream_def run_no_flush
  by (subst byte_meter.run_succeeds_iff) (simp_all add: byte_weight)

lemma byte_limit_passes:
  assumes "length (concat cs) \<le> maxBytes"
  shows "outputs (byte_limit_stream maxBytes label cs) = cs"
  using byte_meter.run_admitted[of 0 cs maxBytes label] assms
  by (simp add: byte_limit_stream_def byte_weight)

lemma byte_limit_output_bounded:
  "length (concat (outputs (byte_limit_stream maxBytes label cs))) \<le> maxBytes"
  using byte_meter.run_bounded[where label = label and maxBytes = maxBytes and s = 0 and cs = cs] by (auto simp: byte_limit_stream_def byte_weight)

lemma byte_limit_error:
  assumes "\<not> length (concat cs) \<le> maxBytes"
  shows "snd (byte_limit_stream maxBytes label cs) = Inl (exceeds_bytes label maxBytes)"
proof -
  obtain pre c e where "run_chunks (byte_limit maxBytes label) 0 cs = (concat (map (\<lambda>c. [c]) pre), Inl e)"
    and "byte_limit maxBytes label (foldl (\<lambda>bytes c. bytes + length c) 0 pre) c = ([], Inl e)"
    using byte_meter.run_refused[where label = label and maxBytes = maxBytes and s = 0 and cs = cs] assms by (auto simp: byte_weight)
  then show ?thesis by (auto simp: byte_limit_stream_def byte_limit_def split: if_splits)
qed

section \<open>The guard of the decoder\<close>

text \<open>
  \<open>GuardedUnpackrStream\<close>: \<open>#receivedBytes\<close> and the state of the \<open>UnpackrStream\<close> it extends, whose
  \<open>_transform\<close> is \<open>decode\<close>.
\<close>

record 'u guarded_unpackr =
  gu_receivedBytes :: nat
  gu_super :: 'u

definition guarded_transform ::
  "('u \<Rightarrow> buffer \<Rightarrow> ('u, 'v, px_error) outcome) \<Rightarrow> nat \<Rightarrow> 'u guarded_unpackr \<Rightarrow> buffer
     \<Rightarrow> ('u guarded_unpackr, 'v, px_error) outcome" where
  "guarded_transform decode maxInput s chunk =
     (if int (length chunk) > int maxInput - int (gu_receivedBytes s)
      then ([], Inl (exceeds_bytes ''Serialized input'' maxInput))
      else
        let s = s\<lparr>gu_receivedBytes := gu_receivedBytes s + length chunk\<rparr> in
        case decode (gu_super s) chunk of
          (out, Inl _) \<Rightarrow> (out, Inl (JsError ''[PipeX] Invalid MessagePack input''))
        | (out, Inr u) \<Rightarrow> (out, Inr (s\<lparr>gu_super := u\<rparr>)))"

text \<open>The decoder never sees more than the limit, whatever it does with its input.\<close>

lemma guarded_received_bounded:
  assumes "gu_receivedBytes s \<le> maxInput"
    and "run_chunks (guarded_transform decode maxInput) s cs = (out, Inr s')"
  shows "gu_receivedBytes s' = gu_receivedBytes s + length (concat cs) \<and> gu_receivedBytes s' \<le> maxInput"
  using assms
proof (induction cs arbitrary: s out)
  case (Cons c cs)
  from Cons.prems(2) obtain s1 o1 o2 where c: "guarded_transform decode maxInput s c = (o1, Inr s1)"
    and cs: "run_chunks (guarded_transform decode maxInput) s1 cs = (o2, Inr s')"
    by (auto simp: then_do_eq_Inr)
  from c have "gu_receivedBytes s1 = gu_receivedBytes s + length c" "gu_receivedBytes s1 \<le> maxInput"
    by (auto simp: guarded_transform_def Let_def split: if_splits prod.splits sum.splits)
  then show ?case using Cons.IH[OF _ cs] by simp
qed simp

section \<open>The manifest in front of a stream\<close>

text \<open>
  \<open>buildManifestHeaderTransform\<close>: one frame is sent before the first chunk, or at the end if there
  was none.  The header byte of a compressed stream is prepended by the same code.
\<close>

type_synonym header_outcome = "(bool, buffer, px_error) outcome"

definition header_transform :: "buffer \<Rightarrow> bool \<Rightarrow> buffer \<Rightarrow> header_outcome" where
  "header_transform frame sent chunk = ((if sent then [] else [frame]) @ [chunk], Inr True)"

definition header_flush :: "buffer \<Rightarrow> bool \<Rightarrow> header_outcome" where
  "header_flush frame sent = (if sent then [] else [frame], Inr sent)"

definition header_stream :: "buffer \<Rightarrow> buffer list \<Rightarrow> header_outcome" where
  "header_stream frame chunks = run_transform (header_transform frame) (header_flush frame) False chunks"

lemma header_sent: "run_chunks (header_transform frame) True cs = (cs, Inr True)"
  by (induction cs) (simp_all add: header_transform_def)

lemma header_stream_outputs: "outputs (header_stream frame cs) = frame # cs \<and> succeeds (header_stream frame cs)"
proof (cases cs)
  case Nil
  then show ?thesis by (simp add: header_stream_def run_transform_def header_flush_def)
next
  case (Cons c cs')
  then show ?thesis
    using header_sent[of frame cs']
    by (simp add: header_stream_def run_transform_def header_flush_def header_transform_def)
qed

text \<open>
  \<open>buildManifestExtractTransform\<close>: \<open>seen\<close>, and the manifest that was handed to the callback.
  \<open>onManifest\<close> may throw.
\<close>

record 'v extract_stage =
  ex_seen :: bool
  ex_captured :: "'v option"

definition new_extract_stage :: "'v extract_stage" where
  "new_extract_stage = \<lparr>ex_seen = False, ex_captured = None\<rparr>"

definition extract_transform ::
  "('v \<Rightarrow> bool) \<Rightarrow> ('v \<Rightarrow> px_error + unit) \<Rightarrow> 'v extract_stage \<Rightarrow> 'v
     \<Rightarrow> ('v extract_stage, 'v, px_error) outcome" where
  "extract_transform isManifest onManifest s frame =
     (if \<not> ex_seen s \<and> isManifest frame
      then (case onManifest frame of
              Inl e \<Rightarrow> ([], Inl e)
            | Inr _ \<Rightarrow> ([], Inr (s\<lparr>ex_seen := True, ex_captured := Some frame\<rparr>)))
      else ([frame], Inr (s\<lparr>ex_seen := True\<rparr>)))"

definition extract_stream ::
  "('v \<Rightarrow> bool) \<Rightarrow> ('v \<Rightarrow> px_error + unit) \<Rightarrow> 'v list \<Rightarrow> ('v extract_stage, 'v, px_error) outcome" where
  "extract_stream isManifest onManifest frames =
     run_transform (extract_transform isManifest onManifest) no_flush new_extract_stage frames"

lemma extract_after_first:
  "ex_seen s \<Longrightarrow> run_chunks (extract_transform isManifest onManifest) s vs = (vs, Inr s)"
proof (induction vs arbitrary: s)
  case (Cons v vs)
  then have "s\<lparr>ex_seen := True\<rparr> = s" by simp
  then show ?case using Cons by (simp add: extract_transform_def)
qed simp

text \<open>
  \<open>buildFallbackTransform\<close>, the part that decides about one chunk: the reversed direction needs a
  reverse operation, attempts go through \<open>withRetry\<close>, and the output is limited.  \<open>limits\<close> is
  \<open>streamContext?.limits\<close>.
\<close>

definition fallback_output_limit :: "engine_limits option \<Rightarrow> nat" where
  "fallback_output_limit limits =
     (case limits of Some l \<Rightarrow> maxOutputBytes l | None \<Rightarrow> maxOutputBytes DEFAULT_LIMITS)"

definition fallback_chunk ::
  "plugin \<Rightarrow> bool \<Rightarrow> string \<Rightarrow> abort_signal option \<Rightarrow> engine_limits option \<Rightarrow> time \<Rightarrow> js_buffer
     \<Rightarrow> js_buffer settlement" where
  "fallback_chunk p reverse requestId signal limits now chunk =
     (case (case signal of None \<Rightarrow> None | Some sig \<Rightarrow> aborted_by sig now) of
        Some reason \<Rightarrow> Settles now (Inl (raw_reason reason))
      | None \<Rightarrow>
          let ctx = makeContext requestId Map.empty signal limits now in
          case (if reverse then supportsReverse p else Inr True) of
            Inl e \<Rightarrow> Settles now (Inl e)
          | Inr supported \<Rightarrow>
              if \<not> supported then Settles now (Inl (UnsupportedReverseError (plugin_id p)))
              else
                let call = (if reverse then call_reverse p else plugin_process p) in
                case withRetry (call ctx chunk) (plugin_retryOptions p) limits signal now of
                  Pending \<Rightarrow> Pending
                | Settles t (Inl e) \<Rightarrow> Settles t (Inl e)
                | Settles t (Inr out) \<Rightarrow>
                    (case out of
                       Some b \<Rightarrow>
                         if length (bytes_of b) > fallback_output_limit limits
                         then Settles t (Inl (exceeds_bytes ''Plugin output'' (fallback_output_limit limits)))
                         else Settles t (Inr b)
                     | None \<Rightarrow> Settles t (Inl (exceeds_bytes ''Plugin output'' (fallback_output_limit limits)))))"

section \<open>Properties\<close>

text \<open>A byte limit lets a stream through unchanged exactly when its total length is within the
  limit, however it is cut into chunks; otherwise it fails with the limit's own error, and in no
  case does more than the limit leave the stage.\<close>

theorem byte_limit_exact:
  "(if length (concat chunks) \<le> maxBytes
    then \<exists>n. byte_limit_stream maxBytes label chunks = (chunks, Inr n)
    else snd (byte_limit_stream maxBytes label chunks) = Inl (exceeds_bytes label maxBytes))
   \<and> length (concat (outputs (byte_limit_stream maxBytes label chunks))) \<le> maxBytes"
proof (cases "length (concat chunks) \<le> maxBytes")
  case True
  then obtain out n where "byte_limit_stream maxBytes label chunks = (out, Inr n)"
    using byte_limit_iff[of maxBytes label chunks] by (auto simp: succeeds_iff)
  then show ?thesis using True byte_limit_passes[OF True, of label] by simp
next
  case False
  then show ?thesis by (simp add: byte_limit_error byte_limit_output_bounded)
qed

text \<open>A stream of objects passes unchanged exactly when it holds no more objects than the limit;
  otherwise exactly the permitted number has passed when the stage fails.\<close>

theorem object_limit_exact:
  "(if length vs \<le> maxObjects then outputs (object_limit_stream maxObjects vs) = vs \<and> succeeds (object_limit_stream maxObjects vs)
    else outputs (object_limit_stream maxObjects vs) = take maxObjects vs \<and> \<not> succeeds (object_limit_stream maxObjects vs))"
proof (cases "length vs \<le> maxObjects")
  case True
  then show ?thesis
    using object_meter.run_admitted[of 0 vs maxObjects] by (simp add: object_limit_stream_def object_weight)
next
  case False
  then obtain pre v post e where vs: "vs = pre @ v # post" "length pre \<le> maxObjects" "maxObjects < length pre + 1"
    and run: "run_chunks (object_limit maxObjects) 0 vs = (concat (map (\<lambda>v. [v]) pre), Inl e)"
    using object_meter.run_refused[of 0 maxObjects vs] by (auto simp: object_weight)
  then have "pre = take maxObjects vs" by simp
  then show ?thesis using False run by (simp add: object_limit_stream_def)
qed

text \<open>What the stage that writes a manifest puts in front of the frames, the stage that reads it
  captures and removes, and it removes nothing else: later frames pass even if they look like a
  manifest.\<close>

theorem manifest_extracted:
  assumes "isManifest m" "onManifest m = Inr ()"
  shows "extract_stream isManifest onManifest (m # frames) =
    (frames, Inr \<lparr>ex_seen = True, ex_captured = Some m\<rparr>)"
  using assms
  by (simp add: extract_stream_def new_extract_stage_def extract_transform_def extract_after_first)

theorem manifest_extracted_witness:
  "extract_stream (\<lambda>v. v = (7::nat)) (\<lambda>_. Inr ()) [7, 8, 7] =
    ([8, 7], Inr \<lparr>ex_seen = True, ex_captured = Some 7\<rparr>)"
  using manifest_extracted[of "\<lambda>v. v = (7::nat)" 7 "\<lambda>_. Inr ()" "[8, 7]"] by simp

text \<open>Whatever a plugin returns, a chunk that the fallback stage forwards is a buffer within the
  output limit, produced before the operation was aborted; and in the reverse direction it comes
  from a plugin with a reverse operation of its own.\<close>

theorem fallback_chunk_checked:
  assumes "fallback_chunk p reverse requestId (Some sig) limits now chunk = Settles t (Inr out)"
  shows "length (bytes_of out) \<le> fallback_output_limit limits
    \<and> (\<forall>c. cut_off sig = Some c \<longrightarrow> t < c) \<and> (reverse \<longrightarrow> has_own_reverse p)"
proof -
  let ?ctx = "makeContext requestId Map.empty (Some sig) limits now"
  let ?call = "if reverse then call_reverse p else plugin_process p"
  from assms have run: "withRetry (?call ?ctx chunk) (plugin_retryOptions p) limits (Some sig) now = Settles t (Inr (Some out))"
    and len: "length (bytes_of out) \<le> fallback_output_limit limits"
    and own: "reverse \<longrightarrow> supportsReverse p = Inr True"
    by (auto simp: fallback_chunk_def Let_def split: option.split_asm sum.split_asm if_split_asm settlement.split_asm)
  show ?thesis using len own supportsReverse_own withRetry_success_before[OF _ run] by blast
qed

lemma echo_fallback:
  "fallback_chunk echo_plugin True ''r'' (Some timeout_50) None 20 (1, [9]) = Settles 20 (Inr (1, [9]))"
proof -
  have "call_reverse echo_plugin ctx b i now = Settles now (Inr (Some b))" for ctx b i now
    by (simp add: call_reverse_def echo_plugin_def)
  moreover have "supportsReverse echo_plugin = Inr True"
    using echo_reversible by (simp add: assertReversiblePipeline_iff)
  moreover have "plugin_retryOptions echo_plugin = None" by (simp add: echo_plugin_def)
  ultimately show ?thesis
    by (simp add: fallback_chunk_def Let_def aborted_by_def timeout_50_def withRetry_planned retry_plan_None
        retry_from.simps throwIfAborted_def awaitOperation_def first_failure_def
        fallback_output_limit_def DEFAULT_LIMITS_def)
qed

theorem fallback_chunk_checked_witness: "has_own_reverse echo_plugin"
  using fallback_chunk_checked[OF echo_fallback] by simp

end
