(* ===== verification/Conversion.thy ===== *)
theory Conversion
  imports Complex_Main "HOL-Library.Countable" Stream_Stages Frame_Limit_Stream
begin

text \<open>
  JavaScript values and their conversion to buffers and back: \<open>detectType\<close>, \<open>toBuffer\<close>,
  \<open>fromBuffer\<close>, \<open>assertKnownValueByteLimit\<close> and \<open>buildManifest\<close> of \<open>src/core/core.ts\<close> and
  \<open>isManifest\<close> of \<open>types.ts\<close>.  \<open>msgpackr\<close> and the text conversions of the runtime (UTF-8, numbers as
  text, \<open>JSON.parse\<close>) are parameters.
\<close>

section \<open>Values\<close>

text \<open>Every finite number other than \<open>-0\<close> is a rational number.\<close>

datatype js_number = JsNaN | JsInfinity bool | JsNegativeZero | JsRat rat

text \<open>\<open>JsView\<close> is an \<open>ArrayBufferView\<close> that is no buffer, \<open>JsOpaque\<close> any object of a class of its own.\<close>

datatype js_value =
    JsUndefined
  | JsNull
  | JsBoolean bool
  | JsNum js_number
  | JsBigInt int
  | JsString string
  | JsSymbol nat
  | JsFunction nat
  | JsBuffer js_buffer
  | JsArrayBuffer buffer
  | JsView buffer
  | JsOpaque nat
  | JsArray "js_value list"
  | JsObject "(string \<times> js_value) list"

record js_runtime =
  rt_utf8 :: "string \<Rightarrow> buffer"
  rt_text :: "buffer \<Rightarrow> string"
  rt_number_text :: "js_number \<Rightarrow> string"
  rt_text_number :: "string \<Rightarrow> js_number"
  rt_text_bigint :: "string \<Rightarrow> int option"
  rt_other_text :: "js_value \<Rightarrow> string"
  rt_json :: "string \<Rightarrow> js_value option"
  rt_pack :: "js_value \<Rightarrow> px_error + buffer"
  rt_unpack :: "buffer \<Rightarrow> px_error + js_value"
  rt_unpackMultiple :: "buffer \<Rightarrow> js_value list \<times> px_error option"

fun js_typeof :: "js_value \<Rightarrow> string" where
  "js_typeof JsUndefined = ''undefined''"
| "js_typeof (JsBoolean b) = ''boolean''"
| "js_typeof (JsNum n) = ''number''"
| "js_typeof (JsBigInt i) = ''bigint''"
| "js_typeof (JsString s) = ''string''"
| "js_typeof (JsSymbol n) = ''symbol''"
| "js_typeof (JsFunction n) = ''function''"
| "js_typeof v = ''object''"

fun is_array :: "js_value \<Rightarrow> bool" where
  "is_array (JsArray vs) = True"
| "is_array v = False"

fun is_buffer :: "js_value \<Rightarrow> bool" where
  "is_buffer (JsBuffer b) = True"
| "is_buffer v = False"

definition detectType :: "js_value \<Rightarrow> string" where
  "detectType v =
     (if v = JsNull then ''null''
      else if is_buffer v then ''buffer''
      else if is_array v then ''array''
      else if js_typeof v = ''object'' then ''object''
      else js_typeof v)"

text \<open>\<open>String(value)\<close>.\<close>

definition js_string :: "js_runtime \<Rightarrow> js_value \<Rightarrow> string" where
  "js_string rt v =
     (case v of
        JsString s \<Rightarrow> s
      | JsNum n \<Rightarrow> rt_number_text rt n
      | JsBoolean b \<Rightarrow> if b then ''true'' else ''false''
      | JsBigInt i \<Rightarrow> show_int i
      | _ \<Rightarrow> rt_other_text rt v)"

text \<open>A buffer that the conversion allocates gets the identity \<open>fresh\<close>.\<close>

definition toBuffer :: "js_runtime \<Rightarrow> nat \<Rightarrow> js_value \<Rightarrow> px_error + js_buffer" where
  "toBuffer rt fresh v =
     (case v of
        JsBuffer b \<Rightarrow> Inr b
      | JsArrayBuffer bs \<Rightarrow> Inr (fresh, bs)
      | _ \<Rightarrow>
          if js_typeof v = ''object'' \<and> v \<noteq> JsNull
          then rbind (rt_pack rt v) (\<lambda>bs. Inr (fresh, bs))
          else if js_typeof v = ''number'' \<or> js_typeof v = ''boolean''
          then Inr (fresh, rt_utf8 rt (js_string rt v))
          else Inr (fresh, rt_utf8 rt (if v = JsNull \<or> v = JsUndefined then [] else js_string rt v)))"

definition ORIGINAL_TYPES :: "string list" where
  "ORIGINAL_TYPES = [''buffer'', ''object'', ''array'', ''string'', ''number'', ''boolean'', ''null'',
     ''undefined'', ''bigint'', ''json'']"

text \<open>A value that is no string is \<open>None\<close>.\<close>

definition assertOriginalType :: "string option \<Rightarrow> px_error + unit" where
  "assertOriginalType v =
     throw_if (case v of None \<Rightarrow> True | Some t \<Rightarrow> t \<notin> set ORIGINAL_TYPES)
       (JsError ''[PipeX] Unsupported original type'')"

definition fromBuffer :: "js_runtime \<Rightarrow> js_buffer \<Rightarrow> string \<Rightarrow> nat \<Rightarrow> px_error + js_value" where
  "fromBuffer rt buf targetType maxFrame =
     rbind (assertOriginalType (Some targetType)) (\<lambda>_.
       let bytes = bytes_of buf; content = rt_text rt bytes in
       if targetType = ''array'' \<or> targetType = ''object''
       then rbind (assertMessagePackFrameLimits bytes maxFrame 1) (\<lambda>_.
         case rt_unpack rt bytes of
           Inl _ \<Rightarrow> Inl (JsError ''[PipeX] fromBuffer: invalid MessagePack input'')
         | Inr decoded \<Rightarrow>
             if (if targetType = ''array'' then \<not> is_array decoded
                 else decoded = JsNull \<or> js_typeof decoded \<noteq> ''object'' \<or> is_array decoded)
             then Inl (JsError ''[PipeX] Decoded value does not match the expected type'')
             else Inr decoded)
       else if targetType = ''json''
       then (case rt_json rt content of
               None \<Rightarrow> Inl (JsError ''[PipeX] fromBuffer: invalid JSON input'') | Some v \<Rightarrow> Inr v)
       else if targetType = ''number''
       then (let n = rt_text_number rt content in
             if n = JsNaN then Inl (JsError ''[PipeX] fromBuffer: invalid number'') else Inr (JsNum n))
       else if targetType = ''bigint''
       then (case rt_text_bigint rt content of
               None \<Rightarrow> Inl (JsError ''[PipeX] fromBuffer: invalid bigint'') | Some i \<Rightarrow> Inr (JsBigInt i))
       else if targetType = ''boolean''
       then (if content \<noteq> ''true'' \<and> content \<noteq> ''false''
             then Inl (JsError ''[PipeX] fromBuffer: invalid boolean'') else Inr (JsBoolean (content = ''true'')))
       else if targetType = ''string'' then Inr (JsString content)
       else if targetType = ''null'' \<or> targetType = ''undefined''
       then (if length bytes \<noteq> 0 then Inl (JsError ''[PipeX] Payload does not match the expected empty type'')
             else Inr (if targetType = ''null'' then JsNull else JsUndefined))
       else Inr (JsBuffer buf))"

text \<open>\<open>assertKnownValueByteLimit\<close>.\<close>

definition known_byte_length :: "js_runtime \<Rightarrow> js_value \<Rightarrow> nat option" where
  "known_byte_length rt v =
     (case v of
        JsString s \<Rightarrow> Some (length (rt_utf8 rt s))
      | JsBuffer b \<Rightarrow> Some (length (bytes_of b))
      | JsView bs \<Rightarrow> Some (length bs)
      | JsArrayBuffer bs \<Rightarrow> Some (length bs)
      | _ \<Rightarrow> None)"

definition assertKnownValueByteLimit :: "js_runtime \<Rightarrow> js_value \<Rightarrow> nat \<Rightarrow> string \<Rightarrow> px_error + unit" where
  "assertKnownValueByteLimit rt v maxBytes label =
     throw_if (case known_byte_length rt v of None \<Rightarrow> False | Some n \<Rightarrow> n > maxBytes)
       (exceeds_bytes label maxBytes)"

definition known_value_limit :: "js_runtime \<Rightarrow> nat \<Rightarrow> string \<Rightarrow> unit \<Rightarrow> js_value \<Rightarrow> (unit, js_value, px_error) outcome" where
  "known_value_limit rt maxBytes label s v =
     (case assertKnownValueByteLimit rt v maxBytes label of Inl e \<Rightarrow> ([], Inl e) | Inr _ \<Rightarrow> ([v], Inr s))"

section \<open>Manifests\<close>

definition js_one :: js_value where
  "js_one = JsNum (JsRat 1)"

definition plugin_label_ok :: "js_value \<Rightarrow> bool" where
  "plugin_label_ok v = (case v of JsString s \<Rightarrow> length s \<le> 256 | _ \<Rightarrow> False)"

definition is_timestamp :: "js_value \<Rightarrow> bool" where
  "is_timestamp v =
     (case v of
        JsNum (JsRat r) \<Rightarrow> r \<in> \<int> \<and> is_safe_integer \<lfloor>r\<rfloor> \<and> r \<ge> 0
      | JsNum JsNegativeZero \<Rightarrow> True
      | _ \<Rightarrow> False)"

definition isManifest :: "js_value \<Rightarrow> bool" where
  "isManifest v =
     (case v of
        JsObject props \<Rightarrow>
          map_of props ''__pipex_v'' = Some js_one
          \<and> (case map_of props ''plugins'' of
               Some (JsArray ps) \<Rightarrow> length ps \<le> 256 \<and> list_all plugin_label_ok ps
             | _ \<Rightarrow> False)
          \<and> (case map_of props ''ts'' of Some t \<Rightarrow> is_timestamp t | None \<Rightarrow> False)
      | _ \<Rightarrow> False)"

definition buildManifest :: "plugin list \<Rightarrow> time \<Rightarrow> js_value" where
  "buildManifest ps now =
     JsObject [(''__pipex_v'', js_one), (''plugins'', JsArray (map (\<lambda>p. JsString (plugin_id p)) ps)),
       (''ts'', JsNum (JsRat (of_nat now)))]"

lemma buildManifest_isManifest:
  assumes "now \<le> max_safe_integer" "length ps \<le> 256" "\<And>p. p \<in> set ps \<Longrightarrow> length (plugin_id p) \<le> 256"
  shows "isManifest (buildManifest ps now)"
  using assms
  by (auto simp: isManifest_def buildManifest_def list_all_iff plugin_label_ok_def is_timestamp_def
      is_safe_integer_def max_safe_integer_def)

section \<open>What is assumed of the runtime\<close>

text \<open>
  The conversions are inverse on what they are used for: text that is well-formed (\<open>words\<close>), every
  number but \<open>NaN\<close> and \<open>-0\<close>, integers, and the values (\<open>plain\<close>) that MessagePack can carry.
\<close>

definition runtime_ok :: "js_runtime \<Rightarrow> (string \<Rightarrow> bool) \<Rightarrow> (js_value \<Rightarrow> bool) \<Rightarrow> bool" where
  "runtime_ok rt words plain \<longleftrightarrow>
     rt_utf8 rt [] = [] \<and> words ''true'' \<and> words ''false''
     \<and> (\<forall>s. words s \<longrightarrow> rt_text rt (rt_utf8 rt s) = s)
     \<and> (\<forall>n. words (rt_number_text rt n))
     \<and> (\<forall>n. n \<noteq> JsNegativeZero \<longrightarrow> rt_text_number rt (rt_number_text rt n) = n)
     \<and> (\<forall>i. words (show_int i) \<and> rt_text_bigint rt (show_int i) = Some i)
     \<and> (\<forall>v bs. plain v \<longrightarrow> rt_pack rt v = Inr bs \<longrightarrow> rt_unpack rt bs = Inr v)"

text \<open>The values that survive the way to a buffer and back.\<close>

fun carried :: "(string \<Rightarrow> bool) \<Rightarrow> (js_value \<Rightarrow> bool) \<Rightarrow> js_value \<Rightarrow> bool" where
  "carried words plain (JsString s) = words s"
| "carried words plain (JsNum n) = (n \<noteq> JsNaN \<and> n \<noteq> JsNegativeZero)"
| "carried words plain (JsSymbol n) = False"
| "carried words plain (JsFunction n) = False"
| "carried words plain (JsArrayBuffer bs) = False"
| "carried words plain (JsArray vs) = plain (JsArray vs)"
| "carried words plain (JsObject fs) = plain (JsObject fs)"
| "carried words plain (JsView bs) = plain (JsView bs)"
| "carried words plain (JsOpaque n) = plain (JsOpaque n)"
| "carried words plain v = True"

lemma ORIGINAL_TYPES_detect:
  "carried words plain v \<Longrightarrow> detectType v \<in> set ORIGINAL_TYPES"
  by (cases v) (simp_all add: detectType_def ORIGINAL_TYPES_def)

lemma assertOriginalType_iff:
  "assertOriginalType (Some t) = Inr u \<longleftrightarrow> t \<in> set ORIGINAL_TYPES"
  by (simp add: assertOriginalType_def)

lemma detectType_not_json: "detectType v \<noteq> ''json''"
  by (cases v) (simp_all add: detectType_def)

text \<open>The package frames what it packs, so the frame check of the way back is the one of the way out.\<close>

definition frames_ok :: "js_value \<Rightarrow> js_buffer \<Rightarrow> nat \<Rightarrow> bool" where
  "frames_ok v buf maxFrame \<longleftrightarrow>
     (detectType v = ''object'' \<or> detectType v = ''array'' \<longrightarrow>
        returns (assertMessagePackFrameLimits (bytes_of buf) maxFrame 1))"

lemma packed_roundtrip:
  assumes "runtime_ok rt words plain" "plain v" "toBuffer rt fresh v = Inr buf"
    and "detectType v = ''object'' \<or> detectType v = ''array''" "\<And>bs. v \<noteq> JsArrayBuffer bs"
    and "frames_ok v buf maxFrame"
  shows "fromBuffer rt buf (detectType v) maxFrame = Inr v"
proof -
  have obj: "js_typeof v = ''object''" "v \<noteq> JsNull" "\<not> is_buffer v"
    using assms(4) by (cases v; simp add: detectType_def)+
  then obtain bs where bs: "rt_pack rt v = Inr bs" "buf = (fresh, bs)"
    using assms(3,5) by (cases v) (auto simp: toBuffer_def rbind_eq_Inr)
  with assms(1,2) have un: "rt_unpack rt bs = Inr v" by (auto simp: runtime_ok_def)
  obtain k where "assertMessagePackFrameLimits bs maxFrame 1 = Inr k"
    using assms(4,6) bs by (auto simp: frames_ok_def returns_def)
  moreover have "(detectType v = ''array'') = is_array v"
    using obj by (simp add: detectType_def)
  moreover have "assertOriginalType (Some (detectType v)) = Inr ()"
    using assms(4) by (auto simp: assertOriginalType_iff ORIGINAL_TYPES_def)
  ultimately show ?thesis
    using assms(4) un bs obj by (auto simp: fromBuffer_def Let_def)
qed

lemma value_roundtrip:
  assumes "runtime_ok rt words plain" "carried words plain v" "toBuffer rt fresh v = Inr buf"
    and "frames_ok v buf maxFrame"
  shows "fromBuffer rt buf (detectType v) maxFrame = Inr v"
proof -
  have types: "assertOriginalType (Some (detectType v)) = Inr ()"
    using ORIGINAL_TYPES_detect[OF assms(2)] by (simp add: assertOriginalType_iff)
  note packed = packed_roundtrip[OF assms(1) _ assms(3) _ _ assms(4)]
  note rt = assms(1)[unfolded runtime_ok_def]
  show ?thesis
  proof (cases v)
    case (JsNum n)
    then have "buf = (fresh, rt_utf8 rt (rt_number_text rt n))" "n \<noteq> JsNaN" "n \<noteq> JsNegativeZero"
      using assms(2,3) by (auto simp: toBuffer_def js_string_def)
    then show ?thesis using JsNum types rt by (simp add: fromBuffer_def detectType_def)
  next
    case (JsArray vs)
    then show ?thesis using assms(2) packed by (simp add: detectType_def)
  next
    case (JsObject fs)
    then show ?thesis using assms(2) packed by (simp add: detectType_def)
  next
    case (JsView bs)
    then show ?thesis using assms(2) packed by (simp add: detectType_def)
  next
    case (JsOpaque n)
    then show ?thesis using assms(2) packed by (simp add: detectType_def)
  qed (use assms(2,3) types rt in \<open>auto simp: fromBuffer_def toBuffer_def js_string_def detectType_def\<close>)
qed

text \<open>Two values packed one after the other are read back as two.\<close>

definition multiple_ok :: "js_runtime \<Rightarrow> (js_value \<Rightarrow> bool) \<Rightarrow> bool" where
  "multiple_ok rt plain \<longleftrightarrow> (\<forall>u v a b. plain u \<longrightarrow> plain v \<longrightarrow> rt_pack rt u = Inr a \<longrightarrow> rt_pack rt v = Inr b \<longrightarrow>
     rt_unpackMultiple rt (a @ b) = ([u, v], None))"

section \<open>A runtime that satisfies the assumptions\<close>

text \<open>Strings of 8-bit characters, numbers in unary, and MessagePack for three values.\<close>

instance js_number :: countable
  by countable_datatype

definition toy_digits :: "string \<Rightarrow> nat" where
  "toy_digits s = foldl (\<lambda>n c. 10 * n + (of_char c - 48)) 0 s"

definition toy_bigint :: "string \<Rightarrow> int" where
  "toy_bigint s = (if take 1 s = ''-'' then - int (toy_digits (tl s)) else int (toy_digits s))"

definition toy_table :: "(js_value \<times> buffer) list" where
  "toy_table = [(JsArray [], [0x90]), (JsObject [], [0x80]), (buildManifest [] 7, [0x83, 1, 2, 3, 4, 5, 6])]"

fun toy_unpack :: "buffer \<Rightarrow> px_error + js_value" where
  "toy_unpack bs =
     (if bs = [0x90] then Inr (JsArray []) else if bs = [0x80] then Inr (JsObject [])
      else if bs = [0x83, 1, 2, 3, 4, 5, 6] then Inr (buildManifest [] 7)
      else Inl (JsError ''Data read, but end of buffer not reached''))"

fun toy_unpackMultiple :: "buffer \<Rightarrow> js_value list" where
  "toy_unpackMultiple [] = []"
| "toy_unpackMultiple (b # bs) =
     (if b = 0x90 then JsArray [] # toy_unpackMultiple bs
      else if b = 0x80 then JsObject [] # toy_unpackMultiple bs
      else buildManifest [] 7 # toy_unpackMultiple (drop 6 bs))"

definition toy_runtime :: js_runtime where
  "toy_runtime = \<lparr>
     rt_utf8 = map (\<lambda>c. word_of_nat (of_char c)),
     rt_text = map (\<lambda>b. char_of (unat b)),
     rt_number_text = (\<lambda>n. replicate (to_nat n) CHR ''1''),
     rt_text_number = (\<lambda>s. from_nat (length s)),
     rt_text_bigint = (\<lambda>s. Some (toy_bigint s)),
     rt_other_text = (\<lambda>_. ''[object Object]''),
     rt_json = (\<lambda>_. None),
     rt_pack = (\<lambda>v. case map_of toy_table v of Some bs \<Rightarrow> Inr bs | None \<Rightarrow> Inl (JsError ''pack'')),
     rt_unpack = toy_unpack,
     rt_unpackMultiple = (\<lambda>bs. (toy_unpackMultiple bs, None))\<rparr>"

abbreviation toy_plain :: "js_value \<Rightarrow> bool" where
  "toy_plain v \<equiv> v \<in> fst ` set toy_table"

lemma toy_digits_snoc: "toy_digits (s @ [c]) = 10 * toy_digits s + (of_char c - 48)"
  by (simp add: toy_digits_def)

lemma of_char_digit: "d < 10 \<Longrightarrow> of_char (char_of (48 + d) :: char) = 48 + (d :: nat)"
  by (simp add: of_char_of)

lemma toy_digits_nat: "toy_digits (nat_digits n) = n"
proof (induction n rule: nat_digits.induct)
  case (1 n)
  have "toy_digits [char_of (48 + n)] = n" if "n < 10"
    using that of_char_digit[of n] by (simp add: toy_digits_def)
  then show ?case
    using 1 of_char_digit[of "n mod 10"] by (subst nat_digits.simps) (simp add: toy_digits_snoc)
qed

lemma nat_digits_head: "\<exists>(d :: nat) cs. nat_digits n = char_of (48 + d) # cs \<and> d < 10"
proof (induction n rule: nat_digits.induct)
  case (1 n)
  show ?case
  proof (cases "n < 10")
    case True
    then have "nat_digits n = char_of (48 + n) # []" by (simp add: nat_digits.simps)
    with True show ?thesis by blast
  next
    case False
    from 1[OF False] obtain d :: nat and cs where "nat_digits (n div 10) = char_of (48 + d) # cs" "d < 10" by blast
    with False have "nat_digits n = char_of (48 + d) # (cs @ [char_of (48 + n mod 10)])"
      by (simp add: nat_digits.simps[of n])
    with \<open>d < 10\<close> show ?thesis by blast
  qed
qed

lemma toy_bigint_show: "toy_bigint (show_int i) = i"
proof -
  have "take 1 (nat_digits n) \<noteq> ''-''" for n
  proof
    assume minus: "take 1 (nat_digits n) = ''-''"
    obtain d cs where d: "nat_digits n = char_of (48 + d) # cs" "d < (10 :: nat)"
      using nat_digits_head[of n] by blast
    with minus have "of_char CHR ''-'' = 48 + d" using of_char_digit[of d] by simp
    then show False by simp
  qed
  then show ?thesis by (simp add: show_int_def toy_bigint_def toy_digits_nat)
qed

lemma toy_runtime_ok: "runtime_ok toy_runtime (\<lambda>_. True) toy_plain"
proof -
  have "char_of (unat (word_of_nat (of_char c) :: byte)) = c" for c
    by (simp add: unat_of_nat)
  then have "map (\<lambda>b. char_of (unat b)) (map (\<lambda>c. word_of_nat (of_char c) :: byte) s) = s" for s
    by (simp add: comp_def)
  moreover have "rt_unpack toy_runtime bs = Inr v" if "toy_plain v" "rt_pack toy_runtime v = Inr bs" for v bs
    using that by (auto simp: toy_runtime_def toy_table_def buildManifest_def)
  ultimately show ?thesis
    unfolding runtime_ok_def by (simp add: toy_runtime_def toy_bigint_show)
qed

lemma toy_multiple_ok: "multiple_ok toy_runtime toy_plain"
  unfolding multiple_ok_def
  by (auto simp: toy_runtime_def toy_table_def buildManifest_def)

end
