(* ===== verification/Engine.thy ===== *)
theory Engine
  imports Conversion
begin

text \<open>
  \<open>DataEngine\<close> (\<open>src/core/dataEngine.ts\<close>): the registry of plugins, the limits, and the life cycle of
  requests, with the work that outlives the request that started it.  A call that throws leaves the
  engine unchanged and is \<open>Inl\<close>.  Request identifiers come from \<open>randomUUID\<close> and promises have
  identities; both are natural or string arguments here.
\<close>

section \<open>State\<close>

type_synonym promise = nat

datatype engine_event =
    EvStart string
  | EvPluginAfter string nat
  | EvProgress nat string
  | EvError px_error string
  | EvEnd string "nat option"
  | EvManifest js_value string

datatype audit_operation = AuditPack | AuditUnpack | AuditProcess | AuditReverse

record audit_record =
  au_requestId :: string
  au_operation :: audit_operation
  au_pluginChain :: "string list"
  au_timestamp :: time

text \<open>
  The sets of promises are objects: \<open>eng_pending\<close> maps a request to the address of its set, and a
  callback registered by \<open>trackWork\<close> keeps the address it was made for.  \<open>eng_reactions\<close> lists those
  callbacks, in the order of registration.
\<close>

record engine =
  eng_plugins :: "plugin list"
  eng_limits :: engine_limits
  eng_schema :: "(js_value \<Rightarrow> bool) option"
  eng_auditLogger :: "(audit_record \<Rightarrow> time \<Rightarrow> unit settlement) option"
  eng_active :: "string set"
  eng_pending :: "string \<rightharpoonup> nat"
  eng_sets :: "nat \<Rightarrow> promise set"
  eng_nextSet :: nat
  eng_reactions :: "(promise \<times> string \<times> nat) list"
  eng_finished :: "string set"
  eng_pipelines :: "string \<rightharpoonup> string list"
  eng_errorListeners :: bool
  eng_events :: "engine_event list"

definition new_DataEngine :: "partial_limits \<Rightarrow> px_error + engine" where
  "new_DataEngine partial =
     rbind (validateLimits (merge_limits DEFAULT_LIMITS partial)) (\<lambda>limits. Inr
       \<lparr>eng_plugins = [], eng_limits = limits, eng_schema = None, eng_auditLogger = None,
        eng_active = {}, eng_pending = Map.empty, eng_sets = (\<lambda>_. {}), eng_nextSet = 0,
        eng_reactions = [], eng_finished = {}, eng_pipelines = Map.empty,
        eng_errorListeners = False, eng_events = []\<rparr>)"

section \<open>Configuration\<close>

definition setLimits :: "engine \<Rightarrow> partial_limits \<Rightarrow> px_error + engine" where
  "setLimits e partial =
     (if card (eng_active e) > 0
      then Inl (JsError ''[PipeX] Cannot modify engine limits while operations are active'')
      else rbind (validateLimits (merge_limits (eng_limits e) partial)) (\<lambda>limits.
        Inr (e\<lparr>eng_limits := limits\<rparr>)))"

text \<open>
  \<open>use\<close>.  The argument is an object with the members of a plugin; the other tests that the code makes
  (that it is an object, that its members are strings and functions) hold of the type \<open>plugin\<close>.
\<close>

definition use_plugin :: "engine \<Rightarrow> plugin \<Rightarrow> px_error + engine" where
  "use_plugin e p =
     (if length (plugin_name p) = 0 \<or> length (plugin_name p) > 128 \<or> length (plugin_version p) = 0
      then Inl (JsError ''[PipeX] Invalid processor plugin'')
      else rbind (getPluginCapabilities p) (\<lambda>_.
        if card (eng_active e) > 0
        then Inl (JsError ''[PipeX] Cannot modify the plugin pipeline while operations are active'')
        else if length (eng_plugins e) \<ge> 256 then Inl (JsError ''[PipeX] Maximum plugin count exceeded'')
        else Inr (e\<lparr>eng_plugins := eng_plugins e @ [p]\<rparr>)))"

definition pipeline :: "engine \<Rightarrow> string list" where
  "pipeline e = map plugin_id (eng_plugins e)"

text \<open>\<open>pluginCapabilities\<close>.\<close>

fun registered_capabilities :: "plugin list \<Rightarrow> px_error + (string \<times> plugin_capabilities) list" where
  "registered_capabilities [] = Inr []"
| "registered_capabilities (p # ps) =
     rbind (getPluginCapabilities p) (\<lambda>c.
       rbind (registered_capabilities ps) (\<lambda>cs. Inr ((plugin_id p, c) # cs)))"

definition pluginCapabilities :: "engine \<Rightarrow> px_error + (string \<times> plugin_capabilities) list" where
  "pluginCapabilities e = registered_capabilities (eng_plugins e)"

definition setSchema :: "engine \<Rightarrow> (js_value \<Rightarrow> bool) \<Rightarrow> engine" where
  "setSchema e schema = e\<lparr>eng_schema := Some schema\<rparr>"

definition setAuditLogger :: "engine \<Rightarrow> (audit_record \<Rightarrow> time \<Rightarrow> unit settlement) \<Rightarrow> engine" where
  "setAuditLogger e logger = e\<lparr>eng_auditLogger := Some logger\<rparr>"

definition validate :: "engine \<Rightarrow> js_value \<Rightarrow> px_error + unit" where
  "validate e data =
     (case eng_schema e of None \<Rightarrow> Inr ()
      | Some schema \<Rightarrow> throw_if (\<not> schema data) (JsError ''[PipeX] Core Validation failed''))"

text \<open>\<open>emitAudit\<close>: an \<open>async\<close> function, so its promise is already resolved when there is no logger.\<close>

definition emitAudit :: "engine \<Rightarrow> string \<Rightarrow> audit_operation \<Rightarrow> time \<Rightarrow> unit settlement" where
  "emitAudit e requestId operation now =
     (case eng_auditLogger e of None \<Rightarrow> Settles now (Inr ())
      | Some logger \<Rightarrow>
          logger \<lparr>au_requestId = requestId, au_operation = operation,
               au_pluginChain =
                 (if operation = AuditPack \<or> operation = AuditUnpack then []
                  else case eng_pipelines e requestId of Some ps \<Rightarrow> ps | None \<Rightarrow> pipeline e),
               au_timestamp = now\<rparr> now)"

section \<open>Requests\<close>

text \<open>\<open>emit\<close>: listeners are isolated, so an event is only recorded.\<close>

definition emit :: "engine_event \<Rightarrow> engine \<Rightarrow> engine" where
  "emit ev e = e\<lparr>eng_events := eng_events e @ [ev]\<rparr>"

definition startRequest :: "engine \<Rightarrow> string \<Rightarrow> px_error + engine" where
  "startRequest e requestId =
     (if card (eng_active e) \<ge> maxConcurrentOperations (eng_limits e)
      then Inl (JsError ''[PipeX] Maximum concurrent operations exceeded'')
      else Inr (emit (EvStart requestId)
        (e\<lparr>eng_active := insert requestId (eng_active e),
           eng_pipelines := (eng_pipelines e)(requestId \<mapsto> pipeline e)\<rparr>)))"

definition has_pending :: "engine \<Rightarrow> string \<Rightarrow> bool" where
  "has_pending e requestId =
     (case eng_pending e requestId of None \<Rightarrow> False | Some a \<Rightarrow> eng_sets e a \<noteq> {})"

definition releaseRequest :: "string \<Rightarrow> engine \<Rightarrow> engine" where
  "releaseRequest requestId e =
     (if has_pending e requestId then e\<lparr>eng_finished := insert requestId (eng_finished e)\<rparr>
      else e\<lparr>eng_active := eng_active e - {requestId}, eng_finished := eng_finished e - {requestId},
             eng_pipelines := (eng_pipelines e)(requestId := None)\<rparr>)"

definition trackWork :: "string \<Rightarrow> promise \<Rightarrow> engine \<Rightarrow> engine" where
  "trackWork requestId p e =
     (let (a, e) = (case eng_pending e requestId of
            Some a \<Rightarrow> (a, e)
          | None \<Rightarrow> (eng_nextSet e,
              e\<lparr>eng_pending := (eng_pending e)(requestId \<mapsto> eng_nextSet e),
                eng_sets := (eng_sets e)(eng_nextSet e := {}),
                eng_nextSet := eng_nextSet e + 1\<rparr>))
      in e\<lparr>eng_sets := (eng_sets e)(a := insert p (eng_sets e a)),
           eng_reactions := eng_reactions e @ [(p, requestId, a)]\<rparr>)"

text \<open>The callback \<open>settled\<close> of \<open>trackWork(requestId, p)\<close>, made for the set at \<open>a\<close>.\<close>

definition settled :: "promise \<Rightarrow> engine \<Rightarrow> string \<times> nat \<Rightarrow> engine" where
  "settled p e = (\<lambda>(requestId, a).
     let e = e\<lparr>eng_sets := (eng_sets e)(a := eng_sets e a - {p})\<rparr> in
     if eng_sets e a = {}
     then let e = e\<lparr>eng_pending := (eng_pending e)(requestId := None)\<rparr> in
          if requestId \<in> eng_finished e then releaseRequest requestId e else e
     else e)"

text \<open>
  A promise settles: its callbacks are queued together and run one after the other, in the order in
  which they were registered, before any code they make runnable.
\<close>

definition reactions_of :: "promise \<Rightarrow> engine \<Rightarrow> (string \<times> nat) list" where
  "reactions_of p e = map snd (filter (\<lambda>(q, _). q = p) (eng_reactions e))"

definition settle :: "promise \<Rightarrow> engine \<Rightarrow> engine" where
  "settle p e =
     foldl (settled p) (e\<lparr>eng_reactions := filter (\<lambda>(q, _). q \<noteq> p) (eng_reactions e)\<rparr>) (reactions_of p e)"

definition endRequest :: "string \<Rightarrow> nat option \<Rightarrow> engine \<Rightarrow> engine" where
  "endRequest requestId durationMs e = emit (EvEnd requestId durationMs) (releaseRequest requestId e)"

definition emitProgress :: "nat \<Rightarrow> string \<Rightarrow> engine \<Rightarrow> engine" where
  "emitProgress amount requestId e = emit (EvProgress amount requestId) e"

definition emitError :: "px_error \<Rightarrow> string \<Rightarrow> engine \<Rightarrow> engine" where
  "emitError err requestId e =
     (let e = releaseRequest requestId e in
      if eng_errorListeners e then emit (EvError err requestId) e else e)"

section \<open>Steps\<close>

text \<open>
  What can happen to an engine, in any order.  A request identifier is new, and work is tracked for
  active requests only, as the controllers do.
\<close>

inductive engine_step :: "engine \<Rightarrow> engine \<Rightarrow> bool" where
  step_use: "use_plugin e p = Inr e' \<Longrightarrow> engine_step e e'"
| step_limits: "setLimits e partial = Inr e' \<Longrightarrow> engine_step e e'"
| step_schema: "engine_step e (setSchema e schema)"
| step_audit: "engine_step e (setAuditLogger e logger)"
| step_start: "requestId \<notin> eng_active e \<Longrightarrow> startRequest e requestId = Inr e' \<Longrightarrow> engine_step e e'"
| step_track: "requestId \<in> eng_active e \<Longrightarrow> engine_step e (trackWork requestId p e)"
| step_settle: "engine_step e (settle p e)"
| step_release: "engine_step e (releaseRequest requestId e)"
| step_end: "engine_step e (endRequest requestId duration e)"
| step_progress: "engine_step e (emitProgress amount requestId e)"
| step_plugin_after: "engine_step e (emit (EvPluginAfter name ms) e)"
| step_manifest: "engine_step e (emit (EvManifest m requestId) e)"
| step_error: "engine_step e (emitError err requestId e)"

inductive reachable :: "engine \<Rightarrow> bool" where
  reach_new: "new_DataEngine partial = Inr e \<Longrightarrow> reachable e"
| reach_step: "reachable e \<Longrightarrow> engine_step e e' \<Longrightarrow> reachable e'"

section \<open>The invariant\<close>

text \<open>
  \<open>work_inv e p rs\<close> holds while the callbacks \<open>rs\<close> of the settled promise \<open>p\<close> are still to run;
  between steps \<open>rs\<close> is empty.
\<close>

definition tracked_ok :: "engine \<Rightarrow> promise \<Rightarrow> (string \<times> nat) list \<Rightarrow> string \<Rightarrow> nat \<Rightarrow> bool" where
  "tracked_ok e p rs r a \<longleftrightarrow> a < eng_nextSet e \<and> eng_sets e a \<noteq> {}
     \<and> (\<forall>q \<in> eng_sets e a. (q, r, a) \<in> set (eng_reactions e) \<or> q = p \<and> (r, a) \<in> set rs)"

definition finished_ok :: "engine \<Rightarrow> bool" where
  "finished_ok e \<longleftrightarrow> eng_finished e \<subseteq> dom (eng_pending e) \<and> dom (eng_pending e) \<subseteq> eng_active e"

definition sets_unshared :: "engine \<Rightarrow> bool" where
  "sets_unshared e \<longleftrightarrow> (\<forall>r r' a. eng_pending e r = Some a \<longrightarrow> eng_pending e r' = Some a \<longrightarrow> r' = r)"

definition reactions_ok :: "engine \<Rightarrow> promise \<Rightarrow> (string \<times> nat) list \<Rightarrow> bool" where
  "reactions_ok e p rs \<longleftrightarrow> (\<forall>q r a. (q, r, a) \<in> set (eng_reactions e) \<longrightarrow>
     eng_pending e r = Some a \<and> q \<in> eng_sets e a \<and> (rs \<noteq> [] \<longrightarrow> q \<noteq> p))"

definition queue_ok :: "engine \<Rightarrow> (string \<times> nat) list \<Rightarrow> bool" where
  "queue_ok e rs \<longleftrightarrow> (\<forall>r a. (r, a) \<in> set rs \<longrightarrow> a < eng_nextSet e
     \<and> (eng_pending e r = Some a \<or> eng_pending e r = None)
     \<and> (\<forall>r'. eng_pending e r' = Some a \<longrightarrow> r' = r))"

definition work_inv :: "engine \<Rightarrow> promise \<Rightarrow> (string \<times> nat) list \<Rightarrow> bool" where
  "work_inv e p rs \<longleftrightarrow> finished_ok e \<and> sets_unshared e
     \<and> (\<forall>r a. eng_pending e r = Some a \<longrightarrow> tracked_ok e p rs r a)
     \<and> reactions_ok e p rs \<and> queue_ok e rs"

lemmas work_inv_defs = work_inv_def finished_ok_def sets_unshared_def reactions_ok_def queue_ok_def

definition config_inv :: "engine \<Rightarrow> bool" where
  "config_inv e \<longleftrightarrow> valid_limits (eng_limits e) \<and> length (eng_plugins e) \<le> 256
     \<and> (\<forall>p \<in> set (eng_plugins e). returns (getPluginCapabilities p) \<and> 0 < length (plugin_name p)
          \<and> length (plugin_name p) \<le> 128 \<and> 0 < length (plugin_version p))
     \<and> finite (eng_active e) \<and> card (eng_active e) \<le> maxConcurrentOperations (eng_limits e)
     \<and> (\<forall>r. eng_pipelines e r = (if r \<in> eng_active e then Some (pipeline e) else None))"

definition engine_inv :: "engine \<Rightarrow> bool" where
  "engine_inv e \<longleftrightarrow> config_inv e \<and> work_inv e 0 []"

section \<open>Preservation\<close>

text \<open>The parts of the invariant, one by one.\<close>

lemma work_invD:
  assumes "work_inv e p rs"
  shows "r \<in> eng_finished e \<Longrightarrow> r \<in> dom (eng_pending e)"
    and "r \<in> dom (eng_pending e) \<Longrightarrow> r \<in> eng_active e"
    and "eng_pending e r = Some a \<Longrightarrow> eng_pending e r' = Some a \<Longrightarrow> r' = r"
    and "eng_pending e r = Some a \<Longrightarrow> tracked_ok e p rs r a"
    and "(q, r, a) \<in> set (eng_reactions e) \<Longrightarrow>
      eng_pending e r = Some a \<and> q \<in> eng_sets e a \<and> (rs \<noteq> [] \<longrightarrow> q \<noteq> p)"
    and "(r, a) \<in> set rs \<Longrightarrow> a < eng_nextSet e \<and> (eng_pending e r = Some a \<or> eng_pending e r = None)"
    and "(r, a) \<in> set rs \<Longrightarrow> eng_pending e r' = Some a \<Longrightarrow> r' = r"
proof -
  from assms have "finished_ok e" "sets_unshared e" "reactions_ok e p rs" "queue_ok e rs"
    "\<forall>r a. eng_pending e r = Some a \<longrightarrow> tracked_ok e p rs r a"
    unfolding work_inv_def by blast+
  note parts = this
  from parts(1) show "r \<in> eng_finished e \<Longrightarrow> r \<in> dom (eng_pending e)"
    unfolding finished_ok_def by blast
  from parts(1) show "r \<in> dom (eng_pending e) \<Longrightarrow> r \<in> eng_active e"
    unfolding finished_ok_def by blast
  from parts(2) show "eng_pending e r = Some a \<Longrightarrow> eng_pending e r' = Some a \<Longrightarrow> r' = r"
    unfolding sets_unshared_def by blast
  from parts(5) show "eng_pending e r = Some a \<Longrightarrow> tracked_ok e p rs r a" by blast
  from parts(3) show "(q, r, a) \<in> set (eng_reactions e) \<Longrightarrow>
      eng_pending e r = Some a \<and> q \<in> eng_sets e a \<and> (rs \<noteq> [] \<longrightarrow> q \<noteq> p)"
    unfolding reactions_ok_def by blast
  from parts(4) show "(r, a) \<in> set rs \<Longrightarrow> a < eng_nextSet e
      \<and> (eng_pending e r = Some a \<or> eng_pending e r = None)"
    unfolding queue_ok_def by simp
  from parts(4) show "(r, a) \<in> set rs \<Longrightarrow> eng_pending e r' = Some a \<Longrightarrow> r' = r"
    unfolding queue_ok_def by blast
qed

lemma work_invI:
  assumes "\<And>r. r \<in> eng_finished e \<Longrightarrow> r \<in> dom (eng_pending e)"
    and "\<And>r. r \<in> dom (eng_pending e) \<Longrightarrow> r \<in> eng_active e"
    and "\<And>r r' a. eng_pending e r = Some a \<Longrightarrow> eng_pending e r' = Some a \<Longrightarrow> r' = r"
    and "\<And>r a. eng_pending e r = Some a \<Longrightarrow> tracked_ok e p rs r a"
    and "\<And>q r a. (q, r, a) \<in> set (eng_reactions e) \<Longrightarrow>
      eng_pending e r = Some a \<and> q \<in> eng_sets e a \<and> (rs \<noteq> [] \<longrightarrow> q \<noteq> p)"
    and "\<And>r a. (r, a) \<in> set rs \<Longrightarrow> a < eng_nextSet e
      \<and> (eng_pending e r = Some a \<or> eng_pending e r = None)"
    and "\<And>r a r'. (r, a) \<in> set rs \<Longrightarrow> eng_pending e r' = Some a \<Longrightarrow> r' = r"
  shows "work_inv e p rs"
proof -
  have "finished_ok e" using assms(1,2) unfolding finished_ok_def by blast
  moreover have "sets_unshared e" using assms(3) unfolding sets_unshared_def by blast
  moreover have "reactions_ok e p rs" using assms(5) unfolding reactions_ok_def by blast
  moreover have "queue_ok e rs" using assms(6,7) unfolding queue_ok_def by simp
  ultimately show ?thesis using assms(4) unfolding work_inv_def by blast
qed

lemma work_inv_cong:
  assumes "eng_finished e' = eng_finished e" "eng_pending e' = eng_pending e"
    "eng_active e \<subseteq> eng_active e'" "eng_sets e' = eng_sets e" "eng_nextSet e' = eng_nextSet e"
    "eng_reactions e' = eng_reactions e" "work_inv e p rs"
  shows "work_inv e' p rs"
  using assms unfolding work_inv_defs tracked_ok_def by auto

lemma has_pending_iff:
  assumes "work_inv e p rs"
  shows "has_pending e r \<longleftrightarrow> r \<in> dom (eng_pending e)"
  using work_invD(4)[OF assms, of r] by (auto simp: has_pending_def tracked_ok_def split: option.splits)

lemma work_inv_release:
  assumes "work_inv e p rs"
  shows "work_inv (releaseRequest r e) p rs"
proof (cases "has_pending e r")
  case True
  then show ?thesis
    using assms has_pending_iff[OF assms, of r]
    by (auto simp: releaseRequest_def work_inv_defs tracked_ok_def)
next
  case False
  then have none: "eng_pending e r = None" using has_pending_iff[OF assms, of r] by auto
  have "finished_ok (releaseRequest r e)"
    using assms False none by (auto simp: releaseRequest_def work_inv_def finished_ok_def)
  then show ?thesis
    using assms False by (simp add: releaseRequest_def work_inv_def sets_unshared_def tracked_ok_def
        reactions_ok_def queue_ok_def)
qed

lemma config_inv_cong:
  assumes "eng_limits e' = eng_limits e" "eng_plugins e' = eng_plugins e" "eng_active e' = eng_active e"
    "eng_pipelines e' = eng_pipelines e" "config_inv e"
  shows "config_inv e'"
  using assms by (simp add: config_inv_def pipeline_def)

lemma config_inv_release: "config_inv e \<Longrightarrow> config_inv (releaseRequest r e)"
proof -
  assume inv: "config_inv e"
  then have "card (eng_active e - {r}) \<le> card (eng_active e)"
    by (intro card_mono) (auto simp: config_inv_def)
  then show ?thesis using inv by (auto simp: releaseRequest_def config_inv_def pipeline_def)
qed

text \<open>One callback: its set loses the promise, and the request its entry when the set is empty.\<close>

definition drop_promise :: "promise \<Rightarrow> nat \<Rightarrow> engine \<Rightarrow> engine" where
  "drop_promise p a e = e\<lparr>eng_sets := (eng_sets e)(a := eng_sets e a - {p})\<rparr>"

lemma settled_nonempty:
  "eng_sets e a - {p} \<noteq> {} \<Longrightarrow> settled p e (r, a) = drop_promise p a e"
  by (simp add: settled_def drop_promise_def Let_def)

lemma settled_empty:
  assumes "eng_sets e a - {p} = {}"
  shows "eng_finished (settled p e (r, a)) = eng_finished e - {r}"
    "eng_pending (settled p e (r, a)) = (eng_pending e)(r := None)"
    "eng_active (settled p e (r, a)) = (if r \<in> eng_finished e then eng_active e - {r} else eng_active e)"
    "eng_sets (settled p e (r, a)) = (eng_sets e)(a := {})"
    "eng_nextSet (settled p e (r, a)) = eng_nextSet e"
    "eng_reactions (settled p e (r, a)) = eng_reactions e"
    "eng_pipelines (settled p e (r, a)) =
      (if r \<in> eng_finished e then (eng_pipelines e)(r := None) else eng_pipelines e)"
proof -
  have "(eng_sets e)(a := eng_sets e a - {p}) = (eng_sets e)(a := {})"
    using assms by (rule arg_cong)
  note state = this assms
  show "eng_finished (settled p e (r, a)) = eng_finished e - {r}"
    "eng_pending (settled p e (r, a)) = (eng_pending e)(r := None)"
    "eng_active (settled p e (r, a)) = (if r \<in> eng_finished e then eng_active e - {r} else eng_active e)"
    "eng_sets (settled p e (r, a)) = (eng_sets e)(a := {})"
    "eng_nextSet (settled p e (r, a)) = eng_nextSet e"
    "eng_reactions (settled p e (r, a)) = eng_reactions e"
    "eng_pipelines (settled p e (r, a)) =
      (if r \<in> eng_finished e then (eng_pipelines e)(r := None) else eng_pipelines e)"
    unfolding settled_def Let_def prod.case state(1)
    by (simp_all add: releaseRequest_def has_pending_def)
qed

lemma other_reactions:
  assumes "work_inv e p ((r, a) # rs)" "eng_sets e a - {p} = {}" "(q, r', a') \<in> set (eng_reactions e)"
  shows "r' \<noteq> r \<and> a' \<noteq> a"
proof -
  from work_invD(5)[OF assms(1,3)] have q: "eng_pending e r' = Some a'" "q \<in> eng_sets e a'" "q \<noteq> p"
    by simp_all
  then have "a' \<noteq> a" using assms(2) by auto
  moreover have "eng_pending e r = Some a \<or> eng_pending e r = None"
    using work_invD(6)[OF assms(1), of r a] by simp
  ultimately show ?thesis using q(1) by auto
qed

lemma work_inv_settled_empty:
  assumes inv: "work_inv e p ((r, a) # rs)" and empty: "eng_sets e a - {p} = {}"
  shows "work_inv (settled p e (r, a)) p rs"
proof (rule work_invI, unfold settled_empty[OF empty])
  note others = other_reactions[OF inv empty]
  note D = work_invD[OF inv]
  have own: "eng_pending e r' = Some a \<Longrightarrow> r' = r" for r'
    using D(7)[of r a] by simp
  show "r' \<in> dom ((eng_pending e)(r := None))" if "r' \<in> eng_finished e - {r}" for r'
    using that D(1)[of r'] by auto
  show "r' \<in> (if r \<in> eng_finished e then eng_active e - {r} else eng_active e)"
    if "r' \<in> dom ((eng_pending e)(r := None))" for r'
    using that D(2)[of r'] by (auto split: if_splits)
  show "r2 = r1" if "((eng_pending e)(r := None)) r1 = Some b" "((eng_pending e)(r := None)) r2 = Some b" for r1 r2 b
    using that D(3)[of r1 b r2] by (auto split: if_splits)
  show "tracked_ok (settled p e (r, a)) p rs r' a'" if "((eng_pending e)(r := None)) r' = Some a'" for r' a'
  proof -
    have r': "eng_pending e r' = Some a'" "r' \<noteq> r" using that by (auto split: if_splits)
    then have "a' \<noteq> a" using own by auto
    then show ?thesis using D(4)[OF r'(1)] r'(2) by (auto simp: tracked_ok_def settled_empty[OF empty])
  qed
  show "((eng_pending e)(r := None)) r' = Some a' \<and> q \<in> ((eng_sets e)(a := {})) a' \<and> (rs \<noteq> [] \<longrightarrow> q \<noteq> p)"
    if "(q, r', a') \<in> set (eng_reactions e)" for q r' a'
    using others[OF that] D(5)[OF that] by simp
  show "a' < eng_nextSet e \<and> (((eng_pending e)(r := None)) r' = Some a' \<or> ((eng_pending e)(r := None)) r' = None)"
    if "(r', a') \<in> set rs" for r' a'
    using that D(6)[of r' a'] by auto
  show "r'' = r'" if "(r', a') \<in> set rs" "((eng_pending e)(r := None)) r'' = Some a'" for r' a' r''
    using that D(7)[of r' a' r''] by (auto split: if_splits)
qed

lemma work_inv_settled_nonempty:
  assumes inv: "work_inv e p ((r, a) # rs)" and left: "eng_sets e a - {p} \<noteq> {}"
  shows "work_inv (settled p e (r, a)) p rs"
  unfolding settled_nonempty[OF left]
proof (rule work_invI)
  note D = work_invD[OF inv]
  let ?e = "drop_promise p a e"
  have same: "eng_finished ?e = eng_finished e" "eng_pending ?e = eng_pending e" "eng_active ?e = eng_active e"
    "eng_nextSet ?e = eng_nextSet e" "eng_reactions ?e = eng_reactions e"
    "eng_sets ?e = (eng_sets e)(a := eng_sets e a - {p})"
    by (simp_all add: drop_promise_def)
  show "r' \<in> dom (eng_pending ?e)" if "r' \<in> eng_finished ?e" for r'
    using that D(1) by (simp add: same)
  show "r' \<in> eng_active ?e" if "r' \<in> dom (eng_pending ?e)" for r'
    using that D(2) by (simp add: same)
  show "r2 = r1" if "eng_pending ?e r1 = Some b" "eng_pending ?e r2 = Some b" for r1 r2 b
    using that D(3) by (simp add: same)
  show "tracked_ok ?e p rs r' a'" if "eng_pending ?e r' = Some a'" for r' a'
  proof -
    have "eng_pending e r' = Some a'" using that by (simp add: same)
    then show ?thesis using D(4)[of r' a'] D(7)[of r a r'] left by (auto simp: tracked_ok_def same)
  qed
  show "eng_pending ?e r' = Some a' \<and> q \<in> eng_sets ?e a' \<and> (rs \<noteq> [] \<longrightarrow> q \<noteq> p)"
    if "(q, r', a') \<in> set (eng_reactions ?e)" for q r' a'
  proof -
    have "(q, r', a') \<in> set (eng_reactions e)" using that by (simp add: same)
    then show ?thesis using D(5)[of q r' a'] by (auto simp: same)
  qed
  show "a' < eng_nextSet ?e \<and> (eng_pending ?e r' = Some a' \<or> eng_pending ?e r' = None)"
    if "(r', a') \<in> set rs" for r' a'
    using that D(6)[of r' a'] by (simp add: same)
  show "r'' = r'" if "(r', a') \<in> set rs" "eng_pending ?e r'' = Some a'" for r' a' r''
    using that D(7)[of r' a' r''] by (simp add: same)
qed

lemma work_inv_settled:
  "work_inv e p ((r, a) # rs) \<Longrightarrow> work_inv (settled p e (r, a)) p rs"
  using work_inv_settled_empty work_inv_settled_nonempty by blast

lemma work_inv_foldl_settled:
  "work_inv e p rs \<Longrightarrow> work_inv (foldl (settled p) e rs) p []"
  by (induction rs arbitrary: e) (auto simp: work_inv_settled)

lemma work_inv_any: "work_inv e p [] \<longleftrightarrow> work_inv e q []"
  by (simp add: work_inv_def tracked_ok_def reactions_ok_def)

lemma work_inv_queued:
  assumes "work_inv e q []"
  shows "work_inv (e\<lparr>eng_reactions := filter (\<lambda>(q, _). q \<noteq> p) (eng_reactions e)\<rparr>) p (reactions_of p e)"
proof -
  let ?e = "e\<lparr>eng_reactions := filter (\<lambda>(q, _). q \<noteq> p) (eng_reactions e)\<rparr>"
  show ?thesis
  proof (rule work_invI)
    note D = work_invD[OF assms]
    have mem: "(r, a) \<in> set (reactions_of p e) \<longleftrightarrow> (p, r, a) \<in> set (eng_reactions e)" for r a
      by (force simp: reactions_of_def)
    show "r \<in> dom (eng_pending ?e)" if "r \<in> eng_finished ?e" for r using that D(1) by simp
    show "r \<in> eng_active ?e" if "r \<in> dom (eng_pending ?e)" for r using that D(2) by simp
    show "r' = r" if "eng_pending ?e r = Some a" "eng_pending ?e r' = Some a" for r r' a using that D(3) by simp
    show "tracked_ok ?e p (reactions_of p e) r a" if "eng_pending ?e r = Some a" for r a
      using that D(4)[of r a] by (auto simp: tracked_ok_def mem)
    show "eng_pending ?e r = Some a \<and> q \<in> eng_sets ?e a \<and> (reactions_of p e \<noteq> [] \<longrightarrow> q \<noteq> p)"
      if "(q, r, a) \<in> set (eng_reactions ?e)" for q r a
      using that D(5)[of q r a] by auto
    have own: "eng_pending e r = Some a" if "(r, a) \<in> set (reactions_of p e)" for r a
      using that D(5)[of p r a] by (simp add: mem)
    show "a < eng_nextSet ?e \<and> (eng_pending ?e r = Some a \<or> eng_pending ?e r = None)"
      if "(r, a) \<in> set (reactions_of p e)" for r a
      using own[OF that] D(4)[OF own[OF that]] by (simp add: tracked_ok_def)
    show "r' = r" if "(r, a) \<in> set (reactions_of p e)" "eng_pending ?e r' = Some a" for r a r'
      using own[OF that(1)] that(2) D(3)[of r a r'] by simp
  qed
qed

lemma work_inv_settle: "work_inv e q [] \<Longrightarrow> work_inv (settle p e) q []"
  using work_inv_foldl_settled[OF work_inv_queued] work_inv_any unfolding settle_def by blast

text \<open>The settling of a promise releases requests and touches nothing else of the configuration.\<close>

lemma config_inv_settled: "config_inv e \<Longrightarrow> config_inv (settled p e ra)"
proof -
  assume inv: "config_inv e"
  obtain r a where ra: "ra = (r, a)" by (cases ra)
  define e1 where "e1 = e\<lparr>eng_sets := (eng_sets e)(a := eng_sets e a - {p})\<rparr>"
  define e2 where "e2 = e1\<lparr>eng_pending := (eng_pending e1)(r := None)\<rparr>"
  have "config_inv e1" "config_inv e2"
    using inv by (simp_all add: e1_def e2_def config_inv_def pipeline_def)
  moreover have "settled p e ra = (if eng_sets e1 a = {}
      then if r \<in> eng_finished e2 then releaseRequest r e2 else e2 else e1)"
    by (simp add: ra settled_def e1_def e2_def Let_def)
  ultimately show ?thesis using config_inv_release by simp
qed

lemma config_inv_settle: "config_inv e \<Longrightarrow> config_inv (settle p e)"
proof -
  have "config_inv e \<Longrightarrow> config_inv (foldl (settled p) e rs)" for e rs
    by (induction rs arbitrary: e) (simp_all add: config_inv_settled)
  moreover assume "config_inv e"
  then have "config_inv (e\<lparr>eng_reactions := filter (\<lambda>(q, _). q \<noteq> p) (eng_reactions e)\<rparr>)"
    by (simp add: config_inv_def pipeline_def)
  ultimately show ?thesis unfolding settle_def by blast
qed

lemma engine_inv_new: "new_DataEngine partial = Inr e \<Longrightarrow> engine_inv e"
  using validateLimits_valid
  by (auto simp: new_DataEngine_def rbind_eq_Inr engine_inv_def config_inv_def work_inv_defs valid_limits_def)

lemma engine_inv_use:
  assumes "use_plugin e p = Inr e'" "engine_inv e"
  shows "engine_inv e'"
proof -
  from assms(1) have e': "e' = e\<lparr>eng_plugins := eng_plugins e @ [p]\<rparr>" "length (eng_plugins e) < 256"
    "card (eng_active e) = 0" "0 < length (plugin_name p)" "length (plugin_name p) \<le> 128"
    "0 < length (plugin_version p)" "returns (getPluginCapabilities p)"
    by (auto simp: use_plugin_def rbind_eq_Inr split: if_splits)
  have "work_inv e' 0 []"
    using assms(2) e'(1) by (intro work_inv_cong[of e' e]) (simp_all add: engine_inv_def)
  moreover have "eng_active e = {}" using assms(2) e'(3) by (simp add: engine_inv_def config_inv_def)
  then have "config_inv e'"
    using assms(2) e' by (auto simp: engine_inv_def config_inv_def)
  ultimately show ?thesis by (simp add: engine_inv_def)
qed

lemma engine_inv_limits:
  assumes "setLimits e partial = Inr e'" "engine_inv e"
  shows "engine_inv e'"
proof -
  from assms(1) obtain l where l: "validateLimits (merge_limits (eng_limits e) partial) = Inr l"
    "e' = e\<lparr>eng_limits := l\<rparr>" "card (eng_active e) = 0"
    by (auto simp: setLimits_def rbind_eq_Inr split: if_splits)
  have "work_inv e' 0 []"
    using assms(2) l(2) by (intro work_inv_cong[of e' e]) (simp_all add: engine_inv_def)
  moreover have "config_inv e'"
    using assms(2) l validateLimits_valid[OF l(1)] by (simp add: engine_inv_def config_inv_def pipeline_def)
  ultimately show ?thesis by (simp add: engine_inv_def)
qed

lemma engine_inv_start:
  assumes "startRequest e r = Inr e'" "engine_inv e"
  shows "engine_inv e'"
proof -
  from assms(1) have room: "card (eng_active e) < maxConcurrentOperations (eng_limits e)"
    and e': "e' = emit (EvStart r) (e\<lparr>eng_active := insert r (eng_active e),
      eng_pipelines := (eng_pipelines e)(r \<mapsto> pipeline e)\<rparr>)"
    by (auto simp: startRequest_def split: if_splits)
  have "finite (eng_active e)" using assms(2) by (simp add: engine_inv_def config_inv_def)
  then have "card (insert r (eng_active e)) \<le> Suc (card (eng_active e))" by (simp add: card_insert_if)
  then have "config_inv e'"
    using assms(2) room by (auto simp: e' emit_def engine_inv_def config_inv_def pipeline_def)
  moreover have "work_inv e' 0 []"
    using assms(2) by (intro work_inv_cong[of e' e]) (auto simp: e' emit_def engine_inv_def)
  ultimately show ?thesis by (simp add: engine_inv_def)
qed

lemma work_inv_fresh_set:
  assumes "work_inv e 0 []" "eng_pending e r = None" "r \<in> eng_active e"
  shows "work_inv (trackWork r p e) 0 []"
proof (rule work_invI)
  note D = work_invD[OF assms(1)]
  let ?n = "eng_nextSet e"
  have below: "a < ?n" if "eng_pending e r' = Some a" for r' a
    using D(4)[OF that] by (simp add: tracked_ok_def)
  let ?e = "trackWork r p e"
  have same: "eng_finished ?e = eng_finished e" "eng_pending ?e = (eng_pending e)(r \<mapsto> ?n)"
    "eng_active ?e = eng_active e" "eng_nextSet ?e = Suc ?n"
    "eng_reactions ?e = eng_reactions e @ [(p, r, ?n)]" "eng_sets ?e = (eng_sets e)(?n := {p})"
    using assms(2) by (simp_all add: trackWork_def)
  show "r' \<in> dom (eng_pending ?e)" if "r' \<in> eng_finished ?e" for r'
    using that D(1)[of r'] by (auto simp: same)
  show "r' \<in> eng_active ?e" if "r' \<in> dom (eng_pending ?e)" for r'
    using that D(2)[of r'] assms(3) by (auto simp: same split: if_splits)
  show "r2 = r1" if "eng_pending ?e r1 = Some b" "eng_pending ?e r2 = Some b" for r1 r2 b
    using that D(3)[of r1 b r2] below[of r1 b] below[of r2 b] by (auto simp: same split: if_splits)
  show "tracked_ok ?e 0 [] r' a" if "eng_pending ?e r' = Some a" for r' a
    using that D(4)[of r' a] by (auto simp: tracked_ok_def same split: if_splits)
  show "eng_pending ?e r' = Some a \<and> q \<in> eng_sets ?e a \<and> ([] \<noteq> [] \<longrightarrow> q \<noteq> 0)"
    if "(q, r', a) \<in> set (eng_reactions ?e)" for q r' a
    using that D(5)[of q r' a] below[of r' a] assms(2) by (auto simp: same)
qed simp_all

lemma work_inv_known_set:
  assumes "work_inv e 0 []" "eng_pending e r = Some a" "r \<in> eng_active e"
  shows "work_inv (trackWork r p e) 0 []"
proof (rule work_invI)
  note D = work_invD[OF assms(1)]
  let ?e = "trackWork r p e"
  have same: "eng_finished ?e = eng_finished e" "eng_pending ?e = eng_pending e"
    "eng_active ?e = eng_active e" "eng_nextSet ?e = eng_nextSet e"
    "eng_reactions ?e = eng_reactions e @ [(p, r, a)]" "eng_sets ?e = (eng_sets e)(a := insert p (eng_sets e a))"
    using assms(2) by (simp_all add: trackWork_def)
  show "r' \<in> dom (eng_pending ?e)" if "r' \<in> eng_finished ?e" for r'
    using that D(1)[of r'] by (simp add: same)
  show "r' \<in> eng_active ?e" if "r' \<in> dom (eng_pending ?e)" for r'
    using that D(2)[of r'] by (simp add: same)
  show "r2 = r1" if "eng_pending ?e r1 = Some b" "eng_pending ?e r2 = Some b" for r1 r2 b
    using that D(3)[of r1 b r2] by (simp add: same)
  show "tracked_ok ?e 0 [] r' b" if "eng_pending ?e r' = Some b" for r' b
    using that D(4)[of r' b] D(3)[of r a r'] assms(2) by (auto simp: tracked_ok_def same)
  show "eng_pending ?e r' = Some b \<and> q \<in> eng_sets ?e b \<and> ([] \<noteq> [] \<longrightarrow> q \<noteq> 0)"
    if "(q, r', b) \<in> set (eng_reactions ?e)" for q r' b
    using that D(5)[of q r' b] assms(2) by (auto simp: same)
qed simp_all

lemma engine_inv_track: "r \<in> eng_active e \<Longrightarrow> engine_inv e \<Longrightarrow> engine_inv (trackWork r p e)"
  using work_inv_fresh_set[of e r p] work_inv_known_set[of e r _ p]
  by (cases "eng_pending e r")
    (auto simp: engine_inv_def config_inv_def pipeline_def trackWork_def Let_def)

lemma engine_inv_emit: "engine_inv e \<Longrightarrow> engine_inv (emit ev e)"
  by (auto simp: engine_inv_def emit_def intro: config_inv_cong[of _ e] work_inv_cong[of _ e])

lemma engine_inv_release: "engine_inv e \<Longrightarrow> engine_inv (releaseRequest r e)"
  by (simp add: engine_inv_def config_inv_release work_inv_release)

lemma engine_inv_settle: "engine_inv e \<Longrightarrow> engine_inv (settle p e)"
  by (simp add: engine_inv_def config_inv_settle work_inv_settle)

lemma engine_inv_step: "engine_step e e' \<Longrightarrow> engine_inv e \<Longrightarrow> engine_inv e'"
proof (induction rule: engine_step.induct)
  case (step_schema e schema)
  then show ?case
    by (auto simp: engine_inv_def setSchema_def intro: config_inv_cong[of _ e] work_inv_cong[of _ e])
next
  case (step_audit e logger)
  then show ?case
    by (auto simp: engine_inv_def setAuditLogger_def intro: config_inv_cong[of _ e] work_inv_cong[of _ e])
qed (auto simp: engine_inv_use engine_inv_limits engine_inv_start engine_inv_track engine_inv_settle
    engine_inv_release engine_inv_emit endRequest_def emitProgress_def emitError_def Let_def)

theorem reachable_inv: "reachable e \<Longrightarrow> engine_inv e"
  by (induction rule: reachable.induct) (auto intro: engine_inv_new engine_inv_step)

section \<open>The book of requests\<close>

text \<open>
  What the maps, sets and callbacks implement: a book that knows which requests count against the
  capacity, which of them have ended, and which promises each is still waiting for.
\<close>

record request_book =
  bk_active :: "string set"
  bk_ended :: "string set"
  bk_waiting :: "string \<Rightarrow> promise set"

definition book_start :: "string \<Rightarrow> request_book \<Rightarrow> request_book" where
  "book_start r b = b\<lparr>bk_active := insert r (bk_active b)\<rparr>"

definition book_track :: "string \<Rightarrow> promise \<Rightarrow> request_book \<Rightarrow> request_book" where
  "book_track r p b = b\<lparr>bk_waiting := (bk_waiting b)(r := insert p (bk_waiting b r))\<rparr>"

definition book_release :: "string \<Rightarrow> request_book \<Rightarrow> request_book" where
  "book_release r b =
     (if bk_waiting b r = {}
      then b\<lparr>bk_active := bk_active b - {r}, bk_ended := bk_ended b - {r}\<rparr>
      else b\<lparr>bk_ended := insert r (bk_ended b)\<rparr>)"

text \<open>The promise settles for the requests in \<open>R\<close>; those that have ended and wait for nothing leave.\<close>

definition drained :: "promise \<Rightarrow> string set \<Rightarrow> request_book \<Rightarrow> string set" where
  "drained p R b = {r \<in> R \<inter> bk_ended b. bk_waiting b r - {p} = {}}"

definition without :: "promise \<Rightarrow> string set \<Rightarrow> (string \<Rightarrow> promise set) \<Rightarrow> string \<Rightarrow> promise set" where
  "without p R w r = (if r \<in> R then w r - {p} else w r)"

definition book_drop :: "promise \<Rightarrow> string set \<Rightarrow> request_book \<Rightarrow> request_book" where
  "book_drop p R b =
     \<lparr>bk_active = bk_active b - drained p R b, bk_ended = bk_ended b - drained p R b,
      bk_waiting = without p R (bk_waiting b)\<rparr>"

definition book_settle :: "promise \<Rightarrow> request_book \<Rightarrow> request_book" where
  "book_settle p b = book_drop p UNIV b"

definition waiting_for :: "engine \<Rightarrow> string \<Rightarrow> promise set" where
  "waiting_for e r = (case eng_pending e r of None \<Rightarrow> {} | Some a \<Rightarrow> eng_sets e a)"

definition book_of :: "engine \<Rightarrow> request_book" where
  "book_of e = \<lparr>bk_active = eng_active e, bk_ended = eng_finished e, bk_waiting = waiting_for e\<rparr>"

lemma has_pending_waiting: "has_pending e r \<longleftrightarrow> waiting_for e r \<noteq> {}"
  by (simp add: has_pending_def waiting_for_def split: option.split)

lemma waiting_for_updates [simp]:
  "waiting_for (e\<lparr>eng_active := x\<rparr>) = waiting_for e"
  "waiting_for (e\<lparr>eng_finished := f\<rparr>) = waiting_for e"
  "waiting_for (e\<lparr>eng_pipelines := ps\<rparr>) = waiting_for e"
  "waiting_for (e\<lparr>eng_events := evs\<rparr>) = waiting_for e"
  "waiting_for (e\<lparr>eng_reactions := rs\<rparr>) = waiting_for e"
  by (simp_all add: waiting_for_def fun_eq_iff split: option.split)

lemma book_release_refines: "book_of (releaseRequest r e) = book_release r (book_of e)"
  by (simp add: book_of_def book_release_def releaseRequest_def has_pending_waiting)

lemma book_start_refines:
  "startRequest e r = Inr e' \<Longrightarrow> book_of e' = book_start r (book_of e)"
  by (auto simp: startRequest_def book_of_def book_start_def emit_def split: if_splits)

lemma book_emit: "book_of (emit ev e) = book_of e"
  by (simp add: book_of_def emit_def)

lemma waiting_for_track:
  assumes "work_inv e 0 []"
  shows "waiting_for (trackWork r p e) = (waiting_for e)(r := insert p (waiting_for e r))"
proof (cases "eng_pending e r")
  case None
  let ?n = "eng_nextSet e"
  have same: "eng_pending (trackWork r p e) = (eng_pending e)(r \<mapsto> ?n)"
    "eng_sets (trackWork r p e) = (eng_sets e)(?n := {p})"
    using None by (simp_all add: trackWork_def)
  have below: "a < ?n" if "eng_pending e r' = Some a" for r' a
    using work_invD(4)[OF assms that] by (simp add: tracked_ok_def)
  show ?thesis
  proof
    fix r'
    show "waiting_for (trackWork r p e) r' = ((waiting_for e)(r := insert p (waiting_for e r))) r'"
      using None below[of r'] by (cases "eng_pending e r'") (auto simp: waiting_for_def same)
  qed
next
  case (Some a)
  have same: "eng_pending (trackWork r p e) = eng_pending e"
    "eng_sets (trackWork r p e) = (eng_sets e)(a := insert p (eng_sets e a))"
    using Some by (simp_all add: trackWork_def)
  have own: "eng_pending e r' = Some a \<Longrightarrow> r' = r" for r'
    using work_invD(3)[OF assms Some] by simp
  show ?thesis
  proof
    fix r'
    show "waiting_for (trackWork r p e) r' = ((waiting_for e)(r := insert p (waiting_for e r))) r'"
      using Some own[of r'] by (cases "eng_pending e r'") (auto simp: waiting_for_def same)
  qed
qed

lemma book_track_refines:
  assumes "work_inv e 0 []"
  shows "book_of (trackWork r p e) = book_track r p (book_of e)"
proof -
  have "eng_active (trackWork r p e) = eng_active e" "eng_finished (trackWork r p e) = eng_finished e"
    by (simp_all add: trackWork_def Let_def split: option.split)
  then show ?thesis by (simp add: book_of_def book_track_def waiting_for_track[OF assms])
qed

lemma waiting_for_settled:
  assumes "work_inv e p ((r, a) # rs)"
  shows "waiting_for (settled p e (r, a)) = without p {r} (waiting_for e)"
proof
  fix r'
  have own: "eng_pending e r' = Some a \<Longrightarrow> r' = r"
    using work_invD(7)[OF assms, of r a r'] by simp
  have pend: "eng_pending e r = Some a \<or> eng_pending e r = None"
    using work_invD(6)[OF assms, of r a] by simp
  show "waiting_for (settled p e (r, a)) r' = without p {r} (waiting_for e) r'"
  proof (cases "eng_sets e a - {p} = {}")
    case True
    have same: "waiting_for (settled p e (r, a)) r' = (case ((eng_pending e)(r := None)) r' of None \<Rightarrow> {}
        | Some b \<Rightarrow> ((eng_sets e)(a := {})) b)"
      by (simp only: waiting_for_def settled_empty[OF True])
    show ?thesis
    proof (cases "r' = r")
      case True
      then show ?thesis unfolding same using pend \<open>eng_sets e a - {p} = {}\<close>
        by (auto simp: without_def waiting_for_def)
    next
      case False
      then show ?thesis unfolding same using own
        by (cases "eng_pending e r'") (auto simp: without_def waiting_for_def)
    qed
  next
    case False
    have same: "waiting_for (settled p e (r, a)) r' = (case eng_pending e r' of None \<Rightarrow> {}
        | Some b \<Rightarrow> ((eng_sets e)(a := eng_sets e a - {p})) b)"
      unfolding waiting_for_def settled_nonempty[OF False] by (simp add: drop_promise_def split: option.split)
    show ?thesis
    proof (cases "r' = r")
      case True
      then show ?thesis unfolding same using pend by (auto simp: without_def waiting_for_def)
    next
      case False
      then show ?thesis unfolding same using own
        by (cases "eng_pending e r'") (auto simp: without_def waiting_for_def)
    qed
  qed
qed

lemma drained_book_of:
  assumes "r \<in> eng_finished e \<Longrightarrow> eng_pending e r = Some a"
  shows "drained p {r} (book_of e) = (if r \<in> eng_finished e \<and> eng_sets e a - {p} = {} then {r} else {})"
  using assms by (auto simp: drained_def book_of_def waiting_for_def)

lemma book_settled:
  assumes "work_inv e p ((r, a) # rs)"
  shows "book_of (settled p e (r, a)) = book_drop p {r} (book_of e)"
proof -
  note w = waiting_for_settled[OF assms]
  have "r \<in> eng_finished e \<Longrightarrow> eng_pending e r = Some a"
    using work_invD(1)[OF assms, of r] work_invD(6)[OF assms, of r a] by auto
  note d = drained_book_of[OF this, of p]
  have book: "bk_active (book_of e) = eng_active e" "bk_ended (book_of e) = eng_finished e"
    "bk_waiting (book_of e) = waiting_for e" by (simp_all add: book_of_def)
  show ?thesis
  proof (cases "eng_sets e a - {p} = {}")
    case True
    have "drained p {r} (book_of e) = (if r \<in> eng_finished e then {r} else {})"
      using d unfolding True by auto
    then have "eng_active (settled p e (r, a)) = eng_active e - drained p {r} (book_of e)"
      "eng_finished (settled p e (r, a)) = eng_finished e - drained p {r} (book_of e)"
      unfolding settled_empty[OF True] by simp_all
    then show ?thesis unfolding book_drop_def book by (simp add: book_of_def w)
  next
    case False
    then have "drained p {r} (book_of e) = {}" using d by simp
    then show ?thesis
      unfolding book_drop_def book using w
      by (simp add: book_of_def settled_nonempty[OF False] drop_promise_def)
  qed
qed

lemma without_without: "without p R (without p S w) = without p (S \<union> R) w"
  by (auto simp: without_def fun_eq_iff)

lemma book_drop_drop: "book_drop p R (book_drop p S b) = book_drop p (S \<union> R) b"
proof -
  have "drained p (S \<union> R) b = drained p S b \<union> drained p R (book_drop p S b)"
    by (auto simp: drained_def book_drop_def without_def)
  then show ?thesis by (simp add: book_drop_def without_without Diff_eq Int_assoc)
qed

lemma book_drop_nothing: "book_drop p {} b = b"
  by (cases b) (simp add: book_drop_def drained_def without_def fun_eq_iff)

lemma book_foldl_settled:
  "work_inv e p rs \<Longrightarrow> book_of (foldl (settled p) e rs) = book_drop p (set (map fst rs)) (book_of e)"
proof (induction rs arbitrary: e)
  case Nil
  then show ?case by (simp add: book_drop_nothing)
next
  case (Cons ra rs)
  obtain r a where ra: "ra = (r, a)" by (cases ra)
  note inv = Cons.prems[unfolded ra]
  have "book_of (foldl (settled p) (settled p e (r, a)) rs) =
      book_drop p (set (map fst rs)) (book_drop p {r} (book_of e))"
    using Cons.IH[OF work_inv_settled[OF inv]] by (simp only: book_settled[OF inv])
  also have "\<dots> = book_drop p (set (map fst (ra # rs))) (book_of e)"
    by (simp add: book_drop_drop ra)
  finally show ?case by (simp add: ra)
qed

lemma not_waiting:
  assumes "work_inv e 0 []" "r \<notin> set (map fst (reactions_of p e))"
  shows "p \<notin> waiting_for e r"
proof
  assume "p \<in> waiting_for e r"
  then obtain a where a: "eng_pending e r = Some a" "p \<in> eng_sets e a"
    by (auto simp: waiting_for_def split: option.splits)
  then have "(p, r, a) \<in> set (eng_reactions e)"
    using work_invD(4)[OF assms(1) a(1)] by (auto simp: tracked_ok_def)
  then show False using assms(2) by (force simp: reactions_of_def)
qed

lemma book_settle_refines:
  assumes "work_inv e 0 []"
  shows "book_of (settle p e) = book_settle p (book_of e)"
proof -
  let ?e = "e\<lparr>eng_reactions := filter (\<lambda>(q, _). q \<noteq> p) (eng_reactions e)\<rparr>"
  let ?R = "set (map fst (reactions_of p e))"
  have book: "book_of ?e = book_of e" by (simp add: book_of_def)
  have fields: "bk_active (book_of e) = eng_active e" "bk_ended (book_of e) = eng_finished e"
    "bk_waiting (book_of e) = waiting_for e" by (simp_all add: book_of_def)
  have "book_of (settle p e) = book_drop p ?R (book_of e)"
    using book_foldl_settled[OF work_inv_queued[OF assms, of p]] unfolding settle_def book .
  moreover have "book_drop p ?R (book_of e) = book_drop p UNIV (book_of e)"
  proof -
    have idle: "waiting_for e r \<noteq> {}" if "r \<in> eng_finished e" for r
      using has_pending_iff[OF assms, of r] work_invD(1)[OF assms that] by (simp add: has_pending_waiting)
    have w: "without p ?R (waiting_for e) = without p UNIV (waiting_for e)"
      using not_waiting[OF assms] by (simp add: without_def fun_eq_iff)
    have "r \<in> ?R" if "r \<in> eng_finished e" "waiting_for e r - {p} = {}" for r
      using not_waiting[OF assms, of r p] idle[OF that(1)] that(2) by blast
    then have "drained p ?R (book_of e) = drained p UNIV (book_of e)"
      unfolding drained_def fields by blast
    then show ?thesis unfolding book_drop_def fields w by simp
  qed
  ultimately show ?thesis by (simp add: book_settle_def)
qed

section \<open>Draining\<close>

lemma releaseRequest_reactions [simp]: "eng_reactions (releaseRequest r e) = eng_reactions e"
  by (simp add: releaseRequest_def)

lemma settled_reactions [simp]: "eng_reactions (settled p e ra) = eng_reactions e"
  by (cases ra) (simp add: settled_def Let_def)

lemma settle_reactions: "eng_reactions (settle p e) = filter (\<lambda>(q, _). q \<noteq> p) (eng_reactions e)"
proof -
  have "eng_reactions (foldl (settled p) e rs) = eng_reactions e" for e rs
    by (induction rs arbitrary: e) simp_all
  then show ?thesis by (simp add: settle_def)
qed

definition settle_all :: "promise list \<Rightarrow> engine \<Rightarrow> engine" where
  "settle_all ps e = foldl (\<lambda>e p. settle p e) e ps"

lemma settle_all_inv: "engine_inv e \<Longrightarrow> engine_inv (settle_all ps e)"
  by (induction ps arbitrary: e) (simp_all add: settle_all_def engine_inv_settle)

lemma settle_all_reactions:
  "eng_reactions (settle_all ps e) = filter (\<lambda>(q, _). q \<notin> set ps) (eng_reactions e)"
  by (induction ps arbitrary: e)
    (auto simp: settle_all_def settle_reactions case_prod_beta intro!: filter_cong)

lemma idle_inv:
  assumes "work_inv e 0 []" "eng_reactions e = []"
  shows "eng_pending e = Map.empty" "eng_finished e = {}"
proof -
  have "eng_pending e r = None" for r
    using work_invD(4)[OF assms(1), of r] assms(2) by (cases "eng_pending e r") (auto simp: tracked_ok_def)
  then show "eng_pending e = Map.empty" by (simp add: fun_eq_iff)
  then show "eng_finished e = {}" using work_invD(1)[OF assms(1)] by auto
qed

lemma ended_stays:
  assumes "engine_inv e" "r \<in> eng_finished e \<or> r \<notin> eng_active e"
  shows "r \<in> eng_finished (settle_all ps e) \<or> r \<notin> eng_active (settle_all ps e)"
  using assms
proof (induction ps arbitrary: e)
  case (Cons p ps)
  have "book_of (settle p e) = book_settle p (book_of e)"
    using Cons.prems(1) by (intro book_settle_refines) (simp add: engine_inv_def)
  then have "eng_finished (settle p e) = bk_ended (book_settle p (book_of e))"
    "eng_active (settle p e) = bk_active (book_settle p (book_of e))"
    by (metis book_of_def request_book.select_convs(2), metis book_of_def request_book.select_convs(1))
  then have "r \<in> eng_finished (settle p e) \<or> r \<notin> eng_active (settle p e)"
    using Cons.prems(2) by (auto simp: book_settle_def book_drop_def drained_def book_of_def)
  then show ?case using Cons.IH[of "settle p e"] Cons.prems(1) by (simp add: settle_all_def engine_inv_settle)
qed (simp add: settle_all_def)

section \<open>Properties\<close>

text \<open>C34: In every engine that any sequence of calls can produce, the active requests are at most
  \<open>maxConcurrentOperations\<close>, the limits are valid, the pipeline holds at most 256 plugins whose
  capabilities are consistent, every active request is recorded with the pipeline it runs on, and a
  request that has ended is kept only while work it started is unsettled.\<close>

theorem engine_invariant:
  assumes "reachable e"
  shows "card (eng_active e) \<le> maxConcurrentOperations (eng_limits e) \<and> valid_limits (eng_limits e)
    \<and> length (eng_plugins e) \<le> 256 \<and> (\<forall>p \<in> set (eng_plugins e). returns (getPluginCapabilities p))
    \<and> (\<forall>r. eng_pipelines e r = (if r \<in> eng_active e then Some (pipeline e) else None))
    \<and> (\<forall>r \<in> eng_finished e. r \<in> eng_active e \<and> waiting_for e r \<noteq> {})"
proof -
  have inv: "engine_inv e" using assms by (rule reachable_inv)
  then have work: "work_inv e 0 []" by (simp add: engine_inv_def)
  have "r \<in> eng_active e \<and> waiting_for e r \<noteq> {}" if "r \<in> eng_finished e" for r
    using work_invD(1,2)[OF work, of r] that has_pending_iff[OF work, of r] by (simp add: has_pending_waiting)
  then show ?thesis using inv by (simp add: engine_inv_def config_inv_def)
qed

definition fresh_engine :: engine where
  "fresh_engine = \<lparr>eng_plugins = [], eng_limits = DEFAULT_LIMITS, eng_schema = None, eng_auditLogger = None,
     eng_active = {}, eng_pending = Map.empty, eng_sets = (\<lambda>_. {}), eng_nextSet = 0,
     eng_reactions = [], eng_finished = {}, eng_pipelines = Map.empty,
     eng_errorListeners = False, eng_events = []\<rparr>"

lemma fresh_reachable: "reachable fresh_engine"
  by (rule reach_new[of Map.empty])
    (simp add: new_DataEngine_def validateLimits_id[OF valid_DEFAULT_LIMITS] fresh_engine_def)

definition busy_engine :: engine where
  "busy_engine = emit (EvStart ''r'')
     (fresh_engine\<lparr>eng_active := {''r''}, eng_pipelines := [''r'' \<mapsto> []]\<rparr>)"

lemma busy_reachable: "reachable busy_engine"
  by (rule reach_step[OF fresh_reachable step_start[of "''r''"]])
    (simp_all add: fresh_engine_def startRequest_def busy_engine_def pipeline_def DEFAULT_LIMITS_def)

theorem engine_invariant_witness:
  "card (eng_active busy_engine) \<le> 32 \<and> eng_pipelines busy_engine ''r'' = Some (pipeline busy_engine)"
proof -
  have "eng_limits busy_engine = DEFAULT_LIMITS" "eng_active busy_engine = {''r''}"
    by (simp_all add: busy_engine_def emit_def fresh_engine_def)
  then show ?thesis using engine_invariant[OF busy_reachable] by (simp add: DEFAULT_LIMITS_def)
qed

text \<open>While any request is active, no call changes the plugins or the limits of the engine.\<close>

theorem engine_frozen_while_active:
  assumes "reachable e" "eng_active e \<noteq> {}" "engine_step e e'"
  shows "eng_plugins e' = eng_plugins e \<and> eng_limits e' = eng_limits e"
proof -
  have "finite (eng_active e)" using reachable_inv[OF assms(1)] by (simp add: engine_inv_def config_inv_def)
  with assms(2) have busy: "card (eng_active e) > 0" by (simp add: card_gt_0_iff)
  have settled: "eng_plugins (settled p e ra) = eng_plugins e \<and> eng_limits (settled p e ra) = eng_limits e"
    for p ra and e :: engine by (cases ra) (simp add: settled_def Let_def releaseRequest_def)
  have "eng_plugins (foldl (settled p) e rs) = eng_plugins e \<and> eng_limits (foldl (settled p) e rs) = eng_limits e"
    for p rs and e :: engine by (induction rs arbitrary: e) (simp_all add: settled)
  then have "eng_plugins (settle p e) = eng_plugins e \<and> eng_limits (settle p e) = eng_limits e" for p and e :: engine
    by (simp add: settle_def)
  with assms(3) busy show ?thesis
    by cases (auto simp: use_plugin_def setLimits_def setSchema_def setAuditLogger_def startRequest_def emit_def
        trackWork_def releaseRequest_def endRequest_def emitProgress_def emitError_def Let_def rbind_eq_Inr
        split: if_splits option.splits)
qed

theorem engine_frozen_while_active_witness:
  "eng_limits (trackWork ''r'' 7 busy_engine) = DEFAULT_LIMITS"
  using engine_frozen_while_active[OF busy_reachable _ step_track[of "''r''" busy_engine 7]]
  by (simp add: busy_engine_def emit_def fresh_engine_def)

text \<open>C25: The maps, shared sets and callbacks of the engine implement a plain book of requests: starting,
  tracking, releasing and settling act on the book in one step each, and settling a promise removes
  it from every request that waits for it, in whatever order the callbacks were registered.\<close>

theorem engine_refines_book:
  assumes "reachable e"
  shows "(startRequest e r = Inr e' \<longrightarrow> book_of e' = book_start r (book_of e))
    \<and> book_of (trackWork r p e) = book_track r p (book_of e)
    \<and> book_of (releaseRequest r e) = book_release r (book_of e)
    \<and> book_of (endRequest r duration e) = book_release r (book_of e)
    \<and> book_of (emitError err r e) = book_release r (book_of e)
    \<and> book_of (settle p e) = book_settle p (book_of e)"
proof -
  have "work_inv e 0 []" using reachable_inv[OF assms] by (simp add: engine_inv_def)
  then show ?thesis
    by (simp add: book_start_refines book_track_refines book_release_refines book_settle_refines
        endRequest_def emitError_def book_emit Let_def)
qed

theorem engine_refines_book_witness:
  "book_of (settle 7 (trackWork ''r'' 7 busy_engine)) =
     book_settle 7 (book_track ''r'' 7 (book_of busy_engine))"
proof -
  have "reachable (trackWork ''r'' 7 busy_engine)"
    by (rule reach_step[OF busy_reachable step_track]) (simp add: busy_engine_def emit_def)
  from engine_refines_book[OF this] engine_refines_book[OF busy_reachable] show ?thesis by simp
qed

text \<open>C35: Work that outlives its request keeps the capacity reserved, and no longer than that: once
  every tracked promise has settled, every request that had ended is released and the engine waits
  for nothing.\<close>

theorem engine_work_drains:
  assumes "reachable e" "\<And>p r a. (p, r, a) \<in> set (eng_reactions e) \<Longrightarrow> p \<in> set ps"
  shows "eng_finished (settle_all ps e) = {} \<and> eng_pending (settle_all ps e) = Map.empty
    \<and> eng_active (settle_all ps e) \<inter> eng_finished e = {}"
proof -
  have inv: "engine_inv e" using assms(1) by (rule reachable_inv)
  have "eng_reactions (settle_all ps e) = []"
    using assms(2) by (auto simp: settle_all_reactions filter_empty_conv)
  moreover have "work_inv (settle_all ps e) 0 []"
    using settle_all_inv[OF inv] by (simp add: engine_inv_def)
  ultimately have idle: "eng_pending (settle_all ps e) = Map.empty" "eng_finished (settle_all ps e) = {}"
    using idle_inv by blast+
  then show ?thesis using ended_stays[OF inv] by blast
qed

theorem engine_work_drains_witness:
  "eng_finished (settle_all [7] (releaseRequest ''r'' (trackWork ''r'' 7 busy_engine))) = {}"
proof -
  have "reachable (trackWork ''r'' 7 busy_engine)"
    by (rule reach_step[OF busy_reachable step_track]) (simp add: busy_engine_def emit_def)
  then have "reachable (releaseRequest ''r'' (trackWork ''r'' 7 busy_engine))"
    by (rule reach_step) (rule step_release)
  from engine_work_drains[OF this, of "[7]"] show ?thesis
    by (auto simp: trackWork_def busy_engine_def emit_def fresh_engine_def)
qed

end
