(* ===== verification/Binary_Controller.thy ===== *)
theory Binary_Controller
  imports Engine
begin

text \<open>
  \<open>BinaryController\<close> (\<open>src/core/controllers/BinaryController.ts\<close>): values in memory through the
  plugin pipeline and back.  An \<open>async\<close> method is a step on the state it works on: the engine, the
  clock, the identities of promises still to be handed out, and the table of trusted types.  It
  returns, throws, or waits for ever.  Spans, logging and the text of metadata are left out.
\<close>

section \<open>Steps of an operation\<close>

record run_state =
  rs_engine :: engine
  rs_trusted :: "nat \<rightharpoonup> string"
  rs_now :: time
  rs_promise :: promise

datatype 'a flow = Hangs | Throws px_error | Returns 'a

type_synonym ('s, 'a) step = "'s \<Rightarrow> 's \<times> 'a flow"

type_synonym 'a op = "(run_state, 'a) step"

definition op_bind :: "('s, 'a) step \<Rightarrow> ('a \<Rightarrow> ('s, 'b) step) \<Rightarrow> ('s, 'b) step" where
  "op_bind m f s =
     (case m s of
        (s', Returns a) \<Rightarrow> f a s'
      | (s', Throws e) \<Rightarrow> (s', Throws e)
      | (s', Hangs) \<Rightarrow> (s', Hangs))"

definition op_return :: "'a \<Rightarrow> ('s, 'a) step" where
  "op_return a s = (s, Returns a)"

definition op_check :: "px_error + 'a \<Rightarrow> ('s, 'a) step" where
  "op_check r s = (s, case r of Inl e \<Rightarrow> Throws e | Inr a \<Rightarrow> Returns a)"

definition op_engine :: "(engine \<Rightarrow> engine) \<Rightarrow> unit op" where
  "op_engine f s = (s\<lparr>rs_engine := f (rs_engine s)\<rparr>, Returns ())"

text \<open>\<open>op_now\<close> is \<open>Date.now()\<close>; \<open>op_state\<close> reads the whole state, \<open>op_validate\<close> is \<open>engine.validate\<close>.\<close>

definition op_now :: "time op" where
  "op_now s = (s, Returns (rs_now s))"

definition op_state :: "run_state op" where
  "op_state s = (s, Returns s)"

definition op_validate :: "js_value \<Rightarrow> unit op" where
  "op_validate v = op_bind op_state (\<lambda>s. op_check (validate (rs_engine s) v))"

definition op_aborted :: "abort_signal \<Rightarrow> unit op" where
  "op_aborted signal = op_bind op_now (\<lambda>now. op_check (throwIfAborted (Some signal) now))"

text \<open>
  The promises that \<open>withRetry\<close> hands to \<open>track\<close>: one for each attempt, made in the same order and
  under the same conditions as in \<open>retry_from\<close>.
\<close>

function tracked_from ::
  "'a attempt \<Rightarrow> nat \<Rightarrow> backoff \<Rightarrow> nat \<Rightarrow> nat \<Rightarrow> abort_signal option \<Rightarrow> nat \<Rightarrow> time \<Rightarrow> 'a settlement list"
where
  "tracked_from fn n b d maxDelay signal i now =
     (if \<not> i < n then []
      else case throwIfAborted signal now of Inl e \<Rightarrow> []
      | Inr _ \<Rightarrow>
          fn i now #
          (case awaitOperation (fn i now) signal now of
             Settles t (Inl err) \<Rightarrow>
               (case throwIfAborted signal t of Inl e \<Rightarrow> []
                | Inr _ \<Rightarrow>
                    if i < n - 1 \<and> next_delay b d i > 0
                    then (case backoff_wait signal t (min (next_delay b d i) maxDelay) of
                            Inl _ \<Rightarrow> []
                          | Inr t' \<Rightarrow> tracked_from fn n b d maxDelay signal (i + 1) t')
                    else tracked_from fn n b d maxDelay signal (i + 1) t)
           | _ \<Rightarrow> []))"
  by pat_completeness auto
termination
  by (relation "measure (\<lambda>(fn, n, b, d, maxDelay, signal, i, now). n - i)") auto

declare tracked_from.simps [simp del]

definition tracked_attempts ::
  "'a attempt \<Rightarrow> retry_options option \<Rightarrow> engine_limits \<Rightarrow> abort_signal \<Rightarrow> time \<Rightarrow> 'a settlement list" where
  "tracked_attempts fn options limits signal now =
     (case retry_plan options (Some limits) of None \<Rightarrow> []
      | Some (n, b, d, maxDelay) \<Rightarrow> tracked_from fn n b d maxDelay (Some signal) 0 now)"

text \<open>
  The engine while the operation waits: each promise is tracked, and its callbacks run if it has
  settled when the wait is over (at \<open>until\<close>, or never).
\<close>

definition settled_by :: "time option \<Rightarrow> 'a settlement \<Rightarrow> bool" where
  "settled_by until p =
     (case p of Pending \<Rightarrow> False
      | Settles t _ \<Rightarrow> (case until of None \<Rightarrow> True | Some u \<Rightarrow> t \<le> u))"

fun track_promises :: "string \<Rightarrow> time option \<Rightarrow> 'a settlement list \<Rightarrow> promise \<Rightarrow> engine \<Rightarrow> engine" where
  "track_promises requestId until [] n e = e"
| "track_promises requestId until (p # ps) n e =
     track_promises requestId until ps (n + 1)
       (let e = trackWork requestId n e in if settled_by until p then settle n e else e)"

definition op_wait :: "string \<Rightarrow> 'a settlement list \<Rightarrow> 'a settlement \<Rightarrow> 'a op" where
  "op_wait requestId promises result s =
     (let until = (case result of Pending \<Rightarrow> None | Settles t _ \<Rightarrow> Some t);
          s = s\<lparr>rs_engine := track_promises requestId until promises (rs_promise s) (rs_engine s),
                rs_promise := rs_promise s + length promises\<rparr>
      in case result of
           Pending \<Rightarrow> (s, Hangs)
         | Settles t (Inl e) \<Rightarrow> (s\<lparr>rs_now := t\<rparr>, Throws e)
         | Settles t (Inr a) \<Rightarrow> (s\<lparr>rs_now := t\<rparr>, Returns a))"

text \<open>One plugin: \<open>withRetry\<close>, then the check of what it returned.\<close>

definition plugin_output :: "engine_limits \<Rightarrow> js_buffer option \<Rightarrow> px_error + js_buffer" where
  "plugin_output limits out =
     (case out of
        Some b \<Rightarrow>
          if length (bytes_of b) > maxOutputBytes limits
          then Inl (JsError ''[PipeX] Plugin output exceeds configured limit'') else Inr b
      | None \<Rightarrow> Inl (JsError ''[PipeX] Plugin output exceeds configured limit''))"

definition call_plugin ::
  "string \<Rightarrow> string \<Rightarrow> abort_signal \<Rightarrow> engine_limits \<Rightarrow> plugin \<Rightarrow> plugin_call \<Rightarrow> js_buffer \<Rightarrow> js_buffer op" where
  "call_plugin requestId originalType signal limits p call data =
     op_bind op_now (\<lambda>now.
       let ctx = makeContext requestId [''originalType'' \<mapsto> originalType] (Some signal) (Some limits) now;
           fn = call ctx data
       in op_bind
            (op_wait requestId (tracked_attempts fn (plugin_retryOptions p) limits signal now)
              (withRetry fn (plugin_retryOptions p) (Some limits) (Some signal) now))
            (\<lambda>out. op_check (plugin_output limits out)))"

section \<open>run\<close>

record engine_result =
  er_data :: js_buffer
  er_originalType :: string
  er_pipeline :: "string list"
  er_durationMs :: nat
  er_steps :: "string \<rightharpoonup> nat"

fun run_plugins ::
  "string \<Rightarrow> string \<Rightarrow> abort_signal \<Rightarrow> engine_limits \<Rightarrow> plugin list \<Rightarrow> js_buffer \<Rightarrow> (string \<rightharpoonup> nat)
     \<Rightarrow> (js_buffer \<times> (string \<rightharpoonup> nat)) op" where
  "run_plugins requestId t signal limits [] data metrics = op_return (data, metrics)"
| "run_plugins requestId t signal limits (p # ps) data metrics =
     op_bind op_now (\<lambda>t0.
     op_bind (call_plugin requestId t signal limits p (plugin_process p) data) (\<lambda>data.
     op_bind op_now (\<lambda>t1.
     op_bind (op_engine (emit (EvPluginAfter (plugin_name p) (t1 - t0)))) (\<lambda>_.
       run_plugins requestId t signal limits ps data (metrics(plugin_name p \<mapsto> t1 - t0))))))"

definition op_audit :: "string \<Rightarrow> audit_operation \<Rightarrow> abort_signal \<Rightarrow> unit op" where
  "op_audit requestId operation signal =
     op_bind op_state (\<lambda>s.
       let p = emitAudit (rs_engine s) requestId operation (rs_now s)
       in op_wait requestId [p] (awaitOperation p (Some signal) (rs_now s)))"

text \<open>The conversion of the input, with its limits.\<close>

definition run_input :: "js_runtime \<Rightarrow> nat \<Rightarrow> engine_limits \<Rightarrow> string \<Rightarrow> js_value \<Rightarrow> px_error + js_buffer" where
  "run_input rt fresh limits originalType input =
     rbind (assertKnownValueByteLimit rt input (maxInputBytes limits) ''Input'') (\<lambda>_.
       rbind (toBuffer rt fresh input) (\<lambda>data.
         if length (bytes_of data) > maxInputBytes limits
         then Inl (JsError ''[PipeX] Input exceeds configured limit'')
         else if originalType = ''object'' \<or> originalType = ''array''
         then rbind (assertMessagePackFrameLimits (bytes_of data) (maxFrameBytes limits) 1) (\<lambda>_. Inr data)
         else Inr data))"

definition op_trust :: "js_buffer \<Rightarrow> string \<Rightarrow> unit op" where
  "op_trust data t s = (s\<lparr>rs_trusted := (rs_trusted s)(buffer_id data \<mapsto> t)\<rparr>, Returns ())"

text \<open>The \<open>try\<close> block, from the state in which the request has started.\<close>

definition run_body ::
  "js_runtime \<Rightarrow> nat \<Rightarrow> string \<Rightarrow> abort_signal \<Rightarrow> plugin list \<Rightarrow> string list \<Rightarrow> engine_limits \<Rightarrow> js_value
     \<Rightarrow> engine_result op" where
  "run_body rt fresh requestId signal plugins labels limits input =
     (let originalType = detectType input in
      op_bind op_now (\<lambda>startTime.
      op_bind (op_validate input) (\<lambda>_.
      op_bind (op_check (run_input rt fresh limits originalType input)) (\<lambda>data.
      op_bind (run_plugins requestId originalType signal limits plugins data Map.empty) (\<lambda>(data, metrics).
      op_bind (op_check (throw_if (length (bytes_of data) > maxOutputBytes limits)
        (JsError ''[PipeX] Output exceeds configured limit''))) (\<lambda>_.
      op_bind (op_aborted signal) (\<lambda>_.
      op_bind op_now (\<lambda>now.
      let durationMs = now - startTime in
      op_bind (op_audit requestId AuditProcess signal) (\<lambda>_.
      op_bind (op_aborted signal) (\<lambda>_.
      op_bind (op_trust data originalType) (\<lambda>_.
      op_bind (op_engine (endRequest requestId (Some durationMs))) (\<lambda>_.
      op_return \<lparr>er_data = data, er_originalType = originalType, er_pipeline = labels,
                 er_durationMs = durationMs, er_steps = metrics\<rparr>))))))))))))"

text \<open>\<open>catch (error) { emitError; throw }\<close> and \<open>finally { releaseRequest }\<close>.\<close>

definition op_guarded :: "string \<Rightarrow> 'a op \<Rightarrow> 'a op" where
  "op_guarded requestId body s =
     (case body s of
        (s', Hangs) \<Rightarrow> (s', Hangs)
      | (s', Throws err) \<Rightarrow>
          (s'\<lparr>rs_engine := releaseRequest requestId (emitError err requestId (rs_engine s'))\<rparr>, Throws err)
      | (s', Returns a) \<Rightarrow> (s'\<lparr>rs_engine := releaseRequest requestId (rs_engine s')\<rparr>, Returns a))"

definition op_start :: "string \<Rightarrow> unit op" where
  "op_start requestId s =
     (case startRequest (rs_engine s) requestId of
        Inl err \<Rightarrow> (s, Throws err) | Inr e \<Rightarrow> (s\<lparr>rs_engine := e\<rparr>, Returns ()))"

definition binary_run ::
  "js_runtime \<Rightarrow> nat \<Rightarrow> string \<Rightarrow> js_value \<Rightarrow> operation_options \<Rightarrow> engine_result op" where
  "binary_run rt fresh requestId input options =
     op_bind op_state (\<lambda>s.
      let limits = eng_limits (rs_engine s); plugins = eng_plugins (rs_engine s);
          labels = pipeline (rs_engine s)
      in op_bind (op_check (createOperationSignal limits options (rs_now s))) (\<lambda>signal.
         op_bind (op_aborted signal) (\<lambda>_.
         op_bind (op_check (assertOriginalType (Some (detectType input)))) (\<lambda>_.
         op_bind (op_start requestId) (\<lambda>_.
         op_guarded requestId (run_body rt fresh requestId signal plugins labels limits input))))))"

section \<open>pack and unpack\<close>

text \<open>\<open>catch (err)\<close>: the package's own errors pass, others become a \<open>ValidationError\<close>.\<close>

definition rethrow_own :: "px_error \<Rightarrow> px_error + 'a \<Rightarrow> px_error + 'a" where
  "rethrow_own other r =
     (case r of Inl e \<Rightarrow> Inl (if is_pipex_message (error_message e) then e else other) | Inr a \<Rightarrow> Inr a)"

definition binary_pack :: "js_runtime \<Rightarrow> engine_limits \<Rightarrow> js_value \<Rightarrow> px_error + buffer" where
  "binary_pack rt limits data = rethrow_own (ValidationError (at_stage ''pack''))
     (rbind (assertKnownValueByteLimit rt data (min (maxInputBytes limits) (maxFrameBytes limits))
         ''Serialization input'') (\<lambda>_.
       rbind (rt_pack rt data) (\<lambda>packed.
         if length packed > maxInputBytes limits
         then Inl (JsError ''[PipeX] Packed input exceeds configured limit'')
         else rbind (assertMessagePackFrameLimits packed (maxFrameBytes limits) 1) (\<lambda>_.
           if length packed > maxOutputBytes limits
           then Inl (JsError ''[PipeX] Packed output exceeds configured limit'')
           else Inr packed))))"

definition binary_unpack :: "js_runtime \<Rightarrow> engine_limits \<Rightarrow> buffer \<Rightarrow> px_error + js_value" where
  "binary_unpack rt limits input = rethrow_own (ValidationError (at_stage ''unpack''))
     (if length input > maxInputBytes limits
      then Inl (JsError ''[PipeX] Serialized input exceeds configured limit'')
      else rbind (assertMessagePackFrameLimits input (maxFrameBytes limits) 1) (\<lambda>_. rt_unpack rt input))"

definition packWithManifest ::
  "js_runtime \<Rightarrow> engine_limits \<Rightarrow> plugin list \<Rightarrow> time \<Rightarrow> js_value \<Rightarrow> px_error + buffer" where
  "packWithManifest rt limits plugins now data =
     (if length plugins > 0
      then Inl (JsError ''[PipeX] packWithManifest is serialization-only; use binary.run for plugin transforms'')
      else
        rbind (assertKnownValueByteLimit rt data (min (maxInputBytes limits) (maxFrameBytes limits))
            ''Serialization input'') (\<lambda>_.
          rbind (rt_pack rt (buildManifest [] now)) (\<lambda>mFrame.
          rbind (rt_pack rt data) (\<lambda>dFrame.
          rbind (assertMessagePackFrameLimits mFrame (maxFrameBytes limits) 1) (\<lambda>_.
          rbind (assertMessagePackFrameLimits dFrame (maxFrameBytes limits) 1) (\<lambda>_.
            if length mFrame + length dFrame > min (maxInputBytes limits) (maxOutputBytes limits)
            then Inl (JsError ''[PipeX] Serialized input exceeds configured limit'')
            else Inr (mFrame @ dFrame)))))))"

definition unpackWithManifest ::
  "js_runtime \<Rightarrow> engine_limits \<Rightarrow> buffer \<Rightarrow> px_error + (js_value \<times> js_value)" where
  "unpackWithManifest rt limits input =
     (if length input > maxInputBytes limits
      then Inl (JsError ''[PipeX] Serialized input exceeds configured limit'')
      else
        rbind (assertMessagePackFrameLimits input (maxFrameBytes limits) 2) (\<lambda>_.
          case rt_unpackMultiple rt input of (frames, err) \<Rightarrow>
            if length frames > 2 then Inl (JsError ''[PipeX] Frame count exceeds configured limit'')
            else case err of
              Some e \<Rightarrow>
                Inl (if is_pipex_message (error_message e) then e
                     else JsError ''[PipeX] binary.unpackWithManifest: invalid MessagePack input'')
            | None \<Rightarrow>
                (case frames of
                   [m, v] \<Rightarrow>
                     if \<not> isManifest m
                     then Inl (JsError ''[PipeX] binary.unpackWithManifest: first frame is not a PipeXManifest'')
                     else Inr (m, v)
                 | _ \<Rightarrow> Inl (JsError ''[PipeX] binary.unpackWithManifest: buffer contains fewer than 2 frames''))))"

section \<open>undo\<close>

text \<open>
  A result that may have been transported: its members may hold anything.  \<open>None\<close> stands for a member
  of the wrong type; \<open>tr_steps\<close> are the values of \<open>metrics.steps\<close>.
\<close>

record transported =
  tr_data :: "js_buffer option"
  tr_originalType :: "string option"
  tr_pipeline :: "js_value list option"
  tr_durationMs :: js_value
  tr_steps :: "js_value list option"

definition duration_ok :: "js_value \<Rightarrow> bool" where
  "duration_ok v = (case v of JsNum (JsRat r) \<Rightarrow> r \<ge> 0 | JsNum JsNegativeZero \<Rightarrow> True | _ \<Rightarrow> False)"

definition pipeline_label_ok :: "js_value \<Rightarrow> bool" where
  "pipeline_label_ok v = (case v of JsString s \<Rightarrow> length s \<le> 512 | _ \<Rightarrow> False)"

definition result_ok :: "transported \<Rightarrow> bool" where
  "result_ok result \<longleftrightarrow> tr_data result \<noteq> None
     \<and> (case tr_pipeline result of None \<Rightarrow> False
        | Some ps \<Rightarrow> length ps \<le> 256 \<and> list_all pipeline_label_ok ps)
     \<and> duration_ok (tr_durationMs result)
     \<and> (case tr_steps result of None \<Rightarrow> False | Some ns \<Rightarrow> list_all duration_ok ns)"

text \<open>
  The second argument: absent, of a type that is no object, or options with an \<open>expectedType\<close> that
  is absent, no string, or a string.
\<close>

datatype undo_options = NoUndoOptions | BadUndoOptions | UndoOptions "string option option" operation_options

fun expected_type :: "undo_options \<Rightarrow> string option option" where
  "expected_type (UndoOptions expected options) = expected"
| "expected_type options = None"

definition default_options :: operation_options where
  "default_options = \<lparr>op_signal = None, op_timeoutMs = None\<rparr>"

datatype undo_input =
    UndoRaw js_buffer "string option" operation_options
  | UndoResult transported undo_options

text \<open>What is undone as which type: the checks before the operation starts.\<close>

definition undo_arguments ::
  "(nat \<rightharpoonup> string) \<Rightarrow> undo_input \<Rightarrow> px_error + (js_buffer \<times> string \<times> operation_options)" where
  "undo_arguments trusted inp =
     (case inp of
        UndoRaw data forceType options \<Rightarrow>
          rbind (assertOriginalType forceType) (\<lambda>_.
            Inr (data, the forceType, options))
      | UndoResult result options \<Rightarrow>
          (case (result_ok result, tr_data result) of
             (True, Some data) \<Rightarrow>
               rbind (assertOriginalType (tr_originalType result)) (\<lambda>_.
                 rbind (throw_if (options = BadUndoOptions) (JsError ''[PipeX] Invalid undo options'')) (\<lambda>_.
                   let trustedType = (case expected_type options of Some t \<Rightarrow> Some t
                         | None \<Rightarrow> (case trusted (buffer_id data) of Some t \<Rightarrow> Some (Some t) | None \<Rightarrow> None))
                   in case trustedType of
                        None \<Rightarrow> Inl (JsError ''[PipeX] Transported EngineResult requires a trusted expectedType'')
                      | Some t \<Rightarrow>
                          rbind (assertOriginalType t) (\<lambda>_.
                            if t \<noteq> tr_originalType result
                            then Inl (JsError ''[PipeX] Result type does not match the expected type'')
                            else Inr (data, the t,
                              case options of UndoOptions _ o' \<Rightarrow> o' | _ \<Rightarrow> default_options))))
           | _ \<Rightarrow> Inl (JsError ''[PipeX] Invalid EngineResult'')))"

definition is_raw :: "undo_input \<Rightarrow> bool" where
  "is_raw inp = (case inp of UndoRaw _ _ _ \<Rightarrow> True | UndoResult _ _ \<Rightarrow> False)"

definition manifest_plugins :: "js_value \<Rightarrow> js_value list" where
  "manifest_plugins m =
     (case m of JsObject props \<Rightarrow>
        (case map_of props ''plugins'' of Some (JsArray ps) \<Rightarrow> ps | _ \<Rightarrow> []) | _ \<Rightarrow> [])"

text \<open>A raw buffer given to an engine without plugins may carry a manifest, which is taken off.\<close>

definition undo_manifest ::
  "js_runtime \<Rightarrow> nat \<Rightarrow> engine_limits \<Rightarrow> string \<Rightarrow> js_buffer \<Rightarrow> px_error + js_buffer" where
  "undo_manifest rt fresh limits origType data =
     (case unpackWithManifest rt limits (bytes_of data) of
        Inl _ \<Rightarrow> Inr data
      | Inr (m, v) \<Rightarrow>
          if length (manifest_plugins m) \<noteq> 0
          then Inl (JsError ''[PipeX] Manifest plugin chain does not match the configured engine'')
          else if detectType v \<noteq> origType
          then Inl (JsError ''[PipeX] Manifest data does not match the expected type'')
          else toBuffer rt fresh v)"

fun undo_plugins ::
  "string \<Rightarrow> string \<Rightarrow> abort_signal \<Rightarrow> engine_limits \<Rightarrow> plugin list \<Rightarrow> js_buffer \<Rightarrow> js_buffer op" where
  "undo_plugins requestId t signal limits [] data = op_return data"
| "undo_plugins requestId t signal limits (p # ps) data =
     op_bind (call_plugin requestId t signal limits p (call_reverse p) data) (\<lambda>data.
       op_bind (op_engine (emit (EvPluginAfter (plugin_name p) 0))) (\<lambda>_.
         undo_plugins requestId t signal limits ps data))"

definition undo_body ::
  "js_runtime \<Rightarrow> nat \<Rightarrow> string \<Rightarrow> abort_signal \<Rightarrow> plugin list \<Rightarrow> engine_limits \<Rightarrow> bool \<Rightarrow> js_buffer \<Rightarrow> string
     \<Rightarrow> js_value op" where
  "undo_body rt fresh requestId signal plugins limits raw data origType =
     op_bind (op_check (if raw \<and> length plugins = 0 \<and> length (bytes_of data) > 0
       then undo_manifest rt fresh limits origType data else Inr data)) (\<lambda>data.
     op_bind (undo_plugins requestId origType signal limits (rev plugins) data) (\<lambda>data.
     op_bind (op_check (throw_if (length (bytes_of data) > maxOutputBytes limits)
       (JsError ''[PipeX] Output exceeds configured limit''))) (\<lambda>_.
     op_bind (op_aborted signal) (\<lambda>_.
     op_bind (op_check (fromBuffer rt data origType (maxFrameBytes limits))) (\<lambda>restored.
     op_bind (op_validate restored) (\<lambda>_.
     op_bind (op_aborted signal) (\<lambda>_.
     op_bind (op_audit requestId AuditReverse signal) (\<lambda>_.
     op_bind (op_aborted signal) (\<lambda>_.
     op_bind (op_engine (endRequest requestId None)) (\<lambda>_.
     op_return restored))))))))))"

definition binary_undo :: "js_runtime \<Rightarrow> nat \<Rightarrow> string \<Rightarrow> undo_input \<Rightarrow> js_value op" where
  "binary_undo rt fresh requestId inp =
     op_bind op_state (\<lambda>s.
      let limits = eng_limits (rs_engine s); plugins = eng_plugins (rs_engine s) in
      op_bind (op_check (undo_arguments (rs_trusted s) inp)) (\<lambda>(data, origType, options).
      op_bind (op_check (createOperationSignal limits options (rs_now s))) (\<lambda>signal.
      op_bind (op_aborted signal) (\<lambda>_.
      op_bind (op_check (assertReversiblePipeline plugins)) (\<lambda>_.
      op_bind (op_check (throw_if (length (bytes_of data) > maxInputBytes limits)
        (JsError ''[PipeX] Undo input exceeds configured limit''))) (\<lambda>_.
      op_bind (op_start requestId) (\<lambda>_.
      op_guarded requestId
        (undo_body rt fresh requestId signal plugins limits (is_raw inp) data origType))))))))"

text \<open>The result of \<open>run\<close> as its receiver holds it, unchanged.\<close>

definition as_transported :: "engine_result \<Rightarrow> string list \<Rightarrow> transported" where
  "as_transported r names =
     \<lparr>tr_data = Some (er_data r), tr_originalType = Some (er_originalType r),
      tr_pipeline = Some (map JsString (er_pipeline r)),
      tr_durationMs = JsNum (JsRat (of_nat (er_durationMs r))),
      tr_steps = Some (map (\<lambda>n. JsNum (JsRat (of_nat (the (er_steps r n))))) names)\<rparr>"

section \<open>A rule for each construct\<close>

text \<open>
  \<open>valid P m Q E\<close>: from a state with \<open>P\<close>, the operation returns \<open>a\<close> in a state with \<open>Q a\<close>, or ends
  otherwise in a state with \<open>E\<close>.
\<close>

definition valid ::
  "('s \<Rightarrow> bool) \<Rightarrow> ('s, 'a) step \<Rightarrow> ('a \<Rightarrow> 's \<Rightarrow> bool) \<Rightarrow> ('s \<Rightarrow> bool) \<Rightarrow> bool" where
  "valid P m Q E \<longleftrightarrow>
     (\<forall>s. P s \<longrightarrow> (case m s of (s', Returns a) \<Rightarrow> Q a s' | (s', Throws e) \<Rightarrow> E s' | (s', Hangs) \<Rightarrow> E s'))"

named_theorems valid_rules "one rule for each construct of an operation"

lemma valid_bind [valid_rules]:
  assumes "valid P m Q E" "\<And>a. valid (Q a) (f a) R E"
  shows "valid P (op_bind m f) R E"
  unfolding valid_def
proof (intro allI impI)
  fix s assume "P s"
  obtain s' r where m: "m s = (s', r)" by (cases "m s")
  have r: "case r of Returns a \<Rightarrow> Q a s' | Throws e \<Rightarrow> E s' | Hangs \<Rightarrow> E s'"
    using assms(1) \<open>P s\<close> m by (auto simp: valid_def split: flow.splits)
  show "case op_bind m f s of (s', Returns a) \<Rightarrow> R a s' | (s', Throws e) \<Rightarrow> E s' | (s', Hangs) \<Rightarrow> E s'"
    using r m assms(2) by (cases r) (auto simp: op_bind_def valid_def)
qed

lemma valid_weaken:
  assumes "valid P m Q E" "\<And>s. P' s \<Longrightarrow> P s" "\<And>a s. Q a s \<Longrightarrow> Q' a s" "\<And>s. E s \<Longrightarrow> E' s"
  shows "valid P' m Q' E'"
  using assms unfolding valid_def by (fastforce split: flow.splits prod.splits)

lemma valid_Returns: "valid P m Q E \<Longrightarrow> P s \<Longrightarrow> m s = (s', Returns a) \<Longrightarrow> Q a s'"
  by (fastforce simp: valid_def)

lemma valid_return [valid_rules]: "valid (Q a) (op_return a) Q E"
  by (simp add: valid_def op_return_def)

lemma valid_state:
  assumes "\<And>s. valid (\<lambda>x. x = s \<and> P x) (f s) Q E"
  shows "valid P (\<lambda>s. f s s) Q E"
  using assms[unfolded valid_def] unfolding valid_def by simp

text \<open>Operations that keep a predicate however they end.\<close>

abbreviation keeps :: "('s \<Rightarrow> bool) \<Rightarrow> ('s, 'a) step \<Rightarrow> bool" where
  "keeps I m \<equiv> valid I m (\<lambda>_. I) I"

lemma keeps_check: "keeps I (op_check r)"
  by (cases r) (simp_all add: valid_def op_check_def)

lemma keeps_now: "keeps I op_now"
  by (simp add: valid_def op_now_def)

lemma keeps_state: "keeps I op_state"
  by (simp add: valid_def op_state_def)

lemma keeps_bind:
  "keeps I m \<Longrightarrow> (\<And>a. valid I (f a) Q I) \<Longrightarrow> valid I (op_bind m f) Q I"
  by (rule valid_bind)

lemma keeps_return: "keeps I (op_return a)"
  by (rule valid_return)

lemma keeps_validate: "keeps I (op_validate v)"
  unfolding op_validate_def by (intro keeps_bind keeps_state keeps_check)

lemma keeps_aborted: "keeps I (op_aborted signal)"
  unfolding op_aborted_def by (intro keeps_bind keeps_now keeps_check)

lemmas keeps_rules = keeps_bind keeps_return keeps_now keeps_state keeps_check keeps_validate keeps_aborted

section \<open>The engine during an operation\<close>

text \<open>The engine is one that the calls of the package can reach, and the request is active.\<close>

definition in_request :: "string \<Rightarrow> run_state \<Rightarrow> bool" where
  "in_request r s \<longleftrightarrow> reachable (rs_engine s) \<and> r \<in> eng_active (rs_engine s) \<and> r \<notin> eng_finished (rs_engine s)"

lemma work_inv_reachable: "reachable e \<Longrightarrow> work_inv e 0 []"
  using reachable_inv by (simp add: engine_inv_def)

lemma settle_in_request:
  assumes "reachable e" "r \<in> eng_active e" "r \<notin> eng_finished e"
  shows "reachable (settle p e) \<and> r \<in> eng_active (settle p e) \<and> r \<notin> eng_finished (settle p e)"
proof -
  have "book_of (settle p e) = book_settle p (book_of e)"
    by (rule book_settle_refines[OF work_inv_reachable[OF assms(1)]])
  then have "eng_active (settle p e) = bk_active (book_settle p (book_of e))"
    "eng_finished (settle p e) = bk_ended (book_settle p (book_of e))"
    by (metis book_of_def request_book.select_convs(1), metis book_of_def request_book.select_convs(2))
  then show ?thesis
    using assms reach_step[OF assms(1) step_settle]
    by (simp add: book_settle_def book_drop_def drained_def book_of_def)
qed

lemma track_in_request:
  assumes "reachable e" "r \<in> eng_active e" "r \<notin> eng_finished e"
  shows "reachable (trackWork r p e) \<and> r \<in> eng_active (trackWork r p e) \<and> r \<notin> eng_finished (trackWork r p e)"
  using assms reach_step[OF assms(1) step_track[OF assms(2)]]
  by (auto simp: trackWork_def Let_def split: option.splits)

lemma track_promises_in_request:
  "reachable e \<Longrightarrow> r \<in> eng_active e \<Longrightarrow> r \<notin> eng_finished e \<Longrightarrow>
     reachable (track_promises r until ps n e) \<and> r \<in> eng_active (track_promises r until ps n e)
     \<and> r \<notin> eng_finished (track_promises r until ps n e)"
proof (induction ps arbitrary: n e)
  case (Cons p ps)
  note tr = track_in_request[OF Cons.prems, of n]
  then show ?case
    using Cons.IH[of "trackWork r n e"] Cons.IH[of "settle n (trackWork r n e)"]
      settle_in_request[of "trackWork r n e" r n]
    by (simp add: Let_def)
qed simp

lemma keeps_wait: "keeps (in_request r) (op_wait r ps result)"
proof -
  have "in_request r (s\<lparr>rs_engine := track_promises r until ps (rs_promise s) (rs_engine s), rs_promise := n\<rparr>)"
    if "in_request r s" for s until n
    using that track_promises_in_request[of "rs_engine s" r] by (simp add: in_request_def)
  then show ?thesis
    by (auto simp: valid_def op_wait_def Let_def in_request_def split: settlement.splits sum.splits)
qed

lemma keeps_emit: "keeps (in_request r) (op_engine (emit (EvPluginAfter name ms)))"
proof -
  have "reachable (emit (EvPluginAfter name ms) e)" if "reachable e" for e
    using reach_step[OF that step_plugin_after] .
  then show ?thesis by (simp add: valid_def op_engine_def in_request_def emit_def)
qed

lemma keeps_call_plugin: "keeps (in_request r) (call_plugin r t signal limits p call data)"
  unfolding call_plugin_def Let_def by (intro keeps_rules keeps_wait)

lemma keeps_run_plugins: "keeps (in_request r) (run_plugins r t signal limits ps data metrics)"
proof (induction ps arbitrary: data metrics)
  case Nil
  then show ?case by (simp add: keeps_return)
next
  case (Cons p ps)
  show ?case
    unfolding run_plugins.simps by (intro keeps_rules keeps_call_plugin keeps_emit Cons.IH)
qed

lemma keeps_undo_plugins: "keeps (in_request r) (undo_plugins r t signal limits ps data)"
  by (induction ps arbitrary: data) (auto intro!: keeps_return keeps_bind keeps_call_plugin keeps_emit)

lemma keeps_audit: "keeps (in_request r) (op_audit r operation signal)"
  unfolding op_audit_def Let_def by (intro keeps_bind keeps_state keeps_wait)

lemma keeps_trust: "keeps (in_request r) (op_trust data t)"
  by (simp add: valid_def op_trust_def in_request_def)

text \<open>The request has left the engine, or is kept only for work that it started.\<close>

definition out_of_request :: "string \<Rightarrow> run_state \<Rightarrow> bool" where
  "out_of_request r s \<longleftrightarrow> reachable (rs_engine s)
     \<and> (r \<notin> eng_active (rs_engine s) \<or> r \<in> eng_finished (rs_engine s) \<and> waiting_for (rs_engine s) r \<noteq> {})"

lemma release_leaves:
  assumes "reachable e"
  shows "r \<notin> eng_active (releaseRequest r e)
    \<or> r \<in> eng_finished (releaseRequest r e) \<and> waiting_for (releaseRequest r e) r \<noteq> {}"
  by (simp add: releaseRequest_def has_pending_waiting)

lemma emit_same:
  "eng_active (emit ev e) = eng_active e" "eng_finished (emit ev e) = eng_finished e"
  "waiting_for (emit ev e) = waiting_for e"
  by (simp_all add: emit_def)

lemma end_leaves: "valid (in_request r) (op_engine (endRequest r duration)) (\<lambda>_. out_of_request r) (in_request r)"
proof -
  have "reachable (endRequest r duration e)" if "reachable e" for e
    using reach_step[OF that step_end] .
  moreover have "r \<notin> eng_active (endRequest r duration e)
    \<or> r \<in> eng_finished (endRequest r duration e) \<and> waiting_for (endRequest r duration e) r \<noteq> {}" if "reachable e" for e
    using release_leaves[OF that, of r] by (simp add: endRequest_def emit_same)
  ultimately show ?thesis by (simp add: valid_def op_engine_def in_request_def out_of_request_def)
qed

lemma run_body_leaves:
  "valid (in_request r) (run_body rt fresh r signal ps labels limits input) (\<lambda>_. out_of_request r) (in_request r)"
  unfolding run_body_def Let_def split_def
  by (intro keeps_bind keeps_now keeps_validate keeps_check keeps_run_plugins keeps_aborted keeps_audit
      keeps_trust valid_bind[OF end_leaves] valid_return)

lemma undo_body_leaves:
  "valid (in_request r) (undo_body rt fresh r signal ps limits raw data t) (\<lambda>_. out_of_request r) (in_request r)"
  unfolding undo_body_def
  by (intro keeps_bind keeps_validate keeps_check keeps_undo_plugins keeps_aborted keeps_audit
      valid_bind[OF end_leaves] valid_return)

text \<open>How an operation ends: outside its request, unless it waits for ever.\<close>

definition request_over :: "string \<Rightarrow> run_state \<times> 'a flow \<Rightarrow> bool" where
  "request_over r = (\<lambda>(s, out). reachable (rs_engine s)
     \<and> (case out of Hangs \<Rightarrow> in_request r s | _ \<Rightarrow> out_of_request r s))"

lemma guarded_over:
  assumes "valid (in_request r) body (\<lambda>_. out_of_request r) (in_request r)" "in_request r s"
  shows "request_over r (op_guarded r body s)"
proof -
  obtain s' out where b: "body s = (s', out)" by (cases "body s")
  show ?thesis
  proof (cases out)
    case Hangs
    then have "in_request r s'" using assms b by (auto simp: valid_def)
    then show ?thesis using b Hangs by (simp add: op_guarded_def request_over_def in_request_def)
  next
    case (Throws err)
    then have "reachable (rs_engine s')" using assms b by (auto simp: valid_def in_request_def)
    from reach_step[OF this step_error[where err = err and requestId = r]]
    have "reachable (emitError err r (rs_engine s'))" .
    then show ?thesis
      using b Throws release_leaves[of "emitError err r (rs_engine s')" r] reach_step[OF _ step_release]
      by (simp add: op_guarded_def request_over_def out_of_request_def)
  next
    case (Returns a)
    then have "reachable (rs_engine s')" using assms b by (auto simp: valid_def out_of_request_def)
    then show ?thesis
      using b Returns release_leaves[of "rs_engine s'" r] reach_step[OF _ step_release]
      by (simp add: op_guarded_def request_over_def out_of_request_def)
  qed
qed

lemma start_in_request:
  assumes "reachable (rs_engine s)" "r \<notin> eng_active (rs_engine s)" "op_start r s = (s', Returns u)"
  shows "in_request r s'"
proof -
  from assms(3) obtain e where e: "startRequest (rs_engine s) r = Inr e" "s' = s\<lparr>rs_engine := e\<rparr>"
    by (auto simp: op_start_def split: sum.splits)
  have "r \<notin> eng_finished (rs_engine s)"
    using assms(2) work_invD(1,2)[OF work_inv_reachable[OF assms(1)], of r] by blast
  then show ?thesis
    using e reach_step[OF assms(1) step_start[OF assms(2) e(1)]]
    by (auto simp: in_request_def startRequest_def emit_def split: if_splits)
qed

text \<open>Everything before \<open>startRequest\<close> leaves the engine alone.\<close>

definition untouched :: "run_state \<Rightarrow> run_state \<Rightarrow> bool" where
  "untouched s s' \<longleftrightarrow> s' = s"

lemma untouched_checks:
  "valid (untouched s) (op_check r) (\<lambda>_. untouched s) (untouched s)"
  "valid (untouched s) (op_aborted signal) (\<lambda>_. untouched s) (untouched s)"
  by (rule keeps_check, rule keeps_aborted)

lemma started_over:
  assumes "reachable (rs_engine s)" "r \<notin> eng_active (rs_engine s)"
    and "valid (in_request r) body (\<lambda>_. out_of_request r) (in_request r)"
  shows "request_over r (op_bind (op_start r) (\<lambda>_. op_guarded r body) s)"
proof (cases "op_start r s")
  case (Pair s' out)
  show ?thesis
  proof (cases out)
    case (Returns u)
    then have "in_request r s'" using start_in_request[OF assms(1,2)] Pair by simp
    then show ?thesis using guarded_over[OF assms(3)] Pair Returns by (simp add: op_bind_def)
  qed (use Pair assms in \<open>auto simp: op_bind_def op_start_def request_over_def out_of_request_def
      split: sum.splits\<close>)
qed

lemma unstarted_over:
  assumes "reachable (rs_engine s)" "r \<notin> eng_active (rs_engine s)"
    and "m s = (s, out)" "out \<noteq> Hangs" "\<And>a. out = Returns a \<Longrightarrow> request_over r (f a s)"
  shows "request_over r (op_bind m f s)"
  using assms by (cases out) (auto simp: op_bind_def request_over_def out_of_request_def)

lemma check_state: "op_check r s = (s, case r of Inl e \<Rightarrow> Throws e | Inr a \<Rightarrow> Returns a)"
  by (simp add: op_check_def)

lemma request_over_check:
  assumes "reachable (rs_engine s)" "r \<notin> eng_active (rs_engine s)" "\<And>a. request_over r (f a s)"
  shows "request_over r (op_bind (op_check c) f s)"
  using assms by (auto simp: check_state intro!: unstarted_over split: sum.splits)

lemma bind_now: "op_bind op_now f s = f (rs_now s) s"
  by (simp add: op_bind_def op_now_def)

lemma bind_state: "op_bind op_state f s = f s s"
  by (simp add: op_bind_def op_state_def)

lemma aborted_state: "op_aborted signal s = op_check (throwIfAborted (Some signal) (rs_now s)) s"
  by (simp add: op_aborted_def bind_now)

lemma request_over_aborted:
  assumes "reachable (rs_engine s)" "r \<notin> eng_active (rs_engine s)" "\<And>a. request_over r (f a s)"
  shows "request_over r (op_bind (op_aborted signal) f s)"
  using request_over_check[where f = f and c = "throwIfAborted (Some signal) (rs_now s)", OF assms(1,2) assms(3)]
  by (simp add: op_bind_def aborted_state)

lemma run_over:
  assumes "reachable (rs_engine s)" "r \<notin> eng_active (rs_engine s)"
  shows "request_over r (binary_run rt fresh r input options s)"
  unfolding binary_run_def Let_def bind_state
  by (intro request_over_check request_over_aborted assms started_over run_body_leaves)

lemma undo_over:
  assumes "reachable (rs_engine s)" "r \<notin> eng_active (rs_engine s)"
  shows "request_over r (binary_undo rt fresh r inp s)"
  unfolding binary_undo_def Let_def bind_state split_def
  by (intro request_over_check request_over_aborted assms started_over undo_body_leaves)

end
