(* ===== verification/Binary_Safety.thy ===== *)
theory Binary_Safety
  imports Binary_Controller
begin

text \<open>
  What holds of every \<open>run\<close> and \<open>undo\<close> of the \<open>BinaryController\<close>: the request is released, the
  deadline is kept, a result respects the limits, and the type of what \<open>undo\<close> returns is trusted.
\<close>

section \<open>Operations that return\<close>

lemma bind_Returns:
  "op_bind m f s = (s'', Returns b) \<longleftrightarrow> (\<exists>s' a. m s = (s', Returns a) \<and> f a s' = (s'', Returns b))"
  by (auto simp: op_bind_def split: prod.splits flow.splits)

lemma check_Returns: "op_check r s = (s', Returns a) \<longleftrightarrow> s' = s \<and> r = Inr a"
  by (auto simp: op_check_def split: sum.splits)

lemma return_Returns: "op_return a s = (s', Returns b) \<longleftrightarrow> s' = s \<and> b = a"
  by (auto simp: op_return_def)

lemma now_Returns: "op_now s = (s', Returns t) \<longleftrightarrow> s' = s \<and> t = rs_now s"
  by (auto simp: op_now_def)

lemma state_Returns: "op_state s = (s', Returns t) \<longleftrightarrow> s' = s \<and> t = s"
  by (auto simp: op_state_def)

lemma engine_Returns: "op_engine f s = (s', Returns u) \<longleftrightarrow> s' = s\<lparr>rs_engine := f (rs_engine s)\<rparr>"
  by (auto simp: op_engine_def)

lemma trust_Returns:
  "op_trust data t s = (s', Returns u) \<longleftrightarrow> s' = s\<lparr>rs_trusted := (rs_trusted s)(buffer_id data \<mapsto> t)\<rparr>"
  by (auto simp: op_trust_def)

lemma validate_Returns:
  "op_validate v s = (s', Returns u) \<longleftrightarrow> s' = s \<and> validate (rs_engine s) v = Inr ()"
  by (auto simp: op_validate_def bind_Returns state_Returns check_Returns)

lemma aborted_Returns:
  "op_aborted sig s = (s', Returns u) \<longleftrightarrow> s' = s \<and> throwIfAborted (Some sig) (rs_now s) = Inr ()"
  by (auto simp: aborted_state check_Returns)

lemma start_Returns:
  "op_start r s = (s', Returns u) \<longleftrightarrow>
     (\<exists>e. startRequest (rs_engine s) r = Inr e \<and> s' = s\<lparr>rs_engine := e\<rparr>)"
  by (auto simp: op_start_def split: sum.splits)

lemma guarded_Returns:
  "op_guarded r body s = (s'', Returns a) \<longleftrightarrow>
     (\<exists>s'. body s = (s', Returns a) \<and> s'' = s'\<lparr>rs_engine := releaseRequest r (rs_engine s')\<rparr>)"
  by (auto simp: op_guarded_def split: prod.splits flow.splits)

lemmas Returns_iff = bind_Returns check_Returns return_Returns now_Returns state_Returns engine_Returns
  trust_Returns validate_Returns aborted_Returns start_Returns guarded_Returns

section \<open>What the waits leave alone\<close>

text \<open>The parts of a state that neither plugins nor audit loggers can change.\<close>

definition same_setting :: "run_state \<Rightarrow> run_state \<Rightarrow> bool" where
  "same_setting s0 s \<longleftrightarrow> rs_trusted s = rs_trusted s0
     \<and> eng_schema (rs_engine s) = eng_schema (rs_engine s0)
     \<and> eng_auditLogger (rs_engine s) = eng_auditLogger (rs_engine s0)"

lemma setting_release:
  "eng_schema (releaseRequest r e) = eng_schema e"
  "eng_auditLogger (releaseRequest r e) = eng_auditLogger e"
  by (simp_all add: releaseRequest_def)

lemma setting_settled:
  "eng_schema (settled p e ra) = eng_schema e" "eng_auditLogger (settled p e ra) = eng_auditLogger e"
  by (cases ra; simp add: settled_def Let_def setting_release)+

lemma setting_settle:
  "eng_schema (settle p e) = eng_schema e" "eng_auditLogger (settle p e) = eng_auditLogger e"
proof -
  have "eng_schema (foldl (settled p) e rs) = eng_schema e
    \<and> eng_auditLogger (foldl (settled p) e rs) = eng_auditLogger e" for rs e
    by (induction rs arbitrary: e) (simp_all add: setting_settled)
  then show "eng_schema (settle p e) = eng_schema e" "eng_auditLogger (settle p e) = eng_auditLogger e"
    by (simp_all add: settle_def)
qed

lemma setting_track:
  "eng_schema (track_promises r until ps n e) = eng_schema e
   \<and> eng_auditLogger (track_promises r until ps n e) = eng_auditLogger e"
  by (induction ps arbitrary: n e)
    (auto simp: Let_def setting_settle trackWork_def split: option.splits)

lemma setting_wait: "keeps (same_setting s0) (op_wait r ps result)"
  by (auto simp: valid_def op_wait_def same_setting_def Let_def setting_track
      split: settlement.splits sum.splits)

lemma setting_call_plugin: "keeps (same_setting s0) (call_plugin r t signal limits p call data)"
  unfolding call_plugin_def Let_def by (intro keeps_rules setting_wait)

lemma setting_emit: "keeps (same_setting s0) (op_engine (emit ev))"
  by (simp add: valid_def op_engine_def same_setting_def emit_def)

lemma setting_audit: "keeps (same_setting s0) (op_audit r operation signal)"
  unfolding op_audit_def Let_def by (intro keeps_rules setting_wait)

lemma setting_run_plugins: "keeps (same_setting s0) (run_plugins r t signal limits ps data metrics)"
  by (induction ps arbitrary: data metrics)
    (auto intro!: keeps_rules setting_call_plugin setting_emit)

lemma setting_undo_plugins: "keeps (same_setting s0) (undo_plugins r t signal limits ps data)"
  by (induction ps arbitrary: data) (auto intro!: keeps_rules setting_call_plugin setting_emit)

lemma same_setting_refl: "same_setting s s"
  by (simp add: same_setting_def)

lemma keeps_setting:
  assumes "keeps (same_setting s) m" "m s = (s', Returns a)"
  shows "same_setting s s'"
  by (rule valid_Returns[OF assms(1) same_setting_refl assms(2)])

section \<open>Time\<close>

text \<open>\<open>ends_by ta m\<close>: the operation does not wait for ever, and takes no longer than until \<open>ta\<close>.\<close>

definition ends_by :: "time \<Rightarrow> 'a op \<Rightarrow> bool" where
  "ends_by ta m \<longleftrightarrow> (\<forall>s s' out. m s = (s', out) \<longrightarrow> out \<noteq> Hangs \<and> rs_now s' \<le> max (rs_now s) ta)"

lemma ends_by_bind:
  assumes "ends_by ta m" "\<And>a. ends_by ta (f a)"
  shows "ends_by ta (op_bind m f)"
  unfolding ends_by_def
proof (intro allI impI)
  fix s s'' out assume run: "op_bind m f s = (s'', out)"
  obtain s' r where m: "m s = (s', r)" by (cases "m s")
  with assms(1) have r: "r \<noteq> Hangs" "rs_now s' \<le> max (rs_now s) ta" unfolding ends_by_def by blast+
  show "out \<noteq> Hangs \<and> rs_now s'' \<le> max (rs_now s) ta"
  proof (cases r)
    case (Returns a)
    then have "f a s' = (s'', out)" using run m by (simp add: op_bind_def)
    with assms(2)[of a] have "out \<noteq> Hangs" "rs_now s'' \<le> max (rs_now s') ta" unfolding ends_by_def by blast+
    then show ?thesis using r by auto
  qed (use run m r in \<open>auto simp: op_bind_def\<close>)
qed

lemma ends_by_simple:
  "ends_by ta (op_return a)" "ends_by ta (op_check c)" "ends_by ta op_now" "ends_by ta op_state"
  "ends_by ta (op_engine f)" "ends_by ta (op_trust data t)"
  by (auto simp: ends_by_def op_return_def op_check_def op_now_def op_state_def op_engine_def op_trust_def
      split: sum.splits)

lemma ends_by_start: "ends_by ta (op_start r)"
  by (auto simp: ends_by_def op_start_def split: sum.splits)

lemma ends_by_aborted: "ends_by ta (op_aborted sig)"
  unfolding op_aborted_def by (intro ends_by_bind ends_by_simple)

lemma ends_by_validate: "ends_by ta (op_validate v)"
  unfolding op_validate_def by (intro ends_by_bind ends_by_simple)

lemma ends_by_guarded:
  assumes "ends_by ta body"
  shows "ends_by ta (op_guarded r body)"
  unfolding ends_by_def
proof (intro allI impI)
  fix s s'' out assume run: "op_guarded r body s = (s'', out)"
  obtain s' r' where b: "body s = (s', r')" by (cases "body s")
  with assms have "r' \<noteq> Hangs" "rs_now s' \<le> max (rs_now s) ta" unfolding ends_by_def by blast+
  then show "out \<noteq> Hangs \<and> rs_now s'' \<le> max (rs_now s) ta"
    using run b by (cases r') (auto simp: op_guarded_def)
qed

text \<open>A wait whose promise settles in time.\<close>

lemma ends_by_wait_now:
  assumes "\<And>now. \<exists>t res. p now = Settles t res \<and> t \<le> max now ta"
  shows "ends_by ta (op_bind op_now (\<lambda>now. op_wait r (ps now) (p now)))"
  unfolding ends_by_def
proof (intro allI impI)
  fix s s' out assume run: "op_bind op_now (\<lambda>now. op_wait r (ps now) (p now)) s = (s', out)"
  obtain t res where "p (rs_now s) = Settles t res" "t \<le> max (rs_now s) ta" using assms by blast
  then show "out \<noteq> Hangs \<and> rs_now s' \<le> max (rs_now s) ta"
    using run by (cases res) (auto simp: bind_now op_wait_def Let_def)
qed

lemma op_bind_assoc: "op_bind (op_bind m f) g = op_bind m (\<lambda>a. op_bind (f a) g)"
  by (auto simp: fun_eq_iff op_bind_def split: prod.splits flow.splits)

text \<open>Under a signal that aborts at \<open>ta\<close>, every part of an operation ends by then.\<close>

lemma ends_by_call_plugin:
  assumes "sig_abort signal = Some (ta, reason)"
  shows "ends_by ta (call_plugin r t signal limits p call data)"
proof -
  let ?fn = "\<lambda>now. call (makeContext r [''originalType'' \<mapsto> t] (Some signal) (Some limits) now) data"
  have "ends_by ta (op_bind op_now (\<lambda>now.
      op_wait r (tracked_attempts (?fn now) (plugin_retryOptions p) limits signal now)
        (withRetry (?fn now) (plugin_retryOptions p) (Some limits) (Some signal) now)))"
    using withRetry_settles[OF assms] by (rule ends_by_wait_now)
  then show ?thesis
    unfolding call_plugin_def Let_def op_bind_assoc[symmetric]
    by (rule ends_by_bind) (rule ends_by_simple(2))
qed

lemma ends_by_audit:
  assumes "sig_abort signal = Some (ta, reason)"
  shows "ends_by ta (op_audit r operation signal)"
  unfolding ends_by_def
proof (intro allI impI)
  fix s s' out assume run: "op_audit r operation signal s = (s', out)"
  obtain c where c: "c \<le> ta" "cut_off signal = Some c" using cut_off_le_abort[OF assms] by blast
  obtain t res where "awaitOperation (emitAudit (rs_engine s) r operation (rs_now s)) (Some signal) (rs_now s)
      = Settles t res" "t \<le> max (rs_now s) c"
    using awaitOperation_settles[OF c(2)] by blast
  then show "out \<noteq> Hangs \<and> rs_now s' \<le> max (rs_now s) ta"
    using run c(1) by (cases res) (auto simp: op_audit_def bind_state op_wait_def Let_def)
qed

lemma ends_by_run_plugins:
  assumes "sig_abort signal = Some (ta, reason)"
  shows "ends_by ta (run_plugins r t signal limits ps data metrics)"
  by (induction ps arbitrary: data metrics)
    (auto intro!: ends_by_bind ends_by_simple ends_by_call_plugin[OF assms])

lemma ends_by_undo_plugins:
  assumes "sig_abort signal = Some (ta, reason)"
  shows "ends_by ta (undo_plugins r t signal limits ps data)"
  by (induction ps arbitrary: data)
    (auto intro!: ends_by_bind ends_by_simple ends_by_call_plugin[OF assms])

lemma ends_by_run_body:
  assumes "sig_abort signal = Some (ta, reason)"
  shows "ends_by ta (run_body rt fresh r signal ps labels limits input)"
  unfolding run_body_def Let_def split_def
  by (intro ends_by_bind ends_by_simple ends_by_aborted ends_by_validate ends_by_run_plugins[OF assms]
      ends_by_audit[OF assms])

lemma ends_by_undo_body:
  assumes "sig_abort signal = Some (ta, reason)"
  shows "ends_by ta (undo_body rt fresh r signal ps limits raw data t)"
  unfolding undo_body_def
  by (intro ends_by_bind ends_by_simple ends_by_aborted ends_by_validate ends_by_undo_plugins[OF assms]
      ends_by_audit[OF assms])

text \<open>With a time limit of \<open>ms\<close> milliseconds the signal aborts then, if not earlier.\<close>

lemma deadline_signal:
  assumes "createOperationSignal limits options now = Inr sig" "sig_deadline sig = Some d"
  shows "\<exists>ta reason. sig_abort sig = Some (ta, reason) \<and> ta \<le> d"
  using assms
  by (auto simp: createOperationSignal_def Let_def abort_any_def split: option.splits js_limit.splits if_splits)

section \<open>What an operation returns\<close>

lemma signal_deadline_later:
  "createOperationSignal limits options now = Inr sig \<Longrightarrow> sig_deadline sig = Some d \<Longrightarrow> now \<le> d"
  by (auto simp: createOperationSignal_def Let_def split: js_limit.splits if_splits)

lemma ends_by_started:
  "ends_by ta (op_bind (op_start r) (\<lambda>_. op_guarded r body))" if "ends_by ta body"
  using that by (intro ends_by_bind ends_by_start ends_by_guarded)

lemma ends_byD: "ends_by ta m \<Longrightarrow> m s = (s', out) \<Longrightarrow> out \<noteq> Hangs \<and> rs_now s' \<le> max (rs_now s) ta"
  by (simp add: ends_by_def)

lemma check_ok: "op_bind (op_check (Inr a)) f s = f a s"
  by (simp add: op_bind_def op_check_def)

lemma run_ends:
  assumes "createOperationSignal (eng_limits (rs_engine s)) options (rs_now s) = Inr signal"
    and "sig_abort signal = Some (ta, reason)" "binary_run rt fresh r input options s = (s', out)"
  shows "out \<noteq> Hangs \<and> rs_now s' \<le> max (rs_now s) ta"
proof -
  define e where "e = rs_engine s"
  show ?thesis
    using assms(3) unfolding binary_run_def bind_state Let_def assms(1) check_ok unfolding e_def[symmetric]
    by (rule ends_byD[rotated])
      (intro ends_by_bind ends_by_aborted ends_by_simple ends_by_started ends_by_run_body[OF assms(2)])
qed

lemma undo_ends:
  assumes "undo_arguments (rs_trusted s) inp = Inr (data, t, options)"
    and "createOperationSignal (eng_limits (rs_engine s)) options (rs_now s) = Inr signal"
    and "sig_abort signal = Some (ta, reason)" "binary_undo rt fresh r inp s = (s', out)"
  shows "out \<noteq> Hangs \<and> rs_now s' \<le> max (rs_now s) ta"
proof -
  define e where "e = rs_engine s"
  show ?thesis
    using assms(4) unfolding binary_undo_def bind_state Let_def assms(1,2) check_ok prod.case
    unfolding e_def[symmetric]
    by (rule ends_byD[rotated])
      (intro ends_by_bind ends_by_aborted ends_by_simple ends_by_started ends_by_undo_body[OF assms(3)])
qed

lemma run_returns:
  assumes "binary_run rt fresh r input options s = (s', Returns res)"
  obtains signal e s1 where
    "createOperationSignal (eng_limits (rs_engine s)) options (rs_now s) = Inr signal"
    "detectType input \<in> set ORIGINAL_TYPES"
    "startRequest (rs_engine s) r = Inr e"
    "run_body rt fresh r signal (eng_plugins (rs_engine s)) (pipeline (rs_engine s))
       (eng_limits (rs_engine s)) input (s\<lparr>rs_engine := e\<rparr>) = (s1, Returns res)"
    "s' = s1\<lparr>rs_engine := releaseRequest r (rs_engine s1)\<rparr>"
  using assms by (auto simp: binary_run_def Let_def Returns_iff assertOriginalType_iff)

lemma undo_returns:
  assumes "binary_undo rt fresh r inp s = (s', Returns v)"
  obtains data t options signal e s1 where
    "undo_arguments (rs_trusted s) inp = Inr (data, t, options)"
    "createOperationSignal (eng_limits (rs_engine s)) options (rs_now s) = Inr signal"
    "assertReversiblePipeline (eng_plugins (rs_engine s)) = Inr ()"
    "length (bytes_of data) \<le> maxInputBytes (eng_limits (rs_engine s))"
    "startRequest (rs_engine s) r = Inr e"
    "undo_body rt fresh r signal (eng_plugins (rs_engine s)) (eng_limits (rs_engine s)) (is_raw inp) data t
       (s\<lparr>rs_engine := e\<rparr>) = (s1, Returns v)"
    "s' = s1\<lparr>rs_engine := releaseRequest r (rs_engine s1)\<rparr>"
  using assms by (auto simp: binary_undo_def Let_def Returns_iff throw_if_def split: if_splits)

lemma run_body_returns:
  assumes "run_body rt fresh r signal ps labels limits input s = (s', Returns res)"
  shows "er_originalType res = detectType input \<and> er_pipeline res = labels
    \<and> length (bytes_of (er_data res)) \<le> maxOutputBytes limits
    \<and> rs_trusted s' = (rs_trusted s)(buffer_id (er_data res) \<mapsto> detectType input)
    \<and> validate (rs_engine s) input = Inr () \<and> throwIfAborted (Some signal) (rs_now s') = Inr ()
    \<and> (\<exists>data s1. run_input rt fresh limits (detectType input) input = Inr data
         \<and> run_plugins r (detectType input) signal limits ps data Map.empty s
             = (s1, Returns (er_data res, er_steps res)))"
proof -
  from assms obtain data out metrics s1 s2 u where
    valid: "validate (rs_engine s) input = Inr ()" and
    input: "run_input rt fresh limits (detectType input) input = Inr data" and
    plugins: "run_plugins r (detectType input) signal limits ps data Map.empty s = (s1, Returns (out, metrics))"
    and len: "length (bytes_of out) \<le> maxOutputBytes limits" and
    audit: "op_audit r AuditProcess signal s1 = (s2, Returns u)" and
    time: "throwIfAborted (Some signal) (rs_now s2) = Inr ()" and
    res: "er_data res = out" "er_originalType res = detectType input" "er_pipeline res = labels"
      "er_steps res = metrics" and
    s': "rs_now s' = rs_now s2" "rs_trusted s' = (rs_trusted s2)(buffer_id out \<mapsto> detectType input)"
    unfolding run_body_def Let_def by (auto simp: Returns_iff)
  have "rs_trusted s2 = rs_trusted s"
    using keeps_setting[OF setting_run_plugins plugins] keeps_setting[OF setting_audit audit]
    by (simp add: same_setting_def)
  then show ?thesis using valid input plugins len time res s' by auto
qed

lemma undo_body_returns:
  assumes "undo_body rt fresh r signal ps limits raw data t s = (s', Returns v)"
  shows "throwIfAborted (Some signal) (rs_now s') = Inr () \<and> validate (rs_engine s) v = Inr ()
    \<and> (\<exists>out. length (bytes_of out) \<le> maxOutputBytes limits
         \<and> fromBuffer rt out t (maxFrameBytes limits) = Inr v)"
proof -
  from assms obtain data1 out s1 s2 u where
    plugins: "undo_plugins r t signal limits (rev ps) data1 s = (s1, Returns out)" and
    len: "length (bytes_of out) \<le> maxOutputBytes limits" and
    decoded: "fromBuffer rt out t (maxFrameBytes limits) = Inr v" and
    valid: "validate (rs_engine s1) v = Inr ()" and
    audit: "op_audit r AuditReverse signal s1 = (s2, Returns u)" and
    time: "throwIfAborted (Some signal) (rs_now s2) = Inr ()" "rs_now s' = rs_now s2"
    unfolding undo_body_def by (auto simp: Returns_iff simp del: undo_plugins.simps)
  have "validate (rs_engine s) v = Inr ()"
    using valid keeps_setting[OF setting_undo_plugins plugins] by (simp add: same_setting_def validate_def)
  then show ?thesis using len decoded time by (metis (no_types, lifting))
qed

lemma startRequest_setting:
  "startRequest e r = Inr e' \<Longrightarrow> eng_schema e' = eng_schema e \<and> eng_auditLogger e' = eng_auditLogger e
     \<and> eng_plugins e' = eng_plugins e \<and> eng_limits e' = eng_limits e"
  by (auto simp: startRequest_def emit_def split: if_splits)

text \<open>A value of the type that a buffer was decoded as; MessagePack may also hold a bare buffer.\<close>

definition value_fits :: "string \<Rightarrow> js_value \<Rightarrow> bool" where
  "value_fits t v \<longleftrightarrow> t = ''json'' \<or> detectType v = t \<or> t = ''object'' \<and> is_buffer v"

lemma array_no_buffer: "is_array v \<Longrightarrow> \<not> is_buffer v"
  by (cases v) simp_all

lemma fromBuffer_fits:
  assumes "fromBuffer rt buf t m = Inr v"
  shows "value_fits t v"
  using assms
  by (auto dest: array_no_buffer simp: fromBuffer_def value_fits_def detectType_def Let_def assertOriginalType_iff ORIGINAL_TYPES_def
      rbind_eq_Inr split: if_splits sum.splits option.splits)

section \<open>Serialization without plugins\<close>

lemma rethrow_own_Inr: "rethrow_own e r = Inr a \<longleftrightarrow> r = Inr a"
  by (simp add: rethrow_own_def split: sum.split)

lemma binary_pack_Inr:
  "binary_pack rt limits v = Inr packed \<longleftrightarrow>
     returns (assertKnownValueByteLimit rt v (min (maxInputBytes limits) (maxFrameBytes limits))
       ''Serialization input'')
     \<and> rt_pack rt v = Inr packed \<and> length packed \<le> maxInputBytes limits
     \<and> returns (assertMessagePackFrameLimits packed (maxFrameBytes limits) 1)
     \<and> length packed \<le> maxOutputBytes limits"
  by (cases "rt_pack rt v")
    (auto simp: binary_pack_def rethrow_own_Inr rbind_eq_Inr returns_def split: if_splits)

lemma binary_unpack_Inr:
  "binary_unpack rt limits packed = Inr v \<longleftrightarrow>
     length packed \<le> maxInputBytes limits
     \<and> returns (assertMessagePackFrameLimits packed (maxFrameBytes limits) 1) \<and> rt_unpack rt packed = Inr v"
  by (auto simp: binary_unpack_def rethrow_own_Inr rbind_eq_Inr returns_def split: if_splits)

text \<open>A deadline that is kept: the operation is over by then, and a success is earlier.\<close>

definition in_time :: "time \<Rightarrow> run_state \<times> 'a flow \<Rightarrow> bool" where
  "in_time d = (\<lambda>(s, out). rs_now s \<le> d
     \<and> (case out of Hangs \<Rightarrow> False | Throws e \<Rightarrow> True | Returns a \<Rightarrow> rs_now s < d))"

lemma throwIfAborted_in_time:
  assumes "createOperationSignal limits options now = Inr signal" "sig_deadline signal = Some d"
    and "throwIfAborted (Some signal) now' = Inr ()"
  shows "now' < d"
proof -
  obtain c where "cut_off signal = Some c" "c \<le> d" using createOperationSignal_cut_off[OF assms(1,2)] by blast
  then show ?thesis using throwIfAborted_iff[of signal now'] assms(3) by simp
qed

lemma run_in_time:
  assumes "createOperationSignal (eng_limits (rs_engine s)) options (rs_now s) = Inr signal"
    and "sig_deadline signal = Some d"
  shows "in_time d (binary_run rt fresh r input options s)"
proof -
  obtain s' out where run: "binary_run rt fresh r input options s = (s', out)"
    by (cases "binary_run rt fresh r input options s")
  obtain ta reason where ta: "sig_abort signal = Some (ta, reason)" "ta \<le> d"
    using deadline_signal[OF assms] by blast
  have "out \<noteq> Hangs \<and> rs_now s' \<le> d"
    using run_ends[OF assms(1) ta(1) run] ta(2) signal_deadline_later[OF assms] by auto
  moreover have "rs_now s' < d" if ret: "out = Returns res" for res
  proof -
    obtain signal' e s1 where
      "createOperationSignal (eng_limits (rs_engine s)) options (rs_now s) = Inr signal'" and
      body: "run_body rt fresh r signal' (eng_plugins (rs_engine s)) (pipeline (rs_engine s))
         (eng_limits (rs_engine s)) input (s\<lparr>rs_engine := e\<rparr>) = (s1, Returns res)"
      and "s' = s1\<lparr>rs_engine := releaseRequest r (rs_engine s1)\<rparr>"
      by (rule run_returns[OF run[unfolded ret]])
    then show ?thesis using throwIfAborted_in_time[OF assms, of "rs_now s1"] run_body_returns[OF body] assms(1) by simp
  qed
  ultimately show ?thesis by (auto simp: in_time_def run split: flow.split)
qed

lemma undo_in_time:
  assumes "undo_arguments (rs_trusted s) inp = Inr (data, t, options)"
    and "createOperationSignal (eng_limits (rs_engine s)) options (rs_now s) = Inr signal"
    and "sig_deadline signal = Some d"
  shows "in_time d (binary_undo rt fresh r inp s)"
proof -
  obtain s' out where undo: "binary_undo rt fresh r inp s = (s', out)"
    by (cases "binary_undo rt fresh r inp s")
  obtain ta reason where ta: "sig_abort signal = Some (ta, reason)" "ta \<le> d"
    using deadline_signal[OF assms(2,3)] by blast
  have "out \<noteq> Hangs \<and> rs_now s' \<le> d"
    using undo_ends[OF assms(1,2) ta(1) undo] ta(2) signal_deadline_later[OF assms(2,3)] by auto
  moreover have "rs_now s' < d" if ret: "out = Returns v" for v
  proof -
    obtain data' t' options' signal' e s1 where
      "undo_arguments (rs_trusted s) inp = Inr (data', t', options')" and
      "createOperationSignal (eng_limits (rs_engine s)) options' (rs_now s) = Inr signal'" and
      body: "undo_body rt fresh r signal' (eng_plugins (rs_engine s)) (eng_limits (rs_engine s)) (is_raw inp)
         data' t' (s\<lparr>rs_engine := e\<rparr>) = (s1, Returns v)"
      and "s' = s1\<lparr>rs_engine := releaseRequest r (rs_engine s1)\<rparr>"
      by (rule undo_returns[OF undo[unfolded ret]])
    then show ?thesis
      using throwIfAborted_in_time[OF assms(2,3), of "rs_now s1"] undo_body_returns[OF body] assms(1,2) by simp
  qed
  ultimately show ?thesis by (auto simp: in_time_def undo split: flow.split)
qed

section \<open>Properties\<close>

definition start_state :: "engine \<Rightarrow> run_state" where
  "start_state e = \<lparr>rs_engine = e, rs_trusted = Map.empty, rs_now = 1000, rs_promise = 0\<rparr>"

text \<open>C23: However a \<open>run\<close> or \<open>undo\<close> ends, and whatever plugins and the audit logger did, its request
  is no longer active, or it has ended and is kept only for work it started that has not settled; the
  engine is again in a state that the calls of the package can reach.\<close>

theorem operations_release_request:
  assumes "reachable (rs_engine s)" "r \<notin> eng_active (rs_engine s)"
  shows "request_over r (binary_run rt fresh r input options s) \<and> request_over r (binary_undo rt fresh r inp s)"
  using run_over[OF assms] undo_over[OF assms] by blast

theorem operations_release_request_witness:
  "request_over ''r'' (binary_run toy_runtime 9 ''r'' (JsString ''hi'') default_options (start_state fresh_engine))"
  by (rule conjunct1[OF operations_release_request])
    (simp_all add: start_state_def fresh_reachable, simp add: fresh_engine_def)


definition stuck_plugin :: plugin where
  "stuck_plugin = \<lparr>plugin_name = ''stuck'', plugin_version = ''1'', plugin_reversible = FUndefined,
     plugin_streaming = FUndefined, plugin_process = (\<lambda>ctx data i now. Pending), plugin_reverse = NoReverse,
     plugin_createStream = False, plugin_retryOptions = None\<rparr>"

definition fifty_ms :: operation_options where
  "fifty_ms = \<lparr>op_signal = None, op_timeoutMs = Some (LInt 50)\<rparr>"


text \<open>What \<open>run\<close> returns is at most \<open>maxOutputBytes\<close> long, carries the type of the input, which is
  one of the supported types, and the pipeline it ran through; exactly this buffer is recorded as a
  trusted one of that type, and the input satisfied the schema.\<close>

theorem run_result_checked:
  assumes "binary_run rt fresh r input options s = (s', Returns res)"
  shows "length (bytes_of (er_data res)) \<le> maxOutputBytes (eng_limits (rs_engine s))
    \<and> er_originalType res = detectType input \<and> detectType input \<in> set ORIGINAL_TYPES
    \<and> er_pipeline res = pipeline (rs_engine s)
    \<and> rs_trusted s' = (rs_trusted s)(buffer_id (er_data res) \<mapsto> detectType input)
    \<and> validate (rs_engine s) input = Inr ()"
proof -
  from assms obtain signal e s1 where
    types: "detectType input \<in> set ORIGINAL_TYPES" and e: "startRequest (rs_engine s) r = Inr e" and
    body: "run_body rt fresh r signal (eng_plugins (rs_engine s)) (pipeline (rs_engine s))
      (eng_limits (rs_engine s)) input (s\<lparr>rs_engine := e\<rparr>) = (s1, Returns res)" and
    s': "s' = s1\<lparr>rs_engine := releaseRequest r (rs_engine s1)\<rparr>"
    by (rule run_returns)
  show ?thesis
    using run_body_returns[OF body] types startRequest_setting[OF e] s' by (simp add: validate_def)
qed

text \<open>A run without a time limit on an engine without plugins.\<close>

definition hello_state :: run_state where
  "hello_state = start_state (fresh_engine\<lparr>eng_limits := DEFAULT_LIMITS\<lparr>operationTimeoutMs := 0\<rparr>\<rparr>)"

definition hello_result :: engine_result where
  "hello_result = \<lparr>er_data = (9, [104, 105]), er_originalType = ''string'', er_pipeline = [],
     er_durationMs = 0, er_steps = Map.empty\<rparr>"

lemmas evaluate_steps = bind_state Let_def check_ok aborted_state op_bind_def op_check_def op_start_def
  op_guarded_def op_now_def op_validate_def op_state_def op_return_def op_audit_def op_wait_def op_trust_def
  op_engine_def

lemmas evaluate_engine = startRequest_def emit_def pipeline_def validate_def emitAudit_def trackWork_def
  settle_def reactions_of_def settled_def endRequest_def releaseRequest_def has_pending_def settled_by_def

lemmas evaluate_signal = createOperationSignal_def default_options_def is_safe_integer_def
  max_safe_integer_def MAX_TIMER_MS_def abort_any_def throwIfAborted_def aborted_by_def awaitOperation_def
  first_failure_def

lemmas evaluate_value = assertOriginalType_def ORIGINAL_TYPES_def detectType_def run_input_def
  assertKnownValueByteLimit_def known_byte_length_def toBuffer_def js_string_def

lemma hello_returns:
  "snd (binary_run toy_runtime 9 ''r'' (JsString ''hi'') default_options hello_state) = Returns hello_result"
  by (simp add: binary_run_def run_body_def hello_state_def hello_result_def start_state_def fresh_engine_def
      DEFAULT_LIMITS_def toy_runtime_def evaluate_steps evaluate_engine evaluate_signal evaluate_value)

theorem run_result_checked_witness:
  "\<exists>s'. binary_run toy_runtime 9 ''r'' (JsString ''hi'') default_options hello_state = (s', Returns hello_result)
     \<and> rs_trusted s' = [9 \<mapsto> ''string'']"
proof -
  obtain s' where run: "binary_run toy_runtime 9 ''r'' (JsString ''hi'') default_options hello_state
      = (s', Returns hello_result)"
    using hello_returns by (metis prod.collapse)
  from run_result_checked[OF run] have "rs_trusted s' = [9 \<mapsto> ''string'']"
    by (simp add: hello_state_def start_state_def hello_result_def detectType_def)
  with run show ?thesis by blast
qed

text \<open>C24: \<open>undo\<close> of a result returns a value only if the caller expected its type or, without an
  expectation, this engine produced the very buffer as one of that type; the stated type agrees, the
  value has that type and satisfies the schema.  A transported result alone never chooses its type.\<close>

theorem undo_type_trusted:
  assumes "binary_undo rt fresh r (UndoResult result options) s = (s', Returns v)"
  shows "\<exists>data t. tr_data result = Some data \<and> tr_originalType result = Some t \<and> t \<in> set ORIGINAL_TYPES
    \<and> (expected_type options = Some (Some t)
       \<or> expected_type options = None \<and> rs_trusted s (buffer_id data) = Some t)
    \<and> value_fits t v \<and> validate (rs_engine s) v = Inr ()"
proof -
  obtain data t options' signal e s1 where
    args: "undo_arguments (rs_trusted s) (UndoResult result options) = Inr (data, t, options')" and
    e: "startRequest (rs_engine s) r = Inr e" and
    body: "undo_body rt fresh r signal (eng_plugins (rs_engine s)) (eng_limits (rs_engine s))
      (is_raw (UndoResult result options)) data t (s\<lparr>rs_engine := e\<rparr>) = (s1, Returns v)"
    by (rule undo_returns[OF assms])
  from args have "tr_data result = Some data \<and> tr_originalType result = Some t \<and> t \<in> set ORIGINAL_TYPES
    \<and> (expected_type options = Some (Some t)
       \<or> expected_type options = None \<and> rs_trusted s (buffer_id data) = Some t)"
    by (auto simp: undo_arguments_def rbind_eq_Inr assertOriginalType_iff assertOriginalType_def Let_def
        split: bool.splits option.splits if_splits)
  moreover have "value_fits t v" using undo_body_returns[OF body] fromBuffer_fits by blast
  moreover have "validate (rs_engine s) v = Inr ()"
    using undo_body_returns[OF body] startRequest_setting[OF e] by (simp add: validate_def)
  ultimately show ?thesis by blast
qed

definition hello_transported :: transported where
  "hello_transported = as_transported hello_result []"

lemma hello_chars: "char_of (104 :: nat) = CHR ''h''" "char_of (105 :: nat) = CHR ''i''"
proof -
  have "char_of (of_char c :: nat) = c" for c by (rule char_of_char)
  from this[of "CHR ''h''"] this[of "CHR ''i''"]
  show "char_of (104 :: nat) = CHR ''h''" "char_of (105 :: nat) = CHR ''i''" by simp_all
qed

lemma hello_undone:
  "snd (binary_undo toy_runtime 9 ''u'' (UndoResult hello_transported
     (UndoOptions (Some (Some ''string'')) default_options)) hello_state) = Returns (JsString ''hi'')"
  by (simp add: binary_undo_def undo_body_def undo_arguments_def is_raw_def fromBuffer_def result_ok_def
      hello_transported_def as_transported_def duration_ok_def assertReversiblePipeline_def
      hello_chars hello_state_def hello_result_def start_state_def fresh_engine_def
      DEFAULT_LIMITS_def toy_runtime_def evaluate_steps evaluate_engine evaluate_signal evaluate_value)

theorem undo_type_trusted_witness:
  "value_fits ''string'' (JsString ''hi'')
     \<and> snd (binary_undo toy_runtime 9 ''u'' (UndoResult hello_transported
         (UndoOptions (Some (Some ''string'')) default_options)) hello_state) = Returns (JsString ''hi'')"
proof -
  obtain s' where undo: "binary_undo toy_runtime 9 ''u'' (UndoResult hello_transported
      (UndoOptions (Some (Some ''string'')) default_options)) hello_state = (s', Returns (JsString ''hi''))"
    using hello_undone by (metis prod.collapse)
  from undo_type_trusted[OF undo] show ?thesis using hello_undone by auto
qed

text \<open>What \<open>pack\<close> returns is one complete MessagePack value within all limits, and \<open>unpack\<close> of
  an engine with the same limits gives back what was packed.\<close>

theorem pack_unpack_roundtrip:
  assumes "runtime_ok rt words plain" "plain v" "binary_pack rt limits v = Inr packed"
  shows "length packed \<le> min (maxInputBytes limits) (maxOutputBytes limits)
    \<and> returns (assertMessagePackFrameLimits packed (maxFrameBytes limits) 1)
    \<and> binary_unpack rt limits packed = Inr v"
proof -
  have "rt_unpack rt packed = Inr v"
    using assms by (auto simp: runtime_ok_def binary_pack_Inr)
  then show ?thesis using assms(3) by (simp add: binary_pack_Inr binary_unpack_Inr)
qed

lemma toy_framed:
  assumes "mp_frame bs" "length bs \<le> 8"
  shows "\<exists>n. assertMessagePackFrameLimits bs (maxFrameBytes DEFAULT_LIMITS) 1 = Inr n"
proof -
  have "maxFrameBytes DEFAULT_LIMITS \<le> max_safe_integer" "length bs \<le> maxFrameBytes DEFAULT_LIMITS"
    using assms(2) by (simp_all add: DEFAULT_LIMITS_def max_safe_integer_def)
  then have "assertMessagePackFrameLimits bs (maxFrameBytes DEFAULT_LIMITS) 1 = Inr 1"
    using assms(1) by (subst assert_returns_frames) (auto simp: frames_within_def intro!: exI[of _ "[bs]"])
  then show ?thesis by blast
qed

lemma toy_pack_array: "binary_pack toy_runtime DEFAULT_LIMITS (JsArray []) = Inr [0x90]"
proof -
  have "mp_frame [0x90 :: byte]" using mp_frame_children[of "0x90" "[]"] by (simp add: mp_format_def)
  then have "\<exists>n. assertMessagePackFrameLimits [0x90] (maxFrameBytes DEFAULT_LIMITS) 1 = Inr n"
    by (rule toy_framed) simp
  then show ?thesis
    by (simp add: binary_pack_Inr returns_def) (simp add: DEFAULT_LIMITS_def toy_runtime_def toy_table_def
        assertKnownValueByteLimit_def known_byte_length_def buildManifest_def)
qed

theorem pack_unpack_roundtrip_witness:
  "binary_unpack toy_runtime DEFAULT_LIMITS [0x90] = Inr (JsArray [])"
  using pack_unpack_roundtrip[OF toy_runtime_ok _ toy_pack_array] by (simp add: toy_table_def)

lemma packWithManifest_Inr:
  assumes "packWithManifest rt limits ps now v = Inr packed"
  obtains m d where "ps = []" "rt_pack rt (buildManifest [] now) = Inr m" "rt_pack rt v = Inr d"
    "returns (assertMessagePackFrameLimits m (maxFrameBytes limits) 1)"
    "returns (assertMessagePackFrameLimits d (maxFrameBytes limits) 1)"
    "length m + length d \<le> min (maxInputBytes limits) (maxOutputBytes limits)" "packed = m @ d"
  using assms
  by (cases "rt_pack rt (buildManifest [] now)"; cases "rt_pack rt v")
    (auto simp: packWithManifest_def rbind_eq_Inr returns_def min_less_iff_disj not_less split: if_splits)

lemma two_frames:
  assumes "M \<le> max_safe_integer" "returns (assertMessagePackFrameLimits a M 1)"
    "returns (assertMessagePackFrameLimits b M 1)"
  shows "returns (assertMessagePackFrameLimits (a @ b) M 2)"
proof -
  obtain fs gs where "concat fs = a" "length fs \<le> 1" "frames_within M fs"
    "concat gs = b" "length gs \<le> 1" "frames_within M gs"
    using assms(2,3) by (auto simp: returns_def assert_returns_frames[OF assms(1)])
  then have "concat (fs @ gs) = a @ b \<and> length (fs @ gs) \<le> 2 \<and> frames_within M (fs @ gs)"
    by (auto simp: frames_within_def)
  then show ?thesis unfolding returns_def assert_returns_frames[OF assms(1)] by blast
qed

text \<open>What \<open>packWithManifest\<close> returns is read back by \<open>unpackWithManifest\<close> under the same limits as
  the manifest of an empty pipeline, stamped with the time of packing, and the value.\<close>

theorem manifest_roundtrip:
  assumes "runtime_ok rt words plain" "multiple_ok rt plain" "plain v" "plain (buildManifest [] now)"
    and "now \<le> max_safe_integer" "maxFrameBytes limits \<le> max_safe_integer"
    and "packWithManifest rt limits ps now v = Inr packed"
  shows "unpackWithManifest rt limits packed = Inr (buildManifest [] now, v)"
proof -
  obtain m d where m: "rt_pack rt (buildManifest [] now) = Inr m" "rt_pack rt v = Inr d"
    "returns (assertMessagePackFrameLimits m (maxFrameBytes limits) 1)"
    "returns (assertMessagePackFrameLimits d (maxFrameBytes limits) 1)"
    "length m + length d \<le> min (maxInputBytes limits) (maxOutputBytes limits)" "packed = m @ d"
    by (rule packWithManifest_Inr[OF assms(7)])
  obtain n where "assertMessagePackFrameLimits packed (maxFrameBytes limits) 2 = Inr n"
    using two_frames[OF assms(6) m(3,4)] m(6) by (auto simp: returns_def)
  moreover have "rt_unpackMultiple rt packed = ([buildManifest [] now, v], None)"
    using assms(2-4) m(1,2,6) by (simp add: multiple_ok_def)
  ultimately show ?thesis
    using m(5,6) buildManifest_isManifest[OF assms(5), of "[]"] by (simp add: unpackWithManifest_def)
qed

lemma toy_pack_manifest:
  "packWithManifest toy_runtime DEFAULT_LIMITS [] 7 (JsArray []) = Inr [0x83, 1, 2, 3, 4, 5, 6, 0x90]"
proof -
  have "mp_frame [b :: byte]" if "b \<in> {1, 2, 3, 4, 5, 6}" for b
    using that mp_frame_data[of b "[]"] by (auto simp: mp_format_def)
  then have "mp_frame [0x83, 1, 2, 3, 4, 5, 6 :: byte]" "mp_frame [0x90 :: byte]"
    using mp_frame_children[of "0x83" "[[1], [2], [3], [4], [5], [6]]"] mp_frame_children[of "0x90" "[]"]
    by (simp_all add: mp_format_def)
  note framed = toy_framed[OF this(1)] toy_framed[OF this(2)]
  then show ?thesis
    by (auto simp: packWithManifest_def toy_runtime_def toy_table_def buildManifest_def)
      (auto simp: DEFAULT_LIMITS_def assertKnownValueByteLimit_def known_byte_length_def)
qed

theorem manifest_roundtrip_witness:
  "unpackWithManifest toy_runtime DEFAULT_LIMITS [0x83, 1, 2, 3, 4, 5, 6, 0x90] =
     Inr (buildManifest [] 7, JsArray [])"
  by (rule manifest_roundtrip[OF toy_runtime_ok toy_multiple_ok _ _ _ _ toy_pack_manifest])
    (simp_all add: toy_table_def max_safe_integer_def DEFAULT_LIMITS_def)

end
