(* ===== verification/Round_Trip.thy ===== *)
theory Round_Trip
  imports Binary_Safety
begin

text \<open>
  \<open>run\<close> followed by \<open>undo\<close>: the contract of a reversible plugin, the chain of plugin calls that a
  successful \<open>run\<close> made, and how \<open>undo\<close> walks it back.
\<close>

section \<open>One plugin\<close>

text \<open>
  What a plugin promises: from any buffer that holds the bytes it produced, \<open>reverse\<close> gives the bytes
  it was given, under the same limits and a signal that does not abort, at the first attempt and at
  any time.
\<close>

definition plugin_inverts :: "engine_limits \<Rightarrow> plugin \<Rightarrow> bool" where
  "plugin_inverts limits p \<longleftrightarrow>
     (\<forall>ctx data i now t out ctx' out' now'.
        ctx_limits ctx = Some limits \<longrightarrow> ctx_limits ctx' = Some limits \<longrightarrow>
        length (bytes_of data) \<le> maxOutputBytes limits \<longrightarrow> length (bytes_of out) \<le> maxOutputBytes limits \<longrightarrow>
        plugin_process p ctx data i now = Settles t (Inr (Some out)) \<longrightarrow> bytes_of out' = bytes_of out \<longrightarrow>
        (\<forall>sig. ctx_signal ctx' = Some sig \<longrightarrow> cut_off sig = None) \<longrightarrow>
        (\<exists>t' undone. call_reverse p ctx' out' 0 now' = Settles t' (Inr (Some undone))
           \<and> bytes_of undone = bytes_of data))"

lemma retry_from_success:
  "retry_from fn n b d maxDelay signal i now e = Settles t (Inr a) \<Longrightarrow> \<exists>j now'. fn j now' = Settles t (Inr a)"
proof (induction "n - i" arbitrary: i now e)
  case 0
  then show ?case by (simp add: retry_from.simps[of _ _ _ _ _ _ i])
next
  case (Suc k)
  then have i: "i < n" "k = n - (i + 1)" by simp_all
  have wait: "fn i now = Settles t (Inr a)"
    if "awaitOperation (fn i now) signal now = Settles t (Inr a)"
    using that by (auto simp: awaitOperation_def split: option.splits sum.splits settlement.splits if_splits)
  show ?case
    using Suc(3) i(1) wait Suc(1)[OF i(2)]
    by (subst (asm) retry_from.simps)
      (fastforce simp: Let_def split: sum.splits settlement.splits if_splits)
qed

lemma withRetry_success_attempt:
  assumes "withRetry fn options limits signal now = Settles t (Inr a)"
  shows "retry_plan options limits \<noteq> None \<and> (\<exists>j now'. fn j now' = Settles t (Inr a))"
proof (cases "retry_plan options limits")
  case None
  then show ?thesis using withRetry_unplanned[OF None, of fn signal now] assms by auto
next
  case (Some plan)
  obtain n b d maxDelay where "plan = (n, b, d, maxDelay)" by (cases plan)
  with Some assms show ?thesis using retry_from_success by (auto simp: withRetry_planned)
qed

text \<open>Under a signal that never aborts, the first attempt decides when it succeeds.\<close>

lemma never_aborted: "cut_off sig = None \<Longrightarrow> throwIfAborted (Some sig) now = Inr ()"
  using throwIfAborted_iff[of sig now] by (cases "throwIfAborted (Some sig) now") auto

lemma await_never_aborted:
  "cut_off sig = None \<Longrightarrow> awaitOperation p (Some sig) now = p"
  using never_aborted[of sig now] by (auto simp: awaitOperation_def cut_off_def split: option.splits)

lemma withRetry_first:
  assumes "retry_plan options limits \<noteq> None" "cut_off sig = None" "fn 0 now = Settles t (Inr a)"
  shows "withRetry fn options limits (Some sig) now = Settles t (Inr a)"
proof -
  obtain n b d maxDelay where plan: "retry_plan options limits = Some (n, b, d, maxDelay)"
    using assms(1) by auto
  then have "0 < n" using retry_plan_bounds(1) by force
  then show ?thesis
    using assms by (simp add: withRetry_planned[OF plan] retry_from.simps never_aborted await_never_aborted)
qed

section \<open>The chain of a pipeline\<close>

inductive chain :: "engine_limits \<Rightarrow> plugin list \<Rightarrow> js_buffer \<Rightarrow> js_buffer \<Rightarrow> bool" for limits where
  chain_Nil: "chain limits [] data data"
| chain_Cons: "ctx_limits ctx = Some limits \<Longrightarrow> plugin_process p ctx data i now = Settles t (Inr (Some mid)) \<Longrightarrow>
    length (bytes_of mid) \<le> maxOutputBytes limits \<Longrightarrow>
    retry_plan (plugin_retryOptions p) (Some limits) \<noteq> None \<Longrightarrow>
    chain limits ps mid out \<Longrightarrow> chain limits (p # ps) data out"

inductive_cases chain_NilE: "chain limits [] data out"
inductive_cases chain_ConsE: "chain limits (p # ps) data out"

lemma wait_Returns:
  "op_wait r ps result s = (s', Returns a) \<Longrightarrow> \<exists>t. result = Settles t (Inr a)"
  by (auto simp: op_wait_def Let_def split: settlement.splits sum.splits)

lemma plugin_output_Inr:
  "plugin_output limits out = Inr b \<longleftrightarrow> out = Some b \<and> length (bytes_of b) \<le> maxOutputBytes limits"
  by (auto simp: plugin_output_def split: option.splits)

lemma call_plugin_Returns:
  assumes "call_plugin r t signal limits p call data s = (s', Returns out)"
  shows "\<exists>ctx i now t'. ctx_limits ctx = Some limits \<and> call ctx data i now = Settles t' (Inr (Some out))
    \<and> length (bytes_of out) \<le> maxOutputBytes limits
    \<and> retry_plan (plugin_retryOptions p) (Some limits) \<noteq> None"
proof -
  define ctx where "ctx = makeContext r [''originalType'' \<mapsto> t] (Some signal) (Some limits) (rs_now s)"
  obtain s1 result where
    wait: "op_wait r (tracked_attempts (call ctx data) (plugin_retryOptions p) limits signal (rs_now s))
      (withRetry (call ctx data) (plugin_retryOptions p) (Some limits) (Some signal) (rs_now s)) s
      = (s1, Returns result)" and out: "plugin_output limits result = Inr out"
    using assms by (auto simp: call_plugin_def Let_def bind_now bind_Returns check_Returns ctx_def)
  obtain t' where "withRetry (call ctx data) (plugin_retryOptions p) (Some limits) (Some signal) (rs_now s)
      = Settles t' (Inr result)" using wait_Returns[OF wait] by blast
  from withRetry_success_attempt[OF this] out have
    "retry_plan (plugin_retryOptions p) (Some limits) \<noteq> None"
    "\<exists>i now. call ctx data i now = Settles t' (Inr (Some out))" "length (bytes_of out) \<le> maxOutputBytes limits"
    by (auto simp: plugin_output_Inr)
  moreover have "ctx_limits ctx = Some limits" by (simp add: ctx_def makeContext_def)
  ultimately show ?thesis by blast
qed

lemma run_plugins_chain:
  "run_plugins r t signal limits ps data metrics s = (s', Returns (out, metrics')) \<Longrightarrow> chain limits ps data out"
proof (induction ps arbitrary: data metrics s)
  case Nil
  then show ?case by (auto simp: return_Returns intro: chain_Nil)
next
  case (Cons p ps)
  then obtain mid s1 s2 metrics2 where
    "call_plugin r t signal limits p (plugin_process p) data s = (s1, Returns mid)"
    "run_plugins r t signal limits ps mid metrics2 s2 = (s', Returns (out, metrics'))"
    by (auto simp: Returns_iff)
  then show ?case using call_plugin_Returns Cons.IH chain_Cons by metis
qed

lemma undo_plugins_append:
  "undo_plugins r t signal limits (ps @ qs) data =
     op_bind (undo_plugins r t signal limits ps data) (undo_plugins r t signal limits qs)"
  by (induction ps arbitrary: data) (simp_all add: op_bind_assoc, simp add: fun_eq_iff op_bind_def op_return_def)

lemma wait_settles:
  "result = Settles t (Inr a) \<Longrightarrow> \<exists>s'. op_wait r ps result s = (s', Returns a)"
  by (simp add: op_wait_def Let_def)

lemma call_plugin_returns:
  assumes "call (makeContext r [''originalType'' \<mapsto> t] (Some signal) (Some limits) (rs_now s)) data 0 (rs_now s)
      = Settles t' (Inr (Some out))"
    and "retry_plan (plugin_retryOptions p) (Some limits) \<noteq> None" "cut_off signal = None"
    and "length (bytes_of out) \<le> maxOutputBytes limits"
  shows "\<exists>s'. call_plugin r t signal limits p call data s = (s', Returns out)"
proof -
  note result = withRetry_first[OF assms(2,3), of "call
    (makeContext r [''originalType'' \<mapsto> t] (Some signal) (Some limits) (rs_now s)) data", OF assms(1)]
  from wait_settles[OF result] assms(4) show ?thesis
    by (auto simp: call_plugin_def Let_def bind_now bind_Returns check_Returns plugin_output_Inr)
qed

lemma undo_chain:
  "chain limits ps data out \<Longrightarrow> list_all (plugin_inverts limits) ps \<Longrightarrow>
     length (bytes_of data) \<le> maxOutputBytes limits \<Longrightarrow> bytes_of out' = bytes_of out \<Longrightarrow> cut_off signal = None \<Longrightarrow>
     \<exists>s' undone. undo_plugins r t signal limits (rev ps) out' s = (s', Returns undone) \<and> bytes_of undone = bytes_of data"
proof (induction arbitrary: s rule: chain.induct)
  case (chain_Nil data)
  then show ?case by (simp add: op_return_def)
next
  case (chain_Cons ctx p data i now t2 mid ps out)
  from chain_Cons.prems(1) have "list_all (plugin_inverts limits) ps" by simp
  from chain_Cons.IH[OF this chain_Cons.hyps(3) chain_Cons.prems(3,4), of s] obtain s1 mid' where
    mid: "undo_plugins r t signal limits (rev ps) out' s = (s1, Returns mid')" "bytes_of mid' = bytes_of mid"
    by blast
  let ?ctx = "makeContext r [''originalType'' \<mapsto> t] (Some signal) (Some limits) (rs_now s1)"
  have "plugin_inverts limits p" "ctx_limits ?ctx = Some limits"
    "\<And>sig. ctx_signal ?ctx = Some sig \<Longrightarrow> cut_off sig = None"
    using chain_Cons.prems(1,4) by (simp_all add: makeContext_def)
  then obtain t' undone where undone: "call_reverse p ?ctx mid' 0 (rs_now s1) = Settles t' (Inr (Some undone))"
    "bytes_of undone = bytes_of data"
    using chain_Cons.hyps(1-3) chain_Cons.prems(2) mid(2) unfolding plugin_inverts_def by blast
  then obtain s2 where "call_plugin r t signal limits p (call_reverse p) mid' s1 = (s2, Returns undone)"
    using call_plugin_returns[where call = "call_reverse p", OF undone(1) chain_Cons.hyps(4) chain_Cons.prems(4)] chain_Cons.prems(2) by auto
  then have "undo_plugins r t signal limits (rev (p # ps)) out' s
      = (s2\<lparr>rs_engine := emit (EvPluginAfter (plugin_name p) 0) (rs_engine s2)\<rparr>, Returns undone)"
    using mid(1) by (simp add: undo_plugins_append op_bind_def op_engine_def op_return_def)
  then show ?case using undone(2) by blast
qed

section \<open>undo after run\<close>

text \<open>Buffers are new objects on the way back; every other value is equal.\<close>

definition same_value :: "js_value \<Rightarrow> js_value \<Rightarrow> bool" where
  "same_value v w \<longleftrightarrow> v = w \<or> (\<exists>a b bs. v = JsBuffer (a, bs) \<and> w = JsBuffer (b, bs))"

text \<open>A schema cannot tell two buffers with the same bytes apart.\<close>

definition schema_blind :: "engine \<Rightarrow> bool" where
  "schema_blind e \<longleftrightarrow> (\<forall>v w. same_value v w \<longrightarrow> validate e v = validate e w)"

lemma fromBuffer_same_bytes:
  assumes "fromBuffer rt buf t m = Inr v" "bytes_of buf' = bytes_of buf"
  shows "\<exists>w. fromBuffer rt buf' t m = Inr w \<and> same_value w v"
proof (cases "t = ''buffer''")
  case True
  then show ?thesis using assms
    by (cases buf; cases buf') (auto simp: fromBuffer_def same_value_def assertOriginalType_def ORIGINAL_TYPES_def)
next
  case False
  then have "t \<in> {''array'', ''object'', ''json'', ''number'', ''bigint'', ''boolean'', ''string'', ''null'', ''undefined''}"
    using assms(1) by (auto simp: fromBuffer_def assertOriginalType_iff ORIGINAL_TYPES_def rbind_eq_Inr)
  then have "fromBuffer rt buf' t m = fromBuffer rt buf t m" using assms(2) by (auto simp: fromBuffer_def)
  then show ?thesis using assms(1) by (simp add: same_value_def)
qed

lemma audit_without_logger:
  assumes "eng_auditLogger (rs_engine s) = None" "cut_off signal = None"
  shows "\<exists>s'. op_audit r operation signal s = (s', Returns ())"
  using wait_settles[of "awaitOperation (Settles (rs_now s) (Inr ())) (Some signal) (rs_now s)"] assms(1)
  by (simp add: op_audit_def bind_state Let_def emitAudit_def await_never_aborted[OF assms(2)])

lemma undo_body_restores:
  assumes "chain limits ps data out" "list_all (plugin_inverts limits) ps"
    and "length (bytes_of data) \<le> maxOutputBytes limits" "cut_off signal = None"
    and "fromBuffer rt data t (maxFrameBytes limits) = Inr v" "validate (rs_engine s) v = Inr ()"
    and "eng_auditLogger (rs_engine s) = None" "schema_blind (rs_engine s)"
  shows "\<exists>s' w. undo_body rt fresh r signal ps limits False out t s = (s', Returns w) \<and> same_value w v"
proof -
  obtain s1 undone where plugins: "undo_plugins r t signal limits (rev ps) out s = (s1, Returns undone)"
    and same: "bytes_of undone = bytes_of data"
    using undo_chain[OF assms(1-3) refl assms(4)] by blast
  obtain w where w: "fromBuffer rt undone t (maxFrameBytes limits) = Inr w" "same_value w v"
    using fromBuffer_same_bytes[OF assms(5) same] by blast
  have kept: "eng_schema (rs_engine s1) = eng_schema (rs_engine s)" "eng_auditLogger (rs_engine s1) = None"
    using keeps_setting[OF setting_undo_plugins plugins] assms(7) by (simp_all add: same_setting_def)
  have "validate (rs_engine s) w = Inr ()" using assms(6,8) w(2) by (simp add: schema_blind_def)
  then have valid: "validate (rs_engine s1) w = Inr ()" using kept(1) by (simp add: validate_def)
  obtain s2 where audit: "op_audit r AuditReverse signal s1 = (s2, Returns ())"
    using audit_without_logger[OF kept(2) assms(4)] by blast
  have "undo_body rt fresh r signal ps limits False out t s =
      (s2\<lparr>rs_engine := endRequest r None (rs_engine s2)\<rparr>, Returns w)"
    unfolding undo_body_def Returns_iff
    using plugins audit valid w(1) assms(3) same by (simp add: never_aborted[OF assms(4)] not_less del: split_paired_Ex)
  then show ?thesis using w(2) by blast
qed

text \<open>An engine on which what \<open>s\<close> ran can be undone: configured alike, with capacity left.\<close>

definition ready_to_undo :: "run_state \<Rightarrow> run_state \<Rightarrow> bool" where
  "ready_to_undo s s2 \<longleftrightarrow> eng_limits (rs_engine s2) = eng_limits (rs_engine s)
     \<and> eng_plugins (rs_engine s2) = eng_plugins (rs_engine s)
     \<and> eng_schema (rs_engine s2) = eng_schema (rs_engine s) \<and> eng_auditLogger (rs_engine s2) = None
     \<and> card (eng_active (rs_engine s2)) < maxConcurrentOperations (eng_limits (rs_engine s2))"

text \<open>The arguments that make \<open>undo\<close> trust the type, and no time limit.\<close>

definition undo_trusts :: "run_state \<Rightarrow> engine_result \<Rightarrow> undo_options \<Rightarrow> bool" where
  "undo_trusts s2 res options \<longleftrightarrow>
     expected_type options = Some (Some (er_originalType res))
     \<or> expected_type options = None \<and> options \<noteq> BadUndoOptions
       \<and> rs_trusted s2 (buffer_id (er_data res)) = Some (er_originalType res)"

definition options_of :: "undo_options \<Rightarrow> operation_options" where
  "options_of options = (case options of UndoOptions _ o' \<Rightarrow> o' | _ \<Rightarrow> default_options)"

lemma undo_arguments_own:
  assumes "undo_trusts s2 res options" "er_originalType res \<in> set ORIGINAL_TYPES"
    and "length (er_pipeline res) \<le> 256" "\<forall>l \<in> set (er_pipeline res). length l \<le> 512"
  shows "undo_arguments (rs_trusted s2) (UndoResult (as_transported res names) options) =
    Inr (er_data res, er_originalType res, options_of options)"
proof -
  have "result_ok (as_transported res names)"
    using assms(3,4) by (auto simp: result_ok_def as_transported_def list_all_iff pipeline_label_ok_def duration_ok_def)
  moreover have "options \<noteq> BadUndoOptions" using assms(1) by (cases options) (auto simp: undo_trusts_def)
  ultimately show ?thesis
    using assms(1,2)
    by (cases options) (auto simp: undo_arguments_def undo_trusts_def options_of_def as_transported_def Let_def
        assertOriginalType_def split: option.split)
qed

lemma startRequest_returns:
  "card (eng_active e) < maxConcurrentOperations (eng_limits e) \<Longrightarrow> \<exists>e'. startRequest e r = Inr e'"
  by (simp add: startRequest_def)

lemma run_frames:
  assumes "run_input rt fresh limits (detectType v) v = Inr data"
  shows "toBuffer rt fresh v = Inr data \<and> frames_ok v data (maxFrameBytes limits)"
  using assms by (auto simp: run_input_def rbind_eq_Inr frames_ok_def returns_def split: if_splits)

lemma undo_restores_run:
  assumes "runtime_ok rt words plain" "carried words plain v"
    and "binary_run rt fresh r v options s = (s1, Returns res)"
    and "list_all (plugin_inverts (eng_limits (rs_engine s))) (eng_plugins (rs_engine s))"
    and "assertReversiblePipeline (eng_plugins (rs_engine s)) = Inr ()"
    and "length (eng_plugins (rs_engine s)) \<le> 256"
    and "\<forall>p \<in> set (eng_plugins (rs_engine s)). length (plugin_id p) \<le> 512"
    and "\<And>data. toBuffer rt fresh v = Inr data \<Longrightarrow>
      length (bytes_of data) \<le> maxOutputBytes (eng_limits (rs_engine s))"
    and "length (bytes_of (er_data res)) \<le> maxInputBytes (eng_limits (rs_engine s))"
    and "ready_to_undo s s2" "schema_blind (rs_engine s)" "undo_trusts s2 res undo_opts"
    and "createOperationSignal (eng_limits (rs_engine s2)) (options_of undo_opts) (rs_now s2) = Inr signal2"
    and "cut_off signal2 = None"
  shows "\<exists>s3 w. binary_undo rt fresh2 r2 (UndoResult (as_transported res names) undo_opts) s2
    = (s3, Returns w) \<and> same_value w v"
proof -
  let ?limits = "eng_limits (rs_engine s)" and ?ps = "eng_plugins (rs_engine s)"
  obtain signal e s' where
    types: "detectType v \<in> set ORIGINAL_TYPES" and e: "startRequest (rs_engine s) r = Inr e" and
    body: "run_body rt fresh r signal ?ps (pipeline (rs_engine s)) ?limits v (s\<lparr>rs_engine := e\<rparr>) = (s', Returns res)"
    by (rule run_returns[OF assms(3)])
  note ran = run_body_returns[OF body]
  obtain data s'' where input: "run_input rt fresh ?limits (detectType v) v = Inr data" and
    plugins: "run_plugins r (detectType v) signal ?limits ?ps data Map.empty (s\<lparr>rs_engine := e\<rparr>)
      = (s'', Returns (er_data res, er_steps res))"
    using ran by blast
  have converted: "toBuffer rt fresh v = Inr data" "frames_ok v data (maxFrameBytes ?limits)"
    using run_frames[OF input] by simp_all
  have decoded: "fromBuffer rt data (detectType v) (maxFrameBytes ?limits) = Inr v"
    by (rule value_roundtrip[OF assms(1,2) converted])
  have ready: "eng_limits (rs_engine s2) = ?limits" "eng_plugins (rs_engine s2) = ?ps"
    "eng_schema (rs_engine s2) = eng_schema (rs_engine s)" "eng_auditLogger (rs_engine s2) = None"
    "card (eng_active (rs_engine s2)) < maxConcurrentOperations (eng_limits (rs_engine s2))"
    using assms(10) unfolding ready_to_undo_def by blast+
  obtain e2 where e2: "startRequest (rs_engine s2) r2 = Inr e2" using startRequest_returns[OF ready(5)] by blast
  let ?s = "s2\<lparr>rs_engine := e2\<rparr>"
  have setting: "eng_schema e2 = eng_schema (rs_engine s)" "eng_auditLogger e2 = None"
    using startRequest_setting[OF e2] ready by simp_all
  have "validate (rs_engine ?s) v = Inr ()" "schema_blind (rs_engine ?s)"
    using ran startRequest_setting[OF e] setting assms(11) by (simp_all add: validate_def schema_blind_def)
  then obtain s3 w where undone: "undo_body rt fresh2 r2 signal2 ?ps ?limits False (er_data res) (detectType v) ?s
      = (s3, Returns w)" "same_value w v"
    using undo_body_restores[OF run_plugins_chain[OF plugins] assms(4) assms(8)[OF converted(1)] assms(14) decoded]
      setting(2) by (metis run_state.select_convs(1) run_state.surjective run_state.update_convs(1))
  have args: "undo_arguments (rs_trusted s2) (UndoResult (as_transported res names) undo_opts) =
      Inr (er_data res, detectType v, options_of undo_opts)"
    using undo_arguments_own[OF assms(12), of names] ran types assms(6,7) by (auto simp: pipeline_def)
  have "binary_undo rt fresh2 r2 (UndoResult (as_transported res names) undo_opts) s2
      = (s3\<lparr>rs_engine := releaseRequest r2 (rs_engine s3)\<rparr>, Returns w)"
    unfolding binary_undo_def bind_state Let_def args check_ok prod.case assms(13) Returns_iff
    using undone(1) e2 assms(5,9) ready(1,2)
    by (simp add: is_raw_def never_aborted[OF assms(14)] not_less del: split_paired_Ex)
  then show ?thesis using undone(2) by blast
qed

section \<open>When run succeeds\<close>

text \<open>Every plugin turns its input into the next one at its first attempt, whenever that is.\<close>

inductive accepted :: "string \<Rightarrow> string \<Rightarrow> abort_signal \<Rightarrow> engine_limits \<Rightarrow> plugin list \<Rightarrow> js_buffer \<Rightarrow> js_buffer \<Rightarrow> bool"
  for r t signal limits where
  accepted_Nil: "accepted r t signal limits [] data data"
| accepted_Cons: "(\<And>now. \<exists>t'. plugin_process p
      (makeContext r [''originalType'' \<mapsto> t] (Some signal) (Some limits) now) data 0 now = Settles t' (Inr (Some mid))) \<Longrightarrow>
    retry_plan (plugin_retryOptions p) (Some limits) \<noteq> None \<Longrightarrow>
    length (bytes_of mid) \<le> maxOutputBytes limits \<Longrightarrow>
    accepted r t signal limits ps mid out \<Longrightarrow> accepted r t signal limits (p # ps) data out"

lemma run_plugins_returns:
  "accepted r t signal limits ps data out \<Longrightarrow> cut_off signal = None \<Longrightarrow>
     \<exists>s' metrics'. run_plugins r t signal limits ps data metrics s = (s', Returns (out, metrics'))"
proof (induction arbitrary: metrics s rule: accepted.induct)
  case (accepted_Nil data)
  then show ?case by (simp add: op_return_def)
next
  case (accepted_Cons p data mid ps out)
  obtain t' where "plugin_process p (makeContext r [''originalType'' \<mapsto> t] (Some signal) (Some limits) (rs_now s))
      data 0 (rs_now s) = Settles t' (Inr (Some mid))" using accepted_Cons.hyps(1) by blast
  from call_plugin_returns[where call = "plugin_process p", OF this accepted_Cons.hyps(2) accepted_Cons.prems accepted_Cons.hyps(3)]
  obtain s1 where s1: "call_plugin r t signal limits p (plugin_process p) data s = (s1, Returns mid)" by blast
  let ?d = "rs_now s1 - rs_now s"
  obtain s2 metrics2 where "run_plugins r t signal limits ps mid (metrics(plugin_name p \<mapsto> ?d))
      (s1\<lparr>rs_engine := emit (EvPluginAfter (plugin_name p) ?d) (rs_engine s1)\<rparr>) = (s2, Returns (out, metrics2))"
    using accepted_Cons.IH[OF accepted_Cons.prems] by blast
  then have "run_plugins r t signal limits (p # ps) data metrics s = (s2, Returns (out, metrics2))"
    using s1 by (simp add: op_bind_def op_now_def op_engine_def)
  then show ?case by blast
qed

lemma run_succeeds:
  assumes "createOperationSignal (eng_limits (rs_engine s)) options (rs_now s) = Inr signal" "cut_off signal = None"
    and "card (eng_active (rs_engine s)) < maxConcurrentOperations (eng_limits (rs_engine s))"
    and "eng_auditLogger (rs_engine s) = None" "validate (rs_engine s) v = Inr ()"
    and "detectType v \<in> set ORIGINAL_TYPES"
    and "run_input rt fresh (eng_limits (rs_engine s)) (detectType v) v = Inr data"
    and "accepted r (detectType v) signal (eng_limits (rs_engine s)) (eng_plugins (rs_engine s)) data out"
    and "length (bytes_of out) \<le> maxOutputBytes (eng_limits (rs_engine s))"
  shows "\<exists>s' res. binary_run rt fresh r v options s = (s', Returns res) \<and> er_data res = out"
proof -
  let ?limits = "eng_limits (rs_engine s)" and ?ps = "eng_plugins (rs_engine s)"
  obtain e where e: "startRequest (rs_engine s) r = Inr e" using startRequest_returns[OF assms(3)] by blast
  let ?s = "s\<lparr>rs_engine := e\<rparr>"
  have valid: "validate e v = Inr ()" and logger: "eng_auditLogger e = None"
    using startRequest_setting[OF e] assms(4,5) by (simp_all add: validate_def)
  obtain s1 metrics where plugins: "run_plugins r (detectType v) signal ?limits ?ps data Map.empty ?s
      = (s1, Returns (out, metrics))"
    using run_plugins_returns[OF assms(8,2)] by blast
  have "eng_auditLogger (rs_engine s1) = None"
    using keeps_setting[OF setting_run_plugins plugins] logger by (simp add: same_setting_def)
  then obtain s2 where audit: "op_audit r AuditProcess signal s1 = (s2, Returns ())"
    using audit_without_logger assms(2) by blast
  have "\<exists>s' res. run_body rt fresh r signal ?ps (pipeline (rs_engine s)) ?limits v ?s = (s', Returns res)
    \<and> er_data res = out"
    using valid assms(7,9) plugins audit
    by (simp add: run_body_def Let_def Returns_iff never_aborted[OF assms(2)] not_less
        del: split_paired_Ex run_plugins.simps)
  then obtain s3 res where body: "run_body rt fresh r signal ?ps (pipeline (rs_engine s)) ?limits v ?s
      = (s3, Returns res)" and "er_data res = out" by blast
  moreover have "binary_run rt fresh r v options s = (s3\<lparr>rs_engine := releaseRequest r (rs_engine s3)\<rparr>, Returns res)"
    unfolding binary_run_def bind_state Let_def assms(1) check_ok Returns_iff
    using body e assms(6) by (simp add: never_aborted[OF assms(2)] assertOriginalType_def)
  ultimately show ?thesis by blast
qed

section \<open>Where the round trip ends\<close>

text \<open>\<open>use\<close> bounds the name of a plugin but not its version, while \<open>undo\<close> refuses labels of more
  than 512 characters: an engine with such a plugin runs, but rejects its own results as invalid.\<close>

theorem long_label_rejected:
  assumes "p \<in> set (eng_plugins (rs_engine s))" "length (plugin_id p) > 512"
    and "binary_run rt fresh r v options s = (s1, Returns res)"
  shows "binary_undo rt fresh2 r2 (UndoResult (as_transported res names) undo_opts) s2
    = (s2, Throws (JsError ''[PipeX] Invalid EngineResult''))"
proof -
  obtain signal e s' where
    "run_body rt fresh r signal (eng_plugins (rs_engine s)) (pipeline (rs_engine s)) (eng_limits (rs_engine s)) v
      (s\<lparr>rs_engine := e\<rparr>) = (s', Returns res)"
    by (rule run_returns[OF assms(3)])
  from run_body_returns[OF this] have "plugin_id p \<in> set (er_pipeline res)"
    using assms(1) by (simp add: pipeline_def)
  then have "\<not> result_ok (as_transported res names)"
    using assms(2) by (auto simp: result_ok_def as_transported_def list_all_iff pipeline_label_ok_def not_le)
  then have "undo_arguments (rs_trusted s2) (UndoResult (as_transported res names) undo_opts) =
      Inl (JsError ''[PipeX] Invalid EngineResult'')"
    by (simp add: undo_arguments_def)
  then show ?thesis by (simp add: binary_undo_def Let_def op_bind_def op_state_def op_check_def)
qed

definition long_plugin :: plugin where
  "long_plugin = echo_plugin\<lparr>plugin_version := replicate 600 CHR ''1''\<rparr>"

definition long_state :: run_state where
  "long_state = start_state (fresh_engine\<lparr>eng_limits := DEFAULT_LIMITS\<lparr>operationTimeoutMs := 0\<rparr>,
     eng_plugins := [long_plugin]\<rparr>)"

lemma long_runs:
  "\<exists>s' res. binary_run toy_runtime 9 ''r'' (JsString ''hi'') default_options long_state = (s', Returns res)
     \<and> er_data res = (9, [104, 105])"
proof (rule run_succeeds)
  let ?signal = "\<lparr>sig_abort = None, sig_deadline = None\<rparr>"
  show "createOperationSignal (eng_limits (rs_engine long_state)) default_options (rs_now long_state) = Inr ?signal"
    by (simp add: evaluate_signal start_state_def long_state_def)
  show "cut_off ?signal = None" by (simp add: cut_off_def first_failure_def)
  show "run_input toy_runtime 9 (eng_limits (rs_engine long_state)) (detectType (JsString ''hi''))
      (JsString ''hi'') = Inr (9, [104, 105])"
    by (simp add: evaluate_value start_state_def long_state_def toy_runtime_def DEFAULT_LIMITS_def)
  have "accepted ''r'' t ?signal limits [long_plugin] (9, [104, 105]) (9, [104, 105])"
    if "2 \<le> maxOutputBytes limits" "1 \<le> maxRetryAttempts limits" for t limits
    by (rule accepted_Cons[OF _ _ _ accepted_Nil])
      (use that in \<open>simp_all add: long_plugin_def echo_plugin_def retry_plan_None\<close>)
  then show "accepted ''r'' (detectType (JsString ''hi'')) ?signal (eng_limits (rs_engine long_state))
      (eng_plugins (rs_engine long_state)) (9, [104, 105]) (9, [104, 105])"
    by (simp add: long_state_def start_state_def DEFAULT_LIMITS_def)
qed (simp_all add: long_state_def start_state_def fresh_engine_def DEFAULT_LIMITS_def validate_def
    detectType_def ORIGINAL_TYPES_def)

theorem long_label_rejected_witness:
  "(\<exists>e. use_plugin fresh_engine long_plugin = Inr e)
   \<and> (\<exists>s1 res. binary_run toy_runtime 9 ''r'' (JsString ''hi'') default_options long_state = (s1, Returns res)
     \<and> binary_undo toy_runtime 9 ''u'' (UndoResult (as_transported res []) NoUndoOptions) s1
         = (s1, Throws (JsError ''[PipeX] Invalid EngineResult'')))"
proof -
  obtain s1 res where run: "binary_run toy_runtime 9 ''r'' (JsString ''hi'') default_options long_state
      = (s1, Returns res)" using long_runs by blast
  have "long_plugin \<in> set (eng_plugins (rs_engine long_state))" "length (plugin_id long_plugin) > 512"
    by (simp_all add: long_state_def start_state_def plugin_id_def long_plugin_def)
  from long_label_rejected[OF this run] have
    "binary_undo toy_runtime 9 ''u'' (UndoResult (as_transported res []) NoUndoOptions) s1
      = (s1, Throws (JsError ''[PipeX] Invalid EngineResult''))" .
  moreover have "\<exists>e. use_plugin fresh_engine long_plugin = Inr e"
    by (simp add: use_plugin_def fresh_engine_def long_plugin_def echo_plugin_def getPluginCapabilities_def
        has_own_reverse_def)
  ultimately show ?thesis using run by blast
qed

end
