(* ===== verification/Kms_Encryption.thy ===== *)
theory Kms_Encryption
  imports Plugins Encryption_Format
begin

text \<open>
  \<open>KmsEncryptionPlugin\<close> (\<open>src/plugin/kms_encryption.ts\<close>): envelope encryption under a data key that a
  key management service hands out.  The provider is code of the caller, a parameter: its promises
  settle when and how they like.  The buffer with the plaintext data key belongs to the provider and
  is wiped, so its final contents are part of the result of an operation.  The bytes of an
  initialization vector are an argument.
\<close>

section \<open>The provider under a time limit\<close>

text \<open>
  What \<open>generateDataKey\<close> resolves with; a member that is no buffer is \<open>None\<close>, and so are both when
  the value is \<open>null\<close>.
\<close>

record kms_data_key =
  dk_plaintext :: "buffer option"
  dk_ciphertext :: "buffer option"

text \<open>
  A provider: what its capabilities are checked by, and its two methods, called at some instant with
  the signal that the call passes on.  A method that throws gives a promise that is rejected already.
\<close>

record kms_service =
  svc_provider :: kms_provider
  svc_generateDataKey :: "string \<Rightarrow> plain_signal \<Rightarrow> time \<Rightarrow> kms_data_key settlement"
  svc_decrypt :: "buffer \<Rightarrow> string \<Rightarrow> plain_signal \<Rightarrow> time \<Rightarrow> buffer option settlement"

record kms_options =
  ko_kms :: kms_service
  ko_keyId :: string
  ko_allowLegacyDecrypt :: "bool option"

text \<open>\<open>reason instanceof Error && reason.name === 'TimeoutError'\<close>: the package's own errors have other names.\<close>

fun kms_abortError :: "abort_reason \<Rightarrow> px_error" where
  "kms_abortError (ErrorReason name message) =
     (if name = ''TimeoutError'' then OperationTimeoutError else OperationAbortedError)"
| "kms_abortError (PxReason e) = OperationAbortedError"
| "kms_abortError NullReason = OperationAbortedError"

text \<open>
  \<open>abortable\<close>: the settlement of the promise it returns, and the value that is disposed of because it
  arrives after the abort.
\<close>

definition abortable :: "'a settlement \<Rightarrow> plain_signal \<Rightarrow> time \<Rightarrow> 'a settlement \<times> 'a option" where
  "abortable promise signal now =
     (let late = (case promise of Settles _ (Inr v) \<Rightarrow> Some v | _ \<Rightarrow> None) in
      case signal of None \<Rightarrow> (promise, None)
      | Some (t, reason) \<Rightarrow>
          if t \<le> now then (Settles now (Inl (kms_abortError reason)), late)
          else (case promise of
                  Settles ts r \<Rightarrow> if ts < t then (promise, None)
                    else (Settles t (Inl (kms_abortError reason)), late)
                | Pending \<Rightarrow> (Settles t (Inl (kms_abortError reason)), None)))"

definition kms_timeout_reason :: abort_reason where
  "kms_timeout_reason = ErrorReason ''TimeoutError'' ''KMS provider operation timed out''"

definition providerControl :: "processor_context \<Rightarrow> time \<Rightarrow> px_error + plain_signal" where
  "providerControl ctx now =
     (let timeoutMs = operationTimeoutMs (context_limits (ctx_limits ctx));
          outer = (case ctx_signal ctx of None \<Rightarrow> None | Some sig \<Rightarrow> sig_abort sig) in
      if \<not> is_safe_integer (int timeoutMs) \<or> timeoutMs > MAX_TIMER_MS
      then Inl (JsError ''[PipeX] Invalid KMS provider timeout'')
      else if timeoutMs = 0 then Inr outer
      else Inr (abort_any outer (Some (now + timeoutMs, kms_timeout_reason))))"

definition sanitizeProviderError :: "kms_operation \<Rightarrow> px_error \<Rightarrow> px_error" where
  "sanitizeProviderError operation err =
     (case err of
        OperationAbortedError \<Rightarrow> err
      | OperationTimeoutError \<Rightarrow> err
      | KmsProviderAuthenticationError _ \<Rightarrow> KmsProviderAuthenticationError operation
      | KmsProviderUnavailableError _ \<Rightarrow> KmsProviderUnavailableError operation
      | _ \<Rightarrow> KmsProviderError operation)"

text \<open>\<open>catch (error)\<close> of \<open>callProvider\<close>, for a failure at \<open>t\<close>.\<close>

definition provider_failure :: "kms_operation \<Rightarrow> plain_signal \<Rightarrow> time \<Rightarrow> px_error \<Rightarrow> px_error" where
  "provider_failure operation signal t err =
     (case signal_aborted signal t of Some reason \<Rightarrow> kms_abortError reason
      | None \<Rightarrow> sanitizeProviderError operation err)"

definition callProvider ::
  "kms_provider \<Rightarrow> kms_operation \<Rightarrow> processor_context \<Rightarrow> (plain_signal \<Rightarrow> time \<Rightarrow> 'a settlement) \<Rightarrow> time
     \<Rightarrow> 'a settlement \<times> 'a option" where
  "callProvider provider operation ctx invoke now =
     (case assertKmsOperation (Some provider) operation of Inl e \<Rightarrow> (Settles now (Inl e), None)
      | Inr _ \<Rightarrow>
          (case providerControl ctx now of Inl e \<Rightarrow> (Settles now (Inl e), None)
           | Inr signal \<Rightarrow>
               (case signal_aborted signal now of
                  Some reason \<Rightarrow> (Settles now (Inl (kms_abortError reason)), None)
                | None \<Rightarrow>
                    (case abortable (invoke signal now) signal now of
                       (Settles t (Inl err), late) \<Rightarrow>
                         (Settles t (Inl (provider_failure operation signal t err)), late)
                     | r \<Rightarrow> r))))"

section \<open>The envelope\<close>

definition KMS_MAGIC :: buffer where "KMS_MAGIC = utf8 ''PXKM''"
definition FORMAT_VERSION :: nat where "FORMAT_VERSION = 1"
definition ALGORITHM_AES_256_GCM :: nat where "ALGORITHM_AES_256_GCM = 1"
definition IV_LENGTH :: nat where "IV_LENGTH = 12"
definition FIXED_HEADER_LENGTH :: nat where "FIXED_HEADER_LENGTH = 4 + 1 + 1 + 2 + 4 + 4 + IV_LENGTH"

lemmas kms_constants = FORMAT_VERSION_def ALGORITHM_AES_256_GCM_def IV_LENGTH_def FIXED_HEADER_LENGTH_def
  TAG_LENGTH_def

definition buildKmsHeader :: "nat \<Rightarrow> nat \<Rightarrow> buffer \<Rightarrow> buffer" where
  "buildKmsHeader keyLen dataLen iv =
     (let header = replicate FIXED_HEADER_LENGTH 0;
          header = buf_copy header 0 KMS_MAGIC;
          header = buf_copy header 4 (be_bytes 1 FORMAT_VERSION);
          header = buf_copy header 5 (be_bytes 1 ALGORITHM_AES_256_GCM);
          header = buf_copy header 6 (be_bytes 2 0);
          header = buf_copy header 8 (be_bytes 4 keyLen);
          header = buf_copy header 12 (be_bytes 4 dataLen)
      in buf_copy header 16 iv)"

text \<open>The part of \<open>process\<close> after the provider has answered.\<close>

definition kms_output_exceeds :: "nat \<Rightarrow> px_error" where
  "kms_output_exceeds maxOut = JsError (''[PipeX] KMS encryption output exceeds '' @ nat_digits maxOut @ '' bytes'')"

definition kms_seal ::
  "node_crypto \<Rightarrow> buffer \<Rightarrow> engine_limits option \<Rightarrow> buffer \<Rightarrow> kms_data_key \<Rightarrow> px_error + buffer" where
  "kms_seal c iv limits data key =
     (case dk_plaintext key of None \<Rightarrow> Inl (JsError ''[PipeX] KMS generated an invalid data key'')
      | Some plaintext \<Rightarrow>
          if length plaintext \<noteq> 32 then Inl (JsError ''[PipeX] KMS generated an invalid data key'')
          else (case dk_ciphertext key of
              None \<Rightarrow> Inl (JsError ''[PipeX] KMS generated an invalid encrypted key'')
            | Some encryptedKey \<Rightarrow>
                if length encryptedKey < 1 \<or> length encryptedKey > maxKmsEncryptedKeyBytes (context_limits limits)
                then Inl (JsError ''[PipeX] KMS generated an invalid encrypted key'')
                else
                  let overhead = FIXED_HEADER_LENGTH + length encryptedKey + TAG_LENGTH;
                      maxOut = pluginOutputLimit limits in
                  if int (length data) > int maxOut - int overhead then Inl (kms_output_exceeds maxOut)
                  else if length encryptedKey > 0xffffffff
                  then Inl (JsRangeError ''The value of \"value\" is out of range.'')
                  else
                    let header = buildKmsHeader (length encryptedKey) (length data) iv;
                        (encrypted, tag) = aead_seal c Aes256Gcm plaintext iv (header @ encryptedKey) data
                    in Inr (header @ encryptedKey @ encrypted @ tag)))"

text \<open>\<open>Buffer.byteLength\<close> of a string of characters up to U+00FF.\<close>

definition byteLength :: "string \<Rightarrow> nat" where
  "byteLength s = sum_list (map (\<lambda>c. if (of_char c :: nat) < 128 then 1 else 2) s)"

text \<open>
  An operation: its promise, and what the provider's buffer with the plaintext data key holds when
  everything has settled, if there was one.
\<close>

record 'a kms_outcome =
  kms_result :: "'a settlement"
  kms_key_left :: "buffer option"

definition kms_failed :: "time \<Rightarrow> px_error \<Rightarrow> buffer kms_outcome" where
  "kms_failed now e = \<lparr>kms_result = Settles now (Inl e), kms_key_left = None\<rparr>"

text \<open>The \<open>finally\<close> of both operations, and what is done to a key that arrives too late.\<close>

definition wipe_key :: "buffer option \<Rightarrow> buffer option" where
  "wipe_key key = map_option zero_fill key"

text \<open>Everything \<open>process\<close> checks before it calls the provider.\<close>

definition kms_admit :: "kms_options \<Rightarrow> engine_limits option \<Rightarrow> buffer \<Rightarrow> px_error + unit" where
  "kms_admit options limits data =
     (let maxIn = pluginInputLimit limits; maxOut = pluginOutputLimit limits in
      if byteLength (ko_keyId options) > maxKmsKeyIdBytes (context_limits limits)
      then Inl (JsError ''[PipeX] KMS key identifier exceeds the configured limit'')
      else if length data > maxIn
      then Inl (JsError (''[PipeX] KMS encryption input exceeds '' @ nat_digits maxIn @ '' bytes''))
      else if length data > 0xffffffff
      then Inl (JsError ''[PipeX] KMS encryption input exceeds the format limit'')
      else if int (length data) > int maxOut - int (FIXED_HEADER_LENGTH + 1 + TAG_LENGTH)
      then Inl (kms_output_exceeds maxOut)
      else Inr ())"

definition kms_process ::
  "node_crypto \<Rightarrow> buffer \<Rightarrow> kms_options \<Rightarrow> buffer \<Rightarrow> processor_context \<Rightarrow> time \<Rightarrow> buffer kms_outcome" where
  "kms_process c iv options data ctx now =
     (let limits = ctx_limits ctx; kms = ko_kms options; keyId = ko_keyId options in
      case kms_admit options limits data of Inl e \<Rightarrow> kms_failed now e
      | Inr _ \<Rightarrow>
          (case callProvider (svc_provider kms) KmsGenerateDataKey ctx (svc_generateDataKey kms keyId) now of
             (Pending, late) \<Rightarrow> \<lparr>kms_result = Pending, kms_key_left = None\<rparr>
           | (Settles t (Inl e), late) \<Rightarrow>
               \<lparr>kms_result = Settles t (Inl e),
                kms_key_left = (case late of None \<Rightarrow> None | Some key \<Rightarrow> wipe_key (dk_plaintext key))\<rparr>
           | (Settles t (Inr key), late) \<Rightarrow>
               \<lparr>kms_result = Settles t (kms_seal c iv limits data key),
                kms_key_left = wipe_key (dk_plaintext key)\<rparr>))"

section \<open>Reading an envelope\<close>

record kms_envelope =
  ke_encryptedKey :: buffer
  ke_iv :: buffer
  ke_tag :: buffer
  ke_ciphertext :: buffer
  ke_authenticatedHeader :: "buffer option"

definition kms_decryption :: "string \<Rightarrow> px_error" where
  "kms_decryption what = JsError (''[PipeX] KMS Decryption: '' @ what)"

definition kms_decryption_exceeds :: "nat \<Rightarrow> px_error" where
  "kms_decryption_exceeds maxOut = JsError (''[PipeX] KMS decryption output exceeds '' @ nat_digits maxOut @ '' bytes'')"

definition kms_parse_framed :: "engine_limits option \<Rightarrow> buffer \<Rightarrow> px_error + kms_envelope" where
  "kms_parse_framed limits data =
     (if length data < FIXED_HEADER_LENGTH + 1 + TAG_LENGTH
      then Inl (kms_decryption ''incomplete framed envelope'')
      else if read_be 1 data 4 \<noteq> FORMAT_VERSION then Inl (kms_decryption ''unsupported format version'')
      else if read_be 1 data 5 \<noteq> ALGORITHM_AES_256_GCM \<or> read_be 2 data 6 \<noteq> 0
      then Inl (kms_decryption ''invalid framed envelope'')
      else
        let keyLen = read_be 4 data 8; ciphertextLength = read_be 4 data 12; maxOut = pluginOutputLimit limits in
        if keyLen < 1 \<or> keyLen > maxKmsEncryptedKeyBytes (context_limits limits)
        then Inl (kms_decryption ''invalid key envelope'')
        else if FIXED_HEADER_LENGTH + keyLen + ciphertextLength + TAG_LENGTH \<noteq> length data
        then Inl (kms_decryption ''invalid envelope length'')
        else if ciphertextLength > maxOut then Inl (kms_decryption_exceeds maxOut)
        else Inr \<lparr>ke_encryptedKey = subarray data FIXED_HEADER_LENGTH (FIXED_HEADER_LENGTH + keyLen),
                  ke_iv = subarray data 16 FIXED_HEADER_LENGTH,
                  ke_tag = drop (length data - TAG_LENGTH) data,
                  ke_ciphertext = subarray data (FIXED_HEADER_LENGTH + keyLen) (length data - TAG_LENGTH),
                  ke_authenticatedHeader = Some (subarray data 0 (FIXED_HEADER_LENGTH + keyLen))\<rparr>)"

definition kms_parse_legacy :: "engine_limits option \<Rightarrow> buffer \<Rightarrow> px_error + kms_envelope" where
  "kms_parse_legacy limits data =
     (if length data < 4 then Inl (kms_decryption ''Packet too short'')
      else
        let keyLen = read_be 4 data 0 in
        if keyLen < 1 \<or> keyLen > maxKmsEncryptedKeyBytes (context_limits limits)
          \<or> length data < 4 + keyLen + IV_LENGTH + TAG_LENGTH
        then Inl (kms_decryption ''invalid key envelope'')
        else Inr \<lparr>ke_encryptedKey = subarray data 4 (4 + keyLen),
                  ke_iv = subarray data (4 + keyLen) (4 + keyLen + IV_LENGTH),
                  ke_tag = subarray data (4 + keyLen + IV_LENGTH) (4 + keyLen + IV_LENGTH + TAG_LENGTH),
                  ke_ciphertext = drop (4 + keyLen + IV_LENGTH + TAG_LENGTH) data,
                  ke_authenticatedHeader = None\<rparr>)"

definition kms_framed :: "buffer \<Rightarrow> bool" where
  "kms_framed data \<longleftrightarrow> length KMS_MAGIC \<le> length data \<and> subarray data 0 (length KMS_MAGIC) = KMS_MAGIC"

text \<open>Everything \<open>reverse\<close> does before it calls the provider.\<close>

definition kms_parse :: "kms_options \<Rightarrow> engine_limits option \<Rightarrow> buffer \<Rightarrow> px_error + kms_envelope" where
  "kms_parse options limits data =
     rbind (assertKmsOperation (Some (svc_provider (ko_kms options))) KmsDecrypt) (\<lambda>_.
       let maxIn = pluginInputLimit limits; framed = kms_framed data; maxOut = pluginOutputLimit limits in
       if byteLength (ko_keyId options) > maxKmsKeyIdBytes (context_limits limits)
       then Inl (JsError ''[PipeX] KMS key identifier exceeds the configured limit'')
       else if length data > maxIn
       then Inl (JsError (''[PipeX] KMS decryption input exceeds '' @ nat_digits maxIn @ '' bytes''))
       else if length data = 0 then Inl (kms_decryption ''Packet too short'')
       else if \<not> framed \<and> read_be 1 data 0 = read_be 1 KMS_MAGIC 0
       then Inl (kms_decryption ''incomplete framed header'')
       else if \<not> framed \<and> ko_allowLegacyDecrypt options \<noteq> Some True
       then Inl (kms_decryption ''legacy format disabled'')
       else rbind (if framed then kms_parse_framed limits data else kms_parse_legacy limits data) (\<lambda>e.
         if length (ke_ciphertext e) > maxOut then Inl (kms_decryption_exceeds maxOut) else Inr e))"

text \<open>The part of \<open>reverse\<close> after the provider has answered.\<close>

definition kms_open :: "node_crypto \<Rightarrow> kms_envelope \<Rightarrow> buffer option \<Rightarrow> px_error + buffer" where
  "kms_open c e key =
     (case key of None \<Rightarrow> Inl (kms_decryption ''invalid data key length'')
      | Some plaintext \<Rightarrow>
          if length plaintext \<noteq> 32 then Inl (kms_decryption ''invalid data key length'')
          else (case aead_open c Aes256Gcm plaintext (ke_iv e)
                       (case ke_authenticatedHeader e of Some h \<Rightarrow> h | None \<Rightarrow> []) (ke_ciphertext e) (ke_tag e) of
                  Some data \<Rightarrow> Inr data | None \<Rightarrow> Inl KmsAuthenticationError))"

definition kms_reverse ::
  "node_crypto \<Rightarrow> kms_options \<Rightarrow> buffer \<Rightarrow> processor_context \<Rightarrow> time \<Rightarrow> buffer kms_outcome" where
  "kms_reverse c options data ctx now =
     (case kms_parse options (ctx_limits ctx) data of Inl e \<Rightarrow> kms_failed now e
      | Inr e \<Rightarrow>
          (case callProvider (svc_provider (ko_kms options)) KmsDecrypt ctx
                  (svc_decrypt (ko_kms options) (ke_encryptedKey e) (ko_keyId options)) now of
             (Pending, late) \<Rightarrow> \<lparr>kms_result = Pending, kms_key_left = None\<rparr>
           | (Settles t (Inl err), late) \<Rightarrow>
               \<lparr>kms_result = Settles t (Inl err),
                kms_key_left = (case late of None \<Rightarrow> None | Some key \<Rightarrow> wipe_key key)\<rparr>
           | (Settles t (Inr key), late) \<Rightarrow>
               \<lparr>kms_result = Settles t (kms_open c e key), kms_key_left = wipe_key key\<rparr>))"

section \<open>The plugin\<close>

text \<open>The options as a caller may pass them; a provider that is no object is \<open>None\<close>.\<close>

record raw_kms_options =
  rk_kms :: "kms_service option"
  rk_keyId :: "string option"
  rk_allowLegacy :: js_flag

definition new_KmsEncryptionPlugin :: "raw_kms_options option \<Rightarrow> px_error + kms_options" where
  "new_KmsEncryptionPlugin options =
     (let invalid = JsError ''[PipeX] KMS Encryption: invalid provider or keyId'' in
      case options of None \<Rightarrow> Inl invalid
      | Some raw \<Rightarrow>
          (case (rk_kms raw, rk_keyId raw) of
             (Some kms, Some keyId) \<Rightarrow>
               if length keyId = 0 then Inl invalid
               else if rk_allowLegacy raw = FOther
               then Inl (JsError ''[PipeX] KMS Encryption allowLegacyDecrypt must be a boolean'')
               else rbind (getKmsProviderCapabilities (Some (svc_provider kms))) (\<lambda>_.
                 rbind (assertKmsOperation (Some (svc_provider kms)) KmsGenerateDataKey) (\<lambda>_.
                   Inr \<lparr>ko_kms = kms, ko_keyId = keyId,
                        ko_allowLegacyDecrypt = (case rk_allowLegacy raw of FBool b \<Rightarrow> Some b | _ \<Rightarrow> None)\<rparr>))
           | _ \<Rightarrow> Inl invalid))"

definition kms_call ::
  "nat \<Rightarrow> (nat \<Rightarrow> time \<Rightarrow> buffer \<Rightarrow> processor_context \<Rightarrow> buffer kms_outcome) \<Rightarrow> plugin_call" where
  "kms_call fresh f ctx data i now =
     (case kms_result (f i now (bytes_of data) ctx) of
        Pending \<Rightarrow> Pending
      | Settles t r \<Rightarrow> Settles t (map_sum id (\<lambda>b. Some (fresh, b)) r))"

text \<open>The getter \<open>reversible\<close> of a plugin that was constructed.\<close>

definition kms_reversible :: "kms_options \<Rightarrow> bool" where
  "kms_reversible options =
     (case getKmsProviderCapabilities (Some (svc_provider (ko_kms options))) of
        Inr cs \<Rightarrow> map_of cs KmsDecrypt = Some True | Inl e \<Rightarrow> False)"

definition kms_plugin :: "node_crypto \<Rightarrow> (nat \<Rightarrow> time \<Rightarrow> buffer) \<Rightarrow> nat \<Rightarrow> kms_options \<Rightarrow> plugin" where
  "kms_plugin c iv fresh options =
     \<lparr>plugin_name = ''kms-encryption'', plugin_version = ''2.1.0'',
      plugin_reversible = FBool (kms_reversible options), plugin_streaming = FBool False,
      plugin_process = kms_call fresh (\<lambda>i now data ctx. kms_process c (iv i now) options data ctx now),
      plugin_reverse = OwnReverse (kms_call fresh (\<lambda>i now data ctx. kms_reverse c options data ctx now)),
      plugin_createStream = False, plugin_retryOptions = None\<rparr>"

section \<open>The format\<close>

text \<open>The format as a specification: the header, and a whole envelope.\<close>

definition kms_header :: "nat \<Rightarrow> nat \<Rightarrow> buffer \<Rightarrow> buffer" where
  "kms_header keyLen dataLen iv =
     KMS_MAGIC @ be_bytes 1 FORMAT_VERSION @ be_bytes 1 ALGORITHM_AES_256_GCM @ be_bytes 2 0
       @ be_bytes 4 keyLen @ be_bytes 4 dataLen @ iv"

definition kms_message :: "node_crypto \<Rightarrow> buffer \<Rightarrow> buffer \<Rightarrow> buffer \<Rightarrow> buffer \<Rightarrow> buffer" where
  "kms_message c key iv encryptedKey data =
     (let authenticated = kms_header (length encryptedKey) (length data) iv @ encryptedKey;
          (encrypted, tag) = aead_seal c Aes256Gcm key iv authenticated data
      in authenticated @ encrypted @ tag)"

lemma length_KMS_MAGIC: "length KMS_MAGIC = 4"
  by (simp add: KMS_MAGIC_def)

lemma length_kms_header: "length (kms_header kl dl iv) = 16 + length iv"
  by (simp add: kms_header_def length_KMS_MAGIC)

lemma kms_header_reads:
  assumes "kl < 2 ^ 32" "dl < 2 ^ 32"
  shows "read_be 1 (kms_header kl dl iv @ rest) 4 = 1" "read_be 1 (kms_header kl dl iv @ rest) 5 = 1"
    "read_be 2 (kms_header kl dl iv @ rest) 6 = 0" "read_be 4 (kms_header kl dl iv @ rest) 8 = kl"
    "read_be 4 (kms_header kl dl iv @ rest) 12 = dl" "kms_framed (kms_header kl dl iv @ rest)"
proof -
  have four: "(256 :: nat) ^ 4 = 2 ^ 32" by simp
  let ?m = KMS_MAGIC and ?v = "be_bytes 1 FORMAT_VERSION" and ?a = "be_bytes 1 ALGORITHM_AES_256_GCM"
    and ?f = "be_bytes 2 0" and ?k = "be_bytes 4 kl" and ?d = "be_bytes 4 dl"
  show "read_be 1 (kms_header kl dl iv @ rest) 4 = 1"
    using read_be_slice[of ?m 4 ?v 1 "?a @ ?f @ ?k @ ?d @ iv @ rest"]
    by (simp add: kms_header_def length_KMS_MAGIC FORMAT_VERSION_def)
  show "read_be 1 (kms_header kl dl iv @ rest) 5 = 1"
    using read_be_slice[of "?m @ ?v" 5 ?a 1 "?f @ ?k @ ?d @ iv @ rest"]
    by (simp add: kms_header_def length_KMS_MAGIC ALGORITHM_AES_256_GCM_def)
  show "read_be 2 (kms_header kl dl iv @ rest) 6 = 0"
    using read_be_slice[of "?m @ ?v @ ?a" 6 ?f 2 "?k @ ?d @ iv @ rest"]
    by (simp add: kms_header_def length_KMS_MAGIC)
  show "read_be 4 (kms_header kl dl iv @ rest) 8 = kl"
    using read_be_slice[of "?m @ ?v @ ?a @ ?f" 8 ?k 4 "?d @ iv @ rest"] assms(1)
    by (simp add: kms_header_def length_KMS_MAGIC four)
  show "read_be 4 (kms_header kl dl iv @ rest) 12 = dl"
    using read_be_slice[of "?m @ ?v @ ?a @ ?f @ ?k" 12 ?d 4 "iv @ rest"] assms(2)
    by (simp add: kms_header_def length_KMS_MAGIC four)
  show "kms_framed (kms_header kl dl iv @ rest)"
    by (simp add: kms_framed_def kms_header_def length_KMS_MAGIC subarray_def)
qed

lemma buildKmsHeader_layout:
  assumes "length iv = 12"
  shows "buildKmsHeader kl dl iv = kms_header kl dl iv"
proof -
  let ?v = "be_bytes 1 FORMAT_VERSION" and ?a = "be_bytes 1 ALGORITHM_AES_256_GCM" and ?f = "be_bytes 2 0"
    and ?k = "be_bytes 4 kl" and ?d = "be_bytes 4 dl"
  have "buf_copy ([] @ replicate 28 0) 0 KMS_MAGIC = ([] @ KMS_MAGIC) @ replicate 24 0"
    by (rule buf_copy_field) (simp_all add: length_KMS_MAGIC)
  moreover have "buf_copy (KMS_MAGIC @ replicate 24 0) 4 ?v = (KMS_MAGIC @ ?v) @ replicate 23 0"
    by (rule buf_copy_field) (simp_all add: length_KMS_MAGIC)
  moreover have "buf_copy ((KMS_MAGIC @ ?v) @ replicate 23 0) 5 ?a = ((KMS_MAGIC @ ?v) @ ?a) @ replicate 22 0"
    by (rule buf_copy_field) (simp_all add: length_KMS_MAGIC)
  moreover have "buf_copy (((KMS_MAGIC @ ?v) @ ?a) @ replicate 22 0) 6 ?f
      = (((KMS_MAGIC @ ?v) @ ?a) @ ?f) @ replicate 20 0"
    by (rule buf_copy_field) (simp_all add: length_KMS_MAGIC)
  moreover have "buf_copy ((((KMS_MAGIC @ ?v) @ ?a) @ ?f) @ replicate 20 0) 8 ?k
      = ((((KMS_MAGIC @ ?v) @ ?a) @ ?f) @ ?k) @ replicate 16 0"
    by (rule buf_copy_field) (simp_all add: length_KMS_MAGIC)
  moreover have "buf_copy (((((KMS_MAGIC @ ?v) @ ?a) @ ?f) @ ?k) @ replicate 16 0) 12 ?d
      = (((((KMS_MAGIC @ ?v) @ ?a) @ ?f) @ ?k) @ ?d) @ replicate 12 0"
    by (rule buf_copy_field) (simp_all add: length_KMS_MAGIC)
  moreover have "buf_copy ((((((KMS_MAGIC @ ?v) @ ?a) @ ?f) @ ?k) @ ?d) @ replicate 12 0) 16 iv
      = ((((((KMS_MAGIC @ ?v) @ ?a) @ ?f) @ ?k) @ ?d) @ iv) @ replicate 0 0"
    by (rule buf_copy_field) (simp_all add: length_KMS_MAGIC assms)
  moreover have "FIXED_HEADER_LENGTH = 28" by (simp add: kms_constants)
  ultimately show ?thesis
    unfolding buildKmsHeader_def kms_header_def Let_def
    by (simp del: be_bytes.simps replicate.simps)
qed

lemma kms_seal_Inr:
  assumes "length iv = 12"
  shows "kms_seal c iv limits data key = Inr message \<longleftrightarrow>
    (\<exists>plaintext ek. key = \<lparr>dk_plaintext = Some plaintext, dk_ciphertext = Some ek\<rparr> \<and> length plaintext = 32
       \<and> ek \<noteq> [] \<and> length ek \<le> maxKmsEncryptedKeyBytes (context_limits limits) \<and> length ek < 2 ^ 32
       \<and> length data + length ek + 44 \<le> pluginOutputLimit limits
       \<and> message = kms_message c plaintext iv ek data)"
proof -
  obtain dp dc where key: "key = \<lparr>dk_plaintext = dp, dk_ciphertext = dc\<rparr>" by (cases key)
  have room: "int (length data) > int m - int (FIXED_HEADER_LENGTH + length ek + TAG_LENGTH)
      \<longleftrightarrow> \<not> length data + length ek + 44 \<le> m" for m and ek :: buffer
    by (auto simp: kms_constants)
  show ?thesis
  proof (cases "\<exists>plaintext ek. dp = Some plaintext \<and> dc = Some ek")
    case True
    then obtain plaintext ek where "dp = Some plaintext" "dc = Some ek" by blast
    then show ?thesis
      unfolding key kms_seal_def kms_message_def Let_def room
      by (auto simp: buildKmsHeader_layout[OF assms] split: prod.split if_splits)
  qed (auto simp: key kms_seal_def Let_def split: option.splits if_splits)
qed

lemma kms_parse_framed_message:
  assumes "length iv = 12" "ek \<noteq> []" "length ek \<le> maxKmsEncryptedKeyBytes (context_limits limits)"
    and "length ek < 2 ^ 32" "length x < 2 ^ 32" "length x \<le> pluginOutputLimit limits" "length t = 16"
  shows "kms_parse_framed limits (kms_header (length ek) (length x) iv @ ek @ x @ t) =
    Inr \<lparr>ke_encryptedKey = ek, ke_iv = iv, ke_tag = t, ke_ciphertext = x,
         ke_authenticatedHeader = Some (kms_header (length ek) (length x) iv @ ek)\<rparr>"
proof -
  let ?h = "kms_header (length ek) (length x) iv"
  have h: "length ?h = 28" using assms(1) by (simp add: length_kms_header)
  have iv: "drop 16 ?h = iv" by (simp add: kms_header_def length_KMS_MAGIC)
  have cut: "subarray (?h @ ek @ x @ t) 28 (28 + length ek) = ek" "subarray (?h @ ek @ x @ t) 16 28 = iv"
    "subarray (?h @ ek @ x @ t) (28 + length ek) (28 + (length ek + length x)) = x"
    "subarray (?h @ ek @ x @ t) 0 (28 + length ek) = ?h @ ek"
    using h iv assms(1) by (simp_all add: subarray_def)
  show ?thesis
    using assms h cut kms_header_reads[OF assms(4,5), of iv "ek @ x @ t"]
    by (simp add: kms_parse_framed_def kms_constants Let_def)
qed

lemma kms_header_read:
  assumes "length h = 28" "subarray h 0 4 = KMS_MAGIC" "read_be 1 h 4 = 1" "read_be 1 h 5 = 1" "read_be 2 h 6 = 0"
  shows "h = kms_header (read_be 4 h 8) (read_be 4 h 12) (drop 16 h)"
proof -
  have slice: "be_bytes n (read_be n h i) = subarray h i (i + n)" if "i + n \<le> 28" for i n
    unfolding read_be_def using that assms(1) by (intro be_bytes_be_val) (simp add: buffer_simps)
  have "h = subarray h 0 4 @ subarray h 4 5 @ subarray h 5 6 @ subarray h 6 8 @ subarray h 8 12
      @ subarray h 12 16 @ drop 16 h"
    by (simp add: subarray_split_at)
  then show ?thesis
    using slice[of 4 1] slice[of 5 1] slice[of 6 2] slice[of 8 4] slice[of 12 4] assms
    by (simp add: kms_header_def FORMAT_VERSION_def ALGORITHM_AES_256_GCM_def del: be_bytes.simps)
qed

lemma cut_in_four: "xs = take a xs @ take b (drop a xs) @ take c (drop (a + b) xs) @ drop (a + b + c) xs"
proof -
  have "drop (a + b) xs = drop b (drop a xs)" "drop (a + b + c) xs = drop c (drop b (drop a xs))"
    by (simp_all add: add.commute add.left_commute)
  then show ?thesis by (simp only: append_take_drop_id)
qed

lemma kms_parse_framed_only:
  assumes "kms_framed data" "kms_parse_framed limits data = Inr e"
  obtains iv ek x t where "length iv = 12" "ek \<noteq> []" "length ek \<le> maxKmsEncryptedKeyBytes (context_limits limits)"
    "length ek < 2 ^ 32" "length x < 2 ^ 32" "length x \<le> pluginOutputLimit limits" "length t = 16"
    "data = kms_header (length ek) (length x) iv @ ek @ x @ t"
proof -
  let ?kl = "read_be 4 data 8" and ?dl = "read_be 4 data 12" and ?h = "take 28 data"
  have len: "45 \<le> length data" and v: "read_be 1 data 4 = 1" "read_be 1 data 5 = 1" "read_be 2 data 6 = 0"
    and kl: "1 \<le> ?kl" "?kl \<le> maxKmsEncryptedKeyBytes (context_limits limits)"
    and total: "28 + ?kl + ?dl + 16 = length data" and dl: "?dl \<le> pluginOutputLimit limits"
    using assms(2) by (auto simp: kms_parse_framed_def kms_constants Let_def split: if_splits)
  have bound: "?kl < 2 ^ 32" "?dl < 2 ^ 32" using read_be_less[of 4 data] by simp_all
  have reads: "read_be n ?h i = read_be n data i" if "i + n \<le> 28" for n i
    using that by (simp add: read_be_def subarray_def take_drop min_def)
  have "subarray ?h 0 4 = KMS_MAGIC"
    using assms(1) by (simp add: kms_framed_def length_KMS_MAGIC subarray_def min_def)
  then have h: "?h = kms_header ?kl ?dl (drop 16 ?h)"
    using kms_header_read[of ?h] len v by (simp add: reads)
  let ?ek = "take ?kl (drop 28 data)" and ?x = "take ?dl (drop (28 + ?kl) data)"
    and ?t = "drop (28 + ?kl + ?dl) data"
  have lens: "length ?ek = ?kl" "length ?x = ?dl" "length ?t = 16" "length (drop 16 ?h) = 12"
    using total len by simp_all
  have "data = ?h @ ?ek @ ?x @ ?t"
    by (rule cut_in_four)
  then have whole: "data = kms_header (length ?ek) (length ?x) (drop 16 ?h) @ ?ek @ ?x @ ?t"
    unfolding lens(1,2) using h by metis
  have ek: "?ek \<noteq> []" using kl(1) lens(1) by (intro notI) simp
  show thesis
  proof (rule that[of "drop 16 ?h" ?ek ?x ?t])
    show "length (drop 16 ?h) = 12" "?ek \<noteq> []" "length ?t = 16"
      "data = kms_header (length ?ek) (length ?x) (drop 16 ?h) @ ?ek @ ?x @ ?t"
      by (fact lens(4) ek lens(3) whole)+
  qed (simp_all only: lens(1,2) kl(2) dl bound)
qed

section \<open>Calls of the provider\<close>

text \<open>The errors a call may end with once its configuration has been checked.\<close>

definition provider_errors :: "kms_operation \<Rightarrow> px_error set" where
  "provider_errors operation = {OperationAbortedError, OperationTimeoutError, KmsProviderError operation,
     KmsProviderAuthenticationError operation, KmsProviderUnavailableError operation}"

lemma kms_abortError_errors: "kms_abortError reason \<in> provider_errors operation"
  by (cases reason) (simp_all add: provider_errors_def)

lemma sanitizeProviderError_errors: "sanitizeProviderError operation err \<in> provider_errors operation"
  by (cases err) (simp_all add: sanitizeProviderError_def provider_errors_def)

lemma provider_failure_errors: "provider_failure operation signal t err \<in> provider_errors operation"
  using kms_abortError_errors sanitizeProviderError_errors
  by (simp add: provider_failure_def split: option.split)

text \<open>What a call amounts to when the operation is supported, the timeout valid and nothing aborted yet.\<close>

definition provider_called :: "kms_provider \<Rightarrow> kms_operation \<Rightarrow> processor_context \<Rightarrow> time \<Rightarrow> plain_signal \<Rightarrow> bool" where
  "provider_called provider operation ctx now signal \<longleftrightarrow> assertKmsOperation (Some provider) operation = Inr ()
     \<and> providerControl ctx now = Inr signal \<and> signal_aborted signal now = None"

lemma callProvider_called:
  assumes "provider_called provider operation ctx now signal"
  shows "callProvider provider operation ctx invoke now =
    (case abortable (invoke signal now) signal now of
       (Settles t (Inl err), late) \<Rightarrow> (Settles t (Inl (provider_failure operation signal t err)), late)
     | r \<Rightarrow> r)"
  using assms by (simp add: provider_called_def callProvider_def)

lemma called_before_abort:
  "provider_called provider operation ctx now signal \<Longrightarrow> signal = Some (ta, reason) \<Longrightarrow> now < ta"
  by (auto simp: provider_called_def signal_aborted_def split: if_splits)

lemma callProvider_uncalled:
  assumes "\<And>signal. \<not> provider_called provider operation ctx now signal"
  shows "\<exists>e. callProvider provider operation ctx invoke now = (Settles now (Inl e), None)"
proof (cases "assertKmsOperation (Some provider) operation")
  case (Inr u)
  show ?thesis
  proof (cases "providerControl ctx now")
    case (Inr signal)
    then have "signal_aborted signal now \<noteq> None"
      using assms[of signal] \<open>assertKmsOperation (Some provider) operation = Inr u\<close>
      by (simp add: provider_called_def)
    then show ?thesis
      using Inr \<open>assertKmsOperation (Some provider) operation = Inr u\<close> by (auto simp: callProvider_def)
  qed (simp add: callProvider_def Inr)
qed (simp add: callProvider_def)

text \<open>Whatever value the provider's promise resolves with is delivered or disposed of.\<close>

lemma callProvider_accounts:
  assumes "provider_called provider operation ctx now signal" "invoke signal now = Settles ts (Inr v)"
  shows "(\<exists>t. callProvider provider operation ctx invoke now = (Settles t (Inr v), None))
    \<or> (\<exists>t e. callProvider provider operation ctx invoke now = (Settles t (Inl e), Some v))"
proof (cases signal)
  case None
  then show ?thesis using assms(2) by (simp add: callProvider_called[OF assms(1)] abortable_def)
next
  case (Some a)
  obtain ta reason where a: "a = (ta, reason)" by (cases a)
  then have "now < ta" using Some called_before_abort[OF assms(1)] by simp
  then show ?thesis
    using assms(2) Some a by (cases "ts < ta") (simp_all add: callProvider_called[OF assms(1)] abortable_def)
qed

lemma provider_deadline:
  assumes "provider_called provider operation ctx now signal" "0 < operationTimeoutMs (context_limits (ctx_limits ctx))"
  shows "\<exists>ta reason. signal = Some (ta, reason) \<and> now < ta
    \<and> ta \<le> now + operationTimeoutMs (context_limits (ctx_limits ctx))"
  using assms
  by (auto simp: provider_called_def providerControl_def Let_def abort_any_def signal_aborted_def
      split: if_splits option.splits)

lemma callProvider_bounded:
  assumes "provider_called provider operation ctx now signal" "signal = Some (ta, reason)" "now < ta"
  shows "\<exists>t r. fst (callProvider provider operation ctx invoke now) = Settles t r \<and> t \<le> ta
    \<and> (case r of Inl e \<Rightarrow> e \<in> provider_errors operation
       | Inr v \<Rightarrow> t < ta \<and> invoke signal now = Settles t (Inr v))"
proof (cases "invoke signal now")
  case Pending
  then show ?thesis using assms
    by (simp add: callProvider_called abortable_def provider_failure_errors)
next
  case (Settles ts r)
  then show ?thesis using assms
    by (cases r) (auto simp: callProvider_called abortable_def provider_failure_errors Let_def)
qed

text \<open>A promise that settles before the abort is passed on.\<close>

lemma callProvider_in_time:
  assumes "provider_called provider operation ctx now signal" "invoke signal now = Settles t (Inr v)"
    and "\<And>ta reason. signal = Some (ta, reason) \<Longrightarrow> t < ta"
  shows "callProvider provider operation ctx invoke now = (Settles t (Inr v), None)"
  unfolding callProvider_called[OF assms(1)] using assms(2,3) called_before_abort[OF assms(1)]
  by (cases signal) (force simp: abortable_def)+

lemma callProvider_success:
  assumes "callProvider provider operation ctx invoke now = (Settles t (Inr v), late)"
  obtains signal where "provider_called provider operation ctx now signal" "invoke signal now = Settles t (Inr v)"
proof -
  obtain signal where called: "provider_called provider operation ctx now signal"
    using callProvider_uncalled[of provider operation ctx now invoke] assms by force
  have "invoke signal now = Settles t (Inr v)"
  proof (cases signal)
    case None
    then show ?thesis using assms
      by (auto simp: callProvider_called[OF called] abortable_def split: settlement.splits sum.splits)
  next
    case (Some a)
    obtain ta reason where a: "a = (ta, reason)" by (cases a)
    then have "now < ta" using Some called_before_abort[OF called] by simp
    then show ?thesis
      using assms Some a by (auto simp: callProvider_called[OF called] abortable_def Let_def
          split: settlement.splits sum.splits if_splits)
  qed
  with called show thesis by (rule that)
qed

section \<open>Whole operations\<close>

lemma kms_process_called:
  assumes "kms_admit options (ctx_limits ctx) data = Inr ()"
  shows "kms_process c iv options data ctx now =
    (case callProvider (svc_provider (ko_kms options)) KmsGenerateDataKey ctx
        (svc_generateDataKey (ko_kms options) (ko_keyId options)) now of
       (Pending, late) \<Rightarrow> \<lparr>kms_result = Pending, kms_key_left = None\<rparr>
     | (Settles t (Inl e), late) \<Rightarrow>
         \<lparr>kms_result = Settles t (Inl e),
          kms_key_left = (case late of None \<Rightarrow> None | Some key \<Rightarrow> wipe_key (dk_plaintext key))\<rparr>
     | (Settles t (Inr key), late) \<Rightarrow>
         \<lparr>kms_result = Settles t (kms_seal c iv (ctx_limits ctx) data key),
          kms_key_left = wipe_key (dk_plaintext key)\<rparr>)"
  using assms by (simp add: kms_process_def Let_def)

lemma kms_process_success:
  assumes "kms_result (kms_process c iv options data ctx now) = Settles t (Inr message)"
  obtains signal key where "kms_admit options (ctx_limits ctx) data = Inr ()"
    "provider_called (svc_provider (ko_kms options)) KmsGenerateDataKey ctx now signal"
    "svc_generateDataKey (ko_kms options) (ko_keyId options) signal now = Settles t (Inr key)"
    "kms_seal c iv (ctx_limits ctx) data key = Inr message"
proof -
  let ?provider = "svc_provider (ko_kms options)"
    and ?invoke = "svc_generateDataKey (ko_kms options) (ko_keyId options)"
  have admit: "kms_admit options (ctx_limits ctx) data = Inr ()"
    using assms by (cases "kms_admit options (ctx_limits ctx) data") (auto simp: kms_process_def kms_failed_def)
  from assms obtain key late where call: "callProvider ?provider KmsGenerateDataKey ctx ?invoke now
      = (Settles t (Inr key), late)" and seal: "kms_seal c iv (ctx_limits ctx) data key = Inr message"
    unfolding kms_process_called[OF admit]
    by (auto split: prod.splits settlement.splits sum.splits)
  obtain signal where "provider_called ?provider KmsGenerateDataKey ctx now signal"
    "?invoke signal now = Settles t (Inr key)"
    by (rule callProvider_success[OF call])
  then show thesis using that admit seal by blast
qed

end
