(* ===== verification/Kms_Safety.thy ===== *)
theory Kms_Safety
  imports Kms_Encryption Encryption_Buffer
begin

text \<open>
  What envelope encryption guarantees (\<open>src/plugin/kms_encryption.ts\<close>): which envelopes are opened and
  to what, how long a provider is waited for and what is seen of its errors, and that the plaintext
  data key is wiped on every path.
\<close>

section \<open>What a call delivers\<close>

text \<open>The provider is called at \<open>now\<close> and answers \<open>v\<close> at \<open>t\<close>, before the call is cut off.\<close>

definition provider_delivers ::
  "kms_provider \<Rightarrow> kms_operation \<Rightarrow> processor_context \<Rightarrow> (plain_signal \<Rightarrow> time \<Rightarrow> 'a settlement) \<Rightarrow> time
     \<Rightarrow> time \<Rightarrow> 'a \<Rightarrow> bool" where
  "provider_delivers provider operation ctx invoke now t v \<longleftrightarrow>
     (\<exists>signal. provider_called provider operation ctx now signal \<and> invoke signal now = Settles t (Inr v)
        \<and> (\<forall>ta reason. signal = Some (ta, reason) \<longrightarrow> t < ta))"

lemma callProvider_delivers:
  "fst (callProvider provider operation ctx invoke now) = Settles t (Inr v)
     \<longleftrightarrow> provider_delivers provider operation ctx invoke now t v"
proof
  assume fst: "fst (callProvider provider operation ctx invoke now) = Settles t (Inr v)"
  then obtain late where "callProvider provider operation ctx invoke now = (Settles t (Inr v), late)"
    by (metis prod.collapse)
  then obtain signal where called: "provider_called provider operation ctx now signal"
    "invoke signal now = Settles t (Inr v)"
    by (rule callProvider_success)
  have "t < ta" if "signal = Some (ta, reason)" for ta reason
    using callProvider_bounded[OF called(1) that called_before_abort[OF called(1) that], of invoke] fst by auto
  with called show "provider_delivers provider operation ctx invoke now t v"
    unfolding provider_delivers_def by blast
next
  assume "provider_delivers provider operation ctx invoke now t v"
  then show "fst (callProvider provider operation ctx invoke now) = Settles t (Inr v)"
    unfolding provider_delivers_def using callProvider_in_time by (metis fst_conv)
qed

text \<open>With a timeout every call ends by it.\<close>

lemma callProvider_settles:
  assumes "0 < operationTimeoutMs (context_limits (ctx_limits ctx))"
  shows "\<exists>t r. fst (callProvider provider operation ctx invoke now) = Settles t r
    \<and> t \<le> now + operationTimeoutMs (context_limits (ctx_limits ctx))"
proof (cases "\<exists>signal. provider_called provider operation ctx now signal")
  case True
  then obtain signal where called: "provider_called provider operation ctx now signal" by blast
  obtain ta reason where ta: "signal = Some (ta, reason)" "now < ta"
    "ta \<le> now + operationTimeoutMs (context_limits (ctx_limits ctx))"
    using provider_deadline[OF called assms] by blast
  show ?thesis
    using callProvider_bounded[OF called ta(1,2), of invoke] ta(3) by (metis order.trans)
next
  case False
  then show ?thesis using callProvider_uncalled[of provider operation ctx now invoke] by force
qed

section \<open>Opening an envelope\<close>

text \<open>The limits that a framed envelope has to respect.\<close>

definition envelope_fits :: "kms_options \<Rightarrow> engine_limits option \<Rightarrow> buffer \<Rightarrow> buffer \<Rightarrow> bool" where
  "envelope_fits options limits encryptedKey data \<longleftrightarrow>
     byteLength (ko_keyId options) \<le> maxKmsKeyIdBytes (context_limits limits)
     \<and> encryptedKey \<noteq> [] \<and> length encryptedKey \<le> maxKmsEncryptedKeyBytes (context_limits limits)
     \<and> length encryptedKey < 2 ^ 32 \<and> length data < 2 ^ 32
     \<and> length encryptedKey + length data + 44 \<le> pluginInputLimit limits
     \<and> length data \<le> pluginOutputLimit limits"

lemma length_kms_message:
  assumes "aead_ok c" "length iv = 12"
  shows "length (kms_message c key iv ek p) = length ek + length p + 44"
  using assms aead_seal_lengths[OF assms(1)]
  by (auto simp: kms_message_def Let_def length_kms_header TAG_LENGTH_def split: prod.split)

lemma kms_reverse_Inr:
  "kms_result (kms_reverse c options data ctx now) = Settles t (Inr p) \<longleftrightarrow>
     (\<exists>e key. kms_parse options (ctx_limits ctx) data = Inr e
       \<and> provider_delivers (svc_provider (ko_kms options)) KmsDecrypt ctx
            (svc_decrypt (ko_kms options) (ke_encryptedKey e) (ko_keyId options)) now t key
       \<and> kms_open c e key = Inr p)"
proof (cases "kms_parse options (ctx_limits ctx) data")
  case (Inl err)
  then show ?thesis by (simp add: kms_reverse_def kms_failed_def)
next
  case (Inr e)
  show ?thesis
    unfolding callProvider_delivers[symmetric] kms_reverse_def Inr
    by (auto split: prod.split settlement.split sum.split)
qed

lemma kms_open_Inr:
  assumes "aead_ok c"
  shows "kms_open c e key = Inr p \<longleftrightarrow> (\<exists>plaintext. key = Some plaintext \<and> length plaintext = 32
    \<and> aead_seal c Aes256Gcm plaintext (ke_iv e)
        (case ke_authenticatedHeader e of Some h \<Rightarrow> h | None \<Rightarrow> []) p = (ke_ciphertext e, ke_tag e))"
  by (auto simp: kms_open_def aead_open_iff[OF assms, symmetric] split: option.split)

lemma kms_parse_message:
  assumes "aead_ok c" "length iv = 12" "envelope_fits options limits ek p"
    and "assertKmsOperation (Some (svc_provider (ko_kms options))) KmsDecrypt = Inr ()"
    and "aead_seal c Aes256Gcm key iv (kms_header (length ek) (length p) iv @ ek) p = (x, t)"
  shows "kms_parse options limits (kms_message c key iv ek p) =
    Inr \<lparr>ke_encryptedKey = ek, ke_iv = iv, ke_tag = t, ke_ciphertext = x,
         ke_authenticatedHeader = Some (kms_header (length ek) (length p) iv @ ek)\<rparr>"
proof -
  note lens = aead_seal_lengths[OF assms(1,5)]
  have message: "kms_message c key iv ek p = kms_header (length ek) (length x) iv @ ek @ x @ t"
    using assms(5) lens by (simp add: kms_message_def Let_def)
  have fits: "byteLength (ko_keyId options) \<le> maxKmsKeyIdBytes (context_limits limits)" "ek \<noteq> []"
    "length ek \<le> maxKmsEncryptedKeyBytes (context_limits limits)" "length ek < 2 ^ 32" "length x < 2 ^ 32"
    "length ek + length p + 44 \<le> pluginInputLimit limits" "length x \<le> pluginOutputLimit limits"
    using assms(3) lens unfolding envelope_fits_def by simp_all
  have tag: "length t = 16" using lens by (simp add: TAG_LENGTH_def)
  have parsed: "kms_parse_framed limits (kms_message c key iv ek p) =
    Inr \<lparr>ke_encryptedKey = ek, ke_iv = iv, ke_tag = t, ke_ciphertext = x,
         ke_authenticatedHeader = Some (kms_header (length ek) (length p) iv @ ek)\<rparr>"
    using kms_parse_framed_message[OF assms(2) fits(2-5,7) tag] lens unfolding message by simp
  have "kms_framed (kms_message c key iv ek p)" unfolding message by (rule kms_header_reads(6)[OF fits(4,5)])
  then show ?thesis
    using parsed fits length_kms_message[OF assms(1,2), of key ek p] lens
    by (simp add: kms_parse_def assms(4) Let_def)
qed

lemma kms_parse_framed_envelope:
  assumes "kms_framed data" "kms_parse options limits data = Inr e"
  obtains ek x t iv where "length iv = 12" "length t = 16" "data = kms_header (length ek) (length x) iv @ ek @ x @ t"
    "envelope_fits options limits ek x"
    "e = \<lparr>ke_encryptedKey = ek, ke_iv = iv, ke_tag = t, ke_ciphertext = x,
         ke_authenticatedHeader = Some (kms_header (length ek) (length x) iv @ ek)\<rparr>"
proof -
  have parsed: "kms_parse_framed limits data = Inr e"
    and fits: "byteLength (ko_keyId options) \<le> maxKmsKeyIdBytes (context_limits limits)"
      "length data \<le> pluginInputLimit limits"
    using assms by (auto simp: kms_parse_def rbind_eq_Inr Let_def split: if_splits)
  from kms_parse_framed_only[OF assms(1) parsed]
  obtain iv ek x t where cut: "length iv = 12" "ek \<noteq> []" "length ek \<le> maxKmsEncryptedKeyBytes (context_limits limits)"
    "length ek < 2 ^ 32" "length x < 2 ^ 32" "length x \<le> pluginOutputLimit limits" "length t = 16"
    "data = kms_header (length ek) (length x) iv @ ek @ x @ t" .
  have "e = \<lparr>ke_encryptedKey = ek, ke_iv = iv, ke_tag = t, ke_ciphertext = x,
         ke_authenticatedHeader = Some (kms_header (length ek) (length x) iv @ ek)\<rparr>"
    using kms_parse_framed_message[OF cut(1-7)] parsed cut(8) by simp
  moreover have "envelope_fits options limits ek x"
    using cut fits by (simp add: envelope_fits_def length_kms_header)
  ultimately show thesis using that cut by blast
qed

lemma kms_parse_supported:
  "kms_parse options limits data = Inr e \<Longrightarrow>
     assertKmsOperation (Some (svc_provider (ko_kms options))) KmsDecrypt = Inr ()"
  by (auto simp: kms_parse_def rbind_eq_Inr)

lemma provider_delivers_supported:
  "provider_delivers provider operation ctx invoke now t v \<Longrightarrow> assertKmsOperation (Some provider) operation = Inr ()"
  by (auto simp: provider_delivers_def provider_called_def)

lemma envelope_opened:
  assumes "aead_ok c" "kms_framed data" "kms_parse options limits data = Inr e" "kms_open c e key = Inr p"
  obtains plaintext iv where "key = Some plaintext" "length plaintext = 32" "length iv = 12"
    "envelope_fits options limits (ke_encryptedKey e) p"
    "data = kms_message c plaintext iv (ke_encryptedKey e) p"
proof -
  obtain ek x t iv where cut: "length iv = 12" "length t = 16"
    "data = kms_header (length ek) (length x) iv @ ek @ x @ t" "envelope_fits options limits ek x"
    and e: "e = \<lparr>ke_encryptedKey = ek, ke_iv = iv, ke_tag = t, ke_ciphertext = x,
         ke_authenticatedHeader = Some (kms_header (length ek) (length x) iv @ ek)\<rparr>"
    by (rule kms_parse_framed_envelope[OF assms(2,3)])
  obtain plaintext where key: "key = Some plaintext" "length plaintext = 32"
    and seal: "aead_seal c Aes256Gcm plaintext iv (kms_header (length ek) (length x) iv @ ek) p = (x, t)"
    using assms(4) by (auto simp: kms_open_Inr[OF assms(1)] e)
  note lens = aead_seal_lengths[OF assms(1) seal]
  have "data = kms_message c plaintext iv ek p"
    using seal lens cut(3) by (simp add: kms_message_def Let_def)
  moreover have "envelope_fits options limits ek p"
    using cut(4) lens by (simp add: envelope_fits_def)
  ultimately show thesis using that key cut(1) by (simp add: e)
qed

lemma envelope_opens:
  assumes "aead_ok c" "length iv = 12" "length key = 32" "envelope_fits options limits ek p"
    and "assertKmsOperation (Some (svc_provider (ko_kms options))) KmsDecrypt = Inr ()"
  shows "\<exists>e. kms_parse options limits (kms_message c key iv ek p) = Inr e \<and> ke_encryptedKey e = ek
    \<and> kms_open c e (Some key) = Inr p"
proof -
  obtain x t where seal: "aead_seal c Aes256Gcm key iv (kms_header (length ek) (length p) iv @ ek) p = (x, t)"
    by (metis surj_pair)
  show ?thesis
    using kms_parse_message[OF assms(1,2,4,5) seal] seal assms(3) by (simp add: kms_open_Inr[OF assms(1)])
qed

lemma kms_process_restored:
  assumes "aead_ok c" "length iv = 12"
    and "kms_result (kms_process c iv options data ctx now) = Settles t (Inr message)"
    and "ctx_limits ctx' = ctx_limits ctx" "length message \<le> pluginInputLimit (ctx_limits ctx)"
    and "\<And>key ek signal. svc_generateDataKey (ko_kms options) (ko_keyId options) signal now
        = Settles t (Inr \<lparr>dk_plaintext = Some key, dk_ciphertext = Some ek\<rparr>) \<Longrightarrow>
      \<exists>t'. provider_delivers (svc_provider (ko_kms options)) KmsDecrypt ctx'
        (svc_decrypt (ko_kms options) ek (ko_keyId options)) later t' (Some key)"
  shows "\<exists>t'. kms_result (kms_reverse c options message ctx' later) = Settles t' (Inr data)"
proof -
  obtain signal key where admit: "kms_admit options (ctx_limits ctx) data = Inr ()"
    and key: "svc_generateDataKey (ko_kms options) (ko_keyId options) signal now = Settles t (Inr key)"
    "kms_seal c iv (ctx_limits ctx) data key = Inr message"
    by (rule kms_process_success[OF assms(3)])
  obtain plaintext ek where k: "key = \<lparr>dk_plaintext = Some plaintext, dk_ciphertext = Some ek\<rparr>"
    and seal: "length plaintext = 32" "ek \<noteq> []" "length ek \<le> maxKmsEncryptedKeyBytes (context_limits (ctx_limits ctx))"
      "length ek < 2 ^ 32" "length data + length ek + 44 \<le> pluginOutputLimit (ctx_limits ctx)"
      "message = kms_message c plaintext iv ek data"
    using key(2) unfolding kms_seal_Inr[OF assms(2)] by blast
  have "envelope_fits options (ctx_limits ctx') ek data"
    using admit seal assms(4,5) length_kms_message[OF assms(1,2), of plaintext ek data]
    by (auto simp: envelope_fits_def kms_admit_def Let_def split: if_splits)
  obtain t' where answer: "provider_delivers (svc_provider (ko_kms options)) KmsDecrypt ctx'
      (svc_decrypt (ko_kms options) ek (ko_keyId options)) later t' (Some plaintext)"
    using assms(6)[OF key(1)[unfolded k]] by blast
  from envelope_opens[OF assms(1,2) seal(1) \<open>envelope_fits options (ctx_limits ctx') ek data\<close>
      provider_delivers_supported[OF answer]]
  show ?thesis unfolding kms_reverse_Inr seal(6) using answer by blast
qed

section \<open>Properties\<close>

text \<open>C19: A framed envelope is opened to \<open>p\<close> exactly when it is the envelope of \<open>p\<close> under the 32-byte
  data key that the provider answers for the encrypted key inside it, in time and within the limits:
  no other bytes are accepted, and no envelope that fits is refused.\<close>

theorem kms_reverse_exact:
  assumes "aead_ok c" "kms_framed data"
  shows "kms_result (kms_reverse c options data ctx now) = Settles t (Inr p) \<longleftrightarrow>
    (\<exists>key iv ek. data = kms_message c key iv ek p \<and> length iv = 12 \<and> length key = 32
       \<and> envelope_fits options (ctx_limits ctx) ek p
       \<and> provider_delivers (svc_provider (ko_kms options)) KmsDecrypt ctx
            (svc_decrypt (ko_kms options) ek (ko_keyId options)) now t (Some key))"
proof
  assume "kms_result (kms_reverse c options data ctx now) = Settles t (Inr p)"
  then obtain e key where e: "kms_parse options (ctx_limits ctx) data = Inr e" "kms_open c e key = Inr p"
    and answer: "provider_delivers (svc_provider (ko_kms options)) KmsDecrypt ctx
      (svc_decrypt (ko_kms options) (ke_encryptedKey e) (ko_keyId options)) now t key"
    unfolding kms_reverse_Inr by blast
  from envelope_opened[OF assms e] answer
  show "\<exists>key iv ek. data = kms_message c key iv ek p \<and> length iv = 12 \<and> length key = 32
       \<and> envelope_fits options (ctx_limits ctx) ek p
       \<and> provider_delivers (svc_provider (ko_kms options)) KmsDecrypt ctx
            (svc_decrypt (ko_kms options) ek (ko_keyId options)) now t (Some key)"
    by metis
next
  assume "\<exists>key iv ek. data = kms_message c key iv ek p \<and> length iv = 12 \<and> length key = 32
       \<and> envelope_fits options (ctx_limits ctx) ek p
       \<and> provider_delivers (svc_provider (ko_kms options)) KmsDecrypt ctx
            (svc_decrypt (ko_kms options) ek (ko_keyId options)) now t (Some key)"
  then show "kms_result (kms_reverse c options data ctx now) = Settles t (Inr p)"
    unfolding kms_reverse_Inr using envelope_opens[OF assms(1)] provider_delivers_supported by metis
qed

text \<open>C26: With an operation timeout, both operations settle by it, whatever the provider does: reject,
  throw, resolve too late with anything, or never settle.\<close>

theorem kms_settles_in_time:
  assumes "0 < operationTimeoutMs (context_limits (ctx_limits ctx))"
  shows "(\<exists>t r. kms_result (kms_process c iv options data ctx now) = Settles t r
      \<and> t \<le> now + operationTimeoutMs (context_limits (ctx_limits ctx)))
    \<and> (\<exists>t r. kms_result (kms_reverse c options data ctx now) = Settles t r
      \<and> t \<le> now + operationTimeoutMs (context_limits (ctx_limits ctx)))"
proof (rule conjI, goal_cases)
  case 1
  show ?case
    using callProvider_settles[OF assms, of "svc_provider (ko_kms options)" KmsGenerateDataKey
        "svc_generateDataKey (ko_kms options) (ko_keyId options)" now]
    by (auto simp: kms_process_def kms_failed_def Let_def split: sum.split prod.splits)
next
  case 2
  show ?case
  proof (cases "kms_parse options (ctx_limits ctx) data")
    case (Inr e)
    then show ?thesis
      using callProvider_settles[OF assms, of "svc_provider (ko_kms options)" KmsDecrypt
          "svc_decrypt (ko_kms options) (ke_encryptedKey e) (ko_keyId options)" now]
      by (auto simp: kms_reverse_def split: sum.split prod.splits)
  qed (simp add: kms_reverse_def kms_failed_def)
qed


text \<open>C20: Whenever the provider's promise is resolved with a plaintext data key, in time or after the
  call was cut off, every byte of that key has been overwritten by zero in the end, whether the
  operation succeeded or failed.\<close>

theorem kms_key_wiped:
  "(kms_admit options (ctx_limits ctx) data = Inr ()
      \<and> provider_called (svc_provider (ko_kms options)) KmsGenerateDataKey ctx now signal
      \<and> svc_generateDataKey (ko_kms options) (ko_keyId options) signal now = Settles ts (Inr key) \<longrightarrow>
      kms_key_left (kms_process c iv options data ctx now) = map_option zero_fill (dk_plaintext key))
    \<and> (kms_parse options (ctx_limits ctx) data = Inr e
      \<and> provider_called (svc_provider (ko_kms options)) KmsDecrypt ctx now signal
      \<and> svc_decrypt (ko_kms options) (ke_encryptedKey e) (ko_keyId options) signal now = Settles ts (Inr k) \<longrightarrow>
      kms_key_left (kms_reverse c options data ctx now) = map_option zero_fill k)"
proof (intro conjI impI; elim conjE)
  assume called: "provider_called (svc_provider (ko_kms options)) KmsGenerateDataKey ctx now signal"
    and answer: "svc_generateDataKey (ko_kms options) (ko_keyId options) signal now = Settles ts (Inr key)"
    and admit: "kms_admit options (ctx_limits ctx) data = Inr ()"
  show "kms_key_left (kms_process c iv options data ctx now) = map_option zero_fill (dk_plaintext key)"
    using callProvider_accounts[where invoke = "svc_generateDataKey (ko_kms options) (ko_keyId options)", OF called answer]
    unfolding kms_process_called[OF admit] by (auto simp: wipe_key_def)
next
  assume called: "provider_called (svc_provider (ko_kms options)) KmsDecrypt ctx now signal"
    and answer: "svc_decrypt (ko_kms options) (ke_encryptedKey e) (ko_keyId options) signal now = Settles ts (Inr k)"
    and parsed: "kms_parse options (ctx_limits ctx) data = Inr e"
  show "kms_key_left (kms_reverse c options data ctx now) = map_option zero_fill k"
    using callProvider_accounts[where invoke = "svc_decrypt (ko_kms options) (ke_encryptedKey e) (ko_keyId options)", OF called answer]
    by (auto simp: kms_reverse_def parsed wipe_key_def)
qed

section \<open>Instances\<close>

text \<open>A provider that wraps one key, and answers after five milliseconds, or never.\<close>

definition toy_kms_provider :: kms_provider where
  "toy_kms_provider = \<lparr>kms_declared = NoDeclarations, kms_implemented = (\<lambda>_. True)\<rparr>"

definition toy_kms :: kms_options where
  "toy_kms = \<lparr>ko_kms = \<lparr>svc_provider = toy_kms_provider,
       svc_generateDataKey = (\<lambda>_ _ now. Settles (now + 5)
         (Inr \<lparr>dk_plaintext = Some (replicate 32 7), dk_ciphertext = Some [1, 2, 3]\<rparr>)),
       svc_decrypt = (\<lambda>ek _ _ now. Settles (now + 5)
         (Inr (if ek = [1, 2, 3] then Some (replicate 32 7) else None)))\<rparr>,
     ko_keyId = ''k'', ko_allowLegacyDecrypt = None\<rparr>"

definition silent_kms :: kms_options where
  "silent_kms = toy_kms\<lparr>ko_kms := \<lparr>svc_provider = toy_kms_provider,
     svc_generateDataKey = (\<lambda>_ _ _. Pending), svc_decrypt = (\<lambda>_ _ _ _. Pending)\<rparr>\<rparr>"

definition toy_context :: processor_context where
  "toy_context = makeContext ''r'' Map.empty None (Some DEFAULT_LIMITS) 0"

lemma toy_kms_supported: "assertKmsOperation (Some toy_kms_provider) operation = Inr ()"
proof -
  have "kms_capability toy_kms_provider op = Inr True" for op
    by (simp add: kms_capability_True toy_kms_provider_def kms_declaration_def)
  moreover have "kms_declared toy_kms_provider \<noteq> BadDeclarations" by (simp add: toy_kms_provider_def)
  ultimately show ?thesis
    by (cases operation)
      (simp_all add: assertKmsOperation_def supportsKmsOperation_def getKmsProviderCapabilities_def kms_operations_def)
qed

lemma toy_called:
  "provider_called toy_kms_provider operation toy_context now
     (Some (now + operationTimeoutMs DEFAULT_LIMITS, kms_timeout_reason))"
  by (simp add: provider_called_def toy_kms_supported providerControl_def toy_context_def makeContext_def
      context_limits_def DEFAULT_LIMITS_def is_safe_integer_def max_safe_integer_def MAX_TIMER_MS_def
      abort_any_def signal_aborted_def)

lemma toy_delivers:
  "provider_delivers toy_kms_provider KmsDecrypt toy_context
     (svc_decrypt (ko_kms toy_kms) [1, 2, 3] keyId) now (now + 5) (Some (replicate 32 7))"
proof -
  have "now + 5 < now + operationTimeoutMs DEFAULT_LIMITS" by (simp add: DEFAULT_LIMITS_def)
  then show ?thesis unfolding provider_delivers_def
    by (intro exI[of _ "Some (now + operationTimeoutMs DEFAULT_LIMITS, kms_timeout_reason)"] conjI toy_called)
      (simp_all add: toy_kms_def)
qed

lemma toy_kms_simps:
  "svc_provider (ko_kms toy_kms) = toy_kms_provider" "svc_provider (ko_kms silent_kms) = toy_kms_provider"
  "ko_keyId toy_kms = ''k''" "ko_keyId silent_kms = ''k''" "ctx_limits toy_context = Some DEFAULT_LIMITS"
  "context_limits (Some DEFAULT_LIMITS) = DEFAULT_LIMITS"
  by (simp_all add: toy_kms_def silent_kms_def toy_context_def makeContext_def context_limits_def)

lemma toy_envelope_fits: "envelope_fits toy_kms (Some DEFAULT_LIMITS) [1, 2, 3] [4, 5]"
  by (simp add: envelope_fits_def toy_kms_simps byteLength_def pluginInputLimit_def pluginOutputLimit_def
      context_limits_def DEFAULT_LIMITS_def)

lemma toy_message_framed: "kms_framed (kms_message toy_crypto key iv [1, 2, 3] [4, 5])"
  unfolding kms_message_def Let_def by (simp add: kms_header_reads(6) split: prod.split)

theorem kms_reverse_exact_witness:
  "kms_result (kms_reverse toy_crypto toy_kms
     (kms_message toy_crypto (replicate 32 7) (replicate 12 1) [1, 2, 3] [4, 5]) toy_context 0)
     = Settles 5 (Inr [4, 5])"
  unfolding kms_reverse_exact[OF aead_ok_toy toy_message_framed] toy_kms_simps
  using toy_envelope_fits toy_delivers[of "''k''" 0]
  by (intro exI[of _ "replicate 32 7"] exI[of _ "replicate 12 1"] exI[of _ "[1, 2, 3]"]) simp

theorem kms_settles_in_time_witness:
  "\<exists>t r. kms_result (kms_process toy_crypto (replicate 12 1) silent_kms [4, 5] toy_context 0) = Settles t r
     \<and> t \<le> operationTimeoutMs DEFAULT_LIMITS"
proof -
  have "0 < operationTimeoutMs DEFAULT_LIMITS" by (simp add: DEFAULT_LIMITS_def)
  then show ?thesis
    using kms_settles_in_time[of toy_context toy_crypto "replicate 12 1" silent_kms "[4, 5]" 0]
    by (simp add: toy_kms_simps)
qed


lemma toy_admitted: "kms_admit toy_kms (ctx_limits toy_context) [4, 5] = Inr ()"
  by (simp add: kms_admit_def toy_kms_simps byteLength_def pluginInputLimit_def pluginOutputLimit_def
      context_limits_def DEFAULT_LIMITS_def kms_constants Let_def)

lemma toy_parsed:
  "\<exists>e. kms_parse toy_kms (ctx_limits toy_context)
     (kms_message toy_crypto (replicate 32 7) (replicate 12 1) [1, 2, 3] [4, 5]) = Inr e \<and> ke_encryptedKey e = [1, 2, 3]"
  using envelope_opens[OF aead_ok_toy _ _ toy_envelope_fits, of "replicate 12 1" "replicate 32 7"]
  by (auto simp: toy_kms_simps toy_kms_supported)

theorem kms_key_wiped_witness:
  "kms_key_left (kms_process toy_crypto (replicate 12 1) toy_kms [4, 5] toy_context 0) = Some (replicate 32 0)
   \<and> kms_key_left (kms_reverse toy_crypto toy_kms
       (kms_message toy_crypto (replicate 32 7) (replicate 12 1) [1, 2, 3] [4, 5]) toy_context 0) = Some (replicate 32 0)"
proof -
  let ?sig = "Some (operationTimeoutMs DEFAULT_LIMITS, kms_timeout_reason)"
  obtain e where e: "kms_parse toy_kms (ctx_limits toy_context)
     (kms_message toy_crypto (replicate 32 7) (replicate 12 1) [1, 2, 3] [4, 5]) = Inr e" "ke_encryptedKey e = [1, 2, 3]"
    using toy_parsed by blast
  have key: "svc_generateDataKey (ko_kms toy_kms) ''k'' ?sig 0 = Settles 5
      (Inr \<lparr>dk_plaintext = Some (replicate 32 7), dk_ciphertext = Some [1, 2, 3]\<rparr>)"
    "svc_decrypt (ko_kms toy_kms) [1, 2, 3] ''k'' ?sig 0 = Settles 5 (Inr (Some (replicate 32 7)))"
    by (simp_all add: toy_kms_def)
  have called: "provider_called (svc_provider (ko_kms toy_kms)) operation toy_context 0 ?sig" for operation
    using toy_called[of operation 0] by (simp add: toy_kms_simps)
  have zeros: "zero_fill (replicate 32 7) = replicate 32 0" by (simp add: zero_fill_def)
  show ?thesis
    using kms_key_wiped[of toy_kms toy_context "[4, 5]" 0 ?sig 5
        "\<lparr>dk_plaintext = Some (replicate 32 7), dk_ciphertext = Some [1, 2, 3]\<rparr>" toy_crypto "replicate 12 1"]
      kms_key_wiped[where options = toy_kms and ctx = toy_context and now = 0 and signal = ?sig and ts = 5 and c = toy_crypto
        and data = "kms_message toy_crypto (replicate 32 7) (replicate 12 1) [1, 2, 3] [4, 5]" and e = e
        and k = "Some (replicate 32 7)"]
      toy_admitted e key called zeros
    by (simp add: toy_kms_simps del: replicate.simps)
qed

end
