(* ===== verification/Hashing.thy ===== *)
theory Hashing
  imports Plugins Node_Streams
begin

text \<open>
  \<open>src/plugin/hashing.ts\<close>: the plugin that appends an HMAC to a message and checks it on the way
  back, as a buffer operation and as a stream stage.  \<open>createHmac\<close> and \<open>timingSafeEqual\<close> belong to
  \<open>node:crypto\<close>; the first is a parameter, the second is equality of equally long buffers.
\<close>

section \<open>Options\<close>

text \<open>\<open>createHmac(algorithm, secret)\<close>: throws, or gives the digest of the bytes fed to it.\<close>

type_synonym hmac = "string \<Rightarrow> string \<Rightarrow> px_error + (buffer \<Rightarrow> buffer)"

record hashing_options =
  hash_algorithm :: string
  hash_secret :: "string option"

text \<open>The table \<open>HASH_LENGTHS\<close>.\<close>

definition HASH_LENGTHS :: "string \<rightharpoonup> nat" where
  "HASH_LENGTHS = [''sha256'' \<mapsto> 32, ''sha512'' \<mapsto> 64]"

text \<open>
  The names that every JavaScript object inherits.  \<open>name in HASH_LENGTHS\<close> holds for them as well,
  although \<open>HASH_LENGTHS[name]\<close> is no number then.
\<close>

definition object_prototype_names :: "string list" where
  "object_prototype_names = [''constructor'', ''__defineGetter__'', ''__defineSetter__'',
     ''hasOwnProperty'', ''__lookupGetter__'', ''__lookupSetter__'', ''isPrototypeOf'',
     ''propertyIsEnumerable'', ''toString'', ''valueOf'', ''__proto__'', ''toLocaleString'']"

definition in_object :: "string \<Rightarrow> (string \<rightharpoonup> 'a) \<Rightarrow> bool" where
  "in_object name table \<longleftrightarrow> table name \<noteq> None \<or> name \<in> set object_prototype_names"

definition hashing_config_error :: px_error where
  "hashing_config_error = UnsupportedAlgorithmError (in_stage ''hashing'' ''configuration'')"

abbreviation hashing_error :: px_error where
  "hashing_error \<equiv> HashingError (in_transform ''hashing'')"

abbreviation hashing_input_error :: px_error where
  "hashing_input_error \<equiv> HashingError (in_stage ''hashing'' ''input'')"

abbreviation hashing_output_error :: px_error where
  "hashing_output_error \<equiv> HashingError (in_stage ''hashing'' ''output'')"

definition new_HashingPlugin :: "hashing_options \<Rightarrow> px_error + hashing_options" where
  "new_HashingPlugin options =
     (if \<not> in_object (hash_algorithm options) HASH_LENGTHS then Inl hashing_config_error
      else case hash_secret options of
        None \<Rightarrow> Inl hashing_error
      | Some secret \<Rightarrow> if length secret < 16 then Inl hashing_error else Inr options)"

text \<open>The secret of a plugin that was constructed.\<close>

definition secret_of :: "hashing_options \<Rightarrow> string" where
  "secret_of options = (case hash_secret options of Some s \<Rightarrow> s | None \<Rightarrow> [])"

section \<open>Buffer operations\<close>

definition hex_digit :: "nat \<Rightarrow> char" where
  "hex_digit n = (if n < 10 then char_of (48 + n) else char_of (87 + n))"

text \<open>\<open>buffer.toString('hex')\<close>.\<close>

definition hex :: "buffer \<Rightarrow> string" where
  "hex bs = concat (map (\<lambda>b. [hex_digit (unat b div 16), hex_digit (unat b mod 16)]) bs)"

text \<open>
  Comparisons with \<open>HASH_LENGTHS[algorithm]\<close>: with an inherited name the arithmetic gives \<open>NaN\<close>,
  and no comparison with \<open>NaN\<close> holds.
\<close>

definition exceeds_room :: "nat \<Rightarrow> nat \<Rightarrow> nat option \<Rightarrow> bool" where
  "exceeds_room amount limit len = (case len of Some l \<Rightarrow> int amount > int limit - int l | None \<Rightarrow> False)"

definition hashing_process ::
  "hmac \<Rightarrow> hashing_options \<Rightarrow> buffer \<Rightarrow> processor_context \<Rightarrow> px_error + (buffer \<times> processor_context)"
where
  "hashing_process createHmac options data ctx =
     (let maxInputBytes = pluginInputLimit (ctx_limits ctx);
          maxOutputBytes = pluginOutputLimit (ctx_limits ctx);
          digestLength = HASH_LENGTHS (hash_algorithm options)
      in if length data > maxInputBytes then Inl hashing_input_error
         else if exceeds_room (length data) maxOutputBytes digestLength then Inl hashing_output_error
         else rbind (createHmac (hash_algorithm options) (secret_of options)) (\<lambda>hmac.
           let digest = hmac data in
           Inr (data @ digest, set_metadata ''hmac'' (hex digest) ctx)))"

text \<open>\<open>timingSafeEqual\<close> of \<open>node:crypto\<close>.\<close>

definition timingSafeEqual :: "buffer \<Rightarrow> buffer \<Rightarrow> px_error + bool" where
  "timingSafeEqual a b =
     (if length a = length b then Inr (a = b)
      else Inl (JsRangeError ''Input buffers must have the same byte length''))"

text \<open>\<open>data.subarray(0, data.length - len)\<close> and \<open>data.subarray(data.length - len)\<close>; \<open>NaN\<close> counts as 0.\<close>

definition split_digest :: "buffer \<Rightarrow> nat option \<Rightarrow> buffer \<times> buffer" where
  "split_digest data len =
     (let at = (case len of Some l \<Rightarrow> length data - l | None \<Rightarrow> 0) in (take at data, drop at data))"

definition shorter_than :: "nat \<Rightarrow> nat option \<Rightarrow> bool" where
  "shorter_than amount len = (case len of Some l \<Rightarrow> amount < l | None \<Rightarrow> False)"

definition payload_exceeds :: "nat \<Rightarrow> nat option \<Rightarrow> nat \<Rightarrow> bool" where
  "payload_exceeds amount len limit = (case len of Some l \<Rightarrow> int amount - int l > int limit | None \<Rightarrow> False)"

definition hashing_reverse ::
  "hmac \<Rightarrow> hashing_options \<Rightarrow> buffer \<Rightarrow> processor_context \<Rightarrow> px_error + (buffer \<times> processor_context)"
where
  "hashing_reverse createHmac options data ctx =
     (let len = HASH_LENGTHS (hash_algorithm options);
          maxInputBytes = pluginInputLimit (ctx_limits ctx);
          maxOutputBytes = pluginOutputLimit (ctx_limits ctx)
      in if length data > maxInputBytes then Inl hashing_input_error
         else if shorter_than (length data) len then Inl hashing_error
         else if payload_exceeds (length data) len maxOutputBytes then Inl hashing_output_error
         else
           let (originalData, attachedHash) = split_digest data len in
           rbind (createHmac (hash_algorithm options) (secret_of options)) (\<lambda>hmac.
             let expected = hmac originalData in
             rbind (timingSafeEqual attachedHash expected) (\<lambda>equal.
               if \<not> equal then Inl hashing_error
               else Inr (originalData, set_metadata ''verified_hmac'' (hex attachedHash) ctx))))"

section \<open>Stream stages\<close>

text \<open>
  The stage that signs: how many bytes have passed, and the bytes fed to the HMAC so far.
  \<open>construct\<close> runs before the first chunk.
\<close>

record sign_stage =
  sg_total :: nat
  sg_hashed :: buffer

type_synonym sign_outcome = "(sign_stage, buffer, px_error) outcome"

definition sign_construct :: "nat option \<Rightarrow> nat \<Rightarrow> px_error + sign_stage" where
  "sign_construct len maxOut =
     (if (case len of Some l \<Rightarrow> maxOut < l | None \<Rightarrow> False) then Inl hashing_output_error
      else Inr \<lparr>sg_total = 0, sg_hashed = []\<rparr>)"

definition sign_transform :: "nat option \<Rightarrow> nat \<Rightarrow> nat \<Rightarrow> sign_stage \<Rightarrow> buffer \<Rightarrow> sign_outcome" where
  "sign_transform len maxIn maxOut s chunk =
     (if int (length chunk) > int maxIn - int (sg_total s) then ([], Inl hashing_input_error)
      else if (case len of Some l \<Rightarrow> int (length chunk) > int maxOut - int l - int (sg_total s)
               | None \<Rightarrow> False)
      then ([], Inl hashing_output_error)
      else ([chunk], Inr \<lparr>sg_total = sg_total s + length chunk, sg_hashed = sg_hashed s @ chunk\<rparr>))"

definition sign_flush :: "(buffer \<Rightarrow> buffer) \<Rightarrow> sign_stage \<Rightarrow> sign_outcome" where
  "sign_flush hmac s = ([hmac (sg_hashed s)], Inr s)"

definition sign_stream ::
  "hmac \<Rightarrow> hashing_options \<Rightarrow> engine_limits option \<Rightarrow> buffer list \<Rightarrow> px_error + sign_outcome" where
  "sign_stream createHmac options limits chunks =
     rbind (createHmac (hash_algorithm options) (secret_of options)) (\<lambda>hmac.
       let len = HASH_LENGTHS (hash_algorithm options) in
       Inr (case sign_construct len (pluginOutputLimit limits) of
              Inl e \<Rightarrow> ([], Inl e)
            | Inr s \<Rightarrow>
                run_transform (sign_transform len (pluginInputLimit limits) (pluginOutputLimit limits))
                  (sign_flush hmac) s chunks))"

text \<open>
  The stage that verifies keeps every chunk until the end.  \<open>vf_buffer\<close> is the concatenation that
  \<open>flush\<close> works on, as it is left behind.
\<close>

record verify_stage =
  vf_chunks :: "buffer list"
  vf_total :: nat
  vf_buffer :: buffer

type_synonym verify_outcome = "(verify_stage, buffer, px_error \<times> verify_stage) outcome"

definition new_verify_stage :: verify_stage where
  "new_verify_stage = \<lparr>vf_chunks = [], vf_total = 0, vf_buffer = []\<rparr>"

definition verify_transform :: "nat \<Rightarrow> verify_stage \<Rightarrow> buffer \<Rightarrow> verify_outcome" where
  "verify_transform maxIn s chunk =
     (if int (length chunk) > int maxIn - int (vf_total s)
      then ([], Inl (hashing_input_error, s))
      else ([], Inr (s\<lparr>vf_total := vf_total s + length chunk, vf_chunks := vf_chunks s @ [chunk]\<rparr>)))"

text \<open>The body of the \<open>try\<close> in \<open>flush\<close>: the authenticated data or the error.\<close>

definition verify_buffer ::
  "(buffer \<Rightarrow> buffer) \<Rightarrow> nat option \<Rightarrow> nat \<Rightarrow> buffer \<Rightarrow> px_error + buffer" where
  "verify_buffer hmac len maxOut buffer =
     (if shorter_than (length buffer) len then Inl hashing_error
      else
        let (originalData, attachedHash) = split_digest buffer len in
        if length originalData > maxOut then Inl hashing_output_error
        else rbind (timingSafeEqual attachedHash (hmac originalData)) (\<lambda>equal.
          if \<not> equal then Inl hashing_error else Inr originalData))"

definition verify_flush :: "(buffer \<Rightarrow> buffer) \<Rightarrow> nat option \<Rightarrow> nat \<Rightarrow> verify_stage \<Rightarrow> verify_outcome" where
  "verify_flush hmac len maxOut s =
     (let buffer = buf_concat (vf_chunks s) (vf_total s);
          wiped = s\<lparr>vf_chunks := [], vf_buffer := zero_fill buffer\<rparr>
      in case verify_buffer hmac len maxOut buffer of
           Inl e \<Rightarrow> ([], Inl (e, wiped))
         | Inr authenticated \<Rightarrow> ([authenticated], Inr wiped))"

definition verify_stream ::
  "hmac \<Rightarrow> hashing_options \<Rightarrow> engine_limits option \<Rightarrow> buffer list \<Rightarrow> px_error + verify_outcome" where
  "verify_stream createHmac options limits chunks =
     rbind (createHmac (hash_algorithm options) (secret_of options)) (\<lambda>hmac.
       Inr (run_transform (verify_transform (pluginInputLimit limits))
              (verify_flush hmac (HASH_LENGTHS (hash_algorithm options)) (pluginOutputLimit limits))
              new_verify_stage chunks))"

section \<open>What is assumed of \<open>createHmac\<close>\<close>

text \<open>
  The documented behaviour: both digests of the table exist and have the lengths it lists.
\<close>

definition hmac_ok :: "hmac \<Rightarrow> bool" where
  "hmac_ok createHmac \<longleftrightarrow>
     (\<forall>algorithm secret len. HASH_LENGTHS algorithm = Some len \<longrightarrow>
        (\<exists>h. createHmac algorithm secret = Inr h \<and> (\<forall>bs. length (h bs) = len)))"

text \<open>A concrete function of this shape: a checksum in every byte of the digest.\<close>

definition toy_hmac :: hmac where
  "toy_hmac algorithm secret =
     (case HASH_LENGTHS algorithm of
        None \<Rightarrow> Inl (JsError (''Invalid digest: '' @ algorithm))
      | Some len \<Rightarrow> Inr (\<lambda>bs. replicate len (sum_list bs + of_nat (length bs) + of_nat (length secret))))"

lemma hmac_ok_toy: "hmac_ok toy_hmac"
  by (auto simp: hmac_ok_def toy_hmac_def)

definition sha256_options :: hashing_options where
  "sha256_options = \<lparr>hash_algorithm = ''sha256'', hash_secret = Some ''0123456789abcdef''\<rparr>"

lemma sha256_length: "HASH_LENGTHS (hash_algorithm sha256_options) = Some 32"
  by (simp add: HASH_LENGTHS_def sha256_options_def)

text \<open>The HMAC that a plugin with these options uses, and the length of its digests.\<close>

definition hmac_for :: "hmac \<Rightarrow> hashing_options \<Rightarrow> (buffer \<Rightarrow> buffer) \<Rightarrow> nat \<Rightarrow> bool" where
  "hmac_for createHmac options h len \<longleftrightarrow>
     createHmac (hash_algorithm options) (secret_of options) = Inr h
     \<and> HASH_LENGTHS (hash_algorithm options) = Some len \<and> (\<forall>bs. length (h bs) = len)"

section \<open>Lemmas about the parts\<close>

lemma split_digest_append:
  "length digest = len \<Longrightarrow> split_digest (data @ digest) (Some len) = (data, digest)"
  by (simp add: split_digest_def)

lemma timingSafeEqual_refl [simp]: "timingSafeEqual a a = Inr True"
  by (simp add: timingSafeEqual_def)

lemma timingSafeEqual_True: "timingSafeEqual a b = Inr True \<longleftrightarrow> a = b"
  by (auto simp: timingSafeEqual_def)

lemma hmac_ok_for:
  assumes "hmac_ok createHmac" "HASH_LENGTHS (hash_algorithm options) = Some len"
  shows "\<exists>h. hmac_for createHmac options h len"
  using assms unfolding hmac_ok_def hmac_for_def by blast

lemma hmac_for_length: "hmac_for createHmac options h len \<Longrightarrow> length (h bs) = len"
  by (simp add: hmac_for_def)

text \<open>\<open>reverse\<close> and the body of the verifying stage do the same checks.\<close>

lemma hashing_reverse_verify_buffer:
  assumes "hmac_for createHmac options h len"
    and "length data \<le> pluginInputLimit (ctx_limits ctx)"
  shows "hashing_reverse createHmac options data ctx =
    rbind (verify_buffer h (Some len) (pluginOutputLimit (ctx_limits ctx)) data) (\<lambda>original.
      Inr (original, set_metadata ''verified_hmac'' (hex (snd (split_digest data (Some len)))) ctx))"
  using assms
  by (auto simp: hmac_for_def hashing_reverse_def verify_buffer_def Let_def split_digest_def shorter_than_def
      payload_exceeds_def rbind_def split: sum.splits)

text \<open>A message is accepted exactly when it is some data followed by the HMAC of that data.\<close>

lemma verify_buffer_iff:
  assumes "hmac_for createHmac options h len"
  shows "verify_buffer h (Some len) limit data = Inr original \<longleftrightarrow>
    data = original @ h original \<and> length original \<le> limit"
proof
  assume "verify_buffer h (Some len) limit data = Inr original"
  then show "data = original @ h original \<and> length original \<le> limit"
    using hmac_for_length[OF assms]
    by (auto simp: verify_buffer_def shorter_than_def split_digest_def Let_def rbind_eq_Inr
        timingSafeEqual_def split: if_splits)
      (metis append_take_drop_id)
next
  assume "data = original @ h original \<and> length original \<le> limit"
  then show "verify_buffer h (Some len) limit data = Inr original"
    using hmac_for_length[OF assms] by (simp add: verify_buffer_def shorter_than_def split_digest_append)
qed

section \<open>The stages meter their input\<close>

definition sign_absorb :: "sign_stage \<Rightarrow> buffer \<Rightarrow> sign_stage" where
  "sign_absorb s chunk = \<lparr>sg_total = sg_total s + length chunk, sg_hashed = sg_hashed s @ chunk\<rparr>"

interpretation sign_meter: metered "sign_transform (Some len) maxIn maxOut" length sg_total
    "min maxIn (maxOut - len)" sign_absorb "\<lambda>c. [c]" "\<lambda>_. len \<le> maxOut" for len maxIn maxOut
  by unfold_locales (auto simp: sign_transform_def sign_absorb_def)

definition verify_absorb :: "verify_stage \<Rightarrow> buffer \<Rightarrow> verify_stage" where
  "verify_absorb s chunk =
     s\<lparr>vf_total := vf_total s + length chunk, vf_chunks := vf_chunks s @ [chunk]\<rparr>"

interpretation verify_meter: metered "verify_transform maxIn" length vf_total maxIn verify_absorb
    "\<lambda>_. []" "\<lambda>_. True" for maxIn
  by unfold_locales (auto simp: verify_transform_def verify_absorb_def)

lemma sign_absorb_all:
  "foldl sign_absorb s cs = \<lparr>sg_total = sg_total s + length (concat cs), sg_hashed = sg_hashed s @ concat cs\<rparr>"
  by (induction cs arbitrary: s) (simp_all add: sign_absorb_def)

lemma verify_absorb_all:
  "foldl verify_absorb s cs =
     s\<lparr>vf_total := vf_total s + length (concat cs), vf_chunks := vf_chunks s @ cs\<rparr>"
  by (induction cs arbitrary: s) (simp_all add: verify_absorb_def)

lemma length_concat_weights: "sum_list (map length cs) = length (concat cs)"
  by (simp add: length_concat)

lemmas meter_weights = sign_meter.total_weight_def verify_meter.total_weight_def length_concat_weights

lemma sign_run:
  assumes "len \<le> maxOut"
  shows "length (concat cs) \<le> min maxIn (maxOut - len) \<Longrightarrow>
      run_transform (sign_transform (Some len) maxIn maxOut) (sign_flush h)
        \<lparr>sg_total = 0, sg_hashed = []\<rparr> cs =
      (cs @ [h (concat cs)], Inr \<lparr>sg_total = length (concat cs), sg_hashed = concat cs\<rparr>)"
    and "\<not> length (concat cs) \<le> min maxIn (maxOut - len) \<Longrightarrow>
      \<not> succeeds (run_transform (sign_transform (Some len) maxIn maxOut) (sign_flush h)
        \<lparr>sg_total = 0, sg_hashed = []\<rparr> cs)"
proof -
  let ?s = "\<lparr>sg_total = 0, sg_hashed = []\<rparr>" and ?tr = "sign_transform (Some len) maxIn maxOut"
  assume "length (concat cs) \<le> min maxIn (maxOut - len)"
  then have "run_chunks ?tr ?s cs = (concat (map (\<lambda>c. [c]) cs), Inr (foldl sign_absorb ?s cs))"
    using assms by (intro sign_meter.run_admitted) (simp_all add: meter_weights)
  then show "run_transform ?tr (sign_flush h) ?s cs =
      (cs @ [h (concat cs)], Inr \<lparr>sg_total = length (concat cs), sg_hashed = concat cs\<rparr>)"
    by (simp add: run_transform_def sign_absorb_all sign_flush_def)
next
  let ?s = "\<lparr>sg_total = 0, sg_hashed = []\<rparr>" and ?tr = "sign_transform (Some len) maxIn maxOut"
  assume "\<not> length (concat cs) \<le> min maxIn (maxOut - len)"
  then have "\<not> succeeds (run_chunks ?tr ?s cs)"
    using assms by (subst sign_meter.run_succeeds_iff) (simp_all add: meter_weights)
  then show "\<not> succeeds (run_transform ?tr (sign_flush h) ?s cs)"
    by (auto simp: run_transform_def succeeds_iff then_do_eq_Inr)
qed

lemma verify_run:
  shows "length (concat cs) \<le> maxIn \<Longrightarrow>
      run_chunks (verify_transform maxIn) new_verify_stage cs =
        ([], Inr \<lparr>vf_chunks = cs, vf_total = length (concat cs), vf_buffer = []\<rparr>)"
    and "\<not> length (concat cs) \<le> maxIn \<Longrightarrow>
      \<exists>s. run_chunks (verify_transform maxIn) new_verify_stage cs = ([], Inl (hashing_input_error, s))"
proof -
  assume "length (concat cs) \<le> maxIn"
  then have "run_chunks (verify_transform maxIn) new_verify_stage cs =
      (concat (map (\<lambda>_. []) cs), Inr (foldl verify_absorb new_verify_stage cs))"
    by (intro verify_meter.run_admitted) (simp_all add: meter_weights new_verify_stage_def)
  then show "run_chunks (verify_transform maxIn) new_verify_stage cs =
        ([], Inr \<lparr>vf_chunks = cs, vf_total = length (concat cs), vf_buffer = []\<rparr>)"
    by (simp add: verify_absorb_all new_verify_stage_def)
next
  assume "\<not> length (concat cs) \<le> maxIn"
  then have "maxIn < vf_total new_verify_stage + verify_meter.total_weight cs"
    by (simp add: meter_weights new_verify_stage_def)
  then obtain pre c e where
    "run_chunks (verify_transform maxIn) new_verify_stage cs = (concat (map (\<lambda>_. []) pre), Inl e)"
    and e: "verify_transform maxIn (foldl verify_absorb new_verify_stage pre) c = ([], Inl e)"
    using verify_meter.run_refused[of new_verify_stage maxIn cs] by (auto simp: new_verify_stage_def)
  moreover have "\<exists>s. e = (hashing_input_error, s)"
    using e by (auto simp: verify_transform_def split: if_splits)
  ultimately show
    "\<exists>s. run_chunks (verify_transform maxIn) new_verify_stage cs = ([], Inl (hashing_input_error, s))"
    by simp
qed

lemma hashing_process_iff:
  assumes "hmac_for createHmac options h len"
  shows "hashing_process createHmac options data ctx = Inr (message, ctx') \<longleftrightarrow>
    length data \<le> pluginInputLimit (ctx_limits ctx)
    \<and> length data + len \<le> pluginOutputLimit (ctx_limits ctx)
    \<and> message = data @ h data \<and> ctx' = set_metadata ''hmac'' (hex (h data)) ctx"
  using assms by (auto simp: hmac_for_def hashing_process_def Let_def exceeds_room_def)

section \<open>Properties\<close>

text \<open>What \<open>process\<close> returns, \<open>reverse\<close> accepts under the same limits, and gives back the original
  data with the digest recorded in the context.\<close>

theorem hashing_roundtrip:
  assumes "hmac_ok createHmac" "HASH_LENGTHS (hash_algorithm options) = Some len"
    and "hashing_process createHmac options data ctx = Inr (message, ctx')"
    and "ctx_limits ctx2 = ctx_limits ctx"
  shows "\<exists>digest. message = data @ digest \<and> length digest = len
    \<and> hashing_reverse createHmac options message ctx2 =
        Inr (data, set_metadata ''verified_hmac'' (hex digest) ctx2)"
proof -
  obtain h where h: "hmac_for createHmac options h len"
    using hmac_ok_for[OF assms(1,2)] by blast
  from assms(3) have p: "length data + len \<le> pluginOutputLimit (ctx_limits ctx)"
    "message = data @ h data"
    using hashing_process_iff[OF h] by simp_all
  have len: "length message = length data + len" using p hmac_for_length[OF h] by simp
  then have "length message \<le> pluginInputLimit (ctx_limits ctx2)"
    using p(1) pluginOutputLimit_le_pluginInputLimit[of "ctx_limits ctx"] assms(4) by simp
  moreover have "verify_buffer h (Some len) (pluginOutputLimit (ctx_limits ctx2)) message = Inr data"
    using p assms(4) by (subst verify_buffer_iff[OF h]) simp
  ultimately have "hashing_reverse createHmac options message ctx2 =
      Inr (data, set_metadata ''verified_hmac'' (hex (h data)) ctx2)"
    using hashing_reverse_verify_buffer[OF h] p hmac_for_length[OF h]
    by (simp add: split_digest_append)
  with p hmac_for_length[OF h] show ?thesis by blast
qed

definition plain_context :: processor_context where
  "plain_context = makeContext ''r'' Map.empty None None 0"

lemma plain_context_limits: "ctx_limits plain_context = None"
  by (simp add: plain_context_def makeContext_def)

lemma default_plugin_limits:
  "pluginInputLimit None = 268435456" "pluginOutputLimit None = 268435456"
  by (simp_all add: pluginInputLimit_def pluginOutputLimit_def context_limits_def DEFAULT_LIMITS_def)

definition toy_digest :: "buffer \<Rightarrow> buffer" where
  "toy_digest bs = replicate 32 (sum_list bs + of_nat (length bs) + 16)"

lemma toy_hmac_for: "hmac_for toy_hmac sha256_options toy_digest 32"
  using sha256_length
  by (simp add: hmac_for_def toy_hmac_def sha256_options_def secret_of_def toy_digest_def fun_eq_iff)

lemma toy_hmac_sha256: "toy_hmac (hash_algorithm sha256_options) (secret_of sha256_options) = Inr toy_digest"
  using toy_hmac_for by (simp add: hmac_for_def)

lemma toy_digest_12: "toy_digest [1, 2] = replicate 32 21"
  by (simp add: toy_digest_def)

lemma toy_digest_13: "toy_digest [1, 3] = replicate 32 22"
  by (simp add: toy_digest_def)

lemma toy_signed:
  "hashing_process toy_hmac sha256_options [1, 2] plain_context =
     Inr ([1, 2] @ replicate 32 21, set_metadata ''hmac'' (hex (replicate 32 21)) plain_context)"
  using hashing_process_iff[OF toy_hmac_for, of "[1, 2]" plain_context]
  by (simp add: plain_context_limits default_plugin_limits toy_digest_12)

theorem hashing_roundtrip_witness:
  "\<exists>ctx. hashing_reverse toy_hmac sha256_options ([1, 2] @ replicate 32 21) plain_context = Inr ([1, 2], ctx)"
  using hashing_roundtrip[OF hmac_ok_toy sha256_length toy_signed refl] by blast

text \<open>\<open>reverse\<close> accepts a message exactly when it fits the input limit and is some data within the
  output limit followed by the HMAC of that data under the configured secret; a message with any
  other digest is rejected.\<close>

theorem hashing_reverse_exact:
  assumes "hmac_for createHmac options h len"
  shows "(\<exists>ctx'. hashing_reverse createHmac options message ctx = Inr (data, ctx')) \<longleftrightarrow>
    message = data @ h data
    \<and> length message \<le> pluginInputLimit (ctx_limits ctx)
    \<and> length data \<le> pluginOutputLimit (ctx_limits ctx)"
proof (cases "length message \<le> pluginInputLimit (ctx_limits ctx)")
  case True
  note reverse = hashing_reverse_verify_buffer[OF assms True]
  show ?thesis
    unfolding reverse using True verify_buffer_iff[OF assms]
    by (auto simp: rbind_eq_Inr)
next
  case False
  then show ?thesis by (auto simp: hashing_reverse_def Let_def)
qed

theorem hashing_reverse_exact_witness:
  "\<not> (\<exists>ctx. hashing_reverse toy_hmac sha256_options ([1, 3] @ replicate 32 21) plain_context
       = Inr ([1, 3], ctx))"
  unfolding hashing_reverse_exact[OF toy_hmac_for] by (simp add: toy_digest_13 numeral_eq_Suc)

text \<open>However the input is cut into chunks, the signing stage succeeds exactly when \<open>process\<close> does,
  and what it pushed is then, joined, the message that \<open>process\<close> returns.\<close>

theorem sign_stream_is_process:
  assumes "hmac_for createHmac options h len"
    and "sign_stream createHmac options (ctx_limits ctx) chunks = Inr outcome"
  shows "(case hashing_process createHmac options (concat chunks) ctx of
      Inr (message, _) \<Rightarrow> succeeds outcome \<and> concat (outputs outcome) = message
    | Inl _ \<Rightarrow> \<not> succeeds outcome)"
proof -
  let ?in = "pluginInputLimit (ctx_limits ctx)" and ?out = "pluginOutputLimit (ctx_limits ctx)"
  have outcome: "outcome = (case sign_construct (Some len) ?out of Inl e \<Rightarrow> ([], Inl e)
      | Inr s \<Rightarrow> run_transform (sign_transform (Some len) ?in ?out) (sign_flush h) s chunks)"
    using assms by (simp add: sign_stream_def hmac_for_def Let_def)
  show ?thesis
  proof (cases "len \<le> ?out \<and> length (concat chunks) \<le> min ?in (?out - len)")
    case True
    then have "hashing_process createHmac options (concat chunks) ctx =
        Inr (concat chunks @ h (concat chunks), set_metadata ''hmac'' (hex (h (concat chunks))) ctx)"
      by (subst hashing_process_iff[OF assms(1)]) auto
    moreover have "outcome = (chunks @ [h (concat chunks)],
        Inr \<lparr>sg_total = length (concat chunks), sg_hashed = concat chunks\<rparr>)"
      using True sign_run(1)[of len ?out chunks ?in h] unfolding outcome by (simp add: sign_construct_def)
    ultimately show ?thesis by simp
  next
    case False
    then have "hashing_process createHmac options (concat chunks) ctx \<noteq> Inr (m, c)" for m c
      unfolding hashing_process_iff[OF assms(1)] by auto
    then have "\<exists>e. hashing_process createHmac options (concat chunks) ctx = Inl e"
      by (metis old.sum.exhaust surj_pair)
    moreover have "\<not> succeeds outcome"
      using False sign_run(2)[of len ?out chunks ?in h] unfolding outcome
      by (cases "len \<le> ?out") (simp_all add: sign_construct_def)
    ultimately show ?thesis by auto
  qed
qed

theorem sign_stream_is_process_witness:
  "\<exists>outcome. sign_stream toy_hmac sha256_options None [[1], [], [2]] = Inr outcome
     \<and> concat (outputs outcome) = [1, 2] @ replicate 32 21"
proof -
  obtain outcome where o: "sign_stream toy_hmac sha256_options (ctx_limits plain_context) [[1], [], [2]] = Inr outcome"
    by (simp add: sign_stream_def toy_hmac_sha256 Let_def)
  have "concat [[1], [], [2]] = [1, 2 :: byte]" by simp
  with sign_stream_is_process[OF toy_hmac_for o] toy_signed
  have "concat (outputs outcome) = [1, 2] @ replicate 32 21" by simp
  then show ?thesis using o by (auto simp: plain_context_limits)
qed

text \<open>However the message is cut into chunks, the verifying stage behaves as \<open>reverse\<close>: it pushes
  the authenticated data as its only output, or fails with the error of \<open>reverse\<close> having pushed
  nothing; and once \<open>flush\<close> has run, it holds no chunk and no byte of the message any more.\<close>

theorem verify_stream_is_reverse:
  assumes "hmac_for createHmac options h len"
    and "verify_stream createHmac options (ctx_limits ctx) chunks = Inr outcome"
  shows "(case hashing_reverse createHmac options (concat chunks) ctx of
      Inr (original, _) \<Rightarrow> \<exists>s. outcome = ([original], Inr s) \<and> vf_chunks s = [] \<and> set (vf_buffer s) \<subseteq> {0}
    | Inl e \<Rightarrow> \<exists>s. outcome = ([], Inl (e, s))
        \<and> (length (concat chunks) \<le> pluginInputLimit (ctx_limits ctx)
            \<longrightarrow> vf_chunks s = [] \<and> set (vf_buffer s) \<subseteq> {0}))"
proof -
  let ?in = "pluginInputLimit (ctx_limits ctx)" and ?out = "pluginOutputLimit (ctx_limits ctx)"
  have outcome: "outcome = run_transform (verify_transform ?in) (verify_flush h (Some len) ?out)
      new_verify_stage chunks"
    using assms by (simp add: verify_stream_def hmac_for_def)
  show ?thesis
  proof (cases "length (concat chunks) \<le> ?in")
    case True
    note reverse = hashing_reverse_verify_buffer[OF assms(1) True]
    have out: "outcome = verify_flush h (Some len) ?out
        \<lparr>vf_chunks = chunks, vf_total = length (concat chunks), vf_buffer = []\<rparr>"
      unfolding outcome using verify_run(1)[OF True] by (simp add: run_transform_def)
    show ?thesis
      using True set_zero_fill[of "concat chunks"] unfolding reverse out verify_flush_def
      by (cases "verify_buffer h (Some len) ?out (concat chunks)")
        (simp_all add: buf_concat_exact Let_def)
  next
    case False
    then show ?thesis
      using verify_run(2)[OF False] unfolding outcome
      by (auto simp: run_transform_def hashing_reverse_def Let_def)
  qed
qed

theorem verify_stream_is_reverse_witness:
  "\<exists>s. verify_stream toy_hmac sha256_options None [[1], 2 # replicate 32 21] = Inr ([[1, 2]], Inr s)
    \<and> vf_chunks s = []"
proof -
  obtain outcome where o: "verify_stream toy_hmac sha256_options (ctx_limits plain_context)
      [[1], 2 # replicate 32 21] = Inr outcome"
    by (simp add: verify_stream_def toy_hmac_sha256 Let_def)
  have "concat [[1], 2 # replicate 32 21] = [1, 2] @ replicate 32 (21 :: byte)" by simp
  moreover obtain ctx where
    "hashing_reverse toy_hmac sha256_options ([1, 2] @ replicate 32 21) plain_context = Inr ([1, 2], ctx)"
    using hashing_reverse_verify_buffer[OF toy_hmac_for, of "[1, 2] @ replicate 32 21" plain_context]
      verify_buffer_iff[OF toy_hmac_for, of 268435456 "[1, 2] @ replicate 32 21" "[1, 2]"]
    by (simp add: plain_context_limits default_plugin_limits toy_digest_12)
  ultimately obtain s where "outcome = ([[1, 2]], Inr s)" "vf_chunks s = []"
    using verify_stream_is_reverse[OF toy_hmac_for o] by auto
  then show ?thesis using o by (auto simp: plain_context_limits)
qed

text \<open>The constructor does not reject every unknown algorithm: a name that JavaScript objects
  inherit, such as \<open>toString\<close>, passes the test against the table, and the plugin fails only when it
  is used, with an error that is none of the package's own if \<open>createHmac\<close> rejects the name.\<close>

theorem hashing_inherited_algorithm:
  assumes "name \<in> set object_prototype_names" "16 \<le> length secret"
    and "createHmac name secret = Inl (JsError message)"
    and "length data \<le> pluginInputLimit (ctx_limits ctx)"
  shows "let options = \<lparr>hash_algorithm = name, hash_secret = Some secret\<rparr> in
    new_HashingPlugin options = Inr options
    \<and> hashing_process createHmac options data ctx = Inl (JsError message)"
proof -
  have "HASH_LENGTHS name = None"
    using assms(1) by (auto simp: HASH_LENGTHS_def object_prototype_names_def)
  then show ?thesis
    using assms by (simp add: Let_def new_HashingPlugin_def in_object_def hashing_process_def
        exceeds_room_def secret_of_def)
qed

theorem hashing_inherited_algorithm_witness:
  "let options = \<lparr>hash_algorithm = ''toString'', hash_secret = Some ''0123456789abcdef''\<rparr> in
    new_HashingPlugin options = Inr options
    \<and> hashing_process toy_hmac options [1] plain_context = Inl (JsError ''Invalid digest: toString'')"
  by (rule hashing_inherited_algorithm)
    (simp_all add: object_prototype_names_def toy_hmac_def HASH_LENGTHS_def plain_context_limits
      default_plugin_limits)

end
