(* ===== verification/Compression.thy ===== *)
theory Compression
  imports Stream_Stages Hashing
begin

text \<open>
  \<open>src/plugin/compression.ts\<close>: gzip, brotli or no compression behind a header of one byte, as buffer
  operations and as streams.  \<open>node:zlib\<close> is a parameter: what it makes of a buffer, and of a stream
  of chunks.  Its option \<open>maxOutputLength\<close> turns a longer result into a \<open>RangeError\<close>.
\<close>

section \<open>Data\<close>

datatype zlib_kind = Gzip | Brotli

record zlib =
  deflate :: "zlib_kind \<Rightarrow> int \<Rightarrow> buffer \<Rightarrow> buffer"
  inflate :: "zlib_kind \<Rightarrow> buffer \<Rightarrow> px_error + buffer"
  deflate_chunks :: "zlib_kind \<Rightarrow> int \<Rightarrow> buffer list \<Rightarrow> buffer list"
  inflate_chunks :: "zlib_kind \<Rightarrow> buffer list \<Rightarrow> px_error + buffer list"

text \<open>What the plugin relies on: both directions are inverse, and streams agree with buffers.\<close>

definition zlib_ok :: "zlib \<Rightarrow> bool" where
  "zlib_ok z \<longleftrightarrow>
     (\<forall>k level data. inflate z k (deflate z k level data) = Inr data)
     \<and> (\<forall>k level chunks. inflate z k (concat (deflate_chunks z k level chunks)) = Inr (concat chunks))
     \<and> (\<forall>k chunks. map_sum (\<lambda>_. ()) concat (inflate_chunks z k chunks)
          = map_sum (\<lambda>_. ()) id (inflate z k (concat chunks)))"

definition toy_zlib :: zlib where
  "toy_zlib =
     (let inf = (\<lambda>b. case b of x # data \<Rightarrow> if x = 31 then Inr data else Inl (JsError ''incorrect header check'')
                  | [] \<Rightarrow> Inl (JsError ''unexpected end of file''))
      in \<lparr>deflate = (\<lambda>k level data. 31 # data), inflate = (\<lambda>k. inf),
          deflate_chunks = (\<lambda>k level chunks. [31] # chunks),
          inflate_chunks = (\<lambda>k chunks. rbind (inf (concat chunks)) (\<lambda>data. Inr [data]))\<rparr>)"

lemma zlib_ok_toy: "zlib_ok toy_zlib"
  by (auto simp: zlib_ok_def toy_zlib_def Let_def split: list.split)

definition max_output_length :: "nat \<Rightarrow> buffer \<Rightarrow> px_error + buffer" where
  "max_output_length m out =
     (if length out > m then Inl (JsRangeError (''Cannot create a Buffer larger than '' @ nat_digits m @ '' bytes''))
      else Inr out)"

record compression_options =
  cmp_type :: string
  cmp_level :: "js_limit option"

definition TYPE_BYTE_MAP :: "string \<rightharpoonup> nat" where
  "TYPE_BYTE_MAP = [''none'' \<mapsto> 0, ''gzip'' \<mapsto> 1, ''brotli'' \<mapsto> 2]"

fun ID_TO_TYPE :: "nat \<Rightarrow> string option" where
  "ID_TO_TYPE typeId =
     (if typeId = 0 then Some ''none'' else if typeId = 1 then Some ''gzip''
      else if typeId = 2 then Some ''brotli'' else None)"

abbreviation compression_error :: px_error where
  "compression_error \<equiv> CompressionError (in_transform ''compression'')"

abbreviation compression_input_error :: px_error where
  "compression_input_error \<equiv> CompressionError (in_stage ''compression'' ''input'')"

abbreviation compression_output_error :: px_error where
  "compression_output_error \<equiv> CompressionError (in_stage ''compression'' ''output'')"

definition level_between :: "js_limit \<Rightarrow> int \<Rightarrow> int \<Rightarrow> bool" where
  "level_between level low high \<longleftrightarrow>
     (case level of LInt v \<Rightarrow> \<not> (v < low \<or> v > high) | LOther \<Rightarrow> True)"

definition new_CompressionPlugin :: "compression_options \<Rightarrow> px_error + compression_options" where
  "new_CompressionPlugin options =
     (if \<not> in_object (cmp_type options) TYPE_BYTE_MAP
      then Inl (UnsupportedAlgorithmError (in_stage ''compression'' ''configuration''))
      else case cmp_level options of
        None \<Rightarrow> Inr options
      | Some level \<Rightarrow>
          if level = LOther then Inl compression_error
          else if cmp_type options = ''gzip'' \<and> \<not> level_between level 0 9 then Inl compression_error
          else if cmp_type options = ''brotli'' \<and> \<not> level_between level 0 11 then Inl compression_error
          else if cmp_type options = ''none'' then Inl compression_error
          else Inr options)"

definition level_or :: "compression_options \<Rightarrow> int \<Rightarrow> int" where
  "level_or options d = int_of_limit (or_default (cmp_level options) (LInt d))"

text \<open>
  \<open>Buffer.from([TYPE_BYTE_MAP[type]])\<close>.  An inherited property of the table is a function, and the
  byte made of it is 0.
\<close>

definition type_header :: "string \<Rightarrow> buffer" where
  "type_header t = [of_nat (case TYPE_BYTE_MAP t of Some n \<Rightarrow> n | None \<Rightarrow> 0)]"

section \<open>Buffer operations\<close>

definition compression_process ::
  "zlib \<Rightarrow> compression_options \<Rightarrow> buffer \<Rightarrow> engine_limits option \<Rightarrow> px_error + buffer" where
  "compression_process z options data limits =
     (let maxIn = pluginInputLimit limits; maxOut = pluginOutputLimit limits;
          type = cmp_type options; header = type_header type
      in if length data > maxIn then Inl compression_input_error
         else if int (length data) > int maxOut - int (length header) \<and> type = ''none''
         then Inl compression_output_error
         else if maxOut \<le> length header \<and> type \<noteq> ''none'' then Inl compression_output_error
         else rbind
           (if type = ''gzip''
            then max_output_length (maxOut - length header) (deflate z Gzip (level_or options 6) data)
            else if type = ''brotli''
            then max_output_length (maxOut - length header) (deflate z Brotli (level_or options 11) data)
            else Inr data) (\<lambda>compressed.
           Inr (header @ compressed)))"

definition compression_reverse ::
  "zlib \<Rightarrow> buffer \<Rightarrow> engine_limits option \<Rightarrow> px_error + buffer" where
  "compression_reverse z data limits =
     (let maxIn = pluginInputLimit limits; maxOut = pluginOutputLimit limits in
      if length data > maxIn then Inl compression_input_error
      else case data of
        [] \<Rightarrow> Inl compression_error
      | typeId # payload \<Rightarrow>
          let type = ID_TO_TYPE (unat typeId) in
          if type = Some ''gzip'' then rbind (inflate z Gzip payload) (max_output_length maxOut)
          else if type = Some ''brotli'' then rbind (inflate z Brotli payload) (max_output_length maxOut)
          else if type \<noteq> Some ''none''
          then Inl (UnsupportedAlgorithmError (in_stage ''compression'' ''configuration''))
          else if length payload > maxOut then Inl compression_output_error
          else Inr payload)"

section \<open>Streams\<close>

text \<open>
  A stage that ran to its end, as the source of the next one; an error of any stage fails the whole
  composition.
\<close>

definition completed :: "('s, 'o, px_error) outcome \<Rightarrow> px_error + 'o list" where
  "completed r = (case snd r of Inl e \<Rightarrow> Inl e | Inr _ \<Rightarrow> Inr (fst r))"

definition compress_chunks :: "zlib \<Rightarrow> compression_options \<Rightarrow> buffer list \<Rightarrow> buffer list" where
  "compress_chunks z options chunks =
     (if cmp_type options = ''gzip'' then deflate_chunks z Gzip (level_or options 6) chunks
      else if cmp_type options = ''brotli'' then deflate_chunks z Brotli (level_or options 11) chunks
      else chunks)"

definition compression_stream ::
  "zlib \<Rightarrow> compression_options \<Rightarrow> engine_limits option \<Rightarrow> buffer list \<Rightarrow> px_error + buffer list" where
  "compression_stream z options limits chunks =
     rbind (completed (byte_limit_stream (pluginInputLimit limits) ''compression input'' chunks)) (\<lambda>input.
       rbind (completed (header_stream (type_header (cmp_type options)) (compress_chunks z options input)))
         (\<lambda>framed.
           completed (byte_limit_stream (pluginOutputLimit limits) ''compression output'' framed)))"

text \<open>
  The generator that decompresses.  \<open>first_chunk\<close> is its first loop: the first chunk with a byte in
  it, the chunks after it, and \<open>inputBytes\<close>.  \<open>payload_chunks\<close> is the inner generator.
\<close>

fun first_chunk :: "nat \<Rightarrow> nat \<Rightarrow> buffer list \<Rightarrow> px_error + (buffer \<times> buffer list \<times> nat)" where
  "first_chunk maxIn inputBytes [] = Inl compression_error"
| "first_chunk maxIn inputBytes (chunk # chunks) =
     (if int (length chunk) > int maxIn - int inputBytes then Inl compression_input_error
      else if length chunk > 0 then Inr (chunk, chunks, inputBytes + length chunk)
      else first_chunk maxIn (inputBytes + length chunk) chunks)"

fun payload_rest :: "nat \<Rightarrow> nat \<Rightarrow> buffer list \<Rightarrow> px_error + buffer list" where
  "payload_rest maxIn inputBytes [] = Inr []"
| "payload_rest maxIn inputBytes (chunk # chunks) =
     (if int (length chunk) > int maxIn - int inputBytes then Inl compression_input_error
      else rbind (payload_rest maxIn (inputBytes + length chunk) chunks) (\<lambda>cs.
        Inr ((if length chunk > 0 then [chunk] else []) @ cs)))"

definition payload_chunks :: "nat \<Rightarrow> nat \<Rightarrow> buffer \<Rightarrow> buffer list \<Rightarrow> px_error + buffer list" where
  "payload_chunks maxIn inputBytes first chunks =
     (let remainder = tl first in
      rbind (payload_rest maxIn inputBytes chunks) (\<lambda>cs.
        Inr ((if length remainder > 0 then [remainder] else []) @ cs)))"

fun limit_outputs :: "nat \<Rightarrow> nat \<Rightarrow> buffer list \<Rightarrow> px_error + buffer list" where
  "limit_outputs maxOut outputBytes [] = Inr []"
| "limit_outputs maxOut outputBytes (output # rest) =
     (if int (length output) > int maxOut - int outputBytes then Inl compression_output_error
      else rbind (limit_outputs maxOut (outputBytes + length output) rest) (\<lambda>os. Inr (output # os)))"

definition decompression_stream ::
  "zlib \<Rightarrow> engine_limits option \<Rightarrow> buffer list \<Rightarrow> px_error + buffer list" where
  "decompression_stream z limits chunks =
     (let maxIn = pluginInputLimit limits; maxOut = pluginOutputLimit limits in
      rbind (first_chunk maxIn 0 chunks) (\<lambda>(first, rest, inputBytes).
        case ID_TO_TYPE (unat (hd first)) of
          None \<Rightarrow> Inl (UnsupportedAlgorithmError (in_stage ''compression'' ''decompress''))
        | Some detectedType \<Rightarrow>
            rbind (payload_chunks maxIn inputBytes first rest) (\<lambda>payload.
              rbind
                (if detectedType = ''gzip'' then inflate_chunks z Gzip payload
                 else if detectedType = ''brotli'' then inflate_chunks z Brotli payload
                 else Inr payload) (\<lambda>outs.
                limit_outputs maxOut 0 outs))))"

section \<open>Lemmas\<close>

lemma max_output_length_Inr [simp]:
  "max_output_length m out = Inr r \<longleftrightarrow> r = out \<and> length out \<le> m"
  by (auto simp: max_output_length_def)

lemma type_header_bytes:
  "type_header ''none'' = [0]" "type_header ''gzip'' = [1]" "type_header ''brotli'' = [2]"
  by (simp_all add: type_header_def TYPE_BYTE_MAP_def)

lemma type_header_other: "TYPE_BYTE_MAP t = None \<Longrightarrow> type_header t = [0]"
  by (simp add: type_header_def)

lemma length_type_header [simp]: "length (type_header t) = 1"
  by (simp add: type_header_def)

lemma ID_TO_TYPE_bytes:
  "ID_TO_TYPE 0 = Some ''none''" "ID_TO_TYPE 1 = Some ''gzip''" "ID_TO_TYPE (Suc 0) = Some ''gzip''"
  "ID_TO_TYPE 2 = Some ''brotli''"
  by simp_all

declare ID_TO_TYPE.simps [simp del]

text \<open>What a compressed message consists of.\<close>

definition body_of :: "zlib \<Rightarrow> compression_options \<Rightarrow> buffer \<Rightarrow> buffer" where
  "body_of z options data =
     (if cmp_type options = ''gzip'' then deflate z Gzip (level_or options 6) data
      else if cmp_type options = ''brotli'' then deflate z Brotli (level_or options 11) data
      else data)"

lemma compression_process_Inr:
  assumes "compression_process z options data limits = Inr message"
  shows "message = type_header (cmp_type options) @ body_of z options data"
    and "TYPE_BYTE_MAP (cmp_type options) \<noteq> None \<Longrightarrow> length message \<le> pluginOutputLimit limits"
  using assms
  by (auto simp: compression_process_def body_of_def Let_def rbind_eq_Inr TYPE_BYTE_MAP_def
      split: if_splits)

lemma known_type_cases:
  assumes "TYPE_BYTE_MAP t \<noteq> None"
  obtains "t = ''none''" | "t = ''gzip''" | "t = ''brotli''"
  using assms by (auto simp: TYPE_BYTE_MAP_def split: if_splits)

lemma inflate_deflate [simp]: "zlib_ok z \<Longrightarrow> inflate z k (deflate z k level data) = Inr data"
  by (simp add: zlib_ok_def)

lemma compression_reverse_message:
  assumes "zlib_ok z" "TYPE_BYTE_MAP (cmp_type options) \<noteq> None"
    and "length (type_header (cmp_type options) @ body_of z options data) \<le> pluginInputLimit limits"
    and "length data \<le> pluginOutputLimit limits"
  shows "compression_reverse z (type_header (cmp_type options) @ body_of z options data) limits = Inr data"
  using assms(2)
proof (cases rule: known_type_cases)
  case 1
  then show ?thesis using assms
    by (simp add: compression_reverse_def body_of_def type_header_bytes ID_TO_TYPE_bytes Let_def)
next
  case 2
  then show ?thesis using assms
    by (simp add: compression_reverse_def body_of_def type_header_bytes ID_TO_TYPE_bytes Let_def)
next
  case 3
  then show ?thesis using assms
    by (simp add: compression_reverse_def body_of_def type_header_bytes ID_TO_TYPE_bytes Let_def)
qed

lemma payload_rest_Inr:
  "inputBytes \<le> maxIn \<Longrightarrow>
   payload_rest maxIn inputBytes chunks =
     (if inputBytes + length (concat chunks) \<le> maxIn then Inr (filter (\<lambda>c. c \<noteq> []) chunks)
      else Inl compression_input_error)"
  by (induction chunks arbitrary: inputBytes) auto

lemma first_chunk_spec:
  "inputBytes + length (concat chunks) \<le> maxIn \<Longrightarrow>
   first_chunk maxIn inputBytes chunks =
     (case dropWhile (\<lambda>c. c = []) chunks of [] \<Rightarrow> Inl compression_error
      | c # cs \<Rightarrow> Inr (c, cs, inputBytes + length c))"
  by (induction chunks arbitrary: inputBytes) auto

lemma limit_outputs_spec:
  "outputBytes \<le> maxOut \<Longrightarrow>
   limit_outputs maxOut outputBytes outs =
     (if outputBytes + length (concat outs) \<le> maxOut then Inr outs else Inl compression_output_error)"
  by (induction outs arbitrary: outputBytes) auto

lemma concat_dropWhile_empty: "concat (dropWhile (\<lambda>c. c = []) cs) = concat cs"
  by (induction cs) auto

lemma dropWhile_first:
  assumes "concat chunks = x # body"
  obtains c cs where "dropWhile (\<lambda>c. c = []) chunks = (x # c) # cs" "body = c @ concat cs"
proof (cases "dropWhile (\<lambda>c. c = []) chunks")
  case Nil
  then have "concat chunks = []" using concat_dropWhile_empty[of chunks] by simp
  then show ?thesis using assms by simp
next
  case (Cons d cs)
  then have "d \<noteq> []" by (metis (mono_tags, lifting) hd_dropWhile list.distinct(1) list.sel(1))
  moreover have "d @ concat cs = x # body"
    using Cons concat_dropWhile_empty[of chunks] assms by simp
  ultimately obtain c where "d = x # c" "body = c @ concat cs" by (cases d) auto
  then show ?thesis using that Cons by simp
qed

text \<open>On a message within the input limit the streaming side sees the header byte and the payload.\<close>

lemma decompression_stream_message:
  assumes "concat chunks = x # body" "length (concat chunks) \<le> pluginInputLimit limits"
  shows "\<exists>payload. concat payload = body \<and> decompression_stream z limits chunks =
    (case ID_TO_TYPE (unat x) of
       None \<Rightarrow> Inl (UnsupportedAlgorithmError (in_stage ''compression'' ''decompress''))
     | Some detectedType \<Rightarrow>
         rbind (if detectedType = ''gzip'' then inflate_chunks z Gzip payload
                else if detectedType = ''brotli'' then inflate_chunks z Brotli payload
                else Inr payload)
           (limit_outputs (pluginOutputLimit limits) 0))"
proof -
  let ?in = "pluginInputLimit limits"
  obtain c cs where d: "dropWhile (\<lambda>c. c = []) chunks = (x # c) # cs" "body = c @ concat cs"
    using dropWhile_first[OF assms(1)] by blast
  have first: "first_chunk ?in 0 chunks = Inr (x # c, cs, Suc (length c))"
    using first_chunk_spec[of 0 chunks ?in] assms(2) d by simp
  have "length (concat chunks) = Suc (length c + length (concat cs))"
    using d assms(1) by simp
  then have "payload_rest ?in (Suc (length c)) cs = Inr (filter (\<lambda>c. c \<noteq> []) cs)"
    using assms(2) by (subst payload_rest_Inr) auto
  moreover define p where "p = (if c = [] then [] else [c]) @ filter (\<lambda>c. c \<noteq> []) cs"
  ultimately have payload: "payload_chunks ?in (Suc (length c)) (x # c) cs = Inr p"
    by (simp add: payload_chunks_def)
  have "concat p = body"
    using d concat_filter_nonempty[of cs] by (simp add: p_def)
  then show ?thesis
    using first payload
    by (intro exI[of _ p]) (simp add: decompression_stream_def Let_def split: option.split)
qed

lemma completed_byte_limit:
  "completed (byte_limit_stream maxBytes label cs) =
     (if length (concat cs) \<le> maxBytes then Inr cs else Inl (exceeds_bytes label maxBytes))"
proof (cases "length (concat cs) \<le> maxBytes")
  case True
  then obtain out n where "byte_limit_stream maxBytes label cs = (out, Inr n)"
    using byte_limit_iff[of maxBytes label cs] by (auto simp: succeeds_iff)
  then show ?thesis using True byte_limit_passes[OF True, of label] by (simp add: completed_def)
next
  case False
  then show ?thesis using byte_limit_error[OF False, of label] by (simp add: completed_def)
qed

lemma completed_header: "completed (header_stream frame cs) = Inr (frame # cs)"
  using header_stream_outputs[of frame cs]
  by (cases "header_stream frame cs") (auto simp: completed_def succeeds_def returns_def)

lemma compression_stream_Inr:
  "compression_stream z options limits chunks = Inr outs \<longleftrightarrow>
     length (concat chunks) \<le> pluginInputLimit limits
     \<and> outs = type_header (cmp_type options) # compress_chunks z options chunks
     \<and> length (concat outs) \<le> pluginOutputLimit limits"
  by (auto simp: compression_stream_def completed_byte_limit completed_header)

text \<open>Streaming and one-shot decompression succeed together, with the same bytes.\<close>

lemma inflate_chunks_iff:
  assumes "zlib_ok z"
  shows "(\<exists>outs. inflate_chunks z k chunks = Inr outs \<and> concat outs = data) \<longleftrightarrow>
    inflate z k (concat chunks) = Inr data"
proof -
  have "map_sum (\<lambda>_. ()) concat (inflate_chunks z k chunks) = map_sum (\<lambda>_. ()) id (inflate z k (concat chunks))"
    using assms by (simp add: zlib_ok_def)
  then show ?thesis
    by (cases "inflate_chunks z k chunks"; cases "inflate z k (concat chunks)") auto
qed

lemma limit_outputs_Inr:
  "limit_outputs maxOut 0 outs = Inr r \<longleftrightarrow> r = outs \<and> length (concat outs) \<le> maxOut"
  by (auto simp: limit_outputs_spec)

lemma first_chunk_Inr:
  "first_chunk maxIn n chunks = Inr (c, cs, n') \<Longrightarrow> n \<le> maxIn \<Longrightarrow>
     c \<noteq> [] \<and> n' \<le> maxIn \<and> n' + length (concat cs) = n + length (concat chunks)"
  by (induction maxIn n chunks rule: first_chunk.induct) (auto split: if_splits)

lemma decompression_stream_too_long:
  assumes "\<not> length (concat chunks) \<le> pluginInputLimit limits"
  shows "decompression_stream z limits chunks \<noteq> Inr outs"
proof
  assume run: "decompression_stream z limits chunks = Inr outs"
  then obtain c cs n where first: "first_chunk (pluginInputLimit limits) 0 chunks = Inr (c, cs, n)"
    and payload: "\<exists>p. payload_chunks (pluginInputLimit limits) n c cs = Inr p"
    unfolding decompression_stream_def Let_def by (auto simp: rbind_eq_Inr split: option.splits)
  from first_chunk_Inr[OF first] assms have "n \<le> pluginInputLimit limits"
    "\<not> n + length (concat cs) \<le> pluginInputLimit limits" by simp_all
  then show False using payload
    by (auto simp: payload_chunks_def payload_rest_Inr)
qed

lemma decompression_stream_empty:
  assumes "concat chunks = []"
  shows "decompression_stream z limits chunks \<noteq> Inr outs"
proof -
  have none: "dropWhile (\<lambda>c. c = []) chunks = []"
    using assms by (simp add: dropWhile_eq_Nil_conv)
  have "0 + length (concat chunks) \<le> pluginInputLimit limits" unfolding assms by simp
  from first_chunk_spec[OF this]
  have "first_chunk (pluginInputLimit limits) 0 chunks = Inl compression_error"
    unfolding none by simp
  then show ?thesis by (simp add: decompression_stream_def)
qed

lemma decompression_stream_iff:
  assumes "zlib_ok z"
  shows "(\<exists>outs. decompression_stream z limits chunks = Inr outs \<and> concat outs = data) \<longleftrightarrow>
    compression_reverse z (concat chunks) limits = Inr data"
proof (cases "length (concat chunks) \<le> pluginInputLimit limits")
  case False
  then show ?thesis
    using decompression_stream_too_long[OF False, of z] by (simp add: compression_reverse_def Let_def)
next
  case fits: True
  show ?thesis
  proof (cases "concat chunks")
    case Nil
    then show ?thesis
      using decompression_stream_empty[OF Nil, of z limits] unfolding Nil
      by (simp add: compression_reverse_def Let_def)
  next
    case (Cons x body)
    obtain payload where p: "concat payload = body"
      and run: "decompression_stream z limits chunks =
        (case ID_TO_TYPE (unat x) of
           None \<Rightarrow> Inl (UnsupportedAlgorithmError (in_stage ''compression'' ''decompress''))
         | Some detectedType \<Rightarrow>
             rbind (if detectedType = ''gzip'' then inflate_chunks z Gzip payload
                    else if detectedType = ''brotli'' then inflate_chunks z Brotli payload
                    else Inr payload)
               (limit_outputs (pluginOutputLimit limits) 0))"
      using decompression_stream_message[OF Cons fits, of z] by blast
    have types: "ID_TO_TYPE (unat x) = None \<or> ID_TO_TYPE (unat x) = Some ''none''
      \<or> ID_TO_TYPE (unat x) = Some ''gzip'' \<or> ID_TO_TYPE (unat x) = Some ''brotli''"
      by (simp add: ID_TO_TYPE.simps)
    have inf: "(\<exists>outs. rbind (inflate_chunks z k payload) (limit_outputs m 0) = Inr outs \<and> concat outs = data) \<longleftrightarrow>
        rbind (inflate z k body) (max_output_length m) = Inr data" for k m
      using inflate_chunks_iff[OF assms, of k payload data] p
      by (auto simp: rbind_eq_Inr limit_outputs_Inr)
    show ?thesis
      using types inf[of Gzip] inf[of Brotli] p fits Cons unfolding run
      by (auto simp: compression_reverse_def Let_def limit_outputs_Inr)
  qed
qed

section \<open>Properties\<close>

text \<open>Whatever the configured algorithm and level, what \<open>process\<close> returns is decompressed by
  \<open>reverse\<close> under the same limits to the original data, provided the data itself is within the output
  limit; \<open>reverse\<close> needs no options, it reads the algorithm from the header byte.\<close>

theorem compression_roundtrip:
  assumes "zlib_ok z" "TYPE_BYTE_MAP (cmp_type options) \<noteq> None"
    and "compression_process z options data limits = Inr message"
    and "length data \<le> pluginOutputLimit limits"
  shows "compression_reverse z message limits = Inr data"
proof -
  note message = compression_process_Inr[OF assms(3)]
  have "length message \<le> pluginInputLimit limits"
    using message(2)[OF assms(2)] pluginOutputLimit_le_pluginInputLimit[of limits] by simp
  then show ?thesis
    using compression_reverse_message[OF assms(1,2) _ assms(4)] message(1) by simp
qed

definition gzip_options :: compression_options where
  "gzip_options = \<lparr>cmp_type = ''gzip'', cmp_level = None\<rparr>"

lemma gzip_known: "TYPE_BYTE_MAP (cmp_type gzip_options) \<noteq> None"
  by (simp add: TYPE_BYTE_MAP_def gzip_options_def)

lemma gzip_toy: "compression_process toy_zlib gzip_options [7, 8] None = Inr [1, 31, 7, 8]"
  by (simp add: compression_process_def gzip_options_def type_header_bytes toy_zlib_def
      default_plugin_limits Let_def max_output_length_def)

theorem compression_roundtrip_witness: "compression_reverse toy_zlib [1, 31, 7, 8] None = Inr [7, 8]"
  by (rule compression_roundtrip[OF zlib_ok_toy gzip_known gzip_toy]) (simp add: default_plugin_limits)

text \<open>However a message is cut into chunks, empty ones included, the decompressing stream yields
  some data exactly when \<open>reverse\<close> returns that data for the whole message.\<close>

theorem decompression_stream_is_reverse:
  assumes "zlib_ok z"
  shows "(\<exists>outs. decompression_stream z limits chunks = Inr outs \<and> concat outs = data) \<longleftrightarrow>
    compression_reverse z (concat chunks) limits = Inr data"
  by (rule decompression_stream_iff[OF assms])

lemma gzip_toy_reverse: "compression_reverse toy_zlib [1, 31, 7, 8] None = Inr [7, 8]"
  by (simp add: compression_reverse_def ID_TO_TYPE_bytes toy_zlib_def default_plugin_limits Let_def)

theorem decompression_stream_is_reverse_witness:
  "\<exists>outs. decompression_stream toy_zlib None [[], [1], [31, 7], [], [8]] = Inr outs \<and> concat outs = [7, 8]"
  using decompression_stream_is_reverse[OF zlib_ok_toy, of None "[[], [1], [31, 7], [], [8]]" "[7, 8]"]
    gzip_toy_reverse by simp

text \<open>What the compressing stream produces, the decompressing stream restores, however either side's
  input is cut into chunks on the way.\<close>

theorem compression_stream_roundtrip:
  assumes "zlib_ok z" "TYPE_BYTE_MAP (cmp_type options) \<noteq> None"
    and "compression_stream z options limits chunks = Inr outs"
    and "length (concat chunks) \<le> pluginOutputLimit limits" "concat received = concat outs"
  shows "\<exists>restored. decompression_stream z limits received = Inr restored
    \<and> concat restored = concat chunks"
proof -
  let ?body = "concat (compress_chunks z options chunks)"
  from assms(3) have outs: "concat outs = type_header (cmp_type options) @ ?body"
    "length (concat outs) \<le> pluginInputLimit limits"
    using pluginOutputLimit_le_pluginInputLimit[of limits] unfolding compression_stream_Inr by auto
  from assms(2) have "compression_reverse z (type_header (cmp_type options) @ ?body) limits = Inr (concat chunks)"
  proof (cases rule: known_type_cases)
    case 1
    then show ?thesis using assms outs
      by (simp add: compression_reverse_def compress_chunks_def type_header_bytes ID_TO_TYPE_bytes Let_def)
  next
    case 2
    then show ?thesis using assms outs
      by (simp add: compression_reverse_def compress_chunks_def type_header_bytes ID_TO_TYPE_bytes Let_def
          zlib_ok_def)
  next
    case 3
    then show ?thesis using assms outs
      by (simp add: compression_reverse_def compress_chunks_def type_header_bytes ID_TO_TYPE_bytes Let_def
          zlib_ok_def)
  qed
  then show ?thesis
    unfolding decompression_stream_iff[OF assms(1)] assms(5) outs(1) .
qed

theorem compression_stream_roundtrip_witness:
  "\<exists>restored. decompression_stream toy_zlib None [[1, 31], [7], [8]] = Inr restored \<and> concat restored = [7, 8]"
proof -
  have "compression_stream toy_zlib gzip_options None [[7], [8]] = Inr [[1], [31], [7], [8]]"
    unfolding compression_stream_Inr
    by (simp add: gzip_options_def compress_chunks_def type_header_bytes toy_zlib_def default_plugin_limits Let_def)
  from compression_stream_roundtrip[OF zlib_ok_toy gzip_known this, of "[[1, 31], [7], [8]]"]
  show ?thesis by (simp add: default_plugin_limits)
qed

text \<open>A type that the constructor accepts only because every JavaScript object inherits a property
  of that name does not compress: \<open>process\<close> stores the data behind the header byte of \<open>none\<close>.\<close>

theorem compression_inherited_type:
  assumes "name \<in> set object_prototype_names" "1 < pluginOutputLimit limits"
    and "length data \<le> pluginInputLimit limits"
  shows "let options = \<lparr>cmp_type = name, cmp_level = None\<rparr> in
    new_CompressionPlugin options = Inr options
    \<and> compression_process z options data limits = Inr (0 # data)"
proof -
  have "TYPE_BYTE_MAP name = None" "name \<noteq> ''none''" "name \<noteq> ''gzip''" "name \<noteq> ''brotli''"
    using assms(1) by (auto simp: TYPE_BYTE_MAP_def object_prototype_names_def)
  then show ?thesis
    using assms by (simp add: Let_def new_CompressionPlugin_def in_object_def compression_process_def
        type_header_other)
qed

theorem compression_inherited_type_witness:
  "let options = \<lparr>cmp_type = ''toString'', cmp_level = None\<rparr> in
    new_CompressionPlugin options = Inr options
    \<and> compression_process toy_zlib options [7, 8] None = Inr [0, 7, 8]"
  by (rule compression_inherited_type) (simp_all add: object_prototype_names_def default_plugin_limits)

end
