(* ===== verification/Built_In_Plugins.thy ===== *)
theory Built_In_Plugins
  imports Round_Trip Kms_Safety Compression
begin

text \<open>
  The plugins of the package as the engine holds them (\<open>src/plugin/hashing.ts\<close>, \<open>compression.ts\<close>,
  \<open>encryption.ts\<close>, \<open>kms_encryption.ts\<close>), the contract they share, and what follows for a pipeline made
  of them.
\<close>

section \<open>Plugins\<close>

text \<open>
  An \<open>async\<close> method that computes a new buffer, or fails: its promise settles after the time the work
  takes.  The result has an identity of its own.
\<close>

type_synonym buffer_method = "processor_context \<Rightarrow> nat \<Rightarrow> time \<Rightarrow> buffer \<Rightarrow> px_error + buffer"

definition async_call :: "(buffer \<Rightarrow> time) \<Rightarrow> nat \<Rightarrow> buffer_method \<Rightarrow> plugin_call" where
  "async_call duration fresh f ctx data i now =
     Settles (now + duration (bytes_of data)) (map_sum id (\<lambda>b. Some (fresh, b)) (f ctx i now (bytes_of data)))"

text \<open>What the methods call: \<open>createHmac\<close>, \<open>zlib\<close>, the ciphers and \<open>randomBytes\<close>.\<close>

record services =
  sv_hmac :: hmac
  sv_zlib :: zlib
  sv_crypto :: node_crypto
  sv_salt :: "nat \<Rightarrow> time \<Rightarrow> buffer"
  sv_iv :: "nat \<Rightarrow> time \<Rightarrow> buffer"
  sv_duration :: "buffer \<Rightarrow> time"
  sv_fresh :: nat

definition hashing_encode :: "services \<Rightarrow> hashing_options \<Rightarrow> buffer_method" where
  "hashing_encode sv options ctx i now data = map_sum id fst (hashing_process (sv_hmac sv) options data ctx)"

definition hashing_decode :: "services \<Rightarrow> hashing_options \<Rightarrow> buffer_method" where
  "hashing_decode sv options ctx i now data = map_sum id fst (hashing_reverse (sv_hmac sv) options data ctx)"

definition compression_encode :: "services \<Rightarrow> compression_options \<Rightarrow> buffer_method" where
  "compression_encode sv options ctx i now data = compression_process (sv_zlib sv) options data (ctx_limits ctx)"

definition compression_decode :: "services \<Rightarrow> buffer_method" where
  "compression_decode sv ctx i now data = compression_reverse (sv_zlib sv) data (ctx_limits ctx)"

definition encryption_encode :: "services \<Rightarrow> encryption_options \<Rightarrow> buffer_method" where
  "encryption_encode sv options ctx i now data =
     encryptBuffer (sv_crypto sv) (sv_salt sv i now) data options (ctx_limits ctx)"

definition encryption_decode :: "services \<Rightarrow> encryption_options \<Rightarrow> buffer_method" where
  "encryption_decode sv options ctx i now data = decryptBuffer (sv_crypto sv) data options (ctx_limits ctx)"

text \<open>The members that the classes share: they extend \<open>BasePlugin\<close> and have a \<open>createStream\<close>.\<close>

definition codec_plugin :: "services \<Rightarrow> string \<Rightarrow> string \<Rightarrow> buffer_method \<Rightarrow> buffer_method \<Rightarrow> plugin" where
  "codec_plugin sv name version encode decode =
     (let rev_method = OwnReverse (async_call (sv_duration sv) (sv_fresh sv) decode) in
      \<lparr>plugin_name = name, plugin_version = version, plugin_reversible = base_reversible rev_method,
       plugin_streaming = FUndefined, plugin_process = async_call (sv_duration sv) (sv_fresh sv) encode,
       plugin_reverse = rev_method, plugin_createStream = True, plugin_retryOptions = None\<rparr>)"

definition hashing_plugin :: "services \<Rightarrow> hashing_options \<Rightarrow> plugin" where
  "hashing_plugin sv options =
     codec_plugin sv ''hashing'' ''3.0.0'' (hashing_encode sv options) (hashing_decode sv options)"

definition compression_plugin :: "services \<Rightarrow> compression_options \<Rightarrow> plugin" where
  "compression_plugin sv options =
     codec_plugin sv ''compression'' ''3.0.0'' (compression_encode sv options) (compression_decode sv)"

definition encryption_plugin :: "services \<Rightarrow> encryption_options \<Rightarrow> plugin" where
  "encryption_plugin sv options =
     codec_plugin sv ''encryption'' ''4.0.0'' (encryption_encode sv options) (encryption_decode sv options)"

section \<open>Construction of the encryption plugin\<close>

text \<open>The options as a JavaScript caller may pass them; a key that is no buffer is \<open>None\<close>.\<close>

record raw_encryption_options =
  raw_key :: "buffer option"
  raw_algorithm :: string
  raw_frameSizeBytes :: "js_limit option"
  raw_allowLegacy :: js_flag

fun algorithm_named :: "string \<Rightarrow> encryption_algorithm option" where
  "algorithm_named name =
     (if name = ''aes-256-gcm'' then Some Aes256Gcm
      else if name = ''chacha20-poly1305'' then Some ChaCha20Poly1305 else None)"

definition frame_size_option_ok :: "js_limit option \<Rightarrow> bool" where
  "frame_size_option_ok v =
     (case v of None \<Rightarrow> True | Some LOther \<Rightarrow> False
      | Some (LInt n) \<Rightarrow> is_safe_integer n \<and> \<not> n < 1 \<and> \<not> n > 0xffffffff)"

definition new_EncryptionPlugin :: "raw_encryption_options option \<Rightarrow> px_error + encryption_options" where
  "new_EncryptionPlugin options =
     (case options of None \<Rightarrow> Inl InvalidKeyError
      | Some raw \<Rightarrow>
          (case raw_key raw of None \<Rightarrow> Inl InvalidKeyError
           | Some key \<Rightarrow>
               if length key \<noteq> 32 then Inl InvalidKeyError
               else case algorithm_named (raw_algorithm raw) of
                 None \<Rightarrow> Inl (UnsupportedAlgorithmError (in_stage ''encryption'' ''configuration''))
               | Some algorithm \<Rightarrow>
                   if \<not> frame_size_option_ok (raw_frameSizeBytes raw)
                   then Inl (EncryptionError ''[PipeX] Invalid encryption frame size'')
                   else (case raw_allowLegacy raw of
                       FOther \<Rightarrow> Inl (EncryptionError ''[PipeX] Invalid legacy decryption setting'')
                     | FUndefined \<Rightarrow> Inr \<lparr>opt_algorithm = algorithm, opt_key = key,
                         opt_frameSizeBytes = raw_frameSizeBytes raw, opt_allowLegacyDecrypt = None\<rparr>
                     | FBool b \<Rightarrow> Inr \<lparr>opt_algorithm = algorithm, opt_key = key,
                         opt_frameSizeBytes = raw_frameSizeBytes raw, opt_allowLegacyDecrypt = Some b\<rparr>)))"

section \<open>The contract\<close>

text \<open>
  Two methods that are inverse under the same limits as long as data and message respect them, given
  that the services are \<open>sound\<close>.
\<close>

locale codec =
  fixes sound :: bool and encode decode :: buffer_method
  assumes decode_encode:
    "sound \<Longrightarrow> encode ctx i now data = Inr message \<Longrightarrow> ctx_limits ctx' = ctx_limits ctx \<Longrightarrow>
       length data \<le> pluginOutputLimit (ctx_limits ctx) \<Longrightarrow> length message \<le> pluginOutputLimit (ctx_limits ctx) \<Longrightarrow>
       decode ctx' j later message = Inr data"
begin

lemma call_inverts:
  assumes sound "async_call duration fresh encode ctx data i now = Settles t (Inr (Some out))"
    and "ctx_limits ctx' = ctx_limits ctx" "bytes_of out' = bytes_of out"
    and "length (bytes_of data) \<le> pluginOutputLimit (ctx_limits ctx)"
    and "length (bytes_of out) \<le> pluginOutputLimit (ctx_limits ctx)"
  shows "async_call duration fresh decode ctx' out' j later =
    Settles (later + duration (bytes_of out)) (Inr (Some (fresh, bytes_of data)))"
proof -
  have "encode ctx i now (bytes_of data) = Inr (bytes_of out)"
    using assms(2) by (cases "encode ctx i now (bytes_of data)") (auto simp: async_call_def)
  from decode_encode[OF assms(1) this assms(3,5,6)] show ?thesis
    using assms(4) by (simp add: async_call_def)
qed

lemma plugin_inverts_codec:
  assumes sound
  shows "plugin_inverts limits (codec_plugin sv name version encode decode)"
  unfolding plugin_inverts_def codec_plugin_def Let_def
proof (intro allI impI, goal_cases)
  case (1 ctx data i now t out ctx' out' now')
  from call_inverts[OF assms _ _ 1(6), of "sv_duration sv" "sv_fresh sv" ctx data i now t ctx' 0 now'] 1
  show ?case by (simp add: call_reverse_def pluginOutputLimit_def context_limits_def)
qed

end

definition hashing_sound :: "services \<Rightarrow> hashing_options \<Rightarrow> bool" where
  "hashing_sound sv options \<longleftrightarrow> hmac_ok (sv_hmac sv) \<and> HASH_LENGTHS (hash_algorithm options) \<noteq> None"

definition compression_sound :: "services \<Rightarrow> compression_options \<Rightarrow> bool" where
  "compression_sound sv options \<longleftrightarrow> zlib_ok (sv_zlib sv) \<and> TYPE_BYTE_MAP (cmp_type options) \<noteq> None"

definition encryption_sound :: "services \<Rightarrow> bool" where
  "encryption_sound sv \<longleftrightarrow> aead_ok (sv_crypto sv) \<and> (\<forall>i now. length (sv_salt sv i now) = 16)"

interpretation hashing_codec: codec "hashing_sound sv options" "hashing_encode sv options"
    "hashing_decode sv options" for sv options
proof
  fix ctx ctx' :: processor_context and i j :: nat and now later :: time and data message :: buffer
  assume sound: "hashing_sound sv options" and m: "hashing_encode sv options ctx i now data = Inr message"
    and limits: "ctx_limits ctx' = ctx_limits ctx"
    and fits: "length data \<le> pluginOutputLimit (ctx_limits ctx)" "length message \<le> pluginOutputLimit (ctx_limits ctx)"
  obtain h len where h: "hmac_for (sv_hmac sv) options h len"
    using sound hmac_ok_for unfolding hashing_sound_def by blast
  obtain c where "hashing_process (sv_hmac sv) options data ctx = Inr (message, c)"
    using m by (cases "hashing_process (sv_hmac sv) options data ctx") (auto simp: hashing_encode_def)
  then have "message = data @ h data" by (simp add: hashing_process_iff[OF h])
  moreover have "length message \<le> pluginInputLimit (ctx_limits ctx')"
    using fits(2) limits pluginOutputLimit_le_pluginInputLimit[of "ctx_limits ctx"] by simp
  ultimately show "hashing_decode sv options ctx' j later message = Inr data"
    using verify_buffer_iff[OF h, of "pluginOutputLimit (ctx_limits ctx')" message data] fits(1) limits
    by (simp add: hashing_decode_def hashing_reverse_verify_buffer[OF h])
qed

interpretation compression_codec: codec "compression_sound sv options" "compression_encode sv options"
    "compression_decode sv" for sv options
proof
  fix ctx ctx' :: processor_context and i j :: nat and now later :: time and data message :: buffer
  assume sound: "compression_sound sv options" and m: "compression_encode sv options ctx i now data = Inr message"
    and limits: "ctx_limits ctx' = ctx_limits ctx"
    and fits: "length data \<le> pluginOutputLimit (ctx_limits ctx)" "length message \<le> pluginOutputLimit (ctx_limits ctx)"
  from m have "message = type_header (cmp_type options) @ body_of (sv_zlib sv) options data"
    by (auto simp: compression_encode_def dest: compression_process_Inr(1))
  then show "compression_decode sv ctx' j later message = Inr data"
    using compression_reverse_message[of "sv_zlib sv" options data "ctx_limits ctx"] sound fits limits
      pluginOutputLimit_le_pluginInputLimit[of "ctx_limits ctx"]
    by (simp add: compression_decode_def compression_sound_def)
qed

interpretation encryption_codec: codec "encryption_sound sv" "encryption_encode sv options"
    "encryption_decode sv options" for sv options
  by unfold_locales
    (auto simp: encryption_encode_def encryption_decode_def encryption_sound_def intro: decrypt_encrypted)

section \<open>The KMS plugin keeps the contract\<close>

text \<open>
  The provider unwraps whatever key it wrapped, before the operation times out, and its capabilities
  include that.
\<close>

definition kms_unwraps :: "engine_limits \<Rightarrow> kms_options \<Rightarrow> bool" where
  "kms_unwraps limits options \<longleftrightarrow>
     (\<forall>signal now t key ek signal' later.
        svc_generateDataKey (ko_kms options) (ko_keyId options) signal now
          = Settles t (Inr \<lparr>dk_plaintext = Some key, dk_ciphertext = Some ek\<rparr>) \<longrightarrow>
        (\<exists>t'. svc_decrypt (ko_kms options) ek (ko_keyId options) signal' later = Settles t' (Inr (Some key))
           \<and> (0 < operationTimeoutMs limits \<longrightarrow> t' < later + operationTimeoutMs limits)))"

definition kms_sound :: "services \<Rightarrow> engine_limits \<Rightarrow> kms_options \<Rightarrow> bool" where
  "kms_sound sv limits options \<longleftrightarrow> aead_ok (sv_crypto sv) \<and> (\<forall>i now. length (sv_iv sv i now) = 12)
     \<and> assertKmsOperation (Some (svc_provider (ko_kms options))) KmsDecrypt = Inr ()
     \<and> operationTimeoutMs limits \<le> MAX_TIMER_MS \<and> kms_unwraps limits options"

lemma map_sum_eq_Inr: "map_sum f g r = Inr y \<longleftrightarrow> (\<exists>x. r = Inr x \<and> y = g x)"
  by (cases r) auto

lemma providerControl_free:
  assumes "ctx_limits ctx = Some limits" "operationTimeoutMs limits \<le> MAX_TIMER_MS"
    and "\<And>sig. ctx_signal ctx = Some sig \<Longrightarrow> cut_off sig = None"
  shows "providerControl ctx now = Inr (if operationTimeoutMs limits = 0 then None
    else Some (now + operationTimeoutMs limits, kms_timeout_reason))"
proof -
  have "(case ctx_signal ctx of None \<Rightarrow> None | Some sig \<Rightarrow> sig_abort sig) = None"
    using assms(3) by (auto simp: cut_off_def first_failure_def split: option.splits)
  then show ?thesis
    using assms(1,2) by (simp add: providerControl_def context_limits_def is_safe_integer_def max_safe_integer_def
        MAX_TIMER_MS_def abort_any_def Let_def)
qed

lemma kms_unwraps_delivers:
  assumes "kms_sound sv limits options" "ctx_limits ctx' = Some limits"
    and "\<And>sig. ctx_signal ctx' = Some sig \<Longrightarrow> cut_off sig = None"
    and "svc_generateDataKey (ko_kms options) (ko_keyId options) signal now
      = Settles t (Inr \<lparr>dk_plaintext = Some key, dk_ciphertext = Some ek\<rparr>)"
  shows "\<exists>t'. provider_delivers (svc_provider (ko_kms options)) KmsDecrypt ctx'
    (svc_decrypt (ko_kms options) ek (ko_keyId options)) later t' (Some key)"
proof -
  define signal' where "signal' = (if operationTimeoutMs limits = 0 then None
    else Some (later + operationTimeoutMs limits, kms_timeout_reason))"
  have sound: "assertKmsOperation (Some (svc_provider (ko_kms options))) KmsDecrypt = Inr ()"
    "operationTimeoutMs limits \<le> MAX_TIMER_MS" "kms_unwraps limits options"
    using assms(1) by (simp_all add: kms_sound_def)
  have control: "providerControl ctx' later = Inr signal'"
    unfolding signal'_def by (rule providerControl_free[OF assms(2) sound(2) assms(3)])
  obtain t' where "svc_decrypt (ko_kms options) ek (ko_keyId options) signal' later = Settles t' (Inr (Some key))"
    "0 < operationTimeoutMs limits \<longrightarrow> t' < later + operationTimeoutMs limits"
    using sound(3) assms(4) unfolding kms_unwraps_def by blast
  then show ?thesis
    using sound(1) control
    by (auto simp: provider_delivers_def provider_called_def signal'_def signal_aborted_def)
qed

lemma kms_inverts:
  assumes "kms_sound sv limits options"
  shows "plugin_inverts limits (kms_plugin (sv_crypto sv) (sv_iv sv) (sv_fresh sv) options)"
  unfolding plugin_inverts_def
proof (intro allI impI, goal_cases)
  case (1 ctx data i now t out ctx' out' now')
  have sound: "aead_ok (sv_crypto sv)" "length (sv_iv sv i now) = 12" using assms by (simp_all add: kms_sound_def)
  have sealed: "kms_result (kms_process (sv_crypto sv) (sv_iv sv i now) options (bytes_of data) ctx now)
      = Settles t (Inr (bytes_of out))"
    using 1(5) by (cases "kms_result (kms_process (sv_crypto sv) (sv_iv sv i now) options (bytes_of data) ctx now)")
      (auto simp: kms_plugin_def kms_call_def map_sum_eq_Inr)
  have "length (bytes_of out) \<le> pluginInputLimit (ctx_limits ctx)"
    using 1(1,4) by (simp add: pluginInputLimit_def context_limits_def)
  moreover have "ctx_limits ctx' = ctx_limits ctx" using 1(1,2) by simp
  moreover have "\<exists>t'. provider_delivers (svc_provider (ko_kms options)) KmsDecrypt ctx'
        (svc_decrypt (ko_kms options) ek (ko_keyId options)) now' t' (Some key)"
    if "svc_generateDataKey (ko_kms options) (ko_keyId options) signal now
        = Settles t (Inr \<lparr>dk_plaintext = Some key, dk_ciphertext = Some ek\<rparr>)" for key ek signal
    using kms_unwraps_delivers[OF assms 1(2) _ that] 1(7) by blast
  ultimately obtain t' where "kms_result (kms_reverse (sv_crypto sv) options (bytes_of out) ctx' now')
      = Settles t' (Inr (bytes_of data))"
    using kms_process_restored[OF sound sealed] by blast
  then show ?case using 1(6) by (simp add: call_reverse_def kms_plugin_def kms_call_def)
qed

section \<open>Pipelines\<close>

datatype built_in =
  Hashing hashing_options | Compression compression_options | Encryption encryption_options | Kms kms_options

fun built_in_plugin :: "services \<Rightarrow> built_in \<Rightarrow> plugin" where
  "built_in_plugin sv (Hashing options) = hashing_plugin sv options"
| "built_in_plugin sv (Compression options) = compression_plugin sv options"
| "built_in_plugin sv (Encryption options) = encryption_plugin sv options"
| "built_in_plugin sv (Kms options) = kms_plugin (sv_crypto sv) (sv_iv sv) (sv_fresh sv) options"

fun built_in_sound :: "services \<Rightarrow> engine_limits \<Rightarrow> built_in \<Rightarrow> bool" where
  "built_in_sound sv limits (Hashing options) = hashing_sound sv options"
| "built_in_sound sv limits (Compression options) = compression_sound sv options"
| "built_in_sound sv limits (Encryption options) = encryption_sound sv"
| "built_in_sound sv limits (Kms options) = kms_sound sv limits options"

lemma built_in_inverts: "built_in_sound sv limits b \<Longrightarrow> plugin_inverts limits (built_in_plugin sv b)"
  by (cases b) (simp_all add: hashing_plugin_def compression_plugin_def encryption_plugin_def
      hashing_codec.plugin_inverts_codec compression_codec.plugin_inverts_codec
      encryption_codec.plugin_inverts_codec kms_inverts)

lemma codec_plugin_reversible: "supportsReverse (codec_plugin sv name version e d) = Inr True"
  by (simp add: supportsReverse_def supportsOperation_def getPluginCapabilities_def codec_plugin_def
      base_reversible_def has_own_reverse_def Let_def)

lemma kms_plugin_reversible:
  assumes "assertKmsOperation (Some (svc_provider (ko_kms options))) KmsDecrypt = Inr ()"
  shows "supportsReverse (kms_plugin c iv fresh options) = Inr True"
proof -
  have "kms_reversible options"
    using assms by (auto simp: kms_reversible_def assertKmsOperation_def supportsKmsOperation_def rbind_eq_Inr)
  then show ?thesis
    by (simp add: supportsReverse_def supportsOperation_def getPluginCapabilities_def kms_plugin_def
        has_own_reverse_def Let_def)
qed

lemma built_in_reversible:
  "list_all (built_in_sound sv limits) bs \<Longrightarrow> assertReversiblePipeline (map (built_in_plugin sv) bs) = Inr ()"
  unfolding assertReversiblePipeline_iff list_all_iff
proof
  fix p assume "\<forall>b\<in>set bs. built_in_sound sv limits b" "p \<in> set (map (built_in_plugin sv) bs)"
  then obtain b where "p = built_in_plugin sv b" "built_in_sound sv limits b" by auto
  then show "supportsReverse p = Inr True"
    by (cases b) (simp_all add: hashing_plugin_def compression_plugin_def encryption_plugin_def
        codec_plugin_reversible kms_sound_def kms_plugin_reversible)
qed

lemma built_in_label: "length (plugin_id (built_in_plugin sv b)) \<le> 20"
  by (cases b) (simp_all add: plugin_id_def hashing_plugin_def compression_plugin_def encryption_plugin_def
      codec_plugin_def kms_plugin_def Let_def)

definition undoable_pipeline :: "engine \<Rightarrow> bool" where
  "undoable_pipeline e \<longleftrightarrow> list_all (plugin_inverts (eng_limits e)) (eng_plugins e)
     \<and> assertReversiblePipeline (eng_plugins e) = Inr () \<and> length (eng_plugins e) \<le> 256
     \<and> (\<forall>p \<in> set (eng_plugins e). length (plugin_id p) \<le> 512)"

lemma built_in_undoable:
  assumes "eng_plugins e = map (built_in_plugin sv) bs" "list_all (built_in_sound sv (eng_limits e)) bs" "length bs \<le> 256"
  shows "undoable_pipeline e"
proof -
  have "length (plugin_id (built_in_plugin sv b)) \<le> 512" for b using built_in_label[of sv b] by simp
  then show ?thesis
    using assms built_in_inverts built_in_reversible by (auto simp: undoable_pipeline_def list_all_iff)
qed

text \<open>\<open>run\<close> gave \<open>res\<close> for \<open>v\<close>, within the limits that \<open>undo\<close> checks again.\<close>

definition ran_within :: "js_runtime \<Rightarrow> nat \<Rightarrow> engine_limits \<Rightarrow> js_value \<Rightarrow> engine_result \<Rightarrow> bool" where
  "ran_within rt fresh limits v res \<longleftrightarrow> length (bytes_of (er_data res)) \<le> maxInputBytes limits
     \<and> (\<forall>data. toBuffer rt fresh v = Inr data \<longrightarrow> length (bytes_of data) \<le> maxOutputBytes limits)"

lemma undo_restores_pipeline:
  assumes "runtime_ok rt words plain" "carried words plain v" "undoable_pipeline (rs_engine s)"
    and "binary_run rt fresh r v options s = (s1, Returns res)"
    and "ran_within rt fresh (eng_limits (rs_engine s)) v res"
    and "ready_to_undo s s2" "schema_blind (rs_engine s)" "undo_trusts s2 res undo_opts"
    and "createOperationSignal (eng_limits (rs_engine s2)) (options_of undo_opts) (rs_now s2) = Inr signal2"
    and "cut_off signal2 = None"
  shows "\<exists>s3 w. binary_undo rt fresh2 r2 (UndoResult (as_transported res names) undo_opts) s2
    = (s3, Returns w) \<and> same_value w v"
  using assms(3,5)
  by (intro undo_restores_run[OF assms(1,2,4) _ _ _ _ _ _ assms(6-10)])
    (auto simp: undoable_pipeline_def ran_within_def)

definition toy_services :: services where
  "toy_services = \<lparr>sv_hmac = toy_hmac, sv_zlib = toy_zlib, sv_crypto = toy_crypto,
     sv_salt = (\<lambda>_ _. replicate 16 9), sv_iv = (\<lambda>_ _. replicate 12 1), sv_duration = length, sv_fresh = 20\<rparr>"

definition signed_engine :: engine where
  "signed_engine = fresh_engine\<lparr>eng_limits := DEFAULT_LIMITS\<lparr>operationTimeoutMs := 0\<rparr>,
     eng_plugins := map (built_in_plugin toy_services) [Compression gzip_options, Hashing sha256_options]\<rparr>"

lemma accepted_codec:
  assumes "\<And>now. encode (makeContext r [''originalType'' \<mapsto> t] (Some signal) (Some limits) now) 0 now (bytes_of data)
      = Inr message"
    and "length message \<le> maxOutputBytes limits" "1 \<le> maxRetryAttempts limits"
    and "accepted r t signal limits ps (sv_fresh sv, message) out"
  shows "accepted r t signal limits (codec_plugin sv name version encode decode # ps) data out"
  by (rule accepted_Cons[OF _ _ _ assms(4)])
    (use assms in \<open>auto simp: codec_plugin_def Let_def async_call_def retry_plan_None\<close>)

lemma signed_runs:
  "\<exists>s' res. binary_run toy_runtime 9 ''r'' (JsString ''hi'') default_options (start_state signed_engine)
     = (s', Returns res) \<and> er_data res = (20, [1, 31, 104, 105] @ toy_digest [1, 31, 104, 105])"
proof (rule run_succeeds)
  let ?limits = "DEFAULT_LIMITS\<lparr>operationTimeoutMs := 0\<rparr>" and ?signal = "\<lparr>sig_abort = None, sig_deadline = None\<rparr>"
  show "createOperationSignal (eng_limits (rs_engine (start_state signed_engine))) default_options
      (rs_now (start_state signed_engine)) = Inr ?signal"
    by (simp add: evaluate_signal start_state_def signed_engine_def)
  show "cut_off ?signal = None" by (simp add: cut_off_def first_failure_def)
  show "run_input toy_runtime 9 (eng_limits (rs_engine (start_state signed_engine))) (detectType (JsString ''hi''))
      (JsString ''hi'') = Inr (9, [104, 105])"
    by (simp add: evaluate_value start_state_def signed_engine_def toy_runtime_def DEFAULT_LIMITS_def)
  have zipped: "compression_encode toy_services gzip_options (makeContext r m sig (Some ?limits) now) i now [104, 105]
      = Inr [1, 31, 104, 105]" for r m sig i now
    by (simp add: compression_encode_def compression_process_def gzip_options_def type_header_bytes toy_zlib_def
        toy_services_def makeContext_def pluginInputLimit_def pluginOutputLimit_def context_limits_def
        DEFAULT_LIMITS_def Let_def max_output_length_def)
  have hashed: "hashing_encode toy_services sha256_options (makeContext r m sig (Some ?limits) now) i now [1, 31, 104, 105]
      = Inr ([1, 31, 104, 105] @ toy_digest [1, 31, 104, 105])" for r m sig i now
  proof -
    let ?ctx = "makeContext r m sig (Some ?limits) now"
    have "hashing_process toy_hmac sha256_options [1, 31, 104, 105] ?ctx =
        Inr ([1, 31, 104, 105] @ toy_digest [1, 31, 104, 105],
          set_metadata ''hmac'' (hex (toy_digest [1, 31, 104, 105])) ?ctx)"
      by (subst hashing_process_iff[OF toy_hmac_for])
        (simp add: makeContext_def pluginInputLimit_def pluginOutputLimit_def context_limits_def
          DEFAULT_LIMITS_def Let_def)
    then show ?thesis by (simp add: hashing_encode_def toy_services_def)
  qed
  have fresh: "sv_fresh toy_services = 20" by (simp add: toy_services_def)
  have "accepted ''r'' t ?signal ?limits [compression_plugin toy_services gzip_options,
      hashing_plugin toy_services sha256_options] (9, [104, 105])
      (20, [1, 31, 104, 105] @ toy_digest [1, 31, 104, 105])" for t
    unfolding compression_plugin_def hashing_plugin_def
    by (rule accepted_codec[where message = "[1, 31, 104, 105]"], simp only: zipped snd_conv, simp add: DEFAULT_LIMITS_def,
        simp add: DEFAULT_LIMITS_def, unfold fresh,
        rule accepted_codec[where message = "[1, 31, 104, 105] @ toy_digest [1, 31, 104, 105]"],
        simp only: hashed snd_conv, simp add: DEFAULT_LIMITS_def toy_digest_def, simp add: DEFAULT_LIMITS_def,
        unfold fresh, rule accepted_Nil)
  then show "accepted ''r'' (detectType (JsString ''hi'')) ?signal (eng_limits (rs_engine (start_state signed_engine)))
      (eng_plugins (rs_engine (start_state signed_engine))) (9, [104, 105])
      (20, [1, 31, 104, 105] @ toy_digest [1, 31, 104, 105])"
    by (simp add: start_state_def signed_engine_def)
qed (simp_all add: start_state_def signed_engine_def fresh_engine_def DEFAULT_LIMITS_def validate_def detectType_def
    ORIGINAL_TYPES_def toy_digest_def)

section \<open>Properties\<close>



lemma toy_kms_sound: "kms_sound toy_services DEFAULT_LIMITS toy_kms"
  using toy_kms_supported aead_ok_toy
  by (simp add: kms_sound_def toy_services_def toy_kms_def kms_unwraps_def DEFAULT_LIMITS_def MAX_TIMER_MS_def)

lemma signed_sound: "list_all (built_in_sound toy_services limits) [Compression gzip_options, Hashing sha256_options]"
  using sha256_length gzip_known zlib_ok_toy hmac_ok_toy
  by (simp add: compression_sound_def hashing_sound_def toy_services_def)

lemma no_schema_blind: "eng_schema e = None \<Longrightarrow> schema_blind e"
  by (simp add: schema_blind_def validate_def)

lemma signed_ready: "ready_to_undo (start_state signed_engine) (start_state signed_engine)"
  by (simp add: ready_to_undo_def start_state_def signed_engine_def fresh_engine_def DEFAULT_LIMITS_def)

lemma signed_signal:
  "createOperationSignal (eng_limits (rs_engine (start_state signed_engine))) default_options
     (rs_now (start_state signed_engine)) = Inr \<lparr>sig_abort = None, sig_deadline = None\<rparr>"
  by (simp add: evaluate_signal start_state_def signed_engine_def)

lemma no_cut_off: "cut_off \<lparr>sig_abort = None, sig_deadline = None\<rparr> = None"
  by (simp add: cut_off_def first_failure_def)

lemma signed_within:
  assumes "er_data res = (20, [1, 31, 104, 105] @ toy_digest [1, 31, 104, 105])"
  shows "ran_within toy_runtime 9 (eng_limits (rs_engine (start_state signed_engine))) (JsString ''hi'') res"
  using assms by (auto simp: ran_within_def start_state_def signed_engine_def DEFAULT_LIMITS_def toy_digest_def
      toBuffer_def js_string_def toy_runtime_def)



end
