(* ===== verification/Worker_Pool.thy ===== *)
theory Worker_Pool
  imports Plugins
begin

text \<open>
  \<open>WorkerPoolPlugin\<close> (\<open>src/plugin/worker.ts\<close>): the validation of its options, the admission and the
  end of a task, and how the pool is closed.  \<open>Piscina\<close> is a parameter: what its promises settle with,
  and when, is an argument or a step; what it is asked to do is recorded.
\<close>

section \<open>Configuration\<close>

definition MAX_THREADS :: int where "MAX_THREADS = 128"
definition MAX_QUEUE :: int where "MAX_QUEUE = 100000"
definition DEFAULT_MAX_QUEUE :: nat where "DEFAULT_MAX_QUEUE = 64"

definition DEFAULT_MAX_THREADS :: "nat \<Rightarrow> nat" where
  "DEFAULT_MAX_THREADS availableParallelism = max 1 (min 4 availableParallelism)"

definition worker_pool_error :: "string \<Rightarrow> px_error" where
  "worker_pool_error what = JsError (''[PipeX] Worker pool '' @ what)"

definition validateInteger :: "js_limit option \<Rightarrow> string \<Rightarrow> bool \<Rightarrow> px_error + unit" where
  "validateInteger value name allowZero =
     (let e = worker_pool_error (name @ '' must be '' @ (if allowZero then ''a non-negative'' else ''a positive'') @ '' integer'') in
      case value of None \<Rightarrow> Inr ()
      | Some LOther \<Rightarrow> Inl e
      | Some (LInt n) \<Rightarrow> throw_if (\<not> is_safe_integer n \<or> n < (if allowZero then 0 else 1)) e)"

text \<open>An optional member that should be a string.\<close>

datatype js_name = NoName | Name string | OtherName

record worker_options =
  wo_filename :: js_name
  wo_processName :: js_name
  wo_reverseName :: js_name
  wo_maxThreads :: "js_limit option"
  wo_maxQueue :: "js_limit option"
  wo_taskTimeoutMs :: "js_limit option"
  wo_closeTimeoutMs :: "js_limit option"

definition above :: "js_limit option \<Rightarrow> int \<Rightarrow> bool" where
  "above value bound = (case value of Some (LInt n) \<Rightarrow> n > bound | _ \<Rightarrow> False)"

definition valid_export_name :: "js_name \<Rightarrow> bool" where
  "valid_export_name name = (case name of NoName \<Rightarrow> True | Name s \<Rightarrow> 0 < length s \<and> length s \<le> 128 | OtherName \<Rightarrow> False)"

text \<open>How far \<open>close\<close> has come: what its promise is waiting for, or how it settled.\<close>

datatype close_phase = NotClosing | WaitingIdle | ClosingPool | Destroying | CleaningUp | Closed "px_error + unit"

datatype piscina_call = PoolClose | PoolDestroy

text \<open>
  The private members.  \<open>#idleWaiters\<close> holds the one callback of \<open>close\<close> exactly in the phase
  \<open>WaitingIdle\<close>; the listener of \<open>error\<close> is removed when \<open>close\<close> settles.
\<close>

record worker_pool =
  wp_processName :: "string option"
  wp_reverseName :: "string option"
  wp_taskTimeoutMs :: "nat option"
  wp_maxThreads :: nat
  wp_maxQueue :: nat
  wp_maxInFlight :: nat
  wp_closeTimeoutMs :: nat
  wp_reversible :: bool
  wp_accepting :: bool
  wp_inFlight :: nat
  wp_fatalError :: "px_error option"
  wp_close :: close_phase
  wp_calls :: "piscina_call list"

definition name_of :: "js_name \<Rightarrow> string option" where
  "name_of name = (case name of Name s \<Rightarrow> Some s | _ \<Rightarrow> None)"

definition limit_or :: "js_limit option \<Rightarrow> nat \<Rightarrow> nat" where
  "limit_or value d = (case value of Some (LInt n) \<Rightarrow> nat n | _ \<Rightarrow> d)"

definition check_worker_options :: "worker_options \<Rightarrow> px_error + unit" where
  "check_worker_options o' =
     rbind (throw_if (wo_filename o' \<in> {NoName, OtherName}) (worker_pool_error ''requires a worker filename'')) (\<lambda>_.
     rbind (validateInteger (wo_maxThreads o') ''maxThreads'' False) (\<lambda>_.
     rbind (validateInteger (wo_maxQueue o') ''maxQueue'' False) (\<lambda>_.
     rbind (validateInteger (wo_taskTimeoutMs o') ''taskTimeoutMs'' True) (\<lambda>_.
     rbind (validateInteger (wo_closeTimeoutMs o') ''closeTimeoutMs'' True) (\<lambda>_.
     rbind (throw_if (above (wo_maxThreads o') MAX_THREADS) (worker_pool_error ''maxThreads cannot exceed 128'')) (\<lambda>_.
     rbind (throw_if (above (wo_maxQueue o') MAX_QUEUE) (worker_pool_error ''maxQueue cannot exceed 100000'')) (\<lambda>_.
     rbind (throw_if (above (wo_taskTimeoutMs o') (int MAX_TIMER_MS))
       (worker_pool_error ''taskTimeoutMs exceeds the supported timer range'')) (\<lambda>_.
     rbind (throw_if (above (wo_closeTimeoutMs o') (int MAX_TIMER_MS))
       (worker_pool_error ''closeTimeoutMs exceeds the supported timer range'')) (\<lambda>_.
     rbind (throw_if (\<not> valid_export_name (wo_processName o'))
       (worker_pool_error ''processName must be a non-empty export name'')) (\<lambda>_.
     throw_if (\<not> valid_export_name (wo_reverseName o'))
       (worker_pool_error ''reverseName must be a non-empty export name'')))))))))))"

text \<open>The constructor; options that are missing altogether are \<open>None\<close>.\<close>

definition new_WorkerPoolPlugin :: "nat \<Rightarrow> worker_options option \<Rightarrow> px_error + worker_pool" where
  "new_WorkerPoolPlugin cpus options =
     (case options of None \<Rightarrow> Inl (worker_pool_error ''requires a worker filename'')
      | Some o' \<Rightarrow>
          rbind (check_worker_options o') (\<lambda>_.
            let maxThreads = limit_or (wo_maxThreads o') (DEFAULT_MAX_THREADS cpus);
                maxQueue = limit_or (wo_maxQueue o') DEFAULT_MAX_QUEUE in
            Inr \<lparr>wp_processName = name_of (wo_processName o'), wp_reverseName = name_of (wo_reverseName o'),
              wp_taskTimeoutMs = map_option (\<lambda>v. limit_or (Some v) 0) (wo_taskTimeoutMs o'),
              wp_maxThreads = maxThreads, wp_maxQueue = maxQueue, wp_maxInFlight = maxThreads + maxQueue,
              wp_closeTimeoutMs = limit_or (wo_closeTimeoutMs o') 30000,
              wp_reversible = (wo_reverseName o' \<noteq> NoName), wp_accepting = True, wp_inFlight = 0,
              wp_fatalError = None, wp_close = NotClosing, wp_calls = []\<rparr>))"

text \<open>\<open>#onPoolError\<close>.\<close>

definition listening :: "worker_pool \<Rightarrow> bool" where
  "listening p = (case wp_close p of Closed r \<Rightarrow> False | _ \<Rightarrow> True)"

definition on_pool_error :: "worker_pool \<Rightarrow> worker_pool" where
  "on_pool_error p =
     (if wp_fatalError p \<noteq> None then p
      else p\<lparr>wp_fatalError := Some (WorkerTaskError ''worker-thread''), wp_accepting := False,
             wp_calls := wp_calls p @ [PoolDestroy]\<rparr>)"

section \<open>A task\<close>

definition worker_timeout_reason :: abort_reason where
  "worker_timeout_reason = ErrorReason ''TimeoutError'' ''Worker task timed out''"

definition taskControl :: "processor_context \<Rightarrow> nat option \<Rightarrow> time \<Rightarrow> px_error + plain_signal" where
  "taskControl ctx configuredTimeoutMs now =
     (let timeoutMs = (case configuredTimeoutMs of Some t \<Rightarrow> t
            | None \<Rightarrow> operationTimeoutMs (context_limits (ctx_limits ctx)));
          outer = (case ctx_signal ctx of None \<Rightarrow> None | Some sig \<Rightarrow> sig_abort sig) in
      if \<not> is_safe_integer (int timeoutMs) \<or> timeoutMs > MAX_TIMER_MS
      then Inl (JsError ''[PipeX] Invalid worker task timeout'')
      else if timeoutMs = 0 then Inr outer
      else Inr (abort_any outer (Some (now + timeoutMs, worker_timeout_reason))))"

text \<open>\<open>abortError\<close> of this file: the package's own errors are not named \<open>TimeoutError\<close>.\<close>

fun worker_abortError :: "abort_reason \<Rightarrow> px_error" where
  "worker_abortError (ErrorReason name message) =
     (if name = ''TimeoutError'' then OperationTimeoutError else OperationAbortedError)"
| "worker_abortError (PxReason e) = OperationAbortedError"
| "worker_abortError NullReason = OperationAbortedError"

text \<open>\<open>#run\<close> up to \<open>this.#inFlight++\<close>, and its signal.\<close>

definition worker_admit ::
  "worker_pool \<Rightarrow> buffer \<Rightarrow> processor_context \<Rightarrow> time \<Rightarrow> px_error + worker_pool \<times> plain_signal" where
  "worker_admit p data ctx now =
     (case wp_fatalError p of Some e \<Rightarrow> Inl e
      | None \<Rightarrow>
          let maxInputBytes = pluginInputLimit (ctx_limits ctx) in
          if \<not> wp_accepting p then Inl WorkerPoolClosedError
          else if length data > maxInputBytes
          then Inl (JsError (''[PipeX] Worker input exceeds '' @ nat_digits maxInputBytes @ '' bytes''))
          else if wp_inFlight p \<ge> wp_maxInFlight p then Inl (WorkerQueueFullError (wp_maxQueue p))
          else rbind (taskControl ctx (wp_taskTimeoutMs p) now) (\<lambda>signal.
            Inr (p\<lparr>wp_inFlight := wp_inFlight p + 1\<rparr>, signal)))"

text \<open>What a worker returns: bytes, in a buffer or a view of one, or something else.\<close>

datatype worker_reply = Bytes buffer | NonBinary

definition worker_output :: "engine_limits option \<Rightarrow> worker_reply \<Rightarrow> px_error + buffer" where
  "worker_output limits reply =
     (case reply of NonBinary \<Rightarrow> Inl (JsError ''worker returned a non-binary value'')
      | Bytes output \<Rightarrow>
          let maxOutputBytes = pluginOutputLimit limits in
          if length output > maxOutputBytes
          then Inl (JsError (''[PipeX] Worker output exceeds '' @ nat_digits maxOutputBytes @ '' bytes''))
          else Inr output)"

text \<open>The \<open>catch\<close> of \<open>#run\<close>, at \<open>t\<close>.\<close>

definition worker_failure :: "nat \<Rightarrow> string option \<Rightarrow> plain_signal \<Rightarrow> time \<Rightarrow> px_error \<Rightarrow> px_error" where
  "worker_failure maxQueue exportName signal t err =
     (case signal_aborted signal t of Some reason \<Rightarrow> worker_abortError reason
      | None \<Rightarrow>
          (case err of WorkerPoolClosedError \<Rightarrow> err
           | WorkerQueueFullError n \<Rightarrow> err
           | _ \<Rightarrow> if error_message err = ''Task queue is at limit''
                   \<or> error_message err = ''No task queue available and all Workers are busy''
                 then WorkerQueueFullError maxQueue
                 else WorkerTaskError (case exportName of Some name \<Rightarrow> name | None \<Rightarrow> ''default'')))"

text \<open>The \<open>try\<close> of \<open>#run\<close>; \<open>invoke\<close> is \<open>this.#pool.run\<close> on a copy of the data.\<close>

definition worker_await ::
  "nat \<Rightarrow> string option \<Rightarrow> engine_limits option \<Rightarrow> plain_signal
     \<Rightarrow> (plain_signal \<Rightarrow> time \<Rightarrow> worker_reply settlement) \<Rightarrow> time \<Rightarrow> buffer settlement" where
  "worker_await maxQueue exportName limits signal invoke now =
     (case signal_aborted signal now of
        Some reason \<Rightarrow> Settles now (Inl (worker_abortError reason))
      | None \<Rightarrow>
          (case invoke signal now of
             Pending \<Rightarrow> Pending
           | Settles t r \<Rightarrow>
               Settles t (case rbind r (worker_output limits) of
                 Inl err \<Rightarrow> Inl (worker_failure maxQueue exportName signal t err)
               | Inr output \<Rightarrow> Inr output)))"

text \<open>The \<open>finally\<close> of \<open>#run\<close>: the last task wakes \<open>close\<close>, which goes on to close the pool.\<close>

definition close_pool :: "worker_pool \<Rightarrow> worker_pool" where
  "close_pool p = p\<lparr>wp_close := ClosingPool, wp_calls := wp_calls p @ [PoolClose]\<rparr>"

definition worker_leave :: "worker_pool \<Rightarrow> worker_pool" where
  "worker_leave p =
     (let p = p\<lparr>wp_inFlight := wp_inFlight p - 1\<rparr> in
      if wp_inFlight p = 0 \<and> wp_close p = WaitingIdle then close_pool p else p)"

text \<open>The export that \<open>reverse\<close> calls; \<open>process\<close> calls \<open>#processName\<close> or the default one.\<close>

definition worker_reverse_export :: "worker_pool \<Rightarrow> px_error + string option" where
  "worker_reverse_export p =
     (case wp_reverseName p of None \<Rightarrow> Inl (UnsupportedReverseError ''worker-pool@5.0.0'')
      | Some name \<Rightarrow> Inr (Some name))"

section \<open>Closing\<close>

definition destroy_pool :: "close_phase \<Rightarrow> worker_pool \<Rightarrow> worker_pool" where
  "destroy_pool phase p = p\<lparr>wp_close := phase, wp_calls := wp_calls p @ [PoolDestroy]\<rparr>"

text \<open>The options of \<open>close\<close>; a value that is no object is \<open>None\<close>.\<close>

definition close_option :: "js_flag option \<Rightarrow> px_error + bool" where
  "close_option options =
     (case options of Some FUndefined \<Rightarrow> Inr False | Some (FBool b) \<Rightarrow> Inr b
      | _ \<Rightarrow> Inl (JsTypeError ''[PipeX] Worker pool close force must be a boolean''))"

text \<open>\<open>close\<close> up to where it first waits; a second call gets the promise of the first.\<close>

definition close_worker_pool :: "js_flag option \<Rightarrow> worker_pool \<Rightarrow> px_error + worker_pool" where
  "close_worker_pool options p =
     rbind (close_option options) (\<lambda>force.
       if wp_close p \<noteq> NotClosing then Inr p
       else
         let p = p\<lparr>wp_accepting := False\<rparr> in
         if wp_fatalError p \<noteq> None \<or> force then Inr (destroy_pool Destroying p)
         else if wp_inFlight p > 0 then Inr (p\<lparr>wp_close := WaitingIdle\<rparr>)
         else Inr (close_pool p))"

text \<open>The timer of the grace period.\<close>

definition close_timeout :: "worker_pool \<Rightarrow> worker_pool" where
  "close_timeout p = (if wp_close p = WaitingIdle then destroy_pool CleaningUp p else p)"

text \<open>The promise of \<open>pool.close\<close> or \<open>pool.destroy\<close> that \<open>close\<close> waits for settles with \<open>r\<close>.\<close>

definition close_resumes :: "px_error + unit \<Rightarrow> worker_pool \<Rightarrow> worker_pool" where
  "close_resumes r p =
     (case wp_close p of
        ClosingPool \<Rightarrow>
          if returns r \<and> wp_fatalError p = None then p\<lparr>wp_close := Closed (Inr ())\<rparr> else destroy_pool CleaningUp p
      | Destroying \<Rightarrow>
          if returns r then p\<lparr>wp_close := Closed (Inr ())\<rparr> else destroy_pool CleaningUp p
      | CleaningUp \<Rightarrow> p\<lparr>wp_close := Closed (Inl WorkerPoolCloseError)\<rparr>
      | _ \<Rightarrow> p)"

section \<open>Everything that can happen\<close>

text \<open>The pool and the tasks that were admitted and have not settled yet.\<close>

type_synonym worker_system = "worker_pool \<times> nat set"

inductive worker_step :: "worker_system \<Rightarrow> worker_system \<Rightarrow> bool" where
  step_admit: "i \<notin> running \<Longrightarrow> worker_admit p data ctx now = Inr (p', signal) \<Longrightarrow>
    worker_step (p, running) (p', insert i running)"
| step_leave: "i \<in> running \<Longrightarrow> worker_step (p, running) (worker_leave p, running - {i})"
| step_error: "listening p \<Longrightarrow> worker_step (p, running) (on_pool_error p, running)"
| step_close: "close_worker_pool options p = Inr p' \<Longrightarrow> worker_step (p, running) (p', running)"
| step_timeout: "worker_step (p, running) (close_timeout p, running)"
| step_resume: "worker_step (p, running) (close_resumes r p, running)"

inductive worker_reachable :: "worker_system \<Rightarrow> bool" where
  worker_new: "new_WorkerPoolPlugin cpus options = Inr p \<Longrightarrow> worker_reachable (p, {})"
| worker_next: "worker_reachable s \<Longrightarrow> worker_step s s' \<Longrightarrow> worker_reachable s'"

text \<open>The invariant: what is counted, what is refused, and what a graceful close has waited for.\<close>

definition pool_counts :: "worker_system \<Rightarrow> bool" where
  "pool_counts = (\<lambda>(p, running). finite running \<and> wp_inFlight p = card running \<and> card running \<le> wp_maxInFlight p
     \<and> wp_maxInFlight p = wp_maxThreads p + wp_maxQueue p)"

definition pool_refuses :: "worker_pool \<Rightarrow> bool" where
  "pool_refuses p \<longleftrightarrow> (wp_close p \<noteq> NotClosing \<or> wp_fatalError p \<noteq> None \<longrightarrow> \<not> wp_accepting p)
     \<and> (\<not> wp_accepting p \<longrightarrow> wp_close p \<noteq> NotClosing \<or> wp_fatalError p \<noteq> None)"

definition pool_graceful :: "worker_pool \<Rightarrow> bool" where
  "pool_graceful p \<longleftrightarrow> (wp_close p = WaitingIdle \<longrightarrow> 0 < wp_inFlight p)
     \<and> (wp_close p = ClosingPool \<or> PoolClose \<in> set (wp_calls p) \<longrightarrow> wp_inFlight p = 0 \<and> wp_close p \<noteq> NotClosing)"

definition pool_inv :: "worker_system \<Rightarrow> bool" where
  "pool_inv s \<longleftrightarrow> pool_counts s \<and> pool_refuses (fst s) \<and> pool_graceful (fst s)"

lemmas pool_inv_defs = pool_inv_def pool_counts_def pool_refuses_def pool_graceful_def

lemma pool_inv_new: "new_WorkerPoolPlugin cpus options = Inr p \<Longrightarrow> pool_inv (p, {})"
  by (auto simp: new_WorkerPoolPlugin_def rbind_eq_Inr Let_def pool_inv_defs split: option.splits)

lemma worker_admit_Inr:
  assumes "worker_admit p data ctx now = Inr (p', signal)"
  shows "wp_fatalError p = None" "wp_accepting p" "wp_inFlight p < wp_maxInFlight p"
    "p' = p\<lparr>wp_inFlight := wp_inFlight p + 1\<rparr>"
  using assms by (auto simp: worker_admit_def rbind_eq_Inr Let_def split: option.splits if_splits)

lemma pool_inv_admit:
  assumes "pool_inv (p, running)" "i \<notin> running" "worker_admit p data ctx now = Inr (p', signal)"
  shows "pool_inv (p', insert i running)"
proof -
  note admitted = worker_admit_Inr[OF assms(3)]
  then have "wp_close p = NotClosing" using assms(1) by (auto simp: pool_inv_def pool_refuses_def)
  then show ?thesis using assms(1,2) admitted by (auto simp: pool_inv_defs)
qed

lemma pool_inv_leave:
  assumes "pool_inv (p, running)" "i \<in> running"
  shows "pool_inv (worker_leave p, running - {i})"
proof -
  have card: "card (running - {i}) = card running - 1" "0 < card running"
    using assms by (auto simp: pool_inv_defs card_gt_0_iff)
  then show ?thesis
    using assms by (auto simp: pool_inv_defs worker_leave_def close_pool_def Let_def)
qed

lemma pool_inv_error: "pool_inv (p, running) \<Longrightarrow> pool_inv (on_pool_error p, running)"
  by (auto simp: pool_inv_defs on_pool_error_def)

lemma close_worker_pool_cases:
  assumes "close_worker_pool options p = Inr p'"
  obtains (again) "wp_close p \<noteq> NotClosing" "p' = p"
    | (destroy) "wp_close p = NotClosing" "p' = destroy_pool Destroying (p\<lparr>wp_accepting := False\<rparr>)"
    | (wait) "wp_close p = NotClosing" "0 < wp_inFlight p" "p' = p\<lparr>wp_accepting := False, wp_close := WaitingIdle\<rparr>"
    | (close) "wp_close p = NotClosing" "wp_inFlight p = 0" "p' = close_pool (p\<lparr>wp_accepting := False\<rparr>)"
proof -
  obtain force where "(if wp_close p \<noteq> NotClosing then Inr p
       else let p = p\<lparr>wp_accepting := False\<rparr> in
         if wp_fatalError p \<noteq> None \<or> force then Inr (destroy_pool Destroying p)
         else if wp_inFlight p > 0 then Inr (p\<lparr>wp_close := WaitingIdle\<rparr>)
         else Inr (close_pool p)) = (Inr p' :: px_error + worker_pool)"
    using assms by (auto simp: close_worker_pool_def rbind_eq_Inr)
  then show thesis
    using that by (simp add: Let_def split: if_splits)
qed

lemma pool_inv_close:
  assumes "pool_inv (p, running)" "close_worker_pool options p = Inr p'"
  shows "pool_inv (p', running)"
  using assms(2)
proof (cases rule: close_worker_pool_cases)
  case again
  then show ?thesis using assms(1) by simp
next
  case destroy
  have "PoolClose \<notin> set (wp_calls p)" using assms(1) destroy(1) by (auto simp: pool_inv_defs)
  then show ?thesis using assms(1) unfolding destroy(2) by (auto simp: pool_inv_defs destroy_pool_def)
next
  case wait
  have "PoolClose \<notin> set (wp_calls p)" using assms(1) wait(1) by (auto simp: pool_inv_defs)
  then show ?thesis using assms(1) wait(2) unfolding wait(3) by (auto simp: pool_inv_defs)
next
  case close
  then show ?thesis using assms(1) unfolding close(3) by (auto simp: pool_inv_defs close_pool_def)
qed

lemma pool_inv_timeout: "pool_inv (p, running) \<Longrightarrow> pool_inv (close_timeout p, running)"
  by (auto simp: pool_inv_defs close_timeout_def destroy_pool_def)

lemma pool_inv_cleanup:
  "pool_inv (p, running) \<Longrightarrow> wp_close p \<noteq> NotClosing \<Longrightarrow> pool_inv (destroy_pool CleaningUp p, running)"
  by (auto simp: pool_inv_defs destroy_pool_def)

lemma pool_inv_closed:
  "pool_inv (p, running) \<Longrightarrow> wp_close p \<noteq> NotClosing \<Longrightarrow> pool_inv (p\<lparr>wp_close := Closed r\<rparr>, running)"
  by (auto simp: pool_inv_defs)

lemma pool_inv_resumes: "pool_inv (p, running) \<Longrightarrow> pool_inv (close_resumes r p, running)"
  by (cases "wp_close p") (simp_all add: close_resumes_def pool_inv_cleanup pool_inv_closed)

lemma pool_inv_step: "pool_inv s \<Longrightarrow> worker_step s s' \<Longrightarrow> pool_inv s'"
  by (erule worker_step.cases)
    (simp_all add: pool_inv_admit pool_inv_leave pool_inv_error pool_inv_close pool_inv_timeout pool_inv_resumes)

lemma reachable_pool_inv: "worker_reachable s \<Longrightarrow> pool_inv s"
  by (induction rule: worker_reachable.induct) (auto intro: pool_inv_new pool_inv_step)

section \<open>How a close comes to its end\<close>

text \<open>The event that \<open>close\<close> waits for: the end of the grace period, or a promise of the pool.\<close>

definition close_event :: "px_error + unit \<Rightarrow> worker_pool \<Rightarrow> worker_pool" where
  "close_event r p = (if wp_close p = WaitingIdle then close_timeout p else close_resumes r p)"

fun close_rank :: "close_phase \<Rightarrow> nat" where
  "close_rank NotClosing = 3"
| "close_rank WaitingIdle = 3"
| "close_rank ClosingPool = 2"
| "close_rank Destroying = 2"
| "close_rank CleaningUp = 1"
| "close_rank (Closed r) = 0"

lemma close_rank_0: "close_rank ph = 0 \<longleftrightarrow> (\<exists>r. ph = Closed r)"
  by (cases ph) auto

lemma close_event_rank:
  "wp_close p \<noteq> NotClosing \<Longrightarrow> wp_close (close_event r p) \<noteq> NotClosing
     \<and> close_rank (wp_close (close_event r p)) \<le> close_rank (wp_close p) - 1"
  by (cases "wp_close p") (simp_all add: close_event_def close_timeout_def close_resumes_def destroy_pool_def)

lemma worker_step_closing:
  assumes "worker_step s s'" "wp_close (fst s) \<noteq> NotClosing"
  shows "wp_close (fst s') \<noteq> NotClosing \<and> close_rank (wp_close (fst s')) \<le> close_rank (wp_close (fst s))"
  using assms
proof cases
  case (step_admit i running p data ctx now p' signal)
  then show ?thesis using assms(2) worker_admit_Inr(4)[OF step_admit(4)] by simp
next
  case (step_leave i running p)
  then show ?thesis using assms(2) by (simp add: worker_leave_def close_pool_def Let_def)
next
  case (step_error p running)
  then show ?thesis using assms(2) by (simp add: on_pool_error_def)
next
  case (step_close options p p' running)
  then show ?thesis using assms(2) by (auto elim: close_worker_pool_cases)
next
  case (step_timeout p running)
  then show ?thesis using assms(2) by (simp add: close_timeout_def destroy_pool_def)
next
  case (step_resume p running r)
  then show ?thesis
    using assms(2) by (cases "wp_close p") (simp_all add: close_resumes_def destroy_pool_def)
qed

text \<open>A fatal error stays, and so does the refusal of new tasks.\<close>

lemma worker_step_fatal:
  assumes "worker_step s s'" "wp_fatalError (fst s) = Some e"
  shows "wp_fatalError (fst s') = Some e"
  using assms
proof cases
  case (step_admit i running p data ctx now p' signal)
  then show ?thesis using assms(2) worker_admit_Inr(4)[OF step_admit(4)] by simp
next
  case (step_leave i running p)
  then show ?thesis using assms(2) by (simp add: worker_leave_def close_pool_def Let_def)
next
  case (step_error p running)
  then show ?thesis using assms(2) by (simp add: on_pool_error_def)
next
  case (step_close options p p' running)
  then show ?thesis using assms(2) by (auto elim!: close_worker_pool_cases simp: destroy_pool_def close_pool_def)
next
  case (step_timeout p running)
  then show ?thesis using assms(2) by (simp add: close_timeout_def destroy_pool_def)
next
  case (step_resume p running r)
  then show ?thesis
    using assms(2) by (cases "wp_close p") (simp_all add: close_resumes_def destroy_pool_def)
qed

definition pool_stopped :: "worker_pool \<Rightarrow> bool" where
  "pool_stopped p \<longleftrightarrow> wp_close p \<noteq> NotClosing \<or> wp_fatalError p \<noteq> None"

lemma worker_step_stopped: "worker_step s s' \<Longrightarrow> pool_stopped (fst s) \<Longrightarrow> pool_stopped (fst s')"
  using worker_step_closing worker_step_fatal unfolding pool_stopped_def by blast

lemma stopped_refuses:
  assumes "pool_inv s" "pool_stopped (fst s)"
  shows "\<exists>e. worker_admit (fst s) data ctx now = Inl e"
  using assms worker_admit_Inr(2)[of "fst s" data ctx now]
  by (cases "worker_admit (fst s) data ctx now") (auto simp: pool_inv_def pool_refuses_def pool_stopped_def)

lemma stopped_shrinks:
  assumes "worker_step s s'" "pool_inv s" "pool_stopped (fst s)"
  shows "snd s' \<subseteq> snd s"
  using assms(1)
proof cases
  case (step_admit i running p data ctx now p' signal)
  then show ?thesis using stopped_refuses[OF assms(2,3), of data ctx now] by simp
qed auto

section \<open>Properties\<close>

text \<open>C30: In every reachable state of a worker pool the counter \<open>#inFlight\<close> is the number of tasks that
  were admitted and have not settled, it never exceeds the number of threads and queue places, tasks are
  refused exactly from the first call of \<open>close\<close> or the first fatal error on, and the pool is asked to
  close gracefully only after every admitted task has settled.\<close>

theorem worker_pool_invariant:
  assumes "worker_reachable (p, running)"
  shows "finite running \<and> wp_inFlight p = card running \<and> card running \<le> wp_maxThreads p + wp_maxQueue p
    \<and> (\<not> wp_accepting p \<longleftrightarrow> wp_close p \<noteq> NotClosing \<or> wp_fatalError p \<noteq> None)
    \<and> (PoolClose \<in> set (wp_calls p) \<longrightarrow> running = {})"
  using reachable_pool_inv[OF assms] by (auto simp: pool_inv_defs)

text \<open>C31: Once \<open>close\<close> was called or a thread failed fatally, no task is ever admitted again, whatever
  happens afterwards, and the tasks still running only become fewer.\<close>

theorem worker_pool_stays_stopped:
  assumes "worker_reachable s" "pool_stopped (fst s)" "worker_step\<^sup>*\<^sup>* s s'"
  shows "(\<exists>e. worker_admit (fst s') data ctx now = Inl e) \<and> snd s' \<subseteq> snd s"
proof -
  have "worker_reachable s' \<and> pool_stopped (fst s') \<and> snd s' \<subseteq> snd s"
    using assms(3)
  proof (induction rule: rtranclp_induct)
    case (step s1 s2)
    then show ?case
      using worker_next worker_step_stopped stopped_shrinks reachable_pool_inv by blast
  qed (use assms(1,2) in simp)
  then show ?thesis using stopped_refuses reachable_pool_inv by blast
qed

text \<open>C32: A call of \<open>close\<close> ends after at most three of the events it waits for (the end of the grace
  period and the promises of the pool), however these settle, and no other event delays it.\<close>

theorem worker_close_terminates:
  assumes "close_worker_pool options p = Inr p'"
  shows "(\<exists>r. wp_close (close_event r3 (close_event r2 (close_event r1 p'))) = Closed r)
    \<and> (\<forall>running s'. worker_step (p', running) s' \<longrightarrow> close_rank (wp_close (fst s')) \<le> close_rank (wp_close p'))"
proof -
  have closing: "wp_close p' \<noteq> NotClosing"
    using assms by (auto elim!: close_worker_pool_cases simp: destroy_pool_def close_pool_def)
  have "close_rank (wp_close p') \<le> 3" by (cases "wp_close p'") simp_all
  then have "close_rank (wp_close (close_event r3 (close_event r2 (close_event r1 p')))) = 0"
    using close_event_rank[OF closing, of r1] close_event_rank[of "close_event r1 p'" r2]
      close_event_rank[of "close_event r2 (close_event r1 p')" r3] by linarith
  then show ?thesis using worker_step_closing closing by (auto simp: close_rank_0)
qed

text \<open>The errors that a task may end with.\<close>

definition worker_errors :: "string option \<Rightarrow> px_error set" where
  "worker_errors exportName = {OperationAbortedError, OperationTimeoutError, WorkerPoolClosedError,
     WorkerTaskError (case exportName of Some name \<Rightarrow> name | None \<Rightarrow> ''default'')} \<union> range WorkerQueueFullError"

lemma worker_abortError_errors: "worker_abortError reason \<in> worker_errors exportName"
  by (cases reason) (simp_all add: worker_errors_def)

lemma worker_failure_errors: "worker_failure maxQueue exportName signal t err \<in> worker_errors exportName"
proof (cases "signal_aborted signal t")
  case None
  then show ?thesis by (cases err) (auto simp: worker_failure_def worker_errors_def)
qed (simp add: worker_failure_def worker_abortError_errors)


section \<open>Instances\<close>

definition small_options :: worker_options where
  "small_options = \<lparr>wo_filename = Name ''w.js'', wo_processName = NoName, wo_reverseName = Name ''undo'',
     wo_maxThreads = Some (LInt 1), wo_maxQueue = Some (LInt 1), wo_taskTimeoutMs = Some (LInt 50),
     wo_closeTimeoutMs = None\<rparr>"

definition small_pool :: worker_pool where
  "small_pool = \<lparr>wp_processName = None, wp_reverseName = Some ''undo'', wp_taskTimeoutMs = Some 50,
     wp_maxThreads = 1, wp_maxQueue = 1, wp_maxInFlight = 2, wp_closeTimeoutMs = 30000, wp_reversible = True,
     wp_accepting = True, wp_inFlight = 0, wp_fatalError = None, wp_close = NotClosing, wp_calls = []\<rparr>"

definition plain_context :: processor_context where
  "plain_context = makeContext ''r'' Map.empty None (Some DEFAULT_LIMITS) 0"

lemma small_new: "new_WorkerPoolPlugin 8 (Some small_options) = Inr small_pool"
  by (simp add: new_WorkerPoolPlugin_def check_worker_options_def small_options_def validateInteger_def
      is_safe_integer_def max_safe_integer_def above_def valid_export_name_def MAX_THREADS_def MAX_QUEUE_def
      MAX_TIMER_MS_def limit_or_def name_of_def small_pool_def Let_def)

lemma small_admits:
  "worker_admit small_pool [1, 2] plain_context 0
     = Inr (small_pool\<lparr>wp_inFlight := 1\<rparr>, Some (50, worker_timeout_reason))"
  by (simp add: worker_admit_def small_pool_def plain_context_def makeContext_def pluginInputLimit_def
      context_limits_def DEFAULT_LIMITS_def taskControl_def is_safe_integer_def max_safe_integer_def
      MAX_TIMER_MS_def abort_any_def Let_def)

lemma small_busy: "worker_reachable (small_pool\<lparr>wp_inFlight := 1\<rparr>, {7})"
  using worker_next[OF worker_new[OF small_new] step_admit[OF _ small_admits, of 7 "{}"]] by simp

definition small_closing :: worker_pool where
  "small_closing = small_pool\<lparr>wp_inFlight := 1, wp_accepting := False, wp_close := WaitingIdle\<rparr>"

lemma small_close: "close_worker_pool (Some FUndefined) (small_pool\<lparr>wp_inFlight := 1\<rparr>) = Inr small_closing"
  by (simp add: close_worker_pool_def close_option_def small_closing_def small_pool_def Let_def)

lemma small_closing_reachable: "worker_reachable (small_closing, {7})"
  by (rule worker_next[OF small_busy step_close[OF small_close]])

theorem worker_pool_invariant_witness:
  "wp_inFlight (small_pool\<lparr>wp_inFlight := 1\<rparr>) = card {7 :: nat} \<and> wp_accepting small_pool"
  using worker_pool_invariant[OF small_busy] by (simp add: small_pool_def)

theorem worker_pool_stays_stopped_witness:
  "\<exists>e. worker_admit (worker_leave small_closing) [1] plain_context 9 = Inl e"
proof -
  have "worker_step\<^sup>*\<^sup>* (small_closing, {7}) (worker_leave small_closing, {7} - {7})"
    by (rule r_into_rtranclp, rule step_leave) simp
  from worker_pool_stays_stopped[OF small_closing_reachable _ this] show ?thesis
    by (simp add: pool_stopped_def small_closing_def)
qed

theorem worker_close_terminates_witness:
  "\<exists>r. wp_close (close_event (Inr ()) (close_event (Inr ()) (close_event (Inr ()) small_closing))) = Closed r"
  using worker_close_terminates[OF small_close] by blast


end
