(* ===== verification/Worker_Stream.thy ===== *)
theory Worker_Stream
  imports Worker_Pool Node_Streams
begin

text \<open>
  The framed stream of \<open>WorkerPoolPlugin.createStream\<close> (\<open>src/plugin/worker.ts\<close>), both directions.  What
  the tasks of the frames return and what the checks of the signal find are arguments, so the signal
  that the stage makes for itself and aborts when it is destroyed is one of them.
\<close>

section \<open>What both directions share\<close>

text \<open>
  \<open>wt_task k data\<close> is what awaiting \<open>process\<close> or \<open>reverse\<close> gives for the \<open>k\<close>-th frame, \<open>wt_after k\<close> the check
  of the signal after it, and \<open>wt_live i\<close> the check at the start of the \<open>i\<close>-th call of a handler.
\<close>

record worker_tasks =
  wt_task :: "nat \<Rightarrow> buffer \<Rightarrow> px_error + buffer"
  wt_after :: "nat \<Rightarrow> px_error + unit"
  wt_live :: "nat \<Rightarrow> px_error + unit"

definition worker_stream_error :: "string \<Rightarrow> px_error" where
  "worker_stream_error what = JsError (''[PipeX] Worker '' @ what)"

definition maxFrame :: "engine_limits \<Rightarrow> nat" where
  "maxFrame limits = min (maxFrameBytes limits) 0xfffffffe"

definition WORKER_MAGIC :: buffer where
  "WORKER_MAGIC = [0x50, 0x58, 0x57, 0x4b, 1]"

definition WORKER_END :: buffer where
  "WORKER_END = [0xff, 0xff, 0xff, 0xff]"

text \<open>\<open>emit\<close>; its state is \<open>outputBytes\<close>.\<close>

definition worker_emit :: "engine_limits \<Rightarrow> nat \<Rightarrow> buffer \<Rightarrow> (nat, buffer, px_error) outcome" where
  "worker_emit limits outputBytes bytes =
     (if int (length bytes) > int (maxOutputBytes limits) - int outputBytes
      then ([], Inl (worker_stream_error ''stream output exceeds configured limit''))
      else ([bytes], Inr (outputBytes + length bytes)))"

text \<open>\<open>run\<close> after \<open>frames\<close> frames.\<close>

definition worker_run :: "worker_tasks \<Rightarrow> engine_limits \<Rightarrow> nat \<Rightarrow> buffer \<Rightarrow> px_error + buffer" where
  "worker_run w limits frames data =
     (if frames + 1 > maxFrames limits
      then Inl (worker_stream_error ''frame count exceeds configured limit'')
      else rbind (wt_task w (frames + 1) data) (\<lambda>result.
        rbind (wt_after w (frames + 1)) (\<lambda>_.
          if length result > maxFrame limits then Inl (worker_stream_error ''frame exceeds configured limit'')
          else Inr result)))"

text \<open>The variables of either direction with the total input and the number of calls so far.\<close>

record 'r worker_stage =
  ws_calls :: nat
  ws_inputBytes :: nat
  ws_inner :: 'r

definition worker_transform ::
  "worker_tasks \<Rightarrow> engine_limits \<Rightarrow> ('r \<Rightarrow> buffer \<Rightarrow> ('r, buffer, px_error) outcome) \<Rightarrow> 'r worker_stage \<Rightarrow> buffer
     \<Rightarrow> ('r worker_stage, buffer, px_error) outcome" where
  "worker_transform w limits body s chunk =
     (case wt_live w (ws_calls s) of Inl e \<Rightarrow> ([], Inl e)
      | Inr _ \<Rightarrow>
          if int (length chunk) > int (pluginInputLimit (Some limits)) - int (ws_inputBytes s)
          then ([], Inl (worker_stream_error ''stream input exceeds configured limit''))
          else then_do (body (ws_inner s) chunk) (\<lambda>r.
            ([], Inr \<lparr>ws_calls = ws_calls s + 1, ws_inputBytes = ws_inputBytes s + length chunk, ws_inner = r\<rparr>)))"

definition worker_flush ::
  "worker_tasks \<Rightarrow> ('r \<Rightarrow> ('r, buffer, px_error) outcome) \<Rightarrow> 'r worker_stage \<Rightarrow> ('r worker_stage, buffer, px_error) outcome" where
  "worker_flush w body s =
     (case wt_live w (ws_calls s) of Inl e \<Rightarrow> ([], Inl e)
      | Inr _ \<Rightarrow> then_do (body (ws_inner s)) (\<lambda>r. ([], Inr (s\<lparr>ws_inner := r\<rparr>))))"

text \<open>\<open>createStream\<close> refuses to decompress without an export for it.\<close>

definition worker_createStream :: "worker_pool \<Rightarrow> bool \<Rightarrow> px_error + unit" where
  "worker_createStream p decompress =
     throw_if (decompress \<and> wp_reverseName p = None) (UnsupportedReverseError ''worker-pool'')"

section \<open>Compression\<close>

record worker_writer =
  ww_started :: bool
  ww_frames :: nat
  ww_outputBytes :: nat

definition new_writer :: worker_writer where
  "new_writer = \<lparr>ww_started = False, ww_frames = 0, ww_outputBytes = 0\<rparr>"

definition writer_emit :: "engine_limits \<Rightarrow> worker_writer \<Rightarrow> buffer \<Rightarrow> (worker_writer, buffer, px_error) outcome" where
  "writer_emit limits s bytes =
     then_do (worker_emit limits (ww_outputBytes s) bytes) (\<lambda>n. ([], Inr (s\<lparr>ww_outputBytes := n\<rparr>)))"

definition writer_start :: "engine_limits \<Rightarrow> worker_writer \<Rightarrow> (worker_writer, buffer, px_error) outcome" where
  "writer_start limits s =
     (if ww_started s then ([], Inr s)
      else then_do (writer_emit limits s WORKER_MAGIC) (\<lambda>s. ([], Inr (s\<lparr>ww_started := True\<rparr>))))"

text \<open>The body of the loop over a chunk, for one piece of it.\<close>

definition write_frame ::
  "worker_tasks \<Rightarrow> engine_limits \<Rightarrow> worker_writer \<Rightarrow> buffer \<Rightarrow> (worker_writer, buffer, px_error) outcome" where
  "write_frame w limits s piece =
     (case worker_run w limits (ww_frames s) piece of Inl e \<Rightarrow> ([], Inl e)
      | Inr result \<Rightarrow>
          then_do (writer_emit limits (s\<lparr>ww_frames := ww_frames s + 1\<rparr>) (be_bytes 4 (length result)))
            (\<lambda>s. writer_emit limits s result))"

definition write_chunk ::
  "worker_tasks \<Rightarrow> engine_limits \<Rightarrow> worker_writer \<Rightarrow> buffer \<Rightarrow> (worker_writer, buffer, px_error) outcome" where
  "write_chunk w limits s chunk =
     then_do (writer_start limits s) (\<lambda>s. run_chunks (write_frame w limits) s (pieces (maxFrame limits) chunk))"

text \<open>The end of the stream; \<open>started\<close> is not read again.\<close>

definition write_end :: "engine_limits \<Rightarrow> worker_writer \<Rightarrow> (worker_writer, buffer, px_error) outcome" where
  "write_end limits s = then_do (writer_start limits s) (\<lambda>s. writer_emit limits s WORKER_END)"

definition worker_compress ::
  "worker_tasks \<Rightarrow> engine_limits \<Rightarrow> buffer list \<Rightarrow> (worker_writer worker_stage, buffer, px_error) outcome" where
  "worker_compress w limits chunks =
     run_transform (worker_transform w limits (write_chunk w limits)) (worker_flush w (write_end limits))
       \<lparr>ws_calls = 0, ws_inputBytes = 0, ws_inner = new_writer\<rparr> chunks"

section \<open>Decompression\<close>

record worker_reader =
  wr_started :: bool
  wr_ended :: bool
  wr_header :: buffer
  wr_headerBytes :: nat
  wr_payload :: "buffer option"
  wr_payloadBytes :: nat
  wr_frames :: nat
  wr_outputBytes :: nat

definition new_reader :: worker_reader where
  "new_reader = \<lparr>wr_started = False, wr_ended = False, wr_header = replicate (length WORKER_MAGIC) 0,
     wr_headerBytes = 0, wr_payload = None, wr_payloadBytes = 0, wr_frames = 0, wr_outputBytes = 0\<rparr>"

type_synonym reader_phase = "(worker_reader \<times> buffer, buffer, px_error) outcome"

text \<open>The header in \<open>header\<close> is complete.\<close>

definition read_header :: "engine_limits \<Rightarrow> worker_reader \<Rightarrow> px_error + worker_reader" where
  "read_header limits s =
     (if \<not> wr_started s
      then rbind (throw_if (wr_header s \<noteq> WORKER_MAGIC) (JsError ''[PipeX] Invalid worker stream format'')) (\<lambda>_.
        Inr (s\<lparr>wr_started := True, wr_header := replicate 4 0, wr_headerBytes := 0\<rparr>))
      else
        let size = read_be 4 (wr_header s) 0; s = s\<lparr>wr_headerBytes := 0\<rparr> in
        if size = 0xffffffff then Inr (s\<lparr>wr_ended := True\<rparr>)
        else if size > maxFrame limits then Inl (worker_stream_error ''frame exceeds configured limit'')
        else Inr (s\<lparr>wr_payload := Some (replicate size 0), wr_payloadBytes := 0\<rparr>))"

definition reader_header :: "engine_limits \<Rightarrow> worker_reader \<Rightarrow> buffer \<Rightarrow> reader_phase" where
  "reader_header limits s rest =
     (let (header, n, rest) = fill_from (wr_header s) (wr_headerBytes s) rest;
          s = s\<lparr>wr_header := header, wr_headerBytes := n\<rparr>
      in if n \<noteq> length header then ([], Inr (s, rest))
         else case read_header limits s of Inl e \<Rightarrow> ([], Inl e) | Inr s \<Rightarrow> ([], Inr (s, rest)))"

definition reader_payload :: "worker_tasks \<Rightarrow> engine_limits \<Rightarrow> worker_reader \<Rightarrow> buffer \<Rightarrow> reader_phase" where
  "reader_payload w limits s rest =
     (case wr_payload s of None \<Rightarrow> ([], Inr (s, rest))
      | Some payload \<Rightarrow>
          let (payload, n, rest) = fill_from payload (wr_payloadBytes s) rest;
              s = s\<lparr>wr_payload := Some payload, wr_payloadBytes := n\<rparr>
          in if n \<noteq> length payload then ([], Inr (s, rest))
             else case worker_run w limits (wr_frames s) payload of Inl e \<Rightarrow> ([], Inl e)
               | Inr result \<Rightarrow>
                   then_do (worker_emit limits (wr_outputBytes s) result) (\<lambda>total.
                     ([], Inr (s\<lparr>wr_frames := wr_frames s + 1, wr_outputBytes := total,
                                wr_payload := None, wr_payloadBytes := 0\<rparr>, rest))))"

text \<open>One iteration of the loop; \<open>continue\<close> leaves it with no payload.\<close>

definition reader_step :: "worker_tasks \<Rightarrow> engine_limits \<Rightarrow> worker_reader \<Rightarrow> buffer \<Rightarrow> reader_phase" where
  "reader_step w limits s rest =
     (if wr_ended s then ([], Inl (worker_stream_error ''stream has trailing bytes''))
      else then_do (if wr_payload s = None then reader_header limits s rest else ([], Inr (s, rest)))
        (\<lambda>(s, rest). reader_payload w limits s rest))"

text \<open>
  A buffer that is being filled has room.  The loop keeps this (lemma \<open>reader_loop_inv\<close>), so every
  iteration consumes input; testing it below only makes the recursion total.
\<close>

definition reader_room :: "worker_reader \<Rightarrow> bool" where
  "reader_room s \<longleftrightarrow> wr_headerBytes s < length (wr_header s)
     \<and> (\<forall>payload. wr_payload s = Some payload \<longrightarrow> wr_payloadBytes s < length payload)"

lemma reader_header_rest:
  "reader_header limits s rest = (out, Inr (s', rest')) \<Longrightarrow> length rest' \<le> length rest"
  "reader_header limits s rest = (out, Inr (s', rest')) \<Longrightarrow> reader_room s \<Longrightarrow> rest \<noteq> [] \<Longrightarrow> length rest' < length rest"
  by (auto simp: reader_header_def reader_room_def Let_def split: prod.splits if_splits sum.splits dest: fill_from_rest)

lemma reader_payload_rest:
  "reader_payload w limits s rest = (out, Inr (s', rest')) \<Longrightarrow> length rest' \<le> length rest"
  "reader_payload w limits s rest = (out, Inr (s', rest')) \<Longrightarrow> reader_room s \<Longrightarrow> wr_payload s \<noteq> None \<Longrightarrow> rest \<noteq> []
     \<Longrightarrow> length rest' < length rest"
  by (auto simp: reader_payload_def reader_room_def Let_def then_do_eq_Inr
      split: prod.splits if_splits sum.splits option.splits dest: fill_from_rest)

lemma reader_step_progress:
  assumes "reader_step w limits s rest = (out, Inr (s', rest'))" "reader_room s" "rest \<noteq> []"
  shows "length rest' < length rest"
proof (cases "wr_payload s = None")
  case True
  then obtain s1 rest1 o1 o2 where "reader_header limits s rest = (o1, Inr (s1, rest1))"
    "reader_payload w limits s1 rest1 = (o2, Inr (s', rest'))"
    using assms(1) by (auto simp: reader_step_def then_do_eq_Inr split: if_splits)
  then show ?thesis
    using reader_header_rest(2)[OF _ assms(2,3)] reader_payload_rest(1) by (meson le_less_trans)
next
  case False
  then have "reader_payload w limits s rest = (out, Inr (s', rest'))"
    using assms(1) by (auto simp: reader_step_def split: if_splits)
  then show ?thesis using reader_payload_rest(2)[OF _ assms(2) False assms(3)] by blast
qed

function reader_loop ::
  "worker_tasks \<Rightarrow> engine_limits \<Rightarrow> worker_reader \<Rightarrow> buffer \<Rightarrow> (worker_reader, buffer, px_error) outcome" where
  "reader_loop w limits s rest =
     (if rest = [] \<or> \<not> reader_room s then ([], Inr s)
      else then_do (reader_step w limits s rest) (\<lambda>sr. reader_loop w limits (fst sr) (snd sr)))"
  by pat_completeness auto
termination
  by (relation "measure (\<lambda>(w, limits, s, rest). length rest)") (auto dest: reader_step_progress)

declare reader_loop.simps [simp del]

definition read_end :: "worker_reader \<Rightarrow> (worker_reader, buffer, px_error) outcome" where
  "read_end s =
     (if \<not> wr_ended s \<or> wr_payload s \<noteq> None \<or> wr_headerBytes s \<noteq> 0
      then ([], Inl (JsError ''[PipeX] Incomplete worker stream''))
      else ([], Inr s))"

definition worker_decompress ::
  "worker_tasks \<Rightarrow> engine_limits \<Rightarrow> buffer list \<Rightarrow> (worker_reader worker_stage, buffer, px_error) outcome" where
  "worker_decompress w limits chunks =
     run_transform (worker_transform w limits (reader_loop w limits)) (worker_flush w read_end)
       \<lparr>ws_calls = 0, ws_inputBytes = 0, ws_inner = new_reader\<rparr> chunks"

end
