(* ===== verification/Worker_Framing.thy ===== *)
theory Worker_Framing
  imports Worker_Stream
begin

text \<open>
  What the framed stream of the worker pool does (\<open>src/plugin/worker.ts\<close>): decompression does not depend
  on how its input was cut, it accepts exactly the streams of the format, and it restores what
  compression was given.
\<close>

section \<open>The loop does not depend on the chunks\<close>

definition reader_inv :: "worker_reader \<Rightarrow> bool" where
  "reader_inv s \<longleftrightarrow> wr_headerBytes s < length (wr_header s)
     \<and> length (wr_header s) = (if wr_started s then 4 else 5)
     \<and> (wr_payload s \<noteq> None \<longrightarrow> wr_headerBytes s = 0 \<and> wr_started s)
     \<and> (\<forall>payload. wr_payload s = Some payload \<longrightarrow> wr_payloadBytes s < length payload)
     \<and> (wr_ended s \<longrightarrow> wr_payload s = None \<and> wr_headerBytes s = 0)"

lemma reader_inv_room: "reader_inv s \<Longrightarrow> reader_room s"
  by (simp add: reader_inv_def reader_room_def)

lemma length_WORKER_MAGIC: "length WORKER_MAGIC = 5"
  by (simp add: WORKER_MAGIC_def)

lemma reader_inv_new: "reader_inv new_reader"
  by (simp add: reader_inv_def new_reader_def length_WORKER_MAGIC)

lemma reader_loop_Nil [simp]: "reader_loop w limits s [] = ([], Inr s)"
  by (simp add: reader_loop.simps)

lemma reader_loop_step:
  "reader_inv s \<Longrightarrow> rest \<noteq> [] \<Longrightarrow>
     reader_loop w limits s rest = then_do (reader_step w limits s rest) (\<lambda>sr. reader_loop w limits (fst sr) (snd sr))"
  by (subst reader_loop.simps) (simp add: reader_inv_room)

text \<open>A step that fills a payload, and one that fills a header.\<close>

lemma reader_step_ended: "wr_ended s \<Longrightarrow> reader_step w limits s rest = ([], Inl (worker_stream_error ''stream has trailing bytes''))"
  by (simp add: reader_step_def)

lemma reader_step_payload:
  "\<not> wr_ended s \<Longrightarrow> wr_payload s = Some payload \<Longrightarrow> reader_step w limits s rest = reader_payload w limits s rest"
  by (simp add: reader_step_def)

lemma reader_step_header:
  "\<not> wr_ended s \<Longrightarrow> wr_payload s = None \<Longrightarrow> reader_step w limits s rest =
     then_do (reader_header limits s rest) (\<lambda>(s, rest). reader_payload w limits s rest)"
  by (simp add: reader_step_def)

text \<open>The payload is complete: the frame is run and its result pushed.\<close>

definition reader_deliver :: "worker_tasks \<Rightarrow> engine_limits \<Rightarrow> worker_reader \<Rightarrow> buffer \<Rightarrow> (worker_reader, buffer, px_error) outcome" where
  "reader_deliver w limits s payload =
     (case worker_run w limits (wr_frames s) payload of Inl e \<Rightarrow> ([], Inl e)
      | Inr result \<Rightarrow> then_do (worker_emit limits (wr_outputBytes s) result) (\<lambda>total.
          ([], Inr (s\<lparr>wr_frames := wr_frames s + 1, wr_outputBytes := total, wr_payload := None, wr_payloadBytes := 0\<rparr>))))"

definition with_rest :: "buffer \<Rightarrow> (worker_reader, buffer, px_error) outcome \<Rightarrow> reader_phase" where
  "with_rest rest r = then_do r (\<lambda>s. ([], Inr (s, rest)))"

lemma reader_payload_last:
  assumes "wr_payload s = Some payload" "fill_from payload (wr_payloadBytes s) rest = (payload', length payload', rest')"
  shows "reader_payload w limits s rest = with_rest rest' (reader_deliver w limits s payload')"
  using assms by (auto simp: reader_payload_def reader_deliver_def with_rest_def Let_def worker_emit_def split: sum.split)

lemma reader_payload_more:
  assumes "wr_payload s = Some payload" "fill_from payload (wr_payloadBytes s) rest = (payload', n, rest')" "n \<noteq> length payload'"
  shows "reader_payload w limits s rest = ([], Inr (s\<lparr>wr_payload := Some payload', wr_payloadBytes := n\<rparr>, rest'))"
  using assms by (simp add: reader_payload_def Let_def)

lemma reader_header_last:
  assumes "fill_from (wr_header s) (wr_headerBytes s) rest = (header, length header, rest')"
  shows "reader_header limits s rest =
    (case read_header limits (s\<lparr>wr_header := header, wr_headerBytes := length header\<rparr>) of
       Inl e \<Rightarrow> ([], Inl e) | Inr s \<Rightarrow> ([], Inr (s, rest')))"
  using assms by (simp add: reader_header_def Let_def)

lemma reader_header_more:
  assumes "fill_from (wr_header s) (wr_headerBytes s) rest = (header, n, rest')" "n \<noteq> length header"
  shows "reader_header limits s rest = ([], Inr (s\<lparr>wr_header := header, wr_headerBytes := n\<rparr>, rest'))"
  using assms by (simp add: reader_header_def Let_def)

lemma loop_with_rest:
  "then_do (with_rest rest r) (\<lambda>sr. reader_loop w limits (fst sr) (snd sr)) = then_do r (\<lambda>s. reader_loop w limits s rest)"
  by (simp add: with_rest_def then_do_assoc)

lemma reader_payload_none: "wr_payload s = None \<Longrightarrow> reader_payload w limits s rest = ([], Inr (s, rest))"
  by (simp add: reader_payload_def)

lemma reader_deliver_inv:
  "reader_inv s \<Longrightarrow> wr_payload s \<noteq> None \<Longrightarrow> reader_deliver w limits s payload = (out, Inr s') \<Longrightarrow> reader_inv s'"
  by (auto simp: reader_deliver_def reader_inv_def then_do_eq_Inr split: sum.splits)

lemma reader_deliver_ended:
  "reader_deliver w limits s payload = (out, Inr s') \<Longrightarrow> wr_ended s' = wr_ended s \<and> wr_payload s' = None
     \<and> wr_header s' = wr_header s \<and> wr_headerBytes s' = wr_headerBytes s \<and> wr_started s' = wr_started s
     \<and> wr_frames s' = wr_frames s + 1"
  by (auto simp: reader_deliver_def then_do_eq_Inr split: sum.splits)

text \<open>What the loop does with one more byte when a payload is being filled.\<close>

lemma payload_bytes:
  assumes "\<not> wr_ended s" "wr_payload s = Some payload" "wr_payloadBytes s < length payload" "reader_inv s"
  shows "reader_loop w limits s (b # bs) = then_do (reader_loop w limits s [b]) (\<lambda>s'. reader_loop w limits s' bs)"
proof (cases "Suc (wr_payloadBytes s) = length payload")
  case True
  let ?p = "buf_copy payload (wr_payloadBytes s) [b]"
  have len: "length ?p = length payload" using assms(3) by (simp add: length_buf_copy)
  have "fill_from payload (wr_payloadBytes s) (b # rest) = (?p, length ?p, rest)" for rest
    using fill_from_last[OF True] True len by simp
  then show ?thesis
    using assms by (simp add: reader_loop_step reader_step_payload reader_payload_last loop_with_rest)
next
  case False
  then have more: "Suc (wr_payloadBytes s) < length payload" using assms(3) by simp
  let ?p = "buf_copy payload (wr_payloadBytes s) [b]"
  let ?s = "s\<lparr>wr_payload := Some ?p, wr_payloadBytes := Suc (wr_payloadBytes s)\<rparr>"
  have len: "length ?p = length payload" using assms(3) by (simp add: length_buf_copy)
  have one: "reader_loop w limits s [b] = ([], Inr ?s)"
    using assms more len by (simp add: reader_loop_step reader_step_payload reader_payload_more[OF assms(2) fill_from_one])
  have inv: "reader_inv ?s" using assms(4) more len assms(2) by (simp add: reader_inv_def)
  have "reader_payload w limits s (b # bs) = reader_payload w limits ?s bs" if "bs \<noteq> []"
    using assms(2) by (simp add: reader_payload_def fill_from_more[OF more])
  then show ?thesis
    using assms one inv by (cases "bs = []") (simp_all add: reader_loop_step reader_step_payload)
qed

lemma header_done_inv:
  assumes "reader_inv s" "\<not> wr_ended s" "wr_payload s = None" "length header = length (wr_header s)"
    and "read_header limits (s\<lparr>wr_header := header, wr_headerBytes := length header\<rparr>) = Inr s'"
  obtains (none) "wr_payload s' = None" "reader_inv s'"
    | (empty) "wr_payload s' = Some []" "wr_payloadBytes s' = 0" "\<not> wr_ended s'" "wr_headerBytes s' = 0"
        "length (wr_header s') = 4" "wr_started s'"
    | (some) payload where "wr_payload s' = Some payload" "payload \<noteq> []" "\<not> wr_ended s'" "wr_payloadBytes s' = 0"
        "reader_inv s'"
proof -
  let ?s = "s\<lparr>wr_header := header, wr_headerBytes := length header\<rparr>"
  have len: "length header = (if wr_started s then 4 else 5)" using assms(1,4) by (simp add: reader_inv_def)
  show thesis
  proof (cases "wr_started s")
    case False
    then have "s' = ?s\<lparr>wr_started := True, wr_header := replicate 4 0, wr_headerBytes := 0\<rparr>"
      using assms(5) by (simp add: read_header_def rbind_eq_Inr)
    then show ?thesis using assms(2,3) by (intro none) (simp_all add: reader_inv_def)
  next
    case True
    let ?n = "read_be 4 header 0"
    consider "s' = ?s\<lparr>wr_headerBytes := 0, wr_ended := True\<rparr>"
      | "s' = ?s\<lparr>wr_headerBytes := 0, wr_payload := Some (replicate ?n 0), wr_payloadBytes := 0\<rparr>"
      using assms(5) True by (auto simp: read_header_def Let_def split: if_splits)
    then show ?thesis
    proof cases
      case 1
      then show ?thesis using assms(2,3) True len by (intro none) (simp_all add: reader_inv_def)
    next
      case 2
      show ?thesis
      proof (cases "?n = 0")
        case True
        then show ?thesis using assms(2) 2 len \<open>wr_started s\<close> by (intro empty) simp_all
      next
        case False
        then show ?thesis using assms(2) 2 len True
          by (intro some[of "replicate ?n 0"]) (simp_all add: reader_inv_def)
      qed
    qed
  qed
qed

lemma loop_Nil_unit: "then_do r (\<lambda>s. reader_loop w limits s []) = r"
  by (simp add: reader_loop.simps)

lemma header_complete:
  assumes "\<not> wr_ended s" "wr_payload s = None" "reader_inv s" "Suc (wr_headerBytes s) = length (wr_header s)"
    and h: "h = buf_copy (wr_header s) (wr_headerBytes s) [b]"
  shows "reader_loop w limits s (b # bs) =
    (case read_header limits (s\<lparr>wr_header := h, wr_headerBytes := length h\<rparr>) of
       Inl e \<Rightarrow> ([], Inl e)
     | Inr s' \<Rightarrow> then_do (reader_payload w limits s' bs) (\<lambda>sr. reader_loop w limits (fst sr) (snd sr)))"
proof -
  have "length h = length (wr_header s)" using assms(4) by (simp add: h length_buf_copy)
  then have "fill_from (wr_header s) (wr_headerBytes s) (b # bs) = (h, length h, bs)"
    using fill_from_last[OF assms(4)] assms(4) by (simp add: h)
  then show ?thesis
    using assms(1-3) by (simp add: reader_loop_step reader_step_header reader_header_last split: sum.split)
qed

lemma header_bytes:
  assumes "\<not> wr_ended s" "wr_payload s = None" "reader_inv s"
  shows "reader_loop w limits s (b # bs) = then_do (reader_loop w limits s [b]) (\<lambda>s'. reader_loop w limits s' bs)"
proof (cases "Suc (wr_headerBytes s) = length (wr_header s)")
  case True
  let ?h = "buf_copy (wr_header s) (wr_headerBytes s) [b]"
  note complete = header_complete[OF assms True refl]
  have len: "length ?h = length (wr_header s)" using True by (simp add: length_buf_copy)
  show ?thesis
  proof (cases "read_header limits (s\<lparr>wr_header := ?h, wr_headerBytes := length ?h\<rparr>)")
    case (Inl e)
    then show ?thesis by (simp add: complete)
  next
    case (Inr s')
    from assms(3,1,2) len Inr show ?thesis
    proof (cases rule: header_done_inv)
      case none
      then show ?thesis by (simp add: complete Inr reader_payload_none)
    next
      case empty
      have "reader_payload w limits s' rest = with_rest rest (reader_deliver w limits s' [])" for rest
        using empty by (simp add: reader_payload_last fill_from_def)
      then show ?thesis by (simp add: complete Inr loop_with_rest)
    next
      case some
      have "reader_payload w limits s' [] = ([], Inr (s', []))"
        using some by (simp add: reader_payload_def fill_from_Nil)
      then show ?thesis
        using some by (cases "bs = []") (simp_all add: complete Inr reader_loop_step reader_step_payload)
    qed
  qed
next
  case False
  then have more: "Suc (wr_headerBytes s) < length (wr_header s)" using assms(3) by (simp add: reader_inv_def)
  let ?h = "buf_copy (wr_header s) (wr_headerBytes s) [b]"
  let ?s = "s\<lparr>wr_header := ?h, wr_headerBytes := Suc (wr_headerBytes s)\<rparr>"
  have len: "length ?h = length (wr_header s)" using more by (simp add: length_buf_copy)
  have one: "reader_loop w limits s [b] = ([], Inr ?s)"
    using assms more len by (simp add: reader_loop_step reader_step_header reader_header_more[OF fill_from_one] reader_payload_none)
  have inv: "reader_inv ?s" using assms more len by (simp add: reader_inv_def)
  have "reader_header limits s (b # bs) = reader_header limits ?s bs"
    by (simp add: reader_header_def fill_from_more[OF more])
  then show ?thesis
    using assms one inv by (cases "bs = []") (simp_all add: reader_loop_step reader_step_header)
qed

lemma reader_loop_Cons:
  assumes "reader_inv s"
  shows "reader_loop w limits s (b # bs) = then_do (reader_loop w limits s [b]) (\<lambda>s'. reader_loop w limits s' bs)"
proof (cases "wr_ended s")
  case True
  then show ?thesis using assms by (simp add: reader_loop_step reader_step_ended)
next
  case False
  show ?thesis
  proof (cases "wr_payload s")
    case None
    show ?thesis by (rule header_bytes[OF False None assms])
  next
    case (Some payload)
    then have "wr_payloadBytes s < length payload" using assms by (simp add: reader_inv_def)
    then show ?thesis by (rule payload_bytes[OF False Some _ assms])
  qed
qed

lemma reader_loop_inv:
  assumes "reader_inv s" "reader_loop w limits s [b] = (out, Inr s')"
  shows "reader_inv s'"
proof (cases "wr_ended s")
  case True
  then show ?thesis using assms by (simp add: reader_loop_step reader_step_ended)
next
  case ended: False
  show ?thesis
  proof (cases "wr_payload s")
    case None
    show ?thesis
    proof (cases "Suc (wr_headerBytes s) = length (wr_header s)")
      case True
      let ?h = "buf_copy (wr_header s) (wr_headerBytes s) [b]"
      have len: "length ?h = length (wr_header s)" using True by (simp add: length_buf_copy)
      note complete = assms(2)[unfolded header_complete[OF ended None assms(1) True refl]]
      then obtain s1 where s1: "read_header limits (s\<lparr>wr_header := ?h, wr_headerBytes := length ?h\<rparr>) = Inr s1"
        "then_do (reader_payload w limits s1 []) (\<lambda>sr. reader_loop w limits (fst sr) (snd sr)) = (out, Inr s')"
        by (auto split: sum.splits)
      from assms(1) ended None len s1(1) show ?thesis
      proof (cases rule: header_done_inv)
        case none
        then show ?thesis using s1(2) by (simp add: reader_payload_none)
      next
        case empty
        have "reader_payload w limits s1 [] = with_rest [] (reader_deliver w limits s1 [])"
          using empty by (simp add: reader_payload_last fill_from_def)
        then have "reader_deliver w limits s1 [] = (out, Inr s')" using s1(2) by (simp add: loop_with_rest)
        then show ?thesis using reader_deliver_ended empty by (fastforce simp: reader_inv_def)
      next
        case some
        have "reader_payload w limits s1 [] = ([], Inr (s1, []))"
          using some by (simp add: reader_payload_def fill_from_Nil)
        then show ?thesis using s1(2) some by simp
      qed
    next
      case False
      then have more: "Suc (wr_headerBytes s) < length (wr_header s)" using assms(1) by (simp add: reader_inv_def)
      then have "reader_loop w limits s [b] = ([], Inr (s\<lparr>wr_header := buf_copy (wr_header s) (wr_headerBytes s) [b],
          wr_headerBytes := Suc (wr_headerBytes s)\<rparr>))"
        using assms(1) ended None
        by (simp add: reader_loop_step reader_step_header reader_header_more[OF fill_from_one] reader_payload_none length_buf_copy)
      then show ?thesis using assms more None ended by (auto simp: reader_inv_def length_buf_copy)
    qed
  next
    case (Some payload)
    then have lt: "wr_payloadBytes s < length payload" using assms(1) by (simp add: reader_inv_def)
    let ?p = "buf_copy payload (wr_payloadBytes s) [b]"
    have len: "length ?p = length payload" using lt by (simp add: length_buf_copy)
    show ?thesis
    proof (cases "Suc (wr_payloadBytes s) = length payload")
      case True
      have "fill_from payload (wr_payloadBytes s) [b] = (?p, length ?p, [])"
        using fill_from_last[OF True] True len by simp
      then have "reader_deliver w limits s ?p = (out, Inr s')"
        using assms Some ended by (simp add: reader_loop_step reader_step_payload reader_payload_last loop_with_rest)
      then show ?thesis using reader_deliver_inv[OF assms(1)] Some by blast
    next
      case False
      then have "reader_loop w limits s [b] = ([], Inr (s\<lparr>wr_payload := Some ?p, wr_payloadBytes := Suc (wr_payloadBytes s)\<rparr>))"
        using assms(1) Some lt len ended
        by (simp add: reader_loop_step reader_step_payload reader_payload_more[OF Some fill_from_one])
      then show ?thesis using assms Some lt len False ended by (auto simp: reader_inv_def)
    qed
  qed
qed

interpretation reader: incremental "reader_loop w limits" reader_inv for w limits
  by unfold_locales (auto intro: reader_loop_Cons reader_loop_inv)

section \<open>The format\<close>

definition worker_frames :: "buffer list \<Rightarrow> buffer" where
  "worker_frames ys = concat (map (\<lambda>y. be_bytes 4 (length y) @ y) ys)"

definition worker_message :: "buffer list \<Rightarrow> buffer" where
  "worker_message ys = WORKER_MAGIC @ worker_frames ys @ WORKER_END"

text \<open>The tasks turn the frames \<open>ys\<close> into \<open>xs\<close>, one after the other, after \<open>k\<close> frames.\<close>

fun frames_run :: "worker_tasks \<Rightarrow> engine_limits \<Rightarrow> nat \<Rightarrow> buffer list \<Rightarrow> buffer list \<Rightarrow> bool" where
  "frames_run w limits k [] xs \<longleftrightarrow> xs = []"
| "frames_run w limits k (y # ys) xs \<longleftrightarrow>
     (\<exists>x zs. xs = x # zs \<and> worker_run w limits k y = Inr x \<and> frames_run w limits (k + 1) ys zs)"

lemma worker_frames_simps [simp]:
  "worker_frames [] = []" "worker_frames (y # ys) = be_bytes 4 (length y) @ y @ worker_frames ys"
  by (simp_all add: worker_frames_def)

lemma length_WORKER_END: "length WORKER_END = 4"
  by (simp add: WORKER_END_def)

lemma WORKER_END_bytes: "WORKER_END = be_bytes 4 0xffffffff"
  using be_bytes_be_val[of WORKER_END 4] by (simp add: WORKER_END_def be_val_def)

lemma read_be_take: "n \<le> length d \<Longrightarrow> read_be n (take n d) 0 = read_be n d 0"
  by (simp add: read_be_def subarray_def)

lemma read_be_prefix: "v < 2 ^ 32 \<Longrightarrow> read_be 4 (be_bytes 4 v @ rest) 0 = v"
  using read_be_slice[of "[]" 0 "be_bytes 4 v" 4 rest] by simp

lemma be_bytes_read: "4 \<le> length d \<Longrightarrow> be_bytes 4 (read_be 4 d 0) = take 4 d"
  unfolding read_be_def by (subst be_bytes_be_val) (simp_all add: subarray_def)

definition at_frame_boundary :: "worker_reader \<Rightarrow> nat \<Rightarrow> nat \<Rightarrow> bool" where
  "at_frame_boundary s k tot \<longleftrightarrow> reader_inv s \<and> wr_started s \<and> \<not> wr_ended s \<and> wr_payload s = None
     \<and> wr_headerBytes s = 0 \<and> wr_frames s = k \<and> wr_outputBytes s = tot"

lemma boundary_short:
  assumes "at_frame_boundary s k tot" "length d < 4"
  shows "\<not> succeeds (then_do (reader_loop w limits s d) read_end)"
proof (cases "d = []")
  case True
  then show ?thesis using assms(1) by (simp add: at_frame_boundary_def read_end_def)
next
  case False
  have header: "length (wr_header s) = 4" "wr_headerBytes s = 0" using assms(1) by (simp_all add: at_frame_boundary_def reader_inv_def)
  then obtain t where "fill_from (wr_header s) 0 d = (t, length d, [])" "length t = 4"
    using fill_from_short[of d "wr_header s"] assms(2) by auto
  then have "reader_loop w limits s d = ([], Inr (s\<lparr>wr_header := t, wr_headerBytes := length d\<rparr>))"
    using assms False header by (auto simp: at_frame_boundary_def reader_loop_step reader_step_header
        reader_header_more reader_payload_none)
  then show ?thesis using assms(1) by (simp add: at_frame_boundary_def read_end_def)
qed

text \<open>The state after the length of a frame was read.\<close>

definition sized :: "nat \<Rightarrow> buffer \<Rightarrow> worker_reader \<Rightarrow> worker_reader" where
  "sized n header s = s\<lparr>wr_header := header, wr_headerBytes := 0, wr_payload := Some (replicate n 0), wr_payloadBytes := 0\<rparr>"

lemma boundary_loop:
  assumes "at_frame_boundary s k tot" "4 \<le> length d"
  shows "reader_loop w limits s d =
    (let n = read_be 4 d 0 in
     if n = 0xffffffff then reader_loop w limits (s\<lparr>wr_header := take 4 d, wr_headerBytes := 0, wr_ended := True\<rparr>) (drop 4 d)
     else if n > maxFrame limits then ([], Inl (worker_stream_error ''frame exceeds configured limit''))
     else then_do (reader_payload w limits (sized n (take 4 d) s) (drop 4 d)) (\<lambda>sr. reader_loop w limits (fst sr) (snd sr)))"
proof -
  have "length (wr_header s) = 4" "wr_headerBytes s = 0" "d \<noteq> []"
    using assms by (auto simp: at_frame_boundary_def reader_inv_def)
  then have "fill_from (wr_header s) (wr_headerBytes s) d = (take 4 d, length (take 4 d), drop 4 d)"
    using fill_from_full[of "wr_header s" d] assms(2) by simp
  from reader_header_last[OF this, of limits] show ?thesis
    using assms \<open>d \<noteq> []\<close> by (simp add: at_frame_boundary_def reader_loop_step reader_step_header read_header_def
        read_be_take Let_def reader_payload_none sized_def)
qed

lemma boundary_delivers:
  assumes "at_frame_boundary s k tot" "length header = 4"
    and "reader_deliver w limits (sized n header s) payload = (out, Inr s')"
  shows "\<exists>x. out = [x] \<and> worker_run w limits k payload = Inr x \<and> tot + length x \<le> maxOutputBytes limits
    \<and> at_frame_boundary s' (k + 1) (tot + length x)"
  using assms by (auto simp: reader_deliver_def at_frame_boundary_def sized_def reader_inv_def worker_emit_def then_do_eq_Inr
      split: sum.splits if_splits)

lemma boundary_deliver:
  assumes "at_frame_boundary s k tot" "length header = 4" "worker_run w limits k payload = Inr x"
    and "tot + length x \<le> maxOutputBytes limits"
  shows "\<exists>s'. reader_deliver w limits (sized n header s) payload = ([x], Inr s') \<and> at_frame_boundary s' (k + 1) (tot + length x)"
  using assms by (auto simp: reader_deliver_def at_frame_boundary_def sized_def reader_inv_def worker_emit_def)

lemma sized_payload:
  assumes "n \<le> length rest"
  shows "reader_payload w limits (sized n header s) rest =
    with_rest (drop n rest) (reader_deliver w limits (sized n header s) (take n rest))"
proof -
  have "fill_from (replicate n 0) 0 rest = (take n rest, length (take n rest), drop n rest)"
    using fill_from_full[of "replicate n 0" rest] assms by simp
  then show ?thesis by (subst reader_payload_last[of _ "replicate n 0"]) (simp_all add: sized_def)
qed

lemma sized_short:
  assumes "length rest < n" "at_frame_boundary s k tot" "length header = 4"
  shows "\<not> succeeds (then_do (then_do (reader_payload w limits (sized n header s) rest)
    (\<lambda>sr. reader_loop w limits (fst sr) (snd sr))) read_end)"
proof -
  obtain t where "fill_from (replicate n 0) 0 rest = (t, length rest, [])" "length t = n"
    using fill_from_short[of rest "replicate n 0"] assms(1) by auto
  then show ?thesis
    using assms by (simp add: reader_payload_def sized_def read_end_def)
qed

text \<open>What is read from a frame boundary on, when the stream ends where it should.\<close>

definition reads_frames :: "worker_tasks \<Rightarrow> engine_limits \<Rightarrow> nat \<Rightarrow> nat \<Rightarrow> buffer \<Rightarrow> buffer list \<Rightarrow> bool" where
  "reads_frames w limits k tot d xs \<longleftrightarrow> (\<exists>ys. d = worker_frames ys @ WORKER_END \<and> frames_run w limits k ys xs
     \<and> (\<forall>y \<in> set ys. length y \<le> maxFrame limits) \<and> tot + length (concat xs) \<le> maxOutputBytes limits)"

lemma maxFrame_less:
  fixes n :: nat and limits :: engine_limits
  shows "n \<le> maxFrame limits \<Longrightarrow> n < 0xffffffff"
  by (simp add: maxFrame_def)

lemma reads_frames_end:
  assumes "read_be 4 d 0 = 0xffffffff" "4 \<le> length d" "tot \<le> maxOutputBytes limits"
  shows "reads_frames w limits k tot d xs \<longleftrightarrow> xs = [] \<and> drop 4 d = []"
proof
  assume "reads_frames w limits k tot d xs"
  then obtain ys where ys: "d = worker_frames ys @ WORKER_END" "frames_run w limits k ys xs"
    "\<forall>y \<in> set ys. length y \<le> maxFrame limits" unfolding reads_frames_def by blast
  have "ys = []"
  proof (cases ys)
    case (Cons y zs)
    then have "length y < 0xffffffff" using ys(3) maxFrame_less[of "length y" limits] by simp
    then have "read_be 4 d 0 = length y" using ys(1) Cons read_be_prefix[of "length y"] by simp
    then show ?thesis using assms(1) \<open>length y < 0xffffffff\<close> by simp
  qed
  then show "xs = [] \<and> drop 4 d = []" using ys by (simp add: length_WORKER_END)
next
  assume "xs = [] \<and> drop 4 d = []"
  moreover have "take 4 d = WORKER_END" using be_bytes_read[OF assms(2)] assms(1) WORKER_END_bytes by simp
  ultimately have "d = worker_frames [] @ WORKER_END" by (metis append_Nil append_take_drop_id self_append_conv worker_frames_simps(1))
  then show "reads_frames w limits k tot d xs"
    using \<open>xs = [] \<and> drop 4 d = []\<close> assms(3) unfolding reads_frames_def by (intro exI[of _ "[]"]) simp
qed

lemma reads_frames_cons:
  assumes "4 \<le> length d" "n = read_be 4 d 0" "n \<noteq> 0xffffffff"
  shows "reads_frames w limits k tot d xs \<longleftrightarrow> n \<le> maxFrame limits \<and> n \<le> length (drop 4 d)
    \<and> (\<exists>x zs. xs = x # zs \<and> worker_run w limits k (take n (drop 4 d)) = Inr x
         \<and> reads_frames w limits (k + 1) (tot + length x) (drop n (drop 4 d)) zs)"
proof
  assume "reads_frames w limits k tot d xs"
  then obtain ys where ys: "d = worker_frames ys @ WORKER_END" "frames_run w limits k ys xs"
    "\<forall>y \<in> set ys. length y \<le> maxFrame limits" "tot + length (concat xs) \<le> maxOutputBytes limits"
    unfolding reads_frames_def by blast
  have "ys \<noteq> []" using ys(1) assms(2,3) WORKER_END_bytes read_be_prefix[of "0xffffffff" "[]"] by auto
  then obtain y zs where Cons: "ys = y # zs" by (cases ys) auto
  then have y: "length y \<le> maxFrame limits" "length y < 2 ^ 32" using ys(3) maxFrame_less[of "length y" limits] by simp_all
  then have n: "n = length y" using ys(1) Cons assms(2) read_be_prefix[of "length y"] by simp
  then show "n \<le> maxFrame limits \<and> n \<le> length (drop 4 d)
    \<and> (\<exists>x zs. xs = x # zs \<and> worker_run w limits k (take n (drop 4 d)) = Inr x
         \<and> reads_frames w limits (k + 1) (tot + length x) (drop n (drop 4 d)) zs)"
    using ys y Cons unfolding reads_frames_def by (auto simp: add.assoc)
next
  assume r: "n \<le> maxFrame limits \<and> n \<le> length (drop 4 d)
    \<and> (\<exists>x zs. xs = x # zs \<and> worker_run w limits k (take n (drop 4 d)) = Inr x
         \<and> reads_frames w limits (k + 1) (tot + length x) (drop n (drop 4 d)) zs)"
  then obtain x zs ys where ys: "xs = x # zs" "worker_run w limits k (take n (drop 4 d)) = Inr x"
    "drop n (drop 4 d) = worker_frames ys @ WORKER_END" "frames_run w limits (k + 1) ys zs"
    "\<forall>y \<in> set ys. length y \<le> maxFrame limits" "tot + length x + length (concat zs) \<le> maxOutputBytes limits"
    unfolding reads_frames_def by blast
  let ?y = "take n (drop 4 d)"
  have len: "length ?y = n" using r by simp
  then have "d = be_bytes 4 (length ?y) @ ?y @ drop n (drop 4 d)"
    using be_bytes_read[OF assms(1)] assms(2) by (metis append_take_drop_id)
  then have "d = worker_frames (?y # ys) @ WORKER_END" using ys(3) by simp
  then show "reads_frames w limits k tot d xs"
    using ys r len unfolding reads_frames_def by (intro exI[of _ "?y # ys"]) (simp add: add.assoc)
qed

lemma reader_from_boundary:
  assumes "at_frame_boundary s k tot" "tot \<le> maxOutputBytes limits"
  shows "(\<exists>s'. then_do (reader_loop w limits s d) read_end = (xs, Inr s')) \<longleftrightarrow> reads_frames w limits k tot d xs"
  using assms
proof (induction d arbitrary: s k tot xs rule: length_induct)
  case (1 d)
  show ?case
  proof (cases "length d < 4")
    case True
    then have "\<not> reads_frames w limits k tot d xs" by (auto simp: reads_frames_def length_WORKER_END)
    then show ?thesis using boundary_short[OF 1(2) True, of w limits] by (auto simp: succeeds_iff)
  next
    case False
    then have len: "4 \<le> length d" by simp
    let ?n = "read_be 4 d 0" and ?rest = "drop 4 d"
    note loop = boundary_loop[OF 1(2) len, of w limits, unfolded Let_def]
    show ?thesis
    proof (cases "?n = 0xffffffff")
      case True
      let ?s = "s\<lparr>wr_header := take 4 d, wr_headerBytes := 0, wr_ended := True\<rparr>"
      have inv: "reader_inv ?s" using 1(2) len by (simp add: at_frame_boundary_def reader_inv_def)
      show ?thesis
        unfolding loop reads_frames_end[OF True len 1(3)] using True inv 1(2)
        by (cases "?rest = []") (auto simp: reader_loop_step reader_step_ended read_end_def at_frame_boundary_def)
    next
      case n: False
      note spec = reads_frames_cons[OF len refl n, of w limits k tot xs]
      show ?thesis
      proof (cases "?n > maxFrame limits \<or> length ?rest < ?n")
        case True
        have "length (take 4 d) = 4" using len by simp
        from sized_short[OF _ 1(2) this, of ?rest ?n w limits] True n show ?thesis
          unfolding loop spec by (auto simp: succeeds_iff)
      next
        case False
        then have fits: "?n \<le> maxFrame limits" "?n \<le> length ?rest" by simp_all
        have h: "length (take 4 d) = 4" using len by simp
        let ?deliver = "reader_deliver w limits (sized ?n (take 4 d) s) (take ?n ?rest)"
        have run: "then_do (reader_loop w limits s d) read_end =
            then_do ?deliver (\<lambda>s. then_do (reader_loop w limits s (drop ?n ?rest)) read_end)"
          using n fits by (simp add: loop sized_payload loop_with_rest then_do_assoc)
        have shorter: "length (drop ?n ?rest) < length d" using len by simp
        show ?thesis unfolding run spec
        proof (intro iffI conjI fits)
          assume "\<exists>s'. then_do ?deliver (\<lambda>s. then_do (reader_loop w limits s (drop ?n ?rest)) read_end) = (xs, Inr s')"
          then obtain s1 s' o1 o2 where d: "?deliver = (o1, Inr s1)"
            and rest: "then_do (reader_loop w limits s1 (drop ?n ?rest)) read_end = (o2, Inr s')" and xs: "xs = o1 @ o2"
            by (auto simp: then_do_eq_Inr)
          obtain x where x: "o1 = [x]" "worker_run w limits k (take ?n ?rest) = Inr x" "tot + length x \<le> maxOutputBytes limits"
            "at_frame_boundary s1 (k + 1) (tot + length x)"
            using boundary_delivers[OF 1(2) h d] by blast
          then show "\<exists>x zs. xs = x # zs \<and> worker_run w limits k (take ?n ?rest) = Inr x
              \<and> reads_frames w limits (k + 1) (tot + length x) (drop ?n ?rest) zs"
            using 1(1)[rule_format, OF shorter x(4,3)] rest xs by auto
        next
          assume "?n \<le> maxFrame limits \<and> ?n \<le> length ?rest \<and> (\<exists>x zs. xs = x # zs \<and> worker_run w limits k (take ?n ?rest) = Inr x
              \<and> reads_frames w limits (k + 1) (tot + length x) (drop ?n ?rest) zs)"
          then obtain x zs where x: "xs = x # zs" "worker_run w limits k (take ?n ?rest) = Inr x"
            "reads_frames w limits (k + 1) (tot + length x) (drop ?n ?rest) zs" by blast
          then have room: "tot + length x \<le> maxOutputBytes limits" by (auto simp: reads_frames_def)
          obtain s1 where s1: "?deliver = ([x], Inr s1)" "at_frame_boundary s1 (k + 1) (tot + length x)"
            using boundary_deliver[OF 1(2) h x(2) room, of ?n] by blast
          then obtain s' where "then_do (reader_loop w limits s1 (drop ?n ?rest)) read_end = (zs, Inr s')"
            using 1(1)[rule_format, OF shorter s1(2) room] x(3) by blast
          then show "\<exists>s'. then_do ?deliver (\<lambda>s. then_do (reader_loop w limits s (drop ?n ?rest)) read_end) = (xs, Inr s')"
            using s1(1) x(1) by auto
        qed
      qed
    qed
  qed
qed

lemma reader_from_new:
  "(\<exists>s'. then_do (reader_loop w limits new_reader d) read_end = (xs, Inr s'))
     \<longleftrightarrow> (\<exists>d'. d = WORKER_MAGIC @ d' \<and> reads_frames w limits 0 0 d' xs)"
proof (cases "length d < 5")
  case True
  obtain t where t: "fill_from (replicate 5 0) 0 d = (t, length d, [])" "length t = 5"
    using fill_from_short[of d "replicate 5 0"] True by auto
  have "reader_loop w limits new_reader d = ([], Inr (if d = [] then new_reader
      else new_reader\<lparr>wr_header := t, wr_headerBytes := length d\<rparr>))"
    using True t reader_inv_new by (auto simp: reader_loop_step reader_step_def reader_header_more reader_payload_none
        new_reader_def length_WORKER_MAGIC)
  then have "\<not> succeeds (then_do (reader_loop w limits new_reader d) read_end)"
    by (auto simp: read_end_def new_reader_def)
  then show ?thesis using True by (auto simp: succeeds_iff length_WORKER_MAGIC)
next
  case False
  then have len: "5 \<le> length d" "d \<noteq> []" by auto
  have "fill_from (wr_header new_reader) (wr_headerBytes new_reader) d = (take 5 d, length (take 5 d), drop 5 d)"
    using fill_from_full[of "replicate 5 0" d] len by (simp add: new_reader_def length_WORKER_MAGIC)
  note header = reader_header_last[OF this, of limits]
  let ?s = "new_reader\<lparr>wr_started := True, wr_header := replicate 4 0, wr_headerBytes := 0\<rparr>"
  have boundary: "at_frame_boundary ?s 0 0" by (simp add: at_frame_boundary_def reader_inv_def new_reader_def)
  have fields: "\<not> wr_ended new_reader" "wr_payload new_reader = None" "\<not> wr_started new_reader"
    by (simp_all add: new_reader_def)
  have none: "wr_payload ?s = None" by (simp add: new_reader_def)
  have loop: "reader_loop w limits new_reader d = (if take 5 d = WORKER_MAGIC then reader_loop w limits ?s (drop 5 d)
      else ([], Inl (JsError ''[PipeX] Invalid worker stream format'')))"
    unfolding reader_loop_step[OF reader_inv_new len(2)] reader_step_header[OF fields(1,2)] header
    using fields none by (simp add: read_header_def reader_payload_none)
  have "(\<exists>d'. d = WORKER_MAGIC @ d' \<and> reads_frames w limits 0 0 d' xs)
      \<longleftrightarrow> take 5 d = WORKER_MAGIC \<and> reads_frames w limits 0 0 (drop 5 d) xs"
    using length_WORKER_MAGIC by (auto simp: append_eq_conv_conj) (metis append_take_drop_id)
  then show ?thesis using reader_from_boundary[OF boundary, of limits w "drop 5 d" xs] by (auto simp: loop)
qed

section \<open>The checks around both directions\<close>

definition live_through :: "worker_tasks \<Rightarrow> nat \<Rightarrow> nat \<Rightarrow> bool" where
  "live_through w i n \<longleftrightarrow> (\<forall>j < n. returns (wt_live w (i + j)))"

lemma live_through_Suc: "live_through w i (Suc n) \<longleftrightarrow> returns (wt_live w i) \<and> live_through w (Suc i) n"
  by (auto simp: live_through_def All_less_Suc2)

lemma live_through_last: "live_through w i (Suc n) \<longleftrightarrow> live_through w i n \<and> returns (wt_live w (i + n))"
  by (auto simp: live_through_def less_Suc_eq)

lemma returns_iff: "returns r \<longleftrightarrow> (\<exists>a. r = Inr a)"
  by (cases r) simp_all

lemma stage_runs:
  "ws_inputBytes s \<le> pluginInputLimit (Some limits) \<Longrightarrow>
   run_chunks (worker_transform w limits body) s cs = (out, Inr s') \<longleftrightarrow>
     (\<exists>r. run_chunks body (ws_inner s) cs = (out, Inr r) \<and> live_through w (ws_calls s) (length cs)
        \<and> ws_inputBytes s + length (concat cs) \<le> pluginInputLimit (Some limits)
        \<and> s' = \<lparr>ws_calls = ws_calls s + length cs, ws_inputBytes = ws_inputBytes s + length (concat cs), ws_inner = r\<rparr>)"
proof (induction cs arbitrary: s out)
  case Nil
  then show ?case by (auto simp: live_through_def)
next
  case (Cons c cs)
  show ?case
  proof (cases "returns (wt_live w (ws_calls s)) \<and> ws_inputBytes s + length c \<le> pluginInputLimit (Some limits)")
    case True
    then have step: "worker_transform w limits body s c = then_do (body (ws_inner s) c) (\<lambda>r.
        ([], Inr \<lparr>ws_calls = ws_calls s + 1, ws_inputBytes = ws_inputBytes s + length c, ws_inner = r\<rparr>))"
      by (auto simp: worker_transform_def returns_iff)
    show ?thesis
    proof
      assume "run_chunks (worker_transform w limits body) s (c # cs) = (out, Inr s')"
      then obtain r o1 o2 where r: "body (ws_inner s) c = (o1, Inr r)" and out: "out = o1 @ o2"
        and rest: "run_chunks (worker_transform w limits body)
          \<lparr>ws_calls = ws_calls s + 1, ws_inputBytes = ws_inputBytes s + length c, ws_inner = r\<rparr> cs = (o2, Inr s')"
        by (auto simp: step then_do_assoc then_do_eq_Inr)
      have "ws_inputBytes \<lparr>ws_calls = ws_calls s + 1, ws_inputBytes = ws_inputBytes s + length c, ws_inner = r\<rparr>
          \<le> pluginInputLimit (Some limits)" using True by simp
      from rest[unfolded Cons.IH[OF this]] show "\<exists>r. run_chunks body (ws_inner s) (c # cs) = (out, Inr r)
          \<and> live_through w (ws_calls s) (length (c # cs))
          \<and> ws_inputBytes s + length (concat (c # cs)) \<le> pluginInputLimit (Some limits)
          \<and> s' = \<lparr>ws_calls = ws_calls s + length (c # cs), ws_inputBytes = ws_inputBytes s + length (concat (c # cs)), ws_inner = r\<rparr>"
        using r out True by (auto simp: live_through_Suc then_do_eq_Inr add.assoc)
    next
      assume "\<exists>r. run_chunks body (ws_inner s) (c # cs) = (out, Inr r)
          \<and> live_through w (ws_calls s) (length (c # cs))
          \<and> ws_inputBytes s + length (concat (c # cs)) \<le> pluginInputLimit (Some limits)
          \<and> s' = \<lparr>ws_calls = ws_calls s + length (c # cs), ws_inputBytes = ws_inputBytes s + length (concat (c # cs)), ws_inner = r\<rparr>"
      then obtain r r1 o1 o2 where r: "body (ws_inner s) c = (o1, Inr r1)" "run_chunks body r1 cs = (o2, Inr r)"
          "out = o1 @ o2" "live_through w (ws_calls s + 1) (length cs)"
          "ws_inputBytes s + length c + length (concat cs) \<le> pluginInputLimit (Some limits)"
          "s' = \<lparr>ws_calls = ws_calls s + 1 + length cs, ws_inputBytes = ws_inputBytes s + length c + length (concat cs), ws_inner = r\<rparr>"
        by (auto simp: live_through_Suc then_do_eq_Inr add.assoc)
      let ?s = "\<lparr>ws_calls = ws_calls s + 1, ws_inputBytes = ws_inputBytes s + length c, ws_inner = r1\<rparr>"
      have "run_chunks (worker_transform w limits body) ?s cs = (o2, Inr s')"
        using r True by (subst Cons.IH) auto
      then show "run_chunks (worker_transform w limits body) s (c # cs) = (out, Inr s')"
        using r by (simp add: step)
    qed
  next
    case False
    then have "\<not> succeeds (run_chunks (worker_transform w limits body) s (c # cs))"
      by (auto simp: worker_transform_def returns_iff split: sum.split)
    then show ?thesis using False by (auto simp: succeeds_iff live_through_Suc)
  qed
qed

lemma worker_flush_Inr:
  "worker_flush w fin s = (out, Inr s') \<longleftrightarrow> returns (wt_live w (ws_calls s))
     \<and> (\<exists>r. fin (ws_inner s) = (out, Inr r) \<and> s' = s\<lparr>ws_inner := r\<rparr>)"
  by (cases "wt_live w (ws_calls s)") (auto simp: worker_flush_def then_do_eq_Inr)

lemma stage_completes:
  assumes "\<And>out r. run_chunks body r0 cs = (out, Inr r) \<longleftrightarrow> whole = (out, Inr r)"
  shows "(\<exists>s'. run_transform (worker_transform w limits body) (worker_flush w fin)
      \<lparr>ws_calls = 0, ws_inputBytes = 0, ws_inner = r0\<rparr> cs = (out, Inr s'))
    \<longleftrightarrow> (\<exists>r. then_do whole fin = (out, Inr r)) \<and> live_through w 0 (Suc (length cs))
      \<and> length (concat cs) \<le> pluginInputLimit (Some limits)"
proof -
  let ?s = "\<lparr>ws_calls = 0, ws_inputBytes = 0, ws_inner = r0\<rparr>"
  have zero: "ws_inputBytes ?s \<le> pluginInputLimit (Some limits)" by simp
  have "(\<exists>s'. run_transform (worker_transform w limits body) (worker_flush w fin) ?s cs = (out, Inr s'))
    \<longleftrightarrow> (\<exists>r r' o1 o2. whole = (o1, Inr r) \<and> fin r = (o2, Inr r') \<and> out = o1 @ o2)
      \<and> live_through w 0 (length cs) \<and> returns (wt_live w (length cs))
      \<and> length (concat cs) \<le> pluginInputLimit (Some limits)"
    (is "?run \<longleftrightarrow> ?parts")
  proof
    assume ?run
    then show ?parts
      unfolding run_transform_def then_do_eq_Inr stage_runs[OF zero] worker_flush_Inr by (auto simp: assms)
  next
    assume ?parts
    then obtain r r' o1 o2 where "whole = (o1, Inr r)" "fin r = (o2, Inr r')" "out = o1 @ o2"
      "live_through w 0 (length cs)" "returns (wt_live w (length cs))" "length (concat cs) \<le> pluginInputLimit (Some limits)"
      by blast
    moreover from this have "run_chunks (worker_transform w limits body) ?s cs = (o1, Inr
        \<lparr>ws_calls = length cs, ws_inputBytes = length (concat cs), ws_inner = r\<rparr>)"
      unfolding stage_runs[OF zero] by (simp add: assms)
    moreover have "worker_flush w fin \<lparr>ws_calls = length cs, ws_inputBytes = length (concat cs), ws_inner = r\<rparr>
        = (o2, Inr \<lparr>ws_calls = length cs, ws_inputBytes = length (concat cs), ws_inner = r'\<rparr>)"
      using calculation by (simp add: worker_flush_Inr)
    ultimately show ?run by (simp add: run_transform_def)
  qed
  then show ?thesis by (auto simp: then_do_eq_Inr live_through_last)
qed

section \<open>What compression writes\<close>

lemma frames_run_append:
  "frames_run w limits k (ps @ qs) xs \<longleftrightarrow>
     (\<exists>xs1 xs2. xs = xs1 @ xs2 \<and> frames_run w limits k ps xs1 \<and> frames_run w limits (k + length ps) qs xs2)"
proof (induction ps arbitrary: k xs)
  case (Cons p ps)
  show ?case
  proof
    assume "frames_run w limits k ((p # ps) @ qs) xs"
    then obtain x xs1 xs2 where "xs = x # xs1 @ xs2" "worker_run w limits k p = Inr x" "frames_run w limits (k + 1) ps xs1"
      "frames_run w limits (k + 1 + length ps) qs xs2" by (auto simp: Cons.IH)
    then show "\<exists>xs1 xs2. xs = xs1 @ xs2 \<and> frames_run w limits k (p # ps) xs1 \<and> frames_run w limits (k + length (p # ps)) qs xs2"
      by (intro exI[of _ "x # xs1"] exI[of _ xs2]) simp
  next
    assume "\<exists>xs1 xs2. xs = xs1 @ xs2 \<and> frames_run w limits k (p # ps) xs1 \<and> frames_run w limits (k + length (p # ps)) qs xs2"
    then obtain x zs xs2 where "xs = (x # zs) @ xs2" "worker_run w limits k p = Inr x" "frames_run w limits (k + 1) ps zs"
      "frames_run w limits (k + 1 + length ps) qs xs2" by auto
    then show "frames_run w limits k ((p # ps) @ qs) xs" using Cons.IH[of "k + 1" "zs @ xs2"] by auto
  qed
qed simp

lemma worker_frames_append: "worker_frames (xs @ ys) = worker_frames xs @ worker_frames ys"
  by (simp add: worker_frames_def)

lemma worker_run_bounded: "worker_run w limits k p = Inr x \<Longrightarrow> length x \<le> maxFrame limits"
  by (auto simp: worker_run_def rbind_eq_Inr split: if_splits)

lemma frames_run_bounded: "frames_run w limits k ps ys \<Longrightarrow> \<forall>y \<in> set ys. length y \<le> maxFrame limits"
  by (induction ps arbitrary: k ys) (auto dest: worker_run_bounded)

lemma writer_emit_Inr:
  "writer_emit limits s bytes = (out, Inr s') \<longleftrightarrow> ww_outputBytes s + length bytes \<le> maxOutputBytes limits
     \<and> out = [bytes] \<and> s' = s\<lparr>ww_outputBytes := ww_outputBytes s + length bytes\<rparr>"
  by (auto simp: writer_emit_def worker_emit_def)

text \<open>\<open>s\<close> has written \<open>d\<close> so far, which holds \<open>k\<close> frames.\<close>

definition writer_at :: "engine_limits \<Rightarrow> worker_writer \<Rightarrow> nat \<Rightarrow> buffer \<Rightarrow> bool" where
  "writer_at limits s k d \<longleftrightarrow> ww_frames s = k \<and> ww_outputBytes s = length d \<and> length d \<le> maxOutputBytes limits"

lemma write_frame_at:
  assumes "writer_at limits s k d" "write_frame w limits s p = (out, Inr s')"
  shows "\<exists>y. worker_run w limits k p = Inr y \<and> concat out = worker_frames [y]
    \<and> writer_at limits s' (k + 1) (d @ concat out) \<and> ww_started s' = ww_started s"
  using assms by (auto simp: write_frame_def writer_at_def then_do_eq_Inr writer_emit_Inr split: sum.splits)

lemma write_frames_at:
  "writer_at limits s k d \<Longrightarrow> run_chunks (write_frame w limits) s ps = (out, Inr s') \<Longrightarrow>
   \<exists>ys. frames_run w limits k ps ys \<and> concat out = worker_frames ys
     \<and> writer_at limits s' (k + length ps) (d @ concat out) \<and> ww_started s' = ww_started s"
proof (induction ps arbitrary: s k d out)
  case (Cons p ps)
  from Cons.prems(2) obtain s1 o1 o2 where p: "write_frame w limits s p = (o1, Inr s1)"
    and ps: "run_chunks (write_frame w limits) s1 ps = (o2, Inr s')" and out: "out = o1 @ o2"
    by (auto simp: then_do_eq_Inr)
  obtain y where y: "worker_run w limits k p = Inr y" "concat o1 = worker_frames [y]"
    "writer_at limits s1 (k + 1) (d @ concat o1)" "ww_started s1 = ww_started s"
    using write_frame_at[OF Cons.prems(1) p] by blast
  obtain ys where "frames_run w limits (k + 1) ps ys" "concat o2 = worker_frames ys"
    "writer_at limits s' (k + 1 + length ps) ((d @ concat o1) @ concat o2)" "ww_started s' = ww_started s1"
    using Cons.IH[OF y(3) ps] by blast
  then show ?case using y out by (intro exI[of _ "y # ys"]) simp
qed (simp add: exI[of _ "[]"])

lemma writer_start_at:
  assumes "writer_at limits s k d" "writer_start limits s = (out, Inr s')"
  shows "concat out = (if ww_started s then [] else WORKER_MAGIC) \<and> writer_at limits s' k (d @ concat out) \<and> ww_started s'"
  using assms by (auto simp: writer_start_def writer_at_def then_do_eq_Inr writer_emit_Inr split: if_splits)

lemma write_chunk_at:
  assumes "writer_at limits s k d" "write_chunk w limits s c = (out, Inr s')"
  shows "\<exists>ys. frames_run w limits k (pieces (maxFrame limits) c) ys
    \<and> concat out = (if ww_started s then [] else WORKER_MAGIC) @ worker_frames ys
    \<and> writer_at limits s' (k + length (pieces (maxFrame limits) c)) (d @ concat out) \<and> ww_started s'"
proof -
  obtain s1 o1 o2 where start: "writer_start limits s = (o1, Inr s1)"
    and rest: "run_chunks (write_frame w limits) s1 (pieces (maxFrame limits) c) = (o2, Inr s')" and out: "out = o1 @ o2"
    using assms(2) by (auto simp: write_chunk_def then_do_eq_Inr)
  note at = writer_start_at[OF assms(1) start]
  then have "writer_at limits s1 k (d @ concat o1)" by blast
  from write_frames_at[OF this rest] show ?thesis using at out by auto
qed

lemma write_chunks_at:
  "writer_at limits s k d \<Longrightarrow> run_chunks (write_chunk w limits) s cs = (out, Inr s') \<Longrightarrow>
   \<exists>ys. frames_run w limits k (concat (map (pieces (maxFrame limits)) cs)) ys
     \<and> concat out = (if ww_started s \<or> cs = [] then [] else WORKER_MAGIC) @ worker_frames ys
     \<and> (\<exists>k'. writer_at limits s' k' (d @ concat out)) \<and> (ww_started s' \<longleftrightarrow> ww_started s \<or> cs \<noteq> [])"
proof (induction cs arbitrary: s k d out)
  case (Cons c cs)
  from Cons.prems(2) obtain s1 o1 o2 where c: "write_chunk w limits s c = (o1, Inr s1)"
    and cs: "run_chunks (write_chunk w limits) s1 cs = (o2, Inr s')" and out: "out = o1 @ o2"
    by (auto simp: then_do_eq_Inr)
  obtain ys1 where ys1: "frames_run w limits k (pieces (maxFrame limits) c) ys1"
    "concat o1 = (if ww_started s then [] else WORKER_MAGIC) @ worker_frames ys1"
    "writer_at limits s1 (k + length (pieces (maxFrame limits) c)) (d @ concat o1)" "ww_started s1"
    using write_chunk_at[OF Cons.prems(1) c] by blast
  obtain ys2 k2 where raw: "frames_run w limits (k + length (pieces (maxFrame limits) c))
      (concat (map (pieces (maxFrame limits)) cs)) ys2"
    "concat o2 = (if ww_started s1 \<or> cs = [] then [] else WORKER_MAGIC) @ worker_frames ys2"
    "writer_at limits s' k2 ((d @ concat o1) @ concat o2)" "ww_started s' \<longleftrightarrow> ww_started s1 \<or> cs \<noteq> []"
    using Cons.IH[OF ys1(3) cs] by blast
  then have ys2: "concat o2 = worker_frames ys2" "ww_started s'" using ys1(4) by simp_all
  show ?case
    using ys1 raw(1,3) ys2 out
    by (intro exI[of _ "ys1 @ ys2"]) (auto simp: frames_run_append worker_frames_append)
qed (auto intro!: exI[of _ "[]"])

lemma writer_writes:
  assumes "then_do (run_chunks (write_chunk w limits) new_writer cs) (write_end limits) = (out, Inr s')"
  shows "\<exists>ys. frames_run w limits 0 (concat (map (pieces (maxFrame limits)) cs)) ys
    \<and> concat out = worker_message ys \<and> length (concat out) \<le> maxOutputBytes limits"
proof -
  obtain s1 s2 o1 o2 o3 where cs: "run_chunks (write_chunk w limits) new_writer cs = (o1, Inr s1)"
    and start: "writer_start limits s1 = (o2, Inr s2)" and fin: "writer_emit limits s2 WORKER_END = (o3, Inr s')"
    and out: "out = o1 @ o2 @ o3"
    using assms by (auto simp: then_do_eq_Inr write_end_def)
  have "writer_at limits new_writer 0 []" by (simp add: writer_at_def new_writer_def)
  from write_chunks_at[OF this cs] obtain ys k where
    raw: "frames_run w limits 0 (concat (map (pieces (maxFrame limits)) cs)) ys"
    "concat o1 = (if ww_started new_writer \<or> cs = [] then [] else WORKER_MAGIC) @ worker_frames ys"
    "writer_at limits s1 k ([] @ concat o1)" "ww_started s1 \<longleftrightarrow> ww_started new_writer \<or> cs \<noteq> []" by blast
  then have ys: "frames_run w limits 0 (concat (map (pieces (maxFrame limits)) cs)) ys"
    "concat o1 = (if cs = [] then [] else WORKER_MAGIC) @ worker_frames ys" "writer_at limits s1 k (concat o1)"
    "ww_started s1 \<longleftrightarrow> cs \<noteq> []" by (simp_all add: new_writer_def)
  note at = writer_start_at[OF ys(3) start]
  then have "concat o2 = (if cs = [] then WORKER_MAGIC else [])" using ys(4) by simp
  moreover have "writer_at limits s2 k (concat o1 @ concat o2)" using at by blast
  moreover have "ys = []" if "cs = []" using ys(1) that by simp
  ultimately show ?thesis
    using ys fin out by (intro exI[of _ ys]) (auto simp: writer_emit_Inr writer_at_def worker_message_def)
qed

lemma decompress_iff:
  "(\<exists>s. worker_decompress w limits cs = (xs, Inr s)) \<longleftrightarrow>
     (\<exists>ys. concat cs = worker_message ys \<and> frames_run w limits 0 ys xs
        \<and> (\<forall>y \<in> set ys. length y \<le> maxFrame limits) \<and> length (concat xs) \<le> maxOutputBytes limits)
     \<and> length (concat cs) \<le> pluginInputLimit (Some limits) \<and> live_through w 0 (Suc (length cs))"
proof -
  have whole: "run_chunks (reader_loop w limits) new_reader cs = (out, Inr r)
      \<longleftrightarrow> reader_loop w limits new_reader (concat cs) = (out, Inr r)" for out r
    by (simp add: reader.run_chunks_feed[OF reader_inv_new])
  have "(\<exists>d. concat cs = WORKER_MAGIC @ d \<and> reads_frames w limits 0 0 d xs) \<longleftrightarrow>
      (\<exists>ys. concat cs = worker_message ys \<and> frames_run w limits 0 ys xs
        \<and> (\<forall>y \<in> set ys. length y \<le> maxFrame limits) \<and> length (concat xs) \<le> maxOutputBytes limits)"
    unfolding reads_frames_def worker_message_def by auto
  then show ?thesis
    unfolding worker_decompress_def stage_completes[OF whole] reader_from_new by blast
qed

section \<open>Properties\<close>

text \<open>C28: Decompression succeeds with the results \<open>xs\<close> exactly when its input, however it was cut into
  chunks, is a stream of the format (magic, frames with their lengths, end) whose frames the tasks turn
  into \<open>xs\<close> one after the other, within every limit and with the signal live at every check.\<close>

theorem worker_decompress_exact:
  "(\<exists>s. worker_decompress w limits cs = (xs, Inr s)) \<longleftrightarrow>
     (\<exists>ys. concat cs = worker_message ys \<and> frames_run w limits 0 ys xs
        \<and> (\<forall>y \<in> set ys. length y \<le> maxFrame limits) \<and> length (concat xs) \<le> maxOutputBytes limits)
     \<and> length (concat cs) \<le> pluginInputLimit (Some limits) \<and> live_through w 0 (Suc (length cs))"
  by (rule decompress_iff)

text \<open>C29: What compression wrote, cut in any way, decompresses to the bytes that were compressed, when
  every task of decompression gives back what the task of compression was given, the output fits and
  the signal stays live.\<close>

theorem worker_stream_roundtrip:
  assumes "worker_compress w limits cs = (out, Inr s)" "concat ds = concat out" "0 < maxFrame limits"
    and "\<And>k x y. wt_task w (k + 1) x = Inr y \<Longrightarrow> wt_task u (k + 1) y = Inr x"
    and "\<And>i. wt_after u i = Inr ()" "\<And>i. wt_live u i = Inr ()"
    and "length (concat cs) \<le> maxOutputBytes limits"
  shows "\<exists>xs s'. worker_decompress u limits ds = (xs, Inr s') \<and> concat xs = concat cs"
proof -
  let ?ps = "concat (map (pieces (maxFrame limits)) cs)"
  obtain s' where written: "then_do (run_chunks (write_chunk w limits) new_writer cs) (write_end limits) = (out, Inr s')"
    using assms(1) stage_completes[of "write_chunk w limits" new_writer cs _ w limits "write_end limits" out]
    unfolding worker_compress_def by blast
  obtain ys where ys: "frames_run w limits 0 ?ps ys" "concat out = worker_message ys"
    "length (concat out) \<le> maxOutputBytes limits"
    using writer_writes[OF written] by blast
  have inverse: "frames_run u limits k ys ps" if "frames_run w limits k ps ys" "\<forall>p \<in> set ps. length p \<le> maxFrame limits"
    for k ps ys
    using that
  proof (induction ps arbitrary: k ys)
    case (Cons p ps)
    then obtain y zs where y: "ys = y # zs" "worker_run w limits k p = Inr y" "frames_run w limits (k + 1) ps zs" by auto
    then have "\<not> maxFrames limits < k + 1" "wt_task w (k + 1) p = Inr y"
      by (auto simp: worker_run_def rbind_eq_Inr split: if_splits)
    moreover have "length p \<le> maxFrame limits" using Cons.prems(2) by simp
    ultimately have "worker_run u limits k y = Inr p"
      using assms(4)[of k p y] assms(5)[of "k + 1"] by (simp add: worker_run_def)
    then show ?case using y Cons by simp
  qed simp
  have pieces: "concat ?ps = concat cs"
    by (induction cs) (simp_all add: concat_pieces[OF assms(3)])
  have "\<forall>p \<in> set ?ps. length p \<le> maxFrame limits" using pieces_sizes by auto
  then have "frames_run u limits 0 ys ?ps" by (rule inverse[OF ys(1)])
  moreover have "\<forall>y \<in> set ys. length y \<le> maxFrame limits" by (rule frames_run_bounded[OF ys(1)])
  moreover have "length (concat ds) \<le> pluginInputLimit (Some limits)"
    using ys(3) assms(2) pluginOutputLimit_le_pluginInputLimit[of "Some limits"]
    by (simp add: pluginOutputLimit_def context_limits_def)
  moreover have "live_through u 0 (Suc (length ds))" using assms(6) by (simp add: live_through_def)
  ultimately have "\<exists>s'. worker_decompress u limits ds = (?ps, Inr s')"
    unfolding decompress_iff using ys(2) assms(2,7) pieces by auto
  then show ?thesis using pieces by blast
qed

section \<open>Instances\<close>

text \<open>Tasks that complement every byte, in both directions.\<close>

definition flip_tasks :: worker_tasks where
  "flip_tasks = \<lparr>wt_task = (\<lambda>_ data. Inr (map not data)), wt_after = (\<lambda>_. Inr ()), wt_live = (\<lambda>_. Inr ())\<rparr>"

definition tiny_limits :: engine_limits where
  "tiny_limits = DEFAULT_LIMITS\<lparr>maxFrameBytes := 2\<rparr>"

lemma tiny_limits_simps:
  "maxFrame tiny_limits = 2" "maxFrames tiny_limits = 100000" "maxOutputBytes tiny_limits = 268435456"
  "pluginInputLimit (Some tiny_limits) = 268435456"
  by (simp_all add: tiny_limits_def maxFrame_def DEFAULT_LIMITS_def pluginInputLimit_def context_limits_def)

lemma flip_run: "length data \<le> 2 \<Longrightarrow> k < 100000 \<Longrightarrow> worker_run flip_tasks tiny_limits k data = Inr (map not data)"
  by (simp add: worker_run_def flip_tasks_def tiny_limits_simps)

lemma flip_live: "live_through flip_tasks i n"
  by (simp add: live_through_def flip_tasks_def)

lemma flip_compresses:
  "\<exists>s. worker_compress flip_tasks tiny_limits [[1, 2, 3]] =
     ([WORKER_MAGIC, be_bytes 4 2, [254, 253], be_bytes 4 1, [252], WORKER_END], Inr s)"
proof -
  have pieces: "pieces 2 [1, 2, 3] = [[1, 2], [3 :: byte]]" by (simp add: pieces.simps)
  have "\<exists>r. then_do (run_chunks (write_chunk flip_tasks tiny_limits) new_writer [[1, 2, 3]]) (write_end tiny_limits)
      = ([WORKER_MAGIC, be_bytes 4 2, [254, 253], be_bytes 4 1, [252], WORKER_END], Inr r)"
    by (simp add: write_chunk_def write_frame_def writer_start_def writer_emit_def worker_emit_def write_end_def
        new_writer_def tiny_limits_simps pieces flip_run length_WORKER_MAGIC length_WORKER_END numeral_2_eq_2[symmetric] del: be_bytes.simps)
  then show ?thesis
    unfolding worker_compress_def
    by (subst stage_completes[where whole = "run_chunks (write_chunk flip_tasks tiny_limits) new_writer [[1, 2, 3]]"])
      (simp_all add: flip_live tiny_limits_simps)
qed

theorem worker_stream_roundtrip_witness:
  "\<exists>xs s'. worker_decompress flip_tasks tiny_limits
      [WORKER_MAGIC @ be_bytes 4 2, [254, 253] @ be_bytes 4 1 @ [252] @ WORKER_END] = (xs, Inr s') \<and> concat xs = [1, 2, 3]"
proof -
  obtain s where "worker_compress flip_tasks tiny_limits [[1, 2, 3]] =
     ([WORKER_MAGIC, be_bytes 4 2, [254, 253], be_bytes 4 1, [252], WORKER_END], Inr s)" using flip_compresses by blast
  from worker_stream_roundtrip[OF this, of "[WORKER_MAGIC @ be_bytes 4 2, [254, 253] @ be_bytes 4 1 @ [252] @ WORKER_END]"
      flip_tasks]
  show ?thesis by (simp add: tiny_limits_simps flip_tasks_def comp_def del: be_bytes.simps)
qed

theorem worker_decompress_exact_witness:
  "\<exists>s. worker_decompress flip_tasks tiny_limits [WORKER_MAGIC, be_bytes 4 2 @ [1], [2] @ WORKER_END] = ([[254, 253]], Inr s)"
proof -
  have "concat [WORKER_MAGIC, be_bytes 4 2 @ [1], [2] @ WORKER_END] = worker_message [[1, 2]]"
    by (simp add: worker_message_def numeral_2_eq_2[symmetric] del: be_bytes.simps)
  moreover have "length (worker_message [[1, 2]]) \<le> 268435456"
    by (simp add: worker_message_def length_WORKER_MAGIC length_WORKER_END)
  ultimately show ?thesis
    unfolding worker_decompress_exact
    by (intro conjI exI[of _ "[[1, 2]]"])
      (simp_all add: flip_run flip_live tiny_limits_simps length_WORKER_MAGIC length_WORKER_END del: be_bytes.simps)
qed

end
