(* ===== verification/Pipeline_Schedule.thy ===== *)
theory Pipeline_Schedule
  imports Binary_Controller
begin

text \<open>
  \<open>runPipeline\<close> of \<open>src/core/core.ts\<close>: \<open>pipeline(source, ...transforms, destination)\<close> of \<open>node:stream\<close>.
  A stage is what its handlers do, whatever closure variables they have, so stages are codata; a
  handler pushes items, has effects outside the stream, and calls back with an error, without one,
  or never.  Between two stages lies a queue.  The runtime decides which stage works next, so a run
  follows a schedule: any sequence of turns.  An error reaches the pipeline some time after it was
  raised, by a turn of its own; other stages may work in between.  Backpressure and the sizes of
  buffers only restrict the schedules.
\<close>

section \<open>Stages\<close>

datatype ('i, 'f) emission = Push 'i | Effect 'f

codatatype ('i, 'f) stage = Stage
  (on_chunk: "'i \<Rightarrow> ('i, 'f) emission list \<times> ('i, 'f) stage flow")
  (on_end: "('i, 'f) emission list \<times> unit flow")

type_synonym ('i, 'f) stage_result = "('i, 'f) emission list \<times> ('i, 'f) stage flow"

text \<open>A \<open>Transform\<close> with closure variables \<open>s\<close>, from its handlers.\<close>

primcorec make_stage ::
  "('s \<Rightarrow> 'i \<Rightarrow> ('i, 'f) emission list \<times> 's flow) \<Rightarrow> ('s \<Rightarrow> ('i, 'f) emission list \<times> unit flow) \<Rightarrow> 's \<Rightarrow> ('i, 'f) stage"
where
  "on_chunk (make_stage tr fl s) = (\<lambda>x. map_prod id (map_flow (make_stage tr fl)) (tr s x))"
| "on_end (make_stage tr fl s) = fl s"

fun pushed :: "('i, 'f) emission list \<Rightarrow> 'i list" where
  "pushed [] = []"
| "pushed (Push x # ems) = x # pushed ems"
| "pushed (Effect f # ems) = pushed ems"

fun effects :: "('i, 'f) emission list \<Rightarrow> 'f list" where
  "effects [] = []"
| "effects (Push x # ems) = effects ems"
| "effects (Effect f # ems) = f # effects ems"

lemma pushed_append [simp]: "pushed (xs @ ys) = pushed xs @ pushed ys"
  by (induction xs rule: pushed.induct) simp_all

lemma effects_append [simp]: "effects (xs @ ys) = effects xs @ effects ys"
  by (induction xs rule: effects.induct) simp_all

section \<open>A stage on its own\<close>

fun feed_stage :: "('i, 'f) stage \<Rightarrow> 'i list \<Rightarrow> ('i, 'f) stage_result" where
  "feed_stage st [] = ([], Returns st)"
| "feed_stage st (x # xs) =
     (case on_chunk st x of
        (ems, Returns st') \<Rightarrow> (case feed_stage st' xs of (ems', r) \<Rightarrow> (ems @ ems', r))
      | (ems, r) \<Rightarrow> (ems, r))"

definition run_stage :: "('i, 'f) stage \<Rightarrow> 'i list \<Rightarrow> ('i, 'f) emission list \<times> unit flow" where
  "run_stage st xs =
     (case feed_stage st xs of
        (ems, Returns st') \<Rightarrow> (case on_end st' of (ems', r) \<Rightarrow> (ems @ ems', r))
      | (ems, Throws e) \<Rightarrow> (ems, Throws e)
      | (ems, Hangs) \<Rightarrow> (ems, Hangs))"

text \<open>Stages one after the other, each with everything the one before it pushed; \<open>None\<close> if one of
  them does not end well.  Effects carry the position of their stage.\<close>

fun through :: "nat \<Rightarrow> ('i, 'f) stage list \<Rightarrow> 'i list \<Rightarrow> ('i list \<times> (nat \<times> 'f) list) option" where
  "through k [] xs = Some (xs, [])"
| "through k (st # sts) xs =
     (case run_stage st xs of
        (ems, Returns _) \<Rightarrow> map_option (map_prod id ((@) (map (Pair k) (effects ems)))) (through (k + 1) sts (pushed ems))
      | _ \<Rightarrow> None)"

section \<open>Runs\<close>

datatype ('i, 'f) station = Live "('i, 'f) stage" | Hung | Broken px_error | Closed

record ('i, 'f) cell =
  cl_queue :: "'i list"
  cl_station :: "('i, 'f) station"

record ('i, 'f) pipeline_run =
  pl_cells :: "('i, 'f) cell list"
  pl_out :: "'i list"
  pl_log :: "(nat \<times> 'f) list"
  pl_failed :: "px_error option"

fun station_of :: "('i, 'f) stage flow \<Rightarrow> ('i, 'f) station" where
  "station_of (Returns st) = Live st"
| "station_of (Throws e) = Broken e"
| "station_of Hangs = Hung"

fun end_station :: "unit flow \<Rightarrow> ('i, 'f) station" where
  "end_station (Returns _) = Closed"
| "end_station (Throws e) = Broken e"
| "end_station Hangs = Hung"

text \<open>What a cell does in its turn; \<open>ended\<close> tells that no more input comes.\<close>

definition cell_turn :: "bool \<Rightarrow> ('i, 'f) cell \<Rightarrow> (('i, 'f) emission list \<times> ('i, 'f) cell) option" where
  "cell_turn ended c =
     (case cl_station c of
        Live st \<Rightarrow>
          (case cl_queue c of
             x # q \<Rightarrow> Some (fst (on_chunk st x), \<lparr>cl_queue = q, cl_station = station_of (snd (on_chunk st x))\<rparr>)
           | [] \<Rightarrow> if ended then Some (fst (on_end st), \<lparr>cl_queue = [], cl_station = end_station (snd (on_end st))\<rparr>)
                   else None)
      | _ \<Rightarrow> None)"

definition enqueue :: "'i list \<Rightarrow> ('i, 'f) cell \<Rightarrow> ('i, 'f) cell" where
  "enqueue xs c = c\<lparr>cl_queue := cl_queue c @ xs\<rparr>"

text \<open>The cell at position \<open>i\<close> works: its effects, what leaves the last stage, and the new cells.\<close>

fun cells_turn :: "nat \<Rightarrow> bool \<Rightarrow> ('i, 'f) cell list \<Rightarrow> ('f list \<times> 'i list \<times> ('i, 'f) cell list) option" where
  "cells_turn i ended [] = None"
| "cells_turn 0 ended (c # cs) =
     (case cell_turn ended c of None \<Rightarrow> None
      | Some (ems, c') \<Rightarrow>
          (case cs of
             [] \<Rightarrow> Some (effects ems, pushed ems, [c'])
           | d # ds \<Rightarrow> Some (effects ems, [], c' # enqueue (pushed ems) d # ds)))"
| "cells_turn (Suc i) ended (c # cs) =
     (case cells_turn i (cl_station c = Closed) cs of None \<Rightarrow> None
      | Some (fs, out, cs') \<Rightarrow> Some (fs, out, c # cs'))"

fun is_broken :: "('i, 'f) station \<Rightarrow> px_error option" where
  "is_broken (Broken e) = Some e"
| "is_broken _ = None"

definition pl_turn :: "('i, 'f) pipeline_run \<Rightarrow> nat \<Rightarrow> ('i, 'f) pipeline_run" where
  "pl_turn r i =
     (if pl_failed r \<noteq> None \<or> \<not> i < length (pl_cells r) then r
      else case is_broken (cl_station (pl_cells r ! i)) of
        Some e \<Rightarrow> r\<lparr>pl_failed := Some e\<rparr>
      | None \<Rightarrow>
          (case cells_turn i True (pl_cells r) of None \<Rightarrow> r
           | Some (fs, out, cs) \<Rightarrow>
               r\<lparr>pl_cells := cs, pl_out := pl_out r @ out, pl_log := pl_log r @ map (Pair i) fs\<rparr>))"

definition pl_run :: "nat list \<Rightarrow> ('i, 'f) pipeline_run \<Rightarrow> ('i, 'f) pipeline_run" where
  "pl_run turns r = foldl pl_turn r turns"

definition new_cell :: "('i, 'f) stage \<Rightarrow> ('i, 'f) cell" where
  "new_cell st = \<lparr>cl_queue = [], cl_station = Live st\<rparr>"

text \<open>The input of the first stage is all that the source will deliver.\<close>

definition pl_start :: "('i, 'f) stage list \<Rightarrow> 'i list \<Rightarrow> ('i, 'f) pipeline_run" where
  "pl_start sts xs =
     \<lparr>pl_cells = (case map new_cell sts of [] \<Rightarrow> [] | c # cs \<Rightarrow> enqueue xs c # cs),
      pl_out = (if sts = [] then xs else []), pl_log = [], pl_failed = None\<rparr>"

text \<open>How the promise of the pipeline stands.\<close>

definition pl_result :: "('i, 'f) pipeline_run \<Rightarrow> (px_error + unit) option" where
  "pl_result r =
     (case pl_failed r of Some e \<Rightarrow> Some (Inl e)
      | None \<Rightarrow> if \<forall>c \<in> set (pl_cells r). cl_station c = Closed then Some (Inr ()) else None)"

section \<open>What is still to come\<close>

text \<open>
  The rest of a run if every stage ends well, whatever the order: \<open>drain k xs cs\<close> is what leaves the
  last stage and the effects, given that \<open>xs\<close> still arrives in front of the first cell of \<open>cs\<close>.
\<close>

fun drain :: "nat \<Rightarrow> 'i list \<Rightarrow> ('i, 'f) cell list \<Rightarrow> ('i list \<times> (nat \<times> 'f) list) option" where
  "drain k xs [] = Some (xs, [])"
| "drain k xs (c # cs) =
     (case cl_station c of
        Live st \<Rightarrow>
          (case run_stage st (cl_queue c @ xs) of
             (ems, Returns _) \<Rightarrow> map_option (map_prod id ((@) (map (Pair k) (effects ems)))) (drain (k + 1) (pushed ems) cs)
           | _ \<Rightarrow> None)
      | Closed \<Rightarrow> drain (k + 1) [] cs
      | _ \<Rightarrow> None)"

text \<open>The effects of one stage.\<close>

definition stage_log :: "nat \<Rightarrow> (nat \<times> 'f) list \<Rightarrow> 'f list" where
  "stage_log i fs = map snd (filter (\<lambda>(j, _). j = i) fs)"

lemma stage_log_simps [simp]:
  "stage_log i [] = []" "stage_log i (fs @ gs) = stage_log i fs @ stage_log i gs"
  "stage_log i (map (Pair j) xs) = (if j = i then xs else [])"
  by (auto simp: stage_log_def filter_map o_def)

text \<open>Two outcomes with the same output and, stage by stage, the same effects.\<close>

definition same_outcome ::
  "('i list \<times> (nat \<times> 'f) list) option \<Rightarrow> ('i list \<times> (nat \<times> 'f) list) option \<Rightarrow> bool" where
  "same_outcome a b = rel_option (\<lambda>(o1, fs) (o2, gs). o1 = o2 \<and> (\<forall>i. stage_log i fs = stage_log i gs)) a b"

definition with_done :: "'i list \<Rightarrow> (nat \<times> 'f) list \<Rightarrow> ('i list \<times> (nat \<times> 'f) list) option
    \<Rightarrow> ('i list \<times> (nat \<times> 'f) list) option" where
  "with_done out fs r = map_option (map_prod ((@) out) ((@) fs)) r"

definition outlook :: "('i, 'f) pipeline_run \<Rightarrow> ('i list \<times> (nat \<times> 'f) list) option" where
  "outlook r = with_done (pl_out r) (pl_log r) (drain 0 [] (pl_cells r))"

lemma same_outcome_refl [simp]: "same_outcome a a"
  by (cases a) (auto simp: same_outcome_def)

lemma same_outcome_trans: "same_outcome a b \<Longrightarrow> same_outcome b c \<Longrightarrow> same_outcome a c"
  by (cases a; cases b; cases c) (auto simp: same_outcome_def)

lemma same_outcome_sym: "same_outcome a b \<Longrightarrow> same_outcome b a"
  by (cases a; cases b) (auto simp: same_outcome_def)

lemma same_outcome_None [simp]: "same_outcome None b \<longleftrightarrow> b = None" "same_outcome a None \<longleftrightarrow> a = None"
  by (auto simp: same_outcome_def)

lemma same_outcome_with_done: "same_outcome a b \<Longrightarrow> same_outcome (with_done out fs a) (with_done out fs b)"
  by (cases a; cases b) (auto simp: same_outcome_def with_done_def)

text \<open>The effects of different stages commute.\<close>

lemma same_outcome_swap:
  "same_outcome (with_done out (map (Pair i) fs @ map (Pair j) gs) r)
     (with_done out (if i = j then map (Pair i) (fs @ gs) else map (Pair j) gs @ map (Pair i) fs) r)"
  by (cases r) (auto simp: same_outcome_def with_done_def)

lemma with_done_with_done: "with_done o1 fs1 (with_done o2 fs2 r) = with_done (o1 @ o2) (fs1 @ fs2) r"
  by (cases r) (auto simp: with_done_def)

section \<open>One turn\<close>

lemma run_stage_Nil: "run_stage st [] = on_end st"
  by (simp add: run_stage_def)

lemma run_stage_Cons:
  "run_stage st (x # xs) =
     (case on_chunk st x of
        (ems, Returns st') \<Rightarrow> (case run_stage st' xs of (ems', r) \<Rightarrow> (ems @ ems', r))
      | (ems, Throws e) \<Rightarrow> (ems, Throws e)
      | (ems, Hangs) \<Rightarrow> (ems, Hangs))"
  by (auto simp: run_stage_def split: prod.splits flow.splits)

text \<open>What a cell will do is what it does now and what it will do then.\<close>

lemma drain_chunk:
  assumes "cl_station c = Live st" "cl_queue c = x # q"
  shows "drain k xs (c # cs) =
    with_done [] (map (Pair k) (effects (fst (on_chunk st x))))
      (case snd (on_chunk st x) of
         Returns st' \<Rightarrow>
           (case run_stage st' (q @ xs) of
              (ems', Returns _) \<Rightarrow> with_done [] (map (Pair k) (effects ems'))
                (drain (k + 1) (pushed (fst (on_chunk st x)) @ pushed ems') cs)
            | _ \<Rightarrow> None)
       | _ \<Rightarrow> None)"
  using assms
  by (auto simp: run_stage_Cons with_done_def option.map_comp o_def prod.map_comp
      split: prod.splits flow.splits option.splits intro!: option.map_cong)

text \<open>Input that is handed over early changes nothing.\<close>

lemma drain_enqueue:
  "cl_station d \<noteq> Closed \<Longrightarrow> drain k xs (enqueue ys d # ds) = drain k (ys @ xs) (d # ds)"
  by (auto simp: enqueue_def split: station.splits)

text \<open>Stages end from the front: a stage has ended only if the one before it has.\<close>

fun closed_in_order :: "bool \<Rightarrow> ('i, 'f) cell list \<Rightarrow> bool" where
  "closed_in_order ended [] = True"
| "closed_in_order ended (c # cs) =
     ((cl_station c = Closed \<longrightarrow> ended) \<and> closed_in_order (cl_station c = Closed) cs)"

lemma end_station_Closed: "end_station r = Closed \<longleftrightarrow> r = Returns ()"
  by (cases r) simp_all

lemma station_of_not_Closed [simp]: "station_of r \<noteq> Closed"
  by (cases r) simp_all

lemma cell_turn_cases:
  assumes "cell_turn ended c = Some (ems, c')"
  obtains (chunk) st x q where "cl_station c = Live st" "cl_queue c = x # q" "ems = fst (on_chunk st x)"
      "c' = \<lparr>cl_queue = q, cl_station = station_of (snd (on_chunk st x))\<rparr>"
    | (finish) st where "cl_station c = Live st" "cl_queue c = []" ended "ems = fst (on_end st)"
      "c' = \<lparr>cl_queue = [], cl_station = end_station (snd (on_end st))\<rparr>"
  using assms by (auto simp: cell_turn_def split: station.splits list.splits if_splits)

lemma enqueue_station [simp]: "cl_station (enqueue xs c) = cl_station c"
  by (simp add: enqueue_def)

lemma cells_turn_in_order:
  "cells_turn i ended cs = Some (fs, out, cs') \<Longrightarrow> closed_in_order ended cs \<Longrightarrow> closed_in_order ended cs'"
proof (induction i ended cs arbitrary: fs out cs' rule: cells_turn.induct)
  case (2 ended c cs)
  then obtain ems c' where turn: "cell_turn ended c = Some (ems, c')" by (auto split: option.splits prod.splits)
  have c: "cl_station c \<noteq> Closed" using turn by (auto simp: cell_turn_def)
  have c': "cl_station c' = Closed \<longrightarrow> ended" by (cases rule: cell_turn_cases[OF turn]) simp_all
  show ?case using 2 turn c c' by (auto split: list.splits)
next
  case (3 i ended c cs)
  then show ?case by (auto split: option.splits)
qed simp

lemma run_stage_returns:
  "run_stage st xs = (ems, Returns u) \<Longrightarrow> cl_station c = Live st \<Longrightarrow> cl_queue c @ ys = xs \<Longrightarrow>
     drain k ys (c # cs) = with_done [] (map (Pair k) (effects ems)) (drain (k + 1) (pushed ems) cs)"
  by (cases "drain (k + 1) (pushed ems) cs") (auto simp: with_done_def)

text \<open>The cell in front works.\<close>

lemma drain_front_chunk:
  assumes "cl_station c = Live st" "cl_queue c = x # q" "on_chunk st x = (ems, r)"
    and "c' = \<lparr>cl_queue = q, cl_station = station_of r\<rparr>"
  shows "drain k xs [c] = with_done (pushed ems) (map (Pair k) (effects ems)) (drain k xs [c'])"
    and "cl_station d \<noteq> Closed \<Longrightarrow> drain k xs (c # d # ds) =
      with_done [] (map (Pair k) (effects ems)) (drain k xs (c' # enqueue (pushed ems) d # ds))"
proof -
  have step: "drain k xs (c # cs) = with_done [] (map (Pair k) (effects ems))
    (case r of Returns st' \<Rightarrow>
       (case run_stage st' (q @ xs) of
          (ems', Returns _) \<Rightarrow> with_done [] (map (Pair k) (effects ems'))
            (drain (k + 1) (pushed ems @ pushed ems') cs)
        | _ \<Rightarrow> None)
     | _ \<Rightarrow> None)" for cs
    using drain_chunk[OF assms(1,2), of k xs cs] assms(3) by (simp cong: flow.case_cong)
  show "drain k xs [c] = with_done (pushed ems) (map (Pair k) (effects ems)) (drain k xs [c'])"
    unfolding step using assms(4) by (cases r) (auto simp: with_done_def split: prod.splits flow.splits)
  assume d: "cl_station d \<noteq> Closed"
  show "drain k xs (c # d # ds) =
      with_done [] (map (Pair k) (effects ems)) (drain k xs (c' # enqueue (pushed ems) d # ds))"
  proof (cases r)
    case (Returns st')
    obtain ems' r' where run: "run_stage st' (q @ xs) = (ems', r')" by (cases "run_stage st' (q @ xs)")
    have c': "drain k xs (c' # cs) = (case r' of Returns _ \<Rightarrow>
        with_done [] (map (Pair k) (effects ems')) (drain (k + 1) (pushed ems') cs) | _ \<Rightarrow> None)" for cs
      using run_stage_returns[of st' "q @ xs" ems' _ c' xs] run Returns assms(4) by (cases r') auto
    show ?thesis unfolding step c' drain_enqueue[OF d] by (simp add: Returns run del: drain.simps split: flow.split)
  qed (unfold step, simp_all add: assms(4) with_done_def)
qed

lemma drain_front_end:
  assumes "cl_station c = Live st" "cl_queue c = []" "on_end st = (ems, r)"
    and "c' = \<lparr>cl_queue = [], cl_station = end_station r\<rparr>"
  shows "drain k [] [c] = with_done (pushed ems) (map (Pair k) (effects ems)) (drain k [] [c'])"
    and "cl_station d \<noteq> Closed \<Longrightarrow> drain k [] (c # d # ds) =
      with_done [] (map (Pair k) (effects ems)) (drain k [] (c' # enqueue (pushed ems) d # ds))"
proof -
  have step: "drain k [] (c # cs) = (case r of Returns _ \<Rightarrow>
      with_done [] (map (Pair k) (effects ems)) (drain (k + 1) (pushed ems) cs) | _ \<Rightarrow> None)" for cs
    using run_stage_returns[of st "[]" ems _ c "[]"] assms(1-3) by (cases r) (auto simp: run_stage_Nil)
  show "drain k [] [c] = with_done (pushed ems) (map (Pair k) (effects ems)) (drain k [] [c'])"
    unfolding step using assms(4) by (cases r) (auto simp: with_done_def)
  assume d: "cl_station d \<noteq> Closed"
  have c': "drain k [] (c' # cs) = (case r of Returns _ \<Rightarrow> drain (k + 1) [] cs | _ \<Rightarrow> None)" for cs
    using assms(4) by (cases r) auto
  show "drain k [] (c # d # ds) =
      with_done [] (map (Pair k) (effects ems)) (drain k [] (c' # enqueue (pushed ems) d # ds))"
    unfolding step c' drain_enqueue[OF d] by (simp add: with_done_def del: drain.simps split: flow.split)
qed

lemma cells_turn_drain:
  assumes "cells_turn i ended cs = Some (fs, out, cs')" "closed_in_order ended cs" "ended \<Longrightarrow> xs = []"
  shows "same_outcome (drain k xs cs) (with_done out (map (Pair (k + i)) fs) (drain k xs cs'))"
  using assms
proof (induction i ended cs arbitrary: k xs fs out cs' rule: cells_turn.induct)
  case (2 ended c cs)
  from 2(1) obtain ems c' where turn: "cell_turn ended c = Some (ems, c')" by (auto split: option.splits prod.splits)
  have c: "cl_station c \<noteq> Closed" using turn by (auto simp: cell_turn_def)
  show ?case
  proof (cases cs)
    case Nil
    then have res: "fs = effects ems" "out = pushed ems" "cs' = [c']" using 2(1) turn by auto
    have "drain k xs [c] = with_done (pushed ems) (map (Pair k) (effects ems)) (drain k xs [c'])"
      using turn
    proof (cases rule: cell_turn_cases)
      case (chunk st x q)
      then show ?thesis by (intro drain_front_chunk(1)) auto
    next
      case (finish st)
      then show ?thesis using 2(3) by (simp only:, intro drain_front_end(1)) auto
    qed
    then show ?thesis using Nil res by (simp del: drain.simps)
  next
    case (Cons d ds)
    then have res: "fs = effects ems" "out = []" "cs' = c' # enqueue (pushed ems) d # ds" using 2(1) turn by auto
    have d: "cl_station d \<noteq> Closed" using 2(2) Cons c by simp
    have "drain k xs (c # d # ds) =
        with_done [] (map (Pair k) (effects ems)) (drain k xs (c' # enqueue (pushed ems) d # ds))"
      using turn
    proof (cases rule: cell_turn_cases)
      case (chunk st x q)
      then show ?thesis by (intro drain_front_chunk(2)[OF _ _ _ _ d]) auto
    next
      case (finish st)
      then show ?thesis using 2(3) by (simp only:, intro drain_front_end(2)[OF _ _ _ _ d]) auto
    qed
    then show ?thesis using Cons res by (simp del: drain.simps)
  qed
next
  case (3 i ended c cs)
  from 3(2) obtain cs'' where turn: "cells_turn i (cl_station c = Closed) cs = Some (fs, out, cs'')"
    and cs': "cs' = c # cs''" by (auto split: option.splits)
  have order: "closed_in_order (cl_station c = Closed) cs" using 3(3) by simp
  note IH = 3(1)[OF turn order]
  show ?case
  proof (cases "cl_station c")
    case (Live st)
    obtain ems r where run: "run_stage st (cl_queue c @ xs) = (ems, r)" by (cases "run_stage st (cl_queue c @ xs)")
    show ?thesis
    proof (cases r)
      case (Returns u)
      have "same_outcome (with_done [] (map (Pair k) (effects ems)) (drain (k + 1) (pushed ems) cs))
        (with_done [] (map (Pair k) (effects ems))
          (with_done out (map (Pair (k + 1 + i)) fs) (drain (k + 1) (pushed ems) cs'')))"
        using IH[of "pushed ems" "k + 1"] Live by (intro same_outcome_with_done) simp
      moreover have "same_outcome \<dots> (with_done out (map (Pair (k + Suc i)) fs)
          (with_done [] (map (Pair k) (effects ems)) (drain (k + 1) (pushed ems) cs'')))"
        using same_outcome_swap[where out = out and i = k and fs = "effects ems" and j = "k + Suc i" and gs = fs
            and r = "drain (k + 1) (pushed ems) cs''"]
        by (simp add: with_done_with_done)
      ultimately show ?thesis
        using run_stage_returns[OF run[unfolded Returns] Live refl] cs'
        by (metis same_outcome_trans)
    qed (use run Live cs' in \<open>simp_all add: with_done_def\<close>)
  next
    case Closed
    then show ?thesis using IH[of "[]" "k + 1"] cs' by simp
  qed (use cs' in \<open>simp_all add: with_done_def\<close>)
qed simp

section \<open>Runs\<close>

lemma drain_Some_station:
  "drain k xs cs = Some res \<Longrightarrow> c \<in> set cs \<Longrightarrow> cl_station c \<noteq> Hung \<and> is_broken (cl_station c) = None"
proof (induction cs arbitrary: k xs res)
  case (Cons d ds)
  from Cons.prems(1) obtain k' ys res' where d: "cl_station d \<noteq> Hung \<and> is_broken (cl_station d) = None"
    and ds: "drain k' ys ds = Some res'"
    by (auto split: station.splits prod.splits flow.splits)
  then show ?case using Cons.IH[OF ds] Cons.prems(2) by auto
qed simp

lemma drain_closed: "\<forall>c \<in> set cs. cl_station c = Closed \<Longrightarrow> drain k [] cs = Some ([], [])"
  by (induction cs arbitrary: k) simp_all

lemma pl_turn_cases:
  obtains (still) "pl_turn r i = r"
  | (fails) e where "pl_failed r = None" "i < length (pl_cells r)" "is_broken (cl_station (pl_cells r ! i)) = Some e"
      "pl_turn r i = r\<lparr>pl_failed := Some e\<rparr>"
  | (works) fs out cs where "pl_failed r = None" "cells_turn i True (pl_cells r) = Some (fs, out, cs)"
      "pl_turn r i = r\<lparr>pl_cells := cs, pl_out := pl_out r @ out, pl_log := pl_log r @ map (Pair i) fs\<rparr>"
proof (cases "pl_failed r \<noteq> None \<or> \<not> i < length (pl_cells r)")
  case True
  then show thesis by (intro still) (simp add: pl_turn_def)
next
  case False
  show thesis
  proof (cases "is_broken (cl_station (pl_cells r ! i))")
    case None
    show thesis
    proof (cases "cells_turn i True (pl_cells r)")
      case (Some w)
      obtain fs out cs where "w = (fs, out, cs)" by (cases w)
      then show thesis using works[of fs out cs] Some None False by (simp add: pl_turn_def)
    qed (use still None False in \<open>simp add: pl_turn_def\<close>)
  qed (use fails False in \<open>simp add: pl_turn_def\<close>)
qed

definition pl_ok :: "('i, 'f) pipeline_run \<Rightarrow> bool" where
  "pl_ok r \<longleftrightarrow> closed_in_order True (pl_cells r) \<and> (pl_failed r \<noteq> None \<longrightarrow> outlook r = None)"

lemma pl_turn_ok:
  assumes "pl_ok r"
  shows "pl_ok (pl_turn r i) \<and> same_outcome (outlook r) (outlook (pl_turn r i))"
proof (cases rule: pl_turn_cases[where r = r and i = i, case_names still fails works])
  case still
  then show ?thesis using assms by simp
next
  case (fails e)
  have "drain 0 [] (pl_cells r) = None"
    using drain_Some_station[of 0 "[]" "pl_cells r" _ "pl_cells r ! i"] fails(2,3) nth_mem
    by (cases "drain 0 [] (pl_cells r)") auto
  then show ?thesis using assms fails(4) by (simp add: pl_ok_def outlook_def with_done_def)
next
  case (works fs out cs)
  have order: "closed_in_order True (pl_cells r)" using assms by (simp add: pl_ok_def)
  have "same_outcome (drain 0 [] (pl_cells r)) (with_done out (map (Pair i) fs) (drain 0 [] cs))"
    using cells_turn_drain[OF works(2) order, of "[]" 0] by simp
  from same_outcome_with_done[OF this, of "pl_out r" "pl_log r"]
  have "same_outcome (outlook r) (outlook (pl_turn r i))"
    using works(3) by (simp add: outlook_def with_done_with_done)
  moreover have "closed_in_order True cs" by (rule cells_turn_in_order[OF works(2) order])
  ultimately show ?thesis using works(1,3) by (simp add: pl_ok_def)
qed

lemma pl_run_simps [simp]: "pl_run [] r = r" "pl_run (i # is) r = pl_run is (pl_turn r i)"
  by (simp_all add: pl_run_def)

lemma pl_run_append: "pl_run (is @ js) r = pl_run js (pl_run is r)"
  by (simp add: pl_run_def)

lemma pl_run_ok: "pl_ok r \<Longrightarrow> pl_ok (pl_run is r) \<and> same_outcome (outlook r) (outlook (pl_run is r))"
proof (induction "is" arbitrary: r)
  case (Cons i "is")
  have "pl_ok (pl_turn r i)" "same_outcome (outlook r) (outlook (pl_turn r i))" using pl_turn_ok[OF Cons.prems] by blast+
  then show ?case using Cons.IH[of "pl_turn r i"] by (auto intro: same_outcome_trans)
qed simp

lemma drain_new_cells: "drain k xs (map new_cell sts) = (if sts = [] then Some (xs, []) else through k sts xs)"
  by (induction sts arbitrary: k xs) (auto simp: new_cell_def split: prod.splits flow.splits)

lemma enqueue_drain: "drain k [] (enqueue xs (new_cell st) # cs) = drain k xs (new_cell st # cs)"
  by (simp add: enqueue_def new_cell_def)

lemma closed_in_order_new: "closed_in_order ended (map new_cell sts)"
  by (induction sts arbitrary: ended) (auto simp: new_cell_def)

lemma pl_start_ok: "pl_ok (pl_start sts xs)"
proof (cases sts)
  case (Cons st sts')
  then show ?thesis using closed_in_order_new[of True sts] by (simp add: pl_ok_def pl_start_def)
qed (simp add: pl_ok_def pl_start_def)

lemma with_done_Nil [simp]: "with_done [] [] r = r"
  by (cases r) (auto simp: with_done_def)

lemma pl_start_outlook: "outlook (pl_start sts xs) = through 0 sts xs"
proof (cases sts)
  case (Cons st sts')
  have "drain 0 [] (pl_cells (pl_start sts xs)) = drain 0 xs (map new_cell sts)"
    using Cons by (simp add: pl_start_def enqueue_drain del: drain.simps)
  then have "drain 0 [] (pl_cells (pl_start sts xs)) = through 0 sts xs"
    using Cons drain_new_cells[of 0 xs sts] by simp
  moreover have "pl_out (pl_start sts xs) = []" "pl_log (pl_start sts xs) = []"
    using Cons by (simp_all add: pl_start_def)
  ultimately show ?thesis by (simp add: outlook_def del: through.simps)
qed (simp add: outlook_def pl_start_def with_done_def)

text \<open>How a run can end.\<close>

lemma pl_result_done: "pl_result r = Some (Inr ()) \<Longrightarrow> outlook r = Some (pl_out r, pl_log r)"
  by (auto simp: pl_result_def outlook_def with_done_def drain_closed split: option.splits if_splits)

lemma pl_result_failed: "pl_result r = Some (Inl e) \<longleftrightarrow> pl_failed r = Some e"
  by (auto simp: pl_result_def split: option.splits)

lemma run_done:
  assumes "pl_result (pl_run turns (pl_start sts xs)) = Some (Inr ())"
  shows "\<exists>fs. through 0 sts xs = Some (pl_out (pl_run turns (pl_start sts xs)), fs)
    \<and> (\<forall>i. stage_log i fs = stage_log i (pl_log (pl_run turns (pl_start sts xs))))"
  using pl_run_ok[OF pl_start_ok, of turns sts xs] pl_result_done[OF assms]
  by (auto simp: pl_start_outlook same_outcome_def option_rel_Some2)

lemma run_not_failed:
  assumes "through 0 sts xs = Some (out, fs)"
  shows "pl_failed (pl_run turns (pl_start sts xs)) = None"
  using pl_run_ok[OF pl_start_ok, of turns sts xs] assms
  by (auto simp: pl_start_outlook pl_ok_def)

lemma run_prefix:
  assumes "through 0 sts xs = Some (out, fs)"
  shows "\<exists>later. out = pl_out (pl_run turns (pl_start sts xs)) @ later"
proof -
  have "same_outcome (Some (out, fs)) (outlook (pl_run turns (pl_start sts xs)))"
    using pl_run_ok[OF pl_start_ok, of turns sts xs] assms by (simp add: pl_start_outlook)
  then show ?thesis by (auto simp: same_outcome_def option_rel_Some1 outlook_def with_done_def)
qed

section \<open>Every fair schedule comes to an end\<close>

text \<open>How much a cell has to do before it ends.\<close>

definition cell_load :: "('i, 'f) cell \<Rightarrow> nat" where
  "cell_load c = (case cl_station c of Live st \<Rightarrow> Suc (length (cl_queue c)) | _ \<Rightarrow> 0)"

definition loads :: "('i, 'f) pipeline_run \<Rightarrow> nat list" where
  "loads r = map cell_load (pl_cells r)"

lemma cell_turn_load: "cell_turn ended c = Some (ems, c') \<Longrightarrow> cell_load c' < cell_load c"
  by (erule cell_turn_cases)
    (auto simp: cell_load_def split: station.splits elim!: station_of.elims end_station.elims)

lemma cells_turn_load:
  "cells_turn i ended cs = Some (fs, out, cs') \<Longrightarrow> (map cell_load cs', map cell_load cs) \<in> lex less_than"
proof (induction i ended cs arbitrary: fs out cs' rule: cells_turn.induct)
  case (2 ended c cs)
  then obtain ems c' where turn: "cell_turn ended c = Some (ems, c')" by (auto split: option.splits prod.splits)
  then show ?case using 2 cell_turn_load[OF turn] by (auto split: list.splits)
next
  case (3 i ended c cs)
  then show ?case by (auto split: option.splits)
qed simp

text \<open>A run that changes has failed, or has less to do.\<close>

definition advanced :: "('i, 'f) pipeline_run \<Rightarrow> ('i, 'f) pipeline_run \<Rightarrow> bool" where
  "advanced r' r \<longleftrightarrow> pl_failed r = None \<and> (pl_failed r' \<noteq> None \<or> (loads r', loads r) \<in> lex less_than)"

lemma lex_less_irrefl [simp]: "(ns, ns) \<notin> lex less_than"
  using wf_irrefl[OF wf_lex[OF wf_less_than]] by blast

lemma pl_turn_advances: "pl_turn r i = r \<or> advanced (pl_turn r i) r"
proof (cases rule: pl_turn_cases[where r = r and i = i, case_names still fails works])
  case (works fs out cs)
  then show ?thesis using cells_turn_load[OF works(2)] by (simp add: advanced_def loads_def)
qed (simp_all add: advanced_def)

lemma pl_failed_stays: "pl_failed r \<noteq> None \<Longrightarrow> pl_run is r = r"
  by (induction "is") (simp_all add: pl_turn_def)

lemma pl_run_advances: "pl_run is r = r \<or> advanced (pl_run is r) r"
proof (induction "is" arbitrary: r)
  case (Cons i "is")
  consider "pl_turn r i = r" | "advanced (pl_turn r i) r" using pl_turn_advances by blast
  then show ?case
  proof cases
    case 2
    then show ?thesis
      using Cons.IH[of "pl_turn r i"] pl_failed_stays[of "pl_turn r i" "is"] transD[OF lex_transI[OF trans_less_than]]
      by (auto simp: advanced_def)
  qed (use Cons.IH in simp)
qed simp

lemma pl_run_still: "pl_run is r = r \<Longrightarrow> i \<in> set is \<Longrightarrow> pl_turn r i = r"
proof (induction "is" arbitrary: r)
  case (Cons j js)
  have "pl_turn r j = r"
  proof (rule ccontr)
    assume "pl_turn r j \<noteq> r"
    then have adv: "advanced (pl_turn r j) r" using pl_turn_advances by blast
    have "advanced (pl_run js (pl_turn r j)) r"
      using pl_run_advances[of js "pl_turn r j"] adv pl_failed_stays[of "pl_turn r j" js]
        transD[OF lex_transI[OF trans_less_than]]
      by (auto simp: advanced_def)
    then have "advanced r r" using Cons.prems(1) by simp
    then show False by (auto simp: advanced_def)
  qed
  then show ?case using Cons by auto
qed simp

text \<open>Where no stage hangs, one that can work is found.\<close>

lemma cells_turn_possible:
  assumes "\<exists>c \<in> set cs. cl_station c \<noteq> Closed" "closed_in_order ended cs"
    "\<forall>c \<in> set cs. cl_station c \<noteq> Hung" "ended"
  shows "\<exists>i < length cs. is_broken (cl_station (cs ! i)) \<noteq> None \<or> cells_turn i ended cs \<noteq> None"
  using assms
proof (induction cs)
  case (Cons c cs)
  show ?case
  proof (cases "cl_station c")
    case (Live st)
    then have "cell_turn ended c \<noteq> None" using Cons.prems(4) by (auto simp: cell_turn_def split: list.splits)
    then have "cells_turn 0 ended (c # cs) \<noteq> None" by (auto split: list.splits)
    then show ?thesis by fastforce
  next
    case Closed
    have "\<exists>c \<in> set cs. cl_station c \<noteq> Closed" "closed_in_order ended cs" "\<forall>c \<in> set cs. cl_station c \<noteq> Hung"
      using Cons.prems Closed by simp_all
    from Cons.IH[OF this Cons.prems(4)]
    obtain i where i: "i < length cs" "is_broken (cl_station (cs ! i)) \<noteq> None \<or> cells_turn i ended cs \<noteq> None"
      by blast
    have "is_broken (cl_station ((c # cs) ! Suc i)) \<noteq> None \<or> cells_turn (Suc i) ended (c # cs) \<noteq> None"
      using i(2) Closed Cons.prems(4) by (auto split: option.splits)
    then show ?thesis using i(1) by (intro exI[of _ "Suc i"]) simp
  next
    case Hung
    then show ?thesis using Cons.prems(3) by simp
  next
    case (Broken e)
    then show ?thesis by (intro exI[of _ 0]) simp
  qed
qed simp

lemma pl_turn_possible:
  assumes "pl_ok r" "pl_result r = None" "\<forall>c \<in> set (pl_cells r). cl_station c \<noteq> Hung"
  shows "\<exists>i < length (pl_cells r). pl_turn r i \<noteq> r"
proof -
  have running: "pl_failed r = None" "\<exists>c \<in> set (pl_cells r). cl_station c \<noteq> Closed"
    using assms(2) by (auto simp: pl_result_def split: option.splits if_splits)
  then obtain i where i: "i < length (pl_cells r)"
    "is_broken (cl_station (pl_cells r ! i)) \<noteq> None \<or> cells_turn i True (pl_cells r) \<noteq> None"
    using cells_turn_possible[of "pl_cells r" True] assms(1,3) by (auto simp: pl_ok_def)
  have "pl_turn r i \<noteq> r"
  proof (cases "is_broken (cl_station (pl_cells r ! i))")
    case (Some e)
    then have "pl_failed (pl_turn r i) = Some e" using i(1) running(1) by (simp add: pl_turn_def)
    then show ?thesis using running(1) by auto
  next
    case None
    then obtain fs out cs where w: "cells_turn i True (pl_cells r) = Some (fs, out, cs)" using i(2) by auto
    then have "(map cell_load cs, loads r) \<in> lex less_than" using cells_turn_load by (auto simp: loads_def)
    moreover have "pl_cells (pl_turn r i) = cs" using None w i(1) running(1) by (simp add: pl_turn_def)
    ultimately show ?thesis by (metis lex_less_irrefl loads_def)
  qed
  then show ?thesis using i(1) by blast
qed

lemma cells_turn_length: "cells_turn i ended cs = Some (fs, out, cs') \<Longrightarrow> length cs' = length cs"
  by (induction i ended cs arbitrary: fs out cs' rule: cells_turn.induct)
    (auto split: option.splits list.splits)

lemma pl_run_length [simp]: "length (pl_cells (pl_run is r)) = length (pl_cells r)"
proof -
  have "length (pl_cells (pl_turn r i)) = length (pl_cells r)" for r :: "('i, 'f) pipeline_run" and i
    by (cases rule: pl_turn_cases[where r = r and i = i]) (auto dest: cells_turn_length)
  note turn = this
  show ?thesis by (induction "is" arbitrary: r) (simp_all add: turn)
qed

text \<open>Rounds in which every stage has its turn, in whatever order, bring a run to its end.\<close>

definition is_round :: "('i, 'f) pipeline_run \<Rightarrow> nat list \<Rightarrow> bool" where
  "is_round r is \<longleftrightarrow> {..<length (pl_cells r)} \<subseteq> set is"

lemma rounds_settle:
  assumes "pl_ok r" "\<And>n. is_round r (rounds n)"
  shows "\<exists>n. let r' = pl_run (concat (map rounds [0..<n])) r in
    pl_result r' \<noteq> None \<or> (\<exists>c \<in> set (pl_cells r'). cl_station c = Hung)"
  using assms
proof (induction "loads r" arbitrary: r rounds rule: wf_induct_rule[OF wf_lex[OF wf_less_than]])
  case 1
  show ?case
  proof (cases "pl_result r \<noteq> None \<or> (\<exists>c \<in> set (pl_cells r). cl_station c = Hung)")
    case True
    then show ?thesis by (intro exI[of _ 0]) (simp add: Let_def)
  next
    case False
    then obtain i where i: "i < length (pl_cells r)" "pl_turn r i \<noteq> r" using pl_turn_possible[OF 1(2)] by auto
    let ?r = "pl_run (rounds 0) r"
    have "?r \<noteq> r" using pl_run_still[of "rounds 0" r i] i 1(3)[of 0] by (auto simp: is_round_def)
    then have adv: "advanced ?r r" using pl_run_advances by blast
    have rounds: "concat (map rounds [0..<Suc n]) = rounds 0 @ concat (map (\<lambda>n. rounds (Suc n)) [0..<n])" for n
      by (simp add: upt_conv_Cons map_Suc_upt[symmetric] comp_def del: upt_Suc map_Suc_upt)
    show ?thesis
    proof (cases "pl_failed ?r")
      case (Some e)
      then show ?thesis by (intro exI[of _ 1]) (simp add: pl_result_def Let_def)
    next
      case None
      then have "(loads ?r, loads r) \<in> lex less_than" using adv by (simp add: advanced_def)
      moreover have "pl_ok ?r" using pl_run_ok[OF 1(2)] by blast
      moreover have "is_round ?r (rounds (Suc n))" for n using 1(3)[of "Suc n"] by (simp add: is_round_def)
      ultimately obtain n where "let r' = pl_run (concat (map (\<lambda>n. rounds (Suc n)) [0..<n])) ?r in
          pl_result r' \<noteq> None \<or> (\<exists>c \<in> set (pl_cells r'). cl_station c = Hung)"
        using 1(1)[of ?r "\<lambda>n. rounds (Suc n)"] by blast
      then show ?thesis using rounds[of n] by (intro exI[of _ "Suc n"]) (simp add: pl_run_append)
    qed
  qed
qed

lemma cells_turn_closed: "\<forall>c \<in> set cs. cl_station c = Closed \<Longrightarrow> cells_turn i ended cs = None"
  by (induction i ended cs rule: cells_turn.induct) (auto simp: cell_turn_def)

lemma pl_result_stays: "pl_result r \<noteq> None \<Longrightarrow> pl_turn r i = r"
proof (cases rule: pl_turn_cases[where r = r and i = i, case_names still fails works])
  case (fails e)
  assume "pl_result r \<noteq> None"
  then have "\<forall>c \<in> set (pl_cells r). cl_station c = Closed"
    using fails(1) by (auto simp: pl_result_def split: if_splits)
  then have "cl_station (pl_cells r ! i) = Closed" using fails(2) nth_mem by blast
  then show ?thesis using fails(3) by simp
next
  case (works fs out cs)
  assume "pl_result r \<noteq> None"
  then have "\<forall>c \<in> set (pl_cells r). cl_station c = Closed"
    using works(1) by (auto simp: pl_result_def split: if_splits)
  from cells_turn_closed[OF this] show ?thesis using works(2) by simp
qed

lemma pl_run_result_stays: "pl_result r \<noteq> None \<Longrightarrow> pl_run is r = r"
  by (induction "is" arbitrary: r) (simp_all add: pl_result_stays)

lemma pl_start_length: "length (pl_cells (pl_start sts xs)) = length sts"
  by (cases sts) (simp_all add: pl_start_def)

text \<open>Fair rounds finish a pipeline whose stages end well, after any turns.\<close>

lemma rounds_finish:
  assumes "through 0 sts xs = Some (out, fs)" "\<And>n. {..<length sts} \<subseteq> set (rounds n)"
  shows "\<exists>n. pl_result (pl_run (concat (map rounds [0..<n])) (pl_run turns (pl_start sts xs))) = Some (Inr ())"
proof -
  let ?r = "pl_run turns (pl_start sts xs)"
  have ok: "pl_ok ?r" "same_outcome (Some (out, fs)) (outlook ?r)"
    using pl_run_ok[OF pl_start_ok, of turns sts xs] assms(1) by (simp_all add: pl_start_outlook)
  have "is_round ?r (rounds n)" for n using assms(2)[of n] by (simp add: is_round_def pl_start_length)
  from rounds_settle[where rounds = rounds, OF ok(1) this] obtain n where
    n: "pl_result (pl_run (concat (map rounds [0..<n])) ?r) \<noteq> None
      \<or> (\<exists>c \<in> set (pl_cells (pl_run (concat (map rounds [0..<n])) ?r)). cl_station c = Hung)"
    by (auto simp: Let_def)
  let ?r' = "pl_run (concat (map rounds [0..<n])) ?r"
  have r': "?r' = pl_run (turns @ concat (map rounds [0..<n])) (pl_start sts xs)" by (simp add: pl_run_append)
  have "outlook ?r' \<noteq> None" using pl_run_ok[OF pl_start_ok, of _ sts xs] assms(1) unfolding r'
    by (metis option.distinct(1) pl_start_outlook same_outcome_None(2))
  then have "drain 0 [] (pl_cells ?r') \<noteq> None" by (auto simp: outlook_def with_done_def)
  then have "\<not> (\<exists>c \<in> set (pl_cells ?r'). cl_station c = Hung)" using drain_Some_station by fastforce
  then obtain res where res: "pl_result ?r' = Some res" using n by auto
  have "pl_failed ?r' = None" unfolding r' by (rule run_not_failed[OF assms(1)])
  then have "res = Inr ()" using res by (cases res) (auto simp: pl_result_failed)
  then show ?thesis using res by blast
qed

section \<open>Properties\<close>


definition relay_stage :: "('i, 'f) stage" where
  "relay_stage = make_stage (\<lambda>s x. ([Push x], Returns s)) (\<lambda>s. ([], Returns ())) ()"

lemma relay_chunk: "on_chunk relay_stage x = ([Push x], Returns relay_stage)"
  by (simp add: relay_stage_def)

lemma relay_end: "on_end relay_stage = ([], Returns ())"
  by (simp add: relay_stage_def)

lemma relays_through: "through 0 [relay_stage, relay_stage] [7, 8 :: nat] = Some ([7, 8], [])"
  by (simp add: run_stage_def relay_chunk relay_end)

lemma relays_run:
  "pl_result (pl_run [0, 1, 0, 0, 1, 1] (pl_start [relay_stage, relay_stage :: (nat, unit) stage] [7, 8])) = Some (Inr ())"
  by (simp add: pl_start_def pl_turn_def new_cell_def enqueue_def cell_turn_def relay_chunk relay_end pl_result_def)




end
