(* ===== verification/Stream_Chain.thy ===== *)
theory Stream_Chain
  imports Pipeline_Schedule
begin

text \<open>
  The stages of \<open>src/core/core.ts\<close> as stages of a pipeline, the fallback stage with its failure sink
  (\<open>buildFallbackTransform\<close>), and \<open>buildTransformChain\<close>.  The native stream of a plugin is an argument.
\<close>

section \<open>Items and effects\<close>

text \<open>A chunk of bytes, or a value in object mode.\<close>

datatype stream_item = Chunk buffer | Value js_value

text \<open>
  What a handler does besides pushing: progress events, promises handed to \<open>track\<close> with the instant
  at which they settle, chunks written to the failure sink, the manifest handed to a callback, and
  native writes to the file of a session.
\<close>

datatype stream_effect =
    Progressed nat
  | Tracked "time option"
  | Diverted buffer
  | ManifestSeen js_value
  | Wrote buffer

type_synonym px_stage = "(stream_item, stream_effect) stage"
type_synonym px_emissions = "(stream_item, stream_effect) emission list"

text \<open>What \<open>Writable\<close> accepts as bytes, and how an object stage sees a chunk.\<close>

fun item_bytes :: "stream_item \<Rightarrow> buffer option" where
  "item_bytes (Chunk b) = Some b"
| "item_bytes (Value (JsBuffer b)) = Some (bytes_of b)"
| "item_bytes (Value (JsView bs)) = Some bs"
| "item_bytes (Value v) = None"

fun item_value :: "stream_item \<Rightarrow> js_value" where
  "item_value (Chunk b) = JsBuffer (0, b)"
| "item_value (Value v) = v"

definition invalid_chunk :: px_error where
  "invalid_chunk = JsTypeError ''The chunk argument must be of type string or an instance of Buffer''"

definition emit_all :: "('o \<Rightarrow> stream_item) \<Rightarrow> ('s, 'o, px_error) outcome \<Rightarrow> px_emissions \<times> 's flow" where
  "emit_all wrap r = (map (Push \<circ> wrap) (fst r), case snd r of Inl e \<Rightarrow> Throws e | Inr s \<Rightarrow> Returns s)"

definition end_all :: "('o \<Rightarrow> stream_item) \<Rightarrow> ('s, 'o, px_error) outcome \<Rightarrow> px_emissions \<times> unit flow" where
  "end_all wrap r = (case emit_all wrap r of (ems, f) \<Rightarrow> (ems, map_flow (\<lambda>_. ()) f))"

text \<open>A stage on bytes, one on values, and the two that change from one to the other.\<close>

definition with_bytes :: "stream_item \<Rightarrow> (buffer \<Rightarrow> px_emissions \<times> 's flow) \<Rightarrow> px_emissions \<times> 's flow" where
  "with_bytes it f = (case item_bytes it of Some b \<Rightarrow> f b | None \<Rightarrow> ([], Throws invalid_chunk))"

definition byte_stage ::
  "('s \<Rightarrow> buffer \<Rightarrow> ('s, buffer, px_error) outcome) \<Rightarrow> ('s \<Rightarrow> ('s, buffer, px_error) outcome) \<Rightarrow> 's \<Rightarrow> px_stage" where
  "byte_stage tr fl =
     make_stage (\<lambda>s it. with_bytes it (\<lambda>b. emit_all Chunk (tr s b))) (\<lambda>s. end_all Chunk (fl s))"

definition value_stage :: "('s \<Rightarrow> js_value \<Rightarrow> ('s, js_value, px_error) outcome) \<Rightarrow> 's \<Rightarrow> px_stage" where
  "value_stage tr = make_stage (\<lambda>s it. emit_all Value (tr s (item_value it))) (\<lambda>s. ([], Returns ()))"

definition decode_stage ::
  "('s \<Rightarrow> buffer \<Rightarrow> ('s, js_value, px_error) outcome) \<Rightarrow> ('s \<Rightarrow> ('s, js_value, px_error) outcome) \<Rightarrow> 's \<Rightarrow> px_stage" where
  "decode_stage tr fl =
     make_stage (\<lambda>s it. with_bytes it (\<lambda>b. emit_all Value (tr s b))) (\<lambda>s. end_all Value (fl s))"

definition encode_stage :: "(js_value \<Rightarrow> px_error + buffer) \<Rightarrow> px_stage" where
  "encode_stage f =
     make_stage (\<lambda>s it. case f (item_value it) of
         Inl e \<Rightarrow> ([], Throws e) | Inr b \<Rightarrow> ([Push (Chunk b)], Returns s)) (\<lambda>s. ([], Returns ())) ()"

section \<open>Limits\<close>

definition byte_limit_stage :: "nat \<Rightarrow> string \<Rightarrow> px_stage" where
  "byte_limit_stage maxBytes label = byte_stage (byte_limit maxBytes label) no_flush 0"

definition object_limit_stage :: "nat \<Rightarrow> px_stage" where
  "object_limit_stage maxObjects = value_stage (object_limit maxObjects) 0"

definition known_value_stage :: "js_runtime \<Rightarrow> nat \<Rightarrow> string \<Rightarrow> px_stage" where
  "known_value_stage rt maxBytes label = value_stage (known_value_limit rt maxBytes label) ()"

section \<open>The failure sink\<close>

text \<open>
  The writable that failed chunks go to: whether it can be written to, what \<open>write\<close> answers (an
  exception, or whether there is room), and when it emits \<open>drain\<close> or \<open>error\<close> after that.
\<close>

record dead_letters =
  dlq_writable :: "time \<Rightarrow> bool"
  dlq_write :: "buffer \<Rightarrow> px_error + bool"
  dlq_drain :: "time option"
  dlq_error :: "(time \<times> px_error) option"

text \<open>The first of several events to happen; of two at the same instant, the first in the list.\<close>

fun earliest :: "(time \<times> 'a) option list \<Rightarrow> (time \<times> 'a) option" where
  "earliest [] = None"
| "earliest (None # es) = earliest es"
| "earliest (Some (t, a) # es) =
     (case earliest es of Some (t', b) \<Rightarrow> if t' < t then Some (t', b) else Some (t, a) | None \<Rightarrow> Some (t, a))"

definition dlq_closed :: px_error where
  "dlq_closed = JsError ''[PipeX] Stream closed while writing to DLQ''"

text \<open>
  The wait for room: it ends with \<open>drain\<close>, with an error of the sink, with an abort, or when the stage
  is closed at \<open>closing\<close>.
\<close>

definition dlq_wait ::
  "dead_letters \<Rightarrow> abort_signal option \<Rightarrow> time option \<Rightarrow> time \<Rightarrow> unit settlement" where
  "dlq_wait dlq signal closing now =
     (case (case signal of None \<Rightarrow> None | Some sig \<Rightarrow> aborted_by sig now) of
        Some reason \<Rightarrow> Settles now (Inl (raw_reason reason))
      | None \<Rightarrow>
          (case earliest
             [map_option (map_prod id (\<lambda>reason. Inl (raw_reason reason)))
                (case signal of None \<Rightarrow> None | Some sig \<Rightarrow> sig_abort sig),
              map_option (\<lambda>t. (max now t, Inr ())) (dlq_drain dlq),
              map_option (\<lambda>(t, e). (max now t, Inl e)) (dlq_error dlq),
              map_option (\<lambda>t. (max now t, Inl dlq_closed)) closing] of
             None \<Rightarrow> Pending
           | Some (t, r) \<Rightarrow> Settles t r))"

text \<open>The \<open>catch\<close> block: the chunk that went to the sink, and what the callback is given, if it is
  called.\<close>

definition fallback_failure ::
  "dead_letters option \<Rightarrow> abort_signal option \<Rightarrow> time option \<Rightarrow> time \<Rightarrow> buffer \<Rightarrow> px_error
     \<Rightarrow> px_emissions \<times> px_error option" where
  "fallback_failure dlq signal closing now chunk err =
     (case dlq of
        None \<Rightarrow> ([], Some err)
      | Some sink \<Rightarrow>
          if \<not> dlq_writable sink now then ([], Some err)
          else case dlq_write sink chunk of
            Inl e \<Rightarrow> ([], Some e)
          | Inr room \<Rightarrow>
              ([Effect (Diverted chunk)],
               if room then Some err
               else case dlq_wait sink signal closing now of
                 Pending \<Rightarrow> None
               | Settles t (Inl e) \<Rightarrow> Some e
               | Settles t (Inr _) \<Rightarrow> Some err))"

section \<open>The fallback stage\<close>

text \<open>\<open>StreamPluginContext\<close>, less the logger and the tracer.\<close>

record stream_context =
  sc_requestId :: string
  sc_signal :: abort_signal
  sc_limits :: engine_limits

text \<open>
  What the runtime decides about a fallback stage: when the \<open>n\<close>-th chunk arrives, when the stage is
  closed from outside, and the identifier that \<open>randomUUID\<close> gives without a context.
\<close>

record stage_clock =
  ck_arrival :: "nat \<Rightarrow> time"
  ck_closed :: "time option"
  ck_uuid :: string

definition settled_at :: "'a settlement \<Rightarrow> time option" where
  "settled_at p = (case p of Pending \<Rightarrow> None | Settles t _ \<Rightarrow> Some t)"

text \<open>The promises that \<open>withRetry\<close> hands to \<open>track\<close> while the stage works on a chunk.\<close>

definition fallback_promises ::
  "plugin \<Rightarrow> bool \<Rightarrow> stream_context option \<Rightarrow> time \<Rightarrow> js_buffer \<Rightarrow> px_emissions" where
  "fallback_promises p reverse sc now chunk =
     (case sc of
        None \<Rightarrow> []
      | Some c \<Rightarrow>
          if reverse \<and> supportsReverse p \<noteq> Inr True then []
          else
            let ctx = makeContext (sc_requestId c) Map.empty (Some (sc_signal c)) (Some (sc_limits c)) now;
                call = (if reverse then call_reverse p else plugin_process p)
            in map (\<lambda>a. Effect (Tracked (settled_at a)))
                 (tracked_attempts (call ctx chunk) (plugin_retryOptions p) (sc_limits c) (sc_signal c) now))"

definition fallback_transform ::
  "plugin \<Rightarrow> bool \<Rightarrow> dead_letters option \<Rightarrow> stream_context option \<Rightarrow> stage_clock \<Rightarrow> nat \<Rightarrow> buffer
     \<Rightarrow> px_emissions \<times> nat flow" where
  "fallback_transform p reverse dlq sc clock n chunk =
     (let now = ck_arrival clock n;
          requestId = (case sc of Some c \<Rightarrow> sc_requestId c | None \<Rightarrow> ''stream-'' @ ck_uuid clock);
          signal = map_option sc_signal sc;
          promises = fallback_promises p reverse sc now (n, chunk)
      in case fallback_chunk p reverse requestId signal (map_option sc_limits sc) now (n, chunk) of
           Pending \<Rightarrow> (promises, Hangs)
         | Settles t (Inr out) \<Rightarrow>
             (promises @ [Effect (Progressed (length (bytes_of out))), Push (Chunk (bytes_of out))],
              Returns (n + 1))
         | Settles t (Inl err) \<Rightarrow>
             (case fallback_failure dlq signal (ck_closed clock) t chunk err of
                (ems, None) \<Rightarrow> (promises @ ems, Hangs)
              | (ems, Some e) \<Rightarrow> (promises @ ems, Throws e)))"

definition fallback_stage ::
  "plugin \<Rightarrow> bool \<Rightarrow> dead_letters option \<Rightarrow> stream_context option \<Rightarrow> stage_clock \<Rightarrow> px_stage" where
  "fallback_stage p reverse dlq sc clock =
     make_stage (\<lambda>n it. with_bytes it (fallback_transform p reverse dlq sc clock n)) (\<lambda>n. ([], Returns ())) 0"

section \<open>The chain\<close>

text \<open>The stage that observes a native stream: it reports progress.\<close>

definition observe_stage :: px_stage where
  "observe_stage =
     make_stage (\<lambda>s it. with_bytes it (\<lambda>b. ([Effect (Progressed (length b)), Push (Chunk b)], Returns s)))
       (\<lambda>s. ([], Returns ())) ()"

text \<open>
  What a chain is built with: \<open>cf_create p compress\<close> is \<open>p.createStream(mode, streamContext)\<close>, and
  \<open>cf_clock i\<close> belongs to the stage of the plugin at position \<open>i\<close>.
\<close>

record chain_factory =
  cf_create :: "plugin \<Rightarrow> bool \<Rightarrow> px_error + px_stage"
  cf_clock :: "nat \<Rightarrow> stage_clock"

definition chain_output_limit :: "stream_context option \<Rightarrow> nat" where
  "chain_output_limit sc = fallback_output_limit (map_option sc_limits sc)"

definition after_plugin :: "plugin \<Rightarrow> nat \<Rightarrow> string" where
  "after_plugin p i = ''output after plugin '' @ plugin_name p @ ''#'' @ nat_digits i"

definition plugin_stages ::
  "chain_factory \<Rightarrow> bool \<Rightarrow> bool \<Rightarrow> dead_letters option \<Rightarrow> stream_context option \<Rightarrow> nat \<Rightarrow> plugin
     \<Rightarrow> px_error + px_stage list" where
  "plugin_stages cf compress reverse dlq sc i p =
     (let limit = byte_limit_stage (chain_output_limit sc) (after_plugin p i) in
      if hasStreamSupport p
      then rbind (cf_create cf p compress) (\<lambda>transform. Inr [transform, observe_stage, limit])
      else Inr [fallback_stage p reverse dlq sc (cf_clock cf i), limit])"

fun chain_from ::
  "chain_factory \<Rightarrow> bool \<Rightarrow> bool \<Rightarrow> dead_letters option \<Rightarrow> stream_context option \<Rightarrow> nat \<Rightarrow> plugin list
     \<Rightarrow> px_error + px_stage list" where
  "chain_from cf compress reverse dlq sc i [] = Inr []"
| "chain_from cf compress reverse dlq sc i (p # ps) =
     rbind (plugin_stages cf compress reverse dlq sc i p) (\<lambda>here.
       rbind (chain_from cf compress reverse dlq sc (i + 1) ps) (\<lambda>later. Inr (here @ later)))"

definition buildTransformChain ::
  "chain_factory \<Rightarrow> plugin list \<Rightarrow> bool \<Rightarrow> bool \<Rightarrow> dead_letters option \<Rightarrow> stream_context option
     \<Rightarrow> px_error + px_stage list" where
  "buildTransformChain cf plugins compress reverse dlq sc =
     rbind (assertStreamingPipeline plugins) (\<lambda>_.
       rbind (if reverse then assertReversiblePipeline plugins else Inr ()) (\<lambda>_.
         chain_from cf compress reverse dlq sc 0 (if reverse then rev plugins else plugins)))"

section \<open>A stage of bytes on its own\<close>

lemma with_bytes_Chunk [simp]: "with_bytes (Chunk b) f = f b"
  by (simp add: with_bytes_def)

lemma pushed_map_Push [simp]: "pushed (map (Push \<circ> w) xs) = map w xs" "pushed (map (\<lambda>x. Push (w x)) xs) = map w xs"
  by (induction xs) simp_all

lemma effects_map_Push [simp]: "effects (map (Push \<circ> w) xs) = []" "effects (map (\<lambda>x. Push (w x)) xs) = []"
  by (induction xs) simp_all

lemma feed_byte_stage:
  "feed_stage (byte_stage tr fl s) (map Chunk cs) =
     (case run_chunks tr s cs of
        (out, Inl e) \<Rightarrow> (map (Push \<circ> Chunk) out, Throws e)
      | (out, Inr s') \<Rightarrow> (map (Push \<circ> Chunk) out, Returns (byte_stage tr fl s')))"
proof (induction cs arbitrary: s)
  case (Cons c cs)
  obtain out r where tr: "tr s c = (out, r)" by (cases "tr s c")
  show ?case
  proof (cases r)
    case (Inr s1)
    then show ?thesis using tr Cons.IH[of s1]
      by (auto simp: byte_stage_def emit_all_def split: prod.splits sum.splits)
  qed (use tr in \<open>simp add: byte_stage_def emit_all_def\<close>)
qed simp

lemma run_byte_stage:
  "run_stage (byte_stage tr fl s) (map Chunk cs) = end_all Chunk (run_transform tr fl s cs)"
proof -
  obtain out r where run: "run_chunks tr s cs = (out, r)" by (cases "run_chunks tr s cs")
  show ?thesis
  proof (cases r)
    case (Inr s')
    obtain out' r' where "fl s' = (out', r')" by (cases "fl s'")
    then show ?thesis using run Inr
      by (simp add: run_stage_def feed_byte_stage run_transform_def)
        (simp add: byte_stage_def end_all_def emit_all_def split: sum.split)
  qed (simp add: run run_stage_def feed_byte_stage run_transform_def end_all_def emit_all_def)
qed

lemma end_all_Returns:
  "end_all wrap r = (ems, Returns u) \<longleftrightarrow> succeeds r \<and> ems = map (Push \<circ> wrap) (outputs r)"
  by (cases r) (auto simp: end_all_def emit_all_def succeeds_def outputs_def split: sum.splits)

lemma end_all_flow: "snd (end_all wrap r) = Returns u \<longleftrightarrow> succeeds r"
  by (cases r) (auto simp: end_all_def emit_all_def succeeds_def split: sum.splits)

section \<open>Streams that compute a function of their bytes\<close>

text \<open>
  A stage computes \<open>f\<close> if it turns any chunks whose bytes \<open>f\<close> accepts into chunks of the result,
  without effects of its own, and fails or hangs on all others.
\<close>

definition streams :: "px_stage \<Rightarrow> (buffer \<Rightarrow> px_error + buffer) \<Rightarrow> bool" where
  "streams st f \<longleftrightarrow> (\<forall>cs. case f (concat cs) of
       Inr out \<Rightarrow> (\<exists>outs. run_stage st (map Chunk cs) = (map (Push \<circ> Chunk) outs, Returns ()) \<and> concat outs = out)
     | Inl e \<Rightarrow> snd (run_stage st (map Chunk cs)) \<noteq> Returns ())"

lemma streams_Inr:
  assumes "streams st f" "f (concat cs) = Inr out"
  obtains outs where "run_stage st (map Chunk cs) = (map (Push \<circ> Chunk) outs, Returns ())" "concat outs = out"
  using assms unfolding streams_def by (auto dest!: spec[of _ cs])

lemma streams_Inl:
  "streams st f \<Longrightarrow> f (concat cs) = Inl e \<Longrightarrow> snd (run_stage st (map Chunk cs)) \<noteq> Returns ()"
  unfolding streams_def by (auto dest!: spec[of _ cs])

lemma run_byte_limit_stage:
  "run_stage (byte_limit_stage maxBytes label) (map Chunk cs) =
     end_all Chunk (byte_limit_stream maxBytes label cs)"
  by (simp add: byte_limit_stage_def run_byte_stage byte_limit_stream_def)

lemma streams_byte_limit:
  "streams (byte_limit_stage maxBytes label)
     (\<lambda>b. if length b \<le> maxBytes then Inr b else Inl (exceeds_bytes label maxBytes))"
  unfolding streams_def run_byte_limit_stage
  by (simp add: end_all_Returns end_all_flow byte_limit_iff byte_limit_passes) (metis (no_types))

lemma run_observe_stage:
  "run_stage observe_stage (map Chunk cs) =
     (concat (map (\<lambda>c. [Effect (Progressed (length c)), Push (Chunk c)]) cs), Returns ())"
proof -
  have "feed_stage observe_stage (map Chunk cs) =
     (concat (map (\<lambda>c. [Effect (Progressed (length c)), Push (Chunk c)]) cs), Returns observe_stage)"
    by (induction cs) (simp_all add: observe_stage_def)
  then show ?thesis by (simp add: run_stage_def) (simp add: observe_stage_def)
qed

lemma pushed_observe: "pushed (concat (map (\<lambda>c. [Effect (Progressed (length c)), Push (Chunk c)]) cs)) = map Chunk cs"
  by (induction cs) simp_all

section \<open>The chain of native streams\<close>

text \<open>The bytes that leave a chain of native streams, each limited on its own.\<close>

fun chain_bytes :: "(plugin \<Rightarrow> buffer \<Rightarrow> px_error + buffer) \<Rightarrow> nat \<Rightarrow> plugin list \<Rightarrow> buffer \<Rightarrow> buffer option" where
  "chain_bytes f maxOut [] b = Some b"
| "chain_bytes f maxOut (p # ps) b =
     (case f p b of Inl e \<Rightarrow> None
      | Inr c \<Rightarrow> if length c \<le> maxOut then chain_bytes f maxOut ps c else None)"

definition native_chain ::
  "chain_factory \<Rightarrow> bool \<Rightarrow> plugin list \<Rightarrow> (plugin \<Rightarrow> buffer \<Rightarrow> px_error + buffer) \<Rightarrow> bool" where
  "native_chain cf compress ps f \<longleftrightarrow>
     (\<forall>p \<in> set ps. hasStreamSupport p \<and> (\<exists>st. cf_create cf p compress = Inr st \<and> streams st (f p)))"

text \<open>What a pipeline made of byte stages yields, effects aside.\<close>

definition yields :: "px_stage list \<Rightarrow> (buffer \<Rightarrow> buffer option) \<Rightarrow> bool" where
  "yields sts g \<longleftrightarrow> (\<forall>k cs. case g (concat cs) of
       None \<Rightarrow> through k sts (map Chunk cs) = None
     | Some out \<Rightarrow> (\<exists>outs fs. through k sts (map Chunk cs) = Some (map Chunk outs, fs) \<and> concat outs = out))"

lemma yields_Nil: "yields [] Some"
  unfolding yields_def by (simp, blast)

lemma yields_Cons:
  assumes "streams st f" "yields sts g"
  shows "yields (st # sts) (\<lambda>b. case f b of Inl e \<Rightarrow> None | Inr c \<Rightarrow> g c)"
  unfolding yields_def
proof (intro allI)
  fix k cs
  show "case (case f (concat cs) of Inl e \<Rightarrow> None | Inr c \<Rightarrow> g c) of
       None \<Rightarrow> through k (st # sts) (map Chunk cs) = None
     | Some out \<Rightarrow> (\<exists>outs fs. through k (st # sts) (map Chunk cs) = Some (map Chunk outs, fs) \<and> concat outs = out)"
  proof (cases "f (concat cs)")
    case (Inl e)
    then show ?thesis using streams_Inl[OF assms(1) Inl] by (auto split: prod.split flow.split)
  next
    case (Inr c)
    obtain outs where run: "run_stage st (map Chunk cs) = (map (Push \<circ> Chunk) outs, Returns ())" "concat outs = c"
      by (rule streams_Inr[OF assms(1) Inr])
    have "case g c of None \<Rightarrow> through (k + 1) sts (map Chunk outs) = None
      | Some out \<Rightarrow> (\<exists>outs' fs. through (k + 1) sts (map Chunk outs) = Some (map Chunk outs', fs) \<and> concat outs' = out)"
      using assms(2) run(2) unfolding yields_def by blast
    then show ?thesis using Inr run(1) by (auto split: option.split_asm)
  qed
qed

lemma yields_observe:
  assumes "yields sts g"
  shows "yields (observe_stage # sts) g"
  unfolding yields_def
proof (intro allI)
  fix k cs
  have "case g (concat cs) of None \<Rightarrow> through (k + 1) sts (map Chunk cs) = None
    | Some out \<Rightarrow> (\<exists>outs' fs. through (k + 1) sts (map Chunk cs) = Some (map Chunk outs', fs) \<and> concat outs' = out)"
    using assms unfolding yields_def by blast
  then show "case g (concat cs) of None \<Rightarrow> through k (observe_stage # sts) (map Chunk cs) = None
    | Some out \<Rightarrow> (\<exists>outs fs. through k (observe_stage # sts) (map Chunk cs) = Some (map Chunk outs, fs) \<and> concat outs = out)"
    by (auto simp: run_observe_stage pushed_observe split: option.split_asm)
qed

lemma yields_cong: "yields sts g \<Longrightarrow> (\<And>b. g b = g' b) \<Longrightarrow> yields sts g'"
  by (simp add: yields_def)

lemma yields_limit:
  assumes "yields sts g"
  shows "yields (byte_limit_stage maxBytes label # sts) (\<lambda>b. if length b \<le> maxBytes then g b else None)"
  by (rule yields_cong[OF yields_Cons[OF streams_byte_limit assms]]) simp

lemma yields_chain_from:
  assumes "native_chain cf compress ps f" "yields sts' g"
  shows "\<exists>sts. chain_from cf compress reverse dlq sc i ps = Inr sts
    \<and> yields (sts @ sts') (\<lambda>b. case chain_bytes f (chain_output_limit sc) ps b of None \<Rightarrow> None | Some c \<Rightarrow> g c)"
  using assms(1)
proof (induction ps arbitrary: i)
  case Nil
  show ?case using assms(2) by simp
next
  case (Cons p ps)
  then obtain sts where sts: "chain_from cf compress reverse dlq sc (i + 1) ps = Inr sts"
    and rest: "yields (sts @ sts') (\<lambda>b. case chain_bytes f (chain_output_limit sc) ps b of None \<Rightarrow> None | Some c \<Rightarrow> g c)"
    using Cons.IH[of "i + 1"] by (auto simp: native_chain_def)
  from Cons.prems obtain st where p: "hasStreamSupport p" "cf_create cf p compress = Inr st" "streams st (f p)"
    by (auto simp: native_chain_def)
  let ?limit = "byte_limit_stage (chain_output_limit sc) (after_plugin p i)"
  have "chain_from cf compress reverse dlq sc i (p # ps) = Inr ([st, observe_stage, ?limit] @ sts)"
    using p sts by (simp add: plugin_stages_def)
  moreover have "yields (([st, observe_stage, ?limit] @ sts) @ sts')
      (\<lambda>b. case chain_bytes f (chain_output_limit sc) (p # ps) b of None \<Rightarrow> None | Some c \<Rightarrow> g c)"
    using yields_cong[OF yields_Cons[OF p(3) yields_observe[OF yields_limit[OF rest]]]]
    by (auto split: sum.split)
  ultimately show ?case by blast
qed

text \<open>The whole pipeline of bytes, as the controllers build it.\<close>

definition bytes_pipeline :: "engine_limits \<Rightarrow> px_stage list \<Rightarrow> px_stage list" where
  "bytes_pipeline limits transforms =
     byte_limit_stage (maxInputBytes limits) ''input'' # transforms
       @ [byte_limit_stage (maxOutputBytes limits) ''output'']"

definition pipeline_bytes ::
  "(plugin \<Rightarrow> buffer \<Rightarrow> px_error + buffer) \<Rightarrow> engine_limits \<Rightarrow> plugin list \<Rightarrow> buffer \<Rightarrow> buffer option" where
  "pipeline_bytes f limits ps b =
     (if length b \<le> maxInputBytes limits
      then case chain_bytes f (maxOutputBytes limits) ps b of None \<Rightarrow> None
        | Some c \<Rightarrow> if length c \<le> maxOutputBytes limits then Some c else None
      else None)"

lemma yields_pipeline:
  assumes "native_chain cf compress ps f"
    and "chain_from cf compress reverse dlq (Some sc) i ps = Inr sts"
  shows "yields (bytes_pipeline (sc_limits sc) sts) (pipeline_bytes f (sc_limits sc) ps)"
proof -
  let ?max = "maxOutputBytes (sc_limits sc)"
  have "yields [byte_limit_stage ?max ''output''] (\<lambda>b. if length b \<le> ?max then Some b else None)"
    by (rule yields_limit[OF yields_Nil])
  from yields_chain_from[OF assms(1) this, of reverse dlq "Some sc" i] assms(2)
  have "yields (sts @ [byte_limit_stage ?max ''output''])
      (\<lambda>b. case chain_bytes f ?max ps b of None \<Rightarrow> None | Some c \<Rightarrow> if length c \<le> ?max then Some c else None)"
    by (auto simp: chain_output_limit_def fallback_output_limit_def)
  from yields_limit[OF this, of "maxInputBytes (sc_limits sc)" "''input''"] show ?thesis
    by (simp add: bytes_pipeline_def pipeline_bytes_def[abs_def] cong: if_cong)
qed

lemma yields_Some:
  assumes "yields sts g" "g (concat cs) = Some out"
  obtains outs fs where "through k sts (map Chunk cs) = Some (map Chunk outs, fs)" "concat outs = out"
proof -
  have "case g (concat cs) of None \<Rightarrow> through k sts (map Chunk cs) = None
    | Some out \<Rightarrow> (\<exists>outs fs. through k sts (map Chunk cs) = Some (map Chunk outs, fs) \<and> concat outs = out)"
    using assms(1) unfolding yields_def by blast
  then show thesis using assms(2) that by auto
qed

lemma yields_None: "yields sts g \<Longrightarrow> g (concat cs) = None \<Longrightarrow> through k sts (map Chunk cs) = None"
  unfolding yields_def by (auto dest!: spec[of _ k] spec[of _ cs])

end
