(* ===== verification/Stream_Runs.thy ===== *)
theory Stream_Runs
  imports Stream_Chain Binary_Safety
begin

text \<open>
  A pipeline as a step of an operation: \<open>runPipeline\<close> of \<open>src/core/core.ts\<close> with the signal of the
  operation.  The runtime gives the turns of the stages and the instants at which they happen; the
  pipeline ends as soon as it has failed, finished, or the signal has aborted.  The effects of the
  stages reach the engine in the order in which they happened.
\<close>

section \<open>Running under a signal\<close>

text \<open>The error of a pipeline whose signal aborts.\<close>

definition pipeline_aborted :: px_error where
  "pipeline_aborted = JsError ''The operation was aborted''"

fun drive ::
  "abort_signal \<Rightarrow> time \<Rightarrow> (time \<times> nat) list \<Rightarrow> ('i, 'f) pipeline_run
     \<Rightarrow> ('i, 'f) pipeline_run \<times> time \<times> unit flow" where
  "drive signal now turns r =
     (case pl_result r of
        Some (Inr _) \<Rightarrow> (r, now, Returns ())
      | Some (Inl e) \<Rightarrow> (r, now, Throws e)
      | None \<Rightarrow>
          (case turns of
             [] \<Rightarrow>
               (case sig_abort signal of
                  None \<Rightarrow> (r, now, Hangs)
                | Some (ta, reason) \<Rightarrow> (r, max now ta, Throws pipeline_aborted))
           | (t, i) # later \<Rightarrow>
               (case sig_abort signal of
                  None \<Rightarrow> drive signal (max now t) later (pl_turn r i)
                | Some (ta, reason) \<Rightarrow>
                    if ta \<le> max now t then (r, max now ta, Throws pipeline_aborted)
                    else drive signal (max now t) later (pl_turn r i))))"

declare drive.simps [simp del]

definition settled_in :: "time option \<Rightarrow> time option \<Rightarrow> bool" where
  "settled_in until t =
     (case t of None \<Rightarrow> False | Some u \<Rightarrow> (case until of None \<Rightarrow> True | Some v \<Rightarrow> u \<le> v))"

text \<open>The callbacks that the stream context and the stages call on the engine.\<close>

fun apply_effect :: "string \<Rightarrow> time option \<Rightarrow> run_state \<Rightarrow> stream_effect \<Rightarrow> run_state" where
  "apply_effect r until s (Progressed n) = s\<lparr>rs_engine := emitProgress n r (rs_engine s)\<rparr>"
| "apply_effect r until s (Tracked t) =
     (let e = trackWork r (rs_promise s) (rs_engine s) in
      s\<lparr>rs_engine := (if settled_in until t then settle (rs_promise s) e else e), rs_promise := rs_promise s + 1\<rparr>)"
| "apply_effect r until s (Diverted chunk) = s"
| "apply_effect r until s (ManifestSeen m) = s\<lparr>rs_engine := emit (EvManifest m r) (rs_engine s)\<rparr>"
| "apply_effect r until s (Wrote bytes) = s"

definition op_pipeline ::
  "string \<Rightarrow> abort_signal \<Rightarrow> (time \<times> nat) list \<Rightarrow> px_stage list \<Rightarrow> stream_item list \<Rightarrow> stream_item list op" where
  "op_pipeline r signal turns sts items s =
     (let (run, t, fl) = drive signal (rs_now s) turns (pl_start sts items);
          until = (case fl of Hangs \<Rightarrow> None | _ \<Rightarrow> Some t);
          s = foldl (apply_effect r until) s (map snd (pl_log run))
      in (s\<lparr>rs_now := t\<rparr>, map_flow (\<lambda>_. pl_out run) fl))"

section \<open>What a run under a signal is\<close>

text \<open>It is a run of the pipeline by some of the turns.\<close>

lemma drive_run:
  "drive signal now turns r = (r', t, fl) \<Longrightarrow>
     (\<exists>is. r' = pl_run is r) \<and> (case fl of Returns _ \<Rightarrow> pl_result r' = Some (Inr ()) | _ \<Rightarrow> True)"
proof (induction signal now turns r rule: drive.induct)
  case (1 signal now turns r)
  show ?case
  proof (cases "pl_result r")
    case (Some res)
    then show ?thesis using "1.prems" by (subst (asm) drive.simps) (auto intro: exI[of _ "[]"] split: sum.splits)
  next
    case None
    have stop: "\<exists>is. r = pl_run is r" by (rule exI[of _ "[]"]) simp
    show ?thesis
    proof (cases turns)
      case Nil
      then show ?thesis using "1.prems" None stop by (subst (asm) drive.simps) (auto split: option.splits)
    next
      case (Cons ti later)
      obtain ts i where ti: "ti = (ts, i)" by (cases ti)
      have go: ?thesis if later: "(\<exists>is. r' = pl_run is (pl_turn r i))
        \<and> (case fl of Returns _ \<Rightarrow> pl_result r' = Some (Inr ()) | _ \<Rightarrow> True)"
      proof -
        from later obtain "is" where "r' = pl_run is (pl_turn r i)" by blast
        then have "r' = pl_run (i # is) r" by simp
        then show ?thesis using later by blast
      qed
      show ?thesis
      proof (cases "sig_abort signal")
        case None': None
        then have "drive signal (max now ts) later (pl_turn r i) = (r', t, fl)"
          using "1.prems" None Cons ti by (subst (asm) drive.simps) auto
        from "1.IH"(1)[OF None Cons ti[symmetric] None' this] show ?thesis by (rule go)
      next
        case (Some a)
        obtain ta reason where a: "a = (ta, reason)" by (cases a)
        show ?thesis
        proof (cases "ta \<le> max now ts")
          case True
          then show ?thesis using "1.prems" None Cons ti Some a stop by (subst (asm) drive.simps) auto
        next
          case False
          then have "drive signal (max now ts) later (pl_turn r i) = (r', t, fl)"
            using "1.prems" None Cons ti Some a by (subst (asm) drive.simps) auto
          from "1.IH"(2)[OF None Cons ti[symmetric] Some[unfolded a] refl False this] show ?thesis by (rule go)
        qed
      qed
    qed
  qed
qed

text \<open>Under a signal that aborts at \<open>ta\<close> it ends by then.\<close>

lemma drive_ends:
  assumes "sig_abort signal = Some (ta, reason)"
  shows "drive signal now turns r = (r', t, fl) \<Longrightarrow> fl \<noteq> Hangs \<and> now \<le> t \<and> t \<le> max now ta"
  using assms
proof (induction signal now turns r rule: drive.induct)
  case (1 signal now turns r)
  show ?case
  proof (cases "pl_result r")
    case (Some res)
    then show ?thesis using "1.prems" by (subst (asm) drive.simps) (auto split: sum.splits)
  next
    case None
    show ?thesis
    proof (cases turns)
      case Nil
      then show ?thesis using "1.prems" None by (subst (asm) drive.simps) auto
    next
      case (Cons ti later)
      obtain ts i where ti: "ti = (ts, i)" by (cases ti)
      show ?thesis
      proof (cases "ta \<le> max now ts")
        case True
        then show ?thesis using "1.prems" None Cons ti by (subst (asm) drive.simps) auto
      next
        case False
        then have "drive signal (max now ts) later (pl_turn r i) = (r', t, fl)"
          using "1.prems" None Cons ti by (subst (asm) drive.simps) auto
        from "1.IH"(2)[OF None Cons ti[symmetric] "1.prems"(2) refl False this "1.prems"(2)]
        show ?thesis using False by auto
      qed
    qed
  qed
qed

section \<open>A pipeline within an operation\<close>

lemma bind_pipeline:
  assumes "drive signal (rs_now s) turns (pl_start sts items) = (run, t, fl)"
  shows "\<exists>s'. op_pipeline r signal turns sts items s = (s'\<lparr>rs_now := t\<rparr>, map_flow (\<lambda>_. pl_out run) fl)
    \<and> s' = foldl (apply_effect r (case fl of Hangs \<Rightarrow> None | _ \<Rightarrow> Some t)) s (map snd (pl_log run))"
  using assms by (simp add: op_pipeline_def Let_def)

lemma in_request_effect:
  assumes "in_request r s"
  shows "in_request r (apply_effect r until s f)"
proof (cases f)
  case (Progressed n)
  then show ?thesis using assms reach_step[OF _ step_progress]
    by (auto simp: in_request_def emitProgress_def emit_same)
next
  case (Tracked t)
  let ?e = "trackWork r (rs_promise s) (rs_engine s)"
  have e: "reachable ?e" "r \<in> eng_active ?e" "r \<notin> eng_finished ?e"
    using track_in_request[of "rs_engine s" r] assms by (auto simp: in_request_def)
  then show ?thesis using Tracked settle_in_request[OF e] by (simp add: in_request_def Let_def)
next
  case (Diverted b)
  then show ?thesis using assms by simp
next
  case (Wrote b)
  then show ?thesis using assms by simp
next
  case (ManifestSeen m)
  then show ?thesis using assms reach_step[OF _ step_manifest]
    by (auto simp: in_request_def emit_same)
qed

lemma in_request_effects: "in_request r s \<Longrightarrow> in_request r (foldl (apply_effect r until) s fs)"
  by (induction fs arbitrary: s) (simp_all add: in_request_effect)

lemma keeps_pipeline: "keeps (in_request r) (op_pipeline r signal turns sts items)"
proof -
  have "in_request r (s\<lparr>rs_now := t\<rparr>) \<longleftrightarrow> in_request r s" for s t by (simp add: in_request_def)
  then show ?thesis
    by (auto simp: valid_def op_pipeline_def Let_def in_request_effects split: prod.splits flow.splits)
qed

lemma ends_by_pipeline:
  assumes "sig_abort signal = Some (ta, reason)"
  shows "ends_by ta (op_pipeline r signal turns sts items)"
  unfolding ends_by_def
proof (intro allI impI)
  fix s s' out assume op: "op_pipeline r signal turns sts items s = (s', out)"
  obtain run t fl where d: "drive signal (rs_now s) turns (pl_start sts items) = (run, t, fl)"
    by (cases "drive signal (rs_now s) turns (pl_start sts items)")
  from drive_ends[OF assms d] have "fl \<noteq> Hangs" "t \<le> max (rs_now s) ta" by blast+
  moreover have "out = map_flow (\<lambda>_. pl_out run) fl" "rs_now s' = t"
    using op d by (auto simp: op_pipeline_def Let_def)
  ultimately show "out \<noteq> Hangs \<and> rs_now s' \<le> max (rs_now s) ta" by (cases fl) auto
qed

text \<open>What a pipeline that returns has written is what its stages yield.\<close>

lemma pipeline_returns:
  assumes "op_pipeline r signal turns sts items s = (s', Returns out)"
  shows "\<exists>fs. through 0 sts items = Some (out, fs)"
proof -
  obtain run t fl where d: "drive signal (rs_now s) turns (pl_start sts items) = (run, t, fl)"
    by (cases "drive signal (rs_now s) turns (pl_start sts items)")
  then have fl: "fl = Returns ()" "out = pl_out run" using assms
    by (auto simp: op_pipeline_def Let_def) (cases fl; simp)+
  from drive_run[OF d] fl(1) obtain "is" where "run = pl_run is (pl_start sts items)" "pl_result run = Some (Inr ())"
    by auto
  then show ?thesis using run_done[of "is" sts items] fl(2) by auto
qed

text \<open>Where the stages end well a pipeline does not fail, unless its signal aborts.\<close>

lemma pipeline_throws:
  assumes "through 0 sts items = Some (out, fs)" "op_pipeline r signal turns sts items s = (s', Throws e)"
  shows "\<exists>ta reason. sig_abort signal = Some (ta, reason) \<and> e = pipeline_aborted"
proof -
  have main: "drive signal now turns r' = (r'', t, Throws e) \<Longrightarrow> r' = pl_run is (pl_start sts items) \<Longrightarrow>
      \<exists>ta reason. sig_abort signal = Some (ta, reason) \<and> e = pipeline_aborted" for now turns r' r'' t "is"
  proof (induction signal now turns r' arbitrary: "is" rule: drive.induct)
    case (1 signal now turns r')
    have "pl_failed r' = None" using run_not_failed[OF assms(1)] "1.prems"(2) by simp
    then have ok: "pl_result r' \<noteq> Some (Inl e')" for e' by (simp add: pl_result_failed)
    have next_run: "pl_turn r' i = pl_run (is @ [i]) (pl_start sts items)" for i
      using "1.prems"(2) by (simp add: pl_run_append)
    show ?case
    proof (cases "pl_result r'")
      case (Some res)
      then show ?thesis using "1.prems"(1) ok by (subst (asm) drive.simps) (auto split: sum.splits)
    next
      case None
      show ?thesis
      proof (cases turns)
        case Nil
        then show ?thesis using "1.prems"(1) None by (subst (asm) drive.simps) (auto split: option.splits)
      next
        case (Cons ti later)
        obtain ts i where ti: "ti = (ts, i)" by (cases ti)
        show ?thesis
        proof (cases "sig_abort signal")
          case None': None
          then have "drive signal (max now ts) later (pl_turn r' i) = (r'', t, Throws e)"
            using "1.prems"(1) None Cons ti by (subst (asm) drive.simps) auto
          from "1.IH"(1)[OF None Cons ti[symmetric] None' this next_run] show ?thesis .
        next
          case (Some a)
          obtain ta reason where a: "a = (ta, reason)" by (cases a)
          show ?thesis
          proof (cases "ta \<le> max now ts")
            case True
            then show ?thesis using "1.prems"(1) None Cons ti Some a by (subst (asm) drive.simps) auto
          next
            case False
            then have "drive signal (max now ts) later (pl_turn r' i) = (r'', t, Throws e)"
              using "1.prems"(1) None Cons ti Some a by (subst (asm) drive.simps) auto
            from "1.IH"(2)[OF None Cons ti[symmetric] Some[unfolded a] refl False this next_run] show ?thesis .
          qed
        qed
      qed
    qed
  qed
  obtain run t fl where d: "drive signal (rs_now s) turns (pl_start sts items) = (run, t, fl)"
    by (cases "drive signal (rs_now s) turns (pl_start sts items)")
  then have "fl = Throws e" using assms(2) by (auto simp: op_pipeline_def Let_def) (cases fl; simp)
  then show ?thesis using main[of "rs_now s" turns "pl_start sts items" run t "[]"] d by simp
qed

end
