(* ===== verification/Stream_Controller.thy ===== *)
theory Stream_Controller
  imports Stream_Runs
begin

text \<open>
  \<open>StreamController\<close> (\<open>src/core/controllers/StreamController.ts\<close>): bytes through the plugin chain
  (\<open>pipe\<close>, \<open>into\<close>, \<open>reverseInto\<close>) and values to MessagePack and back (\<open>pack\<close>, \<open>unpack\<close>).  An
  operation lasts from the call until its pipeline and its audit record have settled.
\<close>

section \<open>What surrounds a controller\<close>

text \<open>
  What the caller and the runtime contribute: the native streams, the failure sink, the turns of the
  stages with their instants, the error with which the source ends if it does, and the destination,
  which as a stage hands on what it has accepted.
\<close>

record stream_world =
  sw_factory :: chain_factory
  sw_dlq :: "dead_letters option"
  sw_turns :: "(time \<times> nat) list"
  sw_source_error :: "px_error option"
  sw_destination :: px_stage

definition source_stage :: "px_error option \<Rightarrow> px_stage" where
  "source_stage failure =
     make_stage (\<lambda>s it. ([Push it], Returns s))
       (\<lambda>s. ([], case failure of None \<Rightarrow> Returns () | Some e \<Rightarrow> Throws e)) ()"

text \<open>The two streams of \<open>msgpackr\<close>, as the classes of \<open>core.ts\<close> extend and configure them.\<close>

record 'u msgpack_streams =
  ms_encode :: "js_value \<Rightarrow> px_error + buffer"
  ms_new :: 'u
  ms_decode :: "'u \<Rightarrow> buffer \<Rightarrow> ('u, js_value, px_error) outcome"
  ms_flush :: "'u \<Rightarrow> ('u, js_value, px_error) outcome"

section \<open>The ends of a request\<close>

text \<open>\<open>catch (err) { emitError; throw }\<close>.\<close>

definition op_catch :: "string \<Rightarrow> 'a op \<Rightarrow> 'a op" where
  "op_catch requestId body s =
     (case body s of
        (s', Throws err) \<Rightarrow> (s'\<lparr>rs_engine := emitError err requestId (rs_engine s')\<rparr>, Throws err)
      | (s', Hangs) \<Rightarrow> (s', Hangs)
      | (s', Returns a) \<Rightarrow> (s', Returns a))"

text \<open>What follows a pipeline that has ended well: audit, a last check of the signal, the end.\<close>

definition finish_request :: "string \<Rightarrow> audit_operation \<Rightarrow> abort_signal \<Rightarrow> 'a \<Rightarrow> 'a op" where
  "finish_request requestId operation signal result =
     op_bind (op_audit requestId operation signal) (\<lambda>_.
     op_bind (op_aborted signal) (\<lambda>_.
     op_bind (op_engine (endRequest requestId None)) (\<lambda>_. op_return result)))"

section \<open>pipe, into and reverseInto\<close>

definition streamContext :: "string \<Rightarrow> abort_signal \<Rightarrow> engine_limits \<Rightarrow> stream_context" where
  "streamContext requestId signal limits =
     \<lparr>sc_requestId = requestId, sc_signal = signal, sc_limits = limits\<rparr>"

definition schema_on_bytes :: px_error where
  "schema_on_bytes = JsError ''[PipeX] Global object schemas cannot validate raw byte streams''"

text \<open>Up to the request: the signal, the check of the schema, \<open>startRequest\<close>.\<close>

definition open_bytes :: "string \<Rightarrow> operation_options \<Rightarrow> abort_signal op" where
  "open_bytes requestId options =
     op_bind op_state (\<lambda>s.
     op_bind (op_check (createOperationSignal (eng_limits (rs_engine s)) options (rs_now s))) (\<lambda>signal.
     op_bind (op_aborted signal) (\<lambda>_.
     op_bind (op_check (throw_if (eng_schema (rs_engine s) \<noteq> None) schema_on_bytes)) (\<lambda>_.
     op_bind (op_start requestId) (\<lambda>_. op_return signal)))))"

definition op_chain :: "stream_world \<Rightarrow> string \<Rightarrow> bool \<Rightarrow> abort_signal \<Rightarrow> px_stage list op" where
  "op_chain w requestId reverse signal =
     op_bind op_state (\<lambda>s. let e = rs_engine s in
       op_check (buildTransformChain (sw_factory w) (eng_plugins e) (\<not> reverse) reverse (sw_dlq w)
         (Some (streamContext requestId signal (eng_limits e)))))"

definition run_bytes ::
  "stream_world \<Rightarrow> string \<Rightarrow> bool \<Rightarrow> abort_signal \<Rightarrow> px_stage list \<Rightarrow> stream_item list \<Rightarrow> stream_item list op" where
  "run_bytes w requestId reverse signal transforms source =
     op_bind op_state (\<lambda>s.
     op_bind (op_pipeline requestId signal (sw_turns w)
       (source_stage (sw_source_error w) # bytes_pipeline (eng_limits (rs_engine s)) transforms @ [sw_destination w])
       source)
     (finish_request requestId (if reverse then AuditReverse else AuditProcess) signal))"

definition stream_pipe ::
  "stream_world \<Rightarrow> string \<Rightarrow> stream_item list \<Rightarrow> bool \<Rightarrow> operation_options \<Rightarrow> stream_item list op" where
  "stream_pipe w requestId source reverse options =
     op_bind (open_bytes requestId options) (\<lambda>signal.
       op_catch requestId
         (op_bind (op_chain w requestId reverse signal) (\<lambda>transforms.
           run_bytes w requestId reverse signal transforms source)))"

text \<open>\<open>#into\<close> until it returns the endpoint, and the pipeline behind the endpoint.\<close>

definition into_open ::
  "stream_world \<Rightarrow> string \<Rightarrow> bool \<Rightarrow> operation_options \<Rightarrow> (abort_signal \<times> px_stage list) op" where
  "into_open w requestId reverse options =
     op_bind (open_bytes requestId options) (\<lambda>signal.
     op_bind (op_catch requestId (op_chain w requestId reverse signal)) (\<lambda>transforms.
       op_return (signal, transforms)))"

definition into_run ::
  "stream_world \<Rightarrow> string \<Rightarrow> bool \<Rightarrow> abort_signal \<Rightarrow> px_stage list \<Rightarrow> stream_item list \<Rightarrow> stream_item list op" where
  "into_run w requestId reverse signal transforms source =
     op_catch requestId (run_bytes w requestId reverse signal transforms source)"

section \<open>pack and unpack\<close>

definition frame_limit_stage :: "engine_limits \<Rightarrow> px_stage" where
  "frame_limit_stage limits =
     byte_stage frame_transform frame_flush
       (new_frame_stage (maxFrameBytes limits) (min max_safe_integer (maxFrames limits + 1)))"

definition header_stage :: "buffer \<Rightarrow> px_stage" where
  "header_stage frame = byte_stage (header_transform frame) (header_flush frame) False"

definition pack_stages :: "js_runtime \<Rightarrow> 'u msgpack_streams \<Rightarrow> engine_limits \<Rightarrow> buffer \<Rightarrow> px_stage list" where
  "pack_stages rt ms limits frame =
     [object_limit_stage (maxFrames limits),
      known_value_stage rt (maxFrameBytes limits) ''MessagePack frame'',
      encode_stage (ms_encode ms),
      header_stage frame,
      frame_limit_stage limits,
      byte_limit_stage (maxOutputBytes limits) ''output'']"

definition guarded_flush ::
  "('u \<Rightarrow> ('u, 'v, px_error) outcome) \<Rightarrow> 'u guarded_unpackr \<Rightarrow> ('u guarded_unpackr, 'v, px_error) outcome" where
  "guarded_flush flush s =
     (case flush (gu_super s) of (out, Inl e) \<Rightarrow> (out, Inl e) | (out, Inr u) \<Rightarrow> (out, Inr (s\<lparr>gu_super := u\<rparr>)))"

definition unpackr_stage :: "'u msgpack_streams \<Rightarrow> nat \<Rightarrow> px_stage" where
  "unpackr_stage ms maxInput =
     decode_stage (guarded_transform (ms_decode ms) maxInput) (guarded_flush (ms_flush ms))
       \<lparr>gu_receivedBytes = 0, gu_super = ms_new ms\<rparr>"

text \<open>The callback that both \<open>unpack\<close> methods give to the stage that extracts the manifest.\<close>

definition empty_chain :: "js_value \<Rightarrow> px_error + unit" where
  "empty_chain m =
     throw_if (length (manifest_plugins m) \<noteq> 0)
       (JsError ''[PipeX] Manifest plugin chain does not match the configured engine'')"

definition manifest_stage :: px_stage where
  "manifest_stage =
     make_stage (\<lambda>s it.
       let v = item_value it in
       case extract_transform isManifest empty_chain s v of
         (out, Inl e) \<Rightarrow> (map (Push \<circ> Value) out, Throws e)
       | (out, Inr s') \<Rightarrow>
           ((if \<not> ex_seen s \<and> isManifest v then [Effect (ManifestSeen v)] else []) @ map (Push \<circ> Value) out,
            Returns s')) (\<lambda>s. ([], Returns ())) new_extract_stage"

definition validate_stage :: "engine \<Rightarrow> px_stage" where
  "validate_stage e =
     value_stage (\<lambda>s v. case validate e v of Inl err \<Rightarrow> ([], Inl err) | Inr _ \<Rightarrow> ([v], Inr s)) ()"

definition unpack_stages :: "'u msgpack_streams \<Rightarrow> engine \<Rightarrow> px_stage list" where
  "unpack_stages ms e =
     (let limits = eng_limits e in
      [byte_limit_stage (maxInputBytes limits) ''input'',
       frame_limit_stage limits,
       unpackr_stage ms (maxInputBytes limits),
       manifest_stage,
       object_limit_stage (maxFrames limits),
       validate_stage e])"

text \<open>Up to the request, without a schema check.\<close>

definition open_values :: "string \<Rightarrow> operation_options \<Rightarrow> abort_signal op" where
  "open_values requestId options =
     op_bind op_state (\<lambda>s.
     op_bind (op_check (createOperationSignal (eng_limits (rs_engine s)) options (rs_now s))) (\<lambda>signal.
     op_bind (op_aborted signal) (\<lambda>_.
     op_bind (op_start requestId) (\<lambda>_. op_return signal))))"

definition stream_pack ::
  "stream_world \<Rightarrow> js_runtime \<Rightarrow> 'u msgpack_streams \<Rightarrow> string \<Rightarrow> stream_item list \<Rightarrow> operation_options
     \<Rightarrow> stream_item list op" where
  "stream_pack w rt ms requestId values options =
     op_bind (open_values requestId options) (\<lambda>signal.
     op_bind op_state (\<lambda>s.
     op_bind (op_check (rt_pack rt (buildManifest [] (rs_now s)))) (\<lambda>frame.
       op_catch requestId
         (op_bind (op_pipeline requestId signal (sw_turns w)
             (source_stage (sw_source_error w) # pack_stages rt ms (eng_limits (rs_engine s)) frame) values)
           (finish_request requestId AuditPack signal)))))"

definition stream_unpack ::
  "stream_world \<Rightarrow> 'u msgpack_streams \<Rightarrow> string \<Rightarrow> stream_item list \<Rightarrow> operation_options \<Rightarrow> stream_item list op" where
  "stream_unpack w ms requestId bytes options =
     op_bind (open_values requestId options) (\<lambda>signal.
     op_bind op_state (\<lambda>s.
       op_catch requestId
         (op_bind (op_pipeline requestId signal (sw_turns w)
             (source_stage (sw_source_error w) # unpack_stages ms (rs_engine s)) bytes)
           (finish_request requestId AuditUnpack signal))))"

end
