(* ===== verification/Stream_Safety.thy ===== *)
theory Stream_Safety
  imports Stream_Controller
begin

text \<open>
  What holds of every operation of the \<open>StreamController\<close>, whatever the stages, the schedule and the
  plugins do: the request is released, the deadline is kept, and what an operation returns is what
  its stages yield.
\<close>

section \<open>The request\<close>

lemma caught_over:
  assumes "valid (in_request r) body (\<lambda>_. out_of_request r) (in_request r)" "in_request r s"
  shows "request_over r (op_catch r body s)"
proof -
  obtain s' out where b: "body s = (s', out)" by (cases "body s")
  show ?thesis
  proof (cases out)
    case Hangs
    then have "in_request r s'" using assms b by (auto simp: valid_def)
    then show ?thesis using b Hangs by (simp add: op_catch_def request_over_def in_request_def)
  next
    case (Throws err)
    then have reach: "reachable (rs_engine s')" using assms b by (auto simp: valid_def in_request_def)
    have "r \<notin> eng_active (emitError err r (rs_engine s'))
      \<or> r \<in> eng_finished (emitError err r (rs_engine s')) \<and> waiting_for (emitError err r (rs_engine s')) r \<noteq> {}"
      using release_leaves[OF reach, of r] by (simp add: emitError_def Let_def emit_same)
    then show ?thesis
      using b Throws reach_step[OF reach step_error[where err = err and requestId = r]]
      by (simp add: op_catch_def request_over_def out_of_request_def)
  next
    case (Returns a)
    then have "out_of_request r s'" using assms b by (auto simp: valid_def)
    then show ?thesis using b Returns by (simp add: op_catch_def request_over_def out_of_request_def)
  qed
qed

lemma started_bind_over:
  assumes "reachable (rs_engine s)" "r \<notin> eng_active (rs_engine s)"
    and "\<And>s'. in_request r s' \<Longrightarrow> request_over r (f s')"
  shows "request_over r (op_bind (op_start r) (\<lambda>_. f) s)"
proof (cases "op_start r s")
  case (Pair s' out)
  show ?thesis
  proof (cases out)
    case (Returns u)
    then have "in_request r s'" using start_in_request[OF assms(1,2)] Pair by simp
    then show ?thesis using assms(3) Pair Returns by (simp add: op_bind_def)
  qed (use Pair assms(1,2) in \<open>auto simp: op_bind_def op_start_def request_over_def out_of_request_def
      split: sum.splits\<close>)
qed

lemma bind_return [simp]: "op_bind (op_return a) f = f a"
  by (simp add: op_bind_def op_return_def fun_eq_iff)

lemma finish_leaves:
  "valid (in_request r) (finish_request r operation signal a) (\<lambda>_. out_of_request r) (in_request r)"
  unfolding finish_request_def
  by (intro keeps_bind keeps_audit keeps_aborted valid_bind[OF end_leaves] valid_return)

lemma run_bytes_leaves:
  "valid (in_request r) (run_bytes w r reverse signal transforms source) (\<lambda>_. out_of_request r) (in_request r)"
  unfolding run_bytes_def by (intro keeps_bind keeps_state keeps_pipeline finish_leaves)

lemma keeps_chain: "keeps I (op_chain w r reverse signal)"
  unfolding op_chain_def Let_def by (intro keeps_bind keeps_state keeps_check)

lemma pipe_body_leaves:
  "valid (in_request r) (op_bind (op_chain w r reverse signal) (\<lambda>transforms.
     run_bytes w r reverse signal transforms source)) (\<lambda>_. out_of_request r) (in_request r)"
  by (intro keeps_bind keeps_chain run_bytes_leaves)

lemma opened_bytes_over:
  assumes "reachable (rs_engine s)" "r \<notin> eng_active (rs_engine s)"
    and "\<And>s' signal. in_request r s' \<Longrightarrow> request_over r (f signal s')"
  shows "request_over r (op_bind (open_bytes r options) f s)"
  unfolding open_bytes_def op_bind_assoc bind_return bind_state
  by (intro request_over_check request_over_aborted assms started_bind_over)

lemma opened_values_over:
  assumes "reachable (rs_engine s)" "r \<notin> eng_active (rs_engine s)"
    and "\<And>s' signal. in_request r s' \<Longrightarrow> request_over r (f signal s')"
  shows "request_over r (op_bind (open_values r options) f s)"
  unfolding open_values_def op_bind_assoc bind_return bind_state
  by (intro request_over_check request_over_aborted assms started_bind_over)

lemma pipe_over:
  assumes "reachable (rs_engine s)" "r \<notin> eng_active (rs_engine s)"
  shows "request_over r (stream_pipe w r source reverse options s)"
  unfolding stream_pipe_def by (rule opened_bytes_over[OF assms caught_over[OF pipe_body_leaves]])

lemma unpack_over:
  assumes "reachable (rs_engine s)" "r \<notin> eng_active (rs_engine s)"
  shows "request_over r (stream_unpack w ms r bytes options s)"
  unfolding stream_unpack_def
proof (rule opened_values_over[OF assms])
  fix s' signal assume s': "in_request r s'"
  show "request_over r (op_bind op_state (\<lambda>s. op_catch r
      (op_bind (op_pipeline r signal (sw_turns w) (source_stage (sw_source_error w) # unpack_stages ms (rs_engine s)) bytes)
        (finish_request r AuditUnpack signal))) s')"
    unfolding bind_state by (rule caught_over[OF _ s']) (intro keeps_bind keeps_pipeline finish_leaves)
qed

lemma pack_over:
  assumes "reachable (rs_engine s)" "r \<notin> eng_active (rs_engine s)"
    and "\<And>now. returns (rt_pack rt (buildManifest [] now))"
  shows "request_over r (stream_pack w rt ms r values options s)"
  unfolding stream_pack_def
proof (rule opened_values_over[OF assms(1,2)])
  fix s' signal assume s': "in_request r s'"
  obtain frame where frame: "rt_pack rt (buildManifest [] (rs_now s')) = Inr frame"
    using assms(3)[of "rs_now s'"] by (auto simp: returns_def)
  have "request_over r (op_catch r
      (op_bind (op_pipeline r signal (sw_turns w)
          (source_stage (sw_source_error w) # pack_stages rt ms (eng_limits (rs_engine s')) frame) values)
        (finish_request r AuditPack signal)) s')"
    by (rule caught_over[OF _ s']) (intro keeps_bind keeps_pipeline finish_leaves)
  then show "request_over r (op_bind op_state (\<lambda>s. op_bind (op_check (rt_pack rt (buildManifest [] (rs_now s))))
      (\<lambda>frame. op_catch r
        (op_bind (op_pipeline r signal (sw_turns w)
            (source_stage (sw_source_error w) # pack_stages rt ms (eng_limits (rs_engine s)) frame) values)
          (finish_request r AuditPack signal)))) s')"
    by (simp add: bind_state frame op_bind_def[of "op_check _"] op_check_def)
qed

text \<open>The two halves of \<open>into\<close>: the endpoint is returned within the request, the rest ends it.\<close>

definition idle :: "string \<Rightarrow> run_state \<Rightarrow> bool" where
  "idle r s \<longleftrightarrow> reachable (rs_engine s) \<and> r \<notin> eng_active (rs_engine s)"

lemma idle_out: "idle r s \<Longrightarrow> out_of_request r s"
  by (simp add: idle_def out_of_request_def)

lemma idle_check: "valid (idle r) (op_check c) (\<lambda>_. idle r) (out_of_request r)"
  by (rule valid_weaken[OF keeps_check[of "idle r"]]) (simp_all add: idle_out)

lemma idle_state: "valid (idle r) op_state (\<lambda>_. idle r) (out_of_request r)"
  by (rule valid_weaken[OF keeps_state[of "idle r"]]) (simp_all add: idle_out)

lemma idle_aborted: "valid (idle r) (op_aborted signal) (\<lambda>_. idle r) (out_of_request r)"
  by (rule valid_weaken[OF keeps_aborted[of "idle r"]]) (simp_all add: idle_out)

lemma idle_start: "valid (idle r) (op_start r) (\<lambda>_. in_request r) (out_of_request r)"
  unfolding valid_def
proof (intro allI impI)
  fix s assume "idle r s"
  then show "case op_start r s of (s', Returns _) \<Rightarrow> in_request r s'
      | (s', Throws e) \<Rightarrow> out_of_request r s' | (s', Hangs) \<Rightarrow> out_of_request r s'"
    using start_in_request[of s r] idle_out[of r s]
    by (auto simp: idle_def op_start_def split: sum.splits)
qed

lemma open_bytes_starts: "valid (idle r) (open_bytes r options) (\<lambda>_. in_request r) (out_of_request r)"
  unfolding open_bytes_def
  by (intro valid_bind[OF idle_state] valid_bind[OF idle_check] valid_bind[OF idle_aborted]
      valid_bind[OF idle_start] valid_return)

lemma chain_state:
  "op_chain w r reverse signal s =
     op_check (buildTransformChain (sw_factory w) (eng_plugins (rs_engine s)) (\<not> reverse) reverse (sw_dlq w)
       (Some (streamContext r signal (eng_limits (rs_engine s))))) s"
  by (simp add: op_chain_def bind_state Let_def)

lemma caught_chain: "valid (in_request r) (op_catch r (op_chain w r reverse signal)) (\<lambda>_. in_request r) (out_of_request r)"
  unfolding valid_def
proof (intro allI impI)
  fix s assume s: "in_request r s"
  let ?c = "buildTransformChain (sw_factory w) (eng_plugins (rs_engine s)) (\<not> reverse) reverse (sw_dlq w)
       (Some (streamContext r signal (eng_limits (rs_engine s))))"
  show "case op_catch r (op_chain w r reverse signal) s of (s', Returns _) \<Rightarrow> in_request r s'
      | (s', Throws e) \<Rightarrow> out_of_request r s' | (s', Hangs) \<Rightarrow> out_of_request r s'"
  proof (cases ?c)
    case (Inl e)
    have v: "valid (in_request r) (op_check (Inl e :: px_error + unit)) (\<lambda>_. out_of_request r) (in_request r)"
      by (simp add: valid_def op_check_def)
    from caught_over[OF v s] have "out_of_request r (s\<lparr>rs_engine := emitError e r (rs_engine s)\<rparr>)"
      by (simp add: op_catch_def op_check_def request_over_def)
    then show ?thesis using Inl by (simp add: op_catch_def chain_state op_check_def)
  qed (use s in \<open>simp add: op_catch_def chain_state op_check_def\<close>)
qed

lemma into_open_starts: "valid (idle r) (into_open w r reverse options) (\<lambda>_. in_request r) (out_of_request r)"
  unfolding into_open_def by (intro valid_bind[OF open_bytes_starts] valid_bind[OF caught_chain] valid_return)

lemma into_run_over:
  "in_request r s \<Longrightarrow> request_over r (into_run w r reverse signal transforms source s)"
  unfolding into_run_def by (rule caught_over[OF run_bytes_leaves])

section \<open>The deadline\<close>

lemma ends_by_catch:
  assumes "ends_by ta body"
  shows "ends_by ta (op_catch r body)"
  unfolding ends_by_def
proof (intro allI impI)
  fix s s'' out assume run: "op_catch r body s = (s'', out)"
  obtain s' r' where b: "body s = (s', r')" by (cases "body s")
  with assms have "r' \<noteq> Hangs" "rs_now s' \<le> max (rs_now s) ta" unfolding ends_by_def by blast+
  then show "out \<noteq> Hangs \<and> rs_now s'' \<le> max (rs_now s) ta"
    using run b by (cases r') (auto simp: op_catch_def)
qed

lemma ends_by_finish:
  assumes "sig_abort signal = Some (ta, reason)"
  shows "ends_by ta (finish_request r operation signal a)"
  unfolding finish_request_def by (intro ends_by_bind ends_by_simple ends_by_aborted ends_by_audit[OF assms])

lemma ends_by_run_bytes:
  assumes "sig_abort signal = Some (ta, reason)"
  shows "ends_by ta (run_bytes w r reverse signal transforms source)"
  unfolding run_bytes_def
  by (intro ends_by_bind ends_by_simple ends_by_pipeline[OF assms] ends_by_finish[OF assms])

lemma ends_by_chain: "ends_by ta (op_chain w r reverse signal)"
  unfolding op_chain_def Let_def by (intro ends_by_bind ends_by_simple)

text \<open>The end of a request is checked against the signal.\<close>

lemma finish_Returns:
  assumes "finish_request r operation signal a s = (s'', Returns b)"
  shows "b = a \<and> throwIfAborted (Some signal) (rs_now s'') = Inr ()
    \<and> (\<exists>s'. op_audit r operation signal s = (s', Returns ()) \<and> s'' = s'\<lparr>rs_engine := endRequest r None (rs_engine s')\<rparr>)"
  using assms unfolding finish_request_def Returns_iff by auto

lemma catch_Returns: "op_catch r body s = (s', Returns a) \<longleftrightarrow> body s = (s', Returns a)"
  by (auto simp: op_catch_def split: prod.splits flow.splits)

text \<open>An operation that opens under its own signal, ends by its deadline and is checked at the end.\<close>

lemma opened_in_time:
  assumes "createOperationSignal (eng_limits (rs_engine s)) options (rs_now s) = Inr signal"
    and "sig_deadline signal = Some d"
    and "\<And>ta reason. sig_abort signal = Some (ta, reason) \<Longrightarrow> ends_by ta (f signal)"
    and "\<And>s1 s2 a. f signal s1 = (s2, Returns a) \<Longrightarrow> throwIfAborted (Some signal) (rs_now s2) = Inr ()"
  shows "in_time d (op_bind (op_check (Inr signal)) f s)"
proof -
  obtain ta reason where ta: "sig_abort signal = Some (ta, reason)" "ta \<le> d"
    using deadline_signal[OF assms(1,2)] by blast
  obtain s' out where f: "f signal s = (s', out)" by (cases "f signal s")
  have "out \<noteq> Hangs \<and> rs_now s' \<le> max (rs_now s) ta"
    using assms(3)[OF ta(1)] f unfolding ends_by_def by blast
  moreover have "rs_now s \<le> d" using signal_deadline_later[OF assms(1,2)] by simp
  moreover have "rs_now s' < d" if "out = Returns a" for a
    using throwIfAborted_in_time[OF assms(1,2) assms(4)] f that by blast
  ultimately show ?thesis using ta(2) f
    by (auto simp: in_time_def op_bind_def op_check_def split: flow.split)
qed

lemma ends_by_pipe_body:
  assumes "sig_abort signal = Some (ta, reason)"
  shows "ends_by ta (op_catch r (op_bind (op_chain w r reverse signal) (\<lambda>transforms.
    run_bytes w r reverse signal transforms source)))"
  by (intro ends_by_catch ends_by_bind ends_by_chain ends_by_run_bytes[OF assms])

lemma run_bytes_Returns:
  assumes "run_bytes w r reverse signal transforms source s = (s2, Returns out)"
  obtains s1 where "op_pipeline r signal (sw_turns w)
      (source_stage (sw_source_error w) # bytes_pipeline (eng_limits (rs_engine s)) transforms @ [sw_destination w])
      source s = (s1, Returns out)"
    and "throwIfAborted (Some signal) (rs_now s2) = Inr ()"
    and "finish_request r (if reverse then AuditReverse else AuditProcess) signal out s1 = (s2, Returns out)"
  using assms finish_Returns unfolding run_bytes_def Returns_iff by metis

lemma pipe_in_time:
  assumes "createOperationSignal (eng_limits (rs_engine s)) options (rs_now s) = Inr signal"
    and "sig_deadline signal = Some d"
  shows "in_time d (stream_pipe w r source reverse options s)"
proof -
  let ?f = "\<lambda>signal. op_bind (op_aborted signal) (\<lambda>_.
    op_bind (op_check (throw_if (eng_schema (rs_engine s) \<noteq> None) schema_on_bytes)) (\<lambda>_.
    op_bind (op_start r) (\<lambda>_. op_catch r (op_bind (op_chain w r reverse signal)
      (\<lambda>transforms. run_bytes w r reverse signal transforms source)))))"
  have "stream_pipe w r source reverse options s = op_bind (op_check (Inr signal)) ?f s"
    unfolding stream_pipe_def open_bytes_def op_bind_assoc bind_return bind_state assms(1) ..
  moreover have "in_time d (op_bind (op_check (Inr signal)) ?f s)"
  proof (rule opened_in_time[OF assms])
    show "ends_by ta (?f signal)" if "sig_abort signal = Some (ta, reason)" for ta reason
      by (intro ends_by_bind ends_by_simple ends_by_aborted ends_by_start ends_by_pipe_body[OF that])
    show "throwIfAborted (Some signal) (rs_now s2) = Inr ()" if "?f signal s1 = (s2, Returns a)" for s1 s2 a
      using that unfolding Returns_iff catch_Returns by (metis run_bytes_Returns)
  qed
  ultimately show ?thesis by simp
qed

lemma unpack_in_time:
  assumes "createOperationSignal (eng_limits (rs_engine s)) options (rs_now s) = Inr signal"
    and "sig_deadline signal = Some d"
  shows "in_time d (stream_unpack w ms r bytes options s)"
proof -
  let ?f = "\<lambda>signal. op_bind (op_aborted signal) (\<lambda>_. op_bind (op_start r) (\<lambda>_.
    op_bind op_state (\<lambda>s. op_catch r
      (op_bind (op_pipeline r signal (sw_turns w) (source_stage (sw_source_error w) # unpack_stages ms (rs_engine s)) bytes)
        (finish_request r AuditUnpack signal)))))"
  have "stream_unpack w ms r bytes options s = op_bind (op_check (Inr signal)) ?f s"
    unfolding stream_unpack_def open_values_def op_bind_assoc bind_return bind_state assms(1) ..
  moreover have "in_time d (op_bind (op_check (Inr signal)) ?f s)"
  proof (rule opened_in_time[OF assms])
    show "ends_by ta (?f signal)" if "sig_abort signal = Some (ta, reason)" for ta reason
      by (intro ends_by_bind ends_by_simple ends_by_aborted ends_by_start ends_by_catch
          ends_by_pipeline[OF that] ends_by_finish[OF that])
    show "throwIfAborted (Some signal) (rs_now s2) = Inr ()" if "?f signal s1 = (s2, Returns a)" for s1 s2 a
      using that unfolding Returns_iff catch_Returns by (metis finish_Returns)
  qed
  ultimately show ?thesis by simp
qed

lemma pack_in_time:
  assumes "createOperationSignal (eng_limits (rs_engine s)) options (rs_now s) = Inr signal"
    and "sig_deadline signal = Some d"
  shows "in_time d (stream_pack w rt ms r values options s)"
proof -
  let ?f = "\<lambda>signal. op_bind (op_aborted signal) (\<lambda>_. op_bind (op_start r) (\<lambda>_.
    op_bind op_state (\<lambda>s. op_bind (op_check (rt_pack rt (buildManifest [] (rs_now s)))) (\<lambda>frame. op_catch r
      (op_bind (op_pipeline r signal (sw_turns w)
          (source_stage (sw_source_error w) # pack_stages rt ms (eng_limits (rs_engine s)) frame) values)
        (finish_request r AuditPack signal))))))"
  have "stream_pack w rt ms r values options s = op_bind (op_check (Inr signal)) ?f s"
    unfolding stream_pack_def open_values_def op_bind_assoc bind_return bind_state assms(1) ..
  moreover have "in_time d (op_bind (op_check (Inr signal)) ?f s)"
  proof (rule opened_in_time[OF assms])
    show "ends_by ta (?f signal)" if "sig_abort signal = Some (ta, reason)" for ta reason
      by (intro ends_by_bind ends_by_simple ends_by_aborted ends_by_start ends_by_catch
          ends_by_pipeline[OF that] ends_by_finish[OF that])
    show "throwIfAborted (Some signal) (rs_now s2) = Inr ()" if "?f signal s1 = (s2, Returns a)" for s1 s2 a
      using that unfolding Returns_iff catch_Returns by (metis finish_Returns)
  qed
  ultimately show ?thesis by simp
qed

section \<open>What an operation on bytes returns\<close>

lemma run_source_stage: "run_stage (source_stage None) (map Chunk cs) = (map (Push \<circ> Chunk) cs, Returns ())"
proof -
  have feed: "feed_stage (source_stage None) (map Chunk cs) = (map (Push \<circ> Chunk) cs, Returns (source_stage None))"
    by (induction cs) (simp_all add: source_stage_def)
  show ?thesis unfolding run_stage_def feed by (simp add: source_stage_def)
qed

lemma yields_source:
  assumes "yields sts g"
  shows "yields (source_stage None # sts) g"
proof -
  have "streams (source_stage None) Inr" unfolding streams_def run_source_stage by (simp, blast)
  from yields_cong[OF yields_Cons[OF this assms]] show ?thesis by simp
qed

lemma yields_append_sink:
  assumes "yields sts g" "streams st Inr"
  shows "yields (sts @ [st]) g"
  unfolding yields_def
proof (intro allI)
  fix k cs
  have app: "through k (sts @ [st]) xs = (case through k sts xs of None \<Rightarrow> None
      | Some (out, fs) \<Rightarrow> map_option (map_prod id ((@) fs)) (through (k + length sts) [st] out))" for k xs
  proof (induction sts arbitrary: k xs)
    case Nil
    show ?case by (cases "through k [st] xs") auto
  next
    case (Cons a sts)
    show ?case
      by (auto simp: Cons.IH option.map_comp o_def prod.map_comp split: prod.split flow.split option.split)
  qed
  show "case g (concat cs) of None \<Rightarrow> through k (sts @ [st]) (map Chunk cs) = None
    | Some out \<Rightarrow> (\<exists>outs fs. through k (sts @ [st]) (map Chunk cs) = Some (map Chunk outs, fs) \<and> concat outs = out)"
  proof (cases "g (concat cs)")
    case None
    then show ?thesis using yields_None[OF assms(1) None] app by simp
  next
    case (Some out)
    obtain outs fs where t: "through k sts (map Chunk cs) = Some (map Chunk outs, fs)" "concat outs = out"
      by (rule yields_Some[OF assms(1) Some])
    obtain outs' where "run_stage st (map Chunk outs) = (map (Push \<circ> Chunk) outs', Returns ())" "concat outs' = out"
      by (rule streams_Inr[OF assms(2), of outs]) (use t(2) in auto)
    then show ?thesis using Some app t by (simp, blast)
  qed
qed

text \<open>The plugins in the order in which a direction calls them.\<close>

definition ordered_plugins :: "bool \<Rightarrow> plugin list \<Rightarrow> plugin list" where
  "ordered_plugins reverse ps = (if reverse then rev ps else ps)"

lemma op_start_kept:
  "op_start r s = (s', Returns u) \<Longrightarrow> eng_limits (rs_engine s') = eng_limits (rs_engine s)
     \<and> eng_plugins (rs_engine s') = eng_plugins (rs_engine s) \<and> eng_schema (rs_engine s') = eng_schema (rs_engine s)
     \<and> eng_auditLogger (rs_engine s') = eng_auditLogger (rs_engine s) \<and> rs_now s' = rs_now s"
  by (auto simp: op_start_def startRequest_def emit_def split: sum.splits if_splits)

lemma pipe_opened:
  assumes "stream_pipe w r source reverse options s = (s2, Returns out)"
  obtains signal s1 transforms where
    "createOperationSignal (eng_limits (rs_engine s)) options (rs_now s) = Inr signal"
    "eng_limits (rs_engine s1) = eng_limits (rs_engine s)"
    "buildTransformChain (sw_factory w) (eng_plugins (rs_engine s)) (\<not> reverse) reverse (sw_dlq w)
       (Some (streamContext r signal (eng_limits (rs_engine s)))) = Inr transforms"
    "run_bytes w r reverse signal transforms source s1 = (s2, Returns out)"
  using assms op_start_kept
  unfolding stream_pipe_def open_bytes_def op_bind_assoc bind_return bind_state Returns_iff catch_Returns
    chain_state op_chain_def Let_def
  by (metis start_Returns)

lemma chain_of_build:
  assumes "buildTransformChain cf ps compress reverse dlq sc = Inr transforms"
  shows "chain_from cf compress reverse dlq sc 0 (ordered_plugins reverse ps) = Inr transforms"
  using assms by (auto simp: buildTransformChain_def ordered_plugins_def rbind_eq_Inr split: if_splits)

lemma pipeline_of_bytes:
  assumes "native_chain cf compress ps f" "streams destination Inr"
    and "chain_from cf compress reverse dlq (Some sc) i ps = Inr sts"
  shows "yields (source_stage None # bytes_pipeline (sc_limits sc) sts @ [destination])
    (pipeline_bytes f (sc_limits sc) ps)"
  using yields_source[OF yields_append_sink[OF yields_pipeline[OF assms(1,3)] assms(2)]] by simp

lemma source_error_stops: "through k (source_stage (Some e) # sts) xs = None"
proof -
  have feed: "feed_stage (source_stage (Some e)) ys = (map Push ys, Returns (source_stage (Some e)))" for ys
    by (induction ys) (simp_all add: source_stage_def)
  show ?thesis by (simp add: run_stage_def feed) (simp add: source_stage_def)
qed

text \<open>Bytes that were piped are the bytes the plugins compute.\<close>

lemma pipe_computes:
  assumes "stream_pipe w r (map Chunk cs) reverse options s = (s2, Returns out)"
    and "native_chain (sw_factory w) (\<not> reverse) (ordered_plugins reverse (eng_plugins (rs_engine s))) f"
    and "streams (sw_destination w) Inr"
  shows "\<exists>outs. out = map Chunk outs \<and> pipeline_bytes f (eng_limits (rs_engine s))
    (ordered_plugins reverse (eng_plugins (rs_engine s))) (concat cs) = Some (concat outs)"
proof -
  let ?limits = "eng_limits (rs_engine s)"
  obtain signal s1 transforms where limits: "eng_limits (rs_engine s1) = ?limits"
    and chain: "buildTransformChain (sw_factory w) (eng_plugins (rs_engine s)) (\<not> reverse) reverse (sw_dlq w)
       (Some (streamContext r signal ?limits)) = Inr transforms"
    and run: "run_bytes w r reverse signal transforms (map Chunk cs) s1 = (s2, Returns out)"
    by (rule pipe_opened[OF assms(1)])
  let ?ps = "ordered_plugins reverse (eng_plugins (rs_engine s))"
  let ?sts = "bytes_pipeline ?limits transforms @ [sw_destination w]"
  obtain s3 where "op_pipeline r signal (sw_turns w) (source_stage (sw_source_error w) # ?sts) (map Chunk cs) s1
      = (s3, Returns out)"
    by (rule run_bytes_Returns[OF run]) (simp add: limits)
  from pipeline_returns[OF this] obtain fs where
    t: "through 0 (source_stage (sw_source_error w) # ?sts) (map Chunk cs) = Some (out, fs)" by blast
  then have none: "sw_source_error w = None" using source_error_stops by (cases "sw_source_error w") auto
  have ys: "yields (source_stage None # ?sts) (pipeline_bytes f ?limits ?ps)"
    using pipeline_of_bytes[OF assms(2,3) chain_of_build[OF chain]] by (simp add: streamContext_def)
  show ?thesis
  proof (cases "pipeline_bytes f ?limits ?ps (concat cs)")
    case None
    then show ?thesis using yields_None[OF ys None, of 0] t none by simp
  next
    case (Some b)
    obtain outs fs' where "through 0 (source_stage None # ?sts) (map Chunk cs) = Some (map Chunk outs, fs')" "concat outs = b"
      by (rule yields_Some[OF ys Some])
    then show ?thesis using Some t none by auto
  qed
qed

end
