(* ===== verification/Stream_Endpoint.thy ===== *)
theory Stream_Endpoint
  imports Stream_Safety
begin

text \<open>
  The \<open>Writable\<close> that \<open>into\<close> and \<open>reverseInto\<close> of the \<open>StreamController\<close> return: its three handlers,
  \<open>settleEndpoint\<close>, and the events that can reach it in any order while the pipeline behind it runs.
\<close>

section \<open>The handlers\<close>

text \<open>
  \<open>ie_source\<close> is how the \<open>PassThrough\<close> in front of the pipeline was destroyed, if it was;
  \<open>ie_callbacks\<close> lists what the callback of \<open>final\<close> was given; \<open>ie_settled\<close> is how the promise of the
  pipeline, with the audit behind it, has settled.
\<close>

record into_endpoint =
  ie_sent :: "buffer list"
  ie_sourceEnded :: bool
  ie_source :: "px_error option option"
  ie_finalCallback :: bool
  ie_callbacks :: "px_error option list"
  ie_destroyed :: "px_error option option"
  ie_settled :: "px_error option option"

definition new_endpoint :: into_endpoint where
  "new_endpoint = \<lparr>ie_sent = [], ie_sourceEnded = False, ie_source = None, ie_finalCallback = False,
     ie_callbacks = [], ie_destroyed = None, ie_settled = None\<rparr>"

definition pipeline_closed :: px_error where
  "pipeline_closed = JsError ''[PipeX] Stream pipeline is closed''"

text \<open>\<open>write\<close>; \<open>errored\<close> is \<open>destination.errored\<close>.  The second part is the error given to the callback.\<close>

definition into_write :: "px_error option \<Rightarrow> into_endpoint \<Rightarrow> buffer \<Rightarrow> into_endpoint \<times> px_error option" where
  "into_write errored e chunk =
     (case ie_source e of
        Some source_errored \<Rightarrow>
          (e, Some (case errored of Some err \<Rightarrow> err
             | None \<Rightarrow> (case source_errored of Some err \<Rightarrow> err | None \<Rightarrow> pipeline_closed)))
      | None \<Rightarrow> (e\<lparr>ie_sent := ie_sent e @ [chunk]\<rparr>, None))"

definition into_final :: "into_endpoint \<Rightarrow> into_endpoint" where
  "into_final e = e\<lparr>ie_finalCallback := True, ie_sourceEnded := True\<rparr>"

definition into_destroy :: "px_error option \<Rightarrow> into_endpoint \<Rightarrow> into_endpoint" where
  "into_destroy err e =
     e\<lparr>ie_finalCallback := False, ie_source := (case ie_source e of None \<Rightarrow> Some err | Some x \<Rightarrow> Some x),
       ie_destroyed := Some err\<rparr>"

definition settleEndpoint :: "px_error option \<Rightarrow> into_endpoint \<Rightarrow> into_endpoint" where
  "settleEndpoint err e =
     (let callback = ie_finalCallback e; e = e\<lparr>ie_finalCallback := False\<rparr> in
      if callback then e\<lparr>ie_callbacks := ie_callbacks e @ [err]\<rparr>
      else if err \<noteq> None \<and> ie_destroyed e = None then into_destroy err e
      else e)"

section \<open>Events\<close>

text \<open>
  \<open>Writable\<close> calls \<open>write\<close> before \<open>end\<close>, \<open>final\<close> once, \<open>destroy\<close> once, and destroys the stream after a
  handler failed or \<open>final\<close> called back.  The pipeline destroys its source when it fails, and it can
  only succeed after the source has ended.
\<close>

inductive endpoint_step :: "into_endpoint \<Rightarrow> into_endpoint \<Rightarrow> bool" where
  ep_write: "\<not> ie_sourceEnded e \<Longrightarrow> ie_destroyed e = None \<Longrightarrow> into_write errored e chunk = (e', None) \<Longrightarrow>
    endpoint_step e e'"
| ep_write_fails: "\<not> ie_sourceEnded e \<Longrightarrow> ie_destroyed e = None \<Longrightarrow>
    into_write errored e chunk = (e', Some err) \<Longrightarrow> endpoint_step e (into_destroy (Some err) e')"
| ep_final: "\<not> ie_sourceEnded e \<Longrightarrow> ie_destroyed e = None \<Longrightarrow> endpoint_step e (into_final e)"
| ep_destroy: "ie_destroyed e = None \<Longrightarrow> endpoint_step e (into_destroy err e)"
| ep_source: "ie_source e = None \<Longrightarrow> endpoint_step e (e\<lparr>ie_source := Some err\<rparr>)"
| ep_settle: "ie_settled e = None \<Longrightarrow> (err = None \<Longrightarrow> ie_sourceEnded e) \<Longrightarrow>
    endpoint_step e (settleEndpoint err (e\<lparr>ie_settled := Some err\<rparr>))"

inductive endpoint_reachable :: "into_endpoint \<Rightarrow> bool" where
  ep_new: "endpoint_reachable new_endpoint"
| ep_step: "endpoint_reachable e \<Longrightarrow> endpoint_step e e' \<Longrightarrow> endpoint_reachable e'"

section \<open>The invariant\<close>

definition endpoint_inv :: "into_endpoint \<Rightarrow> bool" where
  "endpoint_inv e \<longleftrightarrow>
     (ie_finalCallback e \<longrightarrow> ie_sourceEnded e \<and> ie_settled e = None \<and> ie_destroyed e = None)
     \<and> (ie_callbacks e = [] \<or> (\<exists>x. ie_callbacks e = [x] \<and> ie_settled e = Some x))
     \<and> (\<forall>x. ie_settled e = Some x \<longrightarrow> ie_callbacks e = [x] \<or> ie_destroyed e \<noteq> None)
     \<and> (ie_sourceEnded e \<longrightarrow> ie_finalCallback e \<or> ie_callbacks e \<noteq> [] \<or> ie_destroyed e \<noteq> None)
     \<and> (ie_callbacks e \<noteq> [] \<longrightarrow> ie_sourceEnded e)
     \<and> (ie_destroyed e \<noteq> None \<longrightarrow> ie_source e \<noteq> None)"

lemma endpoint_inv_step:
  assumes "endpoint_inv e" "endpoint_step e e'"
  shows "endpoint_inv e'"
  using assms(2,1)
proof (cases rule: endpoint_step.cases)
  case (ep_write errored chunk)
  then have "e' = e\<lparr>ie_sent := ie_sent e @ [chunk]\<rparr>" by (auto simp: into_write_def split: option.splits)
  then show ?thesis using assms(1) by (simp add: endpoint_inv_def)
next
  case (ep_write_fails errored chunk e1 err)
  then have "e1 = e" by (auto simp: into_write_def split: option.splits)
  then show ?thesis using ep_write_fails assms(1) by (auto simp: endpoint_inv_def into_destroy_def split: option.split)
next
  case ep_final
  then show ?thesis using assms(1) by (auto simp: endpoint_inv_def into_final_def)
next
  case (ep_destroy err)
  then show ?thesis using assms(1) by (auto simp: endpoint_inv_def into_destroy_def split: option.split)
next
  case (ep_source err)
  then show ?thesis using assms(1) by (auto simp: endpoint_inv_def)
next
  case (ep_settle err)
  then show ?thesis using assms(1)
    by (auto simp: endpoint_inv_def settleEndpoint_def into_destroy_def Let_def split: option.split)
qed

lemma endpoint_reachable_inv: "endpoint_reachable e \<Longrightarrow> endpoint_inv e"
  by (induction rule: endpoint_reachable.induct)
    (simp add: endpoint_inv_def new_endpoint_def, rule endpoint_inv_step)

section \<open>Properties\<close>

text \<open>The writer of \<open>into\<close> learns how the pipeline ended, once: the callback of \<open>final\<close> is called at most
  once and only with the outcome of the pipeline, and when the pipeline has settled the endpoint has
  either called back with that outcome or been destroyed, so nobody waits for it any longer.\<close>

theorem into_endpoint_settles:
  assumes "endpoint_reachable e"
  shows "(ie_callbacks e = [] \<or> (\<exists>outcome. ie_callbacks e = [outcome] \<and> ie_settled e = Some outcome))
    \<and> (case ie_settled e of None \<Rightarrow> ie_callbacks e = []
       | Some outcome \<Rightarrow> ie_callbacks e = [outcome] \<or> ie_destroyed e \<noteq> None)"
  using endpoint_reachable_inv[OF assms] by (auto simp: endpoint_inv_def split: option.split)

theorem into_endpoint_settles_witness:
  "case ie_settled (settleEndpoint None ((into_final new_endpoint)\<lparr>ie_settled := Some None\<rparr>)) of
     None \<Rightarrow> False | Some outcome \<Rightarrow> outcome = None"
proof -
  have "endpoint_reachable (into_final new_endpoint)"
    by (rule ep_step[OF ep_new ep_final]) (simp_all add: new_endpoint_def)
  then have "endpoint_reachable (settleEndpoint None ((into_final new_endpoint)\<lparr>ie_settled := Some None\<rparr>))"
    by (rule ep_step[OF _ ep_settle]) (simp_all add: into_final_def new_endpoint_def)
  from into_endpoint_settles[OF this] show ?thesis
    by (simp add: settleEndpoint_def into_final_def new_endpoint_def)
qed

end
