(* ===== verification/File_System.thy ===== *)
theory File_System
  imports PipeX_Prelude
begin

text \<open>
  The part of a POSIX file system that \<open>src/core/secureFiles.ts\<close> and the path checks of
  \<open>src/core/core.ts\<close> rely on: inodes, directories that link to them, open descriptors, the calls as
  functions on that state, and the steps of other processes between two calls.
\<close>

unbundle bit_operations_syntax

section \<open>Files\<close>

type_synonym ino = nat
type_synonym fd = nat

datatype node =
    Regular buffer
  | Directory "(string \<times> ino) list"
  | Symlink string
  | Special

type_synonym nodes = "ino \<rightharpoonup> node"

record file_system =
  fs_nodes :: nodes
  fs_mode :: "ino \<Rightarrow> int"
  fs_owner :: "ino \<Rightarrow> nat"
  fs_next :: ino
  fs_fds :: "fd \<rightharpoonup> ino \<times> nat"
  fs_nextfd :: fd

definition root_ino :: ino where "root_ino = 0"

fun entries_of :: "node option \<Rightarrow> (string \<times> ino) list" where
  "entries_of (Some (Directory es)) = es"
| "entries_of _ = []"

definition entry :: "nodes \<Rightarrow> ino \<Rightarrow> string \<Rightarrow> ino option" where
  "entry v d name = map_of (entries_of (v d)) name"

definition is_directory :: "nodes \<Rightarrow> ino \<Rightarrow> bool" where
  "is_directory v i = (case v i of Some (Directory es) \<Rightarrow> True | _ \<Rightarrow> False)"

definition file_bytes :: "nodes \<Rightarrow> ino \<Rightarrow> buffer option" where
  "file_bytes v i = (case v i of Some (Regular b) \<Rightarrow> Some b | _ \<Rightarrow> None)"

definition is_file :: "node \<Rightarrow> bool" where
  "is_file node = (case node of Regular b \<Rightarrow> True | _ \<Rightarrow> False)"

section \<open>Names\<close>

text \<open>\<open>split\<close> at the separator, and names from the root, following symbolic links.\<close>

fun path_split :: "string \<Rightarrow> string list" where
  "path_split [] = [[]]"
| "path_split (c # cs) =
     (if c = CHR ''/'' then [] # path_split cs
      else case path_split cs of part # parts \<Rightarrow> (c # part) # parts | [] \<Rightarrow> [[c]])"

definition is_absolute :: "string \<Rightarrow> bool" where
  "is_absolute p = (case p of c # _ \<Rightarrow> c = CHR ''/'' | [] \<Rightarrow> False)"

text \<open>\<open>path.resolve\<close>: the components of an absolute path without \<open>.\<close>, \<open>..\<close> and empty parts.\<close>

fun normalize :: "string list \<Rightarrow> string list \<Rightarrow> string list" where
  "normalize done [] = done"
| "normalize done (c # cs) =
     normalize (if c = [] \<or> c = ''.'' then done else if c = ''..'' then butlast done else done @ [c]) cs"

definition path_resolve :: "string list \<Rightarrow> string \<Rightarrow> string list" where
  "path_resolve cwd p = normalize (if is_absolute p then [] else cwd) (path_split p)"

text \<open>\<open>path.relative\<close> between two such paths.\<close>

fun path_relative :: "string list \<Rightarrow> string list \<Rightarrow> string list" where
  "path_relative (a # as) (b # bs) =
     (if a = b then path_relative as bs else replicate (length (a # as)) ''..'' @ b # bs)"
| "path_relative as bs = replicate (length as) ''..'' @ bs"

definition current :: "(string \<times> ino) list \<Rightarrow> ino" where
  "current trail = (case trail of [] \<Rightarrow> root_ino | (c, i) # _ \<Rightarrow> i)"

text \<open>
  \<open>walk v n trail cs\<close> goes on from the directories in \<open>trail\<close>, innermost first; it fails with \<open>ELOOP\<close>
  after \<open>n\<close> symbolic links.
\<close>

function walk :: "nodes \<Rightarrow> nat \<Rightarrow> (string \<times> ino) list \<Rightarrow> string list \<Rightarrow> (string list \<times> ino) option" where
  "walk v n trail [] = Some (rev (map fst trail), current trail)"
| "walk v n trail (c # cs) =
     (if \<not> is_directory v (current trail) then None
      else if c = [] \<or> c = ''.'' then walk v n trail cs
      else if c = ''..'' then walk v n (tl trail) cs
      else case entry v (current trail) c of
        None \<Rightarrow> None
      | Some i \<Rightarrow>
          (case v i of
             None \<Rightarrow> None
           | Some (Symlink target) \<Rightarrow>
               (case n of 0 \<Rightarrow> None
                | Suc m \<Rightarrow> walk v m (if is_absolute target then [] else trail) (path_split target @ cs))
           | Some _ \<Rightarrow> walk v n ((c, i) # trail) cs))"
  by pat_completeness auto
termination
  by (relation "measures [\<lambda>(v, n, trail, cs). n, \<lambda>(v, n, trail, cs). length cs]") auto

declare walk.simps(2) [simp del]

definition MAX_SYMLINKS :: nat where "MAX_SYMLINKS = 40"

text \<open>\<open>realpathSync.native\<close> of an absolute path, with the inode it leads to.\<close>

definition realpath :: "nodes \<Rightarrow> string list \<Rightarrow> (string list \<times> ino) option" where
  "realpath v cs = walk v MAX_SYMLINKS [] cs"

text \<open>The inode at a path without symbolic links.\<close>

fun lookup :: "nodes \<Rightarrow> ino \<Rightarrow> string list \<Rightarrow> ino option" where
  "lookup v i [] = Some i"
| "lookup v i (c # cs) =
     (case entry v i c of
        None \<Rightarrow> None
      | Some j \<Rightarrow> (case v j of Some (Symlink _) \<Rightarrow> None | None \<Rightarrow> None | Some _ \<Rightarrow> lookup v j cs))"

section \<open>Calls\<close>

text \<open>
  The flags that the code combines: \<open>O_DIRECTORY\<close>, and \<open>O_WRONLY | O_CREAT | O_EXCL\<close>; \<open>O_NOFOLLOW\<close> is in
  every call and \<open>O_NONBLOCK\<close> only keeps an open from waiting.
\<close>

datatype open_kind = OpenDirectory | OpenRead | OpenNew

record credentials =
  cr_euid :: nat
  cr_umask :: int

definition new_fd :: "file_system \<Rightarrow> ino \<Rightarrow> file_system \<times> fd" where
  "new_fd fs i =
     (fs\<lparr>fs_fds := (fs_fds fs)(fs_nextfd fs \<mapsto> (i, 0)), fs_nextfd := fs_nextfd fs + 1\<rparr>, fs_nextfd fs)"

definition add_entry :: "nodes \<Rightarrow> ino \<Rightarrow> string \<Rightarrow> ino \<Rightarrow> nodes" where
  "add_entry v d name i = v(d \<mapsto> Directory ((name, i) # entries_of (v d)))"

definition drop_entry :: "nodes \<Rightarrow> ino \<Rightarrow> string \<Rightarrow> nodes" where
  "drop_entry v d name = v(d \<mapsto> Directory (filter (\<lambda>(n, _). n \<noteq> name) (entries_of (v d))))"

definition new_node :: "credentials \<Rightarrow> int \<Rightarrow> node \<Rightarrow> ino \<Rightarrow> string \<Rightarrow> file_system \<Rightarrow> file_system" where
  "new_node cr mode node d name fs =
     (let i = fs_next fs in
      fs\<lparr>fs_nodes := add_entry ((fs_nodes fs)(i \<mapsto> node)) d name i,
         fs_mode := (fs_mode fs)(i := mode - (mode AND cr_umask cr)),
         fs_owner := (fs_owner fs)(i := cr_euid cr), fs_next := i + 1\<rparr>)"

text \<open>The directory behind a descriptor.\<close>

definition dir_of :: "file_system \<Rightarrow> fd \<Rightarrow> ino option" where
  "dir_of fs fd =
     (case fs_fds fs fd of
        Some (d, _) \<Rightarrow> (if is_directory (fs_nodes fs) d then Some d else None)
      | None \<Rightarrow> None)"

definition fs_open_root :: "file_system \<Rightarrow> (file_system \<times> fd) option" where
  "fs_open_root fs = (if is_directory (fs_nodes fs) root_ino then Some (new_fd fs root_ino) else None)"

definition fs_openat ::
  "credentials \<Rightarrow> fd \<Rightarrow> string \<Rightarrow> open_kind \<Rightarrow> int \<Rightarrow> file_system \<Rightarrow> (file_system \<times> fd) option" where
  "fs_openat cr parent name kind mode fs =
     (case dir_of fs parent of
        None \<Rightarrow> None
      | Some d \<Rightarrow>
          if name = [] then None
          else case entry (fs_nodes fs) d name of
            None \<Rightarrow>
              if kind = OpenNew
              then Some (new_fd (new_node cr mode (Regular []) d name fs) (fs_next fs))
              else None
          | Some i \<Rightarrow>
              if kind = OpenNew then None
              else case fs_nodes fs i of
                None \<Rightarrow> None
              | Some (Symlink _) \<Rightarrow> None
              | Some node \<Rightarrow>
                  if kind = OpenDirectory \<and> \<not> is_directory (fs_nodes fs) i then None
                  else Some (new_fd fs i))"

definition fs_fcntl :: "fd \<Rightarrow> file_system \<Rightarrow> (file_system \<times> unit) option" where
  "fs_fcntl fd fs = (if fs_fds fs fd = None then None else Some (fs, ()))"

text \<open>\<open>fstat\<close>: the identity of the inode, what it is, its mode and its owner.\<close>

definition fs_fstat :: "fd \<Rightarrow> file_system \<Rightarrow> (file_system \<times> ino \<times> node \<times> int \<times> nat) option" where
  "fs_fstat fd fs =
     (case fs_fds fs fd of
        None \<Rightarrow> None
      | Some (i, _) \<Rightarrow>
          (case fs_nodes fs i of None \<Rightarrow> None
           | Some node \<Rightarrow> Some (fs, i, node, fs_mode fs i, fs_owner fs i)))"

definition fs_close :: "fd \<Rightarrow> file_system \<Rightarrow> (file_system \<times> unit) option" where
  "fs_close fd fs =
     (if fs_fds fs fd = None then None else Some (fs\<lparr>fs_fds := (fs_fds fs)(fd := None)\<rparr>, ()))"

definition fs_mkdirat :: "credentials \<Rightarrow> fd \<Rightarrow> string \<Rightarrow> int \<Rightarrow> file_system \<Rightarrow> (file_system \<times> unit) option" where
  "fs_mkdirat cr parent name mode fs =
     (case dir_of fs parent of
        None \<Rightarrow> None
      | Some d \<Rightarrow>
          if name = [] \<or> entry (fs_nodes fs) d name \<noteq> None then None
          else Some (new_node cr mode (Directory []) d name fs, ()))"

text \<open>\<open>renameat\<close> of what is not a directory: it replaces a target that is not one either.\<close>

definition fs_renameat :: "fd \<Rightarrow> string \<Rightarrow> fd \<Rightarrow> string \<Rightarrow> file_system \<Rightarrow> (file_system \<times> unit) option" where
  "fs_renameat oldfd oldname newfd newname fs =
     (case (dir_of fs oldfd, dir_of fs newfd) of
        (Some d, Some d') \<Rightarrow>
          (case entry (fs_nodes fs) d oldname of
             None \<Rightarrow> None
           | Some i \<Rightarrow>
               if newname = [] \<or> is_directory (fs_nodes fs) i then None
               else if entry (fs_nodes fs) d' newname = Some i then Some (fs, ())
               else if (case entry (fs_nodes fs) d' newname of None \<Rightarrow> False
                        | Some j \<Rightarrow> is_directory (fs_nodes fs) j) then None
               else Some (fs\<lparr>fs_nodes := add_entry (drop_entry (drop_entry (fs_nodes fs) d oldname) d' newname) d' newname i\<rparr>, ()))
      | _ \<Rightarrow> None)"

definition fs_unlinkat :: "fd \<Rightarrow> string \<Rightarrow> bool \<Rightarrow> file_system \<Rightarrow> (file_system \<times> unit) option" where
  "fs_unlinkat parent name removeDirectory fs =
     (case dir_of fs parent of
        None \<Rightarrow> None
      | Some d \<Rightarrow>
          (case entry (fs_nodes fs) d name of
             None \<Rightarrow> None
           | Some i \<Rightarrow>
               if (if removeDirectory then fs_nodes fs i = Some (Directory [])
                   else \<not> is_directory (fs_nodes fs) i)
               then Some (fs\<lparr>fs_nodes := drop_entry (fs_nodes fs) d name\<rparr>, ())
               else None))"

text \<open>\<open>write\<close> at the offset of the descriptor.\<close>

definition overwrite :: "buffer \<Rightarrow> nat \<Rightarrow> buffer \<Rightarrow> buffer" where
  "overwrite b pos bytes =
     take pos b @ replicate (pos - length b) 0 @ bytes @ drop (pos + length bytes) b"

definition fs_write :: "fd \<Rightarrow> buffer \<Rightarrow> file_system \<Rightarrow> (file_system \<times> unit) option" where
  "fs_write fd bytes fs =
     (case fs_fds fs fd of
        None \<Rightarrow> None
      | Some (i, pos) \<Rightarrow>
          (case file_bytes (fs_nodes fs) i of
             None \<Rightarrow> None
           | Some b \<Rightarrow>
               Some (fs\<lparr>fs_nodes := (fs_nodes fs)(i \<mapsto> Regular (overwrite b pos bytes)),
                        fs_fds := (fs_fds fs)(fd \<mapsto> (i, pos + length bytes))\<rparr>, ())))"

end
