(* ===== verification/Secure_Files.thy ===== *)
theory Secure_Files
  imports File_System Binary_Safety
begin

text \<open>
  \<open>openAtomicFileSession\<close> on POSIX systems (\<open>src/core/secureFiles.ts\<close>) and the path checks it uses
  (\<open>assertExists\<close>, \<open>resolveOutputPath\<close> of \<open>src/core/core.ts\<close>).  A session keeps the variables of the
  closure next to the file system it acts on; between two of its calls other processes may act.
\<close>

section \<open>Calls among other processes\<close>

text \<open>
  The system: which calls fail for reasons of their own, how much the calls of \<open>read\<close> and \<open>write\<close> of
  a session transfer at most (\<open>None\<close> is an error), what other processes do before a call, and the
  credentials of this process.
\<close>

record os =
  os_fault :: "nat \<Rightarrow> bool"
  os_read :: "nat \<Rightarrow> nat option"
  os_write :: "nat \<Rightarrow> nat option"
  os_others :: "nat \<Rightarrow> file_system \<Rightarrow> file_system"
  os_credentials :: credentials

text \<open>
  The variables of a session, and about the system: the calls made so far, the calls of \<open>write\<close> among
  them, and the contents of the file system that other processes could see before and after each call.
\<close>

record file_session =
  ss_fs :: file_system
  ss_calls :: nat
  ss_writes :: nat
  ss_seen :: "nodes list"
  ss_descriptors :: "fd list"
  ss_outputParent :: "fd option"
  ss_temporaryParent :: "fd option"
  ss_inputFD :: fd
  ss_outputFD :: fd
  ss_committed :: bool
  ss_disposed :: bool
  ss_temporaryCreated :: bool

type_synonym 'a fstep = "(file_session, 'a) step"

definition call_with ::
  "os \<Rightarrow> bool \<Rightarrow> (file_system \<Rightarrow> (file_system \<times> 'a) option) \<Rightarrow> file_session \<Rightarrow> file_session \<times> 'a option" where
  "call_with os fault f s =
     (let fs = os_others os (ss_calls s) (ss_fs s);
          (fs', r) = (case (if fault then None else f fs) of
                        None \<Rightarrow> (fs, None) | Some (fs', a) \<Rightarrow> (fs', Some a))
      in (s\<lparr>ss_fs := fs', ss_calls := ss_calls s + 1, ss_seen := ss_seen s @ [fs_nodes fs, fs_nodes fs']\<rparr>, r))"

text \<open>A native call that returns a negative number is \<open>None\<close> here.\<close>

definition sys :: "os \<Rightarrow> (file_system \<Rightarrow> (file_system \<times> 'a) option) \<Rightarrow> 'a option fstep" where
  "sys os f s = map_prod id Returns (call_with os (os_fault os (ss_calls s)) f s)"

definition op_throw :: "px_error \<Rightarrow> ('s, 'a) step" where
  "op_throw e = op_check (Inl e)"

definition op_get :: "('s, 's) step" where
  "op_get s = (s, Returns s)"

definition op_set :: "('s \<Rightarrow> 's) \<Rightarrow> ('s, unit) step" where
  "op_set f s = (f s, Returns ())"

definition op_some :: "px_error \<Rightarrow> 'a option \<Rightarrow> ('s, 'a) step" where
  "op_some e r = op_check (case r of None \<Rightarrow> Inl e | Some a \<Rightarrow> Inr a)"

text \<open>The text of a system error is not modelled.\<close>

definition system_error :: px_error where
  "system_error = JsError ''system call failed''"

definition file_failure :: "string \<Rightarrow> px_error" where
  "file_failure operation = JsError (''[PipeX] Secure file '' @ operation @ '' failed'')"

text \<open>A call of \<open>node:fs\<close>, which throws when it fails, and one whose failure throws another error.\<close>

definition op_sys :: "os \<Rightarrow> px_error \<Rightarrow> (file_system \<Rightarrow> (file_system \<times> 'a) option) \<Rightarrow> 'a fstep" where
  "op_sys os e f = op_bind (sys os f) (op_some e)"

text \<open>\<open>try { m } finally { f }\<close> and \<open>try { m } catch (error) { f; throw error }\<close>.\<close>

definition op_finally :: "('s, 'a) step \<Rightarrow> ('s, unit) step \<Rightarrow> ('s, 'a) step" where
  "op_finally m f s =
     (case m s of
        (s', Hangs) \<Rightarrow> (s', Hangs)
      | (s', r) \<Rightarrow> (case f s' of (s'', Returns _) \<Rightarrow> (s'', r) | (s'', Throws e) \<Rightarrow> (s'', Throws e) | (s'', Hangs) \<Rightarrow> (s'', Hangs)))"

definition op_rollback :: "('s, 'a) step \<Rightarrow> ('s, unit) step \<Rightarrow> ('s, 'a) step" where
  "op_rollback m f s = (case m s of (s', Throws e) \<Rightarrow> op_bind f (\<lambda>_. op_throw e) s' | r \<Rightarrow> r)"

section \<open>Paths\<close>

definition outside_root :: px_error where
  "outside_root = JsError ''[PipeX] Path is outside the allowed root''"

definition assertWithinRoot :: "string list \<Rightarrow> string list \<Rightarrow> px_error + unit" where
  "assertWithinRoot target allowedRoot =
     (let relative = path_relative allowedRoot target in
      throw_if (case relative of [] \<Rightarrow> False | part # _ \<Rightarrow> part = ''..'') outside_root)"

definition read_fs :: "(nodes \<Rightarrow> 'a option) \<Rightarrow> file_system \<Rightarrow> (file_system \<times> 'a) option" where
  "read_fs f fs = map_option (Pair fs) (f (fs_nodes fs))"

text \<open>\<open>realpathSync.native\<close>, which throws, and \<open>existsSync\<close>, which does not.\<close>

definition op_realpath :: "os \<Rightarrow> string list \<Rightarrow> string list fstep" where
  "op_realpath os p = op_sys os system_error (read_fs (\<lambda>v. map_option fst (realpath v p)))"

definition op_exists :: "os \<Rightarrow> string list \<Rightarrow> bool fstep" where
  "op_exists os p = op_bind (sys os (read_fs (\<lambda>v. realpath v p))) (\<lambda>r. op_return (r \<noteq> None))"

definition path_text :: "string list \<Rightarrow> string" where
  "path_text p = (if p = [] then ''/'' else concat (map (\<lambda>c. CHR ''/'' # c) p))"

definition assertExists :: "os \<Rightarrow> string list \<Rightarrow> string \<Rightarrow> string list \<Rightarrow> string list fstep" where
  "assertExists os cwd inputPath allowedRoot =
     (let abs = path_resolve cwd inputPath in
      op_bind (op_exists os abs) (\<lambda>found.
      op_bind (op_check (throw_if (\<not> found) (JsError (''[PipeX] File not found: '' @ path_text abs)))) (\<lambda>_.
      op_bind (op_realpath os allowedRoot) (\<lambda>root.
      op_bind (op_realpath os abs) (\<lambda>canonical.
      op_bind (op_check (assertWithinRoot canonical root)) (\<lambda>_. op_return canonical))))))"

definition basename :: "string list \<Rightarrow> string" where
  "basename p = (if p = [] then [] else last p)"

definition path_join :: "string list \<Rightarrow> string \<Rightarrow> string list" where
  "path_join p name = (if name = [] then p else p @ [name])"

definition resolveOutputPath :: "os \<Rightarrow> string list \<Rightarrow> string \<Rightarrow> string list \<Rightarrow> string list fstep" where
  "resolveOutputPath os cwd outputPath allowedRoot =
     op_bind (op_realpath os allowedRoot) (\<lambda>root.
     let absolute = path_resolve cwd outputPath in
     op_bind (op_realpath os (butlast absolute)) (\<lambda>parent.
     op_bind (op_check (assertWithinRoot parent root)) (\<lambda>_.
     let candidate = path_join parent (basename absolute) in
     op_bind (op_exists os candidate) (\<lambda>found.
     op_bind (if found
              then op_bind (op_realpath os candidate) (\<lambda>target. op_check (assertWithinRoot target root))
              else op_return ()) (\<lambda>_.
     op_return candidate)))))"

section \<open>Opening a session\<close>

definition openChild :: "os \<Rightarrow> fd \<Rightarrow> string \<Rightarrow> open_kind \<Rightarrow> int \<Rightarrow> fd fstep" where
  "openChild os parent name kind mode =
     op_bind (op_sys os (file_failure ''relative open'') (fs_openat (os_credentials os) parent name kind mode)) (\<lambda>fd.
     op_bind (op_set (\<lambda>s. s\<lparr>ss_descriptors := ss_descriptors s @ [fd]\<rparr>)) (\<lambda>_.
     op_bind (op_sys os (file_failure ''descriptor inheritance protection'') (fs_fcntl fd)) (\<lambda>_.
     op_return fd)))"

fun open_below :: "os \<Rightarrow> fd \<Rightarrow> string list \<Rightarrow> fd fstep" where
  "open_below os fd [] = op_return fd"
| "open_below os fd (part # parts) =
     op_bind (openChild os fd part OpenDirectory 0) (\<lambda>child. open_below os child parts)"

definition openParent :: "os \<Rightarrow> string list \<Rightarrow> fd fstep" where
  "openParent os filename =
     op_bind (op_sys os system_error fs_open_root) (\<lambda>fd.
     op_bind (op_set (\<lambda>s. s\<lparr>ss_descriptors := ss_descriptors s @ [fd]\<rparr>)) (\<lambda>_.
     open_below os fd (butlast filename)))"

fun close_each :: "os \<Rightarrow> fd list \<Rightarrow> unit fstep" where
  "close_each os [] = op_return ()"
| "close_each os (fd # fds) = op_bind (sys os (fs_close fd)) (\<lambda>_. close_each os fds)"

definition closeAll :: "os \<Rightarrow> unit fstep" where
  "closeAll os =
     op_bind op_get (\<lambda>s.
     op_bind (close_each os (rev (ss_descriptors s))) (\<lambda>_.
     op_set (\<lambda>s. s\<lparr>ss_descriptors := []\<rparr>)))"

definition cleanup :: "os \<Rightarrow> string \<Rightarrow> unit fstep" where
  "cleanup os temporary =
     op_bind op_get (\<lambda>s.
     op_bind (case ss_temporaryParent s of
                Some fd \<Rightarrow> if ss_committed s then op_return ()
                           else op_bind (sys os (fs_unlinkat fd ''data'' False)) (\<lambda>_. op_return ())
              | None \<Rightarrow> op_return ()) (\<lambda>_.
     op_bind (case ss_outputParent s of
                Some fd \<Rightarrow> if ss_temporaryCreated s
                           then op_bind (sys os (fs_unlinkat fd temporary True)) (\<lambda>_. op_return ())
                           else op_return ()
              | None \<Rightarrow> op_return ()) (\<lambda>_.
     closeAll os)))"

definition same_files :: px_error where
  "same_files = JsError ''[PipeX] Input and output must be different files''"

text \<open>The check that the output is not the input under another name.\<close>

definition check_alias :: "os \<Rightarrow> ino \<Rightarrow> fd \<Rightarrow> string \<Rightarrow> unit fstep" where
  "check_alias os source outputParent name =
     op_bind (sys os (fs_openat (os_credentials os) outputParent name OpenRead 0)) (\<lambda>existing.
       case existing of
         None \<Rightarrow> op_return ()
       | Some fd \<Rightarrow>
           op_finally
             (op_bind (op_sys os system_error (fs_fstat fd)) (\<lambda>(target, node, mode, owner).
                op_check (throw_if (source = target) same_files)))
             (op_sys os system_error (fs_close fd)))"

definition temporary_name :: "string \<Rightarrow> string" where
  "temporary_name uuid = ''.pipex-'' @ uuid"

definition open_input :: "os \<Rightarrow> string list \<Rightarrow> string list \<Rightarrow> (ino \<times> fd) fstep" where
  "open_input os input output =
     op_bind (openParent os input) (\<lambda>inputParent.
     op_bind (openParent os output) (\<lambda>outputParent.
     op_bind (op_set (\<lambda>s. s\<lparr>ss_outputParent := Some outputParent\<rparr>)) (\<lambda>_.
     op_bind (openChild os inputParent (basename input) OpenRead 0) (\<lambda>inputFD.
     op_bind (op_set (\<lambda>s. s\<lparr>ss_inputFD := inputFD\<rparr>)) (\<lambda>_.
     op_bind (op_sys os system_error (fs_fstat inputFD)) (\<lambda>(source, node, mode, owner).
     op_bind (op_check (throw_if (\<not> is_file node) (file_failure ''input type validation''))) (\<lambda>_.
     op_return (source, outputParent))))))))"

definition open_temporary :: "os \<Rightarrow> string \<Rightarrow> fd \<Rightarrow> unit fstep" where
  "open_temporary os temporary outputParent =
     op_bind (op_sys os (file_failure ''temporary directory creation'')
       (fs_mkdirat (os_credentials os) outputParent temporary 448)) (\<lambda>_.
     op_bind (op_set (\<lambda>s. s\<lparr>ss_temporaryCreated := True\<rparr>)) (\<lambda>_.
     op_bind (openChild os outputParent temporary OpenDirectory 0) (\<lambda>temporaryParent.
     op_bind (op_set (\<lambda>s. s\<lparr>ss_temporaryParent := Some temporaryParent\<rparr>)) (\<lambda>_.
     op_bind (op_sys os system_error (fs_fstat temporaryParent)) (\<lambda>(i, node, mode, owner).
     op_bind (op_check (throw_if (mode AND 63 \<noteq> 0 \<or> owner \<noteq> cr_euid (os_credentials os))
       (file_failure ''temporary directory permissions''))) (\<lambda>_.
     op_bind (openChild os temporaryParent ''data'' OpenNew 384) (\<lambda>outputFD.
     op_set (\<lambda>s. s\<lparr>ss_outputFD := outputFD\<rparr>))))))))"

text \<open>The variables of the closure before the first call.\<close>

definition new_session :: "file_session \<Rightarrow> file_session" where
  "new_session s =
     s\<lparr>ss_writes := 0, ss_descriptors := [], ss_outputParent := None, ss_temporaryParent := None,
       ss_committed := False, ss_disposed := False, ss_temporaryCreated := False\<rparr>"

definition openPosix :: "os \<Rightarrow> string \<Rightarrow> string list \<Rightarrow> string list \<Rightarrow> unit fstep" where
  "openPosix os uuid input output =
     op_bind (op_set new_session) (\<lambda>_.
     op_rollback
       (op_bind (open_input os input output) (\<lambda>(source, outputParent).
        op_bind (check_alias os source outputParent (basename output)) (\<lambda>_.
        open_temporary os (temporary_name uuid) outputParent)))
       (cleanup os (temporary_name uuid)))"

definition openAtomicFileSession ::
  "os \<Rightarrow> string list \<Rightarrow> string \<Rightarrow> string \<Rightarrow> string \<Rightarrow> string option \<Rightarrow> (string list \<times> string list) fstep" where
  "openAtomicFileSession os cwd uuid inputPath outputPath allowedRoot =
     op_bind (op_realpath os (case allowedRoot of None \<Rightarrow> cwd | Some r \<Rightarrow> path_resolve cwd r)) (\<lambda>root.
     op_bind (assertExists os cwd inputPath root) (\<lambda>input.
     op_bind (resolveOutputPath os cwd outputPath root) (\<lambda>output.
     op_bind (op_check (throw_if (input = output) same_files)) (\<lambda>_.
     op_bind (openPosix os uuid input output) (\<lambda>_. op_return (input, output))))))"

section \<open>Reading, writing, commit and dispose\<close>

definition file_io_failed :: px_error where
  "file_io_failed = JsError ''[PipeX] Secure relative file I/O failed''"

definition HIGH_WATER :: nat where "HIGH_WATER = 65536"

text \<open>
  The chunks that \<open>read\<close> pushes until the end of the file or an error, the \<open>n\<close>-th call first.  A call
  on a regular file transfers at least one byte before the end.
\<close>

function read_from :: "os \<Rightarrow> nat \<Rightarrow> buffer \<Rightarrow> buffer list \<times> px_error option" where
  "read_from os n b =
     (case os_read os n of
        None \<Rightarrow> ([], Some file_io_failed)
      | Some count \<Rightarrow>
          if b = [] then ([], None)
          else let k = max 1 (min count HIGH_WATER) in
               map_prod ((#) (take k b)) id (read_from os (n + 1) (drop k b)))"
  by pat_completeness auto
termination
  by (relation "measure (\<lambda>(os, n, b). length b)") (auto simp: Let_def length_drop)

declare read_from.simps [simp del]

definition session_read :: "os \<Rightarrow> file_session \<Rightarrow> buffer list \<times> px_error option" where
  "session_read os s =
     (case fs_fds (ss_fs s) (ss_inputFD s) of
        None \<Rightarrow> ([], Some file_io_failed)
      | Some (i, pos) \<Rightarrow>
          (case file_bytes (fs_nodes (ss_fs s)) i of
             None \<Rightarrow> ([], Some file_io_failed)
           | Some b \<Rightarrow> read_from os 0 (drop pos b)))"

text \<open>One native \<open>write\<close> of the bytes that remain; it transfers at most what the system has room for.\<close>

definition sys_write :: "os \<Rightarrow> buffer \<Rightarrow> file_session \<Rightarrow> file_session \<times> nat option" where
  "sys_write os bytes s =
     (let room = os_write os (ss_writes s);
          count = (case room of None \<Rightarrow> 0 | Some n \<Rightarrow> min n (length bytes));
          (s, r) = call_with os (room = None) (fs_write (ss_outputFD s) (take count bytes)) s
      in (s\<lparr>ss_writes := ss_writes s + 1\<rparr>, map_option (\<lambda>_. count) r))"

lemma sys_write_count: "sys_write os bytes s = (s', Some n) \<Longrightarrow> n \<le> length bytes"
  by (auto simp: sys_write_def Let_def split: prod.splits option.splits)

function session_write :: "os \<Rightarrow> buffer \<Rightarrow> unit fstep" where
  "session_write os chunk s =
     (if chunk = [] then (s, Returns ())
      else if ss_disposed s then (s, Throws (file_failure ''write after disposal''))
      else case sys_write os chunk s of
        (s', None) \<Rightarrow> (s', Throws file_io_failed)
      | (s', Some count) \<Rightarrow>
          if count = 0 then (s', Throws (file_failure ''relative write progress''))
          else session_write os (drop count chunk) s')"
  by pat_completeness auto
termination
  by (relation "measure (\<lambda>(os, chunk, s). length chunk)") (auto simp: length_drop)

declare session_write.simps [simp del]

definition session_commit :: "os \<Rightarrow> string list \<Rightarrow> unit fstep" where
  "session_commit os output =
     op_bind op_get (\<lambda>s.
     op_bind (op_check (throw_if (ss_disposed s \<or> ss_committed s) (file_failure ''commit state''))) (\<lambda>_.
     op_bind (op_sys os (file_failure ''atomic relative rename'')
       (\<lambda>fs. case (ss_temporaryParent s, ss_outputParent s) of
          (Some t, Some p) \<Rightarrow> fs_renameat t ''data'' p (basename output) fs
        | _ \<Rightarrow> None)) (\<lambda>_.
     op_set (\<lambda>s. s\<lparr>ss_committed := True\<rparr>))))"

definition session_dispose :: "os \<Rightarrow> string \<Rightarrow> unit fstep" where
  "session_dispose os temporary =
     op_bind op_get (\<lambda>s.
       if ss_disposed s then op_return ()
       else op_bind (op_set (\<lambda>s. s\<lparr>ss_disposed := True\<rparr>)) (\<lambda>_. cleanup os temporary))"

end
