(* ===== verification/File_Controller.thy ===== *)
theory File_Controller
  imports Secure_Files Stream_Safety
begin

text \<open>
  \<open>FileController\<close> (\<open>src/core/controllers/FileController.ts\<close>): a file through a pipeline into another
  file, which an atomic session replaces.  An operation acts on the state of the engine and on the
  session with its file system.
\<close>

section \<open>State\<close>

record file_state =
  fl_run :: run_state
  fl_files :: file_session

definition on_run :: "'a op \<Rightarrow> (file_state, 'a) step" where
  "on_run m s = (case m (fl_run s) of (r, out) \<Rightarrow> (s\<lparr>fl_run := r\<rparr>, out))"

definition on_files :: "'a fstep \<Rightarrow> (file_state, 'a) step" where
  "on_files m s = (case m (fl_files s) of (f, out) \<Rightarrow> (s\<lparr>fl_files := f\<rparr>, out))"

text \<open>
  What surrounds the controller: the system, the working directory, the identifier of the temporary
  directory, and what a chain of plugins is given (source and destination of \<open>fw_streams\<close> are not used).
\<close>

record file_world =
  fw_os :: os
  fw_cwd :: "string list"
  fw_uuid :: string
  fw_streams :: stream_world

section \<open>The ends of the pipeline\<close>

text \<open>The destination: each chunk is written as the system has room, \<open>n\<close> calls having been made.\<close>

function sink_write :: "os \<Rightarrow> nat \<Rightarrow> buffer \<Rightarrow> px_emissions \<times> nat flow" where
  "sink_write os n chunk =
     (if chunk = [] then ([], Returns n)
      else case os_write os n of
        None \<Rightarrow> ([Effect (Wrote chunk)], Throws file_io_failed)
      | Some room \<Rightarrow>
          if min room (length chunk) = 0
          then ([Effect (Wrote chunk)], Throws (file_failure ''relative write progress''))
          else map_prod ((#) (Effect (Wrote chunk))) id (sink_write os (n + 1) (drop room chunk)))"
  by pat_completeness auto
termination
  by (relation "measure (\<lambda>(os, n, chunk). length chunk)") (auto simp: length_drop)

declare sink_write.simps [simp del]

text \<open>What a destination has accepted is passed on, as the outcome of the pipeline.\<close>

definition file_sink :: "os \<Rightarrow> nat \<Rightarrow> px_stage" where
  "file_sink os =
     make_stage (\<lambda>n it. with_bytes it (\<lambda>b. case sink_write os n b of
         (ems, Returns m) \<Rightarrow> (ems @ [Push (Chunk b)], Returns m)
       | (ems, r) \<Rightarrow> (ems, r)))
       (\<lambda>n. ([], Returns ()))"

text \<open>The native writes of the destination, as the file system sees them.\<close>

fun apply_write :: "os \<Rightarrow> file_session \<Rightarrow> stream_effect \<Rightarrow> file_session" where
  "apply_write os s (Wrote bytes) = fst (sys_write os bytes s)"
| "apply_write os s _ = s"

definition apply_writes :: "os \<Rightarrow> nat \<Rightarrow> (nat \<times> stream_effect) list \<Rightarrow> file_session \<Rightarrow> file_session" where
  "apply_writes os i fs s = foldl (apply_write os) s (stage_log i fs)"

definition file_pipeline ::
  "file_world \<Rightarrow> string \<Rightarrow> abort_signal \<Rightarrow> px_stage list \<Rightarrow> (file_state, stream_item list) step" where
  "file_pipeline w requestId signal transforms s =
     (let os = fw_os w; turns = sw_turns (fw_streams w);
          (chunks, failure) = session_read os (fl_files s);
          stages = source_stage failure # transforms @ [file_sink os (ss_writes (fl_files s))];
          (run, t, fl) = drive signal (rs_now (fl_run s)) turns (pl_start stages (map Chunk chunks));
          (r, out) = op_pipeline requestId signal turns stages (map Chunk chunks) (fl_run s)
      in (s\<lparr>fl_run := r, fl_files := apply_writes os (length transforms + 1) (pl_log run) (fl_files s)\<rparr>, out))"

section \<open>Operations\<close>

text \<open>What follows the opening of the session.\<close>

definition with_session ::
  "file_world \<Rightarrow> abort_signal \<Rightarrow> (file_state, 'a) step \<Rightarrow> string list \<Rightarrow> (file_state, 'a) step" where
  "with_session w signal run output =
     op_finally
       (op_bind run (\<lambda>a.
        op_bind (on_run (op_aborted signal)) (\<lambda>_.
        op_bind (on_files (session_commit (fw_os w) output)) (\<lambda>_. op_return a))))
       (on_files (session_dispose (fw_os w) (temporary_name (fw_uuid w))))"

definition withAtomicOutput ::
  "file_world \<Rightarrow> string \<Rightarrow> string \<Rightarrow> string option \<Rightarrow> abort_signal \<Rightarrow> (file_state, 'a) step \<Rightarrow> (file_state, 'a) step"
where
  "withAtomicOutput w inputPath outputPath allowedRoot signal run =
     op_bind (on_files (openAtomicFileSession (fw_os w) (fw_cwd w) (fw_uuid w) inputPath outputPath allowedRoot))
       (\<lambda>(input, output). with_session w signal run output)"

text \<open>\<open>catch (err) { emitError; throw }\<close>.\<close>

definition file_catch :: "string \<Rightarrow> (file_state, 'a) step \<Rightarrow> (file_state, 'a) step" where
  "file_catch requestId body s =
     (case body s of
        (s', Throws err) \<Rightarrow>
          (fst (on_run (op_engine (emitError err requestId)) s'), Throws err)
      | (s', Hangs) \<Rightarrow> (s', Hangs)
      | (s', Returns a) \<Rightarrow> (s', Returns a))"

text \<open>
  One operation: the signal and the request, then within the \<open>try\<close> block a check, the session with the
  pipeline that \<open>stages\<close> builds, the audit record and the end of the request.
\<close>

definition file_operation ::
  "file_world \<Rightarrow> string \<Rightarrow> audit_operation \<Rightarrow> unit op \<Rightarrow> (abort_signal \<Rightarrow> px_stage list op) \<Rightarrow> string \<Rightarrow> string
     \<Rightarrow> string option \<Rightarrow> operation_options \<Rightarrow> (file_state, stream_item list) step" where
  "file_operation w requestId operation check stages inputPath outputPath allowedRoot options =
     op_bind (on_run (open_values requestId options)) (\<lambda>signal.
     file_catch requestId
       (op_bind (on_run check) (\<lambda>_.
        op_bind (withAtomicOutput w inputPath outputPath allowedRoot signal
          (op_bind (on_run (stages signal)) (file_pipeline w requestId signal))) (\<lambda>out.
        on_run (finish_request requestId operation signal out)))))"

definition schema_on_files :: px_error where
  "schema_on_files = JsError ''[PipeX] Global object schemas cannot validate raw file streams''"

definition no_schema :: "unit op" where
  "no_schema = op_bind op_state (\<lambda>s. op_check (throw_if (eng_schema (rs_engine s) \<noteq> None) schema_on_files))"

text \<open>The stages of \<open>process\<close> and \<open>reverse\<close>, of \<open>pack\<close> and of \<open>unpack\<close>.\<close>

definition plugin_pipeline :: "file_world \<Rightarrow> string \<Rightarrow> bool \<Rightarrow> abort_signal \<Rightarrow> px_stage list op" where
  "plugin_pipeline w requestId reverse signal =
     op_bind (op_chain (fw_streams w) requestId reverse signal) (\<lambda>transforms.
     op_bind op_state (\<lambda>s. op_return (bytes_pipeline (eng_limits (rs_engine s)) transforms)))"

definition pack_pipeline :: "js_runtime \<Rightarrow> 'u msgpack_streams \<Rightarrow> abort_signal \<Rightarrow> px_stage list op" where
  "pack_pipeline rt ms signal =
     op_bind op_state (\<lambda>s. let limits = eng_limits (rs_engine s) in
     op_bind (op_check (rt_pack rt (buildManifest [] (rs_now s)))) (\<lambda>frame.
     op_return (byte_limit_stage (maxInputBytes limits) ''input'' # pack_stages rt ms limits frame)))"

text \<open>
  \<open>buildNdjsonTransform\<close>.  \<open>json v\<close> is \<open>JSON.stringify\<close>: it throws with a message, gives no text for a
  value that JSON does not have, or a text, here in UTF-8.
\<close>

definition ndjson_stage :: "(js_value \<Rightarrow> string + buffer option) \<Rightarrow> px_stage" where
  "ndjson_stage json =
     make_stage (\<lambda>s it.
       case json (item_value it) of
         Inl message \<Rightarrow> ([], Throws (JsError (''[PipeX] NDJSON: '' @ message)))
       | Inr text \<Rightarrow>
           ([Push (Chunk ((case text of None \<Rightarrow> utf8 ''undefined'' | Some bytes \<Rightarrow> bytes) @ [10]))], Returns s))
       (\<lambda>s. ([], Returns ())) ()"

definition unpack_pipeline ::
  "'u msgpack_streams \<Rightarrow> (js_value \<Rightarrow> string + buffer option) \<Rightarrow> abort_signal \<Rightarrow> px_stage list op" where
  "unpack_pipeline ms json signal =
     op_bind op_state (\<lambda>s. op_return (unpack_stages ms (rs_engine s)
       @ [ndjson_stage json, byte_limit_stage (maxOutputBytes (eng_limits (rs_engine s))) ''output'']))"

definition file_process ::
  "file_world \<Rightarrow> string \<Rightarrow> string \<Rightarrow> string \<Rightarrow> string option \<Rightarrow> operation_options \<Rightarrow> (file_state, stream_item list) step"
where
  "file_process w requestId =
     file_operation w requestId AuditProcess no_schema (plugin_pipeline w requestId False)"

definition file_reverse ::
  "file_world \<Rightarrow> string \<Rightarrow> string \<Rightarrow> string \<Rightarrow> string option \<Rightarrow> operation_options \<Rightarrow> (file_state, stream_item list) step"
where
  "file_reverse w requestId =
     file_operation w requestId AuditReverse no_schema (plugin_pipeline w requestId True)"

definition file_pack ::
  "file_world \<Rightarrow> js_runtime \<Rightarrow> 'u msgpack_streams \<Rightarrow> string \<Rightarrow> string \<Rightarrow> string \<Rightarrow> string option \<Rightarrow> operation_options
     \<Rightarrow> (file_state, stream_item list) step" where
  "file_pack w rt ms requestId =
     file_operation w requestId AuditPack (op_return ()) (pack_pipeline rt ms)"

definition file_unpack ::
  "file_world \<Rightarrow> 'u msgpack_streams \<Rightarrow> (js_value \<Rightarrow> string + buffer option) \<Rightarrow> string \<Rightarrow> string \<Rightarrow> string
     \<Rightarrow> string option \<Rightarrow> operation_options \<Rightarrow> (file_state, stream_item list) step" where
  "file_unpack w ms json requestId =
     file_operation w requestId AuditUnpack (op_return ()) (unpack_pipeline ms json)"

end
