(* ===== verification/File_Safety.thy ===== *)
theory File_Safety
  imports File_Controller
begin

text \<open>
  What holds of every operation of the \<open>FileController\<close>, whatever the system, the plugins and the
  schedule do: the request is released and the deadline is kept.
\<close>

section \<open>Steps that do not wait\<close>

text \<open>No call of a session waits for ever.\<close>

definition settles :: "('s, 'a) step \<Rightarrow> bool" where
  "settles m \<longleftrightarrow> (\<forall>s. snd (m s) \<noteq> Hangs)"

named_theorems settles_rules "one rule for each construct that does not wait"

lemma settles_bind [settles_rules]: "settles m \<Longrightarrow> (\<And>a. settles (f a)) \<Longrightarrow> settles (op_bind m f)"
  by (auto simp: settles_def op_bind_def split: prod.split flow.split) (metis snd_conv)

lemma settles_basic [settles_rules]:
  "settles (op_return a)" "settles (op_check c)" "settles (op_throw e)" "settles op_get" "settles (op_set f)"
  "settles (op_some e r)" "settles (sys os g)"
  by (auto simp: settles_def op_return_def op_check_def op_throw_def op_get_def op_set_def op_some_def
      sys_def split: sum.splits)

lemma settles_sys [settles_rules]: "settles (op_sys os e g)"
  unfolding op_sys_def by (intro settles_rules)

lemma settles_finally [settles_rules]: "settles m \<Longrightarrow> settles f \<Longrightarrow> settles (op_finally m f)"
  by (auto simp: settles_def op_finally_def split: prod.split flow.split) (metis snd_conv)+

lemma settles_rollback [settles_rules]:
  assumes "settles m" "settles f"
  shows "settles (op_rollback m f)"
proof -
  have "snd (op_bind f (\<lambda>_. op_throw e) s) \<noteq> Hangs" for e s
    using settles_bind[OF assms(2) settles_basic(3)[of e]] unfolding settles_def by blast
  then show ?thesis using assms(1) unfolding settles_def op_rollback_def
    by (auto split: prod.split flow.split) (metis snd_conv)
qed

lemma settles_openChild [settles_rules]: "settles (openChild os parent name kind mode)"
  unfolding openChild_def by (intro settles_rules)

lemma settles_open_below [settles_rules]: "settles (open_below os fd parts)"
  by (induction parts arbitrary: fd) (auto intro!: settles_rules)

lemma settles_openParent [settles_rules]: "settles (openParent os filename)"
  unfolding openParent_def by (intro settles_rules)

lemma settles_close_each [settles_rules]: "settles (close_each os fds)"
  by (induction fds) (auto intro!: settles_rules)

lemma settles_cleanup [settles_rules]: "settles (cleanup os temporary)"
  unfolding cleanup_def closeAll_def by (intro settles_rules) (auto intro!: settles_rules split: option.split)

lemma settles_check_alias [settles_rules]: "settles (check_alias os source parent name)"
  unfolding check_alias_def by (intro settles_rules) (auto intro!: settles_rules split: option.split)

lemma settles_openPosix [settles_rules]: "settles (openPosix os uuid input output)"
  unfolding openPosix_def open_input_def open_temporary_def split_def by (intro settles_rules)

lemma settles_path [settles_rules]:
  "settles (op_realpath os p)" "settles (op_exists os p)" "settles (assertExists os cwd i base)"
  "settles (resolveOutputPath os cwd out base)"
  unfolding op_realpath_def op_exists_def assertExists_def resolveOutputPath_def Let_def
  by (intro settles_rules; auto intro!: settles_rules)+

lemma settles_session:
  "settles (openAtomicFileSession os cwd uuid i out base)" "settles (session_commit os output)"
  "settles (session_dispose os temporary)"
  unfolding openAtomicFileSession_def session_commit_def session_dispose_def
  by (intro settles_rules; auto intro!: settles_rules)+

section \<open>Steps of the two halves of the state\<close>

lemma valid_on_run:
  assumes "valid P m Q R"
  shows "valid (\<lambda>s. P (fl_run s)) (on_run m) (\<lambda>a s. Q a (fl_run s)) (\<lambda>s. R (fl_run s))"
  unfolding valid_def
proof (intro allI impI)
  fix s :: file_state assume "P (fl_run s)"
  with assms have "case m (fl_run s) of (q, Returns a) \<Rightarrow> Q a q | (q, Throws e) \<Rightarrow> R q | (q, Hangs) \<Rightarrow> R q"
    by (simp add: valid_def)
  then show "case on_run m s of (s', Returns a) \<Rightarrow> Q a (fl_run s') | (s', Throws e) \<Rightarrow> R (fl_run s')
      | (s', Hangs) \<Rightarrow> R (fl_run s')"
    by (cases "m (fl_run s)"; cases "snd (m (fl_run s))") (auto simp: on_run_def)
qed

lemma keeps_on_files: "keeps (\<lambda>s. P (fl_run s)) (on_files m)"
  by (auto simp: valid_def on_files_def split: prod.split flow.split)

lemma keeps_iff: "keeps I m \<longleftrightarrow> (\<forall>s. I s \<longrightarrow> I (fst (m s)))"
proof -
  have "(case m s of (s', Returns a) \<Rightarrow> I s' | (s', Throws e) \<Rightarrow> I s' | (s', Hangs) \<Rightarrow> I s') = I (fst (m s))" for s
    by (cases "m s"; cases "snd (m s)") auto
  then show ?thesis by (simp add: valid_def)
qed

lemma keeps_finally:
  assumes "keeps I m" "keeps I f"
  shows "keeps I (op_finally m f)"
  unfolding keeps_iff
proof (intro allI impI)
  fix s assume "I s"
  then have m: "I (fst (m s))" using assms(1) by (simp add: keeps_iff)
  then have f: "I (fst (f (fst (m s))))" using assms(2) by (simp add: keeps_iff)
  obtain s' r where ms: "m s = (s', r)" by (cases "m s")
  obtain s'' r' where fs: "f s' = (s'', r')" by (cases "f s'")
  show "I (fst (op_finally m f s))"
    using m f ms fs by (cases r; cases r') (auto simp: op_finally_def)
qed

lemma file_pipeline_run:
  assumes "file_pipeline w r signal transforms s = (s', out)"
  obtains stages items where "op_pipeline r signal (sw_turns (fw_streams w)) stages items (fl_run s) = (fl_run s', out)"
  using assms unfolding file_pipeline_def Let_def by (auto split: prod.splits)

lemma keeps_file_pipeline: "keeps (\<lambda>s. in_request r (fl_run s)) (file_pipeline w r signal transforms)"
  unfolding keeps_iff
proof (intro allI impI)
  fix s :: file_state assume s: "in_request r (fl_run s)"
  obtain s' out where run: "file_pipeline w r signal transforms s = (s', out)"
    by (cases "file_pipeline w r signal transforms s")
  obtain stages items where "op_pipeline r signal (sw_turns (fw_streams w)) stages items (fl_run s) = (fl_run s', out)"
    by (rule file_pipeline_run[OF run])
  then show "in_request r (fl_run (fst (file_pipeline w r signal transforms s)))"
    using keeps_pipeline[of r signal "sw_turns (fw_streams w)" stages items, unfolded keeps_iff, rule_format, OF s]
      run by simp
qed

section \<open>The request\<close>

lemma keeps_atomic:
  assumes "keeps (\<lambda>s. in_request r (fl_run s)) run"
  shows "keeps (\<lambda>s. in_request r (fl_run s)) (withAtomicOutput w i out base signal run)"
  unfolding withAtomicOutput_def with_session_def split_def
  by (intro keeps_bind keeps_finally keeps_on_files[where P = "in_request r"] assms keeps_return
      valid_on_run[OF keeps_aborted, of "in_request r"])

lemma operation_leaves:
  assumes "keeps (in_request r) check" "keeps (in_request r) (stages signal)"
  shows "valid (\<lambda>s. in_request r (fl_run s))
    (op_bind (on_run check) (\<lambda>_.
        op_bind (withAtomicOutput w i out base signal
          (op_bind (on_run (stages signal)) (file_pipeline w r signal))) (\<lambda>out.
        on_run (finish_request r operation signal out))))
    (\<lambda>_ s. out_of_request r (fl_run s)) (\<lambda>s. in_request r (fl_run s))"
  by (intro keeps_bind keeps_atomic valid_on_run[OF finish_leaves] valid_on_run[OF assms(1)]
      valid_on_run[OF assms(2)] keeps_file_pipeline)

lemma file_catch_over:
  assumes "valid (\<lambda>s. in_request r (fl_run s)) body (\<lambda>_ s. out_of_request r (fl_run s)) (\<lambda>s. in_request r (fl_run s))"
    and "in_request r (fl_run s)" "file_catch r body s = (s', out)"
  shows "request_over r (fl_run s', out)"
proof -
  obtain s1 o1 where b: "body s = (s1, o1)" by (cases "body s")
  let ?body = "\<lambda>x. (fl_run s1, o1)"
  have "valid (\<lambda>x. x = fl_run s) ?body (\<lambda>_. out_of_request r) (in_request r)"
    using assms(1,2) b by (cases o1) (auto simp: valid_def)
  then have "valid (in_request r) (\<lambda>x. if x = fl_run s then ?body x else (x, Hangs)) (\<lambda>_. out_of_request r) (in_request r)"
    by (simp add: valid_def)
  from caught_over[OF this assms(2)] show ?thesis
    using assms(3) b by (cases o1) (auto simp: op_catch_def file_catch_def on_run_def op_engine_def)
qed

lemma open_values_starts: "valid (idle r) (open_values r options) (\<lambda>_. in_request r) (out_of_request r)"
  unfolding open_values_def
  by (intro valid_bind[OF idle_state] valid_bind[OF idle_check] valid_bind[OF idle_aborted]
      valid_bind[OF idle_start] valid_return)

lemma open_values_settles: "snd (open_values r options s) \<noteq> Hangs"
proof -
  have "ends_by 0 (open_values r options)"
    unfolding open_values_def by (intro ends_by_bind ends_by_simple ends_by_aborted ends_by_start)
  then show ?thesis unfolding ends_by_def by (metis prod.collapse)
qed

lemma file_operation_over:
  fixes s :: file_state
  assumes "reachable (rs_engine (fl_run s))" "r \<notin> eng_active (rs_engine (fl_run s))"
    and "keeps (in_request r) check" "\<And>signal. keeps (in_request r) (stages signal)"
    and "file_operation w r operation check stages i out base options s = (s', res)"
  shows "request_over r (fl_run s', res)"
proof -
  let ?body = "\<lambda>signal. op_bind (on_run check) (\<lambda>_.
        op_bind (withAtomicOutput w i out base signal
          (op_bind (on_run (stages signal)) (file_pipeline w r signal))) (\<lambda>out.
        on_run (finish_request r operation signal out)))"
  obtain q opened where open_run: "open_values r options (fl_run s) = (q, opened)"
    by (cases "open_values r options (fl_run s)")
  have idle: "idle r (fl_run s)" using assms(1,2) by (simp add: idle_def)
  show ?thesis
  proof (cases opened)
    case (Returns signal)
    have q: "in_request r (fl_run (s\<lparr>fl_run := q\<rparr>))"
      using valid_Returns[OF open_values_starts idle, of options q signal] open_run Returns by simp
    have "file_catch r (?body signal) (s\<lparr>fl_run := q\<rparr>) = (s', res)"
      using assms(5) open_run Returns by (simp add: file_operation_def op_bind_def[of "on_run (open_values r options)"] on_run_def[of "open_values r options"])
    from file_catch_over[OF operation_leaves[where stages = stages, OF assms(3,4)] q this] show ?thesis .
  next
    case Hangs
    then show ?thesis using open_run open_values_settles[of r options "fl_run s"] by simp
  next
    case (Throws e)
    then have "out_of_request r q"
      using open_values_starts[of r options, unfolded valid_def, rule_format, OF idle] open_run by simp
    moreover have "fl_run s' = q" "res = Throws e" using assms(5) open_run Throws
      by (auto simp: file_operation_def op_bind_def[of "on_run (open_values r options)"] on_run_def[of "open_values r options"])
    ultimately show ?thesis by (simp add: request_over_def out_of_request_def)
  qed
qed

section \<open>The deadline\<close>

definition bounded_by :: "time \<Rightarrow> (file_state, 'a) step \<Rightarrow> bool" where
  "bounded_by ta m \<longleftrightarrow>
     (\<forall>s. snd (m s) \<noteq> Hangs \<and> rs_now (fl_run (fst (m s))) \<le> max (rs_now (fl_run s)) ta)"

lemma bounded_bind:
  assumes "bounded_by ta m" "\<And>a. bounded_by ta (f a)"
  shows "bounded_by ta (op_bind m f)"
  unfolding bounded_by_def
proof
  fix s
  obtain s' r where m: "m s = (s', r)" by (cases "m s")
  with assms(1) have r: "r \<noteq> Hangs" "rs_now (fl_run s') \<le> max (rs_now (fl_run s)) ta"
    unfolding bounded_by_def by (metis fst_conv snd_conv)+
  show "snd (op_bind m f s) \<noteq> Hangs \<and> rs_now (fl_run (fst (op_bind m f s))) \<le> max (rs_now (fl_run s)) ta"
  proof (cases r)
    case (Returns a)
    have "snd (f a s') \<noteq> Hangs" "rs_now (fl_run (fst (f a s'))) \<le> max (rs_now (fl_run s')) ta"
      using assms(2)[of a] unfolding bounded_by_def by blast+
    then show ?thesis using m r Returns by (auto simp: op_bind_def)
  qed (use m r in \<open>auto simp: op_bind_def\<close>)
qed

lemma bounded_on_run: "ends_by ta m \<Longrightarrow> bounded_by ta (on_run m)"
  unfolding bounded_by_def ends_by_def on_run_def by (auto split: prod.split)

lemma bounded_on_files: "settles m \<Longrightarrow> bounded_by ta (on_files m)"
  unfolding bounded_by_def settles_def on_files_def by (auto split: prod.split) (metis snd_conv)

lemma bounded_return: "bounded_by ta (op_return a)"
  by (simp add: bounded_by_def op_return_def)

lemma bounded_finally:
  assumes "bounded_by ta m" "bounded_by ta f"
  shows "bounded_by ta (op_finally m f)"
  unfolding bounded_by_def
proof
  fix s
  obtain s' r where m: "m s = (s', r)" by (cases "m s")
  obtain s'' r' where f: "f s' = (s'', r')" by (cases "f s'")
  have "r \<noteq> Hangs" "rs_now (fl_run s') \<le> max (rs_now (fl_run s)) ta"
    using assms(1) m unfolding bounded_by_def by (metis fst_conv snd_conv)+
  moreover have "r' \<noteq> Hangs" "rs_now (fl_run s'') \<le> max (rs_now (fl_run s')) ta"
    using assms(2) f unfolding bounded_by_def by (metis fst_conv snd_conv)+
  ultimately show "snd (op_finally m f s) \<noteq> Hangs
      \<and> rs_now (fl_run (fst (op_finally m f s))) \<le> max (rs_now (fl_run s)) ta"
    using m f by (cases r; cases r') (auto simp: op_finally_def)
qed

lemma bounded_file_pipeline:
  assumes "sig_abort signal = Some (ta, reason)"
  shows "bounded_by ta (file_pipeline w r signal transforms)"
  unfolding bounded_by_def
proof
  fix s :: file_state
  obtain s' out where run: "file_pipeline w r signal transforms s = (s', out)"
    by (cases "file_pipeline w r signal transforms s")
  obtain stages items where "op_pipeline r signal (sw_turns (fw_streams w)) stages items (fl_run s) = (fl_run s', out)"
    by (rule file_pipeline_run[OF run])
  then show "snd (file_pipeline w r signal transforms s) \<noteq> Hangs
      \<and> rs_now (fl_run (fst (file_pipeline w r signal transforms s))) \<le> max (rs_now (fl_run s)) ta"
    using ends_byD[OF ends_by_pipeline[OF assms]] run by simp
qed

lemma bounded_catch:
  assumes "bounded_by ta body"
  shows "bounded_by ta (file_catch r body)"
  unfolding bounded_by_def
proof
  fix s
  obtain s' out where b: "body s = (s', out)" by (cases "body s")
  with assms have "out \<noteq> Hangs" "rs_now (fl_run s') \<le> max (rs_now (fl_run s)) ta"
    unfolding bounded_by_def by (metis fst_conv snd_conv)+
  then show "snd (file_catch r body s) \<noteq> Hangs \<and> rs_now (fl_run (fst (file_catch r body s))) \<le> max (rs_now (fl_run s)) ta"
    using b by (cases out) (auto simp: file_catch_def on_run_def op_engine_def)
qed

lemma bounded_atomic:
  assumes "sig_abort signal = Some (ta, reason)" "bounded_by ta run"
  shows "bounded_by ta (withAtomicOutput w i out base signal run)"
  unfolding withAtomicOutput_def with_session_def split_def
  by (intro bounded_bind bounded_finally bounded_on_files settles_session assms(2) bounded_return
      bounded_on_run ends_by_aborted)

lemma finish_in_time: "finish_request r operation signal a s = (s', Returns b) \<Longrightarrow>
    throwIfAborted (Some signal) (rs_now s') = Inr ()"
  by (drule finish_Returns) simp

lemma on_run_Returns: "on_run m s = (s', Returns a) \<longleftrightarrow> (\<exists>q. m (fl_run s) = (q, Returns a) \<and> s' = s\<lparr>fl_run := q\<rparr>)"
  by (auto simp: on_run_def split: prod.splits)

lemma file_operation_in_time:
  fixes s :: file_state
  assumes "createOperationSignal (eng_limits (rs_engine (fl_run s))) options (rs_now (fl_run s)) = Inr signal"
    and "sig_deadline signal = Some d"
    and "\<And>ta. ends_by ta check" "\<And>ta signal. ends_by ta (stages signal)"
    and "file_operation w r operation check stages i out base options s = (s', res)"
  shows "in_time d (fl_run s', res)"
proof -
  let ?body = "\<lambda>signal. op_bind (on_run check) (\<lambda>_.
        op_bind (withAtomicOutput w i out base signal
          (op_bind (on_run (stages signal)) (file_pipeline w r signal))) (\<lambda>out.
        on_run (finish_request r operation signal out)))"
  let ?start = "op_bind (op_aborted signal) (\<lambda>_. op_bind (op_start r) (\<lambda>_. op_return signal))"
  obtain ta reason where ta: "sig_abort signal = Some (ta, reason)" "ta \<le> d"
    using deadline_signal[OF assms(1,2)] by blast
  have now: "rs_now (fl_run s) \<le> d" using signal_deadline_later[OF assms(1,2)] by simp
  have body: "bounded_by ta (file_catch r (?body signal))"
    by (intro bounded_catch bounded_bind bounded_on_run assms(3,4) bounded_atomic[OF ta(1)]
        bounded_file_pipeline[OF ta(1)] ends_by_finish[OF ta(1)])
  have start: "ends_by ta ?start" by (intro ends_by_bind ends_by_aborted ends_by_start ends_by_simple)
  obtain q opened where q: "?start (fl_run s) = (q, opened)" by (cases "?start (fl_run s)")
  have open_run: "open_values r options (fl_run s) = (q, opened)"
    using q by (simp add: open_values_def bind_state assms(1) check_ok)
  have q_now: "opened \<noteq> Hangs" "rs_now q \<le> max (rs_now (fl_run s)) ta" using ends_byD[OF start q] by auto
  show ?thesis
  proof (cases opened)
    case (Returns sig)
    then have sig: "sig = signal" using q by (auto simp: Returns_iff)
    have run: "file_catch r (?body signal) (s\<lparr>fl_run := q\<rparr>) = (s', res)"
      using assms(5) open_run Returns sig
      by (simp add: file_operation_def op_bind_def[of "on_run (open_values r options)"]
          on_run_def[of "open_values r options"])
    have res: "res \<noteq> Hangs" "rs_now (fl_run s') \<le> max (rs_now q) ta"
      using body[unfolded bounded_by_def, rule_format, of "s\<lparr>fl_run := q\<rparr>"] run by auto
    moreover have "rs_now (fl_run s') < d" if "res = Returns a" for a
    proof -
      have "\<exists>t. ?body signal (s\<lparr>fl_run := q\<rparr>) = (s', Returns t)"
        using run that by (auto simp: file_catch_def split: prod.splits flow.splits)
      then obtain t x :: "stream_item list" and c where "finish_request r operation signal x c = (fl_run s', Returns t)"
        by (auto simp: bind_Returns on_run_Returns)
      from throwIfAborted_in_time[OF assms(1,2) finish_in_time[OF this]] show ?thesis .
    qed
    ultimately show ?thesis using q_now now ta(2) by (cases res) (auto simp: in_time_def)
  next
    case (Throws e)
    then have "fl_run s' = q" "res = Throws e" using assms(5) open_run
      by (auto simp: file_operation_def op_bind_def[of "on_run (open_values r options)"]
          on_run_def[of "open_values r options"])
    then show ?thesis using q_now now ta(2) by (auto simp: in_time_def)
  qed (use q_now in simp)
qed

section \<open>The four operations\<close>

lemma keeps_stages:
  "keeps I no_schema" "keeps I (plugin_pipeline w r reverse signal)"
  "keeps I (pack_pipeline rt ms signal)" "keeps I (unpack_pipeline ms json signal)"
  unfolding no_schema_def plugin_pipeline_def pack_pipeline_def unpack_pipeline_def Let_def
  by (intro keeps_rules keeps_chain)+

lemma ends_by_stages:
  "ends_by ta no_schema" "ends_by ta (plugin_pipeline w r reverse signal)"
  "ends_by ta (pack_pipeline rt ms signal)" "ends_by ta (unpack_pipeline ms json signal)"
  unfolding no_schema_def plugin_pipeline_def pack_pipeline_def unpack_pipeline_def Let_def
  by (intro ends_by_bind ends_by_simple ends_by_chain)+

lemmas file_operation_defs = file_process_def file_reverse_def file_pack_def file_unpack_def

text \<open>What holds of the engine after an operation on files.\<close>

definition for_run :: "(run_state \<times> 'a flow \<Rightarrow> bool) \<Rightarrow> file_state \<times> 'a flow \<Rightarrow> bool" where
  "for_run P = (\<lambda>(s, out). P (fl_run s, out))"

lemma for_runI: "(\<And>s' out. m = (s', out) \<Longrightarrow> P (fl_run s', out)) \<Longrightarrow> for_run P m"
  by (cases m) (simp add: for_run_def)

section \<open>A sample\<close>

text \<open>A root directory with two files, a system without faults and without other processes.\<close>

definition sample_fs :: file_system where
  "sample_fs = \<lparr>fs_nodes = [0 \<mapsto> Directory [(''in'', 1), (''out'', 2)], 1 \<mapsto> Regular [1, 2], 2 \<mapsto> Regular [7]],
     fs_mode = (\<lambda>_. 493), fs_owner = (\<lambda>_. 1000), fs_next = 3, fs_fds = Map.empty, fs_nextfd = 3\<rparr>"

definition sample_session :: file_session where
  "sample_session = \<lparr>ss_fs = sample_fs, ss_calls = 0, ss_writes = 0, ss_seen = [], ss_descriptors = [],
     ss_outputParent = None, ss_temporaryParent = None, ss_inputFD = 0, ss_outputFD = 0, ss_committed = False,
     ss_disposed = False, ss_temporaryCreated = False\<rparr>"

definition quiet_os :: os where
  "quiet_os = \<lparr>os_fault = (\<lambda>_. False), os_read = (\<lambda>_. Some 1), os_write = (\<lambda>_. Some 1),
     os_others = (\<lambda>_ fs. fs), os_credentials = \<lparr>cr_euid = 1000, cr_umask = 18\<rparr>\<rparr>"

definition sample_world :: "(time \<times> nat) list \<Rightarrow> file_world" where
  "sample_world turns = \<lparr>fw_os = quiet_os, fw_cwd = [], fw_uuid = ''u'',
     fw_streams = \<lparr>sw_factory = \<lparr>cf_create = (\<lambda>_ _. Inl invalid_chunk),
         cf_clock = (\<lambda>_. \<lparr>ck_arrival = (\<lambda>_. 0), ck_closed = None, ck_uuid = ''''\<rparr>)\<rparr>,
       sw_dlq = None, sw_turns = turns, sw_source_error = None, sw_destination = source_stage None\<rparr>\<rparr>"

definition sample_state :: file_state where
  "sample_state = \<lparr>fl_run = start_state fresh_engine, fl_files = sample_session\<rparr>"





end
