(* ===== verification/Atomic_Output.thy ===== *)
theory Atomic_Output
  imports File_Safety
begin

text \<open>
  The output of an atomic session among other processes: whatever the system and the others do, a name
  outside the private directory of the session shows the new file only with its complete contents.
\<close>

section \<open>What other processes may do\<close>

text \<open>A file or directory that only this user can reach into.\<close>

definition secluded :: "credentials \<Rightarrow> file_system \<Rightarrow> ino \<Rightarrow> bool" where
  "secluded cr fs i \<longleftrightarrow> fs_owner fs i = cr_euid cr \<and> fs_mode fs i AND 63 = 0"

definition well_linked :: "file_system \<Rightarrow> bool" where
  "well_linked fs \<longleftrightarrow>
     (\<forall>d n i. entry (fs_nodes fs) d n = Some i \<longrightarrow> i < fs_next fs)
     \<and> (\<forall>i \<ge> fs_next fs. fs_nodes fs i = None)
     \<and> (\<forall>fd i pos. fs_fds fs fd = Some (i, pos) \<longrightarrow> i < fs_next fs \<and> fd < fs_nextfd fs)"

text \<open>
  Others have no access to the descriptors of this process and to what is private to its user, and a
  directory they can write to can be linked to new files and to files that an open directory has.
\<close>

definition foreign :: "credentials \<Rightarrow> file_system \<Rightarrow> file_system \<Rightarrow> bool" where
  "foreign cr fs fs' \<longleftrightarrow>
     well_linked fs' \<and> fs_fds fs' = fs_fds fs \<and> fs_nextfd fs' = fs_nextfd fs \<and> fs_next fs \<le> fs_next fs'
     \<and> (\<forall>i < fs_next fs. secluded cr fs i \<longrightarrow> fs_nodes fs' i = fs_nodes fs i
          \<and> fs_mode fs' i = fs_mode fs i \<and> fs_owner fs' i = fs_owner fs i)
     \<and> (\<forall>d n i. entry (fs_nodes fs') d n = Some i \<and> i < fs_next fs \<and> \<not> (d < fs_next fs \<and> secluded cr fs d)
          \<longrightarrow> (\<exists>d' n'. \<not> secluded cr fs d' \<and> entry (fs_nodes fs) d' n' = Some i))"

definition others_ok :: "os \<Rightarrow> bool" where
  "others_ok os \<longleftrightarrow> (\<forall>n fs. well_linked fs \<longrightarrow> foreign (os_credentials os) fs (os_others os n fs))"

lemma foreign_refl:
  assumes "well_linked fs"
  shows "foreign cr fs fs"
proof -
  have "d < fs_next fs" if "entry (fs_nodes fs) d n = Some i" for d n i
    using assms that by (cases "d < fs_next fs") (auto simp: well_linked_def entry_def)
  then show ?thesis using assms unfolding foreign_def by blast
qed

lemma quiet_others_ok: "others_ok quiet_os"
  by (simp add: others_ok_def quiet_os_def foreign_refl)

section \<open>Entries\<close>

lemma entry_Some_directory: "entry v d n = Some i \<Longrightarrow> \<exists>es. v d = Some (Directory es)"
  by (cases "v d"; cases "the (v d)") (auto simp: entry_def)

lemma entry_add [simp]:
  "entry (add_entry v d name i) e n = (if e = d \<and> n = name then Some i else entry v e n)"
  by (simp add: entry_def add_entry_def)

lemma entry_drop [simp]:
  "entry (drop_entry v d name) e n = (if e = d \<and> n = name then None else entry v e n)"
proof -
  have "map_of (filter (\<lambda>(m, _). m \<noteq> name) es) n' = (if n' = name then None else map_of es n')"
    for es :: "(string \<times> ino) list" and n'
    by (induction es) auto
  then show ?thesis by (simp add: entry_def drop_entry_def)
qed

lemma entry_other_node:
  "\<not> is_directory v k \<Longrightarrow> entries_of x = [] \<Longrightarrow> entry (v(k := x)) e n = entry v e n"
  by (cases "v k"; cases "the (v k)") (auto simp: entry_def is_directory_def)

lemma file_bytes_add [simp]: "is_directory v d \<Longrightarrow> file_bytes (add_entry v d n i) j = file_bytes v j"
  by (auto simp: file_bytes_def add_entry_def is_directory_def split: option.splits node.splits)

lemma file_bytes_drop [simp]: "is_directory v d \<Longrightarrow> file_bytes (drop_entry v d n) j = file_bytes v j"
  by (auto simp: file_bytes_def drop_entry_def is_directory_def split: option.splits node.splits)

lemma file_bytes_Some: "file_bytes v k = Some c \<longleftrightarrow> v k = Some (Regular c)"
  by (auto simp: file_bytes_def split: option.splits node.splits)

lemma dir_of_Some: "dir_of fs fd = Some d \<longleftrightarrow> (\<exists>pos. fs_fds fs fd = Some (d, pos)) \<and> is_directory (fs_nodes fs) d"
  by (auto simp: dir_of_def split: option.splits if_splits)

section \<open>Own calls keep the file system well linked\<close>

lemma linkedI:
  assumes "\<And>d n i. entry (fs_nodes fs) d n = Some i \<Longrightarrow> i < fs_next fs"
    and "\<And>i. fs_next fs \<le> i \<Longrightarrow> fs_nodes fs i = None"
    and "\<And>fd i pos. fs_fds fs fd = Some (i, pos) \<Longrightarrow> i < fs_next fs \<and> fd < fs_nextfd fs"
  shows "well_linked fs"
  using assms unfolding well_linked_def by blast

lemma linkedD:
  assumes "well_linked fs"
  shows "entry (fs_nodes fs) d n = Some i \<Longrightarrow> i < fs_next fs"
    and "fs_next fs \<le> i \<Longrightarrow> fs_nodes fs i = None"
    and "fs_fds fs fd = Some (i, pos) \<Longrightarrow> i < fs_next fs"
    and "fs_fds fs fd = Some (i, pos) \<Longrightarrow> fd < fs_nextfd fs"
  using assms unfolding well_linked_def by blast+

lemma linked_fresh_fd: "well_linked fs \<Longrightarrow> fs_fds fs (fs_nextfd fs) = None"
  using linkedD(4)[of fs "fs_nextfd fs"] by (cases "fs_fds fs (fs_nextfd fs)") auto

definition grows :: "(file_system \<Rightarrow> (file_system \<times> 'a) option) \<Rightarrow> bool" where
  "grows f \<longleftrightarrow> (\<forall>fs fs' a. well_linked fs \<longrightarrow> f fs = Some (fs', a) \<longrightarrow> well_linked fs' \<and> fs_next fs \<le> fs_next fs')"

lemma well_linked_new_fd:
  assumes "well_linked fs" "i < fs_next fs" "new_fd fs i = (fs', fd)"
  shows "well_linked fs' \<and> fs_next fs' = fs_next fs"
proof -
  have fs': "fs' = fs\<lparr>fs_fds := (fs_fds fs)(fs_nextfd fs \<mapsto> (i, 0)), fs_nextfd := fs_nextfd fs + 1\<rparr>"
    using assms(3) by (auto simp: new_fd_def)
  have "well_linked fs'"
    by (rule linkedI) (use linkedD[OF assms(1)] assms(2) in \<open>auto simp: fs' less_SucI split: if_splits\<close>)
  then show ?thesis by (simp add: fs')
qed

lemma well_linked_dir: "well_linked fs \<Longrightarrow> dir_of fs fd = Some d \<Longrightarrow> d < fs_next fs"
  using linkedD(3) by (auto simp: dir_of_Some)

lemma well_linked_new_node:
  assumes "well_linked fs" "d < fs_next fs" "entries_of (Some node) = []"
  shows "well_linked (new_node cr mode node d name fs)"
proof (rule linkedI)
  let ?v = "(fs_nodes fs)(fs_next fs \<mapsto> node)"
  have old: "entry ?v e n = entry (fs_nodes fs) e n" for e n
    using assms(3) linkedD(2)[OF assms(1), of "fs_next fs"] by (simp add: entry_def)
  show "i < fs_next (new_node cr mode node d name fs)"
    if "entry (fs_nodes (new_node cr mode node d name fs)) e n = Some i" for e n i
    using that linkedD(1)[OF assms(1), of e n i] by (auto simp: new_node_def Let_def old split: if_splits)
  show "fs_nodes (new_node cr mode node d name fs) i = None"
    if "fs_next (new_node cr mode node d name fs) \<le> i" for i
    using that assms(2) linkedD(2)[OF assms(1), of i] by (auto simp: new_node_def Let_def add_entry_def)
  show "i < fs_next (new_node cr mode node d name fs) \<and> fd < fs_nextfd (new_node cr mode node d name fs)"
    if "fs_fds (new_node cr mode node d name fs) fd = Some (i, pos)" for fd i pos
    using that linkedD(3,4)[OF assms(1), of fd i pos] by (auto simp: new_node_def Let_def)
qed

lemma next_new_node [simp]: "fs_next (new_node cr mode node d name fs) = fs_next fs + 1"
  by (simp add: new_node_def Let_def)

lemma well_linked_nodes:
  assumes "well_linked fs" "\<And>d n i. entry v d n = Some i \<Longrightarrow> i < fs_next fs"
    and "\<And>i. fs_next fs \<le> i \<Longrightarrow> v i = None"
  shows "well_linked (fs\<lparr>fs_nodes := v\<rparr>)"
  by (rule linkedI) (use assms linkedD[OF assms(1)] in auto)

lemma grows_openat: "grows (fs_openat cr fd name kind mode)"
  unfolding grows_def
proof (intro allI impI)
  fix fs fs' a assume fs: "well_linked fs" and run: "fs_openat cr fd name kind mode fs = Some (fs', a)"
  obtain d where d: "dir_of fs fd = Some d" using run by (auto simp: fs_openat_def split: option.splits)
  note dn = well_linked_dir[OF fs d]
  show "well_linked fs' \<and> fs_next fs \<le> fs_next fs'"
  proof (cases "entry (fs_nodes fs) d name")
    case None
    then have "new_fd (new_node cr mode (Regular []) d name fs) (fs_next fs) = (fs', a)"
      using run d by (auto simp: fs_openat_def split: if_splits)
    from well_linked_new_fd[OF well_linked_new_node[OF fs dn] _ this] show ?thesis by simp
  next
    case (Some i)
    then have "new_fd fs i = (fs', a)" using run d by (auto simp: fs_openat_def split: if_splits option.splits node.splits)
    from well_linked_new_fd[OF fs linkedD(1)[OF fs Some] this] show ?thesis by simp
  qed
qed

lemma grows_mkdirat: "grows (fs_mkdirat cr fd name mode)"
  unfolding grows_def
  by (auto simp: fs_mkdirat_def well_linked_new_node well_linked_dir split: option.splits if_splits)

lemma grows_open_root: "grows fs_open_root"
  unfolding grows_def
proof (intro allI impI)
  fix fs fs' a assume fs: "well_linked fs" and run: "fs_open_root fs = Some (fs', a)"
  then have "root_ino < fs_next fs"
    using linkedD(2)[OF fs, of root_ino] by (cases "root_ino < fs_next fs") (auto simp: fs_open_root_def is_directory_def)
  then show "well_linked fs' \<and> fs_next fs \<le> fs_next fs'"
    using well_linked_new_fd[OF fs] run by (auto simp: fs_open_root_def split: if_splits)
qed

lemma grows_same:
  "grows (fs_fcntl fd)" "grows (fs_fstat fd)" "grows (read_fs g)"
  by (auto simp: grows_def fs_fcntl_def fs_fstat_def read_fs_def split: option.splits if_splits)

lemma grows_close: "grows (fs_close fd)"
  unfolding grows_def
proof (intro allI impI)
  fix fs fs' and a :: unit assume fs: "well_linked fs" and run: "fs_close fd fs = Some (fs', a)"
  then have fs': "fs' = fs\<lparr>fs_fds := (fs_fds fs)(fd := None)\<rparr>" by (auto simp: fs_close_def split: if_splits)
  have "well_linked fs'"
    by (rule linkedI) (use linkedD[OF fs] in \<open>auto simp: fs' split: if_splits\<close>)
  then show "well_linked fs' \<and> fs_next fs \<le> fs_next fs'" by (simp add: fs')
qed

lemma unlink_nodes:
  "fs_unlinkat fd name b fs = Some (fs', u) \<Longrightarrow>
     \<exists>d i. dir_of fs fd = Some d \<and> entry (fs_nodes fs) d name = Some i \<and> fs' = fs\<lparr>fs_nodes := drop_entry (fs_nodes fs) d name\<rparr>"
  by (auto simp: fs_unlinkat_def split: option.splits if_splits)

lemma drop_entry_linked:
  assumes "well_linked fs" "d < fs_next fs"
  shows "well_linked (fs\<lparr>fs_nodes := drop_entry (fs_nodes fs) d name\<rparr>)"
  by (rule well_linked_nodes[OF assms(1)])
    (use linkedD[OF assms(1)] assms(2) in \<open>auto simp: drop_entry_def[of _ _ _] split: if_splits\<close>,
     metis entry_drop linkedD(1)[OF assms(1)] drop_entry_def option.distinct(1))

lemma grows_unlinkat: "grows (fs_unlinkat fd name b)"
  unfolding grows_def by (auto dest!: unlink_nodes simp: drop_entry_linked well_linked_dir)

lemma rename_nodes:
  "fs_renameat t name p name' fs = Some (fs', u) \<Longrightarrow>
     (\<exists>d e i. dir_of fs t = Some d \<and> dir_of fs p = Some e \<and> entry (fs_nodes fs) d name = Some i
        \<and> (fs' = fs \<or> fs' = fs\<lparr>fs_nodes := add_entry (drop_entry (drop_entry (fs_nodes fs) d name) e name') e name' i\<rparr>))"
  by (auto simp: fs_renameat_def split: option.splits if_splits)

lemma is_directory_drop [simp]: "is_directory v e \<Longrightarrow> is_directory (drop_entry v d n) e"
  by (auto simp: is_directory_def drop_entry_def)

lemma grows_renameat: "grows (fs_renameat t name p name')"
  unfolding grows_def
proof (intro allI impI)
  fix fs fs' u assume fs: "well_linked fs" and run: "fs_renameat t name p name' fs = Some (fs', u)"
  obtain d e i where d: "dir_of fs t = Some d" "dir_of fs p = Some e" "entry (fs_nodes fs) d name = Some i"
    and fs': "fs' = fs \<or> fs' = fs\<lparr>fs_nodes := add_entry (drop_entry (drop_entry (fs_nodes fs) d name) e name') e name' i\<rparr>"
    using rename_nodes[OF run] by blast
  let ?v = "drop_entry (drop_entry (fs_nodes fs) d name) e name'"
  have old: "well_linked (fs\<lparr>fs_nodes := ?v\<rparr>)"
    using drop_entry_linked[OF drop_entry_linked[OF fs well_linked_dir[OF fs d(1)], of name], of e name']
      well_linked_dir[OF fs d(2)] by simp
  have "well_linked (fs\<lparr>fs_nodes := add_entry ?v e name' i\<rparr>)"
  proof (rule well_linked_nodes[OF fs])
    show "j < fs_next fs" if "entry (add_entry ?v e name' i) a n = Some j" for a n j
      using that linkedD(1)[OF fs d(3)] linkedD(1)[OF fs, of a n j] by (auto split: if_splits)
    show "add_entry ?v e name' i j = None" if "fs_next fs \<le> j" for j
      using that linkedD(2)[OF old, of j] well_linked_dir[OF fs d(2)] by (simp add: add_entry_def)
  qed
  then show "well_linked fs' \<and> fs_next fs \<le> fs_next fs'" using fs' fs by auto
qed

lemma write_nodes:
  "fs_write fd bytes fs = Some (fs', u) \<Longrightarrow>
     \<exists>i pos b. fs_fds fs fd = Some (i, pos) \<and> fs_nodes fs i = Some (Regular b)
       \<and> fs' = fs\<lparr>fs_nodes := (fs_nodes fs)(i \<mapsto> Regular (overwrite b pos bytes)),
                   fs_fds := (fs_fds fs)(fd \<mapsto> (i, pos + length bytes))\<rparr>"
  by (auto simp: fs_write_def file_bytes_Some split: option.splits)

lemma entry_write: "v i = Some (Regular b) \<Longrightarrow> entry (v(i \<mapsto> Regular b')) e n = entry v e n"
  by (simp add: entry_def)

lemma grows_write: "grows (fs_write fd bytes)"
  unfolding grows_def
proof (intro allI impI)
  fix fs fs' and u :: unit assume fs: "well_linked fs" and run: "fs_write fd bytes fs = Some (fs', u)"
  obtain i pos b where i: "fs_fds fs fd = Some (i, pos)" "fs_nodes fs i = Some (Regular b)"
    and fs': "fs' = fs\<lparr>fs_nodes := (fs_nodes fs)(i \<mapsto> Regular (overwrite b pos bytes)),
      fs_fds := (fs_fds fs)(fd \<mapsto> (i, pos + length bytes))\<rparr>"
    using write_nodes[OF run] by blast
  have "well_linked fs'"
    by (rule linkedI)
      (use linkedD[OF fs] i in \<open>auto simp: fs' entry_write split: if_splits\<close>)
  then show "well_linked fs' \<and> fs_next fs \<le> fs_next fs'" by (simp add: fs')
qed

lemmas grows_rules = grows_openat grows_mkdirat grows_open_root grows_same grows_close grows_unlinkat
  grows_renameat grows_write

section \<open>What others can have seen\<close>

text \<open>Nothing that was seen links to a file that is not there yet.\<close>

definition session_ok :: "file_session \<Rightarrow> bool" where
  "session_ok s \<longleftrightarrow> well_linked (ss_fs s)
     \<and> (\<forall>v \<in> set (ss_seen s). \<forall>d n i. entry v d n = Some i \<longrightarrow> i < fs_next (ss_fs s))"

lemma foreignD:
  assumes "foreign cr fs fs'"
  shows "well_linked fs'" "fs_fds fs' = fs_fds fs" "fs_next fs \<le> fs_next fs'"
    and "i < fs_next fs \<Longrightarrow> secluded cr fs i \<Longrightarrow> fs_nodes fs' i = fs_nodes fs i"
    and "i < fs_next fs \<Longrightarrow> secluded cr fs i \<Longrightarrow> secluded cr fs' i"
  using assms unfolding foreign_def secluded_def by auto

text \<open>A call with what others do before it.\<close>

lemma call_cases:
  assumes "call_with os fault f s = (s', r)"
  obtains fs fs' where "fs = os_others os (ss_calls s) (ss_fs s)"
    and "s' = s\<lparr>ss_fs := fs', ss_calls := ss_calls s + 1, ss_seen := ss_seen s @ [fs_nodes fs, fs_nodes fs']\<rparr>"
    and "case r of None \<Rightarrow> fs' = fs | Some a \<Rightarrow> f fs = Some (fs', a)"
  using assms by (auto simp: call_with_def Let_def split: prod.splits option.splits if_splits)

lemma session_ok_call:
  assumes "others_ok os" "session_ok s" "grows f" "call_with os fault f s = (s', r)"
  shows "session_ok s' \<and> fs_next (ss_fs s) \<le> fs_next (ss_fs s')"
proof -
  obtain fs fs' where fs: "fs = os_others os (ss_calls s) (ss_fs s)"
    and s': "s' = s\<lparr>ss_fs := fs', ss_calls := ss_calls s + 1, ss_seen := ss_seen s @ [fs_nodes fs, fs_nodes fs']\<rparr>"
    and r: "case r of None \<Rightarrow> fs' = fs | Some a \<Rightarrow> f fs = Some (fs', a)"
    by (rule call_cases[OF assms(4)])
  have "foreign (os_credentials os) (ss_fs s) fs"
    using assms(1,2) by (simp add: others_ok_def session_ok_def fs)
  note others = foreignD(1,3)[OF this]
  have own: "well_linked fs' \<and> fs_next fs \<le> fs_next fs'"
    using r others(1) assms(3) unfolding grows_def by (cases r) auto
  have "i < fs_next fs'" if "entry v d n = Some i" "v \<in> set (ss_seen s')" for v d n i
  proof -
    have "v \<in> set (ss_seen s) \<or> v = fs_nodes fs \<or> v = fs_nodes fs'" using that(2) by (auto simp: s')
    then show ?thesis using that(1) assms(2) others own linkedD(1)[of fs d n i] linkedD(1)[of fs' d n i]
      unfolding session_ok_def by fastforce
  qed
  then show ?thesis using own others(2) by (auto simp: session_ok_def s')
qed

lemma sys_call: "sys os f s = (s', out) \<longleftrightarrow> (\<exists>r. call_with os (os_fault os (ss_calls s)) f s = (s', r) \<and> out = Returns r)"
  by (cases "call_with os (os_fault os (ss_calls s)) f s") (auto simp: sys_def)

lemma keeps_ok_sys: "others_ok os \<Longrightarrow> grows f \<Longrightarrow> keeps session_ok (sys os f)"
  unfolding keeps_iff by (metis prod.collapse session_ok_call sys_call)

lemma keeps_throw: "keeps I (op_throw e)" and keeps_get: "keeps I op_get" and keeps_some: "keeps I (op_some e r)"
  by (simp_all add: keeps_iff op_throw_def op_check_def op_get_def op_some_def)

lemma keeps_set: "(\<And>s. I s \<Longrightarrow> I (f s)) \<Longrightarrow> keeps I (op_set f)"
  by (simp add: keeps_iff op_set_def)

lemma keeps_rollback:
  assumes "keeps I m" "keeps I f"
  shows "keeps I (op_rollback m f)"
  unfolding keeps_iff
proof (intro allI impI)
  fix s assume s: "I s"
  obtain s' r where m: "m s = (s', r)" by (cases "m s")
  have s': "I s'" using assms(1) s m unfolding keeps_iff by (metis fst_conv)
  have "keeps I (op_bind f (\<lambda>_. op_throw e))" for e by (intro keeps_bind assms(2) keeps_throw)
  then have "I (fst (op_bind f (\<lambda>_. op_throw e) s'))" for e using s' unfolding keeps_iff by blast
  then show "I (fst (op_rollback m f s))" using m s' by (cases r) (simp_all add: op_rollback_def)
qed

lemma keeps_ok_op_sys: "others_ok os \<Longrightarrow> grows f \<Longrightarrow> keeps session_ok (op_sys os e f)"
  unfolding op_sys_def by (intro keeps_bind keeps_some keeps_ok_sys)

lemma keeps_ok_set:
  "(\<And>s. ss_fs (f s) = ss_fs s) \<Longrightarrow> (\<And>s. ss_seen (f s) = ss_seen s) \<Longrightarrow> keeps session_ok (op_set f)"
  by (rule keeps_set) (simp add: session_ok_def)

lemmas keeps_calls = keeps_bind keeps_get keeps_some keeps_return keeps_check keeps_throw keeps_finally keeps_rollback

lemma keeps_ok_openChild: "others_ok os \<Longrightarrow> keeps session_ok (openChild os fd name kind mode)"
  unfolding openChild_def
  by (intro keeps_calls keeps_ok_op_sys keeps_ok_set grows_rules; simp)

lemma keeps_ok_open_below: "others_ok os \<Longrightarrow> keeps session_ok (open_below os fd parts)"
  by (induction parts arbitrary: fd) (auto intro!: keeps_calls keeps_ok_openChild)

lemma keeps_ok_openParent: "others_ok os \<Longrightarrow> keeps session_ok (openParent os filename)"
  unfolding openParent_def
  by (intro keeps_calls keeps_ok_op_sys keeps_ok_set keeps_ok_open_below grows_rules; simp)

lemma keeps_ok_close_each: "others_ok os \<Longrightarrow> keeps session_ok (close_each os fds)"
  by (induction fds) (auto intro!: keeps_calls keeps_ok_sys grows_rules)

lemma keeps_ok_cleanup: "others_ok os \<Longrightarrow> keeps session_ok (cleanup os temporary)"
  unfolding cleanup_def closeAll_def
  by (intro keeps_calls keeps_ok_close_each keeps_ok_set; (simp; fail)?)
    (auto intro!: keeps_calls keeps_ok_sys grows_rules split: option.split)

lemma keeps_ok_check_alias: "others_ok os \<Longrightarrow> keeps session_ok (check_alias os source fd name)"
  unfolding check_alias_def split_def
  by (intro keeps_calls keeps_ok_sys grows_rules)
    (auto intro!: keeps_calls keeps_ok_op_sys grows_rules split: option.split)

lemma keeps_ok_paths:
  assumes "others_ok os"
  shows "keeps session_ok (op_realpath os p)" "keeps session_ok (op_exists os p)"
    "keeps session_ok (assertExists os cwd i base)" "keeps session_ok (resolveOutputPath os cwd out base)"
  unfolding op_realpath_def op_exists_def assertExists_def resolveOutputPath_def Let_def
  using assms by (auto intro!: keeps_calls keeps_ok_sys keeps_ok_op_sys grows_rules)

lemma keeps_ok_open_input: "others_ok os \<Longrightarrow> keeps session_ok (open_input os input output)"
  unfolding open_input_def split_def
  by (intro keeps_calls keeps_ok_openParent keeps_ok_openChild keeps_ok_op_sys keeps_ok_set grows_rules; simp)

lemma keeps_ok_open_temporary: "others_ok os \<Longrightarrow> keeps session_ok (open_temporary os temporary fd)"
  unfolding open_temporary_def split_def
  by (intro keeps_calls keeps_ok_openChild keeps_ok_op_sys keeps_ok_set grows_rules; simp)

lemma keeps_ok_openPosix: "others_ok os \<Longrightarrow> keeps session_ok (openPosix os uuid input output)"
  unfolding openPosix_def split_def
  by (intro keeps_calls keeps_ok_set keeps_ok_open_input keeps_ok_check_alias keeps_ok_open_temporary keeps_ok_cleanup;
      simp add: new_session_def)

lemma keeps_ok_open: "others_ok os \<Longrightarrow> keeps session_ok (openAtomicFileSession os cwd uuid i out base)"
  unfolding openAtomicFileSession_def
  by (intro keeps_calls keeps_ok_paths keeps_ok_openPosix)

section \<open>The new file\<close>

text \<open>
  The file \<open>k\<close> with contents \<open>c\<close> while only the private directory \<open>d\<close> links to it, and when others may
  link to it as well.
\<close>

definition unveiled :: "credentials \<Rightarrow> ino \<Rightarrow> buffer \<Rightarrow> file_system \<Rightarrow> bool" where
  "unveiled cr k c fs \<longleftrightarrow>
     well_linked fs \<and> k < fs_next fs \<and> secluded cr fs k \<and> fs_nodes fs k = Some (Regular c)"

definition concealed :: "credentials \<Rightarrow> ino \<Rightarrow> ino \<Rightarrow> buffer \<Rightarrow> file_system \<Rightarrow> bool" where
  "concealed cr k d c fs \<longleftrightarrow> unveiled cr k c fs \<and> d < fs_next fs \<and> secluded cr fs d
     \<and> (\<forall>e n. entry (fs_nodes fs) e n = Some k \<longrightarrow> e = d)"

definition hides :: "ino \<Rightarrow> ino \<Rightarrow> nodes \<Rightarrow> bool" where
  "hides k d v \<longleftrightarrow> (\<forall>e n. entry v e n = Some k \<longrightarrow> e = d)"

definition shows_only :: "ino \<Rightarrow> ino \<Rightarrow> buffer \<Rightarrow> nodes \<Rightarrow> bool" where
  "shows_only k d c v \<longleftrightarrow> (\<forall>e n. entry v e n = Some k \<longrightarrow> e = d \<or> file_bytes v k = Some c)"

lemma foreign_unveiled: "foreign cr fs fs' \<Longrightarrow> unveiled cr k c fs \<Longrightarrow> unveiled cr k c fs'"
  using foreignD[of cr fs fs'] unfolding unveiled_def by (metis order_less_le_trans)

lemma foreign_concealed:
  assumes "foreign cr fs fs'" "concealed cr k d c fs"
  shows "concealed cr k d c fs'"
proof -
  note fs = assms(2)[unfolded concealed_def]
  have k: "k < fs_next fs" using fs by (simp add: unveiled_def)
  have "e = d" if link: "entry (fs_nodes fs') e n = Some k" for e n
  proof (cases "e < fs_next fs \<and> secluded cr fs e")
    case True
    then have "entry (fs_nodes fs) e n = Some k" using link foreignD(4)[OF assms(1), of e] by (simp add: entry_def)
    then show ?thesis using fs by blast
  next
    case False
    then obtain d' n' where "\<not> secluded cr fs d'" "entry (fs_nodes fs) d' n' = Some k"
      using assms(1) link k unfolding foreign_def by blast
    then show ?thesis using fs by blast
  qed
  then show ?thesis
    using foreign_unveiled[OF assms(1)] fs foreignD(3,5)[OF assms(1)] unfolding concealed_def
    by (meson order_less_le_trans)
qed

text \<open>Own calls that neither write to the file nor link to it.\<close>

definition spares :: "ino \<Rightarrow> file_system \<Rightarrow> file_system \<Rightarrow> bool" where
  "spares k fs fs' \<longleftrightarrow> fs_next fs' = fs_next fs \<and> fs_mode fs' = fs_mode fs \<and> fs_owner fs' = fs_owner fs
     \<and> fs_nodes fs' k = fs_nodes fs k
     \<and> (\<forall>e n. entry (fs_nodes fs') e n = Some k \<longrightarrow> entry (fs_nodes fs) e n = Some k)"

lemma secluded_cong: "fs_mode fs' = fs_mode fs \<Longrightarrow> fs_owner fs' = fs_owner fs \<Longrightarrow> secluded cr fs' i = secluded cr fs i"
  by (simp add: secluded_def)

lemma spares_unveiled: "spares k fs fs' \<Longrightarrow> well_linked fs' \<Longrightarrow> unveiled cr k c fs \<Longrightarrow> unveiled cr k c fs'"
  using secluded_cong unfolding spares_def unveiled_def by metis

lemma spares_concealed: "spares k fs fs' \<Longrightarrow> well_linked fs' \<Longrightarrow> concealed cr k d c fs \<Longrightarrow> concealed cr k d c fs'"
  using spares_unveiled[of k fs fs' cr c] secluded_cong[of fs' fs] unfolding spares_def concealed_def by metis

lemma spares_refl: "spares k fs fs"
  by (simp add: spares_def)

lemma spares_close: "fs_close fd fs = Some (fs', u) \<Longrightarrow> spares k fs fs'"
  by (auto simp: fs_close_def spares_def split: if_splits)

lemma spares_fcntl: "fs_fcntl fd fs = Some (fs', u) \<Longrightarrow> spares k fs fs'"
  by (auto simp: fs_fcntl_def spares_def split: if_splits)

lemma spares_unlink:
  assumes "fs_nodes fs k = Some (Regular c)" "fs_unlinkat fd name b fs = Some (fs', u)"
  shows "spares k fs fs'"
  using unlink_nodes[OF assms(2)] assms(1)
  by (auto simp: spares_def dir_of_Some is_directory_def drop_entry_def[of _ k] entry_drop split: if_splits)
    (auto simp: drop_entry_def split: if_splits option.splits)

definition harmless :: "(file_system \<Rightarrow> (file_system \<times> 'a) option) \<Rightarrow> bool" where
  "harmless f \<longleftrightarrow> grows f
     \<and> (\<forall>fs fs' a k c. fs_nodes fs k = Some (Regular c) \<longrightarrow> f fs = Some (fs', a) \<longrightarrow> spares k fs fs')"

lemma harmless_calls: "harmless (fs_close fd)" "harmless (fs_fcntl fd)" "harmless (fs_unlinkat fd name b)"
  using spares_close spares_fcntl spares_unlink
  by (auto simp: harmless_def grows_rules)

section \<open>Writing, commit and dispose\<close>

definition covered :: "credentials \<Rightarrow> ino \<Rightarrow> ino \<Rightarrow> buffer \<Rightarrow> file_session \<Rightarrow> bool" where
  "covered cr k d c s \<longleftrightarrow> concealed cr k d c (ss_fs s) \<and> (\<forall>v \<in> set (ss_seen s). hides k d v)"

definition published :: "credentials \<Rightarrow> ino \<Rightarrow> ino \<Rightarrow> buffer \<Rightarrow> file_session \<Rightarrow> bool" where
  "published cr k d c s \<longleftrightarrow> unveiled cr k c (ss_fs s) \<and> (\<forall>v \<in> set (ss_seen s). shows_only k d c v)"

definition writing :: "credentials \<Rightarrow> ino \<Rightarrow> ino \<Rightarrow> buffer \<Rightarrow> file_session \<Rightarrow> bool" where
  "writing cr k d c s \<longleftrightarrow> covered cr k d c s \<and> fs_fds (ss_fs s) (ss_outputFD s) = Some (k, length c)"

lemma concealed_hides: "concealed cr k d c fs \<Longrightarrow> hides k d (fs_nodes fs)"
  by (simp add: concealed_def hides_def)

lemma unveiled_shows: "unveiled cr k c fs \<Longrightarrow> shows_only k d c (fs_nodes fs)"
  by (simp add: unveiled_def shows_only_def file_bytes_Some)

lemma hides_shows: "hides k d v \<Longrightarrow> shows_only k d c v"
  by (simp add: hides_def shows_only_def)

text \<open>What a property of the file system that others respect says of a call.\<close>

lemma call_keeps:
  assumes "call_with os fault f s = (s', r)" "others_ok os" "J (ss_fs s)"
    and "\<And>fs. J fs \<Longrightarrow> well_linked fs"
    and "\<And>fs fs'. foreign (os_credentials os) fs fs' \<Longrightarrow> J fs \<Longrightarrow> J fs'"
    and "\<And>fs fs' a. J fs \<Longrightarrow> f fs = Some (fs', a) \<Longrightarrow> J' fs'"
    and "\<And>fs. J fs \<Longrightarrow> V (fs_nodes fs)" "\<And>fs. J' fs \<Longrightarrow> V (fs_nodes fs)" "\<forall>v \<in> set (ss_seen s). V v"
  shows "(case r of None \<Rightarrow> J (ss_fs s') | Some _ \<Rightarrow> J' (ss_fs s')) \<and> (\<forall>v \<in> set (ss_seen s'). V v)"
proof -
  obtain fs fs' where fs: "fs = os_others os (ss_calls s) (ss_fs s)"
    and s': "s' = s\<lparr>ss_fs := fs', ss_calls := ss_calls s + 1, ss_seen := ss_seen s @ [fs_nodes fs, fs_nodes fs']\<rparr>"
    and r: "case r of None \<Rightarrow> fs' = fs | Some a \<Rightarrow> f fs = Some (fs', a)"
    by (rule call_cases[OF assms(1)])
  have "foreign (os_credentials os) (ss_fs s) fs" using assms(2-4) by (simp add: others_ok_def fs)
  then have J: "J fs" using assms(3,5) by blast
  then have "case r of None \<Rightarrow> J fs' | Some _ \<Rightarrow> J' fs'" using r assms(6) by (auto split: option.splits)
  moreover from this have "V (fs_nodes fs')" using assms(7,8) by (cases r) auto
  ultimately show ?thesis using assms(7)[OF J] assms(9) by (auto simp: s' split: option.splits)
qed

lemma concealed_linked: "concealed cr k d c fs \<Longrightarrow> well_linked fs"
  and unveiled_linked: "unveiled cr k c fs \<Longrightarrow> well_linked fs"
  by (simp_all add: concealed_def unveiled_def)

lemma harmless_concealed:
  "harmless f \<Longrightarrow> concealed cr k d c fs \<Longrightarrow> f fs = Some (fs', a) \<Longrightarrow> concealed cr k d c fs'"
  using spares_concealed concealed_linked unfolding harmless_def grows_def
  by (metis concealed_def unveiled_def)

lemma harmless_unveiled:
  "harmless f \<Longrightarrow> unveiled cr k c fs \<Longrightarrow> f fs = Some (fs', a) \<Longrightarrow> unveiled cr k c fs'"
  using spares_unveiled unveiled_linked unfolding harmless_def grows_def by (metis unveiled_def)

lemma keeps_covered_sys:
  assumes "others_ok os" "harmless f" "cr = os_credentials os"
  shows "keeps (covered cr k d c) (sys os f)"
  unfolding keeps_iff
proof (intro allI impI)
  fix s assume s: "covered cr k d c s"
  obtain s' r where run: "call_with os (os_fault os (ss_calls s)) f s = (s', r)"
    by (cases "call_with os (os_fault os (ss_calls s)) f s")
  have "(case r of None \<Rightarrow> concealed cr k d c (ss_fs s') | Some _ \<Rightarrow> concealed cr k d c (ss_fs s'))
      \<and> (\<forall>v \<in> set (ss_seen s'). hides k d v)"
    by (rule call_keeps[OF run assms(1)])
      (use s assms in \<open>auto simp: covered_def intro: foreign_concealed concealed_linked harmless_concealed concealed_hides\<close>)
  then show "covered cr k d c (fst (sys os f s))" using run by (cases r) (auto simp: sys_def covered_def)
qed

lemma keeps_published_sys:
  assumes "others_ok os" "harmless f" "cr = os_credentials os"
  shows "keeps (published cr k d c) (sys os f)"
  unfolding keeps_iff
proof (intro allI impI)
  fix s assume s: "published cr k d c s"
  obtain s' r where run: "call_with os (os_fault os (ss_calls s)) f s = (s', r)"
    by (cases "call_with os (os_fault os (ss_calls s)) f s")
  have "(case r of None \<Rightarrow> unveiled cr k c (ss_fs s') | Some _ \<Rightarrow> unveiled cr k c (ss_fs s'))
      \<and> (\<forall>v \<in> set (ss_seen s'). shows_only k d c v)"
    by (rule call_keeps[OF run assms(1)])
      (use s assms in \<open>auto simp: published_def intro: foreign_unveiled unveiled_linked harmless_unveiled unveiled_shows\<close>)
  then show "published cr k d c (fst (sys os f s))" using run by (cases r) (auto simp: sys_def published_def)
qed

text \<open>Disposing of a session makes only harmless calls.\<close>

lemma keeps_dispose:
  assumes "\<And>f :: file_system \<Rightarrow> (file_system \<times> unit) option. harmless f \<Longrightarrow> keeps I (sys os f)"
    and "\<And>s s'. I s \<Longrightarrow> ss_fs s' = ss_fs s \<Longrightarrow> ss_seen s' = ss_seen s \<Longrightarrow> I s'"
  shows "keeps I (session_dispose os temporary)"
proof -
  have close: "keeps I (close_each os fds)" for fds
    by (induction fds) (auto intro!: keeps_calls assms(1) harmless_calls)
  have set: "keeps I (op_set f)" if "\<And>s. ss_fs (f s) = ss_fs s" "\<And>s. ss_seen (f s) = ss_seen s" for f
    by (rule keeps_set) (rule assms(2)[OF _ that])
  have "keeps I (closeAll os)" unfolding closeAll_def by (intro keeps_calls close set) simp_all
  then have "keeps I (cleanup os temporary)" unfolding cleanup_def
    by (intro keeps_calls) (auto intro!: keeps_calls assms(1) harmless_calls split: option.split)
  then show ?thesis unfolding session_dispose_def by (auto intro!: keeps_calls set)
qed

lemma covered_dispose:
  "others_ok os \<Longrightarrow> keeps (covered (os_credentials os) k d c) (session_dispose os temporary)"
  by (rule keeps_dispose, rule keeps_covered_sys) (simp_all add: covered_def)

lemma published_dispose:
  "others_ok os \<Longrightarrow> keeps (published (os_credentials os) k d c) (session_dispose os temporary)"
  by (rule keeps_dispose, rule keeps_published_sys) (simp_all add: published_def)

text \<open>One native write, and a chunk.\<close>

lemma overwrite_end [simp]: "overwrite c (length c) bytes = c @ bytes"
  by (simp add: overwrite_def)

lemma write_concealed:
  assumes "concealed cr k d c fs" "fs_fds fs fd = Some (k, length c)" "fs_write fd bytes fs = Some (fs', u)"
  shows "concealed cr k d (c @ bytes) fs' \<and> fs_fds fs' fd = Some (k, length (c @ bytes))"
proof -
  have k: "fs_nodes fs k = Some (Regular c)" using assms(1) by (simp add: concealed_def unveiled_def)
  then have fs': "fs' = fs\<lparr>fs_nodes := (fs_nodes fs)(k \<mapsto> Regular (c @ bytes)),
      fs_fds := (fs_fds fs)(fd \<mapsto> (k, length c + length bytes))\<rparr>"
    using write_nodes[OF assms(3)] assms(2) by auto
  have "well_linked fs'"
    using grows_write assms(3) concealed_linked[OF assms(1)] unfolding grows_def by blast
  moreover have "secluded cr fs' i = secluded cr fs i" for i by (simp add: secluded_def fs')
  ultimately show ?thesis using assms(1) k
    by (simp add: concealed_def unveiled_def fs' entry_write)
qed

lemma sys_write_writing:
  assumes "others_ok os" "cr = os_credentials os" "writing cr k d c s" "sys_write os bytes s = (s', r)"
  shows "writing cr k d (c @ (case r of None \<Rightarrow> [] | Some n \<Rightarrow> take n bytes)) s'"
proof -
  define count where "count = (case os_write os (ss_writes s) of None \<Rightarrow> 0 | Some n \<Rightarrow> min n (length bytes))"
  let ?f = "fs_write (ss_outputFD s) (take count bytes)"
  obtain s1 r1 where run: "call_with os (os_write os (ss_writes s) = None) ?f s = (s1, r1)"
    by (cases "call_with os (os_write os (ss_writes s) = None) ?f s")
  have s': "s' = s1\<lparr>ss_writes := ss_writes s1 + 1\<rparr>" "r = map_option (\<lambda>_. count) r1"
    using assms(4) run by (simp_all add: sys_write_def Let_def count_def)
  let ?J = "\<lambda>c fs. concealed cr k d c fs \<and> fs_fds fs (ss_outputFD s) = Some (k, length c)"
  have "(case r1 of None \<Rightarrow> ?J c (ss_fs s1) | Some _ \<Rightarrow> ?J (c @ take count bytes) (ss_fs s1))
      \<and> (\<forall>v \<in> set (ss_seen s1). hides k d v)"
  proof (rule call_keeps[OF run assms(1)])
    show "?J c (ss_fs s)" "\<forall>v \<in> set (ss_seen s). hides k d v"
      using assms(3) by (auto simp: writing_def covered_def)
    show "?J c fs'" if "foreign (os_credentials os) fs fs'" "?J c fs" for fs fs'
      using that foreign_concealed foreignD(2) assms(2) by metis
    show "?J (c @ take count bytes) fs'" if "?J c fs" "?f fs = Some (fs', u)" for fs fs' u
      using write_concealed that by metis
  qed (auto intro: concealed_linked concealed_hides)
  moreover have "ss_outputFD s1 = ss_outputFD s" by (rule call_cases[OF run]) simp
  ultimately show ?thesis by (cases r1) (auto simp: writing_def covered_def s')
qed

lemma sys_write_same:
  assumes "sys_write os bytes s = (s', r)"
  shows "ss_writes s' = ss_writes s + 1" "ss_disposed s' = ss_disposed s" "ss_outputFD s' = ss_outputFD s"
    "ss_committed s' = ss_committed s" "ss_temporaryParent s' = ss_temporaryParent s"
    "ss_outputParent s' = ss_outputParent s"
proof -
  obtain s1 r1 fault and f :: "file_system \<Rightarrow> (file_system \<times> unit) option" where "call_with os fault f s = (s1, r1)" "s' = s1\<lparr>ss_writes := ss_writes s1 + 1\<rparr>"
    using assms by (auto simp: sys_write_def Let_def split: prod.splits)
  then show "ss_writes s' = ss_writes s + 1" "ss_disposed s' = ss_disposed s" "ss_outputFD s' = ss_outputFD s"
    "ss_committed s' = ss_committed s" "ss_temporaryParent s' = ss_temporaryParent s"
    "ss_outputParent s' = ss_outputParent s"
    by (auto elim!: call_cases)
qed

lemma sys_write_result:
  assumes "others_ok os" "cr = os_credentials os" "writing cr k d c s" "sys_write os bytes s = (s', r)"
  shows "r = map_option (\<lambda>n. min n (length bytes)) (os_write os (ss_writes s))"
proof (cases "os_write os (ss_writes s)")
  case None
  then show ?thesis using assms(4) by (auto simp: sys_write_def Let_def call_with_def split: prod.splits)
next
  case (Some n)
  let ?f = "fs_write (ss_outputFD s) (take (min n (length bytes)) bytes)"
  let ?fs = "os_others os (ss_calls s) (ss_fs s)"
  have f: "foreign cr (ss_fs s) ?fs"
    using assms(1-3) concealed_linked by (auto simp: others_ok_def writing_def covered_def)
  then have "concealed cr k d c ?fs" "fs_fds ?fs (ss_outputFD s) = Some (k, length c)"
    using assms(3) foreign_concealed foreignD(2) by (auto simp: writing_def covered_def)
  then have "\<exists>fs'. ?f ?fs = Some (fs', ())"
    by (auto simp: fs_write_def concealed_def unveiled_def file_bytes_Some[THEN iffD2])
  then show ?thesis using assms(4) Some
    by (auto simp: sys_write_def Let_def call_with_def split: prod.splits)
qed

text \<open>
  The stage that writes decides as the \<open>write\<close> handler does, and its effects are the calls the handler makes.
\<close>

lemma sink_is_session_write:
  assumes "others_ok os" "cr = os_credentials os"
    and "writing cr k d c s" "\<not> ss_disposed s" "sink_write os (ss_writes s) chunk = (ems, res)"
  shows "\<exists>s' c'. foldl (apply_write os) s (effects ems) = s' \<and> pushed ems = []
    \<and> session_write os chunk s = (s', map_flow (\<lambda>_. ()) res) \<and> writing cr k d c' s' \<and> \<not> ss_disposed s'
    \<and> (\<forall>n. res = Returns n \<longrightarrow> c' = c @ chunk \<and> n = ss_writes s')"
  using assms(3-5)
proof (induction "length chunk" arbitrary: c s chunk ems rule: less_induct)
  case less
  show ?case
  proof (cases "chunk = []")
    case True
    then show ?thesis using less.prems by (auto simp: sink_write.simps session_write.simps)
  next
    case False
    obtain s1 r where w: "sys_write os chunk s = (s1, r)" by (cases "sys_write os chunk s")
    note s1 = sys_write_same[OF w] sys_write_writing[OF assms(1,2) less.prems(1) w]
    have r: "r = map_option (\<lambda>n. min n (length chunk)) (os_write os (ss_writes s))"
      by (rule sys_write_result[OF assms(1,2) less.prems(1) w])
    show ?thesis
    proof (cases "os_write os (ss_writes s)")
      case None
      then show ?thesis using less.prems False w r s1
        by (auto simp: sink_write.simps[of os _ chunk] session_write.simps[of os chunk])
    next
      case (Some n)
      show ?thesis
      proof (cases "min n (length chunk) = 0")
        case True
        then show ?thesis using less.prems False w r s1 Some
          by (auto simp: sink_write.simps[of os _ chunk] session_write.simps[of os chunk])
      next
        case n: False
        obtain ems1 res1 where more: "sink_write os (ss_writes s1) (drop n chunk) = (ems1, res1)"
          by (cases "sink_write os (ss_writes s1) (drop n chunk)")
        have ems: "ems = Effect (Wrote chunk) # ems1" "res1 = res"
          using less.prems(3) False Some n more s1(1) by (auto simp: sink_write.simps[of os _ chunk])
        have "take (min n (length chunk)) chunk = take n chunk" by (simp add: min_def)
        then have w1: "writing cr k d (c @ take n chunk) s1" using s1(7) r Some by simp
        have shorter: "length (drop n chunk) < length chunk" using n by auto
        have live: "\<not> ss_disposed s1" using s1(2) less.prems(2) by simp
        obtain s' c' where
          go: "foldl (apply_write os) s1 (effects ems1) = s'" "pushed ems1 = []"
            "session_write os (drop n chunk) s1 = (s', map_flow (\<lambda>_. ()) res1)" "writing cr k d c' s'"
            "\<not> ss_disposed s'" "\<forall>n'. res1 = Returns n' \<longrightarrow> c' = (c @ take n chunk) @ drop n chunk \<and> n' = ss_writes s'"
          using less.hyps[OF shorter w1 live more[unfolded ems(2)]] ems(2) by auto
        have "drop (min n (length chunk)) chunk = drop n chunk" by (simp add: min_def)
        then have "session_write os chunk s = (s', map_flow (\<lambda>_. ()) res)"
          using go(3) False less.prems(2) w r Some n ems(2)
          by (cases "n \<le> length chunk") (auto simp: session_write.simps[of os chunk] min_absorb1 min_absorb2)
        then show ?thesis using go ems w by auto
      qed
    qed
  qed
qed

lemma writes_writing:
  assumes "others_ok os" "cr = os_credentials os" "writing cr k d c s"
  shows "\<exists>c'. writing cr k d c' (foldl (apply_write os) s fs)"
  using assms(3)
proof (induction fs arbitrary: s c)
  case (Cons f fs)
  have "\<exists>c'. writing cr k d c' (apply_write os s f)"
  proof (cases f)
    case (Wrote bytes)
    obtain s' r where "sys_write os bytes s = (s', r)" by (cases "sys_write os bytes s")
    then show ?thesis using sys_write_writing[OF assms(1,2) Cons.prems] Wrote by auto
  qed (use Cons.prems in auto)
  then show ?case using Cons.IH by auto
qed auto

text \<open>The destination has written what it passes on.\<close>

lemma sink_chunk:
  "on_chunk (file_sink os n) it = (ems, fl) \<Longrightarrow> fl = Returns st \<Longrightarrow>
     \<exists>b ems' m. item_bytes it = Some b \<and> sink_write os n b = (ems', Returns m) \<and> ems = ems' @ [Push (Chunk b)]
       \<and> st = file_sink os m"
  by (auto simp: file_sink_def with_bytes_def split: option.splits prod.splits flow.splits)

lemma sink_feed:
  assumes "others_ok os" "cr = os_credentials os"
    and "writing cr k d c s" "\<not> ss_disposed s" "feed_stage (file_sink os (ss_writes s)) items = (ems, Returns st)"
  shows "\<exists>outs m. st = file_sink os m \<and> pushed ems = map Chunk outs
    \<and> writing cr k d (c @ concat outs) (foldl (apply_write os) s (effects ems))"
  using assms(3-5)
proof (induction items arbitrary: c s ems)
  case Nil
  then show ?case by (auto intro!: exI[of _ "[]"])
next
  case (Cons it items)
  obtain ems1 fl1 where c1: "on_chunk (file_sink os (ss_writes s)) it = (ems1, fl1)"
    by (cases "on_chunk (file_sink os (ss_writes s)) it")
  then obtain st1 where fl1: "fl1 = Returns st1" using Cons.prems(3) by (cases fl1) auto
  obtain b ems' m where b: "sink_write os (ss_writes s) b = (ems', Returns m)" "ems1 = ems' @ [Push (Chunk b)]"
      "st1 = file_sink os m"
    using sink_chunk[OF c1 fl1] by blast
  obtain s1 where s1: "foldl (apply_write os) s (effects ems') = s1" "pushed ems' = []"
      "writing cr k d (c @ b) s1" "\<not> ss_disposed s1" "m = ss_writes s1"
    using sink_is_session_write[OF assms(1,2) Cons.prems(1,2) b(1)] by auto
  obtain ems2 fl2 where c2: "feed_stage (file_sink os m) items = (ems2, fl2)"
    by (cases "feed_stage (file_sink os m) items")
  then have "ems = ems1 @ ems2" "fl2 = Returns st" using Cons.prems(3) c1 fl1 b(3) by auto
  moreover obtain outs m' where "st = file_sink os m'" "pushed ems2 = map Chunk outs"
      "writing cr k d ((c @ b) @ concat outs) (foldl (apply_write os) s1 (effects ems2))"
    using Cons.IH[OF s1(3,4), of ems2] c2 s1(5) calculation(2) by auto
  ultimately show ?case using b s1 by (intro exI[of _ "b # outs"] exI[of _ m']) simp
qed

lemma sink_run:
  assumes "others_ok os" "cr = os_credentials os" "writing cr k d c s" "\<not> ss_disposed s"
    and "run_stage (file_sink os (ss_writes s)) items = (ems, Returns u)"
  shows "\<exists>outs. pushed ems = map Chunk outs
    \<and> writing cr k d (c @ concat outs) (foldl (apply_write os) s (effects ems))"
proof -
  obtain ems1 fl1 where feed: "feed_stage (file_sink os (ss_writes s)) items = (ems1, fl1)"
    by (cases "feed_stage (file_sink os (ss_writes s)) items")
  then obtain st where st: "fl1 = Returns st" using assms(5) by (cases fl1) (auto simp: run_stage_def)
  have sink: "\<exists>outs m. st = file_sink os m \<and> pushed ems1 = map Chunk outs
    \<and> writing cr k d (c @ concat outs) (foldl (apply_write os) s (effects ems1))"
    by (rule sink_feed[OF assms(1-4)]) (use feed st in simp)
  then obtain m where "st = file_sink os m" by blast
  then have "on_end st = ([], Returns ())" by (simp add: file_sink_def)
  then have "ems = ems1" using assms(5) feed st by (auto simp: run_stage_def)
  then show ?thesis using sink by blast
qed

text \<open>The last of several stages.\<close>

lemma through_last:
  "through i (sts @ [st]) xs = Some (out, fs) \<Longrightarrow>
     \<exists>mid ems. run_stage st mid = (ems, Returns ()) \<and> out = pushed ems \<and> stage_log (i + length sts) fs = effects ems"
proof (induction sts arbitrary: i xs fs)
  case Nil
  then show ?case by (auto split: prod.splits flow.splits intro!: exI)
next
  case (Cons a sts)
  obtain ems where a: "run_stage a xs = (ems, Returns ())"
    using Cons.prems by (auto split: prod.splits flow.splits)
  then obtain fs' where fs': "through (i + 1) (sts @ [st]) (pushed ems) = Some (out, fs')"
      "fs = map (Pair i) (effects ems) @ fs'"
    using Cons.prems by (auto split: prod.splits)
  from Cons.IH[OF fs'(1)] show ?case using fs'(2) by auto
qed

lemma file_pipeline_files:
  assumes "file_pipeline w r signal transforms s = (s', out)"
  obtains chunks failure run t fl r' where
    "drive signal (rs_now (fl_run s)) (sw_turns (fw_streams w))
       (pl_start (source_stage failure # transforms @ [file_sink (fw_os w) (ss_writes (fl_files s))]) (map Chunk chunks))
       = (run, t, fl)"
    and "out = map_flow (\<lambda>_. pl_out run) fl"
    and "fl_files s' = apply_writes (fw_os w) (length transforms + 1) (pl_log run) (fl_files s)"
  using assms by (auto simp: file_pipeline_def op_pipeline_def Let_def split: prod.splits)

text \<open>While a pipeline runs its output is only being written, and when it returns it is written.\<close>

lemma file_pipeline_writes:
  assumes "others_ok (fw_os w)" "cr = os_credentials (fw_os w)"
    and "writing cr k d [] (fl_files s)" "\<not> ss_disposed (fl_files s)"
    and "file_pipeline w r signal transforms s = (s', out)"
  shows "(\<exists>c. writing cr k d c (fl_files s'))
    \<and> (\<forall>items. out = Returns items \<longrightarrow> (\<exists>outs. items = map Chunk outs \<and> writing cr k d (concat outs) (fl_files s')))"
proof -
  let ?os = "fw_os w"
  obtain chunks failure run t fl where
    d: "drive signal (rs_now (fl_run s)) (sw_turns (fw_streams w))
       (pl_start ((source_stage failure # transforms) @ [file_sink ?os (ss_writes (fl_files s))]) (map Chunk chunks))
       = (run, t, fl)"
    and out: "out = map_flow (\<lambda>_. pl_out run) fl"
    and files: "fl_files s' = apply_writes ?os (length transforms + 1) (pl_log run) (fl_files s)"
    by (rule file_pipeline_files[OF assms(5)]) simp
  have "\<exists>outs. items = map Chunk outs \<and> writing cr k d (concat outs) (fl_files s')" if items: "out = Returns items" for items
  proof -
    have fl: "fl = Returns ()" "items = pl_out run" using out items by (cases fl; simp)+
    obtain turns where run: "run = pl_run turns (pl_start ((source_stage failure # transforms)
        @ [file_sink ?os (ss_writes (fl_files s))]) (map Chunk chunks))" "pl_result run = Some (Inr ())"
      using drive_run[OF d] fl(1) by auto
    obtain fs where fs: "through 0 ((source_stage failure # transforms) @ [file_sink ?os (ss_writes (fl_files s))])
        (map Chunk chunks) = Some (items, fs)" "\<And>i. stage_log i (pl_log run) = stage_log i fs"
      using run_done[of turns "(source_stage failure # transforms) @ [file_sink ?os (ss_writes (fl_files s))]"
          "map Chunk chunks"] run fl(2) by auto
    obtain mid ems where last: "run_stage (file_sink ?os (ss_writes (fl_files s))) mid = (ems, Returns ())"
        "items = pushed ems" "stage_log (0 + length (source_stage failure # transforms)) fs = effects ems"
      using through_last[OF fs(1)] by blast
    have "fl_files s' = foldl (apply_write ?os) (fl_files s) (effects ems)"
      using files last(3) fs(2) by (simp add: apply_writes_def)
    then show ?thesis using sink_run[OF assms(1-4) last(1)] last(2) by auto
  qed
  moreover have "\<exists>c. writing cr k d c (fl_files s')"
    unfolding files apply_writes_def by (rule writes_writing[OF assms(1-3)])
  ultimately show ?thesis by blast
qed

section \<open>Commit\<close>

lemma rename_unveils:
  assumes "concealed cr k d c fs" "fs_renameat t name p name' fs = Some (fs', u)"
  shows "unveiled cr k c fs'"
proof -
  have k: "fs_nodes fs k = Some (Regular c)" "well_linked fs" "secluded cr fs k" "k < fs_next fs"
    using assms(1) by (auto simp: concealed_def unveiled_def)
  obtain d e i where d: "dir_of fs t = Some d" "dir_of fs p = Some e"
    and fs': "fs' = fs \<or> fs' = fs\<lparr>fs_nodes := add_entry (drop_entry (drop_entry (fs_nodes fs) d name) e name') e name' i\<rparr>"
    using rename_nodes[OF assms(2)] by blast
  have "k \<noteq> d" "k \<noteq> e" using d k(1) by (auto simp: dir_of_Some is_directory_def)
  then have "fs_nodes fs' k = fs_nodes fs k" using fs' by (auto simp: add_entry_def drop_entry_def)
  moreover have "secluded cr fs' k" "fs_next fs' = fs_next fs" using fs' k by (auto simp: secluded_def)
  moreover have "well_linked fs'" using grows_renameat assms(2) k(2) unfolding grows_def by blast
  ultimately show ?thesis using k by (simp add: unveiled_def)
qed

lemma call_with_None: "call_with os fault f s = (s', None) \<Longrightarrow> call_with os fault (\<lambda>_. None) s = (s', None)"
  by (auto simp: call_with_def Let_def split: prod.splits option.splits if_splits)

lemma commit_publishes:
  assumes "others_ok os" "cr = os_credentials os" "covered cr k d c s" "session_commit os output s = (s', out)"
  shows "case out of Returns _ \<Rightarrow> published cr k d c s' | _ \<Rightarrow> covered cr k d c s'"
proof (cases "ss_disposed s \<or> ss_committed s")
  case True
  then show ?thesis using assms(3,4)
    by (auto simp: session_commit_def op_bind_def op_get_def op_check_def throw_if_def)
next
  case False
  let ?f = "\<lambda>fs. case (ss_temporaryParent s, ss_outputParent s) of
          (Some t, Some p) \<Rightarrow> fs_renameat t ''data'' p (basename output) fs | _ \<Rightarrow> None"
  obtain s1 r where run: "call_with os (os_fault os (ss_calls s)) ?f s = (s1, r)"
    by (cases "call_with os (os_fault os (ss_calls s)) ?f s")
  have s': "case r of None \<Rightarrow> s' = s1 \<and> (\<exists>e. out = Throws e)
      | Some _ \<Rightarrow> s' = s1\<lparr>ss_committed := True\<rparr> \<and> out = Returns ()"
    using assms(4) False run
    by (auto simp: session_commit_def op_bind_def op_get_def op_check_def throw_if_def op_sys_def sys_def op_some_def
        op_set_def split: option.splits)
  show ?thesis
  proof (cases r)
    case None
    have "concealed cr k d c (ss_fs s1) \<and> (\<forall>v \<in> set (ss_seen s1). hides k d v)"
      using call_keeps[OF call_with_None[OF run[unfolded None]] assms(1), of "concealed cr k d c" "\<lambda>_. False" "hides k d"]
        assms(2,3) foreign_concealed concealed_linked concealed_hides
      by (auto simp: covered_def)
    then show ?thesis using s' None by (auto simp: covered_def)
  next
    case (Some u)
    have "(case r of None \<Rightarrow> concealed cr k d c (ss_fs s1) | Some _ \<Rightarrow> unveiled cr k c (ss_fs s1))
        \<and> (\<forall>v \<in> set (ss_seen s1). shows_only k d c v)"
    proof (rule call_keeps[OF run assms(1)])
      show "concealed cr k d c (ss_fs s)" "\<forall>v \<in> set (ss_seen s). shows_only k d c v"
        using assms(3) by (auto simp: covered_def hides_shows)
      show "unveiled cr k c fs'" if "concealed cr k d c fs" "?f fs = Some (fs', u)" for fs fs' u
        using that rename_unveils by (auto split: option.splits)
    qed (use assms(2) in \<open>auto intro: foreign_concealed concealed_linked hides_shows[OF concealed_hides] unveiled_shows\<close>)
    then show ?thesis using s' Some by (auto simp: published_def)
  qed
qed

section \<open>Opening\<close>

lemma op_sys_step:
  assumes "op_sys os e f s = (s', Returns a)" "others_ok os" "well_linked (ss_fs s)"
  obtains fs where "foreign (os_credentials os) (ss_fs s) fs" "f fs = Some (ss_fs s', a)"
    and "ss_seen s' = ss_seen s @ [fs_nodes fs, fs_nodes (ss_fs s')]"
proof -
  obtain r where "call_with os (os_fault os (ss_calls s)) f s = (s', r)" "r = Some a"
    using assms(1) by (auto simp: op_sys_def Returns_iff sys_call op_some_def split: option.splits)
  then show thesis using assms(2,3)
    by (auto elim!: call_cases simp: others_ok_def intro!: that[of "os_others os (ss_calls s) (ss_fs s)"])
qed

text \<open>A call leaves the variables of the session alone.\<close>

lemma sys_fields:
  assumes "sys os f s = (s', out)"
  shows "ss_temporaryParent s' = ss_temporaryParent s" "ss_disposed s' = ss_disposed s"
    "ss_outputFD s' = ss_outputFD s" "ss_committed s' = ss_committed s" "ss_descriptors s' = ss_descriptors s"
    "ss_outputParent s' = ss_outputParent s" "ss_temporaryCreated s' = ss_temporaryCreated s"
  using assms by (auto simp: sys_call elim!: call_cases)

lemma op_sys_fields:
  assumes "op_sys os e f s = (s', out)"
  shows "ss_temporaryParent s' = ss_temporaryParent s" "ss_disposed s' = ss_disposed s"
    "ss_outputFD s' = ss_outputFD s" "ss_committed s' = ss_committed s" "ss_descriptors s' = ss_descriptors s"
    "ss_outputParent s' = ss_outputParent s" "ss_temporaryCreated s' = ss_temporaryCreated s"
proof -
  obtain s1 r where "sys os f s = (s1, r)" by (cases "sys os f s")
  moreover have "s' = s1" using assms calculation
    by (cases r) (auto simp: op_sys_def op_bind_def op_some_def op_check_def)
  ultimately show "ss_temporaryParent s' = ss_temporaryParent s" "ss_disposed s' = ss_disposed s"
    "ss_outputFD s' = ss_outputFD s" "ss_committed s' = ss_committed s" "ss_descriptors s' = ss_descriptors s"
    "ss_outputParent s' = ss_outputParent s" "ss_temporaryCreated s' = ss_temporaryCreated s"
    using sys_fields[of os f s s1 r] by auto
qed

lemma set_Returns: "op_set f s = (s', Returns u) \<longleftrightarrow> s' = f s"
  by (auto simp: op_set_def)

lemma openChild_step:
  assumes "openChild os parent name kind mode s = (s', Returns fd)" "others_ok os" "session_ok s"
  obtains s1 where "op_sys os (file_failure ''relative open'') (fs_openat (os_credentials os) parent name kind mode) s
      = (s1, Returns fd)"
    and "op_sys os (file_failure ''descriptor inheritance protection'') (fs_fcntl fd)
      (s1\<lparr>ss_descriptors := ss_descriptors s1 @ [fd]\<rparr>) = (s', Returns ())"
    and "session_ok s1"
proof -
  obtain s1 where s1: "op_sys os (file_failure ''relative open'') (fs_openat (os_credentials os) parent name kind mode) s
      = (s1, Returns fd)"
    "op_sys os (file_failure ''descriptor inheritance protection'') (fs_fcntl fd)
      (s1\<lparr>ss_descriptors := ss_descriptors s1 @ [fd]\<rparr>) = (s', Returns ())"
    using assms(1) by (auto simp: openChild_def Returns_iff set_Returns)
  moreover have "session_ok s1"
    by (rule valid_Returns[OF keeps_ok_op_sys[OF assms(2) grows_openat] assms(3) s1(1)])
  ultimately show thesis by (rule that)
qed

lemma openat_fds:
  "fs_openat cr parent name kind mode fs = Some (fs', fd) \<Longrightarrow> \<exists>i. fs_fds fs' fd = Some (i, 0)"
  by (auto simp: fs_openat_def new_fd_def split: option.splits if_splits node.splits)

lemma openat_old_fd:
  assumes "fs_openat cr parent name kind mode fs = Some (fs', fd)" "well_linked fs" "fs_fds fs t = Some x"
  shows "fs_fds fs' t = Some x"
proof -
  have "t \<noteq> fs_nextfd fs" using linked_fresh_fd[OF assms(2)] assms(3) by auto
  then show ?thesis using assms(1,3)
    by (auto simp: fs_openat_def new_fd_def new_node_def Let_def split: option.splits if_splits node.splits)
qed

lemma openNew_node:
  "fs_openat cr parent name OpenNew mode fs = Some (fs', fd) \<Longrightarrow>
     \<exists>d. dir_of fs parent = Some d \<and> entry (fs_nodes fs) d name = None
       \<and> new_fd (new_node cr mode (Regular []) d name fs) (fs_next fs) = (fs', fd)"
  by (auto simp: fs_openat_def split: option.splits if_splits)

lemma private_mode: "(384 - (384 AND (u :: int))) AND 63 = 0"
proof -
  have mask: "y AND 63 = y mod 64" for y :: int
    using take_bit_eq_mask[of 6 y] take_bit_eq_mod[of 6 y] by (simp add: mask_eq_exp_minus_1)
  have "take_bit 6 (384 AND u) = 0" using take_bit_and[of 6 384 u] by (simp add: take_bit_eq_mod)
  then have "64 dvd 384 AND u" by (simp add: take_bit_eq_mod mod_eq_0_iff_dvd)
  then obtain q where "384 AND u = 64 * q" by (elim dvdE)
  then have "384 - (384 AND u) = 64 * (6 - q)" by simp
  then show ?thesis unfolding mask by simp
qed

lemma open_file:
  assumes "fs_openat cr t name OpenNew 384 fs = Some (fs', fd)" "well_linked fs" "dir_of fs t = Some d" "secluded cr fs d"
  shows "concealed cr (fs_next fs) d [] fs' \<and> fs_fds fs' fd = Some (fs_next fs, 0)"
proof -
  let ?k = "fs_next fs"
  let ?fs = "new_node cr 384 (Regular []) d name fs"
  have fs': "new_fd ?fs ?k = (fs', fd)" using openNew_node[OF assms(1)] assms(3) by auto
  have d: "d < ?k" "is_directory (fs_nodes fs) d"
    using well_linked_dir[OF assms(2,3)] assms(3) by (auto simp: dir_of_Some)
  have "entry (fs_nodes fs) e n \<noteq> Some ?k" for e n using linkedD(1)[OF assms(2), of e n ?k] by auto
  moreover have "entry ((fs_nodes fs)(?k \<mapsto> Regular [])) e n = entry (fs_nodes fs) e n" for e n
    using linkedD(2)[OF assms(2), of ?k] by (simp add: entry_def)
  moreover have "well_linked fs'"
    using grows_openat assms(1,2) unfolding grows_def by blast
  moreover have nodes: "fs_nodes fs' = add_entry ((fs_nodes fs)(?k \<mapsto> Regular [])) d name ?k"
    and rest: "fs_next fs' = ?k + 1" "secluded cr fs' ?k" "secluded cr fs' d" "fs_fds fs' fd = Some (?k, 0)"
    using fs' d(1) assms(4) private_mode[of "cr_umask cr"]
    by (auto simp: new_fd_def new_node_def Let_def secluded_def)
  moreover have "fs_nodes fs' ?k = Some (Regular [])" using d(1) by (simp add: nodes add_entry_def)
  ultimately show ?thesis using d(1) by (simp add: concealed_def unveiled_def)
qed

text \<open>An open session: the private directory behind \<open>temporaryParent\<close>, the empty file behind \<open>outputFD\<close>.\<close>

definition opened :: "credentials \<Rightarrow> ino \<Rightarrow> ino \<Rightarrow> file_session \<Rightarrow> bool" where
  "opened cr k d s \<longleftrightarrow> writing cr k d [] s
     \<and> (\<exists>t pos. ss_temporaryParent s = Some t \<and> fs_fds (ss_fs s) t = Some (d, pos))"

lemma foreign_fds: "foreign cr fs fs' \<Longrightarrow> fs_fds fs' fd = fs_fds fs fd"
  by (simp add: foreignD(2))

lemma fcntl_same: "fs_fcntl fd fs = Some (fs', u) \<Longrightarrow> fs' = fs"
  by (auto simp: fs_fcntl_def split: if_splits)

lemma session_linked: "session_ok s \<Longrightarrow> well_linked (ss_fs s)"
  by (simp add: session_ok_def)

lemma openChild_fd:
  assumes "openChild os parent name kind mode s = (s', Returns fd)" "others_ok os" "session_ok s"
  shows "\<exists>i. fs_fds (ss_fs s') fd = Some (i, 0)"
proof -
  obtain s1 where s1: "op_sys os (file_failure ''relative open'') (fs_openat (os_credentials os) parent name kind mode) s
      = (s1, Returns fd)"
    and s2: "op_sys os (file_failure ''descriptor inheritance protection'') (fs_fcntl fd)
      (s1\<lparr>ss_descriptors := ss_descriptors s1 @ [fd]\<rparr>) = (s', Returns ())"
    and ok: "session_ok s1"
    by (rule openChild_step[OF assms])
  obtain i where i: "fs_fds (ss_fs s1) fd = Some (i, 0)"
    using op_sys_step[OF s1 assms(2) session_linked[OF assms(3)]] openat_fds by metis
  have "well_linked (ss_fs (s1\<lparr>ss_descriptors := ss_descriptors s1 @ [fd]\<rparr>))" using session_linked[OF ok] by simp
  from op_sys_step[OF s2 assms(2) this] obtain fs where "foreign (os_credentials os) (ss_fs s1) fs"
      "fs_fcntl fd fs = Some (ss_fs s', ())" by auto
  then have "foreign (os_credentials os) (ss_fs s1) (ss_fs s')" using fcntl_same by blast
  then show ?thesis using i foreign_fds by auto
qed

lemma open_temporary_steps:
  assumes "open_temporary os temporary p s = (s', Returns ())"
  obtains s1 s2 s3 t i node mode owner fd s4 where
    "op_sys os (file_failure ''temporary directory creation'') (fs_mkdirat (os_credentials os) p temporary 448) s
      = (s1, Returns ())"
    and "openChild os p temporary OpenDirectory 0 (s1\<lparr>ss_temporaryCreated := True\<rparr>) = (s2, Returns t)"
    and "op_sys os system_error (fs_fstat t) (s2\<lparr>ss_temporaryParent := Some t\<rparr>) = (s3, Returns (i, node, mode, owner))"
    and "mode AND 63 = 0" "owner = cr_euid (os_credentials os)"
    and "openChild os t ''data'' OpenNew 384 s3 = (s4, Returns fd)"
    and "s' = s4\<lparr>ss_outputFD := fd\<rparr>"
  using assms unfolding open_temporary_def
  by (auto simp: bind_Returns set_Returns check_Returns throw_if_def split: prod.splits if_splits)

lemma open_temporary_opens:
  assumes "open_temporary os temporary p s = (s', Returns ())" "others_ok os" "session_ok s"
  shows "\<exists>k d. opened (os_credentials os) k d s'"
proof -
  let ?cr = "os_credentials os"
  obtain s1 s2 s3 t i node mode owner fd s4 where
    s1: "op_sys os (file_failure ''temporary directory creation'') (fs_mkdirat ?cr p temporary 448) s = (s1, Returns ())"
    and s2: "openChild os p temporary OpenDirectory 0 (s1\<lparr>ss_temporaryCreated := True\<rparr>) = (s2, Returns t)"
    and s3: "op_sys os system_error (fs_fstat t) (s2\<lparr>ss_temporaryParent := Some t\<rparr>) = (s3, Returns (i, node, mode, owner))"
    and own: "mode AND 63 = 0" "owner = cr_euid ?cr"
    and s4: "openChild os t ''data'' OpenNew 384 s3 = (s4, Returns fd)" and s': "s' = s4\<lparr>ss_outputFD := fd\<rparr>"
    by (rule open_temporary_steps[OF assms(1)])
  have "session_ok s1" by (rule valid_Returns[OF keeps_ok_op_sys[OF assms(2) grows_mkdirat] assms(3) s1])
  then have ok1: "session_ok (s1\<lparr>ss_temporaryCreated := True\<rparr>)" by (simp add: session_ok_def)
  have "session_ok s2" by (rule valid_Returns[OF keeps_ok_openChild[OF assms(2)] ok1 s2])
  then have ok2: "session_ok (s2\<lparr>ss_temporaryParent := Some t\<rparr>)" by (simp add: session_ok_def)
  have ok3: "session_ok s3" by (rule valid_Returns[OF keeps_ok_op_sys[OF assms(2) grows_same(2)] ok2 s3])
  obtain d where "fs_fds (ss_fs s2) t = Some (d, 0)" using openChild_fd[OF s2 assms(2) ok1] by blast
  moreover obtain fs3 where fs3: "foreign ?cr (ss_fs s2) fs3" "fs_fstat t fs3 = Some (ss_fs s3, i, node, mode, owner)"
    using op_sys_step[OF s3 assms(2) session_linked[OF ok2]] by auto
  ultimately have d: "fs_fds (ss_fs s3) t = Some (d, 0)" "secluded ?cr (ss_fs s3) d"
    using own foreign_fds[OF fs3(1), of t] by (auto simp: fs_fstat_def secluded_def split: option.splits)
  obtain s5 where s5: "op_sys os (file_failure ''relative open'') (fs_openat ?cr t ''data'' OpenNew 384) s3 = (s5, Returns fd)"
    and fcntl: "op_sys os (file_failure ''descriptor inheritance protection'') (fs_fcntl fd)
      (s5\<lparr>ss_descriptors := ss_descriptors s5 @ [fd]\<rparr>) = (s4, Returns ())"
    and ok5: "session_ok s5"
    by (rule openChild_step[OF s4 assms(2) ok3])
  obtain fs4 where fs4: "foreign ?cr (ss_fs s3) fs4" "fs_openat ?cr t ''data'' OpenNew 384 fs4 = Some (ss_fs s5, fd)"
    and seen5: "ss_seen s5 = ss_seen s3 @ [fs_nodes fs4, fs_nodes (ss_fs s5)]"
    by (rule op_sys_step[OF s5 assms(2) session_linked[OF ok3]])
  note linked4 = foreignD(1)[OF fs4(1)]
  have t4: "fs_fds fs4 t = Some (d, 0)" using d(1) foreign_fds[OF fs4(1)] by simp
  then have dir4: "dir_of fs4 t = Some d" using openNew_node[OF fs4(2)] by (auto simp: dir_of_Some)
  have "d < fs_next (ss_fs s3)" using linkedD(3)[OF session_linked[OF ok3] d(1)] .
  then have secl4: "secluded ?cr fs4 d" using foreignD(5)[OF fs4(1)] d(2) by blast
  let ?k = "fs_next fs4"
  have new: "concealed ?cr ?k d [] (ss_fs s5)" "fs_fds (ss_fs s5) fd = Some (?k, 0)"
    using open_file[OF fs4(2) linked4 dir4 secl4] by auto
  have "hides ?k d v" if "v \<in> set (ss_seen s5)" for v
  proof -
    have "v \<in> set (ss_seen s3) \<or> v = fs_nodes fs4 \<or> v = fs_nodes (ss_fs s5)"
      using that by (auto simp: seen5)
    moreover have "hides ?k d v" if "v \<in> set (ss_seen s3)"
      using that ok3 foreignD(3)[OF fs4(1)] unfolding hides_def session_ok_def by fastforce
    moreover have "hides ?k d (fs_nodes fs4)" using linkedD(1)[OF linked4] unfolding hides_def by blast
    ultimately show ?thesis using concealed_hides[OF new(1)] by blast
  qed
  then have cov5: "covered ?cr ?k d [] s5" using new(1) by (simp add: covered_def)
  have t5: "fs_fds (ss_fs s5) t = Some (d, 0)" by (rule openat_old_fd[OF fs4(2) linked4 t4])
  have "well_linked (ss_fs (s5\<lparr>ss_descriptors := ss_descriptors s5 @ [fd]\<rparr>))" using session_linked[OF ok5] by simp
  from op_sys_step[OF fcntl assms(2) this] obtain fs5 where fs5: "foreign ?cr (ss_fs s5) fs5"
      "fs_fcntl fd fs5 = Some (ss_fs s4, ())" "ss_seen s4 = ss_seen s5 @ [fs_nodes fs5, fs_nodes (ss_fs s4)]" by auto
  have fs5': "fs5 = ss_fs s4" using fcntl_same[OF fs5(2)] by simp
  have "concealed ?cr ?k d [] (ss_fs s4)" using foreign_concealed[OF fs5(1) new(1)] fs5' by simp
  then have "covered ?cr ?k d [] s4" using cov5 fs5(3) fs5' concealed_hides by (auto simp: covered_def)
  moreover have "fs_fds (ss_fs s4) fd = Some (?k, 0)" "fs_fds (ss_fs s4) t = Some (d, 0)"
    using foreign_fds[OF fs5(1)] fs5' new(2) t5 by auto
  moreover have "ss_temporaryParent s4 = Some t"
    using op_sys_fields(1)[OF fcntl] op_sys_fields(1)[OF s5] op_sys_fields(1)[OF s3] by simp
  ultimately have "opened ?cr ?k d s'" by (simp add: opened_def writing_def covered_def s')
  then show ?thesis by blast
qed

text \<open>A session that has been opened has not been disposed of.\<close>

definition live :: "file_session \<Rightarrow> bool" where
  "live s \<longleftrightarrow> \<not> ss_disposed s"

lemma live_sys: "keeps live (sys os f)"
  unfolding keeps_iff live_def using sys_fields(2) by (metis prod.collapse)

lemma live_set: "(\<And>s. ss_disposed (f s) = ss_disposed s) \<Longrightarrow> keeps live (op_set f)"
  by (rule keeps_set) (simp add: live_def)

lemma live_op_sys: "keeps live (op_sys os e f)"
  unfolding op_sys_def by (intro keeps_bind keeps_some live_sys)

lemma live_openChild: "keeps live (openChild os fd name kind mode)"
  unfolding openChild_def by (intro keeps_calls live_op_sys live_set) simp

lemma live_open_below: "keeps live (open_below os fd parts)"
  by (induction parts arbitrary: fd) (auto intro!: keeps_calls live_openChild)

lemma live_openParent: "keeps live (openParent os filename)"
  unfolding openParent_def by (intro keeps_calls live_op_sys live_set live_open_below) simp

lemma live_open_input: "keeps live (open_input os input output)"
  unfolding open_input_def split_def
  by (intro keeps_calls live_openParent live_openChild live_op_sys live_set) simp_all

lemma live_check_alias: "keeps live (check_alias os source fd name)"
  unfolding check_alias_def split_def
  by (intro keeps_calls live_sys) (auto intro!: keeps_calls live_op_sys split: option.split)

lemma live_open_temporary: "keeps live (open_temporary os temporary p)"
  unfolding open_temporary_def split_def
  by (intro keeps_calls live_openChild live_op_sys live_set) simp_all

lemma rollback_Returns: "op_rollback m f s = (s', Returns a) \<longleftrightarrow> m s = (s', Returns a)"
proof -
  have "op_bind f (\<lambda>_. op_throw e) s1 \<noteq> (s', Returns a)" for e s1
    by (auto simp: op_bind_def op_throw_def op_check_def split: prod.splits flow.splits)
  then show ?thesis by (auto simp: op_rollback_def split: prod.splits flow.splits)
qed

lemma openPosix_opens:
  assumes "openPosix os uuid input output s = (s', Returns ())" "others_ok os" "session_ok s"
  shows "(\<exists>k d. opened (os_credentials os) k d s') \<and> live s'"
proof -
  obtain s1 s2 i p where s1: "open_input os input output (new_session s) = (s1, Returns (i, p))"
    and s2: "check_alias os i p (basename output) s1 = (s2, Returns ())"
    and s3: "open_temporary os (temporary_name uuid) p s2 = (s', Returns ())"
    using assms(1) by (auto simp: openPosix_def bind_Returns set_Returns rollback_Returns split: prod.splits)
  have "session_ok (new_session s)" using assms(3) by (simp add: session_ok_def new_session_def)
  then have "session_ok s1" by (rule valid_Returns[OF keeps_ok_open_input[OF assms(2)] _ s1])
  then have "session_ok s2" by (rule valid_Returns[OF keeps_ok_check_alias[OF assms(2)] _ s2])
  moreover have "live (new_session s)" by (simp add: live_def new_session_def)
  then have "live s1" by (rule valid_Returns[OF live_open_input _ s1])
  then have "live s2" by (rule valid_Returns[OF live_check_alias _ s2])
  then have "live s'" by (rule valid_Returns[OF live_open_temporary _ s3])
  ultimately show ?thesis using open_temporary_opens[OF s3 assms(2)] by blast
qed

lemma session_opens:
  assumes "openAtomicFileSession os cwd uuid i out base s = (s', Returns (input, output))" "others_ok os" "session_ok s"
  shows "(\<exists>k d. opened (os_credentials os) k d s') \<and> live s'"
proof -
  obtain s1 s2 s3 b where s1: "op_realpath os (case base of None \<Rightarrow> cwd | Some r \<Rightarrow> path_resolve cwd r) s = (s1, Returns b)"
    and s2: "assertExists os cwd i b s1 = (s2, Returns input)"
    and s3: "resolveOutputPath os cwd out b s2 = (s3, Returns output)"
    and s4: "openPosix os uuid input output s3 = (s', Returns ())"
    using assms(1) by (auto simp: openAtomicFileSession_def Returns_iff)
  have "session_ok s1" by (rule valid_Returns[OF keeps_ok_paths(1)[OF assms(2)] assms(3) s1])
  then have "session_ok s2" by (rule valid_Returns[OF keeps_ok_paths(3)[OF assms(2)] _ s2])
  then have "session_ok s3" by (rule valid_Returns[OF keeps_ok_paths(4)[OF assms(2)] _ s3])
  then show ?thesis by (rule openPosix_opens[OF s4 assms(2)])
qed

end
