(* ===== verification/Atomic_Session.thy ===== *)
theory Atomic_Session
  imports Atomic_Output
begin

text \<open>
  A whole session of the \<open>FileController\<close>, from its opening to its disposal: what others can find, and a
  sample that is evaluated.
\<close>

section \<open>A whole session\<close>

lemma on_run_files: "on_run m s = (s', out) \<Longrightarrow> fl_files s' = fl_files s"
  by (auto simp: on_run_def split: prod.splits)

lemma on_files_step: "on_files m s = (s', out) \<Longrightarrow> m (fl_files s) = (fl_files s', out)"
  by (auto simp: on_files_def split: prod.splits)

text \<open>What a session can end in: its file is covered, or it is published with the bytes of the pipeline.\<close>

definition covered_or_written ::
  "file_world \<Rightarrow> string \<Rightarrow> abort_signal \<Rightarrow> px_stage list op \<Rightarrow> file_state \<Rightarrow> ino \<Rightarrow> ino \<Rightarrow> file_session \<Rightarrow> bool" where
  "covered_or_written w r signal stages s k d f \<longleftrightarrow>
     (\<exists>c. covered (os_credentials (fw_os w)) k d c f)
     \<or> (\<exists>sts s1 s2 outs. on_run (stages) s = (s1, Returns sts) \<and> file_pipeline w r signal sts s1 = (s2, Returns (map Chunk outs))
          \<and> published (os_credentials (fw_os w)) k d (concat outs) f)"

lemma keeps_covered_or_written:
  assumes "others_ok (fw_os w)" "covered_or_written w r signal stages s k d f"
    "session_dispose (fw_os w) temporary f = (f', out)"
  shows "covered_or_written w r signal stages s k d f'"
proof -
  have f': "f' = fst (session_dispose (fw_os w) temporary f)" using assms(3) by simp
  show ?thesis
    using covered_dispose[OF assms(1)] published_dispose[OF assms(1)] assms(2)
    unfolding covered_or_written_def keeps_iff f' by meson
qed

lemma body_covered_or_written:
  assumes "others_ok (fw_os w)" "opened (os_credentials (fw_os w)) k d (fl_files s)" "live (fl_files s)"
    and "op_bind (op_bind (on_run stages) (file_pipeline w r signal)) (\<lambda>a.
        op_bind (on_run (op_aborted signal)) (\<lambda>_.
        op_bind (on_files (session_commit (fw_os w) output)) (\<lambda>_. op_return a))) s = (s', out)"
  shows "covered_or_written w r signal stages s k d (fl_files s')"
proof -
  let ?cr = "os_credentials (fw_os w)"
  have start: "writing ?cr k d [] (fl_files s)" using assms(2) by (simp add: opened_def)
  obtain s1 r1 where s1: "on_run stages s = (s1, r1)" by (cases "on_run stages s")
  note files1 = on_run_files[OF s1]
  have c1: "covered ?cr k d [] (fl_files s1)" using start by (simp add: files1 writing_def)
  show ?thesis
  proof (cases r1)
    case (Returns sts)
    obtain s2 r2 where s2: "file_pipeline w r signal sts s1 = (s2, r2)" by (cases "file_pipeline w r signal sts s1")
    have w: "writing ?cr k d [] (fl_files s1)" "\<not> ss_disposed (fl_files s1)"
      using start assms(3) by (simp_all add: files1 live_def)
    note written = file_pipeline_writes[OF assms(1) refl w s2]
    show ?thesis
    proof (cases r2)
      case r2: (Returns items)
      then obtain outs where outs: "items = map Chunk outs" "writing ?cr k d (concat outs) (fl_files s2)"
        using written by blast
      obtain s3 r3 where s3: "on_run (op_aborted signal) s2 = (s3, r3)" by (cases "on_run (op_aborted signal) s2")
      have c3: "covered ?cr k d (concat outs) (fl_files s3)"
        using outs(2) by (simp add: on_run_files[OF s3] writing_def)
      show ?thesis
      proof (cases r3)
        case r3: (Returns u)
        obtain s4 r4 where s4: "on_files (session_commit (fw_os w) output) s3 = (s4, r4)"
          by (cases "on_files (session_commit (fw_os w) output) s3")
        have "s' = s4" using assms(4) s1 s2 s3 s4 Returns r2 r3
          by (cases r4) (auto simp: op_bind_def op_return_def)
        then show ?thesis
          using commit_publishes[OF assms(1) refl c3 on_files_step[OF s4]] s1 s2 Returns r2 outs(1)
          unfolding covered_or_written_def by (cases r4) auto
      qed (use assms(4) s1 s2 s3 Returns r2 c3 in \<open>auto simp: op_bind_def covered_or_written_def\<close>)
    qed (use assms(4) s1 s2 Returns written in \<open>auto simp: op_bind_def covered_or_written_def writing_def\<close>)
  qed (use assms(4) s1 c1 in \<open>auto simp: op_bind_def covered_or_written_def\<close>)
qed

lemma session_covered_or_written:
  assumes "others_ok (fw_os w)" "opened (os_credentials (fw_os w)) k d (fl_files s)" "live (fl_files s)"
    and "with_session w signal (op_bind (on_run stages) (file_pipeline w r signal)) output s = (s', out)"
  shows "covered_or_written w r signal stages s k d (fl_files s')"
proof -
  let ?body = "op_bind (op_bind (on_run stages) (file_pipeline w r signal)) (\<lambda>a.
        op_bind (on_run (op_aborted signal)) (\<lambda>_.
        op_bind (on_files (session_commit (fw_os w) output)) (\<lambda>_. op_return a)))"
  let ?dispose = "on_files (session_dispose (fw_os w) (temporary_name (fw_uuid w)))"
  obtain s1 r1 where b: "?body s = (s1, r1)" by (cases "?body s")
  note body = body_covered_or_written[OF assms(1-3) b]
  obtain s2 r2 where d: "?dispose s1 = (s2, r2)" by (cases "?dispose s1")
  have "s' = s1 \<or> s' = s2"
    using assms(4) b d unfolding with_session_def op_finally_def by (cases r1; cases r2) auto
  then show ?thesis using body keeps_covered_or_written[OF assms(1) body on_files_step[OF d]] by blast
qed

section \<open>A session of the sample\<close>

definition sample_opened :: "file_session \<times> (string list \<times> string list) flow" where
  "sample_opened = openAtomicFileSession quiet_os [] ''u'' ''/in'' ''/out'' None sample_session"

definition sample_written :: file_session where
  "sample_written = foldl (apply_write quiet_os) (fst sample_opened) [Wrote [1], Wrote [2]]"

definition sample_committed :: "file_session \<times> unit flow" where
  "sample_committed = session_commit quiet_os [''out''] sample_written"

definition sample_disposed :: "file_session \<times> unit flow" where
  "sample_disposed = session_dispose quiet_os (temporary_name ''u'') (fst sample_committed)"

lemma sample_opening:
  "case sample_opened of (s, r) \<Rightarrow> r = Returns ([''in''], [''out''])
     \<and> fs_fds (ss_fs s) (ss_outputFD s) = Some (4, 0) \<and> ss_temporaryParent s = Some 7
     \<and> fs_fds (ss_fs s) 7 = Some (3, 0) \<and> ss_writes s = 0
     \<and> fs_fds (ss_fs s) (ss_inputFD s) = Some (1, 0) \<and> file_bytes (fs_nodes (ss_fs s)) 1 = Some [1, 2]"
  by code_simp

lemma sample_opens:
  "snd sample_opened = Returns ([''in''], [''out''])"
  "fs_fds (ss_fs (fst sample_opened)) (ss_outputFD (fst sample_opened)) = Some (4, 0)"
  "ss_temporaryParent (fst sample_opened) = Some 7" "fs_fds (ss_fs (fst sample_opened)) 7 = Some (3, 0)"
  "ss_writes (fst sample_opened) = 0" "fs_fds (ss_fs (fst sample_opened)) (ss_inputFD (fst sample_opened)) = Some (1, 0)"
  "file_bytes (fs_nodes (ss_fs (fst sample_opened))) 1 = Some [1, 2]"
  using sample_opening by (simp_all add: split_def)

lemma sample_reads: "session_read quiet_os (fst sample_opened) = ([[1], [2]], None)"
  by (simp add: session_read_def sample_opens[unfolded One_nat_def] read_from.simps quiet_os_def HIGH_WATER_def)

lemma sample_commits: "snd sample_committed = Returns ()" 
  by code_simp

lemma sample_disposes: "snd sample_disposed = Returns ()"
  by code_simp

lemma sample_published:
  "ss_seen (fst sample_disposed) \<noteq> []" "entry (last (ss_seen (fst sample_disposed))) 0 ''out'' = Some 4"
  by code_simp+

definition sample_signal :: abort_signal where
  "sample_signal = \<lparr>sig_abort = None, sig_deadline = None\<rparr>"

definition sample_turns :: "(time \<times> nat) list" where
  "sample_turns = map (Pair 1000) [0, 0, 0, 1, 1, 1]"

lemma source_chunk: "on_chunk (source_stage f) it = ([Push it], Returns (source_stage f))"
  and source_end: "on_end (source_stage None) = ([], Returns ())"
  by (simp_all add: source_stage_def)

lemma sink_byte: "on_chunk (file_sink quiet_os n) (Chunk [b])
    = ([Effect (Wrote [b]), Push (Chunk [b])], Returns (file_sink quiet_os (Suc n)))"
  by (simp add: file_sink_def with_bytes_def sink_write.simps quiet_os_def)

lemma sink_end: "on_end (file_sink os n) = ([], Returns ())"
  by (simp add: file_sink_def)

lemma sample_drive:
  "\<exists>x. drive sample_signal 1000 sample_turns (pl_start [source_stage None, file_sink quiet_os 0] [Chunk [1], Chunk [2]])
     = (x, 1000, Returns ()) \<and> pl_log x = [(1, Wrote [1]), (1, Wrote [2])] \<and> pl_out x = [Chunk [1], Chunk [2]]"
  by (simp add: sample_turns_def sample_signal_def drive.simps pl_start_def pl_turn_def new_cell_def enqueue_def
      cell_turn_def pl_result_def source_chunk sink_byte source_end sink_end)

lemma sample_pipeline:
  assumes "fl_files s = fst sample_opened" "rs_now (fl_run s) = 1000"
  shows "file_pipeline (sample_world sample_turns) ''r'' sample_signal [] s
    = (s\<lparr>fl_run := (fl_run s)\<lparr>rs_now := 1000\<rparr>, fl_files := sample_written\<rparr>, Returns (map Chunk [[1], [2]]))"
proof -
  obtain x where x: "drive sample_signal 1000 sample_turns (pl_start [source_stage None, file_sink quiet_os 0]
      [Chunk [1], Chunk [2]]) = (x, 1000, Returns ())" "pl_log x = [(1, Wrote [1]), (1, Wrote [2])]"
    "pl_out x = [Chunk [1], Chunk [2]]"
    using sample_drive by blast
  then show ?thesis using assms sample_opens(5) sample_reads
    by (simp add: file_pipeline_def op_pipeline_def sample_world_def Let_def apply_writes_def stage_log_def
        sample_written_def)
qed

definition sample_start :: file_state where
  "sample_start = sample_state\<lparr>fl_files := fst sample_opened\<rparr>"

lemma sample_files: "fl_files sample_start = fst sample_opened" "rs_now (fl_run sample_start) = 1000"
  by (simp_all add: sample_start_def sample_state_def start_state_def)

lemma sample_with_session:
  "\<exists>s2. with_session (sample_world sample_turns) sample_signal
     (op_bind (on_run (op_return [])) (file_pipeline (sample_world sample_turns) ''r'' sample_signal)) [''out''] sample_start
     = (s2, Returns (map Chunk [[1], [2]])) \<and> fl_files s2 = fst sample_disposed"
proof -
  let ?s1 = "sample_start\<lparr>fl_run := (fl_run sample_start)\<lparr>rs_now := 1000\<rparr>, fl_files := sample_written\<rparr>"
  let ?s2 = "?s1\<lparr>fl_files := fst sample_committed\<rparr>"
  have run: "op_bind (on_run (op_return [])) (file_pipeline (sample_world sample_turns) ''r'' sample_signal) sample_start
      = (?s1, Returns (map Chunk [[1], [2]]))"
    using sample_pipeline[OF sample_files] by (simp add: op_bind_def on_run_def op_return_def)
  have live: "on_run (op_aborted sample_signal) ?s1 = (?s1, Returns ())"
    by (simp add: on_run_def op_aborted_def op_bind_def op_now_def op_check_def throwIfAborted_def aborted_by_def
        sample_signal_def)
  have os: "fw_os (sample_world sample_turns) = quiet_os" "fw_uuid (sample_world sample_turns) = ''u''"
    by (simp_all add: sample_world_def)
  have commit: "on_files (session_commit quiet_os [''out'']) ?s1 = (?s2, Returns ())"
    using sample_commits by (cases sample_committed) (auto simp: on_files_def sample_committed_def)
  have dispose: "on_files (session_dispose quiet_os (temporary_name ''u'')) ?s2
      = (?s2\<lparr>fl_files := fst sample_disposed\<rparr>, Returns ())"
    using sample_disposes by (cases sample_disposed) (auto simp: on_files_def sample_disposed_def)
  show ?thesis
    unfolding with_session_def os op_finally_def op_bind_def[of "op_bind (on_run (op_return [])) _"] run
    by (simp add: op_bind_def live commit dispose[simplified] op_return_def)
qed
lemma sample_linked: "session_ok sample_session"
proof -
  have "well_linked sample_fs"
    by (rule linkedI) (auto simp: sample_fs_def entry_def split: if_splits)
  then show ?thesis by (simp add: session_ok_def sample_session_def)
qed

lemma sample_opened_files:
  "on_files (openAtomicFileSession quiet_os [] ''u'' ''/in'' ''/out'' None) sample_state
     = (sample_start, Returns ([''in''], [''out'']))"
  using sample_opens(1) by (cases sample_opened) (auto simp: on_files_def sample_opened_def sample_start_def sample_state_def)

section \<open>Property\<close>



end
