(* ===== verification/Atomic_Replacement.thy ===== *)
theory Atomic_Replacement
  imports Atomic_Session
begin

text \<open>
  What a session leaves behind when no other process interferes: it replaces the output by the complete new
  file in one step and touches nothing else, or it changes nothing at all, whatever calls fail.
\<close>

section \<open>Views of the file system\<close>

text \<open>
  Directories and files that were there at the start, as a later view shows them: unchanged but for the
  name of the temporary directory and for what \<open>links\<close> adds or replaces.
\<close>

definition differs_by :: "string \<Rightarrow> file_system \<Rightarrow> (ino \<times> string \<rightharpoonup> ino) \<Rightarrow> nodes \<Rightarrow> bool" where
  "differs_by tmp fs0 links v \<longleftrightarrow>
     (\<forall>e n. e < fs_next fs0 \<longrightarrow> n \<noteq> tmp \<longrightarrow>
        entry v e n = (case links (e, n) of None \<Rightarrow> entry (fs_nodes fs0) e n | k \<Rightarrow> k))
     \<and> (\<forall>i < fs_next fs0. if is_directory (fs_nodes fs0) i then is_directory v i else v i = fs_nodes fs0 i)"

abbreviation kept :: "string \<Rightarrow> file_system \<Rightarrow> nodes \<Rightarrow> bool" where
  "kept tmp fs0 \<equiv> differs_by tmp fs0 Map.empty"

definition replaced :: "string \<Rightarrow> file_system \<Rightarrow> ino \<Rightarrow> string \<Rightarrow> ino \<Rightarrow> buffer \<Rightarrow> nodes \<Rightarrow> bool" where
  "replaced tmp fs0 p name k c v \<longleftrightarrow> differs_by tmp fs0 [(p, name) \<mapsto> k] v \<and> file_bytes v k = Some c"

lemma kept_refl: "kept tmp fs0 (fs_nodes fs0)"
  by (simp add: differs_by_def)

lemma differsI:
  assumes "\<And>e n. e < fs_next fs0 \<Longrightarrow> n \<noteq> tmp \<Longrightarrow>
      entry v e n = (case links (e, n) of None \<Rightarrow> entry (fs_nodes fs0) e n | k \<Rightarrow> k)"
    and "\<And>i. i < fs_next fs0 \<Longrightarrow> if is_directory (fs_nodes fs0) i then is_directory v i else v i = fs_nodes fs0 i"
  shows "differs_by tmp fs0 links v"
  using assms unfolding differs_by_def by blast

lemma differsD:
  assumes "differs_by tmp fs0 links v"
  shows "e < fs_next fs0 \<Longrightarrow> n \<noteq> tmp \<Longrightarrow>
      entry v e n = (case links (e, n) of None \<Rightarrow> entry (fs_nodes fs0) e n | k \<Rightarrow> k)"
    and "i < fs_next fs0 \<Longrightarrow> if is_directory (fs_nodes fs0) i then is_directory v i else v i = fs_nodes fs0 i"
  using assms unfolding differs_by_def by blast+

lemma is_directory_upd:
  "is_directory (v(i := x)) j \<longleftrightarrow> (if j = i then \<exists>es. x = Some (Directory es) else is_directory v j)"
  by (auto simp: is_directory_def split: option.splits node.splits)

lemma is_directory_add [simp]: "is_directory (add_entry v d n k) i \<longleftrightarrow> i = d \<or> is_directory v i"
  and is_directory_drop_iff: "is_directory (drop_entry v d n) i \<longleftrightarrow> i = d \<or> is_directory v i"
  by (auto simp: is_directory_upd add_entry_def drop_entry_def)

lemma other_entries: "i \<noteq> d \<Longrightarrow> add_entry v d n k i = v i" "i \<noteq> d \<Longrightarrow> drop_entry v d n i = v i"
  by (simp_all add: add_entry_def drop_entry_def)

lemma differs_new_node:
  assumes "differs_by tmp fs0 links v" "fs_next fs0 \<le> i"
  shows "differs_by tmp fs0 links (v(i := x))"
  using differsD[OF assms(1)] assms(2) by (intro differsI) (auto simp: entry_def is_directory_upd)

text \<open>A directory of the view that was there at the start was one already.\<close>

lemma differs_directory:
  assumes "differs_by tmp fs0 links v" "is_directory v d" "d < fs_next fs0"
  shows "is_directory (fs_nodes fs0) d"
proof (rule ccontr)
  assume "\<not> is_directory (fs_nodes fs0) d"
  then have "v d = fs_nodes fs0 d" using differsD(2)[OF assms(1,3)] by simp
  then show False using assms(2) \<open>\<not> is_directory (fs_nodes fs0) d\<close> by (simp add: is_directory_def)
qed

lemma differs_add:
  assumes "differs_by tmp fs0 links v" "is_directory v d" "n = tmp \<or> fs_next fs0 \<le> d"
  shows "differs_by tmp fs0 links (add_entry v d n k)"
proof (rule differsI)
  show "entry (add_entry v d n k) e m = (case links (e, m) of None \<Rightarrow> entry (fs_nodes fs0) e m | k \<Rightarrow> k)"
    if "e < fs_next fs0" "m \<noteq> tmp" for e m
    using differsD(1)[OF assms(1) that] that assms(3) by auto
  show "if is_directory (fs_nodes fs0) i then is_directory (add_entry v d n k) i
      else add_entry v d n k i = fs_nodes fs0 i" if "i < fs_next fs0" for i
    using differsD(2)[OF assms(1) that] differs_directory[OF assms(1,2)] that other_entries by (cases "i = d") auto
qed

lemma differs_drop:
  assumes "differs_by tmp fs0 links v" "is_directory v d" "n = tmp \<or> fs_next fs0 \<le> d"
  shows "differs_by tmp fs0 links (drop_entry v d n)"
proof (rule differsI)
  show "entry (drop_entry v d n) e m = (case links (e, m) of None \<Rightarrow> entry (fs_nodes fs0) e m | k \<Rightarrow> k)"
    if "e < fs_next fs0" "m \<noteq> tmp" for e m
    using differsD(1)[OF assms(1) that] that assms(3) by auto
  show "if is_directory (fs_nodes fs0) i then is_directory (drop_entry v d n) i
      else drop_entry v d n i = fs_nodes fs0 i" if "i < fs_next fs0" for i
    using differsD(2)[OF assms(1) that] differs_directory[OF assms(1,2)] that
    by (cases "i = d") (auto simp: other_entries is_directory_drop_iff)
qed

lemma replaced_drop:
  assumes "replaced tmp fs0 p name k c v" "is_directory v d" "n = tmp \<or> fs_next fs0 \<le> d"
  shows "replaced tmp fs0 p name k c (drop_entry v d n)"
  using assms differs_drop unfolding replaced_def by simp

text \<open>The rename: the name is linked to the new file, and nothing else changes that was there.\<close>

lemma rename_replaces:
  assumes "kept tmp fs0 v" "is_directory v d" "fs_next fs0 \<le> d" "is_directory v p" "file_bytes v k = Some c"
  shows "replaced tmp fs0 p name k c (add_entry (drop_entry (drop_entry v d ''data'') p name) p name k)"
proof -
  let ?v = "drop_entry v d ''data''"
  have v: "kept tmp fs0 ?v" "is_directory ?v p" using differs_drop[OF assms(1,2)] assms(3,4) by simp_all
  have "differs_by tmp fs0 [(p, name) \<mapsto> k] (add_entry (drop_entry ?v p name) p name k)"
  proof (rule differsI)
    show "entry (add_entry (drop_entry ?v p name) p name k) e m =
        (case [(p, name) \<mapsto> k] (e, m) of None \<Rightarrow> entry (fs_nodes fs0) e m | k \<Rightarrow> k)"
      if "e < fs_next fs0" "m \<noteq> tmp" for e m
      using differsD(1)[OF v(1) that] by (auto simp del: entry_drop) (auto simp: entry_drop)
    show "if is_directory (fs_nodes fs0) i then is_directory (add_entry (drop_entry ?v p name) p name k) i
        else add_entry (drop_entry ?v p name) p name k i = fs_nodes fs0 i" if "i < fs_next fs0" for i
      using differsD(2)[OF v(1) that] differs_directory[OF v] that
      by (cases "i = p") (auto simp: is_directory_drop_iff other_entries)
  qed
  moreover have "is_directory (drop_entry ?v p name) p" by (simp add: is_directory_drop_iff)
  ultimately show ?thesis using assms v(2) by (simp add: replaced_def)
qed

section \<open>Calls without interference\<close>

definition quiet :: "os \<Rightarrow> bool" where
  "quiet os \<longleftrightarrow> os_others os = (\<lambda>_ fs. fs)"

lemma quiet_ok: "quiet os \<Longrightarrow> others_ok os"
  by (simp add: quiet_def others_ok_def foreign_refl)

text \<open>The session after a call: only the file system and what was seen of it change.\<close>

definition after_call :: "file_session \<Rightarrow> file_session \<Rightarrow> bool" where
  "after_call s s' \<longleftrightarrow> set (ss_seen s') = {fs_nodes (ss_fs s), fs_nodes (ss_fs s')} \<union> set (ss_seen s)
     \<and> ss_temporaryParent s' = ss_temporaryParent s \<and> ss_outputParent s' = ss_outputParent s
     \<and> ss_outputFD s' = ss_outputFD s \<and> ss_inputFD s' = ss_inputFD s"

lemma quiet_call:
  assumes "quiet os" "call_with os fault f s = (s', r)"
  shows "after_call s s'" "case r of None \<Rightarrow> ss_fs s' = ss_fs s | Some a \<Rightarrow> f (ss_fs s) = Some (ss_fs s', a)"
  using assms(1) by (rule_tac [!] call_cases[OF assms(2)]) (auto simp: quiet_def after_call_def split: option.splits)

lemma valid_quiet_sys:
  assumes "quiet os"
    and "\<And>s s'. P s \<Longrightarrow> after_call s s' \<Longrightarrow> ss_fs s' = ss_fs s \<Longrightarrow> Q None s'"
    and "\<And>s s' a. P s \<Longrightarrow> after_call s s' \<Longrightarrow> f (ss_fs s) = Some (ss_fs s', a) \<Longrightarrow> Q (Some a) s'"
  shows "valid P (sys os f) Q E"
  unfolding valid_def
proof (intro allI impI)
  fix s assume P: "P s"
  obtain s' r where run: "call_with os (os_fault os (ss_calls s)) f s = (s', r)"
    by (cases "call_with os (os_fault os (ss_calls s)) f s")
  have "Q r s'" using quiet_call[OF assms(1) run] assms(2,3)[OF P] by (cases r) auto
  then show "case sys os f s of (s', Returns a) \<Rightarrow> Q a s' | (s', Throws e) \<Rightarrow> E s' | (s', Hangs) \<Rightarrow> E s'"
    using run by (simp add: sys_def)
qed

lemma valid_some: "valid (\<lambda>s. case r of None \<Rightarrow> E s | Some a \<Rightarrow> Q a s) (op_some e r) Q E"
  by (cases r) (auto simp: valid_def op_some_def op_check_def)

lemma valid_quiet_op_sys:
  assumes "quiet os"
    and "\<And>s s'. P s \<Longrightarrow> after_call s s' \<Longrightarrow> ss_fs s' = ss_fs s \<Longrightarrow> E s'"
    and "\<And>s s' a. P s \<Longrightarrow> after_call s s' \<Longrightarrow> f (ss_fs s) = Some (ss_fs s', a) \<Longrightarrow> Q a s'"
  shows "valid P (op_sys os e f) Q E"
  unfolding op_sys_def
  by (rule valid_bind[OF valid_quiet_sys[OF assms(1)] valid_some]) (use assms(2,3) in auto)

lemma valid_get: "(\<And>s. valid (\<lambda>x. x = s \<and> P x) (f s) Q E) \<Longrightarrow> valid P (op_bind op_get f) Q E"
  by (simp add: valid_def op_bind_def op_get_def)

lemma valid_set: "(\<And>s. P s \<Longrightarrow> Q () (f s)) \<Longrightarrow> valid P (op_set f) Q E"
  by (simp add: valid_def op_set_def)

section \<open>Disposal\<close>

text \<open>What all views have in common, and what holds of the last one.\<close>

definition shown :: "(nodes \<Rightarrow> bool) \<Rightarrow> (nodes \<Rightarrow> bool) \<Rightarrow> file_session \<Rightarrow> bool" where
  "shown P Q s \<longleftrightarrow> (\<forall>v \<in> set (ss_seen s). P v) \<and> P (fs_nodes (ss_fs s)) \<and> Q (fs_nodes (ss_fs s))"

lemma shown_after: "after_call s s' \<Longrightarrow> shown P Q s \<Longrightarrow> P (fs_nodes (ss_fs s')) \<Longrightarrow> Q (fs_nodes (ss_fs s')) \<Longrightarrow> shown P Q s'"
  by (auto simp: shown_def after_call_def)

text \<open>A property of views that removing the names of the session respects.\<close>

definition stable :: "string \<Rightarrow> file_system \<Rightarrow> (nodes \<Rightarrow> bool) \<Rightarrow> bool" where
  "stable tmp fs0 P \<longleftrightarrow>
     (\<forall>v d n. P v \<longrightarrow> is_directory v d \<longrightarrow> n = tmp \<or> fs_next fs0 \<le> d \<longrightarrow> P (drop_entry v d n))"

lemma stable_kept: "stable tmp fs0 (kept tmp fs0)"
  and stable_replaced: "stable tmp fs0 (replaced tmp fs0 p name k c)"
  and stable_or: "stable tmp fs0 P \<Longrightarrow> stable tmp fs0 Q \<Longrightarrow> stable tmp fs0 (\<lambda>v. P v \<or> Q v)"
  unfolding stable_def using differs_drop replaced_drop by blast+

definition fresh_parent :: "file_system \<Rightarrow> file_session \<Rightarrow> bool" where
  "fresh_parent fs0 s \<longleftrightarrow>
     (\<forall>t d. ss_temporaryParent s = Some t \<longrightarrow> dir_of (ss_fs s) t = Some d \<longrightarrow> fs_next fs0 \<le> d)"

lemma shown_unlink:
  assumes "shown P Q s" "after_call s s'" "fs_unlinkat fd n b (ss_fs s) = Some (ss_fs s', u)"
    and "stable tmp fs0 P" "stable tmp fs0 Q" "n = tmp \<or> (\<forall>d. dir_of (ss_fs s) fd = Some d \<longrightarrow> fs_next fs0 \<le> d)"
  shows "shown P Q s'"
proof -
  obtain d where d: "dir_of (ss_fs s) fd = Some d" "fs_nodes (ss_fs s') = drop_entry (fs_nodes (ss_fs s)) d n"
    using unlink_nodes[OF assms(3)] by auto
  then have "P (fs_nodes (ss_fs s'))" "Q (fs_nodes (ss_fs s'))"
    using assms(1,4-6) by (auto simp: shown_def stable_def dir_of_Some)
  then show ?thesis using shown_after assms(1,2) by blast
qed

lemma shown_same: "shown P Q s \<Longrightarrow> after_call s s' \<Longrightarrow> fs_nodes (ss_fs s') = fs_nodes (ss_fs s) \<Longrightarrow> shown P Q s'"
  by (rule shown_after) (auto simp: shown_def)

lemma close_nodes: "fs_close fd fs = Some (fs', u) \<Longrightarrow> fs_nodes fs' = fs_nodes fs"
  by (auto simp: fs_close_def split: if_splits)

lemma shown_closeAll:
  assumes "quiet os"
  shows "keeps (shown P Q) (closeAll os)"
proof -
  have "keeps (shown P Q) (sys os (fs_close fd))" for fd
    by (rule valid_quiet_sys[OF assms]) (auto intro: shown_same dest: close_nodes)
  then have "keeps (shown P Q) (close_each os fds)" for fds
    by (induction fds) (auto intro!: keeps_calls)
  then show ?thesis unfolding closeAll_def
    by (intro keeps_calls keeps_set) (auto simp: shown_def)
qed

lemma shown_cleanup:
  assumes "quiet os" "stable tmp fs0 P" "stable tmp fs0 Q"
  shows "valid (\<lambda>s. shown P Q s \<and> fresh_parent fs0 s) (cleanup os tmp) (\<lambda>_. shown P Q) (shown P Q)"
proof -
  have data: "valid (\<lambda>x. x = s \<and> shown P Q x \<and> fresh_parent fs0 x) (sys os (fs_unlinkat fd ''data'' False)) (\<lambda>_. shown P Q) E"
    if t: "ss_temporaryParent s = Some fd" for s fd E
  proof (rule valid_quiet_sys[OF assms(1)])
    show "shown P Q s'" if "x = s \<and> shown P Q x \<and> fresh_parent fs0 x" "after_call x s'" "ss_fs s' = ss_fs x" for x s'
      by (rule shown_same[OF _ that(2)]) (use that in auto)
    show "shown P Q s'" if "x = s \<and> shown P Q x \<and> fresh_parent fs0 x" "after_call x s'"
      "fs_unlinkat fd ''data'' False (ss_fs x) = Some (ss_fs s', u)" for x s' u
      using that(1) t by (intro shown_unlink[OF _ that(2,3) assms(2,3)]) (auto simp: fresh_parent_def)
  qed
  have tmp: "keeps (shown P Q) (sys os (fs_unlinkat fd tmp True))" for fd
  proof (rule valid_quiet_sys[OF assms(1)])
    show "shown P Q s'" if "shown P Q x" "after_call x s'" "ss_fs s' = ss_fs x" for x s'
      using shown_same[of P Q x s'] that by simp
    show "shown P Q s'" if "shown P Q x" "after_call x s'"
      "fs_unlinkat fd tmp True (ss_fs x) = Some (ss_fs s', u)" for x s' u
      using shown_unlink[OF that assms(2,3)] by simp
  qed
  show ?thesis unfolding cleanup_def
  proof (rule valid_get, rule valid_bind[where Q = "\<lambda>_. shown P Q"])
    show "valid (\<lambda>x. x = s \<and> shown P Q x \<and> fresh_parent fs0 x)
        (case ss_temporaryParent s of
                Some fd \<Rightarrow> if ss_committed s then op_return ()
                           else op_bind (sys os (fs_unlinkat fd ''data'' False)) (\<lambda>_. op_return ())
              | None \<Rightarrow> op_return ()) (\<lambda>_. shown P Q) (shown P Q)" for s
      by (auto split: option.split simp: valid_def[of _ "op_return ()"] op_return_def intro: valid_bind[OF data keeps_return])
  qed (auto intro!: keeps_calls tmp shown_closeAll[OF assms(1)] split: option.split)
qed

section \<open>Looking around\<close>

text \<open>Calls that open, read and test what is there.\<close>

definition holds :: "file_system \<Rightarrow> fd \<Rightarrow> ino \<Rightarrow> bool" where
  "holds fs fd i \<longleftrightarrow> (\<exists>pos. fs_fds fs fd = Some (i, pos))"

definition looks :: "(file_system \<Rightarrow> (file_system \<times> 'a) option) \<Rightarrow> bool" where
  "looks f \<longleftrightarrow> (\<forall>fs fs' a. well_linked fs \<longrightarrow> f fs = Some (fs', a) \<longrightarrow>
     well_linked fs' \<and> fs_nodes fs' = fs_nodes fs \<and> fs_next fs' = fs_next fs
     \<and> (\<forall>fd i. holds fs fd i \<longrightarrow> holds fs' fd i))"

lemma new_fd_looks:
  assumes "well_linked fs" "i < fs_next fs" "new_fd fs i = (fs', fd)"
  shows "well_linked fs' \<and> fs_nodes fs' = fs_nodes fs \<and> fs_next fs' = fs_next fs
    \<and> (\<forall>fd i. holds fs fd i \<longrightarrow> holds fs' fd i)" "holds fs' fd i" "\<not> holds fs fd j"
  using well_linked_new_fd[OF assms] linked_fresh_fd[OF assms(1)] assms(3)
  by (auto simp: new_fd_def holds_def)

lemma openat_old:
  assumes "fs_openat cr parent name kind mode fs = Some (fs', fd)" "kind \<noteq> OpenNew"
  shows "\<exists>d i. dir_of fs parent = Some d \<and> lookup (fs_nodes fs) d [name] = Some i \<and> entry (fs_nodes fs) d name = Some i
    \<and> new_fd fs i = (fs', fd)"
  using assms by (auto simp: fs_openat_def split: option.splits if_splits node.splits)

lemma looks_openat: "kind \<noteq> OpenNew \<Longrightarrow> looks (fs_openat cr parent name kind mode)"
  unfolding looks_def
proof (intro allI impI)
  fix fs fs' a assume old: "kind \<noteq> OpenNew" and fs: "well_linked fs" and run: "fs_openat cr parent name kind mode fs = Some (fs', a)"
  obtain d i where "entry (fs_nodes fs) d name = Some i" "new_fd fs i = (fs', a)" using openat_old[OF run old] by (elim exE conjE)
  from new_fd_looks(1)[OF fs linkedD(1)[OF fs this(1)] this(2)] show "well_linked fs' \<and> fs_nodes fs' = fs_nodes fs
    \<and> fs_next fs' = fs_next fs \<and> (\<forall>fd i. holds fs fd i \<longrightarrow> holds fs' fd i)" .
qed

lemma open_root_new:
  assumes "well_linked fs" "fs_open_root fs = Some (fs', fd)"
  shows "root_ino < fs_next fs" "new_fd fs root_ino = (fs', fd)"
proof -
  show "root_ino < fs_next fs" using linkedD(2)[OF assms(1), of root_ino] assms(2)
    by (cases "root_ino < fs_next fs") (auto simp: fs_open_root_def is_directory_def)
  show "new_fd fs root_ino = (fs', fd)" using assms(2) by (auto simp: fs_open_root_def split: if_splits)
qed

lemma looks_open_root: "looks fs_open_root"
  unfolding looks_def
proof (intro allI impI)
  fix fs fs' a assume fs: "well_linked fs" and run: "fs_open_root fs = Some (fs', a)"
  note new = open_root_new[OF fs run]
  from new_fd_looks(1)[OF fs new] show "well_linked fs' \<and> fs_nodes fs' = fs_nodes fs \<and> fs_next fs' = fs_next fs
     \<and> (\<forall>fd i. holds fs fd i \<longrightarrow> holds fs' fd i)" .
qed

lemma looks_same: "looks (fs_fcntl fd)" "looks (fs_fstat fd)" "looks (read_fs g)"
  by (auto simp: looks_def fs_fcntl_def fs_fstat_def read_fs_def split: option.splits if_splits)

lemmas looks_rules = looks_openat looks_open_root looks_same

text \<open>
  A session under which nothing has changed, with the parents it has opened (where \<open>F\<close> says which) and
  what some of its descriptors stand for.
\<close>

definition unaltered ::
  "file_system \<Rightarrow> (fd option \<times> fd option) option \<Rightarrow> (fd \<times> ino) set \<Rightarrow> file_session \<Rightarrow> bool" where
  "unaltered fs0 F H s \<longleftrightarrow>
     well_linked (ss_fs s) \<and> fs_nodes (ss_fs s) = fs_nodes fs0 \<and> fs_next (ss_fs s) = fs_next fs0
     \<and> (\<forall>v \<in> set (ss_seen s). v = fs_nodes fs0)
     \<and> (\<forall>t p. F = Some (t, p) \<longrightarrow> ss_temporaryParent s = t \<and> ss_outputParent s = p)
     \<and> (\<forall>(fd, i) \<in> H. holds (ss_fs s) fd i)"

lemma unaltered_mono: "unaltered fs0 F H s \<Longrightarrow> H' \<subseteq> H \<Longrightarrow> unaltered fs0 F H' s"
  unfolding unaltered_def by blast

lemma unaltered_same: "unaltered fs0 F H s \<Longrightarrow> after_call s s' \<Longrightarrow> ss_fs s' = ss_fs s \<Longrightarrow> unaltered fs0 F H s'"
  by (auto simp: unaltered_def after_call_def)

lemma unaltered_look:
  assumes "unaltered fs0 F H s" "after_call s s'" "looks f" "f (ss_fs s) = Some (ss_fs s', a)"
  shows "unaltered fs0 F H s'"
proof -
  have "well_linked (ss_fs s') \<and> fs_nodes (ss_fs s') = fs_nodes (ss_fs s) \<and> fs_next (ss_fs s') = fs_next (ss_fs s)
     \<and> (\<forall>fd i. holds (ss_fs s) fd i \<longrightarrow> holds (ss_fs s') fd i)"
    using assms(1,3,4) unfolding looks_def unaltered_def by blast
  then show ?thesis using assms(1,2) by (auto simp: unaltered_def after_call_def)
qed

lemma unaltered_set:
  "unaltered fs0 F H s \<Longrightarrow> ss_fs s' = ss_fs s \<Longrightarrow> ss_seen s' = ss_seen s
     \<Longrightarrow> (\<And>t p. F' = Some (t, p) \<Longrightarrow> ss_temporaryParent s' = t \<and> ss_outputParent s' = p) \<Longrightarrow> unaltered fs0 F' H s'"
  by (auto simp: unaltered_def)

lemma valid_ex:
  assumes "\<And>i. valid (P i) m Q E"
  shows "valid (\<lambda>s. \<exists>i. P i s) m Q E"
proof (unfold valid_def, intro allI impI)
  fix s assume "\<exists>i. P i s"
  then obtain i where "P i s" by blast
  then show "case m s of (s', Returns a) \<Rightarrow> Q a s' | (s', Throws e) \<Rightarrow> E s' | (s', Hangs) \<Rightarrow> E s'"
    using assms[of i] by (simp add: valid_def)
qed

lemma valid_pure:
  assumes "A \<Longrightarrow> valid P m Q E"
  shows "valid (\<lambda>s. A \<and> P s) m Q E"
  using assms by (cases A) (simp_all add: valid_def)

lemma keeps_look: "quiet os \<Longrightarrow> looks f \<Longrightarrow> keeps (unaltered fs0 F H) (op_sys os e f)"
  by (rule valid_quiet_op_sys) (auto intro: unaltered_same unaltered_look)

lemma valid_look:
  assumes "quiet os" "looks f" "\<And>H s. unaltered fs0 F H s \<Longrightarrow> E s"
  shows "valid (unaltered fs0 F H) (op_sys os e f) (\<lambda>_. unaltered fs0 F H) E"
  by (rule valid_weaken[OF keeps_look[OF assms(1,2)]]) (use assms(3) in auto)

lemma keeps_look_sys: "quiet os \<Longrightarrow> looks f \<Longrightarrow> keeps (unaltered fs0 F H) (sys os f)"
  by (rule valid_quiet_sys) (auto intro: unaltered_same unaltered_look)

lemma unaltered_paths:
  assumes "quiet os"
  shows "keeps (unaltered fs0 F H) (op_realpath os p)" "keeps (unaltered fs0 F H) (op_exists os p)"
    "keeps (unaltered fs0 F H) (assertExists os cwd i base)" "keeps (unaltered fs0 F H) (resolveOutputPath os cwd out base)"
  unfolding op_realpath_def op_exists_def assertExists_def resolveOutputPath_def Let_def
  using assms by (auto intro!: keeps_calls keeps_look keeps_look_sys looks_rules)

lemma valid_openat:
  assumes "quiet os" "kind \<noteq> OpenNew" "(parent, d) \<in> H" "\<And>H s. unaltered fs0 F H s \<Longrightarrow> E s"
  shows "valid (unaltered fs0 F H) (op_sys os e (fs_openat cr parent name kind mode))
    (\<lambda>fd s. \<exists>i. (lookup (fs_nodes fs0) d [name] = Some i \<and> fd \<notin> fst ` H) \<and> unaltered fs0 F (insert (fd, i) H) s) E"
proof (rule valid_quiet_op_sys[OF assms(1)])
  show "E s'" if "unaltered fs0 F H s" "after_call s s'" "ss_fs s' = ss_fs s" for s s'
    using assms(4) unaltered_same[OF that] by blast
  fix s s' fd assume s: "unaltered fs0 F H s" "after_call s s'"
    and run: "fs_openat cr parent name kind mode (ss_fs s) = Some (ss_fs s', fd)"
  obtain d' i where open_at: "dir_of (ss_fs s) parent = Some d'" "lookup (fs_nodes (ss_fs s)) d' [name] = Some i"
      "entry (fs_nodes (ss_fs s)) d' name = Some i" "new_fd (ss_fs s) i = (ss_fs s', fd)"
    using openat_old[OF run assms(2)] by blast
  have linked: "well_linked (ss_fs s)" and held: "holds (ss_fs s) parent d" "\<And>fd j. (fd, j) \<in> H \<Longrightarrow> holds (ss_fs s) fd j"
    using s(1) assms(3) by (auto simp: unaltered_def)
  then have "d' = d" using open_at(1) by (auto simp: dir_of_Some holds_def)
  note new = new_fd_looks[OF linked linkedD(1)[OF linked open_at(3)] open_at(4)]
  have "fd \<notin> fst ` H" using held(2) new(3) by force
  moreover have "unaltered fs0 F H s'" by (rule unaltered_look[OF s looks_openat[OF assms(2)] run])
  ultimately show "\<exists>i. (lookup (fs_nodes fs0) d [name] = Some i \<and> fd \<notin> fst ` H) \<and> unaltered fs0 F (insert (fd, i) H) s'"
    using open_at(2) new(2) s(1) \<open>d' = d\<close> by (intro exI[of _ i]) (auto simp: unaltered_def simp del: lookup.simps)
qed

lemma valid_openChild:
  assumes "quiet os" "kind \<noteq> OpenNew" "(parent, d) \<in> H" "\<And>H s. unaltered fs0 F H s \<Longrightarrow> E s"
  shows "valid (unaltered fs0 F H) (openChild os parent name kind mode)
    (\<lambda>fd s. \<exists>i. lookup (fs_nodes fs0) d [name] = Some i \<and> unaltered fs0 F (insert (fd, i) H) s) E"
proof -
  have rest: "valid (unaltered fs0 F (insert (fd, i) H))
      (op_bind (op_set (\<lambda>s. s\<lparr>ss_descriptors := ss_descriptors s @ [fd]\<rparr>)) (\<lambda>_.
       op_bind (op_sys os (file_failure ''descriptor inheritance protection'') (fs_fcntl fd)) (\<lambda>_. op_return fd)))
      (\<lambda>fd s. \<exists>i. lookup (fs_nodes fs0) d [name] = Some i \<and> unaltered fs0 F (insert (fd, i) H) s) E"
    if "lookup (fs_nodes fs0) d [name] = Some i" for fd i
  proof -
    have "valid (unaltered fs0 F (insert (fd, i) H)) (op_set (\<lambda>s. s\<lparr>ss_descriptors := ss_descriptors s @ [fd]\<rparr>))
        (\<lambda>_. unaltered fs0 F (insert (fd, i) H)) E"
      by (rule valid_set) (auto simp: unaltered_def)
    moreover have "valid (unaltered fs0 F (insert (fd, i) H)) (op_sys os (file_failure ''descriptor inheritance protection'') (fs_fcntl fd))
        (\<lambda>_. unaltered fs0 F (insert (fd, i) H)) E"
      by (rule valid_look[OF assms(1) looks_same(1) assms(4)])
    moreover have "valid (unaltered fs0 F (insert (fd, i) H)) (op_return fd)
        (\<lambda>fd s. \<exists>i. lookup (fs_nodes fs0) d [name] = Some i \<and> unaltered fs0 F (insert (fd, i) H) s) E"
      using that by (auto simp: valid_def op_return_def simp del: lookup.simps)
    ultimately show ?thesis by (intro valid_bind)
  qed
  show ?thesis unfolding openChild_def
    by (rule valid_bind[OF valid_openat[OF assms]]) (auto intro!: valid_ex valid_pure rest simp del: lookup.simps)
qed

lemma lookup_Cons: "lookup v d (c # cs) = (case lookup v d [c] of None \<Rightarrow> None | Some i \<Rightarrow> lookup v i cs)"
  by (simp split: option.split node.split)

lemma valid_open_below:
  assumes "quiet os" "(fd, d) \<in> H" "\<And>H s. unaltered fs0 F H s \<Longrightarrow> E s"
  shows "valid (unaltered fs0 F H) (open_below os fd parts)
    (\<lambda>fd s. \<exists>i. lookup (fs_nodes fs0) d parts = Some i \<and> unaltered fs0 F (insert (fd, i) H) s) E"
  using assms(2)
proof (induction parts arbitrary: fd d H)
  case Nil
  then show ?case by (auto simp: valid_def op_return_def insert_absorb)
next
  case (Cons c parts)
  have below: "valid (unaltered fs0 F (insert (child, i) H)) (open_below os child parts)
      (\<lambda>fd s. \<exists>i. lookup (fs_nodes fs0) d (c # parts) = Some i \<and> unaltered fs0 F (insert (fd, i) H) s) E"
    if i: "lookup (fs_nodes fs0) d [c] = Some i" for child i
  proof (rule valid_weaken[OF Cons.IH[of child i "insert (child, i) H"]])
    show "\<exists>j. lookup (fs_nodes fs0) d (c # parts) = Some j \<and> unaltered fs0 F (insert (fd, j) H) s"
      if "\<exists>j. lookup (fs_nodes fs0) i parts = Some j \<and> unaltered fs0 F (insert (fd, j) (insert (child, i) H)) s" for fd s
    proof -
      have "unaltered fs0 F (insert (fd, j) (insert (child, i) H)) s \<Longrightarrow> unaltered fs0 F (insert (fd, j) H) s" for j
        by (erule unaltered_mono) blast
      then show ?thesis using that i by (auto simp: lookup_Cons[of _ d c parts] simp del: lookup.simps)
    qed
  qed simp_all
  have opened: "valid (unaltered fs0 F H) (openChild os fd c OpenDirectory 0)
      (\<lambda>fd s. \<exists>i. lookup (fs_nodes fs0) d [c] = Some i \<and> unaltered fs0 F (insert (fd, i) H) s) E"
    by (rule valid_openChild[OF assms(1) _ Cons.prems assms(3)]) simp
  show ?case unfolding open_below.simps
    by (rule valid_bind[OF opened], rule valid_ex, rule valid_pure, rule below)
qed

lemma valid_openParent:
  assumes "quiet os" "\<And>H s. unaltered fs0 F H s \<Longrightarrow> E s"
  shows "valid (unaltered fs0 F H) (openParent os filename)
    (\<lambda>fd s. \<exists>i. lookup (fs_nodes fs0) root_ino (butlast filename) = Some i \<and> unaltered fs0 F (insert (fd, i) H) s) E"
proof -
  have "valid (unaltered fs0 F H) (op_sys os system_error fs_open_root)
      (\<lambda>fd. unaltered fs0 F (insert (fd, root_ino) H)) E"
  proof (rule valid_quiet_op_sys[OF assms(1)])
    show "E s'" if "unaltered fs0 F H s" "after_call s s'" "ss_fs s' = ss_fs s" for s s'
      using assms(2) unaltered_same[OF that] by blast
    fix s s' fd assume s: "unaltered fs0 F H s" "after_call s s'" and run: "fs_open_root (ss_fs s) = Some (ss_fs s', fd)"
    have linked: "well_linked (ss_fs s)" using s(1) by (simp add: unaltered_def)
    have "holds (ss_fs s') fd root_ino" by (rule new_fd_looks(2)[OF linked open_root_new[OF linked run]])
    then show "unaltered fs0 F (insert (fd, root_ino) H) s'"
      using unaltered_look[OF s looks_open_root run] by (auto simp: unaltered_def)
  qed
  moreover have "valid (unaltered fs0 F G) (op_set (\<lambda>s. s\<lparr>ss_descriptors := ss_descriptors s @ [fd]\<rparr>))
      (\<lambda>_. unaltered fs0 F G) E" for fd G
    by (rule valid_set) (auto simp: unaltered_def)
  moreover have "valid (unaltered fs0 F (insert (fd, root_ino) H)) (open_below os fd (butlast filename))
      (\<lambda>fd s. \<exists>i. lookup (fs_nodes fs0) root_ino (butlast filename) = Some i \<and> unaltered fs0 F (insert (fd, i) H) s) E"
    for fd
    by (rule valid_weaken[OF valid_open_below[OF assms(1) _ assms(2), of fd root_ino "insert (fd, root_ino) H"]])
      (auto intro: unaltered_mono)
  ultimately show ?thesis unfolding openParent_def by (intro valid_bind)
qed

text \<open>The input and the parent of the output are open.\<close>

definition parent_open :: "file_system \<Rightarrow> fd \<Rightarrow> ino \<Rightarrow> file_session \<Rightarrow> bool" where
  "parent_open fs0 fd p = unaltered fs0 (Some (None, Some fd)) {(fd, p)}"

definition idle_session :: "file_system \<Rightarrow> file_session \<Rightarrow> bool" where
  "idle_session fs0 s \<longleftrightarrow> (\<exists>fd. unaltered fs0 (Some (None, fd)) {} s)"

lemma unaltered_idle: "unaltered fs0 (Some (None, fd)) H s \<Longrightarrow> idle_session fs0 s"
  unfolding idle_session_def using unaltered_mono by blast

lemma valid_open_input:
  assumes "quiet os"
  shows "valid (unaltered fs0 (Some (None, None)) {}) (open_input os input output)
    (\<lambda>(source, fd) s. \<exists>p. lookup (fs_nodes fs0) root_ino (butlast output) = Some p \<and> parent_open fs0 fd p s)
    (idle_session fs0)"
proof -
  let ?N = "fs_nodes fs0" and ?E = "idle_session fs0"
  let ?F = "\<lambda>fd. Some (None, Some fd)"
  have source: "valid (unaltered fs0 (?F op) H) (op_bind (op_sys os system_error (fs_fstat fd)) (\<lambda>(source, node, mode, owner).
       op_bind (op_check (throw_if (\<not> is_file node) (file_failure ''input type validation''))) (\<lambda>_.
       op_return (source, op)))) (\<lambda>(source, fd) s. \<exists>p. lookup ?N root_ino (butlast output) = Some p \<and> parent_open fs0 fd p s) ?E"
    if "lookup ?N root_ino (butlast output) = Some p" "(op, p) \<in> H" for op p fd H
  proof -
    have look: "valid (unaltered fs0 (?F op) H) (op_sys os system_error (fs_fstat fd)) (\<lambda>_. unaltered fs0 (?F op) H) ?E"
      by (rule valid_look[OF assms looks_same(2) unaltered_idle])
    have check: "valid (unaltered fs0 (?F op) H) (op_check c) (\<lambda>_. unaltered fs0 (?F op) H) ?E" for c :: "px_error + unit"
      by (cases c) (auto simp: valid_def op_check_def intro: unaltered_idle)
    have result: "valid (unaltered fs0 (?F op) H) (op_return (source, op))
        (\<lambda>(source, fd) s. \<exists>p. lookup ?N root_ino (butlast output) = Some p \<and> parent_open fs0 fd p s) ?E" for source :: ino
      using that unaltered_mono by (auto simp: valid_def op_return_def parent_open_def)
    show ?thesis
      by (rule valid_bind[OF look]) (simp only: split_def, rule valid_bind[OF check result[unfolded split_def]])
  qed
  have read: "valid (unaltered fs0 (?F op) H) (op_bind (openChild os ip (basename input) OpenRead 0) (\<lambda>inputFD.
      op_bind (op_set (\<lambda>s. s\<lparr>ss_inputFD := inputFD\<rparr>)) (\<lambda>_.
      op_bind (op_sys os system_error (fs_fstat inputFD)) (\<lambda>(source, node, mode, owner).
       op_bind (op_check (throw_if (\<not> is_file node) (file_failure ''input type validation''))) (\<lambda>_.
       op_return (source, op)))))) (\<lambda>(source, fd) s. \<exists>p. lookup ?N root_ino (butlast output) = Some p \<and> parent_open fs0 fd p s) ?E"
    if "lookup ?N root_ino (butlast output) = Some p" "(op, p) \<in> H" "(ip, d) \<in> H" for op p ip d H
  proof -
    have opened: "valid (unaltered fs0 (?F op) H) (openChild os ip (basename input) OpenRead 0)
        (\<lambda>fd s. \<exists>i. lookup ?N d [basename input] = Some i \<and> unaltered fs0 (?F op) (insert (fd, i) H) s) ?E"
      by (rule valid_openChild[OF assms _ that(3) unaltered_idle]) simp
    have "valid (unaltered fs0 (?F op) (insert (fd, i) H)) (op_set (\<lambda>s. s\<lparr>ss_inputFD := fd\<rparr>))
        (\<lambda>_. unaltered fs0 (?F op) (insert (fd, i) H)) ?E" for fd i
      by (rule valid_set) (auto simp: unaltered_def)
    from valid_bind[OF this source[OF that(1), of op "insert (_, _) H"]] that(2)
    have rest: "valid (unaltered fs0 (?F op) (insert (fd, i) H)) (op_bind (op_set (\<lambda>s. s\<lparr>ss_inputFD := fd\<rparr>)) (\<lambda>_.
      op_bind (op_sys os system_error (fs_fstat fd)) (\<lambda>(source, node, mode, owner).
       op_bind (op_check (throw_if (\<not> is_file node) (file_failure ''input type validation''))) (\<lambda>_.
       op_return (source, op))))) (\<lambda>(source, fd) s. \<exists>p. lookup ?N root_ino (butlast output) = Some p \<and> parent_open fs0 fd p s) ?E"
      for fd i
      by simp
    show ?thesis by (rule valid_bind[OF opened], rule valid_ex, rule valid_pure, rule rest)
  qed
  have set: "valid (unaltered fs0 (Some (None, None)) H) (op_set (\<lambda>s. s\<lparr>ss_outputParent := Some op\<rparr>))
      (\<lambda>_. unaltered fs0 (?F op) H) ?E" for op H
    by (rule valid_set) (auto simp: unaltered_def)
  have parent: "valid (unaltered fs0 (Some (None, None)) H) (openParent os filename) (\<lambda>fd s. \<exists>i.
      lookup ?N root_ino (butlast filename) = Some i \<and> unaltered fs0 (Some (None, None)) (insert (fd, i) H) s) ?E" for H filename
    by (rule valid_openParent[OF assms unaltered_idle])
  show ?thesis unfolding open_input_def
    by (rule valid_bind[OF parent], rule valid_ex, rule valid_pure, rule valid_bind[OF parent], rule valid_ex,
        rule valid_pure, rule valid_bind[OF set], rule read) auto
qed

lemma keeps_close_other:
  assumes "quiet os" "fd \<noteq> op"
  shows "keeps (unaltered fs0 F {(op, p)}) (op_sys os e (fs_close fd))"
proof (rule valid_quiet_op_sys[OF assms(1)])
  fix s s' u assume s: "unaltered fs0 F {(op, p)} s" "after_call s s'" and run: "fs_close fd (ss_fs s) = Some (ss_fs s', u)"
  have closed_fd: "ss_fs s' = (ss_fs s)\<lparr>fs_fds := (fs_fds (ss_fs s))(fd := None)\<rparr>"
    using run by (auto simp: fs_close_def split: if_splits)
  have "well_linked (ss_fs s')" using grows_close run s(1) unfolding grows_def unaltered_def by blast
  moreover have "holds (ss_fs s') op p" "fs_nodes (ss_fs s') = fs_nodes (ss_fs s)" "fs_next (ss_fs s') = fs_next (ss_fs s)"
    using s(1) assms(2) by (auto simp: closed_fd unaltered_def holds_def)
  ultimately show "unaltered fs0 F {(op, p)} s'" using s by (auto simp: unaltered_def after_call_def)
qed (rule unaltered_same)

lemma valid_check_alias:
  assumes "quiet os"
  shows "valid (parent_open fs0 op p) (check_alias os source op name) (\<lambda>_. parent_open fs0 op p) (idle_session fs0)"
proof -
  let ?U = "unaltered fs0 (Some (None, Some op)) {(op, p)}"
  have "valid ?U (sys os (fs_openat (os_credentials os) op name OpenRead 0))
      (\<lambda>r s. (case r of None \<Rightarrow> True | Some fd \<Rightarrow> fd \<noteq> op) \<and> ?U s) (idle_session fs0)"
  proof (rule valid_quiet_sys[OF assms])
    fix s s' fd assume s: "?U s" "after_call s s'"
      and run: "fs_openat (os_credentials os) op name OpenRead 0 (ss_fs s) = Some (ss_fs s', fd)"
    have linked: "well_linked (ss_fs s)" and op: "holds (ss_fs s) op p" using s(1) by (auto simp: unaltered_def)
    obtain d i where "entry (fs_nodes (ss_fs s)) d name = Some i" "new_fd (ss_fs s) i = (ss_fs s', fd)"
      using openat_old[OF run open_kind.distinct(5)] by (elim exE conjE)
    from new_fd_looks(3)[OF linked linkedD(1)[OF linked this(1)] this(2), of p] op have "fd \<noteq> op" by auto
    then show "(case Some fd of None \<Rightarrow> True | Some fd \<Rightarrow> fd \<noteq> op) \<and> ?U s'"
      using unaltered_look[OF s looks_openat run] by simp
  qed (auto intro: unaltered_same)
  moreover have "valid (\<lambda>s. (case r of None \<Rightarrow> True | Some fd \<Rightarrow> fd \<noteq> op) \<and> ?U s)
      (case r of None \<Rightarrow> op_return ()
       | Some fd \<Rightarrow> op_finally (op_bind (op_sys os system_error (fs_fstat fd)) (\<lambda>(target, node, mode, owner).
            op_check (throw_if (source = target) same_files))) (op_sys os system_error (fs_close fd)))
      (\<lambda>_. ?U) (idle_session fs0)" for r
  proof (cases r)
    case (Some fd)
    have "keeps ?U (op_finally (op_bind (op_sys os system_error (fs_fstat fd)) (\<lambda>(target, node, mode, owner).
            op_check (throw_if (source = target) same_files))) (op_sys os system_error (fs_close fd)))" if "fd \<noteq> op"
      using assms that by (auto intro!: keeps_calls keeps_look looks_rules keeps_close_other simp: split_def)
    then show ?thesis unfolding Some
      by (simp only: option.case, intro valid_pure) (rule valid_weaken, assumption?, auto intro: unaltered_idle)
  qed (auto simp: valid_def op_return_def)
  ultimately show ?thesis unfolding check_alias_def parent_open_def by (rule valid_bind)
qed

end
