(* ===== verification/Atomic_Effect.thy ===== *)
theory Atomic_Effect
  imports Atomic_Replacement
begin

text \<open>
  The steps of a session that change the file system, and what a whole session has done to it at the end.
\<close>

section \<open>The private directory and the new file\<close>

text \<open>
  A session that has changed only what it has created: the parent of the output \<open>p\<close> behind \<open>fd\<close>, the
  private directory \<open>T\<close>, what the descriptors \<open>H\<close> stand for, and \<open>V\<close> of the file system as it is.
\<close>

definition altered ::
  "string \<Rightarrow> file_system \<Rightarrow> fd \<Rightarrow> ino \<Rightarrow> fd option \<Rightarrow> (fd \<times> ino) set \<Rightarrow> (nodes \<Rightarrow> bool) \<Rightarrow> file_session \<Rightarrow> bool" where
  "altered tmp fs0 fd p T H V s \<longleftrightarrow>
     well_linked (ss_fs s) \<and> fs_next fs0 \<le> fs_next (ss_fs s) \<and> shown (kept tmp fs0) V s
     \<and> p < fs_next fs0 \<and> holds (ss_fs s) fd p \<and> ss_outputParent s = Some fd \<and> ss_temporaryParent s = T
     \<and> (\<forall>t. T = Some t \<longrightarrow> (\<exists>d \<ge> fs_next fs0. holds (ss_fs s) t d))
     \<and> (\<forall>(fd, i) \<in> H. holds (ss_fs s) fd i)"

lemma alteredD:
  assumes "altered tmp fs0 fd p T H V s"
  shows "well_linked (ss_fs s)" "fs_next fs0 \<le> fs_next (ss_fs s)" "p < fs_next fs0" "holds (ss_fs s) fd p"
    "ss_outputParent s = Some fd" "ss_temporaryParent s = T" "shown (kept tmp fs0) V s"
    "\<And>t. T = Some t \<Longrightarrow> \<exists>d \<ge> fs_next fs0. holds (ss_fs s) t d" "\<And>fd i. (fd, i) \<in> H \<Longrightarrow> holds (ss_fs s) fd i"
  using assms unfolding altered_def by blast+

lemma alteredI:
  assumes "well_linked (ss_fs s)" "fs_next fs0 \<le> fs_next (ss_fs s)" "p < fs_next fs0" "holds (ss_fs s) fd p"
    "ss_outputParent s = Some fd" "ss_temporaryParent s = T" "shown (kept tmp fs0) V s"
    "\<And>t. T = Some t \<Longrightarrow> \<exists>d \<ge> fs_next fs0. holds (ss_fs s) t d" "\<And>fd i. (fd, i) \<in> H \<Longrightarrow> holds (ss_fs s) fd i"
  shows "altered tmp fs0 fd p T H V s"
  using assms unfolding altered_def by blast

lemma holds_unique: "holds fs fd i \<Longrightarrow> holds fs fd j \<Longrightarrow> i = j"
  by (auto simp: holds_def)

lemma dir_of_holds: "dir_of fs fd = Some d \<Longrightarrow> holds fs fd i \<Longrightarrow> d = i"
  by (auto simp: dir_of_Some holds_def)

lemma altered_same: "altered tmp fs0 fd p T H V s \<Longrightarrow> after_call s s' \<Longrightarrow> ss_fs s' = ss_fs s \<Longrightarrow> altered tmp fs0 fd p T H V s'"
  using shown_same[of "kept tmp fs0" V s s'] by (simp add: altered_def after_call_def)

lemma altered_step:
  assumes "altered tmp fs0 fd p T H V s" "after_call s s'" "grows f" "f (ss_fs s) = Some (ss_fs s', a)"
    and "\<And>fd i. holds (ss_fs s) fd i \<Longrightarrow> holds (ss_fs s') fd i"
    and "kept tmp fs0 (fs_nodes (ss_fs s'))" "V' (fs_nodes (ss_fs s'))"
  shows "altered tmp fs0 fd p T H V' s'"
proof -
  note old = alteredD[OF assms(1)]
  have next_le: "well_linked (ss_fs s')" "fs_next (ss_fs s) \<le> fs_next (ss_fs s')"
    using assms(3,4) old(1) unfolding grows_def by blast+
  show ?thesis
  proof (rule alteredI)
    show "fs_next fs0 \<le> fs_next (ss_fs s')" using next_le(2) old(2) by simp
    show "shown (kept tmp fs0) V' s'" using assms(2,6,7) old(7) by (simp add: shown_def after_call_def)
    show "ss_outputParent s' = Some fd" "ss_temporaryParent s' = T"
      using assms(2) old(5,6) by (simp_all add: after_call_def)
    show "\<exists>d\<ge>fs_next fs0. holds (ss_fs s') t d" if t: "T = Some t" for t
    proof -
      obtain d where "fs_next fs0 \<le> d" "holds (ss_fs s) t d" using old(8)[OF t] by (elim exE conjE)
      from this(1) assms(5)[OF this(2)] show ?thesis by (intro exI conjI)
    qed
  qed (fact next_le(1), fact old(3), rule assms(5)[OF old(4)], erule assms(5)[OF old(9)])
qed

lemma looks_grows:
  assumes "looks f"
  shows "grows f"
  unfolding grows_def
proof (intro allI impI)
  fix fs fs' a assume "well_linked fs" "f fs = Some (fs', a)"
  then have "well_linked fs'" "fs_next fs' = fs_next fs" using assms unfolding looks_def by blast+
  then show "well_linked fs' \<and> fs_next fs \<le> fs_next fs'" by simp
qed

lemma altered_look:
  assumes "altered tmp fs0 fd p T H V s" "after_call s s'" "looks f" "f (ss_fs s) = Some (ss_fs s', a)"
  shows "altered tmp fs0 fd p T H V s'"
proof -
  have look: "fs_nodes (ss_fs s') = fs_nodes (ss_fs s)" "\<And>fd i. holds (ss_fs s) fd i \<Longrightarrow> holds (ss_fs s') fd i"
    using assms(1,3,4) unfolding looks_def altered_def by blast+
  have "kept tmp fs0 (fs_nodes (ss_fs s'))" "V (fs_nodes (ss_fs s'))"
    using assms(1) by (simp_all add: look(1) altered_def shown_def)
  with look(2) show ?thesis by (rule altered_step[OF assms(1,2) looks_grows[OF assms(3)] assms(4)])
qed

lemma altered_mono: "altered tmp fs0 fd p T H V s \<Longrightarrow> H' \<subseteq> H \<Longrightarrow> (\<And>v. V v \<Longrightarrow> V' v) \<Longrightarrow> altered tmp fs0 fd p T H' V' s"
  unfolding altered_def shown_def by blast

definition resting :: "string \<Rightarrow> file_system \<Rightarrow> file_session \<Rightarrow> bool" where
  "resting tmp fs0 s \<longleftrightarrow> shown (kept tmp fs0) (\<lambda>_. True) s \<and> fresh_parent fs0 s"

lemma altered_resting:
  assumes "altered tmp fs0 fd p T H V s"
  shows "resting tmp fs0 s"
proof -
  have "fs_next fs0 \<le> d" if t: "ss_temporaryParent s = Some t" "dir_of (ss_fs s) t = Some d" for t d
  proof -
    obtain d' where "fs_next fs0 \<le> d'" "holds (ss_fs s) t d'"
      using alteredD(8)[OF assms, of t] alteredD(6)[OF assms] t(1) by auto
    then show ?thesis using dir_of_holds[OF t(2)] by simp
  qed
  then show ?thesis using assms by (simp add: resting_def fresh_parent_def altered_def shown_def)
qed

lemma idle_resting: "idle_session fs0 s \<Longrightarrow> resting tmp fs0 s"
  by (auto simp: idle_session_def unaltered_def resting_def shown_def fresh_parent_def kept_refl)

lemma parent_altered:
  assumes "parent_open fs0 fd p s"
  shows "altered tmp fs0 fd p None {} (\<lambda>_. True) s"
proof -
  have s: "unaltered fs0 (Some (None, Some fd)) {(fd, p)} s" using assms by (simp add: parent_open_def)
  then have "p < fs_next (ss_fs s)" unfolding unaltered_def holds_def
    using linkedD(3)[of "ss_fs s" fd p] by auto
  then show ?thesis using s by (auto simp: unaltered_def altered_def shown_def kept_refl)
qed

lemma valid_altered_look:
  assumes "quiet os" "looks f"
  shows "valid (altered tmp fs0 fd p T H V) (op_sys os e f) (\<lambda>_. altered tmp fs0 fd p T H V) (resting tmp fs0)"
  by (rule valid_quiet_op_sys[OF assms(1)])
    (blast intro: altered_resting altered_same, blast intro: altered_look assms(2))

lemma valid_altered_set:
  assumes "\<And>s. ss_fs (f s) = ss_fs s" "\<And>s. ss_seen (f s) = ss_seen s"
    "\<And>s. ss_outputParent (f s) = ss_outputParent s" "\<And>s. ss_temporaryParent (f s) = ss_temporaryParent s"
  shows "valid (altered tmp fs0 fd p T H V) (op_set f) (\<lambda>_. altered tmp fs0 fd p T H V) E"
  by (rule valid_set) (simp add: altered_def shown_def assms)

text \<open>After \<open>openat\<close>, the rest of \<open>openChild\<close>.\<close>

lemma valid_child:
  assumes "quiet os"
    and "valid P (op_sys os (file_failure ''relative open'') (fs_openat (os_credentials os) parent name kind mode))
      (\<lambda>x s. \<exists>i. A i \<and> altered tmp fs0 fd p T (insert (x, i) H) (V i) s) (resting tmp fs0)"
  shows "valid P (openChild os parent name kind mode)
      (\<lambda>x s. \<exists>i. A i \<and> altered tmp fs0 fd p T (insert (x, i) H) (V i) s) (resting tmp fs0)"
proof -
  have rest: "valid (altered tmp fs0 fd p T (insert (x, i) H) (V i))
      (op_bind (op_set (\<lambda>s. s\<lparr>ss_descriptors := ss_descriptors s @ [x]\<rparr>)) (\<lambda>_.
       op_bind (op_sys os (file_failure ''descriptor inheritance protection'') (fs_fcntl x)) (\<lambda>_. op_return x)))
      (\<lambda>x s. \<exists>i. A i \<and> altered tmp fs0 fd p T (insert (x, i) H) (V i) s) (resting tmp fs0)" if "A i" for x i
  proof -
    have "valid (altered tmp fs0 fd p T (insert (x, i) H) (V i)) (op_return x)
      (\<lambda>x s. \<exists>i. A i \<and> altered tmp fs0 fd p T (insert (x, i) H) (V i) s) (resting tmp fs0)"
      using that by (auto simp: valid_def op_return_def)
    from valid_bind[OF valid_altered_look[OF assms(1) looks_same(1)] this] show ?thesis
      by (intro valid_bind[OF valid_altered_set]) simp_all
  qed
  show ?thesis unfolding openChild_def by (rule valid_bind[OF assms(2)], rule valid_ex, rule valid_pure, rule rest)
qed

text \<open>A new node below a directory of the session, or under the name of the temporary directory.\<close>

lemma kept_new_node:
  assumes "kept tmp fs0 (fs_nodes fs)" "fs_next fs0 \<le> fs_next fs" "is_directory (fs_nodes fs) d" "d < fs_next fs"
    and "name = tmp \<or> fs_next fs0 \<le> d"
  shows "kept tmp fs0 (fs_nodes (new_node cr mode node d name fs))"
    and "entry (fs_nodes (new_node cr mode node d name fs)) d name = Some (fs_next fs)"
proof -
  have "is_directory ((fs_nodes fs)(fs_next fs \<mapsto> node)) d" using assms(3,4) by (simp add: is_directory_upd)
  from differs_add[OF differs_new_node[OF assms(1,2)] this assms(5)]
  show "kept tmp fs0 (fs_nodes (new_node cr mode node d name fs))" by (simp add: new_node_def Let_def)
qed (simp add: new_node_def Let_def)

lemma holds_new_node [simp]: "holds (new_node cr mode node d name fs) fd i \<longleftrightarrow> holds fs fd i"
  by (simp add: holds_def new_node_def Let_def)

lemma valid_mkdir:
  assumes "quiet os"
  shows "valid (altered tmp fs0 fd p None {} (\<lambda>_. True))
    (op_sys os (file_failure ''temporary directory creation'') (fs_mkdirat (os_credentials os) fd tmp 448))
    (\<lambda>_ s. \<exists>i. fs_next fs0 \<le> i \<and> altered tmp fs0 fd p None {} (\<lambda>v. entry v p tmp = Some i) s) (resting tmp fs0)"
proof (rule valid_quiet_op_sys[OF assms])
  let ?A = "altered tmp fs0 fd p None {}"
  show "resting tmp fs0 s'" if "?A (\<lambda>_. True) s" "after_call s s'" "ss_fs s' = ss_fs s" for s s'
    using altered_same[OF that] by (rule altered_resting)
  fix s s' :: file_session and u :: unit
  assume s: "?A (\<lambda>_. True) s" "after_call s s'" and run: "fs_mkdirat (os_credentials os) fd tmp 448 (ss_fs s) = Some (ss_fs s', u)"
  obtain d where d: "dir_of (ss_fs s) fd = Some d"
    and new: "ss_fs s' = new_node (os_credentials os) 448 (Directory []) d tmp (ss_fs s)"
    using run by (auto simp: fs_mkdirat_def split: option.splits if_splits)
  have "d = p" using dir_of_holds[OF d] s(1) by (simp add: altered_def)
  moreover have "kept tmp fs0 (fs_nodes (ss_fs s))" "fs_next fs0 \<le> fs_next (ss_fs s)" "d < fs_next (ss_fs s)"
    using s(1) well_linked_dir[OF _ d] by (auto simp: altered_def shown_def)
  moreover have "is_directory (fs_nodes (ss_fs s)) d" using d by (simp add: dir_of_Some)
  ultimately show "\<exists>i. fs_next fs0 \<le> i \<and> ?A (\<lambda>v. entry v p tmp = Some i) s'"
    by (intro exI[of _ "fs_next (ss_fs s)"] conjI altered_step[OF s grows_mkdirat run])
      (simp_all add: new kept_new_node)
qed

lemma valid_open_private:
  assumes "quiet os" "fs_next fs0 \<le> j"
  shows "valid (altered tmp fs0 fd p None {} (\<lambda>v. entry v p tmp = Some j))
    (openChild os fd tmp OpenDirectory 0)
    (\<lambda>t s. \<exists>d. fs_next fs0 \<le> d \<and> altered tmp fs0 fd p None (insert (t, d) {}) (\<lambda>v. True) s) (resting tmp fs0)"
proof (rule valid_child[OF assms(1)], rule valid_quiet_op_sys[OF assms(1)])
  let ?A = "altered tmp fs0 fd p None {} (\<lambda>v. entry v p tmp = Some j)"
  show "resting tmp fs0 s'" if "?A s" "after_call s s'" "ss_fs s' = ss_fs s" for s s'
    using altered_same[OF that] by (rule altered_resting)
  fix s s' :: file_session and t
  assume s: "?A s" "after_call s s'" and run: "fs_openat (os_credentials os) fd tmp OpenDirectory 0 (ss_fs s) = Some (ss_fs s', t)"
  have old: "OpenDirectory \<noteq> OpenNew" by simp
  obtain d i where d: "dir_of (ss_fs s) fd = Some d" and i: "entry (fs_nodes (ss_fs s)) d tmp = Some i"
      and new: "new_fd (ss_fs s) i = (ss_fs s', t)"
    using openat_old[OF run old] by (elim exE conjE)
  have linked: "well_linked (ss_fs s)" and "entry (fs_nodes (ss_fs s)) p tmp = Some j" "d = p"
    using s(1) dir_of_holds[OF d] by (auto simp: altered_def shown_def)
  then have "i = j" using i by simp
  have "holds (ss_fs s') t j" using new_fd_looks(2)[OF linked linkedD(1)[OF linked i] new] \<open>i = j\<close> by simp
  then show "\<exists>d. fs_next fs0 \<le> d \<and> altered tmp fs0 fd p None (insert (t, d) {}) (\<lambda>v. True) s'"
    using altered_look[OF s looks_openat[OF old] run] assms(2)
    by (intro exI[of _ j]) (simp add: altered_def shown_def)
qed

lemma valid_open_data:
  assumes "quiet os" "fs_next fs0 \<le> d"
  shows "valid (altered tmp fs0 fd p (Some t) {(t, d)} (\<lambda>_. True))
    (openChild os t ''data'' OpenNew 384)
    (\<lambda>x s. \<exists>k. fs_next fs0 \<le> k \<and> altered tmp fs0 fd p (Some t) (insert (x, k) {(t, d)})
       (\<lambda>v. entry v d ''data'' = Some k) s) (resting tmp fs0)"
proof (rule valid_child[OF assms(1)], rule valid_quiet_op_sys[OF assms(1)])
  let ?A = "altered tmp fs0 fd p (Some t) {(t, d)}"
  show "resting tmp fs0 s'" if "?A (\<lambda>_. True) s" "after_call s s'" "ss_fs s' = ss_fs s" for s s'
    using altered_same[OF that] by (rule altered_resting)
  fix s s' :: file_session and x
  let ?k = "fs_next (ss_fs s)"
  assume s: "?A (\<lambda>_. True) s" "after_call s s'" and run: "fs_openat (os_credentials os) t ''data'' OpenNew 384 (ss_fs s) = Some (ss_fs s', x)"
  obtain d' where d': "dir_of (ss_fs s) t = Some d'"
      and fd: "new_fd (new_node (os_credentials os) 384 (Regular []) d' ''data'' (ss_fs s)) ?k = (ss_fs s', x)"
    using openNew_node[OF run] by auto
  have "d' = d" using dir_of_holds[OF d'] s(1) by (auto simp: altered_def)
  have fs: "well_linked (ss_fs s)" "kept tmp fs0 (fs_nodes (ss_fs s))" "fs_next fs0 \<le> ?k"
    using s(1) by (auto simp: altered_def shown_def)
  have d: "d < ?k" "is_directory (fs_nodes (ss_fs s)) d"
    using well_linked_dir[OF fs(1) d'] d' \<open>d' = d\<close> by (auto simp: dir_of_Some)
  let ?fs = "new_node (os_credentials os) 384 (Regular []) d ''data'' (ss_fs s)"
  have linked: "well_linked ?fs" "?k < fs_next ?fs" using well_linked_new_node[OF fs(1) d(1)] by simp_all
  note new = new_fd_looks[OF linked fd[unfolded \<open>d' = d\<close>]]
  have "kept tmp fs0 (fs_nodes (ss_fs s'))" "entry (fs_nodes (ss_fs s')) d ''data'' = Some ?k"
    using kept_new_node[OF fs(2,3) d(2,1) disjI2[OF assms(2)]] new(1) by simp_all
  moreover have "holds (ss_fs s') y i" if "holds (ss_fs s) y i" for y i using that new(1) by simp
  ultimately have "?A (\<lambda>v. entry v d ''data'' = Some ?k) s'"
    by (intro altered_step[OF s grows_openat run]) simp_all
  then show "\<exists>k. fs_next fs0 \<le> k \<and> altered tmp fs0 fd p (Some t) (insert (x, k) {(t, d)})
       (\<lambda>v. entry v d ''data'' = Some k) s'"
    using fs(3) new(2) by (intro exI[of _ ?k]) (simp add: altered_def)
qed

section \<open>An open session\<close>

text \<open>The private directory \<open>d\<close> links the new file \<open>k\<close>, which is behind \<open>outputFD\<close>.\<close>

definition staged :: "string \<Rightarrow> file_system \<Rightarrow> fd \<Rightarrow> ino \<Rightarrow> ino \<Rightarrow> ino \<Rightarrow> file_session \<Rightarrow> bool" where
  "staged tmp fs0 fd p k d s \<longleftrightarrow> fs_next fs0 \<le> k \<and> fs_next fs0 \<le> d
     \<and> (\<exists>t. altered tmp fs0 fd p (Some t) {(ss_outputFD s, k), (t, d)} (\<lambda>v. entry v d ''data'' = Some k) s)"

lemma staged_resting: "staged tmp fs0 fd p k d s \<Longrightarrow> resting tmp fs0 s"
  unfolding staged_def using altered_resting by blast

lemma valid_open_temporary:
  assumes "quiet os"
  shows "valid (parent_open fs0 fd p) (open_temporary os tmp fd) (\<lambda>_ s. \<exists>k d. staged tmp fs0 fd p k d s) (resting tmp fs0)"
proof -
  let ?A = "altered tmp fs0 fd p" and ?E = "resting tmp fs0" and ?Q = "\<lambda>(_ :: unit) s. \<exists>k d. staged tmp fs0 fd p k d s"
  have out: "valid (?A (Some t) {(x, k), (t, d)} (\<lambda>v. entry v d ''data'' = Some k)) (op_set (\<lambda>s. s\<lparr>ss_outputFD := x\<rparr>)) ?Q ?E"
    if "fs_next fs0 \<le> k" "fs_next fs0 \<le> d" for t x k d
  proof (rule valid_set)
    fix s assume "?A (Some t) {(x, k), (t, d)} (\<lambda>v. entry v d ''data'' = Some k) s"
    then have "staged tmp fs0 fd p k d (s\<lparr>ss_outputFD := x\<rparr>)"
      unfolding staged_def altered_def shown_def using that by auto
    then show "\<exists>k d. staged tmp fs0 fd p k d (s\<lparr>ss_outputFD := x\<rparr>)" by blast
  qed
  have data: "valid (?A (Some t) {(t, d)} (\<lambda>_. True))
      (op_bind (openChild os t ''data'' OpenNew 384) (\<lambda>x. op_set (\<lambda>s. s\<lparr>ss_outputFD := x\<rparr>))) ?Q ?E"
    if "fs_next fs0 \<le> d" for t d
    by (rule valid_bind[OF valid_open_data[OF assms that]], rule valid_ex, rule valid_pure, rule out[OF _ that])
  have check: "valid (?A T H V) (op_check c) (\<lambda>_. ?A T H V) ?E" for T H V and c :: "px_error + unit"
    by (cases c) (auto simp: valid_def op_check_def intro: altered_resting)
  have stat: "valid (?A (Some t) {(t, d)} (\<lambda>_. True))
      (op_bind (op_sys os system_error (fs_fstat t)) (\<lambda>(i, node, mode, owner).
       op_bind (op_check (throw_if (mode AND 63 \<noteq> 0 \<or> owner \<noteq> cr_euid (os_credentials os))
         (file_failure ''temporary directory permissions''))) (\<lambda>_.
       op_bind (openChild os t ''data'' OpenNew 384) (\<lambda>x. op_set (\<lambda>s. s\<lparr>ss_outputFD := x\<rparr>))))) ?Q ?E"
    if "fs_next fs0 \<le> d" for t d
    by (rule valid_bind[OF valid_altered_look[OF assms looks_same(2)]])
      (simp only: split_def, rule valid_bind[OF check data[OF that]])
  have parent: "valid (?A None {(t, d)} (\<lambda>_. True)) (op_set (\<lambda>s. s\<lparr>ss_temporaryParent := Some t\<rparr>))
      (\<lambda>_. ?A (Some t) {(t, d)} (\<lambda>_. True)) ?E" if "fs_next fs0 \<le> d" for t d
    by (rule valid_set) (use that in \<open>auto simp: altered_def shown_def\<close>)
  have created: "valid (?A None {} V) (op_set (\<lambda>s. s\<lparr>ss_temporaryCreated := True\<rparr>)) (\<lambda>_. ?A None {} V) ?E" for V
    by (rule valid_altered_set) simp_all
  have mkdir: "valid (parent_open fs0 fd p)
    (op_sys os (file_failure ''temporary directory creation'') (fs_mkdirat (os_credentials os) fd tmp 448))
    (\<lambda>_ s. \<exists>i. fs_next fs0 \<le> i \<and> ?A None {} (\<lambda>v. entry v p tmp = Some i) s) ?E"
    by (rule valid_weaken[OF valid_mkdir[OF assms]]) (auto intro: parent_altered)
  show ?thesis unfolding open_temporary_def
    by (rule valid_bind[OF mkdir], rule valid_ex, rule valid_pure, rule valid_bind[OF created],
        rule valid_bind[OF valid_open_private[OF assms]], assumption, rule valid_ex, rule valid_pure,
        rule valid_bind[OF parent], assumption, rule stat)
qed

lemma valid_rollback:
  assumes "valid P m Q E" "valid E f (\<lambda>_. E') E'" "\<And>s. E s \<Longrightarrow> E' s"
  shows "valid P (op_rollback m f) Q E'"
  unfolding valid_def
proof (intro allI impI)
  fix s assume "P s"
  obtain s1 r where m: "m s = (s1, r)" by (cases "m s")
  have r: "case r of Returns a \<Rightarrow> Q a s1 | Throws e \<Rightarrow> E s1 | Hangs \<Rightarrow> E s1"
    using assms(1) \<open>P s\<close> m by (auto simp: valid_def split: flow.splits)
  show "case op_rollback m f s of (s', Returns a) \<Rightarrow> Q a s' | (s', Throws e) \<Rightarrow> E' s' | (s', Hangs) \<Rightarrow> E' s'"
  proof (cases r)
    case (Throws e)
    obtain s2 r2 where f: "f s1 = (s2, r2)" by (cases "f s1")
    have "case f s1 of (s', Returns a) \<Rightarrow> E' s' | (s', Throws e) \<Rightarrow> E' s' | (s', Hangs) \<Rightarrow> E' s'"
      using assms(2) r Throws unfolding valid_def by simp
    then have "E' s2" using f by (cases r2) simp_all
    then show ?thesis using m f Throws
      by (cases r2) (simp_all add: op_rollback_def op_bind_def op_throw_def op_check_def)
  qed (use m r assms(3) in \<open>simp_all add: op_rollback_def\<close>)
qed

definition nothing_changed :: "string \<Rightarrow> file_system \<Rightarrow> file_session \<Rightarrow> bool" where
  "nothing_changed tmp fs0 = shown (kept tmp fs0) (\<lambda>_. True)"

lemma resting_nothing: "resting tmp fs0 s \<Longrightarrow> nothing_changed tmp fs0 s"
  by (simp add: resting_def nothing_changed_def)

lemma rest_cleanup:
  assumes "quiet os"
  shows "valid (resting tmp fs0) (cleanup os tmp) (\<lambda>_. nothing_changed tmp fs0) (nothing_changed tmp fs0)"
  unfolding nothing_changed_def
  by (rule valid_weaken[OF shown_cleanup[OF assms stable_kept, of tmp fs0 "\<lambda>_. True"]])
    (auto simp: resting_def stable_def)

lemma valid_openPosix:
  assumes "quiet os"
  shows "valid (unaltered fs0 None {}) (openPosix os uuid input output)
    (\<lambda>_ s. \<exists>fd p k d. lookup (fs_nodes fs0) root_ino (butlast output) = Some p
       \<and> staged (temporary_name uuid) fs0 fd p k d s)
    (nothing_changed (temporary_name uuid) fs0)"
proof -
  let ?tmp = "temporary_name uuid"
  let ?Q = "\<lambda>(_ :: unit) s. \<exists>fd p k d. lookup (fs_nodes fs0) root_ino (butlast output) = Some p \<and> staged ?tmp fs0 fd p k d s"
  have new: "valid (unaltered fs0 None {}) (op_set new_session) (\<lambda>_. unaltered fs0 (Some (None, None)) {}) E" for E
    by (rule valid_set) (auto simp: unaltered_def new_session_def)
  have input: "valid (unaltered fs0 (Some (None, None)) {}) (open_input os input output)
    (\<lambda>(source, fd) s. \<exists>p. lookup (fs_nodes fs0) root_ino (butlast output) = Some p \<and> parent_open fs0 fd p s) (resting ?tmp fs0)"
    by (rule valid_weaken[OF valid_open_input[OF assms]]) (auto intro: idle_resting)
  have other: "valid (parent_open fs0 fd p) (check_alias os source fd name) (\<lambda>_. parent_open fs0 fd p) (resting ?tmp fs0)"
    for fd p source name
    by (rule valid_weaken[OF valid_check_alias[OF assms]]) (auto intro: idle_resting)
  have temporary: "valid (parent_open fs0 fd p) (open_temporary os ?tmp fd) ?Q (resting ?tmp fs0)"
    if "lookup (fs_nodes fs0) root_ino (butlast output) = Some p" for fd p
    by (rule valid_weaken[OF valid_open_temporary[OF assms]]) (use that in blast)+
  have body: "valid (unaltered fs0 (Some (None, None)) {})
      (op_bind (open_input os input output) (\<lambda>(source, fd).
        op_bind (check_alias os source fd (basename output)) (\<lambda>_. open_temporary os ?tmp fd))) ?Q (resting ?tmp fs0)"
    by (rule valid_bind[OF input]) (simp only: split_def, rule valid_ex, rule valid_pure,
        rule valid_bind[OF other], rule temporary)
  show ?thesis unfolding openPosix_def
    by (rule valid_bind[OF new], rule valid_rollback[OF body rest_cleanup[OF assms] resting_nothing])
qed

lemma valid_open_session:
  assumes "quiet os"
  shows "valid (unaltered fs0 None {}) (openAtomicFileSession os cwd uuid i out base)
    (\<lambda>(input, output) s. \<exists>fd p k d. lookup (fs_nodes fs0) root_ino (butlast output) = Some p
       \<and> staged (temporary_name uuid) fs0 fd p k d s)
    (nothing_changed (temporary_name uuid) fs0)"
proof -
  let ?U = "unaltered fs0 None {}" and ?E = "nothing_changed (temporary_name uuid) fs0"
  have E: "?U s \<Longrightarrow> ?E s" for s
    by (auto simp: unaltered_def nothing_changed_def shown_def kept_refl)
  have paths: "valid ?U (op_realpath os q) (\<lambda>_. ?U) ?E" "valid ?U (assertExists os cwd i b) (\<lambda>_. ?U) ?E"
    "valid ?U (resolveOutputPath os cwd out b) (\<lambda>_. ?U) ?E" for q b
    by (rule valid_weaken[OF unaltered_paths(1)[OF assms]] valid_weaken[OF unaltered_paths(3)[OF assms]]
        valid_weaken[OF unaltered_paths(4)[OF assms]]; use E in blast)+
  have check: "valid ?U (op_check c) (\<lambda>_. ?U) ?E" for c :: "px_error + unit"
    using E by (cases c) (auto simp: valid_def op_check_def)
  have result: "valid (\<lambda>s. \<exists>fd p k d. lookup (fs_nodes fs0) root_ino (butlast outp) = Some p
       \<and> staged (temporary_name uuid) fs0 fd p k d s) (op_return (input, outp))
    (\<lambda>(input, output) s. \<exists>fd p k d. lookup (fs_nodes fs0) root_ino (butlast output) = Some p
       \<and> staged (temporary_name uuid) fs0 fd p k d s) ?E" for input outp
    by (simp add: valid_def op_return_def)
  show ?thesis unfolding openAtomicFileSession_def
    by (rule valid_bind[OF paths(1)], rule valid_bind[OF paths(2)], rule valid_bind[OF paths(3)],
        rule valid_bind[OF check], rule valid_bind[OF valid_openPosix[OF assms]], rule result)
qed

section \<open>Writing, commit and disposal\<close>

lemma stagedE:
  assumes "staged tmp fs0 fd p k d s"
  obtains t where "fs_next fs0 \<le> k" "fs_next fs0 \<le> d"
    and "altered tmp fs0 fd p (Some t) {(ss_outputFD s, k), (t, d)} (\<lambda>v. entry v d ''data'' = Some k) s"
  using assms unfolding staged_def by blast

lemma staged_write:
  assumes "quiet os" "staged tmp fs0 fd p k d s" "sys_write os bytes s = (s', r)"
  shows "staged tmp fs0 fd p k d s'"
proof -
  obtain t where new: "fs_next fs0 \<le> k" "fs_next fs0 \<le> d"
    and s: "altered tmp fs0 fd p (Some t) {(ss_outputFD s, k), (t, d)} (\<lambda>v. entry v d ''data'' = Some k) s"
    by (rule stagedE[OF assms(2)])
  obtain s1 r1 fault bytes' where run: "call_with os fault (fs_write (ss_outputFD s) bytes') s = (s1, r1)"
    and s': "s' = s1\<lparr>ss_writes := ss_writes s1 + 1\<rparr>"
    using assms(3) by (auto simp: sys_write_def Let_def split: prod.splits)
  note call = quiet_call[OF assms(1) run]
  have "altered tmp fs0 fd p (Some t) {(ss_outputFD s, k), (t, d)} (\<lambda>v. entry v d ''data'' = Some k) s1"
  proof (cases r1)
    case None
    then show ?thesis using altered_same[OF s call(1)] call(2) by simp
  next
    case (Some u)
    then have w: "fs_write (ss_outputFD s) bytes' (ss_fs s) = Some (ss_fs s1, u)" using call(2) by simp
    obtain i pos b where i: "fs_fds (ss_fs s) (ss_outputFD s) = Some (i, pos)" "fs_nodes (ss_fs s) i = Some (Regular b)"
      and fs': "ss_fs s1 = (ss_fs s)\<lparr>fs_nodes := (fs_nodes (ss_fs s))(i \<mapsto> Regular (overwrite b pos bytes')),
        fs_fds := (fs_fds (ss_fs s))(ss_outputFD s \<mapsto> (i, pos + length bytes'))\<rparr>"
      using write_nodes[OF w] by blast
    have "i = k" using alteredD(9)[OF s, of "ss_outputFD s" k] i(1) by (simp add: holds_def)
    show ?thesis
    proof (rule altered_step[OF s call(1) grows_write w])
      show "holds (ss_fs s1) x j" if "holds (ss_fs s) x j" for x j
        using that i(1) by (auto simp: holds_def fs')
      show "kept tmp fs0 (fs_nodes (ss_fs s1))"
        using alteredD(7)[OF s] differs_new_node new(1) \<open>i = k\<close> by (simp add: fs' shown_def)
      show "entry (fs_nodes (ss_fs s1)) d ''data'' = Some k"
        using alteredD(7)[OF s] i(2) by (simp add: fs' shown_def entry_write)
    qed
  qed
  moreover have "ss_outputFD s1 = ss_outputFD s" using call(1) by (simp add: after_call_def)
  ultimately show ?thesis using new unfolding staged_def altered_def shown_def s' by auto
qed

lemma staged_writes:
  assumes "quiet os" "staged tmp fs0 fd p k d s"
  shows "staged tmp fs0 fd p k d (foldl (apply_write os) s fs)"
  using assms(2)
proof (induction fs arbitrary: s)
  case (Cons f fs)
  have "staged tmp fs0 fd p k d (apply_write os s f)"
  proof (cases f)
    case (Wrote bytes)
    then show ?thesis using staged_write[OF assms(1) Cons.prems] by (metis apply_write.simps(1) prod.collapse)
  qed (use Cons.prems in auto)
  then show ?case using Cons.IH by simp
qed simp

lemma staged_pipeline:
  assumes "quiet (fw_os w)" "staged tmp fs0 fd p k d (fl_files s)" "file_pipeline w r signal transforms s = (s', out)"
  shows "staged tmp fs0 fd p k d (fl_files s')"
  by (rule file_pipeline_files[OF assms(3)]) (simp add: apply_writes_def staged_writes[OF assms(1,2)])

text \<open>The views of a session that has been committed.\<close>

definition now_replaced :: "string \<Rightarrow> file_system \<Rightarrow> ino \<Rightarrow> string \<Rightarrow> ino \<Rightarrow> buffer \<Rightarrow> file_session \<Rightarrow> bool" where
  "now_replaced tmp fs0 p name k c =
     shown (\<lambda>v. kept tmp fs0 v \<or> replaced tmp fs0 p name k c v) (replaced tmp fs0 p name k c)"

lemma commit_replaces:
  assumes "quiet os" "staged tmp fs0 fd p k d s" "covered cr k d c s" "session_commit os output s = (s', out)"
  shows "case out of Returns _ \<Rightarrow> now_replaced tmp fs0 p (basename output) k c s' \<and> fresh_parent fs0 s' \<and> is_directory (fs_nodes fs0) p
    | _ \<Rightarrow> resting tmp fs0 s'"
proof -
  obtain t where new: "fs_next fs0 \<le> k" "fs_next fs0 \<le> d"
    and s: "altered tmp fs0 fd p (Some t) {(ss_outputFD s, k), (t, d)} (\<lambda>v. entry v d ''data'' = Some k) s"
    by (rule stagedE[OF assms(2)])
  let ?f = "fs_renameat t ''data'' fd (basename output)" and ?v = "fs_nodes (ss_fs s)"
  obtain s1 r where run: "call_with os (os_fault os (ss_calls s)) ?f s = (s1, r)"
    by (cases "call_with os (os_fault os (ss_calls s)) ?f s")
  note call = quiet_call[OF assms(1) run]
  consider (refused) e where "s' = s" "out = Throws e" | (failed) e where "s' = s1" "out = Throws e" "r = None"
    | (renamed) u where "s' = s1\<lparr>ss_committed := True\<rparr>" "out = Returns ()" "r = Some u"
    using assms(4) run alteredD(5,6)[OF s]
    by (cases "ss_disposed s \<or> ss_committed s"; cases r)
      (auto simp: session_commit_def op_bind_def op_get_def op_check_def throw_if_def op_sys_def sys_def op_some_def op_set_def)
  then show ?thesis
  proof cases
    case refused
    then show ?thesis using altered_resting[OF s] by simp
  next
    case failed
    then show ?thesis using altered_resting[OF altered_same[OF s call(1)]] call(2) by simp
  next
    case renamed
    have f: "?f (ss_fs s) = Some (ss_fs s1, u)" using call(2) renamed(3) by simp
    have held: "holds (ss_fs s) t d" "holds (ss_fs s) fd p" "p < fs_next fs0" "entry ?v d ''data'' = Some k" "kept tmp fs0 ?v"
      using alteredD(9)[OF s, of t d] alteredD(3,4,7)[OF s] by (simp_all add: shown_def)
    have dirs: "dir_of (ss_fs s) t = Some d" "dir_of (ss_fs s) fd = Some p"
      using f held(1,2) dir_of_holds by (auto simp: fs_renameat_def split: option.splits)
    have hidden: "concealed cr k d c (ss_fs s)" using assms(3) by (simp add: covered_def)
    then have "entry ?v p (basename output) \<noteq> Some k" using held(3) new(2) unfolding concealed_def by fastforce
    then have nodes: "ss_fs s1 = (ss_fs s)\<lparr>fs_nodes :=
        add_entry (drop_entry (drop_entry ?v d ''data'') p (basename output)) p (basename output) k\<rparr>"
      using f dirs held(4) by (auto simp: fs_renameat_def split: if_splits option.splits)
    have "file_bytes ?v k = Some c" using hidden by (simp add: concealed_def unveiled_def file_bytes_Some)
    then have rep: "replaced tmp fs0 p (basename output) k c (fs_nodes (ss_fs s1))"
      using rename_replaces[OF held(5) _ new(2)] dirs by (simp add: nodes dir_of_Some)
    have "\<forall>v \<in> set (ss_seen s1). kept tmp fs0 v \<or> replaced tmp fs0 p (basename output) k c v"
      using alteredD(7)[OF s] call(1) rep by (auto simp: shown_def after_call_def)
    moreover have "fresh_parent fs0 s1"
    proof -
      have "holds (ss_fs s1) t d" using held(1) by (simp add: nodes holds_def)
      then show ?thesis using call(1) alteredD(6)[OF s] new(2) dir_of_holds
        by (auto simp: fresh_parent_def after_call_def)
    qed
    moreover have "is_directory (fs_nodes fs0) p"
      using differs_directory[OF held(5) _ held(3)] dirs(2) by (simp add: dir_of_Some)
    ultimately show ?thesis using rep by (simp add: renamed now_replaced_def shown_def fresh_parent_def)
  qed
qed

lemma shown_dispose:
  assumes "quiet os" "stable tmp fs0 P" "stable tmp fs0 Q"
  shows "valid (\<lambda>s. shown P Q s \<and> fresh_parent fs0 s) (session_dispose os tmp) (\<lambda>_. shown P Q) (shown P Q)"
  unfolding session_dispose_def
proof (rule valid_get)
  fix s
  have disposed: "valid (\<lambda>s. shown P Q s \<and> fresh_parent fs0 s) (op_set (\<lambda>s. s\<lparr>ss_disposed := True\<rparr>))
      (\<lambda>_ s. shown P Q s \<and> fresh_parent fs0 s) E" for E
    by (rule valid_set) (simp add: shown_def fresh_parent_def)
  have rest: "valid (\<lambda>s. shown P Q s \<and> fresh_parent fs0 s)
      (op_bind (op_set (\<lambda>s. s\<lparr>ss_disposed := True\<rparr>)) (\<lambda>_. cleanup os tmp)) (\<lambda>_. shown P Q) (shown P Q)"
    by (rule valid_bind[OF disposed shown_cleanup[OF assms]])
  show "valid (\<lambda>x. x = s \<and> shown P Q x \<and> fresh_parent fs0 x)
      (if ss_disposed s then op_return ()
       else op_bind (op_set (\<lambda>s. s\<lparr>ss_disposed := True\<rparr>)) (\<lambda>_. cleanup os tmp)) (\<lambda>_. shown P Q) (shown P Q)"
    by (cases "ss_disposed s") (auto simp: valid_def[of _ "op_return ()"] op_return_def intro: valid_weaken[OF rest])
qed

text \<open>Disposing of a session always returns.\<close>

abbreviation returns :: "('s, 'a) step \<Rightarrow> bool" where
  "returns m \<equiv> valid (\<lambda>_. True) m (\<lambda>_ _. True) (\<lambda>_. False)"

lemma returns_calls:
  "returns (sys os f)" "returns (op_return a)" "returns (op_set g)" "returns op_get"
  "returns m \<Longrightarrow> (\<And>a. returns (h a)) \<Longrightarrow> returns (op_bind m h)"
proof -
  show "returns (sys os f)" by (simp add: valid_def sys_def map_prod_def split_def)
  show "returns (op_bind m h)" if "returns m" "\<And>a. returns (h a)" by (rule valid_bind[OF that])
qed (simp_all add: valid_def op_return_def op_set_def op_get_def)

lemma returns_dispose: "returns (session_dispose os tmp)"
proof -
  have "returns (close_each os fds)" for fds
    by (induction fds) (auto intro!: returns_calls)
  then have "returns (closeAll os)" unfolding closeAll_def by (intro returns_calls)
  then have "returns (cleanup os tmp)" unfolding cleanup_def
    by (intro returns_calls) (auto intro!: returns_calls split: option.split)
  then show ?thesis unfolding session_dispose_def by (auto intro!: returns_calls)
qed

section \<open>A whole session\<close>

lemma nothing_dispose:
  assumes "quiet os" "resting tmp fs0 s" "session_dispose os tmp s = (s', out)"
  shows "nothing_changed tmp fs0 s'"
proof -
  have "valid (resting tmp fs0) (session_dispose os tmp) (\<lambda>_. nothing_changed tmp fs0) (nothing_changed tmp fs0)"
    unfolding nothing_changed_def
    by (rule valid_weaken[OF shown_dispose[OF assms(1) stable_kept, of tmp fs0 "\<lambda>_. True"]])
      (auto simp: resting_def stable_def)
  then show ?thesis using assms(2,3) by (cases out) (auto simp: valid_def)
qed

lemma replaced_dispose:
  assumes "quiet os" "now_replaced tmp fs0 p name k c s" "fresh_parent fs0 s" "session_dispose os tmp s = (s', out)"
  shows "now_replaced tmp fs0 p name k c s'"
proof -
  note views = stable_or[OF stable_kept stable_replaced]
  have "valid (\<lambda>s. now_replaced tmp fs0 p name k c s \<and> fresh_parent fs0 s) (session_dispose os tmp)
      (\<lambda>_. now_replaced tmp fs0 p name k c) (now_replaced tmp fs0 p name k c)"
    unfolding now_replaced_def by (rule shown_dispose[OF assms(1) views stable_replaced])
  then show ?thesis using assms(2-4) by (cases out) (auto simp: valid_def)
qed

text \<open>Before the disposal, and at the end.\<close>

lemma body_effect:
  assumes "quiet (fw_os w)" "writing cr k d [] (fl_files s)" "cr = os_credentials (fw_os w)" "live (fl_files s)"
    and "staged tmp fs0 fd p k d (fl_files s)"
    and "op_bind (op_bind (on_run stages) (file_pipeline w r signal)) (\<lambda>a.
        op_bind (on_run (op_aborted signal)) (\<lambda>_.
        op_bind (on_files (session_commit (fw_os w) output)) (\<lambda>_. op_return a))) s = (s', res)"
  shows "case res of
      Returns items \<Rightarrow> \<exists>outs. items = map Chunk outs \<and> now_replaced tmp fs0 p (basename output) k (concat outs) (fl_files s')
        \<and> fresh_parent fs0 (fl_files s') \<and> is_directory (fs_nodes fs0) p
    | _ \<Rightarrow> resting tmp fs0 (fl_files s')"
proof -
  note others = quiet_ok[OF assms(1)]
  obtain s1 r1 where s1: "on_run stages s = (s1, r1)" by (cases "on_run stages s")
  note files1 = on_run_files[OF s1]
  have staged1: "staged tmp fs0 fd p k d (fl_files s1)" using assms(5) by (simp add: files1)
  show ?thesis
  proof (cases r1)
    case (Returns sts)
    obtain s2 r2 where s2: "file_pipeline w r signal sts s1 = (s2, r2)" by (cases "file_pipeline w r signal sts s1")
    have w: "writing cr k d [] (fl_files s1)" "\<not> ss_disposed (fl_files s1)"
      using assms(2,4) by (simp_all add: files1 live_def)
    note written = file_pipeline_writes[OF others assms(3) w s2]
    note staged2 = staged_pipeline[OF assms(1) staged1 s2]
    show ?thesis
    proof (cases r2)
      case r2: (Returns items)
      then obtain outs where outs: "items = map Chunk outs" "writing cr k d (concat outs) (fl_files s2)"
        using written by blast
      obtain s3 r3 where s3: "on_run (op_aborted signal) s2 = (s3, r3)" by (cases "on_run (op_aborted signal) s2")
      note files3 = on_run_files[OF s3]
      have rest3: "resting tmp fs0 (fl_files s3)" using staged_resting[OF staged2] by (simp add: files3)
      show ?thesis
      proof (cases r3)
        case r3: (Returns u)
        obtain s4 r4 where s4: "on_files (session_commit (fw_os w) output) s3 = (s4, r4)"
          by (cases "on_files (session_commit (fw_os w) output) s3")
        have "staged tmp fs0 fd p k d (fl_files s3)" "covered cr k d (concat outs) (fl_files s3)"
          using staged2 outs(2) by (simp_all add: files3 writing_def)
        note commit = commit_replaces[OF assms(1) this on_files_step[OF s4]]
        then show ?thesis using assms(6) s1 s2 s3 s4 Returns r2 r3 outs(1)
          by (cases r4) (auto simp: op_bind_def op_return_def)
      qed (use assms(6) s1 s2 s3 Returns r2 rest3 in \<open>auto simp: op_bind_def\<close>)
    qed (use assms(6) s1 s2 Returns staged_resting[OF staged2] in \<open>auto simp: op_bind_def\<close>)
  qed (use assms(6) s1 staged_resting[OF staged1] in \<open>auto simp: op_bind_def\<close>)
qed

lemma session_effect:
  assumes "quiet (fw_os w)" "writing cr k d [] (fl_files s)" "cr = os_credentials (fw_os w)" "live (fl_files s)"
    and "staged tmp fs0 fd p k d (fl_files s)" "tmp = temporary_name (fw_uuid w)"
    and "with_session w signal (op_bind (on_run stages) (file_pipeline w r signal)) output s = (s', res)"
  shows "case res of
      Returns items \<Rightarrow> \<exists>outs. items = map Chunk outs \<and> now_replaced tmp fs0 p (basename output) k (concat outs) (fl_files s')
        \<and> is_directory (fs_nodes fs0) p
    | _ \<Rightarrow> nothing_changed tmp fs0 (fl_files s')"
proof -
  let ?body = "op_bind (op_bind (on_run stages) (file_pipeline w r signal)) (\<lambda>a.
        op_bind (on_run (op_aborted signal)) (\<lambda>_.
        op_bind (on_files (session_commit (fw_os w) output)) (\<lambda>_. op_return a)))"
  let ?dispose = "on_files (session_dispose (fw_os w) tmp)"
  obtain s1 r1 where b: "?body s = (s1, r1)" by (cases "?body s")
  note body = body_effect[OF assms(1-5) b]
  obtain s2 r2 where d: "?dispose s1 = (s2, r2)" by (cases "?dispose s1")
  note step = on_files_step[OF d]
  have "case session_dispose (fw_os w) tmp (fl_files s1) of (s', Returns a) \<Rightarrow> True | (s', Throws e) \<Rightarrow> False | (s', Hangs) \<Rightarrow> False"
    using returns_dispose[of "fw_os w" tmp] by (simp add: valid_def)
  then have "r2 = Returns ()" using step by (cases r2) auto
  then have "res = r1" "s' = (if r1 = Hangs then s1 else s2)"
    using assms(6,7) b d unfolding with_session_def op_finally_def by (auto split: flow.splits)
  then show ?thesis
    using body nothing_dispose[OF assms(1) _ step] replaced_dispose[OF assms(1) _ _ step] resting_nothing
    by (cases r1) auto
qed

lemma session_one_step:
  assumes "quiet (fw_os w)" "well_linked (ss_fs (fl_files s))" "ss_seen (fl_files s) = []"
    and "withAtomicOutput w i out base signal (op_bind (on_run stages) (file_pipeline w r signal)) s = (s', res)"
    and "tmp = temporary_name (fw_uuid w)" "fs0 = ss_fs (fl_files s)"
  shows "case res of
      Returns items \<Rightarrow> \<exists>s1 input output p k outs.
        on_files (openAtomicFileSession (fw_os w) (fw_cwd w) (fw_uuid w) i out base) s = (s1, Returns (input, output))
        \<and> lookup (fs_nodes fs0) root_ino (butlast output) = Some p \<and> items = map Chunk outs
        \<and> is_directory (fs_nodes fs0) p \<and> fs_next fs0 \<le> k
        \<and> replaced tmp fs0 p (basename output) k (concat outs) (fs_nodes (ss_fs (fl_files s')))
        \<and> (\<forall>v \<in> set (ss_seen (fl_files s')). kept tmp fs0 v \<or> replaced tmp fs0 p (basename output) k (concat outs) v)
    | _ \<Rightarrow> kept tmp fs0 (fs_nodes (ss_fs (fl_files s'))) \<and> (\<forall>v \<in> set (ss_seen (fl_files s')). kept tmp fs0 v)"
proof -
  let ?os = "fw_os w"
  let ?open = "openAtomicFileSession ?os (fw_cwd w) (fw_uuid w) i out base"
  have start: "unaltered fs0 None {} (fl_files s)" "session_ok (fl_files s)"
    using assms(2,3,6) by (simp_all add: unaltered_def session_ok_def)
  note opens = valid_open_session[OF assms(1), of fs0 "fw_cwd w" "fw_uuid w" i out base]
  obtain s1 r1 where o: "on_files ?open s = (s1, r1)" by (cases "on_files ?open s")
  note step = on_files_step[OF o]
  show ?thesis
  proof (cases r1)
    case (Returns io)
    obtain input outp where io: "io = (input, outp)" by (cases io)
    have run: "with_session w signal (op_bind (on_run stages) (file_pipeline w r signal)) outp s1 = (s', res)"
      using assms(4) o Returns io by (simp add: withAtomicOutput_def op_bind_def)
    obtain fd p k d where p: "lookup (fs_nodes fs0) root_ino (butlast outp) = Some p"
      and st: "staged tmp fs0 fd p k d (fl_files s1)"
      using valid_Returns[OF opens start(1) step[unfolded Returns]] io assms(5) by auto
    obtain k' d' where op: "opened (os_credentials ?os) k' d' (fl_files s1)" "live (fl_files s1)"
      using session_opens[OF step[unfolded Returns io] quiet_ok[OF assms(1)] start(2)] by blast
    obtain t where t: "altered tmp fs0 fd p (Some t) {(ss_outputFD (fl_files s1), k), (t, d)}
        (\<lambda>v. entry v d ''data'' = Some k) (fl_files s1)"
      by (rule stagedE[OF st])
    have "k' = k" "d' = d"
      using op(1) alteredD(6)[OF t] alteredD(9)[OF t, of "ss_outputFD (fl_files s1)" k] alteredD(9)[OF t, of t d]
      by (auto simp: opened_def writing_def holds_def)
    then have "writing (os_credentials ?os) k d [] (fl_files s1)" using op(1) by (simp add: opened_def)
    note effect = session_effect[OF assms(1) this refl op(2) st assms(5) run]
    show ?thesis
    proof (cases res)
      case r: (Returns items)
      then obtain outs where "items = map Chunk outs" "is_directory (fs_nodes fs0) p"
          "now_replaced tmp fs0 p (basename outp) k (concat outs) (fl_files s')"
        using effect by auto
      moreover have "fs_next fs0 \<le> k" using st by (simp add: staged_def)
      ultimately show ?thesis using o Returns io p r unfolding now_replaced_def shown_def by auto
    qed (use effect in \<open>auto simp: nothing_changed_def shown_def\<close>)
  qed (use assms(4,5) o opens start(1) step in
      \<open>auto simp: withAtomicOutput_def op_bind_def valid_def nothing_changed_def shown_def\<close>)
qed

section \<open>Property\<close>

text \<open>C13: If no other process interferes, an atomic output has one effect or none, whatever calls the system
  refuses and however its reads and writes are cut.  When it returns, the name of the output in its directory
  is linked to a new file with the bytes that the pipeline handed on, and every view of the file system is
  that of before, or that of before with this one link; when it throws or hangs, every view is that of before.
  Files that were there keep their contents in any case.  Only the temporary name of the session is left out.\<close>

theorem atomic_output_one_step:
  assumes "quiet (fw_os w)" "well_linked (ss_fs (fl_files s))" "ss_seen (fl_files s) = []"
    and "withAtomicOutput w i out base signal (op_bind (on_run stages) (file_pipeline w r signal)) s = (s', res)"
    and "tmp = temporary_name (fw_uuid w)" "fs0 = ss_fs (fl_files s)"
  shows "case res of
      Returns items \<Rightarrow> \<exists>s1 input output p k outs.
        on_files (openAtomicFileSession (fw_os w) (fw_cwd w) (fw_uuid w) i out base) s = (s1, Returns (input, output))
        \<and> lookup (fs_nodes fs0) root_ino (butlast output) = Some p \<and> items = map Chunk outs
        \<and> is_directory (fs_nodes fs0) p \<and> fs_next fs0 \<le> k
        \<and> replaced tmp fs0 p (basename output) k (concat outs) (fs_nodes (ss_fs (fl_files s')))
        \<and> (\<forall>v \<in> set (ss_seen (fl_files s')). kept tmp fs0 v \<or> replaced tmp fs0 p (basename output) k (concat outs) v)
    | _ \<Rightarrow> kept tmp fs0 (fs_nodes (ss_fs (fl_files s'))) \<and> (\<forall>v \<in> set (ss_seen (fl_files s')). kept tmp fs0 v)"
  by (rule session_one_step[OF assms])

theorem atomic_output_one_step_witness:
  "\<exists>p k. lookup (fs_nodes sample_fs) root_ino [] = Some p
    \<and> replaced (temporary_name ''u'') sample_fs p ''out'' k [1, 2] (fs_nodes (ss_fs (fst sample_disposed)))"
proof -
  let ?w = "sample_world sample_turns"
  have w: "fw_os ?w = quiet_os" "fw_cwd ?w = []" "fw_uuid ?w = ''u''" by (simp_all add: sample_world_def)
  obtain s2 where s2: "with_session ?w sample_signal
      (op_bind (on_run (op_return [])) (file_pipeline ?w ''r'' sample_signal)) [''out''] sample_start
      = (s2, Returns (map Chunk [[1], [2]]))" "fl_files s2 = fst sample_disposed"
    using sample_with_session by blast
  have run: "withAtomicOutput ?w ''/in'' ''/out'' None sample_signal
      (op_bind (on_run (op_return [])) (file_pipeline ?w ''r'' sample_signal)) sample_state
      = (s2, Returns (map Chunk [[1], [2]]))"
    using s2(1) sample_opened_files by (simp add: withAtomicOutput_def op_bind_def w)
  have start: "quiet (fw_os ?w)" "well_linked (ss_fs (fl_files sample_state))" "ss_seen (fl_files sample_state) = []"
      "sample_fs = ss_fs (fl_files sample_state)"
    using sample_linked by (simp_all add: w quiet_def quiet_os_def sample_state_def session_ok_def sample_session_def)
  obtain p k outs where found: "lookup (fs_nodes sample_fs) root_ino [] = Some p" "map Chunk [[1], [2]] = map Chunk outs"
      "replaced (temporary_name ''u'') sample_fs p ''out'' k (concat outs) (fs_nodes (ss_fs (fl_files s2)))"
    using atomic_output_one_step[OF start(1-3) run refl start(4)] sample_opened_files
    by (auto simp: w basename_def simp del: list.map)
  have "inj Chunk" by (simp add: inj_def)
  then have "outs = [[1], [2]]" using found(2) by (metis inj_map_eq_map)
  then show ?thesis using found(1,3) s2(2) by auto
qed

end
