(* ===== verification/File_Paths.thy ===== *)
theory File_Paths
  imports Atomic_Effect
begin

text \<open>
  Paths, and the files they lead to: what \<open>realpathSync.native\<close> finds is what \<open>openat\<close> finds from the root,
  and which input and which directory a session opens when no other process interferes.
\<close>

section \<open>Canonical paths\<close>

text \<open>The directories that \<open>walk\<close> has come through are linked, each by its name.\<close>

fun linked_trail :: "nodes \<Rightarrow> (string \<times> ino) list \<Rightarrow> bool" where
  "linked_trail v [] = True"
| "linked_trail v ((c, i) # trail) = (linked_trail v trail \<and> lookup v (current trail) [c] = Some i)"

lemma lookup_append: "lookup v d (cs @ ds) = (case lookup v d cs of None \<Rightarrow> None | Some i \<Rightarrow> lookup v i ds)"
  by (induction cs arbitrary: d) (auto split: option.split node.split)

lemma trail_lookup: "linked_trail v trail \<Longrightarrow> lookup v root_ino (rev (map fst trail)) = Some (current trail)"
proof (induction v trail rule: linked_trail.induct)
  case (2 v c i trail)
  then show ?case by (simp add: lookup_append current_def del: lookup.simps)
qed (simp add: current_def)

lemma walk_linked: "walk v n trail cs = Some (p, i) \<Longrightarrow> linked_trail v trail \<Longrightarrow> lookup v root_ino p = Some i"
proof (induction v n trail cs rule: walk.induct)
  case (1 v n trail)
  then show ?case using trail_lookup by auto
next
  case (2 v n trail c cs)
  have dir: "is_directory v (current trail)" using "2.prems"(1) by (simp add: walk.simps(2) split: if_splits)
  have up: "linked_trail v (tl trail)" using "2.prems"(2) by (cases trail) auto
  show ?case
  proof (cases "c = [] \<or> c = ''.'' \<or> c = ''..''")
    case True
    then show ?thesis using 2(1,2) "2.prems" dir up by (auto simp: walk.simps(2) split: if_splits)
  next
    case False
    then obtain j node where j: "entry v (current trail) c = Some j" "v j = Some node"
      using "2.prems"(1) dir by (auto simp: walk.simps(2) split: option.splits)
    show ?thesis
    proof (cases node)
      case (Symlink target)
      then obtain m where "n = Suc m" using False j "2.prems"(1) dir by (cases n) (auto simp: walk.simps(2))
      moreover have "linked_trail v (if is_absolute target then [] else trail)" using "2.prems"(2) by simp
      ultimately show ?thesis using 2(5) "2.prems"(1) dir False j Symlink by (simp add: walk.simps(2))
    qed (use 2(3,4,6) "2.prems" dir False j in \<open>simp_all add: walk.simps(2)\<close>)
  qed
qed

lemma realpath_lookup: "realpath v cs = Some (p, i) \<Longrightarrow> lookup v root_ino p = Some i"
  unfolding realpath_def by (erule walk_linked) simp

text \<open>A file in the directory that a path leads to.\<close>

lemma walk_last:
  "walk v n trail cs = Some (q, d) \<Longrightarrow> is_directory v d \<Longrightarrow> entry v d c = Some i \<Longrightarrow> v i = Some (Regular b)
     \<Longrightarrow> c \<notin> {[], ''.'', ''..''} \<Longrightarrow> walk v n trail (cs @ [c]) = Some (q @ [c], i)"
proof (induction v n trail cs rule: walk.induct)
  case (1 v n trail)
  then show ?case by (auto simp: walk.simps(2) current_def)
next
  case (2 v n trail x cs)
  have dir: "is_directory v (current trail)" using "2.prems"(1) by (simp add: walk.simps(2) split: if_splits)
  note rest = "2.prems"(2-5)
  show ?case
  proof (cases "x = [] \<or> x = ''.'' \<or> x = ''..''")
    case True
    then show ?thesis using 2(1,2) "2.prems"(1) rest dir by (auto simp: walk.simps(2) split: if_splits)
  next
    case False
    then obtain j node where j: "entry v (current trail) x = Some j" "v j = Some node"
      using "2.prems"(1) dir by (auto simp: walk.simps(2) split: option.splits)
    show ?thesis
    proof (cases node)
      case (Symlink target)
      then obtain m where "n = Suc m" using False j "2.prems"(1) dir by (cases n) (auto simp: walk.simps(2))
      then show ?thesis using 2(5) "2.prems"(1) rest dir False j Symlink by (simp add: walk.simps(2))
    qed (use 2(3,4,6) "2.prems"(1) rest dir False j in \<open>simp_all add: walk.simps(2)\<close>)
  qed
qed

definition proper :: "string list \<Rightarrow> bool" where
  "proper cs \<longleftrightarrow> set cs \<inter> {[], ''.'', ''..''} = {}"

lemma normalize_proper: "proper cs \<Longrightarrow> proper (normalize cs ds)"
proof (induction cs ds rule: normalize.induct)
  case (2 cs c ds)
  have "proper (butlast cs)" using "2.prems" in_set_butlastD by (fastforce simp: proper_def)
  then have "proper (if c = [] \<or> c = ''.'' then cs else if c = ''..'' then butlast cs else cs @ [c])"
    using "2.prems" by (auto simp: proper_def)
  from "2.IH"[OF this] show ?case by simp
qed simp

lemma path_resolve_proper: "proper cwd \<Longrightarrow> proper (path_resolve cwd p)"
  unfolding path_resolve_def by (rule normalize_proper) (simp add: proper_def)

text \<open>What \<open>resolveOutputPath\<close> puts together is taken apart again.\<close>

lemma output_parent:
  assumes "realpath v (butlast q) = Some (parent, p)" "proper q"
  shows "butlast (path_join parent (basename q)) = parent" "basename (path_join parent (basename q)) = basename q"
proof -
  have "parent = []" if "q = []" using assms(1) that by (simp add: realpath_def)
  moreover have "last q \<noteq> []" if "q \<noteq> []" using assms(2) last_in_set[OF that] by (auto simp: proper_def)
  ultimately show "butlast (path_join parent (basename q)) = parent"
    "basename (path_join parent (basename q)) = basename q"
    by (cases "q = []"; simp add: path_join_def basename_def)+
qed

section \<open>The paths of a session\<close>

lemma quiet_op_sys:
  assumes "op_sys os e f s = (s', Returns a)" "quiet os"
  shows "after_call s s'" "f (ss_fs s) = Some (ss_fs s', a)"
proof -
  obtain r where "call_with os (os_fault os (ss_calls s)) f s = (s', r)" "r = Some a"
    using assms(1) by (auto simp: op_sys_def Returns_iff sys_call op_some_def split: option.splits)
  then show "after_call s s'" "f (ss_fs s) = Some (ss_fs s', a)" using quiet_call[OF assms(2)] by fastforce+
qed

lemma quiet_realpath:
  assumes "op_realpath os q s = (s', Returns p)" "quiet os" "unaltered fs0 F H s"
  shows "\<exists>i. realpath (fs_nodes fs0) q = Some (p, i)"
  using quiet_op_sys(2)[OF assms(1)[unfolded op_realpath_def] assms(2)] assms(3)
  by (auto simp: read_fs_def unaltered_def)

lemma input_path:
  assumes "assertExists os cwd i base s = (s', Returns input)" "quiet os" "unaltered fs0 F H s"
  shows "\<exists>j. realpath (fs_nodes fs0) (path_resolve cwd i) = Some (input, j)"
proof -
  obtain s1 found s2 b s3 where s1: "op_exists os (path_resolve cwd i) s = (s1, Returns found)"
    and s2: "op_realpath os base s1 = (s2, Returns b)" and s3: "op_realpath os (path_resolve cwd i) s2 = (s3, Returns input)"
    using assms(1) by (auto simp: assertExists_def Let_def Returns_iff)
  note u1 = valid_Returns[OF unaltered_paths(2)[OF assms(2)] assms(3) s1]
  show ?thesis by (rule quiet_realpath[OF s3 assms(2) valid_Returns[OF unaltered_paths(1)[OF assms(2)] u1 s2]])
qed

lemma output_path:
  assumes "resolveOutputPath os cwd out base s = (s', Returns outp)" "quiet os" "unaltered fs0 F H s" "proper cwd"
  shows "\<exists>p. realpath (fs_nodes fs0) (butlast (path_resolve cwd out)) = Some (butlast outp, p)"
    and "basename outp = basename (path_resolve cwd out)"
proof -
  obtain s1 b s2 parent where s1: "op_realpath os base s = (s1, Returns b)"
    and s2: "op_realpath os (butlast (path_resolve cwd out)) s1 = (s2, Returns parent)"
    and outp: "outp = path_join parent (basename (path_resolve cwd out))"
    using assms(1) by (auto simp: resolveOutputPath_def Let_def Returns_iff)
  obtain p where p: "realpath (fs_nodes fs0) (butlast (path_resolve cwd out)) = Some (parent, p)"
    using quiet_realpath[OF s2 assms(2) valid_Returns[OF unaltered_paths(1)[OF assms(2)] assms(3) s1]] by blast
  note parts = output_parent[OF p path_resolve_proper[OF assms(4)]]
  show "\<exists>p. realpath (fs_nodes fs0) (butlast (path_resolve cwd out)) = Some (butlast outp, p)"
    using p parts(1) by (simp add: outp)
  show "basename outp = basename (path_resolve cwd out)" using parts(2) by (simp add: outp)
qed

end
