(* ===== verification/Native_Streams.thy ===== *)
theory Native_Streams
  imports Stream_Safety Built_In_Plugins Encryption_Stream Decryption_Stream
begin

text \<open>
  \<open>createStream\<close> of the built-in plugins as stages of a pipeline (\<open>src/plugin/hashing.ts\<close>,
  \<open>compression.ts\<close>, \<open>encryption.ts\<close>), what each computes, and pipelines made of them in both
  directions.
\<close>

section \<open>Stages\<close>

text \<open>A stage whose \<open>construct\<close> fails, and one that works on all of its chunks at once.\<close>

definition failed_stage :: "px_error \<Rightarrow> px_stage" where
  "failed_stage e = make_stage (\<lambda>s it. ([], Throws e)) (\<lambda>s. ([], Throws e)) ()"

definition gather_stage :: "(buffer list \<Rightarrow> px_error + buffer list) \<Rightarrow> px_stage" where
  "gather_stage g =
     byte_stage (\<lambda>cs c. ([], Inr (cs @ [c])))
       (\<lambda>cs. case g cs of Inl e \<Rightarrow> ([], Inl e) | Inr outs \<Rightarrow> (outs, Inr cs)) []"

text \<open>The closure variables after an error do not matter to the pipeline.\<close>

definition drop_state :: "('s, 'o, px_error \<times> 's) outcome \<Rightarrow> ('s, 'o, px_error) outcome" where
  "drop_state r = map_prod id (map_sum fst id) r"

definition hashing_createStream ::
  "hmac \<Rightarrow> hashing_options \<Rightarrow> engine_limits option \<Rightarrow> bool \<Rightarrow> px_error + px_stage" where
  "hashing_createStream createHmac options limits compress =
     rbind (createHmac (hash_algorithm options) (secret_of options)) (\<lambda>hmac.
       let len = HASH_LENGTHS (hash_algorithm options);
           maxIn = pluginInputLimit limits; maxOut = pluginOutputLimit limits
       in Inr (if compress
               then (case sign_construct len maxOut of
                       Inl e \<Rightarrow> failed_stage e
                     | Inr s \<Rightarrow> byte_stage (sign_transform len maxIn maxOut) (sign_flush hmac) s)
               else byte_stage (\<lambda>s c. drop_state (verify_transform maxIn s c))
                      (\<lambda>s. drop_state (verify_flush hmac len maxOut s)) new_verify_stage))"

definition compression_createStream ::
  "zlib \<Rightarrow> compression_options \<Rightarrow> engine_limits option \<Rightarrow> bool \<Rightarrow> px_error + px_stage" where
  "compression_createStream z options limits compress =
     Inr (gather_stage (if compress then compression_stream z options limits
                        else decompression_stream z limits))"

definition encryption_createStream ::
  "node_crypto \<Rightarrow> buffer \<Rightarrow> encryption_options \<Rightarrow> engine_limits option \<Rightarrow> bool \<Rightarrow> px_error + px_stage" where
  "encryption_createStream c salt options limits compress =
     (if compress
      then rbind (createEncryptionStream c salt options limits) (\<lambda>(k, s).
        Inr (byte_stage (\<lambda>s b. drop_state (enc_transform c k s b)) (\<lambda>s. drop_state (enc_flush c k s)) s))
      else rbind (createDecryptionStream options limits) (\<lambda>(l, s).
        Inr (byte_stage (\<lambda>s b. drop_state (dec_transform c options l s b)) (\<lambda>s. drop_state (dec_flush c options l s)) s)))"

section \<open>What they compute\<close>

lemma drop_state_then_do:
  "drop_state (then_do r f) = then_do (drop_state r) (\<lambda>s. drop_state (f s))"
  by (cases r) (auto simp: drop_state_def then_do_def split: sum.split prod.split)

lemma run_chunks_drop_state:
  "run_chunks (\<lambda>s c. drop_state (tr s c)) s cs = drop_state (run_chunks tr s cs)"
proof (induction cs arbitrary: s)
  case Nil
  show ?case by (simp add: drop_state_def)
next
  case (Cons c cs)
  show ?case by (simp add: Cons.IH drop_state_then_do)
qed

lemma run_transform_drop_state:
  "run_transform (\<lambda>s c. drop_state (tr s c)) (\<lambda>s. drop_state (fl s)) s cs = drop_state (run_transform tr fl s cs)"
  by (simp add: run_transform_def run_chunks_drop_state drop_state_then_do)

lemma drop_state_Inr [simp]: "drop_state r = (out, Inr s) \<longleftrightarrow> r = (out, Inr s)"
  by (cases r) (auto simp: drop_state_def map_sum_eq_Inr)

text \<open>A stage that ends well with some bytes exactly when a function returns them.\<close>

lemma streams_byte_stage:
  assumes "\<And>cs e. (\<exists>out s'. run_transform tr fl s cs = (out, Inr s') \<and> concat out = e) \<longleftrightarrow> f (concat cs) = Inr e"
  shows "streams (byte_stage tr fl s) f"
  unfolding streams_def run_byte_stage
proof
  fix cs
  show "case f (concat cs) of
      Inr out \<Rightarrow> (\<exists>outs. end_all Chunk (run_transform tr fl s cs) = (map (Push \<circ> Chunk) outs, Returns ()) \<and> concat outs = out)
    | Inl e \<Rightarrow> snd (end_all Chunk (run_transform tr fl s cs)) \<noteq> Returns ()"
  proof (cases "f (concat cs)")
    case (Inr e)
    then obtain out s' where "run_transform tr fl s cs = (out, Inr s')" "concat out = e" using assms[of cs e] by blast
    then show ?thesis using Inr by (auto simp: end_all_Returns)
  next
    case (Inl err)
    have "\<not> succeeds (run_transform tr fl s cs)"
    proof
      assume "succeeds (run_transform tr fl s cs)"
      then obtain out s' where "run_transform tr fl s cs = (out, Inr s')" by (auto simp: succeeds_iff)
      then show False using assms[of cs "concat out"] Inl by simp
    qed
    then show ?thesis using Inl by (simp add: end_all_flow)
  qed
qed

lemma run_chunks_gather: "run_chunks (\<lambda>cs c. ([], Inr (cs @ [c]))) acc cs = ([], Inr (acc @ cs))"
  by (induction cs arbitrary: acc) simp_all

lemma run_gather: "run_transform (\<lambda>cs c. ([], Inr (cs @ [c]))) fl acc cs = fl (acc @ cs)"
  by (simp add: run_transform_def run_chunks_gather)

lemma gather_ok:
  "(\<exists>out s'. run_transform (\<lambda>cs c. ([], Inr (cs @ [c])))
      (\<lambda>cs. case g cs of Inl e \<Rightarrow> ([], Inl e) | Inr outs \<Rightarrow> (outs, Inr cs)) [] cs = (out, Inr s') \<and> P out)
   \<longleftrightarrow> (\<exists>outs. g cs = Inr outs \<and> P outs)"
  by (cases "g cs") (simp_all add: run_gather)

lemma streams_failed: "(\<And>b. \<exists>e'. f b = Inl e') \<Longrightarrow> streams (failed_stage e) f"
proof -
  assume f: "\<And>b. \<exists>e'. f b = Inl e'"
  have "snd (run_stage (failed_stage e) xs) \<noteq> Returns ()" for xs
    by (cases xs) (simp_all add: run_stage_def failed_stage_def)
  note never = this
  show ?thesis unfolding streams_def using f
  proof (intro allI)
    fix cs
    obtain e' where "f (concat cs) = Inl e'" using f by blast
    then show "case f (concat cs) of
        Inr out \<Rightarrow> (\<exists>outs. run_stage (failed_stage e) (map Chunk cs) = (map (Push \<circ> Chunk) outs, Returns ()) \<and> concat outs = out)
      | Inl e' \<Rightarrow> snd (run_stage (failed_stage e) (map Chunk cs)) \<noteq> Returns ()"
      using never by simp
  qed
qed

definition limits_context :: "engine_limits option \<Rightarrow> processor_context" where
  "limits_context limits = \<lparr>ctx_requestId = '''', ctx_timestamp = 0, ctx_signal = None, ctx_limits = limits,
     ctx_metadata = None\<rparr>"

lemma hashing_verifies:
  assumes "hmac_for createHmac options h len"
    and "hashing_createStream createHmac options limits False = Inr st"
  shows "streams st (\<lambda>b. map_sum id fst (hashing_reverse createHmac options b (limits_context limits)))"
proof -
  let ?ctx = "limits_context limits"
  have limits: "ctx_limits ?ctx = limits" by (simp add: limits_context_def)
  have st: "st = byte_stage (\<lambda>s c. drop_state (verify_transform (pluginInputLimit limits) s c))
      (\<lambda>s. drop_state (verify_flush h (Some len) (pluginOutputLimit limits) s)) new_verify_stage"
    using assms by (simp add: hashing_createStream_def hmac_for_def Let_def)
  show ?thesis
    unfolding st
  proof (rule streams_byte_stage)
    fix cs e
    define outcome where "outcome = run_transform (verify_transform (pluginInputLimit limits))
        (verify_flush h (Some len) (pluginOutputLimit limits)) new_verify_stage cs"
    have o: "verify_stream createHmac options (ctx_limits ?ctx) cs = Inr outcome"
      using assms(1) by (simp add: verify_stream_def hmac_for_def outcome_def limits)
    have "(\<exists>out s'. outcome = (out, Inr s') \<and> concat out = e) \<longleftrightarrow>
        map_sum id fst (hashing_reverse createHmac options (concat cs) ?ctx) = Inr e"
      using verify_stream_is_reverse[OF assms(1) o]
      by (cases "hashing_reverse createHmac options (concat cs) ?ctx") (auto split: prod.splits)
    then show "(\<exists>out s'. run_transform (\<lambda>s c. drop_state (verify_transform (pluginInputLimit limits) s c))
        (\<lambda>s. drop_state (verify_flush h (Some len) (pluginOutputLimit limits) s)) new_verify_stage cs
        = (out, Inr s') \<and> concat out = e) \<longleftrightarrow>
      map_sum id fst (hashing_reverse createHmac options (concat cs) ?ctx) = Inr e"
      by (simp add: run_transform_drop_state outcome_def)
  qed
qed

lemma hashing_signs:
  assumes "hmac_for createHmac options h len"
    and "hashing_createStream createHmac options limits True = Inr st"
  shows "streams st (\<lambda>b. map_sum id fst (hashing_process createHmac options b (limits_context limits)))"
proof -
  let ?ctx = "limits_context limits"
  have limits: "ctx_limits ?ctx = limits" by (simp add: limits_context_def)
  have st: "st = (case sign_construct (Some len) (pluginOutputLimit limits) of
      Inl e \<Rightarrow> failed_stage e
    | Inr s \<Rightarrow> byte_stage (sign_transform (Some len) (pluginInputLimit limits) (pluginOutputLimit limits)) (sign_flush h) s)"
    using assms by (simp add: hashing_createStream_def hmac_for_def Let_def)
  have result: "case hashing_process createHmac options (concat cs) ?ctx of
      Inr (message, _) \<Rightarrow> succeeds outcome \<and> concat (outputs outcome) = message
    | Inl _ \<Rightarrow> \<not> succeeds outcome"
    if "sign_stream createHmac options limits cs = Inr outcome" for cs outcome
    using sign_stream_is_process[OF assms(1), of ?ctx cs outcome] that limits by simp
  show ?thesis
  proof (cases "sign_construct (Some len) (pluginOutputLimit limits)")
    case (Inl e)
    have "\<exists>e'. map_sum id fst (hashing_process createHmac options b ?ctx) = Inl e'" for b
    proof -
      have "sign_stream createHmac options limits [b] = Inr ([], Inl e)"
        using assms(1) Inl by (simp add: sign_stream_def hmac_for_def)
      from result[OF this] show ?thesis by (cases "hashing_process createHmac options b ?ctx") auto
    qed
    then show ?thesis unfolding st by (simp add: Inl streams_failed)
  next
    case (Inr s)
    let ?run = "run_transform (sign_transform (Some len) (pluginInputLimit limits) (pluginOutputLimit limits)) (sign_flush h) s"
    have "streams (byte_stage (sign_transform (Some len) (pluginInputLimit limits) (pluginOutputLimit limits)) (sign_flush h) s)
      (\<lambda>b. map_sum id fst (hashing_process createHmac options b ?ctx))"
    proof (rule streams_byte_stage)
      fix cs e
      have "sign_stream createHmac options limits cs = Inr (?run cs)"
        using assms(1) Inr by (simp add: sign_stream_def hmac_for_def)
      from result[OF this]
      show "(\<exists>out s'. ?run cs = (out, Inr s') \<and> concat out = e) \<longleftrightarrow>
          map_sum id fst (hashing_process createHmac options (concat cs) ?ctx) = Inr e"
        by (cases "?run cs"; cases "hashing_process createHmac options (concat cs) ?ctx")
          (auto simp: succeeds_def returns_def)
    qed
    then show ?thesis unfolding st by (simp add: Inr)
  qed
qed

lemma encryption_encrypts:
  assumes "aead_lengths c" "length salt = 16" "maxFrames (context_limits limits) < 2 ^ 64"
    and "encryption_createStream c salt options limits True = Inr st"
  shows "streams st (\<lambda>b. encryptBuffer c salt b options limits)"
proof -
  from assms(4) obtain k s where start: "createEncryptionStream c salt options limits = Inr (k, s)"
    and st: "st = byte_stage (\<lambda>s b. drop_state (enc_transform c k s b)) (\<lambda>s. drop_state (enc_flush c k s)) s"
    by (auto simp: encryption_createStream_def rbind_eq_Inr)
  show ?thesis
    unfolding st
    by (rule streams_byte_stage)
      (simp add: run_transform_drop_state encryption_stream_encrypts[OF assms(1-3), symmetric]
        encryption_stream_def start)
qed

lemma encryption_decrypts:
  assumes "opt_allowLegacyDecrypt options \<noteq> None"
    and "encryption_createStream c salt options limits False = Inr st"
  shows "streams st (\<lambda>b. decryptBuffer c b options limits)"
proof -
  from assms(2) obtain l s where start: "createDecryptionStream options limits = Inr (l, s)"
    and st: "st = byte_stage (\<lambda>s b. drop_state (dec_transform c options l s b)) (\<lambda>s. drop_state (dec_flush c options l s)) s"
    by (auto simp: encryption_createStream_def rbind_eq_Inr)
  show ?thesis
    unfolding st
    by (rule streams_byte_stage)
      (simp add: run_transform_drop_state decryption_stream_decrypts[OF assms(1), symmetric]
        decryption_stream_def start)
qed

lemma compression_decompresses:
  assumes "zlib_ok z" "compression_createStream z options limits False = Inr st"
  shows "streams st (\<lambda>b. compression_reverse z b limits)"
proof -
  have st: "st = gather_stage (decompression_stream z limits)"
    using assms(2) by (simp add: compression_createStream_def)
  show ?thesis
    unfolding st gather_stage_def
    by (rule streams_byte_stage) (unfold gather_ok decompression_stream_iff[OF assms(1)], rule refl)
qed

section \<open>Stages whose output can be undone\<close>

text \<open>
  What such a stage pushes, if it ends well, is restored by \<open>dec\<close>, as long as neither side exceeds
  \<open>maxOut\<close> bytes.
\<close>

definition encodes :: "px_stage \<Rightarrow> (buffer \<Rightarrow> px_error + buffer) \<Rightarrow> nat \<Rightarrow> bool" where
  "encodes st dec maxOut \<longleftrightarrow> (\<forall>cs ems. run_stage st (map Chunk cs) = (ems, Returns ()) \<longrightarrow>
     (\<exists>outs. pushed ems = map Chunk outs \<and>
        (length (concat cs) \<le> maxOut \<longrightarrow> length (concat outs) \<le> maxOut \<longrightarrow> dec (concat outs) = Inr (concat cs))))"

lemma encodesD:
  assumes "encodes st dec maxOut" "run_stage st (map Chunk cs) = (ems, Returns ())"
  obtains outs where "pushed ems = map Chunk outs"
    "length (concat cs) \<le> maxOut \<longrightarrow> length (concat outs) \<le> maxOut \<longrightarrow> dec (concat outs) = Inr (concat cs)"
  using assms unfolding encodes_def by blast

lemma encodes_streams:
  assumes "streams st f"
    and "\<And>b m. f b = Inr m \<Longrightarrow> length b \<le> maxOut \<Longrightarrow> length m \<le> maxOut \<Longrightarrow> dec m = Inr b"
  shows "encodes st dec maxOut"
  unfolding encodes_def
proof (intro allI impI)
  fix cs ems assume run: "run_stage st (map Chunk cs) = (ems, Returns ())"
  obtain m where m: "f (concat cs) = Inr m"
    using streams_Inl[OF assms(1), of cs] run by (cases "f (concat cs)") auto
  obtain outs where outs: "run_stage st (map Chunk cs) = (map (Push \<circ> Chunk) outs, Returns ())" "concat outs = m"
    by (rule streams_Inr[OF assms(1) m])
  then have "pushed ems = map Chunk outs" using run by auto
  then show "\<exists>outs. pushed ems = map Chunk outs \<and>
      (length (concat cs) \<le> maxOut \<longrightarrow> length (concat outs) \<le> maxOut \<longrightarrow> dec (concat outs) = Inr (concat cs))"
    using assms(2)[OF m] outs(2) by blast
qed

text \<open>The native stages of the built-in plugins, and the functions that undo them.\<close>

fun built_in_createStream ::
  "services \<Rightarrow> time \<Rightarrow> engine_limits option \<Rightarrow> built_in \<Rightarrow> bool \<Rightarrow> px_error + px_stage" where
  "built_in_createStream sv now limits (Hashing options) compress =
     hashing_createStream (sv_hmac sv) options limits compress"
| "built_in_createStream sv now limits (Compression options) compress =
     compression_createStream (sv_zlib sv) options limits compress"
| "built_in_createStream sv now limits (Encryption options) compress =
     encryption_createStream (sv_crypto sv) (sv_salt sv 0 now) options limits compress"
| "built_in_createStream sv now limits (Kms options) compress =
     Inl (JsTypeError ''plugin.createStream is not a function'')"

fun built_in_decode :: "services \<Rightarrow> engine_limits option \<Rightarrow> built_in \<Rightarrow> buffer \<Rightarrow> px_error + buffer" where
  "built_in_decode sv limits (Hashing options) b =
     map_sum id fst (hashing_reverse (sv_hmac sv) options b (limits_context limits))"
| "built_in_decode sv limits (Compression options) b = compression_reverse (sv_zlib sv) b limits"
| "built_in_decode sv limits (Encryption options) b = decryptBuffer (sv_crypto sv) b options limits"
| "built_in_decode sv limits (Kms options) b = Inl (JsTypeError ''plugin.createStream is not a function'')"

text \<open>
  What is asked of a plugin for streaming: the options that the plugin's soundness asks for, and for
  encryption that \<open>allowLegacyDecrypt\<close> is given and the number of frames fits its field.
\<close>

fun stream_sound :: "services \<Rightarrow> engine_limits \<Rightarrow> built_in \<Rightarrow> bool" where
  "stream_sound sv limits (Hashing options) = hashing_sound sv options"
| "stream_sound sv limits (Compression options) = compression_sound sv options"
| "stream_sound sv limits (Encryption options) =
     (encryption_sound sv \<and> opt_allowLegacyDecrypt options \<noteq> None \<and> maxFrames limits < 2 ^ 64)"
| "stream_sound sv limits (Kms options) = False"

lemma built_in_decodes:
  assumes "stream_sound sv limits b" "built_in_createStream sv now (Some limits) b False = Inr st"
  shows "streams st (built_in_decode sv (Some limits) b)"
proof (cases b)
  case (Hashing options)
  then obtain h len where "hmac_for (sv_hmac sv) options h len"
    using assms(1) hmac_ok_for[of "sv_hmac sv" options] by (auto simp: hashing_sound_def)
  then have "streams st (\<lambda>data. map_sum id fst (hashing_reverse (sv_hmac sv) options data (limits_context (Some limits))))"
    by (rule hashing_verifies) (use assms(2) Hashing in simp)
  then show ?thesis by (simp add: Hashing streams_def)
next
  case (Compression options)
  then have "streams st (\<lambda>b. compression_reverse (sv_zlib sv) b (Some limits))"
    using assms by (intro compression_decompresses) (simp_all add: compression_sound_def)
  then show ?thesis by (simp add: Compression streams_def)
next
  case (Encryption options)
  then have "streams st (\<lambda>b. decryptBuffer (sv_crypto sv) b options (Some limits))"
    using assms by (intro encryption_decrypts) simp_all
  then show ?thesis by (simp add: Encryption streams_def)
qed (use assms in simp)

lemma compression_encodes:
  assumes "zlib_ok z" "TYPE_BYTE_MAP (cmp_type options) \<noteq> None"
    and "compression_createStream z options (Some limits) True = Inr st"
  shows "encodes st (\<lambda>b. compression_reverse z b (Some limits)) (maxOutputBytes limits)"
  unfolding encodes_def
proof (intro allI impI)
  fix cs ems assume run: "run_stage st (map Chunk cs) = (ems, Returns ())"
  have st: "st = gather_stage (compression_stream z options (Some limits))"
    using assms(3) by (simp add: compression_createStream_def)
  obtain outs where g: "compression_stream z options (Some limits) cs = Inr outs" "ems = map (Push \<circ> Chunk) outs"
    using run unfolding st gather_stage_def run_byte_stage run_gather end_all_Returns
    by (cases "compression_stream z options (Some limits) cs") auto
  have "compression_reverse z (concat outs) (Some limits) = Inr (concat cs)"
    if "length (concat cs) \<le> maxOutputBytes limits"
  proof -
    have "length (concat cs) \<le> pluginOutputLimit (Some limits)"
      using that by (simp add: pluginOutputLimit_def context_limits_def)
    from compression_stream_roundtrip[OF assms(1,2) g(1) this refl]
    show ?thesis using decompression_stream_iff[OF assms(1)] by blast
  qed
  then show "\<exists>outs. pushed ems = map Chunk outs \<and>
      (length (concat cs) \<le> maxOutputBytes limits \<longrightarrow> length (concat outs) \<le> maxOutputBytes limits \<longrightarrow>
         compression_reverse z (concat outs) (Some limits) = Inr (concat cs))"
    using g(2) by auto
qed

lemma built_in_encodes:
  assumes "stream_sound sv limits b" "built_in_createStream sv now (Some limits) b True = Inr st"
  shows "encodes st (built_in_decode sv (Some limits) b) (maxOutputBytes limits)"
proof (cases b)
  case (Hashing options)
  let ?ctx = "limits_context (Some limits)"
  obtain h len where h: "hmac_for (sv_hmac sv) options h len"
    using assms(1) hmac_ok_for[of "sv_hmac sv" options] Hashing by (auto simp: hashing_sound_def)
  have "streams st (hashing_encode sv options ?ctx 0 0)"
    using hashing_signs[OF h, of "Some limits" st] assms(2) Hashing by (simp add: hashing_encode_def[abs_def])
  then show ?thesis
  proof (rule encodes_streams)
    fix data m assume m: "hashing_encode sv options ?ctx 0 0 data = Inr m"
      and "length data \<le> maxOutputBytes limits" "length m \<le> maxOutputBytes limits"
    then show "built_in_decode sv (Some limits) b m = Inr data"
      using hashing_codec.decode_encode[OF _ m, of ?ctx 0 0] assms(1) Hashing
      by (simp add: hashing_decode_def limits_context_def pluginOutputLimit_def context_limits_def)
  qed
next
  case (Compression options)
  then show ?thesis using assms compression_encodes[of "sv_zlib sv" options limits st]
    by (auto simp: compression_sound_def encodes_def)
next
  case (Encryption options)
  let ?c = "sv_crypto sv" and ?salt = "sv_salt sv 0 now"
  have sound: "aead_ok ?c" "length ?salt = 16" "aead_lengths ?c"
    using assms(1) Encryption by (simp_all add: encryption_sound_def aead_ok_def)
  have "streams st (\<lambda>data. encryptBuffer ?c ?salt data options (Some limits))"
    by (rule encryption_encrypts[OF sound(3,2)]) (use assms Encryption in \<open>simp_all add: context_limits_def\<close>)
  then show ?thesis
    by (rule encodes_streams) (simp add: Encryption decrypt_encrypted[OF sound(1,2)])
qed (use assms in simp)

end
