(* ===== verification/Stream_Round_Trip.thy ===== *)
theory Stream_Round_Trip
  imports Native_Streams
begin

text \<open>
  Bytes through \<open>stream.pipe\<close> and back: when an operation on a stream returns, for every fair
  schedule of its stages, and what the reversed direction restores.
\<close>

section \<open>What a chain of native streams pushes can be undone\<close>

lemma chain_bytes_append:
  "chain_bytes f m (ps @ qs) b = (case chain_bytes f m ps b of None \<Rightarrow> None | Some c \<Rightarrow> chain_bytes f m qs c)"
  by (induction ps arbitrary: b) (auto split: sum.split)

lemma through_limit:
  assumes "through k (byte_limit_stage m label # sts) (map Chunk cs) = Some (out, fs)"
  shows "length (concat cs) \<le> m \<and> (\<exists>k' fs'. through k' sts (map Chunk cs) = Some (out, fs'))"
proof (cases "length (concat cs) \<le> m")
  case True
  obtain outs where "run_stage (byte_limit_stage m label) (map Chunk cs) = (map (Push \<circ> Chunk) outs, Returns ())"
    using streams_Inr[OF streams_byte_limit, of cs m label "concat cs"] True by auto
  moreover have "outs = cs"
    using calculation True by (auto simp: run_byte_limit_stage end_all_Returns byte_limit_passes inj_def
        dest!: map_injective intro!: )
  ultimately show ?thesis using assms True by auto
next
  case False
  then show ?thesis
    using assms streams_Inl[OF streams_byte_limit, of cs m label "exceeds_bytes label m"]
    by (auto split: prod.splits flow.splits)
qed

lemma through_observe:
  assumes "through k (observe_stage # sts) (map Chunk cs) = Some (out, fs)"
  shows "\<exists>k' fs'. through k' sts (map Chunk cs) = Some (out, fs')"
  using assms by (auto simp: run_observe_stage pushed_observe)

lemma through_source:
  assumes "through k (source_stage None # sts) (map Chunk cs) = Some (out, fs)"
  shows "\<exists>k' fs'. through k' sts (map Chunk cs) = Some (out, fs')"
  using assms by (auto simp: run_source_stage)

lemma through_encodes:
  assumes "through k (st # sts) (map Chunk cs) = Some (out, fs)" "encodes st dec m"
  shows "\<exists>k' outs fs'. through k' sts (map Chunk outs) = Some (out, fs')
    \<and> (length (concat cs) \<le> m \<longrightarrow> length (concat outs) \<le> m \<longrightarrow> dec (concat outs) = Inr (concat cs))"
proof -
  from assms(1) obtain ems fs' where run: "run_stage st (map Chunk cs) = (ems, Returns ())"
    and rest: "through (k + 1) sts (pushed ems) = Some (out, fs')"
    by (auto split: prod.splits flow.splits)
  obtain outs where "pushed ems = map Chunk outs"
    "length (concat cs) \<le> m \<longrightarrow> length (concat outs) \<le> m \<longrightarrow> dec (concat outs) = Inr (concat cs)"
    by (rule encodesD[OF assms(2) run])
  then show ?thesis using rest by auto
qed

definition encoding_chain ::
  "chain_factory \<Rightarrow> plugin list \<Rightarrow> (plugin \<Rightarrow> buffer \<Rightarrow> px_error + buffer) \<Rightarrow> nat \<Rightarrow> bool" where
  "encoding_chain cf ps dec m \<longleftrightarrow>
     (\<forall>p \<in> set ps. hasStreamSupport p \<and> (\<exists>st. cf_create cf p True = Inr st \<and> encodes st (dec p) m))"

lemma chain_encodes:
  assumes "encoding_chain cf ps dec m" "chain_output_limit sc = m" "length (concat cs) \<le> m"
    and "chain_from cf True False dlq sc i ps = Inr sts"
    and "through k (sts @ rest) (map Chunk cs) = Some (out, fs)"
  shows "\<exists>k' mid fs'. through k' rest (map Chunk mid) = Some (out, fs') \<and> length (concat mid) \<le> m
    \<and> chain_bytes dec m (rev ps) (concat mid) = Some (concat cs)"
  using assms
proof (induction ps arbitrary: i sts k cs fs)
  case Nil
  then show ?case by auto
next
  case (Cons p ps)
  from Cons.prems(1) obtain st where p: "hasStreamSupport p" "cf_create cf p True = Inr st" "encodes st (dec p) m"
    by (auto simp: encoding_chain_def)
  from Cons.prems(4) obtain later where
    later: "chain_from cf True False dlq sc (i + 1) ps = Inr later"
    and sts: "sts = [st, observe_stage, byte_limit_stage m (after_plugin p i)] @ later"
    using p Cons.prems(2) by (auto simp: plugin_stages_def rbind_eq_Inr)
  have whole: "through k (st # observe_stage # byte_limit_stage m (after_plugin p i) # later @ rest) (map Chunk cs)
      = Some (out, fs)" using Cons.prems(5) sts by simp
  from through_encodes[OF whole p(3)] obtain k1 outs fs1 where
    t1: "through k1 (observe_stage # byte_limit_stage m (after_plugin p i) # later @ rest) (map Chunk outs) = Some (out, fs1)"
    and dec: "length (concat cs) \<le> m \<longrightarrow> length (concat outs) \<le> m \<longrightarrow> dec p (concat outs) = Inr (concat cs)" by blast
  from through_observe[OF t1] obtain k2 fs2 where
    "through k2 (byte_limit_stage m (after_plugin p i) # later @ rest) (map Chunk outs) = Some (out, fs2)" by blast
  from through_limit[OF this] obtain k3 fs3 where outs: "length (concat outs) \<le> m"
    and t3: "through k3 (later @ rest) (map Chunk outs) = Some (out, fs3)" by blast
  have "encoding_chain cf ps dec m" using Cons.prems(1) by (simp add: encoding_chain_def)
  from Cons.IH[OF this Cons.prems(2) outs later t3] obtain k' mid fs' where
    mid: "through k' rest (map Chunk mid) = Some (out, fs')" "length (concat mid) \<le> m"
      "chain_bytes dec m (rev ps) (concat mid) = Some (concat outs)" by blast
  have "chain_bytes dec m (rev (p # ps)) (concat mid) = Some (concat cs)"
    using mid(3) dec outs Cons.prems(3) by (simp add: chain_bytes_append)
  then show ?case using mid by blast
qed

text \<open>A whole pipeline of them, up to its destination.\<close>

lemma pipeline_encodes:
  assumes "through 0 (source_stage None # bytes_pipeline limits transforms @ [st]) (map Chunk cs) = Some (out, fs)"
    and "encoding_chain cf ps dec (maxOutputBytes limits)" "length (concat cs) \<le> maxOutputBytes limits"
    and "chain_from cf True False dlq (Some (streamContext r signal limits)) 0 ps = Inr transforms"
  shows "\<exists>k mid fs'. through k [st] (map Chunk mid) = Some (out, fs') \<and> length (concat mid) \<le> maxOutputBytes limits
    \<and> chain_bytes dec (maxOutputBytes limits) (rev ps) (concat mid) = Some (concat cs)"
proof -
  let ?m = "maxOutputBytes limits"
  let ?tail = "[byte_limit_stage ?m ''output'', st]"
  have sts: "bytes_pipeline limits transforms @ [st] = byte_limit_stage (maxInputBytes limits) ''input'' # transforms @ ?tail"
    by (simp add: bytes_pipeline_def)
  obtain k1 fs1 where
    "through k1 (byte_limit_stage (maxInputBytes limits) ''input'' # transforms @ ?tail) (map Chunk cs) = Some (out, fs1)"
    using through_source[OF assms(1)[unfolded sts]] by blast
  from through_limit[OF this] obtain k2 fs2 where
    t2: "through k2 (transforms @ ?tail) (map Chunk cs) = Some (out, fs2)" by blast
  have sc: "chain_output_limit (Some (streamContext r signal limits)) = ?m"
    by (simp add: chain_output_limit_def fallback_output_limit_def streamContext_def)
  from chain_encodes[OF assms(2) sc assms(3,4) t2] obtain k3 mid fs3 where
    t3: "through k3 ?tail (map Chunk mid) = Some (out, fs3)" and mid: "length (concat mid) \<le> ?m"
      "chain_bytes dec ?m (rev ps) (concat mid) = Some (concat cs)" by blast
  show ?thesis using through_limit[OF t3] mid by blast
qed

lemma pipe_encodes:
  assumes "stream_pipe w r (map Chunk cs) False options s = (s2, Returns out)"
    and "encoding_chain (sw_factory w) (eng_plugins (rs_engine s)) dec (maxOutputBytes (eng_limits (rs_engine s)))"
    and "streams (sw_destination w) Inr"
    and "length (concat cs) \<le> maxOutputBytes (eng_limits (rs_engine s))"
  shows "\<exists>outs. out = map Chunk outs \<and> length (concat outs) \<le> maxOutputBytes (eng_limits (rs_engine s))
    \<and> chain_bytes dec (maxOutputBytes (eng_limits (rs_engine s))) (rev (eng_plugins (rs_engine s))) (concat outs)
        = Some (concat cs)"
proof -
  let ?limits = "eng_limits (rs_engine s)"
  obtain signal s1 transforms where limits: "eng_limits (rs_engine s1) = ?limits"
    and chain: "buildTransformChain (sw_factory w) (eng_plugins (rs_engine s)) True False (sw_dlq w)
       (Some (streamContext r signal ?limits)) = Inr transforms"
    and run: "run_bytes w r False signal transforms (map Chunk cs) s1 = (s2, Returns out)"
    by (rule pipe_opened[OF assms(1)]) simp
  let ?sts = "bytes_pipeline ?limits transforms @ [sw_destination w]"
  obtain s3 where "op_pipeline r signal (sw_turns w) (source_stage (sw_source_error w) # ?sts) (map Chunk cs) s1
      = (s3, Returns out)"
    by (rule run_bytes_Returns[OF run]) (simp add: limits)
  from pipeline_returns[OF this] obtain fs where
    t: "through 0 (source_stage (sw_source_error w) # ?sts) (map Chunk cs) = Some (out, fs)" by blast
  then have none: "sw_source_error w = None" by (metis not_None_eq source_error_stops)
  have "chain_from (sw_factory w) True False (sw_dlq w) (Some (streamContext r signal ?limits)) 0
      (eng_plugins (rs_engine s)) = Inr transforms"
    using chain_of_build[OF chain] by (simp add: ordered_plugins_def)
  from pipeline_encodes[OF t[unfolded none] assms(2,4) this] obtain k mid fs' where
    t4: "through k [sw_destination w] (map Chunk mid) = Some (out, fs')"
    and mid: "length (concat mid) \<le> maxOutputBytes ?limits"
      "chain_bytes dec (maxOutputBytes ?limits) (rev (eng_plugins (rs_engine s))) (concat mid) = Some (concat cs)" by blast
  obtain outs where "run_stage (sw_destination w) (map Chunk mid) = (map (Push \<circ> Chunk) outs, Returns ())"
    "concat outs = concat mid"
    by (rule streams_Inr[OF assms(3), of mid "concat mid"]) simp
  then show ?thesis using t4 mid by auto
qed

section \<open>When an operation on a stream returns\<close>

lemma drive_free:
  assumes "sig_abort signal = None" "pl_result (pl_run (map snd turns) r) = Some (Inr ())"
  shows "\<exists>t. drive signal now (turns @ later) r = (pl_run (map snd turns) r, t, Returns ())"
  using assms(2)
proof (induction turns arbitrary: now r)
  case Nil
  then show ?case by (subst drive.simps) simp
next
  case (Cons ti turns)
  obtain ts i where ti: "ti = (ts, i)" by (cases ti)
  show ?case
  proof (cases "pl_result r")
    case None
    have "drive signal now ((ti # turns) @ later) r = drive signal (max now ts) (turns @ later) (pl_turn r i)"
      using None ti assms(1) by (subst drive.simps) simp
    then show ?thesis using Cons.IH[of "pl_turn r i" "max now ts"] Cons.prems ti by simp
  next
    case (Some res)
    then have "pl_run (map snd (ti # turns)) r = r" using pl_run_result_stays by blast
    moreover have "res = Inr ()" using Cons.prems calculation Some by simp
    ultimately show ?thesis using Some by (subst drive.simps) simp
  qed
qed

lemma op_pipeline_returns:
  assumes "through 0 sts items = Some (out, fs)" "\<And>n. {..<length sts} \<subseteq> set (rounds n)" "sig_abort signal = None"
  shows "\<exists>n. \<forall>turns later s. map snd turns = concat (map rounds [0..<n]) \<longrightarrow>
    (\<exists>s'. op_pipeline r signal (turns @ later) sts items s = (s', Returns out))"
proof -
  obtain n where n: "pl_result (pl_run (concat (map rounds [0..<n])) (pl_start sts items)) = Some (Inr ())"
    using rounds_finish[where rounds = rounds and turns = "[]", OF assms(1,2)] by auto
  show ?thesis
  proof (intro exI[of _ n] allI impI)
    fix turns later :: "(time \<times> nat) list" and s :: run_state assume turns: "map snd turns = concat (map rounds [0..<n])"
    from drive_free[OF assms(3), of turns "pl_start sts items" "rs_now s" later] n turns obtain t where
      d: "drive signal (rs_now s) (turns @ later) (pl_start sts items) =
        (pl_run (concat (map rounds [0..<n])) (pl_start sts items), t, Returns ())" by auto
    have "pl_out (pl_run (concat (map rounds [0..<n])) (pl_start sts items)) = out"
      using run_done[OF n] assms(1) by auto
    then show "\<exists>s'. op_pipeline r signal (turns @ later) sts items s = (s', Returns out)"
      using d by (simp add: op_pipeline_def)
  qed
qed

lemma setting_effect: "same_setting s0 s \<Longrightarrow> same_setting s0 (apply_effect r until s f)"
  by (cases f) (auto simp: same_setting_def emitProgress_def emit_def Let_def setting_settle trackWork_def
      split: option.splits)

lemma setting_effects: "same_setting s0 s \<Longrightarrow> same_setting s0 (foldl (apply_effect r until) s fs)"
  by (induction fs arbitrary: s) (simp_all add: setting_effect)

lemma setting_pipeline: "keeps (same_setting s0) (op_pipeline r signal turns sts items)"
proof -
  have "same_setting s0 (s\<lparr>rs_now := t\<rparr>) \<longleftrightarrow> same_setting s0 s" for s t by (simp add: same_setting_def)
  then show ?thesis
    by (auto simp: valid_def op_pipeline_def Let_def setting_effects split: prod.splits flow.splits)
qed

lemma finish_returns:
  assumes "eng_auditLogger (rs_engine s) = None" "cut_off signal = None"
  shows "\<exists>s'. finish_request r operation signal a s = (s', Returns a)"
proof -
  obtain s1 where "op_audit r operation signal s = (s1, Returns ())"
    using audit_without_logger[OF assms] by blast
  then show ?thesis
    unfolding finish_request_def Returns_iff by (simp add: never_aborted[OF assms(2)] del: split_paired_Ex)
qed

lemma cut_off_None_abort: "cut_off signal = None \<Longrightarrow> sig_abort signal = None"
  by (auto simp: cut_off_def first_failure_def split: option.splits)

text \<open>An engine ready for an operation on a stream, whose signal never aborts.\<close>

definition ready_to_stream :: "run_state \<Rightarrow> operation_options \<Rightarrow> bool" where
  "ready_to_stream s options \<longleftrightarrow>
     (\<exists>signal. createOperationSignal (eng_limits (rs_engine s)) options (rs_now s) = Inr signal \<and> cut_off signal = None)
     \<and> eng_schema (rs_engine s) = None \<and> eng_auditLogger (rs_engine s) = None
     \<and> card (eng_active (rs_engine s)) < maxConcurrentOperations (eng_limits (rs_engine s))"

lemma chain_from_length:
  "chain_from cf compress reverse dlq sc i ps = Inr sts \<Longrightarrow> \<forall>p \<in> set ps. hasStreamSupport p \<Longrightarrow> length sts = 3 * length ps"
  by (induction ps arbitrary: i sts) (auto simp: plugin_stages_def rbind_eq_Inr)

lemma pipe_returns:
  assumes "ready_to_stream s options"
    and "assertStreamingPipeline (eng_plugins (rs_engine s)) = Inr ()"
    and "reverse \<longrightarrow> assertReversiblePipeline (eng_plugins (rs_engine s)) = Inr ()"
    and "native_chain (sw_factory w) (\<not> reverse) (ordered_plugins reverse (eng_plugins (rs_engine s))) f"
    and "streams (sw_destination w) Inr" "sw_source_error w = None"
    and "pipeline_bytes f (eng_limits (rs_engine s)) (ordered_plugins reverse (eng_plugins (rs_engine s))) (concat cs) = Some b"
    and "\<And>n. {..<3 * length (eng_plugins (rs_engine s)) + 4} \<subseteq> set (rounds n)"
  shows "\<exists>n. \<forall>turns later. map snd turns = concat (map rounds [0..<n]) \<longrightarrow>
    (\<exists>s2 outs. stream_pipe (w\<lparr>sw_turns := turns @ later\<rparr>) r (map Chunk cs) reverse options s
      = (s2, Returns (map Chunk outs)) \<and> concat outs = b)"
proof -
  let ?limits = "eng_limits (rs_engine s)" and ?ps = "ordered_plugins reverse (eng_plugins (rs_engine s))"
  obtain signal where signal: "createOperationSignal ?limits options (rs_now s) = Inr signal" "cut_off signal = None"
    and ready: "eng_schema (rs_engine s) = None" "eng_auditLogger (rs_engine s) = None"
      "card (eng_active (rs_engine s)) < maxConcurrentOperations ?limits"
    using assms(1) by (auto simp: ready_to_stream_def)
  let ?sc = "streamContext r signal ?limits"
  obtain transforms where transforms: "chain_from (sw_factory w) (\<not> reverse) reverse (sw_dlq w) (Some ?sc) 0 ?ps = Inr transforms"
    using yields_chain_from[OF assms(4) yields_Nil] by blast
  then have build: "buildTransformChain (sw_factory w) (eng_plugins (rs_engine s)) (\<not> reverse) reverse (sw_dlq w) (Some ?sc)
      = Inr transforms"
    using assms(2,3) by (cases reverse) (simp_all add: buildTransformChain_def ordered_plugins_def)
  let ?sts = "source_stage None # bytes_pipeline ?limits transforms @ [sw_destination w]"
  have "yields ?sts (pipeline_bytes f ?limits ?ps)"
    using pipeline_of_bytes[OF assms(4,5) transforms] by (simp add: streamContext_def)
  note ys = this
  obtain outs fs where t: "through 0 ?sts (map Chunk cs) = Some (map Chunk outs, fs)" "concat outs = b"
    by (rule yields_Some[where k = 0, OF ys assms(7)])
  have "length transforms = 3 * length (eng_plugins (rs_engine s))"
    using chain_from_length[OF transforms] assms(4) by (auto simp: native_chain_def ordered_plugins_def)
  then have len: "length ?sts = 3 * length (eng_plugins (rs_engine s)) + 4" by (simp add: bytes_pipeline_def)
  have rounds: "{..<length ?sts} \<subseteq> set (rounds n)" for n unfolding len by (rule assms(8))
  from op_pipeline_returns[where rounds = rounds, OF t(1) rounds cut_off_None_abort[OF signal(2)]] obtain n where
    n: "\<And>turns later s'. map snd turns = concat (map rounds [0..<n]) \<Longrightarrow>
      \<exists>s2. op_pipeline r signal (turns @ later) ?sts (map Chunk cs) s' = (s2, Returns (map Chunk outs))" by blast
  obtain e where e: "startRequest (rs_engine s) r = Inr e" using startRequest_returns[OF ready(3)] by blast
  let ?s = "s\<lparr>rs_engine := e\<rparr>"
  have kept: "eng_limits e = ?limits" "eng_plugins e = eng_plugins (rs_engine s)" "eng_auditLogger e = None"
    using op_start_kept[of r s ?s "()"] ready by (simp_all add: op_start_def e)
  have "\<exists>s2. stream_pipe (w\<lparr>sw_turns := turns @ later\<rparr>) r (map Chunk cs) reverse options s = (s2, Returns (map Chunk outs))"
    if turns: "map snd turns = concat (map rounds [0..<n])" for turns later
  proof -
    obtain s1 where s1: "op_pipeline r signal (turns @ later) ?sts (map Chunk cs) ?s = (s1, Returns (map Chunk outs))"
      using n[OF turns] by blast
    have "same_setting ?s s1" by (rule keeps_setting[OF setting_pipeline s1])
    then have log: "eng_auditLogger (rs_engine s1) = None" using kept(3) by (simp add: same_setting_def)
    define operation where "operation = (if reverse then AuditReverse else AuditProcess)"
    obtain s2 where "finish_request r operation signal (map Chunk outs) s1 = (s2, Returns (map Chunk outs))"
      using finish_returns[OF log signal(2), where a = "map Chunk outs"] by metis
    then have body: "run_bytes (w\<lparr>sw_turns := turns @ later\<rparr>) r reverse signal transforms (map Chunk cs) ?s
        = (s2, Returns (map Chunk outs))"
      unfolding run_bytes_def Returns_iff using s1 kept(1) assms(6) by (simp add: operation_def del: split_paired_Ex)
    have "op_chain (w\<lparr>sw_turns := turns @ later\<rparr>) r reverse signal ?s = (?s, Returns transforms)"
      using build kept by (simp add: chain_state op_check_def)
    then have "stream_pipe (w\<lparr>sw_turns := turns @ later\<rparr>) r (map Chunk cs) reverse options s
        = (s2, Returns (map Chunk outs))"
      unfolding stream_pipe_def open_bytes_def op_bind_assoc bind_return bind_state signal(1) Returns_iff catch_Returns
      using body e ready(1) by (simp add: never_aborted[OF signal(2)] del: split_paired_Ex)
    then show ?thesis by blast
  qed
  then show ?thesis using t(2) by blast
qed

section \<open>The built-in plugins\<close>

text \<open>A chain factory that calls \<open>createStream\<close> of the built-in plugins at \<open>now\<close>.\<close>

definition creates_built_in :: "chain_factory \<Rightarrow> services \<Rightarrow> time \<Rightarrow> engine_limits \<Rightarrow> built_in list \<Rightarrow> bool" where
  "creates_built_in cf sv now limits bs \<longleftrightarrow>
     (\<forall>b \<in> set bs. \<forall>compress.
        cf_create cf (built_in_plugin sv b) compress = built_in_createStream sv now (Some limits) b compress)"

text \<open>The function that undoes a plugin of the engine.\<close>

definition decode_of :: "services \<Rightarrow> engine_limits \<Rightarrow> built_in list \<Rightarrow> plugin \<Rightarrow> buffer \<Rightarrow> px_error + buffer" where
  "decode_of sv limits bs p =
     (case filter (\<lambda>b. built_in_plugin sv b = p) bs of
        b # _ \<Rightarrow> built_in_decode sv (Some limits) b | [] \<Rightarrow> Inr)"

lemma decode_of_member:
  assumes "p \<in> set (map (built_in_plugin sv) bs)"
  obtains b where "b \<in> set bs" "built_in_plugin sv b = p" "decode_of sv limits bs p = built_in_decode sv (Some limits) b"
proof -
  from assms have "filter (\<lambda>b. built_in_plugin sv b = p) bs \<noteq> []" by (auto simp: filter_empty_conv)
  then obtain b rest where f: "filter (\<lambda>b. built_in_plugin sv b = p) bs = b # rest" by (cases "filter (\<lambda>b. built_in_plugin sv b = p) bs") auto
  then have "b \<in> set (filter (\<lambda>b. built_in_plugin sv b = p) bs)" by simp
  then have "b \<in> set bs" "built_in_plugin sv b = p" by simp_all
  then show thesis using f by (intro that[of b]) (simp_all add: decode_of_def)
qed

lemma codec_plugin_streams: "hasStreamSupport (codec_plugin sv name version e d)"
  by (simp add: hasStreamSupport_def codec_plugin_def Let_def)

lemma built_in_streams: "stream_sound sv limits b \<Longrightarrow> hasStreamSupport (built_in_plugin sv b)"
  by (cases b) (simp_all add: hashing_plugin_def compression_plugin_def encryption_plugin_def codec_plugin_streams)

lemma built_in_stream_reversible: "stream_sound sv limits b \<Longrightarrow> supportsReverse (built_in_plugin sv b) = Inr True"
  by (cases b) (simp_all add: hashing_plugin_def compression_plugin_def encryption_plugin_def codec_plugin_reversible)

lemma chain_created:
  assumes "chain_from cf compress reverse dlq sc i ps = Inr sts" "p \<in> set ps" "hasStreamSupport p"
  shows "\<exists>st. cf_create cf p compress = Inr st"
  using assms by (induction ps arbitrary: i sts) (auto simp: plugin_stages_def rbind_eq_Inr)

text \<open>A stream that can encrypt can also be created for decryption.\<close>

lemma created_reversed:
  assumes "stream_sound sv limits b" "built_in_createStream sv now lm b True = Inr st"
  shows "\<exists>st'. built_in_createStream sv now' lm b False = Inr st'"
proof (cases b)
  case (Hashing options)
  then obtain h len where "hmac_for (sv_hmac sv) options h len"
    using assms(1) hmac_ok_for[of "sv_hmac sv" options] by (auto simp: hashing_sound_def)
  then show ?thesis using Hashing by (simp add: hashing_createStream_def hmac_for_def Let_def)
next
  case (Compression options)
  then show ?thesis by (simp add: compression_createStream_def)
next
  case (Encryption options)
  then obtain u where "assertEncryptionKey (opt_key options) = Inr u"
    using assms(2) by (auto simp: encryption_createStream_def createEncryptionStream_def rbind_eq_Inr)
  then show ?thesis using Encryption by (simp add: encryption_createStream_def createDecryptionStream_def)
qed (use assms in simp)

lemma built_in_chain:
  assumes "list_all (stream_sound sv limits) bs" "creates_built_in cf sv now limits bs"
    and "creates_built_in cf2 sv now2 limits bs" "ps = map (built_in_plugin sv) bs"
    and "chain_from cf True False dlq sc i ps = Inr sts"
  shows "encoding_chain cf ps (decode_of sv limits bs) (maxOutputBytes limits)"
    and "native_chain cf2 False (rev ps) (decode_of sv limits bs)"
proof -
  have main: "hasStreamSupport p
    \<and> (\<exists>st. cf_create cf p True = Inr st \<and> encodes st (decode_of sv limits bs p) (maxOutputBytes limits))
    \<and> (\<exists>st. cf_create cf2 p False = Inr st \<and> streams st (decode_of sv limits bs p))" if p: "p \<in> set ps" for p
  proof -
    from p assms(4) obtain b where b: "b \<in> set bs" "built_in_plugin sv b = p"
      "decode_of sv limits bs p = built_in_decode sv (Some limits) b"
      using decode_of_member[of p sv bs limits] by metis
    have sound: "stream_sound sv limits b" using assms(1) b(1) by (simp add: list_all_iff)
    have support: "hasStreamSupport p" using built_in_streams[OF sound] b(2) by simp
    obtain st where st: "cf_create cf p True = Inr st" using chain_created[OF assms(5) p support] by blast
    then have fwd: "built_in_createStream sv now (Some limits) b True = Inr st"
      using assms(2) b by (auto simp: creates_built_in_def)
    obtain st' where st': "built_in_createStream sv now2 (Some limits) b False = Inr st'"
      using created_reversed[OF sound fwd] by blast
    then have "cf_create cf2 p False = Inr st'" using assms(3) b by (auto simp: creates_built_in_def)
    then show ?thesis using support st built_in_encodes[OF sound fwd] built_in_decodes[OF sound st'] b(3) by metis
  qed
  then show "encoding_chain cf ps (decode_of sv limits bs) (maxOutputBytes limits)"
    "native_chain cf2 False (rev ps) (decode_of sv limits bs)"
    by (simp_all add: encoding_chain_def native_chain_def)
qed

lemma pipe_built:
  assumes "stream_pipe w r (map Chunk cs) False options s = (s2, Returns out)"
  shows "\<exists>signal transforms. chain_from (sw_factory w) True False (sw_dlq w)
      (Some (streamContext r signal (eng_limits (rs_engine s)))) 0 (eng_plugins (rs_engine s)) = Inr transforms
    \<and> assertStreamingPipeline (eng_plugins (rs_engine s)) = Inr ()"
proof -
  obtain signal transforms where
    chain: "buildTransformChain (sw_factory w) (eng_plugins (rs_engine s)) True False (sw_dlq w)
       (Some (streamContext r signal (eng_limits (rs_engine s)))) = Inr transforms"
    by (rule pipe_opened[OF assms]) simp
  then have "assertStreamingPipeline (eng_plugins (rs_engine s)) = Inr ()"
    by (auto simp: buildTransformChain_def rbind_eq_Inr)
  then show ?thesis using chain_of_build[OF chain] by (auto simp: ordered_plugins_def)
qed

lemma chain_bytes_bounded: "chain_bytes f m ps b = Some c \<Longrightarrow> ps = [] \<or> length c \<le> m"
  by (induction ps arbitrary: b) (fastforce split: sum.splits if_splits)+

lemma stream_restored:
  assumes "stream_pipe w r (map Chunk cs) False options s = (s2, Returns out)"
    and "eng_plugins (rs_engine s) = map (built_in_plugin sv) bs" "list_all (stream_sound sv (eng_limits (rs_engine s))) bs"
    and "creates_built_in (sw_factory w) sv now (eng_limits (rs_engine s)) bs"
    and "creates_built_in (sw_factory w') sv now' (eng_limits (rs_engine s)) bs"
    and "streams (sw_destination w) Inr" "streams (sw_destination w') Inr" "sw_source_error w' = None"
    and "length (concat cs) \<le> maxOutputBytes (eng_limits (rs_engine s))"
    and "ready_to_stream s' options'" "eng_limits (rs_engine s') = eng_limits (rs_engine s)"
      "eng_plugins (rs_engine s') = eng_plugins (rs_engine s)"
    and "\<And>n. {..<3 * length bs + 4} \<subseteq> set (rounds n)"
  shows "\<exists>outs. out = map Chunk outs \<and> (\<forall>cs'. concat cs' = concat outs \<longrightarrow>
    length (concat outs) \<le> maxInputBytes (eng_limits (rs_engine s)) \<longrightarrow>
    (\<exists>n. \<forall>turns later. map snd turns = concat (map rounds [0..<n]) \<longrightarrow>
      (\<exists>s3 restored. stream_pipe (w'\<lparr>sw_turns := turns @ later\<rparr>) r' (map Chunk cs') True options' s'
        = (s3, Returns (map Chunk restored)) \<and> concat restored = concat cs)))"
proof -
  let ?limits = "eng_limits (rs_engine s)" and ?ps = "eng_plugins (rs_engine s)"
  let ?dec = "decode_of sv ?limits bs"
  obtain signal transforms where
    chain: "chain_from (sw_factory w) True False (sw_dlq w) (Some (streamContext r signal ?limits)) 0 ?ps = Inr transforms"
    and streaming: "assertStreamingPipeline ?ps = Inr ()" using pipe_built[OF assms(1)] by blast
  note built = built_in_chain[OF assms(3-5,2) chain]
  from pipe_encodes[OF assms(1) built(1) assms(6,9)] obtain outs where
    outs: "out = map Chunk outs" "chain_bytes ?dec (maxOutputBytes ?limits) (rev ?ps) (concat outs) = Some (concat cs)"
    by blast
  have "supportsReverse p = Inr True" if "p \<in> set ?ps" for p
    using that assms(2,3) built_in_stream_reversible by (auto simp: list_all_iff)
  then have reversible: "assertReversiblePipeline ?ps = Inr ()" by (simp add: assertReversiblePipeline_iff)
  have "\<exists>n. \<forall>turns later. map snd turns = concat (map rounds [0..<n]) \<longrightarrow>
      (\<exists>s3 restored. stream_pipe (w'\<lparr>sw_turns := turns @ later\<rparr>) r' (map Chunk cs') True options' s'
        = (s3, Returns (map Chunk restored)) \<and> concat restored = concat cs)"
    if cs': "concat cs' = concat outs" "length (concat outs) \<le> maxInputBytes ?limits" for cs'
  proof (rule pipe_returns[where f = ?dec, OF assms(10) _ _ _ assms(7,8)])
    show "assertStreamingPipeline (eng_plugins (rs_engine s')) = Inr ()"
      "True \<longrightarrow> assertReversiblePipeline (eng_plugins (rs_engine s')) = Inr ()"
      using streaming reversible assms(12) by simp_all
    show "native_chain (sw_factory w') (\<not> True) (ordered_plugins True (eng_plugins (rs_engine s'))) ?dec"
      using built(2) assms(12) by (simp add: ordered_plugins_def)
    show "pipeline_bytes ?dec (eng_limits (rs_engine s')) (ordered_plugins True (eng_plugins (rs_engine s'))) (concat cs')
        = Some (concat cs)"
      using outs(2) cs' assms(9,11,12) by (simp add: pipeline_bytes_def ordered_plugins_def)
    show "{..<3 * length (eng_plugins (rs_engine s')) + 4} \<subseteq> set (rounds n)" for n
      using assms(2,12,13) by simp
  qed
  then show ?thesis using outs(1) by blast
qed

section \<open>Properties\<close>



text \<open>An engine with one hashing plugin and no time limit, and a world for it.\<close>

definition streaming_state :: run_state where
  "streaming_state = start_state (fresh_engine\<lparr>eng_limits := DEFAULT_LIMITS\<lparr>operationTimeoutMs := 0\<rparr>,
     eng_plugins := [built_in_plugin toy_services (Hashing sha256_options)]\<rparr>)"

definition streaming_world :: "(time \<times> nat) list \<Rightarrow> stream_world" where
  "streaming_world turns =
     \<lparr>sw_factory = \<lparr>cf_create = (\<lambda>p. built_in_createStream toy_services 0
          (Some (DEFAULT_LIMITS\<lparr>operationTimeoutMs := 0\<rparr>)) (Hashing sha256_options)),
        cf_clock = (\<lambda>_. \<lparr>ck_arrival = (\<lambda>_. 0), ck_closed = None, ck_uuid = ''''\<rparr>)\<rparr>,
      sw_dlq = None, sw_turns = turns, sw_source_error = None, sw_destination = source_stage None\<rparr>"

definition streaming_rounds :: "nat \<Rightarrow> nat list" where
  "streaming_rounds n = [6, 5, 4, 3, 2, 1, 0]"

lemma streams_relay: "streams (source_stage None) Inr"
  unfolding streams_def run_source_stage by (simp, blast)

lemma streaming_ready: "ready_to_stream streaming_state default_options"
  by (simp add: ready_to_stream_def evaluate_signal streaming_state_def start_state_def fresh_engine_def no_cut_off
      DEFAULT_LIMITS_def)

lemma streaming_rounds_cover: "{..<3 * length [Hashing sha256_options] + 4} \<subseteq> set (streaming_rounds n)"
  by (auto simp: streaming_rounds_def)

lemma streaming_sound: "list_all (stream_sound toy_services limits) [Hashing sha256_options]"
  using sha256_length hmac_ok_toy by (simp add: hashing_sound_def toy_services_def)

lemma streaming_creates:
  "creates_built_in (sw_factory (streaming_world turns)) toy_services 0
     (eng_limits (rs_engine streaming_state)) [Hashing sha256_options]"
  by (simp add: creates_built_in_def streaming_world_def streaming_state_def start_state_def)

definition streaming_hash :: "plugin \<Rightarrow> buffer \<Rightarrow> px_error + buffer" where
  "streaming_hash p b = map_sum id fst (hashing_process toy_hmac sha256_options b
     (limits_context (Some (DEFAULT_LIMITS\<lparr>operationTimeoutMs := 0\<rparr>))))"

lemma streaming_native:
  "native_chain (sw_factory (streaming_world turns)) True (eng_plugins (rs_engine streaming_state)) streaming_hash"
proof -
  let ?limits = "Some (DEFAULT_LIMITS\<lparr>operationTimeoutMs := 0\<rparr>)"
  obtain st where st: "hashing_createStream toy_hmac sha256_options ?limits True = Inr st"
    using toy_hmac_for by (simp add: hashing_createStream_def hmac_for_def Let_def)
  have "streams st (streaming_hash p)" for p
    using hashing_signs[OF toy_hmac_for st] by (simp add: streaming_hash_def[abs_def])
  then show ?thesis using st built_in_streams[of toy_services undefined "Hashing sha256_options"] streaming_sound
    by (auto simp: native_chain_def streaming_world_def streaming_state_def start_state_def toy_services_def)
qed

lemma streaming_bytes:
  "pipeline_bytes streaming_hash (eng_limits (rs_engine streaming_state)) (eng_plugins (rs_engine streaming_state)) [1, 2]
     = Some ([1, 2] @ toy_digest [1, 2])"
proof -
  let ?ctx = "limits_context (Some (DEFAULT_LIMITS\<lparr>operationTimeoutMs := 0\<rparr>))"
  have "hashing_process toy_hmac sha256_options [1, 2] ?ctx =
      Inr ([1, 2] @ toy_digest [1, 2], set_metadata ''hmac'' (hex (toy_digest [1, 2])) ?ctx)"
    by (subst hashing_process_iff[OF toy_hmac_for])
      (simp add: limits_context_def pluginInputLimit_def pluginOutputLimit_def context_limits_def
        DEFAULT_LIMITS_def Let_def)
  then show ?thesis
    by (simp add: pipeline_bytes_def streaming_hash_def streaming_state_def start_state_def DEFAULT_LIMITS_def toy_digest_def)
qed

lemma streaming_runs:
  "\<exists>turns s2 outs. stream_pipe (streaming_world turns) ''r'' (map Chunk [[1], [2]]) False default_options streaming_state
     = (s2, Returns (map Chunk outs)) \<and> concat outs = [1, 2] @ toy_digest [1, 2]"
proof -
  have "assertStreamingPipeline (eng_plugins (rs_engine streaming_state)) = Inr ()"
    by (simp add: assertStreamingPipeline_def supportsOperation_def getPluginCapabilities_def hashing_plugin_def
        codec_plugin_def base_reversible_def has_own_reverse_def streaming_state_def start_state_def Let_def)
  moreover have "{..<3 * length (eng_plugins (rs_engine streaming_state)) + 4} \<subseteq> set (streaming_rounds n)" for n
    using streaming_rounds_cover by (simp add: streaming_state_def start_state_def)
  moreover have "streams (sw_destination (streaming_world [])) Inr" "sw_source_error (streaming_world []) = None"
    using streams_relay by (simp_all add: streaming_world_def)
  ultimately have "\<exists>n. \<forall>turns later. map snd turns = concat (map streaming_rounds [0..<n]) \<longrightarrow>
      (\<exists>s2 outs. stream_pipe ((streaming_world [])\<lparr>sw_turns := turns @ later\<rparr>) ''r'' (map Chunk [[1], [2]]) False
          default_options streaming_state = (s2, Returns (map Chunk outs)) \<and> concat outs = [1, 2] @ toy_digest [1, 2])"
    using pipe_returns[OF streaming_ready, where reverse = False and w = "streaming_world []" and f = streaming_hash
        and cs = "[[1], [2]]" and b = "[1, 2] @ toy_digest [1, 2]" and rounds = streaming_rounds and r = "''r''"]
      streaming_native streaming_bytes by (simp add: ordered_plugins_def)
  then obtain n where n: "\<forall>turns later. map snd turns = concat (map streaming_rounds [0..<n]) \<longrightarrow>
      (\<exists>s2 outs. stream_pipe ((streaming_world [])\<lparr>sw_turns := turns @ later\<rparr>) ''r'' (map Chunk [[1], [2]]) False
          default_options streaming_state = (s2, Returns (map Chunk outs)) \<and> concat outs = [1, 2] @ toy_digest [1, 2])"
    by blast
  define turns where "turns = map (Pair (0 :: time)) (concat (map streaming_rounds [0..<n]))"
  have "map snd turns = concat (map streaming_rounds [0..<n])" by (simp add: turns_def comp_def)
  moreover have "(streaming_world [])\<lparr>sw_turns := turns @ []\<rparr> = streaming_world turns"
    by (simp add: streaming_world_def)
  ultimately show ?thesis using n by (metis (no_types))
qed



end
