(* ===== verification/File_Transform.thy ===== *)
theory File_Transform
  imports File_Paths Stream_Round_Trip
begin

text \<open>
  \<open>process\<close> and \<open>reverse\<close> of the \<open>FileController\<close> from file to file, when no other process interferes: which
  input they read, what the plugins make of it, and which file they write.
\<close>

section \<open>The open input\<close>

text \<open>A session whose input is behind \<open>x\<close>, at its start.\<close>

definition input_at :: "fd \<Rightarrow> ino \<Rightarrow> file_session \<Rightarrow> bool" where
  "input_at x j s \<longleftrightarrow> ss_inputFD s = x \<and> well_linked (ss_fs s) \<and> fs_fds (ss_fs s) x = Some (j, 0)"

definition leaves :: "fd \<Rightarrow> (file_system \<Rightarrow> (file_system \<times> 'a) option) \<Rightarrow> bool" where
  "leaves x f \<longleftrightarrow> grows f \<and> (\<forall>fs fs' a. well_linked fs \<longrightarrow> f fs = Some (fs', a) \<longrightarrow> fs_fds fs x \<noteq> None
     \<longrightarrow> fs_fds fs' x = fs_fds fs x)"

lemma leaves_openat: "leaves x (fs_openat cr fd name kind mode)"
  unfolding leaves_def using grows_openat openat_old_fd by (metis not_None_eq)

lemma leaves_mkdirat: "leaves x (fs_mkdirat cr fd name mode)"
  unfolding leaves_def using grows_mkdirat
  by (auto simp: fs_mkdirat_def new_node_def Let_def split: option.splits if_splits)

lemma leaves_same: "leaves x (fs_fcntl fd)" "leaves x (fs_fstat fd)"
  unfolding leaves_def using grows_same(1,2)
  by (auto simp: fs_fcntl_def fs_fstat_def split: option.splits if_splits)

lemma leaves_close: "fd \<noteq> x \<Longrightarrow> leaves x (fs_close fd)"
  unfolding leaves_def using grows_close by (auto simp: fs_close_def split: if_splits)

lemmas leaves_rules = leaves_openat leaves_mkdirat leaves_same leaves_close

lemma input_at_call:
  assumes "input_at x j s" "after_call s s'" "leaves x f" "f (ss_fs s) = Some (ss_fs s', a)"
  shows "input_at x j s'"
proof -
  have "well_linked (ss_fs s')" "fs_fds (ss_fs s') x = fs_fds (ss_fs s) x"
    using assms(1,3,4) unfolding leaves_def grows_def input_at_def by (blast, metis option.distinct(1))
  then show ?thesis using assms(1,2) by (simp add: input_at_def after_call_def)
qed

lemma input_at_same: "input_at x j s \<Longrightarrow> after_call s s' \<Longrightarrow> ss_fs s' = ss_fs s \<Longrightarrow> input_at x j s'"
  by (simp add: input_at_def after_call_def)

lemma keeps_input_op_sys:
  assumes "quiet os" "leaves x f"
  shows "keeps (input_at x j) (op_sys os e f)"
  by (rule valid_quiet_op_sys[OF assms(1)]) (blast intro: input_at_same input_at_call assms(2))+

lemma keeps_input_set: "(\<And>s. ss_inputFD (f s) = ss_inputFD s) \<Longrightarrow> (\<And>s. ss_fs (f s) = ss_fs s) \<Longrightarrow> keeps (input_at x j) (op_set f)"
  by (rule keeps_set) (simp add: input_at_def)

lemma keeps_input_openChild: "quiet os \<Longrightarrow> keeps (input_at x j) (openChild os fd name kind mode)"
  unfolding openChild_def by (intro keeps_calls keeps_input_op_sys leaves_rules keeps_input_set) simp_all

lemma keeps_input_temporary: "quiet os \<Longrightarrow> keeps (input_at x j) (open_temporary os temporary fd)"
  unfolding open_temporary_def split_def
  by (intro keeps_calls keeps_input_op_sys keeps_input_openChild leaves_rules keeps_input_set) simp_all

lemma alias_keeps_input:
  assumes "check_alias os source fd name s = (s', Returns ())" "quiet os" "input_at x j s"
  shows "input_at x j s'"
proof -
  have close_it: "keeps (input_at x j) (op_finally
      (op_bind (op_sys os system_error (fs_fstat found)) (\<lambda>(target, node, mode, owner).
         op_check (throw_if (source = target) same_files)))
      (op_sys os system_error (fs_close found)))" if "found \<noteq> x" for found
    using assms(2) that by (auto intro!: keeps_calls keeps_input_op_sys leaves_rules simp: split_def)
  obtain s1 r where s1: "sys os (fs_openat (os_credentials os) fd name OpenRead 0) s = (s1, Returns r)"
    and rest: "(case r of None \<Rightarrow> op_return () | Some found \<Rightarrow> op_finally
      (op_bind (op_sys os system_error (fs_fstat found)) (\<lambda>(target, node, mode, owner).
         op_check (throw_if (source = target) same_files)))
      (op_sys os system_error (fs_close found))) s1 = (s', Returns ())"
    using assms(1) by (auto simp: check_alias_def bind_Returns)
  obtain fault where call: "call_with os fault (fs_openat (os_credentials os) fd name OpenRead 0) s = (s1, r)"
    using s1 by (auto simp: sys_call)
  note step = quiet_call[OF assms(2) call]
  show ?thesis
  proof (cases r)
    case None
    then show ?thesis using rest input_at_same[OF assms(3) step(1)] step(2) by (simp add: op_return_def)
  next
    case (Some found)
    then have run: "fs_openat (os_credentials os) fd name OpenRead 0 (ss_fs s) = Some (ss_fs s1, found)"
      using step(2) by simp
    obtain d i where new: "entry (fs_nodes (ss_fs s)) d name = Some i" "new_fd (ss_fs s) i = (ss_fs s1, found)"
      using openat_old[OF run open_kind.distinct(5)] by (elim exE conjE)
    have "found \<noteq> x" using new_fd_looks(3)[OF _ linkedD(1) new(2), of d name j] new(1) assms(3)
      by (auto simp: input_at_def holds_def)
    then show ?thesis
      using valid_Returns[OF close_it input_at_call[OF assms(3) step(1) leaves_openat run]] rest Some by simp
  qed
qed

text \<open>The input that \<open>open_input\<close> leaves open is the file at its path.\<close>

lemma lookup_basename:
  assumes "lookup v root_ino (butlast q) = Some d" "basename q \<noteq> []" "lookup v d [basename q] = Some j"
  shows "lookup v root_ino q = Some j"
proof -
  have "q \<noteq> []" using assms(2) by (auto simp: basename_def)
  then have "q = butlast q @ [basename q]" by (simp add: basename_def)
  then show ?thesis using assms(1,3) lookup_append[of v root_ino "butlast q" "[basename q]"] by simp
qed

lemma child_input:
  assumes "openChild os fd name OpenRead 0 s = (s', Returns x)" "quiet os" "unaltered fs0 F H s" "(fd, d) \<in> H"
  shows "\<exists>j. name \<noteq> [] \<and> lookup (fs_nodes fs0) d [name] = Some j \<and> j < fs_next fs0 \<and> input_at x j (s'\<lparr>ss_inputFD := x\<rparr>)"
proof -
  obtain s1 where s1: "op_sys os (file_failure ''relative open'') (fs_openat (os_credentials os) fd name OpenRead 0) s
      = (s1, Returns x)"
    and s2: "op_sys os (file_failure ''descriptor inheritance protection'') (fs_fcntl x)
      (s1\<lparr>ss_descriptors := ss_descriptors s1 @ [x]\<rparr>) = (s', Returns ())"
    using assms(1) by (auto simp: openChild_def Returns_iff set_Returns)
  note run = quiet_op_sys(2)[OF s1 assms(2)]
  obtain d' j where j: "dir_of (ss_fs s) fd = Some d'" "lookup (fs_nodes (ss_fs s)) d' [name] = Some j"
    "entry (fs_nodes (ss_fs s)) d' name = Some j" "new_fd (ss_fs s) j = (ss_fs s1, x)"
    using openat_old[OF run open_kind.distinct(5)] by (elim exE conjE)
  have linked: "well_linked (ss_fs s)" and held: "holds (ss_fs s) fd d"
    and same: "fs_nodes (ss_fs s) = fs_nodes fs0" "fs_next (ss_fs s) = fs_next fs0"
    using assms(3,4) by (auto simp: unaltered_def)
  have "j < fs_next (ss_fs s)" using linkedD(1)[OF linked j(3)] .
  moreover have "name \<noteq> []" using run j(1) by (auto simp: fs_openat_def)
  moreover have "well_linked (ss_fs s1)" "fs_fds (ss_fs s1) x = Some (j, 0)"
    using well_linked_new_fd[OF linked calculation(1) j(4)] openat_fds[OF run] new_fd_looks(2)[OF linked calculation(1) j(4)]
    by (auto simp: holds_def)
  then have "fs_fds (ss_fs s') x = Some (j, 0)" "well_linked (ss_fs s')"
    using quiet_op_sys(2)[OF s2 assms(2)] fcntl_same by fastforce+
  then have "input_at x j (s'\<lparr>ss_inputFD := x\<rparr>)" by (simp add: input_at_def)
  moreover have "d' = d" using dir_of_holds[OF j(1) held] .
  ultimately show ?thesis using j(2) same by auto
qed

lemma opened_input:
  assumes "open_input os input output s = (s', Returns r)" "quiet os" "unaltered fs0 (Some (None, None)) {} s"
  shows "\<exists>x j. lookup (fs_nodes fs0) root_ino input = Some j \<and> j < fs_next fs0 \<and> input_at x j s'"
proof -
  obtain s1 ip s2 op s3 x source node mode owner where s1: "openParent os input s = (s1, Returns ip)"
    and s2: "openParent os output s1 = (s2, Returns op)"
    and s3: "openChild os ip (basename input) OpenRead 0 (s2\<lparr>ss_outputParent := Some op\<rparr>) = (s3, Returns x)"
    and s4: "op_sys os system_error (fs_fstat x) (s3\<lparr>ss_inputFD := x\<rparr>) = (s', Returns (source, node, mode, owner))"
    using assms(1) by (auto simp: open_input_def Returns_iff set_Returns check_Returns split: prod.splits)
  have parent: "valid (unaltered fs0 (Some (None, None)) H) (openParent os filename) (\<lambda>fd s. \<exists>i.
      lookup (fs_nodes fs0) root_ino (butlast filename) = Some i \<and> unaltered fs0 (Some (None, None)) (insert (fd, i) H) s)
      (idle_session fs0)" for H filename
    by (rule valid_openParent[OF assms(2) unaltered_idle])
  obtain d where d: "lookup (fs_nodes fs0) root_ino (butlast input) = Some d"
    and u1: "unaltered fs0 (Some (None, None)) {(ip, d)} s1"
    using valid_Returns[OF parent assms(3) s1] by blast
  obtain p where u2: "unaltered fs0 (Some (None, None)) {(op, p), (ip, d)} s2"
    using valid_Returns[OF parent u1 s2] by blast
  have u3: "unaltered fs0 (Some (None, Some op)) {(ip, d)} (s2\<lparr>ss_outputParent := Some op\<rparr>)"
    using u2 by (auto simp: unaltered_def)
  obtain j where j: "basename input \<noteq> []" "lookup (fs_nodes fs0) d [basename input] = Some j" "j < fs_next fs0"
    "input_at x j (s3\<lparr>ss_inputFD := x\<rparr>)"
    using child_input[OF s3 assms(2) u3] by blast
  have "input_at x j s'"
    by (rule valid_Returns[OF keeps_input_op_sys[OF assms(2) leaves_same(2)] j(4) s4])
  then show ?thesis using lookup_basename[OF d j(1,2)] j(3) by blast
qed

lemma posix_input:
  assumes "openPosix os uuid input output s = (s', Returns ())" "quiet os" "unaltered fs0 None {} s"
  shows "\<exists>x j. lookup (fs_nodes fs0) root_ino input = Some j \<and> j < fs_next fs0 \<and> input_at x j s'"
proof -
  obtain s1 s2 i p where s1: "open_input os input output (new_session s) = (s1, Returns (i, p))"
    and s2: "check_alias os i p (basename output) s1 = (s2, Returns ())"
    and s3: "open_temporary os (temporary_name uuid) p s2 = (s', Returns ())"
    using assms(1) by (auto simp: openPosix_def bind_Returns set_Returns rollback_Returns split: prod.splits)
  have "unaltered fs0 (Some (None, None)) {} (new_session s)"
    using assms(3) by (simp add: unaltered_def new_session_def)
  from opened_input[OF s1 assms(2) this] obtain x j where
    j: "lookup (fs_nodes fs0) root_ino input = Some j" "j < fs_next fs0" "input_at x j s1" by blast
  show ?thesis
    using j valid_Returns[OF keeps_input_temporary[OF assms(2)] alias_keeps_input[OF s2 assms(2) j(3)] s3] by blast
qed

text \<open>What a session has opened, by the paths it was given.\<close>

lemma session_paths:
  assumes "openAtomicFileSession os cwd uuid i out base s = (s', Returns (input, outp))" "quiet os"
    and "unaltered fs0 None {} s" "proper cwd"
  shows "\<exists>x j. realpath (fs_nodes fs0) (path_resolve cwd i) = Some (input, j) \<and> j < fs_next fs0 \<and> input_at x j s'"
    and "\<exists>p. realpath (fs_nodes fs0) (butlast (path_resolve cwd out)) = Some (butlast outp, p)
      \<and> basename outp = basename (path_resolve cwd out)"
proof -
  obtain s1 s2 s3 b where s1: "op_realpath os (case base of None \<Rightarrow> cwd | Some r \<Rightarrow> path_resolve cwd r) s = (s1, Returns b)"
    and s2: "assertExists os cwd i b s1 = (s2, Returns input)"
    and s3: "resolveOutputPath os cwd out b s2 = (s3, Returns outp)"
    and s4: "openPosix os uuid input outp s3 = (s', Returns ())"
    using assms(1) by (auto simp: openAtomicFileSession_def Returns_iff)
  note u1 = valid_Returns[OF unaltered_paths(1)[OF assms(2)] assms(3) s1]
  note u2 = valid_Returns[OF unaltered_paths(3)[OF assms(2)] u1 s2]
  note u3 = valid_Returns[OF unaltered_paths(4)[OF assms(2)] u2 s3]
  obtain j' where "realpath (fs_nodes fs0) (path_resolve cwd i) = Some (input, j')"
    using input_path[OF s2 assms(2) u1] by blast
  then show "\<exists>x j. realpath (fs_nodes fs0) (path_resolve cwd i) = Some (input, j) \<and> j < fs_next fs0 \<and> input_at x j s'"
    using posix_input[OF s4 assms(2) u3] realpath_lookup by fastforce
  show "\<exists>p. realpath (fs_nodes fs0) (butlast (path_resolve cwd out)) = Some (butlast outp, p)
      \<and> basename outp = basename (path_resolve cwd out)"
    using output_path[OF s3 assms(2) u2 assms(4)] by blast
qed

section \<open>What is read\<close>

lemma read_from_all: "read_from os n b = (cs, None) \<Longrightarrow> concat cs = b"
proof (induction os n b arbitrary: cs rule: read_from.induct)
  case (1 os n b)
  show ?case
  proof (cases "os_read os n = None \<or> b = []")
    case True
    then show ?thesis using "1.prems" by (auto simp: read_from.simps[of os n b] split: option.splits)
  next
    case False
    then obtain count where count: "os_read os n = Some count" by auto
    let ?k = "max 1 (min count HIGH_WATER)"
    obtain cs' where cs: "cs = take ?k b # cs'" and rest: "read_from os (n + 1) (drop ?k b) = (cs', None)"
      using "1.prems" False count
      by (cases "read_from os (n + 1) (drop ?k b)") (auto simp: read_from.simps[of os n b] Let_def)
    have "concat cs' = drop ?k b" using "1.IH"[OF count _ refl rest] False by blast
    then show ?thesis by (simp add: cs)
  qed
qed

lemma read_input:
  assumes "session_read os s = (cs, None)" "input_at x j s" "kept tmp fs0 (fs_nodes (ss_fs s))" "j < fs_next fs0"
  shows "file_bytes (fs_nodes fs0) j = Some (concat cs)"
proof -
  obtain b where b: "file_bytes (fs_nodes (ss_fs s)) j = Some b" "read_from os 0 b = (cs, None)"
    using assms(1,2) by (auto simp: session_read_def input_at_def split: option.splits)
  have "fs_nodes (ss_fs s) j = fs_nodes fs0 j"
    using differsD(2)[OF assms(3,4)] b(1) by (auto simp: file_bytes_Some is_directory_def split: if_splits)
  then show ?thesis using b(1) read_from_all[OF b(2)] by (simp add: file_bytes_def)
qed

section \<open>From file to file\<close>

lemma on_run_step: "on_run m s = (s', out) \<Longrightarrow> m (fl_run s) = (fl_run s', out)"
  by (auto simp: on_run_def split: prod.splits)

lemma on_files_run: "on_files m s = (s', out) \<Longrightarrow> fl_run s' = fl_run s"
  by (auto simp: on_files_def split: prod.splits)

lemma file_catch_Returns: "file_catch r body s = (s', Returns a) \<longleftrightarrow> body s = (s', Returns a)"
  by (auto simp: file_catch_def split: prod.splits flow.splits)

lemma finally_Returns: "op_finally m f s = (s', Returns a) \<Longrightarrow> \<exists>s1. m s = (s1, Returns a)"
  by (auto simp: op_finally_def split: prod.splits flow.splits)

lemma with_session_Returns:
  assumes "with_session w signal run output s = (s', Returns a)"
  shows "\<exists>s1. run s = (s1, Returns a)"
proof -
  obtain s1 where "op_bind run (\<lambda>a. op_bind (on_run (op_aborted signal)) (\<lambda>_.
        op_bind (on_files (session_commit (fw_os w) output)) (\<lambda>_. op_return a))) s = (s1, Returns a)"
    using finally_Returns[OF assms[unfolded with_session_def]] by (elim exE)
  then show ?thesis unfolding Returns_iff by blast
qed

definition same_plan :: "run_state \<Rightarrow> run_state \<Rightarrow> bool" where
  "same_plan s s' \<longleftrightarrow> eng_limits (rs_engine s') = eng_limits (rs_engine s)
     \<and> eng_plugins (rs_engine s') = eng_plugins (rs_engine s)"

lemma open_values_plan:
  assumes "open_values r options s = (s', Returns signal)"
  shows "same_plan s s'"
  using assms op_start_kept[of r s s']
  unfolding open_values_def bind_state bind_Returns check_Returns aborted_Returns return_Returns same_plan_def by auto

lemma plugin_pipeline_stages:
  assumes "plugin_pipeline w r reverse signal s = (s', Returns sts)"
  shows "\<exists>transforms. buildTransformChain (sw_factory (fw_streams w)) (eng_plugins (rs_engine s)) (\<not> reverse) reverse
      (sw_dlq (fw_streams w)) (Some (streamContext r signal (eng_limits (rs_engine s)))) = Inr transforms
    \<and> sts = bytes_pipeline (eng_limits (rs_engine s)) transforms \<and> s' = s"
  using assms unfolding plugin_pipeline_def bind_state Returns_iff op_chain_def Let_def
  by (auto simp: check_Returns op_state_def)

text \<open>The destination passes on what it has written.\<close>

lemma sink_write_pushes: "sink_write os n chunk = (ems, r) \<Longrightarrow> pushed ems = []"
proof (induction os n chunk arbitrary: ems r rule: sink_write.induct)
  case (1 os n chunk)
  show ?case
  proof (cases "chunk = [] \<or> os_write os n = None \<or> min (the (os_write os n)) (length chunk) = 0")
    case True
    then show ?thesis using "1.prems" by (auto simp: sink_write.simps[of os n chunk] split: option.splits if_splits)
  next
    case False
    then obtain room where room: "os_write os n = Some room" by auto
    obtain ems' r' where rest: "sink_write os (n + 1) (drop room chunk) = (ems', r')"
      by (cases "sink_write os (n + 1) (drop room chunk)")
    have "pushed ems' = []" using "1.IH"[OF _ room _ rest] False room by simp
    moreover have "sink_write os n chunk = (Effect (Wrote chunk) # ems', r')"
      using False room rest by (subst sink_write.simps) (simp del: min_less_iff_conj)
    ultimately show ?thesis using "1.prems" by simp
  qed
qed

lemma sink_passes:
  assumes "run_stage (file_sink os n) (map Chunk cs) = (ems, Returns u)"
  shows "pushed ems = map Chunk cs"
proof -
  have feed: "feed_stage (file_sink os n) (map Chunk cs) = (ems, Returns st) \<Longrightarrow>
      pushed ems = map Chunk cs \<and> on_end st = ([], Returns ())" for ems st
  proof (induction cs arbitrary: n ems)
    case Nil
    then show ?case by (auto simp: sink_end)
  next
    case (Cons c cs)
    obtain ems1 fl1 where c1: "on_chunk (file_sink os n) (Chunk c) = (ems1, fl1)"
      by (cases "on_chunk (file_sink os n) (Chunk c)")
    then obtain st1 where fl1: "fl1 = Returns st1" using Cons.prems by (cases fl1) auto
    obtain ems' m where b: "sink_write os n c = (ems', Returns m)" "ems1 = ems' @ [Push (Chunk c)]" "st1 = file_sink os m"
      using sink_chunk[OF c1 fl1] by auto
    obtain ems2 fl2 where c2: "feed_stage (file_sink os m) (map Chunk cs) = (ems2, fl2)"
      by (cases "feed_stage (file_sink os m) (map Chunk cs)")
    then have "ems = ems1 @ ems2" "fl2 = Returns st" using Cons.prems c1 fl1 b(3) by auto
    then show ?case using Cons.IH c2 b(2) sink_write_pushes[OF b(1)] by simp
  qed
  obtain ems1 fl1 where c: "feed_stage (file_sink os n) (map Chunk cs) = (ems1, fl1)"
    by (cases "feed_stage (file_sink os n) (map Chunk cs)")
  then obtain st where "fl1 = Returns st" using assms by (cases fl1) (auto simp: run_stage_def)
  then show ?thesis using feed[of ems1 st] c assms by (auto simp: run_stage_def)
qed

lemma through_sink: "through k [file_sink os n] (map Chunk cs) = Some (out, fs) \<Longrightarrow> out = map Chunk cs"
  using sink_passes by (auto split: prod.splits flow.splits)

lemma through_before:
  "through k (sts @ [st]) xs = Some (out, fs) \<Longrightarrow>
     \<exists>mid fs' k' fs''. through k sts xs = Some (mid, fs') \<and> through k' [st] mid = Some (out, fs'')"
proof (induction sts arbitrary: k xs fs)
  case Nil
  then show ?case by (simp, blast)
next
  case (Cons a sts)
  obtain ems where a: "run_stage a xs = (ems, Returns ())"
    using Cons.prems by (auto split: prod.splits flow.splits)
  then obtain fs' where "through (k + 1) (sts @ [st]) (pushed ems) = Some (out, fs')"
    using Cons.prems by (auto split: prod.splits)
  from Cons.IH[OF this] show ?case using a by fastforce
qed

lemma file_pipeline_Returns:
  assumes "file_pipeline w r signal sts s = (s', Returns out)"
  shows "\<exists>chunks n fs. session_read (fw_os w) (fl_files s) = (chunks, None)
    \<and> through 0 (source_stage None # sts @ [file_sink (fw_os w) n]) (map Chunk chunks) = Some (out, fs)"
proof -
  obtain chunks failure where read: "session_read (fw_os w) (fl_files s) = (chunks, failure)"
    by (cases "session_read (fw_os w) (fl_files s)")
  let ?sts = "source_stage failure # sts @ [file_sink (fw_os w) (ss_writes (fl_files s))]"
  obtain s1 where "op_pipeline r signal (sw_turns (fw_streams w)) ?sts (map Chunk chunks) (fl_run s) = (s1, Returns out)"
    using assms read by (auto simp: file_pipeline_def Let_def split: prod.splits)
  from pipeline_returns[OF this] obtain fs where t: "through 0 ?sts (map Chunk chunks) = Some (out, fs)" by blast
  moreover have "failure = None" using t source_error_stops by (cases failure) auto
  ultimately show ?thesis using read by blast
qed

text \<open>The steps of an operation that returns.\<close>

abbreviation file_transform where
  "file_transform w r reverse \<equiv> if reverse then file_reverse w r else file_process w r"

lemma transform_operation:
  "file_transform w r reverse = file_operation w r (if reverse then AuditReverse else AuditProcess) no_schema
     (plugin_pipeline w r reverse)"
  by (simp add: file_process_def file_reverse_def)

lemma operation_session:
  assumes "file_transform w r reverse i out base options s = (s', Returns items)"
  obtains signal s1 s2 where "same_plan (fl_run s) (fl_run s1)" "fl_files s1 = fl_files s"
    and "withAtomicOutput w i out base signal
      (op_bind (on_run (plugin_pipeline w r reverse signal)) (file_pipeline w r signal)) s1 = (s2, Returns items)"
    and "fl_files s' = fl_files s2"
proof -
  let ?stages = "plugin_pipeline w r reverse"
  obtain signal s0 s1 s2 a u where s0: "on_run (open_values r options) s = (s0, Returns signal)"
    and s1: "on_run no_schema s0 = (s1, Returns u)"
    and s2: "withAtomicOutput w i out base signal (op_bind (on_run (?stages signal)) (file_pipeline w r signal)) s1
      = (s2, Returns a)"
    and s': "on_run (finish_request r (if reverse then AuditReverse else AuditProcess) signal a) s2 = (s', Returns items)"
    using assms unfolding transform_operation file_operation_def bind_Returns file_catch_Returns by (elim exE conjE) (rule that)
  have "a = items" using finish_Returns[OF on_run_step[OF s']] by simp
  have "fl_run s1 = fl_run s0"
    using on_run_step[OF s1] by (auto simp: no_schema_def bind_state check_Returns)
  then have "same_plan (fl_run s) (fl_run s1)" using open_values_plan[OF on_run_step[OF s0]] by simp
  then show thesis using that s2 \<open>a = items\<close> on_run_files[OF s0] on_run_files[OF s1] on_run_files[OF s'] by simp
qed

lemma withAtomicOutput_steps:
  assumes "withAtomicOutput w i out base signal run s = (s', Returns a)"
  obtains s1 input outp s2 where
    "on_files (openAtomicFileSession (fw_os w) (fw_cwd w) (fw_uuid w) i out base) s = (s1, Returns (input, outp))"
    and "run s1 = (s2, Returns a)"
proof -
  obtain s1 io where o: "on_files (openAtomicFileSession (fw_os w) (fw_cwd w) (fw_uuid w) i out base) s = (s1, Returns io)"
    and run: "(case io of (input, outp) \<Rightarrow> with_session w signal run outp) s1 = (s', Returns a)"
    using assms unfolding withAtomicOutput_def bind_Returns by (elim exE conjE) (rule that)
  obtain input outp where io: "io = (input, outp)" by (cases io)
  then obtain s2 where "run s1 = (s2, Returns a)" using with_session_Returns run by fastforce
  then show thesis using that o io by blast
qed

text \<open>
  An operation that returns has read a file, has sent its bytes through the stages of the plugins, and has
  put what they made of it under the name of the output.
\<close>

lemma transform_runs:
  assumes "file_transform w r reverse i out base options s = (s', Returns items)"
    and "quiet (fw_os w)" "well_linked fs0" "ss_seen (fl_files s) = []" "proper (fw_cwd w)" "fs0 = ss_fs (fl_files s)"
    and "tmp = temporary_name (fw_uuid w)" "name = basename (path_resolve (fw_cwd w) out)"
    and "limits = eng_limits (rs_engine (fl_run s))" "plugins = eng_plugins (rs_engine (fl_run s))"
  obtains input j parent p k outs chunks signal transforms n fs where
    "realpath (fs_nodes fs0) (path_resolve (fw_cwd w) i) = Some (input, j)"
    "file_bytes (fs_nodes fs0) j = Some (concat chunks)"
    "realpath (fs_nodes fs0) (butlast (path_resolve (fw_cwd w) out)) = Some (parent, p)"
    "is_directory (fs_nodes fs0) p" "fs_next fs0 \<le> k"
    "items = map Chunk outs" "replaced tmp fs0 p name k (concat outs) (fs_nodes (ss_fs (fl_files s')))"
    "\<forall>v \<in> set (ss_seen (fl_files s')). kept tmp fs0 v \<or> replaced tmp fs0 p name k (concat outs) v"
    "buildTransformChain (sw_factory (fw_streams w)) plugins (\<not> reverse) reverse (sw_dlq (fw_streams w))
       (Some (streamContext r signal limits)) = Inr transforms"
    "through 0 (source_stage None # bytes_pipeline limits transforms @ [file_sink (fw_os w) n]) (map Chunk chunks)
       = Some (items, fs)"
proof -
  let ?open = "openAtomicFileSession (fw_os w) (fw_cwd w) (fw_uuid w) i out base"
  obtain signal s1 s2 where plan: "same_plan (fl_run s) (fl_run s1)" and files1: "fl_files s1 = fl_files s"
    and atomic: "withAtomicOutput w i out base signal
      (op_bind (on_run (plugin_pipeline w r reverse signal)) (file_pipeline w r signal)) s1 = (s2, Returns items)"
    and files2: "fl_files s' = fl_files s2"
    by (rule operation_session[OF assms(1)])
  have start: "well_linked (ss_fs (fl_files s1))" "ss_seen (fl_files s1) = []" "fs0 = ss_fs (fl_files s1)"
    using assms(3,4,6) by (simp_all add: files1)
  have rest: "unaltered fs0 None {} (fl_files s1)" using start by (simp add: unaltered_def)
  obtain s3 input outp p k outs where o: "on_files ?open s1 = (s3, Returns (input, outp))"
    and p: "lookup (fs_nodes fs0) root_ino (butlast outp) = Some p" and items: "items = map Chunk outs"
    and fresh: "is_directory (fs_nodes fs0) p" "fs_next fs0 \<le> k"
    and views: "replaced tmp fs0 p (basename outp) k (concat outs) (fs_nodes (ss_fs (fl_files s2)))"
      "\<forall>v \<in> set (ss_seen (fl_files s2)). kept tmp fs0 v \<or> replaced tmp fs0 p (basename outp) k (concat outs) v"
    using session_one_step[OF assms(2) start(1,2) atomic assms(7) start(3)] by auto
  note opened_at = session_paths[OF on_files_step[OF o] assms(2) rest assms(5)]
  obtain x j where j: "realpath (fs_nodes fs0) (path_resolve (fw_cwd w) i) = Some (input, j)" "j < fs_next fs0"
    "input_at x j (fl_files s3)"
    using opened_at(1) by blast
  obtain p' where p': "realpath (fs_nodes fs0) (butlast (path_resolve (fw_cwd w) out)) = Some (butlast outp, p')"
    and base: "basename outp = name"
    using opened_at(2) assms(8) by blast
  then have "p' = p" using p realpath_lookup by fastforce
  obtain fd q kk d where "staged tmp fs0 fd q kk d (fl_files s3)"
    using valid_Returns[OF valid_open_session[OF assms(2)] rest on_files_step[OF o]] assms(7) by auto
  then have kept3: "kept tmp fs0 (fs_nodes (ss_fs (fl_files s3)))"
    using staged_resting by (auto simp: resting_def shown_def)
  obtain s4 where run: "op_bind (on_run (plugin_pipeline w r reverse signal)) (file_pipeline w r signal) s3 = (s4, Returns items)"
    using withAtomicOutput_steps[OF atomic] o by (metis (no_types, lifting) prod.inject)
  obtain s5 sts where s5: "on_run (plugin_pipeline w r reverse signal) s3 = (s5, Returns sts)"
    and pipe: "file_pipeline w r signal sts s5 = (s4, Returns items)"
    using run unfolding bind_Returns by blast
  have engine: "eng_limits (rs_engine (fl_run s3)) = limits" "eng_plugins (rs_engine (fl_run s3)) = plugins"
    using plan on_files_run[OF o] assms(9,10) by (simp_all add: same_plan_def)
  obtain transforms where chain: "buildTransformChain (sw_factory (fw_streams w)) plugins (\<not> reverse) reverse
      (sw_dlq (fw_streams w)) (Some (streamContext r signal limits)) = Inr transforms"
    and sts: "sts = bytes_pipeline limits transforms"
    using plugin_pipeline_stages[OF on_run_step[OF s5]] engine by auto
  obtain chunks n fs where read: "session_read (fw_os w) (fl_files s5) = (chunks, None)"
    and t: "through 0 (source_stage None # sts @ [file_sink (fw_os w) n]) (map Chunk chunks) = Some (items, fs)"
    using file_pipeline_Returns[OF pipe] by blast
  have "file_bytes (fs_nodes fs0) j = Some (concat chunks)"
    using read_input[OF _ j(3) kept3 j(2)] read on_run_files[OF s5] by simp
  then show thesis
    using that[of input j chunks "butlast outp" p k outs signal transforms n fs]
      j(1) p' fresh \<open>p' = p\<close> items views chain t by (simp add: base files2 sts)
qed

lemma transform_computes:
  assumes "file_transform w r reverse i out base options s = (s', Returns items)"
    and "quiet (fw_os w)" "well_linked fs0" "ss_seen (fl_files s) = []" "proper (fw_cwd w)" "fs0 = ss_fs (fl_files s)"
    and "tmp = temporary_name (fw_uuid w)" "name = basename (path_resolve (fw_cwd w) out)"
    and "limits = eng_limits (rs_engine (fl_run s))" "plugins = eng_plugins (rs_engine (fl_run s))"
    and "native_chain (sw_factory (fw_streams w)) (\<not> reverse) (ordered_plugins reverse plugins) f"
  shows "\<exists>input j b parent p k c. realpath (fs_nodes fs0) (path_resolve (fw_cwd w) i) = Some (input, j)
    \<and> file_bytes (fs_nodes fs0) j = Some b
    \<and> realpath (fs_nodes fs0) (butlast (path_resolve (fw_cwd w) out)) = Some (parent, p)
    \<and> pipeline_bytes f limits (ordered_plugins reverse plugins) b = Some c
    \<and> is_directory (fs_nodes fs0) p \<and> fs_next fs0 \<le> k
    \<and> replaced tmp fs0 p name k c (fs_nodes (ss_fs (fl_files s')))
    \<and> (\<forall>v \<in> set (ss_seen (fl_files s')). kept tmp fs0 v \<or> replaced tmp fs0 p name k c v)"
proof -
  let ?ps = "ordered_plugins reverse plugins"
  obtain input j parent p k outs chunks signal transforms n fs where
    paths: "realpath (fs_nodes fs0) (path_resolve (fw_cwd w) i) = Some (input, j)"
      "file_bytes (fs_nodes fs0) j = Some (concat chunks)"
      "realpath (fs_nodes fs0) (butlast (path_resolve (fw_cwd w) out)) = Some (parent, p)"
    and fresh: "is_directory (fs_nodes fs0) p" "fs_next fs0 \<le> k"
    and items: "items = map Chunk outs" and views: "replaced tmp fs0 p name k (concat outs) (fs_nodes (ss_fs (fl_files s')))"
      "\<forall>v \<in> set (ss_seen (fl_files s')). kept tmp fs0 v \<or> replaced tmp fs0 p name k (concat outs) v"
    and chain: "buildTransformChain (sw_factory (fw_streams w)) plugins (\<not> reverse) reverse (sw_dlq (fw_streams w))
       (Some (streamContext r signal limits)) = Inr transforms"
    and t: "through 0 (source_stage None # bytes_pipeline limits transforms @ [file_sink (fw_os w) n]) (map Chunk chunks)
       = Some (items, fs)"
    by (rule transform_runs[OF assms(1-10)])
  obtain mid fs' k1 fs1 where
    front: "through 0 (source_stage None # bytes_pipeline limits transforms) (map Chunk chunks) = Some (mid, fs')"
    and back_end: "through k1 [file_sink (fw_os w) n] mid = Some (items, fs1)"
    using through_before[of 0 "source_stage None # bytes_pipeline limits transforms"] t by fastforce
  have ys: "yields (source_stage None # bytes_pipeline limits transforms) (pipeline_bytes f limits ?ps)"
    using yields_source[OF yields_pipeline[OF assms(11) chain_of_build[OF chain]]] by (simp add: streamContext_def)
  obtain c where c: "pipeline_bytes f limits ?ps (concat chunks) = Some c"
    using yields_None[OF ys, of chunks 0] front by (cases "pipeline_bytes f limits ?ps (concat chunks)") auto
  obtain cs fs'' where "through 0 (source_stage None # bytes_pipeline limits transforms) (map Chunk chunks)
      = Some (map Chunk cs, fs'')" "concat cs = c"
    by (rule yields_Some[OF ys c])
  then have "items = map Chunk cs" using front through_sink back_end by fastforce
  then have "concat outs = c" using items \<open>concat cs = c\<close> by (simp add: inj_map_eq_map inj_def)
  then show ?thesis using paths c views fresh by blast
qed

section \<open>There and back\<close>

text \<open>The path of the output leads to the file that has been put there.\<close>

lemma output_read:
  assumes "replaced tmp fs0 p (basename q) k c v" "is_directory (fs_nodes fs0) p" "well_linked fs0"
    and "basename q \<noteq> tmp" "proper q" "realpath v (butlast q) = Some (parent, p)"
    and "realpath v q = Some (x, j)" "file_bytes v j = Some b"
  shows "b = c"
proof -
  have p: "p < fs_next fs0"
    using assms(2) linkedD(2)[OF assms(3), of p] by (cases "p < fs_next fs0") (auto simp: is_directory_def)
  have views: "differs_by tmp fs0 [(p, basename q) \<mapsto> k] v" "file_bytes v k = Some c"
    using assms(1) by (simp_all add: replaced_def)
  have dir: "is_directory v p" using differsD(2)[OF views(1) p] assms(2) by simp
  show ?thesis
  proof (cases "q = []")
    case True
    then have "j = p" using assms(6,7) by (simp add: realpath_def)
    then show ?thesis using dir assms(8) by (auto simp: is_directory_def file_bytes_Some)
  next
    case False
    then have q: "q = butlast q @ [basename q]" by (simp add: basename_def)
    have "basename q \<in> set q" using False by (simp add: basename_def)
    then have "basename q \<notin> {[], ''.'', ''..''}" using assms(5) unfolding proper_def by blast
    moreover have "entry v p (basename q) = Some k" using differsD(1)[OF views(1) p assms(4)] by simp
    ultimately have "walk v MAX_SYMLINKS [] (butlast q @ [basename q]) = Some (parent @ [basename q], k)"
      using walk_last[OF assms(6)[unfolded realpath_def] dir] views(2) by (simp add: file_bytes_Some)
    then have "j = k" using assms(7) q by (simp add: realpath_def)
    then show ?thesis using views(2) assms(8) by simp
  qed
qed

lemma transform_encodes:
  assumes "file_process w r i out base options s = (s', Returns items)"
    and "quiet (fw_os w)" "well_linked fs0" "ss_seen (fl_files s) = []" "proper (fw_cwd w)" "fs0 = ss_fs (fl_files s)"
    and "tmp = temporary_name (fw_uuid w)" "name = basename (path_resolve (fw_cwd w) out)"
    and "limits = eng_limits (rs_engine (fl_run s))" "plugins = eng_plugins (rs_engine (fl_run s))"
    and "plugins = map (built_in_plugin sv) bs" "list_all (stream_sound sv limits) bs"
    and "creates_built_in (sw_factory (fw_streams w)) sv now limits bs" "creates_built_in cf' sv now' limits bs"
    and "realpath (fs_nodes fs0) (path_resolve (fw_cwd w) i) = Some (input, j)"
    and "file_bytes (fs_nodes fs0) j = Some b" "length b \<le> maxOutputBytes limits"
  shows "\<exists>parent p k c. realpath (fs_nodes fs0) (butlast (path_resolve (fw_cwd w) out)) = Some (parent, p)
    \<and> is_directory (fs_nodes fs0) p \<and> replaced tmp fs0 p name k c (fs_nodes (ss_fs (fl_files s')))
    \<and> chain_bytes (decode_of sv limits bs) (maxOutputBytes limits) (rev plugins) c = Some b"
    and "native_chain cf' False (rev plugins) (decode_of sv limits bs)"
proof -
  let ?dec = "decode_of sv limits bs"
  have run: "file_transform w r False i out base options s = (s', Returns items)" using assms(1) by simp
  obtain input' j' parent p k outs chunks signal transforms n fs where
    paths: "realpath (fs_nodes fs0) (path_resolve (fw_cwd w) i) = Some (input', j')"
      "file_bytes (fs_nodes fs0) j' = Some (concat chunks)"
      "realpath (fs_nodes fs0) (butlast (path_resolve (fw_cwd w) out)) = Some (parent, p)" "is_directory (fs_nodes fs0) p"
    and items: "items = map Chunk outs" and view: "replaced tmp fs0 p name k (concat outs) (fs_nodes (ss_fs (fl_files s')))"
    and build: "buildTransformChain (sw_factory (fw_streams w)) plugins (\<not> False) False (sw_dlq (fw_streams w))
       (Some (streamContext r signal limits)) = Inr transforms"
    and t: "through 0 (source_stage None # bytes_pipeline limits transforms @ [file_sink (fw_os w) n]) (map Chunk chunks)
       = Some (items, fs)"
    by (rule transform_runs[OF run assms(2-10)])
  have b: "concat chunks = b" using paths(1,2) assms(15,16) by simp
  have chain: "chain_from (sw_factory (fw_streams w)) True False (sw_dlq (fw_streams w))
      (Some (streamContext r signal limits)) 0 plugins = Inr transforms"
    using chain_of_build[OF build] by (simp add: ordered_plugins_def)
  note built = built_in_chain[OF assms(12-14,11) chain]
  show "native_chain cf' False (rev plugins) ?dec" by (rule built(2))
  obtain k' mid fs' where t': "through k' [file_sink (fw_os w) n] (map Chunk mid) = Some (items, fs')"
    and dec: "chain_bytes ?dec (maxOutputBytes limits) (rev plugins) (concat mid) = Some (concat chunks)"
    using pipeline_encodes[OF t built(1) _ chain] assms(17) b by blast
  have "map Chunk outs = map Chunk mid" using through_sink[OF t'] items by simp
  then have "outs = mid" by (simp add: inj_map_eq_map inj_def)
  then show "\<exists>parent p k c. realpath (fs_nodes fs0) (butlast (path_resolve (fw_cwd w) out)) = Some (parent, p)
    \<and> is_directory (fs_nodes fs0) p \<and> replaced tmp fs0 p name k c (fs_nodes (ss_fs (fl_files s')))
    \<and> chain_bytes ?dec (maxOutputBytes limits) (rev plugins) c = Some b"
    using paths(3,4) view dec b by blast
qed

section \<open>Samples\<close>

text \<open>How an operation returns, from the results of its parts.\<close>

lemma transform_returns:
  assumes "ready_to_stream (fl_run s) options" "limits = eng_limits (rs_engine (fl_run s))"
    and "openAtomicFileSession (fw_os w) (fw_cwd w) (fw_uuid w) i out base (fl_files s) = (fo, Returns (input, outp))"
    and "session_read (fw_os w) fo = (chunks, None)"
    and "\<And>signal. buildTransformChain (sw_factory (fw_streams w)) (eng_plugins (rs_engine (fl_run s))) (\<not> reverse) reverse
       (sw_dlq (fw_streams w)) (Some (streamContext r signal limits)) = Inr transforms"
    and "run = pl_run (map snd (sw_turns (fw_streams w)))
       (pl_start (source_stage None # bytes_pipeline limits transforms @ [file_sink (fw_os w) (ss_writes fo)])
         (map Chunk chunks))"
    and "pl_result run = Some (Inr ())"
    and "session_commit (fw_os w) outp
       (apply_writes (fw_os w) (length (bytes_pipeline limits transforms) + 1) (pl_log run) fo) = (fc, Returns ())"
    and "session_dispose (fw_os w) (temporary_name (fw_uuid w)) fc = (fd, Returns ())"
  shows "\<exists>r'. file_transform w r reverse i out base options s
    = (s\<lparr>fl_run := r', fl_files := fd\<rparr>, Returns (pl_out run))"
proof -
  let ?st = "fl_run s"
  obtain signal where signal: "createOperationSignal limits options (rs_now ?st) = Inr signal" "cut_off signal = None"
    and ready: "eng_schema (rs_engine ?st) = None" "eng_auditLogger (rs_engine ?st) = None"
      "card (eng_active (rs_engine ?st)) < maxConcurrentOperations limits"
    using assms(1,2) by (auto simp: ready_to_stream_def)
  obtain e where e: "startRequest (rs_engine ?st) r = Inr e" using ready(3) assms(2) by (auto simp: startRequest_def)
  let ?r0 = "?st\<lparr>rs_engine := e\<rparr>"
  have start: "op_start r ?st = (?r0, Returns ())" using e by (simp add: op_start_def)
  have engine: "eng_limits e = limits" "eng_plugins e = eng_plugins (rs_engine ?st)" "eng_schema e = None"
    "eng_auditLogger e = None"
    using op_start_kept[OF start] ready assms(2) by simp_all
  have never: "throwIfAborted (Some signal) t = Inr ()" for t by (rule never_aborted[OF signal(2)])
  let ?s0 = "s\<lparr>fl_run := ?r0\<rparr>" and ?s1 = "s\<lparr>fl_run := ?r0, fl_files := fo\<rparr>"
  have opens: "on_run (open_values r options) s = (?s0, Returns signal)"
    using signal(1) start assms(2) never
    by (simp add: on_run_def open_values_def op_state_def op_bind_def op_check_def aborted_state op_return_def)
  have plain: "on_run no_schema ?s0 = (?s0, Returns ())"
    using engine(3) by (simp add: on_run_def no_schema_def bind_state op_check_def throw_if_def)
  have files: "on_files (openAtomicFileSession (fw_os w) (fw_cwd w) (fw_uuid w) i out base) ?s0 = (?s1, Returns (input, outp))"
    using assms(3) by (simp add: on_files_def)
  have stages: "on_run (plugin_pipeline w r reverse signal) ?s1 = (?s1, Returns (bytes_pipeline limits transforms))"
    using assms(5)[of signal] engine
    by (simp add: on_run_def plugin_pipeline_def op_chain_def op_bind_def op_state_def op_check_def op_return_def)
  let ?sts = "source_stage None # bytes_pipeline limits transforms @ [file_sink (fw_os w) (ss_writes fo)]"
  obtain t where d: "drive signal (rs_now ?r0) (sw_turns (fw_streams w)) (pl_start ?sts (map Chunk chunks)) = (run, t, Returns ())"
    using drive_free[OF cut_off_None_abort[OF signal(2)], of "sw_turns (fw_streams w)" _ _ "[]"] assms(6,7) by auto
  let ?f = "apply_writes (fw_os w) (length (bytes_pipeline limits transforms) + 1) (pl_log run) fo"
  obtain r1 where r1: "op_pipeline r signal (sw_turns (fw_streams w)) ?sts (map Chunk chunks) ?r0 = (r1, Returns (pl_out run))"
    using d by (simp add: op_pipeline_def)
  have pipe: "file_pipeline w r signal (bytes_pipeline limits transforms) ?s1
      = (s\<lparr>fl_run := r1, fl_files := ?f\<rparr>, Returns (pl_out run))"
    using d r1 assms(4) by (simp add: file_pipeline_def)
  have "same_setting ?r0 r1" using valid_Returns[OF setting_pipeline _ r1, of ?r0] by (simp add: same_setting_def)
  then have "eng_auditLogger (rs_engine r1) = None" using engine(4) by (simp add: same_setting_def)
  from finish_returns[OF this signal(2), of r "if reverse then AuditReverse else AuditProcess" "pl_out run"] obtain r2 where
    r2: "finish_request r (if reverse then AuditReverse else AuditProcess) signal (pl_out run) r1 = (r2, Returns (pl_out run))"
    by blast
  have body: "with_session w signal (op_bind (on_run (plugin_pipeline w r reverse signal)) (file_pipeline w r signal)) outp ?s1
      = (s\<lparr>fl_run := r1, fl_files := fd\<rparr>, Returns (pl_out run))"
    using assms(8,9) stages pipe never
    by (simp add: with_session_def op_finally_def op_bind_def on_run_def on_files_def aborted_state op_check_def op_return_def)
  show ?thesis
    using opens plain files body r2
    by (intro exI[of _ r2]) (simp add: transform_operation file_operation_def op_bind_def file_catch_def withAtomicOutput_def on_run_def)
qed

end
