(* ===== verification/File_Round_Trip.thy ===== *)
theory File_Round_Trip
  imports File_Transform
begin

text \<open>
  What \<open>process\<close> and \<open>reverse\<close> of the \<open>FileController\<close> do to files, as properties, and a sample that is
  evaluated: a file that is signed into another file, which is verified into a third.
\<close>

section \<open>Samples\<close>

text \<open>A system that transfers up to 64 bytes at once, and an engine with the hashing plugin.\<close>

definition bulk_os :: os where
  "bulk_os = quiet_os\<lparr>os_read := \<lambda>_. Some 64, os_write := \<lambda>_. Some 64\<rparr>"

definition signed_world :: "string \<Rightarrow> nat list \<Rightarrow> file_world" where
  "signed_world uuid turns = \<lparr>fw_os = bulk_os, fw_cwd = [], fw_uuid = uuid,
     fw_streams = streaming_world (map (Pair 1000) turns)\<rparr>"

definition signed_start :: file_state where
  "signed_start = \<lparr>fl_run = streaming_state, fl_files = sample_session\<rparr>"

definition signed_opened :: "file_session \<times> (string list \<times> string list) flow" where
  "signed_opened = openAtomicFileSession bulk_os [] ''u'' ''/in'' ''/out'' None sample_session"

lemma signed_opening:
  "case signed_opened of (s, r) \<Rightarrow> r = Returns ([''in''], [''out'']) \<and> ss_writes s = 0
     \<and> fs_fds (ss_fs s) (ss_inputFD s) = Some (1, 0) \<and> file_bytes (fs_nodes (ss_fs s)) 1 = Some [1, 2]"
  by code_simp

lemma signed_opens:
  "snd signed_opened = Returns ([''in''], [''out''])" "ss_writes (fst signed_opened) = 0"
  "fs_fds (ss_fs (fst signed_opened)) (ss_inputFD (fst signed_opened)) = Some (1, 0)"
  "file_bytes (fs_nodes (ss_fs (fst signed_opened))) 1 = Some [1, 2]"
  using signed_opening by (simp_all add: split_def)

lemma signed_reads: "session_read bulk_os (fst signed_opened) = ([[1, 2]], None)"
  by (simp add: session_read_def signed_opens[unfolded One_nat_def] read_from.simps bulk_os_def HIGH_WATER_def)

lemma on_chunk_bytes:
  "on_chunk (byte_stage tr fl s) (Chunk b) =
     (map (Push \<circ> Chunk) (fst (tr s b)), case snd (tr s b) of Inl e \<Rightarrow> Throws e | Inr s' \<Rightarrow> Returns (byte_stage tr fl s'))"
  by (simp add: byte_stage_def with_bytes_def emit_all_def split: sum.split)

lemma on_end_bytes:
  "on_end (byte_stage tr fl s) =
     (map (Push \<circ> Chunk) (fst (fl s)), case snd (fl s) of Inl e \<Rightarrow> Throws e | Inr s' \<Rightarrow> Returns ())"
  by (simp add: byte_stage_def end_all_def emit_all_def split: sum.split)

lemma on_observe: "on_chunk observe_stage (Chunk b) = ([Effect (Progressed (length b)), Push (Chunk b)], Returns observe_stage)"
  "on_end observe_stage = ([], Returns ())"
  by (simp_all add: observe_stage_def with_bytes_def)

definition sign_turns :: "nat list" where
  "sign_turns = [0, 0, 1, 1, 2, 2, 3, 3, 3, 4, 4, 4, 5, 5, 5, 6, 6, 6]"

definition stream_limits :: engine_limits where
  "stream_limits = DEFAULT_LIMITS\<lparr>operationTimeoutMs := 0\<rparr>"

definition label_0 :: string where
  "label_0 = after_plugin (built_in_plugin toy_services (Hashing sha256_options)) 0"

definition sign_transforms :: "px_stage list" where
  "sign_transforms =
     [byte_stage (sign_transform (Some 32) 268435456 268435456) (sign_flush toy_digest) \<lparr>sg_total = 0, sg_hashed = []\<rparr>,
      observe_stage, byte_limit_stage 268435456 label_0]"

definition sign_stages :: "px_stage list" where
  "sign_stages = source_stage None # bytes_pipeline stream_limits sign_transforms @ [file_sink bulk_os 0]"

lemma sink_bulk: "b \<noteq> [] \<Longrightarrow> length b \<le> 64 \<Longrightarrow> on_chunk (file_sink bulk_os n) (Chunk b)
    = ([Effect (Wrote b), Push (Chunk b)], Returns (file_sink bulk_os (Suc n)))"
  by (simp add: file_sink_def with_bytes_def sink_write.simps bulk_os_def)

lemma cells_turn_numeral:
  "cells_turn (numeral v) ended (c # cs) =
     (case cells_turn (pred_numeral v) (cl_station c = Closed) cs of None \<Rightarrow> None
      | Some (fs, out, cs') \<Rightarrow> Some (fs, out, c # cs'))"
  by (simp add: numeral_eq_Suc split: option.split)

lemmas sample_steps = pl_turn_def new_cell_def enqueue_def cell_turn_def pl_result_def source_chunk source_end
  sink_end on_chunk_bytes on_end_bytes on_observe byte_limit_def no_flush_def cells_turn_numeral

definition signed :: buffer where "signed = replicate 32 21"

lemma signed_12: "toy_digest [1, 2] = signed" "length signed = 32" "signed \<noteq> []"
  by (simp_all add: signed_def toy_digest_def)

lemma sign_runs:
  "\<exists>x. pl_run sign_turns (pl_start sign_stages [Chunk [1, 2]]) = x \<and> pl_result x = Some (Inr ())
     \<and> pl_log x = [(3, Progressed 2), (3, Progressed 32), (6, Wrote [1, 2]), (6, Wrote signed)]
     \<and> pl_out x = [Chunk [1, 2], Chunk signed]"
  by (simp add: sign_turns_def sign_stages_def sign_transforms_def bytes_pipeline_def stream_limits_def DEFAULT_LIMITS_def pl_run_def pl_start_def
      sample_steps byte_limit_stage_def sign_transform_def sign_flush_def signed_12 sink_bulk)

text \<open>The session writes, commits and is disposed of; another one opens its output.\<close>

definition signed_written :: file_session where
  "signed_written = foldl (apply_write bulk_os) (fst signed_opened) [Wrote [1, 2], Wrote signed]"

definition signed_committed :: "file_session \<times> unit flow" where
  "signed_committed = session_commit bulk_os [''out''] signed_written"

definition signed_disposed :: "file_session \<times> unit flow" where
  "signed_disposed = session_dispose bulk_os (temporary_name ''u'') (fst signed_committed)"

definition signed_files :: file_session where
  "signed_files = (fst signed_disposed)\<lparr>ss_seen := []\<rparr>"

definition verified_opened :: "file_session \<times> (string list \<times> string list) flow" where
  "verified_opened = openAtomicFileSession bulk_os [] ''v'' ''/out'' ''/back'' None signed_files"

definition verified_written :: file_session where
  "verified_written = foldl (apply_write bulk_os) (fst verified_opened) [Wrote [1, 2]]"

definition verified_committed :: "file_session \<times> unit flow" where
  "verified_committed = session_commit bulk_os [''back''] verified_written"

definition verified_disposed :: "file_session \<times> unit flow" where
  "verified_disposed = session_dispose bulk_os (temporary_name ''v'') (fst verified_committed)"

lemma dispose_returns: "snd (session_dispose os tmp s) = Returns ()"
proof -
  obtain s' r where run: "session_dispose os tmp s = (s', r)" by (cases "session_dispose os tmp s")
  have "case session_dispose os tmp s of (s', Returns a) \<Rightarrow> True | (s', Throws e) \<Rightarrow> False | (s', Hangs) \<Rightarrow> False"
    using returns_dispose[of os tmp] by (simp add: valid_def)
  then show ?thesis unfolding run by (cases r) simp_all
qed

lemma signed_commits: "snd signed_committed = Returns ()"
  by code_simp

lemma verified_opening:
  "case verified_opened of (s, r) \<Rightarrow> r = Returns ([''out''], [''back'']) \<and> ss_writes s = 0
     \<and> fs_fds (ss_fs s) (ss_inputFD s) = Some (4, 0) \<and> file_bytes (fs_nodes (ss_fs s)) 4 = Some ([1, 2] @ signed)"
  by code_simp

lemma verified_commits: "snd verified_committed = Returns ()"
  by code_simp

lemma verified_opens:
  "snd verified_opened = Returns ([''out''], [''back''])" "ss_writes (fst verified_opened) = 0"
  "fs_fds (ss_fs (fst verified_opened)) (ss_inputFD (fst verified_opened)) = Some (4, 0)"
  "file_bytes (fs_nodes (ss_fs (fst verified_opened))) 4 = Some ([1, 2] @ signed)"
  using verified_opening by (simp_all add: split_def)

lemma verified_reads: "session_read bulk_os (fst verified_opened) = ([[1, 2] @ signed], None)"
  by (simp add: session_read_def verified_opens read_from.simps bulk_os_def HIGH_WATER_def signed_12)

definition verify_turns :: "nat list" where
  "verify_turns = [0, 0, 1, 1, 2, 2, 3, 3, 4, 4, 5, 5, 6, 6]"

definition verify_transforms :: "px_stage list" where
  "verify_transforms =
     [byte_stage (\<lambda>s c. drop_state (verify_transform 268435456 s c))
        (\<lambda>s. drop_state (verify_flush toy_digest (Some 32) 268435456 s)) new_verify_stage,
      observe_stage, byte_limit_stage 268435456 label_0]"

definition verify_stages :: "px_stage list" where
  "verify_stages = source_stage None # bytes_pipeline stream_limits verify_transforms @ [file_sink bulk_os 0]"

lemma verify_ends:
  "verify_flush toy_digest (Some 32) 268435456 \<lparr>vf_chunks = [[1, 2] @ signed], vf_total = 34, vf_buffer = []\<rparr>
     = ([[1, 2]], Inr \<lparr>vf_chunks = [], vf_total = 34, vf_buffer = zero_fill ([1, 2] @ signed)\<rparr>)"
proof -
  have "buf_concat [[1, 2] @ signed] 34 = [1, 2] @ signed" by (simp add: buf_concat_def signed_12)
  moreover have "verify_buffer toy_digest (Some 32) 268435456 ([1, 2] @ signed) = Inr [1, 2]"
    using verify_buffer_iff[OF toy_hmac_for] by (simp add: signed_12)
  ultimately show ?thesis by (simp add: verify_flush_def Let_def)
qed

lemma verify_runs:
  "\<exists>x. pl_run verify_turns (pl_start verify_stages [Chunk ([1, 2] @ signed)]) = x \<and> pl_result x = Some (Inr ())
     \<and> pl_log x = [(3, Progressed 2), (6, Wrote [1, 2])] \<and> pl_out x = [Chunk [1, 2]]"
  by (simp add: verify_turns_def verify_stages_def verify_transforms_def bytes_pipeline_def stream_limits_def DEFAULT_LIMITS_def pl_run_def
      pl_start_def sample_steps byte_limit_stage_def verify_transform_def new_verify_stage_def drop_state_def
      verify_ends[simplified] signed_12 sink_bulk)

section \<open>The sample as operations\<close>

lemma signed_engine:
  "eng_limits (rs_engine streaming_state) = stream_limits"
  "eng_plugins (rs_engine streaming_state) = [built_in_plugin toy_services (Hashing sha256_options)]"
  by (simp_all add: streaming_state_def start_state_def stream_limits_def)

lemma signed_capabilities:
  "assertStreamingPipeline (eng_plugins (rs_engine streaming_state)) = Inr ()"
  "assertReversiblePipeline (eng_plugins (rs_engine streaming_state)) = Inr ()"
  by (simp_all add: assertStreamingPipeline_def assertReversiblePipeline_def supportsOperation_def supportsReverse_def
      getPluginCapabilities_def hashing_plugin_def codec_plugin_def base_reversible_def has_own_reverse_def
      signed_engine Let_def)

lemma signed_chain:
  "buildTransformChain (sw_factory (streaming_world turns)) (eng_plugins (rs_engine streaming_state)) True False
     (sw_dlq (streaming_world turns)) (Some (streamContext r signal stream_limits)) = Inr sign_transforms"
  "buildTransformChain (sw_factory (streaming_world turns)) (eng_plugins (rs_engine streaming_state)) False True
     (sw_dlq (streaming_world turns)) (Some (streamContext r signal stream_limits)) = Inr verify_transforms"
proof -
  have limits: "pluginInputLimit (Some stream_limits) = 268435456" "pluginOutputLimit (Some stream_limits) = 268435456"
    "chain_output_limit (Some (streamContext r signal stream_limits)) = 268435456"
    by (simp_all add: pluginInputLimit_def pluginOutputLimit_def context_limits_def stream_limits_def DEFAULT_LIMITS_def
        chain_output_limit_def fallback_output_limit_def streamContext_def)
  have create: "cf_create (sw_factory (streaming_world turns)) p compress
      = hashing_createStream toy_hmac sha256_options (Some stream_limits) compress" for p compress
    by (simp add: streaming_world_def stream_limits_def toy_services_def)
  have streams: "hasStreamSupport (built_in_plugin toy_services (Hashing sha256_options))"
    by (simp add: hashing_plugin_def codec_plugin_streams)
  show "buildTransformChain (sw_factory (streaming_world turns)) (eng_plugins (rs_engine streaming_state)) True False
     (sw_dlq (streaming_world turns)) (Some (streamContext r signal stream_limits)) = Inr sign_transforms"
    "buildTransformChain (sw_factory (streaming_world turns)) (eng_plugins (rs_engine streaming_state)) False True
     (sw_dlq (streaming_world turns)) (Some (streamContext r signal stream_limits)) = Inr verify_transforms"
    using signed_capabilities streams
    by (simp_all add: buildTransformChain_def signed_engine plugin_stages_def create hashing_createStream_def
        toy_hmac_sha256 sha256_length limits sign_construct_def sign_transforms_def verify_transforms_def label_0_def
        del: built_in_plugin.simps)
qed

lemma sign_writes:
  "apply_writes bulk_os 6 [(3, Progressed 2), (3, Progressed 32), (6, Wrote [1, 2]), (6, Wrote signed)] s
     = foldl (apply_write bulk_os) s [Wrote [1, 2], Wrote signed]"
  "apply_writes bulk_os 6 [(3, Progressed 2), (6, Wrote [1, 2])] s = foldl (apply_write bulk_os) s [Wrote [1, 2]]"
  by (simp_all add: apply_writes_def stage_log_def)

lemma signed_world_parts:
  "fw_os (signed_world u turns) = bulk_os" "fw_cwd (signed_world u turns) = []" "fw_uuid (signed_world u turns) = u"
  "fw_streams (signed_world u turns) = streaming_world (map (Pair 1000) turns)"
  "map snd (sw_turns (streaming_world (map (Pair t) turns))) = turns"
  by (simp_all add: signed_world_def streaming_world_def comp_def)

lemma stages_length: "length (bytes_pipeline stream_limits sign_transforms) + 1 = 6"
  "length (bytes_pipeline stream_limits verify_transforms) + 1 = 6"
  by (simp_all add: bytes_pipeline_def sign_transforms_def verify_transforms_def)

lemma file_signing_runs:
  "\<exists>r'. file_process (signed_world ''u'' sign_turns) ''r'' ''/in'' ''/out'' None default_options signed_start
     = (\<lparr>fl_run = r', fl_files = fst signed_disposed\<rparr>, Returns [Chunk [1, 2], Chunk signed])"
proof -
  let ?w = "signed_world ''u'' sign_turns"
  obtain x where x: "pl_run sign_turns (pl_start sign_stages [Chunk [1, 2]]) = x" "pl_result x = Some (Inr ())"
    "pl_log x = [(3, Progressed 2), (3, Progressed 32), (6, Wrote [1, 2]), (6, Wrote signed)]"
    "pl_out x = [Chunk [1, 2], Chunk signed]"
    using sign_runs by blast
  have "\<exists>r'. file_transform ?w ''r'' False ''/in'' ''/out'' None default_options signed_start
    = (signed_start\<lparr>fl_run := r', fl_files := fst signed_disposed\<rparr>, Returns (pl_out x))"
  proof (rule transform_returns[where limits = stream_limits and fo = "fst signed_opened" and input = "[''in'']"
        and outp = "[''out'']" and chunks = "[[1, 2]]" and transforms = sign_transforms
        and fc = "fst signed_committed"])
    show "ready_to_stream (fl_run signed_start) default_options" using streaming_ready by (simp add: signed_start_def)
    show "openAtomicFileSession (fw_os ?w) (fw_cwd ?w) (fw_uuid ?w) ''/in'' ''/out'' None (fl_files signed_start)
        = (fst signed_opened, Returns ([''in''], [''out'']))"
      using signed_opens(1) by (cases signed_opened) (simp add: signed_world_parts signed_start_def signed_opened_def)
    show "session_commit (fw_os ?w) [''out''] (apply_writes (fw_os ?w)
        (length (bytes_pipeline stream_limits sign_transforms) + 1) (pl_log x) (fst signed_opened))
        = (fst signed_committed, Returns ())"
      using signed_commits unfolding stages_length x(3) signed_world_parts sign_writes
      by (cases signed_committed) (simp add: signed_committed_def signed_written_def)
    show "session_dispose (fw_os ?w) (temporary_name (fw_uuid ?w)) (fst signed_committed) = (fst signed_disposed, Returns ())"
      unfolding signed_world_parts signed_disposed_def using dispose_returns by (metis prod.collapse)
  qed (use x signed_chain signed_reads in \<open>simp_all add: signed_world_parts signed_start_def signed_engine
      signed_opens(2) sign_stages_def\<close>)
  then show ?thesis using x(4) by (auto simp: signed_start_def)
qed

definition verified_start :: file_state where
  "verified_start = \<lparr>fl_run = streaming_state, fl_files = signed_files\<rparr>"

lemma file_verifying_runs:
  "\<exists>r'. file_reverse (signed_world ''v'' verify_turns) ''r'' ''/out'' ''/back'' None default_options verified_start
     = (\<lparr>fl_run = r', fl_files = fst verified_disposed\<rparr>, Returns [Chunk [1, 2]])"
proof -
  let ?w = "signed_world ''v'' verify_turns"
  obtain x where x: "pl_run verify_turns (pl_start verify_stages [Chunk ([1, 2] @ signed)]) = x" "pl_result x = Some (Inr ())"
    "pl_log x = [(3, Progressed 2), (6, Wrote [1, 2])]" "pl_out x = [Chunk [1, 2]]"
    using verify_runs by blast
  have "\<exists>r'. file_transform ?w ''r'' True ''/out'' ''/back'' None default_options verified_start
    = (verified_start\<lparr>fl_run := r', fl_files := fst verified_disposed\<rparr>, Returns (pl_out x))"
  proof (rule transform_returns[where limits = stream_limits and fo = "fst verified_opened" and input = "[''out'']"
        and outp = "[''back'']" and chunks = "[[1, 2] @ signed]" and transforms = verify_transforms
        and fc = "fst verified_committed"])
    show "ready_to_stream (fl_run verified_start) default_options" using streaming_ready by (simp add: verified_start_def)
    show "openAtomicFileSession (fw_os ?w) (fw_cwd ?w) (fw_uuid ?w) ''/out'' ''/back'' None (fl_files verified_start)
        = (fst verified_opened, Returns ([''out''], [''back'']))"
      using verified_opens(1) by (cases verified_opened) (simp add: signed_world_parts verified_start_def verified_opened_def)
    show "session_commit (fw_os ?w) [''back''] (apply_writes (fw_os ?w)
        (length (bytes_pipeline stream_limits verify_transforms) + 1) (pl_log x) (fst verified_opened))
        = (fst verified_committed, Returns ())"
      using verified_commits unfolding stages_length x(3) signed_world_parts sign_writes
      by (cases verified_committed) (simp add: verified_committed_def verified_written_def)
    show "session_dispose (fw_os ?w) (temporary_name (fw_uuid ?w)) (fst verified_committed)
        = (fst verified_disposed, Returns ())"
      unfolding signed_world_parts verified_disposed_def using dispose_returns by (metis prod.collapse)
  qed (use x signed_chain verified_reads in \<open>simp_all add: signed_world_parts verified_start_def signed_engine
      verified_opens(2) verify_stages_def\<close>)
  then show ?thesis using x(4) by (auto simp: verified_start_def)
qed

text \<open>The file system stays well linked.\<close>

lemma bulk_quiet: "quiet bulk_os" "others_ok bulk_os"
  using quiet_ok[of bulk_os] by (simp_all add: quiet_def bulk_os_def quiet_os_def)

lemma ok_write:
  assumes "others_ok os" "session_ok s"
  shows "session_ok (apply_write os s f)"
proof (cases f)
  case (Wrote bytes)
  obtain s' r where w: "sys_write os bytes s = (s', r)" by (cases "sys_write os bytes s")
  then obtain s1 r1 fault bytes' where run: "call_with os fault (fs_write (ss_outputFD s) bytes') s = (s1, r1)"
    and s1: "s' = s1\<lparr>ss_writes := ss_writes s1 + 1\<rparr>"
    by (auto simp: sys_write_def Let_def split: prod.splits)
  show ?thesis using session_ok_call[OF assms grows_write run] s1 Wrote w by (simp add: session_ok_def)
qed (use assms in simp_all)

lemma keeps_ok_commit:
  assumes "others_ok os"
  shows "keeps session_ok (session_commit os outp)"
proof -
  have "grows (\<lambda>fs. case (t, q) of (Some t, Some p) \<Rightarrow> fs_renameat t ''data'' p name fs | _ \<Rightarrow> None)" for t q name
    using grows_renameat by (auto simp: grows_def split: option.split)
  then show ?thesis unfolding session_commit_def
    by (intro keeps_calls keeps_ok_op_sys[OF assms] keeps_ok_set) simp_all
qed

lemma keeps_ok_dispose: "others_ok os \<Longrightarrow> keeps session_ok (session_dispose os tmp)"
  unfolding session_dispose_def by (auto intro!: keeps_calls keeps_ok_set keeps_ok_cleanup)

lemma keeps_fst: "keeps I m \<Longrightarrow> I s \<Longrightarrow> I (fst (m s))"
  by (simp add: keeps_iff)

lemma signed_linked: "well_linked (ss_fs signed_files)"
proof -
  have "session_ok (fst signed_opened)" unfolding signed_opened_def
    by (rule keeps_fst[OF keeps_ok_open[OF bulk_quiet(2)] sample_linked])
  then have "session_ok signed_written" unfolding signed_written_def
    by (simp add: ok_write[OF bulk_quiet(2)] del: apply_write.simps)
  then have "session_ok (fst signed_committed)" unfolding signed_committed_def
    by (rule keeps_fst[OF keeps_ok_commit[OF bulk_quiet(2)]])
  then have "session_ok (fst signed_disposed)" unfolding signed_disposed_def
    by (rule keeps_fst[OF keeps_ok_dispose[OF bulk_quiet(2)]])
  then show ?thesis by (simp add: signed_files_def session_ok_def)
qed

lemma sample_paths:
  "realpath (fs_nodes sample_fs) (path_resolve [] ''/in'') = Some ([''in''], 1)"
  "path_resolve [] ''/out'' = [''out'']" "path_resolve [] ''/back'' = [''back'']" "file_bytes (fs_nodes sample_fs) 1 = Some [1, 2]"
  by code_simp+

section \<open>Properties\<close>





end
