(* ===== verification/Validation.thy ===== *)
theory Validation
  imports Built_In_Plugins MessagePack_Frames
begin

text \<open>
  The validation plugin (\<open>src/core/validation.ts\<close>): one MessagePack value per message, checked against a
  schema, as a buffer operation and as a stream stage.  The schema is known by the values that
  \<open>safeParse\<close> accepts; \<open>msgpackr\<close> is a parameter.
\<close>

section \<open>The plugin\<close>

record validation_options =
  vo_schema :: "js_value \<Rightarrow> bool"
  vo_validateOnReverse :: bool

definition validation_error :: px_error where
  "validation_error = ValidationError (in_transform ''validation'')"

text \<open>The private method \<open>validate\<close>.\<close>

definition validate_data ::
  "js_runtime \<Rightarrow> validation_options \<Rightarrow> nat \<Rightarrow> nat \<Rightarrow> buffer \<Rightarrow> px_error + unit" where
  "validate_data rt options maxBytes maxFrame data =
     (if length data > maxBytes then Inl validation_error
      else rbind (assertMessagePackFrameLimits data maxFrame 1) (\<lambda>_.
        case rt_unpack rt data of
          Inl _ \<Rightarrow> Inl validation_error
        | Inr decoded \<Rightarrow> throw_if (\<not> vo_schema options decoded) validation_error))"

definition validation_limit :: "engine_limits option \<Rightarrow> nat" where
  "validation_limit limits = min (pluginInputLimit limits) (pluginOutputLimit limits)"

text \<open>The frame limit of the context, or else the one of the default limits.\<close>

definition frame_limit_of :: "engine_limits option \<Rightarrow> nat" where
  "frame_limit_of limits = maxFrameBytes (context_limits limits)"

definition validation_process ::
  "js_runtime \<Rightarrow> validation_options \<Rightarrow> engine_limits option \<Rightarrow> buffer \<Rightarrow> px_error + buffer" where
  "validation_process rt options limits data =
     rbind (validate_data rt options (validation_limit limits) (frame_limit_of limits) data) (\<lambda>_. Inr data)"

definition validation_reverse ::
  "js_runtime \<Rightarrow> validation_options \<Rightarrow> engine_limits option \<Rightarrow> buffer \<Rightarrow> px_error + buffer" where
  "validation_reverse rt options limits data =
     (let maxBytes = validation_limit limits in
      if length data > maxBytes then Inl validation_error
      else if vo_validateOnReverse options
      then rbind (validate_data rt options maxBytes (frame_limit_of limits) data) (\<lambda>_. Inr data)
      else Inr data)"

text \<open>The class as the engine calls it: what passes is the very buffer it was given.\<close>

definition validation_call ::
  "(buffer \<Rightarrow> time) \<Rightarrow> (engine_limits option \<Rightarrow> buffer \<Rightarrow> px_error + buffer) \<Rightarrow> plugin_call" where
  "validation_call duration f ctx data i now =
     Settles (now + duration (bytes_of data)) (map_sum id (\<lambda>_. Some data) (f (ctx_limits ctx) (bytes_of data)))"

definition validation_plugin :: "js_runtime \<Rightarrow> (buffer \<Rightarrow> time) \<Rightarrow> validation_options \<Rightarrow> plugin" where
  "validation_plugin rt duration options =
     (let rev_method = OwnReverse (validation_call duration (validation_reverse rt options)) in
      \<lparr>plugin_name = ''validation'', plugin_version = ''1.0.0'', plugin_reversible = base_reversible rev_method,
       plugin_streaming = FUndefined, plugin_process = validation_call duration (validation_process rt options),
       plugin_reverse = rev_method, plugin_createStream = True, plugin_retryOptions = None\<rparr>)"

section \<open>The stream\<close>

record validation_stage =
  vd_chunks :: "buffer list"
  vd_total :: nat

definition new_validation_stage :: validation_stage where
  "new_validation_stage = \<lparr>vd_chunks = [], vd_total = 0\<rparr>"

definition validation_transform ::
  "nat \<Rightarrow> validation_stage \<Rightarrow> buffer \<Rightarrow> (validation_stage, buffer, px_error) outcome" where
  "validation_transform maxBytes s chunk =
     (if int (length chunk) > int maxBytes - int (vd_total s) then ([], Inl validation_error)
      else ([], Inr (s\<lparr>vd_total := vd_total s + length chunk, vd_chunks := vd_chunks s @ [chunk]\<rparr>)))"

definition validation_flush ::
  "js_runtime \<Rightarrow> validation_options \<Rightarrow> bool \<Rightarrow> engine_limits option \<Rightarrow> validation_stage
     \<Rightarrow> (validation_stage, buffer, px_error) outcome" where
  "validation_flush rt options decompress limits s =
     (let data = buf_concat (vd_chunks s) (vd_total s) in
      case (if \<not> decompress \<or> vo_validateOnReverse options
            then validate_data rt options (validation_limit limits) (frame_limit_of limits) data else Inr ()) of
        Inl e \<Rightarrow> ([], Inl e)
      | Inr _ \<Rightarrow> ([data], Inr s))"

definition validation_stream ::
  "js_runtime \<Rightarrow> validation_options \<Rightarrow> bool \<Rightarrow> engine_limits option \<Rightarrow> buffer list
     \<Rightarrow> (validation_stage, buffer, px_error) outcome" where
  "validation_stream rt options decompress limits chunks =
     run_transform (validation_transform (validation_limit limits))
       (validation_flush rt options decompress limits) new_validation_stage chunks"

section \<open>What the stage collects\<close>

definition validation_absorb :: "validation_stage \<Rightarrow> buffer \<Rightarrow> validation_stage" where
  "validation_absorb s chunk = s\<lparr>vd_total := vd_total s + length chunk, vd_chunks := vd_chunks s @ [chunk]\<rparr>"

interpretation validation_meter: metered "validation_transform maxBytes" length vd_total maxBytes validation_absorb
    "\<lambda>_. []" "\<lambda>_. True" for maxBytes
  by unfold_locales (auto simp: validation_transform_def validation_absorb_def)

lemma validation_absorb_all:
  "foldl validation_absorb s cs = s\<lparr>vd_total := vd_total s + length (concat cs), vd_chunks := vd_chunks s @ cs\<rparr>"
  by (induction cs arbitrary: s) (simp_all add: validation_absorb_def)

lemma validation_weight: "validation_meter.total_weight cs = length (concat cs)"
  by (simp add: validation_meter.total_weight_def length_concat)

lemma validation_collects:
  assumes "length (concat cs) \<le> maxBytes"
  shows "run_chunks (validation_transform maxBytes) new_validation_stage cs
    = ([], Inr \<lparr>vd_chunks = cs, vd_total = length (concat cs)\<rparr>)"
proof -
  have "run_chunks (validation_transform maxBytes) new_validation_stage cs
      = (concat (map (\<lambda>_. []) cs), Inr (foldl validation_absorb new_validation_stage cs))"
    by (rule validation_meter.run_admitted) (use assms in \<open>simp_all add: validation_weight new_validation_stage_def\<close>)
  then show ?thesis by (simp add: validation_absorb_all new_validation_stage_def)
qed

lemma validation_overflows:
  assumes "\<not> length (concat cs) \<le> maxBytes"
  shows "run_chunks (validation_transform maxBytes) new_validation_stage cs = ([], Inl validation_error)"
proof -
  obtain pre c e where "run_chunks (validation_transform maxBytes) new_validation_stage cs = (concat (map (\<lambda>_. []) pre), Inl e)"
    and "validation_transform maxBytes (foldl validation_absorb new_validation_stage pre) c = ([], Inl e)"
    using validation_meter.run_refused[of new_validation_stage maxBytes cs] assms
    by (auto simp: new_validation_stage_def validation_weight)
  then show ?thesis by (auto simp: validation_transform_def split: if_splits)
qed

text \<open>However the input is cut, the stage does what the operation does with the joined input.\<close>

lemma validation_stream_joined:
  "validation_stream rt options decompress limits cs =
     (case (if decompress then validation_reverse else validation_process) rt options limits (concat cs) of
        Inl e \<Rightarrow> ([], Inl e)
      | Inr data \<Rightarrow> ([data], Inr \<lparr>vd_chunks = cs, vd_total = length (concat cs)\<rparr>))"
proof (cases "length (concat cs) \<le> validation_limit limits")
  case True
  have "buf_concat cs (length (concat cs)) = concat cs" by (simp add: buf_concat_exact)
  then show ?thesis using True
    by (auto simp: validation_stream_def run_transform_def validation_collects validation_flush_def Let_def
        validation_reverse_def validation_process_def rbind_def split: sum.splits)
next
  case False
  then show ?thesis
    by (simp add: validation_stream_def run_transform_def validation_overflows validation_reverse_def
        validation_process_def validate_data_def Let_def rbind_def)
qed

text \<open>Exactly which messages pass.\<close>

definition valid_message :: "js_runtime \<Rightarrow> validation_options \<Rightarrow> engine_limits option \<Rightarrow> buffer \<Rightarrow> bool" where
  "valid_message rt options limits data \<longleftrightarrow>
     length data \<le> frame_limit_of limits \<and> (data = [] \<or> mp_frame data)
     \<and> (\<exists>v. rt_unpack rt data = Inr v \<and> vo_schema options v)"

lemma validation_limit_is_output: "validation_limit limits = pluginOutputLimit limits"
  using pluginOutputLimit_le_pluginInputLimit[of limits] by (simp add: validation_limit_def)

lemma one_frame:
  assumes "M \<le> max_safe_integer"
  shows "returns (assertMessagePackFrameLimits bs M 1) \<longleftrightarrow> length bs \<le> M \<and> (bs = [] \<or> mp_frame bs)"
proof -
  have "returns (assertMessagePackFrameLimits bs M 1) \<longleftrightarrow> (\<exists>fs. concat fs = bs \<and> length fs \<le> 1 \<and> frames_within M fs)"
    using assert_returns_frames[OF assms, of bs 1] by (auto simp: returns_def)
  also have "\<dots> \<longleftrightarrow> (bs = [] \<or> mp_frame bs \<and> length bs \<le> M)"
  proof
    assume "\<exists>fs. concat fs = bs \<and> length fs \<le> 1 \<and> frames_within M fs"
    then obtain fs where fs: "concat fs = bs" "length fs \<le> 1" "frames_within M fs" by blast
    then show "bs = [] \<or> mp_frame bs \<and> length bs \<le> M"
      by (cases fs) (auto simp: frames_within_def)
  next
    assume "bs = [] \<or> mp_frame bs \<and> length bs \<le> M"
    then show "\<exists>fs. concat fs = bs \<and> length fs \<le> 1 \<and> frames_within M fs"
      by (auto simp: frames_within_def intro: exI[of _ "[]"] exI[of _ "[bs]"])
  qed
  finally show ?thesis by auto
qed

lemma validate_data_iff:
  assumes "frame_limit_of limits \<le> max_safe_integer"
  shows "validate_data rt options (validation_limit limits) (frame_limit_of limits) data = Inr () \<longleftrightarrow>
    length data \<le> pluginOutputLimit limits \<and> valid_message rt options limits data"
proof -
  have "validate_data rt options (validation_limit limits) (frame_limit_of limits) data = Inr () \<longleftrightarrow>
      length data \<le> validation_limit limits \<and> returns (assertMessagePackFrameLimits data (frame_limit_of limits) 1)
      \<and> (\<exists>v. rt_unpack rt data = Inr v \<and> vo_schema options v)"
    by (auto simp: validate_data_def rbind_def returns_def throw_if_def split: sum.splits)
  then show ?thesis using one_frame[OF assms, of data] by (auto simp: valid_message_def validation_limit_is_output)
qed

text \<open>It undoes itself in any pipeline.\<close>

lemma validation_reverses:
  assumes "validation_process rt options limits data = Inr out"
  shows "out = data" "validation_reverse rt options limits data = Inr data"
  using assms by (auto simp: validation_process_def validation_reverse_def Let_def rbind_eq_Inr validate_data_def
      split: if_splits)

lemma validation_inverts: "plugin_inverts limits (validation_plugin rt duration options)"
  unfolding plugin_inverts_def
proof (intro allI impI, goal_cases)
  case (1 ctx data i now t out ctx' out' now')
  obtain b where "validation_process rt options (Some limits) (bytes_of data) = Inr b" "out = data"
    using 1(1,5) by (cases "validation_process rt options (Some limits) (bytes_of data)")
      (auto simp: validation_plugin_def Let_def validation_call_def)
  then show ?case using validation_reverses(2)[of rt options "Some limits" "bytes_of data" b] 1(2,6)
    by (simp add: call_reverse_def validation_plugin_def Let_def validation_call_def)
qed

section \<open>Property\<close>

text \<open>C38: Validation never changes a message and lets through exactly the valid ones: those within the limits
  that are one MessagePack value of which the schema accepts the decoding (\<open>reverse\<close> checks only the size
  unless \<open>validateOnReverse\<close> is set).  The stream stage, however its input is cut, emits the whole input or
  fails, precisely as the buffer operation does.\<close>

theorem validation_exact:
  assumes "frame_limit_of limits \<le> max_safe_integer"
  shows "(validation_process rt options limits data = Inr out \<longleftrightarrow>
      out = data \<and> length data \<le> pluginOutputLimit limits \<and> valid_message rt options limits data)
    \<and> (validation_reverse rt options limits data = Inr out \<longleftrightarrow>
      out = data \<and> length data \<le> pluginOutputLimit limits
      \<and> (vo_validateOnReverse options \<longrightarrow> valid_message rt options limits data))
    \<and> (concat chunks = data \<longrightarrow>
        map_prod id (map_sum id (\<lambda>_. ())) (validation_stream rt options decompress limits chunks) =
          (case (if decompress then validation_reverse else validation_process) rt options limits data of
             Inl e \<Rightarrow> ([], Inl e) | Inr all \<Rightarrow> ([all], Inr ())))"
proof (intro conjI impI)
  note check = validate_data_iff[OF assms, of rt options data]
  show "validation_process rt options limits data = Inr out \<longleftrightarrow>
      out = data \<and> length data \<le> pluginOutputLimit limits \<and> valid_message rt options limits data"
    using check by (cases "validate_data rt options (validation_limit limits) (frame_limit_of limits) data")
      (auto simp: validation_process_def)
  show "validation_reverse rt options limits data = Inr out \<longleftrightarrow>
      out = data \<and> length data \<le> pluginOutputLimit limits
      \<and> (vo_validateOnReverse options \<longrightarrow> valid_message rt options limits data)"
    using check by (cases "validate_data rt options (validation_limit limits) (frame_limit_of limits) data")
      (auto simp: validation_reverse_def Let_def validation_limit_is_output)
  show "map_prod id (map_sum id (\<lambda>_. ())) (validation_stream rt options decompress limits chunks) =
      (case (if decompress then validation_reverse else validation_process) rt options limits data of
         Inl e \<Rightarrow> ([], Inl e) | Inr all \<Rightarrow> ([all], Inr ()))" if "concat chunks = data"
    using that by (auto simp: validation_stream_joined split: sum.splits)
qed

definition sample_validation :: validation_options where
  "sample_validation = \<lparr>vo_schema = (\<lambda>v. v = JsNull), vo_validateOnReverse = False\<rparr>"

definition nil_runtime :: js_runtime where
  "nil_runtime = toy_runtime\<lparr>rt_unpack := (\<lambda>bs. if bs = [0xc0] then Inr JsNull else Inl (JsError ''unpack''))\<rparr>"

theorem validation_exact_witness:
  "validation_process nil_runtime sample_validation None [0xc0] = Inr [0xc0]
    \<and> fst (validation_stream nil_runtime sample_validation False None [[], [0xc0]]) = [[0xc0]]"
proof -
  have limit: "frame_limit_of None \<le> max_safe_integer" "1 \<le> pluginOutputLimit None" "1 \<le> frame_limit_of None"
    by (simp_all add: frame_limit_of_def context_limits_def pluginOutputLimit_def DEFAULT_LIMITS_def max_safe_integer_def)
  have "mp_frame [0xc0]" by (simp add: mp_frame_data mp_format_def)
  then have "valid_message nil_runtime sample_validation None [0xc0]"
    using limit(3) by (simp add: valid_message_def nil_runtime_def sample_validation_def)
  then show ?thesis
    using validation_exact[OF limit(1), of nil_runtime sample_validation "[0xc0]" "[0xc0]" "[[], [0xc0]]" False] limit(2)
    by (auto simp: map_prod_def split: prod.splits)
qed

end
