(* ===== verification/Typed_Pipeline.thy ===== *)
theory Typed_Pipeline
  imports Operations
begin

text \<open>
  \<open>TypedPipeline\<close> (\<open>src/core/typedPipeline.ts\<close>): transforms of application values, synchronous or
  asynchronous, one after the other under the signal of the caller.  The values of all steps have one type
  here; a transform is known by the promise that it gives for an input at an instant, a value that it
  returns directly being a promise that is settled and an exception one that is rejected.
\<close>

section \<open>Pipelines\<close>

type_synonym 'v typed_transform = "'v \<Rightarrow> time \<Rightarrow> 'v settlement"

type_synonym 'v typed_pipeline = "'v typed_transform list"

definition typed_from :: "'v typed_transform \<Rightarrow> 'v typed_pipeline" where
  "typed_from transform = [transform]"

definition typed_pipe :: "'v typed_pipeline \<Rightarrow> 'v typed_transform \<Rightarrow> 'v typed_pipeline" where
  "typed_pipe transforms transform = transforms @ [transform]"

definition typedPipeline :: "'v typed_transform \<Rightarrow> 'v typed_pipeline" where
  "typedPipeline transform = typed_from transform"

section \<open>Running\<close>

text \<open>The function \<open>check\<close> of \<open>run\<close>.\<close>

definition typed_check :: "plain_signal \<Rightarrow> time \<Rightarrow> px_error + unit" where
  "typed_check signal now = throw_if (signal_aborted signal now \<noteq> None) OperationAbortedError"

text \<open>
  The promise of one step: the transform's, or one that the \<open>abort\<close> event rejects first.  As for every
  signal here, an event at the very instant of a settlement comes before it.
\<close>

definition typed_await :: "plain_signal \<Rightarrow> time \<Rightarrow> 'v settlement \<Rightarrow> 'v settlement" where
  "typed_await signal now pending =
     (case signal of None \<Rightarrow> pending
      | Some (t, reason) \<Rightarrow>
          if t \<le> now then Settles now (Inl OperationAbortedError)
          else case pending of
            Pending \<Rightarrow> Settles t (Inl OperationAbortedError)
          | Settles ts r \<Rightarrow> if ts < t then pending else Settles t (Inl OperationAbortedError))"

text \<open>The loop, with the check after it.\<close>

fun typed_steps :: "'v typed_pipeline \<Rightarrow> plain_signal \<Rightarrow> time \<Rightarrow> 'v \<Rightarrow> 'v settlement" where
  "typed_steps [] signal now current =
     Settles now (rbind (typed_check signal now) (\<lambda>_. Inr current))"
| "typed_steps (transform # transforms) signal now current =
     (case typed_check signal now of
        Inl e \<Rightarrow> Settles now (Inl e)
      | Inr _ \<Rightarrow>
          (case typed_await signal now (transform current now) of
             Pending \<Rightarrow> Pending
           | Settles t (Inl e) \<Rightarrow> Settles t (Inl e)
           | Settles t (Inr v) \<Rightarrow> typed_steps transforms signal t v))"

definition typed_run :: "'v typed_pipeline \<Rightarrow> plain_signal \<Rightarrow> time \<Rightarrow> 'v \<Rightarrow> 'v settlement" where
  "typed_run transforms signal now input =
     (case typed_check signal now of
        Inl e \<Rightarrow> Settles now (Inl e)
      | Inr _ \<Rightarrow> typed_steps transforms signal now input)"

section \<open>What a run does\<close>

text \<open>The next step starts when and with what the one before has settled.\<close>

fun settle_bind :: "'a settlement \<Rightarrow> (time \<Rightarrow> 'a \<Rightarrow> 'b settlement) \<Rightarrow> 'b settlement" where
  "settle_bind Pending f = Pending"
| "settle_bind (Settles t (Inl e)) f = Settles t (Inl e)"
| "settle_bind (Settles t (Inr a)) f = f t a"

lemma settlement_cases:
  obtains "p = Pending" | t e where "p = Settles t (Inl e)" | t a where "p = Settles t (Inr a)"
  by (cases p; cases "case p of Settles t r \<Rightarrow> r | Pending \<Rightarrow> Inl undefined") auto

lemma typed_check_None [simp]: "typed_check None now = Inr ()"
  by (simp add: typed_check_def signal_aborted_def)

lemma typed_check_Some: "typed_check (Some (t, reason)) now = (if t \<le> now then Inl OperationAbortedError else Inr ())"
  by (simp add: typed_check_def signal_aborted_def throw_if_def)

lemma typed_run_None: "typed_run fs None now x = typed_steps fs None now x"
  by (simp add: typed_run_def)

lemma typed_run_Nil: "typed_run [] None now x = Settles now (Inr x)"
  by (simp add: typed_run_None)

lemma typed_run_Cons: "typed_run (f # fs) None now x = settle_bind (f x now) (typed_run fs None)"
  unfolding typed_run_None
  by (cases "f x now" rule: settlement_cases) (simp_all add: typed_await_def typed_run_None)

lemma settle_bind_assoc: "settle_bind (settle_bind p f) g = settle_bind p (\<lambda>t a. settle_bind (f t a) g)"
  by (cases p rule: settlement_cases) simp_all

lemma typed_run_append:
  "typed_run (fs @ gs) None now x = settle_bind (typed_run fs None now x) (typed_run gs None)"
proof (induction fs arbitrary: now x)
  case Nil
  then show ?case by (simp add: typed_run_Nil)
next
  case (Cons f fs)
  have "typed_run (fs @ gs) None = (\<lambda>t a. settle_bind (typed_run fs None t a) (typed_run gs None))"
    using Cons.IH by blast
  then show ?case by (simp add: typed_run_Cons settle_bind_assoc)
qed

text \<open>Under a signal a run is the run without it as long as it settles before the event, and cut off otherwise.\<close>

definition cut_at :: "time \<Rightarrow> time \<Rightarrow> 'v settlement \<Rightarrow> 'v settlement" where
  "cut_at t now p =
     (case p of Settles ts r \<Rightarrow> if now < t \<and> ts < t then p else Settles (max now t) (Inl OperationAbortedError)
      | Pending \<Rightarrow> Settles (max now t) (Inl OperationAbortedError))"

definition causal :: "'v typed_transform \<Rightarrow> bool" where
  "causal f \<longleftrightarrow> (\<forall>x now ts r. f x now = Settles ts r \<longrightarrow> now \<le> ts)"

lemma typed_steps_causal:
  "\<forall>f \<in> set fs. causal f \<Longrightarrow> typed_steps fs None now x = Settles ts r \<Longrightarrow> now \<le> ts"
proof (induction fs arbitrary: now x)
  case (Cons f fs)
  show ?case
  proof (cases "f x now")
    case (Settles t q)
    then have "now \<le> t" using Cons.prems(1) by (auto simp: causal_def)
    moreover have "t \<le> ts" using Cons Settles by (cases q) (auto simp: typed_await_def)
    ultimately show ?thesis by simp
  qed (use Cons.prems in \<open>simp add: typed_await_def\<close>)
qed auto

lemma typed_steps_cut:
  "\<forall>f \<in> set fs. causal f \<Longrightarrow> typed_steps fs (Some (t, reason)) now x = cut_at t now (typed_steps fs None now x)"
proof (induction fs arbitrary: now x)
  case Nil
  then show ?case by (simp add: typed_check_Some cut_at_def)
next
  case (Cons f fs)
  show ?case
  proof (cases "t \<le> now")
    case True
    then show ?thesis by (auto simp: typed_check_Some cut_at_def split: settlement.split)
  next
    case now: False
    show ?thesis
    proof (cases "f x now")
      case (Settles ts r)
      then have "now \<le> ts" using Cons.prems by (auto simp: causal_def)
      show ?thesis
      proof (cases r)
        case (Inr v)
        have "typed_steps fs (Some (t, reason)) ts v = cut_at t ts (typed_steps fs None ts v)"
          using Cons by auto
        then show ?thesis using now Settles Inr \<open>now \<le> ts\<close> Cons.prems
            typed_steps_causal[of fs ts v]
          by (auto simp: typed_check_Some typed_await_def cut_at_def max_def split: settlement.split)
      qed (use now Settles in \<open>auto simp: typed_check_Some typed_await_def cut_at_def max_def\<close>)
    qed (use now in \<open>auto simp: typed_check_Some typed_await_def cut_at_def max_def\<close>)
  qed
qed

section \<open>Property\<close>

text \<open>C39: A typed pipeline hands each result to the next transform, however it was put together: running
  \<open>pipe\<close> is running the pipeline and then the new transform.  Under a signal a run is cut off when the signal
  aborts and is the run without it before: it settles no later than the abort, a result that would arrive at
  that instant or later is never returned, and an earlier one is returned unchanged.\<close>

theorem typed_run_cut_off:
  assumes "\<forall>f \<in> set transforms. causal f"
  shows "typed_run (typed_pipe transforms g) None now x
      = settle_bind (typed_run transforms None now x) (\<lambda>t v. g v t)
    \<and> typed_run transforms (Some (t, reason)) now x = cut_at t now (typed_run transforms None now x)
    \<and> (\<exists>ts r. typed_run transforms (Some (t, reason)) now x = Settles ts r \<and> ts \<le> max now t)"
proof (intro conjI)
  have "settle_bind p (\<lambda>t v. Settles t (Inr v)) = p" for p :: "'a settlement"
    by (cases p rule: settlement_cases) simp_all
  then have "typed_run [g] None = (\<lambda>t v. g v t)"
    by (intro ext) (simp add: typed_run_Cons typed_run_Nil[abs_def])
  then show "typed_run (typed_pipe transforms g) None now x
      = settle_bind (typed_run transforms None now x) (\<lambda>t v. g v t)"
    by (simp add: typed_pipe_def typed_run_append)
  show cut: "typed_run transforms (Some (t, reason)) now x = cut_at t now (typed_run transforms None now x)"
    using typed_steps_cut[OF assms, of t reason now x]
    by (auto simp: typed_run_def typed_check_Some cut_at_def split: settlement.split)
  show "\<exists>ts r. typed_run transforms (Some (t, reason)) now x = Settles ts r \<and> ts \<le> max now t"
    unfolding cut by (auto simp: cut_at_def split: settlement.split)
qed

definition slow_double :: "nat typed_transform" where
  "slow_double n now = Settles (now + 10) (Inr (2 * n))"

theorem typed_run_cut_off_witness:
  "typed_run [slow_double, slow_double] (Some (15, NullReason)) 0 3 = Settles 15 (Inl OperationAbortedError)
    \<and> typed_run [slow_double, slow_double] (Some (25, NullReason)) 0 3 = Settles 20 (Inr 12)"
proof -
  have causal: "\<forall>f \<in> set [slow_double, slow_double]. causal f" by (simp add: causal_def slow_double_def)
  have "typed_run [slow_double, slow_double] None 0 3 = Settles 20 (Inr 12)"
    by (simp add: typed_run_Cons typed_run_Nil slow_double_def)
  then show ?thesis
    using typed_run_cut_off[OF causal, of slow_double 0 3 15 NullReason]
      typed_run_cut_off[OF causal, of slow_double 0 3 25 NullReason]
    by (simp add: cut_at_def)
qed

end
