(* ===== verification/Observability.thy ===== *)
theory Observability
  imports PipeX_Prelude
begin

text \<open>
  \<open>src/core/observability.ts\<close>: the wrappers around loggers and tracers of the caller, which may throw,
  reject or misbehave without the package noticing.  \<open>'h\<close> is the state of the caller's code.
\<close>

section \<open>Observers\<close>

text \<open>How a call of the caller's code ends: with a value, an exception, or a promise that rejects.\<close>

datatype host_outcome = HostValue | HostThrows | HostRejects

type_synonym 'h callback = "'h \<Rightarrow> 'h \<times> host_outcome"

definition observe :: "'h callback \<Rightarrow> 'h \<Rightarrow> 'h" where
  "observe callback h = fst (callback h)"

section \<open>Loggers\<close>

record ('c, 'h) logger =
  lg_info :: "string \<Rightarrow> 'c \<Rightarrow> 'h callback"
  lg_warn :: "string \<Rightarrow> 'c \<Rightarrow> 'h callback"
  lg_error :: "string \<Rightarrow> 'c \<Rightarrow> 'h callback"
  lg_debug :: "string \<Rightarrow> 'c \<Rightarrow> 'h callback"

definition observed :: "(string \<Rightarrow> 'c \<Rightarrow> 'h callback) \<Rightarrow> string \<Rightarrow> 'c \<Rightarrow> 'h callback" where
  "observed method message context h = (observe (method message context) h, HostValue)"

definition safeLogger :: "('c, 'h) logger option \<Rightarrow> ('c, 'h) logger option" where
  "safeLogger l =
     (case l of None \<Rightarrow> None
      | Some l \<Rightarrow> Some \<lparr>lg_info = observed (lg_info l), lg_warn = observed (lg_warn l),
                       lg_error = observed (lg_error l), lg_debug = observed (lg_debug l)\<rparr>)"

section \<open>Tracers\<close>

record ('v, 'h) host_span =
  sp_setAttribute :: "string \<Rightarrow> 'v \<Rightarrow> 'h callback"
  sp_addEvent :: "string \<Rightarrow> 'v \<Rightarrow> 'h callback"
  sp_end :: "'h callback"

text \<open>What \<open>startSpan\<close> of the caller does: throw, give nothing, a promise, or a span.\<close>

datatype ('v, 'h) started = StartThrows | StartsNothing | StartsPromise | StartsSpan "('v, 'h) host_span"

type_synonym ('v, 'h) tracer = "string \<Rightarrow> 'h \<Rightarrow> 'h \<times> ('v, 'h) started"

text \<open>The span that the package gets: the variables \<open>span\<close> and \<open>ended\<close> of the closure.\<close>

record ('v, 'h) safe_span =
  sw_span :: "('v, 'h) host_span option"
  sw_ended :: bool

definition safe_startSpan :: "('v, 'h) tracer \<Rightarrow> string \<Rightarrow> 'h \<Rightarrow> 'h \<times> ('v, 'h) safe_span" where
  "safe_startSpan tracer name h =
     (case tracer name h of
        (h', StartsSpan span) \<Rightarrow> (h', \<lparr>sw_span = Some span, sw_ended = False\<rparr>)
      | (h', _) \<Rightarrow> (h', \<lparr>sw_span = None, sw_ended = False\<rparr>))"

definition on_span :: "(('v, 'h) host_span \<Rightarrow> 'h callback) \<Rightarrow> ('v, 'h) safe_span \<Rightarrow> 'h \<Rightarrow> 'h" where
  "on_span f w h = (case sw_span w of None \<Rightarrow> h | Some span \<Rightarrow> observe (f span) h)"

definition safe_setAttribute :: "string \<Rightarrow> 'v \<Rightarrow> ('v, 'h) safe_span \<times> 'h \<Rightarrow> ('v, 'h) safe_span \<times> 'h" where
  "safe_setAttribute key v = (\<lambda>(w, h). (w, on_span (\<lambda>span. sp_setAttribute span key v) w h))"

definition safe_addEvent :: "string \<Rightarrow> 'v \<Rightarrow> ('v, 'h) safe_span \<times> 'h \<Rightarrow> ('v, 'h) safe_span \<times> 'h" where
  "safe_addEvent event attributes = (\<lambda>(w, h). (w, on_span (\<lambda>span. sp_addEvent span event attributes) w h))"

definition safe_end :: "('v, 'h) safe_span \<times> 'h \<Rightarrow> ('v, 'h) safe_span \<times> 'h" where
  "safe_end = (\<lambda>(w, h). if sw_ended w then (w, h) else (w\<lparr>sw_ended := True\<rparr>, on_span sp_end w h))"

section \<open>Isolation\<close>

text \<open>A method of a safe logger runs the caller's method once and never throws or rejects.\<close>

lemma safeLogger_isolates:
  assumes "safeLogger (Some l) = Some s" "(m, m') \<in> {(lg_info l, lg_info s), (lg_warn l, lg_warn s),
      (lg_error l, lg_error s), (lg_debug l, lg_debug s)}"
  shows "m' message context h = (fst (m message context h), HostValue)"
  using assms by (auto simp: safeLogger_def observed_def observe_def)

text \<open>Calls of a safe span in any order reach the caller's span, but for every \<open>end\<close> after the first.\<close>

datatype 'v span_call = SetAttribute string 'v | AddEvent string 'v | EndSpan

fun safe_call :: "('v, 'h) safe_span \<times> 'h \<Rightarrow> 'v span_call \<Rightarrow> ('v, 'h) safe_span \<times> 'h" where
  "safe_call s (SetAttribute key v) = safe_setAttribute key v s"
| "safe_call s (AddEvent event attributes) = safe_addEvent event attributes s"
| "safe_call s EndSpan = safe_end s"

fun host_call :: "('v, 'h) host_span \<Rightarrow> 'h \<Rightarrow> 'v span_call \<Rightarrow> 'h" where
  "host_call span h (SetAttribute key v) = fst (sp_setAttribute span key v h)"
| "host_call span h (AddEvent event attributes) = fst (sp_addEvent span event attributes h)"
| "host_call span h EndSpan = fst (sp_end span h)"

fun end_once :: "bool \<Rightarrow> 'v span_call list \<Rightarrow> 'v span_call list" where
  "end_once ended [] = []"
| "end_once ended (EndSpan # cs) = (if ended then [] else [EndSpan]) @ end_once True cs"
| "end_once ended (c # cs) = c # end_once ended cs"

lemma count_end_once: "count_list (end_once ended cs) EndSpan = (if ended \<or> EndSpan \<notin> set cs then 0 else 1)"
  by (induction ended cs rule: end_once.induct) auto

lemma safe_calls_reach:
  "sw_span w = Some span \<Longrightarrow>
     snd (foldl safe_call (w, h) cs) = foldl (host_call span) h (end_once (sw_ended w) cs)"
proof (induction cs arbitrary: w h)
  case (Cons c cs)
  show ?case
  proof (cases c)
    case EndSpan
    show ?thesis using Cons.prems Cons.IH[of "w\<lparr>sw_ended := True\<rparr>"] Cons.IH[of w]
      by (cases "sw_ended w") (simp_all add: EndSpan safe_end_def on_span_def observe_def)
  qed (use Cons in \<open>simp_all add: safe_setAttribute_def safe_addEvent_def on_span_def observe_def\<close>)
qed simp

text \<open>Without a span of the caller nothing happens.\<close>

lemma safe_calls_nothing:
  assumes "sw_span w = None"
  shows "snd (foldl safe_call (w, h) cs) = h"
  using assms
proof (induction cs arbitrary: w)
  case (Cons c cs)
  then show ?case
    by (cases c) (auto simp: safe_setAttribute_def safe_addEvent_def safe_end_def on_span_def)
qed simp

end
