(* ===== verification/Engine_Setup.thy ===== *)
theory Engine_Setup
  imports Engine Observability
begin

text \<open>
  How a \<open>DataEngine\<close> is set up (\<open>src/core/dataEngine.ts\<close>): the registry of plugin classes, the setters for
  what the caller owns, \<open>fromConfig\<close>, and schemas from a schema registry.
\<close>

section \<open>Objects of the caller\<close>

text \<open>An object, known by the names of its members that are functions and by what they do.\<close>

type_synonym 'x hosted = "string list \<times> 'x"

definition implements :: "'x hosted \<Rightarrow> string list \<Rightarrow> bool" where
  "implements obj members \<longleftrightarrow> set members \<subseteq> set (fst obj)"

text \<open>
  \<open>getSchema\<close> of a schema registry: the promise of a schema.
\<close>

type_synonym schema = "(js_value \<Rightarrow> bool) hosted"
type_synonym schema_registry = "string \<Rightarrow> nat option \<Rightarrow> time \<Rightarrow> schema settlement"
type_synonym audit_logger = "audit_record \<Rightarrow> time \<Rightarrow> unit settlement"

text \<open>
  An engine with the members that \<open>engine\<close> leaves out: a failure sink, a logger and a tracer behind their
  wrappers, and a schema registry.
\<close>

record ('c, 'v, 'h, 'w) engine_setup =
  su_engine :: engine
  su_dlq :: "'w option"
  su_logger :: "('c, 'h) logger option"
  su_tracer :: "(string \<Rightarrow> 'h \<Rightarrow> 'h \<times> ('v, 'h) safe_span) option"
  su_registry :: "schema_registry option"

section \<open>Setters\<close>

definition setDlq :: "('c, 'v, 'h, 'w) engine_setup \<Rightarrow> 'w hosted \<Rightarrow> px_error + ('c, 'v, 'h, 'w) engine_setup" where
  "setDlq su stream =
     (if \<not> implements stream [''write''] then Inl (JsError ''[PipeX] DLQ must be a writable stream'')
      else Inr (su\<lparr>su_dlq := Some (snd stream)\<rparr>))"

definition setLogger ::
  "('c, 'v, 'h, 'w) engine_setup \<Rightarrow> ('c, 'h) logger hosted \<Rightarrow> px_error + ('c, 'v, 'h, 'w) engine_setup" where
  "setLogger su l =
     (if \<not> implements l [''info'', ''warn'', ''error'', ''debug'']
      then Inl (JsError ''[PipeX] Logger must implement info, warn, error, and debug'')
      else Inr (su\<lparr>su_logger := safeLogger (Some (snd l))\<rparr>))"

definition setTracer ::
  "('c, 'v, 'h, 'w) engine_setup \<Rightarrow> ('v, 'h) tracer hosted \<Rightarrow> px_error + ('c, 'v, 'h, 'w) engine_setup" where
  "setTracer su tracer =
     (if \<not> implements tracer [''startSpan''] then Inl (JsError ''[PipeX] Tracer must implement startSpan'')
      else Inr (su\<lparr>su_tracer := Some (safe_startSpan (snd tracer))\<rparr>))"

definition setSchemaRegistry ::
  "('c, 'v, 'h, 'w) engine_setup \<Rightarrow> schema_registry hosted \<Rightarrow> px_error + ('c, 'v, 'h, 'w) engine_setup" where
  "setSchemaRegistry su registry =
     (if \<not> implements registry [''getSchema'']
      then Inl (JsError ''[PipeX] Schema registry must implement getSchema'')
      else Inr (su\<lparr>su_registry := Some (snd registry)\<rparr>))"

definition check_setAuditLogger :: "engine \<Rightarrow> audit_logger hosted \<Rightarrow> px_error + engine" where
  "check_setAuditLogger e l =
     (if \<not> implements l [''log''] then Inl (JsError ''[PipeX] Audit logger must implement log'')
      else Inr (setAuditLogger e (snd l)))"

definition check_setSchema :: "engine \<Rightarrow> schema \<Rightarrow> px_error + engine" where
  "check_setSchema e schema =
     (if \<not> implements schema [''safeParse''] then Inl (JsError ''[PipeX] Schema must implement safeParse'')
      else Inr (setSchema e (snd schema)))"

text \<open>\<open>loadSchema\<close>: what is done to the engine as it is when the schema has arrived, and when.\<close>

definition loadSchema ::
  "('c, 'v, 'h, 'w) engine_setup \<Rightarrow> string \<Rightarrow> nat option \<Rightarrow> time \<Rightarrow> (engine \<Rightarrow> px_error + engine) settlement" where
  "loadSchema su subject version now =
     (case su_registry su of
        None \<Rightarrow> Settles now (Inl (JsError ''[PipeX] No Schema Registry configured''))
      | Some getSchema \<Rightarrow>
          (case getSchema subject version now of
             Pending \<Rightarrow> Pending
           | Settles t r \<Rightarrow> Settles t (map_sum id (\<lambda>schema e. check_setSchema e schema) r)))"

section \<open>Plugin classes\<close>

text \<open>What a constructor throws: an error, or any other value with its text.\<close>

datatype thrown = ThrownError px_error | ThrownValue string

fun thrown_message :: "thrown \<Rightarrow> string" where
  "thrown_message (ThrownError e) = error_message e"
| "thrown_message (ThrownValue s) = s"

type_synonym plugin_class = "js_value \<Rightarrow> thrown + plugin"
type_synonym plugin_registry = "string \<rightharpoonup> plugin_class"

definition alphanumeric :: "char \<Rightarrow> bool" where
  "alphanumeric c \<longleftrightarrow> c \<in> set ''abcdefghijklmnopqrstuvwxyzABCDEFGHIJKLMNOPQRSTUVWXYZ0123456789''"

text \<open>The regular expression of \<open>registerPlugin\<close>.\<close>

fun registration_name :: "string \<Rightarrow> bool" where
  "registration_name [] = False"
| "registration_name (c # cs) =
     (alphanumeric c \<and> length cs \<le> 63 \<and> list_all (\<lambda>c. alphanumeric c \<or> c = CHR ''-'') cs)"

text \<open>A class that is no function is \<open>None\<close>.\<close>

definition registerPlugin :: "plugin_registry \<Rightarrow> string \<Rightarrow> plugin_class option \<Rightarrow> px_error + plugin_registry" where
  "registerPlugin registry name pluginClass =
     (case pluginClass of
        None \<Rightarrow> Inl (JsError ''[PipeX] Invalid plugin registration'')
      | Some create \<Rightarrow>
          if \<not> registration_name name then Inl (JsError ''[PipeX] Invalid plugin registration'')
          else Inr (registry(name \<mapsto> create)))"

text \<open>The registrations of \<open>src/index.ts\<close>, one after the other.\<close>

definition built_in_names :: "string list" where
  "built_in_names = [''hashing'', ''encryption'', ''compression'', ''benchmark'', ''worker-pool'', ''validation'',
     ''kms-encryption'']"

fun register_all :: "plugin_registry \<Rightarrow> (string \<times> plugin_class) list \<Rightarrow> px_error + plugin_registry" where
  "register_all registry [] = Inr registry"
| "register_all registry ((name, create) # cs) =
     rbind (registerPlugin registry name (Some create)) (\<lambda>registry. register_all registry cs)"

section \<open>Configuration\<close>

datatype config_plugins = NotAnArray | PluginList "(string \<times> js_value) list"

record ('c, 'v, 'h, 'w) engine_config =
  ec_plugins :: "config_plugins option"
  ec_limits :: partial_limits
  ec_logger :: "('c, 'h) logger hosted option"
  ec_tracer :: "('v, 'h) tracer hosted option"
  ec_auditLogger :: "audit_logger hosted option"
  ec_dlq :: "'w hosted option"
  ec_schema :: "schema option"
  ec_schemaRegistry :: "schema_registry hosted option"

definition when_given :: "'a option \<Rightarrow> ('s \<Rightarrow> 'a \<Rightarrow> px_error + 's) \<Rightarrow> 's \<Rightarrow> px_error + 's" where
  "when_given v setter s = (case v of None \<Rightarrow> Inr s | Some a \<Rightarrow> setter s a)"

text \<open>A setter of the engine, on the whole.\<close>

definition on_engine ::
  "(engine \<Rightarrow> 'a \<Rightarrow> px_error + engine) \<Rightarrow> ('c, 'v, 'h, 'w) engine_setup \<Rightarrow> 'a \<Rightarrow> px_error + ('c, 'v, 'h, 'w) engine_setup"
where
  "on_engine setter su a = map_sum id (\<lambda>e. su\<lparr>su_engine := e\<rparr>) (setter (su_engine su) a)"

text \<open>The body of the loop over the plugins, and the loop.\<close>

definition add_plugin :: "plugin_registry \<Rightarrow> engine \<Rightarrow> string \<times> js_value \<Rightarrow> px_error + engine" where
  "add_plugin registry e = (\<lambda>(name, options).
     case registry name of
       None \<Rightarrow> Inl (JsError (''[PipeX] Unknown plugin in config: '' @ name))
     | Some create \<Rightarrow>
         (case (case create options of
                  Inl t \<Rightarrow> Inl (thrown_message t)
                | Inr p \<Rightarrow> map_sum error_message id (use_plugin e p)) of
            Inl message \<Rightarrow>
              Inl (JsError (''[PipeX] Failed to initialize plugin \"'' @ name @ ''\": '' @ message))
          | Inr e' \<Rightarrow> Inr e'))"

fun add_plugins :: "plugin_registry \<Rightarrow> engine \<Rightarrow> (string \<times> js_value) list \<Rightarrow> px_error + engine" where
  "add_plugins registry e [] = Inr e"
| "add_plugins registry e (p # ps) = rbind (add_plugin registry e p) (\<lambda>e'. add_plugins registry e' ps)"

definition add_config_plugins :: "plugin_registry \<Rightarrow> engine \<Rightarrow> config_plugins \<Rightarrow> px_error + engine" where
  "add_config_plugins registry e plugins =
     (case plugins of
        NotAnArray \<Rightarrow> Inl (JsError ''[PipeX] Configuration plugins must be an array'')
      | PluginList ps \<Rightarrow> add_plugins registry e ps)"

text \<open>\<open>fromConfig\<close>; a configuration that is no object is \<open>None\<close>.\<close>

definition fromConfig ::
  "plugin_registry \<Rightarrow> ('c, 'v, 'h, 'w) engine_config option \<Rightarrow> px_error + ('c, 'v, 'h, 'w) engine_setup" where
  "fromConfig registry config =
     (case config of
        None \<Rightarrow> Inl (JsError ''[PipeX] Configuration must be an object'')
      | Some c \<Rightarrow>
          rbind (new_DataEngine (ec_limits c)) (\<lambda>e.
          rbind (when_given (ec_logger c) setLogger
            \<lparr>su_engine = e, su_dlq = None, su_logger = None, su_tracer = None, su_registry = None\<rparr>) (\<lambda>su.
          rbind (when_given (ec_tracer c) setTracer su) (\<lambda>su.
          rbind (when_given (ec_auditLogger c) (on_engine check_setAuditLogger) su) (\<lambda>su.
          rbind (when_given (ec_dlq c) setDlq su) (\<lambda>su.
          rbind (when_given (ec_schemaRegistry c) setSchemaRegistry su) (\<lambda>su.
          rbind (when_given (ec_schema c) (on_engine check_setSchema) su) (\<lambda>su.
          when_given (ec_plugins c) (on_engine (add_config_plugins registry)) su))))))))"

section \<open>A configured engine\<close>

lemma register_all_accepts:
  assumes "\<forall>n \<in> set (map fst cs). registration_name n" "distinct (map fst cs)"
  shows "register_all registry cs = Inr (registry ++ map_of cs)"
  using assms
proof (induction cs arbitrary: registry)
  case (Cons c cs)
  obtain name create where c: "c = (name, create)" by (cases c)
  have "name \<notin> dom (map_of cs)" using Cons.prems(2) by (simp add: c dom_map_of_conv_image_fst)
  then have "registry(name \<mapsto> create) ++ map_of cs = registry ++ (map_of cs)(name \<mapsto> create)"
    by (simp add: map_add_upd_left)
  then show ?case using Cons.IH[of "registry(name \<mapsto> create)"] Cons.prems
    by (simp add: c registerPlugin_def del: fun_upd_apply)
qed simp

text \<open>All names of the package are accepted, and each leads to the class registered for it.\<close>

lemma built_in_registered:
  assumes "map fst classes = built_in_names"
  shows "register_all Map.empty classes = Inr (map_of classes)"
proof -
  have "list_all registration_name built_in_names" "distinct built_in_names"
    by (simp_all add: built_in_names_def alphanumeric_def)
  then show ?thesis using register_all_accepts[of classes Map.empty] by (simp add: assms list_all_iff)
qed

text \<open>The setters that do not concern the engine proper, and those that do.\<close>

lemma on_engine_Inr:
  "on_engine setter su a = Inr su' \<longleftrightarrow> (\<exists>e. setter (su_engine su) a = Inr e \<and> su' = su\<lparr>su_engine := e\<rparr>)"
  by (cases "setter (su_engine su) a") (auto simp: on_engine_def)

lemma when_given_Inr:
  "when_given v setter s = Inr s' \<longleftrightarrow> (v = None \<and> s' = s \<or> (\<exists>a. v = Some a \<and> setter s a = Inr s'))"
  by (auto simp: when_given_def split: option.split)

lemma setters_leave_engine:
  "setLogger su l = Inr su' \<Longrightarrow> su_engine su' = su_engine su"
  "setTracer su t = Inr su' \<Longrightarrow> su_engine su' = su_engine su"
  "setDlq su w = Inr su' \<Longrightarrow> su_engine su' = su_engine su"
  "setSchemaRegistry su r = Inr su' \<Longrightarrow> su_engine su' = su_engine su"
  by (auto simp: setLogger_def setTracer_def setDlq_def setSchemaRegistry_def split: if_splits)

lemma add_plugin_Inr:
  "add_plugin registry e (name, options) = Inr e' \<longleftrightarrow>
     (\<exists>create p. registry name = Some create \<and> create options = Inr p \<and> use_plugin e p = Inr e')"
proof (cases "registry name")
  case (Some create)
  show ?thesis
  proof (cases "create options")
    case (Inr p)
    then show ?thesis using Some by (cases "use_plugin e p") (auto simp: add_plugin_def)
  qed (use Some in \<open>simp add: add_plugin_def\<close>)
qed (simp add: add_plugin_def)

lemma add_plugin_reachable: "reachable e \<Longrightarrow> add_plugin registry e p = Inr e' \<Longrightarrow> reachable e'"
  by (cases p) (auto simp: add_plugin_Inr intro: reach_step step_use)

lemma use_plugin_appends: "use_plugin e p = Inr e' \<Longrightarrow> eng_plugins e' = eng_plugins e @ [p]"
  by (auto simp: use_plugin_def rbind_eq_Inr split: if_splits)

lemma add_plugins_reachable: "reachable e \<Longrightarrow> add_plugins registry e ps = Inr e' \<Longrightarrow> reachable e'"
  by (induction ps arbitrary: e) (auto simp: rbind_eq_Inr intro: add_plugin_reachable)

lemma add_plugins_appends:
  "add_plugins registry e ps = Inr e' \<Longrightarrow>
     \<exists>added. eng_plugins e' = eng_plugins e @ added
       \<and> list_all2 (\<lambda>(name, options) p. \<exists>create. registry name = Some create \<and> create options = Inr p) ps added"
proof (induction ps arbitrary: e)
  case (Cons q ps)
  obtain name options where q: "q = (name, options)" by (cases q)
  obtain e1 where e1: "add_plugin registry e (name, options) = Inr e1" "add_plugins registry e1 ps = Inr e'"
    using Cons.prems by (auto simp: rbind_eq_Inr q)
  obtain create p where p: "registry name = Some create" "create options = Inr p" "use_plugin e p = Inr e1"
    using e1(1) by (auto simp: add_plugin_Inr)
  obtain added where "eng_plugins e' = eng_plugins e1 @ added"
      "list_all2 (\<lambda>(name, options) p. \<exists>create. registry name = Some create \<and> create options = Inr p) ps added"
    using Cons.IH[OF e1(2)] by blast
  then show ?case using p use_plugin_appends[OF p(3)] q by (intro exI[of _ "p # added"]) simp
qed simp

text \<open>
  Whatever the configuration, an engine that \<open>fromConfig\<close> returns is one that could have been built by hand, and
  its pipeline holds the plugins of the configuration in their order.
\<close>

theorem fromConfig_engine:
  assumes "fromConfig registry (Some c) = Inr su"
  shows "reachable (su_engine su)
    \<and> (\<forall>ps. ec_plugins c = Some (PluginList ps) \<longrightarrow>
        list_all2 (\<lambda>(name, options) p. \<exists>create. registry name = Some create \<and> create options = Inr p)
          ps (eng_plugins (su_engine su)))
    \<and> (ec_plugins c = None \<longrightarrow> eng_plugins (su_engine su) = [])"
proof -
  obtain e0 su1 su2 su3 su4 su5 su6 where new: "new_DataEngine (ec_limits c) = Inr e0"
    and s1: "when_given (ec_logger c) setLogger
      \<lparr>su_engine = e0, su_dlq = None, su_logger = None, su_tracer = None, su_registry = None\<rparr> = Inr su1"
    and s2: "when_given (ec_tracer c) setTracer su1 = Inr su2"
    and s3: "when_given (ec_auditLogger c) (on_engine check_setAuditLogger) su2 = Inr su3"
    and s4: "when_given (ec_dlq c) setDlq su3 = Inr su4"
    and s5: "when_given (ec_schemaRegistry c) setSchemaRegistry su4 = Inr su5"
    and s6: "when_given (ec_schema c) (on_engine check_setSchema) su5 = Inr su6"
    and s7: "when_given (ec_plugins c) (on_engine (add_config_plugins registry)) su6 = Inr su"
    using assms by (auto simp: fromConfig_def rbind_eq_Inr)
  have "su_engine su1 = e0" using s1 by (auto simp: when_given_Inr dest: setters_leave_engine)
  then have e2: "su_engine su2 = e0" using s2 by (auto simp: when_given_Inr dest: setters_leave_engine)
  have e3: "reachable (su_engine su3) \<and> eng_plugins (su_engine su3) = eng_plugins e0"
    using s3 e2 reach_new[OF new]
    by (auto simp: when_given_Inr on_engine_Inr check_setAuditLogger_def setAuditLogger_def[abs_def] split: if_splits
        intro: reach_step[OF _ step_audit[unfolded setAuditLogger_def]])
  have "su_engine su4 = su_engine su3" using s4 by (auto simp: when_given_Inr dest: setters_leave_engine)
  moreover have "su_engine su5 = su_engine su4" using s5 by (auto simp: when_given_Inr dest: setters_leave_engine)
  ultimately have e6: "reachable (su_engine su6) \<and> eng_plugins (su_engine su6) = eng_plugins e0"
    using s6 e3
    by (auto simp: when_given_Inr on_engine_Inr check_setSchema_def setSchema_def[abs_def] split: if_splits
        intro: reach_step[OF _ step_schema[unfolded setSchema_def]])
  have none: "eng_plugins e0 = []" using new by (auto simp: new_DataEngine_def rbind_eq_Inr)
  show ?thesis
  proof (cases "ec_plugins c")
    case (Some plugins)
    obtain ps e where ps: "plugins = PluginList ps" "add_plugins registry (su_engine su6) ps = Inr e" "su_engine su = e"
      using s7 Some by (auto simp: when_given_Inr on_engine_Inr add_config_plugins_def split: config_plugins.splits)
    then show ?thesis using Some e6 none add_plugins_reachable[of "su_engine su6"] add_plugins_appends[OF ps(2)] by auto
  qed (use s7 e6 none in \<open>auto simp: when_given_Inr\<close>)
qed

end
