(* ===== verification/Spec2Isabelle.thy ===== *)
theory Spec2Isabelle
  imports Frame_Limit_Stream Decryption_Stream Built_In_Plugins Worker_Framing Stream_Endpoint File_Round_Trip Validation Typed_Pipeline Engine_Setup
begin

text \<open>
  A verification library for PipeX: pipelines of plugins that transform buffers, in memory and as
  Node.js streams, with authenticated encryption, HMAC, compression, bounded MessagePack framing and
  an engine that owns limits, requests and deadlines.

  \<^bold>\<open>Parts and theories.\<close>  Each theory opens with the source files it models.

  \<^item> \<open>PipeX_Prelude\<close>: results (\<open>error + value\<close>), bytes, big-endian numbers, text of numbers, and the
    collections of rewrite rules that the other theories share.  \<open>PipeX_Errors\<close>:
    \<open>src/core/errors.ts\<close>.  \<open>Resource_Limits\<close>: \<open>resourceLimits.ts\<close> and the validation of limits.
  \<^item> \<open>Node_Streams\<close>: what a \<open>Transform\<close> is here, a state with a \<open>transform\<close> and a \<open>flush\<close> that push
    chunks and may fail, and the locales \<open>incremental_stream\<close> (a stage that works on the joined input)
    and \<open>metered\<close> (a stage that counts what passes).
  \<^item> \<open>Frame_Scanner\<close>, \<open>MessagePack_Frames\<close>, \<open>Frame_Limit_Stream\<close>: \<open>frameLimits.ts\<close>, the incremental
    scanner, the grammar of MessagePack values it decides, and the stream stage built on it.
  \<^item> \<open>Encryption_Format\<close>, \<open>Encryption_Buffer\<close>, \<open>Encryption_Stream\<close>, \<open>Decryption_Stream\<close>:
    \<open>encryptionFormat.ts\<close>, whole buffers first, then both \<open>Transform\<close> stages with their closure
    variables, wiping of secrets included.
  \<^item> \<open>Operations\<close>, \<open>Retry\<close>: \<open>operations.ts\<close>, \<open>createOperationSignal\<close> of \<open>dataEngine.ts\<close> and \<open>withRetry\<close> of
    \<open>core.ts\<close>, on a clock in milliseconds.
  \<^item> \<open>Plugins\<close>: \<open>types.ts\<close>, \<open>plugin.ts\<close>, the capability checks of \<open>core.ts\<close> and \<open>kmsCapabilities.ts\<close>.
    \<open>Hashing\<close>, \<open>Compression\<close>: \<open>hashing.ts\<close> and \<open>compression.ts\<close>, buffers and streams.
    \<open>Stream_Stages\<close>: the byte and object limits, manifest stages and fallback stage of \<open>core.ts\<close>.
  \<^item> \<open>Conversion\<close>: JavaScript values, their way to a buffer and back, and manifests.
  \<^item> \<open>Engine\<close>: \<open>dataEngine.ts\<close>, its state as a record, one definition for each method, the steps it
    can make in any order, and the book of requests that its maps, sets and callbacks implement.
  \<^item> \<open>Binary_Controller\<close>: \<open>BinaryController.ts\<close>.  An \<open>async\<close> method is an operation on engine, clock and
    the table of trusted types, which returns, throws or waits for ever.  \<open>Binary_Safety\<close>: what holds
    of every \<open>run\<close> and \<open>undo\<close>.  \<open>Round_Trip\<close>: \<open>undo\<close> after \<open>run\<close>, for plugins that keep a contract.
    \<open>Built_In_Plugins\<close>: the locale \<open>codec\<close> with that contract, its interpretations by hashing,
    compression and encryption, the KMS plugin, and the constructor of \<open>encryption.ts\<close>.
  \<^item> \<open>Worker_Pool\<close>, \<open>Worker_Stream\<close>, \<open>Worker_Framing\<close>: \<open>worker.ts\<close>, options, tasks and the life cycle of the pool
    as a step relation; the framed stream in both directions, what it accepts and its round trip.
  \<^item> \<open>Kms_Encryption\<close>, \<open>Kms_Safety\<close>: \<open>kms_encryption.ts\<close>, the calls of a provider under a time limit and
    the envelope; what is opened, how long a call lasts, what is seen of its errors, which keys are wiped.
  \<^item> \<open>Pipeline_Schedule\<close>: \<open>pipeline\<close> of \<open>node:stream\<close>, stages as codata with queues between them that take
    turns in any order; whatever the turns, the outcome is that of running the stages one by one, and
    fair turns bring it about.  \<open>Stream_Chain\<close>: the stages of \<open>core.ts\<close> on that ground, the fallback stage
    with its failure sink, \<open>buildTransformChain\<close>.  \<open>Stream_Runs\<close>: a pipeline under a signal.
  \<^item> \<open>Stream_Controller\<close>, \<open>Stream_Safety\<close>, \<open>Stream_Endpoint\<close>: \<open>StreamController.ts\<close>, the ends and deadlines of its
    requests, and the \<open>Writable\<close> that \<open>into\<close> returns as a state machine.
  \<^item> \<open>File_System\<close>: the calls of \<open>node:fs\<close> and \<open>koffi\<close> that the sources make, on a state of inodes, names and
    open descriptors; every call may fail, a transfer may be short, and other processes act between the calls.
    \<open>Secure_Files\<close>: the POSIX session of \<open>secureFiles.ts\<close>, \<open>openat\<close> below verified directories, the
    temporary file, \<open>fsync\<close> and \<open>renameat\<close>.  \<open>File_Controller\<close>: \<open>FileController.ts\<close>.
  \<^item> \<open>File_Safety\<close>: the deadlines and requests of \<open>file_process\<close> and \<open>file_reverse\<close>.  \<open>Atomic_Output\<close>,
    \<open>Atomic_Session\<close>: the chunks that a session writes stay in inodes of its own until they are renamed, whatever
    other processes do.  \<open>Atomic_Replacement\<close>, \<open>Atomic_Effect\<close>: with no other process at work a session changes
    nothing, or replaces the output by the whole content in one step.
  \<^item> \<open>File_Paths\<close>: what \<open>realpath\<close> finds is what \<open>openat\<close> finds from the root, and the paths of a session.
    \<open>File_Transform\<close>, \<open>File_Round_Trip\<close>: from the file that the input's path leads to, through the plugins, to the
    file under the name of the output, and back; a sample of both directions is evaluated.
  \<^item> \<open>Native_Streams\<close>, \<open>Stream_Round_Trip\<close>: \<open>createStream\<close> of the built-in plugins as stages, what a whole
    pipeline of them computes, and a stream that is piped there and back.
  \<^item> \<open>Validation\<close>: \<open>validation.ts\<close>.  \<open>Typed_Pipeline\<close>: \<open>typedPipeline.ts\<close>, its steps and their deadline.
    \<open>Observability\<close>: \<open>observability.ts\<close>, the spans and measurements of a wrapped plugin.  \<open>Engine_Setup\<close>: the
    registry of plugin names, \<open>fromConfig\<close>, the setters and the schema of \<open>dataEngine.ts\<close>.

  \<^bold>\<open>How the parts meet.\<close>  The controller asks the engine for a signal and a request, converts the
  value, calls each plugin through \<open>withRetry\<close>, which bounds the wait by the signal and hands every
  promise to \<open>trackWork\<close>, then writes an audit record and ends the request.  The definitions compose the
  same way: \<open>binary_run\<close> calls \<open>createOperationSignal\<close>, \<open>op_start\<close>, \<open>run_body\<close> with \<open>run_plugins\<close> and
  \<open>call_plugin\<close>, and \<open>op_guarded\<close> for the \<open>catch\<close> and \<open>finally\<close>.  The file controller opens a session of \<open>secureFiles.ts\<close>, runs the
  stages of \<open>Stream_Chain\<close> from the input's descriptor into the temporary file, commits, and disposes of the
  session on every path.

  \<^bold>\<open>What is shown.\<close>  Encryption: round trip, exactly which buffers decrypt, streams equal to buffers
  however the input is cut, only authenticated bytes pushed, sizes and wiping.  Framing: the scanner
  accepts exactly the concatenations of complete values within its limits.  Retry: which attempt
  decides, when, and that no late success is reported.  Hashing and compression: exactness, round
  trips and streams equal to buffers.  Engine: the invariant of every reachable state, the refinement
  of the book of requests, and that tracked work drains.  Controller: every operation releases its
  request and keeps its deadline, the type of what \<open>undo\<close> returns is trusted, and \<open>run\<close> followed by
  \<open>undo\<close> is the identity on the built-in plugins.  Streams and files: the outcome does not depend on the
  turns, requests end by their deadline, partial output is never seen under the output's name even with
  other processes about, and a session replaces the output in one step or not at all.  What it puts
  there is what the plugins compute for the input, and the reversed operation restores it.  Typed pipelines are
  cut off at their deadline, validation accepts exactly what the validator accepts.

  \<^bold>\<open>Parameters.\<close>  Code outside the repository is a parameter with named laws: the ciphers and HKDF
  (\<open>aead_ok\<close>), \<open>createHmac\<close> (\<open>hmac_ok\<close>), \<open>zlib\<close> (\<open>zlib_ok\<close>), \<open>msgpackr\<close> and the text conversions of the
  runtime (\<open>runtime_ok\<close>, \<open>multiple_ok\<close>), and caller-owned plugins, validators and steps, which are arbitrary.  The
  operating system's calls are defined, and what it may do is a parameter: which calls fail, how many bytes a
  transfer moves, and the actions of other processes between calls (\<open>others_ok\<close> keeps them off descriptors
  and inodes they cannot reach; \<open>quiet\<close> says there are none).  Each law has a
  concrete instance that the witnesses use.

  \<^bold>\<open>Termination and bounds.\<close>  Loops are total functions, with a measure on the bytes or attempts left
  where the recursion is not structural; no fuel is used.  Machine integers are 8-bit words for bytes
  and naturals or integers elsewhere, with the safe-integer range checked where the code checks it.
  Waiting is explicit: a promise may stay \<open>Pending\<close> and an operation may hang.

  \<^bold>\<open>Not modelled.\<close>  The Windows session of \<open>secureFiles.ts\<close> (\<open>kernel32\<close> and \<open>ntdll\<close> through \<open>koffi\<close>), the
  benchmark plugin of \<open>performance.ts\<close>, the re-exports of the entry points, scripts and tests.
  A chunk is written to the temporary file within one turn of the pipeline, the input is read as it is when
  the pipeline starts, one text stands for that of every system error, and of permissions only the check of
  the private mode is kept.  Backpressure only delays the turns of a stage, so it has no state of its own.
  \<open>binary_run\<close>, \<open>binary_undo\<close> and the file operations describe one operation from its start to its end; other
  requests of the same engine interleave only in the step relation of \<open>Engine\<close>.
\<close>

end
